(* ===== verification/Prelude.thy ===== *)
theory Prelude
  imports Main "HOL-Library.Word" "HOL-Library.Monad_Syntax" "HOL-Library.Multiset"
begin

text \<open>
  Shared vocabulary of the development: the machine integer types of the 32-bit target, the
  byte-copy primitive the C code calls \<open>memcpy\<close>, C's assertion macro, and the generic list,
  option and word lemmas that the component theories use.

  Results of type \<open>'a option\<close> follow one convention throughout: \<open>None\<close> means that the C call
  does not return (an assertion failed and \<open>vAssertCalled\<close> aborted, a null pointer was
  dereferenced, or a loop never ends); \<open>Some\<close> carries the value and the new state.
\<close>

section \<open>Machine types\<close>

type_synonym u8 = "8 word"
type_synonym u16 = "16 word"
type_synonym u32 = "32 word"

text \<open>Facts about words that move a goal to natural numbers.\<close>

named_theorems word_nat "unsigned 32-bit arithmetic read on the natural numbers"

lemma unat_of_nat_u32 [word_nat]: "n < 2 ^ 32 \<Longrightarrow> unat (of_nat n :: u32) = n"
  by (simp add: unat_of_nat)

lemma of_nat_u32_eq_0_iff: "n < 2 ^ 32 \<Longrightarrow> (of_nat n :: u32) = 0 \<longleftrightarrow> n = 0"
  by (simp only: unat_0_iff [symmetric] unat_of_nat_u32)

text \<open>Comparing numbers below \<open>2 ^ 32\<close> through their words.\<close>

lemma of_nat_u32_eq_iff: "a < 2 ^ 32 \<Longrightarrow> b < 2 ^ 32 \<Longrightarrow> (of_nat a :: u32) = of_nat b \<longleftrightarrow> a = b"
  by (metis unat_of_nat_u32)

lemma of_nat_u32_less_iff: "a < 2 ^ 32 \<Longrightarrow> b < 2 ^ 32 \<Longrightarrow> (of_nat a :: u32) < of_nat b \<longleftrightarrow> a < b"
  by (simp add: word_less_nat_alt unat_of_nat_u32)

lemma of_nat_u32_le_iff: "a < 2 ^ 32 \<Longrightarrow> b < 2 ^ 32 \<Longrightarrow> (of_nat a :: u32) \<le> of_nat b \<longleftrightarrow> a \<le> b"
  by (simp add: word_le_nat_alt unat_of_nat_u32)

lemmas of_nat_u32_iffs = of_nat_u32_eq_iff of_nat_u32_less_iff of_nat_u32_le_iff

lemma unat_add_u32 [word_nat]:
  "unat (a :: u32) + unat b < 2 ^ 32 \<Longrightarrow> unat (a + b) = unat a + unat b"
  by (simp add: unat_word_ariths)

lemma unat_sub_u32 [word_nat]: "(b :: u32) \<le> a \<Longrightarrow> unat (a - b) = unat a - unat b"
  by (simp add: unat_sub word_le_nat_alt)

lemma u32_less_split: "(d :: u32) < e \<Longrightarrow> unat (e - d) = unat e - unat d \<and> unat d < unat e"
  by (simp add: unat_sub word_less_nat_alt word_le_nat_alt)

lemma u32_ge_split: "\<not> (d :: u32) < e \<Longrightarrow> unat (d - e) = unat d - unat e \<and> unat e \<le> unat d"
  by (simp add: unat_sub word_le_nat_alt not_less)

lemma unat_lt_u32: "unat (a :: u32) < 2 ^ 32"
  using unsigned_less [of a] by simp

lemma u32_add_sub_cancel: "unat ((a + b) - a) = unat (b :: u32)"
  by simp

section \<open>Assertions and copies\<close>

text \<open>\<open>configASSERT\<close>: a false condition calls \<open>vAssertCalled\<close>, which never returns.\<close>

definition configASSERT :: "bool \<Rightarrow> unit option" where
  "configASSERT b = (if b then Some () else None)"

lemma configASSERT_simps [simp]:
  "configASSERT True = Some ()" "configASSERT False = None"
  by (simp_all add: configASSERT_def)

lemma configASSERT_eq_Some [simp]: "configASSERT b = Some u \<longleftrightarrow> b"
  by (simp add: configASSERT_def)

lemma configASSERT_bind_Some [simp]:
  "(configASSERT b \<bind> f = Some y) \<longleftrightarrow> b \<and> f () = Some y"
  by (simp add: configASSERT_def)

text \<open>
  \<open>memcpy dst off src\<close> overwrites \<open>dst\<close> from offset \<open>off\<close> with the bytes \<open>src\<close>. A copy that
  would run past the end of the destination is undefined behaviour in C and is \<open>None\<close> here.
\<close>

definition memcpy :: "'a list \<Rightarrow> nat \<Rightarrow> 'a list \<Rightarrow> 'a list option" where
  "memcpy dst off src =
     (if off + length src \<le> length dst
      then Some (take off dst @ src @ drop (off + length src) dst) else None)"

text \<open>\<open>memread src off n\<close> is the \<open>n\<close> bytes at \<open>off\<close>, the source side of a copy.\<close>

definition memread :: "'a list \<Rightarrow> nat \<Rightarrow> nat \<Rightarrow> 'a list option" where
  "memread src off n = (if off + n \<le> length src then Some (take n (drop off src)) else None)"

lemma memcpy_length: "memcpy dst off src = Some d \<Longrightarrow> length d = length dst"
  by (auto simp: memcpy_def split: if_splits)

lemma memcpy_nth:
  assumes "memcpy dst off src = Some d" and "i < length dst"
  shows "d ! i = (if off \<le> i \<and> i < off + length src then src ! (i - off) else dst ! i)"
  using assms by (auto simp: memcpy_def nth_append split: if_splits)

lemma memread_length: "memread src off n = Some d \<Longrightarrow> length d = n"
  by (auto simp: memread_def split: if_splits)

lemma memread_nth: "memread src off n = Some d \<Longrightarrow> i < n \<Longrightarrow> d ! i = src ! (off + i)"
  by (auto simp: memread_def split: if_splits)

lemma memread_map_nth:
  "off + n \<le> length src \<Longrightarrow> memread src off n = Some (map (\<lambda>i. src ! (off + i)) [0..<n])"
  by (auto simp: memread_def intro: nth_equalityI)

section \<open>Lists\<close>

lemma takeWhile_append_dropWhile: "takeWhile P xs @ dropWhile P xs = xs"
  by simp

lemma distinct_split_unique:
  "distinct (ys @ x # zs) \<Longrightarrow> ys @ x # zs = ys' @ x # zs' \<Longrightarrow> ys = ys' \<and> zs = zs'"
proof (induction ys arbitrary: ys')
  case Nil
  then show ?case by (cases ys') auto
next
  case (Cons y ys)
  then show ?case by (cases ys') fastforce+
qed

lemma takeWhile_dropWhile_True [simp]:
  "takeWhile (\<lambda>x. True) xs = xs" "dropWhile (\<lambda>x. True) xs = []"
  by (induction xs) auto

lemma sorted_insert_between:
  assumes "sorted xs" and "sorted zs" and "\<And>x. x \<in> set xs \<Longrightarrow> x \<le> v" and "\<And>z. z \<in> set zs \<Longrightarrow> v \<le> z"
  shows "sorted (xs @ v # zs)"
proof -
  have "x \<le> z" if "x \<in> set xs" "z \<in> set (v # zs)" for x z
    using assms(3) [OF that(1)] assms(4) [of z] that(2) by (cases "z = v") auto
  moreover have "sorted (v # zs)" using assms(2,4) by simp
  ultimately show ?thesis using assms(1) by (simp only: sorted_append) blast
qed

lemma filter_neq_id: "x \<notin> set xs \<Longrightarrow> filter (\<lambda>y. y \<noteq> x) xs = xs"
  by (induction xs) auto

end
