(* ===== verification/Lists.thy ===== *)
theory Lists
  imports Prelude
begin

text \<open>
  The kernel's circular doubly linked list: \<open>src/libraries/freertos/list.c\<close> and the access
  macros of \<open>src/libraries/freertos/include/list.h\<close>. The first part is the pointer structure
  as the C code has it, a store of list items and list headers linked by \<open>pxNext\<close> and
  \<open>pxPrevious\<close>; the second part is an abstract view of it (for each list the sequence of its
  items and the position of \<open>pxIndex\<close>), with a simulation lemma for every operation.
\<close>

section \<open>The pointer structure\<close>

text \<open>
  A \<open>ListItem_t *\<close> is null, points to an item, or points to the end marker \<open>xListEnd\<close> inside a
  list header, cast to \<open>ListItem_t *\<close>. Items are named by \<open>'i\<close>, list headers by \<open>'l\<close>.
\<close>

datatype ('i, 'l) node = NULL | Item 'i | End 'l

text \<open>
  \<open>struct xMINI_LIST_ITEM\<close> is the common initial part of \<open>struct xLIST_ITEM\<close>, which the code
  relies on when it casts \<open>&xListEnd\<close>; the record extension is that layout. The integrity
  check bytes are configured away.
\<close>

record ('i, 'l) MiniListItem_t =
  xItemValue :: u32
  pxNext :: "('i, 'l) node"
  pxPrevious :: "('i, 'l) node"

record ('i, 'l, 'o) ListItem_t = "('i, 'l) MiniListItem_t" +
  pvOwner :: "'o option"
  pxContainer :: "'l option"

record ('i, 'l) List_t =
  uxNumberOfItems :: u32
  pxIndex :: "('i, 'l) node"
  xListEnd :: "('i, 'l) MiniListItem_t"

record ('i, 'l, 'o) store =
  item :: "'i \<Rightarrow> ('i, 'l, 'o) ListItem_t"
  lst :: "'l \<Rightarrow> ('i, 'l) List_t"

definition portMAX_DELAY :: u32 where
  "portMAX_DELAY = 0xffffffff"

lemma le_portMAX_DELAY [simp]: "v \<le> portMAX_DELAY"
proof -
  have "unat v < 2 ^ 32" by (rule unat_lt_u32)
  then show ?thesis by (simp add: portMAX_DELAY_def word_le_nat_alt)
qed

lemma portMAX_DELAY_le [simp]: "portMAX_DELAY \<le> v \<longleftrightarrow> v = portMAX_DELAY"
  by (metis antisym le_portMAX_DELAY order_refl)

text \<open>Field access through a pointer. A null pointer has no fields.\<close>

definition upd_item ::
  "'i \<Rightarrow> (('i, 'l, 'o) ListItem_t \<Rightarrow> ('i, 'l, 'o) ListItem_t) \<Rightarrow> ('i, 'l, 'o) store \<Rightarrow> ('i, 'l, 'o) store" where
  "upd_item i f s = s\<lparr>item := (item s)(i := f (item s i))\<rparr>"

definition upd_lst ::
  "'l \<Rightarrow> (('i, 'l) List_t \<Rightarrow> ('i, 'l) List_t) \<Rightarrow> ('i, 'l, 'o) store \<Rightarrow> ('i, 'l, 'o) store" where
  "upd_lst l f s = s\<lparr>lst := (lst s)(l := f (lst s l))\<rparr>"

fun get_next :: "('i, 'l, 'o) store \<Rightarrow> ('i, 'l) node \<Rightarrow> ('i, 'l) node option" where
  "get_next s NULL = None"
| "get_next s (Item i) = Some (pxNext (item s i))"
| "get_next s (End l) = Some (pxNext (xListEnd (lst s l)))"

fun get_prev :: "('i, 'l, 'o) store \<Rightarrow> ('i, 'l) node \<Rightarrow> ('i, 'l) node option" where
  "get_prev s NULL = None"
| "get_prev s (Item i) = Some (pxPrevious (item s i))"
| "get_prev s (End l) = Some (pxPrevious (xListEnd (lst s l)))"

fun get_value :: "('i, 'l, 'o) store \<Rightarrow> ('i, 'l) node \<Rightarrow> u32 option" where
  "get_value s NULL = None"
| "get_value s (Item i) = Some (xItemValue (item s i))"
| "get_value s (End l) = Some (xItemValue (xListEnd (lst s l)))"

text \<open>The end marker has no owner field: reading it there is out of bounds.\<close>

fun get_owner :: "('i, 'l, 'o) store \<Rightarrow> ('i, 'l) node \<Rightarrow> 'o option option" where
  "get_owner s NULL = None"
| "get_owner s (Item i) = Some (pvOwner (item s i))"
| "get_owner s (End l) = None"

fun set_next :: "('i, 'l) node \<Rightarrow> ('i, 'l) node \<Rightarrow> ('i, 'l, 'o) store \<Rightarrow> ('i, 'l, 'o) store option" where
  "set_next NULL q s = None"
| "set_next (Item i) q s = Some (upd_item i (\<lambda>x. x\<lparr>pxNext := q\<rparr>) s)"
| "set_next (End l) q s = Some (upd_lst l (\<lambda>x. x\<lparr>xListEnd := (xListEnd x)\<lparr>pxNext := q\<rparr>\<rparr>) s)"

fun set_prev :: "('i, 'l) node \<Rightarrow> ('i, 'l) node \<Rightarrow> ('i, 'l, 'o) store \<Rightarrow> ('i, 'l, 'o) store option" where
  "set_prev NULL q s = None"
| "set_prev (Item i) q s = Some (upd_item i (\<lambda>x. x\<lparr>pxPrevious := q\<rparr>) s)"
| "set_prev (End l) q s = Some (upd_lst l (\<lambda>x. x\<lparr>xListEnd := (xListEnd x)\<lparr>pxPrevious := q\<rparr>\<rparr>) s)"

section \<open>The operations of list.c\<close>

definition vListInitialise :: "'l \<Rightarrow> ('i, 'l, 'o) store \<Rightarrow> ('i, 'l, 'o) store" where
  "vListInitialise l s = upd_lst l (\<lambda>x. x\<lparr>
     pxIndex := End l,
     xListEnd := (xListEnd x)\<lparr>xItemValue := portMAX_DELAY, pxNext := End l, pxPrevious := End l\<rparr>,
     uxNumberOfItems := 0\<rparr>) s"

definition vListInitialiseItem :: "'i \<Rightarrow> ('i, 'l, 'o) store \<Rightarrow> ('i, 'l, 'o) store" where
  "vListInitialiseItem i s = upd_item i (\<lambda>x. x\<lparr>pxContainer := None\<rparr>) s"

definition vListInsertEnd :: "'l \<Rightarrow> 'i \<Rightarrow> ('i, 'l, 'o) store \<Rightarrow> ('i, 'l, 'o) store option" where
  "vListInsertEnd l i s = do {
     let idx = pxIndex (lst s l);
     s \<leftarrow> set_next (Item i) idx s;
     p \<leftarrow> get_prev s idx;
     s \<leftarrow> set_prev (Item i) p s;
     p \<leftarrow> get_prev s idx;
     s \<leftarrow> set_next p (Item i) s;
     s \<leftarrow> set_prev idx (Item i) s;
     let s = upd_item i (\<lambda>x. x\<lparr>pxContainer := Some l\<rparr>) s;
     Some (upd_lst l (\<lambda>x. x\<lparr>uxNumberOfItems := uxNumberOfItems x + 1\<rparr>) s)
   }"

text \<open>
  The search loop of \<open>vListInsert\<close>: it stops at the first node whose successor has a larger
  value. It need not stop on a damaged list, hence the option-valued recursion.
\<close>

partial_function (option) vListInsert_loop ::
  "('i, 'l, 'o) store \<Rightarrow> u32 \<Rightarrow> ('i, 'l) node \<Rightarrow> ('i, 'l) node option" where
  "vListInsert_loop s v it = do {
     n \<leftarrow> get_next s it;
     x \<leftarrow> get_value s n;
     (if x \<le> v then vListInsert_loop s v n else Some it)
   }"

definition vListInsert :: "'l \<Rightarrow> 'i \<Rightarrow> ('i, 'l, 'o) store \<Rightarrow> ('i, 'l, 'o) store option" where
  "vListInsert l i s = do {
     let v = xItemValue (item s i);
     it \<leftarrow> (if v = portMAX_DELAY then Some (pxPrevious (xListEnd (lst s l)))
            else vListInsert_loop s v (End l));
     n \<leftarrow> get_next s it;
     s \<leftarrow> set_next (Item i) n s;
     n \<leftarrow> get_next s (Item i);
     s \<leftarrow> set_prev n (Item i) s;
     s \<leftarrow> set_prev (Item i) it s;
     s \<leftarrow> set_next it (Item i) s;
     let s = upd_item i (\<lambda>x. x\<lparr>pxContainer := Some l\<rparr>) s;
     Some (upd_lst l (\<lambda>x. x\<lparr>uxNumberOfItems := uxNumberOfItems x + 1\<rparr>) s)
   }"

text \<open>\<open>uxListRemove\<close> returns the number of items left; an item in no list has a null container.\<close>

definition uxListRemove :: "'i \<Rightarrow> ('i, 'l, 'o) store \<Rightarrow> (u32 \<times> ('i, 'l, 'o) store) option" where
  "uxListRemove i s = do {
     l \<leftarrow> pxContainer (item s i);
     n \<leftarrow> get_next s (Item i);
     p \<leftarrow> get_prev s (Item i);
     s \<leftarrow> set_prev n p s;
     p \<leftarrow> get_prev s (Item i);
     n \<leftarrow> get_next s (Item i);
     s \<leftarrow> set_next p n s;
     p \<leftarrow> get_prev s (Item i);
     let s = (if pxIndex (lst s l) = Item i then upd_lst l (\<lambda>x. x\<lparr>pxIndex := p\<rparr>) s else s);
     let s = upd_item i (\<lambda>x. x\<lparr>pxContainer := None\<rparr>) s;
     let s = upd_lst l (\<lambda>x. x\<lparr>uxNumberOfItems := uxNumberOfItems x - 1\<rparr>) s;
     Some (uxNumberOfItems (lst s l), s)
   }"

section \<open>The macros of list.h\<close>

definition listSET_LIST_ITEM_VALUE :: "'i \<Rightarrow> u32 \<Rightarrow> ('i, 'l, 'o) store \<Rightarrow> ('i, 'l, 'o) store" where
  "listSET_LIST_ITEM_VALUE i v s = upd_item i (\<lambda>x. x\<lparr>xItemValue := v\<rparr>) s"

definition listSET_LIST_ITEM_OWNER :: "'i \<Rightarrow> 'o \<Rightarrow> ('i, 'l, 'o) store \<Rightarrow> ('i, 'l, 'o) store" where
  "listSET_LIST_ITEM_OWNER i t s = upd_item i (\<lambda>x. x\<lparr>pvOwner := Some t\<rparr>) s"

definition listLIST_IS_EMPTY :: "'l \<Rightarrow> ('i, 'l, 'o) store \<Rightarrow> bool" where
  "listLIST_IS_EMPTY l s \<longleftrightarrow> uxNumberOfItems (lst s l) = 0"

definition listIS_CONTAINED_WITHIN :: "'l option \<Rightarrow> 'i \<Rightarrow> ('i, 'l, 'o) store \<Rightarrow> bool" where
  "listIS_CONTAINED_WITHIN l i s \<longleftrightarrow> pxContainer (item s i) = l"

definition listGET_ITEM_VALUE_OF_HEAD_ENTRY :: "'l \<Rightarrow> ('i, 'l, 'o) store \<Rightarrow> u32 option" where
  "listGET_ITEM_VALUE_OF_HEAD_ENTRY l s = get_value s (pxNext (xListEnd (lst s l)))"

definition listGET_OWNER_OF_HEAD_ENTRY :: "'l \<Rightarrow> ('i, 'l, 'o) store \<Rightarrow> 'o option option" where
  "listGET_OWNER_OF_HEAD_ENTRY l s = get_owner s (pxNext (xListEnd (lst s l)))"

text \<open>The round-robin step: advance \<open>pxIndex\<close>, skip the end marker once, return the owner.\<close>

definition listGET_OWNER_OF_NEXT_ENTRY ::
  "'l \<Rightarrow> ('i, 'l, 'o) store \<Rightarrow> ('o option \<times> ('i, 'l, 'o) store) option" where
  "listGET_OWNER_OF_NEXT_ENTRY l s = do {
     n \<leftarrow> get_next s (pxIndex (lst s l));
     let s = upd_lst l (\<lambda>x. x\<lparr>pxIndex := n\<rparr>) s;
     s \<leftarrow> (if pxIndex (lst s l) = End l
           then do { n \<leftarrow> get_next s (pxIndex (lst s l)); Some (upd_lst l (\<lambda>x. x\<lparr>pxIndex := n\<rparr>) s) }
           else Some s);
     t \<leftarrow> get_owner s (pxIndex (lst s l));
     Some (t, s)
   }"

text \<open>
  The inline copies of \<open>vListInsertEnd\<close> and \<open>uxListRemove\<close> that \<open>xTaskIncrementTick\<close> uses; the second
  returns nothing and unlinks in the same order.
\<close>

definition listINSERT_END :: "'l \<Rightarrow> 'i \<Rightarrow> ('i, 'l, 'o) store \<Rightarrow> ('i, 'l, 'o) store option" where
  "listINSERT_END l i s = do {
     let idx = pxIndex (lst s l);
     s \<leftarrow> set_next (Item i) idx s;
     p \<leftarrow> get_prev s idx;
     s \<leftarrow> set_prev (Item i) p s;
     p \<leftarrow> get_prev s idx;
     s \<leftarrow> set_next p (Item i) s;
     s \<leftarrow> set_prev idx (Item i) s;
     let s = upd_item i (\<lambda>x. x\<lparr>pxContainer := Some l\<rparr>) s;
     Some (upd_lst l (\<lambda>x. x\<lparr>uxNumberOfItems := uxNumberOfItems x + 1\<rparr>) s)
   }"

definition listREMOVE_ITEM :: "'i \<Rightarrow> ('i, 'l, 'o) store \<Rightarrow> ('i, 'l, 'o) store option" where
  "listREMOVE_ITEM i s = do {
     l \<leftarrow> pxContainer (item s i);
     n \<leftarrow> get_next s (Item i);
     p \<leftarrow> get_prev s (Item i);
     s \<leftarrow> set_prev n p s;
     p \<leftarrow> get_prev s (Item i);
     n \<leftarrow> get_next s (Item i);
     s \<leftarrow> set_next p n s;
     p \<leftarrow> get_prev s (Item i);
     let s = (if pxIndex (lst s l) = Item i then upd_lst l (\<lambda>x. x\<lparr>pxIndex := p\<rparr>) s else s);
     let s = upd_item i (\<lambda>x. x\<lparr>pxContainer := None\<rparr>) s;
     Some (upd_lst l (\<lambda>x. x\<lparr>uxNumberOfItems := uxNumberOfItems x - 1\<rparr>) s)
   }"

section \<open>The abstract view\<close>

text \<open>
  Each list is the sequence of its items, in \<open>pxNext\<close> order from the end marker, and the item
  \<open>pxIndex\<close> points to (\<open>None\<close> for the end marker).
\<close>

record ('i, 'l) alists =
  elems :: "'l \<Rightarrow> 'i list"
  cursor :: "'l \<Rightarrow> 'i option"
  itemval :: "'i \<Rightarrow> u32"
  holder :: "'i \<Rightarrow> 'l option"

definition before_cursor :: "('i, 'l) alists \<Rightarrow> 'l \<Rightarrow> 'i list" where
  "before_cursor a l = (case cursor a l of None \<Rightarrow> elems a l
     | Some c \<Rightarrow> takeWhile (\<lambda>x. x \<noteq> c) (elems a l))"

definition from_cursor :: "('i, 'l) alists \<Rightarrow> 'l \<Rightarrow> 'i list" where
  "from_cursor a l = (case cursor a l of None \<Rightarrow> []
     | Some c \<Rightarrow> dropWhile (\<lambda>x. x \<noteq> c) (elems a l))"

definition a_init :: "'l \<Rightarrow> ('i, 'l) alists \<Rightarrow> ('i, 'l) alists" where
  "a_init l a = a\<lparr>elems := (elems a)(l := []), cursor := (cursor a)(l := None)\<rparr>"

definition a_insert_end :: "'l \<Rightarrow> 'i \<Rightarrow> ('i, 'l) alists \<Rightarrow> ('i, 'l) alists" where
  "a_insert_end l i a = a\<lparr>
     elems := (elems a)(l := before_cursor a l @ i # from_cursor a l),
     holder := (holder a)(i := Some l)\<rparr>"

definition a_insert :: "'l \<Rightarrow> 'i \<Rightarrow> ('i, 'l) alists \<Rightarrow> ('i, 'l) alists" where
  "a_insert l i a = (let le = (\<lambda>x. itemval a x \<le> itemval a i) in a\<lparr>
     elems := (elems a)(l := takeWhile le (elems a l) @ i # dropWhile le (elems a l)),
     holder := (holder a)(i := Some l)\<rparr>)"

definition pred_in :: "'i list \<Rightarrow> 'i \<Rightarrow> 'i option" where
  "pred_in xs i = (let ys = takeWhile (\<lambda>x. x \<noteq> i) xs in if ys = [] then None else Some (last ys))"

definition a_remove :: "'i \<Rightarrow> ('i, 'l) alists \<Rightarrow> ('i, 'l) alists" where
  "a_remove i a = (case holder a i of None \<Rightarrow> a
     | Some l \<Rightarrow> a\<lparr>
         elems := (elems a)(l := filter (\<lambda>x. x \<noteq> i) (elems a l)),
         cursor := (cursor a)(l := if cursor a l = Some i then pred_in (elems a l) i else cursor a l),
         holder := (holder a)(i := None)\<rparr>)"

text \<open>The items in the order in which the round-robin step will return them.\<close>

definition upcoming :: "('i, 'l) alists \<Rightarrow> 'l \<Rightarrow> 'i list" where
  "upcoming a l = (case from_cursor a l of [] \<Rightarrow> elems a l
     | c # zs \<Rightarrow> zs @ before_cursor a l @ [c])"

definition a_next :: "'l \<Rightarrow> ('i, 'l) alists \<Rightarrow> ('i, 'l) alists" where
  "a_next l a = a\<lparr>cursor := (cursor a)(l := Some (hd (upcoming a l)))\<rparr>"

definition a_set_value :: "'i \<Rightarrow> u32 \<Rightarrow> ('i, 'l) alists \<Rightarrow> ('i, 'l) alists" where
  "a_set_value i v a = a\<lparr>itemval := (itemval a)(i := v)\<rparr>"

text \<open>Well-formed abstract lists: every item is in at most one list, at most once.\<close>

definition alists_ok :: "'l set \<Rightarrow> ('i, 'l) alists \<Rightarrow> bool" where
  "alists_ok L a \<longleftrightarrow> (\<forall>l \<in> L. distinct (elems a l) \<and> length (elems a l) < 2 ^ 32
     \<and> (\<forall>c. cursor a l = Some c \<longrightarrow> c \<in> set (elems a l))
     \<and> (\<forall>i. i \<in> set (elems a l) \<longleftrightarrow> holder a i = Some l))"

section \<open>Doubly linked paths\<close>

definition nx :: "('i, 'l, 'o) store \<Rightarrow> ('i, 'l) node \<Rightarrow> ('i, 'l) node" where
  "nx s p = (case get_next s p of None \<Rightarrow> NULL | Some q \<Rightarrow> q)"

definition pv :: "('i, 'l, 'o) store \<Rightarrow> ('i, 'l) node \<Rightarrow> ('i, 'l) node" where
  "pv s p = (case get_prev s p of None \<Rightarrow> NULL | Some q \<Rightarrow> q)"

fun links :: "(('i, 'l) node \<Rightarrow> ('i, 'l) node) \<Rightarrow> (('i, 'l) node \<Rightarrow> ('i, 'l) node)
    \<Rightarrow> ('i, 'l) node \<Rightarrow> 'i list \<Rightarrow> ('i, 'l) node \<Rightarrow> bool" where
  "links f g p [] q \<longleftrightarrow> f p = q \<and> g q = p"
| "links f g p (x # xs) q \<longleftrightarrow> f p = Item x \<and> g (Item x) = p \<and> links f g (Item x) xs q"

definition last_node :: "('i, 'l) node \<Rightarrow> 'i list \<Rightarrow> ('i, 'l) node" where
  "last_node p xs = (if xs = [] then p else Item (last xs))"

definition first_node :: "'i list \<Rightarrow> ('i, 'l) node \<Rightarrow> ('i, 'l) node" where
  "first_node xs q = (if xs = [] then q else Item (hd xs))"

lemma last_node_simps [simp]:
  "last_node p [] = p" "last_node p (xs @ [x]) = Item x" "last_node p (x # xs) = last_node (Item x) xs"
  by (simp_all add: last_node_def)

lemma first_node_simps [simp]: "first_node [] q = q" "first_node (x # xs) q = Item x"
  by (simp_all add: first_node_def)

lemma links_append:
  "links f g p (ys @ zs) q \<longleftrightarrow>
     links f g p ys (first_node zs q) \<and> (case zs of [] \<Rightarrow> True | z # zs' \<Rightarrow> links f g (Item z) zs' q)"
  by (induction ys arbitrary: p) (cases zs, auto)+

lemma links_middle: "links f g p (ys @ x # zs) q \<longleftrightarrow> links f g p ys (Item x) \<and> links f g (Item x) zs q"
  by (simp add: links_append)

lemma links_split:
  "links f g p (ys @ zs) q \<Longrightarrow>
     f (last_node p ys) = first_node zs q \<and> g (first_node zs q) = last_node p ys"
proof (induction ys arbitrary: p)
  case Nil
  then show ?case by (cases zs) auto
qed auto

lemma links_cong:
  assumes "\<And>x. x = p \<or> x \<in> Item ` set xs \<Longrightarrow> f x = f' x"
    and "\<And>x. x = q \<or> x \<in> Item ` set xs \<Longrightarrow> g x = g' x"
  shows "links f g p xs q \<longleftrightarrow> links f' g' p xs q"
  using assms by (induction xs arbitrary: p) auto

text \<open>Splicing a node into a path, and unlinking one, each with two writes per direction.\<close>

lemma first_node_cases: "first_node zs q = q \<or> first_node zs q \<in> Item ` set zs"
  by (cases zs) auto

lemma last_node_cases: "last_node p ys = p \<or> last_node p ys \<in> Item ` set ys"
  by (auto simp: last_node_def)

lemma links_insert:
  assumes "links f g p (ys @ zs) q" and "distinct (ys @ zs)" and "i \<notin> set (ys @ zs)"
    and "p \<notin> Item ` (insert i (set (ys @ zs)))" and "q \<notin> Item ` (insert i (set (ys @ zs)))"
  shows "links (f(Item i := first_node zs q, last_node p ys := Item i))
               (g(first_node zs q := Item i, Item i := last_node p ys)) p (ys @ i # zs) q"
  using assms
proof (induction ys arbitrary: p)
  case Nil
  show ?case
  proof (cases zs)
    case Nil
    with Nil.prems show ?thesis by auto
  next
    case (Cons z zs')
    with Nil.prems have "links (f(Item i := Item z, p := Item i)) (g(Item z := Item i, Item i := p)) (Item z) zs' q"
      by (subst links_cong [where f' = f and g' = g]) (auto simp: image_iff)
    with Cons Nil.prems show ?thesis by (auto simp del: fun_upd_apply) (auto simp: image_iff)
  qed
next
  case (Cons y ys)
  have "last_node (Item y) ys \<noteq> p"
    using Cons.prems(4) last_node_cases [of "Item y" ys] by auto
  moreover have "first_node zs q \<noteq> Item y"
    using Cons.prems(2,5) first_node_cases [of zs q] by auto
  ultimately show ?case using Cons.prems Cons.IH [of "Item y"] by (auto simp: image_iff)
qed

lemma links_remove:
  assumes "links f g p (ys @ i # zs) q" and "distinct (ys @ i # zs)"
    and "p \<notin> Item ` set (ys @ i # zs)" and "q \<notin> Item ` set (ys @ i # zs)"
  shows "links (f(last_node p ys := first_node zs q)) (g(first_node zs q := last_node p ys)) p (ys @ zs) q"
  using assms
proof (induction ys arbitrary: p)
  case Nil
  show ?case
  proof (cases zs)
    case Nil
    with Nil.prems show ?thesis by auto
  next
    case (Cons z zs')
    with Nil.prems have "links (f(p := Item z)) (g(Item z := p)) (Item z) zs' q"
      by (subst links_cong [where f' = f and g' = g]) (auto simp: image_iff)
    with Cons Nil.prems show ?thesis by (auto simp del: fun_upd_apply) (auto simp: image_iff)
  qed
next
  case (Cons y ys)
  have "last_node (Item y) ys \<noteq> p"
    using Cons.prems(3) last_node_cases [of "Item y" ys] by auto
  moreover have "first_node zs q \<noteq> Item y"
    using Cons.prems(2,4) first_node_cases [of zs q] by auto
  ultimately show ?case using Cons.prems Cons.IH [of "Item y"] by (auto simp: image_iff)
qed

section \<open>Representation\<close>

text \<open>
  A store represents abstract lists on a set \<open>L\<close> of initialised headers: each of them is a
  ring through its items, with the length, index, values and containers that the abstract view
  gives.
\<close>

definition list_rep :: "('i, 'l, 'o) store \<Rightarrow> ('i, 'l) alists \<Rightarrow> 'l \<Rightarrow> bool" where
  "list_rep s a l \<longleftrightarrow>
     links (nx s) (pv s) (End l) (elems a l) (End l)
     \<and> xItemValue (xListEnd (lst s l)) = portMAX_DELAY
     \<and> uxNumberOfItems (lst s l) = of_nat (length (elems a l))
     \<and> pxIndex (lst s l) = (case cursor a l of None \<Rightarrow> End l | Some c \<Rightarrow> Item c)"

definition rep :: "'l set \<Rightarrow> ('i, 'l, 'o) store \<Rightarrow> ('i, 'l) alists \<Rightarrow> bool" where
  "rep L s a \<longleftrightarrow> alists_ok L a \<and> (\<forall>l \<in> L. list_rep s a l)
     \<and> (\<forall>i. xItemValue (item s i) = itemval a i) \<and> (\<forall>i. pxContainer (item s i) = holder a i)"

lemma repD:
  assumes "rep L s a" and "l \<in> L"
  shows "links (nx s) (pv s) (End l) (elems a l) (End l)"
    and "distinct (elems a l)" and "length (elems a l) < 2 ^ 32"
    and "i \<in> set (elems a l) \<longleftrightarrow> holder a i = Some l"
    and "cursor a l = Some c \<Longrightarrow> c \<in> set (elems a l)"
    and "xItemValue (xListEnd (lst s l)) = portMAX_DELAY"
    and "uxNumberOfItems (lst s l) = of_nat (length (elems a l))"
    and "pxIndex (lst s l) = (case cursor a l of None \<Rightarrow> End l | Some c \<Rightarrow> Item c)"
  using assms by (auto simp: rep_def list_rep_def alists_ok_def)

lemma rep_item:
  "rep L s a \<Longrightarrow> xItemValue (item s i) = itemval a i"
  "rep L s a \<Longrightarrow> pxContainer (item s i) = holder a i"
  by (simp_all only: rep_def)

lemma rep_ok: "rep L s a \<Longrightarrow> alists_ok L a"
  by (simp only: rep_def)

subsection \<open>How writes change the links\<close>

named_theorems store_simps "reads after writes in the list store"

lemma nx_simps [simp]: "nx s (Item i) = pxNext (item s i)" "nx s (End l) = pxNext (xListEnd (lst s l))"
    "nx s NULL = NULL"
  by (simp_all add: nx_def)

lemma pv_simps [simp]: "pv s (Item i) = pxPrevious (item s i)" "pv s (End l) = pxPrevious (xListEnd (lst s l))"
    "pv s NULL = NULL"
  by (simp_all add: pv_def)

lemma get_next_nx: "p \<noteq> NULL \<Longrightarrow> get_next s p = Some (nx s p)"
  by (cases p) auto

lemma get_prev_pv: "p \<noteq> NULL \<Longrightarrow> get_prev s p = Some (pv s p)"
  by (cases p) auto

text \<open>The total form of a field write, for a pointer known not to be null.\<close>

definition put_next :: "('i, 'l) node \<Rightarrow> ('i, 'l) node \<Rightarrow> ('i, 'l, 'o) store \<Rightarrow> ('i, 'l, 'o) store" where
  "put_next p q s = the (set_next p q s)"

definition put_prev :: "('i, 'l) node \<Rightarrow> ('i, 'l) node \<Rightarrow> ('i, 'l, 'o) store \<Rightarrow> ('i, 'l, 'o) store" where
  "put_prev p q s = the (set_prev p q s)"

lemma set_next_put: "p \<noteq> NULL \<Longrightarrow> set_next p q s = Some (put_next p q s)"
  by (cases p) (auto simp: put_next_def)

lemma set_prev_put: "p \<noteq> NULL \<Longrightarrow> set_prev p q s = Some (put_prev p q s)"
  by (cases p) (auto simp: put_prev_def)

lemma nx_put_at:
  "p \<noteq> NULL \<Longrightarrow> nx (put_next p q s) x = ((nx s)(p := q)) x" "p \<noteq> NULL \<Longrightarrow> nx (put_prev p q s) x = nx s x"
  by (cases p; cases x; simp add: put_next_def put_prev_def upd_item_def upd_lst_def)+

lemma pv_put_at:
  "p \<noteq> NULL \<Longrightarrow> pv (put_prev p q s) x = ((pv s)(p := q)) x" "p \<noteq> NULL \<Longrightarrow> pv (put_next p q s) x = pv s x"
  by (cases p; cases x; simp add: put_next_def put_prev_def upd_item_def upd_lst_def)+

lemma links_put [store_simps]:
  "p \<noteq> NULL \<Longrightarrow> nx (put_next p q s) = (nx s)(p := q)" "p \<noteq> NULL \<Longrightarrow> nx (put_prev p q s) = nx s"
  "p \<noteq> NULL \<Longrightarrow> pv (put_prev p q s) = (pv s)(p := q)" "p \<noteq> NULL \<Longrightarrow> pv (put_next p q s) = pv s"
  by (rule ext, simp add: nx_put_at pv_put_at)+

lemma put_frame [store_simps]:
  "p \<noteq> NULL \<Longrightarrow> xItemValue (item (put_next p q s) j) = xItemValue (item s j)"
  "p \<noteq> NULL \<Longrightarrow> pxContainer (item (put_next p q s) j) = pxContainer (item s j)"
  "p \<noteq> NULL \<Longrightarrow> pvOwner (item (put_next p q s) j) = pvOwner (item s j)"
  "p \<noteq> NULL \<Longrightarrow> xItemValue (xListEnd (lst (put_next p q s) m)) = xItemValue (xListEnd (lst s m))"
  "p \<noteq> NULL \<Longrightarrow> uxNumberOfItems (lst (put_next p q s) m) = uxNumberOfItems (lst s m)"
  "p \<noteq> NULL \<Longrightarrow> pxIndex (lst (put_next p q s) m) = pxIndex (lst s m)"
  "p \<noteq> NULL \<Longrightarrow> xItemValue (item (put_prev p q s) j) = xItemValue (item s j)"
  "p \<noteq> NULL \<Longrightarrow> pxContainer (item (put_prev p q s) j) = pxContainer (item s j)"
  "p \<noteq> NULL \<Longrightarrow> pvOwner (item (put_prev p q s) j) = pvOwner (item s j)"
  "p \<noteq> NULL \<Longrightarrow> xItemValue (xListEnd (lst (put_prev p q s) m)) = xItemValue (xListEnd (lst s m))"
  "p \<noteq> NULL \<Longrightarrow> uxNumberOfItems (lst (put_prev p q s) m) = uxNumberOfItems (lst s m)"
  "p \<noteq> NULL \<Longrightarrow> pxIndex (lst (put_prev p q s) m) = pxIndex (lst s m)"
  by (cases p; simp add: put_next_def put_prev_def upd_item_def upd_lst_def)+

lemma upd_frame [store_simps]:
  "item (upd_lst l f s) = item s" "lst (upd_item i g s) = lst s"
  "item (upd_item i g s) = (item s)(i := g (item s i))"
  "lst (upd_lst l f s) = (lst s)(l := f (lst s l))"
  by (simp_all add: upd_lst_def upd_item_def)

lemma nx_pv_upd [store_simps]:
  "(\<And>x. pxNext (f x) = pxNext x) \<Longrightarrow> nx (upd_item i f s) = nx s"
  "(\<And>x. pxPrevious (f x) = pxPrevious x) \<Longrightarrow> pv (upd_item i f s) = pv s"
  "(\<And>x. xListEnd (g x) = xListEnd x) \<Longrightarrow> nx (upd_lst l g s) = nx s"
  "(\<And>x. xListEnd (g x) = xListEnd x) \<Longrightarrow> pv (upd_lst l g s) = pv s"
  by (rule ext, case_tac x; simp add: nx_def pv_def upd_item_def upd_lst_def)+

subsection \<open>Inserting and removing a node keeps the representation\<close>

lemma alists_ok_disjoint:
  "alists_ok L a \<Longrightarrow> l \<in> L \<Longrightarrow> m \<in> L \<Longrightarrow> m \<noteq> l \<Longrightarrow> x \<in> set (elems a l) \<Longrightarrow> x \<notin> set (elems a m)"
  by (auto simp: alists_ok_def)

text \<open>Writing the links of nodes of list \<open>l\<close>, or of items in no list, leaves the other lists alone.\<close>

lemma links_other:
  assumes rep: "rep L s a" and "l \<in> L" "m \<in> L" "m \<noteq> l"
    and f: "\<And>x. x \<noteq> End l \<Longrightarrow> x \<notin> Item ` (set (elems a l) \<union> {j. holder a j = None}) \<Longrightarrow> f x = nx s x"
    and g: "\<And>x. x \<noteq> End l \<Longrightarrow> x \<notin> Item ` (set (elems a l) \<union> {j. holder a j = None}) \<Longrightarrow> g x = pv s x"
  shows "links f g (End m) (elems a m) (End m)"
proof -
  have ok: "alists_ok L a" using rep by (rule rep_ok)
  have dis: "x \<noteq> End l \<and> x \<notin> Item ` (set (elems a l) \<union> {j. holder a j = None})"
    if "x = End m \<or> x \<in> Item ` set (elems a m)" for x
    using that assms(2-4) ok by (auto simp: alists_ok_def)
  have "links f g (End m) (elems a m) (End m) \<longleftrightarrow> links (nx s) (pv s) (End m) (elems a m) (End m)"
    by (rule links_cong) (use dis f g in auto)
  then show ?thesis using repD(1) [OF rep \<open>m \<in> L\<close>] by simp
qed

lemma rep_insertI:
  assumes rep: "rep L s a" and l: "l \<in> L" and e: "elems a l = ys @ zs" and i: "holder a i = None"
    and len: "length (elems a l) + 1 < 2 ^ 32"
    and nx': "nx s' = (nx s)(Item i := first_node zs (End l), last_node (End l) ys := Item i)"
    and pv': "pv s' = (pv s)(first_node zs (End l) := Item i, Item i := last_node (End l) ys)"
    and val: "\<And>j. xItemValue (item s' j) = xItemValue (item s j)"
    and con: "\<And>j. pxContainer (item s' j) = (if j = i then Some l else pxContainer (item s j))"
    and endv: "\<And>m. xItemValue (xListEnd (lst s' m)) = xItemValue (xListEnd (lst s m))"
    and num: "\<And>m. uxNumberOfItems (lst s' m) = (if m = l then uxNumberOfItems (lst s m) + 1 else uxNumberOfItems (lst s m))"
    and idx: "\<And>m. pxIndex (lst s' m) = pxIndex (lst s m)"
  shows "rep L s' (a\<lparr>elems := (elems a)(l := ys @ i # zs), holder := (holder a)(i := Some l)\<rparr>)"
    (is "rep L s' ?a'")
proof -
  have ok: "alists_ok L a" using rep by (rule rep_ok)
  have i_out: "i \<notin> set (elems a m)" if "m \<in> L" for m
    using ok i that by (auto simp: alists_ok_def)
  have i_yz: "i \<notin> set ys" "i \<notin> set zs"
    using i_out [OF l] e by simp_all
  have ok': "alists_ok L ?a'"
    unfolding alists_ok_def
  proof (intro ballI)
    fix m
    assume m: "m \<in> L"
    note facts = repD(2,3,5) [OF rep m] repD(4) [OF rep m]
    show "distinct (elems ?a' m) \<and> length (elems ?a' m) < 2 ^ 32
      \<and> (\<forall>c. cursor ?a' m = Some c \<longrightarrow> c \<in> set (elems ?a' m))
      \<and> (\<forall>j. j \<in> set (elems ?a' m) \<longleftrightarrow> holder ?a' j = Some m)"
      using facts e i_yz len i by (cases "m = l") auto
  qed
  have nodes: "last_node (End l) ys \<in> insert (End l) (Item ` set (elems a l))"
      "first_node zs (End l) \<in> insert (End l) (Item ` set (elems a l))"
    using last_node_cases [of "End l" ys] first_node_cases [of zs "End l"] e by auto
  have "list_rep s' ?a' m" if m: "m \<in> L" for m
  proof (cases "m = l")
    case True
    have "links (nx s') (pv s') (End l) (ys @ i # zs) (End l)"
      unfolding nx' pv' by (rule links_insert) (use repD(1,2) [OF rep l] e i_out [OF l] in auto)
    with True show ?thesis using repD(6-8) [OF rep l] e by (simp add: list_rep_def endv num idx)
  next
    case False
    have "links (nx s') (pv s') (End m) (elems a m) (End m)"
    proof (rule links_other [OF rep l m False])
      fix x
      assume x: "x \<noteq> End l" "x \<notin> Item ` (set (elems a l) \<union> {j. holder a j = None})"
      then have "x \<noteq> Item i" "x \<noteq> last_node (End l) ys" "x \<noteq> first_node zs (End l)"
        using nodes i by auto
      then show "nx s' x = nx s x" "pv s' x = pv s x" by (simp_all add: nx' pv')
    qed
    with False show ?thesis using repD(6-8) [OF rep m] by (simp add: list_rep_def endv num idx)
  qed
  moreover have "xItemValue (item s' j) = itemval ?a' j" "pxContainer (item s' j) = holder ?a' j" for j
    by (simp_all add: val con rep_item [OF rep])
  ultimately show ?thesis using ok' by (simp add: rep_def)
qed

lemma rep_removeI:
  assumes rep: "rep L s a" and l: "l \<in> L" and e: "elems a l = ys @ i # zs" and i: "holder a i = Some l"
    and nx': "nx s' = (nx s)(last_node (End l) ys := first_node zs (End l))"
    and pv': "pv s' = (pv s)(first_node zs (End l) := last_node (End l) ys)"
    and val: "\<And>j. xItemValue (item s' j) = xItemValue (item s j)"
    and con: "\<And>j. pxContainer (item s' j) = (if j = i then None else pxContainer (item s j))"
    and endv: "\<And>m. xItemValue (xListEnd (lst s' m)) = xItemValue (xListEnd (lst s m))"
    and num: "\<And>m. uxNumberOfItems (lst s' m) = (if m = l then uxNumberOfItems (lst s m) - 1 else uxNumberOfItems (lst s m))"
    and idx: "\<And>m. pxIndex (lst s' m) =
      (if m = l \<and> pxIndex (lst s m) = Item i then last_node (End l) ys else pxIndex (lst s m))"
  shows "rep L s' (a_remove i a)"
proof -
  have dist: "distinct (ys @ i # zs)" using repD(2) [OF rep l] e by simp
  have tw: "takeWhile (\<lambda>x. x \<noteq> i) (ys @ i # zs) = ys"
    using dist by (subst takeWhile_append2) auto
  have fl: "filter (\<lambda>x. x \<noteq> i) ys = ys" "filter (\<lambda>x. x \<noteq> i) zs = zs"
    using dist by (simp_all add: filter_neq_id)
  have a': "a_remove i a = a\<lparr>elems := (elems a)(l := ys @ zs),
      cursor := (cursor a)(l := if cursor a l = Some i then (if ys = [] then None else Some (last ys)) else cursor a l),
      holder := (holder a)(i := None)\<rparr>"
    by (simp add: a_remove_def i e fl pred_in_def tw)
  have ok': "alists_ok L (a_remove i a)"
    unfolding alists_ok_def
  proof (intro ballI)
    fix m
    assume m: "m \<in> L"
    note facts = repD(2,3,5) [OF rep m] repD(4) [OF rep m]
    show "distinct (elems (a_remove i a) m) \<and> length (elems (a_remove i a) m) < 2 ^ 32
      \<and> (\<forall>c. cursor (a_remove i a) m = Some c \<longrightarrow> c \<in> set (elems (a_remove i a) m))
      \<and> (\<forall>j. j \<in> set (elems (a_remove i a) m) \<longleftrightarrow> holder (a_remove i a) j = Some m)"
    proof (cases "m = l")
      case True
      have mem: "j \<in> set ys \<or> j \<in> set zs \<longleftrightarrow> holder a j = Some l \<and> j \<noteq> i" for j
        using repD(4) [OF rep l, of j] e dist by auto
      have cur: "c \<in> set ys \<or> c \<in> set zs" if "cursor a l = Some c" "c \<noteq> i" for c
        using repD(5) [OF rep l that(1)] that(2) e by auto
      have "ys \<noteq> [] \<Longrightarrow> holder a (last ys) = Some l"
        using repD(4) [OF rep l, of "last ys"] e by simp
      then show ?thesis using True a' mem cur dist repD(3) [OF rep l] e by (auto split: if_splits)
    next
      case False
      with facts a' i show ?thesis by auto
    qed
  qed
  have nodes: "last_node (End l) ys \<in> insert (End l) (Item ` set (elems a l))"
      "first_node zs (End l) \<in> insert (End l) (Item ` set (elems a l))"
    using last_node_cases [of "End l" ys] first_node_cases [of zs "End l"] e by auto
  have "list_rep s' (a_remove i a) m" if m: "m \<in> L" for m
  proof (cases "m = l")
    case True
    have "links (nx s') (pv s') (End l) (ys @ zs) (End l)"
      unfolding nx' pv' by (rule links_remove) (use repD(1,2) [OF rep l] e in auto)
    moreover have "pxIndex (lst s' l) = (case cursor (a_remove i a) l of None \<Rightarrow> End l | Some c \<Rightarrow> Item c)"
      using repD(8) [OF rep l] by (auto simp: idx a' last_node_def split: option.splits)
    ultimately show ?thesis
      using True repD(6,7) [OF rep l] e by (simp add: list_rep_def endv num a')
  next
    case False
    have "links (nx s') (pv s') (End m) (elems a m) (End m)"
    proof (rule links_other [OF rep l m False])
      fix x
      assume x: "x \<noteq> End l" "x \<notin> Item ` (set (elems a l) \<union> {j. holder a j = None})"
      then have "x \<noteq> last_node (End l) ys" "x \<noteq> first_node zs (End l)"
        using nodes by auto
      then show "nx s' x = nx s x" "pv s' x = pv s x" by (simp_all add: nx' pv')
    qed
    with False show ?thesis using repD(6-8) [OF rep m] by (simp add: list_rep_def endv num idx a')
  qed
  moreover have "xItemValue (item s' j) = itemval (a_remove i a) j"
      "pxContainer (item s' j) = holder (a_remove i a) j" for j
    by (simp_all add: val con rep_item [OF rep] a')
  ultimately show ?thesis using ok' by (simp add: rep_def)
qed

section \<open>The operations simulate the abstract ones\<close>

declare get_next.simps [simp del] get_prev.simps [simp del] set_next.simps [simp del] set_prev.simps [simp del]

lemma links_not_NULL:
  assumes "links f g (End l) (ys @ zs) (End l)"
  shows "f (last_node (End l) ys) \<noteq> NULL" "g (first_node zs (End l)) \<noteq> NULL"
    "last_node (End l) ys \<noteq> NULL" "first_node zs (End l) \<noteq> NULL"
    "f (last_node (End l) ys) = first_node zs (End l)" "g (first_node zs (End l)) = last_node (End l) ys"
  using links_split [OF assms] last_node_cases [of "End l" ys] first_node_cases [of zs "End l"] by auto

lemma cursor_split:
  assumes "rep L s a" and "l \<in> L"
  shows "elems a l = before_cursor a l @ from_cursor a l"
    and "pxIndex (lst s l) = first_node (from_cursor a l) (End l)"
proof -
  show "elems a l = before_cursor a l @ from_cursor a l"
    by (simp add: before_cursor_def from_cursor_def split: option.splits)
  show "pxIndex (lst s l) = first_node (from_cursor a l) (End l)"
  proof (cases "cursor a l")
    case None
    then show ?thesis using repD(8) [OF assms] by (simp add: from_cursor_def)
  next
    case (Some c)
    then have "c \<in> set (elems a l)" by (rule repD(5) [OF assms])
    then obtain ys zs where "elems a l = ys @ c # zs" "c \<notin> set ys"
      by (blast dest: split_list_first)
    then have "\<exists>zs. dropWhile (\<lambda>x. x \<noteq> c) (elems a l) = c # zs"
      by (auto simp: dropWhile_append)
    then show ?thesis using Some repD(8) [OF assms] by (auto simp: from_cursor_def)
  qed
qed

theorem vListInsertEnd_sim:
  assumes rep: "rep L s a" and l: "l \<in> L" and i: "holder a i = None"
    and len: "length (elems a l) + 1 < 2 ^ 32"
  shows "\<exists>s'. vListInsertEnd l i s = Some s' \<and> rep L s' (a_insert_end l i a)
    \<and> (\<forall>j. pvOwner (item s' j) = pvOwner (item s j))"
proof -
  let ?ys = "before_cursor a l" and ?zs = "from_cursor a l"
  let ?p = "last_node (End l) ?ys" and ?n = "first_node ?zs (End l)"
  note split = cursor_split [OF rep l]
  have lk: "links (nx s) (pv s) (End l) (?ys @ ?zs) (End l)"
    using repD(1) [OF rep l] split(1) by simp
  note nn = links_not_NULL [OF lk]
  have n_i: "?n \<noteq> Item i" and p_i: "?p \<noteq> Item i"
    using first_node_cases [of ?zs "End l"] last_node_cases [of "End l" ?ys] split(1) repD(4) [OF rep l, of i] i
    by auto
  define s1 where "s1 = put_next (Item i) ?n s"
  define s2 where "s2 = put_prev (Item i) ?p s1"
  define s3 where "s3 = put_next ?p (Item i) s2"
  define s4 where "s4 = put_prev ?n (Item i) s3"
  define s5 where "s5 = upd_item i (\<lambda>x. x\<lparr>pxContainer := Some l\<rparr>) s4"
  define s6 where "s6 = upd_lst l (\<lambda>x. x\<lparr>uxNumberOfItems := uxNumberOfItems x + 1\<rparr>) s5"
  note defs = s1_def s2_def s3_def s4_def s5_def s6_def
  have pv2: "pv s1 ?n = ?p" "pv s2 ?n = ?p"
    using nn n_i by (simp_all add: defs store_simps)
  have "vListInsertEnd l i s = Some s6"
    unfolding vListInsertEnd_def Let_def split(2)
    using nn n_i p_i pv2 by (simp add: get_prev_pv set_next_put set_prev_put defs [symmetric])
  moreover have "rep L s6 (a_insert_end l i a)"
    unfolding a_insert_end_def
    by (rule rep_insertI [OF rep l split(1) i len])
       (use nn n_i p_i in \<open>simp_all add: defs store_simps fun_upd_twist\<close>)
  moreover have "pvOwner (item s6 j) = pvOwner (item s j)" for j
    using nn by (simp add: defs store_simps)
  ultimately show ?thesis by blast
qed

lemma vListInsert_loop_stops:
  assumes "links (nx s) (pv s) p zs (End l)" and "p \<noteq> NULL"
    and "xItemValue (xListEnd (lst s l)) = portMAX_DELAY" and "v \<noteq> portMAX_DELAY"
  shows "vListInsert_loop s v p = Some (last_node p (takeWhile (\<lambda>x. xItemValue (item s x) \<le> v) zs))"
  using assms
proof (induction zs arbitrary: p)
  case Nil
  then show ?case by (subst vListInsert_loop.simps) (simp add: get_next_nx)
next
  case (Cons z zs)
  then show ?case by (subst vListInsert_loop.simps) (simp add: get_next_nx)
qed

theorem vListInsert_sim:
  assumes rep: "rep L s a" and l: "l \<in> L" and i: "holder a i = None"
    and len: "length (elems a l) + 1 < 2 ^ 32"
  shows "\<exists>s'. vListInsert l i s = Some s' \<and> rep L s' (a_insert l i a)
    \<and> (\<forall>j. pvOwner (item s' j) = pvOwner (item s j))"
proof -
  let ?v = "itemval a i" and ?le = "\<lambda>x. itemval a x \<le> itemval a i"
  let ?ys = "takeWhile ?le (elems a l)" and ?zs = "dropWhile ?le (elems a l)"
  let ?p = "last_node (End l) ?ys" and ?n = "first_node ?zs (End l)"
  have split: "elems a l = ?ys @ ?zs" by simp
  have lk: "links (nx s) (pv s) (End l) (?ys @ ?zs) (End l)"
    using repD(1) [OF rep l] by simp
  note nn = links_not_NULL [OF lk]
  have n_i: "?n \<noteq> Item i" and p_i: "?p \<noteq> Item i"
    using first_node_cases [of ?zs "End l"] last_node_cases [of "End l" ?ys] repD(4) [OF rep l, of i] i
    by (auto dest: set_takeWhileD set_dropWhileD)
  have it: "(if ?v = portMAX_DELAY then Some (pxPrevious (xListEnd (lst s l)))
             else vListInsert_loop s ?v (End l)) = Some ?p"
  proof (cases "?v = portMAX_DELAY")
    case True
    then have "?ys = elems a l" "?zs = []" by simp_all
    then show ?thesis using True nn(6) by simp
  next
    case False
    with vListInsert_loop_stops [OF repD(1) [OF rep l] _ repD(6) [OF rep l], of ?v]
    show ?thesis by (simp add: rep_item [OF rep])
  qed
  define s1 where "s1 = put_next (Item i) ?n s"
  define s2 where "s2 = put_prev ?n (Item i) s1"
  define s3 where "s3 = put_prev (Item i) ?p s2"
  define s4 where "s4 = put_next ?p (Item i) s3"
  define s5 where "s5 = upd_item i (\<lambda>x. x\<lparr>pxContainer := Some l\<rparr>) s4"
  define s6 where "s6 = upd_lst l (\<lambda>x. x\<lparr>uxNumberOfItems := uxNumberOfItems x + 1\<rparr>) s5"
  note defs = s1_def s2_def s3_def s4_def s5_def s6_def
  have nx1: "nx s1 (Item i) = ?n"
    by (simp only: defs store_simps node.simps fun_upd_apply if_True simp_thms not_False_eq_True)
  have "vListInsert l i s = Some s6"
    unfolding vListInsert_def Let_def rep_item(1) [OF rep] it
    using nn n_i p_i nx1 by (simp add: get_next_nx set_next_put set_prev_put defs [symmetric] del: nx_simps)
  moreover have "rep L s6 (a_insert l i a)"
    unfolding a_insert_def Let_def
    by (rule rep_insertI [OF rep l split i len])
       (use nn n_i p_i in \<open>simp_all add: defs store_simps fun_upd_twist\<close>)
  moreover have "pvOwner (item s6 j) = pvOwner (item s j)" for j
    using nn by (simp add: defs store_simps)
  ultimately show ?thesis by blast
qed

theorem uxListRemove_sim:
  assumes rep: "rep L s a" and l: "l \<in> L" and i: "holder a i = Some l"
  shows "\<exists>s'. uxListRemove i s = Some (of_nat (length (elems (a_remove i a) l)), s')
    \<and> rep L s' (a_remove i a) \<and> (\<forall>j. pvOwner (item s' j) = pvOwner (item s j))"
proof -
  have "i \<in> set (elems a l)" using repD(4) [OF rep l] i by simp
  then obtain ys zs where e: "elems a l = ys @ i # zs" by (meson split_list)
  let ?p = "last_node (End l) ys" and ?n = "first_node zs (End l)"
  have dist: "distinct (ys @ i # zs)" using repD(2) [OF rep l] e by simp
  have lk: "links (nx s) (pv s) (End l) (ys @ i # zs) (End l)"
    using repD(1) [OF rep l] e by simp
  have nxi: "nx s (Item i) = ?n" using links_split [of "nx s" "pv s" "End l" "ys @ [i]" zs] lk by simp
  have pvi: "pv s (Item i) = ?p" using links_split [of "nx s" "pv s" "End l" ys "i # zs"] lk by simp
  have nn: "?p \<noteq> NULL" "?n \<noteq> NULL" "?p \<noteq> Item i" "?n \<noteq> Item i"
    using last_node_cases [of "End l" ys] first_node_cases [of zs "End l"] dist by auto
  define s1 where "s1 = put_prev ?n ?p s"
  define s2 where "s2 = put_next ?p ?n s1"
  define s3 where "s3 = (if pxIndex (lst s2 l) = Item i then upd_lst l (\<lambda>x. x\<lparr>pxIndex := ?p\<rparr>) s2 else s2)"
  define s4 where "s4 = upd_item i (\<lambda>x. x\<lparr>pxContainer := None\<rparr>) s3"
  define s5 where "s5 = upd_lst l (\<lambda>x. x\<lparr>uxNumberOfItems := uxNumberOfItems x - 1\<rparr>) s4"
  note defs = s1_def s2_def s3_def s4_def s5_def
  have pv1: "pv s1 (Item i) = ?p" "nx s1 (Item i) = ?n" "pv s2 (Item i) = ?p"
    using nn nxi pvi by (simp_all add: defs store_simps del: nx_simps pv_simps)
  have "uxListRemove i s = Some (uxNumberOfItems (lst s5 l), s5)"
    unfolding uxListRemove_def Let_def rep_item(2) [OF rep] i
    using nn nxi pvi pv1
    by (simp add: get_next_nx get_prev_pv set_next_put set_prev_put s1_def [symmetric] s2_def [symmetric]
        del: nx_simps pv_simps) (simp add: s3_def s4_def s5_def)
  moreover have r: "rep L s5 (a_remove i a)"
    by (rule rep_removeI [OF rep l e i])
       (use nn in \<open>simp_all add: defs store_simps\<close>)
  moreover have "pvOwner (item s5 j) = pvOwner (item s j)" for j
    using nn by (simp add: defs store_simps)
  ultimately show ?thesis using repD(7) [OF r l] by auto
qed

theorem vListInitialise_sim:
  assumes rep: "rep L s a" and fresh: "\<And>i. holder a i \<noteq> Some l"
  shows "rep (insert l L) (vListInitialise l s) (a_init l a)"
proof -
  have eqs: "nx (vListInitialise l s) = (nx s)(End l := End l)" "pv (vListInitialise l s) = (pv s)(End l := End l)"
    by (rule ext, case_tac x; simp add: vListInitialise_def nx_def pv_def upd_lst_def get_next.simps get_prev.simps)+
  have "list_rep (vListInitialise l s) (a_init l a) m" if m: "m \<in> insert l L" for m
  proof (cases "m = l")
    case True
    then show ?thesis by (simp add: list_rep_def eqs a_init_def) (simp add: vListInitialise_def upd_lst_def)
  next
    case False
    with m have "m \<in> L" by simp
    have "links ((nx s)(End l := End l)) ((pv s)(End l := End l)) (End m) (elems a m) (End m)
        \<longleftrightarrow> links (nx s) (pv s) (End m) (elems a m) (End m)"
      by (rule links_cong) (use False in auto)
    then show ?thesis
      using False repD(1,6-8) [OF rep \<open>m \<in> L\<close>]
      by (simp add: list_rep_def eqs a_init_def) (simp add: vListInitialise_def upd_lst_def)
  qed
  moreover have "alists_ok (insert l L) (a_init l a)"
    using rep_ok [OF rep] fresh by (auto simp: alists_ok_def a_init_def)
  moreover have "xItemValue (item (vListInitialise l s) i) = itemval (a_init l a) i"
      "pxContainer (item (vListInitialise l s) i) = holder (a_init l a) i" for i
    by (simp_all add: vListInitialise_def a_init_def upd_lst_def rep_item [OF rep])
  ultimately show ?thesis by (simp add: rep_def)
qed

lemma upcoming_ne: "elems a l \<noteq> [] \<Longrightarrow> upcoming a l \<noteq> []"
  by (auto simp: upcoming_def split: list.splits)

lemma set_upcoming: "set (upcoming a l) = set (elems a l)"
proof -
  have "elems a l = before_cursor a l @ from_cursor a l"
    by (simp add: before_cursor_def from_cursor_def split: option.splits)
  then have "set (elems a l) = set (before_cursor a l) \<union> set (from_cursor a l)"
    by (metis set_append)
  then show ?thesis by (auto simp: upcoming_def split: list.splits)
qed

theorem listGET_OWNER_OF_NEXT_ENTRY_sim:
  assumes rep: "rep L s a" and l: "l \<in> L" and ne: "elems a l \<noteq> []"
  shows "\<exists>s'. listGET_OWNER_OF_NEXT_ENTRY l s = Some (pvOwner (item s (hd (upcoming a l))), s')
    \<and> rep L s' (a_next l a) \<and> (\<forall>j. pvOwner (item s' j) = pvOwner (item s j))"
proof -
  let ?c = "hd (upcoming a l)"
  define s1 where "s1 = upd_lst l (\<lambda>x. x\<lparr>pxIndex := Item ?c\<rparr>) s"
  note split = cursor_split [OF rep l]
  have lk: "links (nx s) (pv s) (End l) (before_cursor a l @ from_cursor a l) (End l)"
    using repD(1) [OF rep l] split(1) by simp
  have idx: "pxIndex (lst s l) = first_node (from_cursor a l) (End l)" by (rule split(2))
  have nxE: "nx s (End l) = Item (hd (elems a l))"
    using repD(1) [OF rep l] ne by (cases "elems a l") auto
  have "listGET_OWNER_OF_NEXT_ENTRY l s = Some (pvOwner (item s ?c), s1)"
  proof (cases "from_cursor a l")
    case Nil
    then show ?thesis using nxE idx
      by (simp add: listGET_OWNER_OF_NEXT_ENTRY_def get_next_nx upcoming_def s1_def Let_def del: nx_simps)
         (simp add: upd_lst_def)
  next
    case (Cons c zs)
    have nc: "nx s (Item c) = first_node zs (End l)"
      using links_split [of "nx s" "pv s" "End l" "before_cursor a l @ [c]" zs] lk Cons by simp
    show ?thesis
    proof (cases zs)
      case (Cons z zs')
      then show ?thesis using nc idx \<open>from_cursor a l = c # zs\<close>
        by (simp add: listGET_OWNER_OF_NEXT_ENTRY_def get_next_nx upcoming_def s1_def Let_def del: nx_simps)
           (simp add: upd_lst_def)
    next
      case Nil
      have "elems a l = before_cursor a l @ [c]" using split(1) Cons Nil by simp
      then have hd: "hd (elems a l) = ?c" using Cons Nil by (simp add: upcoming_def)
      show ?thesis using nc idx Cons Nil nxE hd
        by (simp add: listGET_OWNER_OF_NEXT_ENTRY_def get_next_nx s1_def Let_def store_simps del: nx_simps)
    qed
  qed
  moreover have "rep L s1 (a_next l a)"
  proof -
    have "list_rep s1 (a_next l a) m" if m: "m \<in> L" for m
      using repD(1,6-8) [OF rep m] by (auto simp: list_rep_def s1_def store_simps a_next_def)
    moreover have "alists_ok L (a_next l a)"
      using rep_ok [OF rep] set_upcoming [of a l] upcoming_ne [OF ne]
      by (auto simp: alists_ok_def a_next_def)
    ultimately show ?thesis
      by (simp add: rep_def s1_def store_simps a_next_def rep_item [OF rep])
  qed
  moreover have "pvOwner (item s1 j) = pvOwner (item s j)" for j
    by (simp add: s1_def store_simps)
  ultimately show ?thesis by blast
qed

lemma listSET_LIST_ITEM_VALUE_sim:
  "rep L s a \<Longrightarrow> rep L (listSET_LIST_ITEM_VALUE i v s) (a_set_value i v a)"
  unfolding rep_def listSET_LIST_ITEM_VALUE_def
  by (simp add: list_rep_def alists_ok_def a_set_value_def store_simps)

lemma listLIST_IS_EMPTY_sim:
  assumes "rep L s a" and "l \<in> L"
  shows "listLIST_IS_EMPTY l s \<longleftrightarrow> elems a l = []"
proof -
  have "(of_nat (length (elems a l)) :: u32) = 0 \<longleftrightarrow> length (elems a l) = 0"
    by (rule of_nat_u32_eq_0_iff [OF repD(3) [OF assms]])
  then show ?thesis using repD(7) [OF assms] by (simp add: listLIST_IS_EMPTY_def)
qed

lemma listGET_OWNER_OF_HEAD_ENTRY_sim:
  assumes "rep L s a" and "l \<in> L" and "elems a l \<noteq> []"
  shows "listGET_OWNER_OF_HEAD_ENTRY l s = Some (pvOwner (item s (hd (elems a l))))"
    and "listGET_ITEM_VALUE_OF_HEAD_ENTRY l s = Some (itemval a (hd (elems a l)))"
  using repD(1) [OF assms(1,2)] assms(3) rep_item(1) [OF assms(1)]
  by (cases "elems a l"; simp add: listGET_OWNER_OF_HEAD_ENTRY_def listGET_ITEM_VALUE_OF_HEAD_ENTRY_def)+

section \<open>Facts about the abstract lists\<close>

lemma a_insert_elems:
  assumes "sorted (map (itemval a) (elems a l))"
  shows "sorted (map (itemval a) (elems (a_insert l i a) l))"
    and "\<exists>ys zs. elems a l = ys @ zs \<and> elems (a_insert l i a) l = ys @ i # zs
      \<and> (\<forall>y \<in> set ys. itemval a y \<le> itemval a i) \<and> (\<forall>z \<in> set zs. itemval a i < itemval a z)"
proof -
  let ?le = "\<lambda>x. itemval a x \<le> itemval a i"
  let ?ys = "takeWhile ?le (elems a l)" and ?zs = "dropWhile ?le (elems a l)"
  have y: "\<forall>y \<in> set ?ys. itemval a y \<le> itemval a i" by (auto dest: set_takeWhileD)
  have s: "sorted (map (itemval a) (?ys @ ?zs))" using assms by simp
  have z: "itemval a i < itemval a z" if "z \<in> set ?zs" for z
  proof -
    have "?zs \<noteq> []" using that by (metis empty_iff list.set(1))
    then have "itemval a i < itemval a (hd ?zs)" using hd_dropWhile [of ?le "elems a l"] by simp
    moreover have "sorted (map (itemval a) ?zs)" using s by (simp only: map_append sorted_append)
    then have "itemval a (hd ?zs) \<le> itemval a z" using that by (cases ?zs) auto
    ultimately show ?thesis by simp
  qed
  have e: "elems (a_insert l i a) l = ?ys @ i # ?zs" by (simp add: a_insert_def Let_def)
  have ss: "sorted (map (itemval a) ?ys)" "sorted (map (itemval a) ?zs)"
    using s by (simp_all only: map_append sorted_append)
  have "sorted (map (itemval a) ?ys @ itemval a i # map (itemval a) ?zs)"
  proof (rule sorted_insert_between [OF ss])
    fix v
    show "v \<in> set (map (itemval a) ?ys) \<Longrightarrow> v \<le> itemval a i"
      using y by (simp only: set_map) blast
    show "v \<in> set (map (itemval a) ?zs) \<Longrightarrow> itemval a i \<le> v"
      using z by (simp only: set_map) (blast intro: less_imp_le)
  qed
  then show "sorted (map (itemval a) (elems (a_insert l i a) l))"
    unfolding e by simp
  show "\<exists>ys zs. elems a l = ys @ zs \<and> elems (a_insert l i a) l = ys @ i # zs
      \<and> (\<forall>y \<in> set ys. itemval a y \<le> itemval a i) \<and> (\<forall>z \<in> set zs. itemval a i < itemval a z)"
    using e y z by (intro exI [of _ ?ys] exI [of _ ?zs]) (simp only: takeWhile_dropWhile_id, blast)
qed

lemma upcoming_next:
  assumes ok: "alists_ok L a" and l: "l \<in> L" and ne: "elems a l \<noteq> []"
  shows "upcoming (a_next l a) l = rotate1 (upcoming a l)"
proof -
  have dist: "distinct (elems a l)" using ok l by (simp add: alists_ok_def)
  have at: "upcoming (a_next l a) l = zs @ ys @ [x]"
    if "elems a l = ys @ x # zs" "hd (upcoming a l) = x" for x ys zs
  proof -
    have "takeWhile (\<lambda>y. y \<noteq> x) (elems a l) = ys" "dropWhile (\<lambda>y. y \<noteq> x) (elems a l) = x # zs"
      using dist that(1) by (simp_all add: takeWhile_append dropWhile_append)
    then show ?thesis
      using that by (simp add: upcoming_def a_next_def from_cursor_def before_cursor_def)
  qed
  have split: "elems a l = before_cursor a l @ from_cursor a l"
    by (simp add: before_cursor_def from_cursor_def split: option.splits)
  show ?thesis
  proof (cases "upcoming a l = elems a l")
    case True
    then show ?thesis using at [of "[]" "hd (elems a l)" "tl (elems a l)"] ne
      by (cases "elems a l") auto
  next
    case False
    then obtain c zs where fc: "from_cursor a l = c # zs" by (auto simp: upcoming_def split: list.splits)
    have "zs \<noteq> []" using False fc split by (auto simp: upcoming_def)
    then obtain z zs' where "zs = z # zs'" by (cases zs) auto
    then show ?thesis using at [of "before_cursor a l @ [c]" z zs'] split fc by (simp add: upcoming_def)
  qed
qed

lemma mset_upcoming: "mset (upcoming a l) = mset (elems a l)"
proof -
  have "elems a l = before_cursor a l @ from_cursor a l"
    by (simp add: before_cursor_def from_cursor_def split: option.splits)
  then have "mset (elems a l) = mset (before_cursor a l) + mset (from_cursor a l)"
    by (metis mset_append)
  then show ?thesis by (auto simp: upcoming_def split: list.splits)
qed

section \<open>The list interface\<close>

text \<open>
  What the kernel relies on when it keeps tasks, timers and waiting readers on lists: the
  operations below, and for each the law that it carries out the abstract operation. \<open>R\<close> relates
  a concrete state to the abstract lists it holds; \<open>L\<close> are the initialised headers.
\<close>

fun run_inserts :: "('l \<Rightarrow> 'i \<Rightarrow> 's \<Rightarrow> 's option) \<Rightarrow> 'l \<Rightarrow> 'i list \<Rightarrow> 's \<Rightarrow> 's option" where
  "run_inserts ins l [] s = Some s"
| "run_inserts ins l (i # js) s = do { s \<leftarrow> ins l i s; run_inserts ins l js s }"

fun take_owners :: "('l \<Rightarrow> 's \<Rightarrow> ('o \<times> 's) option) \<Rightarrow> 'l \<Rightarrow> nat \<Rightarrow> 's \<Rightarrow> ('o list \<times> 's) option" where
  "take_owners nxt l 0 s = Some ([], s)"
| "take_owners nxt l (Suc n) s = do {
     (t, s) \<leftarrow> nxt l s;
     (ts, s) \<leftarrow> take_owners nxt l n s;
     Some (t # ts, s)
   }"

locale kernel_list =
  fixes L :: "'l set"
    and R :: "'s \<Rightarrow> ('i, 'l) alists \<Rightarrow> bool"
    and owner :: "'s \<Rightarrow> 'i \<Rightarrow> 'o"
    and ins :: "'l \<Rightarrow> 'i \<Rightarrow> 's \<Rightarrow> 's option"
    and ins_end :: "'l \<Rightarrow> 'i \<Rightarrow> 's \<Rightarrow> 's option"
    and rmv :: "'i \<Rightarrow> 's \<Rightarrow> (u32 \<times> 's) option"
    and nxt :: "'l \<Rightarrow> 's \<Rightarrow> ('o \<times> 's) option"
  assumes R_ok: "R s a \<Longrightarrow> alists_ok L a"
    and ins_law: "R s a \<Longrightarrow> l \<in> L \<Longrightarrow> holder a i = None \<Longrightarrow> length (elems a l) + 1 < 2 ^ 32
      \<Longrightarrow> \<exists>s'. ins l i s = Some s' \<and> R s' (a_insert l i a) \<and> owner s' = owner s"
    and ins_end_law: "R s a \<Longrightarrow> l \<in> L \<Longrightarrow> holder a i = None \<Longrightarrow> length (elems a l) + 1 < 2 ^ 32
      \<Longrightarrow> \<exists>s'. ins_end l i s = Some s' \<and> R s' (a_insert_end l i a) \<and> owner s' = owner s"
    and rmv_law: "R s a \<Longrightarrow> l \<in> L \<Longrightarrow> holder a i = Some l
      \<Longrightarrow> \<exists>s'. rmv i s = Some (of_nat (length (elems (a_remove i a) l)), s')
          \<and> R s' (a_remove i a) \<and> owner s' = owner s"
    and nxt_law: "R s a \<Longrightarrow> l \<in> L \<Longrightarrow> elems a l \<noteq> []
      \<Longrightarrow> \<exists>s'. nxt l s = Some (owner s (hd (upcoming a l)), s') \<and> R s' (a_next l a) \<and> owner s' = owner s"
begin

text \<open>Inserting loose items one after another keeps a list sorted by value.\<close>

lemma run_inserts_sorted:
  assumes "R s a" and "l \<in> L" and "distinct js" and "\<forall>i \<in> set js. holder a i = None"
    and "length (elems a l) + length js < 2 ^ 32" and "sorted (map (itemval a) (elems a l))"
  shows "\<exists>s' a'. run_inserts ins l js s = Some s' \<and> R s' a' \<and> itemval a' = itemval a
    \<and> sorted (map (itemval a) (elems a' l)) \<and> mset (elems a' l) = mset (elems a l) + mset js
    \<and> (\<forall>m. m \<noteq> l \<longrightarrow> elems a' m = elems a m)"
  using assms
proof (induction "js" arbitrary: s a)
  case Nil
  then show ?case by auto
next
  case (Cons i js)
  obtain s1 where s1: "ins l i s = Some s1" "R s1 (a_insert l i a)"
    using ins_law [OF Cons.prems(1,2), of i] Cons.prems(4,5) by auto
  let ?a1 = "a_insert l i a"
  have mset1: "mset (elems ?a1 l) = add_mset i (mset (elems a l))"
    by (simp add: a_insert_def Let_def)
       (metis add_mset_add_single mset_append takeWhile_dropWhile_id union_mset_add_mset_right)
  have len1: "length (elems ?a1 l) = Suc (length (elems a l))"
    using arg_cong [OF mset1, of size] by simp
  have same: "itemval ?a1 = itemval a" "\<And>m. m \<noteq> l \<Longrightarrow> elems ?a1 m = elems a m"
    by (simp_all add: a_insert_def Let_def)
  have loose: "\<forall>j \<in> set js. holder ?a1 j = None"
    using Cons.prems(3,4) by (auto simp: a_insert_def Let_def)
  obtain s2 a2 where IH: "run_inserts ins l js s1 = Some s2" "R s2 a2" "itemval a2 = itemval ?a1"
      "sorted (map (itemval ?a1) (elems a2 l))" "mset (elems a2 l) = mset (elems ?a1 l) + mset js"
      "\<forall>m. m \<noteq> l \<longrightarrow> elems a2 m = elems ?a1 m"
    using Cons.IH [OF s1(2) Cons.prems(2) _ loose] Cons.prems(3,5) len1
      a_insert_elems(1) [OF Cons.prems(6), of i] same(1) by auto
  then show ?case using s1(1) mset1 same by auto
qed

text \<open>Inserting an item and removing it again leaves the sequence of every list as it was.\<close>

lemma insert_remove:
  assumes "R s a" and l: "l \<in> L" and i: "holder a i = None" and "length (elems a l) + 1 < 2 ^ 32"
  shows "\<exists>s1 s2 n a2. ins l i s = Some s1 \<and> rmv i s1 = Some (n, s2) \<and> R s2 a2
    \<and> elems a2 = elems a \<and> holder a2 = holder a \<and> unat n = length (elems a l)"
proof -
  let ?a1 = "a_insert l i a"
  obtain s1 where s1: "ins l i s = Some s1" "R s1 ?a1"
    using ins_law [OF assms] by auto
  have "holder ?a1 i = Some l" by (simp add: a_insert_def Let_def)
  then obtain s2 where s2: "rmv i s1 = Some (of_nat (length (elems (a_remove i ?a1) l)), s2)"
      "R s2 (a_remove i ?a1)"
    using rmv_law [OF s1(2) l] by blast
  have out: "i \<notin> set (elems a l)"
    using R_ok [OF assms(1)] l i by (auto simp: alists_ok_def)
  let ?le = "\<lambda>x. itemval a x \<le> itemval a i"
  have "filter (\<lambda>x. x \<noteq> i) (takeWhile ?le (elems a l) @ i # dropWhile ?le (elems a l))
      = filter (\<lambda>x. x \<noteq> i) (takeWhile ?le (elems a l)) @ filter (\<lambda>x. x \<noteq> i) (dropWhile ?le (elems a l))"
    by simp
  also have "\<dots> = filter (\<lambda>x. x \<noteq> i) (takeWhile ?le (elems a l) @ dropWhile ?le (elems a l))"
    by (simp only: filter_append)
  also have "\<dots> = elems a l" by (simp only: takeWhile_dropWhile_id filter_neq_id [OF out])
  finally have "elems (a_remove i ?a1) = elems a" "holder (a_remove i ?a1) = holder a"
    using i by (auto simp: a_remove_def a_insert_def Let_def fun_eq_iff)
  then show ?thesis using s1(1) s2 assms(4) by (auto simp: unat_of_nat_u32)
qed

text \<open>Round robin: as many steps as there are items return every item's owner exactly once.\<close>

lemma take_owners_upcoming:
  assumes "R s a" and "l \<in> L" and "elems a l \<noteq> []" and "n \<le> length (elems a l)"
  shows "\<exists>s' a'. take_owners nxt l n s = Some (map (owner s) (take n (upcoming a l)), s')
    \<and> R s' a' \<and> elems a' = elems a \<and> owner s' = owner s \<and> upcoming a' l = rotate n (upcoming a l)"
  using assms
proof (induction n arbitrary: s a)
  case 0
  then show ?case by auto
next
  case (Suc n)
  obtain s1 where s1: "nxt l s = Some (owner s (hd (upcoming a l)), s1)" "R s1 (a_next l a)" "owner s1 = owner s"
    using nxt_law [OF Suc.prems(1-3)] by blast
  have e1: "elems (a_next l a) = elems a" by (simp add: a_next_def)
  obtain x xs where u: "upcoming a l = x # xs" using upcoming_ne [OF Suc.prems(3)] by (cases "upcoming a l") auto
  have u1: "upcoming (a_next l a) l = xs @ [x]"
    using upcoming_next [OF R_ok [OF Suc.prems(1)] Suc.prems(2,3)] u by simp
  have len: "length (upcoming a l) = length (elems a l)"
    using arg_cong [OF mset_upcoming [of a l], of size] by simp
  obtain s2 a2 where IH: "take_owners nxt l n s1 = Some (map (owner s1) (take n (upcoming (a_next l a) l)), s2)"
      "R s2 a2" "elems a2 = elems (a_next l a)" "owner s2 = owner s1"
      "upcoming a2 l = rotate n (upcoming (a_next l a) l)"
    using Suc.IH [OF s1(2) Suc.prems(2)] Suc.prems(3,4) e1 by auto
  have "n \<le> length xs" using Suc.prems(4) len u by simp
  then have "take_owners nxt l (Suc n) s = Some (map (owner s) (take (Suc n) (upcoming a l)), s2)"
    using s1 IH(1) u u1 by simp
  moreover have "upcoming a2 l = rotate (Suc n) (upcoming a l)"
    using IH(5) u u1 by (simp add: rotate1_rotate_swap)
  ultimately show ?case using IH(2-4) s1(3) e1 by auto
qed

lemma round_robin:
  assumes "R s a" and "l \<in> L" and "elems a l \<noteq> []"
  shows "\<exists>ts s' a'. take_owners nxt l (length (elems a l)) s = Some (ts, s')
    \<and> mset ts = image_mset (owner s) (mset (elems a l))
    \<and> R s' a' \<and> elems a' = elems a \<and> upcoming a' l = upcoming a l"
proof -
  have len: "length (upcoming a l) = length (elems a l)"
    using arg_cong [OF mset_upcoming [of a l], of size] by simp
  then show ?thesis
    using take_owners_upcoming [OF assms order_refl] mset_upcoming [of a l]
    by (auto simp flip: len)
qed

end

text \<open>The pointer structure of list.c provides the interface.\<close>

interpretation ptr: kernel_list L "rep L" "\<lambda>s i. pvOwner (item s i)" vListInsert vListInsertEnd
    uxListRemove listGET_OWNER_OF_NEXT_ENTRY for L
proof (unfold_locales, unfold fun_eq_iff)
qed (rule rep_ok vListInsert_sim vListInsertEnd_sim uxListRemove_sim listGET_OWNER_OF_NEXT_ENTRY_sim; assumption)+

end
