(* ===== verification/ListClients.thy ===== *)
theory ListClients
  imports Lists
begin

text \<open>
  What users of the kernel lists may rely on, stated on the pointer structure itself: sorted and stable
  insertion, removal as the inverse of insertion, and the round robin through \<open>pxIndex\<close>.
\<close>

lemma list_macros:
  "listINSERT_END l i s = vListInsertEnd l i s"
  "listREMOVE_ITEM i s = map_option snd (uxListRemove i s)"
proof -
  show "listINSERT_END l i s = vListInsertEnd l i s"
    by (simp add: listINSERT_END_def vListInsertEnd_def)
  show "listREMOVE_ITEM i s = map_option snd (uxListRemove i s)"
    unfolding listREMOVE_ITEM_def uxListRemove_def Let_def
    by (auto simp: map_option_case bind_eq_None_conv split: option.splits Option.bind_splits)
qed

section \<open>A store for examples\<close>

text \<open>Loose items named by numbers, with values three, one, two and again, and one list.\<close>

definition loose :: "(nat, unit, nat) store" where
  "loose = \<lparr>item = (\<lambda>i. \<lparr>xItemValue = [30, 10, 20] ! (i mod 3), pxNext = NULL, pxPrevious = NULL,
       pvOwner = Some i, pxContainer = None\<rparr>),
     lst = (\<lambda>_. \<lparr>uxNumberOfItems = 7, pxIndex = NULL, xListEnd = \<lparr>xItemValue = 0, pxNext = NULL, pxPrevious = NULL\<rparr>\<rparr>)\<rparr>"

definition loose_lists :: "(nat, unit) alists" where
  "loose_lists = \<lparr>elems = (\<lambda>_. []), cursor = (\<lambda>_. None), itemval = (\<lambda>i. [30, 10, 20] ! (i mod 3)), holder = (\<lambda>_. None)\<rparr>"

lemma loose_rep: "rep {()} (vListInitialise () loose) (a_init () loose_lists)"
proof -
  have "rep {} loose loose_lists" by (simp add: rep_def alists_ok_def loose_def loose_lists_def)
  then show ?thesis by (rule vListInitialise_sim) (simp add: loose_lists_def)
qed

lemma loose_fields [simp]:
  "holder (a_init () loose_lists) i = None" "elems (a_init () loose_lists) l = []"
  "itemval (a_init () loose_lists) i = [30, 10, 20] ! (i mod 3)"
  "cursor (a_init () loose_lists) l = None"
  by (simp_all add: a_init_def loose_lists_def)

section \<open>What is promised\<close>

text \<open>
  C10: \<open>vListInsert\<close> is an insertion sort on the pointer structure: inserting any distinct loose items one
  after another into an initialised list that is sorted returns, leaves the list sorted by item value
  with exactly the old and the new items, and leaves every other list as it was.
\<close>

theorem vListInsert_sorts:
  assumes "rep L s a" and "l \<in> L" and "distinct is_new" and "\<forall>i \<in> set is_new. pxContainer (item s i) = None"
    and "length (elems a l) + length is_new < 2 ^ 32" and "sorted (map (itemval a) (elems a l))"
  shows "\<exists>s' a'. run_inserts vListInsert l is_new s = Some s' \<and> rep L s' a'
    \<and> sorted (map (\<lambda>i. xItemValue (item s' i)) (elems a' l))
    \<and> mset (elems a' l) = mset (elems a l) + mset is_new
    \<and> uxNumberOfItems (lst s' l) = of_nat (length (elems a l) + length is_new)
    \<and> (\<forall>m. m \<noteq> l \<longrightarrow> elems a' m = elems a m)"
proof -
  have "\<forall>i \<in> set is_new. holder a i = None" using assms(4) rep_item(2) [OF assms(1)] by simp
  then obtain s' a' where r: "run_inserts vListInsert l is_new s = Some s'" "rep L s' a'" "itemval a' = itemval a"
      "sorted (map (itemval a) (elems a' l))" "mset (elems a' l) = mset (elems a l) + mset is_new"
      "\<forall>m. m \<noteq> l \<longrightarrow> elems a' m = elems a m"
    using ptr.run_inserts_sorted [OF assms(1-3) _ assms(5,6)] by blast
  have "length (elems a' l) = length (elems a l) + length is_new" using arg_cong [OF r(5), of size] by simp
  then have "uxNumberOfItems (lst s' l) = of_nat (length (elems a l) + length is_new)"
    using repD(7) [OF r(2) assms(2)] by simp
  then show ?thesis using r rep_item(1) [OF r(2)] by auto
qed

lemma vListInsert_sorts_witness:
  "\<exists>s' a'. run_inserts vListInsert () [0, 1, 2, 3] (vListInitialise () loose) = Some s' \<and> rep {()} s' a'
    \<and> sorted (map (\<lambda>i. xItemValue (item s' i)) (elems a' ())) \<and> mset (elems a' ()) = mset [0, 1, 2, 3]
    \<and> uxNumberOfItems (lst s' ()) = 4"
  using vListInsert_sorts [OF loose_rep, of "()" "[0, 1, 2, 3]"]
  by (auto simp: vListInitialise_def upd_lst_def loose_def)

text \<open>
  C27: \<open>vListInsert\<close> is stable: in a sorted list the new item goes behind every item of smaller or equal
  value and in front of every item of larger value, so items of one priority are served first come,
  first served; an item with the value \<open>portMAX_DELAY\<close>, which takes the shortcut, goes last.
\<close>

theorem vListInsert_stable:
  assumes "rep L s a" and "l \<in> L" and "pxContainer (item s i) = None" and "length (elems a l) + 1 < 2 ^ 32"
    and "sorted (map (itemval a) (elems a l))"
  shows "\<exists>s' a' ys zs. vListInsert l i s = Some s' \<and> rep L s' a' \<and> elems a l = ys @ zs \<and> elems a' l = ys @ i # zs
    \<and> (\<forall>y \<in> set ys. itemval a y \<le> itemval a i) \<and> (\<forall>z \<in> set zs. itemval a i < itemval a z)
    \<and> (xItemValue (item s i) = portMAX_DELAY \<longrightarrow> zs = [])"
proof -
  have h: "holder a i = None" and v: "xItemValue (item s i) = itemval a i"
    using assms(3) rep_item [OF assms(1)] by simp_all
  obtain s' where s': "vListInsert l i s = Some s'" "rep L s' (a_insert l i a)"
    using vListInsert_sim [OF assms(1,2) h assms(4)] by blast
  obtain ys zs where e: "elems a l = ys @ zs" "elems (a_insert l i a) l = ys @ i # zs"
      "\<forall>y \<in> set ys. itemval a y \<le> itemval a i" "\<forall>z \<in> set zs. itemval a i < itemval a z"
    using a_insert_elems(2) [OF assms(5), of i] by blast
  have top: "\<not> portMAX_DELAY < w" for w by (simp only: not_less le_portMAX_DELAY)
  have "zs = []" if "itemval a i = portMAX_DELAY"
    using e(4) that top by (cases zs) auto
  then show ?thesis
    by (intro exI [of _ s'] exI [of _ "a_insert l i a"] exI [of _ ys] exI [of _ zs] conjI impI s' e) (simp_all only: v)
qed

lemma vListInsert_stable_witness:
  "\<exists>s' a' ys zs. vListInsert () 0 (vListInitialise () loose) = Some s' \<and> rep {()} s' a' \<and> elems a' () = ys @ 0 # zs \<and> [] = ys @ zs"
proof -
  have c: "pxContainer (item (vListInitialise () loose) 0) = None" by (simp add: vListInitialise_def upd_lst_def loose_def)
  show ?thesis using vListInsert_stable [OF loose_rep _ c] by force
qed

text \<open>
  \<open>uxListRemove\<close> undoes \<open>vListInsert\<close>: inserting a loose item and removing it again returns the old
  number of items and leaves the sequence and the membership of every list as they were; the inline
  \<open>listREMOVE_ITEM\<close> reaches the same state.
\<close>

theorem vListInsert_uxListRemove:
  assumes "rep L s a" and "l \<in> L" and "pxContainer (item s i) = None" and "length (elems a l) + 1 < 2 ^ 32"
  shows "\<exists>s1 s2 n a2. vListInsert l i s = Some s1 \<and> uxListRemove i s1 = Some (n, s2) \<and> listREMOVE_ITEM i s1 = Some s2
    \<and> rep L s2 a2 \<and> elems a2 = elems a \<and> holder a2 = holder a \<and> unat n = length (elems a l)"
proof -
  have h: "holder a i = None" using assms(3) rep_item(2) [OF assms(1)] by simp
  show ?thesis using ptr.insert_remove [OF assms(1,2) h assms(4)] by (auto simp: list_macros)
qed

lemma vListInsert_uxListRemove_witness:
  "\<exists>s1 s2 a2. vListInsert () 5 (vListInitialise () loose) = Some s1 \<and> uxListRemove 5 s1 = Some (0, s2)
    \<and> rep {()} s2 a2 \<and> elems a2 () = []"
proof -
  have c: "pxContainer (item (vListInitialise () loose) 5) = None" by (simp add: vListInitialise_def upd_lst_def loose_def)
  show ?thesis using vListInsert_uxListRemove [OF loose_rep _ c] by (fastforce simp: unat_eq_0)
qed

text \<open>Where \<open>vListInsertEnd\<close> puts an item in the rotation.\<close>

lemma upcoming_insert_end:
  assumes "alists_ok L a" and "l \<in> L" and "i \<notin> set (elems a l)"
  shows "upcoming (a_insert_end l i a) l
    = (case cursor a l of None \<Rightarrow> upcoming a l @ [i] | Some c \<Rightarrow> butlast (upcoming a l) @ [i, c])"
proof (cases "cursor a l")
  case None
  then show ?thesis by (simp add: upcoming_def a_insert_end_def from_cursor_def before_cursor_def)
next
  case (Some c)
  then have c: "c \<in> set (elems a l)" "c \<noteq> i" using assms by (auto simp: alists_ok_def)
  then obtain ys zs where e: "elems a l = ys @ c # zs" "c \<notin> set ys" by (meson split_list_first)
  then have "takeWhile (\<lambda>x. x \<noteq> c) (elems a l) = ys" "dropWhile (\<lambda>x. x \<noteq> c) (elems a l) = c # zs"
    "takeWhile (\<lambda>x. x \<noteq> c) (ys @ i # c # zs) = ys @ [i]" "dropWhile (\<lambda>x. x \<noteq> c) (ys @ i # c # zs) = c # zs"
    using c(2) by (auto simp: takeWhile_append dropWhile_append)
  then show ?thesis using Some c(2) e(2) by (simp add: upcoming_def a_insert_end_def from_cursor_def before_cursor_def butlast_append)
qed

text \<open>
  C33: \<open>listGET_OWNER_OF_NEXT_ENTRY\<close> is a fair round robin: as many steps as the list has items return every
  item's owner exactly once and leave the rotation where it was; an item put in with \<open>vListInsertEnd\<close> is
  served after every item that was waiting, just before the one \<open>pxIndex\<close> points at.
\<close>

theorem list_round_robin:
  assumes "rep L s a" and "l \<in> L" and "elems a l \<noteq> []"
  shows "(\<exists>ts s' a'. take_owners listGET_OWNER_OF_NEXT_ENTRY l (length (elems a l)) s = Some (ts, s')
      \<and> mset ts = image_mset (\<lambda>i. pvOwner (item s i)) (mset (elems a l)) \<and> rep L s' a' \<and> elems a' = elems a
      \<and> upcoming a' l = upcoming a l)
    \<and> (\<forall>i. holder a i = None \<and> length (elems a l) + 1 < 2 ^ 32 \<longrightarrow>
        (\<exists>s' a'. vListInsertEnd l i s = Some s' \<and> rep L s' a' \<and> upcoming a' l
          = (case cursor a l of None \<Rightarrow> upcoming a l @ [i] | Some c \<Rightarrow> butlast (upcoming a l) @ [i, c])))"
proof (intro conjI allI impI)
  show "\<exists>ts s' a'. take_owners listGET_OWNER_OF_NEXT_ENTRY l (length (elems a l)) s = Some (ts, s')
      \<and> mset ts = image_mset (\<lambda>i. pvOwner (item s i)) (mset (elems a l)) \<and> rep L s' a' \<and> elems a' = elems a
      \<and> upcoming a' l = upcoming a l"
    by (rule ptr.round_robin [OF assms])
  fix i assume i: "holder a i = None \<and> length (elems a l) + 1 < 2 ^ 32"
  then have "i \<notin> set (elems a l)" using repD(4) [OF assms(1,2)] by simp
  then show "\<exists>s' a'. vListInsertEnd l i s = Some s' \<and> rep L s' a' \<and> upcoming a' l
          = (case cursor a l of None \<Rightarrow> upcoming a l @ [i] | Some c \<Rightarrow> butlast (upcoming a l) @ [i, c])"
    using vListInsertEnd_sim [OF assms(1,2)] upcoming_insert_end [OF rep_ok [OF assms(1)] assms(2)] i by blast
qed

lemma list_round_robin_witness:
  "\<exists>s1 s2 s3 ts. vListInsertEnd () 0 (vListInitialise () loose) = Some s1 \<and> vListInsertEnd () 1 s1 = Some s2
    \<and> take_owners listGET_OWNER_OF_NEXT_ENTRY () 2 s2 = Some (ts, s3) \<and> mset ts = {#Some 0, Some 1#}"
proof -
  define a1 where "a1 = a_insert_end () 0 (a_init () loose_lists)"
  obtain s1 where s1: "vListInsertEnd () 0 (vListInitialise () loose) = Some s1" "rep {()} s1 a1"
      "\<forall>j. pvOwner (item s1 j) = pvOwner (item (vListInitialise () loose) j)"
    using vListInsertEnd_sim [OF loose_rep, of "()" 0] by (auto simp: a1_def)
  have a1: "elems a1 () = [0]" "cursor a1 () = None" "holder a1 1 = None"
    by (simp_all add: a1_def a_insert_end_def before_cursor_def from_cursor_def)
  obtain s2 where s2: "vListInsertEnd () 1 s1 = Some s2" "rep {()} s2 (a_insert_end () 1 a1)"
      "\<forall>j. pvOwner (item s2 j) = pvOwner (item s1 j)"
    using vListInsertEnd_sim [OF s1(2), of "()" 1] a1 by auto
  have e: "elems (a_insert_end () 1 a1) () = [0, 1]" using a1 by (simp add: a_insert_end_def before_cursor_def from_cursor_def)
  have own: "pvOwner (item s2 i) = Some i" for i using s1(3) s2(3) by (simp add: vListInitialise_def upd_lst_def loose_def)
  obtain ts s3 where "take_owners listGET_OWNER_OF_NEXT_ENTRY () 2 s2 = Some (ts, s3)"
      "mset ts = image_mset (\<lambda>i. pvOwner (item s2 i)) (mset [0, 1])"
    using list_round_robin [OF s2(2), of "()", unfolded e] by (auto simp: numeral_2_eq_2)
  then show ?thesis using s1(1) s2(1) by (auto simp: own)
qed

end
