(* ===== verification/Heap4.thy ===== *)
theory Heap4
  imports Prelude
begin

text \<open>
  The kernel's allocator \<open>src/libraries/freertos/portable/MemMang/heap_4.c\<close>: first fit over an
  address-ordered free list threaded through block headers, with splitting on allocation and
  coalescing on release. This theory is the code, on 32-bit addresses; \<open>Heap4Free\<close> proves its list
  walks and the insertion, \<open>Heap4Blocks\<close> that the code implements first fit and coalescing on the
  sequence of blocks that tile the heap, and \<open>Heap4Clients\<close> what a client of the allocator gets.
\<close>

section \<open>The code\<close>

text \<open>
  \<open>BlockLink_t\<close> headers live in a memory indexed by address; \<open>bytes\<close> is the payload memory the
  application sees. \<open>ucHeap\<close> and \<open>xStart\<close> are the link-time addresses of the two statics. The
  scheduler is suspended around the list operations, so each call is one step of the heap.
\<close>

record BlockLink_t =
  pxNextFreeBlock :: u32
  xBlockSize :: u32

record heap =
  mem :: "u32 \<Rightarrow> BlockLink_t"
  bytes :: "u32 \<Rightarrow> u8"
  ucHeap :: u32
  xStart :: u32
  pxEnd :: u32
  xFreeBytesRemaining :: u32
  xMinimumEverFreeBytesRemaining :: u32
  xNumberOfSuccessfulAllocations :: u32
  xNumberOfSuccessfulFrees :: u32

definition portBYTE_ALIGNMENT :: u32 where "portBYTE_ALIGNMENT = 8"
definition portBYTE_ALIGNMENT_MASK :: u32 where "portBYTE_ALIGNMENT_MASK = 7"
definition configTOTAL_HEAP_SIZE :: u32 where "configTOTAL_HEAP_SIZE = 65536"

text \<open>\<open>sizeof( BlockLink_t )\<close> is 8 on the target: a pointer and a \<open>size_t\<close>.\<close>

definition xHeapStructSize :: u32 where
  "xHeapStructSize = and (8 + (portBYTE_ALIGNMENT - 1)) (not portBYTE_ALIGNMENT_MASK)"

definition heapMINIMUM_BLOCK_SIZE :: u32 where
  "heapMINIMUM_BLOCK_SIZE = push_bit 1 xHeapStructSize"

definition heapSIZE_MAX :: u32 where "heapSIZE_MAX = not 0"

definition heapMULTIPLY_WILL_OVERFLOW :: "u32 \<Rightarrow> u32 \<Rightarrow> bool" where
  "heapMULTIPLY_WILL_OVERFLOW a b \<longleftrightarrow> a > 0 \<and> b > heapSIZE_MAX div a"

definition heapADD_WILL_OVERFLOW :: "u32 \<Rightarrow> u32 \<Rightarrow> bool" where
  "heapADD_WILL_OVERFLOW a b \<longleftrightarrow> a > heapSIZE_MAX - b"

definition heapBLOCK_ALLOCATED_BITMASK :: u32 where
  "heapBLOCK_ALLOCATED_BITMASK = push_bit 31 1"

definition heapBLOCK_SIZE_IS_VALID :: "u32 \<Rightarrow> bool" where
  "heapBLOCK_SIZE_IS_VALID n \<longleftrightarrow> and n heapBLOCK_ALLOCATED_BITMASK = 0"

definition heapBLOCK_IS_ALLOCATED :: "BlockLink_t \<Rightarrow> bool" where
  "heapBLOCK_IS_ALLOCATED b \<longleftrightarrow> and (xBlockSize b) heapBLOCK_ALLOCATED_BITMASK \<noteq> 0"

definition heapALLOCATE_BLOCK :: "BlockLink_t \<Rightarrow> BlockLink_t" where
  "heapALLOCATE_BLOCK b = b\<lparr>xBlockSize := or (xBlockSize b) heapBLOCK_ALLOCATED_BITMASK\<rparr>"

definition heapFREE_BLOCK :: "BlockLink_t \<Rightarrow> BlockLink_t" where
  "heapFREE_BLOCK b = b\<lparr>xBlockSize := and (xBlockSize b) (not heapBLOCK_ALLOCATED_BITMASK)\<rparr>"

text \<open>Reading and writing the fields of the header at an address.\<close>

abbreviation nxt :: "heap \<Rightarrow> u32 \<Rightarrow> u32" where
  "nxt h p \<equiv> pxNextFreeBlock (mem h p)"

abbreviation bsz :: "heap \<Rightarrow> u32 \<Rightarrow> u32" where
  "bsz h p \<equiv> xBlockSize (mem h p)"

definition upd_blk :: "u32 \<Rightarrow> (BlockLink_t \<Rightarrow> BlockLink_t) \<Rightarrow> heap \<Rightarrow> heap" where
  "upd_blk p f h = h\<lparr>mem := (mem h)(p := f (mem h p))\<rparr>"

abbreviation set_nxt :: "u32 \<Rightarrow> u32 \<Rightarrow> heap \<Rightarrow> heap" where
  "set_nxt p q \<equiv> upd_blk p (\<lambda>b. b\<lparr>pxNextFreeBlock := q\<rparr>)"

abbreviation set_bsz :: "u32 \<Rightarrow> u32 \<Rightarrow> heap \<Rightarrow> heap" where
  "set_bsz p n \<equiv> upd_blk p (\<lambda>b. b\<lparr>xBlockSize := n\<rparr>)"

definition prvHeapInit :: "heap \<Rightarrow> heap" where
  "prvHeapInit h =
     (let a = ucHeap h;
          (a, total) =
            (if and a portBYTE_ALIGNMENT_MASK \<noteq> 0
             then let a' = and (a + (portBYTE_ALIGNMENT - 1)) (not portBYTE_ALIGNMENT_MASK)
                  in (a', configTOTAL_HEAP_SIZE - (a' - ucHeap h))
             else (a, configTOTAL_HEAP_SIZE));
          h = set_nxt (xStart h) a h;
          h = set_bsz (xStart h) 0 h;
          e = and ((a + total) - xHeapStructSize) (not portBYTE_ALIGNMENT_MASK);
          h = h\<lparr>pxEnd := e\<rparr>;
          h = set_bsz e 0 h;
          h = set_nxt e 0 h;
          h = set_bsz a (e - a) h;
          h = set_nxt a e h
      in h\<lparr>xMinimumEverFreeBytesRemaining := bsz h a, xFreeBytesRemaining := bsz h a\<rparr>)"

text \<open>The walk of \<open>prvInsertBlockIntoFreeList\<close> to the last block below the new one.\<close>

partial_function (option) insert_loop :: "heap \<Rightarrow> u32 \<Rightarrow> u32 \<Rightarrow> u32 option" where
  "insert_loop h b it = (if nxt h it < b then insert_loop h b (nxt h it) else Some it)"

definition prvInsertBlockIntoFreeList :: "u32 \<Rightarrow> heap \<Rightarrow> heap option" where
  "prvInsertBlockIntoFreeList b h = do {
     it \<leftarrow> insert_loop h b (xStart h);
     let (b, h) = (if it + bsz h it = b then (it, set_bsz it (bsz h it + bsz h b) h) else (b, h));
     let h = (if b + bsz h b = nxt h it
              then if nxt h it \<noteq> pxEnd h
                   then (let h = set_bsz b (bsz h b + bsz h (nxt h it)) h
                         in set_nxt b (nxt h (nxt h it)) h)
                   else set_nxt b (pxEnd h) h
              else set_nxt b (nxt h it) h);
     Some (if it \<noteq> b then set_nxt it b h else h)
   }"

text \<open>First fit: the previous and the current block when the search stops.\<close>

partial_function (option) malloc_loop :: "heap \<Rightarrow> u32 \<Rightarrow> u32 \<Rightarrow> u32 \<Rightarrow> (u32 \<times> u32) option" where
  "malloc_loop h n prev blk =
     (if bsz h blk < n \<and> nxt h blk \<noteq> 0 then malloc_loop h n blk (nxt h blk) else Some (prev, blk))"

text \<open>The size including header and alignment padding, 0 when it would overflow.\<close>

definition required_size :: "u32 \<Rightarrow> u32" where
  "required_size n =
     (if n > 0
      then let add = xHeapStructSize + portBYTE_ALIGNMENT - and n portBYTE_ALIGNMENT_MASK
           in if \<not> heapADD_WILL_OVERFLOW n add then n + add else 0
      else n)"

text \<open>
  Dividing the block that was found when the rest is worth keeping, and accounting for the block
  that is handed out.
\<close>

definition split_block :: "u32 \<Rightarrow> u32 \<Rightarrow> heap \<Rightarrow> heap option" where
  "split_block blk n h =
     (if bsz h blk - n > heapMINIMUM_BLOCK_SIZE
      then do {
        let new = blk + n;
        configASSERT (and new portBYTE_ALIGNMENT_MASK = 0);
        let h = set_bsz new (bsz h blk - n) h;
        let h = set_bsz blk n h;
        prvInsertBlockIntoFreeList new h
      }
      else Some h)"

definition account_block :: "u32 \<Rightarrow> heap \<Rightarrow> heap" where
  "account_block blk h =
     (let h = h\<lparr>xFreeBytesRemaining := xFreeBytesRemaining h - bsz h blk\<rparr>;
          h = (if xFreeBytesRemaining h < xMinimumEverFreeBytesRemaining h
               then h\<lparr>xMinimumEverFreeBytesRemaining := xFreeBytesRemaining h\<rparr> else h);
          h = upd_blk blk heapALLOCATE_BLOCK h;
          h = set_nxt blk 0 h
      in h\<lparr>xNumberOfSuccessfulAllocations := xNumberOfSuccessfulAllocations h + 1\<rparr>)"

definition pvPortMalloc :: "u32 \<Rightarrow> heap \<Rightarrow> (u32 \<times> heap) option" where
  "pvPortMalloc xWantedSize h = do {
     let h = (if pxEnd h = 0 then prvHeapInit h else h);
     let n = required_size xWantedSize;
     (ret, h) \<leftarrow>
       (if heapBLOCK_SIZE_IS_VALID n \<and> n > 0 \<and> n \<le> xFreeBytesRemaining h
        then do {
          (prev, blk) \<leftarrow> malloc_loop h n (xStart h) (nxt h (xStart h));
          (if blk \<noteq> pxEnd h
           then do {
             let ret = nxt h prev + xHeapStructSize;
             let h = set_nxt prev (nxt h blk) h;
             h \<leftarrow> split_block blk n h;
             Some (ret, account_block blk h)
           }
           else Some (0, h))
        }
        else Some (0, h));
     configASSERT (and ret portBYTE_ALIGNMENT_MASK = 0);
     Some (ret, h)
   }"

definition vPortFree :: "u32 \<Rightarrow> heap \<Rightarrow> heap option" where
  "vPortFree pv h =
     (if pv \<noteq> 0
      then do {
        let link = pv - xHeapStructSize;
        configASSERT (heapBLOCK_IS_ALLOCATED (mem h link));
        configASSERT (nxt h link = 0);
        (if heapBLOCK_IS_ALLOCATED (mem h link)
         then if nxt h link = 0
              then do {
                let h = upd_blk link heapFREE_BLOCK h;
                let h = h\<lparr>xFreeBytesRemaining := xFreeBytesRemaining h + bsz h link\<rparr>;
                h \<leftarrow> prvInsertBlockIntoFreeList link h;
                Some (h\<lparr>xNumberOfSuccessfulFrees := xNumberOfSuccessfulFrees h + 1\<rparr>)
              }
              else Some h
         else Some h)
      }
      else Some h)"

definition xPortGetFreeHeapSize :: "heap \<Rightarrow> u32" where
  "xPortGetFreeHeapSize h = xFreeBytesRemaining h"

definition xPortGetMinimumEverFreeHeapSize :: "heap \<Rightarrow> u32" where
  "xPortGetMinimumEverFreeHeapSize h = xMinimumEverFreeBytesRemaining h"

text \<open>\<open>memset\<close> on the payload bytes.\<close>

definition memset :: "u32 \<Rightarrow> u8 \<Rightarrow> u32 \<Rightarrow> heap \<Rightarrow> heap" where
  "memset p c n h = h\<lparr>bytes := (\<lambda>a. if a - p < n then c else bytes h a)\<rparr>"

definition pvPortCalloc :: "u32 \<Rightarrow> u32 \<Rightarrow> heap \<Rightarrow> (u32 \<times> heap) option" where
  "pvPortCalloc xNum xSize h =
     (if \<not> heapMULTIPLY_WILL_OVERFLOW xNum xSize
      then do {
        (pv, h) \<leftarrow> pvPortMalloc (xNum * xSize) h;
        Some (pv, if pv \<noteq> 0 then memset pv 0 (xNum * xSize) h else h)
      }
      else Some (0, h))"

text \<open>The statistics walk, and the record \<open>HeapStats_t\<close> it fills.\<close>

record HeapStats_t =
  xAvailableHeapSpaceInBytes :: u32
  xSizeOfLargestFreeBlockInBytes :: u32
  xSizeOfSmallestFreeBlockInBytes :: u32
  xNumberOfFreeBlocks :: u32
  xMinimumEverFree :: u32
  xAllocations :: u32
  xFrees :: u32

partial_function (option) stats_loop :: "heap \<Rightarrow> u32 \<Rightarrow> u32 \<Rightarrow> u32 \<Rightarrow> u32 \<Rightarrow> (u32 \<times> u32 \<times> u32) option" where
  "stats_loop h blk n mx mn =
     (if blk \<noteq> pxEnd h
      then stats_loop h (nxt h blk) (n + 1) (if bsz h blk > mx then bsz h blk else mx)
             (if bsz h blk < mn then bsz h blk else mn)
      else Some (n, mx, mn))"

definition vPortGetHeapStats :: "heap \<Rightarrow> HeapStats_t option" where
  "vPortGetHeapStats h = do {
     let blk = nxt h (xStart h);
     (n, mx, mn) \<leftarrow> (if blk \<noteq> 0 then stats_loop h blk 0 0 0xffffffff else Some (0, 0, 0xffffffff));
     Some \<lparr>xAvailableHeapSpaceInBytes = xFreeBytesRemaining h,
           xSizeOfLargestFreeBlockInBytes = mx, xSizeOfSmallestFreeBlockInBytes = mn,
           xNumberOfFreeBlocks = n, xMinimumEverFree = xMinimumEverFreeBytesRemaining h,
           xAllocations = xNumberOfSuccessfulAllocations h, xFrees = xNumberOfSuccessfulFrees h\<rparr>
   }"

end
