(* ===== verification/Heap4Free.thy ===== *)
theory Heap4Free
  imports Heap4
begin

text \<open>
  The free list of \<open>heap_4.c\<close>: the list of blocks that the headers thread, the two walks over it
  (\<open>insert_loop\<close>, \<open>malloc_loop\<close>) and \<open>prvInsertBlockIntoFreeList\<close>, which merges a block with the
  free neighbours it touches.
\<close>

section \<open>The free list as a chain of headers\<close>

fun chain :: "heap \<Rightarrow> u32 \<Rightarrow> (nat \<times> nat) list \<Rightarrow> u32 \<Rightarrow> bool" where
  "chain h p [] e \<longleftrightarrow> nxt h p = e"
| "chain h p ((a, n) # fs) e \<longleftrightarrow> nxt h p = of_nat a \<and> bsz h (of_nat a) = of_nat n \<and> chain h (of_nat a) fs e"

definition last_addr :: "u32 \<Rightarrow> (nat \<times> nat) list \<Rightarrow> u32" where
  "last_addr p fs = (if fs = [] then p else of_nat (fst (last fs)))"

definition first_addr :: "(nat \<times> nat) list \<Rightarrow> u32 \<Rightarrow> u32" where
  "first_addr fs e = (case fs of [] \<Rightarrow> e | (a, n) # _ \<Rightarrow> of_nat a)"

abbreviation addrs :: "(nat \<times> nat) list \<Rightarrow> u32 set" where
  "addrs fs \<equiv> (\<lambda>x. of_nat (fst x)) ` set fs"

lemma last_addr_simps [simp]:
  "last_addr p [] = p" "last_addr p (fs @ [x]) = of_nat (fst x)" "last_addr p (x # fs) = last_addr (of_nat (fst x)) fs"
  by (simp_all add: last_addr_def)

lemma first_addr_simps [simp]: "first_addr [] e = e" "first_addr ((a, n) # fs) e = of_nat a"
  by (simp_all add: first_addr_def)

lemma last_addr_in: "last_addr p fs \<in> insert p (addrs fs)"
  by (cases fs rule: rev_cases) auto

lemma chain_cong:
  assumes "\<And>q. q \<in> insert p (addrs fs) \<Longrightarrow> nxt h q = nxt h' q"
    and "\<And>q. q \<in> addrs fs \<Longrightarrow> bsz h q = bsz h' q"
  shows "chain h p fs e \<longleftrightarrow> chain h' p fs e"
  using assms
proof (induction fs arbitrary: p)
  case (Cons x fs)
  then show ?case by (cases x) auto
qed auto

lemma chain_append:
  "chain h p (xs @ (a, n) # ys) e \<longleftrightarrow>
     chain h p xs (of_nat a) \<and> bsz h (of_nat a) = of_nat n \<and> chain h (of_nat a) ys e"
  by (induction xs arbitrary: p) auto

lemma chain_append_first:
  "chain h p (xs @ ys) e \<Longrightarrow> chain h p xs (first_addr ys e)"
proof (induction xs arbitrary: p)
  case Nil
  then show ?case by (cases ys) auto
qed auto

lemma chain_last: "chain h p fs e \<Longrightarrow> nxt h (last_addr p fs) = e"
  by (induction fs arbitrary: p) auto

lemma chain_split: "chain h p (xs @ ys) e \<Longrightarrow> chain h (last_addr p xs) ys e"
  by (induction xs arbitrary: p) auto

lemma chain_from_first:
  assumes "chain h q fs e" and "nxt h' p = first_addr fs e" and "\<And>y. y \<in> addrs fs \<Longrightarrow> mem h' y = mem h y"
  shows "chain h' p fs e"
proof (cases fs)
  case (Cons x xs)
  obtain a n where x: "x = (a, n)" by (cases x)
  have "chain h' (of_nat a) xs e \<longleftrightarrow> chain h (of_nat a) xs e"
    by (rule chain_cong) (use assms(3) Cons x in auto)
  then show ?thesis using assms Cons x by auto
qed (use assms in simp)

lemma chain_relink:
  assumes "chain h p fs e" and "distinct (p # map (\<lambda>x. of_nat (fst x)) fs)"
    and "\<And>q. q \<in> insert p (addrs fs) \<Longrightarrow> q \<noteq> last_addr p fs \<Longrightarrow> nxt h' q = nxt h q"
    and "nxt h' (last_addr p fs) = e'" and "\<And>q. q \<in> addrs fs \<Longrightarrow> bsz h' q = bsz h q"
  shows "chain h' p fs e'"
  using assms
proof (induction fs arbitrary: p)
  case (Cons x fs)
  obtain a n where x: "x = (a, n)" by (cases x)
  have "p \<noteq> last_addr (of_nat a) fs"
    using Cons.prems(2) last_addr_in [of "of_nat a" fs] x by auto
  then have "nxt h' p = of_nat a" using Cons.prems(1,3) x by auto
  moreover have "chain h' (of_nat a) fs e'"
    by (rule Cons.IH) (use Cons.prems x in auto)
  ultimately show ?case using Cons.prems(1,5) x by auto
qed auto

text \<open>The search stops at the last block below the new one.\<close>

lemma insert_loop_stops:
  assumes "chain h p fs1 e" and "\<And>x. x \<in> set fs1 \<Longrightarrow> of_nat (fst x) < b" and "\<not> e < b"
  shows "insert_loop h b p = Some (last_addr p fs1)"
  using assms
proof (induction fs1 arbitrary: p)
  case Nil
  then show ?case by (subst insert_loop.simps) simp
next
  case (Cons x fs)
  obtain a n where x: "x = (a, n)" by (cases x)
  have "of_nat a < b" using Cons.prems(2) [of x] x by simp
  moreover have "insert_loop h b (of_nat a) = Some (last_addr (of_nat a) fs)"
    by (rule Cons.IH) (use Cons.prems x in auto)
  ultimately show ?case using Cons.prems(1) x by (subst insert_loop.simps) simp
qed

text \<open>The first-fit search stops at the first block that is large enough, or at \<open>pxEnd\<close>.\<close>

lemma malloc_loop_stops:
  assumes "chain h p fs e" and "bsz h e = 0" and "nxt h e = 0" and "0 < n" and "e \<noteq> 0"
    and "\<And>x. x \<in> set fs \<Longrightarrow> of_nat (fst x) \<noteq> (0 :: u32)"
  shows "malloc_loop h n p (first_addr fs e) =
    Some (last_addr p (takeWhile (\<lambda>x. of_nat (snd x) < n) fs), first_addr (dropWhile (\<lambda>x. of_nat (snd x) < n) fs) e)"
  using assms
proof (induction fs arbitrary: p)
  case Nil
  then show ?case by (subst malloc_loop.simps) simp
next
  case (Cons x fs)
  obtain a m where x: "x = (a, m)" by (cases x)
  have "nxt h (of_nat a) = first_addr fs e"
    using chain_append_first [of h "of_nat a" "[]" fs e] Cons.prems(1) x by simp
  moreover have "first_addr fs e \<noteq> 0"
    using Cons.prems(5) Cons.prems(6) [of "hd fs"] by (cases fs) auto
  moreover have "malloc_loop h n (of_nat a) (first_addr fs e) =
    Some (last_addr (of_nat a) (takeWhile (\<lambda>x. of_nat (snd x) < n) fs),
      first_addr (dropWhile (\<lambda>x. of_nat (snd x) < n) fs) e)"
    by (rule Cons.IH) (use Cons.prems x in auto)
  ultimately show ?case using Cons.prems(1) x by (subst malloc_loop.simps) simp
qed

section \<open>Insertion with coalescing\<close>

definition join_left :: "(nat \<times> nat) list \<Rightarrow> nat \<times> nat \<Rightarrow> (nat \<times> nat) list \<times> (nat \<times> nat)" where
  "join_left fs x =
     (if fs \<noteq> [] \<and> fst (last fs) + snd (last fs) = fst x
      then (butlast fs, (fst (last fs), snd (last fs) + snd x)) else (fs, x))"

definition join_right :: "nat \<times> nat \<Rightarrow> (nat \<times> nat) list \<Rightarrow> (nat \<times> nat) \<times> (nat \<times> nat) list" where
  "join_right x fs = (case fs of [] \<Rightarrow> (x, [])
     | y # r \<Rightarrow> if fst x + snd x = fst y then ((fst x, snd x + snd y), r) else (x, fs))"

definition coalesce :: "(nat \<times> nat) list \<Rightarrow> nat \<times> nat \<Rightarrow> (nat \<times> nat) list \<Rightarrow> (nat \<times> nat) list" where
  "coalesce fs1 x fs2 = (let (l, x) = join_left fs1 x; (x, r) = join_right x fs2 in l @ x # r)"

text \<open>The two halves of \<open>prvInsertBlockIntoFreeList\<close> after the search.\<close>

definition left_half :: "u32 \<Rightarrow> u32 \<Rightarrow> heap \<Rightarrow> u32 \<times> heap" where
  "left_half it b h = (if it + bsz h it = b then (it, set_bsz it (bsz h it + bsz h b) h) else (b, h))"

definition right_half :: "u32 \<Rightarrow> u32 \<Rightarrow> heap \<Rightarrow> heap" where
  "right_half it b h =
     (if b + bsz h b = nxt h it
      then if nxt h it \<noteq> pxEnd h
           then set_nxt b (nxt h (nxt h it)) (set_bsz b (bsz h b + bsz h (nxt h it)) h)
           else set_nxt b (pxEnd h) h
      else set_nxt b (nxt h it) h)"

lemma upd_blk_simps [simp]:
  "mem (upd_blk p f h) = (mem h)(p := f (mem h p))" "pxEnd (upd_blk p f h) = pxEnd h"
  "xStart (upd_blk p f h) = xStart h" "ucHeap (upd_blk p f h) = ucHeap h" "bytes (upd_blk p f h) = bytes h"
  "xFreeBytesRemaining (upd_blk p f h) = xFreeBytesRemaining h"
  "xMinimumEverFreeBytesRemaining (upd_blk p f h) = xMinimumEverFreeBytesRemaining h"
  "xNumberOfSuccessfulAllocations (upd_blk p f h) = xNumberOfSuccessfulAllocations h"
  "xNumberOfSuccessfulFrees (upd_blk p f h) = xNumberOfSuccessfulFrees h"
  by (simp_all add: upd_blk_def)

lemma mem_upd_other: "p \<noteq> q \<Longrightarrow> mem (upd_blk q f h) p = mem h p"
  by simp

lemma upd_blk_mem: "upd_blk p f h = h\<lparr>mem := (mem h)(p := f (mem h p))\<rparr>"
  by (simp add: upd_blk_def)

lemma prvInsert_halves:
  "prvInsertBlockIntoFreeList b h = do {
     it \<leftarrow> insert_loop h b (xStart h);
     let (c, h1) = left_half it b h;
     let h2 = right_half it c h1;
     Some (if it \<noteq> c then set_nxt it c h2 else h2) }"
proof (cases "insert_loop h b (xStart h)")
  case (Some it)
  then show ?thesis
    unfolding prvInsertBlockIntoFreeList_def left_half_def right_half_def Let_def
    by (cases "it + bsz h it = b") simp_all
qed (simp add: prvInsertBlockIntoFreeList_def)

lemma right_half:
  assumes nx: "nxt h it = first_addr fs (pxEnd h)" and ch: "chain h q fs (pxEnd h)"
    and c: "bsz h (of_nat a) = of_nat s"
    and E: "pxEnd h = of_nat E" "E < 2 ^ 32" and bnd: "a + s \<le> E"
    and fs: "\<forall>y \<in> set fs. a + s \<le> fst y \<and> 0 < snd y \<and> fst y + snd y \<le> E"
    and x: "join_right (a, s) fs = (x, r)" and s: "0 < s"
  shows "fst x = a" and "nxt (right_half it (of_nat a) h) (of_nat a) = first_addr r (pxEnd h)"
    and "bsz (right_half it (of_nat a) h) (of_nat a) = of_nat (snd x)"
    and "right_half it (of_nat a) h = h\<lparr>mem := mem (right_half it (of_nat a) h)\<rparr>"
    and "\<And>p. p \<noteq> of_nat a \<Longrightarrow> mem (right_half it (of_nat a) h) p = mem h p"
    and "\<exists>q. chain h q r (pxEnd h)"
    and "set r \<subseteq> set fs"
proof -
  show "right_half it (of_nat a) h = h\<lparr>mem := mem (right_half it (of_nat a) h)\<rparr>"
    by (simp add: right_half_def upd_blk_mem)
  show "mem (right_half it (of_nat a) h) p = mem h p" if "p \<noteq> of_nat a" for p
    using that by (simp add: right_half_def)
  have "fst x = a \<and> nxt (right_half it (of_nat a) h) (of_nat a) = first_addr r (pxEnd h)
    \<and> bsz (right_half it (of_nat a) h) (of_nat a) = of_nat (snd x)
    \<and> (\<exists>q. chain h q r (pxEnd h)) \<and> set r \<subseteq> set fs"
  proof (cases fs)
    case Nil
    then show ?thesis using x nx ch c by (auto simp: join_right_def right_half_def)
  next
    case (Cons y ys)
    obtain d m where y: "y = (d, m)" by (cases y)
    have d: "a + s \<le> d" "0 < m" "d + m \<le> E" using fs Cons y by auto
    have dE: "(of_nat d :: u32) \<noteq> of_nat E" "(of_nat d :: u32) \<noteq> of_nat a"
      using d E s by (simp_all add: of_nat_u32_iffs)
    have eq: "(of_nat a + of_nat s :: u32) = of_nat d \<longleftrightarrow> a + s = d"
      unfolding of_nat_add [symmetric] using d E by (simp add: of_nat_u32_iffs del: of_nat_add)
    have nd: "nxt h (of_nat d) = first_addr ys (pxEnd h)"
      using chain_append_first [of h "of_nat d" "[]" ys "pxEnd h"] ch Cons y by simp
    show ?thesis
    proof (cases "a + s = d")
      case True
      then have "x = (a, s + m)" "r = ys" using x Cons y by (auto simp: join_right_def)
      then show ?thesis using nx ch c Cons y dE eq True nd E by (auto simp: right_half_def)
    next
      case False
      then have "x = (a, s)" "r = fs" using x Cons y by (auto simp: join_right_def)
      then show ?thesis using nx ch c Cons y dE eq False E by (auto simp: right_half_def)
    qed
  qed
  then show "fst x = a" "nxt (right_half it (of_nat a) h) (of_nat a) = first_addr r (pxEnd h)"
    "bsz (right_half it (of_nat a) h) (of_nat a) = of_nat (snd x)"
    "\<exists>q. chain h q r (pxEnd h)" "set r \<subseteq> set fs" by auto
qed

text \<open>
  What the free list must satisfy around a block \<open>x\<close> that is about to be inserted: address order
  without overlap, inside the heap, and \<open>xStart\<close> elsewhere with size 0.
\<close>

definition insertable :: "heap \<Rightarrow> (nat \<times> nat) list \<Rightarrow> nat \<times> nat \<Rightarrow> (nat \<times> nat) list \<Rightarrow> bool" where
  "insertable h fs1 x fs2 \<longleftrightarrow>
     sorted_wrt (\<lambda>x y. fst x + snd x \<le> fst y) (fs1 @ x # fs2)
     \<and> (\<forall>y \<in> set (fs1 @ x # fs2). 0 < snd y \<and> fst y + snd y \<le> unat (pxEnd h))
     \<and> xStart h \<notin> addrs (fs1 @ x # fs2) \<and> bsz h (xStart h) = 0"

lemma sorted_wrt_addrs_distinct:
  assumes "sorted_wrt (\<lambda>x y. fst x + snd x \<le> fst y) fs"
    and "\<forall>y \<in> set fs. 0 < snd y \<and> fst y + snd y < 2 ^ 32"
  shows "distinct (map (\<lambda>x. of_nat (fst x) :: u32) fs)"
  using assms
proof (induction fs)
  case (Cons x fs)
  have "(of_nat (fst x) :: u32) \<noteq> of_nat (fst y)" if "y \<in> set fs" for y
    using Cons.prems that by (fastforce simp: of_nat_u32_iffs)
  then show ?case using Cons by auto
qed auto

lemma insertable_facts:
  assumes "insertable h fs1 (a, s) fs2"
  shows "\<And>y. y \<in> set fs1 \<Longrightarrow> fst y + snd y \<le> a \<and> 0 < snd y \<and> fst y + snd y \<le> unat (pxEnd h)"
    and "\<forall>y \<in> set fs2. a + s \<le> fst y \<and> 0 < snd y \<and> fst y + snd y \<le> unat (pxEnd h)"
    and "0 < s" and "a + s \<le> unat (pxEnd h)" and "bsz h (xStart h) = 0"
    and "distinct (xStart h # map (\<lambda>x. of_nat (fst x)) (fs1 @ (a, s) # fs2))"
    and "pxEnd h = of_nat (unat (pxEnd h))" and "unat (pxEnd h) < 2 ^ 32"
proof -
  show 1: "fst y + snd y \<le> a \<and> 0 < snd y \<and> fst y + snd y \<le> unat (pxEnd h)" if "y \<in> set fs1" for y
    using assms that by (auto simp: insertable_def sorted_wrt_append)
  show 2: "\<forall>y \<in> set fs2. a + s \<le> fst y \<and> 0 < snd y \<and> fst y + snd y \<le> unat (pxEnd h)"
    using assms by (auto simp: insertable_def sorted_wrt_append)
  show 3: "0 < s" "a + s \<le> unat (pxEnd h)" "bsz h (xStart h) = 0"
    using assms by (auto simp: insertable_def)
  show E: "pxEnd h = of_nat (unat (pxEnd h))" "unat (pxEnd h) < 2 ^ 32" by (simp, rule unat_lt_u32)
  have "0 < snd y \<and> fst y + snd y < 2 ^ 32" if "y \<in> set (fs1 @ (a, s) # fs2)" for y
    using that 1 [of y] 2 3 E(2) by fastforce
  then have "distinct (map (\<lambda>x. of_nat (fst x) :: u32) (fs1 @ (a, s) # fs2))"
    using assms by (intro sorted_wrt_addrs_distinct) (auto simp: insertable_def)
  then show "distinct (xStart h # map (\<lambda>x. of_nat (fst x)) (fs1 @ (a, s) # fs2))"
    using assms by (auto simp: insertable_def)
qed

lemma insert_loop_finds:
  assumes ch: "chain h (xStart h) (fs1 @ fs2) (pxEnd h)" and ins: "insertable h fs1 (a, s) fs2"
  shows "insert_loop h (of_nat a) (xStart h) = Some (last_addr (xStart h) fs1)"
proof (rule insert_loop_stops [OF chain_append_first [OF ch]])
  note f = insertable_facts [OF ins]
  show "(of_nat (fst y) :: u32) < of_nat a" if "y \<in> set fs1" for y
    using f(1) [OF that] f(3,4,8) by (subst of_nat_u32_less_iff) auto
  show "\<not> first_addr fs2 (pxEnd h) < of_nat a"
  proof (cases fs2)
    case Nil
    then show ?thesis using f(3,4,8) by (simp add: word_less_nat_alt unat_of_nat_u32)
  next
    case (Cons y ys)
    then show ?thesis using f(2) f(3,4,8) by (cases y) (simp add: of_nat_u32_iffs not_less)
  qed
qed

text \<open>The new block extends its left neighbour.\<close>

lemma prvInsert_merge_left:
  assumes ch: "chain h (xStart h) ((l @ [(b, n)]) @ fs2) (pxEnd h)"
    and ins: "insertable h (l @ [(b, n)]) (b + n, s) fs2" and sz: "bsz h (of_nat (b + n)) = of_nat s"
    and jr: "join_right (b, n + s) fs2 = (x, r)"
  shows "\<exists>m. prvInsertBlockIntoFreeList (of_nat (b + n)) h = Some (h\<lparr>mem := m\<rparr>)
    \<and> chain (h\<lparr>mem := m\<rparr>) (xStart h) (l @ x # r) (pxEnd h)
    \<and> (\<forall>q. q \<noteq> of_nat b \<longrightarrow> m q = mem h q)"
proof -
  note f = insertable_facts [OF ins]
  define h1 where "h1 = set_bsz (of_nat b) (of_nat (n + s)) h"
  define h2 where "h2 = right_half (of_nat b) (of_nat b) h1"
  have pre: "chain h (xStart h) l (of_nat b)" "bsz h (of_nat b) = of_nat n" "chain h (of_nat b) fs2 (pxEnd h)"
    using ch by (simp_all add: chain_append)
  have b_fs2: "of_nat b \<notin> addrs fs2" "of_nat b \<noteq> xStart h" "of_nat b \<notin> addrs l"
    using f(6) by auto
  have lh: "left_half (of_nat b) (of_nat (b + n)) h = (of_nat b, h1)"
    using pre sz by (simp add: left_half_def h1_def)
  have h1: "pxEnd h1 = pxEnd h" "nxt h1 (of_nat b) = first_addr fs2 (pxEnd h1)" "bsz h1 (of_nat b) = of_nat (n + s)"
    using chain_append_first [of h "of_nat b" "[]" fs2] pre(3) by (simp_all add: h1_def)
  have h1c: "chain h1 (of_nat b) fs2 (pxEnd h1)"
    using pre(3) [folded h1(1)] h1(2) by (rule chain_from_first) (use b_fs2(1) in \<open>metis h1_def mem_upd_other\<close>)
  have bnd: "b + (n + s) \<le> unat (pxEnd h)" "0 < n + s" using f(3,4) by simp_all
  have fs: "\<forall>y \<in> set fs2. b + (n + s) \<le> fst y \<and> 0 < snd y \<and> fst y + snd y \<le> unat (pxEnd h)"
    using f(2) by (simp add: add.assoc)
  have E1: "pxEnd h1 = of_nat (unat (pxEnd h))" by (rule trans [OF h1(1) f(7)])
  note rhs = right_half [OF h1(2) h1c h1(3) E1 f(8) bnd(1) fs jr bnd(2), folded h2_def, unfolded h1(1)]
  have off_b: "mem h2 p = mem h p" if "p \<noteq> of_nat b" for p
    using rhs(5) [OF that] that by (simp add: h1_def)
  have off_l: "q \<noteq> of_nat b" if "q \<in> insert (xStart h) (addrs l)" for q
    using that b_fs2(2,3) by blast
  have "chain h2 (xStart h) l (of_nat b) \<longleftrightarrow> chain h (xStart h) l (of_nat b)"
    by (rule chain_cong) (simp_all only: off_b [OF off_l] off_b [OF off_l [OF insertI2]])
  moreover have "chain h2 (of_nat b) r (pxEnd h)"
  proof -
    obtain q where "chain h1 q r (pxEnd h)" using rhs(6) by blast
    then show ?thesis
    proof (rule chain_from_first)
      have "of_nat b \<notin> addrs r" by (rule contra_subsetD [OF image_mono [OF rhs(7)] b_fs2(1)])
      then show "mem h2 y = mem h1 y" if "y \<in> addrs r" for y
        using that rhs(5) [of y] by metis
    qed (rule rhs(2))
  qed
  ultimately have "chain h2 (xStart h) (l @ x # r) (pxEnd h)"
    using pre(1) rhs(1,3) by (cases x) (simp add: chain_append)
  moreover have "h2 = h\<lparr>mem := mem h2\<rparr>" by (subst rhs(4)) (simp add: h1_def upd_blk_mem)
  moreover have "prvInsertBlockIntoFreeList (of_nat (b + n)) h = Some h2"
    unfolding prvInsert_halves insert_loop_finds [OF ch ins] using lh by (simp add: h2_def)
  ultimately show ?thesis using off_b by metis
qed

text \<open>The new block does not touch its left neighbour.\<close>

lemma prvInsert_no_merge_left:
  assumes ch: "chain h (xStart h) (fs1 @ fs2) (pxEnd h)"
    and ins: "insertable h fs1 (a, s) fs2" and sz: "bsz h (of_nat a) = of_nat s"
    and apart: "fs1 \<noteq> [] \<Longrightarrow> fst (last fs1) + snd (last fs1) \<noteq> a"
    and jr: "join_right (a, s) fs2 = (x, r)"
  shows "\<exists>m. prvInsertBlockIntoFreeList (of_nat a) h = Some (h\<lparr>mem := m\<rparr>)
    \<and> chain (h\<lparr>mem := m\<rparr>) (xStart h) (fs1 @ x # r) (pxEnd h)
    \<and> (\<forall>q. q \<noteq> of_nat a \<longrightarrow> q \<noteq> last_addr (xStart h) fs1 \<longrightarrow> m q = mem h q)
    \<and> xBlockSize (m (last_addr (xStart h) fs1)) = bsz h (last_addr (xStart h) fs1)"
proof -
  note f = insertable_facts [OF ins]
  let ?it = "last_addr (xStart h) fs1"
  define h2 where "h2 = right_half ?it (of_nat a) h"
  define h3 where "h3 = set_nxt ?it (of_nat a) h2"
  have pre: "chain h (xStart h) fs1 (first_addr fs2 (pxEnd h))" by (rule chain_append_first [OF ch])
  have nit: "nxt h ?it = first_addr fs2 (pxEnd h)" by (rule chain_last [OF pre])
  have it_in: "?it \<in> insert (xStart h) (addrs fs1)" by (rule last_addr_in)
  have na: "of_nat a \<notin> addrs fs1" "of_nat a \<noteq> xStart h" using f(6) by auto
  then have it_a: "?it \<noteq> of_nat a" using it_in by (metis insert_iff)
  have no: "?it + bsz h ?it \<noteq> of_nat a"
  proof (cases fs1 rule: rev_cases)
    case Nil
    then show ?thesis using f(5,6) by auto
  next
    case (snoc l y)
    obtain b n where y: "y = (b, n)" by (cases y)
    have "bsz h (of_nat b) = of_nat n" using pre snoc y by (simp add: chain_append)
    moreover have "b + n \<noteq> a" "b + n \<le> a" using apart f(1) [of y] snoc y by auto
    ultimately show ?thesis using snoc y f(3,4,8) of_nat_u32_eq_iff [of "b + n" a] by simp
  qed
  have lh: "left_half ?it (of_nat a) h = (of_nat a, h)" using no by (simp add: left_half_def)
  note rhs = right_half [OF nit chain_split [OF ch] sz f(7,8,4,2) jr f(3), folded h2_def]
  have "chain h3 (xStart h) fs1 (of_nat a)"
  proof (rule chain_relink [OF pre])
    show "distinct (xStart h # map (\<lambda>x. of_nat (fst x)) fs1)" using f(6) by auto
    show "nxt h3 q = nxt h q" if "q \<in> insert (xStart h) (addrs fs1)" "q \<noteq> ?it" for q
      using that rhs(5) [of q] na by (metis h3_def insert_iff mem_upd_other)
    show "bsz h3 q = bsz h q" if "q \<in> addrs fs1" for q
    proof -
      have "q \<noteq> of_nat a" using that na(1) by blast
      then show ?thesis using rhs(5) by (cases "q = ?it") (simp_all add: h3_def)
    qed
  qed (simp add: h3_def)
  moreover have "chain h3 (of_nat a) r (pxEnd h)"
  proof -
    have "addrs r \<subseteq> addrs fs2" using rhs(7) by blast
    moreover have apart2: "of_nat a \<notin> addrs fs2" "xStart h \<notin> addrs fs2" "addrs fs1 \<inter> addrs fs2 = {}"
      using f(6) by auto
    moreover have "?it \<notin> addrs fs2"
    proof (cases "?it = xStart h")
      case True
      then show ?thesis using apart2(2) by simp
    next
      case False
      then have "?it \<in> addrs fs1" using it_in by (simp only: insert_iff simp_thms)
      then show ?thesis using apart2(3) by (simp only: disjoint_iff simp_thms)
    qed
    ultimately have dis: "of_nat a \<notin> addrs r" "?it \<notin> addrs r"
      by (auto dest: subsetD simp only:)
    obtain q where "chain h q r (pxEnd h)" using rhs(6) by blast
    then show ?thesis
    proof (rule chain_from_first)
      show "nxt h3 (of_nat a) = first_addr r (pxEnd h)" using it_a rhs(2) by (simp add: h3_def)
      show "mem h3 y = mem h y" if "y \<in> addrs r" for y
      proof -
        have "y \<noteq> ?it" "y \<noteq> of_nat a" using dis that by metis+
        then show ?thesis using rhs(5) [of y] by (simp add: h3_def)
      qed
    qed
  qed
  moreover have "bsz h3 (of_nat a) = of_nat (snd x)" using rhs(3) it_a by (simp add: h3_def)
  ultimately have "chain h3 (xStart h) (fs1 @ x # r) (pxEnd h)"
    using rhs(1) by (cases x) (simp add: chain_append)
  moreover have "h3 = h\<lparr>mem := mem h3\<rparr>" unfolding h3_def by (subst rhs(4)) (simp add: upd_blk_mem)
  moreover have "prvInsertBlockIntoFreeList (of_nat a) h = Some h3"
    unfolding prvInsert_halves insert_loop_finds [OF ch ins] using lh it_a by (simp add: h2_def h3_def)
  moreover have "bsz h3 ?it = bsz h ?it" "\<forall>q. q \<noteq> of_nat a \<longrightarrow> q \<noteq> ?it \<longrightarrow> mem h3 q = mem h q"
    using rhs(5) it_a by (simp_all add: h3_def)
  ultimately show ?thesis by metis
qed

theorem prvInsertBlockIntoFreeList_coalesces:
  assumes ch: "chain h (xStart h) (fs1 @ fs2) (pxEnd h)"
    and ins: "insertable h fs1 (a, s) fs2" and sz: "bsz h (of_nat a) = of_nat s"
  shows "\<exists>m. prvInsertBlockIntoFreeList (of_nat a) h = Some (h\<lparr>mem := m\<rparr>)
    \<and> chain (h\<lparr>mem := m\<rparr>) (xStart h) (coalesce fs1 (a, s) fs2) (pxEnd h)
    \<and> xBlockSize (m (xStart h)) = 0
    \<and> (\<forall>q. q \<noteq> xStart h \<longrightarrow> q \<notin> addrs (fs1 @ [(a, s)]) \<longrightarrow> m q = mem h q)"
proof (cases "fs1 \<noteq> [] \<and> fst (last fs1) + snd (last fs1) = a")
  case True
  then obtain l b n where fs1: "fs1 = l @ [(b, n)]" and a: "a = b + n"
    by (cases fs1 rule: rev_cases) auto
  obtain x r where jr: "join_right (b, n + s) fs2 = (x, r)" by fastforce
  have co: "coalesce fs1 (a, s) fs2 = l @ x # r"
    using jr by (simp add: coalesce_def join_left_def fs1 a)
  have "xStart h \<noteq> of_nat b" "bsz h (xStart h) = 0" using insertable_facts(5,6) [OF ins] fs1 by auto
  with prvInsert_merge_left [of h l b n fs2 s x r] ch ins sz jr fs1 a co show ?thesis by auto
next
  case False
  obtain x r where jr: "join_right (a, s) fs2 = (x, r)" by fastforce
  have co: "coalesce fs1 (a, s) fs2 = fs1 @ x # r"
    using jr False by (auto simp: coalesce_def join_left_def)
  have st: "xStart h \<noteq> of_nat a" "bsz h (xStart h) = 0" using insertable_facts(5,6) [OF ins] by auto
  have it: "last_addr (xStart h) fs1 \<in> insert (xStart h) (addrs fs1)" by (rule last_addr_in)
  obtain m where m: "prvInsertBlockIntoFreeList (of_nat a) h = Some (h\<lparr>mem := m\<rparr>)"
      "chain (h\<lparr>mem := m\<rparr>) (xStart h) (fs1 @ x # r) (pxEnd h)"
      "\<forall>q. q \<noteq> of_nat a \<longrightarrow> q \<noteq> last_addr (xStart h) fs1 \<longrightarrow> m q = mem h q"
      "xBlockSize (m (last_addr (xStart h) fs1)) = bsz h (last_addr (xStart h) fs1)"
    using prvInsert_no_merge_left [OF ch ins sz _ jr] False by auto
  have "xBlockSize (m (xStart h)) = 0" using m(3,4) st by metis
  then show ?thesis using m co it by auto
qed

end
