(* ===== verification/Heap4Blocks.thy ===== *)
theory Heap4Blocks
  imports Heap4Free
begin

text \<open>
  The heap as a sequence of blocks that tile it, the allocation and release of a block on that
  sequence, the invariant that ties the sequence to the headers in memory, and the proof that
  \<open>prvHeapInit\<close>, \<open>pvPortMalloc\<close>, \<open>vPortFree\<close> and \<open>vPortGetHeapStats\<close> work as the block operations say.
\<close>

section \<open>The blocks that tile the heap\<close>

text \<open>
  A block is its address, its size (header included) and whether it is free. \<open>tiles\<close> says that the
  blocks cover the heap from \<open>b\<close> up to the end marker without gap or overlap.
\<close>

type_synonym block = "nat \<times> nat \<times> bool"

fun tiles :: "nat \<Rightarrow> block list \<Rightarrow> nat \<Rightarrow> bool" where
  "tiles b [] e \<longleftrightarrow> b = e"
| "tiles b ((a, s, f) # bs) e \<longleftrightarrow> a = b \<and> 0 < s \<and> 8 dvd s \<and> tiles (b + s) bs e"

fun coalesced :: "block list \<Rightarrow> bool" where
  "coalesced ((a, s, f) # (c, n, g) # bs) \<longleftrightarrow> \<not> (f \<and> g) \<and> coalesced ((c, n, g) # bs)"
| "coalesced bs \<longleftrightarrow> True"

definition free_of :: "block list \<Rightarrow> (nat \<times> nat) list" where
  "free_of bs = map (\<lambda>(a, s, f). (a, s)) (filter (\<lambda>(a, s, f). f) bs)"

definition live_of :: "block list \<Rightarrow> (nat \<times> nat) set" where
  "live_of bs = {(a, s). (a, s, False) \<in> set bs}"

definition free_bytes :: "block list \<Rightarrow> nat" where
  "free_bytes bs = sum_list (map snd (free_of bs))"

definition fits :: "nat \<Rightarrow> block \<Rightarrow> bool" where
  "fits n = (\<lambda>(a, s, f). f \<and> n \<le> s)"

text \<open>Allocation on the blocks: the first free block that is large enough, split when worth it.\<close>

definition carve :: "nat \<Rightarrow> nat \<Rightarrow> nat \<Rightarrow> block list" where
  "carve n a s = (if s - n > 16 then [(a, n, False), (a + n, s - n, True)] else [(a, s, False)])"

definition first_fit :: "nat \<Rightarrow> block list \<Rightarrow> (nat \<times> block list) option" where
  "first_fit n bs =
     (case dropWhile (\<lambda>b. \<not> fits n b) bs of [] \<Rightarrow> None
      | (a, s, f) # post \<Rightarrow> Some (a, takeWhile (\<lambda>b. \<not> fits n b) bs @ carve n a s @ post))"

text \<open>Release on the blocks: the block becomes free and absorbs its free neighbours.\<close>

definition absorb_left :: "block list \<Rightarrow> nat \<times> nat \<Rightarrow> block list \<times> (nat \<times> nat)" where
  "absorb_left pre x = (if pre \<noteq> [] \<and> snd (snd (last pre))
     then (butlast pre, (fst (last pre), fst (snd (last pre)) + snd x)) else (pre, x))"

definition absorb_right :: "nat \<times> nat \<Rightarrow> block list \<Rightarrow> (nat \<times> nat) \<times> block list" where
  "absorb_right x post = (case post of (c, n, True) # r \<Rightarrow> ((fst x, snd x + n), r) | _ \<Rightarrow> (x, post))"

definition release :: "block list \<Rightarrow> nat \<times> nat \<Rightarrow> block list \<Rightarrow> block list" where
  "release pre x post =
     (let (l, x) = absorb_left pre x; (x, r) = absorb_right x post in l @ (fst x, snd x, True) # r)"

lemma free_of_simps [simp]:
  "free_of [] = []" "free_of ((a, s, True) # bs) = (a, s) # free_of bs"
  "free_of ((a, s, False) # bs) = free_of bs" "free_of (xs @ ys) = free_of xs @ free_of ys"
  by (simp_all add: free_of_def)

lemma free_bytes_simps [simp]:
  "free_bytes [] = 0" "free_bytes ((a, s, True) # bs) = s + free_bytes bs"
  "free_bytes ((a, s, False) # bs) = free_bytes bs" "free_bytes (xs @ ys) = free_bytes xs + free_bytes ys"
  by (simp_all add: free_bytes_def)

lemma live_of_simps [simp]:
  "live_of [] = {}" "live_of ((a, s, True) # bs) = live_of bs"
  "live_of ((a, s, False) # bs) = insert (a, s) (live_of bs)" "live_of (xs @ ys) = live_of xs \<union> live_of ys"
  by (auto simp: live_of_def)

lemma mem_free_of: "(a, s) \<in> set (free_of bs) \<longleftrightarrow> (a, s, True) \<in> set bs"
  by (auto simp: free_of_def image_iff split: prod.splits)

lemma tiles_append: "tiles b (xs @ ys) e \<longleftrightarrow> (\<exists>m. tiles b xs m \<and> tiles m ys e)"
  by (induction b xs e rule: tiles.induct) auto

lemma tiles_bound:
  assumes "tiles b bs e" and "(a, s, f) \<in> set bs"
  shows "b \<le> a" "a + s \<le> e" "0 < s" "8 dvd s" "8 dvd b \<Longrightarrow> 8 dvd a"
proof -
  have "b \<le> e" if "tiles b bs e" for b bs
    using that by (induction b bs e rule: tiles.induct) auto
  then have "b \<le> a \<and> a + s \<le> e \<and> 0 < s \<and> 8 dvd s \<and> (8 dvd b \<longrightarrow> 8 dvd a)"
    using assms by (induction b bs e rule: tiles.induct) fastforce+
  then show "b \<le> a" "a + s \<le> e" "0 < s" "8 dvd s" "8 dvd b \<Longrightarrow> 8 dvd a" by auto
qed

lemma tiles_le: "tiles b bs e \<Longrightarrow> b \<le> e"
  by (induction b bs e rule: tiles.induct) auto

lemma tiles_sorted: "tiles b bs e \<Longrightarrow> sorted_wrt (\<lambda>x y. fst x + fst (snd x) \<le> fst y) bs"
  by (induction b bs e rule: tiles.induct) (auto dest: tiles_bound)

lemma free_of_sorted:
  assumes "sorted_wrt (\<lambda>x y. fst x + fst (snd x) \<le> fst y) bs"
  shows "sorted_wrt (\<lambda>x y. fst x + snd x \<le> fst y) (free_of bs)"
  using assms by (induction bs) (auto simp: free_of_def)

lemma coalesced_append:
  "coalesced (xs @ ys) \<longleftrightarrow> coalesced xs \<and> coalesced ys
     \<and> (xs \<noteq> [] \<and> ys \<noteq> [] \<longrightarrow> \<not> (snd (snd (last xs)) \<and> snd (snd (hd ys))))"
proof (induction xs)
  case (Cons x xs)
  then show ?case by (cases x; cases xs; cases ys) auto
qed simp

text \<open>The allocation keeps the tiling, and takes its block out of a free one.\<close>

lemma first_fit_Some:
  assumes "first_fit n bs = Some (a, bs')"
  shows "\<exists>pre s post. bs = pre @ (a, s, True) # post \<and> n \<le> s \<and> bs' = pre @ carve n a s @ post
    \<and> pre = takeWhile (\<lambda>b. \<not> fits n b) bs"
proof -
  obtain s f post where d: "dropWhile (\<lambda>b. \<not> fits n b) bs = (a, s, f) # post"
    using assms by (auto simp: first_fit_def split: list.splits prod.splits)
  then have "fits n (a, s, f)" using hd_dropWhile [of "\<lambda>b. \<not> fits n b" bs] by force
  then have "f" "n \<le> s" by (auto simp: fits_def)
  moreover have "bs = takeWhile (\<lambda>b. \<not> fits n b) bs @ (a, s, f) # post"
    unfolding d [symmetric] by simp
  ultimately show ?thesis using assms d by (auto simp: first_fit_def)
qed

lemma first_fit_None: "first_fit n bs = None \<longleftrightarrow> (\<forall>(a, s) \<in> set (free_of bs). s < n)"
proof -
  have "first_fit n bs = None \<longleftrightarrow> dropWhile (\<lambda>b. \<not> fits n b) bs = []"
    by (cases "dropWhile (\<lambda>b. \<not> fits n b) bs") (auto simp: first_fit_def simp del: dropWhile_eq_Nil_conv)
  also have "\<dots> \<longleftrightarrow> (\<forall>b \<in> set bs. \<not> fits n b)" by (simp add: dropWhile_eq_Nil_conv)
  also have "\<dots> \<longleftrightarrow> (\<forall>(a, s) \<in> set (free_of bs). s < n)"
  proof -
    have "(\<forall>b \<in> set bs. \<not> fits n b) \<longleftrightarrow> (\<forall>a s. (a, s, True) \<in> set bs \<longrightarrow> s < n)"
      by (auto simp: fits_def not_le dest: leD)
    also have "\<dots> \<longleftrightarrow> (\<forall>(a, s) \<in> set (free_of bs). s < n)"
      unfolding mem_free_of [symmetric] by auto
    finally show ?thesis .
  qed
  finally show ?thesis .
qed

lemma carve_tiles:
  "0 < n \<Longrightarrow> 8 dvd n \<Longrightarrow> n \<le> s \<Longrightarrow> tiles m ((a, s, True) # post) e \<Longrightarrow> tiles m (carve n a s @ post) e"
  by (auto simp: carve_def dvd_diff_nat)

lemma carve_coalesced: "coalesced ((a, s, True) # post) \<Longrightarrow> coalesced (carve n a s @ post)"
  by (cases post) (auto simp: carve_def)

lemma first_fit_tiles:
  assumes "first_fit n bs = Some (a, bs')" and "tiles b bs e" and "0 < n" and "8 dvd n"
  shows "tiles b bs' e"
proof -
  obtain pre s post where *: "bs = pre @ (a, s, True) # post" "n \<le> s" "bs' = pre @ carve n a s @ post"
    using first_fit_Some [OF assms(1)] by blast
  then show ?thesis
    using assms(2) carve_tiles [OF assms(3,4) *(2)] by (simp only: tiles_append [of b pre]) blast
qed

lemma first_fit_coalesced:
  assumes "first_fit n bs = Some (a, bs')" and "coalesced bs"
  shows "coalesced bs'"
proof -
  obtain pre s post where *: "bs = pre @ (a, s, True) # post" "bs' = pre @ carve n a s @ post"
    using first_fit_Some [OF assms(1)] by blast
  moreover have "carve n a s @ post \<noteq> []" "\<not> snd (snd (hd (carve n a s @ post)))"
    by (auto simp: carve_def)
  ultimately show ?thesis
    using assms(2) carve_coalesced [of a s post n] by (simp only: coalesced_append [of pre]) blast
qed

lemma first_fit_live:
  assumes "first_fit n bs = Some (a, bs')"
  shows "\<exists>s \<ge> n. s \<le> n + 16 \<and> live_of bs' = insert (a, s) (live_of bs) \<and> free_bytes bs = free_bytes bs' + s"
proof -
  obtain pre s post where *: "bs = pre @ (a, s, True) # post" "n \<le> s" "bs' = pre @ carve n a s @ post"
    using first_fit_Some [OF assms] by blast
  show ?thesis
  proof (cases "s - n > 16")
    case True
    then show ?thesis using * by (intro exI [of _ n]) (simp add: carve_def)
  next
    case False
    then show ?thesis using * by (intro exI [of _ s]) (simp add: carve_def)
  qed
qed

text \<open>The release keeps the tiling and restores the absence of adjacent free blocks.\<close>

lemma absorb_left_tiles:
  assumes "tiles b (pre @ (fst x, snd x, f) # post) e" and "absorb_left pre x = (l, y)"
  shows "tiles b (l @ (fst y, snd y, g) # post) e"
proof (cases "pre \<noteq> [] \<and> snd (snd (last pre))")
  case True
  then obtain p c n where "pre = p @ [(c, n, True)]" by (cases pre rule: rev_cases) auto
  then show ?thesis using assms by (auto simp: absorb_left_def tiles_append add.assoc)
next
  case False
  then show ?thesis using assms by (auto simp: absorb_left_def tiles_append)
qed

lemma absorb_right_tiles:
  assumes "tiles b (l @ (fst x, snd x, f) # post) e" and "absorb_right x post = (y, r)"
  shows "tiles b (l @ (fst y, snd y, g) # r) e"
  using assms by (auto simp: absorb_right_def tiles_append add.assoc split: list.splits prod.splits if_splits bool.splits)

lemma release_tiles:
  assumes "tiles b (pre @ (a, s, f) # post) e"
  shows "tiles b (release pre (a, s) post) e"
proof -
  obtain l y where l: "absorb_left pre (a, s) = (l, y)" by (rule prod.exhaust)
  obtain z r where r: "absorb_right y post = (z, r)" by (rule prod.exhaust)
  have "tiles b (l @ (fst y, snd y, True) # post) e"
    by (rule absorb_left_tiles [OF _ l]) (use assms in simp)
  then show ?thesis using absorb_right_tiles [OF _ r] l r by (simp add: release_def)
qed

lemma release_coalesced:
  assumes "coalesced (pre @ (a, s, False) # post)"
  shows "coalesced (release pre (a, s) post)"
proof -
  have c: "coalesced pre" "coalesced post" using assms by (auto simp: coalesced_append [of pre] coalesced_append [of "[_]" post, simplified])
  obtain l y where l: "absorb_left pre (a, s) = (l, y)" by (rule prod.exhaust)
  obtain z r where r: "absorb_right y post = (z, r)" by (rule prod.exhaust)
  have cl: "coalesced l" "l \<noteq> [] \<Longrightarrow> \<not> snd (snd (last l))"
  proof -
    have "coalesced l \<and> (l \<noteq> [] \<longrightarrow> \<not> snd (snd (last l)))"
    proof (cases "pre \<noteq> [] \<and> snd (snd (last pre))")
      case True
      then obtain p x where "pre = p @ [x]" "snd (snd x)" by (cases pre rule: rev_cases) auto
      then show ?thesis using c(1) l by (auto simp: absorb_left_def coalesced_append)
    next
      case False
      then show ?thesis using c(1) l by (auto simp: absorb_left_def)
    qed
    then show "coalesced l" "l \<noteq> [] \<Longrightarrow> \<not> snd (snd (last l))" by auto
  qed
  have cr: "coalesced r \<and> (r \<noteq> [] \<longrightarrow> \<not> snd (snd (hd r)))"
  proof (cases post)
    case (Cons p ps)
    obtain d n g where p: "p = (d, n, g)" by (cases p)
    show ?thesis using c(2) r Cons p
      by (cases g; cases ps) (auto simp: absorb_right_def)
  qed (use r in \<open>auto simp: absorb_right_def\<close>)
  have "coalesced ((fst z, snd z, True) # r)"
    using cr by (cases r) auto
  then have "coalesced (l @ (fst z, snd z, True) # r)"
    using cl by (auto simp: coalesced_append)
  then show ?thesis using l r by (simp add: release_def)
qed

lemma release_free_bytes: "free_bytes (release pre (a, s) post) = free_bytes pre + s + free_bytes post"
proof -
  have 1: "free_bytes l + snd y = free_bytes pre + snd x" if "absorb_left pre x = (l, y)" for l x y
    using that by (cases pre rule: rev_cases) (auto simp: absorb_left_def split: if_splits)
  have 2: "free_bytes r + snd y = free_bytes post + snd x" if "absorb_right x post = (y, r)" for r x y
    using that by (auto simp: absorb_right_def split: list.splits prod.splits bool.splits)
  obtain l y where l: "absorb_left pre (a, s) = (l, y)" by (rule prod.exhaust)
  obtain z r where r: "absorb_right y post = (z, r)" by (rule prod.exhaust)
  show ?thesis using 1 [OF l] 2 [OF r] l r by (simp add: release_def)
qed

lemma release_live: "live_of (release pre x post) = live_of pre \<union> live_of post"
proof -
  have 1: "live_of l = live_of pre" if "absorb_left pre x = (l, y)" for l x y
    using that by (cases pre rule: rev_cases) (auto simp: absorb_left_def split: if_splits)
  have 2: "live_of r = live_of post" if "absorb_right x post = (y, r)" for r x y
    using that by (auto simp: absorb_right_def split: list.splits prod.splits bool.splits)
  obtain l y where l: "absorb_left pre x = (l, y)" by (rule prod.exhaust)
  obtain z r where r: "absorb_right y post = (z, r)" by (rule prod.exhaust)
  show ?thesis using 1 [OF l] 2 [OF r] l r by (simp add: release_def)
qed


section \<open>The heap invariant\<close>

definition geometry :: "nat \<Rightarrow> heap \<Rightarrow> block list \<Rightarrow> bool" where
  "geometry base h bs \<longleftrightarrow> tiles base bs (unat (pxEnd h)) \<and> coalesced bs \<and> 8 dvd base \<and> 0 < base
     \<and> unat (pxEnd h) < base + 2 ^ 31 \<and> xStart h \<notin> of_nat ` {base..unat (pxEnd h)}"

definition headers :: "heap \<Rightarrow> block list \<Rightarrow> bool" where
  "headers h bs \<longleftrightarrow> chain h (xStart h) (free_of bs) (pxEnd h) \<and> bsz h (xStart h) = 0
     \<and> bsz h (pxEnd h) = 0 \<and> nxt h (pxEnd h) = 0
     \<and> (\<forall>(a, s) \<in> live_of bs. nxt h (of_nat a) = 0
           \<and> bsz h (of_nat a) = or (of_nat s) heapBLOCK_ALLOCATED_BITMASK)"

definition heap_inv :: "nat \<Rightarrow> heap \<Rightarrow> block list \<Rightarrow> bool" where
  "heap_inv base h bs \<longleftrightarrow> geometry base h bs \<and> headers h bs
     \<and> xFreeBytesRemaining h = of_nat (free_bytes bs)
     \<and> xMinimumEverFreeBytesRemaining h \<le> xFreeBytesRemaining h"

lemma unat_pxEnd: "pxEnd h = of_nat (unat (pxEnd h))" "unat (pxEnd h) < 2 ^ 32"
  by (simp, rule unat_lt_u32)

lemma geometry_block:
  assumes "geometry base h bs" and "(a, s, f) \<in> set bs"
  shows "base \<le> a" "a + s \<le> unat (pxEnd h)" "0 < s" "8 dvd s" "8 dvd a" "0 < a" "a < 2 ^ 32" "s < 2 ^ 31"
    "(of_nat a :: u32) \<noteq> xStart h" "(of_nat a :: u32) \<noteq> pxEnd h"
proof -
  have t: "tiles base bs (unat (pxEnd h))" and g: "8 dvd base" "0 < base" "unat (pxEnd h) < base + 2 ^ 31"
    and st: "xStart h \<notin> of_nat ` {base..unat (pxEnd h)}"
    using assms(1) by (auto simp: geometry_def)
  note b = tiles_bound [OF t assms(2)]
  show "base \<le> a" "a + s \<le> unat (pxEnd h)" "0 < s" "8 dvd s" "8 dvd a" using b g by auto
  then show "0 < a" "s < 2 ^ 31" using g by auto
  show a: "a < 2 ^ 32" using b unat_pxEnd(2) [of h] by linarith
  have "a \<in> {base..unat (pxEnd h)}" using b by simp
  then have "(of_nat a :: u32) \<in> of_nat ` {base..unat (pxEnd h)}" by (rule imageI)
  with st show "(of_nat a :: u32) \<noteq> xStart h" by metis
  have "a \<noteq> unat (pxEnd h)" using b by linarith
  then show "(of_nat a :: u32) \<noteq> pxEnd h"
    using of_nat_u32_eq_iff [OF a unat_pxEnd(2) [of h]] by simp
qed

lemma geometry_end:
  assumes "geometry base h bs"
  shows "pxEnd h \<noteq> 0" "xStart h \<noteq> pxEnd h"
proof -
  have t: "tiles base bs (unat (pxEnd h))" "0 < base" and st: "xStart h \<notin> of_nat ` {base..unat (pxEnd h)}"
    using assms by (auto simp: geometry_def)
  have le: "base \<le> unat (pxEnd h)" using tiles_le [OF t(1)] .
  then show "pxEnd h \<noteq> 0" using t(2) by auto
  have "of_nat (unat (pxEnd h)) \<in> (of_nat ` {base..unat (pxEnd h)} :: u32 set)" using le by (intro imageI) simp
  then show "xStart h \<noteq> pxEnd h" using st by (metis unat_pxEnd(1))
qed

lemma geometry_distinct:
  assumes "geometry base h bs"
  shows "distinct (map (\<lambda>b. of_nat (fst b) :: u32) bs)"
proof -
  have "sorted_wrt (\<lambda>x y. fst x + fst (snd x) \<le> fst y) bs"
    using assms by (intro tiles_sorted) (auto simp: geometry_def)
  then have "sorted_wrt (\<lambda>x y. fst x + snd x \<le> fst y) (map (\<lambda>(a, s, f). (a, s)) bs)"
    by (simp add: sorted_wrt_map case_prod_beta)
  moreover have "\<forall>y \<in> set (map (\<lambda>(a, s, f). (a, s)) bs). 0 < snd y \<and> fst y + snd y < 2 ^ 32"
  proof
    fix y assume "y \<in> set (map (\<lambda>(a, s, f). (a, s)) bs)"
    then obtain f where "(fst y, snd y, f) \<in> set bs" by auto
    from geometry_block(2,3) [OF assms this] show "0 < snd y \<and> fst y + snd y < 2 ^ 32"
      using unat_pxEnd(2) [of h] by linarith
  qed
  ultimately have "distinct (map (\<lambda>x. of_nat (fst x) :: u32) (map (\<lambda>(a, s, f). (a, s)) bs))"
    by (rule sorted_wrt_addrs_distinct)
  then show ?thesis by (simp add: case_prod_beta o_def)
qed

lemma geometry_insertable:
  assumes "geometry base h (pre @ (a, s, f) # post)" and "bsz h (xStart h) = 0"
  shows "insertable h (free_of pre) (a, s) (free_of post)"
proof -
  let ?bs = "pre @ (a, s, True) # post"
  have t: "tiles base ?bs (unat (pxEnd h))"
    using assms(1) by (auto simp: geometry_def tiles_append)
  have "sorted_wrt (\<lambda>x y. fst x + snd x \<le> fst y) (free_of ?bs)"
    by (rule free_of_sorted [OF tiles_sorted [OF t]])
  moreover have "0 < snd y \<and> fst y + snd y \<le> unat (pxEnd h)" if "y \<in> set (free_of ?bs)" for y
    using that tiles_bound(2,3) [OF t, of "fst y" "snd y" True] mem_free_of [of "fst y" "snd y" ?bs] by simp
  moreover have "xStart h \<notin> addrs (free_of ?bs)"
  proof
    assume "xStart h \<in> addrs (free_of ?bs)"
    then obtain y where "y \<in> set (free_of ?bs)" and e: "xStart h = of_nat (fst y)" by blast
    then have "(fst y, snd y, True) \<in> set ?bs" using mem_free_of [of "fst y" "snd y" ?bs] by simp
    then obtain g where "(fst y, snd y, g) \<in> set (pre @ (a, s, f) # post)" by auto
    from geometry_block(9) [OF assms(1) this] e show False by simp
  qed
  ultimately show ?thesis using assms(2) by (simp add: insertable_def)
qed

lemma absorb_left_free_of:
  assumes "tiles b (pre @ (fst x, snd x, f) # post) e" and "absorb_left pre x = (l, y)"
  shows "join_left (free_of pre) x = (free_of l, y)"
proof (cases pre rule: rev_cases)
  case Nil
  then show ?thesis using assms(2) by (auto simp: absorb_left_def join_left_def)
next
  case (snoc p z)
  obtain c n g where z: "z = (c, n, g)" by (cases z)
  have t: "tiles b p c" "c + n = fst x" "0 < n" using assms(1) snoc z by (auto simp: tiles_append)
  show ?thesis
  proof (cases g)
    case True
    then show ?thesis using assms(2) snoc z t by (auto simp: absorb_left_def join_left_def)
  next
    case False
    have "fst y + snd y \<noteq> fst x" if "y \<in> set (free_of p)" for y
      using that tiles_bound(2) [OF t(1), of "fst y" "snd y" True] mem_free_of [of "fst y" "snd y" p] t(2,3) by simp
    then have "fst (last (free_of p)) + snd (last (free_of p)) \<noteq> fst x" if "free_of p \<noteq> []"
      using that last_in_set by blast
    then show ?thesis using assms(2) snoc z False by (auto simp: absorb_left_def join_left_def)
  qed
qed

lemma absorb_right_free_of:
  assumes "tiles b (pre @ (fst x, snd x, f) # post) e" and "absorb_right x post = (y, r)"
  shows "join_right x (free_of post) = (y, free_of r)"
proof (cases post)
  case Nil
  then show ?thesis using assms(2) by (auto simp: absorb_right_def join_right_def)
next
  case (Cons z p)
  obtain c n g where z: "z = (c, n, g)" by (cases z)
  have t: "tiles (c + n) p e" "c = fst x + snd x" "0 < n" using assms(1) Cons z by (auto simp: tiles_append)
  show ?thesis
  proof (cases g)
    case True
    then show ?thesis using assms(2) Cons z t by (auto simp: absorb_right_def join_right_def)
  next
    case False
    have "fst x + snd x \<noteq> fst y" if "y \<in> set (free_of p)" for y
      using that tiles_bound(1) [OF t(1), of "fst y" "snd y" True] mem_free_of [of "fst y" "snd y" p] t(2,3) by simp
    then have "free_of p \<noteq> [] \<Longrightarrow> fst x + snd x \<noteq> fst (hd (free_of p))" by simp
    then show ?thesis using assms(2) Cons z False
      by (cases "free_of p") (auto simp: absorb_right_def join_right_def)
  qed
qed

lemma release_free_of:
  assumes "tiles b (pre @ (a, s, f) # post) e"
  shows "free_of (release pre (a, s) post) = coalesce (free_of pre) (a, s) (free_of post)"
proof -
  obtain l y where l: "absorb_left pre (a, s) = (l, y)" by (rule prod.exhaust)
  obtain z r where r: "absorb_right y post = (z, r)" by (rule prod.exhaust)
  have "tiles b (l @ (fst y, snd y, True) # post) e"
    by (rule absorb_left_tiles [OF _ l]) (use assms in simp)
  then have "join_right y (free_of post) = (z, free_of r)" by (rule absorb_right_free_of [OF _ r])
  moreover have "join_left (free_of pre) (a, s) = (free_of l, y)"
    by (rule absorb_left_free_of [OF _ l]) (use assms in simp)
  ultimately show ?thesis using l r by (simp add: release_def coalesce_def)
qed

lemma release_id:
  assumes "pre \<noteq> [] \<Longrightarrow> \<not> snd (snd (last pre))" and "post \<noteq> [] \<Longrightarrow> \<not> snd (snd (hd post))"
  shows "release pre (a, s) post = pre @ (a, s, True) # post"
  using assms by (cases post) (auto simp: release_def absorb_left_def absorb_right_def)

lemma chain_join: "chain h p xs (first_addr ys e) \<Longrightarrow> chain h (last_addr p xs) ys e \<Longrightarrow> chain h p (xs @ ys) e"
  by (induction xs arbitrary: p) (cases ys; auto)+

lemma last_addr_notin:
  assumes "distinct (p # map (\<lambda>x. of_nat (fst x)) (xs @ ys))"
  shows "last_addr p xs \<notin> addrs ys"
proof (cases xs rule: rev_cases)
  case (snoc zs z)
  then show ?thesis using assms by auto
qed (use assms in auto)

text \<open>Unlinking the block after \<open>last_addr p xs\<close>, as \<open>pvPortMalloc\<close> does.\<close>

lemma chain_unlink:
  assumes ch: "chain h p (xs @ (a, n) # ys) e"
    and dis: "distinct (p # map (\<lambda>x. of_nat (fst x)) (xs @ (a, n) # ys))"
  shows "chain (set_nxt (last_addr p xs) (nxt h (of_nat a)) h) p (xs @ ys) e"
proof (rule chain_join)
  let ?h = "set_nxt (last_addr p xs) (nxt h (of_nat a)) h"
  have c: "chain h p xs (of_nat a)" "chain h (of_nat a) ys e" using ch by (simp_all add: chain_append)
  have n: "nxt h (of_nat a) = first_addr ys e"
    using chain_append_first [of h "of_nat a" "[]" ys e] c(2) by simp
  show "chain ?h p xs (first_addr ys e)"
    by (rule chain_relink [OF c(1)]) (use dis n in simp_all)
  have "last_addr p xs \<notin> addrs ((a, n) # ys)" by (rule last_addr_notin [OF dis])
  then have l: "last_addr p xs \<notin> addrs ys" by simp
  show "chain ?h (last_addr p xs) ys e"
  proof (rule chain_from_first [OF c(2)])
    show "mem ?h y = mem h y" if "y \<in> addrs ys" for y
      using l that by (metis mem_upd_other)
  qed (simp add: n)
qed

lemma free_of_first_fit:
  "free_of (takeWhile (\<lambda>b. \<not> fits n b) bs) = takeWhile (\<lambda>x. snd x < n) (free_of bs)"
  "free_of (dropWhile (\<lambda>b. \<not> fits n b) bs) = dropWhile (\<lambda>x. snd x < n) (free_of bs)"
  by (induction bs) (auto simp: fits_def free_of_def)

lemma addrs_free_of: "addrs (free_of bs) \<subseteq> (\<lambda>b. of_nat (fst b)) ` set bs"
proof
  fix q assume "q \<in> addrs (free_of bs)"
  then obtain x where x: "x \<in> set (free_of bs)" "q = of_nat (fst x)" by blast
  then have "(fst x, snd x, True) \<in> set bs" using mem_free_of [of "fst x" "snd x" bs] by simp
  from imageI [OF this, of "\<lambda>b. of_nat (fst b)"] show "q \<in> (\<lambda>b. of_nat (fst b)) ` set bs"
    using x(2) by simp
qed

lemma geometry_free_distinct:
  assumes "geometry base h bs"
  shows "distinct (xStart h # map (\<lambda>x. of_nat (fst x)) (free_of bs))"
proof -
  have "xStart h \<notin> addrs (free_of bs)"
    using geometry_block(9) [OF assms] addrs_free_of [of bs] by (auto simp: image_iff)
  moreover have "distinct (map (\<lambda>x. of_nat (fst x) :: u32) (free_of bs))"
    using geometry_distinct [OF assms]
  proof (induction bs)
    case (Cons b bs)
    obtain a s f where b: "b = (a, s, f)" by (cases b)
    have "of_nat a \<notin> (\<lambda>b. of_nat (fst b) :: u32) ` set bs" using Cons.prems b by simp
    then have "(of_nat a :: u32) \<notin> addrs (free_of bs)" by (rule contra_subsetD [OF addrs_free_of])
    then show ?case using Cons b by (cases f) auto
  qed simp
  ultimately show ?thesis by simp
qed

text \<open>The search of \<open>pvPortMalloc\<close> finds the block that \<open>first_fit\<close> takes.\<close>

lemma malloc_loop_first_fit:
  assumes "geometry base h bs" and "headers h bs" and "0 < n" and "n < 2 ^ 32"
  shows "malloc_loop h (of_nat n) (xStart h) (nxt h (xStart h)) =
    Some (last_addr (xStart h) (free_of (takeWhile (\<lambda>b. \<not> fits n b) bs)),
          first_addr (free_of (dropWhile (\<lambda>b. \<not> fits n b) bs)) (pxEnd h))"
proof -
  have ch: "chain h (xStart h) (free_of bs) (pxEnd h)" "bsz h (pxEnd h) = 0" "nxt h (pxEnd h) = 0"
    using assms(2) by (auto simp: headers_def)
  have blk: "of_nat (fst x) \<noteq> (0 :: u32) \<and> ((of_nat (snd x) :: u32) < of_nat n \<longleftrightarrow> snd x < n)"
    if "x \<in> set (free_of bs)" for x
  proof -
    have x: "(fst x, snd x, True) \<in> set bs" using that mem_free_of [of "fst x" "snd x" bs] by simp
    have "0 < fst x" "fst x < 2 ^ 32" "snd x < 2 ^ 31" using geometry_block(6-8) [OF assms(1) x] by auto
    then show ?thesis using assms(4) by (simp add: of_nat_u32_iffs of_nat_u32_eq_0_iff)
  qed
  have n: "(0 :: u32) < of_nat n" using assms(3,4) by (simp add: word_less_nat_alt unat_of_nat_u32)
  have first: "nxt h (xStart h) = first_addr (free_of bs) (pxEnd h)"
    using chain_append_first [of h "xStart h" "[]" "free_of bs" "pxEnd h"] ch(1) by simp
  have tw: "takeWhile (\<lambda>x. of_nat (snd x) < (of_nat n :: u32)) (free_of bs) = takeWhile (\<lambda>x. snd x < n) (free_of bs)"
    "dropWhile (\<lambda>x. of_nat (snd x) < (of_nat n :: u32)) (free_of bs) = dropWhile (\<lambda>x. snd x < n) (free_of bs)"
    using blk by (auto intro: takeWhile_cong dropWhile_cong)
  show ?thesis
    unfolding first free_of_first_fit tw [symmetric]
    by (rule malloc_loop_stops [OF ch n geometry_end(1) [OF assms(1)]]) (use blk in blast)
qed

lemma aligned_u32: "8 dvd a \<Longrightarrow> a < 2 ^ 32 \<Longrightarrow> and (of_nat a :: u32) portBYTE_ALIGNMENT_MASK = 0"
proof -
  assume "8 dvd a" "a < 2 ^ 32"
  have m: "portBYTE_ALIGNMENT_MASK = mask 3" by (simp add: portBYTE_ALIGNMENT_MASK_def mask_eq_exp_minus_1)
  have "unat (take_bit 3 (of_nat a :: u32)) = take_bit 3 a"
    using \<open>a < 2 ^ 32\<close> by (simp add: unsigned_take_bit_eq unat_of_nat_u32)
  also have "\<dots> = 0" using \<open>8 dvd a\<close> by (simp add: take_bit_eq_mod)
  finally show ?thesis unfolding m take_bit_eq_mask [symmetric] by (simp only: unat_0_iff)
qed


text \<open>Dividing the block, as \<open>pvPortMalloc\<close> does when the rest is large enough to keep.\<close>

lemma malloc_carve:
  assumes g: "geometry base h (pre @ (a, s, True) # post)"
    and ch: "chain h (xStart h) (free_of pre @ free_of post) (pxEnd h)" and st: "bsz h (xStart h) = 0"
    and sz: "bsz h (of_nat a) = of_nat s" and n: "0 < n" "8 dvd n" "n \<le> s"
  defines "s' \<equiv> (if s - n > 16 then n else s)"
  shows "\<exists>m. split_block (of_nat a) (of_nat n) h = Some (h\<lparr>mem := m\<rparr>)
     \<and> chain (h\<lparr>mem := m\<rparr>) (xStart h) (free_of (pre @ carve n a s @ post)) (pxEnd h)
     \<and> xBlockSize (m (xStart h)) = 0 \<and> xBlockSize (m (of_nat a)) = of_nat s'
     \<and> (\<forall>q. q \<noteq> xStart h \<longrightarrow> q \<noteq> of_nat a \<longrightarrow> q \<notin> addrs (free_of (pre @ carve n a s @ post)) \<longrightarrow> m q = mem h q)"
proof -
  have blk: "(a, s, True) \<in> set (pre @ (a, s, True) # post)" by simp
  note b = geometry_block [OF g blk]
  have mbs: "heapMINIMUM_BLOCK_SIZE = of_nat 16"
    by (simp add: heapMINIMUM_BLOCK_SIZE_def xHeapStructSize_def portBYTE_ALIGNMENT_MASK_def portBYTE_ALIGNMENT_def)
  have diff: "(of_nat s - of_nat n :: u32) = of_nat (s - n)" using n(3) by simp
  have test: "bsz h (of_nat a) - of_nat n > heapMINIMUM_BLOCK_SIZE \<longleftrightarrow> s - n > 16"
    unfolding sz diff mbs using b(8) by (subst of_nat_u32_less_iff) auto
  show ?thesis
  proof (cases "s - n > 16")
    case False
    then show ?thesis using test ch st sz
      by (intro exI [of _ "mem h"]) (auto simp: carve_def s'_def split_block_def)
  next
    case True
    define new where "new = (of_nat (a + n) :: u32)"
    define h2 where "h2 = set_bsz (of_nat a) (of_nat n) (set_bsz new (of_nat (s - n)) h)"
    let ?pre = "pre @ [(a, n, False)]"
    have g2: "geometry base h2 (?pre @ (a + n, s - n, True) # post)"
    proof -
      have "tiles base (pre @ carve n a s @ post) (unat (pxEnd h))"
        using g carve_tiles [OF n] by (auto simp: geometry_def tiles_append [of base pre])
      moreover have "coalesced (pre @ carve n a s @ post)"
        using g carve_coalesced [of a s post n] True
        by (auto simp: geometry_def coalesced_append [of pre] carve_def)
      ultimately show ?thesis using g True by (auto simp: geometry_def h2_def carve_def)
    qed
    have fs: "distinct (map (\<lambda>b. of_nat (fst b) :: u32) (?pre @ (a + n, s - n, True) # post))"
      by (rule geometry_distinct [OF g2])
    have off: "of_nat a \<noteq> xStart h" "new \<noteq> xStart h" "of_nat a \<noteq> new"
      using b(9) geometry_block(9) [OF g2, of "a + n" "s - n" True] fs by (auto simp: h2_def new_def)
    have sub: "addrs (free_of pre @ free_of post) \<subseteq> (\<lambda>b. of_nat (fst b)) ` set (pre @ post)"
      using addrs_free_of [of "pre @ post"] by simp
    have out: "of_nat a \<notin> (\<lambda>b. of_nat (fst b) :: u32) ` set (pre @ post)"
        "new \<notin> (\<lambda>b. of_nat (fst b) :: u32) ` set (pre @ post)"
      using fs unfolding new_def by auto
    have nin: "of_nat a \<notin> addrs (free_of pre @ free_of post)" "new \<notin> addrs (free_of pre @ free_of post)"
      by (rule contra_subsetD [OF sub out(1)], rule contra_subsetD [OF sub out(2)])
    have same: "mem h2 q = mem h q" if "q \<noteq> of_nat a" "q \<noteq> new" for q
      using that by (simp add: h2_def)
    have "chain h2 (xStart h) (free_of pre @ free_of post) (pxEnd h)"
    proof (subst chain_cong [of "xStart h" "free_of pre @ free_of post" h2 h])
      show "nxt h2 q = nxt h q" if "q \<in> insert (xStart h) (addrs (free_of pre @ free_of post))" for q
        by (simp add: h2_def)
      show "bsz h2 q = bsz h q" if "q \<in> addrs (free_of pre @ free_of post)" for q
        using that nin same by metis
    qed (rule ch)
    then have ch2: "chain h2 (xStart h2) (free_of ?pre @ free_of post) (pxEnd h2)" by (simp add: h2_def)
    have st2: "bsz h2 (xStart h2) = 0" using off st same by (simp add: h2_def)
    have sz2: "bsz h2 new = of_nat (s - n)" using off by (simp add: h2_def)
    obtain m where m: "prvInsertBlockIntoFreeList new h2 = Some (h2\<lparr>mem := m\<rparr>)"
        "chain (h2\<lparr>mem := m\<rparr>) (xStart h2) (coalesce (free_of ?pre) (a + n, s - n) (free_of post)) (pxEnd h2)"
        "xBlockSize (m (xStart h2)) = 0"
        "\<forall>q. q \<noteq> xStart h2 \<longrightarrow> q \<notin> addrs (free_of ?pre @ [(a + n, s - n)]) \<longrightarrow> m q = mem h2 q"
      using prvInsertBlockIntoFreeList_coalesces [OF ch2 geometry_insertable [OF g2 st2]] sz2
      unfolding new_def by blast
    have "coalesce (free_of ?pre) (a + n, s - n) (free_of post) = free_of (release ?pre (a + n, s - n) post)"
      using g2 by (intro release_free_of [symmetric]) (auto simp: geometry_def)
    also have "release ?pre (a + n, s - n) post = ?pre @ (a + n, s - n, True) # post"
    proof (rule release_id)
      show "post \<noteq> [] \<Longrightarrow> \<not> snd (snd (hd post))"
        using g by (cases post) (auto simp: geometry_def coalesced_append [of pre])
    qed simp
    finally have co: "coalesce (free_of ?pre) (a + n, s - n) (free_of post) = free_of (pre @ carve n a s @ post)"
      using True by (simp add: carve_def)
    have eq: "h2\<lparr>mem := m\<rparr> = h\<lparr>mem := m\<rparr>" "xStart h2 = xStart h" "pxEnd h2 = pxEnd h"
      by (simp_all add: h2_def upd_blk_mem)
    have addrs': "addrs (free_of (pre @ carve n a s @ post)) = insert new (addrs (free_of pre @ free_of post))"
      using True by (simp add: carve_def new_def)
    have m4: "m q = mem h2 q" if "q \<noteq> xStart h" "q \<noteq> new" "q \<notin> addrs (free_of pre)" for q
      using m(4) that by (simp add: new_def eq)
    have "m (of_nat a) = mem h2 (of_nat a)"
      by (rule m4) (use off nin in \<open>simp_all add: image_Un\<close>)
    then have sza: "xBlockSize (m (of_nat a)) = of_nat s'" using True by (simp add: h2_def s'_def)
    have "m q = mem h q" if "q \<noteq> xStart h" "q \<noteq> of_nat a" "q \<notin> addrs (free_of (pre @ carve n a s @ post))" for q
      using that m4 [of q] same [of q] unfolding addrs' by (simp add: image_Un)
    moreover have "split_block (of_nat a) (of_nat n) h = prvInsertBlockIntoFreeList new h2"
    proof -
      have "and new portBYTE_ALIGNMENT_MASK = 0" unfolding new_def
        by (rule aligned_u32) (use b(2,5) n unat_pxEnd(2) [of h] in \<open>auto intro: dvd_add\<close>)
      moreover have "of_nat a + of_nat n = new" by (simp add: new_def)
      ultimately show ?thesis using test True unfolding split_block_def sz diff h2_def by (simp add: Let_def)
    qed
    ultimately show ?thesis using m co sza unfolding eq by (intro exI [of _ m]) simp
  qed
qed


lemma live_ofD: "(a, s) \<in> live_of bs \<Longrightarrow> (a, s, False) \<in> set bs"
  by (simp add: live_of_def)

text \<open>Header addresses of different blocks differ.\<close>

lemma geometry_separate:
  assumes "geometry base h bs" and "(a, s, f) \<in> set bs" and "(c, n, g) \<in> set bs" and "a \<noteq> c"
  shows "(of_nat a :: u32) \<noteq> of_nat c"
  using assms(4) geometry_block(7) [OF assms(1,2)] geometry_block(7) [OF assms(1,3)]
  by (simp add: of_nat_u32_iffs)

lemma live_not_free:
  assumes "geometry base h bs" and "(a, s) \<in> live_of bs"
  shows "of_nat a \<notin> addrs (free_of bs)" "of_nat a \<noteq> xStart h" "of_nat a \<noteq> pxEnd h"
proof -
  have l: "(a, s, False) \<in> set bs" using assms(2) by (rule live_ofD)
  show "of_nat a \<notin> addrs (free_of bs)"
  proof
    assume "of_nat a \<in> addrs (free_of bs)"
    then obtain x where x: "x \<in> set (free_of bs)" "(of_nat a :: u32) = of_nat (fst x)" by blast
    then have f: "(fst x, snd x, True) \<in> set bs" using mem_free_of [of "fst x" "snd x" bs] by simp
    have inj: "inj_on (\<lambda>b. of_nat (fst b) :: u32) (set bs)"
      using geometry_distinct [OF assms(1)] by (simp only: distinct_map)
    have "(a, s, False) = (fst x, snd x, True)"
      by (rule inj_onD [OF inj _ l f]) (simp add: x(2))
    then show False by simp
  qed
  show "of_nat a \<noteq> xStart h" "of_nat a \<noteq> pxEnd h" using geometry_block(9,10) [OF assms(1) l] by auto
qed

lemma free_bytes_bound: "tiles b bs e \<Longrightarrow> free_bytes bs \<le> e - b"
proof (induction b bs e rule: tiles.induct)
  case (2 b a s f bs e)
  then show ?case using tiles_le [of "b + s" bs e] by (cases f) auto
qed simp

lemma geometry_free_bytes: "geometry base h bs \<Longrightarrow> free_bytes bs < 2 ^ 31"
  using free_bytes_bound [of base bs "unat (pxEnd h)"] by (auto simp: geometry_def)

lemma geometry_first_fit:
  assumes "geometry base h bs" and "first_fit n bs = Some (a, bs')" and "0 < n" and "8 dvd n"
  shows "geometry base h bs'"
  using assms first_fit_tiles [OF assms(2) _ assms(3,4)] first_fit_coalesced [OF assms(2)]
  by (auto simp: geometry_def)

lemma geometry_cong:
  "xStart h' = xStart h \<Longrightarrow> pxEnd h' = pxEnd h \<Longrightarrow> geometry base h' bs = geometry base h bs"
  by (simp add: geometry_def)

text \<open>A state whose headers agree with the old ones outside the free list keeps its allocated blocks.\<close>

lemma headers_frame:
  assumes h: "headers h bs" and g: "geometry base h bs" "geometry base h bs'"
    and ch: "chain h' (xStart h) (free_of bs') (pxEnd h)" and st: "bsz h' (xStart h) = 0"
    and eq: "xStart h' = xStart h" "pxEnd h' = pxEnd h"
    and new: "\<And>a s. (a, s) \<in> live_of bs' - live_of bs \<Longrightarrow>
      nxt h' (of_nat a) = 0 \<and> bsz h' (of_nat a) = or (of_nat s) heapBLOCK_ALLOCATED_BITMASK"
    and frame: "\<And>q. q \<noteq> xStart h \<Longrightarrow> q \<noteq> c \<Longrightarrow> q \<notin> addrs (free_of bs') \<Longrightarrow> mem h' q = mem h q"
    and c: "c \<noteq> pxEnd h" "\<And>a s. (a, s) \<in> live_of bs \<inter> live_of bs' \<Longrightarrow> of_nat a \<noteq> c"
  shows "headers h' bs'"
proof -
  have "pxEnd h \<notin> addrs (free_of bs')"
  proof
    assume "pxEnd h \<in> addrs (free_of bs')"
    then obtain x where x: "x \<in> set (free_of bs')" "pxEnd h = of_nat (fst x)" by blast
    then have "(fst x, snd x, True) \<in> set bs'" using mem_free_of [of "fst x" "snd x" bs'] by simp
    from geometry_block(10) [OF g(2) this] x(2) show False by simp
  qed
  then have e: "mem h' (pxEnd h) = mem h (pxEnd h)"
    using frame geometry_end(2) [OF g(1)] c(1) by metis
  have "nxt h' (of_nat a) = 0 \<and> bsz h' (of_nat a) = or (of_nat s) heapBLOCK_ALLOCATED_BITMASK"
    if l: "(a, s) \<in> live_of bs'" for a s
  proof (cases "(a, s) \<in> live_of bs")
    case True
    then have "mem h' (of_nat a) = mem h (of_nat a)"
      using live_not_free [OF g(2) l] c(2) [of a s] l by (intro frame) auto
    then show ?thesis using h True by (auto simp: headers_def)
  qed (use new l in blast)
  then show ?thesis using h ch st e eq by (auto simp: headers_def)
qed

text \<open>Setting and clearing the allocation bit of a size below \<open>2 ^ 31\<close>.\<close>

lemma alloc_bit:
  assumes "s < 2 ^ 31"
  shows "and (or (of_nat s :: u32) heapBLOCK_ALLOCATED_BITMASK) heapBLOCK_ALLOCATED_BITMASK \<noteq> 0"
    and "and (or (of_nat s :: u32) heapBLOCK_ALLOCATED_BITMASK) (not heapBLOCK_ALLOCATED_BITMASK) = of_nat s"
    and "and (of_nat s :: u32) heapBLOCK_ALLOCATED_BITMASK = 0"
proof -
  have b: "bit heapBLOCK_ALLOCATED_BITMASK n \<longleftrightarrow> n = 31" for n
  proof -
    have "heapBLOCK_ALLOCATED_BITMASK = 2 ^ 31" by (simp add: heapBLOCK_ALLOCATED_BITMASK_def)
    moreover have "bit (2 ^ 31 :: u32) n \<longleftrightarrow> n = 31" unfolding bit_exp_iff by auto
    ultimately show ?thesis by (simp only:)
  qed
  have s: "\<not> bit (of_nat s :: u32) 31"
  proof -
    have "bit s k = False" if "31 \<le> k" for k
      using assms that by (metis bit_iff_odd div_less even_zero less_le_trans one_le_numeral power_increasing)
    then show ?thesis by (simp add: bit_of_nat_iff)
  qed
  have "bit (and (or (of_nat s :: u32) heapBLOCK_ALLOCATED_BITMASK) heapBLOCK_ALLOCATED_BITMASK) 31"
    by (simp add: bit_simps b)
  then show "and (or (of_nat s :: u32) heapBLOCK_ALLOCATED_BITMASK) heapBLOCK_ALLOCATED_BITMASK \<noteq> 0" by auto
  show "and (or (of_nat s :: u32) heapBLOCK_ALLOCATED_BITMASK) (not heapBLOCK_ALLOCATED_BITMASK) = of_nat s"
  proof (rule bit_word_eqI)
    fix n assume "n < LENGTH(32)"
    then show "bit (and (or (of_nat s :: u32) heapBLOCK_ALLOCATED_BITMASK) (not heapBLOCK_ALLOCATED_BITMASK)) n
      = bit (of_nat s :: u32) n"
      using s by (cases "n = 31") (auto simp only: bit_and_iff bit_or_iff bit_not_iff b possible_bit_word simp_thms)
  qed
  show "and (of_nat s :: u32) heapBLOCK_ALLOCATED_BITMASK = 0"
  proof (rule bit_word_eqI)
    fix n assume "n < LENGTH(32)"
    then show "bit (and (of_nat s :: u32) heapBLOCK_ALLOCATED_BITMASK) n = bit (0 :: u32) n"
      using s by (cases "n = 31") (auto simp only: bit_and_iff b bit_0_eq bot_apply bot_bool_def simp_thms)
  qed
qed

section \<open>The code carries out the block operations\<close>

text \<open>The size of the block that a request of \<open>w\<close> bytes takes.\<close>

definition request :: "nat \<Rightarrow> nat" where
  "request w = w + 16 - w mod 8"

lemma request_dvd: "8 dvd request w"
proof -
  have "request w = 8 * (w div 8) + 16" unfolding request_def by (simp add: minus_mod_eq_mult_div [symmetric])
  then show ?thesis by simp
qed

lemma request_ge: "w + 8 < request w" "request w \<le> w + 16"
  by (simp_all add: request_def)

lemma required_size_eq:
  "required_size w = (if w = 0 \<or> 2 ^ 32 \<le> request (unat w) then 0 else of_nat (request (unat w)))"
proof (cases "w = 0")
  case False
  define m where "m = unat w mod 8"
  have m: "m < 8" by (simp add: m_def)
  have "and w portBYTE_ALIGNMENT_MASK = take_bit 3 w"
    by (simp add: portBYTE_ALIGNMENT_MASK_def take_bit_eq_mask mask_eq_exp_minus_1)
  then have u: "unat (and w portBYTE_ALIGNMENT_MASK) = m"
    by (simp only: m_def unsigned_take_bit_eq) (simp add: take_bit_eq_mod)
  have "and w portBYTE_ALIGNMENT_MASK = of_nat (unat (and w portBYTE_ALIGNMENT_MASK))" by simp
  also have "\<dots> = of_nat m" by (simp only: u)
  finally have aw: "and w portBYTE_ALIGNMENT_MASK = of_nat m" .
  have add: "xHeapStructSize + portBYTE_ALIGNMENT - and w portBYTE_ALIGNMENT_MASK = of_nat (16 - m)"
    using m unfolding aw
    by (simp add: xHeapStructSize_def portBYTE_ALIGNMENT_MASK_def portBYTE_ALIGNMENT_def)
  have req: "request (unat w) = unat w + (16 - m)" using m by (simp add: request_def m_def)
  have max: "unat heapSIZE_MAX = 2 ^ 32 - 1" by (simp add: heapSIZE_MAX_def unsigned_minus_1_eq_mask mask_eq_exp_minus_1)
  have "unat (heapSIZE_MAX - of_nat (16 - m)) = 2 ^ 32 - 1 - (16 - m)"
    by (subst unat_sub_u32) (simp_all add: word_le_nat_alt max unat_of_nat_u32)
  then have ov: "heapADD_WILL_OVERFLOW w (of_nat (16 - m)) \<longleftrightarrow> 2 ^ 32 \<le> request (unat w)"
    unfolding heapADD_WILL_OVERFLOW_def word_less_nat_alt req using m by auto
  have "w + of_nat (16 - m) = of_nat (request (unat w))" by (simp add: req)
  then show ?thesis using False ov
    unfolding required_size_def Let_def add by (auto simp: word_neq_0_conv)
qed (simp add: required_size_def)

lemma first_fit_bound:
  assumes "geometry base h bs" and "2 ^ 31 \<le> n"
  shows "first_fit n bs = None"
proof -
  have "s < n" if "(a, s) \<in> set (free_of bs)" for a s
    using geometry_block(8) [OF assms(1), of a s True] that assms(2) by (simp add: mem_free_of)
  then show ?thesis by (auto simp: first_fit_None)
qed

text \<open>No block is large enough: the call returns \<open>NULL\<close> and changes nothing.\<close>

lemma pvPortMalloc_fails:
  assumes "heap_inv base h bs" and "w = 0 \<or> first_fit (request (unat w)) bs = None"
  shows "pvPortMalloc w h = Some (0, h)"
proof -
  have g: "geometry base h bs" and hd: "headers h bs" using assms(1) by (auto simp: heap_inv_def)
  have z: "and (0 :: u32) portBYTE_ALIGNMENT_MASK = 0" by simp
  show ?thesis
  proof (cases "required_size w = 0")
    case True
    then show ?thesis using geometry_end(1) [OF g] by (simp add: pvPortMalloc_def)
  next
    case False
    then have n: "w \<noteq> 0" "request (unat w) < 2 ^ 32" "required_size w = of_nat (request (unat w))"
      by (auto simp: required_size_eq split: if_splits)
    then have ff: "first_fit (request (unat w)) bs = None" using assms(2) by simp
    then have "dropWhile (\<lambda>b. \<not> fits (request (unat w)) b) bs = []"
      by (cases "dropWhile (\<lambda>b. \<not> fits (request (unat w)) b) bs")
        (auto simp: first_fit_def simp del: dropWhile_eq_Nil_conv)
    note dw = this
    have "0 < request (unat w)" using request_ge(1) [of "unat w"] by simp
    then have "\<exists>p. malloc_loop h (required_size w) (xStart h) (nxt h (xStart h)) = Some (p, pxEnd h)"
      using malloc_loop_first_fit [OF g hd _ n(2)] n(3) unfolding dw by simp
    then show ?thesis using geometry_end(1) [OF g] by (auto simp: pvPortMalloc_def Let_def)
  qed
qed

lemma chain_frame:
  assumes "chain h p fs e" and "\<And>q. q \<in> insert p (addrs fs) \<Longrightarrow> mem h' q = mem h q"
  shows "chain h' p fs e"
proof -
  have "chain h' p fs e \<longleftrightarrow> chain h p fs e"
    by (rule chain_cong) (simp_all only: assms(2) insertI2)
  then show ?thesis using assms(1) by simp
qed

text \<open>The allocation: \<open>first_fit\<close> on the blocks, and the counters.\<close>

lemma pvPortMalloc_succeeds:
  assumes inv: "heap_inv base h bs" and w: "w \<noteq> 0" and ff: "first_fit (request (unat w)) bs = Some (a, bs')"
  shows "\<exists>h'. pvPortMalloc w h = Some (of_nat a + 8, h') \<and> heap_inv base h' bs'
    \<and> bytes h' = bytes h \<and> ucHeap h' = ucHeap h \<and> xStart h' = xStart h \<and> pxEnd h' = pxEnd h
    \<and> xMinimumEverFreeBytesRemaining h' = min (xMinimumEverFreeBytesRemaining h) (xFreeBytesRemaining h')
    \<and> xNumberOfSuccessfulAllocations h' = xNumberOfSuccessfulAllocations h + 1
    \<and> xNumberOfSuccessfulFrees h' = xNumberOfSuccessfulFrees h"
proof -
  define n where "n = request (unat w)"
  have g: "geometry base h bs" and hd: "headers h bs"
    and fb: "xFreeBytesRemaining h = of_nat (free_bytes bs)"
    and mn: "xMinimumEverFreeBytesRemaining h \<le> xFreeBytesRemaining h"
    using inv by (auto simp: heap_inv_def)
  have n: "0 < n" "8 dvd n" using request_ge(1) [of "unat w"] request_dvd by (simp_all add: n_def)
  have n31: "n < 2 ^ 31" using first_fit_bound [OF g, of n] ff by (cases "n < 2 ^ 31") (auto simp: n_def)
  then have n32: "n < 2 ^ 32" by simp
  have rs: "required_size w = of_nat n" using w n32 by (simp add: required_size_eq n_def)
  obtain pre s post where bs: "bs = pre @ (a, s, True) # post" "n \<le> s" "bs' = pre @ carve n a s @ post"
      "pre = takeWhile (\<lambda>b. \<not> fits n b) bs"
    using first_fit_Some [OF ff [folded n_def]] by blast
  have dw: "dropWhile (\<lambda>b. \<not> fits n b) bs = (a, s, True) # post"
    using takeWhile_dropWhile_id [of "\<lambda>b. \<not> fits n b" bs] bs(1,4) by (metis same_append_eq)
  define s' where "s' = (if s - n > 16 then n else s)"
  note b = geometry_block [OF g [unfolded bs(1)], of a s True, simplified]
  let ?prev = "last_addr (xStart h) (free_of pre)"
  let ?x = "of_nat a :: u32"
  have loop: "malloc_loop h (of_nat n) (xStart h) (nxt h (xStart h)) = Some (?prev, ?x)"
    using malloc_loop_first_fit [OF g hd n(1) n32] unfolding dw bs(4) [symmetric] by simp
  have ch: "chain h (xStart h) (free_of pre @ (a, s) # free_of post) (pxEnd h)"
    using hd bs(1) by (simp add: headers_def)
  have dis: "distinct (xStart h # map (\<lambda>x. of_nat (fst x)) (free_of pre @ (a, s) # free_of post))"
    using geometry_free_distinct [OF g] bs(1) by simp
  define h1 where "h1 = set_nxt ?prev (nxt h ?x) h"
  have ch1: "chain h1 (xStart h1) (free_of pre @ free_of post) (pxEnd h1)"
    using chain_unlink [OF ch dis] by (simp add: h1_def)
  have px: "?prev \<noteq> ?x" using last_addr_notin [OF dis] by simp
  have prev: "nxt h ?prev = ?x" by (rule chain_last) (use ch in \<open>simp add: chain_append\<close>)
  have g1: "geometry base h1 (pre @ (a, s, True) # post)"
    using g bs(1) geometry_cong [of h1 h] by (simp add: h1_def)
  have st1: "bsz h1 (xStart h1) = 0" using hd by (simp add: headers_def h1_def)
  have sz1: "bsz h1 ?x = of_nat s" using ch px by (simp add: h1_def chain_append)
  obtain m where m: "split_block ?x (of_nat n) h1 = Some (h1\<lparr>mem := m\<rparr>)"
      "chain (h1\<lparr>mem := m\<rparr>) (xStart h1) (free_of bs') (pxEnd h1)"
      "xBlockSize (m (xStart h1)) = 0" "xBlockSize (m ?x) = of_nat s'"
      "\<forall>q. q \<noteq> xStart h1 \<longrightarrow> q \<noteq> ?x \<longrightarrow> q \<notin> addrs (free_of bs') \<longrightarrow> m q = mem h1 q"
    using malloc_carve [OF g1 ch1 st1 sz1 n bs(2)] unfolding bs(3) s'_def by blast
  have s': "n \<le> s'" "s' \<le> s" "free_bytes bs = free_bytes bs' + s'" "live_of bs' = insert (a, s') (live_of bs)"
    using bs(2) unfolding bs(1,3) by (auto simp: s'_def carve_def)
  have le: "s' \<le> free_bytes bs" "n \<le> free_bytes bs" "free_bytes bs < 2 ^ 31"
    using s' geometry_free_bytes [OF g] by auto
  define h3 where "h3 = account_block ?x (h1\<lparr>mem := m\<rparr>)"
  have ret: "?x + 8 = ?x + xHeapStructSize"
    by (simp add: xHeapStructSize_def portBYTE_ALIGNMENT_MASK_def portBYTE_ALIGNMENT_def)
  have al: "and (?x + 8) portBYTE_ALIGNMENT_MASK = 0"
  proof -
    have "a + 8 < 2 ^ 32" using b(2,3,4) unat_pxEnd(2) [of h] by (auto dest!: dvd_imp_le)
    moreover have "8 dvd a + 8" using b(5) by simp
    ultimately show ?thesis using aligned_u32 [of "a + 8"] by simp
  qed
  have run: "pvPortMalloc w h = Some (?x + 8, h3)"
  proof -
    have "heapBLOCK_SIZE_IS_VALID (of_nat n)"
      using alloc_bit(3) [OF n31] by (simp add: heapBLOCK_SIZE_IS_VALID_def)
    moreover have "(0 :: u32) < of_nat n" using n(1) n32 by (simp add: word_less_nat_alt unat_of_nat_u32)
    moreover have "(of_nat n :: u32) \<le> xFreeBytesRemaining h" using fb le n32 by (simp add: of_nat_u32_le_iff)
    ultimately show ?thesis
      unfolding pvPortMalloc_def rs using geometry_end(1) [OF g] b(10) al prev
      by (simp add: loop h1_def [symmetric] m(1) h3_def [symmetric] ret)
  qed
  have h3: "mem h3 = m(?x := \<lparr>pxNextFreeBlock = 0, xBlockSize = or (of_nat s') heapBLOCK_ALLOCATED_BITMASK\<rparr>)"
    "xStart h3 = xStart h" "pxEnd h3 = pxEnd h" "bytes h3 = bytes h" "ucHeap h3 = ucHeap h"
    "xFreeBytesRemaining h3 = of_nat (free_bytes bs')"
    "xMinimumEverFreeBytesRemaining h3 = min (xMinimumEverFreeBytesRemaining h) (xFreeBytesRemaining h3)"
    "xNumberOfSuccessfulAllocations h3 = xNumberOfSuccessfulAllocations h + 1"
    "xNumberOfSuccessfulFrees h3 = xNumberOfSuccessfulFrees h"
    using m(4) fb s'(3) by (auto simp: h3_def account_block_def Let_def h1_def heapALLOCATE_BLOCK_def min_def)
  have g': "geometry base h bs'" by (rule geometry_first_fit [OF g ff [folded n_def] n])
  have live: "(a, s') \<in> live_of bs'" using s'(4) by simp
  note nf = live_not_free [OF g' live]
  have same: "mem h3 q = mem h q" if "q \<noteq> xStart h" "q \<noteq> ?x" "q \<notin> addrs (free_of bs')" "q \<noteq> ?prev" for q
    using m(5) that by (simp add: h3(1) h1_def)
  have "headers h3 bs'"
  proof (rule headers_frame [OF hd g g'])
    show "chain h3 (xStart h) (free_of bs') (pxEnd h)"
    proof (rule chain_frame)
      show "chain (h1\<lparr>mem := m\<rparr>) (xStart h) (free_of bs') (pxEnd h)" using m(2) by (simp add: h1_def)
      show "mem h3 q = mem (h1\<lparr>mem := m\<rparr>) q" if "q \<in> insert (xStart h) (addrs (free_of bs'))" for q
      proof -
        have "q \<noteq> ?x" using that nf(1,2) by (metis insertE)
        then show ?thesis by (simp add: h3(1))
      qed
    qed
    show "bsz h3 (xStart h) = 0" using m(3) nf(2) by (simp add: h3(1) h1_def)
    show "nxt h3 (of_nat c) = 0 \<and> bsz h3 (of_nat c) = or (of_nat k) heapBLOCK_ALLOCATED_BITMASK"
      if "(c, k) \<in> live_of bs' - live_of bs" for c k
      using that s'(4) by (auto simp: h3(1))
    show "mem h3 q = mem h q" if "q \<noteq> xStart h" "q \<noteq> ?x" "q \<notin> addrs (free_of bs')" for q
    proof (rule same [OF that])
      have "?prev \<in> insert (xStart h) (addrs (free_of pre))" by (rule last_addr_in)
      moreover have "addrs (free_of pre) \<subseteq> addrs (free_of bs')" by (auto simp: bs(3))
      ultimately show "q \<noteq> ?prev" using that by blast
    qed
    show "?x \<noteq> pxEnd h" by (rule b(10))
    show "of_nat c \<noteq> ?x" if "(c, k) \<in> live_of bs \<inter> live_of bs'" for c k
    proof -
      have "(c, k) \<in> live_of bs" "(a, s) \<in> set (free_of bs)" using that bs(1) by auto
      then show ?thesis using live_not_free(1) [OF g, of c k] by force
    qed
  qed (simp_all add: h3)
  moreover have "geometry base h3 bs'" using g' geometry_cong [of h3 h] h3 by simp
  ultimately have "heap_inv base h3 bs'" using h3 by (simp add: heap_inv_def)
  then show ?thesis using run h3 by blast
qed


text \<open>The release: \<open>release\<close> on the blocks.\<close>

lemma vPortFree_releases:
  assumes inv: "heap_inv base h (pre @ (a, s, False) # post)"
  shows "\<exists>h'. vPortFree (of_nat a + 8) h = Some h' \<and> heap_inv base h' (release pre (a, s) post)
    \<and> bytes h' = bytes h \<and> ucHeap h' = ucHeap h \<and> xStart h' = xStart h \<and> pxEnd h' = pxEnd h
    \<and> xFreeBytesRemaining h' = xFreeBytesRemaining h + of_nat s
    \<and> xMinimumEverFreeBytesRemaining h' = xMinimumEverFreeBytesRemaining h
    \<and> xNumberOfSuccessfulAllocations h' = xNumberOfSuccessfulAllocations h
    \<and> xNumberOfSuccessfulFrees h' = xNumberOfSuccessfulFrees h + 1"
proof -
  let ?bs = "pre @ (a, s, False) # post" and ?x = "of_nat a :: u32"
  define bs' where "bs' = release pre (a, s) post"
  have g: "geometry base h ?bs" and hd: "headers h ?bs"
    and fb: "xFreeBytesRemaining h = of_nat (free_bytes ?bs)"
    and mn: "xMinimumEverFreeBytesRemaining h \<le> xFreeBytesRemaining h"
    using inv by (auto simp: heap_inv_def)
  have blk: "(a, s, False) \<in> set ?bs" by simp
  note b = geometry_block [OF g blk]
  have live: "(a, s) \<in> live_of ?bs" by simp
  note nf = live_not_free [OF g live]
  have hdr: "nxt h ?x = 0" "bsz h ?x = or (of_nat s) heapBLOCK_ALLOCATED_BITMASK"
    using hd by (auto simp: headers_def)
  define h1 where "h1 = (upd_blk ?x heapFREE_BLOCK h)\<lparr>xFreeBytesRemaining := xFreeBytesRemaining h + of_nat s\<rparr>"
  have sz1: "bsz h1 ?x = of_nat s"
    using alloc_bit(2) [OF b(8)] hdr by (simp add: h1_def heapFREE_BLOCK_def)
  have same1: "mem h1 q = mem h q" if "q \<noteq> ?x" for q using that by (simp add: h1_def)
  have st1: "bsz h1 (xStart h1) = 0" using hd nf(2) same1 [of "xStart h"] by (simp add: headers_def h1_def)
  have g1: "geometry base h1 ?bs" using g geometry_cong [of h1 h] by (simp add: h1_def)
  have "chain h1 (xStart h) (free_of ?bs) (pxEnd h)"
  proof (rule chain_frame)
    show "chain h (xStart h) (free_of ?bs) (pxEnd h)" using hd by (simp add: headers_def)
    show "mem h1 q = mem h q" if "q \<in> insert (xStart h) (addrs (free_of ?bs))" for q
      by (rule same1) (use that nf(1,2) in \<open>metis insertE\<close>)
  qed
  then have ch1: "chain h1 (xStart h1) (free_of pre @ free_of post) (pxEnd h1)" by (simp add: h1_def)
  obtain m where m: "prvInsertBlockIntoFreeList ?x h1 = Some (h1\<lparr>mem := m\<rparr>)"
      "chain (h1\<lparr>mem := m\<rparr>) (xStart h1) (coalesce (free_of pre) (a, s) (free_of post)) (pxEnd h1)"
      "xBlockSize (m (xStart h1)) = 0"
      "\<forall>q. q \<noteq> xStart h1 \<longrightarrow> q \<notin> addrs (free_of pre @ [(a, s)]) \<longrightarrow> m q = mem h1 q"
    using prvInsertBlockIntoFreeList_coalesces [OF ch1 geometry_insertable [OF g1 st1] sz1] by blast
  define h2 where "h2 = h1\<lparr>mem := m, xNumberOfSuccessfulFrees := xNumberOfSuccessfulFrees h1 + 1\<rparr>"
  have run: "vPortFree (?x + 8) h = Some h2"
  proof -
    have link: "?x + 8 - xHeapStructSize = ?x"
      by (simp add: xHeapStructSize_def portBYTE_ALIGNMENT_MASK_def portBYTE_ALIGNMENT_def)
    have "?x + 8 \<noteq> 0"
    proof -
      have "a + 8 < 2 ^ 32" using b(2,3,4) unat_pxEnd(2) [of h] by (auto dest!: dvd_imp_le)
      then have "(of_nat (a + 8) :: u32) \<noteq> 0" by (subst of_nat_u32_eq_0_iff) simp_all
      then show ?thesis by simp
    qed
    moreover have "heapBLOCK_IS_ALLOCATED (mem h ?x)"
      using alloc_bit(1) [OF b(8)] hdr by (simp add: heapBLOCK_IS_ALLOCATED_def)
    moreover have "(upd_blk ?x heapFREE_BLOCK h)\<lparr>xFreeBytesRemaining := xFreeBytesRemaining h
        + bsz (upd_blk ?x heapFREE_BLOCK h) ?x\<rparr> = h1"
      using sz1 by (simp add: h1_def)
    ultimately show ?thesis
      using hdr m(1) by (simp add: vPortFree_def link Let_def h2_def)
  qed
  have t: "tiles base ?bs (unat (pxEnd h))" and c: "coalesced ?bs" using g by (auto simp: geometry_def)
  have g': "geometry base h bs'"
    using g release_tiles [OF t] release_coalesced [OF c] by (simp add: geometry_def bs'_def)
  have ch2: "chain h2 (xStart h) (free_of bs') (pxEnd h)"
  proof -
    have "free_of bs' = coalesce (free_of pre) (a, s) (free_of post)"
      unfolding bs'_def by (rule release_free_of [OF t])
    moreover have "chain h2 p fs e = chain (h1\<lparr>mem := m\<rparr>) p fs e" for p fs e
      by (rule chain_cong) (simp_all add: h2_def)
    ultimately show ?thesis using m(2) by (simp add: h1_def)
  qed
  have le: "live_of bs' \<subseteq> live_of ?bs" by (auto simp: bs'_def release_live)
  have frame: "mem h2 q = mem h q"
    if "q \<noteq> xStart h" "q \<notin> addrs (free_of pre)" "q \<noteq> ?x" for q
    using that m(4) same1 [of q] by (simp add: h2_def h1_def)
  have "headers h2 bs'"
  proof -
    have "mem h2 (pxEnd h) = mem h (pxEnd h)"
    proof (rule frame)
      show "pxEnd h \<notin> addrs (free_of pre)"
      proof
        assume "pxEnd h \<in> addrs (free_of pre)"
        then obtain x where x: "x \<in> set (free_of pre)" "pxEnd h = of_nat (fst x)" by blast
        then have "(fst x, snd x, True) \<in> set ?bs" using mem_free_of [of "fst x" "snd x" pre] by simp
        from geometry_block(10) [OF g this] x(2) show False by simp
      qed
    qed (use geometry_end(2) [OF g] b(10) in auto)
    moreover have "mem h2 (of_nat c) = mem h (of_nat c)" if l: "(c, k) \<in> live_of bs'" for c k
    proof (rule frame)
      have l': "(c, k) \<in> live_of ?bs" using l le by blast
      note n = live_not_free [OF g l']
      show "of_nat c \<noteq> xStart h" by (rule n(2))
      show "of_nat c \<notin> addrs (free_of pre)" using n(1) by auto
      have "(of_nat c :: u32) \<in> (\<lambda>b. of_nat (fst b)) ` set (pre @ post)"
        using l unfolding bs'_def release_live by (force dest: live_ofD)
      moreover have "?x \<notin> (\<lambda>b. of_nat (fst b)) ` set (pre @ post)"
        using geometry_distinct [OF g] by auto
      ultimately show "of_nat c \<noteq> ?x" by metis
    qed
    moreover have "bsz h2 (xStart h) = 0" using m(3) by (simp add: h2_def h1_def)
    moreover have "\<forall>(c, k) \<in> live_of bs'. nxt h (of_nat c) = 0
        \<and> bsz h (of_nat c) = or (of_nat k) heapBLOCK_ALLOCATED_BITMASK"
      using hd le unfolding headers_def by blast
    moreover have "xStart h2 = xStart h" "pxEnd h2 = pxEnd h" by (simp_all add: h2_def h1_def)
    ultimately show ?thesis using hd ch2 unfolding headers_def by auto
  qed
  moreover have "geometry base h2 bs'" using g' geometry_cong [of h2 h] by (simp add: h2_def h1_def)
  moreover have "xFreeBytesRemaining h2 = of_nat (free_bytes bs')"
    using fb by (simp add: h2_def h1_def bs'_def release_free_bytes add.commute add.left_commute)
  moreover have "xMinimumEverFreeBytesRemaining h2 \<le> xFreeBytesRemaining h2"
  proof -
    have "free_bytes bs' < 2 ^ 31" by (rule geometry_free_bytes [OF g'])
    then have "free_bytes pre + s + free_bytes post < 2 ^ 31" by (simp add: bs'_def release_free_bytes)
    then have "xFreeBytesRemaining h \<le> xFreeBytesRemaining h + of_nat s"
      using fb of_nat_u32_le_iff [of "free_bytes pre + free_bytes post" "free_bytes pre + free_bytes post + s"] by simp
    then show ?thesis using mn by (simp add: h2_def h1_def)
  qed
  ultimately have "heap_inv base h2 bs'" by (simp add: heap_inv_def)
  then show ?thesis using run by (intro exI [of _ h2]) (simp add: h2_def h1_def bs'_def)
qed

lemma mask3: "portBYTE_ALIGNMENT_MASK = mask 3"
  by (simp add: portBYTE_ALIGNMENT_MASK_def mask_eq_exp_minus_1)

lemma align_down: "and x (not portBYTE_ALIGNMENT_MASK) = (of_nat (unat x - unat x mod 8) :: u32)"
proof -
  have "x = or (and x (mask 3)) (and x (not (mask 3)))"
    by (rule bit_word_eqI) (auto simp: bit_simps)
  also have "\<dots> = and x (mask 3) + and x (not (mask 3))"
    by (rule disjunctive_add_eq_or [symmetric]) (rule bit_word_eqI, auto simp: bit_simps)
  finally have "and x (not (mask 3)) = x - take_bit 3 x"
    by (simp add: take_bit_eq_mask algebra_simps)
  also have "\<dots> = of_nat (unat x) - of_nat (unat (take_bit 3 x))" by simp
  also have "unat (take_bit 3 x) = unat x mod 8" by (simp only: unsigned_take_bit_eq) (simp add: take_bit_eq_mod)
  also have "(of_nat (unat x) - of_nat (unat x mod 8) :: u32) = of_nat (unat x - unat x mod 8)"
    by (simp only: of_nat_diff [OF mod_less_eq_dividend])
  finally show ?thesis by (simp only: mask3)
qed

lemma align_up:
  assumes "unat x + 7 < 2 ^ 32"
  shows "(if and x portBYTE_ALIGNMENT_MASK \<noteq> 0
          then and (x + (portBYTE_ALIGNMENT - 1)) (not portBYTE_ALIGNMENT_MASK) else x)
    = (of_nat ((unat x + 7) div 8 * 8) :: u32)"
proof -
  have "(unat x + 7) - (unat x + 7) mod 8 = (unat x + 7) div 8 * 8" by (simp add: minus_mod_eq_div_mult)
  moreover have "unat (x + 7) = unat x + 7" using assms by (subst unat_add_u32) simp_all
  ultimately have up: "and (x + 7) (not portBYTE_ALIGNMENT_MASK) = of_nat ((unat x + 7) div 8 * 8)"
    by (simp only: align_down)
  have "unat (and x portBYTE_ALIGNMENT_MASK) = unat x mod 8"
    unfolding mask3 take_bit_eq_mask [symmetric] unsigned_take_bit_eq by (simp add: take_bit_eq_mod)
  then have z: "and x portBYTE_ALIGNMENT_MASK = 0 \<longleftrightarrow> unat x mod 8 = 0" by (metis unat_0_iff)
  have "x = of_nat ((unat x + 7) div 8 * 8)" if "unat x mod 8 = 0"
  proof -
    have "(unat x + 7) div 8 * 8 = unat x" using that by presburger
    then show ?thesis by simp
  qed
  then show ?thesis using up z by (simp add: portBYTE_ALIGNMENT_def)
qed

text \<open>The first and the last address of the region that \<open>prvHeapInit\<close> carves out of \<open>ucHeap\<close>.\<close>

definition heap_base :: "u32 \<Rightarrow> nat" where "heap_base u = (unat u + 7) div 8 * 8"

definition heap_end :: "u32 \<Rightarrow> nat" where "heap_end u = (unat u + 65528) div 8 * 8"

definition heap_placed :: "heap \<Rightarrow> bool" where
  "heap_placed h \<longleftrightarrow> 0 < unat (ucHeap h) \<and> unat (ucHeap h) + 65536 < 2 ^ 32
     \<and> \<not> (unat (ucHeap h) \<le> unat (xStart h) \<and> unat (xStart h) < unat (ucHeap h) + 65536)"

lemma prvHeapInit_establishes:
  assumes "heap_placed h"
  defines "b \<equiv> heap_base (ucHeap h)" and "e \<equiv> heap_end (ucHeap h)"
  shows "heap_inv b (prvHeapInit h) [(b, e - b, True)]" and "pxEnd (prvHeapInit h) \<noteq> 0"
    and "bytes (prvHeapInit h) = bytes h" and "e - b + 16 > 65536 - 8"
proof -
  define u where "u = unat (ucHeap h)"
  have u: "0 < u" "u + 65536 < 2 ^ 32" using assms(1) by (auto simp: heap_placed_def u_def)
  have be: "u \<le> b" "b < u + 8" "u + 65528 < e + 8" "e \<le> u + 65528" "8 dvd b" "8 dvd e"
    unfolding b_def e_def heap_base_def heap_end_def u_def [symmetric] by presburger+
  have ba: "(if and (ucHeap h) portBYTE_ALIGNMENT_MASK \<noteq> 0
          then and (ucHeap h + (portBYTE_ALIGNMENT - 1)) (not portBYTE_ALIGNMENT_MASK) else ucHeap h) = of_nat b"
    unfolding b_def heap_base_def by (rule align_up) (use u in \<open>simp add: u_def\<close>)
  have uh: "ucHeap h = of_nat u" by (simp add: u_def)
  have ea: "and (ucHeap h + configTOTAL_HEAP_SIZE - xHeapStructSize) (not portBYTE_ALIGNMENT_MASK) = of_nat e"
  proof -
    have "ucHeap h + configTOTAL_HEAP_SIZE - xHeapStructSize = of_nat (u + 65528)"
      by (simp add: uh configTOTAL_HEAP_SIZE_def xHeapStructSize_def portBYTE_ALIGNMENT_MASK_def portBYTE_ALIGNMENT_def)
    moreover have "unat (of_nat (u + 65528) :: u32) = u + 65528" using u by (intro unat_of_nat_u32) simp
    moreover have "(u + 65528) - (u + 65528) mod 8 = e"
      by (simp add: e_def heap_end_def u_def minus_mod_eq_div_mult)
    ultimately show ?thesis by (simp only: align_down)
  qed
  define h' where "h' = prvHeapInit h"
  have h': "h' = (let h = set_nxt (xStart h) (of_nat b) h;
          h = set_bsz (xStart h) 0 h;
          h = h\<lparr>pxEnd := of_nat e\<rparr>;
          h = set_bsz (of_nat e) 0 h;
          h = set_nxt (of_nat e) 0 h;
          h = set_bsz (of_nat b) (of_nat e - of_nat b) h;
          h = set_nxt (of_nat b) (of_nat e) h
      in h\<lparr>xMinimumEverFreeBytesRemaining := bsz h (of_nat b), xFreeBytesRemaining := bsz h (of_nat b)\<rparr>)"
  proof (cases "and (ucHeap h) portBYTE_ALIGNMENT_MASK \<noteq> 0")
    case True
    then show ?thesis using ba ea ea [unfolded add.commute [of "ucHeap h" configTOTAL_HEAP_SIZE]]
      by (simp add: h'_def prvHeapInit_def Let_def)
  next
    case False
    then show ?thesis using ba ea by (simp add: h'_def prvHeapInit_def Let_def)
  qed
  have bnd: "b < e" "e < 2 ^ 32" using be u by simp_all
  have xs: "xStart h \<noteq> of_nat k" if "k \<in> {b..e}" for k
  proof -
    have "k < 2 ^ 32" "u \<le> k" "k < u + 65536" using that be u by simp_all
    then show ?thesis using assms(1) by (auto simp: heap_placed_def u_def unat_of_nat_u32)
  qed
  have ne: "xStart h \<noteq> of_nat b" "xStart h \<noteq> of_nat e" "(of_nat b :: u32) \<noteq> of_nat e"
    using xs bnd by (simp_all add: of_nat_u32_eq_iff)
  have diff: "(of_nat e - of_nat b :: u32) = of_nat (e - b)" using bnd by simp
  have f: "nxt h' (xStart h) = of_nat b" "bsz h' (xStart h) = 0" "bsz h' (of_nat e) = 0" "nxt h' (of_nat e) = 0"
    "bsz h' (of_nat b) = of_nat (e - b)" "nxt h' (of_nat b) = of_nat e"
    "pxEnd h' = of_nat e" "xStart h' = xStart h" "bytes h' = bytes h"
    "xFreeBytesRemaining h' = of_nat (e - b)" "xMinimumEverFreeBytesRemaining h' = of_nat (e - b)"
    using ne by (simp_all add: h' Let_def diff)
  have "geometry b h' [(b, e - b, True)]"
  proof -
    have "xStart h \<notin> of_nat ` {b..e}" using xs by blast
    moreover have "unat (pxEnd h') = e" using bnd by (simp only: f unat_of_nat_u32)
    ultimately show ?thesis using be bnd u by (simp add: geometry_def f)
  qed
  then show "heap_inv b (prvHeapInit h) [(b, e - b, True)]"
    unfolding h'_def [symmetric] heap_inv_def using f by (simp add: headers_def)
  show "pxEnd (prvHeapInit h) \<noteq> 0"
    unfolding h'_def [symmetric] f using bnd by (simp add: of_nat_u32_eq_0_iff)
  show "bytes (prvHeapInit h) = bytes h" unfolding h'_def [symmetric] by (rule f)
  show "e - b + 16 > 65536 - 8" using be by simp
qed

lemma pvPortMalloc_first_call:
  assumes "pxEnd h = 0" and "pxEnd (prvHeapInit h) \<noteq> 0"
  shows "pvPortMalloc w h = pvPortMalloc w (prvHeapInit h)"
  using assms by (simp add: pvPortMalloc_def)

lemma if_max: "(if (y :: 'a :: linorder) < x then x else y) = max x y"
  by (auto simp: max_def)

lemma if_min: "(if (x :: 'a :: linorder) < y then x else y) = min x y"
  by (auto simp: min_def)

text \<open>The statistics walk visits exactly the free blocks.\<close>

lemma stats_loop_walks:
  assumes "chain h p fs (pxEnd h)" and "\<And>x. x \<in> set fs \<Longrightarrow> of_nat (fst x) \<noteq> pxEnd h"
  shows "stats_loop h (first_addr fs (pxEnd h)) n mx mn =
    Some (n + of_nat (length fs), fold max (map (\<lambda>x. of_nat (snd x)) fs) mx,
          fold min (map (\<lambda>x. of_nat (snd x)) fs) mn)"
  using assms
proof (induction fs arbitrary: p n mx mn)
  case Nil
  then show ?case by (subst stats_loop.simps) simp
next
  case (Cons x fs)
  obtain a s where x: "x = (a, s)" by (cases x)
  have c: "chain h (of_nat a) fs (pxEnd h)" "bsz h (of_nat a) = of_nat s" "of_nat a \<noteq> pxEnd h"
    using Cons.prems(1) Cons.prems(2) [of x] x by simp_all
  have "nxt h (of_nat a) = first_addr fs (pxEnd h)"
    using chain_append_first [of h "of_nat a" "[]" fs "pxEnd h"] c(1) by simp
  then show ?case using Cons.IH [OF c(1)] Cons.prems(2) c x
    by (subst stats_loop.simps) (simp add: if_max if_min add.commute)
qed

lemma vPortGetHeapStats_counts:
  assumes "heap_inv base h bs"
  shows "\<exists>st. vPortGetHeapStats h = Some st \<and> xNumberOfFreeBlocks st = of_nat (length (free_of bs))
    \<and> xAvailableHeapSpaceInBytes st = of_nat (free_bytes bs)
    \<and> xSizeOfLargestFreeBlockInBytes st = fold max (map (\<lambda>x. of_nat (snd x)) (free_of bs)) 0
    \<and> xSizeOfSmallestFreeBlockInBytes st = fold min (map (\<lambda>x. of_nat (snd x)) (free_of bs)) 0xffffffff"
proof -
  have g: "geometry base h bs" and c: "chain h (xStart h) (free_of bs) (pxEnd h)"
    and fb: "xFreeBytesRemaining h = of_nat (free_bytes bs)"
    using assms by (auto simp: heap_inv_def headers_def)
  have f: "nxt h (xStart h) = first_addr (free_of bs) (pxEnd h)"
    using chain_append_first [of h "xStart h" "[]" "free_of bs" "pxEnd h"] c by simp
  have blk: "of_nat (fst x) \<noteq> pxEnd h \<and> of_nat (fst x) \<noteq> (0 :: u32)" if "x \<in> set (free_of bs)" for x
  proof -
    have "(fst x, snd x, True) \<in> set bs" using that mem_free_of [of "fst x" "snd x" bs] by simp
    from geometry_block(6,7,10) [OF g this] show ?thesis by (simp add: of_nat_u32_eq_0_iff)
  qed
  have "first_addr (free_of bs) (pxEnd h) \<noteq> 0"
    using geometry_end(1) [OF g] blk [of "hd (free_of bs)"] by (cases "free_of bs") auto
  then show ?thesis
    using stats_loop_walks [OF c, of 0 0 "0xffffffff"] blk fb f by (simp add: vPortGetHeapStats_def)
qed

text \<open>\<open>pvPortCalloc\<close> clears exactly the bytes it hands out.\<close>

lemma memset_bytes:
  "bytes (memset p c n h) a = (if a - p < n then c else bytes h a)"
  by (simp add: memset_def)

lemma heap_inv_memset [simp]: "heap_inv base (memset p c n h) bs = heap_inv base h bs"
proof -
  have "chain (memset p c n h) q fs e = chain h q fs e" for q fs e
    by (rule chain_cong) (simp_all add: memset_def)
  then show ?thesis by (simp add: heap_inv_def geometry_def headers_def memset_def)
qed

end
