(* ===== verification/Heap4Clients.thy ===== *)
theory Heap4Clients
  imports Heap4Blocks
begin

text \<open>
  What a client of \<open>heap_4.c\<close> relies on: the interface \<open>allocator\<close> with its laws, the states a client
  reaches, the interpretation of the interface on the code, and the properties of the allocator.
\<close>

section \<open>The interface of an allocator, and its clients\<close>

text \<open>
  What the rest of the kernel relies on: a request either fails and leaves the live regions alone or
  adds a region of the requested size; a release of a live region removes it; live regions never
  overlap. \<open>live\<close> gives the regions as payload address and usable size.
\<close>

locale allocator =
  fixes inv :: "'h \<Rightarrow> 'b \<Rightarrow> bool" and live :: "'b \<Rightarrow> (nat \<times> nat) set"
    and alloc :: "u32 \<Rightarrow> 'h \<Rightarrow> (u32 \<times> 'h) option" and release :: "u32 \<Rightarrow> 'h \<Rightarrow> 'h option"
  assumes alloc_law: "inv h b \<Longrightarrow> \<exists>p h' b'. alloc w h = Some (p, h') \<and> inv h' b'
      \<and> (if p = 0 then live b' = live b
         else \<exists>s \<ge> unat w. (\<forall>t. (unat p, t) \<notin> live b) \<and> live b' = insert (unat p, s) (live b))"
    and release_law: "inv h b \<Longrightarrow> (unat p, s) \<in> live b \<Longrightarrow>
      \<exists>h' b'. release p h = Some h' \<and> inv h' b' \<and> live b' = live b - {(unat p, s)}"
    and apart_law: "inv h b \<Longrightarrow> (a, s) \<in> live b \<Longrightarrow> (c, t) \<in> live b \<Longrightarrow> a \<noteq> c \<Longrightarrow>
      a + s \<le> c \<or> c + t \<le> a"

text \<open>
  The states a client reaches with the pointers it owns: it calls the allocator with any size, and
  releases only pointers it owns.
\<close>

inductive client :: "(u32 \<Rightarrow> 'h \<Rightarrow> (u32 \<times> 'h) option) \<Rightarrow> (u32 \<Rightarrow> 'h \<Rightarrow> 'h option) \<Rightarrow> 'h \<Rightarrow> 'h
    \<Rightarrow> (u32 \<times> u32) list \<Rightarrow> bool" for alloc release h0 where
  client_start: "client alloc release h0 h0 []"
| client_alloc: "client alloc release h0 h own \<Longrightarrow> alloc w h = Some (p, h') \<Longrightarrow>
    client alloc release h0 h' (if p = 0 then own else (p, w) # own)"
| client_release: "client alloc release h0 h (xs @ (p, w) # ys) \<Longrightarrow> release p h = Some h' \<Longrightarrow>
    client alloc release h0 h' (xs @ ys)"

definition regions_apart :: "(u32 \<times> u32) \<Rightarrow> (u32 \<times> u32) \<Rightarrow> bool" where
  "regions_apart x y \<longleftrightarrow>
     unat (fst x) + unat (snd x) \<le> unat (fst y) \<or> unat (fst y) + unat (snd y) \<le> unat (fst x)"

context allocator
begin

text \<open>The regions a client owns, each with its usable size, are exactly the live ones.\<close>

definition owns :: "(u32 \<times> u32) list \<Rightarrow> 'b \<Rightarrow> (u32 \<Rightarrow> nat) \<Rightarrow> bool" where
  "owns own b f \<longleftrightarrow> distinct (map fst own) \<and> live b = (\<lambda>(p, w). (unat p, f p)) ` set own
     \<and> (\<forall>(p, w) \<in> set own. unat w \<le> f p)"

lemma owns_alloc:
  assumes "owns own b f" and "\<forall>t. (unat p, t) \<notin> live b" and "unat w \<le> s"
    and "live b' = insert (unat p, s) (live b)"
  shows "owns ((p, w) # own) b' (f(p := s))"
proof -
  have p: "p \<notin> fst ` set own"
  proof
    assume "p \<in> fst ` set own"
    then obtain w where "(p, w) \<in> set own" by auto
    then have "(unat p, f p) \<in> live b" using assms(1) by (force simp: owns_def)
    then show False using assms(2) by blast
  qed
  then have "(\<lambda>(q, w). (unat q, (f(p := s)) q)) ` set own = (\<lambda>(q, w). (unat q, f q)) ` set own"
    using p by (intro image_cong) (auto simp: rev_image_eqI)
  moreover have "\<forall>(q, w) \<in> set own. unat w \<le> (f(p := s)) q"
    using assms(1) p by (force simp: owns_def)
  ultimately show ?thesis using assms p by (simp add: owns_def)
qed

lemma owns_release:
  assumes "owns (xs @ (p, w) # ys) b f" and "live b' = live b - {(unat p, f p)}"
  shows "owns (xs @ ys) b' f"
proof -
  have d: "p \<notin> fst ` set (xs @ ys)" "distinct (map fst (xs @ ys))" using assms(1) by (auto simp: owns_def)
  have "(unat p, f p) \<notin> (\<lambda>(q, w). (unat q, f q)) ` set (xs @ ys)"
    using d(1) by (force simp: word_unat_eq_iff)
  then have "live b' = (\<lambda>(q, w). (unat q, f q)) ` set (xs @ ys)"
    using assms by (auto simp: owns_def)
  then show ?thesis using assms(1) d(2) by (auto simp: owns_def)
qed

lemma client_owns:
  assumes "client alloc release h0 h own" and "inv h0 b0" and "live b0 = {}"
  shows "\<exists>b f. inv h b \<and> owns own b f"
  using assms
proof (induction rule: client.induct)
  case client_start
  then show ?case by (auto simp: owns_def)
next
  case (client_alloc h own w p h')
  then obtain b f where b: "inv h b" "owns own b f" by blast
  obtain b' where b': "inv h' b'"
      "if p = 0 then live b' = live b
       else \<exists>s \<ge> unat w. (\<forall>t. (unat p, t) \<notin> live b) \<and> live b' = insert (unat p, s) (live b)"
    using alloc_law [OF b(1), of w] client_alloc.hyps(2) by auto
  show ?case
  proof (cases "p = 0")
    case True
    then show ?thesis using b(2) b' by (auto simp: owns_def)
  next
    case False
    then obtain s where s: "unat w \<le> s" "\<forall>t. (unat p, t) \<notin> live b"
        "live b' = insert (unat p, s) (live b)" using b'(2) by auto
    from owns_alloc [OF b(2) s(2,1,3)] b'(1) False show ?thesis by auto
  qed
next
  case (client_release h xs p w ys h')
  then obtain b f where b: "inv h b" "owns (xs @ (p, w) # ys) b f" by blast
  then have "(unat p, f p) \<in> live b" by (auto simp: owns_def)
  from release_law [OF b(1) this] client_release.hyps(2) obtain b' where
    "inv h' b'" "live b' = live b - {(unat p, f p)}" by auto
  with owns_release [OF b(2)] show ?case by blast
qed

lemma client_regions_apart:
  assumes "client alloc release h0 h own" and "inv h0 b0" and "live b0 = {}"
    and "x \<in> set own" and "y \<in> set own" and "x \<noteq> y"
  shows "regions_apart x y"
proof -
  obtain b f where b: "inv h b" "owns own b f" using client_owns [OF assms(1-3)] by blast
  obtain p w q v where xy: "x = (p, w)" "y = (q, v)" by (cases x, cases y)
  have l: "(unat p, f p) \<in> live b" "(unat q, f q) \<in> live b" "unat w \<le> f p" "unat v \<le> f q"
    using b(2) assms(4,5) xy by (force simp: owns_def)+
  have "p \<noteq> q"
    using b(2) assms(4-6) xy by (auto simp: owns_def dest: eq_key_imp_eq_value)
  then have "unat p \<noteq> unat q" by (simp add: word_unat_eq_iff)
  from apart_law [OF b(1) l(1,2) this] l(3,4) show ?thesis by (auto simp: regions_apart_def xy)
qed

lemma client_release_returns:
  assumes "client alloc release h0 h own" and "inv h0 b0" and "live b0 = {}" and "(p, w) \<in> set own"
  shows "\<exists>h'. release p h = Some h'"
proof -
  obtain b f where b: "inv h b" "owns own b f" using client_owns [OF assms(1-3)] by blast
  then have "(unat p, f p) \<in> live b" using assms(4) by (force simp: owns_def)
  from release_law [OF b(1) this] show ?thesis by blast
qed

lemma client_alloc_returns:
  assumes "client alloc release h0 h own" and "inv h0 b0" and "live b0 = {}"
  shows "\<exists>p h'. alloc w h = Some (p, h')"
  using client_owns [OF assms] alloc_law by blast

end

text \<open>
  heap_4 provides the interface. Before the first call \<open>pxEnd\<close> is null and no block exists.
\<close>

definition heap_ok :: "heap \<Rightarrow> block list \<Rightarrow> bool" where
  "heap_ok h bs \<longleftrightarrow> (if pxEnd h = 0 then heap_placed h \<and> bs = [] else \<exists>base. heap_inv base h bs)"

definition payloads :: "block list \<Rightarrow> (nat \<times> nat) set" where
  "payloads bs = (\<lambda>(a, s). (a + 8, s - 8)) ` live_of bs"

lemma heap_inv_ok: "heap_inv base h bs \<Longrightarrow> heap_ok h bs"
  using geometry_end(1) [of base h bs] by (auto simp: heap_ok_def heap_inv_def)

lemma block_payload:
  assumes "geometry base h bs" and "(a, s, f) \<in> set bs"
  shows "8 \<le> s" "unat (of_nat a + 8 :: u32) = a + 8" "(of_nat a + 8 :: u32) \<noteq> 0"
proof -
  note b = geometry_block [OF assms]
  show "8 \<le> s" using b(3,4) by (auto dest: dvd_imp_le)
  then have "a + 8 < 2 ^ 32" using b(2) unat_pxEnd(2) [of h] by linarith
  then have "unat (of_nat (a + 8) :: u32) = a + 8" by (rule unat_of_nat_u32)
  then show "unat (of_nat a + 8 :: u32) = a + 8" by simp
  then show "(of_nat a + 8 :: u32) \<noteq> 0" by (metis add_is_0 unat_0 zero_neq_numeral)
qed

lemma live_apart:
  assumes "geometry base h bs" and "(a, s, f) \<in> set bs" and "(c, n, g) \<in> set bs" and "a \<noteq> c"
  shows "a + s \<le> c \<or> c + n \<le> a"
proof -
  have "sorted_wrt (\<lambda>x y. fst x + fst (snd x) \<le> fst y) bs"
    using assms(1) by (intro tiles_sorted) (auto simp: geometry_def)
  then show ?thesis using assms(2-4)
    by (induction bs) (auto)
qed

lemma heap_inv_alloc:
  assumes "heap_inv base h bs"
  shows "\<exists>p h' bs'. pvPortMalloc w h = Some (p, h') \<and> heap_inv base h' bs' \<and> bytes h' = bytes h
      \<and> (if p = 0 then payloads bs' = payloads bs
         else \<exists>s \<ge> unat w. (\<forall>t. (unat p, t) \<notin> payloads bs) \<and> payloads bs' = insert (unat p, s) (payloads bs))"
proof (cases "w = 0 \<or> first_fit (request (unat w)) bs = None")
  case True
  then show ?thesis using pvPortMalloc_fails [OF assms] assms by auto
next
  case False
  then obtain a bs' where ff: "w \<noteq> 0" "first_fit (request (unat w)) bs = Some (a, bs')" by auto
  obtain h' where h': "pvPortMalloc w h = Some (of_nat a + 8, h')" "heap_inv base h' bs'" "bytes h' = bytes h"
    using pvPortMalloc_succeeds [OF assms ff] by blast
  obtain s where s: "request (unat w) \<le> s" "live_of bs' = insert (a, s) (live_of bs)"
    using first_fit_live [OF ff(2)] by blast
  obtain pre s0 post where "bs = pre @ (a, s0, True) # post" using first_fit_Some [OF ff(2)] by blast
  then have blk: "(a, s0, True) \<in> set bs" by simp
  have g: "geometry base h bs" using assms by (simp add: heap_inv_def)
  note b = block_payload [OF g blk]
  have "(a, t) \<notin> live_of bs" for t
  proof
    assume l: "(a, t) \<in> live_of bs"
    have "(a, s0) \<in> set (free_of bs)" using blk by (simp add: mem_free_of)
    from live_not_free(1) [OF g l] imageI [OF this, of "\<lambda>x. of_nat (fst x) :: u32"] show False by simp
  qed
  then have "\<forall>t. (unat (of_nat a + 8 :: u32), t) \<notin> payloads bs" using b(2) by (auto simp: payloads_def)
  moreover have "payloads bs' = insert (unat (of_nat a + 8 :: u32), s - 8) (payloads bs)"
    unfolding payloads_def s(2) b(2) by simp
  moreover have "unat w \<le> s - 8" using s(1) request_ge(1) [of "unat w"] by linarith
  ultimately show ?thesis using h' b(3)
    by (intro exI [of _ "of_nat a + 8"] exI [of _ h'] exI [of _ bs']) auto
qed

interpretation heap4: allocator heap_ok payloads pvPortMalloc vPortFree
proof (unfold_locales)
  fix h :: heap and b :: "block list" and w p :: u32 and s :: nat
  assume ok: "heap_ok h b"
  show "\<exists>p h' b'. pvPortMalloc w h = Some (p, h') \<and> heap_ok h' b'
      \<and> (if p = 0 then payloads b' = payloads b
         else \<exists>s \<ge> unat w. (\<forall>t. (unat p, t) \<notin> payloads b) \<and> payloads b' = insert (unat p, s) (payloads b))"
  proof (cases "pxEnd h = 0")
    case True
    then have pl: "heap_placed h" "b = []" using ok by (auto simp: heap_ok_def)
    note i = prvHeapInit_establishes [OF pl(1)]
    have none: "payloads [(heap_base (ucHeap h), heap_end (ucHeap h) - heap_base (ucHeap h), True)] = payloads b"
      by (simp add: payloads_def pl(2))
    show ?thesis
      unfolding pvPortMalloc_first_call [OF True i(2)] using heap_inv_alloc [OF i(1), unfolded none, of w] heap_inv_ok by blast
  next
    case False
    then obtain base where "heap_inv base h b" using ok by (auto simp: heap_ok_def)
    then show ?thesis using heap_inv_alloc [of base h b w] heap_inv_ok by blast
  qed
  show "\<exists>h' b'. vPortFree p h = Some h' \<and> heap_ok h' b' \<and> payloads b' = payloads b - {(unat p, s)}"
    if l: "(unat p, s) \<in> payloads b"
  proof -
    have "pxEnd h \<noteq> 0" using ok l by (auto simp: heap_ok_def payloads_def)
    then obtain base where inv: "heap_inv base h b" using ok by (auto simp: heap_ok_def)
    then have g: "geometry base h b" by (simp add: heap_inv_def)
    obtain a n where an: "(a, n) \<in> live_of b" "unat p = a + 8" "s = n - 8" using l by (auto simp: payloads_def)
    obtain pre post where b: "b = pre @ (a, n, False) # post"
      using live_ofD [OF an(1)] by (metis split_list)
    have p: "p = of_nat a + 8" using an(2) by (metis of_nat_add of_nat_numeral unat_pxEnd(1) word_unat_eq_iff block_payload(2) [OF g live_ofD [OF an(1)]])
    obtain h' where h': "vPortFree p h = Some h'" "heap_inv base h' (Heap4Blocks.release pre (a, n) post)"
      using vPortFree_releases [OF inv [unfolded b]] p by blast
    have "(a, k) \<notin> live_of pre \<union> live_of post" for k
    proof
      assume "(a, k) \<in> live_of pre \<union> live_of post"
      then have "(a, k, False) \<in> set (pre @ post)" by (auto dest: live_ofD)
      from imageI [OF this, of "\<lambda>b. of_nat (fst b) :: u32"] geometry_distinct [OF g] b show False by auto
    qed
    then have "payloads (Heap4Blocks.release pre (a, n) post) = payloads b - {(unat p, s)}"
      unfolding payloads_def b release_live an(2,3) by auto
    then show ?thesis using h' heap_inv_ok by blast
  qed
next
  fix h :: heap and b :: "block list" and p s q t :: nat
  assume ok: "heap_ok h b" and l: "(p, s) \<in> payloads b" "(q, t) \<in> payloads b" and ne: "p \<noteq> q"
  have "pxEnd h \<noteq> 0" using ok l by (auto simp: heap_ok_def payloads_def)
  then obtain base where "heap_inv base h b" using ok by (auto simp: heap_ok_def)
  then have g: "geometry base h b" by (simp add: heap_inv_def)
  obtain a n c k where an: "(a, n) \<in> live_of b" "p = a + 8" "s = n - 8"
      "(c, k) \<in> live_of b" "q = c + 8" "t = k - 8"
    using l by (auto simp: payloads_def)
  note d = live_ofD [OF an(1)] live_ofD [OF an(4)]
  have "a + n \<le> c \<or> c + k \<le> a" by (rule live_apart [OF g d]) (use ne an in simp)
  moreover have "8 \<le> n" "8 \<le> k" using block_payload(1) [OF g] d by blast+
  ultimately show "p + s \<le> q \<or> q + t \<le> p" using an by linarith
qed

section \<open>Properties of the allocator\<close>

text \<open>A concrete heap for the witnesses: an unaligned \<open>ucHeap\<close>, and the heap after the first call.\<close>

definition heap0 :: heap where
  "heap0 = \<lparr>mem = (\<lambda>_. \<lparr>pxNextFreeBlock = 0, xBlockSize = 0\<rparr>), bytes = (\<lambda>_. 0), ucHeap = 0x1004, xStart = 0x100,
     pxEnd = 0, xFreeBytesRemaining = 0, xMinimumEverFreeBytesRemaining = 0,
     xNumberOfSuccessfulAllocations = 0, xNumberOfSuccessfulFrees = 0\<rparr>"

lemma heap0_placed: "heap_placed heap0"
  by (simp add: heap_placed_def heap0_def)

lemma heap0_inv: "heap_inv 4104 (prvHeapInit heap0) [(4104, 65520, True)]"
  using prvHeapInit_establishes(1) [OF heap0_placed] by (simp add: heap0_def heap_base_def heap_end_def)

text \<open>
  The first call lays out the heap: for any placement of \<open>ucHeap\<close> in the address space, aligned or
  not, \<open>prvHeapInit\<close> establishes the heap invariant with one free block that starts within 8 bytes of
  \<open>ucHeap\<close> and ends within 8 bytes of the room left for the end marker, and the free size reported is
  the size of that block.
\<close>

theorem prvHeapInit_one_block:
  assumes "0 < unat (ucHeap h)" and "unat (ucHeap h) + 65536 < 2 ^ 32"
    and "unat (xStart h) < unat (ucHeap h) \<or> unat (ucHeap h) + 65536 \<le> unat (xStart h)"
  shows "\<exists>b s. heap_inv b (prvHeapInit h) [(b, s, True)] \<and> unat (ucHeap h) \<le> b \<and> b < unat (ucHeap h) + 8
    \<and> b + s \<le> unat (ucHeap h) + (65536 - 8) \<and> unat (ucHeap h) + (65536 - 8) < b + s + 8
    \<and> xPortGetFreeHeapSize (prvHeapInit h) = of_nat s"
proof -
  have pl: "heap_placed h" using assms by (auto simp: heap_placed_def)
  note i = prvHeapInit_establishes(1) [OF pl]
  have b: "unat (ucHeap h) \<le> heap_base (ucHeap h)" "heap_base (ucHeap h) < unat (ucHeap h) + 8"
    "heap_end (ucHeap h) \<le> unat (ucHeap h) + 65528" "unat (ucHeap h) + 65528 < heap_end (ucHeap h) + 8"
    unfolding heap_base_def heap_end_def by presburger+
  then have "heap_base (ucHeap h) + (heap_end (ucHeap h) - heap_base (ucHeap h)) = heap_end (ucHeap h)" by simp
  moreover have "xPortGetFreeHeapSize (prvHeapInit h) = of_nat (heap_end (ucHeap h) - heap_base (ucHeap h))"
    using i by (simp add: heap_inv_def xPortGetFreeHeapSize_def)
  ultimately show ?thesis using i b
    by (intro exI [of _ "heap_base (ucHeap h)"] exI [of _ "heap_end (ucHeap h) - heap_base (ucHeap h)"]) simp
qed

lemma prvHeapInit_one_block_witness:
  "\<exists>b s. heap_inv b (prvHeapInit heap0) [(b, s, True)] \<and> 4100 \<le> b \<and> b < 4108 \<and> b + s \<le> 69628 \<and> 69628 < b + s + 8
    \<and> xPortGetFreeHeapSize (prvHeapInit heap0) = of_nat s"
  using prvHeapInit_one_block [of heap0] by (simp add: heap0_def)

text \<open>
  C24: \<open>pvPortMalloc\<close> implements first fit on the blocks: it returns \<open>NULL\<close> and changes nothing exactly
  when the request is 0 or no free block holds it with its header; otherwise it hands out the lowest
  free block that does, split when more than the minimum remains, keeps the heap invariant, leaves
  all payload bytes alone and updates the low-water mark and the count.
\<close>

theorem pvPortMalloc_first_fit:
  assumes "heap_inv base h bs"
  shows "case (if w = 0 then None else first_fit (request (unat w)) bs) of
      None \<Rightarrow> pvPortMalloc w h = Some (0, h)
    | Some (a, bs') \<Rightarrow> \<exists>h'. pvPortMalloc w h = Some (of_nat a + 8, h') \<and> heap_inv base h' bs'
        \<and> bytes h' = bytes h
        \<and> xMinimumEverFreeBytesRemaining h' = min (xMinimumEverFreeBytesRemaining h) (xFreeBytesRemaining h')
        \<and> xNumberOfSuccessfulAllocations h' = xNumberOfSuccessfulAllocations h + 1"
proof (cases "if w = 0 then None else first_fit (request (unat w)) bs")
  case None
  then show ?thesis using pvPortMalloc_fails [OF assms, of w] by (auto split: if_splits)
next
  case (Some x)
  then obtain a bs' where x: "x = (a, bs')" "w \<noteq> 0" "first_fit (request (unat w)) bs = Some (a, bs')"
    by (cases x) (auto split: if_splits)
  show ?thesis using pvPortMalloc_succeeds [OF assms x(2,3)] Some x(1) by auto
qed

lemma pvPortMalloc_first_fit_witness:
  "\<exists>h'. pvPortMalloc 100 (prvHeapInit heap0) = Some (4112, h')
    \<and> heap_inv 4104 h' [(4104, 112, False), (4216, 65408, True)]"
  using pvPortMalloc_first_fit [OF heap0_inv, of 100]
  by (auto simp: first_fit_def fits_def request_def carve_def)

text \<open>
  C26: \<open>vPortFree\<close> of a live block never fails an assertion: it turns the block into a free one merged
  with the free neighbours on both sides, keeps the heap invariant (no two adjacent free blocks), and
  gives the block size back to the free count.
\<close>

theorem vPortFree_coalesces:
  assumes "heap_inv base h (pre @ (a, s, False) # post)"
  shows "\<exists>h'. vPortFree (of_nat a + 8) h = Some h' \<and> heap_inv base h' (release pre (a, s) post)
    \<and> bytes h' = bytes h \<and> xFreeBytesRemaining h' = xFreeBytesRemaining h + of_nat s
    \<and> xMinimumEverFreeBytesRemaining h' = xMinimumEverFreeBytesRemaining h
    \<and> xNumberOfSuccessfulFrees h' = xNumberOfSuccessfulFrees h + 1"
  using vPortFree_releases [OF assms] by blast

lemma vPortFree_coalesces_witness:
  "\<exists>h1 h2. pvPortMalloc 100 (prvHeapInit heap0) = Some (4112, h1) \<and> vPortFree 4112 h1 = Some h2
    \<and> heap_inv 4104 h2 [(4104, 65520, True)]"
proof -
  have ff: "first_fit (request (unat (100 :: u32))) [(4104, 65520, True)]
      = Some (4104, [] @ (4104, 112, False) # [(4216, 65408, True)])"
    by (simp add: first_fit_def fits_def request_def carve_def)
  obtain h1 where h1: "pvPortMalloc 100 (prvHeapInit heap0) = Some (of_nat 4104 + 8, h1)"
      "heap_inv 4104 h1 ([] @ (4104, 112, False) # [(4216, 65408, True)])"
    using pvPortMalloc_succeeds [OF heap0_inv _ ff] by auto
  from vPortFree_coalesces [OF h1(2)] h1(1) show ?thesis
    by (auto simp: release_def absorb_left_def absorb_right_def)
qed

text \<open>Releasing what an allocation carved out merges the rest back into one block.\<close>

lemma release_carve:
  assumes "coalesced (pre @ (a, s, True) # post)" and "n \<le> s"
  shows "\<exists>rest n'. carve n a s @ post = (a, n', False) # rest \<and> release pre (a, n') rest = pre @ (a, s, True) # post"
proof -
  have l: "absorb_left pre x = (pre, x)" for x
    using assms(1) by (auto simp: absorb_left_def coalesced_append)
  have r: "absorb_right x post = (x, post)" for x
    using assms(1) by (cases post) (auto simp: absorb_right_def coalesced_append [of pre])
  show ?thesis
  proof (cases "s - n > 16")
    case True
    then show ?thesis using assms(2) by (simp add: carve_def release_def l absorb_right_def)
  next
    case False
    then show ?thesis by (simp add: carve_def release_def l r)
  qed
qed

text \<open>
  Releasing what \<open>pvPortMalloc\<close> just returned restores the block structure of the heap exactly, with
  the same payload bytes and the same free size: allocation and release do not fragment the heap.
\<close>

theorem malloc_free_roundtrip:
  assumes "heap_inv base h bs" and "pvPortMalloc w h = Some (p, h1)" and "p \<noteq> 0"
  shows "\<exists>h2. vPortFree p h1 = Some h2 \<and> heap_inv base h2 bs \<and> bytes h2 = bytes h
    \<and> xPortGetFreeHeapSize h2 = xPortGetFreeHeapSize h"
proof (cases "w = 0 \<or> first_fit (request (unat w)) bs = None")
  case True
  then show ?thesis using pvPortMalloc_fails [OF assms(1)] assms(2,3) by auto
next
  case False
  then obtain a bs' where ff: "w \<noteq> 0" "first_fit (request (unat w)) bs = Some (a, bs')" by auto
  obtain pre s post where bs: "bs = pre @ (a, s, True) # post" "request (unat w) \<le> s"
      "bs' = pre @ carve (request (unat w)) a s @ post"
    using first_fit_Some [OF ff(2)] by blast
  have h1: "p = of_nat a + 8" "heap_inv base h1 bs'" "bytes h1 = bytes h"
    using pvPortMalloc_succeeds [OF assms(1) ff] assms(2) by auto
  have "coalesced bs" using assms(1) by (simp add: heap_inv_def geometry_def)
  then obtain rest n where r: "carve (request (unat w)) a s @ post = (a, n, False) # rest"
      "release pre (a, n) rest = bs"
    using release_carve [of pre a s post, OF _ bs(2)] bs(1) by blast
  obtain h2 where h2: "vPortFree p h1 = Some h2" "heap_inv base h2 bs" "bytes h2 = bytes h1"
    using vPortFree_releases [OF h1(2) [unfolded bs(3) r(1)]] h1(1) r(2) by blast
  have "xFreeBytesRemaining h2 = xFreeBytesRemaining h" using h2(2) assms(1) by (simp add: heap_inv_def)
  then show ?thesis using h2 h1(3) by (simp add: xPortGetFreeHeapSize_def)
qed

lemma malloc_free_roundtrip_witness:
  "\<exists>p h1 h2. pvPortMalloc 1000 (prvHeapInit heap0) = Some (p, h1) \<and> vPortFree p h1 = Some h2
    \<and> heap_inv 4104 h2 [(4104, 65520, True)] \<and> xPortGetFreeHeapSize h2 = 65520"
proof -
  have ff: "first_fit (request (unat (1000 :: u32))) [(4104, 65520, True)]
      = Some (4104, [(4104, 1016, False), (5120, 64504, True)])"
    by (simp add: first_fit_def fits_def request_def carve_def)
  obtain h1 where h1: "pvPortMalloc 1000 (prvHeapInit heap0) = Some (4112, h1)"
    using pvPortMalloc_succeeds [OF heap0_inv _ ff] by auto
  have "xPortGetFreeHeapSize (prvHeapInit heap0) = 65520"
    using heap0_inv by (simp add: heap_inv_def xPortGetFreeHeapSize_def)
  with malloc_free_roundtrip [OF heap0_inv h1] h1 show ?thesis by auto
qed

text \<open>What a call of \<open>pvPortMalloc\<close> can do, fitting block or not.\<close>

lemma pvPortMalloc_result:
  assumes "heap_inv base h bs"
  shows "\<exists>p h' bs'. pvPortMalloc w h = Some (p, h') \<and> heap_inv base h' bs' \<and> bytes h' = bytes h \<and> (p = 0 \<longrightarrow> h' = h)"
proof (cases "w = 0 \<or> first_fit (request (unat w)) bs = None")
  case True
  then show ?thesis using pvPortMalloc_fails [OF assms, of w] assms by auto
next
  case False
  then obtain a bs' where ff: "w \<noteq> 0" "first_fit (request (unat w)) bs = Some (a, bs')" by auto
  obtain pre s post where "bs = pre @ (a, s, True) # post" using first_fit_Some [OF ff(2)] by blast
  then have "(of_nat a + 8 :: u32) \<noteq> 0"
    using block_payload(3) [of base h bs a s True] assms by (simp add: heap_inv_def)
  then show ?thesis using pvPortMalloc_succeeds [OF assms ff] by blast
qed

text \<open>
  C34: \<open>pvPortCalloc\<close> returns \<open>NULL\<close> whenever the product of its arguments does not fit in 32 bits; when
  it returns memory, exactly the requested bytes are zero and all other bytes are unchanged.
\<close>

theorem pvPortCalloc_zeroes:
  assumes "heap_inv base h bs"
  shows "\<exists>p h'. pvPortCalloc n s h = Some (p, h') \<and> (\<exists>bs'. heap_inv base h' bs')
    \<and> (2 ^ 32 \<le> unat n * unat s \<longrightarrow> p = 0)
    \<and> (p = 0 \<longrightarrow> h' = h)
    \<and> (p \<noteq> 0 \<longrightarrow> (\<forall>x. bytes h' x = (if unat (x - p) < unat n * unat s then 0 else bytes h x)))"
proof (cases "heapMULTIPLY_WILL_OVERFLOW n s")
  case True
  then show ?thesis using assms by (auto simp: pvPortCalloc_def)
next
  case False
  have le: "unat n * unat s < 2 ^ 32"
  proof (cases "n = 0")
    case n: False
    then have "unat s \<le> (2 ^ 32 - 1) div unat n"
      using False by (simp add: heapMULTIPLY_WILL_OVERFLOW_def word_less_nat_alt unat_div heapSIZE_MAX_def
          unsigned_minus_1_eq_mask mask_eq_exp_minus_1 word_neq_0_conv not_less)
    then have "unat n * unat s \<le> 2 ^ 32 - 1" by (metis div_times_less_eq_dividend le_trans mult.commute mult_le_mono1)
    then show ?thesis by simp
  qed simp
  then have m: "unat (n * s) = unat n * unat s" by (simp add: unat_word_ariths)
  obtain p h' bs' where r: "pvPortMalloc (n * s) h = Some (p, h')" "heap_inv base h' bs'" "bytes h' = bytes h"
      "p = 0 \<longrightarrow> h' = h" using pvPortMalloc_result [OF assms, of "n * s"] by blast
  show ?thesis
    using r False le m by (auto simp: pvPortCalloc_def memset_bytes word_less_nat_alt intro!: exI [of _ bs'])
qed

lemma pvPortCalloc_zeroes_witness:
  "\<exists>h'. pvPortCalloc 10 4 (prvHeapInit heap0) = Some (4112, h')
    \<and> (\<forall>x. bytes h' x = (if unat (x - 4112) < 40 then 0 else bytes (prvHeapInit heap0) x))"
proof -
  have n: "unat (10 :: u32) * unat (4 :: u32) = 40" by simp
  obtain p h' where r: "pvPortCalloc 10 4 (prvHeapInit heap0) = Some (p, h')"
      "p \<noteq> 0 \<longrightarrow> (\<forall>x. bytes h' x = (if unat (x - p) < 40 then 0 else bytes (prvHeapInit heap0) x))"
    using pvPortCalloc_zeroes [OF heap0_inv, of 10 4] unfolding n by blast
  have ff: "first_fit (request (unat (40 :: u32))) [(4104, 65520, True)] = Some (4104, [(4104, 56, False), (4160, 65464, True)])"
    by (simp add: first_fit_def fits_def request_def carve_def)
  obtain h2 where "pvPortMalloc 40 (prvHeapInit heap0) = Some (4112, h2)"
    using pvPortMalloc_succeeds [OF heap0_inv _ ff] by auto
  then have "p = 4112" using r(1) by (simp add: pvPortCalloc_def heapMULTIPLY_WILL_OVERFLOW_def heapSIZE_MAX_def)
  then show ?thesis using r by auto
qed

text \<open>
  C9: In every state that a client reaches from the uninitialised heap by allocating any sizes and
  releasing pointers it owns, the regions it owns are pairwise disjoint, a further allocation returns,
  and releasing any owned pointer returns (no assertion of the allocator fails).
\<close>

theorem heap4_clients_never_overlap:
  assumes "heap_placed h0" and "pxEnd h0 = 0" and "client pvPortMalloc vPortFree h0 h own"
  shows "(\<forall>x \<in> set own. \<forall>y \<in> set own. x \<noteq> y \<longrightarrow> regions_apart x y)
    \<and> (\<forall>w. \<exists>p h'. pvPortMalloc w h = Some (p, h'))
    \<and> (\<forall>(p, w) \<in> set own. \<exists>h'. vPortFree p h = Some h')"
proof -
  have ok: "heap_ok h0 []" "payloads [] = {}" using assms(1,2) by (simp_all add: heap_ok_def payloads_def)
  show ?thesis
    using heap4.client_regions_apart [OF assms(3) ok] heap4.client_alloc_returns [OF assms(3) ok]
      heap4.client_release_returns [OF assms(3) ok] by blast
qed

lemma heap4_clients_never_overlap_witness:
  "\<exists>p q h. p \<noteq> 0 \<and> q \<noteq> 0 \<and> client pvPortMalloc vPortFree heap0 h [(q, 50), (p, 100)]
    \<and> regions_apart (q, 50) (p, 100) \<and> (\<exists>h'. vPortFree p h = Some h')"
proof -
  have e: "pxEnd heap0 = 0" by (simp add: heap0_def)
  have ff: "first_fit (request (unat (100 :: u32))) [(4104, 65520, True)]
      = Some (4104, [(4104, 112, False), (4216, 65408, True)])"
    "first_fit (request (unat (50 :: u32))) [(4104, 112, False), (4216, 65408, True)]
      = Some (4216, [(4104, 112, False), (4216, 64, False), (4280, 65344, True)])"
    by (simp_all add: first_fit_def fits_def request_def carve_def)
  have first: "pvPortMalloc w heap0 = pvPortMalloc w (prvHeapInit heap0)" for w
    by (rule pvPortMalloc_first_call [OF e prvHeapInit_establishes(2) [OF heap0_placed]])
  obtain h1 where h1: "pvPortMalloc 100 heap0 = Some (4112, h1)"
      "heap_inv 4104 h1 [(4104, 112, False), (4216, 65408, True)]"
    using pvPortMalloc_succeeds [OF heap0_inv _ ff(1)] first by auto
  obtain h2 where h2: "pvPortMalloc 50 h1 = Some (4224, h2)"
    using pvPortMalloc_succeeds [OF h1(2) _ ff(2)] by auto
  have "client pvPortMalloc vPortFree heap0 h1 [(4112, 100)]"
    using client_alloc [of pvPortMalloc vPortFree heap0 heap0 "[]", OF client_start h1(1)] by simp
  from client_alloc [OF this h2] have c: "client pvPortMalloc vPortFree heap0 h2 [(4224, 50), (4112, 100)]"
    by simp
  have "regions_apart (4224, 50) (4112, 100)" "\<exists>h'. vPortFree 4112 h2 = Some h'"
    using heap4_clients_never_overlap [OF heap0_placed e c] by simp_all
  with c show ?thesis
    by (intro exI [of _ "4112 :: u32"] exI [of _ "4224 :: u32"] exI [of _ h2]) simp
qed

end
