(* ===== verification/StreamBuffer.thy ===== *)
theory StreamBuffer
  imports Heap4
begin

text \<open>
  Stream and message buffers, \<open>src/libraries/freertos/stream_buffer.c\<close>: a ring of bytes written by one
  task or interrupt and read by another. Message buffers put the length of each message, four bytes on
  this target, in front of it. This theory is the code; the kernel calls it makes to block and to wake
  tasks appear as parameters (what happens while the task is blocked) and as the list of tasks notified.
\<close>

section \<open>State\<close>

record StreamBuffer_t =
  xTail :: u32
  xHead :: u32
  xLength :: u32
  xTriggerLevelBytes :: u32
  xTaskWaitingToReceive :: u32
  xTaskWaitingToSend :: u32
  pucBuffer :: "u8 list"
  ucFlags :: u8
  notified :: "u32 list"

definition sbFLAGS_IS_MESSAGE_BUFFER :: u8 where "sbFLAGS_IS_MESSAGE_BUFFER = 1"
definition sbFLAGS_IS_STATICALLY_ALLOCATED :: u8 where "sbFLAGS_IS_STATICALLY_ALLOCATED = 2"
definition sbBYTES_TO_STORE_MESSAGE_LENGTH :: u32 where "sbBYTES_TO_STORE_MESSAGE_LENGTH = 4"
definition sizeof_StreamBuffer_t :: u32 where "sizeof_StreamBuffer_t = 32"

abbreviation is_message_buffer :: "StreamBuffer_t \<Rightarrow> bool" where
  "is_message_buffer sb \<equiv> and (ucFlags sb) sbFLAGS_IS_MESSAGE_BUFFER \<noteq> 0"

text \<open>The bytes of a \<open>size_t\<close> in memory; the target is little endian.\<close>

definition bytes_of :: "u32 \<Rightarrow> u8 list" where
  "bytes_of w = [ucast w, ucast (drop_bit 8 w), ucast (drop_bit 16 w), ucast (drop_bit 24 w)]"

definition of_bytes :: "u8 list \<Rightarrow> u32" where
  "of_bytes bs = or (ucast (bs ! 0)) (or (push_bit 8 (ucast (bs ! 1)))
     (or (push_bit 16 (ucast (bs ! 2))) (push_bit 24 (ucast (bs ! 3)))))"

section \<open>The ring\<close>

definition prvBytesInBuffer :: "StreamBuffer_t \<Rightarrow> u32" where
  "prvBytesInBuffer sb =
     (let xCount = xLength sb + xHead sb;
          xCount = xCount - xTail sb
      in if xCount \<ge> xLength sb then xCount - xLength sb else xCount)"

definition prvWriteBytesToBuffer :: "StreamBuffer_t \<Rightarrow> u8 list \<Rightarrow> u32 \<Rightarrow> u32 \<Rightarrow> (u32 \<times> StreamBuffer_t) option" where
  "prvWriteBytesToBuffer sb pucData xCount head = do {
     configASSERT (xCount > 0);
     let xFirstLength = min (xLength sb - head) xCount;
     configASSERT (head + xFirstLength \<le> xLength sb);
     src \<leftarrow> memread pucData 0 (unat xFirstLength);
     b \<leftarrow> memcpy (pucBuffer sb) (unat head) src;
     b \<leftarrow> (if xCount > xFirstLength
          then do {
            configASSERT (xCount - xFirstLength \<le> xLength sb);
            src \<leftarrow> memread pucData (unat xFirstLength) (unat (xCount - xFirstLength));
            memcpy b 0 src
          }
          else Some b);
     let head = head + xCount;
     let head = (if head \<ge> xLength sb then head - xLength sb else head);
     Some (head, sb\<lparr>pucBuffer := b\<rparr>)
   }"

text \<open>The bytes that end up in \<open>pucData\<close>, and the new tail.\<close>

definition prvReadBytesFromBuffer :: "StreamBuffer_t \<Rightarrow> u32 \<Rightarrow> u32 \<Rightarrow> (u8 list \<times> u32) option" where
  "prvReadBytesFromBuffer sb xCount tail = do {
     configASSERT (xCount \<noteq> 0);
     let xFirstLength = min (xLength sb - tail) xCount;
     configASSERT (xFirstLength \<le> xCount);
     configASSERT (tail + xFirstLength \<le> xLength sb);
     d1 \<leftarrow> memread (pucBuffer sb) (unat tail) (unat xFirstLength);
     d2 \<leftarrow> (if xCount > xFirstLength then memread (pucBuffer sb) 0 (unat (xCount - xFirstLength)) else Some []);
     let tail = tail + xCount;
     let tail = (if tail \<ge> xLength sb then tail - xLength sb else tail);
     Some (d1 @ d2, tail)
   }"

text \<open>
  The loop of \<open>xStreamBufferSpacesAvailable\<close> re-reads the tail until it was not moved by an interrupt;
  one consistent reading is taken here.
\<close>

definition xStreamBufferSpacesAvailable :: "StreamBuffer_t \<Rightarrow> u32" where
  "xStreamBufferSpacesAvailable sb =
     (let xSpace = xLength sb + xTail sb;
          xSpace = xSpace - xHead sb;
          xSpace = xSpace - 1
      in if xSpace \<ge> xLength sb then xSpace - xLength sb else xSpace)"

definition xStreamBufferBytesAvailable :: "StreamBuffer_t \<Rightarrow> u32" where
  "xStreamBufferBytesAvailable sb = prvBytesInBuffer sb"

definition prvWriteMessageToBuffer ::
  "StreamBuffer_t \<Rightarrow> u8 list \<Rightarrow> u32 \<Rightarrow> u32 \<Rightarrow> u32 \<Rightarrow> (u32 \<times> StreamBuffer_t) option" where
  "prvWriteMessageToBuffer sb pvTxData xDataLengthBytes xSpace xRequiredSpace = do {
     let xNextHead = xHead sb;
     (xNextHead, xDataLengthBytes, sb) \<leftarrow>
       (if is_message_buffer sb
        then let xMessageLength = xDataLengthBytes in
          (if xSpace \<ge> xRequiredSpace
           then do {
             (xNextHead, sb) \<leftarrow> prvWriteBytesToBuffer sb (bytes_of xMessageLength) sbBYTES_TO_STORE_MESSAGE_LENGTH xNextHead;
             Some (xNextHead, xDataLengthBytes, sb)
           }
           else Some (xNextHead, 0, sb))
        else Some (xNextHead, min xDataLengthBytes xSpace, sb));
     sb \<leftarrow> (if xDataLengthBytes \<noteq> 0
           then do {
             (h, sb) \<leftarrow> prvWriteBytesToBuffer sb pvTxData xDataLengthBytes xNextHead;
             Some (sb\<lparr>xHead := h\<rparr>)
           }
           else Some sb);
     Some (xDataLengthBytes, sb)
   }"

definition prvReadMessageFromBuffer :: "StreamBuffer_t \<Rightarrow> u32 \<Rightarrow> u32 \<Rightarrow> (u8 list \<times> StreamBuffer_t) option" where
  "prvReadMessageFromBuffer sb xBufferLengthBytes xBytesAvailable = do {
     let xNextTail = xTail sb;
     (xNextTail, xNextMessageLength, xBytesAvailable) \<leftarrow>
       (if is_message_buffer sb
        then do {
          (d, xNextTail) \<leftarrow> prvReadBytesFromBuffer sb sbBYTES_TO_STORE_MESSAGE_LENGTH xNextTail;
          let xNextMessageLength = of_bytes d;
          let xBytesAvailable = xBytesAvailable - sbBYTES_TO_STORE_MESSAGE_LENGTH;
          Some (xNextTail, if xNextMessageLength > xBufferLengthBytes then 0 else xNextMessageLength, xBytesAvailable)
        }
        else Some (xNextTail, xBufferLengthBytes, xBytesAvailable));
     let xCount = min xNextMessageLength xBytesAvailable;
     (if xCount \<noteq> 0
      then do {
        (d, t) \<leftarrow> prvReadBytesFromBuffer sb xCount xNextTail;
        Some (d, sb\<lparr>xTail := t\<rparr>)
      }
      else Some ([], sb))
   }"

section \<open>Notifications\<close>

text \<open>\<open>sbSEND_COMPLETED\<close> and \<open>sbRECEIVE_COMPLETED\<close>, in the task and the interrupt variants alike.\<close>

definition prvSEND_COMPLETED :: "StreamBuffer_t \<Rightarrow> StreamBuffer_t" where
  "prvSEND_COMPLETED sb =
     (if xTaskWaitingToReceive sb \<noteq> 0
      then sb\<lparr>notified := notified sb @ [xTaskWaitingToReceive sb], xTaskWaitingToReceive := 0\<rparr> else sb)"

definition prvRECEIVE_COMPLETED :: "StreamBuffer_t \<Rightarrow> StreamBuffer_t" where
  "prvRECEIVE_COMPLETED sb =
     (if xTaskWaitingToSend sb \<noteq> 0
      then sb\<lparr>notified := notified sb @ [xTaskWaitingToSend sb], xTaskWaitingToSend := 0\<rparr> else sb)"

definition xStreamBufferSendCompletedFromISR :: "StreamBuffer_t \<Rightarrow> bool \<times> StreamBuffer_t" where
  "xStreamBufferSendCompletedFromISR sb =
     (if xTaskWaitingToReceive sb \<noteq> 0
      then (True, sb\<lparr>notified := notified sb @ [xTaskWaitingToReceive sb], xTaskWaitingToReceive := 0\<rparr>)
      else (False, sb))"

definition xStreamBufferReceiveCompletedFromISR :: "StreamBuffer_t \<Rightarrow> bool \<times> StreamBuffer_t" where
  "xStreamBufferReceiveCompletedFromISR sb =
     (if xTaskWaitingToSend sb \<noteq> 0
      then (True, sb\<lparr>notified := notified sb @ [xTaskWaitingToSend sb], xTaskWaitingToSend := 0\<rparr>)
      else (False, sb))"

section \<open>Sending and receiving\<close>

text \<open>
  \<open>blocked ticks sb\<close> is what the kernel and the other tasks do while the caller, whose handle is \<open>me\<close>, is
  blocked in \<open>xTaskNotifyWait\<close>: the buffer when it runs again, and the result of
  \<open>xTaskCheckForTimeOut\<close>, \<open>None\<close> when the time is up and the ticks left otherwise.
\<close>

partial_function (option) send_loop ::
  "(u32 \<Rightarrow> StreamBuffer_t \<Rightarrow> StreamBuffer_t \<times> u32 option) \<Rightarrow> u32 \<Rightarrow> u32 \<Rightarrow> u32 \<Rightarrow> StreamBuffer_t \<Rightarrow> (u32 \<times> StreamBuffer_t) option" where
  "send_loop blocked me xRequiredSpace xTicksToWait sb =
     (let xSpace = xStreamBufferSpacesAvailable sb
      in if xSpace < xRequiredSpace
         then do {
           configASSERT (xTaskWaitingToSend sb = 0);
           let (sb, r) = blocked xTicksToWait (sb\<lparr>xTaskWaitingToSend := me\<rparr>);
           let sb = sb\<lparr>xTaskWaitingToSend := 0\<rparr>;
           (case r of None \<Rightarrow> Some (xSpace, sb)
            | Some t \<Rightarrow> send_loop blocked me xRequiredSpace t sb)
         }
         else Some (xSpace, sb))"

definition xStreamBufferSend ::
  "(u32 \<Rightarrow> StreamBuffer_t \<Rightarrow> StreamBuffer_t \<times> u32 option) \<Rightarrow> u32 \<Rightarrow> u8 list \<Rightarrow> u32 \<Rightarrow> u32 \<Rightarrow> StreamBuffer_t
     \<Rightarrow> (u32 \<times> StreamBuffer_t) option" where
  "xStreamBufferSend blocked me pvTxData xDataLengthBytes xTicksToWait sb = do {
     let xMaxReportedSpace = xLength sb - 1;
     let xRequiredSpace = xDataLengthBytes;
     (xRequiredSpace, xTicksToWait) \<leftarrow>
       (if is_message_buffer sb
        then do {
          let xRequiredSpace = xRequiredSpace + sbBYTES_TO_STORE_MESSAGE_LENGTH;
          configASSERT (xRequiredSpace > xDataLengthBytes);
          Some (xRequiredSpace, if xRequiredSpace > xMaxReportedSpace then 0 else xTicksToWait)
        }
        else Some (if xRequiredSpace > xMaxReportedSpace then xMaxReportedSpace else xRequiredSpace, xTicksToWait));
     (xSpace, sb) \<leftarrow> (if xTicksToWait \<noteq> 0 then send_loop blocked me xRequiredSpace xTicksToWait sb else Some (0, sb));
     let xSpace = (if xSpace = 0 then xStreamBufferSpacesAvailable sb else xSpace);
     (xReturn, sb) \<leftarrow> prvWriteMessageToBuffer sb pvTxData xDataLengthBytes xSpace xRequiredSpace;
     Some (xReturn,
       if xReturn > 0
       then if prvBytesInBuffer sb \<ge> xTriggerLevelBytes sb then prvSEND_COMPLETED sb else sb
       else sb)
   }"

definition xStreamBufferSendFromISR :: "u8 list \<Rightarrow> u32 \<Rightarrow> StreamBuffer_t \<Rightarrow> (u32 \<times> StreamBuffer_t) option" where
  "xStreamBufferSendFromISR pvTxData xDataLengthBytes sb = do {
     let xRequiredSpace = xDataLengthBytes;
     let xRequiredSpace = (if is_message_buffer sb then xRequiredSpace + sbBYTES_TO_STORE_MESSAGE_LENGTH else xRequiredSpace);
     let xSpace = xStreamBufferSpacesAvailable sb;
     (xReturn, sb) \<leftarrow> prvWriteMessageToBuffer sb pvTxData xDataLengthBytes xSpace xRequiredSpace;
     Some (xReturn,
       if xReturn > 0
       then if prvBytesInBuffer sb \<ge> xTriggerLevelBytes sb then prvSEND_COMPLETED sb else sb
       else sb)
   }"

definition xStreamBufferReceive ::
  "(u32 \<Rightarrow> StreamBuffer_t \<Rightarrow> StreamBuffer_t) \<Rightarrow> u32 \<Rightarrow> u32 \<Rightarrow> u32 \<Rightarrow> StreamBuffer_t \<Rightarrow> (u8 list \<times> StreamBuffer_t) option" where
  "xStreamBufferReceive blocked me xBufferLengthBytes xTicksToWait sb = do {
     let xBytesToStoreMessageLength = (if is_message_buffer sb then sbBYTES_TO_STORE_MESSAGE_LENGTH else 0);
     (xBytesAvailable, sb) \<leftarrow>
       (if xTicksToWait \<noteq> 0
        then let xBytesAvailable = prvBytesInBuffer sb in
          (if xBytesAvailable \<le> xBytesToStoreMessageLength
           then do {
             configASSERT (xTaskWaitingToReceive sb = 0);
             let sb = blocked xTicksToWait (sb\<lparr>xTaskWaitingToReceive := me\<rparr>);
             let sb = sb\<lparr>xTaskWaitingToReceive := 0\<rparr>;
             Some (prvBytesInBuffer sb, sb)
           }
           else Some (xBytesAvailable, sb))
        else Some (prvBytesInBuffer sb, sb));
     (if xBytesAvailable > xBytesToStoreMessageLength
      then do {
        (d, sb) \<leftarrow> prvReadMessageFromBuffer sb xBufferLengthBytes xBytesAvailable;
        Some (d, if d \<noteq> [] then prvRECEIVE_COMPLETED sb else sb)
      }
      else Some ([], sb))
   }"

definition xStreamBufferReceiveFromISR :: "u32 \<Rightarrow> StreamBuffer_t \<Rightarrow> (u8 list \<times> StreamBuffer_t) option" where
  "xStreamBufferReceiveFromISR xBufferLengthBytes sb = do {
     let xBytesToStoreMessageLength = (if is_message_buffer sb then sbBYTES_TO_STORE_MESSAGE_LENGTH else 0);
     let xBytesAvailable = prvBytesInBuffer sb;
     (if xBytesAvailable > xBytesToStoreMessageLength
      then do {
        (d, sb) \<leftarrow> prvReadMessageFromBuffer sb xBufferLengthBytes xBytesAvailable;
        Some (d, if d \<noteq> [] then prvRECEIVE_COMPLETED sb else sb)
      }
      else Some ([], sb))
   }"

definition xStreamBufferNextMessageLengthBytes :: "StreamBuffer_t \<Rightarrow> u32 option" where
  "xStreamBufferNextMessageLengthBytes sb =
     (if is_message_buffer sb
      then let xBytesAvailable = prvBytesInBuffer sb in
        (if xBytesAvailable > sbBYTES_TO_STORE_MESSAGE_LENGTH
         then do {
           (d, t) \<leftarrow> prvReadBytesFromBuffer sb sbBYTES_TO_STORE_MESSAGE_LENGTH (xTail sb);
           Some (of_bytes d)
         }
         else do {
           configASSERT (xBytesAvailable = 0);
           Some 0
         })
      else Some 0)"

definition xStreamBufferIsEmpty :: "StreamBuffer_t \<Rightarrow> bool" where
  "xStreamBufferIsEmpty sb \<longleftrightarrow> xHead sb = xTail sb"

definition xStreamBufferIsFull :: "StreamBuffer_t \<Rightarrow> bool" where
  "xStreamBufferIsFull sb \<longleftrightarrow>
     xStreamBufferSpacesAvailable sb \<le> (if is_message_buffer sb then sbBYTES_TO_STORE_MESSAGE_LENGTH else 0)"

definition xStreamBufferSetTriggerLevel :: "u32 \<Rightarrow> StreamBuffer_t \<Rightarrow> bool \<times> StreamBuffer_t" where
  "xStreamBufferSetTriggerLevel xTriggerLevel sb =
     (let xTriggerLevel = (if xTriggerLevel = 0 then 1 else xTriggerLevel)
      in if xTriggerLevel < xLength sb then (True, sb\<lparr>xTriggerLevelBytes := xTriggerLevel\<rparr>) else (False, sb))"

section \<open>Creation and reset\<close>

definition prvInitialiseNewStreamBuffer :: "u32 \<Rightarrow> u32 \<Rightarrow> u8 \<Rightarrow> StreamBuffer_t" where
  "prvInitialiseNewStreamBuffer xBufferSizeBytes xTriggerLevel flags =
     \<lparr>xTail = 0, xHead = 0, xLength = xBufferSizeBytes, xTriggerLevelBytes = xTriggerLevel,
      xTaskWaitingToReceive = 0, xTaskWaitingToSend = 0,
      pucBuffer = replicate (unat xBufferSizeBytes) 0x55, ucFlags = flags, notified = []\<rparr>"

text \<open>The block comes from \<open>pvPortMalloc\<close>; the buffer proper starts behind the structure.\<close>

definition xStreamBufferGenericCreate :: "u32 \<Rightarrow> u32 \<Rightarrow> bool \<Rightarrow> heap \<Rightarrow> ((u32 \<times> StreamBuffer_t) option \<times> heap) option" where
  "xStreamBufferGenericCreate xBufferSizeBytes xTriggerLevel xIsMessageBuffer h = do {
     flags \<leftarrow> (if xIsMessageBuffer
             then do { configASSERT (xBufferSizeBytes > sbBYTES_TO_STORE_MESSAGE_LENGTH); Some sbFLAGS_IS_MESSAGE_BUFFER }
             else do { configASSERT (xBufferSizeBytes > 0); Some 0 });
     configASSERT (xTriggerLevel \<le> xBufferSizeBytes);
     let xTriggerLevel = (if xTriggerLevel = 0 then 1 else xTriggerLevel);
     (if xBufferSizeBytes < xBufferSizeBytes + 1 + sizeof_StreamBuffer_t
      then do {
        let xBufferSizeBytes = xBufferSizeBytes + 1;
        (p, h) \<leftarrow> pvPortMalloc (xBufferSizeBytes + sizeof_StreamBuffer_t) h;
        Some (if p \<noteq> 0 then Some (p, prvInitialiseNewStreamBuffer xBufferSizeBytes xTriggerLevel flags) else None, h)
      }
      else Some (None, h))
   }"

definition vStreamBufferDelete :: "u32 \<Rightarrow> StreamBuffer_t \<Rightarrow> heap \<Rightarrow> heap option" where
  "vStreamBufferDelete p sb h =
     (if and (ucFlags sb) sbFLAGS_IS_STATICALLY_ALLOCATED = 0 then vPortFree p h else Some h)"

definition xStreamBufferReset :: "StreamBuffer_t \<Rightarrow> bool \<times> StreamBuffer_t" where
  "xStreamBufferReset sb =
     (if xTaskWaitingToReceive sb = 0 \<and> xTaskWaitingToSend sb = 0
      then (True, (prvInitialiseNewStreamBuffer (xLength sb) (xTriggerLevelBytes sb) (ucFlags sb))\<lparr>notified := notified sb\<rparr>)
      else (False, sb))"

end
