(* ===== verification/Ring.thy ===== *)
theory Ring
  imports Prelude
begin

text \<open>
  What the ring buffers of the kernel share: the cells of a ring as the list that starts at a cell and
  wraps, writing a block that wraps, copying in two parts as the code does, and the interface of a
  bounded byte queue with what a sequence of writes and reads transports.
\<close>

section \<open>Cells of a ring\<close>

definition ring :: "'a list \<Rightarrow> nat \<Rightarrow> nat \<Rightarrow> 'a list" where
  "ring b t k = map (\<lambda>i. b ! ((t + i) mod length b)) [0..<k]"

definition ring_write :: "'a list \<Rightarrow> nat \<Rightarrow> 'a list \<Rightarrow> 'a list" where
  "ring_write b h d = map (\<lambda>j. let k = (j + length b - h) mod length b
     in if k < length d then d ! k else b ! j) [0..<length b]"

lemma length_ring [simp]: "length (ring b t k) = k"
  by (simp add: ring_def)

lemma length_ring_write [simp]: "length (ring_write b h d) = length b"
  by (simp add: ring_write_def)

lemma ring_0 [simp]: "ring b t 0 = []"
  by (simp add: ring_def)

lemma ring_nth: "i < k \<Longrightarrow> ring b t k ! i = b ! ((t + i) mod length b)"
  by (simp add: ring_def)

lemma take_ring: "c \<le> k \<Longrightarrow> take c (ring b t k) = ring b t c"
  by (rule nth_equalityI) (auto simp: ring_nth)

lemma drop_ring: "c \<le> k \<Longrightarrow> drop c (ring b t k) = ring b ((t + c) mod length b) (k - c)"
  by (rule nth_equalityI) (auto simp: ring_nth mod_add_left_eq add.assoc)

lemma ring_append: "ring b t (j + k) = ring b t j @ ring b ((t + j) mod length b) k"
  using append_take_drop_id [of j "ring b t (j + k)"] by (simp add: take_ring drop_ring)

lemma ring_whole: "b \<noteq> [] \<Longrightarrow> ring b 0 (length b) = b"
  by (rule nth_equalityI) (auto simp: ring_nth)

lemma ring_mod: "ring b (t mod length b) k = ring b t k"
  by (simp add: ring_def mod_add_left_eq)

text \<open>The cell \<open>k\<close> steps after \<open>h\<close>.\<close>

lemma ring_offset:
  fixes h k n :: nat
  assumes "h < n" and "k < n"
  shows "((h + k) mod n + n - h) mod n = k"
proof (cases "h + k < n")
  case True
  then have "(h + k) mod n + n - h = k + n" by simp
  then show ?thesis using assms by simp
next
  case False
  then have "(h + k) mod n = h + k - n" using assms by (simp add: le_mod_geq)
  then have "(h + k) mod n + n - h = k" using False by simp
  then show ?thesis using assms by simp
qed

lemma ring_write_nth:
  assumes "h < length b" and "k < length b"
  shows "ring_write b h d ! ((h + k) mod length b) = (if k < length d then d ! k else b ! ((h + k) mod length b))"
proof -
  have "(h + k) mod length b < length b" using assms by (intro mod_less_divisor) linarith
  then show ?thesis using ring_offset [OF assms] by (simp add: ring_write_def Let_def)
qed

lemma ring_write_new:
  assumes "h < length b" and "length d \<le> length b"
  shows "ring (ring_write b h d) h (length d) = d"
  by (rule nth_equalityI) (use assms in \<open>auto simp: ring_nth ring_write_nth\<close>)

lemma ring_write_old:
  assumes "t < length b" and "c + length d \<le> length b"
  shows "ring (ring_write b ((t + c) mod length b) d) t c = ring b t c"
proof (rule nth_equalityI)
  fix i assume "i < length (ring (ring_write b ((t + c) mod length b) d) t c)"
  then have i: "i < c" by simp
  let ?n = "length b" and ?h = "(t + c) mod length b"
  define k where "k = ?n - c + i"
  have k: "k < ?n" "\<not> k < length d" using i assms by (auto simp: k_def)
  have h: "?h < ?n" using assms by (intro mod_less_divisor) auto
  have "(?h + k) mod ?n = (t + c + k) mod ?n" by (simp add: mod_add_left_eq)
  also have "t + c + k = (t + i) + ?n" using i assms by (simp add: k_def)
  finally have "(?h + k) mod ?n = (t + i) mod ?n" by simp
  then show "ring (ring_write b ?h d) t c ! i = ring b t c ! i"
    using ring_write_nth [OF h k(1), of d] k(2) i by (simp add: ring_nth)
qed simp

text \<open>The number of cells from tail to head.\<close>

lemma ring_distance:
  fixes n h t :: nat
  assumes "h < n" and "t < n"
  shows "(n + h - t) mod n = (if t \<le> h then h - t else n + h - t)" "(t + (n + h - t) mod n) mod n = h"
proof -
  show 1: "(n + h - t) mod n = (if t \<le> h then h - t else n + h - t)"
  proof (cases "t \<le> h")
    case True
    then have "n + h - t = (h - t) + n" by simp
    then have "(n + h - t) mod n = (h - t) mod n" by (simp only: mod_add_self2)
    then show ?thesis using True assms by simp
  next
    case False
    then show ?thesis using assms by simp
  qed
  show "(t + (n + h - t) mod n) mod n = h"
    unfolding 1 using assms by auto
qed

text \<open>The two-part copy of the code writes and reads a wrapping block.\<close>

lemma copy_in:
  assumes "h < length b" and "length d \<le> length b"
  defines "f \<equiv> min (length b - h) (length d)"
  shows "\<exists>b1. memcpy b h (take f d) = Some b1 \<and> length b1 = length b
    \<and> (f < length d \<longrightarrow> memcpy b1 0 (drop f d) = Some (ring_write b h d))
    \<and> (f = length d \<longrightarrow> b1 = ring_write b h d)"
proof -
  have "h + length (take f d) \<le> length b" using assms by (simp add: f_def)
  then obtain b1 where b1: "memcpy b h (take f d) = Some b1" by (simp only: memcpy_def if_True)
  have l: "length b1 = length b" using memcpy_length [OF b1] .
  have nth1: "b1 ! j = (if h \<le> j \<and> j < h + f then d ! (j - h) else b ! j)" if "j < length b" for j
  proof -
    have "b1 ! j = (if h \<le> j \<and> j < h + length (take f d) then take f d ! (j - h) else b ! j)"
      by (rule memcpy_nth [OF b1 that])
    then show ?thesis by (auto simp: f_def min_def)
  qed
  have off: "(j + length b - h) mod length b = (if h \<le> j then j - h else j + length b - h)" if "j < length b" for j
    using ring_distance(1) [OF that assms(1)] by (simp add: add.commute)
  have "b1 = ring_write b h d" if "f = length d"
  proof (rule nth_equalityI)
    fix j assume "j < length b1"
    then have j: "j < length b" using l by simp
    show "b1 ! j = ring_write b h d ! j"
      using j that nth1 [OF j] off [OF j] by (auto simp: ring_write_def Let_def f_def min_def split: if_splits)
  qed (simp add: l)
  moreover have "memcpy b1 0 (drop f d) = Some (ring_write b h d)" if f: "f < length d"
  proof -
    have fl: "f = length b - h" using f by (auto simp: f_def min_def split: if_splits)
    have "0 + length (drop f d) \<le> length b1" using assms l by simp
    then obtain b2 where b2: "memcpy b1 0 (drop f d) = Some b2" by (simp only: memcpy_def if_True)
    have "b2 = ring_write b h d"
    proof (rule nth_equalityI)
      fix j assume "j < length b2"
      then have j: "j < length b1" "j < length b" using memcpy_length [OF b2] l by simp_all
      have "b2 ! j = (if j < length d - f then d ! (f + j) else b1 ! j)"
        using memcpy_nth [OF b2 j(1)] f by simp
      then show "b2 ! j = ring_write b h d ! j"
        using j(2) nth1 [OF j(2)] off [OF j(2)] fl assms f by (auto simp: ring_write_def Let_def add.commute)
    qed (use memcpy_length [OF b2] l in simp)
    then show ?thesis using b2 by simp
  qed
  ultimately show ?thesis using b1 l by blast
qed

lemma copy_out:
  assumes "t < length b" and "c \<le> length b"
  defines "f \<equiv> min (length b - t) c"
  shows "\<exists>d1. memread b t f = Some d1 \<and> (f = c \<longrightarrow> d1 = ring b t c)
    \<and> (f < c \<longrightarrow> memread b 0 (c - f) = Some (drop f (ring b t c)) \<and> d1 = take f (ring b t c))"
proof -
  have f: "f \<le> c" "t + f \<le> length b" using assms by (auto simp: f_def)
  have d1: "memread b t f = Some (ring b t f)"
    unfolding memread_map_nth [OF f(2)] using f by (auto simp: ring_def intro!: nth_equalityI)
  have "memread b 0 (c - f) = Some (drop f (ring b t c))" if "f < c"
  proof -
    have fl: "f = length b - t" using that by (auto simp: f_def min_def split: if_splits)
    have le: "0 + (c - f) \<le> length b" using assms fl by simp
    have "drop f (ring b t c) = ring b ((t + f) mod length b) (c - f)" by (rule drop_ring) (use f in simp)
    also have "(t + f) mod length b = 0" using fl assms by simp
    finally show ?thesis unfolding memread_map_nth [OF le] using le by (auto simp: ring_def intro!: nth_equalityI)
  qed
  then show ?thesis using d1 take_ring [OF f(1), of b t] by auto
qed

section \<open>The interface of a byte queue\<close>

text \<open>
  A writer offers data and learns how much was taken; a reader asks for at most \<open>n\<close> elements. Both
  return whatever the state.
\<close>

locale byte_queue =
  fixes inv :: "'s \<Rightarrow> bool" and contents :: "'s \<Rightarrow> 'a list" and capacity :: "'s \<Rightarrow> nat"
    and push :: "'a list \<Rightarrow> 's \<Rightarrow> (nat \<times> 's) option" and pop :: "nat \<Rightarrow> 's \<Rightarrow> ('a list \<times> 's) option"
    and bound :: nat
  assumes push_law: "inv s \<Longrightarrow> length d < bound \<Longrightarrow> \<exists>s'. push d s = Some (min (length d) (capacity s - length (contents s)), s')
      \<and> inv s' \<and> capacity s' = capacity s
      \<and> contents s' = contents s @ take (min (length d) (capacity s - length (contents s))) d"
    and pop_law: "inv s \<Longrightarrow> n < bound \<Longrightarrow> \<exists>s'. pop n s = Some (take n (contents s), s') \<and> inv s' \<and> capacity s' = capacity s
      \<and> contents s' = drop n (contents s)"
    and capacity_law: "inv s \<Longrightarrow> length (contents s) \<le> capacity s"

text \<open>Any interleaving of writes and reads, with the data accepted and the data delivered so far.\<close>

inductive transport :: "('a list \<Rightarrow> 's \<Rightarrow> (nat \<times> 's) option) \<Rightarrow> (nat \<Rightarrow> 's \<Rightarrow> ('a list \<times> 's) option) \<Rightarrow> nat \<Rightarrow> 's
    \<Rightarrow> 's \<Rightarrow> 'a list \<Rightarrow> 'a list \<Rightarrow> bool" for push pop bound s0 where
  transport_start: "transport push pop bound s0 s0 [] []"
| transport_push: "transport push pop bound s0 s sent got \<Longrightarrow> length d < bound \<Longrightarrow> push d s = Some (k, s') \<Longrightarrow>
    transport push pop bound s0 s' (sent @ take k d) got"
| transport_pop: "transport push pop bound s0 s sent got \<Longrightarrow> n < bound \<Longrightarrow> pop n s = Some (d, s') \<Longrightarrow>
    transport push pop bound s0 s' sent (got @ d)"

context byte_queue
begin

lemma transport_inv:
  assumes "transport push pop bound s0 s sent got" and "inv s0"
  shows "inv s \<and> capacity s = capacity s0 \<and> contents s0 @ sent = got @ contents s"
  using assms
proof (induction rule: transport.induct)
  case (transport_push s sent got d k s')
  then have i: "inv s" and c: "capacity s = capacity s0" and e: "contents s0 @ sent = got @ contents s" by auto
  obtain s'' where s'': "push d s = Some (min (length d) (capacity s - length (contents s)), s'')" "inv s''"
      "capacity s'' = capacity s"
      "contents s'' = contents s @ take (min (length d) (capacity s - length (contents s))) d"
    using push_law [OF i] transport_push.hyps(2) by blast
  then have "s' = s''" "k = min (length d) (capacity s - length (contents s))"
    using transport_push.hyps(3) by auto
  then show ?case using s'' c e by (metis append_assoc)
next
  case (transport_pop s sent got n d s')
  then have i: "inv s" and c: "capacity s = capacity s0" and e: "contents s0 @ sent = got @ contents s" by auto
  obtain s'' where s'': "pop n s = Some (take n (contents s), s'')" "inv s''" "capacity s'' = capacity s"
      "contents s'' = drop n (contents s)"
    using pop_law [OF i] transport_pop.hyps(2) by blast
  then have "s' = s''" "d = take n (contents s)" using transport_pop.hyps(3) by auto
  then show ?case using s'' c e by simp
qed simp

lemma transport_prefix:
  "transport push pop bound s0 s sent got \<Longrightarrow> inv s0 \<Longrightarrow> contents s0 = [] \<Longrightarrow> \<exists>rest. sent = got @ rest \<and> length rest \<le> capacity s0"
  using transport_inv capacity_law by (metis append_Nil)

lemma transport_live:
  "transport push pop bound s0 s sent got \<Longrightarrow> inv s0 \<Longrightarrow> length d < bound \<Longrightarrow> \<exists>k s'. push d s = Some (k, s')"
  "transport push pop bound s0 s sent got \<Longrightarrow> inv s0 \<Longrightarrow> n < bound \<Longrightarrow> \<exists>x s'. pop n s = Some (x, s')"
  using transport_inv push_law pop_law by (meson, meson)

end

end
