(* ===== verification/StreamBufferFifo.thy ===== *)
theory StreamBufferFifo
  imports StreamBuffer Ring Heap4Clients
begin

text \<open>
  What stream and message buffers promise: the bytes between tail and head are a queue, a send appends
  the longest prefix that fits, a receive takes from the front, and in a message buffer the queue is a
  sequence of whole messages.
\<close>

section \<open>The queue a buffer holds\<close>

definition sb_ok :: "StreamBuffer_t \<Rightarrow> bool" where
  "sb_ok sb \<longleftrightarrow> length (pucBuffer sb) = unat (xLength sb) \<and> 1 < unat (xLength sb) \<and> unat (xLength sb) < 2 ^ 31
     \<and> xHead sb < xLength sb \<and> xTail sb < xLength sb"

definition sb_count :: "StreamBuffer_t \<Rightarrow> nat" where
  "sb_count sb = (unat (xLength sb) + unat (xHead sb) - unat (xTail sb)) mod unat (xLength sb)"

definition sb_bytes :: "StreamBuffer_t \<Rightarrow> u8 list" where
  "sb_bytes sb = ring (pucBuffer sb) (unat (xTail sb)) (sb_count sb)"

definition sb_capacity :: "StreamBuffer_t \<Rightarrow> nat" where
  "sb_capacity sb = unat (xLength sb) - 1"

lemma length_sb_bytes [simp]: "length (sb_bytes sb) = sb_count sb"
  by (simp add: sb_bytes_def)

lemma sb_okD:
  assumes "sb_ok sb"
  shows "length (pucBuffer sb) = unat (xLength sb)" "1 < unat (xLength sb)" "unat (xLength sb) < 2 ^ 31"
    "unat (xHead sb) < unat (xLength sb)" "unat (xTail sb) < unat (xLength sb)"
  using assms by (auto simp: sb_ok_def word_less_nat_alt)

lemma sb_count_less: "sb_ok sb \<Longrightarrow> sb_count sb < unat (xLength sb)"
  using sb_okD [of sb] by (simp add: sb_count_def)

lemma sb_count_le_capacity: "sb_ok sb \<Longrightarrow> sb_count sb \<le> sb_capacity sb"
  using sb_count_less [of sb] by (simp add: sb_capacity_def)

lemma head_from_tail: "sb_ok sb \<Longrightarrow> (unat (xTail sb) + sb_count sb) mod unat (xLength sb) = unat (xHead sb)"
  unfolding sb_count_def using sb_okD(4,5) by (rule ring_distance(2))

text \<open>Fields that play no part in the queue.\<close>

lemma sb_fields [simp]:
  "sb_ok (sb\<lparr>xTaskWaitingToReceive := a\<rparr>) = sb_ok sb" "sb_ok (sb\<lparr>xTaskWaitingToSend := a\<rparr>) = sb_ok sb"
  "sb_ok (sb\<lparr>notified := l\<rparr>) = sb_ok sb" "sb_ok (sb\<lparr>xTriggerLevelBytes := a\<rparr>) = sb_ok sb"
  "sb_bytes (sb\<lparr>xTaskWaitingToReceive := a\<rparr>) = sb_bytes sb" "sb_bytes (sb\<lparr>xTaskWaitingToSend := a\<rparr>) = sb_bytes sb"
  "sb_bytes (sb\<lparr>notified := l\<rparr>) = sb_bytes sb" "sb_bytes (sb\<lparr>xTriggerLevelBytes := a\<rparr>) = sb_bytes sb"
  by (simp_all add: sb_ok_def sb_bytes_def sb_count_def)

section \<open>Counting\<close>

lemma ring_reduce:
  fixes m x :: u32
  assumes "unat x = k" and "k < 2 * unat m"
  shows "unat (if x \<ge> m then x - m else x) = k mod unat m"
proof (cases "m \<le> x")
  case True
  then have "unat m \<le> k" using assms by (simp add: word_le_nat_alt)
  moreover have "k - unat m < unat m" using assms(2) by simp
  ultimately have "k mod unat m = k - unat m" by (simp add: le_mod_geq)
  then show ?thesis using True assms(1) by (simp add: unat_sub_u32)
next
  case False
  then have "k < unat m" using assms by (simp add: word_le_nat_alt)
  then show ?thesis using False assms(1) by simp
qed

lemma unat_prvBytesInBuffer:
  assumes "sb_ok sb"
  shows "unat (prvBytesInBuffer sb) = sb_count sb"
proof -
  note d = sb_okD [OF assms]
  have s: "unat (xLength sb + xHead sb) = unat (xLength sb) + unat (xHead sb)"
    by (rule unat_add_u32) (use d in simp)
  have le: "xTail sb \<le> xLength sb + xHead sb" unfolding word_le_nat_alt s using d by simp
  have "unat (xLength sb + xHead sb - xTail sb) = unat (xLength sb) + unat (xHead sb) - unat (xTail sb)"
    using unat_sub_u32 [OF le] s by simp
  then show ?thesis unfolding prvBytesInBuffer_def sb_count_def Let_def
    by (rule ring_reduce) (use d in simp)
qed

lemma unat_xStreamBufferSpacesAvailable:
  assumes "sb_ok sb"
  shows "unat (xStreamBufferSpacesAvailable sb) = sb_capacity sb - sb_count sb"
proof -
  note d = sb_okD [OF assms]
  have s: "unat (xLength sb + xTail sb) = unat (xLength sb) + unat (xTail sb)"
    by (rule unat_add_u32) (use d in simp)
  have le: "xHead sb \<le> xLength sb + xTail sb" unfolding word_le_nat_alt s using d by simp
  have s2: "unat (xLength sb + xTail sb - xHead sb) = unat (xLength sb) + unat (xTail sb) - unat (xHead sb)"
    using unat_sub_u32 [OF le] s by simp
  have le2: "1 \<le> xLength sb + xTail sb - xHead sb" unfolding word_le_nat_alt s2 using d by simp
  let ?k = "unat (xLength sb) + unat (xTail sb) - unat (xHead sb) - 1"
  have "unat (xLength sb + xTail sb - xHead sb - 1) = ?k"
    using unat_sub_u32 [OF le2] s2 by simp
  then have "unat (xStreamBufferSpacesAvailable sb) = ?k mod unat (xLength sb)"
    unfolding xStreamBufferSpacesAvailable_def Let_def by (rule ring_reduce) (use d in simp)
  also have "?k mod unat (xLength sb) = sb_capacity sb - sb_count sb"
  proof (cases "unat (xTail sb) \<le> unat (xHead sb)")
    case True
    then have "sb_count sb = unat (xHead sb) - unat (xTail sb)"
      unfolding sb_count_def using ring_distance(1) [OF d(4,5)] by simp
    then show ?thesis using True d by (simp add: sb_capacity_def)
  next
    case False
    then have c: "sb_count sb = unat (xLength sb) + unat (xHead sb) - unat (xTail sb)"
      unfolding sb_count_def using ring_distance(1) [OF d(4,5)] by simp
    have "?k = (unat (xTail sb) - unat (xHead sb) - 1) + unat (xLength sb)" using False by simp
    then have "?k mod unat (xLength sb) = unat (xTail sb) - unat (xHead sb) - 1"
      using d by (simp only: mod_add_self2) simp
    then show ?thesis using c False d by (simp add: sb_capacity_def)
  qed
  finally show ?thesis .
qed

section \<open>Writing and reading the ring\<close>

lemma unat_min: "unat (min a b :: u32) = min (unat a) (unat b)"
  by (simp add: min_def word_le_nat_alt)

lemma prvWriteBytesToBuffer_ok:
  assumes "length (pucBuffer sb) = unat (xLength sb)" and "unat (xLength sb) < 2 ^ 31" and "unat head < unat (xLength sb)"
    and "0 < unat c" and "unat c \<le> unat (xLength sb)" and "unat c \<le> length d"
  shows "\<exists>h'. prvWriteBytesToBuffer sb d c head = Some (h', sb\<lparr>pucBuffer := ring_write (pucBuffer sb) (unat head) (take (unat c) d)\<rparr>)
    \<and> unat h' = (unat head + unat c) mod unat (xLength sb)"
proof -
  let ?n = "unat (xLength sb)"
  define f where "f = min (unat (xLength sb) - unat head) (unat c)"
  have lt: "head \<le> xLength sb" using assms(3) by (simp add: word_le_nat_alt)
  have f: "unat (min (xLength sb - head) c) = f" by (simp add: f_def unat_min unat_sub_u32 [OF lt])
  have s: "unat (head + c) = unat head + unat c" by (rule unat_add_u32) (use assms in simp)
  have a1: "0 < c" using assms(4) by (simp add: word_less_nat_alt)
  have s1: "unat (head + min (xLength sb - head) c) = unat head + f"
    using unat_add_u32 [of head "min (xLength sb - head) c"] f assms(2,3,5) by (simp add: f_def)
  have a2: "head + min (xLength sb - head) c \<le> xLength sb" unfolding word_le_nat_alt s1 using assms(3) by (simp add: f_def)
  have mle: "min (xLength sb - head) c \<le> c" by simp
  have s3: "unat (c - min (xLength sb - head) c) = unat c - f" using unat_sub_u32 [OF mle] f by simp
  have a3: "c - min (xLength sb - head) c \<le> xLength sb" unfolding word_le_nat_alt s3 using assms(5) by simp
  have gt: "c > min (xLength sb - head) c \<longleftrightarrow> f < unat c" by (simp add: word_less_nat_alt f)
  have r1: "memread d 0 f = Some (take f (take (unat c) d))" using assms(6) by (simp add: memread_def f_def)
  have r2: "memread d f (unat c - f) = Some (drop f (take (unat c) d))" using assms(6)
    by (simp add: memread_def drop_take f_def)
  have lt': "length (take (unat c) d) = unat c" using assms(6) by simp
  obtain b1 where b1: "memcpy (pucBuffer sb) (unat head) (take f (take (unat c) d)) = Some b1"
      "f < unat c \<longrightarrow> memcpy b1 0 (drop f (take (unat c) d)) = Some (ring_write (pucBuffer sb) (unat head) (take (unat c) d))"
      "f = unat c \<longrightarrow> b1 = ring_write (pucBuffer sb) (unat head) (take (unat c) d)"
    using copy_in [of "unat head" "pucBuffer sb" "take (unat c) d"] assms(1,3,5)
    unfolding lt' assms(1) f_def [symmetric] by blast
  have red: "unat (if head + c \<ge> xLength sb then head + c - xLength sb else head + c) = (unat head + unat c) mod ?n"
    by (rule ring_reduce [OF s]) (use assms in simp)
  show ?thesis
  proof (cases "f < unat c")
    case True
    then show ?thesis
      unfolding prvWriteBytesToBuffer_def Let_def
      using True a1 a2 a3 gt r1 r2 b1 red by (simp add: f s3 del: min_less_iff_conj)
  next
    case False
    then have e: "f = unat c" by (simp add: f_def)
    then show ?thesis
      unfolding prvWriteBytesToBuffer_def Let_def
      using e a1 a2 gt r1 b1 red by (simp add: f del: min_less_iff_conj)
  qed
qed

lemma prvReadBytesFromBuffer_ok:
  assumes "length (pucBuffer sb) = unat (xLength sb)" and "unat (xLength sb) < 2 ^ 31" and "unat tail < unat (xLength sb)"
    and "0 < unat c" and "unat c \<le> unat (xLength sb)"
  shows "\<exists>t'. prvReadBytesFromBuffer sb c tail = Some (ring (pucBuffer sb) (unat tail) (unat c), t')
    \<and> unat t' = (unat tail + unat c) mod unat (xLength sb)"
proof -
  let ?n = "unat (xLength sb)"
  define f where "f = min (unat (xLength sb) - unat tail) (unat c)"
  have lt: "tail \<le> xLength sb" using assms(3) by (simp add: word_le_nat_alt)
  have f: "unat (min (xLength sb - tail) c) = f" by (simp add: f_def unat_min unat_sub_u32 [OF lt])
  have s: "unat (tail + c) = unat tail + unat c" by (rule unat_add_u32) (use assms in simp)
  have a1: "c \<noteq> 0" using assms(4) by auto
  have s1: "unat (tail + min (xLength sb - tail) c) = unat tail + f"
    using unat_add_u32 [of tail "min (xLength sb - tail) c"] f assms(2,3,5) by (simp add: f_def)
  have a2: "tail + min (xLength sb - tail) c \<le> xLength sb" unfolding word_le_nat_alt s1 using assms(3) by (simp add: f_def)
  have mle: "min (xLength sb - tail) c \<le> c" by simp
  have s3: "unat (c - min (xLength sb - tail) c) = unat c - f" using unat_sub_u32 [OF mle] f by simp
  have gt: "c > min (xLength sb - tail) c \<longleftrightarrow> f < unat c" by (simp add: word_less_nat_alt f)
  obtain d1 where d1: "memread (pucBuffer sb) (unat tail) f = Some d1"
      "f = unat c \<longrightarrow> d1 = ring (pucBuffer sb) (unat tail) (unat c)"
      "f < unat c \<longrightarrow> memread (pucBuffer sb) 0 (unat c - f) = Some (drop f (ring (pucBuffer sb) (unat tail) (unat c)))
         \<and> d1 = take f (ring (pucBuffer sb) (unat tail) (unat c))"
    using copy_out [of "unat tail" "pucBuffer sb" "unat c"] assms(1,3,5)
    unfolding assms(1) f_def [symmetric] by blast
  have red: "unat (if tail + c \<ge> xLength sb then tail + c - xLength sb else tail + c) = (unat tail + unat c) mod ?n"
    by (rule ring_reduce [OF s]) (use assms in simp)
  show ?thesis
  proof (cases "f < unat c")
    case True
    then show ?thesis
      unfolding prvReadBytesFromBuffer_def Let_def
      using True a1 a2 mle gt d1 red by (simp add: f s3 append_take_drop_id del: min_less_iff_conj)
  next
    case False
    then have e: "f = unat c" by (simp add: f_def)
    then show ?thesis
      unfolding prvReadBytesFromBuffer_def Let_def
      using e a1 a2 mle gt d1 red by (simp add: f del: min_less_iff_conj)
  qed
qed
section \<open>Moving head and tail\<close>

lemma ring_extend:
  assumes "t < length b" and "c + length d \<le> length b"
  shows "ring (ring_write b ((t + c) mod length b) d) t (c + length d) = ring b t c @ d"
proof -
  have h: "(t + c) mod length b < length b" using assms(1) by (intro mod_less_divisor) linarith
  show ?thesis
    using ring_append [of "ring_write b ((t + c) mod length b) d" t c "length d"]
      ring_write_old [OF assms] ring_write_new [OF h, of d] assms(2) by simp
qed

lemma set_head:
  assumes "sb_ok sb" and "length b' = unat (xLength sb)" and "unat h' = (unat (xTail sb) + k) mod unat (xLength sb)"
    and "k < unat (xLength sb)"
  shows "sb_ok (sb\<lparr>pucBuffer := b', xHead := h'\<rparr>)" "sb_count (sb\<lparr>pucBuffer := b', xHead := h'\<rparr>) = k"
    "sb_bytes (sb\<lparr>pucBuffer := b', xHead := h'\<rparr>) = ring b' (unat (xTail sb)) k"
proof -
  note d = sb_okD [OF assms(1)]
  have "unat h' < unat (xLength sb)" unfolding assms(3) using d by (intro mod_less_divisor) simp
  then show "sb_ok (sb\<lparr>pucBuffer := b', xHead := h'\<rparr>)"
    using assms(1,2) by (simp add: sb_ok_def word_less_nat_alt)
  show c: "sb_count (sb\<lparr>pucBuffer := b', xHead := h'\<rparr>) = k"
    unfolding sb_count_def using ring_offset [OF d(5) assms(4)] assms(3) by (simp add: add.commute)
  show "sb_bytes (sb\<lparr>pucBuffer := b', xHead := h'\<rparr>) = ring b' (unat (xTail sb)) k"
    using c by (simp add: sb_bytes_def)
qed

lemma set_tail:
  assumes "sb_ok sb" and "unat t' = (unat (xTail sb) + c) mod unat (xLength sb)" and "c \<le> sb_count sb"
  shows "sb_ok (sb\<lparr>xTail := t'\<rparr>)" "sb_count (sb\<lparr>xTail := t'\<rparr>) = sb_count sb - c"
    "sb_bytes (sb\<lparr>xTail := t'\<rparr>) = drop c (sb_bytes sb)"
proof -
  note d = sb_okD [OF assms(1)]
  have lt: "unat t' < unat (xLength sb)" unfolding assms(2) using d by (intro mod_less_divisor) simp
  then show "sb_ok (sb\<lparr>xTail := t'\<rparr>)" using assms(1) by (simp add: sb_ok_def word_less_nat_alt)
  have k: "sb_count sb - c < unat (xLength sb)" using sb_count_less [OF assms(1)] by simp
  have "(unat t' + (sb_count sb - c)) mod unat (xLength sb) = (unat (xTail sb) + c + (sb_count sb - c)) mod unat (xLength sb)"
    unfolding assms(2) by (simp only: mod_add_left_eq)
  then have "(unat t' + (sb_count sb - c)) mod unat (xLength sb) = unat (xHead sb)"
    using head_from_tail [OF assms(1)] assms(3) by simp
  then show ct: "sb_count (sb\<lparr>xTail := t'\<rparr>) = sb_count sb - c"
    unfolding sb_count_def [of "sb\<lparr>xTail := t'\<rparr>"] using ring_offset [OF lt k] by (simp add: add.commute)
  show "sb_bytes (sb\<lparr>xTail := t'\<rparr>) = drop c (sb_bytes sb)"
    unfolding sb_bytes_def ct drop_ring [OF assms(3)] using assms(2) d(1) by simp
qed

text \<open>Appending a block of bytes at the head.\<close>

lemma append_block:
  assumes "sb_ok sb" and "0 < unat c" and "unat c \<le> length d" and "sb_count sb + unat c \<le> sb_capacity sb"
  shows "\<exists>h'. prvWriteBytesToBuffer sb d c (xHead sb) = Some (h', sb\<lparr>pucBuffer := ring_write (pucBuffer sb) (unat (xHead sb)) (take (unat c) d)\<rparr>)
    \<and> sb_ok (sb\<lparr>pucBuffer := ring_write (pucBuffer sb) (unat (xHead sb)) (take (unat c) d), xHead := h'\<rparr>)
    \<and> sb_bytes (sb\<lparr>pucBuffer := ring_write (pucBuffer sb) (unat (xHead sb)) (take (unat c) d), xHead := h'\<rparr>) = sb_bytes sb @ take (unat c) d"
proof -
  note w = sb_okD [OF assms(1)]
  let ?n = "unat (xLength sb)" and ?b = "ring_write (pucBuffer sb) (unat (xHead sb)) (take (unat c) d)"
  have room: "sb_count sb + unat c < ?n" using assms(4) w(2) by (simp add: sb_capacity_def)
  obtain h' where h': "prvWriteBytesToBuffer sb d c (xHead sb) = Some (h', sb\<lparr>pucBuffer := ?b\<rparr>)"
      "unat h' = (unat (xHead sb) + unat c) mod ?n"
    using prvWriteBytesToBuffer_ok [OF w(1,3,4) assms(2) _ assms(3)] room by auto
  have hd: "unat (xHead sb) = (unat (xTail sb) + sb_count sb) mod length (pucBuffer sb)"
    using head_from_tail [OF assms(1)] w(1) by simp
  have "unat h' = (unat (xTail sb) + (sb_count sb + unat c)) mod ?n"
    unfolding h'(2) hd w(1) by (simp add: mod_add_left_eq add.assoc)
  note m = set_head [OF assms(1) _ this room, of ?b]
  have "ring ?b (unat (xTail sb)) (sb_count sb + unat c) = sb_bytes sb @ take (unat c) d"
    unfolding hd sb_bytes_def
    using ring_extend [of "unat (xTail sb)" "pucBuffer sb" "sb_count sb" "take (unat c) d"] w room assms(3) by (simp add: min_absorb2)
  then show ?thesis using h'(1) m w(1) by auto
qed

text \<open>Bytes written behind the head leave the queue alone until the head moves.\<close>

lemma write_behind:
  assumes "sb_ok sb" and "sb_count sb + length d \<le> unat (xLength sb)"
  shows "sb_ok (sb\<lparr>pucBuffer := ring_write (pucBuffer sb) (unat (xHead sb)) d\<rparr>)"
    "sb_bytes (sb\<lparr>pucBuffer := ring_write (pucBuffer sb) (unat (xHead sb)) d\<rparr>) = sb_bytes sb"
proof -
  note w = sb_okD [OF assms(1)]
  have hd: "unat (xHead sb) = (unat (xTail sb) + sb_count sb) mod length (pucBuffer sb)"
    using head_from_tail [OF assms(1)] w(1) by simp
  show "sb_ok (sb\<lparr>pucBuffer := ring_write (pucBuffer sb) (unat (xHead sb)) d\<rparr>)"
    using assms(1) by (simp add: sb_ok_def)
  show "sb_bytes (sb\<lparr>pucBuffer := ring_write (pucBuffer sb) (unat (xHead sb)) d\<rparr>) = sb_bytes sb"
    using ring_write_old [of "unat (xTail sb)" "pucBuffer sb" "sb_count sb" d] w assms(2)
    unfolding hd [symmetric] by (simp add: sb_bytes_def sb_count_def)
qed

lemma take_block:
  assumes "sb_ok sb" and "0 < unat c" and "unat c \<le> sb_count sb"
  shows "\<exists>t'. prvReadBytesFromBuffer sb c (xTail sb) = Some (take (unat c) (sb_bytes sb), t')
    \<and> unat t' = (unat (xTail sb) + unat c) mod unat (xLength sb)
    \<and> sb_ok (sb\<lparr>xTail := t'\<rparr>) \<and> sb_bytes (sb\<lparr>xTail := t'\<rparr>) = drop (unat c) (sb_bytes sb)"
proof -
  note w = sb_okD [OF assms(1)]
  have le: "unat c \<le> unat (xLength sb)" using assms(3) sb_count_less [OF assms(1)] by simp
  obtain t' where t': "prvReadBytesFromBuffer sb c (xTail sb) = Some (ring (pucBuffer sb) (unat (xTail sb)) (unat c), t')"
      "unat t' = (unat (xTail sb) + unat c) mod unat (xLength sb)"
    using prvReadBytesFromBuffer_ok [OF w(1,3,5) assms(2) le] by blast
  moreover have "take (unat c) (sb_bytes sb) = ring (pucBuffer sb) (unat (xTail sb)) (unat c)"
    unfolding sb_bytes_def by (rule take_ring [OF assms(3)])
  ultimately show ?thesis using set_tail [OF assms(1) t'(2) assms(3)] by simp
qed

section \<open>Stream buffers\<close>

lemma write_stream:
  assumes "sb_ok sb" and "\<not> is_message_buffer sb" and "unat space \<le> sb_capacity sb - sb_count sb" and "unat n \<le> length d"
  shows "\<exists>k sb'. prvWriteMessageToBuffer sb d n space req = Some (k, sb') \<and> unat k = min (unat n) (unat space)
    \<and> sb_ok sb' \<and> sb_bytes sb' = sb_bytes sb @ take (min (unat n) (unat space)) d
    \<and> (\<exists>b h. sb' = sb\<lparr>pucBuffer := b, xHead := h\<rparr>)"
proof (cases "min n space = 0")
  case True
  then have "min (unat n) (unat space) = 0" by (metis unat_min unat_0)
  moreover have "prvWriteMessageToBuffer sb d n space req = Some (0, sb)"
    unfolding prvWriteMessageToBuffer_def Let_def using True assms(2) by simp
  moreover have "\<exists>b h. sb = sb\<lparr>pucBuffer := b, xHead := h\<rparr>"
    by (rule exI [of _ "pucBuffer sb"], rule exI [of _ "xHead sb"]) simp
  ultimately show ?thesis using assms(1) by simp
next
  case False
  let ?c = "min n space"
  have c: "unat ?c = min (unat n) (unat space)" by (rule unat_min)
  have pos: "0 < unat ?c" using False by (simp add: unat_gt_0)
  have le: "unat ?c \<le> length d" using c assms(4) by simp
  have room: "sb_count sb + unat ?c \<le> sb_capacity sb"
    using c assms(3) sb_count_le_capacity [OF assms(1)] by simp
  obtain h' where h': "prvWriteBytesToBuffer sb d ?c (xHead sb) = Some (h', sb\<lparr>pucBuffer := ring_write (pucBuffer sb) (unat (xHead sb)) (take (unat ?c) d)\<rparr>)"
     "sb_ok (sb\<lparr>pucBuffer := ring_write (pucBuffer sb) (unat (xHead sb)) (take (unat ?c) d), xHead := h'\<rparr>)"
     "sb_bytes (sb\<lparr>pucBuffer := ring_write (pucBuffer sb) (unat (xHead sb)) (take (unat ?c) d), xHead := h'\<rparr>) = sb_bytes sb @ take (unat ?c) d"
    using append_block [OF assms(1) pos le room] by blast
  have "prvWriteMessageToBuffer sb d n space req
      = Some (?c, sb\<lparr>pucBuffer := ring_write (pucBuffer sb) (unat (xHead sb)) (take (unat ?c) d), xHead := h'\<rparr>)"
    unfolding prvWriteMessageToBuffer_def Let_def using False h'(1) assms(2) by simp
  then show ?thesis using h'(2,3) c by auto
qed

lemma read_stream:
  assumes "sb_ok sb" and "\<not> is_message_buffer sb" and "unat avail = sb_count sb"
  shows "\<exists>sb'. prvReadMessageFromBuffer sb n avail = Some (take (unat n) (sb_bytes sb), sb')
    \<and> sb_ok sb' \<and> sb_bytes sb' = drop (unat n) (sb_bytes sb) \<and> (\<exists>t. sb' = sb\<lparr>xTail := t\<rparr>)"
proof -
  have same: "sb = sb\<lparr>xTail := xTail sb\<rparr>" by simp
  let ?c = "min n avail"
  have c: "unat ?c = min (unat n) (sb_count sb)" using assms(3) by (simp add: unat_min)
  show ?thesis
  proof (cases "?c = 0")
    case True
    then have "unat n = 0 \<or> sb_count sb = 0" using c by (metis min_def unat_0)
    then have "take (unat n) (sb_bytes sb) = []" "drop (unat n) (sb_bytes sb) = sb_bytes sb"
      by (auto simp: sb_bytes_def)
    moreover have "prvReadMessageFromBuffer sb n avail = Some ([], sb)"
      unfolding prvReadMessageFromBuffer_def Let_def using True assms(2) by simp
    ultimately show ?thesis using assms(1) same by (metis)
  next
    case False
    then have pos: "0 < unat ?c" by (simp add: unat_gt_0)
    have le: "unat ?c \<le> sb_count sb" using c by simp
    obtain t' where t': "prvReadBytesFromBuffer sb ?c (xTail sb) = Some (take (unat ?c) (sb_bytes sb), t')"
       "sb_ok (sb\<lparr>xTail := t'\<rparr>)" "sb_bytes (sb\<lparr>xTail := t'\<rparr>) = drop (unat ?c) (sb_bytes sb)"
      using take_block [OF assms(1) pos le] by blast
    have "take (unat ?c) (sb_bytes sb) = take (unat n) (sb_bytes sb)" "drop (unat ?c) (sb_bytes sb) = drop (unat n) (sb_bytes sb)"
      using c by (auto simp: min_def)
    moreover have "prvReadMessageFromBuffer sb n avail = Some (take (unat ?c) (sb_bytes sb), sb\<lparr>xTail := t'\<rparr>)"
      unfolding prvReadMessageFromBuffer_def Let_def using False t'(1) assms(2) by simp
    ultimately show ?thesis using t'(2,3) by auto
  qed
qed
text \<open>Waking the other side changes no queue.\<close>

definition woken :: "bool \<Rightarrow> u32 \<Rightarrow> u32 list" where
  "woken b t = (if b \<and> t \<noteq> 0 then [t] else [])"

lemma send_completed:
  "prvSEND_COMPLETED sb = sb\<lparr>notified := notified sb @ woken True (xTaskWaitingToReceive sb), xTaskWaitingToReceive := 0\<rparr>"
  "prvRECEIVE_COMPLETED sb = sb\<lparr>notified := notified sb @ woken True (xTaskWaitingToSend sb), xTaskWaitingToSend := 0\<rparr>"
  by (simp_all add: prvSEND_COMPLETED_def prvRECEIVE_COMPLETED_def woken_def)

lemma completed_fields [simp]:
  "sb_ok (prvSEND_COMPLETED sb) = sb_ok sb" "sb_bytes (prvSEND_COMPLETED sb) = sb_bytes sb"
  "xLength (prvSEND_COMPLETED sb) = xLength sb" "ucFlags (prvSEND_COMPLETED sb) = ucFlags sb"
  "xTaskWaitingToSend (prvSEND_COMPLETED sb) = xTaskWaitingToSend sb"
  "sb_ok (prvRECEIVE_COMPLETED sb) = sb_ok sb" "sb_bytes (prvRECEIVE_COMPLETED sb) = sb_bytes sb"
  "xLength (prvRECEIVE_COMPLETED sb) = xLength sb" "ucFlags (prvRECEIVE_COMPLETED sb) = ucFlags sb"
  "xTaskWaitingToReceive (prvRECEIVE_COMPLETED sb) = xTaskWaitingToReceive sb"
  by (simp_all add: send_completed)

text \<open>The tail of both sends.\<close>

definition send_finish :: "u32 \<Rightarrow> StreamBuffer_t \<Rightarrow> StreamBuffer_t" where
  "send_finish k sb = (if k > 0 then if prvBytesInBuffer sb \<ge> xTriggerLevelBytes sb then prvSEND_COMPLETED sb else sb else sb)"

lemma send_finish_fields [simp]:
  "sb_ok (send_finish k sb) = sb_ok sb" "sb_bytes (send_finish k sb) = sb_bytes sb"
  "xLength (send_finish k sb) = xLength sb" "ucFlags (send_finish k sb) = ucFlags sb"
  "xTaskWaitingToSend (send_finish k sb) = xTaskWaitingToSend sb"
  by (simp_all add: send_finish_def)

lemma notified_send_finish:
  "sb_ok sb \<Longrightarrow> notified (send_finish k sb)
     = notified sb @ woken (0 < unat k \<and> unat (xTriggerLevelBytes sb) \<le> sb_count sb) (xTaskWaitingToReceive sb)"
  by (auto simp: send_finish_def send_completed woken_def word_le_nat_alt unat_prvBytesInBuffer word_neq_0_conv unat_gt_0)

lemma SendFromISR_eq:
  "xStreamBufferSendFromISR d n sb =
     map_option (\<lambda>(k, sb). (k, send_finish k sb))
       (prvWriteMessageToBuffer sb d n (xStreamBufferSpacesAvailable sb)
         (if is_message_buffer sb then n + sbBYTES_TO_STORE_MESSAGE_LENGTH else n))"
  unfolding xStreamBufferSendFromISR_def Let_def send_finish_def
  by (cases "prvWriteMessageToBuffer sb d n (xStreamBufferSpacesAvailable sb)
         (if is_message_buffer sb then n + sbBYTES_TO_STORE_MESSAGE_LENGTH else n)") (simp_all split: prod.split)

lemma Send_no_wait_eq:
  "xStreamBufferSend blocked me d n 0 sb =
     (if is_message_buffer sb \<and> \<not> n + sbBYTES_TO_STORE_MESSAGE_LENGTH > n then None
      else map_option (\<lambda>(k, sb). (k, send_finish k sb))
       (prvWriteMessageToBuffer sb d n (xStreamBufferSpacesAvailable sb)
         (if is_message_buffer sb then n + sbBYTES_TO_STORE_MESSAGE_LENGTH else min n (xLength sb - 1))))"
proof -
  define req where "req = (if is_message_buffer sb then n + sbBYTES_TO_STORE_MESSAGE_LENGTH else min n (xLength sb - 1))"
  have m: "(if n > xLength sb - 1 then xLength sb - 1 else n) = min n (xLength sb - 1)" by auto
  show ?thesis
    unfolding req_def [symmetric]
    by (cases "prvWriteMessageToBuffer sb d n (xStreamBufferSpacesAvailable sb) req")
      (auto simp: xStreamBufferSend_def Let_def send_finish_def configASSERT_def m req_def cong: if_cong split: prod.splits)
qed

text \<open>A stream buffer takes the longest prefix that fits and never fails.\<close>

lemma SendFromISR_stream:
  assumes "sb_ok sb" and "\<not> is_message_buffer sb" and "unat n \<le> length d"
  shows "\<exists>k sb'. xStreamBufferSendFromISR d n sb = Some (k, sb') \<and> unat k = min (unat n) (sb_capacity sb - sb_count sb)
    \<and> sb_ok sb' \<and> sb_bytes sb' = sb_bytes sb @ take (min (unat n) (sb_capacity sb - sb_count sb)) d
    \<and> xLength sb' = xLength sb \<and> ucFlags sb' = ucFlags sb
    \<and> notified sb' = notified sb @ woken (0 < unat k \<and> unat (xTriggerLevelBytes sb) \<le> sb_count sb') (xTaskWaitingToReceive sb)"
proof -
  note sp = unat_xStreamBufferSpacesAvailable [OF assms(1)]
  obtain k sb1 where w: "prvWriteMessageToBuffer sb d n (xStreamBufferSpacesAvailable sb) n = Some (k, sb1)"
      "unat k = min (unat n) (sb_capacity sb - sb_count sb)" "sb_ok sb1"
      "sb_bytes sb1 = sb_bytes sb @ take (min (unat n) (sb_capacity sb - sb_count sb)) d"
      "\<exists>b h. sb1 = sb\<lparr>pucBuffer := b, xHead := h\<rparr>"
    using write_stream [OF assms(1,2) _ assms(3), of "xStreamBufferSpacesAvailable sb" n] unfolding sp by auto
  then have f: "xLength sb1 = xLength sb" "ucFlags sb1 = ucFlags sb" "notified sb1 = notified sb"
      "xTriggerLevelBytes sb1 = xTriggerLevelBytes sb" "xTaskWaitingToReceive sb1 = xTaskWaitingToReceive sb"
    by auto
  have "xStreamBufferSendFromISR d n sb = Some (k, send_finish k sb1)"
    using w(1) assms(2) by (simp add: SendFromISR_eq)
  moreover have "sb_count (send_finish k sb1) = sb_count sb1" using send_finish_fields(2) [of k sb1] by (metis length_sb_bytes)
  ultimately show ?thesis using w(2-4) f notified_send_finish [OF w(3), of k] by simp
qed

lemma ReceiveFromISR_stream:
  assumes "sb_ok sb" and "\<not> is_message_buffer sb"
  shows "\<exists>sb'. xStreamBufferReceiveFromISR n sb = Some (take (unat n) (sb_bytes sb), sb')
    \<and> sb_ok sb' \<and> sb_bytes sb' = drop (unat n) (sb_bytes sb) \<and> xLength sb' = xLength sb \<and> ucFlags sb' = ucFlags sb
    \<and> notified sb' = notified sb @ woken (take (unat n) (sb_bytes sb) \<noteq> []) (xTaskWaitingToSend sb)"
proof (cases "prvBytesInBuffer sb > 0")
  case True
  obtain sb1 where r: "prvReadMessageFromBuffer sb n (prvBytesInBuffer sb) = Some (take (unat n) (sb_bytes sb), sb1)"
      "sb_ok sb1" "sb_bytes sb1 = drop (unat n) (sb_bytes sb)" "\<exists>t. sb1 = sb\<lparr>xTail := t\<rparr>"
    using read_stream [OF assms unat_prvBytesInBuffer [OF assms(1)]] by blast
  then show ?thesis
    unfolding xStreamBufferReceiveFromISR_def Let_def using True assms(2) by (auto simp: send_completed woken_def)
next
  case False
  then have "sb_count sb = 0" using unat_prvBytesInBuffer [OF assms(1)] by (simp add: word_less_nat_alt)
  then have "sb_bytes sb = []" by (simp add: sb_bytes_def)
  then show ?thesis
    unfolding xStreamBufferReceiveFromISR_def Let_def using False assms by (simp add: woken_def)
qed

definition sb_push :: "u8 list \<Rightarrow> StreamBuffer_t \<Rightarrow> (nat \<times> StreamBuffer_t) option" where
  "sb_push d sb = map_option (\<lambda>(k, sb). (unat k, sb)) (xStreamBufferSendFromISR d (of_nat (length d)) sb)"

definition sb_pop :: "nat \<Rightarrow> StreamBuffer_t \<Rightarrow> (u8 list \<times> StreamBuffer_t) option" where
  "sb_pop n sb = xStreamBufferReceiveFromISR (of_nat n) sb"

interpretation stream: byte_queue "\<lambda>sb. sb_ok sb \<and> \<not> is_message_buffer sb" sb_bytes sb_capacity sb_push sb_pop "2 ^ 32"
proof unfold_locales
  fix sb :: StreamBuffer_t and d :: "u8 list"
  assume i: "sb_ok sb \<and> \<not> is_message_buffer sb" and l: "length d < 2 ^ 32"
  have u: "unat (of_nat (length d) :: u32) = length d" using l by (rule unat_of_nat_u32)
  then show "\<exists>s'. sb_push d sb = Some (min (length d) (sb_capacity sb - length (sb_bytes sb)), s') \<and>
       (sb_ok s' \<and> \<not> is_message_buffer s') \<and> sb_capacity s' = sb_capacity sb \<and>
       sb_bytes s' = sb_bytes sb @ take (min (length d) (sb_capacity sb - length (sb_bytes sb))) d"
    using SendFromISR_stream [of sb "of_nat (length d)" d] i
    by (auto simp: sb_push_def sb_capacity_def)
next
  fix sb :: StreamBuffer_t and n :: nat
  assume i: "sb_ok sb \<and> \<not> is_message_buffer sb" and l: "n < 2 ^ 32"
  have u: "unat (of_nat n :: u32) = n" using l by (rule unat_of_nat_u32)
  then show "\<exists>s'. sb_pop n sb = Some (take n (sb_bytes sb), s') \<and> (sb_ok s' \<and> \<not> is_message_buffer s') \<and>
       sb_capacity s' = sb_capacity sb \<and> sb_bytes s' = drop n (sb_bytes sb)"
    using ReceiveFromISR_stream [of sb "of_nat n"] i by (auto simp: sb_pop_def sb_capacity_def)
next
  fix sb assume "sb_ok sb \<and> \<not> is_message_buffer sb"
  then show "length (sb_bytes sb) \<le> sb_capacity sb" using sb_count_le_capacity by simp
qed
section \<open>Message buffers\<close>

lemma length_bytes_of [simp]: "length (bytes_of w) = 4"
  by (simp add: bytes_of_def)

lemma of_bytes_bytes_of [simp]: "of_bytes (bytes_of w) = w"
  apply (rule bit_word_eqI)
  apply (auto simp: of_bytes_def bytes_of_def bit_or_iff bit_push_bit_iff bit_ucast_iff bit_drop_bit_eq not_less)
  subgoal for n by (cases "24 \<le> n") auto
  done

definition msg_frame :: "u8 list \<Rightarrow> u8 list" where
  "msg_frame m = bytes_of (of_nat (length m)) @ m"

text \<open>The queue of bytes is the concatenation of the frames of the messages held.\<close>

definition holds :: "StreamBuffer_t \<Rightarrow> u8 list list \<Rightarrow> bool" where
  "holds sb ms \<longleftrightarrow> sb_ok sb \<and> is_message_buffer sb \<and> sb_bytes sb = concat (map msg_frame ms) \<and> (\<forall>m \<in> set ms. m \<noteq> [])"

lemma holds_fields [simp]:
  "holds (sb\<lparr>xTaskWaitingToReceive := a\<rparr>) ms = holds sb ms" "holds (sb\<lparr>xTaskWaitingToSend := a\<rparr>) ms = holds sb ms"
  "holds (sb\<lparr>notified := l\<rparr>) ms = holds sb ms"
  "holds (prvSEND_COMPLETED sb) ms = holds sb ms" "holds (prvRECEIVE_COMPLETED sb) ms = holds sb ms"
  "holds (send_finish k sb) ms = holds sb ms"
  by (simp_all add: holds_def)

lemma unat_header [simp]: "unat sbBYTES_TO_STORE_MESSAGE_LENGTH = 4"
  by (simp add: sbBYTES_TO_STORE_MESSAGE_LENGTH_def)

lemma write_ignores_head:
  assumes "prvWriteBytesToBuffer (sb\<lparr>xHead := x\<rparr>) d c h = Some (h', s')"
    and "length (pucBuffer sb) = unat (xLength sb)" and "unat (xLength sb) < 2 ^ 31" and "unat h < unat (xLength sb)"
    and "0 < unat c" and "unat c \<le> unat (xLength sb)" and "unat c \<le> length d"
  shows "prvWriteBytesToBuffer sb d c h = Some (h', sb\<lparr>pucBuffer := ring_write (pucBuffer sb) (unat h) (take (unat c) d)\<rparr>)"
  using assms(1) prvWriteBytesToBuffer_ok [of sb h c d, OF assms(2-7)]
    prvWriteBytesToBuffer_ok [of "sb\<lparr>xHead := x\<rparr>" h c d] assms(2-7)
  by (auto simp: word_unat_eq_iff)

lemma write_message:
  assumes "holds sb ms" and "length d < 2 ^ 31" and "unat n = length d" and "unat space = sb_capacity sb - sb_count sb"
    and "unat req = length d + 4"
  shows "\<exists>sb'. prvWriteMessageToBuffer sb d n space req =
      Some (if d \<noteq> [] \<and> sb_count sb + 4 + length d \<le> sb_capacity sb then n else 0, sb')
    \<and> holds sb' (ms @ (if d \<noteq> [] \<and> sb_count sb + 4 + length d \<le> sb_capacity sb then [d] else []))
    \<and> (\<exists>b h. sb' = sb\<lparr>pucBuffer := b, xHead := h\<rparr>)"
proof -
  have ok: "sb_ok sb" and mb: "is_message_buffer sb" using assms(1) by (simp_all add: holds_def)
  note w = sb_okD [OF ok]
  have same: "\<exists>b h. sb = sb\<lparr>pucBuffer := b, xHead := h\<rparr>"
    by (rule exI [of _ "pucBuffer sb"], rule exI [of _ "xHead sb"]) simp
  have cap: "sb_count sb \<le> sb_capacity sb" by (rule sb_count_le_capacity [OF ok])
  have room: "req \<le> space \<longleftrightarrow> sb_count sb + 4 + length d \<le> sb_capacity sb"
    using assms(4,5) cap by (auto simp: word_le_nat_alt)
  show ?thesis
  proof (cases "req \<le> space")
    case False
    then show ?thesis using room mb assms(1) same
      by (auto simp: prvWriteMessageToBuffer_def Let_def)
  next
    case True
    then have fits: "sb_count sb + 4 + length d \<le> sb_capacity sb" using room by simp
    let ?b1 = "ring_write (pucBuffer sb) (unat (xHead sb)) (bytes_of n)"
    have pos: "0 < unat sbBYTES_TO_STORE_MESSAGE_LENGTH" "unat sbBYTES_TO_STORE_MESSAGE_LENGTH \<le> length (bytes_of n)"
      "sb_count sb + unat sbBYTES_TO_STORE_MESSAGE_LENGTH \<le> sb_capacity sb" using fits by simp_all
    have tk: "take (unat sbBYTES_TO_STORE_MESSAGE_LENGTH) (bytes_of n) = bytes_of n" by simp
    obtain h1 where h1: "prvWriteBytesToBuffer sb (bytes_of n) sbBYTES_TO_STORE_MESSAGE_LENGTH (xHead sb) = Some (h1, sb\<lparr>pucBuffer := ?b1\<rparr>)"
        "sb_ok (sb\<lparr>pucBuffer := ?b1, xHead := h1\<rparr>)"
        "sb_bytes (sb\<lparr>pucBuffer := ?b1, xHead := h1\<rparr>) = sb_bytes sb @ bytes_of n"
      using append_block [OF ok pos, unfolded tk] by blast
    show ?thesis
    proof (cases "n = 0")
      case True
      have d: "d = []" using assms(3) True by simp
      have "sb_count sb + length (bytes_of n) \<le> unat (xLength sb)" using fits w(2) by (simp add: sb_capacity_def)
      note b = write_behind [OF ok this]
      have "holds (sb\<lparr>pucBuffer := ?b1\<rparr>) ms" using b assms(1) by (simp add: holds_def)
      moreover have "prvWriteMessageToBuffer sb d n space req = Some (0, sb\<lparr>pucBuffer := ?b1\<rparr>)"
        unfolding prvWriteMessageToBuffer_def Let_def using True h1(1) mb \<open>req \<le> space\<close> by simp
      moreover have "\<exists>b h. sb\<lparr>pucBuffer := ?b1\<rparr> = sb\<lparr>pucBuffer := b, xHead := h\<rparr>"
        by (rule exI [of _ ?b1], rule exI [of _ "xHead sb"]) simp
      ultimately show ?thesis using d by simp
    next
      case False
      then have pos2: "0 < unat n" by (simp add: unat_gt_0)
      have d: "d \<noteq> []" using pos2 assms(3) by auto
      let ?s1 = "sb\<lparr>pucBuffer := ?b1, xHead := h1\<rparr>" and ?b2 = "ring_write ?b1 (unat h1) d"
      have c1: "sb_count ?s1 = sb_count sb + 4" using arg_cong [OF h1(3), of length] by simp
      have fit2: "sb_count ?s1 + unat n \<le> sb_capacity ?s1" using c1 fits assms(3) by (simp add: sb_capacity_def)
      have tk2: "take (unat n) d = d" using assms(3) by simp
      obtain h2 where h2: "prvWriteBytesToBuffer ?s1 d n h1 = Some (h2, ?s1\<lparr>pucBuffer := ?b2\<rparr>)"
          "sb_ok (?s1\<lparr>pucBuffer := ?b2, xHead := h2\<rparr>)"
          "sb_bytes (?s1\<lparr>pucBuffer := ?b2, xHead := h2\<rparr>) = sb_bytes ?s1 @ d"
        using append_block [OF h1(2) pos2 _ fit2, of d] assms(3) unfolding tk2 by auto
      have h2': "prvWriteBytesToBuffer (sb\<lparr>pucBuffer := ?b1\<rparr>) d n h1 = Some (h2, sb\<lparr>pucBuffer := ?b2\<rparr>)"
        using write_ignores_head [where sb = "sb\<lparr>pucBuffer := ?b1\<rparr>" and x = h1 and d = d and c = n and h = h1] h2(1)
          sb_okD [OF h1(2)] pos2 fit2 assms(3) tk2 by (simp add: sb_capacity_def)
      have "prvWriteMessageToBuffer sb d n space req = Some (n, sb\<lparr>pucBuffer := ?b2, xHead := h2\<rparr>)"
        unfolding prvWriteMessageToBuffer_def Let_def using False h1(1) h2' mb \<open>req \<le> space\<close> by simp
      moreover have "holds (sb\<lparr>pucBuffer := ?b2, xHead := h2\<rparr>) (ms @ [d])"
      proof -
        have "n = of_nat (length d)" using assms(2,3) by (simp add: word_unat_eq_iff unat_of_nat_u32)
        then show ?thesis using h2(2,3) h1(3) assms(1) d by (auto simp: holds_def msg_frame_def)
      qed
      ultimately show ?thesis using d fits by auto
    qed
  qed
qed

text \<open>A whole message goes in behind those held, or nothing does.\<close>

lemma SendFromISR_message:
  assumes "holds sb ms" and "length d < 2 ^ 31"
  shows "\<exists>sb'. xStreamBufferSendFromISR d (of_nat (length d)) sb =
      Some (if d \<noteq> [] \<and> sb_count sb + 4 + length d \<le> sb_capacity sb then of_nat (length d) else 0, sb')
    \<and> holds sb' (ms @ (if d \<noteq> [] \<and> sb_count sb + 4 + length d \<le> sb_capacity sb then [d] else []))
    \<and> xLength sb' = xLength sb"
proof -
  have ok: "sb_ok sb" and mb: "is_message_buffer sb" using assms(1) by (simp_all add: holds_def)
  have n: "unat (of_nat (length d) :: u32) = length d" using assms(2) by (simp add: unat_of_nat_u32)
  have req: "unat (of_nat (length d) + sbBYTES_TO_STORE_MESSAGE_LENGTH :: u32) = length d + 4"
    using unat_add_u32 [of "of_nat (length d)" sbBYTES_TO_STORE_MESSAGE_LENGTH] n assms(2) by simp
  show ?thesis
    using write_message [OF assms n unat_xStreamBufferSpacesAvailable [OF ok] req] mb
    by (auto simp: SendFromISR_eq)
qed

lemma concat_frames_Cons:
  "concat (map msg_frame (m # ms)) = bytes_of (of_nat (length m)) @ m @ concat (map msg_frame ms)"
  by (simp add: msg_frame_def)

lemma read_ignores_tail:
  "prvReadBytesFromBuffer (sb\<lparr>xTail := x\<rparr>) c t = prvReadBytesFromBuffer sb c t"
  by (simp add: prvReadBytesFromBuffer_def cong: if_cong)

text \<open>
  The first message is delivered whole to a reader with room for it, and stays where it is for a reader
  without.
\<close>

lemma read_message:
  assumes "holds sb (m # ms)" and "unat avail = sb_count sb"
  shows "\<exists>sb'. prvReadMessageFromBuffer sb n avail = Some (if length m \<le> unat n then m else [], sb')
    \<and> holds sb' (if length m \<le> unat n then ms else m # ms) \<and> (\<exists>t. sb' = sb\<lparr>xTail := t\<rparr>)"
proof -
  have ok: "sb_ok sb" and mb: "is_message_buffer sb" and m: "m \<noteq> []" and ms: "\<forall>m \<in> set ms. m \<noteq> []"
    and bs: "sb_bytes sb = bytes_of (of_nat (length m)) @ m @ concat (map msg_frame ms)"
    using assms(1) concat_frames_Cons by (simp_all add: holds_def)
  note w = sb_okD [OF ok]
  let ?L = "of_nat (length m) :: u32"
  have count: "sb_count sb = 4 + length m + length (concat (map msg_frame ms))"
    using arg_cong [OF bs, of length] by simp
  have lm: "length m < 2 ^ 31" using count sb_count_less [OF ok] w(3) by simp
  have L: "unat ?L = length m" using lm by (simp add: unat_of_nat_u32)
  have same: "sb = sb\<lparr>xTail := xTail sb\<rparr>" by simp
  obtain t1 where t1: "prvReadBytesFromBuffer sb sbBYTES_TO_STORE_MESSAGE_LENGTH (xTail sb) = Some (bytes_of ?L, t1)"
      "sb_ok (sb\<lparr>xTail := t1\<rparr>)" "sb_bytes (sb\<lparr>xTail := t1\<rparr>) = m @ concat (map msg_frame ms)"
    using take_block [OF ok, of sbBYTES_TO_STORE_MESSAGE_LENGTH] bs count by auto
  have av: "unat (avail - sbBYTES_TO_STORE_MESSAGE_LENGTH) = sb_count sb - 4"
    using unat_sub_u32 [of sbBYTES_TO_STORE_MESSAGE_LENGTH avail] assms(2) count by (simp add: word_le_nat_alt)
  show ?thesis
  proof (cases "length m \<le> unat n")
    case False
    then have "?L > n" using L by (simp add: word_less_nat_alt)
    then have "prvReadMessageFromBuffer sb n avail = Some ([], sb)"
      unfolding prvReadMessageFromBuffer_def Let_def using mb t1(1) by simp
    moreover have "\<exists>t. sb = sb\<lparr>xTail := t\<rparr>" using same by (rule exI)
    ultimately show ?thesis using False assms(1) by simp
  next
    case True
    then have le: "\<not> ?L > n" using L by (simp add: word_less_nat_alt)
    have "?L \<le> avail - sbBYTES_TO_STORE_MESSAGE_LENGTH" using av L count by (simp add: word_le_nat_alt)
    then have mn: "min ?L (avail - sbBYTES_TO_STORE_MESSAGE_LENGTH) = ?L" by simp
    let ?s1 = "sb\<lparr>xTail := t1\<rparr>"
    have c1: "sb_count ?s1 = length m + length (concat (map msg_frame ms))"
      using arg_cong [OF t1(3), of length] by simp
    obtain t2 where t2: "prvReadBytesFromBuffer ?s1 ?L t1 = Some (m, t2)" "sb_ok (?s1\<lparr>xTail := t2\<rparr>)"
        "sb_bytes (?s1\<lparr>xTail := t2\<rparr>) = concat (map msg_frame ms)"
      using take_block [OF t1(2), of ?L] t1(3) L m c1 by auto
    have ne: "?L \<noteq> 0" using L m by (metis length_0_conv unat_0)
    have "prvReadMessageFromBuffer sb n avail = Some (m, sb\<lparr>xTail := t2\<rparr>)"
      unfolding prvReadMessageFromBuffer_def Let_def
      using mb t1(1) t2(1) [unfolded read_ignores_tail] le mn ne by simp
    then show ?thesis using True t2(2,3) ms mb by (auto simp: holds_def)
  qed
qed

lemma holds_empty: "holds sb ms \<Longrightarrow> (ms = []) = (sb_count sb = 0)"
  by (cases ms) (auto simp: holds_def msg_frame_def dest: arg_cong [of "sb_bytes sb" _ length])

lemma ReceiveFromISR_message:
  assumes "holds sb ms"
  shows "\<exists>sb'. xStreamBufferReceiveFromISR n sb =
      Some (case ms of [] \<Rightarrow> [] | m # _ \<Rightarrow> if length m \<le> unat n then m else [], sb')
    \<and> holds sb' (case ms of [] \<Rightarrow> [] | m # ms' \<Rightarrow> if length m \<le> unat n then ms' else ms) \<and> xLength sb' = xLength sb"
proof (cases ms)
  case Nil
  have ok: "sb_ok sb" and mb: "is_message_buffer sb" using assms by (simp_all add: holds_def)
  have "prvBytesInBuffer sb = 0" using holds_empty [OF assms] Nil unat_prvBytesInBuffer [OF ok] by (simp add: unat_eq_0)
  then show ?thesis using Nil assms mb by (simp add: xStreamBufferReceiveFromISR_def Let_def)
next
  case (Cons m ms')
  have ok: "sb_ok sb" and mb: "is_message_buffer sb" using assms by (simp_all add: holds_def)
  note u = unat_prvBytesInBuffer [OF ok]
  have "length (concat (map msg_frame ms)) > 4" using assms Cons by (auto simp: holds_def msg_frame_def)
  then have "sb_count sb > 4" using assms by (metis holds_def length_sb_bytes)
  then have gt: "prvBytesInBuffer sb > sbBYTES_TO_STORE_MESSAGE_LENGTH" using u by (simp add: word_less_nat_alt)
  obtain sb' where sb': "prvReadMessageFromBuffer sb n (prvBytesInBuffer sb) = Some (if length m \<le> unat n then m else [], sb')"
     "holds sb' (if length m \<le> unat n then ms' else m # ms')" "\<exists>t. sb' = sb\<lparr>xTail := t\<rparr>"
    using read_message [OF assms [unfolded Cons] u] by blast
  have l: "xLength sb' = xLength sb" using sb'(3) by auto
  show ?thesis unfolding xStreamBufferReceiveFromISR_def Let_def using gt mb sb'(1,2) l Cons
    by (auto split: if_splits)
qed

section \<open>What is promised\<close>

text \<open>
  C11: A stream buffer transports bytes faithfully: whatever the interleaving of sends and receives on a
  buffer that starts empty, the bytes delivered are a prefix of the bytes accepted, what is missing is
  still in the buffer and within its capacity, and the next send and the next receive return.
\<close>

theorem stream_buffer_transports:
  assumes "transport sb_push sb_pop (2 ^ 32) sb0 sb sent got"
    and "sb_ok sb0" and "\<not> is_message_buffer sb0" and "xStreamBufferIsEmpty sb0"
  shows "sent = got @ sb_bytes sb \<and> sb_count sb < unat (xLength sb0)
    \<and> (\<forall>d. length d < 2 ^ 32 \<longrightarrow> (\<exists>r. sb_push d sb = Some r)) \<and> (\<forall>n < 2 ^ 32. \<exists>r. sb_pop n sb = Some r)"
proof -
  have i: "sb_ok sb0 \<and> \<not> is_message_buffer sb0" using assms(2,3) by simp
  have "sb_bytes sb0 = []" using assms(2,4) sb_okD(2) [OF assms(2)]
    by (simp add: sb_bytes_def sb_count_def xStreamBufferIsEmpty_def)
  then have "sent = got @ sb_bytes sb" "sb_ok sb" "sb_capacity sb = sb_capacity sb0"
    using stream.transport_inv [OF assms(1) i] by auto
  then show ?thesis
    using sb_count_le_capacity [of sb] sb_okD(2) [OF assms(2)]
      stream.transport_live [OF assms(1) i] by (fastforce simp: sb_capacity_def)
qed

definition stream8 :: StreamBuffer_t where
  "stream8 = prvInitialiseNewStreamBuffer 8 1 0"

lemma stream8_ok: "sb_ok stream8" "\<not> is_message_buffer stream8" "xStreamBufferIsEmpty stream8"
  "sb_capacity stream8 = 7" "sb_count stream8 = 0"
  by (simp_all add: stream8_def prvInitialiseNewStreamBuffer_def sb_ok_def xStreamBufferIsEmpty_def
      sbFLAGS_IS_MESSAGE_BUFFER_def sb_capacity_def sb_count_def)

lemma stream_buffer_transports_witness:
  "\<exists>sb. transport sb_push sb_pop (2 ^ 32) stream8 sb [10, 20, 30] [] \<and> [10, 20, 30] = [] @ sb_bytes sb \<and> (\<exists>r. sb_pop 2 sb = Some r)"
proof -
  have i: "sb_ok stream8 \<and> \<not> is_message_buffer stream8" using stream8_ok by simp
  obtain s1 where s1: "sb_push [10, 20, 30] stream8 = Some (3, s1)"
    using stream.push_law [OF i, of "[10, 20, 30]"] stream8_ok by auto
  have "transport sb_push sb_pop (2 ^ 32) stream8 stream8 [] []" by (rule transport_start)
  from transport_push [OF this _ s1]
  have t: "transport sb_push sb_pop (2 ^ 32) stream8 s1 [10, 20, 30] []" by simp
  with stream_buffer_transports [OF t stream8_ok(1-3)] show ?thesis by auto
qed

text \<open>
  C25: A message buffer is a queue of whole messages. A send that has room for the message and its
  length word appends it and reports its length; without room, or for an empty message, it reports 0
  and the queue is as before. A receive delivers the oldest message whole when the reader's buffer is
  long enough, and otherwise delivers nothing and leaves the message at the front.
\<close>

theorem message_buffer_fifo:
  assumes "holds sb ms" and "length d < 2 ^ 31"
  shows "\<exists>s1 s2. xStreamBufferSendFromISR d (of_nat (length d)) sb =
        Some (if d \<noteq> [] \<and> sb_count sb + 4 + length d \<le> sb_capacity sb then of_nat (length d) else 0, s1)
    \<and> holds s1 (ms @ (if d \<noteq> [] \<and> sb_count sb + 4 + length d \<le> sb_capacity sb then [d] else []))
    \<and> xStreamBufferReceiveFromISR n sb =
        Some (case ms of [] \<Rightarrow> [] | m # _ \<Rightarrow> if length m \<le> unat n then m else [], s2)
    \<and> holds s2 (case ms of [] \<Rightarrow> [] | m # ms' \<Rightarrow> if length m \<le> unat n then ms' else ms)"
  using SendFromISR_message [OF assms] ReceiveFromISR_message [OF assms(1), of n] by blast

definition messages20 :: StreamBuffer_t where
  "messages20 = prvInitialiseNewStreamBuffer 20 1 sbFLAGS_IS_MESSAGE_BUFFER"

lemma messages20_holds: "holds messages20 []" "sb_capacity messages20 = 19" "sb_count messages20 = 0"
  by (simp_all add: messages20_def prvInitialiseNewStreamBuffer_def holds_def sb_ok_def sb_bytes_def sb_count_def
      sbFLAGS_IS_MESSAGE_BUFFER_def sb_capacity_def)

lemma message_buffer_fifo_witness:
  "\<exists>s1 s2. xStreamBufferSendFromISR [7, 8, 9] 3 messages20 = Some (3, s1) \<and> holds s1 [[7, 8, 9]]
    \<and> xStreamBufferReceiveFromISR 2 s1 = Some ([], s2) \<and> holds s2 [[7, 8, 9]]"
proof -
  obtain s1 where s1: "xStreamBufferSendFromISR [7, 8, 9] 3 messages20 = Some (3, s1)" "holds s1 [[7, 8, 9]]"
    using message_buffer_fifo [OF messages20_holds(1), of "[7, 8, 9]"] messages20_holds by auto
  then show ?thesis using message_buffer_fifo [OF s1(2), of "[]" 2] by auto
qed

lemma fresh_buffer:
  assumes "1 < unat n" and "unat n < 2 ^ 31"
  shows "sb_ok (prvInitialiseNewStreamBuffer n t f)" "sb_bytes (prvInitialiseNewStreamBuffer n t f) = []"
    "sb_capacity (prvInitialiseNewStreamBuffer n t f) = unat n - 1"
  using assms by (simp_all add: prvInitialiseNewStreamBuffer_def sb_ok_def sb_bytes_def sb_count_def sb_capacity_def word_less_nat_alt)

text \<open>
  C35: Creating a stream or message buffer takes one block from the heap: when it succeeds the new buffer
  is well formed and empty and its capacity is the size asked for, so the extra byte that keeps a full
  buffer apart from an empty one is there; a size that would overflow is refused without a call of the
  allocator. Resetting a buffer refuses while a task waits on it, and otherwise empties it and keeps
  size, kind and trigger level.
\<close>

theorem stream_buffer_create_reset:
  assumes "heap_ok h bs" and "(if msg then 4 else 0) < unat n" and "unat t \<le> unat n"
  shows "(2 ^ 32 \<le> unat n + 33 \<longrightarrow> xStreamBufferGenericCreate n t msg h = Some (None, h))
    \<and> (unat n + 33 < 2 ^ 31 \<longrightarrow> (\<exists>r h' bs'. xStreamBufferGenericCreate n t msg h = Some (r, h') \<and> heap_ok h' bs'
        \<and> (\<forall>p sb. r = Some (p, sb) \<longrightarrow> p \<noteq> 0 \<and> sb_ok sb \<and> sb_bytes sb = [] \<and> sb_capacity sb = unat n
             \<and> is_message_buffer sb = msg \<and> xTriggerLevelBytes sb = max 1 t)))
    \<and> (sb_ok sb \<longrightarrow> (case xStreamBufferReset sb of (done_, sb') \<Rightarrow>
        done_ = (xTaskWaitingToReceive sb = 0 \<and> xTaskWaitingToSend sb = 0) \<and> sb_ok sb'
        \<and> sb_bytes sb' = (if done_ then [] else sb_bytes sb) \<and> sb_capacity sb' = sb_capacity sb
        \<and> ucFlags sb' = ucFlags sb \<and> xTriggerLevelBytes sb' = xTriggerLevelBytes sb))"
proof (intro conjI impI)
  have a: "msg \<Longrightarrow> n > sbBYTES_TO_STORE_MESSAGE_LENGTH" "n > 0" "t \<le> n"
    using assms(2,3) by (auto simp: word_less_nat_alt word_le_nat_alt split: if_splits)
  have size: "unat (n + 1 + sizeof_StreamBuffer_t) = (unat n + 33) mod 2 ^ 32"
    by (simp add: unat_word_ariths sizeof_StreamBuffer_t_def add.assoc mod_add_left_eq)
  show "xStreamBufferGenericCreate n t msg h = Some (None, h)" if "2 ^ 32 \<le> unat n + 33"
  proof -
    have "(unat n + 33) mod 2 ^ 32 = unat n + 33 - 2 ^ 32" using that unat_lt_u32 [of n] by (simp add: le_mod_geq)
    then have "\<not> n < n + 1 + sizeof_StreamBuffer_t" using size that unat_lt_u32 [of n] by (simp add: word_less_nat_alt)
    then show ?thesis using a by (cases msg) (simp_all add: xStreamBufferGenericCreate_def Let_def)
  qed
  show "\<exists>r h' bs'. xStreamBufferGenericCreate n t msg h = Some (r, h') \<and> heap_ok h' bs'
        \<and> (\<forall>p sb. r = Some (p, sb) \<longrightarrow> p \<noteq> 0 \<and> sb_ok sb \<and> sb_bytes sb = [] \<and> sb_capacity sb = unat n
             \<and> is_message_buffer sb = msg \<and> xTriggerLevelBytes sb = max 1 t)" if small: "unat n + 33 < 2 ^ 31"
  proof -
    have gt: "n < n + 1 + sizeof_StreamBuffer_t" using size small by (simp add: word_less_nat_alt)
    have n1: "unat (n + 1) = unat n + 1" using unat_add_u32 [of n 1] small by simp
    obtain p h' bs' where m: "pvPortMalloc (n + 1 + sizeof_StreamBuffer_t) h = Some (p, h')" "heap_ok h' bs'"
      using heap4.alloc_law [OF assms(1)] by blast
    have "1 < unat (n + 1)" "unat (n + 1) < 2 ^ 31" using n1 small assms(2) by (auto split: if_splits)
    note f = fresh_buffer [OF this, unfolded n1]
    have tr: "(if t = 0 then 1 else t) = max 1 t" using unat_gt_0 [of t] by (auto simp: max_def word_le_nat_alt)
    let ?fl = "if msg then sbFLAGS_IS_MESSAGE_BUFFER else 0"
    have "xStreamBufferGenericCreate n t msg h
        = Some (if p \<noteq> 0 then Some (p, prvInitialiseNewStreamBuffer (n + 1) (max 1 t) ?fl) else None, h')"
      using a gt m(1) by (cases msg) (simp_all add: xStreamBufferGenericCreate_def Let_def tr)
    moreover have "is_message_buffer (prvInitialiseNewStreamBuffer (n + 1) (max 1 t) ?fl) = msg"
        "xTriggerLevelBytes (prvInitialiseNewStreamBuffer (n + 1) (max 1 t) ?fl) = max 1 t"
      by (simp_all add: prvInitialiseNewStreamBuffer_def sbFLAGS_IS_MESSAGE_BUFFER_def)
    ultimately show ?thesis using m(2) f by auto
  qed
  show "case xStreamBufferReset sb of (done_, sb') \<Rightarrow>
        done_ = (xTaskWaitingToReceive sb = 0 \<and> xTaskWaitingToSend sb = 0) \<and> sb_ok sb'
        \<and> sb_bytes sb' = (if done_ then [] else sb_bytes sb) \<and> sb_capacity sb' = sb_capacity sb
        \<and> ucFlags sb' = ucFlags sb \<and> xTriggerLevelBytes sb' = xTriggerLevelBytes sb" if ok: "sb_ok sb"
  proof -
    note f = fresh_buffer [OF sb_okD(2,3) [OF ok], of "xTriggerLevelBytes sb" "ucFlags sb"]
    let ?i = "prvInitialiseNewStreamBuffer (xLength sb) (xTriggerLevelBytes sb) (ucFlags sb)"
    have "ucFlags ?i = ucFlags sb" "xTriggerLevelBytes ?i = xTriggerLevelBytes sb" "xLength ?i = xLength sb"
      by (simp_all add: prvInitialiseNewStreamBuffer_def)
    then show ?thesis using f ok by (simp add: xStreamBufferReset_def sb_capacity_def)
  qed
qed

lemma stream_buffer_create_reset_witness:
  "(\<exists>r h'. xStreamBufferGenericCreate 100 0 True (prvHeapInit heap0) = Some (r, h')
      \<and> (\<forall>p sb. r = Some (p, sb) \<longrightarrow> sb_capacity sb = 100 \<and> is_message_buffer sb \<and> xTriggerLevelBytes sb = 1))
    \<and> sb_bytes (snd (xStreamBufferReset stream8)) = []"
proof -
  note h = heap_inv_ok [OF heap0_inv]
  have m: "(if True then 4 else 0) < unat (100 :: u32)" "unat (0 :: u32) \<le> unat (100 :: u32)" by simp_all
  have w: "xTaskWaitingToReceive stream8 = 0 \<and> xTaskWaitingToSend stream8 = 0"
    by (simp add: stream8_def prvInitialiseNewStreamBuffer_def)
  have mx: "max 1 (0 :: u32) = 1" by (simp add: max_def)
  have u: "unat (100 :: u32) = 100" by simp
  show ?thesis
    using stream_buffer_create_reset [OF h m, of stream8, unfolded mx u] stream8_ok(1) w
    by (cases "xStreamBufferReset stream8") auto
qed

end
