(* ===== verification/Kernel.thy ===== *)
theory Kernel
  imports Lists
begin

text \<open>
  The scheduler, \<open>src/libraries/freertos/tasks.c\<close>, over the list structure of list.c: every list of the
  kernel is a list header of one store, every task owns two list items in it. The configuration is the
  one of the port: preemption without time slicing, optimised task selection, 32-bit ticks, mutexes,
  one notification per task, no trace facility, no tickless idle, no delay abortion.

  A task handle is the address of its control block, 0 for \<open>NULL\<close>. Critical sections make each
  operation below atomic. A yield triggers the software interrupt that runs \<open>vTaskSwitchContext\<close>; it is
  the flag \<open>swi\<close>.
\<close>

section \<open>State\<close>

type_synonym task = u32

datatype item_id = StateItem task | EventItem task

datatype list_id = Ready u32 | DelayedTaskList1 | DelayedTaskList2 | PendingReadyList
  | TasksWaitingTermination | SuspendedTaskList | EventList u32

record TCB_t =
  uxPriority :: u32
  uxBasePriority :: u32
  uxMutexesHeld :: u32
  ulNotifiedValue :: u32
  ucNotifyState :: u8

record kernel =
  lists :: "(item_id, list_id, task) store"
  tcb :: "task \<Rightarrow> TCB_t"
  pxCurrentTCB :: task
  pxDelayedTaskList :: list_id
  pxOverflowDelayedTaskList :: list_id
  uxDeletedTasksWaitingCleanUp :: u32
  uxCurrentNumberOfTasks :: u32
  xTickCount :: u32
  uxTopReadyPriority :: u32
  xSchedulerRunning :: bool
  xPendedTicks :: u32
  xYieldPending :: bool
  xNumOfOverflows :: u32
  uxTaskNumber :: u32
  xNextTaskUnblockTime :: u32
  uxSchedulerSuspended :: u32
  swi :: bool
  freed :: "task list"

definition configMAX_PRIORITIES :: u32 where "configMAX_PRIORITIES = 6"
definition taskEVENT_LIST_ITEM_VALUE_IN_USE :: u32 where "taskEVENT_LIST_ITEM_VALUE_IN_USE = 0x80000000"
definition taskNOT_WAITING_NOTIFICATION :: u8 where "taskNOT_WAITING_NOTIFICATION = 0"
definition taskWAITING_NOTIFICATION :: u8 where "taskWAITING_NOTIFICATION = 1"
definition taskNOTIFICATION_RECEIVED :: u8 where "taskNOTIFICATION_RECEIVED = 2"

text \<open>Access through a task handle; \<open>NULL\<close> has no fields.\<close>

definition TCB :: "task \<Rightarrow> kernel \<Rightarrow> TCB_t option" where
  "TCB t k = (if t = 0 then None else Some (tcb k t))"

definition upd_tcb :: "task \<Rightarrow> (TCB_t \<Rightarrow> TCB_t) \<Rightarrow> kernel \<Rightarrow> kernel" where
  "upd_tcb t f k = k\<lparr>tcb := (tcb k)(t := f (tcb k t))\<rparr>"

definition on_lists :: "((item_id, list_id, task) store \<Rightarrow> (item_id, list_id, task) store option) \<Rightarrow> kernel \<Rightarrow> kernel option" where
  "on_lists f k = map_option (\<lambda>s. k\<lparr>lists := s\<rparr>) (f (lists k))"

definition list_remove :: "item_id \<Rightarrow> kernel \<Rightarrow> (u32 \<times> kernel) option" where
  "list_remove i k = map_option (\<lambda>(n, s). (n, k\<lparr>lists := s\<rparr>)) (uxListRemove i (lists k))"

definition set_value :: "item_id \<Rightarrow> u32 \<Rightarrow> kernel \<Rightarrow> kernel" where
  "set_value i v k = k\<lparr>lists := listSET_LIST_ITEM_VALUE i v (lists k)\<rparr>"

definition value_of :: "item_id \<Rightarrow> kernel \<Rightarrow> u32" where
  "value_of i k = xItemValue (item (lists k) i)"

definition container :: "item_id \<Rightarrow> kernel \<Rightarrow> list_id option" where
  "container i k = pxContainer (item (lists k) i)"

definition list_empty :: "list_id \<Rightarrow> kernel \<Rightarrow> bool" where
  "list_empty l k = listLIST_IS_EMPTY l (lists k)"

definition list_length :: "list_id \<Rightarrow> kernel \<Rightarrow> u32" where
  "list_length l k = uxNumberOfItems (lst (lists k) l)"

text \<open>The owner of the head entry; a null owner fails the assertion or the dereference that follows.\<close>

definition head_owner :: "list_id \<Rightarrow> kernel \<Rightarrow> task option" where
  "head_owner l k = (case listGET_OWNER_OF_HEAD_ENTRY l (lists k) of Some (Some t) \<Rightarrow> Some t | _ \<Rightarrow> None)"

definition yield :: "kernel \<Rightarrow> kernel" where
  "yield k = k\<lparr>swi := True\<rparr>"

section \<open>Ready priorities\<close>

text \<open>The port keeps the set of ready priorities as bits; \<open>_clz\<close> counts leading zeros.\<close>

definition clz :: "u32 \<Rightarrow> nat" where
  "clz w = length (takeWhile (\<lambda>i. \<not> bit w i) (rev [0..<32]))"

definition portRECORD_READY_PRIORITY :: "u32 \<Rightarrow> u32 \<Rightarrow> u32" where
  "portRECORD_READY_PRIORITY p bits = or bits (push_bit (unat p) 1)"

definition portRESET_READY_PRIORITY :: "u32 \<Rightarrow> u32 \<Rightarrow> u32" where
  "portRESET_READY_PRIORITY p bits = and bits (not (push_bit (unat p) 1))"

definition portGET_HIGHEST_PRIORITY :: "u32 \<Rightarrow> u32" where
  "portGET_HIGHEST_PRIORITY bits = 31 - of_nat (clz bits)"

definition reset_ready :: "u32 \<Rightarrow> kernel \<Rightarrow> kernel" where
  "reset_ready p k = k\<lparr>uxTopReadyPriority := portRESET_READY_PRIORITY p (uxTopReadyPriority k)\<rparr>"

definition taskRESET_READY_PRIORITY :: "u32 \<Rightarrow> kernel \<Rightarrow> kernel" where
  "taskRESET_READY_PRIORITY p k = (if list_length (Ready p) k = 0 then reset_ready p k else k)"

definition prvAddTaskToReadyList :: "task \<Rightarrow> kernel \<Rightarrow> kernel option" where
  "prvAddTaskToReadyList t k = do {
     b \<leftarrow> TCB t k;
     let k = k\<lparr>uxTopReadyPriority := portRECORD_READY_PRIORITY (uxPriority b) (uxTopReadyPriority k)\<rparr>;
     on_lists (listINSERT_END (Ready (uxPriority b)) (StateItem t)) k
   }"

section \<open>Initialisation and creation\<close>

definition prvInitialiseTaskLists :: "kernel \<Rightarrow> kernel" where
  "prvInitialiseTaskLists k =
     (let s = fold (\<lambda>p. vListInitialise (Ready (of_nat p))) [0..<unat configMAX_PRIORITIES] (lists k);
          s = vListInitialise DelayedTaskList1 s;
          s = vListInitialise DelayedTaskList2 s;
          s = vListInitialise PendingReadyList s;
          s = vListInitialise TasksWaitingTermination s;
          s = vListInitialise SuspendedTaskList s
      in k\<lparr>lists := s, pxDelayedTaskList := DelayedTaskList1, pxOverflowDelayedTaskList := DelayedTaskList2\<rparr>)"

text \<open>
  The part of \<open>prvInitialiseNewTask\<close> that sets the fields the scheduler reads; stack, name and port
  context are left out.
\<close>

definition prvInitialiseNewTask :: "task \<Rightarrow> u32 \<Rightarrow> kernel \<Rightarrow> kernel option" where
  "prvInitialiseNewTask t p k = do {
     configASSERT (p < configMAX_PRIORITIES);
     let p = (if p \<ge> configMAX_PRIORITIES then configMAX_PRIORITIES - 1 else p);
     let k = upd_tcb t (\<lambda>_. \<lparr>uxPriority = p, uxBasePriority = p, uxMutexesHeld = 0, ulNotifiedValue = 0, ucNotifyState = 0\<rparr>) k;
     let s = vListInitialiseItem (StateItem t) (lists k);
     let s = vListInitialiseItem (EventItem t) s;
     let s = listSET_LIST_ITEM_OWNER (StateItem t) t s;
     let s = listSET_LIST_ITEM_VALUE (EventItem t) (configMAX_PRIORITIES - p) s;
     let s = listSET_LIST_ITEM_OWNER (EventItem t) t s;
     Some (k\<lparr>lists := s\<rparr>)
   }"

definition prvAddNewTaskToReadyList :: "task \<Rightarrow> kernel \<Rightarrow> kernel option" where
  "prvAddNewTaskToReadyList t k = do {
     let k = k\<lparr>uxCurrentNumberOfTasks := uxCurrentNumberOfTasks k + 1\<rparr>;
     k \<leftarrow> (if pxCurrentTCB k = 0
          then let k = k\<lparr>pxCurrentTCB := t\<rparr>
               in Some (if uxCurrentNumberOfTasks k = 1 then prvInitialiseTaskLists k else k)
          else if \<not> xSchedulerRunning k
          then do {
            c \<leftarrow> TCB (pxCurrentTCB k) k;
            b \<leftarrow> TCB t k;
            Some (if uxPriority c \<le> uxPriority b then k\<lparr>pxCurrentTCB := t\<rparr> else k)
          }
          else Some k);
     let k = k\<lparr>uxTaskNumber := uxTaskNumber k + 1\<rparr>;
     k \<leftarrow> prvAddTaskToReadyList t k;
     (if xSchedulerRunning k
      then do {
        c \<leftarrow> TCB (pxCurrentTCB k) k;
        b \<leftarrow> TCB t k;
        Some (if uxPriority c < uxPriority b then yield k else k)
      }
      else Some k)
   }"

section \<open>Switching and ticking\<close>

definition taskSELECT_HIGHEST_PRIORITY_TASK :: "kernel \<Rightarrow> kernel option" where
  "taskSELECT_HIGHEST_PRIORITY_TASK k = do {
     let uxTopPriority = portGET_HIGHEST_PRIORITY (uxTopReadyPriority k);
     configASSERT (list_length (Ready uxTopPriority) k > 0);
     (t, s) \<leftarrow> listGET_OWNER_OF_NEXT_ENTRY (Ready uxTopPriority) (lists k);
     Some (k\<lparr>lists := s, pxCurrentTCB := (case t of None \<Rightarrow> 0 | Some t \<Rightarrow> t)\<rparr>)
   }"

text \<open>
  The stack is no part of the state: \<open>taskCHECK_FOR_STACK_OVERFLOW\<close>, which compares the stack of the task that is left with
  its limits and calls a hook when they are crossed, is left out; so is the port's saving of its registers.
\<close>

definition vTaskSwitchContext :: "kernel \<Rightarrow> kernel option" where
  "vTaskSwitchContext k =
     (if uxSchedulerSuspended k \<noteq> 0 then Some (k\<lparr>xYieldPending := True\<rparr>)
      else let k = k\<lparr>xYieldPending := False\<rparr> in taskSELECT_HIGHEST_PRIORITY_TASK k)"

definition prvResetNextTaskUnblockTime :: "kernel \<Rightarrow> kernel option" where
  "prvResetNextTaskUnblockTime k =
     (if list_empty (pxDelayedTaskList k) k then Some (k\<lparr>xNextTaskUnblockTime := portMAX_DELAY\<rparr>)
      else do {
        v \<leftarrow> listGET_ITEM_VALUE_OF_HEAD_ENTRY (pxDelayedTaskList k) (lists k);
        Some (k\<lparr>xNextTaskUnblockTime := v\<rparr>)
      })"

definition taskSWITCH_DELAYED_LISTS :: "kernel \<Rightarrow> kernel option" where
  "taskSWITCH_DELAYED_LISTS k = do {
     configASSERT (list_empty (pxDelayedTaskList k) k);
     let pxTemp = pxDelayedTaskList k;
     let k = k\<lparr>pxDelayedTaskList := pxOverflowDelayedTaskList k\<rparr>;
     let k = k\<lparr>pxOverflowDelayedTaskList := pxTemp\<rparr>;
     let k = k\<lparr>xNumOfOverflows := xNumOfOverflows k + 1\<rparr>;
     prvResetNextTaskUnblockTime k
   }"

text \<open>The loop that unblocks every task whose time has come.\<close>

partial_function (option) unblock_loop :: "u32 \<Rightarrow> bool \<Rightarrow> kernel \<Rightarrow> (bool \<times> kernel) option" where
  "unblock_loop now xSwitchRequired k =
     (if list_empty (pxDelayedTaskList k) k
      then Some (xSwitchRequired, k\<lparr>xNextTaskUnblockTime := portMAX_DELAY\<rparr>)
      else do {
        t \<leftarrow> head_owner (pxDelayedTaskList k) k;
        let v = value_of (StateItem t) k;
        (if now < v
         then Some (xSwitchRequired, k\<lparr>xNextTaskUnblockTime := v\<rparr>)
         else do {
           k \<leftarrow> on_lists (listREMOVE_ITEM (StateItem t)) k;
           k \<leftarrow> (if container (EventItem t) k \<noteq> None then on_lists (listREMOVE_ITEM (EventItem t)) k else Some k);
           k \<leftarrow> prvAddTaskToReadyList t k;
           b \<leftarrow> TCB t k;
           c \<leftarrow> TCB (pxCurrentTCB k) k;
           unblock_loop now (if uxPriority b > uxPriority c then True else xSwitchRequired) k
         })
      })"

definition xTaskIncrementTick :: "kernel \<Rightarrow> (bool \<times> kernel) option" where
  "xTaskIncrementTick k =
     (if uxSchedulerSuspended k = 0
      then do {
        let xConstTickCount = xTickCount k + 1;
        let k = k\<lparr>xTickCount := xConstTickCount\<rparr>;
        k \<leftarrow> (if xConstTickCount = 0 then taskSWITCH_DELAYED_LISTS k else Some k);
        (xSwitchRequired, k) \<leftarrow>
          (if xConstTickCount \<ge> xNextTaskUnblockTime k then unblock_loop xConstTickCount False k else Some (False, k));
        Some (if xYieldPending k then True else xSwitchRequired, k)
      }
      else Some (False, k\<lparr>xPendedTicks := xPendedTicks k + 1\<rparr>))"

definition vTaskSuspendAll :: "kernel \<Rightarrow> kernel" where
  "vTaskSuspendAll k = k\<lparr>uxSchedulerSuspended := uxSchedulerSuspended k + 1\<rparr>"

text \<open>Moving the tasks that became ready while the scheduler was suspended; whether there was one.\<close>

partial_function (option) pending_loop :: "bool \<Rightarrow> kernel \<Rightarrow> (bool \<times> kernel) option" where
  "pending_loop found k =
     (if list_empty PendingReadyList k then Some (found, k)
      else do {
        t \<leftarrow> head_owner PendingReadyList k;
        k \<leftarrow> on_lists (listREMOVE_ITEM (EventItem t)) k;
        k \<leftarrow> on_lists (listREMOVE_ITEM (StateItem t)) k;
        k \<leftarrow> prvAddTaskToReadyList t k;
        b \<leftarrow> TCB t k;
        c \<leftarrow> TCB (pxCurrentTCB k) k;
        pending_loop True (if uxPriority b \<ge> uxPriority c then k\<lparr>xYieldPending := True\<rparr> else k)
      })"

text \<open>\<open>n\<close> calls of \<open>xTaskIncrementTick\<close> for the ticks missed.\<close>

fun pended_ticks :: "nat \<Rightarrow> kernel \<Rightarrow> kernel option" where
  "pended_ticks 0 k = Some k"
| "pended_ticks (Suc n) k = do {
     (b, k) \<leftarrow> xTaskIncrementTick k;
     pended_ticks n (if b then k\<lparr>xYieldPending := True\<rparr> else k)
   }"

definition xTaskResumeAll :: "kernel \<Rightarrow> (bool \<times> kernel) option" where
  "xTaskResumeAll k = do {
     configASSERT (uxSchedulerSuspended k \<noteq> 0);
     let k = k\<lparr>uxSchedulerSuspended := uxSchedulerSuspended k - 1\<rparr>;
     (if uxSchedulerSuspended k = 0 \<and> uxCurrentNumberOfTasks k > 0
      then do {
        (found, k) \<leftarrow> pending_loop False k;
        k \<leftarrow> (if found then prvResetNextTaskUnblockTime k else Some k);
        let xPendedCounts = xPendedTicks k;
        k \<leftarrow> (if xPendedCounts > 0
             then do { k \<leftarrow> pended_ticks (unat xPendedCounts) k; Some (k\<lparr>xPendedTicks := 0\<rparr>) }
             else Some k);
        Some (if xYieldPending k then (True, yield k) else (False, k))
      }
      else Some (False, k))
   }"

definition xTaskCatchUpTicks :: "u32 \<Rightarrow> kernel \<Rightarrow> (bool \<times> kernel) option" where
  "xTaskCatchUpTicks n k = do {
     configASSERT (uxSchedulerSuspended k = 0);
     let k = vTaskSuspendAll k;
     let k = k\<lparr>xPendedTicks := xPendedTicks k + n\<rparr>;
     xTaskResumeAll k
   }"

section \<open>Delaying\<close>

definition prvAddCurrentTaskToDelayedList :: "u32 \<Rightarrow> bool \<Rightarrow> kernel \<Rightarrow> kernel option" where
  "prvAddCurrentTaskToDelayedList xTicksToWait xCanBlockIndefinitely k = do {
     let t = pxCurrentTCB k;
     b \<leftarrow> TCB t k;
     (n, k) \<leftarrow> list_remove (StateItem t) k;
     let k = (if n = 0 then reset_ready (uxPriority b) k else k);
     (if xTicksToWait = portMAX_DELAY \<and> xCanBlockIndefinitely
      then on_lists (listINSERT_END SuspendedTaskList (StateItem t)) k
      else do {
        let xTimeToWake = xTickCount k + xTicksToWait;
        let k = set_value (StateItem t) xTimeToWake k;
        (if xTimeToWake < xTickCount k
         then on_lists (vListInsert (pxOverflowDelayedTaskList k) (StateItem t)) k
         else do {
           k \<leftarrow> on_lists (vListInsert (pxDelayedTaskList k) (StateItem t)) k;
           Some (if xTimeToWake < xNextTaskUnblockTime k then k\<lparr>xNextTaskUnblockTime := xTimeToWake\<rparr> else k)
         })
      })
   }"

text \<open>
  The two delays are one step each. The code suspends the scheduler between reading the tick count and resuming, but does not mask
  interrupts: a tick that comes there is only counted by the scheduler and acted on in \<open>xTaskResumeAll\<close>. It
  is modelled as a tick before or after the call.
\<close>

definition vTaskDelay :: "u32 \<Rightarrow> kernel \<Rightarrow> kernel option" where
  "vTaskDelay xTicksToDelay k = do {
     (xAlreadyYielded, k) \<leftarrow>
       (if xTicksToDelay > 0
        then do {
          configASSERT (uxSchedulerSuspended k = 0);
          let k = vTaskSuspendAll k;
          k \<leftarrow> prvAddCurrentTaskToDelayedList xTicksToDelay False k;
          xTaskResumeAll k
        }
        else Some (False, k));
     Some (if \<not> xAlreadyYielded then yield k else k)
   }"

text \<open>The decision of \<open>xTaskDelayUntil\<close>: the wake time and whether it is still ahead.\<close>

definition delay_until :: "u32 \<Rightarrow> u32 \<Rightarrow> u32 \<Rightarrow> u32 \<times> bool" where
  "delay_until xConstTickCount previous xTimeIncrement =
     (let xTimeToWake = previous + xTimeIncrement
      in (xTimeToWake,
          if xConstTickCount < previous
          then xTimeToWake < previous \<and> xTimeToWake > xConstTickCount
          else xTimeToWake < previous \<or> xTimeToWake > xConstTickCount))"

definition xTaskDelayUntil :: "u32 \<Rightarrow> u32 \<Rightarrow> kernel \<Rightarrow> (bool \<times> u32 \<times> kernel) option" where
  "xTaskDelayUntil previous xTimeIncrement k = do {
     configASSERT (xTimeIncrement > 0);
     configASSERT (uxSchedulerSuspended k = 0);
     let k = vTaskSuspendAll k;
     let xConstTickCount = xTickCount k;
     let (xTimeToWake, xShouldDelay) = delay_until xConstTickCount previous xTimeIncrement;
     k \<leftarrow> (if xShouldDelay then prvAddCurrentTaskToDelayedList (xTimeToWake - xConstTickCount) False k else Some k);
     (xAlreadyYielded, k) \<leftarrow> xTaskResumeAll k;
     Some (xShouldDelay, xTimeToWake, if \<not> xAlreadyYielded then yield k else k)
   }"

record TimeOut_t =
  xOverflowCount :: u32
  xTimeOnEntering :: u32

definition vTaskInternalSetTimeOutState :: "kernel \<Rightarrow> TimeOut_t" where
  "vTaskInternalSetTimeOutState k = \<lparr>xOverflowCount = xNumOfOverflows k, xTimeOnEntering = xTickCount k\<rparr>"

definition vTaskSetTimeOutState :: "kernel \<Rightarrow> TimeOut_t" where
  "vTaskSetTimeOutState k = \<lparr>xOverflowCount = xNumOfOverflows k, xTimeOnEntering = xTickCount k\<rparr>"

text \<open>The result, and the new values of the two objects it is given.\<close>

definition xTaskCheckForTimeOut :: "TimeOut_t \<Rightarrow> u32 \<Rightarrow> kernel \<Rightarrow> bool \<times> TimeOut_t \<times> u32" where
  "xTaskCheckForTimeOut timeout ticks k =
     (let xConstTickCount = xTickCount k;
          xElapsedTime = xConstTickCount - xTimeOnEntering timeout
      in if ticks = portMAX_DELAY then (False, timeout, ticks)
         else if xNumOfOverflows k \<noteq> xOverflowCount timeout \<and> xConstTickCount \<ge> xTimeOnEntering timeout
         then (True, timeout, 0)
         else if xElapsedTime < ticks then (False, vTaskInternalSetTimeOutState k, ticks - xElapsedTime)
         else (True, timeout, 0))"

definition vTaskMissedYield :: "kernel \<Rightarrow> kernel" where
  "vTaskMissedYield k = k\<lparr>xYieldPending := True\<rparr>"

end
