(* ===== verification/KernelApi.thy ===== *)
theory KernelApi
  imports Kernel
begin

text \<open>
  The rest of \<open>src/libraries/freertos/tasks.c\<close>: deleting, suspending and resuming tasks, priorities and
  priority inheritance, event lists and direct to task notifications.
\<close>

definition prvGetTCBFromHandle :: "task \<Rightarrow> kernel \<Rightarrow> task" where
  "prvGetTCBFromHandle t k = (if t = 0 then pxCurrentTCB k else t)"

text \<open>Taking a task off its state list, and off the event list it may wait on.\<close>

definition remove_state :: "task \<Rightarrow> u32 \<Rightarrow> kernel \<Rightarrow> kernel option" where
  "remove_state t p k = do {
     (n, k) \<leftarrow> list_remove (StateItem t) k;
     Some (if n = 0 then taskRESET_READY_PRIORITY p k else k)
   }"

definition remove_event :: "task \<Rightarrow> kernel \<Rightarrow> kernel option" where
  "remove_event t k =
     (if container (EventItem t) k \<noteq> None
      then do { (n, k) \<leftarrow> list_remove (EventItem t) k; Some k } else Some k)"

section \<open>Deletion\<close>

definition prvDeleteTCB :: "task \<Rightarrow> kernel \<Rightarrow> kernel" where
  "prvDeleteTCB t k = k\<lparr>freed := freed k @ [t]\<rparr>"

definition vTaskDelete :: "task \<Rightarrow> kernel \<Rightarrow> kernel option" where
  "vTaskDelete xTaskToDelete k = do {
     let t = prvGetTCBFromHandle xTaskToDelete k;
     b \<leftarrow> TCB t k;
     k \<leftarrow> remove_state t (uxPriority b) k;
     k \<leftarrow> remove_event t k;
     let k = k\<lparr>uxTaskNumber := uxTaskNumber k + 1\<rparr>;
     k \<leftarrow> (if t = pxCurrentTCB k
          then do {
            k \<leftarrow> on_lists (vListInsertEnd TasksWaitingTermination (StateItem t)) k;
            Some (k\<lparr>uxDeletedTasksWaitingCleanUp := uxDeletedTasksWaitingCleanUp k + 1\<rparr>)
          }
          else do {
            let k = k\<lparr>uxCurrentNumberOfTasks := uxCurrentNumberOfTasks k - 1\<rparr>;
            prvResetNextTaskUnblockTime k
          });
     let k = (if t \<noteq> pxCurrentTCB k then prvDeleteTCB t k else k);
     (if xSchedulerRunning k \<and> t = pxCurrentTCB k
      then do { configASSERT (uxSchedulerSuspended k = 0); Some (yield k) }
      else Some k)
   }"

text \<open>The idle task's clean-up; one round per deleted task.\<close>

partial_function (option) prvCheckTasksWaitingTermination :: "kernel \<Rightarrow> kernel option" where
  "prvCheckTasksWaitingTermination k =
     (if uxDeletedTasksWaitingCleanUp k > 0
      then do {
        t \<leftarrow> head_owner TasksWaitingTermination k;
        (n, k) \<leftarrow> list_remove (StateItem t) k;
        let k = k\<lparr>uxCurrentNumberOfTasks := uxCurrentNumberOfTasks k - 1\<rparr>;
        let k = k\<lparr>uxDeletedTasksWaitingCleanUp := uxDeletedTasksWaitingCleanUp k - 1\<rparr>;
        prvCheckTasksWaitingTermination (prvDeleteTCB t k)
      }
      else Some k)"

section \<open>Queries\<close>

datatype eTaskState = eRunning | eReady | eBlocked | eSuspended | eDeleted | eInvalid

definition eTaskGetState :: "task \<Rightarrow> kernel \<Rightarrow> eTaskState option" where
  "eTaskGetState t k = do {
     configASSERT (t \<noteq> 0);
     (if t = pxCurrentTCB k then Some eRunning
      else let st = container (StateItem t) k in
        (if st = Some (pxDelayedTaskList k) \<or> st = Some (pxOverflowDelayedTaskList k) then Some eBlocked
         else if st = Some SuspendedTaskList
         then (if container (EventItem t) k = None
               then (if ucNotifyState (tcb k t) = taskWAITING_NOTIFICATION then Some eBlocked else Some eSuspended)
               else Some eBlocked)
         else if st = Some TasksWaitingTermination \<or> st = None then Some eDeleted
         else Some eReady))
   }"

definition uxTaskPriorityGet :: "task \<Rightarrow> kernel \<Rightarrow> u32 option" where
  "uxTaskPriorityGet t k = map_option uxPriority (TCB (prvGetTCBFromHandle t k) k)"

definition xTaskGetTickCount :: "kernel \<Rightarrow> u32" where
  "xTaskGetTickCount k = xTickCount k"

definition uxTaskGetNumberOfTasks :: "kernel \<Rightarrow> u32" where
  "uxTaskGetNumberOfTasks k = uxCurrentNumberOfTasks k"

definition xTaskGetCurrentTaskHandle :: "kernel \<Rightarrow> task" where
  "xTaskGetCurrentTaskHandle k = pxCurrentTCB k"

datatype scheduler_state = taskSCHEDULER_NOT_STARTED | taskSCHEDULER_RUNNING | taskSCHEDULER_SUSPENDED

definition xTaskGetSchedulerState :: "kernel \<Rightarrow> scheduler_state" where
  "xTaskGetSchedulerState k =
     (if \<not> xSchedulerRunning k then taskSCHEDULER_NOT_STARTED
      else if uxSchedulerSuspended k = 0 then taskSCHEDULER_RUNNING else taskSCHEDULER_SUSPENDED)"

section \<open>Priorities\<close>

text \<open>The value of the event list item follows the priority unless an event group uses it.\<close>

definition set_event_priority :: "task \<Rightarrow> u32 \<Rightarrow> kernel \<Rightarrow> kernel" where
  "set_event_priority t p k =
     (if and (value_of (EventItem t) k) taskEVENT_LIST_ITEM_VALUE_IN_USE = 0
      then set_value (EventItem t) (configMAX_PRIORITIES - p) k else k)"

definition vTaskPrioritySet :: "task \<Rightarrow> u32 \<Rightarrow> kernel \<Rightarrow> kernel option" where
  "vTaskPrioritySet xTask uxNewPriority k = do {
     configASSERT (uxNewPriority < configMAX_PRIORITIES);
     let uxNewPriority = (if uxNewPriority \<ge> configMAX_PRIORITIES then configMAX_PRIORITIES - 1 else uxNewPriority);
     let t = prvGetTCBFromHandle xTask k;
     b \<leftarrow> TCB t k;
     (if uxBasePriority b \<noteq> uxNewPriority
      then do {
        c \<leftarrow> TCB (pxCurrentTCB k) k;
        let xYieldRequired = (if uxNewPriority > uxBasePriority b
             then (if t \<noteq> pxCurrentTCB k then uxNewPriority \<ge> uxPriority c else False)
             else if t = pxCurrentTCB k then True else False);
        let uxPriorityUsedOnEntry = uxPriority b;
        let k = (if uxBasePriority b = uxPriority b then upd_tcb t (\<lambda>b. b\<lparr>uxPriority := uxNewPriority\<rparr>) k else k);
        let k = upd_tcb t (\<lambda>b. b\<lparr>uxBasePriority := uxNewPriority\<rparr>) k;
        let k = set_event_priority t uxNewPriority k;
        k \<leftarrow> (if container (StateItem t) k = Some (Ready uxPriorityUsedOnEntry)
             then do {
               (n, k) \<leftarrow> list_remove (StateItem t) k;
               let k = (if n = 0 then reset_ready uxPriorityUsedOnEntry k else k);
               prvAddTaskToReadyList t k
             }
             else Some k);
        Some (if xYieldRequired then yield k else k)
      }
      else Some k)
   }"

text \<open>Raising the holder of a mutex to the priority of the task that wants it.\<close>

definition xTaskPriorityInherit :: "task \<Rightarrow> kernel \<Rightarrow> (bool \<times> kernel) option" where
  "xTaskPriorityInherit t k =
     (if t \<noteq> 0
      then do {
        b \<leftarrow> TCB t k;
        c \<leftarrow> TCB (pxCurrentTCB k) k;
        (if uxPriority b < uxPriority c
         then do {
           let k = set_event_priority t (uxPriority c) k;
           k \<leftarrow> (if container (StateItem t) k = Some (Ready (uxPriority b))
                then do {
                  (n, k) \<leftarrow> list_remove (StateItem t) k;
                  let k = (if n = 0 then reset_ready (uxPriority b) k else k);
                  let k = upd_tcb t (\<lambda>b. b\<lparr>uxPriority := uxPriority c\<rparr>) k;
                  prvAddTaskToReadyList t k
                }
                else Some (upd_tcb t (\<lambda>b. b\<lparr>uxPriority := uxPriority c\<rparr>) k));
           Some (True, k)
         }
         else Some (uxBasePriority b < uxPriority c, k))
      }
      else Some (False, k))"

definition xTaskPriorityDisinherit :: "task \<Rightarrow> kernel \<Rightarrow> (bool \<times> kernel) option" where
  "xTaskPriorityDisinherit t k =
     (if t \<noteq> 0
      then do {
        configASSERT (t = pxCurrentTCB k);
        configASSERT (uxMutexesHeld (tcb k t) \<noteq> 0);
        let k = upd_tcb t (\<lambda>b. b\<lparr>uxMutexesHeld := uxMutexesHeld b - 1\<rparr>) k;
        (if uxPriority (tcb k t) \<noteq> uxBasePriority (tcb k t) \<and> uxMutexesHeld (tcb k t) = 0
         then do {
           (n, k) \<leftarrow> list_remove (StateItem t) k;
           let k = (if n = 0 then reset_ready (uxPriority (tcb k t)) k else k);
           let k = upd_tcb t (\<lambda>b. b\<lparr>uxPriority := uxBasePriority b\<rparr>) k;
           let k = set_value (EventItem t) (configMAX_PRIORITIES - uxPriority (tcb k t)) k;
           k \<leftarrow> prvAddTaskToReadyList t k;
           Some (True, k)
         }
         else Some (False, k))
      }
      else Some (False, k))"

definition vTaskPriorityDisinheritAfterTimeout :: "task \<Rightarrow> u32 \<Rightarrow> kernel \<Rightarrow> kernel option" where
  "vTaskPriorityDisinheritAfterTimeout t uxHighestPriorityWaitingTask k =
     (if t \<noteq> 0
      then do {
        let b = tcb k t;
        configASSERT (uxMutexesHeld b \<noteq> 0);
        let uxPriorityToUse = (if uxBasePriority b < uxHighestPriorityWaitingTask
             then uxHighestPriorityWaitingTask else uxBasePriority b);
        (if uxPriority b \<noteq> uxPriorityToUse \<and> uxMutexesHeld b = 1
         then do {
           configASSERT (t \<noteq> pxCurrentTCB k);
           let uxPriorityUsedOnEntry = uxPriority b;
           let k = upd_tcb t (\<lambda>b. b\<lparr>uxPriority := uxPriorityToUse\<rparr>) k;
           let k = set_event_priority t uxPriorityToUse k;
           (if container (StateItem t) k = Some (Ready uxPriorityUsedOnEntry)
            then do {
              (n, k) \<leftarrow> list_remove (StateItem t) k;
              let k = (if n = 0 then reset_ready (uxPriority (tcb k t)) k else k);
              prvAddTaskToReadyList t k
            }
            else Some k)
         }
         else Some k)
      }
      else Some k)"

definition pvTaskIncrementMutexHeldCount :: "kernel \<Rightarrow> task \<times> kernel" where
  "pvTaskIncrementMutexHeldCount k =
     (let k = (if pxCurrentTCB k \<noteq> 0 then upd_tcb (pxCurrentTCB k) (\<lambda>b. b\<lparr>uxMutexesHeld := uxMutexesHeld b + 1\<rparr>) k else k)
      in (pxCurrentTCB k, k))"

section \<open>Suspension\<close>

text \<open>
  One step. The code has two critical sections (the lists, then the next unblock time) and, when the task suspends itself, a yield after
  them; an interrupt between them is modelled as one before or after the call.
\<close>

definition vTaskSuspend :: "task \<Rightarrow> kernel \<Rightarrow> kernel option" where
  "vTaskSuspend xTaskToSuspend k = do {
     let t = prvGetTCBFromHandle xTaskToSuspend k;
     b \<leftarrow> TCB t k;
     k \<leftarrow> remove_state t (uxPriority b) k;
     k \<leftarrow> remove_event t k;
     k \<leftarrow> on_lists (vListInsertEnd SuspendedTaskList (StateItem t)) k;
     let k = (if ucNotifyState (tcb k t) = taskWAITING_NOTIFICATION
              then upd_tcb t (\<lambda>b. b\<lparr>ucNotifyState := taskNOT_WAITING_NOTIFICATION\<rparr>) k else k);
     k \<leftarrow> (if xSchedulerRunning k then prvResetNextTaskUnblockTime k else Some k);
     (if t = pxCurrentTCB k
      then if xSchedulerRunning k
           then do { configASSERT (uxSchedulerSuspended k = 0); Some (yield k) }
           else if list_length SuspendedTaskList k = uxCurrentNumberOfTasks k
           then Some (k\<lparr>pxCurrentTCB := 0\<rparr>)
           else vTaskSwitchContext k
      else Some k)
   }"

definition prvTaskIsTaskSuspended :: "task \<Rightarrow> kernel \<Rightarrow> bool option" where
  "prvTaskIsTaskSuspended t k = do {
     configASSERT (t \<noteq> 0);
     Some (container (StateItem t) k = Some SuspendedTaskList
           \<and> container (EventItem t) k \<noteq> Some PendingReadyList \<and> container (EventItem t) k = None)
   }"

definition vTaskResume :: "task \<Rightarrow> kernel \<Rightarrow> kernel option" where
  "vTaskResume t k = do {
     configASSERT (t \<noteq> 0);
     (if t \<noteq> pxCurrentTCB k
      then do {
        suspended \<leftarrow> prvTaskIsTaskSuspended t k;
        (if suspended
         then do {
           (n, k) \<leftarrow> list_remove (StateItem t) k;
           k \<leftarrow> prvAddTaskToReadyList t k;
           c \<leftarrow> TCB (pxCurrentTCB k) k;
           Some (if uxPriority (tcb k t) \<ge> uxPriority c then yield k else k)
         }
         else Some k)
      }
      else Some k)
   }"

definition xTaskResumeFromISR :: "task \<Rightarrow> kernel \<Rightarrow> (bool \<times> kernel) option" where
  "xTaskResumeFromISR t k = do {
     configASSERT (t \<noteq> 0);
     suspended \<leftarrow> prvTaskIsTaskSuspended t k;
     (if suspended
      then if uxSchedulerSuspended k = 0
           then do {
             c \<leftarrow> TCB (pxCurrentTCB k) k;
             let y = (uxPriority (tcb k t) \<ge> uxPriority c);
             let k = (if y then k\<lparr>xYieldPending := True\<rparr> else k);
             (n, k) \<leftarrow> list_remove (StateItem t) k;
             k \<leftarrow> prvAddTaskToReadyList t k;
             Some (y, k)
           }
           else do {
             k \<leftarrow> on_lists (vListInsertEnd PendingReadyList (EventItem t)) k;
             Some (False, k)
           }
      else Some (False, k))
   }"

section \<open>Event lists\<close>

definition vTaskPlaceOnEventList :: "list_id \<Rightarrow> u32 \<Rightarrow> kernel \<Rightarrow> kernel option" where
  "vTaskPlaceOnEventList l xTicksToWait k = do {
     k \<leftarrow> on_lists (vListInsert l (EventItem (pxCurrentTCB k))) k;
     prvAddCurrentTaskToDelayedList xTicksToWait True k
   }"

definition vTaskPlaceOnUnorderedEventList :: "list_id \<Rightarrow> u32 \<Rightarrow> u32 \<Rightarrow> kernel \<Rightarrow> kernel option" where
  "vTaskPlaceOnUnorderedEventList l v xTicksToWait k = do {
     configASSERT (uxSchedulerSuspended k \<noteq> 0);
     let k = set_value (EventItem (pxCurrentTCB k)) (or v taskEVENT_LIST_ITEM_VALUE_IN_USE) k;
     k \<leftarrow> on_lists (listINSERT_END l (EventItem (pxCurrentTCB k))) k;
     prvAddCurrentTaskToDelayedList xTicksToWait True k
   }"

definition vTaskPlaceOnEventListRestricted :: "list_id \<Rightarrow> u32 \<Rightarrow> bool \<Rightarrow> kernel \<Rightarrow> kernel option" where
  "vTaskPlaceOnEventListRestricted l xTicksToWait xWaitIndefinitely k = do {
     k \<leftarrow> on_lists (listINSERT_END l (EventItem (pxCurrentTCB k))) k;
     let xTicksToWait = (if xWaitIndefinitely then portMAX_DELAY else xTicksToWait);
     prvAddCurrentTaskToDelayedList xTicksToWait xWaitIndefinitely k
   }"

text \<open>Making a task ready at once, or leaving it pending while the scheduler is suspended.\<close>

definition ready_or_pend :: "task \<Rightarrow> kernel \<Rightarrow> kernel option" where
  "ready_or_pend t k =
     (if uxSchedulerSuspended k = 0
      then do { k \<leftarrow> on_lists (listREMOVE_ITEM (StateItem t)) k; prvAddTaskToReadyList t k }
      else on_lists (listINSERT_END PendingReadyList (EventItem t)) k)"

definition xTaskRemoveFromEventList :: "list_id \<Rightarrow> kernel \<Rightarrow> (bool \<times> kernel) option" where
  "xTaskRemoveFromEventList l k = do {
     t \<leftarrow> head_owner l k;
     configASSERT (t \<noteq> 0);
     k \<leftarrow> on_lists (listREMOVE_ITEM (EventItem t)) k;
     k \<leftarrow> ready_or_pend t k;
     b \<leftarrow> TCB t k;
     c \<leftarrow> TCB (pxCurrentTCB k) k;
     Some (if uxPriority b > uxPriority c then (True, k\<lparr>xYieldPending := True\<rparr>) else (False, k))
   }"

definition vTaskRemoveFromUnorderedEventList :: "item_id \<Rightarrow> u32 \<Rightarrow> kernel \<Rightarrow> kernel option" where
  "vTaskRemoveFromUnorderedEventList i v k = do {
     configASSERT (uxSchedulerSuspended k \<noteq> 0);
     let k = set_value i (or v taskEVENT_LIST_ITEM_VALUE_IN_USE) k;
     t \<leftarrow> pvOwner (item (lists k) i);
     configASSERT (t \<noteq> 0);
     k \<leftarrow> on_lists (listREMOVE_ITEM i) k;
     k \<leftarrow> on_lists (listREMOVE_ITEM (StateItem t)) k;
     k \<leftarrow> prvAddTaskToReadyList t k;
     b \<leftarrow> TCB t k;
     c \<leftarrow> TCB (pxCurrentTCB k) k;
     Some (if uxPriority b > uxPriority c then k\<lparr>xYieldPending := True\<rparr> else k)
   }"

definition uxTaskResetEventItemValue :: "kernel \<Rightarrow> (u32 \<times> kernel) option" where
  "uxTaskResetEventItemValue k = do {
     c \<leftarrow> TCB (pxCurrentTCB k) k;
     let v = value_of (EventItem (pxCurrentTCB k)) k;
     Some (v, set_value (EventItem (pxCurrentTCB k)) (configMAX_PRIORITIES - uxPriority c) k)
   }"

section \<open>Notifications\<close>

text \<open>
  \<open>resume k\<close> is the kernel when the task runs again after it blocked: what the other tasks and the
  interrupts did meanwhile.
\<close>

definition notify_block :: "(kernel \<Rightarrow> kernel) \<Rightarrow> u32 \<Rightarrow> kernel \<Rightarrow> kernel option" where
  "notify_block resume xTicksToWait k =
     (let k = upd_tcb (pxCurrentTCB k) (\<lambda>b. b\<lparr>ucNotifyState := taskWAITING_NOTIFICATION\<rparr>) k
      in if xTicksToWait > 0
         then do { k \<leftarrow> prvAddCurrentTaskToDelayedList xTicksToWait True k; Some (resume (yield k)) }
         else Some k)"

definition ulTaskGenericNotifyTake :: "(kernel \<Rightarrow> kernel) \<Rightarrow> u32 \<Rightarrow> bool \<Rightarrow> u32 \<Rightarrow> kernel \<Rightarrow> (u32 \<times> kernel) option" where
  "ulTaskGenericNotifyTake resume uxIndexToWait xClearCountOnExit xTicksToWait k = do {
     configASSERT (uxIndexToWait < 1);
     c \<leftarrow> TCB (pxCurrentTCB k) k;
     k \<leftarrow> (if ulNotifiedValue c = 0 then notify_block resume xTicksToWait k else Some k);
     c \<leftarrow> TCB (pxCurrentTCB k) k;
     let ulReturn = ulNotifiedValue c;
     let k = (if ulReturn \<noteq> 0
              then upd_tcb (pxCurrentTCB k) (\<lambda>b. b\<lparr>ulNotifiedValue := if xClearCountOnExit then 0 else ulReturn - 1\<rparr>) k else k);
     Some (ulReturn, upd_tcb (pxCurrentTCB k) (\<lambda>b. b\<lparr>ucNotifyState := taskNOT_WAITING_NOTIFICATION\<rparr>) k)
   }"

definition xTaskGenericNotifyWait :: "(kernel \<Rightarrow> kernel) \<Rightarrow> u32 \<Rightarrow> u32 \<Rightarrow> u32 \<Rightarrow> u32 \<Rightarrow> kernel \<Rightarrow> (bool \<times> u32 \<times> kernel) option" where
  "xTaskGenericNotifyWait resume uxIndexToWait ulBitsToClearOnEntry ulBitsToClearOnExit xTicksToWait k = do {
     configASSERT (uxIndexToWait < 1);
     c \<leftarrow> TCB (pxCurrentTCB k) k;
     k \<leftarrow> (if ucNotifyState c \<noteq> taskNOTIFICATION_RECEIVED
          then let k = upd_tcb (pxCurrentTCB k) (\<lambda>b. b\<lparr>ulNotifiedValue := and (ulNotifiedValue b) (not ulBitsToClearOnEntry)\<rparr>) k
               in notify_block resume xTicksToWait k
          else Some k);
     c \<leftarrow> TCB (pxCurrentTCB k) k;
     let value = ulNotifiedValue c;
     let (r, k) = (if ucNotifyState c \<noteq> taskNOTIFICATION_RECEIVED then (False, k)
          else (True, upd_tcb (pxCurrentTCB k) (\<lambda>b. b\<lparr>ulNotifiedValue := and (ulNotifiedValue b) (not ulBitsToClearOnExit)\<rparr>) k));
     Some (r, value, upd_tcb (pxCurrentTCB k) (\<lambda>b. b\<lparr>ucNotifyState := taskNOT_WAITING_NOTIFICATION\<rparr>) k)
   }"

datatype eNotifyAction = eNoAction | eSetBits | eIncrement | eSetValueWithOverwrite | eSetValueWithoutOverwrite

text \<open>The action on the value; \<open>False\<close> when an unread value would have been overwritten.\<close>

fun notify_value :: "eNotifyAction \<Rightarrow> u32 \<Rightarrow> u8 \<Rightarrow> u32 \<Rightarrow> u32 \<times> bool" where
  "notify_value eSetBits v original x = (or x v, True)"
| "notify_value eIncrement v original x = (x + 1, True)"
| "notify_value eSetValueWithOverwrite v original x = (v, True)"
| "notify_value eSetValueWithoutOverwrite v original x =
     (if original \<noteq> taskNOTIFICATION_RECEIVED then (v, True) else (x, False))"
| "notify_value eNoAction v original x = (x, True)"

text \<open>The previous value is returned as well, as through \<open>pulPreviousNotificationValue\<close>.\<close>

definition xTaskGenericNotify :: "task \<Rightarrow> u32 \<Rightarrow> u32 \<Rightarrow> eNotifyAction \<Rightarrow> kernel \<Rightarrow> (bool \<times> u32 \<times> kernel) option" where
  "xTaskGenericNotify t uxIndexToNotify ulValue eAction k = do {
     configASSERT (uxIndexToNotify < 1);
     configASSERT (t \<noteq> 0);
     let previous = ulNotifiedValue (tcb k t);
     let original = ucNotifyState (tcb k t);
     let k = upd_tcb t (\<lambda>b. b\<lparr>ucNotifyState := taskNOTIFICATION_RECEIVED\<rparr>) k;
     let (v, r) = notify_value eAction ulValue original previous;
     let k = upd_tcb t (\<lambda>b. b\<lparr>ulNotifiedValue := v\<rparr>) k;
     k \<leftarrow> (if original = taskWAITING_NOTIFICATION
          then do {
            k \<leftarrow> on_lists (listREMOVE_ITEM (StateItem t)) k;
            k \<leftarrow> prvAddTaskToReadyList t k;
            configASSERT (container (EventItem t) k = None);
            c \<leftarrow> TCB (pxCurrentTCB k) k;
            Some (if uxPriority (tcb k t) > uxPriority c then yield k else k)
          }
          else Some k);
     Some (r, previous, k)
   }"

text \<open>The interrupt variants report whether a task of higher priority was woken.\<close>

definition notify_from_isr :: "task \<Rightarrow> u8 \<Rightarrow> kernel \<Rightarrow> (bool \<times> kernel) option" where
  "notify_from_isr t original k =
     (if original = taskWAITING_NOTIFICATION
      then do {
        configASSERT (container (EventItem t) k = None);
        k \<leftarrow> ready_or_pend t k;
        c \<leftarrow> TCB (pxCurrentTCB k) k;
        Some (if uxPriority (tcb k t) > uxPriority c then (True, k\<lparr>xYieldPending := True\<rparr>) else (False, k))
      }
      else Some (False, k))"

definition xTaskGenericNotifyFromISR :: "task \<Rightarrow> u32 \<Rightarrow> u32 \<Rightarrow> eNotifyAction \<Rightarrow> kernel \<Rightarrow> (bool \<times> u32 \<times> bool \<times> kernel) option" where
  "xTaskGenericNotifyFromISR t uxIndexToNotify ulValue eAction k = do {
     configASSERT (t \<noteq> 0);
     configASSERT (uxIndexToNotify < 1);
     let previous = ulNotifiedValue (tcb k t);
     let original = ucNotifyState (tcb k t);
     let k = upd_tcb t (\<lambda>b. b\<lparr>ucNotifyState := taskNOTIFICATION_RECEIVED\<rparr>) k;
     let (v, r) = notify_value eAction ulValue original previous;
     let k = upd_tcb t (\<lambda>b. b\<lparr>ulNotifiedValue := v\<rparr>) k;
     (woken, k) \<leftarrow> notify_from_isr t original k;
     Some (r, previous, woken, k)
   }"

definition vTaskGenericNotifyGiveFromISR :: "task \<Rightarrow> u32 \<Rightarrow> kernel \<Rightarrow> (bool \<times> kernel) option" where
  "vTaskGenericNotifyGiveFromISR t uxIndexToNotify k = do {
     configASSERT (t \<noteq> 0);
     configASSERT (uxIndexToNotify < 1);
     let original = ucNotifyState (tcb k t);
     let k = upd_tcb t (\<lambda>b. b\<lparr>ucNotifyState := taskNOTIFICATION_RECEIVED\<rparr>) k;
     let k = upd_tcb t (\<lambda>b. b\<lparr>ulNotifiedValue := ulNotifiedValue b + 1\<rparr>) k;
     notify_from_isr t original k
   }"

definition xTaskGenericNotifyStateClear :: "task \<Rightarrow> u32 \<Rightarrow> kernel \<Rightarrow> (bool \<times> kernel) option" where
  "xTaskGenericNotifyStateClear xTask uxIndexToClear k = do {
     configASSERT (uxIndexToClear < 1);
     let t = prvGetTCBFromHandle xTask k;
     b \<leftarrow> TCB t k;
     Some (if ucNotifyState b = taskNOTIFICATION_RECEIVED
           then (True, upd_tcb t (\<lambda>b. b\<lparr>ucNotifyState := taskNOT_WAITING_NOTIFICATION\<rparr>) k) else (False, k))
   }"

definition ulTaskGenericNotifyValueClear :: "task \<Rightarrow> u32 \<Rightarrow> kernel \<Rightarrow> (u32 \<times> kernel) option" where
  "ulTaskGenericNotifyValueClear xTask ulBitsToClear k = do {
     let t = prvGetTCBFromHandle xTask k;
     b \<leftarrow> TCB t k;
     Some (ulNotifiedValue b, upd_tcb t (\<lambda>b. b\<lparr>ulNotifiedValue := and (ulNotifiedValue b) (not ulBitsToClear)\<rparr>) k)
   }"

end
