(* ===== verification/Queue.thy ===== *)
theory Queue
  imports KernelApi Heap4
begin

text \<open>
  Queues, semaphores and mutexes, \<open>src/libraries/freertos/queue.c\<close>, over the scheduler of tasks.c and the
  allocator heap_4. A queue handle is the address of its header; the two event lists in it are known by
  their addresses. The storage of the items is part of the heap's bytes. The configuration is the port's:
  dynamic allocation, no queue sets, no registry, no trace facility.

  Critical sections are atomic. What other tasks and interrupts do between them enters at these points of a call, \<open>env n\<close>
  at the \<open>n\<close>-th: after an attempt that failed and before the scheduler is suspended, in the locked section (after
  \<open>prvLockQueue\<close>, and again after the task has been put on the event list and before \<open>prvUnlockQueue\<close>), and after the wait. There is no such
  point between \<open>vTaskSuspendAll\<close> and \<open>prvLockQueue\<close>, between the two critical sections of \<open>prvUnlockQueue\<close>, or between
  it and \<open>xTaskResumeAll\<close>: an interrupt there is modelled as one that comes at a neighbouring point.
\<close>

section \<open>State\<close>

text \<open>
  The union of the header holds the tail and read pointers of a queue, or the holder and the call count
  of a mutex: two names for each of its two words.
\<close>

record xQUEUE =
  pcHead :: u32
  pcWriteTo :: u32
  u0 :: u32
  u1 :: u32
  uxMessagesWaiting :: u32
  uxLength :: u32
  uxItemSize :: u32
  cRxLock :: u8
  cTxLock :: u8

abbreviation pcTail :: "xQUEUE \<Rightarrow> u32" where "pcTail \<equiv> u0"
abbreviation xMutexHolder :: "xQUEUE \<Rightarrow> task" where "xMutexHolder \<equiv> u0"
abbreviation pcReadFrom :: "xQUEUE \<Rightarrow> u32" where "pcReadFrom \<equiv> u1"
abbreviation uxRecursiveCallCount :: "xQUEUE \<Rightarrow> u32" where "uxRecursiveCallCount \<equiv> u1"

text \<open>An event group is its bits; its list of waiting tasks is one of the scheduler's lists.\<close>

record EventGroup_t =
  uxEventBits :: u32

text \<open>The kernel objects together: the scheduler, the queues and event groups at their addresses, the heap.\<close>

record os =
  kern :: kernel
  queue :: "u32 \<Rightarrow> xQUEUE"
  heap :: heap
  group :: "u32 \<Rightarrow> EventGroup_t"

definition sizeof_Queue_t :: u32 where "sizeof_Queue_t = 72"
definition SIZE_MAX :: u32 where "SIZE_MAX = 0xFFFFFFFF"
definition queueUNLOCKED :: u8 where "queueUNLOCKED = 0xFF"
definition queueLOCKED_UNMODIFIED :: u8 where "queueLOCKED_UNMODIFIED = 0"
definition queueINT8_MAX :: u8 where "queueINT8_MAX = 127"
definition queueSEND_TO_BACK :: u32 where "queueSEND_TO_BACK = 0"
definition queueSEND_TO_FRONT :: u32 where "queueSEND_TO_FRONT = 1"
definition queueOVERWRITE :: u32 where "queueOVERWRITE = 2"

definition xTasksWaitingToSend :: "u32 \<Rightarrow> list_id" where "xTasksWaitingToSend q = EventList (q + 16)"
definition xTasksWaitingToReceive :: "u32 \<Rightarrow> list_id" where "xTasksWaitingToReceive q = EventList (q + 36)"

definition upd_queue :: "u32 \<Rightarrow> (xQUEUE \<Rightarrow> xQUEUE) \<Rightarrow> os \<Rightarrow> os" where
  "upd_queue q f s = s\<lparr>queue := (queue s)(q := f (queue s q))\<rparr>"

definition on_kernel :: "(kernel \<Rightarrow> kernel option) \<Rightarrow> os \<Rightarrow> os option" where
  "on_kernel f s = map_option (\<lambda>k. s\<lparr>kern := k\<rparr>) (f (kern s))"

definition is_mutex :: "xQUEUE \<Rightarrow> bool" where "is_mutex x \<longleftrightarrow> pcHead x = 0"

text \<open>
  \<open>memcpy\<close> between the caller's object and the storage. \<open>None\<close> as the object is the null pointer; an
  object that is too small is undefined behaviour.
\<close>

definition store_bytes :: "u32 \<Rightarrow> u8 list \<Rightarrow> (u32 \<Rightarrow> u8) \<Rightarrow> u32 \<Rightarrow> u8" where
  "store_bytes p bs m = (\<lambda>a. if unat (a - p) < length bs then bs ! unat (a - p) else m a)"

definition load_bytes :: "u32 \<Rightarrow> nat \<Rightarrow> (u32 \<Rightarrow> u8) \<Rightarrow> u8 list" where
  "load_bytes p n m = map (\<lambda>i. m (p + of_nat i)) [0..<n]"

definition memcpy_in :: "u32 \<Rightarrow> u8 list option \<Rightarrow> u32 \<Rightarrow> os \<Rightarrow> os option" where
  "memcpy_in p src n s = (case src of None \<Rightarrow> None
     | Some bs \<Rightarrow> if unat n \<le> length bs
         then Some (s\<lparr>heap := heap s\<lparr>bytes := store_bytes p (take (unat n) bs) (bytes (heap s))\<rparr>\<rparr>) else None)"

definition memcpy_out :: "u8 list option \<Rightarrow> u32 \<Rightarrow> u32 \<Rightarrow> os \<Rightarrow> u8 list option option" where
  "memcpy_out buf p n s = (case buf of None \<Rightarrow> None
     | Some bs \<Rightarrow> if unat n \<le> length bs
         then Some (Some (load_bytes p (unat n) (bytes (heap s)) @ drop (unat n) bs)) else None)"

section \<open>Locking\<close>

definition prvLockQueue :: "u32 \<Rightarrow> os \<Rightarrow> os" where
  "prvLockQueue q s =
     (let s = (if cRxLock (queue s q) = queueUNLOCKED then upd_queue q (\<lambda>x. x\<lparr>cRxLock := queueLOCKED_UNMODIFIED\<rparr>) s else s)
      in if cTxLock (queue s q) = queueUNLOCKED then upd_queue q (\<lambda>x. x\<lparr>cTxLock := queueLOCKED_UNMODIFIED\<rparr>) s else s)"

definition prvIncrementQueueTxLock :: "u32 \<Rightarrow> u8 \<Rightarrow> os \<Rightarrow> os option" where
  "prvIncrementQueueTxLock q lock s =
     (if (scast lock :: u32) < uxTaskGetNumberOfTasks (kern s)
      then do { configASSERT (lock \<noteq> queueINT8_MAX); Some (upd_queue q (\<lambda>x. x\<lparr>cTxLock := lock + 1\<rparr>) s) }
      else Some s)"

definition prvIncrementQueueRxLock :: "u32 \<Rightarrow> u8 \<Rightarrow> os \<Rightarrow> os option" where
  "prvIncrementQueueRxLock q lock s =
     (if (scast lock :: u32) < uxTaskGetNumberOfTasks (kern s)
      then do { configASSERT (lock \<noteq> queueINT8_MAX); Some (upd_queue q (\<lambda>x. x\<lparr>cRxLock := lock + 1\<rparr>) s) }
      else Some s)"

text \<open>One waiting task is woken for each count of the lock, as long as there is one.\<close>

fun unlock_loop :: "nat \<Rightarrow> list_id \<Rightarrow> kernel \<Rightarrow> kernel option" where
  "unlock_loop 0 l k = Some k"
| "unlock_loop (Suc n) l k =
     (if \<not> list_empty l k
      then do {
        (b, k) \<leftarrow> xTaskRemoveFromEventList l k;
        unlock_loop n l (if b then vTaskMissedYield k else k)
      }
      else Some k)"

definition prvUnlockQueue :: "u32 \<Rightarrow> os \<Rightarrow> os option" where
  "prvUnlockQueue q s = do {
     s \<leftarrow> on_kernel (unlock_loop (nat (sint (cTxLock (queue s q)))) (xTasksWaitingToReceive q)) s;
     let s = upd_queue q (\<lambda>x. x\<lparr>cTxLock := queueUNLOCKED\<rparr>) s;
     s \<leftarrow> on_kernel (unlock_loop (nat (sint (cRxLock (queue s q)))) (xTasksWaitingToSend q)) s;
     Some (upd_queue q (\<lambda>x. x\<lparr>cRxLock := queueUNLOCKED\<rparr>) s)
   }"

section \<open>Waking a waiting task\<close>

text \<open>The first waiting task becomes ready; the result tells whether it should run at once.\<close>

definition wake_one :: "list_id \<Rightarrow> os \<Rightarrow> (bool \<times> os) option" where
  "wake_one l s =
     (if \<not> list_empty l (kern s)
      then do { (b, k) \<leftarrow> xTaskRemoveFromEventList l (kern s); Some (b, s\<lparr>kern := k\<rparr>) }
      else Some (False, s))"

definition queueYIELD_IF_USING_PREEMPTION :: "os \<Rightarrow> os" where
  "queueYIELD_IF_USING_PREEMPTION s = s\<lparr>kern := yield (kern s)\<rparr>"

definition wake_and_yield :: "list_id \<Rightarrow> os \<Rightarrow> os option" where
  "wake_and_yield l s = do {
     (b, s) \<leftarrow> wake_one l s;
     Some (if b then queueYIELD_IF_USING_PREEMPTION s else s)
   }"

section \<open>Copying items\<close>

definition prvCopyDataToQueue :: "u32 \<Rightarrow> u8 list option \<Rightarrow> u32 \<Rightarrow> os \<Rightarrow> (bool \<times> os) option" where
  "prvCopyDataToQueue q src xPosition s = do {
     let x = queue s q;
     let n = uxMessagesWaiting x;
     (r, n, s) \<leftarrow>
       (if uxItemSize x = 0
        then if is_mutex x
             then do {
               (r, k) \<leftarrow> xTaskPriorityDisinherit (xMutexHolder x) (kern s);
               Some (r, n, upd_queue q (\<lambda>x. x\<lparr>u0 := 0\<rparr>) (s\<lparr>kern := k\<rparr>))
             }
             else Some (False, n, s)
        else if xPosition = queueSEND_TO_BACK
        then do {
          s \<leftarrow> memcpy_in (pcWriteTo x) src (uxItemSize x) s;
          let w = pcWriteTo x + uxItemSize x;
          let w = (if w \<ge> pcTail x then pcHead x else w);
          Some (False, n, upd_queue q (\<lambda>x. x\<lparr>pcWriteTo := w\<rparr>) s)
        }
        else do {
          s \<leftarrow> memcpy_in (pcReadFrom x) src (uxItemSize x) s;
          let r = pcReadFrom x - uxItemSize x;
          let r = (if r < pcHead x then pcTail x - uxItemSize x else r);
          let n = (if xPosition = queueOVERWRITE then (if n > 0 then n - 1 else n) else n);
          Some (False, n, upd_queue q (\<lambda>x. x\<lparr>u1 := r\<rparr>) s)
        });
     Some (r, upd_queue q (\<lambda>x. x\<lparr>uxMessagesWaiting := n + 1\<rparr>) s)
   }"

definition prvCopyDataFromQueue :: "u32 \<Rightarrow> u8 list option \<Rightarrow> os \<Rightarrow> (u8 list option \<times> os) option" where
  "prvCopyDataFromQueue q buf s =
     (let x = queue s q
      in if uxItemSize x \<noteq> 0
         then do {
           let r = pcReadFrom x + uxItemSize x;
           let r = (if r \<ge> pcTail x then pcHead x else r);
           buf \<leftarrow> memcpy_out buf r (uxItemSize x) s;
           Some (buf, upd_queue q (\<lambda>x. x\<lparr>u1 := r\<rparr>) s)
         }
         else Some (buf, s))"

definition prvIsQueueEmpty :: "u32 \<Rightarrow> os \<Rightarrow> bool" where
  "prvIsQueueEmpty q s \<longleftrightarrow> uxMessagesWaiting (queue s q) = 0"

definition prvIsQueueFull :: "u32 \<Rightarrow> os \<Rightarrow> bool" where
  "prvIsQueueFull q s \<longleftrightarrow> uxMessagesWaiting (queue s q) = uxLength (queue s q)"

section \<open>Reset, creation and deletion\<close>

definition xQueueGenericReset :: "u32 \<Rightarrow> bool \<Rightarrow> os \<Rightarrow> (bool \<times> os) option" where
  "xQueueGenericReset q xNewQueue s = do {
     configASSERT (q \<noteq> 0);
     let x = queue s q;
     (xReturn, s) \<leftarrow>
       (if q \<noteq> 0 \<and> uxLength x \<ge> 1 \<and> SIZE_MAX div uxLength x \<ge> uxItemSize x
        then do {
          let s = upd_queue q (\<lambda>x. x\<lparr>u0 := pcHead x + uxLength x * uxItemSize x\<rparr>) s;
          let s = upd_queue q (\<lambda>x. x\<lparr>uxMessagesWaiting := 0\<rparr>) s;
          let s = upd_queue q (\<lambda>x. x\<lparr>pcWriteTo := pcHead x\<rparr>) s;
          let s = upd_queue q (\<lambda>x. x\<lparr>u1 := pcHead x + (uxLength x - 1) * uxItemSize x\<rparr>) s;
          let s = upd_queue q (\<lambda>x. x\<lparr>cRxLock := queueUNLOCKED\<rparr>) s;
          let s = upd_queue q (\<lambda>x. x\<lparr>cTxLock := queueUNLOCKED\<rparr>) s;
          s \<leftarrow> (if \<not> xNewQueue then wake_and_yield (xTasksWaitingToSend q) s
               else Some (s\<lparr>kern := (kern s)\<lparr>lists := vListInitialise (xTasksWaitingToReceive q)
                            (vListInitialise (xTasksWaitingToSend q) (lists (kern s)))\<rparr>\<rparr>));
          Some (True, s)
        }
        else Some (False, s));
     configASSERT xReturn;
     Some (xReturn, s)
   }"

definition prvInitialiseNewQueue :: "u32 \<Rightarrow> u32 \<Rightarrow> u32 \<Rightarrow> u32 \<Rightarrow> os \<Rightarrow> os option" where
  "prvInitialiseNewQueue uxQueueLength itemSize pucQueueStorage q s = do {
     let s = (if itemSize = 0 then upd_queue q (\<lambda>x. x\<lparr>pcHead := q\<rparr>) s else upd_queue q (\<lambda>x. x\<lparr>pcHead := pucQueueStorage\<rparr>) s);
     let s = upd_queue q (\<lambda>x. x\<lparr>uxLength := uxQueueLength\<rparr>) s;
     let s = upd_queue q (\<lambda>x. x\<lparr>uxItemSize := itemSize\<rparr>) s;
     (r, s) \<leftarrow> xQueueGenericReset q True s;
     Some s
   }"

text \<open>The null handle when the heap is exhausted; a bad length or a size that overflows fails the assertion.\<close>

definition xQueueGenericCreate :: "u32 \<Rightarrow> u32 \<Rightarrow> os \<Rightarrow> (u32 \<times> os) option" where
  "xQueueGenericCreate uxQueueLength itemSize s =
     (if uxQueueLength > 0 \<and> SIZE_MAX div uxQueueLength \<ge> itemSize \<and> SIZE_MAX - sizeof_Queue_t \<ge> uxQueueLength * itemSize
      then do {
        let xQueueSizeInBytes = uxQueueLength * itemSize;
        (q, h) \<leftarrow> pvPortMalloc (sizeof_Queue_t + xQueueSizeInBytes) (heap s);
        let s = s\<lparr>heap := h\<rparr>;
        (if q \<noteq> 0
         then do {
           s \<leftarrow> prvInitialiseNewQueue uxQueueLength itemSize (q + sizeof_Queue_t) q s;
           Some (q, s)
         }
         else Some (q, s))
      }
      else do { configASSERT False; Some (0, s) })"

definition xQueueCreateCountingSemaphore :: "u32 \<Rightarrow> u32 \<Rightarrow> os \<Rightarrow> (u32 \<times> os) option" where
  "xQueueCreateCountingSemaphore uxMaxCount uxInitialCount s =
     (if uxMaxCount \<noteq> 0 \<and> uxInitialCount \<le> uxMaxCount
      then do {
        (q, s) \<leftarrow> xQueueGenericCreate uxMaxCount 0 s;
        Some (q, if q \<noteq> 0 then upd_queue q (\<lambda>x. x\<lparr>uxMessagesWaiting := uxInitialCount\<rparr>) s else s)
      }
      else do { configASSERT False; Some (0, s) })"

definition vQueueDelete :: "u32 \<Rightarrow> os \<Rightarrow> os option" where
  "vQueueDelete q s = do {
     configASSERT (q \<noteq> 0);
     map_option (\<lambda>h. s\<lparr>heap := h\<rparr>) (vPortFree q (heap s))
   }"

section \<open>Waiting\<close>

text \<open>
  The part of each blocking call in which the queue is locked and the scheduler suspended: \<open>blocked\<close> is
  whether the reason to wait still holds, \<open>inherit\<close> what is done before the task waits. The result tells
  whether the time is over, and whether a priority was lent in this call, \<open>i\<close> saying whether one was before.
\<close>

definition resume_all :: "os \<Rightarrow> (bool \<times> os) option" where
  "resume_all s = map_option (\<lambda>(b, k). (b, s\<lparr>kern := k\<rparr>)) (xTaskResumeAll (kern s))"

definition wait_section :: "(nat \<Rightarrow> os \<Rightarrow> os) \<Rightarrow> nat \<Rightarrow> u32 \<Rightarrow> (os \<Rightarrow> bool) \<Rightarrow> (bool \<Rightarrow> os \<Rightarrow> (bool \<times> os) option) \<Rightarrow> list_id
    \<Rightarrow> bool \<Rightarrow> TimeOut_t \<Rightarrow> u32 \<Rightarrow> os \<Rightarrow> (bool \<times> bool \<times> TimeOut_t \<times> u32 \<times> os) option" where
  "wait_section env n q blocked inherit l i xTimeOut xTicksToWait s = do {
     let s = s\<lparr>kern := vTaskSuspendAll (kern s)\<rparr>;
     let s = prvLockQueue q s;
     let s = env n s;
     let (expired, xTimeOut, xTicksToWait) = xTaskCheckForTimeOut xTimeOut xTicksToWait (kern s);
     (if \<not> expired
      then if blocked s
        then do {
          (i, s) \<leftarrow> inherit i s;
          s \<leftarrow> on_kernel (vTaskPlaceOnEventList l xTicksToWait) s;
          let s = env (n + 1) s;
          s \<leftarrow> prvUnlockQueue q s;
          (yielded, s) \<leftarrow> resume_all s;
          Some (False, i, xTimeOut, xTicksToWait, if \<not> yielded then s\<lparr>kern := yield (kern s)\<rparr> else s)
        }
        else do {
          s \<leftarrow> prvUnlockQueue q s;
          (yielded, s) \<leftarrow> resume_all s;
          Some (False, i, xTimeOut, xTicksToWait, s)
        }
      else do {
        s \<leftarrow> prvUnlockQueue q s;
        (yielded, s) \<leftarrow> resume_all s;
        Some (True, i, xTimeOut, xTicksToWait, s)
      })
   }"

text \<open>A time-out is taken once, at the first failed attempt.\<close>

definition entry_time :: "TimeOut_t option \<Rightarrow> kernel \<Rightarrow> TimeOut_t" where
  "entry_time xTimeOut k = (case xTimeOut of None \<Rightarrow> vTaskInternalSetTimeOutState k | Some t \<Rightarrow> t)"

text \<open>Blocking is refused while the scheduler is suspended.\<close>

definition may_block :: "u32 \<Rightarrow> os \<Rightarrow> bool" where
  "may_block xTicksToWait s \<longleftrightarrow> \<not> (xTaskGetSchedulerState (kern s) = taskSCHEDULER_SUSPENDED \<and> xTicksToWait \<noteq> 0)"

text \<open>
  The timer task waits for messages with the scheduler suspended already. Interrupts come after the lock
  is taken and before it is released.
\<close>

definition vQueueWaitForMessageRestricted :: "(nat \<Rightarrow> os \<Rightarrow> os) \<Rightarrow> nat \<Rightarrow> u32 \<Rightarrow> u32 \<Rightarrow> bool \<Rightarrow> os \<Rightarrow> os option" where
  "vQueueWaitForMessageRestricted env n q xTicksToWait xWaitIndefinitely s = do {
     let s = env n (prvLockQueue q s);
     s \<leftarrow> (if uxMessagesWaiting (queue s q) = 0
          then on_kernel (vTaskPlaceOnEventListRestricted (xTasksWaitingToReceive q) xTicksToWait xWaitIndefinitely) s
          else Some s);
     prvUnlockQueue q (env (n + 1) s)
   }"

section \<open>Sending\<close>

text \<open>One attempt, a critical section: \<open>Some\<close> result, or \<open>None\<close> when the task has to wait.\<close>

definition send_attempt :: "u32 \<Rightarrow> u8 list option \<Rightarrow> u32 \<Rightarrow> u32 \<Rightarrow> os \<Rightarrow> (bool option \<times> os) option" where
  "send_attempt q pvItemToQueue xTicksToWait xCopyPosition s =
     (if uxMessagesWaiting (queue s q) < uxLength (queue s q) \<or> xCopyPosition = queueOVERWRITE
      then do {
        (xYieldRequired, s) \<leftarrow> prvCopyDataToQueue q pvItemToQueue xCopyPosition s;
        s \<leftarrow> (if \<not> list_empty (xTasksWaitingToReceive q) (kern s)
             then wake_and_yield (xTasksWaitingToReceive q) s
             else Some (if xYieldRequired then queueYIELD_IF_USING_PREEMPTION s else s));
        Some (Some True, s)
      }
      else if xTicksToWait = 0 then Some (Some False, s)
      else Some (None, s))"

partial_function (option) send_loop :: "(nat \<Rightarrow> os \<Rightarrow> os) \<Rightarrow> nat \<Rightarrow> u32 \<Rightarrow> u8 list option \<Rightarrow> TimeOut_t option \<Rightarrow> u32 \<Rightarrow> u32 \<Rightarrow> os
    \<Rightarrow> (bool \<times> os) option" where
  "send_loop env n q pvItemToQueue xTimeOut xTicksToWait xCopyPosition s = do {
     (r, s) \<leftarrow> send_attempt q pvItemToQueue xTicksToWait xCopyPosition s;
     (case r of Some b \<Rightarrow> Some (b, s)
      | None \<Rightarrow> do {
          let t = entry_time xTimeOut (kern s);
          let s = env n s;
          (expired, i, t, ticks, s) \<leftarrow> wait_section env (n + 1) q (prvIsQueueFull q) (\<lambda>i s. Some (i, s)) (xTasksWaitingToSend q) False t xTicksToWait s;
          (if expired then Some (False, s)
           else send_loop env (n + 4) q pvItemToQueue (Some t) ticks xCopyPosition (env (n + 3) s))
        })
   }"

text \<open>What a send asserts when it is entered.\<close>

definition send_entry :: "u32 \<Rightarrow> u8 list option \<Rightarrow> u32 \<Rightarrow> u32 \<Rightarrow> os \<Rightarrow> unit option" where
  "send_entry q pvItemToQueue xTicksToWait xCopyPosition s = do {
     configASSERT (q \<noteq> 0);
     configASSERT (\<not> (pvItemToQueue = None \<and> uxItemSize (queue s q) \<noteq> 0));
     configASSERT (\<not> (xCopyPosition = queueOVERWRITE \<and> uxLength (queue s q) \<noteq> 1));
     configASSERT (may_block xTicksToWait s)
   }"

definition xQueueGenericSend :: "(nat \<Rightarrow> os \<Rightarrow> os) \<Rightarrow> u32 \<Rightarrow> u8 list option \<Rightarrow> u32 \<Rightarrow> u32 \<Rightarrow> os \<Rightarrow> (bool \<times> os) option" where
  "xQueueGenericSend env q pvItemToQueue xTicksToWait xCopyPosition s = do {
     send_entry q pvItemToQueue xTicksToWait xCopyPosition s;
     send_loop env 0 q pvItemToQueue None xTicksToWait xCopyPosition s
   }"

text \<open>The interrupt version also tells whether a task of higher priority was woken.\<close>

definition xQueueGenericSendFromISR :: "u32 \<Rightarrow> u8 list option \<Rightarrow> u32 \<Rightarrow> os \<Rightarrow> (bool \<times> bool \<times> os) option" where
  "xQueueGenericSendFromISR q pvItemToQueue xCopyPosition s = do {
     configASSERT (q \<noteq> 0);
     configASSERT (\<not> (pvItemToQueue = None \<and> uxItemSize (queue s q) \<noteq> 0));
     configASSERT (\<not> (xCopyPosition = queueOVERWRITE \<and> uxLength (queue s q) \<noteq> 1));
     (if uxMessagesWaiting (queue s q) < uxLength (queue s q) \<or> xCopyPosition = queueOVERWRITE
      then do {
        let lock = cTxLock (queue s q);
        (y, s) \<leftarrow> prvCopyDataToQueue q pvItemToQueue xCopyPosition s;
        (woken, s) \<leftarrow> (if lock = queueUNLOCKED then wake_one (xTasksWaitingToReceive q) s
                      else do { s \<leftarrow> prvIncrementQueueTxLock q lock s; Some (False, s) });
        Some (True, woken, s)
      }
      else Some (False, False, s))
   }"

definition xQueueGiveFromISR :: "u32 \<Rightarrow> os \<Rightarrow> (bool \<times> bool \<times> os) option" where
  "xQueueGiveFromISR q s = do {
     configASSERT (q \<noteq> 0);
     configASSERT (uxItemSize (queue s q) = 0);
     configASSERT (\<not> (is_mutex (queue s q) \<and> xMutexHolder (queue s q) \<noteq> 0));
     let n = uxMessagesWaiting (queue s q);
     (if n < uxLength (queue s q)
      then do {
        let lock = cTxLock (queue s q);
        let s = upd_queue q (\<lambda>x. x\<lparr>uxMessagesWaiting := n + 1\<rparr>) s;
        (woken, s) \<leftarrow> (if lock = queueUNLOCKED then wake_one (xTasksWaitingToReceive q) s
                      else do { s \<leftarrow> prvIncrementQueueTxLock q lock s; Some (False, s) });
        Some (True, woken, s)
      }
      else Some (False, False, s))
   }"

section \<open>Receiving\<close>

definition receive_attempt :: "u32 \<Rightarrow> u8 list option \<Rightarrow> u32 \<Rightarrow> os \<Rightarrow> (bool option \<times> u8 list option \<times> os) option" where
  "receive_attempt q pvBuffer xTicksToWait s =
     (let n = uxMessagesWaiting (queue s q)
      in if n > 0
         then do {
           (buf, s) \<leftarrow> prvCopyDataFromQueue q pvBuffer s;
           let s = upd_queue q (\<lambda>x. x\<lparr>uxMessagesWaiting := n - 1\<rparr>) s;
           s \<leftarrow> wake_and_yield (xTasksWaitingToSend q) s;
           Some (Some True, buf, s)
         }
         else if xTicksToWait = 0 then Some (Some False, pvBuffer, s)
         else Some (None, pvBuffer, s))"

definition peek_attempt :: "u32 \<Rightarrow> u8 list option \<Rightarrow> u32 \<Rightarrow> os \<Rightarrow> (bool option \<times> u8 list option \<times> os) option" where
  "peek_attempt q pvBuffer xTicksToWait s =
     (if uxMessagesWaiting (queue s q) > 0
      then do {
        let pcOriginalReadPosition = pcReadFrom (queue s q);
        (buf, s) \<leftarrow> prvCopyDataFromQueue q pvBuffer s;
        let s = upd_queue q (\<lambda>x. x\<lparr>u1 := pcOriginalReadPosition\<rparr>) s;
        s \<leftarrow> wake_and_yield (xTasksWaitingToReceive q) s;
        Some (Some True, buf, s)
      }
      else if xTicksToWait = 0 then Some (Some False, pvBuffer, s)
      else Some (None, pvBuffer, s))"

text \<open>The two loops differ in the attempt only.\<close>

partial_function (option) receive_loop :: "(u32 \<Rightarrow> os \<Rightarrow> (bool option \<times> u8 list option \<times> os) option) \<Rightarrow> (nat \<Rightarrow> os \<Rightarrow> os) \<Rightarrow> nat \<Rightarrow> u32
    \<Rightarrow> u8 list option \<Rightarrow> TimeOut_t option \<Rightarrow> u32 \<Rightarrow> os \<Rightarrow> (bool \<times> u8 list option \<times> os) option" where
  "receive_loop attempt env n q pvBuffer xTimeOut xTicksToWait s = do {
     (r, buf, s) \<leftarrow> attempt xTicksToWait s;
     (case r of Some b \<Rightarrow> Some (b, buf, s)
      | None \<Rightarrow> do {
          let t = entry_time xTimeOut (kern s);
          let s = env n s;
          (expired, i, t, ticks, s) \<leftarrow> wait_section env (n + 1) q (prvIsQueueEmpty q) (\<lambda>i s. Some (i, s)) (xTasksWaitingToReceive q) False t xTicksToWait s;
          let s = env (n + 3) s;
          (if expired \<and> prvIsQueueEmpty q s then Some (False, pvBuffer, s)
           else receive_loop attempt env (n + 4) q pvBuffer (Some t) ticks s)
        })
   }"

text \<open>What a receive, a peek and a take assert when they are entered.\<close>

definition receive_entry :: "u32 \<Rightarrow> u8 list option \<Rightarrow> u32 \<Rightarrow> os \<Rightarrow> unit option" where
  "receive_entry q pvBuffer xTicksToWait s = do {
     configASSERT (q \<noteq> 0);
     configASSERT (\<not> (pvBuffer = None \<and> uxItemSize (queue s q) \<noteq> 0));
     configASSERT (may_block xTicksToWait s)
   }"

definition take_entry :: "u32 \<Rightarrow> u32 \<Rightarrow> os \<Rightarrow> unit option" where
  "take_entry q xTicksToWait s = do {
     configASSERT (q \<noteq> 0);
     configASSERT (uxItemSize (queue s q) = 0);
     configASSERT (may_block xTicksToWait s)
   }"

definition xQueueReceive :: "(nat \<Rightarrow> os \<Rightarrow> os) \<Rightarrow> u32 \<Rightarrow> u8 list option \<Rightarrow> u32 \<Rightarrow> os \<Rightarrow> (bool \<times> u8 list option \<times> os) option" where
  "xQueueReceive env q pvBuffer xTicksToWait s = do {
     receive_entry q pvBuffer xTicksToWait s;
     receive_loop (receive_attempt q pvBuffer) env 0 q pvBuffer None xTicksToWait s
   }"

definition xQueuePeek :: "(nat \<Rightarrow> os \<Rightarrow> os) \<Rightarrow> u32 \<Rightarrow> u8 list option \<Rightarrow> u32 \<Rightarrow> os \<Rightarrow> (bool \<times> u8 list option \<times> os) option" where
  "xQueuePeek env q pvBuffer xTicksToWait s = do {
     receive_entry q pvBuffer xTicksToWait s;
     receive_loop (peek_attempt q pvBuffer) env 0 q pvBuffer None xTicksToWait s
   }"

definition xQueueReceiveFromISR :: "u32 \<Rightarrow> u8 list option \<Rightarrow> os \<Rightarrow> (bool \<times> bool \<times> u8 list option \<times> os) option" where
  "xQueueReceiveFromISR q pvBuffer s = do {
     configASSERT (q \<noteq> 0);
     configASSERT (\<not> (pvBuffer = None \<and> uxItemSize (queue s q) \<noteq> 0));
     let n = uxMessagesWaiting (queue s q);
     (if n > 0
      then do {
        let lock = cRxLock (queue s q);
        (buf, s) \<leftarrow> prvCopyDataFromQueue q pvBuffer s;
        let s = upd_queue q (\<lambda>x. x\<lparr>uxMessagesWaiting := n - 1\<rparr>) s;
        (woken, s) \<leftarrow> (if lock = queueUNLOCKED then wake_one (xTasksWaitingToSend q) s
                      else do { s \<leftarrow> prvIncrementQueueRxLock q lock s; Some (False, s) });
        Some (True, woken, buf, s)
      }
      else Some (False, False, pvBuffer, s))
   }"

definition xQueuePeekFromISR :: "u32 \<Rightarrow> u8 list option \<Rightarrow> os \<Rightarrow> (bool \<times> u8 list option \<times> os) option" where
  "xQueuePeekFromISR q pvBuffer s = do {
     configASSERT (q \<noteq> 0);
     configASSERT (\<not> (pvBuffer = None \<and> uxItemSize (queue s q) \<noteq> 0));
     configASSERT (uxItemSize (queue s q) \<noteq> 0);
     (if uxMessagesWaiting (queue s q) > 0
      then do {
        let pcOriginalReadPosition = pcReadFrom (queue s q);
        (buf, s) \<leftarrow> prvCopyDataFromQueue q pvBuffer s;
        Some (True, buf, upd_queue q (\<lambda>x. x\<lparr>u1 := pcOriginalReadPosition\<rparr>) s)
      }
      else Some (False, pvBuffer, s))
   }"

section \<open>Semaphores and mutexes\<close>

definition prvGetDisinheritPriorityAfterTimeout :: "u32 \<Rightarrow> kernel \<Rightarrow> u32 option" where
  "prvGetDisinheritPriorityAfterTimeout q k =
     (if list_length (xTasksWaitingToReceive q) k > 0
      then map_option (\<lambda>v. configMAX_PRIORITIES - v) (listGET_ITEM_VALUE_OF_HEAD_ENTRY (xTasksWaitingToReceive q) (lists k))
      else Some 0)"

definition take_attempt :: "u32 \<Rightarrow> u32 \<Rightarrow> os \<Rightarrow> (bool option \<times> os) option" where
  "take_attempt q xTicksToWait s =
     (let n = uxMessagesWaiting (queue s q)
      in if n > 0
         then do {
           let s = upd_queue q (\<lambda>x. x\<lparr>uxMessagesWaiting := n - 1\<rparr>) s;
           let s = (if is_mutex (queue s q)
                    then (let (t, k) = pvTaskIncrementMutexHeldCount (kern s) in upd_queue q (\<lambda>x. x\<lparr>u0 := t\<rparr>) (s\<lparr>kern := k\<rparr>))
                    else s);
           s \<leftarrow> wake_and_yield (xTasksWaitingToSend q) s;
           Some (Some True, s)
         }
         else if xTicksToWait = 0 then Some (Some False, s)
         else Some (None, s))"

definition inherit_holder :: "u32 \<Rightarrow> bool \<Rightarrow> os \<Rightarrow> (bool \<times> os) option" where
  "inherit_holder q i s =
     (if is_mutex (queue s q)
      then map_option (\<lambda>(b, k). (b, s\<lparr>kern := k\<rparr>)) (xTaskPriorityInherit (xMutexHolder (queue s q)) (kern s))
      else Some (i, s))"

partial_function (option) take_loop :: "(nat \<Rightarrow> os \<Rightarrow> os) \<Rightarrow> nat \<Rightarrow> u32 \<Rightarrow> bool \<Rightarrow> TimeOut_t option \<Rightarrow> u32 \<Rightarrow> os \<Rightarrow> (bool \<times> os) option" where
  "take_loop env n q xInheritanceOccurred xTimeOut xTicksToWait s = do {
     (r, s) \<leftarrow> take_attempt q xTicksToWait s;
     (case r of Some b \<Rightarrow> Some (b, s)
      | None \<Rightarrow> do {
          let t = entry_time xTimeOut (kern s);
          let s = env n s;
          (expired, xInheritanceOccurred, t, ticks, s) \<leftarrow> wait_section env (n + 1) q (prvIsQueueEmpty q) (inherit_holder q) (xTasksWaitingToReceive q) xInheritanceOccurred t xTicksToWait s;
          let s = env (n + 3) s;
          (if expired \<and> prvIsQueueEmpty q s
           then do {
             s \<leftarrow> (if xInheritanceOccurred
                  then do {
                    p \<leftarrow> prvGetDisinheritPriorityAfterTimeout q (kern s);
                    on_kernel (vTaskPriorityDisinheritAfterTimeout (xMutexHolder (queue s q)) p) s
                  }
                  else Some s);
             Some (False, s)
           }
           else take_loop env (n + 4) q xInheritanceOccurred (Some t) ticks s)
        })
   }"

definition xQueueSemaphoreTake :: "(nat \<Rightarrow> os \<Rightarrow> os) \<Rightarrow> u32 \<Rightarrow> u32 \<Rightarrow> os \<Rightarrow> (bool \<times> os) option" where
  "xQueueSemaphoreTake env q xTicksToWait s = do {
     take_entry q xTicksToWait s;
     take_loop env 0 q False None xTicksToWait s
   }"

text \<open>A new mutex is given once; this never blocks.\<close>

definition prvInitialiseMutex :: "u32 \<Rightarrow> os \<Rightarrow> os option" where
  "prvInitialiseMutex q s =
     (if q \<noteq> 0
      then do {
        let s = upd_queue q (\<lambda>x. x\<lparr>u0 := 0\<rparr>) s;
        let s = upd_queue q (\<lambda>x. x\<lparr>pcHead := 0\<rparr>) s;
        let s = upd_queue q (\<lambda>x. x\<lparr>u1 := 0\<rparr>) s;
        (r, s) \<leftarrow> xQueueGenericSend (\<lambda>n s. s) q None 0 queueSEND_TO_BACK s;
        Some s
      }
      else Some s)"

definition xQueueCreateMutex :: "os \<Rightarrow> (u32 \<times> os) option" where
  "xQueueCreateMutex s = do {
     (q, s) \<leftarrow> xQueueGenericCreate 1 0 s;
     s \<leftarrow> prvInitialiseMutex q s;
     Some (q, s)
   }"

definition xQueueGetMutexHolder :: "u32 \<Rightarrow> os \<Rightarrow> task option" where
  "xQueueGetMutexHolder q s = do {
     configASSERT (q \<noteq> 0);
     Some (if is_mutex (queue s q) then xMutexHolder (queue s q) else 0)
   }"

definition xQueueGiveMutexRecursive :: "u32 \<Rightarrow> os \<Rightarrow> (bool \<times> os) option" where
  "xQueueGiveMutexRecursive q s = do {
     configASSERT (q \<noteq> 0);
     (if xMutexHolder (queue s q) = xTaskGetCurrentTaskHandle (kern s)
      then do {
        let s = upd_queue q (\<lambda>x. x\<lparr>u1 := uxRecursiveCallCount x - 1\<rparr>) s;
        s \<leftarrow> (if uxRecursiveCallCount (queue s q) = 0
             then map_option snd (xQueueGenericSend (\<lambda>n s. s) q None 0 queueSEND_TO_BACK s)
             else Some s);
        Some (True, s)
      }
      else Some (False, s))
   }"

definition xQueueTakeMutexRecursive :: "(nat \<Rightarrow> os \<Rightarrow> os) \<Rightarrow> u32 \<Rightarrow> u32 \<Rightarrow> os \<Rightarrow> (bool \<times> os) option" where
  "xQueueTakeMutexRecursive env q xTicksToWait s = do {
     configASSERT (q \<noteq> 0);
     (if xMutexHolder (queue s q) = xTaskGetCurrentTaskHandle (kern s)
      then Some (True, upd_queue q (\<lambda>x. x\<lparr>u1 := uxRecursiveCallCount x + 1\<rparr>) s)
      else do {
        (r, s) \<leftarrow> xQueueSemaphoreTake env q xTicksToWait s;
        Some (r, if r then upd_queue q (\<lambda>x. x\<lparr>u1 := uxRecursiveCallCount x + 1\<rparr>) s else s)
      })
   }"

section \<open>Queries\<close>

definition uxQueueMessagesWaiting :: "u32 \<Rightarrow> os \<Rightarrow> u32 option" where
  "uxQueueMessagesWaiting q s = do { configASSERT (q \<noteq> 0); Some (uxMessagesWaiting (queue s q)) }"

definition uxQueueSpacesAvailable :: "u32 \<Rightarrow> os \<Rightarrow> u32 option" where
  "uxQueueSpacesAvailable q s = do { configASSERT (q \<noteq> 0); Some (uxLength (queue s q) - uxMessagesWaiting (queue s q)) }"

definition uxQueueMessagesWaitingFromISR :: "u32 \<Rightarrow> os \<Rightarrow> u32 option" where
  "uxQueueMessagesWaitingFromISR q s = do { configASSERT (q \<noteq> 0); Some (uxMessagesWaiting (queue s q)) }"

definition xQueueIsQueueEmptyFromISR :: "u32 \<Rightarrow> os \<Rightarrow> bool option" where
  "xQueueIsQueueEmptyFromISR q s = do { configASSERT (q \<noteq> 0); Some (uxMessagesWaiting (queue s q) = 0) }"

definition xQueueIsQueueFullFromISR :: "u32 \<Rightarrow> os \<Rightarrow> bool option" where
  "xQueueIsQueueFullFromISR q s = do { configASSERT (q \<noteq> 0); Some (uxMessagesWaiting (queue s q) = uxLength (queue s q)) }"

end
