(* ===== verification/EventGroups.thy ===== *)
theory EventGroups
  imports Queue
begin

text \<open>
  Event groups, \<open>src/libraries/freertos/event_groups.c\<close>: tasks wait for bits of a word and are released
  when the bits are set. A handle is the address of the structure, which lies in a block of heap_4; the
  list of waiting tasks in it is known by its address. What a waiting task waits for is in the value of
  its event list item. The configuration is the port's: dynamic allocation, 32 bit ticks, no trace
  facility, so the variants for interrupts are not compiled.

  \<open>env n\<close> is what interrupts, and other tasks where the scheduler runs, do at the \<open>n\<close>-th point of a call
  that lets them.
\<close>

section \<open>State\<close>

definition eventCLEAR_EVENTS_ON_EXIT_BIT :: u32 where "eventCLEAR_EVENTS_ON_EXIT_BIT = 0x01000000"
definition eventUNBLOCKED_DUE_TO_BIT_SET :: u32 where "eventUNBLOCKED_DUE_TO_BIT_SET = 0x02000000"
definition eventWAIT_FOR_ALL_BITS :: u32 where "eventWAIT_FOR_ALL_BITS = 0x04000000"
definition eventEVENT_BITS_CONTROL_BYTES :: u32 where "eventEVENT_BITS_CONTROL_BYTES = 0xff000000"

definition sizeof_EventGroup_t :: u32 where "sizeof_EventGroup_t = 24"

definition xTasksWaitingForBits :: "u32 \<Rightarrow> list_id" where "xTasksWaitingForBits g = EventList (g + 4)"

definition bits_of :: "u32 \<Rightarrow> os \<Rightarrow> u32" where
  "bits_of g s = uxEventBits (group s g)"

definition upd_bits :: "u32 \<Rightarrow> (u32 \<Rightarrow> u32) \<Rightarrow> os \<Rightarrow> os" where
  "upd_bits g f s = s\<lparr>group := (group s)(g := (group s g)\<lparr>uxEventBits := f (bits_of g s)\<rparr>)\<rparr>"

definition suspend_all :: "os \<Rightarrow> os" where
  "suspend_all s = s\<lparr>kern := vTaskSuspendAll (kern s)\<rparr>"

section \<open>Creation and deletion\<close>

text \<open>The null handle when the heap is exhausted.\<close>

definition xEventGroupCreate :: "os \<Rightarrow> (u32 \<times> os) option" where
  "xEventGroupCreate s = do {
     (g, h) \<leftarrow> pvPortMalloc sizeof_EventGroup_t (heap s);
     let s = s\<lparr>heap := h\<rparr>;
     (if g \<noteq> 0
      then do {
        let s = upd_bits g (\<lambda>_. 0) s;
        Some (g, s\<lparr>kern := (kern s)\<lparr>lists := vListInitialise (xTasksWaitingForBits g) (lists (kern s))\<rparr>\<rparr>)
      }
      else Some (g, s))
   }"

text \<open>Every task that waits is released first, one round each.\<close>

partial_function (option) release_loop :: "list_id \<Rightarrow> kernel \<Rightarrow> kernel option" where
  "release_loop l k =
     (if list_length l k > 0
      then case pxNext (xListEnd (lst (lists k) l)) of
          Item i \<Rightarrow> do {
            k \<leftarrow> vTaskRemoveFromUnorderedEventList i eventUNBLOCKED_DUE_TO_BIT_SET k;
            release_loop l k
          }
        | _ \<Rightarrow> None
      else Some k)"

definition vEventGroupDelete :: "(nat \<Rightarrow> os \<Rightarrow> os) \<Rightarrow> u32 \<Rightarrow> os \<Rightarrow> os option" where
  "vEventGroupDelete env g s = do {
     configASSERT (g \<noteq> 0);
     s \<leftarrow> on_kernel (release_loop (xTasksWaitingForBits g)) (env 0 (suspend_all s));
     (yielded, s) \<leftarrow> resume_all s;
     let s = env 1 s;
     map_option (\<lambda>h. s\<lparr>heap := h\<rparr>) (vPortFree g (heap s))
   }"

section \<open>Setting and clearing bits\<close>

definition xEventGroupClearBits :: "u32 \<Rightarrow> u32 \<Rightarrow> os \<Rightarrow> (u32 \<times> os) option" where
  "xEventGroupClearBits g uxBitsToClear s = do {
     configASSERT (g \<noteq> 0);
     configASSERT (and uxBitsToClear eventEVENT_BITS_CONTROL_BYTES = 0);
     let uxReturn = bits_of g s;
     Some (uxReturn, upd_bits g (\<lambda>b. and b (not uxBitsToClear)) s)
   }"

definition xEventGroupGetBitsFromISR :: "u32 \<Rightarrow> os \<Rightarrow> u32" where
  "xEventGroupGetBitsFromISR g s = bits_of g s"

text \<open>
  The loop over the waiting tasks, from one node of the list to the next, with the bits to clear so far.
  The bits of the group do not change in it.
\<close>

partial_function (option) set_bits_loop :: "u32 \<Rightarrow> list_id \<Rightarrow> (item_id, list_id) node \<Rightarrow> u32 \<Rightarrow> kernel \<Rightarrow> (u32 \<times> kernel) option" where
  "set_bits_loop bits l it uxBitsToClear k =
     (if it \<noteq> End l
      then case it of
          Item i \<Rightarrow> do {
            pxNext \<leftarrow> get_next (lists k) it;
            uxBitsWaitedFor \<leftarrow> get_value (lists k) it;
            let uxControlBits = and uxBitsWaitedFor eventEVENT_BITS_CONTROL_BYTES;
            let uxBitsWaitedFor = and uxBitsWaitedFor (not eventEVENT_BITS_CONTROL_BYTES);
            let xMatchFound = (if and uxControlBits eventWAIT_FOR_ALL_BITS = 0
                 then and uxBitsWaitedFor bits \<noteq> 0
                 else and uxBitsWaitedFor bits = uxBitsWaitedFor);
            (uxBitsToClear, k) \<leftarrow>
              (if xMatchFound
               then do {
                 let c = (if and uxControlBits eventCLEAR_EVENTS_ON_EXIT_BIT \<noteq> 0 then or uxBitsToClear uxBitsWaitedFor else uxBitsToClear);
                 k \<leftarrow> vTaskRemoveFromUnorderedEventList i (or bits eventUNBLOCKED_DUE_TO_BIT_SET) k;
                 Some (c, k)
               }
               else Some (uxBitsToClear, k));
            set_bits_loop bits l pxNext uxBitsToClear k
          }
        | _ \<Rightarrow> None
      else Some (uxBitsToClear, k))"

definition xEventGroupSetBits :: "(nat \<Rightarrow> os \<Rightarrow> os) \<Rightarrow> nat \<Rightarrow> u32 \<Rightarrow> u32 \<Rightarrow> os \<Rightarrow> (u32 \<times> os) option" where
  "xEventGroupSetBits env n g uxBitsToSet s = do {
     configASSERT (g \<noteq> 0);
     configASSERT (and uxBitsToSet eventEVENT_BITS_CONTROL_BYTES = 0);
     let l = xTasksWaitingForBits g;
     let s = env n (suspend_all s);
     let pxListItem = pxNext (xListEnd (lst (lists (kern s)) l));
     let s = upd_bits g (\<lambda>b. or b uxBitsToSet) s;
     (uxBitsToClear, k) \<leftarrow> set_bits_loop (bits_of g s) l pxListItem 0 (kern s);
     let s = upd_bits g (\<lambda>b. and b (not uxBitsToClear)) (s\<lparr>kern := k\<rparr>);
     (yielded, s) \<leftarrow> resume_all s;
     let s = env (n + 1) s;
     Some (bits_of g s, s)
   }"

section \<open>Waiting for bits\<close>

definition prvTestWaitCondition :: "u32 \<Rightarrow> u32 \<Rightarrow> bool \<Rightarrow> bool" where
  "prvTestWaitCondition uxCurrentEventBits uxBitsToWaitFor xWaitForAllBits =
     (if \<not> xWaitForAllBits then and uxCurrentEventBits uxBitsToWaitFor \<noteq> 0
      else and uxCurrentEventBits uxBitsToWaitFor = uxBitsToWaitFor)"

text \<open>
  Each waiting call has two parts: up to the point where the task gives up the processor if it has to
  wait, with the result so far and whether it waits; and what it does when it runs again.
\<close>

definition wait_bits_begin :: "(nat \<Rightarrow> os \<Rightarrow> os) \<Rightarrow> nat \<Rightarrow> u32 \<Rightarrow> u32 \<Rightarrow> bool \<Rightarrow> bool \<Rightarrow> u32 \<Rightarrow> os \<Rightarrow> (u32 \<times> bool \<times> os) option" where
  "wait_bits_begin env n g uxBitsToWaitFor xClearOnExit xWaitForAllBits xTicksToWait s = do {
     configASSERT (g \<noteq> 0);
     configASSERT (and uxBitsToWaitFor eventEVENT_BITS_CONTROL_BYTES = 0);
     configASSERT (uxBitsToWaitFor \<noteq> 0);
     configASSERT (\<not> (xTaskGetSchedulerState (kern s) = taskSCHEDULER_SUSPENDED \<and> xTicksToWait \<noteq> 0));
     let s = env n (suspend_all s);
     let uxCurrentEventBits = bits_of g s;
     (uxReturn, xTicksToWait, s) \<leftarrow>
       (if prvTestWaitCondition uxCurrentEventBits uxBitsToWaitFor xWaitForAllBits
        then Some (uxCurrentEventBits, 0, if xClearOnExit then upd_bits g (\<lambda>b. and b (not uxBitsToWaitFor)) s else s)
        else if xTicksToWait = 0 then Some (uxCurrentEventBits, xTicksToWait, s)
        else do {
          let uxControlBits = 0;
          let uxControlBits = (if xClearOnExit then or uxControlBits eventCLEAR_EVENTS_ON_EXIT_BIT else uxControlBits);
          let uxControlBits = (if xWaitForAllBits then or uxControlBits eventWAIT_FOR_ALL_BITS else uxControlBits);
          s \<leftarrow> on_kernel (vTaskPlaceOnUnorderedEventList (xTasksWaitingForBits g) (or uxBitsToWaitFor uxControlBits) xTicksToWait) s;
          Some (0, xTicksToWait, s)
        });
     (xAlreadyYielded, s) \<leftarrow> resume_all s;
     Some (uxReturn, xTicksToWait \<noteq> 0,
       if xTicksToWait \<noteq> 0 \<and> \<not> xAlreadyYielded then s\<lparr>kern := yield (kern s)\<rparr> else s)
   }"

definition wait_bits_end :: "u32 \<Rightarrow> u32 \<Rightarrow> bool \<Rightarrow> bool \<Rightarrow> os \<Rightarrow> (u32 \<times> os) option" where
  "wait_bits_end g uxBitsToWaitFor xClearOnExit xWaitForAllBits s = do {
     (uxReturn, k) \<leftarrow> uxTaskResetEventItemValue (kern s);
     let s = s\<lparr>kern := k\<rparr>;
     let (uxReturn, s) =
       (if and uxReturn eventUNBLOCKED_DUE_TO_BIT_SET = 0
        then let uxReturn = bits_of g s
             in (uxReturn, if prvTestWaitCondition uxReturn uxBitsToWaitFor xWaitForAllBits
                   then if xClearOnExit then upd_bits g (\<lambda>b. and b (not uxBitsToWaitFor)) s else s
                   else s)
        else (uxReturn, s));
     Some (and uxReturn (not eventEVENT_BITS_CONTROL_BYTES), s)
   }"

definition xEventGroupWaitBits :: "(nat \<Rightarrow> os \<Rightarrow> os) \<Rightarrow> u32 \<Rightarrow> u32 \<Rightarrow> bool \<Rightarrow> bool \<Rightarrow> u32 \<Rightarrow> os \<Rightarrow> (u32 \<times> os) option" where
  "xEventGroupWaitBits env g uxBitsToWaitFor xClearOnExit xWaitForAllBits xTicksToWait s = do {
     (uxReturn, waits, s) \<leftarrow> wait_bits_begin env 0 g uxBitsToWaitFor xClearOnExit xWaitForAllBits xTicksToWait s;
     (if waits then wait_bits_end g uxBitsToWaitFor xClearOnExit xWaitForAllBits (env 1 s) else Some (uxReturn, s))
   }"

section \<open>The rendezvous\<close>

definition sync_begin :: "(nat \<Rightarrow> os \<Rightarrow> os) \<Rightarrow> nat \<Rightarrow> u32 \<Rightarrow> u32 \<Rightarrow> u32 \<Rightarrow> u32 \<Rightarrow> os \<Rightarrow> (u32 \<times> bool \<times> os) option" where
  "sync_begin env n g uxBitsToSet uxBitsToWaitFor xTicksToWait s = do {
     configASSERT (and uxBitsToWaitFor eventEVENT_BITS_CONTROL_BYTES = 0);
     configASSERT (uxBitsToWaitFor \<noteq> 0);
     configASSERT (\<not> (xTaskGetSchedulerState (kern s) = taskSCHEDULER_SUSPENDED \<and> xTicksToWait \<noteq> 0));
     let s = suspend_all s;
     let uxOriginalBitValue = bits_of g s;
     (r, s) \<leftarrow> xEventGroupSetBits env n g uxBitsToSet s;
     (uxReturn, xTicksToWait, s) \<leftarrow>
       (if and (or uxOriginalBitValue uxBitsToSet) uxBitsToWaitFor = uxBitsToWaitFor
        then Some (or uxOriginalBitValue uxBitsToSet, 0, upd_bits g (\<lambda>b. and b (not uxBitsToWaitFor)) s)
        else if xTicksToWait \<noteq> 0
        then do {
          s \<leftarrow> on_kernel (vTaskPlaceOnUnorderedEventList (xTasksWaitingForBits g)
                 (or (or uxBitsToWaitFor eventCLEAR_EVENTS_ON_EXIT_BIT) eventWAIT_FOR_ALL_BITS) xTicksToWait) s;
          Some (0, xTicksToWait, s)
        }
        else Some (bits_of g s, xTicksToWait, s));
     (xAlreadyYielded, s) \<leftarrow> resume_all s;
     Some (uxReturn, xTicksToWait \<noteq> 0,
       if xTicksToWait \<noteq> 0 \<and> \<not> xAlreadyYielded then s\<lparr>kern := yield (kern s)\<rparr> else s)
   }"

definition sync_end :: "u32 \<Rightarrow> u32 \<Rightarrow> os \<Rightarrow> (u32 \<times> os) option" where
  "sync_end g uxBitsToWaitFor s = do {
     (uxReturn, k) \<leftarrow> uxTaskResetEventItemValue (kern s);
     let s = s\<lparr>kern := k\<rparr>;
     let (uxReturn, s) =
       (if and uxReturn eventUNBLOCKED_DUE_TO_BIT_SET = 0
        then let uxReturn = bits_of g s
             in (uxReturn, if and uxReturn uxBitsToWaitFor = uxBitsToWaitFor
                   then upd_bits g (\<lambda>b. and b (not uxBitsToWaitFor)) s else s)
        else (uxReturn, s));
     Some (and uxReturn (not eventEVENT_BITS_CONTROL_BYTES), s)
   }"

definition xEventGroupSync :: "(nat \<Rightarrow> os \<Rightarrow> os) \<Rightarrow> u32 \<Rightarrow> u32 \<Rightarrow> u32 \<Rightarrow> u32 \<Rightarrow> os \<Rightarrow> (u32 \<times> os) option" where
  "xEventGroupSync env g uxBitsToSet uxBitsToWaitFor xTicksToWait s = do {
     (uxReturn, waits, s) \<leftarrow> sync_begin env 0 g uxBitsToSet uxBitsToWaitFor xTicksToWait s;
     (if waits then sync_end g uxBitsToWaitFor (env 2 s) else Some (uxReturn, s))
   }"

section \<open>The callbacks of the timer task\<close>

definition vEventGroupSetBitsCallback :: "(nat \<Rightarrow> os \<Rightarrow> os) \<Rightarrow> u32 \<Rightarrow> u32 \<Rightarrow> os \<Rightarrow> os option" where
  "vEventGroupSetBitsCallback env pvEventGroup ulBitsToSet s = map_option snd (xEventGroupSetBits env 0 pvEventGroup ulBitsToSet s)"

definition vEventGroupClearBitsCallback :: "u32 \<Rightarrow> u32 \<Rightarrow> os \<Rightarrow> os option" where
  "vEventGroupClearBitsCallback pvEventGroup ulBitsToClear s = map_option snd (xEventGroupClearBits pvEventGroup ulBitsToClear s)"

end
