(* ===== verification/QueueRing.thy ===== *)
theory QueueRing
  imports Queue Ring
begin

text \<open>
  The storage of a queue as a ring of items: the bytes of a cell, the moving read and write pointers, and
  what \<open>prvCopyDataToQueue\<close> and \<open>prvCopyDataFromQueue\<close> do to the list of the items that wait in it.
\<close>

section \<open>Cells of the ring\<close>

lemma ring_write_single: "h < length b \<Longrightarrow> ring_write b h [x] = b[h := x]"
proof (rule nth_equalityI)
  assume h: "h < length b"
  show "ring_write b h [x] ! j = b[h := x] ! j" if "j < length (ring_write b h [x])" for j
  proof -
    have j: "j < length b" using that by simp
    have "(length b + j - h) mod length b = 0 \<longleftrightarrow> j = h"
      using ring_distance(1) [OF j h] j h by (auto split: if_splits)
    then show ?thesis using j h by (auto simp: ring_write_def Let_def nth_list_update add.commute)
  qed
qed simp

lemma ring_push_back:
  assumes "t < length b" and "c < length b"
  shows "ring (b[(t + c) mod length b := x]) t (Suc c) = ring b t c @ [x]"
proof -
  let ?h = "(t + c) mod length b"
  have h: "?h < length b" using assms by (intro mod_less_divisor) linarith
  have "ring (b[?h := x]) t (c + 1) = ring (b[?h := x]) t c @ ring (b[?h := x]) ?h 1"
    using ring_append [of "b[?h := x]" t c 1] by simp
  moreover have "ring (b[?h := x]) t c = ring b t c"
    using ring_write_old [of t b c "[x]"] assms ring_write_single [OF h] by simp
  moreover have "ring (b[?h := x]) ?h 1 = [x]"
    using ring_write_new [OF h, of "[x]"] ring_write_single [OF h] h by simp
  ultimately show ?thesis by simp
qed

lemma ring_push_front:
  assumes "r < length b" and "c < length b"
  shows "ring (b[r := x]) r (Suc c) = x # ring b (Suc r mod length b) c"
proof -
  let ?t = "Suc r mod length b"
  have t: "?t < length b" using assms by (intro mod_less_divisor) linarith
  have e: "(?t + (length b - 1)) mod length b = r"
  proof -
    have "(?t + (length b - 1)) mod length b = (Suc r + (length b - 1)) mod length b" by (rule mod_add_left_eq)
    also have "Suc r + (length b - 1) = r + length b" using assms by simp
    finally show ?thesis using assms by simp
  qed
  have "ring (b[r := x]) ?t (length b - 1) = ring b ?t (length b - 1)"
    using ring_write_old [OF t, of "length b - 1" "[x]"] assms ring_write_single [OF assms(1)] e by simp
  then have old: "ring (b[r := x]) ?t c = ring b ?t c"
    using assms take_ring [of c "length b - 1"] by (metis Suc_pred' le_simps(2) length_greater_0_conv list.size(3) not_less0)
  have "ring (b[r := x]) r 1 = [x]"
    using ring_write_new [OF assms(1), of "[x]"] ring_write_single [OF assms(1)] assms by simp
  moreover have "ring (b[r := x]) r (1 + c) = ring (b[r := x]) r 1 @ ring (b[r := x]) ((r + 1) mod length b) c"
    using ring_append [of "b[r := x]" r 1 c] by simp
  ultimately show ?thesis using old by simp
qed

lemma ring_pop_front: "t < length b \<Longrightarrow> ring b t (Suc c) = b ! t # ring b (Suc t mod length b) c"
  using ring_append [of b t 1 c] by (simp add: ring_def)

section \<open>Bytes of the storage\<close>

lemma length_load_bytes [simp]: "length (load_bytes p n m) = n"
  by (simp add: load_bytes_def)

lemma load_bytes_0 [simp]: "load_bytes p 0 m = []"
  by (simp add: load_bytes_def)

text \<open>Cell \<open>j\<close> of a storage of \<open>n\<close> items of \<open>z\<close> bytes.\<close>

definition cell :: "u32 \<Rightarrow> nat \<Rightarrow> nat \<Rightarrow> u32" where
  "cell head z j = head + of_nat (j * z)"

lemma cell_unat:
  assumes "unat head + n * z < 2 ^ 32" and "j \<le> n"
  shows "unat (cell head z j) = unat head + j * z"
proof -
  have le: "j * z \<le> n * z" using assms(2) by simp
  have u: "unat (of_nat (j * z) :: u32) = j * z" using assms(1) le by (intro unat_of_nat_u32) linarith
  have "unat head + j * z < 2 ^ 32" using assms(1) le by linarith
  then show ?thesis using u unat_add_u32 [of head "of_nat (j * z)"] by (simp only: cell_def)
qed

text \<open>A byte of cell \<open>i\<close>, seen from the start of cell \<open>j\<close>.\<close>

lemma cell_byte:
  assumes "unat head + n * z < 2 ^ 32" and "i < n" and "b < z"
  shows "unat (cell head z i + of_nat b) = unat head + i * z + b"
proof -
  have "Suc i * z \<le> n * z" using assms(2) by (intro mult_le_mono1) simp
  then have le: "unat head + i * z + b < 2 ^ 32" using assms(1,3) by simp
  then have "unat (of_nat b :: u32) = b" by (intro unat_of_nat_u32) linarith
  then show ?thesis using cell_unat [OF assms(1), of i] assms(2) le unat_add_u32 [of "cell head z i" "of_nat b"] by simp
qed

lemma cell_distance:
  assumes "unat head + n * z < 2 ^ 32" and "i < n" and "j < n" and "b < z"
  shows "unat (cell head z i + of_nat b - cell head z j) < z \<longleftrightarrow> i = j" (is "?d < z \<longleftrightarrow> _")
    and "i = j \<Longrightarrow> unat (cell head z i + of_nat b - cell head z j) = b"
proof -
  note A = cell_byte [OF assms(1,2,4)]
  have B: "unat (cell head z j) = unat head + j * z" using cell_unat [OF assms(1), of j] assms(3) by simp
  have d: "?d = (if j * z \<le> i * z + b then i * z + b - j * z else i * z + b + 2 ^ 32 - j * z)"
    unfolding unat_sub_if' A B by (simp add: add.assoc)
  show "i = j \<Longrightarrow> ?d = b" using d by simp
  show "?d < z \<longleftrightarrow> i = j"
  proof (cases i j rule: linorder_cases)
    case less
    then have "Suc i * z \<le> j * z" by (intro mult_le_mono1) simp
    then have "i * z + b < j * z" using assms(4) by simp
    moreover have "Suc j * z \<le> n * z" using assms(3) by (intro mult_le_mono1) simp
    ultimately show ?thesis using d less assms(1) by simp
  next
    case equal
    then show ?thesis using d assms(4) by simp
  next
    case greater
    then have "Suc j * z \<le> i * z" by (intro mult_le_mono1) simp
    then show ?thesis using d greater assms(4) by simp
  qed
qed

lemma load_store_cell:
  assumes "unat head + n * z < 2 ^ 32" and "i < n" and "j < n" and "length d = z"
  shows "load_bytes (cell head z i) z (store_bytes (cell head z j) d m) = (if i = j then d else load_bytes (cell head z i) z m)"
  by (rule nth_equalityI)
    (use assms(4) cell_distance [OF assms(1-3)] in \<open>auto simp: load_bytes_def store_bytes_def\<close>)

text \<open>Nothing outside the storage changes.\<close>

lemma store_outside:
  assumes "unat head + n * z < 2 ^ 32" and "j < n" and "length d = z" and "unat a < unat head \<or> unat head + n * z \<le> unat a"
  shows "store_bytes (cell head z j) d m a = m a"
proof -
  have B: "unat (cell head z j) = unat head + j * z" using cell_unat [OF assms(1), of j] assms(2) by simp
  have "Suc j * z \<le> n * z" using assms(2) by (intro mult_le_mono1) simp
  then have "\<not> unat (a - cell head z j) < z"
    using assms(1,4) unat_lt_u32 [of a] unfolding unat_sub_if' B by auto
  then show ?thesis using assms(3) by (simp add: store_bytes_def)
qed

section \<open>The contents of a queue\<close>

definition length_of :: "xQUEUE \<Rightarrow> nat" where "length_of x = unat (uxLength x)"
definition size_of :: "xQUEUE \<Rightarrow> nat" where "size_of x = unat (uxItemSize x)"
definition count_of :: "xQUEUE \<Rightarrow> nat" where "count_of x = unat (uxMessagesWaiting x)"

text \<open>The cell last read, and the items from the one after it on.\<close>

definition read_cell :: "xQUEUE \<Rightarrow> nat" where
  "read_cell x = unat (pcReadFrom x - pcHead x) div size_of x"

definition slots :: "xQUEUE \<Rightarrow> os \<Rightarrow> u8 list list" where
  "slots x s = map (\<lambda>j. load_bytes (cell (pcHead x) (size_of x) j) (size_of x) (bytes (heap s))) [0..<length_of x]"

definition contents :: "u32 \<Rightarrow> os \<Rightarrow> u8 list list" where
  "contents q s = (let x = queue s q in ring (slots x s) (Suc (read_cell x) mod length_of x) (count_of x))"

text \<open>A queue in order. A storage lies at an address above the size of an item, as any heap block does.\<close>

definition queue_ok :: "xQUEUE \<Rightarrow> bool" where
  "queue_ok x \<longleftrightarrow> 0 < length_of x \<and> count_of x \<le> length_of x
     \<and> (0 < size_of x \<longrightarrow> pcHead x \<noteq> 0 \<and> size_of x \<le> unat (pcHead x) \<and> unat (pcHead x) + length_of x * size_of x < 2 ^ 32
        \<and> pcTail x = cell (pcHead x) (size_of x) (length_of x)
        \<and> read_cell x < length_of x \<and> pcReadFrom x = cell (pcHead x) (size_of x) (read_cell x)
        \<and> pcWriteTo x = cell (pcHead x) (size_of x) ((Suc (read_cell x) mod length_of x + count_of x) mod length_of x))"

section \<open>Moving the pointers\<close>

lemma cell_Suc: "cell head (unat sz) j + sz = cell head (unat sz) (Suc j)"
  by (simp add: cell_def)

lemma cell_0 [simp]: "cell head z 0 = head"
  by (simp add: cell_def)

lemma cell_next:
  assumes "unat head + n * unat sz < 2 ^ 32" and "j < n" and "0 < unat sz"
  shows "(if cell head (unat sz) n \<le> cell head (unat sz) j + sz then head else cell head (unat sz) j + sz) = cell head (unat sz) (Suc j mod n)"
proof -
  have "cell head (unat sz) n \<le> cell head (unat sz) (Suc j) \<longleftrightarrow> n \<le> Suc j"
    using cell_unat [OF assms(1), of n] cell_unat [OF assms(1), of "Suc j"] assms(2,3) by (simp add: word_le_nat_alt del: mult_Suc)
  then show ?thesis using assms(2) unfolding cell_Suc by (cases "Suc j = n") auto
qed

lemma cell_prev:
  assumes "unat head + n * unat sz < 2 ^ 32" and "j < n" and "0 < unat sz" and "unat sz \<le> unat head"
  shows "(if cell head (unat sz) j - sz < head then cell head (unat sz) n - sz else cell head (unat sz) j - sz) = cell head (unat sz) ((j + n - 1) mod n)"
proof -
  have sub: "cell head (unat sz) (Suc k) - sz = cell head (unat sz) k" for k by (simp flip: cell_Suc)
  obtain m where m: "n = Suc m" using assms(2) by (cases n) auto
  show ?thesis
  proof (cases j)
    case 0
    have "unat (head - sz) = unat head - unat sz" by (rule unat_sub_u32) (use assms(4) in \<open>simp add: word_le_nat_alt\<close>)
    then have "head - sz < head" using assms(3,4) by (simp add: word_less_nat_alt)
    then show ?thesis using 0 m sub [of m] by simp
  next
    case (Suc k)
    have "\<not> cell head (unat sz) k < head"
      using cell_unat [OF assms(1), of k] assms(2) Suc by (simp add: word_less_nat_alt)
    moreover have "(j + n - 1) mod n = k" using Suc assms(2) by simp
    ultimately show ?thesis using Suc sub [of k] by simp
  qed
qed

lemma cell_index:
  assumes "unat head + n * z < 2 ^ 32" and "j \<le> n" and "0 < z"
  shows "unat (cell head z j - head) div z = j"
proof -
  have "j * z \<le> n * z" using assms(2) by simp
  then have "unat (of_nat (j * z) :: u32) = j * z" using assms(1) by (intro unat_of_nat_u32) linarith
  then show ?thesis using assms(3) by (simp add: cell_def)
qed

section \<open>What copying does to the contents\<close>

lemma length_slots [simp]: "length (slots x s) = length_of x"
  by (simp add: slots_def)

lemma contents_length: "length (contents q s) = count_of (queue s q)"
  by (simp add: contents_def Let_def)

lemma contents_frame:
  "queue s' q = queue s q \<Longrightarrow> heap s' = heap s \<Longrightarrow> contents q s' = contents q s"
  by (simp add: contents_def slots_def Let_def)

lemma store_slots:
  assumes "queue_ok x" and "0 < size_of x" and "j < length_of x" and "length d = size_of x"
    and "bytes (heap s') = store_bytes (cell (pcHead x) (size_of x) j) d (bytes (heap s))"
  shows "slots x s' = (slots x s)[j := d]"
proof (rule nth_equalityI)
  fix i assume i: "i < length (slots x s')"
  have b: "unat (pcHead x) + length_of x * size_of x < 2 ^ 32" using assms(1,2) by (simp add: queue_ok_def)
  show "slots x s' ! i = (slots x s)[j := d] ! i"
    using i assms(3) load_store_cell [OF b _ assms(3,4), of i] by (simp add: slots_def assms(5) nth_list_update)
qed simp

text \<open>The slots do not depend on the moving fields of the header.\<close>

lemma slots_header [simp]:
  "slots (x\<lparr>uxMessagesWaiting := n\<rparr>) s = slots x s" "slots (x\<lparr>u1 := p\<rparr>) s = slots x s" "slots (x\<lparr>pcWriteTo := p\<rparr>) s = slots x s"
  by (simp_all add: slots_def length_of_def size_of_def)

lemma header_fields [simp]:
  "length_of (x\<lparr>uxMessagesWaiting := n\<rparr>) = length_of x" "length_of (x\<lparr>u1 := p\<rparr>) = length_of x" "length_of (x\<lparr>pcWriteTo := p\<rparr>) = length_of x"
  "size_of (x\<lparr>uxMessagesWaiting := n\<rparr>) = size_of x" "size_of (x\<lparr>u1 := p\<rparr>) = size_of x" "size_of (x\<lparr>pcWriteTo := p\<rparr>) = size_of x"
  "count_of (x\<lparr>u1 := p\<rparr>) = count_of x" "count_of (x\<lparr>pcWriteTo := p\<rparr>) = count_of x" "count_of (x\<lparr>uxMessagesWaiting := n\<rparr>) = unat n"
  "read_cell (x\<lparr>uxMessagesWaiting := n\<rparr>) = read_cell x" "read_cell (x\<lparr>pcWriteTo := p\<rparr>) = read_cell x"
  "read_cell (x\<lparr>u1 := p\<rparr>) = unat (p - pcHead x) div size_of x"
  by (simp_all add: length_of_def size_of_def count_of_def read_cell_def)

lemma count_succ: "count_of x < length_of x \<Longrightarrow> unat (uxMessagesWaiting x + 1) = Suc (count_of x)"
  using unat_lt_u32 [of "uxLength x"] by (simp add: count_of_def length_of_def unat_add_u32)

lemma count_pred: "0 < count_of x \<Longrightarrow> unat (uxMessagesWaiting x - 1) = count_of x - 1"
  by (subst unat_sub_u32) (simp_all add: count_of_def word_le_nat_alt)

definition unchanged_outside :: "xQUEUE \<Rightarrow> os \<Rightarrow> os \<Rightarrow> bool" where
  "unchanged_outside x s s' \<longleftrightarrow> (\<forall>a. unat a < unat (pcHead x) \<or> unat (pcHead x) + length_of x * size_of x \<le> unat a
     \<longrightarrow> bytes (heap s') a = bytes (heap s) a)"

lemma send_back:
  assumes "queue_ok (queue s q)" and "0 < size_of (queue s q)" and "count_of (queue s q) < length_of (queue s q)"
    and "size_of (queue s q) \<le> length d"
  shows "\<exists>x h. prvCopyDataToQueue q (Some d) queueSEND_TO_BACK s = Some (False, s\<lparr>queue := (queue s)(q := x), heap := heap s\<lparr>bytes := h\<rparr>\<rparr>)
    \<and> queue_ok x \<and> length_of x = length_of (queue s q) \<and> size_of x = size_of (queue s q) \<and> pcHead x = pcHead (queue s q) \<and> cRxLock x = cRxLock (queue s q) \<and> cTxLock x = cTxLock (queue s q)
    \<and> contents q (s\<lparr>queue := (queue s)(q := x), heap := heap s\<lparr>bytes := h\<rparr>\<rparr>) = contents q s @ [take (size_of (queue s q)) d]
    \<and> unchanged_outside x s (s\<lparr>queue := (queue s)(q := x), heap := heap s\<lparr>bytes := h\<rparr>\<rparr>)"
proof -
  define x where "x = queue s q"
  define n z where "n = length_of x" and "z = size_of x"
  define t where "t = Suc (read_cell x) mod n"
  define j where "j = (t + count_of x) mod n"
  note ok = assms [folded x_def]
  have b: "unat (pcHead x) + n * z < 2 ^ 32" and n: "0 < n" and w: "pcWriteTo x = cell (pcHead x) z j"
    and tl: "pcTail x = cell (pcHead x) z n"
    using ok(1,2) by (simp_all add: queue_ok_def n_def z_def t_def j_def)
  have j: "j < n" and t: "t < n" using n by (simp_all add: j_def t_def)
  have z: "z = unat (uxItemSize x)" "0 < z" using ok(2) by (simp_all add: z_def size_of_def)
  then have z0: "uxItemSize x \<noteq> 0" by auto
  define h where "h = store_bytes (cell (pcHead x) z j) (take z d) (bytes (heap s))"
  define x' where "x' = x\<lparr>pcWriteTo := cell (pcHead x) z (Suc j mod n), uxMessagesWaiting := uxMessagesWaiting x + 1\<rparr>"
  define s' where "s' = s\<lparr>queue := (queue s)(q := x'), heap := heap s\<lparr>bytes := h\<rparr>\<rparr>"
  have "memcpy_in (pcWriteTo x) (Some d) (uxItemSize x) s = Some (s\<lparr>heap := heap s\<lparr>bytes := h\<rparr>\<rparr>)"
    using ok(4) by (simp add: memcpy_in_def w h_def z(1) [symmetric] z_def [symmetric])
  moreover have "(if pcTail x \<le> pcWriteTo x + uxItemSize x then pcHead x else pcWriteTo x + uxItemSize x) = cell (pcHead x) z (Suc j mod n)"
    unfolding w tl z(1) by (rule cell_next) (use b j z in auto)
  ultimately have code: "prvCopyDataToQueue q (Some d) queueSEND_TO_BACK s = Some (False, s')"
    using z0 unfolding prvCopyDataToQueue_def Let_def x_def [symmetric]
    by (simp add: upd_queue_def x'_def s'_def) (simp add: x_def)
  have c: "unat (uxMessagesWaiting x + 1) = Suc (count_of x)" by (rule count_succ [OF ok(3)])
  have "Suc j mod n = (t + Suc (count_of x)) mod n" by (simp add: j_def mod_Suc_eq)
  then have ok': "queue_ok x'" using ok(1-3) c
    by (simp add: queue_ok_def x'_def n_def [symmetric] z_def [symmetric] t_def)
  have "slots x' s' = (slots x s)[j := take z d]"
    using store_slots [OF ok(1,2), of j "take z d" s' s] j ok(4) by (simp add: x'_def s'_def h_def n_def z_def)
  moreover have "contents q s' = ring (slots x' s') t (Suc (count_of x))"
    by (simp add: contents_def Let_def s'_def) (simp add: x'_def c t_def n_def)
  moreover have "contents q s = ring (slots x s) t (count_of x)" by (simp add: contents_def Let_def x_def t_def n_def)
  ultimately have "contents q s' = contents q s @ [take z d]"
    using ring_push_back [of t "slots x s" "count_of x" "take z d"] t ok(3) by (simp add: j_def n_def)
  moreover have "unchanged_outside x' s s'"
    using store_outside [OF b j, of "take z d"] ok(4)
    by (simp add: unchanged_outside_def s'_def h_def z_def n_def) (simp add: x'_def)
  ultimately show ?thesis using code ok' unfolding s'_def x_def [symmetric] z_def [symmetric] n_def [symmetric]
    by (intro exI [of _ x'] exI [of _ h]) (simp add: x'_def n_def z_def)
qed

text \<open>At the front, or over the only item of a queue of length one.\<close>

definition kept :: "u32 \<Rightarrow> nat \<Rightarrow> nat" where
  "kept xPosition c = (if xPosition = queueOVERWRITE then c - 1 else c)"

lemma send_front:
  assumes "queue_ok (queue s q)" and "0 < size_of (queue s q)" and "kept p (count_of (queue s q)) < length_of (queue s q)"
    and "size_of (queue s q) \<le> length d" and "p \<noteq> queueSEND_TO_BACK" and "p = queueOVERWRITE \<longrightarrow> length_of (queue s q) = 1"
  shows "\<exists>x h. prvCopyDataToQueue q (Some d) p s = Some (False, s\<lparr>queue := (queue s)(q := x), heap := heap s\<lparr>bytes := h\<rparr>\<rparr>)
    \<and> queue_ok x \<and> length_of x = length_of (queue s q) \<and> size_of x = size_of (queue s q) \<and> pcHead x = pcHead (queue s q) \<and> cRxLock x = cRxLock (queue s q) \<and> cTxLock x = cTxLock (queue s q)
    \<and> contents q (s\<lparr>queue := (queue s)(q := x), heap := heap s\<lparr>bytes := h\<rparr>\<rparr>)
      = take (size_of (queue s q)) d # take (kept p (count_of (queue s q))) (contents q s)
    \<and> unchanged_outside x s (s\<lparr>queue := (queue s)(q := x), heap := heap s\<lparr>bytes := h\<rparr>\<rparr>)"
proof -
  define x where "x = queue s q"
  define n z r c where "n = length_of x" and "z = size_of x" and "r = read_cell x" and "c = count_of x"
  define c' where "c' = kept p c"
  define j where "j = (r + n - 1) mod n"
  note ok = assms [folded x_def]
  have b: "unat (pcHead x) + n * z < 2 ^ 32" and n: "0 < n" and rc: "pcReadFrom x = cell (pcHead x) z r" and r: "r < n"
    and tl: "pcTail x = cell (pcHead x) z n" and hd: "z \<le> unat (pcHead x)" and w: "pcWriteTo x = cell (pcHead x) z ((Suc r mod n + c) mod n)"
    using ok(1,2) by (simp_all add: queue_ok_def n_def z_def r_def c_def)
  have c': "c' < n" "c' \<le> c" using ok(3) by (simp_all add: c'_def c_def n_def kept_def)
  have j: "j < n" using n by (simp add: j_def)
  have jr: "Suc j mod n = r" using n r by (simp add: j_def mod_Suc_eq)
  have z: "z = unat (uxItemSize x)" "0 < z" using ok(2) by (simp_all add: z_def size_of_def)
  then have z0: "uxItemSize x \<noteq> 0" by auto
  define h where "h = store_bytes (cell (pcHead x) z r) (take z d) (bytes (heap s))"
  define m where "m = (if p = queueOVERWRITE then (if uxMessagesWaiting x > 0 then uxMessagesWaiting x - 1 else uxMessagesWaiting x) else uxMessagesWaiting x)"
  define x' where "x' = x\<lparr>u1 := cell (pcHead x) z j, uxMessagesWaiting := m + 1\<rparr>"
  define s' where "s' = s\<lparr>queue := (queue s)(q := x'), heap := heap s\<lparr>bytes := h\<rparr>\<rparr>"
  have "memcpy_in (pcReadFrom x) (Some d) (uxItemSize x) s = Some (s\<lparr>heap := heap s\<lparr>bytes := h\<rparr>\<rparr>)"
    using ok(4) by (simp add: memcpy_in_def rc h_def z(1) [symmetric] z_def [symmetric])
  moreover have "(if pcReadFrom x - uxItemSize x < pcHead x then pcTail x - uxItemSize x else pcReadFrom x - uxItemSize x) = cell (pcHead x) z j"
    unfolding rc tl z(1) j_def by (rule cell_prev) (use b r z hd in auto)
  ultimately have code: "prvCopyDataToQueue q (Some d) p s = Some (False, s')"
    using z0 assms(5) unfolding prvCopyDataToQueue_def Let_def x_def [symmetric] m_def [symmetric]
    by (simp add: upd_queue_def x'_def s'_def) (simp add: x_def)
  have mc: "unat m = c'"
    using count_pred [of x] by (auto simp: m_def c'_def kept_def c_def count_of_def unat_gt_0 word_gt_0)
  have "n < 2 ^ 32" unfolding n_def length_of_def by (rule unat_lt_u32)
  then have c1: "unat (m + 1) = Suc c'" using mc c'(1) unat_add_u32 [of m 1] by simp
  have wr: "(Suc r mod n + c) mod n = (r + Suc c') mod n"
  proof (cases "c' = c")
    case True
    then show ?thesis by (simp add: mod_add_left_eq)
  next
    case False
    then have "n = 1" using ok(6) by (auto simp: c'_def kept_def n_def)
    then show ?thesis by simp
  qed
  have rd': "read_cell x' = j" using cell_index [OF b _ z(2), of j] j by (simp add: x'_def z_def)
  have ok': "queue_ok x'"
    using ok(1,2) c1 c' rd' j jr w wr by (simp add: queue_ok_def) (simp add: x'_def n_def [symmetric] z_def [symmetric])
  have "slots x' s' = (slots x s)[r := take z d]"
    using store_slots [OF ok(1,2), of r "take z d" s' s] r ok(4) by (simp add: x'_def s'_def h_def n_def z_def)
  moreover have "contents q s' = ring (slots x' s') r (Suc c')"
    using rd' jr c1 by (simp add: contents_def Let_def s'_def) (simp add: x'_def n_def)
  moreover have "take c' (contents q s) = ring (slots x s) (Suc r mod n) c'"
    using c'(2) by (simp add: contents_def Let_def x_def r_def n_def c_def take_ring)
  ultimately have "contents q s' = take z d # take c' (contents q s)"
    using ring_push_front [of r "slots x s" c' "take z d"] r c'(1) by (simp add: n_def)
  moreover have "unchanged_outside x' s s'"
    using store_outside [OF b r, of "take z d"] ok(4)
    by (simp add: unchanged_outside_def s'_def h_def z_def n_def) (simp add: x'_def)
  ultimately show ?thesis using code ok' unfolding s'_def x_def [symmetric] z_def [symmetric] n_def [symmetric] c_def [symmetric] c'_def [symmetric]
    by (intro exI [of _ x'] exI [of _ h]) (simp add: x'_def n_def z_def)
qed

text \<open>Reading the first item; what it does to the caller's object.\<close>

definition into :: "'a list \<Rightarrow> 'a list \<Rightarrow> 'a list" where
  "into d buf = d @ drop (length d) buf"

lemma read_first:
  assumes "queue_ok (queue s q)" and "0 < size_of (queue s q)" and "0 < count_of (queue s q)" and "size_of (queue s q) \<le> length d"
  shows "\<exists>r. prvCopyDataFromQueue q (Some d) s = Some (Some (into (hd (contents q s)) d), upd_queue q (\<lambda>x. x\<lparr>u1 := r\<rparr>) s)
    \<and> (let x = (queue s q)\<lparr>u1 := r, uxMessagesWaiting := uxMessagesWaiting (queue s q) - 1\<rparr>
       in queue_ok x \<and> length_of x = length_of (queue s q) \<and> size_of x = size_of (queue s q)
          \<and> (\<forall>s'. queue s' q = x \<and> bytes (heap s') = bytes (heap s) \<longrightarrow> contents q s' = tl (contents q s)))
    \<and> length (hd (contents q s)) = size_of (queue s q)"
proof -
  define x where "x = queue s q"
  define n z r c where "n = length_of x" and "z = size_of x" and "r = read_cell x" and "c = count_of x - 1"
  define j where "j = Suc r mod n"
  note ok = assms [folded x_def]
  have b: "unat (pcHead x) + n * z < 2 ^ 32" and n: "0 < n" and rc: "pcReadFrom x = cell (pcHead x) z r" and r: "r < n"
    and tl: "pcTail x = cell (pcHead x) z n" and w: "pcWriteTo x = cell (pcHead x) z ((j + count_of x) mod n)"
    using ok(1,2) by (simp_all add: queue_ok_def n_def z_def r_def c_def j_def)
  have j: "j < n" using n by (simp add: j_def)
  have c: "count_of x = Suc c" "unat (uxMessagesWaiting x - 1) = c" using ok(3) count_pred [OF ok(3)] by (simp_all add: c_def)
  have z: "z = unat (uxItemSize x)" "0 < z" using ok(2) by (simp_all add: z_def size_of_def)
  then have z0: "uxItemSize x \<noteq> 0" by auto
  define p where "p = cell (pcHead x) z j"
  define d0 where "d0 = load_bytes p z (bytes (heap s))"
  have cons: "contents q s = d0 # ring (slots x s) (Suc j mod n) c"
    using ring_pop_front [of j "slots x s" c] j c(1)
    by (simp add: contents_def Let_def x_def [symmetric] r_def [symmetric] n_def [symmetric] j_def [symmetric] d0_def p_def)
       (simp add: slots_def n_def [symmetric] z_def [symmetric])
  have ptr: "(if pcTail x \<le> pcReadFrom x + uxItemSize x then pcHead x else pcReadFrom x + uxItemSize x) = p"
    unfolding rc tl z(1) p_def j_def by (rule cell_next) (use b r z in auto)
  have code: "prvCopyDataFromQueue q (Some d) s = Some (Some (into d0 d), upd_queue q (\<lambda>x. x\<lparr>u1 := p\<rparr>) s)"
    using z0 ok(4) ptr unfolding prvCopyDataFromQueue_def Let_def x_def [symmetric]
    by (simp add: memcpy_out_def z(1) [symmetric] z_def [symmetric] d0_def into_def)
  define x' where "x' = x\<lparr>u1 := p, uxMessagesWaiting := uxMessagesWaiting x - 1\<rparr>"
  have rd': "read_cell x' = j" using cell_index [OF b _ z(2), of j] j by (simp add: x'_def z_def p_def)
  have wr: "(j + count_of x) mod n = (Suc j mod n + c) mod n" by (simp add: c(1) mod_add_left_eq)
  have ok': "queue_ok x'"
    using ok(1,2) c rd' j w wr by (simp add: queue_ok_def) (simp add: x'_def n_def [symmetric] z_def [symmetric] p_def)
  have "contents q s' = tl (contents q s)" if "queue s' q = x'" "bytes (heap s') = bytes (heap s)" for s'
  proof -
    have "slots x' s' = slots x s" using that(2) by (simp add: x'_def slots_def length_of_def size_of_def)
    then show ?thesis using rd' c(2) unfolding cons by (simp add: contents_def Let_def that(1)) (simp add: x'_def n_def)
  qed
  then show ?thesis using code ok' cons unfolding x_def [symmetric] z_def [symmetric]
    by (intro exI [of _ p]) (simp add: Let_def x'_def [symmetric], simp add: x'_def z_def d0_def)
qed

end
