(* ===== verification/KernelInv.thy ===== *)
theory KernelInv
  imports KernelApi ListClients
begin

text \<open>
  The scheduler's invariant, over the abstract lists that the store represents: every list item is where
  its kind belongs, ready lists hold tasks of their priority, the priority bits say which are not empty,
  the delayed lists are sorted and split at the tick count.
\<close>

section \<open>The invariant\<close>

definition kernel_lists :: "u32 set \<Rightarrow> list_id set" where
  "kernel_lists E = Ready ` {..<configMAX_PRIORITIES} \<union> {DelayedTaskList1, DelayedTaskList2, PendingReadyList,
     TasksWaitingTermination, SuspendedTaskList} \<union> EventList ` E"

fun task_of :: "item_id \<Rightarrow> task" where
  "task_of (StateItem t) = t"
| "task_of (EventItem t) = t"

fun home :: "kernel \<Rightarrow> item_id \<Rightarrow> list_id \<Rightarrow> bool" where
  "home k (StateItem t) (Ready p) \<longleftrightarrow> uxPriority (tcb k t) = p"
| "home k (StateItem t) DelayedTaskList1 \<longleftrightarrow> True"
| "home k (StateItem t) DelayedTaskList2 \<longleftrightarrow> True"
| "home k (StateItem t) SuspendedTaskList \<longleftrightarrow> True"
| "home k (StateItem t) TasksWaitingTermination \<longleftrightarrow> True"
| "home k (StateItem t) PendingReadyList \<longleftrightarrow> False"
| "home k (StateItem t) (EventList e) \<longleftrightarrow> False"
| "home k (EventItem t) l \<longleftrightarrow> l = PendingReadyList \<or> (\<exists>e. l = EventList e)"

definition tasks_ok :: "task set \<Rightarrow> kernel \<Rightarrow> bool" where
  "tasks_ok T k \<longleftrightarrow> finite T \<and> card T < 2 ^ 30 \<and> 0 \<notin> T \<and> pxCurrentTCB k \<in> T
     \<and> (\<forall>t \<in> T. uxPriority (tcb k t) < configMAX_PRIORITIES)
     \<and> (\<forall>i. task_of i \<in> T \<longrightarrow> pvOwner (item (lists k) i) = Some (task_of i))"

definition homes_ok :: "u32 set \<Rightarrow> task set \<Rightarrow> kernel \<Rightarrow> (item_id, list_id) alists \<Rightarrow> bool" where
  "homes_ok E T k a \<longleftrightarrow> (\<forall>i l. holder a i = Some l \<longrightarrow> l \<in> kernel_lists E \<and> task_of i \<in> T \<and> home k i l)"

definition bits_ok :: "kernel \<Rightarrow> (item_id, list_id) alists \<Rightarrow> bool" where
  "bits_ok k a \<longleftrightarrow> (\<forall>p < configMAX_PRIORITIES. bit (uxTopReadyPriority k) (unat p) \<longleftrightarrow> (\<exists>i. holder a i = Some (Ready p)))
     \<and> uxTopReadyPriority k < 64"

definition delayed_ok :: "kernel \<Rightarrow> (item_id, list_id) alists \<Rightarrow> bool" where
  "delayed_ok k a \<longleftrightarrow>
     (pxDelayedTaskList k = DelayedTaskList1 \<and> pxOverflowDelayedTaskList k = DelayedTaskList2
      \<or> pxDelayedTaskList k = DelayedTaskList2 \<and> pxOverflowDelayedTaskList k = DelayedTaskList1)
     \<and> sorted (map (itemval a) (elems a DelayedTaskList1)) \<and> sorted (map (itemval a) (elems a DelayedTaskList2))"

definition kernel_base :: "u32 set \<Rightarrow> task set \<Rightarrow> kernel \<Rightarrow> (item_id, list_id) alists \<Rightarrow> bool" where
  "kernel_base E T k a \<longleftrightarrow> rep (kernel_lists E) (lists k) a \<and> tasks_ok T k \<and> homes_ok E T k a \<and> bits_ok k a \<and> delayed_ok k a"

text \<open>
  The delayed lists lie on their side of the tick count, and no delayed task is earlier than the next
  unblock time.
\<close>

definition times_ok :: "kernel \<Rightarrow> (item_id, list_id) alists \<Rightarrow> bool" where
  "times_ok k a \<longleftrightarrow>
     (\<forall>i. holder a i = Some (pxDelayedTaskList k) \<longrightarrow> xTickCount k < itemval a i \<and> xNextTaskUnblockTime k \<le> itemval a i)
     \<and> (\<forall>i. holder a i = Some (pxOverflowDelayedTaskList k) \<longrightarrow> itemval a i < xTickCount k)"

definition kernel_inv :: "u32 set \<Rightarrow> task set \<Rightarrow> kernel \<Rightarrow> (item_id, list_id) alists \<Rightarrow> bool" where
  "kernel_inv E T k a \<longleftrightarrow> kernel_base E T k a \<and> times_ok k a"

lemma kernel_baseD:
  assumes "kernel_base E T k a"
  shows "rep (kernel_lists E) (lists k) a" "tasks_ok T k" "homes_ok E T k a" "bits_ok k a" "delayed_ok k a"
  using assms by (simp_all add: kernel_base_def)

lemma tasks_okD:
  assumes "tasks_ok T k"
  shows "pxCurrentTCB k \<in> T" "t \<in> T \<Longrightarrow> t \<noteq> 0" "t \<in> T \<Longrightarrow> uxPriority (tcb k t) < configMAX_PRIORITIES"
    "task_of i \<in> T \<Longrightarrow> pvOwner (item (lists k) i) = Some (task_of i)"
  using assms by (auto simp: tasks_ok_def)

lemma TCB_task: "tasks_ok T k \<Longrightarrow> t \<in> T \<Longrightarrow> TCB t k = Some (tcb k t)"
  by (auto simp: TCB_def tasks_ok_def)

lemma kernel_lists_simps [simp]:
  "Ready p \<in> kernel_lists E \<longleftrightarrow> p < configMAX_PRIORITIES" "DelayedTaskList1 \<in> kernel_lists E" "DelayedTaskList2 \<in> kernel_lists E"
  "PendingReadyList \<in> kernel_lists E" "TasksWaitingTermination \<in> kernel_lists E" "SuspendedTaskList \<in> kernel_lists E"
  "EventList e \<in> kernel_lists E \<longleftrightarrow> e \<in> E"
  by (auto simp: kernel_lists_def)

text \<open>Membership in a list is the holder, and no list can be full.\<close>

lemma elems_holder:
  assumes "kernel_base E T k a" and "l \<in> kernel_lists E"
  shows "i \<in> set (elems a l) \<longleftrightarrow> holder a i = Some l"
  using repD(4) [OF kernel_baseD(1) [OF assms(1)] assms(2)] .

lemma homes_length:
  assumes "rep (kernel_lists E) s a" and "homes_ok E T k a" and "finite T" and "card T < 2 ^ 30" and "l \<in> kernel_lists E"
  shows "length (elems a l) + 1 < 2 ^ 32"
proof -
  have "set (elems a l) \<subseteq> StateItem ` T \<union> EventItem ` T"
  proof
    fix i assume "i \<in> set (elems a l)"
    then have "task_of i \<in> T" using assms(2) repD(4) [OF assms(1,5)] by (auto simp: homes_ok_def)
    then show "i \<in> StateItem ` T \<union> EventItem ` T" by (cases i) auto
  qed
  then have "card (set (elems a l)) \<le> card (StateItem ` T \<union> EventItem ` T)" using assms(3) by (intro card_mono) auto
  also have "\<dots> \<le> card (StateItem ` T) + card (EventItem ` T)" by (rule card_Un_le)
  also have "\<dots> \<le> card T + card T" using assms(3) by (intro add_mono card_image_le) auto
  finally have "length (elems a l) \<le> card T + card T"
    using distinct_card [OF repD(2) [OF assms(1,5)]] by simp
  then show ?thesis using assms(4) by simp
qed

section \<open>The list operations on the kernel\<close>

lemma on_lists_remove:
  assumes "rep L (lists k) a" and "l \<in> L" and "holder a i = Some l"
  shows "\<exists>s. on_lists (listREMOVE_ITEM i) k = Some (k\<lparr>lists := s\<rparr>) \<and> rep L s (a_remove i a)
      \<and> (\<forall>j. pvOwner (item s j) = pvOwner (item (lists k) j))
      \<and> list_remove i k = Some (of_nat (length (elems (a_remove i a) l)), k\<lparr>lists := s\<rparr>)"
  using uxListRemove_sim [OF assms] by (auto simp: on_lists_def list_remove_def list_macros)

lemma on_lists_insert_end:
  assumes "rep L (lists k) a" and "l \<in> L" and "holder a i = None" and "length (elems a l) + 1 < 2 ^ 32"
  shows "\<exists>s. on_lists (listINSERT_END l i) k = Some (k\<lparr>lists := s\<rparr>) \<and> on_lists (vListInsertEnd l i) k = Some (k\<lparr>lists := s\<rparr>)
      \<and> rep L s (a_insert_end l i a) \<and> (\<forall>j. pvOwner (item s j) = pvOwner (item (lists k) j))"
  using vListInsertEnd_sim [OF assms] by (auto simp: on_lists_def list_macros)

lemma on_lists_insert:
  assumes "rep L (lists k) a" and "l \<in> L" and "holder a i = None" and "length (elems a l) + 1 < 2 ^ 32"
  shows "\<exists>s. on_lists (vListInsert l i) k = Some (k\<lparr>lists := s\<rparr>)
      \<and> rep L s (a_insert l i a) \<and> (\<forall>j. pvOwner (item s j) = pvOwner (item (lists k) j))"
  using vListInsert_sim [OF assms] by (auto simp: on_lists_def)

lemma holder_simps [simp]:
  "holder (a_remove i a) = (holder a)(i := None)" "itemval (a_remove i a) = itemval a"
  "holder (a_insert_end l i a) = (holder a)(i := Some l)" "itemval (a_insert_end l i a) = itemval a"
  "holder (a_insert l i a) = (holder a)(i := Some l)" "itemval (a_insert l i a) = itemval a"
  "holder (a_set_value i v a) = holder a" "itemval (a_set_value i v a) = (itemval a)(i := v)"
  "elems (a_set_value i v a) = elems a"
  by (auto simp: a_remove_def a_insert_end_def a_insert_def a_set_value_def Let_def fun_upd_idem split: option.split)

lemma elems_remove: "elems (a_remove i a) m = (if holder a i = Some m then filter (\<lambda>x. x \<noteq> i) (elems a m) else elems a m)"
  by (auto simp: a_remove_def split: option.split)

lemma elems_insert_other: "m \<noteq> l \<Longrightarrow> elems (a_insert_end l i a) m = elems a m" "m \<noteq> l \<Longrightarrow> elems (a_insert l i a) m = elems a m"
  by (simp_all add: a_insert_end_def a_insert_def Let_def)

section \<open>Priority bits\<close>

lemma priority_unat: "p < configMAX_PRIORITIES \<longleftrightarrow> unat p < 6"
  by (simp add: configMAX_PRIORITIES_def word_less_nat_alt)

lemma bit_mask: "bit (push_bit n 1 :: u32) q \<longleftrightarrow> q = n \<and> n < 32"
  unfolding bit_push_bit_iff bit_1_iff by auto

lemma bit_record:
  "p < configMAX_PRIORITIES \<Longrightarrow> bit (portRECORD_READY_PRIORITY p w) q \<longleftrightarrow> bit w q \<or> q = unat p"
  unfolding portRECORD_READY_PRIORITY_def bit_or_iff bit_mask priority_unat by auto

lemma bit_reset: "bit (portRESET_READY_PRIORITY p w) q \<longleftrightarrow> bit w q \<and> q \<noteq> unat p"
  unfolding portRESET_READY_PRIORITY_def bit_and_iff bit_not_iff bit_mask
  using bit_imp_le_length [of w q] by auto

text \<open>Six bits are used.\<close>

lemma below_64: "(w :: u32) < 64 \<longleftrightarrow> (\<forall>q. bit w q \<longrightarrow> q < 6)"
proof -
  have "w < 64 \<longleftrightarrow> take_bit 6 w = w"
  proof -
    have "unat w < 64 \<longleftrightarrow> unat w mod 64 = unat w" by (metis mod_less mod_less_divisor zero_less_numeral)
    then show ?thesis by (simp add: take_bit_eq_mod word_less_nat_alt word_unat_eq_iff unat_mod)
  qed
  also have "\<dots> \<longleftrightarrow> (\<forall>q. bit w q \<longrightarrow> q < 6)"
    using bit_imp_le_length [of w] by (auto simp: bit_eq_iff bit_take_bit_iff)
  finally show ?thesis .
qed
section \<open>Each list operation keeps the invariant\<close>

lemma base_length: "kernel_base E T k a \<Longrightarrow> l \<in> kernel_lists E \<Longrightarrow> length (elems a l) + 1 < 2 ^ 32"
  using homes_length [of E "lists k" a T k l] by (simp add: kernel_base_def tasks_ok_def)

lemma base_home:
  assumes "kernel_base E T k a" and "holder a i = Some l"
  shows "l \<in> kernel_lists E" "task_of i \<in> T" "home k i l"
  using assms by (auto simp: kernel_base_def homes_ok_def)

text \<open>Fields the invariant does not read.\<close>

lemma base_frame [simp]:
  "kernel_base E T (k\<lparr>xTickCount := x\<rparr>) a = kernel_base E T k a"
  "kernel_base E T (k\<lparr>xNextTaskUnblockTime := x\<rparr>) a = kernel_base E T k a"
  "kernel_base E T (k\<lparr>xYieldPending := b\<rparr>) a = kernel_base E T k a"
  "kernel_base E T (k\<lparr>swi := b\<rparr>) a = kernel_base E T k a"
  "kernel_base E T (k\<lparr>xPendedTicks := x\<rparr>) a = kernel_base E T k a"
  "kernel_base E T (k\<lparr>uxSchedulerSuspended := x\<rparr>) a = kernel_base E T k a"
  "kernel_base E T (k\<lparr>xNumOfOverflows := x\<rparr>) a = kernel_base E T k a"
  "kernel_base E T (k\<lparr>uxTaskNumber := x\<rparr>) a = kernel_base E T k a"
  "kernel_base E T (k\<lparr>uxCurrentNumberOfTasks := x\<rparr>) a = kernel_base E T k a"
  "kernel_base E T (k\<lparr>uxDeletedTasksWaitingCleanUp := x\<rparr>) a = kernel_base E T k a"
proof -
  have "home (k\<lparr>xTickCount := x\<rparr>) i l = home k i l" "home (k\<lparr>xNextTaskUnblockTime := x\<rparr>) i l = home k i l"
    "home (k\<lparr>xYieldPending := b\<rparr>) i l = home k i l" "home (k\<lparr>swi := b\<rparr>) i l = home k i l"
    "home (k\<lparr>xPendedTicks := x\<rparr>) i l = home k i l" "home (k\<lparr>uxSchedulerSuspended := x\<rparr>) i l = home k i l"
    "home (k\<lparr>xNumOfOverflows := x\<rparr>) i l = home k i l" "home (k\<lparr>uxTaskNumber := x\<rparr>) i l = home k i l"
    "home (k\<lparr>uxCurrentNumberOfTasks := x\<rparr>) i l = home k i l" "home (k\<lparr>uxDeletedTasksWaitingCleanUp := x\<rparr>) i l = home k i l"
    for i l by (cases i; cases l; simp)+
  then show
    "kernel_base E T (k\<lparr>xTickCount := x\<rparr>) a = kernel_base E T k a"
    "kernel_base E T (k\<lparr>xNextTaskUnblockTime := x\<rparr>) a = kernel_base E T k a"
    "kernel_base E T (k\<lparr>xYieldPending := b\<rparr>) a = kernel_base E T k a"
    "kernel_base E T (k\<lparr>swi := b\<rparr>) a = kernel_base E T k a"
    "kernel_base E T (k\<lparr>xPendedTicks := x\<rparr>) a = kernel_base E T k a"
    "kernel_base E T (k\<lparr>uxSchedulerSuspended := x\<rparr>) a = kernel_base E T k a"
    "kernel_base E T (k\<lparr>xNumOfOverflows := x\<rparr>) a = kernel_base E T k a"
    "kernel_base E T (k\<lparr>uxTaskNumber := x\<rparr>) a = kernel_base E T k a"
    "kernel_base E T (k\<lparr>uxCurrentNumberOfTasks := x\<rparr>) a = kernel_base E T k a"
    "kernel_base E T (k\<lparr>uxDeletedTasksWaitingCleanUp := x\<rparr>) a = kernel_base E T k a"
    by (simp_all add: kernel_base_def tasks_ok_def homes_ok_def bits_ok_def delayed_ok_def)
qed

lemma home_lists [simp]: "home (k\<lparr>lists := s\<rparr>) i l = home k i l" "home (k\<lparr>uxTopReadyPriority := w\<rparr>) i l = home k i l"
  by (cases i; cases l; simp)+

text \<open>The parts of the invariant after the lists and the priority bits changed.\<close>

lemma base_update:
  assumes "kernel_base E T k a" and "rep (kernel_lists E) s a'" and "\<forall>j. pvOwner (item s j) = pvOwner (item (lists k) j)"
    and "\<forall>i l. holder a' i = Some l \<longrightarrow> holder a i = Some l \<or> (l \<in> kernel_lists E \<and> task_of i \<in> T \<and> home k i l)"
    and "\<forall>p < configMAX_PRIORITIES. bit w (unat p) \<longleftrightarrow> (\<exists>i. holder a' i = Some (Ready p))" and "w < 64"
    and "sorted (map (itemval a') (elems a' DelayedTaskList1))" and "sorted (map (itemval a') (elems a' DelayedTaskList2))"
  shows "kernel_base E T (k\<lparr>lists := s, uxTopReadyPriority := w\<rparr>) a'"
proof -
  note b = kernel_baseD [OF assms(1)]
  have "tasks_ok T (k\<lparr>lists := s, uxTopReadyPriority := w\<rparr>)" using b(2) assms(3) by (simp add: tasks_ok_def)
  moreover have "homes_ok E T (k\<lparr>lists := s, uxTopReadyPriority := w\<rparr>) a'"
    using b(3) assms(4) by (auto simp: homes_ok_def)
  moreover have "bits_ok (k\<lparr>lists := s, uxTopReadyPriority := w\<rparr>) a'" using assms(5,6) by (simp add: bits_ok_def)
  moreover have "delayed_ok (k\<lparr>lists := s, uxTopReadyPriority := w\<rparr>) a'" using b(5) assms(7,8) by (simp add: delayed_ok_def)
  ultimately show ?thesis using assms(2) by (simp add: kernel_base_def)
qed

lemma base_sorted:
  "kernel_base E T k a \<Longrightarrow> sorted (map (itemval a) (elems a DelayedTaskList1))"
  "kernel_base E T k a \<Longrightarrow> sorted (map (itemval a) (elems a DelayedTaskList2))"
  by (simp_all add: kernel_base_def delayed_ok_def)

lemma base_bits:
  "kernel_base E T k a \<Longrightarrow> p < configMAX_PRIORITIES \<Longrightarrow> bit (uxTopReadyPriority k) (unat p) \<longleftrightarrow> (\<exists>i. holder a i = Some (Ready p))"
  "kernel_base E T k a \<Longrightarrow> uxTopReadyPriority k < 64"
  by (simp_all add: kernel_base_def bits_ok_def)

lemma sorted_remove: "sorted (map f (elems a l)) \<Longrightarrow> sorted (map f (elems (a_remove i a) l))"
  by (simp add: elems_remove sorted_filter)

text \<open>Taking an item off a list that is not a ready list.\<close>

lemma remove_base:
  assumes "kernel_base E T k a" and "holder a i = Some l" and "\<forall>p. l \<noteq> Ready p"
  shows "\<exists>s. on_lists (listREMOVE_ITEM i) k = Some (k\<lparr>lists := s\<rparr>) \<and> kernel_base E T (k\<lparr>lists := s\<rparr>) (a_remove i a)
    \<and> list_remove i k = Some (of_nat (length (elems (a_remove i a) l)), k\<lparr>lists := s\<rparr>)"
proof -
  obtain s where s: "on_lists (listREMOVE_ITEM i) k = Some (k\<lparr>lists := s\<rparr>)" "rep (kernel_lists E) s (a_remove i a)"
      "\<forall>j. pvOwner (item s j) = pvOwner (item (lists k) j)"
      "list_remove i k = Some (of_nat (length (elems (a_remove i a) l)), k\<lparr>lists := s\<rparr>)"
    using on_lists_remove [OF kernel_baseD(1) [OF assms(1)] base_home(1) [OF assms(1,2)] assms(2)] by blast
  have same: "((holder a)(i := None)) j = Some (Ready p) \<longleftrightarrow> holder a j = Some (Ready p)" for j p
    using assms(2,3) by (cases "j = i") auto
  have "kernel_base E T (k\<lparr>lists := s, uxTopReadyPriority := uxTopReadyPriority k\<rparr>) (a_remove i a)"
    by (rule base_update [OF assms(1) s(2,3)])
      (use same base_bits [OF assms(1)] base_sorted [OF assms(1)] in \<open>auto intro: sorted_remove\<close>)
  moreover have "k\<lparr>lists := s, uxTopReadyPriority := uxTopReadyPriority k\<rparr> = k\<lparr>lists := s\<rparr>" by simp
  ultimately show ?thesis using s by auto
qed

text \<open>Taking a task off its ready list, with the priority bit reset when it was the last one.\<close>

lemma elems_empty_holder:
  assumes "rep (kernel_lists E) s a" and "l \<in> kernel_lists E"
  shows "elems a l = [] \<longleftrightarrow> \<not> (\<exists>i. holder a i = Some l)"
  using repD(4) [OF assms] by (metis all_not_in_conv set_empty)

lemma below_64_reset: "w < 64 \<Longrightarrow> portRESET_READY_PRIORITY p w < 64"
  by (simp add: below_64 bit_reset)

lemma below_64_record: "w < 64 \<Longrightarrow> p < configMAX_PRIORITIES \<Longrightarrow> portRECORD_READY_PRIORITY p w < 64"
  by (auto simp: below_64 bit_record priority_unat)

lemma length_u32_0:
  assumes "rep L s a" and "l \<in> L"
  shows "(of_nat (length (elems a l)) :: u32) = 0 \<longleftrightarrow> elems a l = []"
  using of_nat_u32_eq_0_iff [OF repD(3) [OF assms]] by simp

lemma holder_removed: "(\<exists>j. holder (a_remove i a) j = Some l) \<longleftrightarrow> (\<exists>j. j \<noteq> i \<and> holder a j = Some l)"
  by auto

lemma holder_added:
  "holder a i = None \<Longrightarrow> (\<exists>j. holder (a_insert_end l i a) j = Some m) \<longleftrightarrow> l = m \<or> (\<exists>j. holder a j = Some m)"
  by (cases "l = m") (simp_all, metis, metis option.distinct(1))

text \<open>Two forms of \<open>base_update\<close>: an item went away, and a task became ready.\<close>

lemma base_removed:
  assumes "kernel_base E T k a" and "rep (kernel_lists E) s (a_remove i a)" and "\<forall>j. pvOwner (item s j) = pvOwner (item (lists k) j)"
    and "\<forall>p < configMAX_PRIORITIES. bit w (unat p) \<longleftrightarrow> (\<exists>j. j \<noteq> i \<and> holder a j = Some (Ready p))" and "w < 64"
  shows "kernel_base E T (k\<lparr>lists := s, uxTopReadyPriority := w\<rparr>) (a_remove i a)"
proof (rule base_update [OF assms(1-3)])
  show "\<forall>j l. holder (a_remove i a) j = Some l \<longrightarrow> holder a j = Some l \<or> l \<in> kernel_lists E \<and> task_of j \<in> T \<and> home k j l"
    by simp
  show "\<forall>p<configMAX_PRIORITIES. bit w (unat p) \<longleftrightarrow> (\<exists>j. holder (a_remove i a) j = Some (Ready p))"
    using assms(4) unfolding holder_removed .
  show "sorted (map (itemval (a_remove i a)) (elems (a_remove i a) DelayedTaskList1))"
    using sorted_remove [OF base_sorted(1) [OF assms(1)]] by simp
  show "sorted (map (itemval (a_remove i a)) (elems (a_remove i a) DelayedTaskList2))"
    using sorted_remove [OF base_sorted(2) [OF assms(1)]] by simp
qed (rule assms(5))

lemma base_readied:
  assumes "kernel_base E T k a" and "rep (kernel_lists E) s (a_insert_end (Ready p) (StateItem t) a)"
    and "\<forall>j. pvOwner (item s j) = pvOwner (item (lists k) j)" and "t \<in> T" and "uxPriority (tcb k t) = p"
    and "holder a (StateItem t) = None"
  shows "kernel_base E T (k\<lparr>lists := s, uxTopReadyPriority := portRECORD_READY_PRIORITY p (uxTopReadyPriority k)\<rparr>)
    (a_insert_end (Ready p) (StateItem t) a)"
proof (rule base_update [OF assms(1-3)])
  have p: "p < configMAX_PRIORITIES" using tasks_okD(3) [OF kernel_baseD(2) [OF assms(1)] assms(4)] assms(5) by simp
  show "\<forall>j l. holder (a_insert_end (Ready p) (StateItem t) a) j = Some l
      \<longrightarrow> holder a j = Some l \<or> l \<in> kernel_lists E \<and> task_of j \<in> T \<and> home k j l"
  proof (intro allI impI)
    fix j l assume "holder (a_insert_end (Ready p) (StateItem t) a) j = Some l"
    then show "holder a j = Some l \<or> l \<in> kernel_lists E \<and> task_of j \<in> T \<and> home k j l"
      using assms(4,5) p by (cases "j = StateItem t") auto
  qed
  show "\<forall>q<configMAX_PRIORITIES. bit (portRECORD_READY_PRIORITY p (uxTopReadyPriority k)) (unat q)
      \<longleftrightarrow> (\<exists>i. holder (a_insert_end (Ready p) (StateItem t) a) i = Some (Ready q))"
  proof (intro allI impI)
    fix q :: u32 assume q: "q < configMAX_PRIORITIES"
    have "(\<exists>i. holder (a_insert_end (Ready p) (StateItem t) a) i = Some (Ready q)) \<longleftrightarrow> q = p \<or> (\<exists>i. holder a i = Some (Ready q))"
      using holder_added [of a "StateItem t" "Ready p" "Ready q"] assms(6) by (simp add: eq_commute)
    then show "bit (portRECORD_READY_PRIORITY p (uxTopReadyPriority k)) (unat q)
      \<longleftrightarrow> (\<exists>i. holder (a_insert_end (Ready p) (StateItem t) a) i = Some (Ready q))"
      using base_bits(1) [OF assms(1) q] bit_record [OF p, of "uxTopReadyPriority k" "unat q"] word_unat_eq_iff [of q p] by blast
  qed
  show "portRECORD_READY_PRIORITY p (uxTopReadyPriority k) < 64"
    by (rule below_64_record [OF base_bits(2) [OF assms(1)] p])
  show "sorted (map (itemval (a_insert_end (Ready p) (StateItem t) a)) (elems (a_insert_end (Ready p) (StateItem t) a) DelayedTaskList1))"
    using base_sorted(1) [OF assms(1)] by (simp add: elems_insert_other)
  show "sorted (map (itemval (a_insert_end (Ready p) (StateItem t) a)) (elems (a_insert_end (Ready p) (StateItem t) a) DelayedTaskList2))"
    using base_sorted(2) [OF assms(1)] by (simp add: elems_insert_other)
qed

lemma remove_ready_base:
  assumes "kernel_base E T k a" and "holder a (StateItem t) = Some (Ready p)"
  shows "\<exists>n s w. list_remove (StateItem t) k = Some (n, k\<lparr>lists := s\<rparr>)
    \<and> (if n = 0 then reset_ready p (k\<lparr>lists := s\<rparr>) else k\<lparr>lists := s\<rparr>) = k\<lparr>lists := s, uxTopReadyPriority := w\<rparr>
    \<and> kernel_base E T (k\<lparr>lists := s, uxTopReadyPriority := w\<rparr>) (a_remove (StateItem t) a)
    \<and> n = of_nat (length (elems (a_remove (StateItem t) a) (Ready p)))"
proof -
  let ?i = "StateItem t" and ?a = "a_remove (StateItem t) a"
  have l: "Ready p \<in> kernel_lists E" by (rule base_home(1) [OF assms])
  then have p: "p < configMAX_PRIORITIES" by simp
  obtain s where s: "rep (kernel_lists E) s ?a" "\<forall>j. pvOwner (item s j) = pvOwner (item (lists k) j)"
      "list_remove ?i k = Some (of_nat (length (elems ?a (Ready p))), k\<lparr>lists := s\<rparr>)"
    using on_lists_remove [OF kernel_baseD(1) [OF assms(1)] l assms(2)] by blast
  define n :: u32 where "n = of_nat (length (elems ?a (Ready p)))"
  define w where "w = (if n = 0 then portRESET_READY_PRIORITY p (uxTopReadyPriority k) else uxTopReadyPriority k)"
  have n0: "n = 0 \<longleftrightarrow> \<not> (\<exists>i. i \<noteq> ?i \<and> holder a i = Some (Ready p))"
    using length_u32_0 [OF s(1) l] elems_empty_holder [OF s(1) l] unfolding n_def holder_removed by (rule trans)
  have bits: "\<forall>q < configMAX_PRIORITIES. bit w (unat q) \<longleftrightarrow> (\<exists>j. j \<noteq> ?i \<and> holder a j = Some (Ready q))"
  proof (intro allI impI)
    fix q :: u32 assume q: "q < configMAX_PRIORITIES"
    show "bit w (unat q) \<longleftrightarrow> (\<exists>j. j \<noteq> ?i \<and> holder a j = Some (Ready q))"
    proof (cases "q = p")
      case True
      then show ?thesis using n0 base_bits(1) [OF assms(1) q] assms(2) by (cases "n = 0") (auto simp: bit_reset w_def)
    next
      case False
      then have "unat q \<noteq> unat p" by (simp add: word_unat_eq_iff)
      then have "bit w (unat q) \<longleftrightarrow> bit (uxTopReadyPriority k) (unat q)" by (simp add: bit_reset w_def)
      moreover have "(\<exists>j. holder a j = Some (Ready q)) \<longleftrightarrow> (\<exists>j. j \<noteq> ?i \<and> holder a j = Some (Ready q))"
        using assms(2) False by (metis list_id.inject(1) option.inject)
      ultimately show ?thesis using base_bits(1) [OF assms(1) q] by simp
    qed
  qed
  have "w < 64" using base_bits(2) [OF assms(1)] below_64_reset by (simp add: w_def)
  then have "kernel_base E T (k\<lparr>lists := s, uxTopReadyPriority := w\<rparr>) ?a" by (rule base_removed [OF assms(1) s(1,2) bits])
  moreover have "(if n = 0 then reset_ready p (k\<lparr>lists := s\<rparr>) else k\<lparr>lists := s\<rparr>) = k\<lparr>lists := s, uxTopReadyPriority := w\<rparr>"
    by (simp add: reset_ready_def w_def)
  ultimately show ?thesis using s(3) unfolding n_def by blast
qed

text \<open>Making a task ready.\<close>

lemma add_ready_base:
  assumes "kernel_base E T k a" and "t \<in> T" and "holder a (StateItem t) = None"
  shows "\<exists>s. prvAddTaskToReadyList t k
      = Some (k\<lparr>lists := s, uxTopReadyPriority := portRECORD_READY_PRIORITY (uxPriority (tcb k t)) (uxTopReadyPriority k)\<rparr>)
    \<and> kernel_base E T (k\<lparr>lists := s, uxTopReadyPriority := portRECORD_READY_PRIORITY (uxPriority (tcb k t)) (uxTopReadyPriority k)\<rparr>)
        (a_insert_end (Ready (uxPriority (tcb k t))) (StateItem t) a)"
proof -
  define p where "p = uxPriority (tcb k t)"
  note b = kernel_baseD [OF assms(1)]
  have p: "p < configMAX_PRIORITIES" unfolding p_def by (rule tasks_okD(3) [OF b(2) assms(2)])
  then have l: "Ready p \<in> kernel_lists E" by simp
  define w where "w = portRECORD_READY_PRIORITY p (uxTopReadyPriority k)"
  have "rep (kernel_lists E) (lists (k\<lparr>uxTopReadyPriority := w\<rparr>)) a" using b(1) by simp
  from on_lists_insert_end [OF this l assms(3) base_length [OF assms(1) l]]
  obtain s where s: "on_lists (listINSERT_END (Ready p) (StateItem t)) (k\<lparr>uxTopReadyPriority := w\<rparr>) = Some (k\<lparr>uxTopReadyPriority := w, lists := s\<rparr>)"
      "rep (kernel_lists E) s (a_insert_end (Ready p) (StateItem t) a)" "\<forall>j. pvOwner (item s j) = pvOwner (item (lists k) j)"
    by auto
  have code: "prvAddTaskToReadyList t k = Some (k\<lparr>lists := s, uxTopReadyPriority := w\<rparr>)"
    using s(1) TCB_task [OF b(2) assms(2)] by (simp add: prvAddTaskToReadyList_def p_def w_def)
  have "kernel_base E T (k\<lparr>lists := s, uxTopReadyPriority := w\<rparr>) (a_insert_end (Ready p) (StateItem t) a)"
    unfolding w_def by (rule base_readied [OF assms(1) s(2,3) assms(2) p_def [symmetric] assms(3)])
  then show ?thesis using code unfolding w_def p_def by blast
qed

end
