(* ===== verification/KernelTime.thy ===== *)
theory KernelTime
  imports KernelInv
begin

text \<open>
  Time in the scheduler: the tick, the delayed lists and the operations that put the running task to
  sleep, shown over the invariant of the kernel.
\<close>

section \<open>Reading the lists\<close>

lemma container_holder: "kernel_base E T k a \<Longrightarrow> container i k = holder a i"
  using rep_item(2) [OF kernel_baseD(1)] by (simp add: container_def)

lemma value_itemval: "kernel_base E T k a \<Longrightarrow> value_of i k = itemval a i"
  using rep_item(1) [OF kernel_baseD(1)] by (simp add: value_of_def)

lemma list_empty_elems: "kernel_base E T k a \<Longrightarrow> l \<in> kernel_lists E \<Longrightarrow> list_empty l k \<longleftrightarrow> elems a l = []"
  using listLIST_IS_EMPTY_sim [OF kernel_baseD(1)] by (simp add: list_empty_def)

lemma head_value:
  "kernel_base E T k a \<Longrightarrow> l \<in> kernel_lists E \<Longrightarrow> elems a l = i # xs
    \<Longrightarrow> listGET_ITEM_VALUE_OF_HEAD_ENTRY l (lists k) = Some (itemval a i)"
  using listGET_OWNER_OF_HEAD_ENTRY_sim(2) [OF kernel_baseD(1)] by fastforce

lemma head_owner_task:
  assumes "kernel_base E T k a" and "l \<in> kernel_lists E" and "elems a l = i # xs"
  shows "head_owner l k = Some (task_of i)" "holder a i = Some l" "task_of i \<in> T"
proof -
  show h: "holder a i = Some l" using elems_holder [OF assms(1,2), of i] assms(3) by simp
  then show t: "task_of i \<in> T" by (rule base_home(2) [OF assms(1)])
  have "pvOwner (item (lists k) i) = Some (task_of i)" by (rule tasks_okD(4) [OF kernel_baseD(2) [OF assms(1)] t])
  then show "head_owner l k = Some (task_of i)"
    using listGET_OWNER_OF_HEAD_ENTRY_sim(1) [OF kernel_baseD(1) [OF assms(1)] assms(2)] assms(3) by (simp add: head_owner_def)
qed

text \<open>The two delayed lists are neither ready lists nor event lists, and hold state items.\<close>

definition sleeping :: "list_id set" where
  "sleeping = {DelayedTaskList1, DelayedTaskList2}"

lemma sleepingD:
  assumes "l \<in> sleeping"
  shows "l \<in> kernel_lists E" "l \<noteq> Ready p" "l \<noteq> PendingReadyList" "l \<noteq> SuspendedTaskList" "l \<noteq> EventList e"
    "home k i l \<Longrightarrow> i = StateItem (task_of i)"
  using assms by (cases i; auto simp: sleeping_def)+

lemma delayed_sleeping:
  assumes "kernel_base E T k a"
  shows "pxDelayedTaskList k \<in> sleeping" "pxOverflowDelayedTaskList k \<in> sleeping" "pxDelayedTaskList k \<noteq> pxOverflowDelayedTaskList k"
    "sleeping = {pxDelayedTaskList k, pxOverflowDelayedTaskList k}"
  using kernel_baseD(5) [OF assms] by (auto simp: delayed_ok_def sleeping_def)

lemma sleeping_state_item:
  "kernel_base E T k a \<Longrightarrow> l \<in> sleeping \<Longrightarrow> holder a i = Some l \<Longrightarrow> i = StateItem (task_of i)"
  using sleepingD(6) base_home(3) by blast

section \<open>Waking one task\<close>

text \<open>
  Off the list of its state item, off the event list if it waits on one, onto the ready list of its
  priority.
\<close>

lemma wake_step:
  assumes "kernel_base E T k a" and "holder a (StateItem t) = Some l" and "\<forall>p. l \<noteq> Ready p"
  shows "\<exists>k1 k2 s w a'. on_lists (listREMOVE_ITEM (StateItem t)) k = Some k1
    \<and> (if container (EventItem t) k1 \<noteq> None then on_lists (listREMOVE_ITEM (EventItem t)) k1 else Some k1) = Some k2
    \<and> prvAddTaskToReadyList t k2 = Some (k\<lparr>lists := s, uxTopReadyPriority := w\<rparr>)
    \<and> kernel_base E T (k\<lparr>lists := s, uxTopReadyPriority := w\<rparr>) a'
    \<and> holder a' = (holder a)(StateItem t := Some (Ready (uxPriority (tcb k t))), EventItem t := None)
    \<and> itemval a' = itemval a
    \<and> (\<forall>m \<in> kernel_lists E. (\<forall>p. m \<noteq> Ready p) \<longrightarrow> elems a' m = filter (\<lambda>i. i \<noteq> StateItem t \<and> i \<noteq> EventItem t) (elems a m))"
proof -
  have t: "t \<in> T" using base_home(2) [OF assms(1,2)] by simp
  define a1 where "a1 = a_remove (StateItem t) a"
  obtain s1 where s1: "on_lists (listREMOVE_ITEM (StateItem t)) k = Some (k\<lparr>lists := s1\<rparr>)" "kernel_base E T (k\<lparr>lists := s1\<rparr>) a1"
    using remove_base [OF assms] unfolding a1_def by blast
  have "\<exists>s2 a2. (if container (EventItem t) (k\<lparr>lists := s1\<rparr>) \<noteq> None then on_lists (listREMOVE_ITEM (EventItem t)) (k\<lparr>lists := s1\<rparr>)
        else Some (k\<lparr>lists := s1\<rparr>)) = Some (k\<lparr>lists := s2\<rparr>) \<and> kernel_base E T (k\<lparr>lists := s2\<rparr>) a2 \<and> a2 = a_remove (EventItem t) a1"
  proof (cases "holder a1 (EventItem t)")
    case None
    then have "a_remove (EventItem t) a1 = a1" by (simp add: a_remove_def)
    then show ?thesis using None container_holder [OF s1(2), of "EventItem t"] s1(2) by auto
  next
    case (Some m)
    have "home (k\<lparr>lists := s1\<rparr>) (EventItem t) m" by (rule base_home(3) [OF s1(2) Some])
    then have "\<forall>p. m \<noteq> Ready p" by auto
    from remove_base [OF s1(2) Some this] show ?thesis
      using Some container_holder [OF s1(2), of "EventItem t"] by auto
  qed
  then obtain s2 a2 where s2: "(if container (EventItem t) (k\<lparr>lists := s1\<rparr>) \<noteq> None then on_lists (listREMOVE_ITEM (EventItem t)) (k\<lparr>lists := s1\<rparr>)
        else Some (k\<lparr>lists := s1\<rparr>)) = Some (k\<lparr>lists := s2\<rparr>)" "kernel_base E T (k\<lparr>lists := s2\<rparr>) a2" "a2 = a_remove (EventItem t) a1"
    by blast
  have h2: "holder a2 = (holder a)(StateItem t := None, EventItem t := None)" "itemval a2 = itemval a"
    by (simp_all add: s2(3) a1_def)
  then have "holder a2 (StateItem t) = None" by simp
  from add_ready_base [OF s2(2) t this] obtain s3 where s3: "prvAddTaskToReadyList t (k\<lparr>lists := s2\<rparr>)
      = Some (k\<lparr>lists := s3, uxTopReadyPriority := portRECORD_READY_PRIORITY (uxPriority (tcb k t)) (uxTopReadyPriority k)\<rparr>)"
      "kernel_base E T (k\<lparr>lists := s3, uxTopReadyPriority := portRECORD_READY_PRIORITY (uxPriority (tcb k t)) (uxTopReadyPriority k)\<rparr>)
        (a_insert_end (Ready (uxPriority (tcb k t))) (StateItem t) a2)"
    by auto
  define a3 where "a3 = a_insert_end (Ready (uxPriority (tcb k t))) (StateItem t) a2"
  have "elems a3 m = filter (\<lambda>i. i \<noteq> StateItem t \<and> i \<noteq> EventItem t) (elems a m)" if True: "m \<in> kernel_lists E" and m: "\<forall>p. m \<noteq> Ready p" for m
  proof -
    have 1: "elems a1 m = filter (\<lambda>i. i \<noteq> StateItem t) (elems a m)"
      using elems_holder [OF assms(1) True, of "StateItem t"] by (auto simp: a1_def elems_remove filter_neq_id)
    have "elems a2 m = filter (\<lambda>i. i \<noteq> EventItem t) (elems a1 m)"
      using elems_holder [OF s1(2) True, of "EventItem t"] by (auto simp: s2(3) elems_remove filter_neq_id)
    then show ?thesis using 1 m by (simp add: a3_def elems_insert_other conj_commute)
  qed
  then show ?thesis using s1(1) s2(1) s3 h2 unfolding a3_def [symmetric]
    by (intro exI [of _ "k\<lparr>lists := s1\<rparr>"] exI [of _ "k\<lparr>lists := s2\<rparr>"] exI [of _ s3]
        exI [of _ "portRECORD_READY_PRIORITY (uxPriority (tcb k t)) (uxTopReadyPriority k)"] exI [of _ a3] conjI) 
       (simp_all add: a3_def fun_upd_twist)
qed

section \<open>The loop over the delayed list\<close>

text \<open>The tasks whose time has come, and where every item is once they woke.\<close>

definition due :: "u32 \<Rightarrow> list_id \<Rightarrow> (item_id, list_id) alists \<Rightarrow> task \<Rightarrow> bool" where
  "due now l a t \<longleftrightarrow> holder a (StateItem t) = Some l \<and> itemval a (StateItem t) \<le> now"

fun woken :: "(task \<Rightarrow> bool) \<Rightarrow> kernel \<Rightarrow> (item_id \<rightharpoonup> list_id) \<Rightarrow> item_id \<rightharpoonup> list_id" where
  "woken D k f (StateItem t) = (if D t then Some (Ready (uxPriority (tcb k t))) else f (StateItem t))"
| "woken D k f (EventItem t) = (if D t then None else f (EventItem t))"

lemma woken_none: "(\<And>t. \<not> D t) \<Longrightarrow> woken D k f = f"
proof
  fix i assume "\<And>t. \<not> D t"
  then show "woken D k f i = f i" by (cases i) auto
qed

lemma woken_step:
  assumes "\<And>u. D u \<longleftrightarrow> u = t \<or> D' u" and "tcb k' = tcb k"
  shows "woken D' k' (f(StateItem t := Some (Ready (uxPriority (tcb k t))), EventItem t := None)) = woken D k f"
proof
  fix i
  show "woken D' k' (f(StateItem t := Some (Ready (uxPriority (tcb k t))), EventItem t := None)) i = woken D k f i"
    using assms by (cases i) auto
qed

lemma sorted_head: "sorted (map f (x # xs)) \<Longrightarrow> y \<in> set (x # xs) \<Longrightarrow> f x \<le> f y"
  by auto

lemma unblock_loop_wakes:
  assumes "kernel_base E T k a" and "elems a (pxDelayedTaskList k) = xs"
  shows "\<exists>s w v a'. unblock_loop now sw k
      = Some (sw \<or> (\<exists>t. due now (pxDelayedTaskList k) a t \<and> uxPriority (tcb k (pxCurrentTCB k)) < uxPriority (tcb k t)),
              k\<lparr>lists := s, uxTopReadyPriority := w, xNextTaskUnblockTime := v\<rparr>)
    \<and> kernel_base E T (k\<lparr>lists := s, uxTopReadyPriority := w\<rparr>) a'
    \<and> holder a' = woken (due now (pxDelayedTaskList k) a) k (holder a) \<and> itemval a' = itemval a
    \<and> (\<forall>i. holder a' i = Some (pxDelayedTaskList k) \<longrightarrow> now < itemval a i \<and> v \<le> itemval a i)"
  using assms
proof (induction xs arbitrary: k a sw)
  case Nil
  let ?D = "pxDelayedTaskList k"
  have D: "?D \<in> kernel_lists E" by (rule sleepingD(1) [OF delayed_sleeping(1) [OF Nil.prems(1)]])
  then have e: "list_empty ?D k" using list_empty_elems [OF Nil.prems(1)] Nil.prems(2) by simp
  have n: "holder a i \<noteq> Some ?D" for i using elems_holder [OF Nil.prems(1) D, of i] Nil.prems(2) by simp
  have none: "(sw \<or> (\<exists>t. due now ?D a t \<and> uxPriority (tcb k (pxCurrentTCB k)) < uxPriority (tcb k t))) = sw" by (simp add: due_def n)
  have w: "woken (due now ?D a) k (holder a) = holder a" by (rule woken_none) (simp add: due_def n)
  have "unblock_loop now sw k = Some (sw, k\<lparr>lists := lists k, uxTopReadyPriority := uxTopReadyPriority k, xNextTaskUnblockTime := portMAX_DELAY\<rparr>)"
    using e by (subst unblock_loop.simps) simp
  then show ?case unfolding w none using Nil.prems(1) n
    by - (rule exI [of _ "lists k"], rule exI [of _ "uxTopReadyPriority k"], rule exI [of _ portMAX_DELAY], rule exI [of _ a], simp)
next
  case (Cons i xs)
  let ?D = "pxDelayedTaskList k"
  note base = Cons.prems(1)
  note D = delayed_sleeping(1) [OF base]
  note DL = sleepingD(1) [OF D]
  note hd = head_owner_task [OF base DL Cons.prems(2)]
  define t where "t = task_of i"
  have i: "i = StateItem t" unfolding t_def by (rule sleeping_state_item [OF base D hd(2)])
  have ne: "\<not> list_empty ?D k" using list_empty_elems [OF base DL] Cons.prems(2) by simp
  have sorted: "sorted (map (itemval a) (elems a ?D))"
    using base_sorted [OF base] D by (auto simp: sleeping_def)
  have first: "itemval a i \<le> itemval a j" if "holder a j = Some ?D" for j
    using sorted_head [OF sorted [unfolded Cons.prems(2)], of j] elems_holder [OF base DL, of j] Cons.prems(2) that by simp
  show ?case
  proof (cases "now < itemval a i")
    case True
    have n: "\<not> due now ?D a u" for u
      using first [of "StateItem u"] True by (auto simp: due_def)
    have w: "woken (due now ?D a) k (holder a) = holder a" by (rule woken_none) (rule n)
    have none: "(sw \<or> (\<exists>t. due now ?D a t \<and> uxPriority (tcb k (pxCurrentTCB k)) < uxPriority (tcb k t))) = sw" using n by blast
    have "unblock_loop now sw k = Some (sw, k\<lparr>lists := lists k, uxTopReadyPriority := uxTopReadyPriority k, xNextTaskUnblockTime := itemval a i\<rparr>)"
      using ne hd(1) True value_itemval [OF base, of i] by (subst unblock_loop.simps) (simp add: t_def [symmetric] i)
    moreover have "\<forall>j. holder a j = Some ?D \<longrightarrow> now < itemval a j \<and> itemval a i \<le> itemval a j"
      using first True by (meson less_le_trans)
    ultimately show ?thesis unfolding w none using base
      by - (rule exI [of _ "lists k"], rule exI [of _ "uxTopReadyPriority k"], rule exI [of _ "itemval a i"], rule exI [of _ a], simp)
  next
    case False
    obtain k1 k2 s w a' where st: "on_lists (listREMOVE_ITEM (StateItem t)) k = Some k1"
        "(if container (EventItem t) k1 \<noteq> None then on_lists (listREMOVE_ITEM (EventItem t)) k1 else Some k1) = Some k2"
        "prvAddTaskToReadyList t k2 = Some (k\<lparr>lists := s, uxTopReadyPriority := w\<rparr>)"
        "kernel_base E T (k\<lparr>lists := s, uxTopReadyPriority := w\<rparr>) a'"
        "holder a' = (holder a)(StateItem t := Some (Ready (uxPriority (tcb k t))), EventItem t := None)"
        "itemval a' = itemval a"
        "\<forall>m \<in> kernel_lists E. (\<forall>p. m \<noteq> Ready p) \<longrightarrow> elems a' m = filter (\<lambda>i. i \<noteq> StateItem t \<and> i \<noteq> EventItem t) (elems a m)"
      using wake_step [OF base hd(2) [unfolded i]] sleepingD(2) [OF D] by blast
    define k3 where "k3 = k\<lparr>lists := s, uxTopReadyPriority := w\<rparr>"
    have k3: "pxDelayedTaskList k3 = ?D" "tcb k3 = tcb k" "pxCurrentTCB k3 = pxCurrentTCB k" by (simp_all add: k3_def)
    have "distinct (i # xs)" using repD(2) [OF kernel_baseD(1) [OF base] DL] Cons.prems(2) by simp
    moreover have "EventItem t \<notin> set xs"
      using sleeping_state_item [OF base D, of "EventItem t"] elems_holder [OF base DL, of "EventItem t"] Cons.prems(2) by auto
    ultimately have rest: "elems a' (pxDelayedTaskList k3) = xs"
      using st(7) DL sleepingD(2) [OF D] Cons.prems(2) i by (auto simp: k3(1) filter_id_conv)
    define sw3 where "sw3 = (if uxPriority (tcb k t) > uxPriority (tcb k (pxCurrentTCB k)) then True else sw)"
    have tok: "tasks_ok T k3" using kernel_baseD(2) [OF st(4)] by (simp add: k3_def)
    have "TCB t k3 = Some (tcb k t)" using TCB_task [OF tok] hd(3) by (simp add: k3 t_def)
    moreover have "TCB (pxCurrentTCB k3) k3 = Some (tcb k (pxCurrentTCB k))"
      using TCB_task [OF tok tasks_okD(1) [OF tok]] by (simp add: k3)
    ultimately have code: "unblock_loop now sw k = unblock_loop now sw3 k3"
      using ne hd(1) False value_itemval [OF base, of i] st(1-3)
      by (subst unblock_loop.simps) (simp add: t_def [symmetric] i k3_def [symmetric] sw3_def del: not_None_eq)
    have due: "due now ?D a u \<longleftrightarrow> u = t \<or> due now ?D a' u" for u
      using hd(2) False sleepingD(2) [OF D] by (auto simp: due_def st(5,6) i)
    obtain s' w' v a'' where r: "unblock_loop now sw3 k3
          = Some (sw3 \<or> (\<exists>t. due now ?D a' t \<and> uxPriority (tcb k (pxCurrentTCB k)) < uxPriority (tcb k t)),
              k3\<lparr>lists := s', uxTopReadyPriority := w', xNextTaskUnblockTime := v\<rparr>)"
        "kernel_base E T (k3\<lparr>lists := s', uxTopReadyPriority := w'\<rparr>) a''"
        "holder a'' = woken (due now ?D a') k3 (holder a')" "itemval a'' = itemval a'"
        "\<forall>i. holder a'' i = Some ?D \<longrightarrow> now < itemval a' i \<and> v \<le> itemval a' i"
      using Cons.IH [OF st(4) [folded k3_def] rest, of sw3] unfolding k3 by blast
    have "sw3 \<or> (\<exists>u. due now ?D a' u \<and> uxPriority (tcb k (pxCurrentTCB k)) < uxPriority (tcb k u))
        \<longleftrightarrow> sw \<or> (\<exists>u. due now ?D a u \<and> uxPriority (tcb k (pxCurrentTCB k)) < uxPriority (tcb k u))"
      using due by (auto simp: sw3_def)
    moreover have "holder a'' = woken (due now ?D a) k (holder a)"
      unfolding r(3) st(5) by (rule woken_step [OF due k3(2)])
    ultimately show ?thesis using r code st(6) unfolding k3_def
      by - (rule exI [of _ s'], rule exI [of _ w'], rule exI [of _ v], rule exI [of _ a''], simp)
  qed
qed

section \<open>The tick\<close>

lemma u32_succ_le: "(x :: u32) + 1 \<noteq> 0 \<Longrightarrow> x < y \<longleftrightarrow> x + 1 \<le> y"
  using unatSuc [of x] by (auto simp: word_less_nat_alt word_le_nat_alt add.commute)

lemma reset_unblock_time:
  assumes "kernel_base E T k a"
  shows "\<exists>v. prvResetNextTaskUnblockTime k = Some (k\<lparr>xNextTaskUnblockTime := v\<rparr>)
    \<and> (\<forall>i. holder a i = Some (pxDelayedTaskList k) \<longrightarrow> v \<le> itemval a i)"
proof (cases "elems a (pxDelayedTaskList k)")
  case Nil
  have D: "pxDelayedTaskList k \<in> kernel_lists E" by (rule sleepingD(1) [OF delayed_sleeping(1) [OF assms]])
  have "holder a i \<noteq> Some (pxDelayedTaskList k)" for i using elems_holder [OF assms D, of i] Nil by simp
  then show ?thesis using list_empty_elems [OF assms D] Nil
    by (intro exI [of _ portMAX_DELAY]) (simp add: prvResetNextTaskUnblockTime_def)
next
  case (Cons i xs)
  have D: "pxDelayedTaskList k \<in> kernel_lists E" by (rule sleepingD(1) [OF delayed_sleeping(1) [OF assms]])
  have "sorted (map (itemval a) (i # xs))"
    using base_sorted [OF assms] delayed_sleeping(1) [OF assms] Cons by (auto simp: sleeping_def)
  then have "itemval a i \<le> itemval a j" if "holder a j = Some (pxDelayedTaskList k)" for j
    using that elems_holder [OF assms D, of j] Cons by auto
  then show ?thesis using list_empty_elems [OF assms D] head_value [OF assms D Cons] Cons
    by (intro exI [of _ "itemval a i"]) (simp add: prvResetNextTaskUnblockTime_def)
qed

text \<open>The loop runs when the next unblock time is reached; either way exactly the tasks of this tick wake.\<close>

lemma tick_loop:
  assumes "kernel_base E T k a"
    and "\<forall>i. holder a i = Some (pxDelayedTaskList k) \<longrightarrow> xTickCount k \<le> itemval a i \<and> xNextTaskUnblockTime k \<le> itemval a i"
    and "\<forall>i. holder a i = Some (pxOverflowDelayedTaskList k) \<longrightarrow> itemval a i < xTickCount k"
    and W_def: "\<And>t. W t \<longleftrightarrow> holder a (StateItem t) = Some (pxDelayedTaskList k) \<and> itemval a (StateItem t) = xTickCount k"
  shows "\<exists>s w v a'. (if xTickCount k \<ge> xNextTaskUnblockTime k then unblock_loop (xTickCount k) False k else Some (False, k))
      = Some (\<exists>t. W t \<and> uxPriority (tcb k (pxCurrentTCB k)) < uxPriority (tcb k t),
              k\<lparr>lists := s, uxTopReadyPriority := w, xNextTaskUnblockTime := v\<rparr>)
    \<and> kernel_inv E T (k\<lparr>lists := s, uxTopReadyPriority := w, xNextTaskUnblockTime := v\<rparr>) a'
    \<and> holder a' = woken W k (holder a) \<and> itemval a' = itemval a"
proof (cases "xTickCount k \<ge> xNextTaskUnblockTime k")
  case True
  have W: "due (xTickCount k) (pxDelayedTaskList k) a = W"
    using assms(2) by (auto simp: due_def W_def intro!: ext)
  obtain s w v a' where r: "unblock_loop (xTickCount k) False k
      = Some (False \<or> (\<exists>t. W t \<and> uxPriority (tcb k (pxCurrentTCB k)) < uxPriority (tcb k t)),
              k\<lparr>lists := s, uxTopReadyPriority := w, xNextTaskUnblockTime := v\<rparr>)"
      "kernel_base E T (k\<lparr>lists := s, uxTopReadyPriority := w\<rparr>) a'"
      "holder a' = woken W k (holder a)" "itemval a' = itemval a"
      "\<forall>i. holder a' i = Some (pxDelayedTaskList k) \<longrightarrow> xTickCount k < itemval a i \<and> v \<le> itemval a i"
    using unblock_loop_wakes [OF assms(1) refl, of "xTickCount k" False] unfolding W by blast
  have "holder a' i = Some (pxOverflowDelayedTaskList k) \<Longrightarrow> holder a i = Some (pxOverflowDelayedTaskList k)" for i
    using sleepingD(2) [OF delayed_sleeping(2) [OF assms(1)], THEN not_sym] unfolding r(3) by (cases i) (simp_all split: if_splits)
  then have "kernel_inv E T (k\<lparr>lists := s, uxTopReadyPriority := w, xNextTaskUnblockTime := v\<rparr>) a'"
    using r(2,4,5) assms(3) by (simp add: kernel_inv_def times_ok_def)
  then show ?thesis using r(1,3,4) True by auto
next
  case False
  have n: "\<not> W t" for t using assms(2) False by (force simp: W_def)
  have w: "woken W k (holder a) = holder a" by (rule woken_none) (rule n)
  have none: "(\<exists>t. W t \<and> uxPriority (tcb k (pxCurrentTCB k)) < uxPriority (tcb k t)) = False" using n by blast
  have "xTickCount k < itemval a i \<and> xNextTaskUnblockTime k \<le> itemval a i" if "holder a i = Some (pxDelayedTaskList k)" for i
    using assms(2) False that by force
  then have "kernel_inv E T k a" using assms(1,3) by (simp add: kernel_inv_def times_ok_def)
  moreover have "k\<lparr>lists := lists k, uxTopReadyPriority := uxTopReadyPriority k, xNextTaskUnblockTime := xNextTaskUnblockTime k\<rparr> = k"
    by simp
  ultimately show ?thesis using False unfolding w none
    by - (rule exI [of _ "lists k"], rule exI [of _ "uxTopReadyPriority k"], rule exI [of _ "xNextTaskUnblockTime k"], rule exI [of _ a], simp)
qed

text \<open>What neither ticks nor sleeping nor switching touch.\<close>

definition still :: "kernel \<Rightarrow> bool \<times> u32 \<times> bool \<times> u32 \<times> u32 \<times> task list" where
  "still k = (swi k, uxCurrentNumberOfTasks k, xSchedulerRunning k, uxDeletedTasksWaitingCleanUp k, uxTaskNumber k, freed k)"

lemma still_simps [simp]:
  "still (k\<lparr>lists := x1\<rparr>) = still k"
  "still (k\<lparr>uxTopReadyPriority := x2\<rparr>) = still k"
  "still (k\<lparr>xNextTaskUnblockTime := x2\<rparr>) = still k"
  "still (k\<lparr>xTickCount := x2\<rparr>) = still k"
  "still (k\<lparr>xNumOfOverflows := x2\<rparr>) = still k"
  "still (k\<lparr>xPendedTicks := x2\<rparr>) = still k"
  "still (k\<lparr>uxSchedulerSuspended := x2\<rparr>) = still k"
  "still (k\<lparr>xYieldPending := x3\<rparr>) = still k"
  "still (k\<lparr>pxDelayedTaskList := x4\<rparr>) = still k"
  "still (k\<lparr>pxOverflowDelayedTaskList := x4\<rparr>) = still k"
  "still (k\<lparr>pxCurrentTCB := x2\<rparr>) = still k"
  "still (k\<lparr>tcb := x5\<rparr>) = still k"
  by (simp_all add: still_def)

text \<open>The list the tick looks at, the tasks it wakes.\<close>

definition tick_list :: "kernel \<Rightarrow> list_id" where
  "tick_list k = (if xTickCount k + 1 = 0 then pxOverflowDelayedTaskList k else pxDelayedTaskList k)"

definition wakes_now :: "kernel \<Rightarrow> (item_id, list_id) alists \<Rightarrow> task \<Rightarrow> bool" where
  "wakes_now k a t \<longleftrightarrow> holder a (StateItem t) = Some (tick_list k) \<and> itemval a (StateItem t) = xTickCount k + 1"

lemma switch_lists:
  assumes "kernel_inv E T k a" and "xTickCount k + 1 = 0"
  shows "\<exists>v. taskSWITCH_DELAYED_LISTS (k\<lparr>xTickCount := 0\<rparr>) = Some (k\<lparr>xTickCount := 0, pxDelayedTaskList := pxOverflowDelayedTaskList k,
        pxOverflowDelayedTaskList := pxDelayedTaskList k, xNumOfOverflows := xNumOfOverflows k + 1, xNextTaskUnblockTime := v\<rparr>)
    \<and> kernel_base E T (k\<lparr>xTickCount := 0, pxDelayedTaskList := pxOverflowDelayedTaskList k,
        pxOverflowDelayedTaskList := pxDelayedTaskList k, xNumOfOverflows := xNumOfOverflows k + 1, xNextTaskUnblockTime := v\<rparr>) a
    \<and> (\<forall>i. holder a i = Some (pxOverflowDelayedTaskList k) \<longrightarrow> v \<le> itemval a i)
    \<and> (\<forall>i. holder a i \<noteq> Some (pxDelayedTaskList k))"
proof -
  have base: "kernel_base E T k a" and times: "times_ok k a" using assms(1) by (simp_all add: kernel_inv_def)
  have D: "pxDelayedTaskList k \<in> kernel_lists E" by (rule sleepingD(1) [OF delayed_sleeping(1) [OF base]])
  have "xTickCount k = xTickCount k + 1 - 1" by simp
  then have "xTickCount k = portMAX_DELAY" unfolding assms(2) by (simp add: portMAX_DELAY_def)
  then have n: "holder a i \<noteq> Some (pxDelayedTaskList k)" for i
    using times le_portMAX_DELAY [of "itemval a i"] unfolding times_ok_def by (auto simp only: not_less)
  have e: "list_empty (pxDelayedTaskList k) (k\<lparr>xTickCount := 0\<rparr>)"
    using list_empty_elems [OF base D] elems_empty_holder [OF kernel_baseD(1) [OF base] D] n by (simp add: list_empty_def)
  define k1 where "k1 = k\<lparr>xTickCount := 0, pxDelayedTaskList := pxOverflowDelayedTaskList k,
        pxOverflowDelayedTaskList := pxDelayedTaskList k, xNumOfOverflows := xNumOfOverflows k + 1\<rparr>"
  have hm: "home k1 i l = home k i l" for i l by (cases i; cases l; simp add: k1_def)
  have b1: "kernel_base E T k1 a" using base
    by (auto simp: kernel_base_def k1_def tasks_ok_def bits_ok_def delayed_ok_def homes_ok_def hm [unfolded k1_def])
  obtain v where "prvResetNextTaskUnblockTime k1 = Some (k1\<lparr>xNextTaskUnblockTime := v\<rparr>)"
      "\<forall>i. holder a i = Some (pxDelayedTaskList k1) \<longrightarrow> v \<le> itemval a i"
    using reset_unblock_time [OF b1] by blast
  then show ?thesis using e n b1 base_frame(2) [where k = k1 and x = v and a = a and E = E and T = T] unfolding taskSWITCH_DELAYED_LISTS_def
    by (intro exI [of _ v]) (simp add: k1_def)
qed

lemma tick_step:
  assumes "kernel_inv E T k a" and "uxSchedulerSuspended k = 0"
  shows "\<exists>k' a'. xTaskIncrementTick k
      = Some (xYieldPending k \<or> (\<exists>t. wakes_now k a t \<and> uxPriority (tcb k (pxCurrentTCB k)) < uxPriority (tcb k t)), k')
    \<and> kernel_inv E T k' a' \<and> xTickCount k' = xTickCount k + 1
    \<and> holder a' = woken (wakes_now k a) k (holder a) \<and> itemval a' = itemval a
    \<and> pxDelayedTaskList k' = tick_list k \<and> {pxDelayedTaskList k', pxOverflowDelayedTaskList k'} = sleeping
    \<and> tcb k' = tcb k \<and> pxCurrentTCB k' = pxCurrentTCB k
    \<and> xNumOfOverflows k' = xNumOfOverflows k + (if xTickCount k + 1 = 0 then 1 else 0)
    \<and> uxSchedulerSuspended k' = 0 \<and> xYieldPending k' = xYieldPending k \<and> xPendedTicks k' = xPendedTicks k
    \<and> still k' = still k"
proof -
  have base: "kernel_base E T k a" and times: "times_ok k a" using assms(1) by (simp_all add: kernel_inv_def)
  define k0 where "k0 = k\<lparr>xTickCount := xTickCount k + 1\<rparr>"
  have "\<exists>k1. (if xTickCount k + 1 = 0 then taskSWITCH_DELAYED_LISTS k0 else Some k0) = Some k1
    \<and> kernel_base E T k1 a \<and> xTickCount k1 = xTickCount k + 1 \<and> pxDelayedTaskList k1 = tick_list k
    \<and> (\<forall>i. holder a i = Some (pxDelayedTaskList k1) \<longrightarrow> xTickCount k1 \<le> itemval a i \<and> xNextTaskUnblockTime k1 \<le> itemval a i)
    \<and> (\<forall>i. holder a i = Some (pxOverflowDelayedTaskList k1) \<longrightarrow> itemval a i < xTickCount k1)
    \<and> tcb k1 = tcb k \<and> pxCurrentTCB k1 = pxCurrentTCB k \<and> uxSchedulerSuspended k1 = 0 \<and> xYieldPending k1 = xYieldPending k
    \<and> xPendedTicks k1 = xPendedTicks k \<and> still k1 = still k
    \<and> xNumOfOverflows k1 = xNumOfOverflows k + (if xTickCount k + 1 = 0 then 1 else 0)"
  proof (cases "xTickCount k + 1 = 0")
    case True
    then have k0: "k0 = k\<lparr>xTickCount := 0\<rparr>" by (simp add: k0_def)
    obtain v where "taskSWITCH_DELAYED_LISTS k0 = Some (k\<lparr>xTickCount := 0, pxDelayedTaskList := pxOverflowDelayedTaskList k,
        pxOverflowDelayedTaskList := pxDelayedTaskList k, xNumOfOverflows := xNumOfOverflows k + 1, xNextTaskUnblockTime := v\<rparr>)"
      "kernel_base E T (k\<lparr>xTickCount := 0, pxDelayedTaskList := pxOverflowDelayedTaskList k,
        pxOverflowDelayedTaskList := pxDelayedTaskList k, xNumOfOverflows := xNumOfOverflows k + 1, xNextTaskUnblockTime := v\<rparr>) a"
      "\<forall>i. holder a i = Some (pxOverflowDelayedTaskList k) \<longrightarrow> v \<le> itemval a i" "\<forall>i. holder a i \<noteq> Some (pxDelayedTaskList k)"
      using switch_lists [OF assms(1) True] unfolding k0 by blast
    then show ?thesis using True assms(2) by (simp add: tick_list_def)
  next
    case False
    have "xTickCount k < xTickCount k + 1" using u32_succ_le [OF False] by simp
    then have "itemval a i < xTickCount k + 1" if "holder a i = Some (pxOverflowDelayedTaskList k)" for i
      using times that less_trans unfolding times_ok_def by blast
    moreover have "xTickCount k + 1 \<le> itemval a i \<and> xNextTaskUnblockTime k \<le> itemval a i" if "holder a i = Some (pxDelayedTaskList k)" for i
      using times that u32_succ_le [OF False] unfolding times_ok_def by blast
    ultimately show ?thesis using False base assms(2) by (simp add: k0_def tick_list_def)
  qed
  then obtain k1 where k1: "(if xTickCount k + 1 = 0 then taskSWITCH_DELAYED_LISTS k0 else Some k0) = Some k1"
      "kernel_base E T k1 a" "xTickCount k1 = xTickCount k + 1" "pxDelayedTaskList k1 = tick_list k"
      "\<forall>i. holder a i = Some (pxDelayedTaskList k1) \<longrightarrow> xTickCount k1 \<le> itemval a i \<and> xNextTaskUnblockTime k1 \<le> itemval a i"
      "\<forall>i. holder a i = Some (pxOverflowDelayedTaskList k1) \<longrightarrow> itemval a i < xTickCount k1"
      and f1: "tcb k1 = tcb k" "pxCurrentTCB k1 = pxCurrentTCB k" "uxSchedulerSuspended k1 = 0" "xYieldPending k1 = xYieldPending k"
      "xPendedTicks k1 = xPendedTicks k" "still k1 = still k"
      "xNumOfOverflows k1 = xNumOfOverflows k + (if xTickCount k + 1 = 0 then 1 else 0)"
    by blast
  have W: "wakes_now k a t \<longleftrightarrow> holder a (StateItem t) = Some (pxDelayedTaskList k1) \<and> itemval a (StateItem t) = xTickCount k1" for t
    using k1(3,4) by (simp add: wakes_now_def)
  obtain s w v a' where r: "(if xTickCount k1 \<ge> xNextTaskUnblockTime k1 then unblock_loop (xTickCount k1) False k1 else Some (False, k1))
      = Some (\<exists>t. wakes_now k a t \<and> uxPriority (tcb k1 (pxCurrentTCB k1)) < uxPriority (tcb k1 t),
              k1\<lparr>lists := s, uxTopReadyPriority := w, xNextTaskUnblockTime := v\<rparr>)"
    "kernel_inv E T (k1\<lparr>lists := s, uxTopReadyPriority := w, xNextTaskUnblockTime := v\<rparr>) a'"
    "holder a' = woken (wakes_now k a) k1 (holder a)" "itemval a' = itemval a"
    using tick_loop [OF k1(2,5,6) W] by blast
  define k' where "k' = k1\<lparr>lists := s, uxTopReadyPriority := w, xNextTaskUnblockTime := v\<rparr>"
  have "woken (wakes_now k a) k1 (holder a) = woken (wakes_now k a) k (holder a)"
  proof
    fix i show "woken (wakes_now k a) k1 (holder a) i = woken (wakes_now k a) k (holder a) i" using f1(1) by (cases i) auto
  qed
  moreover have "xTaskIncrementTick k
      = Some (xYieldPending k \<or> (\<exists>t. wakes_now k a t \<and> uxPriority (tcb k (pxCurrentTCB k)) < uxPriority (tcb k t)), k')"
    unfolding xTaskIncrementTick_def Let_def k0_def [symmetric]
    by (simp only: k1(1) r(1) [unfolded k1(3)] assms(2) Option.bind.bind_lunit prod.case if_True simp_thms) (simp add: f1 k'_def)
  moreover have "{pxDelayedTaskList k', pxOverflowDelayedTaskList k'} = sleeping"
    using delayed_sleeping(4) [OF k1(2)] by (simp add: k'_def)
  ultimately show ?thesis using r(2-4) k1(3,4) f1
    by (intro exI [of _ k'] exI [of _ a']) (simp add: k'_def)
qed

section \<open>Any number of ticks\<close>

definition asleep :: "(item_id, list_id) alists \<Rightarrow> task \<Rightarrow> bool" where
  "asleep a t \<longleftrightarrow> (\<exists>l \<in> sleeping. holder a (StateItem t) = Some l)"

definition remaining :: "kernel \<Rightarrow> (item_id, list_id) alists \<Rightarrow> task \<Rightarrow> nat" where
  "remaining k a t = unat (itemval a (StateItem t) - xTickCount k)"

lemma asleep_delayed:
  assumes "kernel_base E T k a"
  shows "asleep a t \<longleftrightarrow> holder a (StateItem t) = Some (pxDelayedTaskList k) \<or> holder a (StateItem t) = Some (pxOverflowDelayedTaskList k)"
  unfolding asleep_def delayed_sleeping(4) [OF assms] by blast

lemma remaining_pos:
  assumes "kernel_inv E T k a" and "asleep a t"
  shows "0 < remaining k a t"
proof -
  have "kernel_base E T k a" and times: "times_ok k a" using assms(1) by (simp_all add: kernel_inv_def)
  then have "itemval a (StateItem t) \<noteq> xTickCount k"
    using assms(2) unfolding asleep_delayed [OF \<open>kernel_base E T k a\<close>] times_ok_def by (metis less_irrefl)
  then show ?thesis by (simp add: remaining_def unat_gt_0)
qed

lemma wakes_now_remaining:
  assumes "kernel_inv E T k a"
  shows "wakes_now k a t \<longleftrightarrow> asleep a t \<and> remaining k a t = 1"
proof -
  have base: "kernel_base E T k a" and times: "times_ok k a" using assms by (simp_all add: kernel_inv_def)
  have "remaining k a t = 1 \<longleftrightarrow> itemval a (StateItem t) - xTickCount k = 1"
    by (simp add: remaining_def word_unat_eq_iff)
  also have "\<dots> \<longleftrightarrow> itemval a (StateItem t) = xTickCount k + 1" by (auto simp: algebra_simps)
  finally have r: "remaining k a t = 1 \<longleftrightarrow> itemval a (StateItem t) = xTickCount k + 1" .
  show ?thesis
  proof (cases "xTickCount k + 1 = 0")
    case True
    then have "\<not> xTickCount k < v" for v using u32_succ_le [of "xTickCount k"] by (metis add_diff_cancel_right' diff_0 word_not_simps(3))
    then have "holder a (StateItem t) \<noteq> Some (pxDelayedTaskList k)" using times by (auto simp: times_ok_def)
    then show ?thesis unfolding wakes_now_def r tick_list_def asleep_delayed [OF base] using True by simp
  next
    case False
    then have "\<not> xTickCount k + 1 < xTickCount k" using u32_succ_le [OF False] by (metis less_imp_not_less order.refl)
    then have "holder a (StateItem t) \<noteq> Some (pxOverflowDelayedTaskList k)" if "itemval a (StateItem t) = xTickCount k + 1"
      using times that unfolding times_ok_def by metis
    then show ?thesis unfolding wakes_now_def r tick_list_def asleep_delayed [OF base] using False by auto
  qed
qed

lemma remaining_tick: "0 < unat (v - x :: u32) \<Longrightarrow> unat (v - (x + 1)) = unat (v - x) - 1"
proof -
  assume "0 < unat (v - x)"
  then have "1 \<le> v - x" by (simp add: word_le_nat_alt)
  then have "unat (v - x - 1) = unat (v - x) - unat (1 :: u32)" by (rule unat_sub_u32)
  then show ?thesis by (simp add: algebra_simps)
qed

lemma woken_woken:
  assumes "tcb k' = tcb k"
  shows "woken D' k' (woken D k f) = woken (\<lambda>t. D t \<or> D' t) k f"
proof
  fix i
  show "woken D' k' (woken D k f) i = woken (\<lambda>t. D t \<or> D' t) k f i" using assms by (cases i) auto
qed

lemma asleep_woken: "holder a' = woken D k (holder a) \<Longrightarrow> asleep a' t \<longleftrightarrow> asleep a t \<and> \<not> D t"
  by (auto simp: asleep_def sleeping_def)

text \<open>After \<open>n\<close> ticks exactly those tasks are awake that had at most \<open>n\<close> ticks left.\<close>

lemma ticks_wake:
  assumes "kernel_inv E T k a" and "uxSchedulerSuspended k = 0"
  shows "\<exists>k' a'. pended_ticks n k = Some k' \<and> kernel_inv E T k' a' \<and> xTickCount k' = xTickCount k + of_nat n
    \<and> holder a' = woken (\<lambda>t. asleep a t \<and> remaining k a t \<le> n) k (holder a) \<and> itemval a' = itemval a
    \<and> (\<forall>t. asleep a' t \<longrightarrow> remaining k' a' t = remaining k a t - n)
    \<and> tcb k' = tcb k \<and> pxCurrentTCB k' = pxCurrentTCB k \<and> uxSchedulerSuspended k' = 0
    \<and> xPendedTicks k' = xPendedTicks k \<and> still k' = still k \<and> (xYieldPending k \<longrightarrow> xYieldPending k')
    \<and> (xYieldPending k' \<longleftrightarrow> xYieldPending k \<or> (\<exists>t. asleep a t \<and> remaining k a t \<le> n
          \<and> uxPriority (tcb k (pxCurrentTCB k)) < uxPriority (tcb k t)))"
  using assms
proof (induction n arbitrary: k a)
  case 0
  have "\<not> (asleep a t \<and> remaining k a t \<le> 0)" for t using remaining_pos [OF 0(1), of t] by auto
  then have w: "woken (\<lambda>t. asleep a t \<and> remaining k a t \<le> 0) k (holder a) = holder a"
      and y: "(\<exists>t. asleep a t \<and> remaining k a t \<le> 0 \<and> uxPriority (tcb k (pxCurrentTCB k)) < uxPriority (tcb k t)) = False"
    by (rule woken_none, blast)
  show ?case unfolding w y using 0 by (intro exI [of _ k] exI [of _ a]) simp
next
  case (Suc n)
  define W where "W = wakes_now k a"
  define b where "b \<longleftrightarrow> xYieldPending k \<or> (\<exists>t. W t \<and> uxPriority (tcb k (pxCurrentTCB k)) < uxPriority (tcb k t))"
  obtain k1 a1 where t: "xTaskIncrementTick k = Some (b, k1)" "kernel_inv E T k1 a1" "xTickCount k1 = xTickCount k + 1"
      "holder a1 = woken W k (holder a)" "itemval a1 = itemval a" "tcb k1 = tcb k" "pxCurrentTCB k1 = pxCurrentTCB k"
      "uxSchedulerSuspended k1 = 0" "xPendedTicks k1 = xPendedTicks k" "still k1 = still k" "xYieldPending k1 = xYieldPending k"
    using tick_step [OF Suc.prems] unfolding W_def [symmetric] b_def [symmetric] by blast
  define k2 where "k2 = (if b then k1\<lparr>xYieldPending := True\<rparr> else k1)"
  have inv2: "kernel_inv E T k2 a1" and f2: "xTickCount k2 = xTickCount k + 1" "tcb k2 = tcb k" "pxCurrentTCB k2 = pxCurrentTCB k"
      "uxSchedulerSuspended k2 = 0" "xPendedTicks k2 = xPendedTicks k" "still k2 = still k" "xYieldPending k2 \<longleftrightarrow> b"
    using t by (auto simp: k2_def kernel_inv_def times_ok_def b_def)
  have W: "W u \<longleftrightarrow> asleep a u \<and> remaining k a u = 1" for u unfolding W_def by (rule wakes_now_remaining [OF Suc.prems(1)])
  have rem: "remaining k2 a1 u = remaining k a u - 1" if "asleep a u" for u
    using remaining_tick remaining_pos [OF Suc.prems(1) that] by (simp add: remaining_def f2 t(5))
  have sl: "asleep a1 u \<longleftrightarrow> asleep a u \<and> \<not> W u" for u by (rule asleep_woken [OF t(4)])
  have D: "W u \<or> (asleep a1 u \<and> remaining k2 a1 u \<le> n) \<longleftrightarrow> asleep a u \<and> remaining k a u \<le> Suc n" for u
    using rem [of u] sl [of u] W [of u] remaining_pos [OF Suc.prems(1), of u] by auto
  obtain k' a' where r: "pended_ticks n k2 = Some k'" "kernel_inv E T k' a'" "xTickCount k' = xTickCount k2 + of_nat n"
      "holder a' = woken (\<lambda>t. asleep a1 t \<and> remaining k2 a1 t \<le> n) k2 (holder a1)" "itemval a' = itemval a1"
      "\<forall>t. asleep a' t \<longrightarrow> remaining k' a' t = remaining k2 a1 t - n"
      "tcb k' = tcb k2" "pxCurrentTCB k' = pxCurrentTCB k2" "uxSchedulerSuspended k' = 0"
      "xPendedTicks k' = xPendedTicks k2" "still k' = still k2"
      "xYieldPending k' \<longleftrightarrow> xYieldPending k2 \<or> (\<exists>t. asleep a1 t \<and> remaining k2 a1 t \<le> n
          \<and> uxPriority (tcb k2 (pxCurrentTCB k2)) < uxPriority (tcb k2 t))"
    using Suc.IH [OF inv2 f2(4)] by blast
  have h: "holder a' = woken (\<lambda>u. asleep a u \<and> remaining k a u \<le> Suc n) k (holder a)"
    unfolding r(4) t(4) woken_woken [OF f2(2)] D ..
  have "xYieldPending k' \<longleftrightarrow> xYieldPending k \<or> (\<exists>u. (W u \<or> (asleep a1 u \<and> remaining k2 a1 u \<le> n))
          \<and> uxPriority (tcb k (pxCurrentTCB k)) < uxPriority (tcb k u))"
    unfolding r(12) f2 b_def by blast
  then have y: "xYieldPending k' \<longleftrightarrow> xYieldPending k \<or> (\<exists>u. asleep a u \<and> remaining k a u \<le> Suc n
          \<and> uxPriority (tcb k (pxCurrentTCB k)) < uxPriority (tcb k u))"
    unfolding D by blast
  have rem': "remaining k' a' u = remaining k a u - Suc n" if "asleep a' u" for u
  proof -
    have "asleep a1 u" using that asleep_woken [OF r(4)] by blast
    then have "remaining k2 a1 u = remaining k a u - 1" using sl rem by blast
    then show ?thesis using r(6) that by simp
  qed
  have "pended_ticks (Suc n) k = Some k'" using t(1) r(1) by (simp add: k2_def)
  then show ?case using r(2,3,5,7-11) h y rem' f2 t(5)
    by (intro exI [of _ k'] exI [of _ a']) (simp add: algebra_simps)
qed

section \<open>Putting items on lists that are not ready lists\<close>

lemma base_lists:
  assumes "kernel_base E T k a" and "rep (kernel_lists E) s a'" and "\<forall>j. pvOwner (item s j) = pvOwner (item (lists k) j)"
    and "holder a' = (holder a)(i := Some l)" and "holder a i = None" and "\<forall>p. l \<noteq> Ready p"
    and "l \<in> kernel_lists E" and "task_of i \<in> T" and "home k i l"
    and "sorted (map (itemval a') (elems a' DelayedTaskList1))" and "sorted (map (itemval a') (elems a' DelayedTaskList2))"
  shows "kernel_base E T (k\<lparr>lists := s\<rparr>) a'"
proof -
  have "kernel_base E T (k\<lparr>lists := s, uxTopReadyPriority := uxTopReadyPriority k\<rparr>) a'"
  proof (rule base_update [OF assms(1-3) _ _ _ assms(10,11)])
    show "\<forall>j m. holder a' j = Some m \<longrightarrow> holder a j = Some m \<or> m \<in> kernel_lists E \<and> task_of j \<in> T \<and> home k j m"
      using assms(4,7-9) by auto
    have "(\<exists>j. holder a' j = Some (Ready p)) \<longleftrightarrow> (\<exists>j. holder a j = Some (Ready p))" for p
      using assms(5,6) unfolding assms(4) by (metis fun_upd_apply option.distinct(1) option.inject)
    then show "\<forall>p<configMAX_PRIORITIES. bit (uxTopReadyPriority k) (unat p) \<longleftrightarrow> (\<exists>j. holder a' j = Some (Ready p))"
      using base_bits(1) [OF assms(1)] by simp
    show "uxTopReadyPriority k < 64" by (rule base_bits(2) [OF assms(1)])
  qed
  then show ?thesis by simp
qed

lemma insert_end_base:
  assumes "kernel_base E T k a" and "holder a i = None" and "\<forall>p. l \<noteq> Ready p" and "l \<notin> sleeping"
    and "l \<in> kernel_lists E" and "task_of i \<in> T" and "home k i l"
  shows "\<exists>s. on_lists (listINSERT_END l i) k = Some (k\<lparr>lists := s\<rparr>) \<and> on_lists (vListInsertEnd l i) k = Some (k\<lparr>lists := s\<rparr>)
    \<and> kernel_base E T (k\<lparr>lists := s\<rparr>) (a_insert_end l i a)"
proof -
  obtain s where s: "on_lists (listINSERT_END l i) k = Some (k\<lparr>lists := s\<rparr>)" "on_lists (vListInsertEnd l i) k = Some (k\<lparr>lists := s\<rparr>)"
      "rep (kernel_lists E) s (a_insert_end l i a)" "\<forall>j. pvOwner (item s j) = pvOwner (item (lists k) j)"
    using on_lists_insert_end [OF kernel_baseD(1) [OF assms(1)] assms(5,2) base_length [OF assms(1,5)]] by blast
  have "elems (a_insert_end l i a) m = elems a m" if "m \<in> sleeping" for m
    using assms(4) that by (metis elems_insert_other(1))
  then have "elems (a_insert_end l i a) DelayedTaskList1 = elems a DelayedTaskList1"
    "elems (a_insert_end l i a) DelayedTaskList2 = elems a DelayedTaskList2" by (simp_all add: sleeping_def)
  then have "kernel_base E T (k\<lparr>lists := s\<rparr>) (a_insert_end l i a)"
    using base_lists [OF assms(1) s(3,4) _ assms(2,3,5-7)] base_sorted [OF assms(1)] by simp
  then show ?thesis using s(1,2) by blast
qed

lemma insert_base:
  assumes "kernel_base E T k a" and "holder a i = None" and "\<forall>p. l \<noteq> Ready p"
    and "l \<in> kernel_lists E" and "task_of i \<in> T" and "home k i l"
  shows "\<exists>s. on_lists (vListInsert l i) k = Some (k\<lparr>lists := s\<rparr>) \<and> kernel_base E T (k\<lparr>lists := s\<rparr>) (a_insert l i a)"
proof -
  obtain s where s: "on_lists (vListInsert l i) k = Some (k\<lparr>lists := s\<rparr>)"
      "rep (kernel_lists E) s (a_insert l i a)" "\<forall>j. pvOwner (item s j) = pvOwner (item (lists k) j)"
    using on_lists_insert [OF kernel_baseD(1) [OF assms(1)] assms(4,2) base_length [OF assms(1,4)]] by blast
  have "sorted (map (itemval a) (elems (a_insert l i a) m))" if "sorted (map (itemval a) (elems a m))" for m
    using that by (cases "m = l") (simp_all add: a_insert_elems(1) elems_insert_other)
  then have "kernel_base E T (k\<lparr>lists := s\<rparr>) (a_insert l i a)"
    using base_lists [OF assms(1) s(2,3) _ assms(2-6)] base_sorted [OF assms(1)] by simp
  then show ?thesis using s(1) by blast
qed

text \<open>Giving a value to an item that is on no sorted list.\<close>

lemma set_value_base:
  assumes "kernel_base E T k a" and "holder a i \<notin> Some ` sleeping"
  shows "kernel_base E T (set_value i v k) (a_set_value i v a)"
proof -
  define s where "s = listSET_LIST_ITEM_VALUE i v (lists k)"
  have s: "rep (kernel_lists E) s (a_set_value i v a)" "\<forall>j. pvOwner (item s j) = pvOwner (item (lists k) j)"
    using listSET_LIST_ITEM_VALUE_sim [OF kernel_baseD(1) [OF assms(1)]]
    by (simp_all add: s_def listSET_LIST_ITEM_VALUE_def store_simps)
  have sm: "map ((itemval a)(i := v)) (elems a m) = map (itemval a) (elems a m)" if "m \<in> sleeping" for m
    using that assms(2) elems_holder [OF assms(1) sleepingD(1) [OF that], of i] by auto
  have sm12: "map ((itemval a)(i := v)) (elems a DelayedTaskList1) = map (itemval a) (elems a DelayedTaskList1)"
    "map ((itemval a)(i := v)) (elems a DelayedTaskList2) = map (itemval a) (elems a DelayedTaskList2)"
    by (rule sm, simp add: sleeping_def)+
  have "kernel_base E T (k\<lparr>lists := s, uxTopReadyPriority := uxTopReadyPriority k\<rparr>) (a_set_value i v a)"
  proof (rule base_update [OF assms(1) s])
    show "sorted (map (itemval (a_set_value i v a)) (elems (a_set_value i v a) DelayedTaskList1))"
      "sorted (map (itemval (a_set_value i v a)) (elems (a_set_value i v a) DelayedTaskList2))"
      unfolding holder_simps sm12 by (rule base_sorted [OF assms(1)])+
  qed (use base_bits [OF assms(1)] in simp_all)
  then show ?thesis by (simp add: set_value_def s_def)
qed

section \<open>Going to sleep\<close>

lemma u32_wrapped: "0 < (d :: u32) \<Longrightarrow> x + d < x \<or> x < x + d"
  by (metis add_cancel_left_right less_irrefl linorder_neqE)

lemma sleep_step:
  assumes "kernel_inv E T k a" and "holder a (StateItem t) = Some (Ready (uxPriority (tcb k t)))" and "t = pxCurrentTCB k"
    and "0 < d"
  shows "\<exists>s w v a'. prvAddCurrentTaskToDelayedList d indef k = Some (k\<lparr>lists := s, uxTopReadyPriority := w, xNextTaskUnblockTime := v\<rparr>)
    \<and> kernel_inv E T (k\<lparr>lists := s, uxTopReadyPriority := w, xNextTaskUnblockTime := v\<rparr>) a'
    \<and> (if d = portMAX_DELAY \<and> indef
       then holder a' = (holder a)(StateItem t := Some SuspendedTaskList) \<and> itemval a' = itemval a
       else holder a' = (holder a)(StateItem t := Some (if xTickCount k + d < xTickCount k then pxOverflowDelayedTaskList k else pxDelayedTaskList k))
          \<and> itemval a' = (itemval a)(StateItem t := xTickCount k + d))
    \<and> (\<forall>e. elems a' (EventList e) = elems a (EventList e))"
proof -
  have base: "kernel_base E T k a" and times: "times_ok k a" using assms(1) by (simp_all add: kernel_inv_def)
  have t: "t \<in> T" using base_home(2) [OF base assms(2)] by simp
  define a1 where "a1 = a_remove (StateItem t) a"
  obtain n s1 w where r: "list_remove (StateItem t) k = Some (n, k\<lparr>lists := s1\<rparr>)"
      "(if n = 0 then reset_ready (uxPriority (tcb k t)) (k\<lparr>lists := s1\<rparr>) else k\<lparr>lists := s1\<rparr>) = k\<lparr>lists := s1, uxTopReadyPriority := w\<rparr>"
      "kernel_base E T (k\<lparr>lists := s1, uxTopReadyPriority := w\<rparr>) a1"
    using remove_ready_base [OF base assms(2)] unfolding a1_def by blast
  define k1 where "k1 = k\<lparr>lists := s1, uxTopReadyPriority := w\<rparr>"
  note b1 = r(3) [folded k1_def]
  have h1: "holder a1 = (holder a)(StateItem t := None)" "itemval a1 = itemval a" by (simp_all add: a1_def)
  have e1: "elems a1 (EventList e) = elems a (EventList e)" for e using assms(2) by (simp add: a1_def elems_remove)
  have tcb: "TCB t k = Some (tcb k t)" by (rule TCB_task [OF kernel_baseD(2) [OF base] t])
  have start: "prvAddCurrentTaskToDelayedList d indef k = (if d = portMAX_DELAY \<and> indef
      then on_lists (listINSERT_END SuspendedTaskList (StateItem t)) k1
      else do {
        let k = set_value (StateItem t) (xTickCount k + d) k1;
        (if xTickCount k1 + d < xTickCount k1
         then on_lists (vListInsert (pxOverflowDelayedTaskList k) (StateItem t)) k
         else do {
           k \<leftarrow> on_lists (vListInsert (pxDelayedTaskList k) (StateItem t)) k;
           Some (if xTickCount k1 + d < xNextTaskUnblockTime k then k\<lparr>xNextTaskUnblockTime := xTickCount k1 + d\<rparr> else k)
         })
      })"
    unfolding prvAddCurrentTaskToDelayedList_def Let_def assms(3) [symmetric] tcb
    using r(1,2) by (simp add: k1_def set_value_def cong: if_cong)
  have notready: "SuspendedTaskList \<notin> sleeping" by (simp add: sleeping_def)
  have tm: "times_ok (k\<lparr>lists := s, uxTopReadyPriority := w\<rparr>) a'" if "holder a' = (holder a)(StateItem t := Some SuspendedTaskList)" "itemval a' = itemval a" for s a'
    using times that delayed_sleeping(1,2) [OF base] notready unfolding times_ok_def by (auto split: if_splits)
  have k1s: "k1\<lparr>lists := s\<rparr> = k\<lparr>lists := s, uxTopReadyPriority := w\<rparr>" for s by (simp add: k1_def)
  show ?thesis
  proof (cases "d = portMAX_DELAY \<and> indef")
    case True
    obtain s where s: "on_lists (listINSERT_END SuspendedTaskList (StateItem t)) k1 = Some (k1\<lparr>lists := s\<rparr>)"
        "kernel_base E T (k1\<lparr>lists := s\<rparr>) (a_insert_end SuspendedTaskList (StateItem t) a1)"
      using insert_end_base [OF b1, of "StateItem t" SuspendedTaskList] h1 t notready by auto
    have "kernel_inv E T (k\<lparr>lists := s, uxTopReadyPriority := w, xNextTaskUnblockTime := xNextTaskUnblockTime k\<rparr>) (a_insert_end SuspendedTaskList (StateItem t) a1)"
      using s(2) tm [of "a_insert_end SuspendedTaskList (StateItem t) a1" s] h1 by (simp add: kernel_inv_def k1s)
    then show ?thesis using True s(1) h1 e1 start
      by (intro exI [of _ s] exI [of _ w] exI [of _ "xNextTaskUnblockTime k"] exI) (auto simp: k1s elems_insert_other)
  next
    case False
    define v where "v = xTickCount k + d"
    define k2 where "k2 = set_value (StateItem t) v k1"
    define a2 where "a2 = a_set_value (StateItem t) v a1"
    have b2: "kernel_base E T k2 a2" unfolding k2_def a2_def by (rule set_value_base [OF b1]) (simp add: h1)
    have h2: "holder a2 = (holder a)(StateItem t := None)" "itemval a2 = (itemval a)(StateItem t := v)" by (simp_all add: a2_def h1)
    have f2: "k2\<lparr>lists := s\<rparr> = k\<lparr>lists := s, uxTopReadyPriority := w\<rparr>" "pxDelayedTaskList k2 = pxDelayedTaskList k" "tcb k2 = tcb k"
      "pxOverflowDelayedTaskList k2 = pxOverflowDelayedTaskList k" "xTickCount k1 = xTickCount k" "xNextTaskUnblockTime k2 = xNextTaskUnblockTime k" for s
      by (simp_all add: k2_def set_value_def k1_def)
    have ins: "\<exists>s. on_lists (vListInsert l (StateItem t)) k2 = Some (k\<lparr>lists := s, uxTopReadyPriority := w\<rparr>)
        \<and> kernel_base E T (k\<lparr>lists := s, uxTopReadyPriority := w\<rparr>) (a_insert l (StateItem t) a2)" if "l \<in> sleeping" for l
    proof -
      have "home k2 (StateItem t) l" using that by (auto simp: sleeping_def)
      then show ?thesis using insert_base [OF b2, of "StateItem t" l] h2 t sleepingD(1,2) [OF that] f2(1) by simp
    qed
    have ne: "pxDelayedTaskList k \<noteq> pxOverflowDelayedTaskList k" by (rule delayed_sleeping(3) [OF base])
    show ?thesis
    proof (cases "v < xTickCount k")
      case True
      define a3 where "a3 = a_insert (pxOverflowDelayedTaskList k) (StateItem t) a2"
      obtain s where s: "on_lists (vListInsert (pxOverflowDelayedTaskList k) (StateItem t)) k2 = Some (k\<lparr>lists := s, uxTopReadyPriority := w\<rparr>)"
          "kernel_base E T (k\<lparr>lists := s, uxTopReadyPriority := w\<rparr>) a3"
        using ins [OF delayed_sleeping(2) [OF base]] unfolding a3_def by blast
      have h3: "holder a3 = (holder a)(StateItem t := Some (pxOverflowDelayedTaskList k))" "itemval a3 = (itemval a)(StateItem t := v)"
        by (simp_all add: a3_def h2)
      have e3: "\<forall>e. elems a3 (EventList e) = elems a (EventList e)"
        using not_sym [OF sleepingD(5) [OF delayed_sleeping(2) [OF base]]] e1 by (simp add: a3_def a2_def elems_insert_other)
      have "kernel_inv E T (k\<lparr>lists := s, uxTopReadyPriority := w, xNextTaskUnblockTime := xNextTaskUnblockTime k\<rparr>) a3"
        using s(2) times ne True unfolding kernel_inv_def times_ok_def h3 by simp
      moreover have "prvAddCurrentTaskToDelayedList d indef k = Some (k\<lparr>lists := s, uxTopReadyPriority := w, xNextTaskUnblockTime := xNextTaskUnblockTime k\<rparr>)"
        using start False True s(1) unfolding Let_def v_def [symmetric] f2 k2_def [symmetric] by simp
      ultimately show ?thesis using h3 e3 unfolding v_def [symmetric] if_not_P [OF False] if_P [OF True] by blast
    next
      case later: False
      then have gt: "xTickCount k < v" using u32_wrapped [OF assms(4), of "xTickCount k"] by (auto simp: v_def)
      define a3 where "a3 = a_insert (pxDelayedTaskList k) (StateItem t) a2"
      define u where "u = (if v < xNextTaskUnblockTime k then v else xNextTaskUnblockTime k)"
      obtain s where s: "on_lists (vListInsert (pxDelayedTaskList k) (StateItem t)) k2 = Some (k\<lparr>lists := s, uxTopReadyPriority := w\<rparr>)"
          "kernel_base E T (k\<lparr>lists := s, uxTopReadyPriority := w\<rparr>) a3"
        using ins [OF delayed_sleeping(1) [OF base]] unfolding a3_def by blast
      have h3: "holder a3 = (holder a)(StateItem t := Some (pxDelayedTaskList k))" "itemval a3 = (itemval a)(StateItem t := v)"
        by (simp_all add: a3_def h2)
      have e3: "\<forall>e. elems a3 (EventList e) = elems a (EventList e)"
        using not_sym [OF sleepingD(5) [OF delayed_sleeping(1) [OF base]]] e1 by (simp add: a3_def a2_def elems_insert_other)
      have "u \<le> v" "u \<le> xNextTaskUnblockTime k" by (auto simp: u_def)
      then have "kernel_inv E T (k\<lparr>lists := s, uxTopReadyPriority := w, xNextTaskUnblockTime := u\<rparr>) a3"
        using s(2) times ne gt order_trans unfolding kernel_inv_def times_ok_def h3 by simp blast
      moreover have "prvAddCurrentTaskToDelayedList d indef k = Some (k\<lparr>lists := s, uxTopReadyPriority := w, xNextTaskUnblockTime := u\<rparr>)"
        using start False later s(1) unfolding Let_def v_def [symmetric] f2 k2_def [symmetric] by (simp add: u_def)
      ultimately show ?thesis using h3 e3 unfolding v_def [symmetric] if_not_P [OF False] if_not_P [OF later] by blast
    qed
  qed
qed

end
