(* ===== verification/KernelSched.thy ===== *)
theory KernelSched
  imports KernelTime
begin

text \<open>
  Choosing the running task, and what happens while and after the scheduler is suspended.
\<close>

section \<open>The highest ready priority\<close>

lemma clz_nonzero:
  assumes "w \<noteq> 0"
  shows "clz w < 32" "bit w (31 - clz w)" "bit w q \<Longrightarrow> q \<le> 31 - clz w"
proof -
  let ?xs = "rev [0..<32]" and ?P = "\<lambda>i. \<not> bit w i"
  have nth: "?xs ! j = 31 - j" if "j < 32" for j :: nat using that by (subst rev_nth) simp_all
  obtain r where r: "bit w r" using assms by (auto simp: bit_eq_iff)
  then have r32: "r < 32" using bit_imp_le_length [OF r] by simp
  then have "r \<in> set ?xs" by simp
  then have "takeWhile ?P ?xs \<noteq> ?xs" using r by (metis set_takeWhileD)
  then show n: "clz w < 32"
    using length_takeWhile_le [of ?P ?xs] takeWhile_eq_take [of ?P ?xs] by (fastforce simp: clz_def intro: le_neq_implies_less)
  then show "bit w (31 - clz w)"
    using nth_length_takeWhile [of ?P ?xs] nth [of "clz w"] by (simp add: clz_def)
  assume q: "bit w q"
  show "q \<le> 31 - clz w"
  proof (rule ccontr)
    assume "\<not> q \<le> 31 - clz w"
    then have less: "31 - q < clz w" using bit_imp_le_length [OF q] n by simp
    then have "takeWhile ?P ?xs ! (31 - q) = ?xs ! (31 - q)" "31 - q < length (takeWhile ?P ?xs)"
      by (simp_all add: takeWhile_nth clz_def)
    then have "?P (?xs ! (31 - q))" by (metis nth_mem set_takeWhileD)
    then show False using q nth [of "31 - q"] bit_imp_le_length [OF q] by simp
  qed
qed

lemma highest_priority:
  assumes "kernel_base E T k a" and "holder a i = Some (Ready p)"
  defines "pr \<equiv> portGET_HIGHEST_PRIORITY (uxTopReadyPriority k)"
  shows "pr < configMAX_PRIORITIES" "elems a (Ready pr) \<noteq> []" "p \<le> pr"
proof -
  let ?w = "uxTopReadyPriority k"
  have p: "p < configMAX_PRIORITIES" using base_home(1) [OF assms(1,2)] by simp
  have bp: "bit ?w (unat p)" using base_bits(1) [OF assms(1) p] assms(2) by blast
  then have nz: "?w \<noteq> 0" by (metis bit_0_eq bot_apply bot_bool_def)
  note c = clz_nonzero [OF nz]
  have "unat (of_nat (clz ?w) :: u32) = clz ?w" using c(1) by (intro unat_of_nat_u32) simp
  then have pr: "unat pr = 31 - clz ?w"
    using c(1) by (simp add: pr_def portGET_HIGHEST_PRIORITY_def unat_sub word_le_nat_alt)
  have "unat pr < 6" using base_bits(2) [OF assms(1)] c(2) unfolding below_64 pr by blast
  then show t: "pr < configMAX_PRIORITIES" by (simp add: priority_unat)
  then have "\<exists>i. holder a i = Some (Ready pr)" using base_bits(1) [OF assms(1) t] c(2) pr by simp
  then show "elems a (Ready pr) \<noteq> []" using elems_empty_holder [OF kernel_baseD(1) [OF assms(1)], of "Ready pr"] t by simp
  show "p \<le> pr" using c(3) [OF bp] pr by (simp add: word_le_nat_alt)
qed

section \<open>Choosing the next task\<close>

lemma base_current:
  "kernel_base E T k a \<Longrightarrow> t \<in> T \<Longrightarrow> kernel_base E T (k\<lparr>pxCurrentTCB := t\<rparr>) a"
proof -
  assume a: "kernel_base E T k a" "t \<in> T"
  have hm: "home (k\<lparr>pxCurrentTCB := t\<rparr>) i l = home k i l" for i l by (cases i; cases l; simp)
  show ?thesis using a by (auto simp: kernel_base_def tasks_ok_def bits_ok_def delayed_ok_def homes_ok_def hm)
qed

lemma base_next:
  assumes "kernel_base E T k a" and "rep (kernel_lists E) s (a_next l a)" and "\<forall>j. pvOwner (item s j) = pvOwner (item (lists k) j)"
  shows "kernel_base E T (k\<lparr>lists := s\<rparr>) (a_next l a)"
proof -
  have f: "holder (a_next l a) = holder a" "itemval (a_next l a) = itemval a" "elems (a_next l a) = elems a"
    by (simp_all add: a_next_def)
  have "kernel_base E T (k\<lparr>lists := s, uxTopReadyPriority := uxTopReadyPriority k\<rparr>) (a_next l a)"
    by (rule base_update [OF assms]) (use base_bits [OF assms(1)] base_sorted [OF assms(1)] in \<open>simp_all add: f\<close>)
  then show ?thesis by simp
qed

lemma switch_step:
  assumes "kernel_inv E T k a" and "uxSchedulerSuspended k = 0" and "holder a i = Some (Ready p)"
  defines "pr \<equiv> portGET_HIGHEST_PRIORITY (uxTopReadyPriority k)"
  shows "\<exists>s. vTaskSwitchContext k = Some (k\<lparr>lists := s, pxCurrentTCB := task_of (hd (upcoming a (Ready pr))), xYieldPending := False\<rparr>)
    \<and> kernel_inv E T (k\<lparr>lists := s, pxCurrentTCB := task_of (hd (upcoming a (Ready pr))), xYieldPending := False\<rparr>) (a_next (Ready pr) a)
    \<and> holder a (hd (upcoming a (Ready pr))) = Some (Ready pr)"
proof -
  have base: "kernel_base E T k a" and times: "times_ok k a" using assms(1) by (simp_all add: kernel_inv_def)
  note hp = highest_priority [OF base assms(3), folded pr_def]
  have l: "Ready pr \<in> kernel_lists E" using hp(1) by simp
  define i' where "i' = hd (upcoming a (Ready pr))"
  have "i' \<in> set (elems a (Ready pr))"
    using upcoming_ne [OF hp(2)] set_upcoming [of a "Ready pr"] hd_in_set unfolding i'_def by blast
  then have h: "holder a i' = Some (Ready pr)" using elems_holder [OF base l] by blast
  then have t: "task_of i' \<in> T" by (rule base_home(2) [OF base])
  then have own: "pvOwner (item (lists k) i') = Some (task_of i')" by (rule tasks_okD(4) [OF kernel_baseD(2) [OF base]])
  obtain s where s: "listGET_OWNER_OF_NEXT_ENTRY (Ready pr) (lists k) = Some (Some (task_of i'), s)"
      "rep (kernel_lists E) s (a_next (Ready pr) a)" "\<forall>j. pvOwner (item s j) = pvOwner (item (lists k) j)"
    using listGET_OWNER_OF_NEXT_ENTRY_sim [OF kernel_baseD(1) [OF base] l hp(2)] own unfolding i'_def [symmetric] by auto
  have "list_length (Ready pr) k > 0"
    using list_empty_elems [OF base l] hp(2) by (simp add: list_length_def list_empty_def listLIST_IS_EMPTY_def word_gt_0)
  then have "vTaskSwitchContext k = Some (k\<lparr>lists := s, pxCurrentTCB := task_of i', xYieldPending := False\<rparr>)"
    using assms(2) s(1) by (simp add: vTaskSwitchContext_def taskSELECT_HIGHEST_PRIORITY_TASK_def Let_def pr_def [symmetric] list_length_def)
  moreover have "kernel_base E T ((k\<lparr>lists := s\<rparr>)\<lparr>pxCurrentTCB := task_of i'\<rparr>) (a_next (Ready pr) a)"
    by (rule base_current [OF base_next [OF base s(2,3)] t])
  then have "kernel_inv E T (k\<lparr>lists := s, pxCurrentTCB := task_of i', xYieldPending := False\<rparr>) (a_next (Ready pr) a)"
    using times by (simp add: kernel_inv_def times_ok_def a_next_def)
  ultimately show ?thesis using h unfolding i'_def by blast
qed

section \<open>Taking turns\<close>

text \<open>The tasks that run after each of \<open>n\<close> context switches.\<close>

fun switches :: "nat \<Rightarrow> kernel \<Rightarrow> (task list \<times> kernel) option" where
  "switches 0 k = Some ([], k)"
| "switches (Suc n) k = do {
     k \<leftarrow> vTaskSwitchContext k;
     (ts, k') \<leftarrow> switches n k;
     Some (pxCurrentTCB k # ts, k')
   }"

lemma length_upcoming: "length (upcoming a l) = length (elems a l)"
  using arg_cong [OF mset_upcoming [of a l], of size] by simp

lemma switches_rotate:
  assumes "kernel_inv E T k a" and "uxSchedulerSuspended k = 0" and "holder a i = Some (Ready q)"
    and "p = portGET_HIGHEST_PRIORITY (uxTopReadyPriority k)" and "n \<le> length (elems a (Ready p))"
  shows "\<exists>k' a'. switches n k = Some (map task_of (take n (upcoming a (Ready p))), k') \<and> kernel_inv E T k' a'
    \<and> holder a' = holder a \<and> uxSchedulerSuspended k' = 0 \<and> upcoming a' (Ready p) = rotate n (upcoming a (Ready p))"
  using assms
proof (induction n arbitrary: k a)
  case 0
  then show ?case by (intro exI [of _ k] exI [of _ a]) simp
next
  case (Suc n)
  have base: "kernel_base E T k a" using Suc.prems(1) by (simp add: kernel_inv_def)
  note hp = highest_priority [OF base Suc.prems(3), folded Suc.prems(4)]
  have l: "Ready p \<in> kernel_lists E" using hp(1) by simp
  obtain x xs where u: "upcoming a (Ready p) = x # xs" using upcoming_ne [OF hp(2)] by (cases "upcoming a (Ready p)") auto
  define a1 where "a1 = a_next (Ready p) a"
  have e1: "elems a1 = elems a" "holder a1 = holder a" by (simp_all add: a1_def a_next_def)
  have u1: "upcoming a1 (Ready p) = xs @ [x]"
    using upcoming_next [OF rep_ok [OF kernel_baseD(1) [OF base]] l hp(2)] u by (simp add: a1_def)
  obtain s where s: "vTaskSwitchContext k = Some (k\<lparr>lists := s, pxCurrentTCB := task_of x, xYieldPending := False\<rparr>)"
      "kernel_inv E T (k\<lparr>lists := s, pxCurrentTCB := task_of x, xYieldPending := False\<rparr>) a1"
    using switch_step [OF Suc.prems(1-3)] unfolding Suc.prems(4) [symmetric] u list.sel a1_def by blast
  define k1 where "k1 = k\<lparr>lists := s, pxCurrentTCB := task_of x, xYieldPending := False\<rparr>"
  have len: "n \<le> length xs" using Suc.prems(5) length_upcoming [of a "Ready p"] u by simp
  obtain k' a' where IH: "switches n k1 = Some (map task_of (take n (upcoming a1 (Ready p))), k')" "kernel_inv E T k' a'"
      "holder a' = holder a1" "uxSchedulerSuspended k' = 0" "upcoming a' (Ready p) = rotate n (upcoming a1 (Ready p))"
    using Suc.IH [OF s(2) [folded k1_def]] Suc.prems(2-5) e1 by (auto simp: k1_def)
  have "switches (Suc n) k = Some (map task_of (take (Suc n) (upcoming a (Ready p))), k')"
  proof -
    have "vTaskSwitchContext k = Some k1" "pxCurrentTCB k1 = task_of x" using s(1) by (simp_all add: k1_def)
    moreover have "take n (upcoming a1 (Ready p)) = take n xs" using len u1 by simp
    ultimately show ?thesis using IH(1) by (simp add: u)
  qed
  moreover have "upcoming a' (Ready p) = rotate (Suc n) (upcoming a (Ready p))"
    using IH(5) u u1 by (simp add: rotate1_rotate_swap)
  ultimately show ?case using IH(2-4) e1(2) by (intro exI [of _ k'] exI [of _ a'] conjI) simp_all
qed

lemma ready_state_item: "kernel_base E T k a \<Longrightarrow> holder a i = Some (Ready p) \<Longrightarrow> i = StateItem (task_of i)"
  using base_home(3) by (cases i) fastforce+

lemma ready_tasks:
  assumes "kernel_base E T k a" and "p < configMAX_PRIORITIES"
  defines "R \<equiv> {t. holder a (StateItem t) = Some (Ready p)}"
  shows "length (elems a (Ready p)) = card R" "distinct (map task_of (upcoming a (Ready p)))"
    "set (map task_of (upcoming a (Ready p))) = R"
proof -
  have l: "Ready p \<in> kernel_lists E" using assms(2) by simp
  have i: "i \<in> set (elems a (Ready p)) \<longleftrightarrow> i \<in> StateItem ` R" for i
    using elems_holder [OF assms(1) l, of i] ready_state_item [OF assms(1), of i p] by (auto simp: R_def)
  then have e: "set (elems a (Ready p)) = StateItem ` R" by blast
  have d: "distinct (elems a (Ready p))" by (rule repD(2) [OF kernel_baseD(1) [OF assms(1)] l])
  have "card (StateItem ` R) = card R" by (rule card_image) (simp add: inj_on_def)
  then show "length (elems a (Ready p)) = card R" using distinct_card [OF d] e by simp
  have "set (upcoming a (Ready p)) = StateItem ` R" using e set_upcoming [of a "Ready p"] by simp
  moreover have "distinct (upcoming a (Ready p))"
    using d mset_eq_imp_distinct_iff [OF mset_upcoming [of a "Ready p"]] by simp
  ultimately show "distinct (map task_of (upcoming a (Ready p)))" "set (map task_of (upcoming a (Ready p))) = R"
    by (auto simp: distinct_map inj_on_def image_image)
qed

section \<open>Tasks that became ready while the scheduler was suspended\<close>

text \<open>A task on an event list, or pending, has its state item on a delayed list or the suspended list.\<close>

definition waits_ok :: "(item_id, list_id) alists \<Rightarrow> bool" where
  "waits_ok a \<longleftrightarrow> (\<forall>t l. holder a (EventItem t) = Some l \<longrightarrow> (\<exists>m \<in> insert SuspendedTaskList sleeping. holder a (StateItem t) = Some m))"

definition pending :: "(item_id, list_id) alists \<Rightarrow> task \<Rightarrow> bool" where
  "pending a t \<longleftrightarrow> holder a (EventItem t) = Some PendingReadyList"

lemma waits_ok_woken: "waits_ok a \<Longrightarrow> holder a' = woken D k (holder a) \<Longrightarrow> waits_ok a'"
  by (auto simp: waits_ok_def)

lemma pending_step:
  assumes "kernel_base E T k a" and "waits_ok a" and "pending a t"
  shows "\<exists>k1 k2 s w a'. on_lists (listREMOVE_ITEM (EventItem t)) k = Some k1
    \<and> on_lists (listREMOVE_ITEM (StateItem t)) k1 = Some k2
    \<and> prvAddTaskToReadyList t k2 = Some (k\<lparr>lists := s, uxTopReadyPriority := w\<rparr>)
    \<and> kernel_base E T (k\<lparr>lists := s, uxTopReadyPriority := w\<rparr>) a'
    \<and> holder a' = (holder a)(StateItem t := Some (Ready (uxPriority (tcb k t))), EventItem t := None)
    \<and> itemval a' = itemval a \<and> elems a' PendingReadyList = filter (\<lambda>i. i \<noteq> EventItem t) (elems a PendingReadyList)"
proof -
  have e: "holder a (EventItem t) = Some PendingReadyList" using assms(3) by (simp add: pending_def)
  have t: "t \<in> T" using base_home(2) [OF assms(1) e] by simp
  obtain m where m: "holder a (StateItem t) = Some m" "m \<in> insert SuspendedTaskList sleeping"
    using assms(2) e unfolding waits_ok_def by blast
  then have mr: "\<forall>p. m \<noteq> Ready p" "m \<noteq> PendingReadyList" by (auto simp: sleeping_def)
  define a1 where "a1 = a_remove (EventItem t) a"
  obtain s1 where s1: "on_lists (listREMOVE_ITEM (EventItem t)) k = Some (k\<lparr>lists := s1\<rparr>)" "kernel_base E T (k\<lparr>lists := s1\<rparr>) a1"
    using remove_base [OF assms(1) e] unfolding a1_def by blast
  have m1: "holder a1 (StateItem t) = Some m" using m by (simp add: a1_def)
  define a2 where "a2 = a_remove (StateItem t) a1"
  obtain s2 where s2: "on_lists (listREMOVE_ITEM (StateItem t)) (k\<lparr>lists := s1\<rparr>) = Some (k\<lparr>lists := s2\<rparr>)" "kernel_base E T (k\<lparr>lists := s2\<rparr>) a2"
    using remove_base [OF s1(2) m1 mr(1)] unfolding a2_def by auto
  have h2: "holder a2 = (holder a)(StateItem t := None, EventItem t := None)" "itemval a2 = itemval a"
    by (simp_all add: a2_def a1_def fun_upd_twist)
  then have "holder a2 (StateItem t) = None" by simp
  from add_ready_base [OF s2(2) t this] obtain s3 where s3: "prvAddTaskToReadyList t (k\<lparr>lists := s2\<rparr>)
      = Some (k\<lparr>lists := s3, uxTopReadyPriority := portRECORD_READY_PRIORITY (uxPriority (tcb k t)) (uxTopReadyPriority k)\<rparr>)"
      "kernel_base E T (k\<lparr>lists := s3, uxTopReadyPriority := portRECORD_READY_PRIORITY (uxPriority (tcb k t)) (uxTopReadyPriority k)\<rparr>)
        (a_insert_end (Ready (uxPriority (tcb k t))) (StateItem t) a2)"
    by auto
  define a3 where "a3 = a_insert_end (Ready (uxPriority (tcb k t))) (StateItem t) a2"
  have "elems a1 PendingReadyList = filter (\<lambda>i. i \<noteq> EventItem t) (elems a PendingReadyList)" using e by (simp add: a1_def elems_remove)
  moreover have "elems a2 PendingReadyList = elems a1 PendingReadyList" using m1 mr(2) by (simp add: a2_def elems_remove)
  ultimately have "elems a3 PendingReadyList = filter (\<lambda>i. i \<noteq> EventItem t) (elems a PendingReadyList)"
    by (simp add: a3_def elems_insert_other)
  moreover have "holder a3 = (holder a)(StateItem t := Some (Ready (uxPriority (tcb k t))), EventItem t := None)" "itemval a3 = itemval a"
    by (simp_all add: a3_def h2 fun_upd_twist)
  ultimately show ?thesis using s1(1) s2(1) s3 unfolding a3_def [symmetric] by blast
qed

lemma pending_loop_wakes:
  assumes "kernel_base E T k a" and "waits_ok a" and "elems a PendingReadyList = xs"
  shows "\<exists>s w y a'. pending_loop found k = Some (found \<or> xs \<noteq> [], k\<lparr>lists := s, uxTopReadyPriority := w, xYieldPending := y\<rparr>)
    \<and> kernel_base E T (k\<lparr>lists := s, uxTopReadyPriority := w\<rparr>) a'
    \<and> holder a' = woken (pending a) k (holder a) \<and> itemval a' = itemval a \<and> waits_ok a'
    \<and> (y \<longleftrightarrow> xYieldPending k \<or> (\<exists>t. pending a t \<and> uxPriority (tcb k (pxCurrentTCB k)) \<le> uxPriority (tcb k t)))"
  using assms
proof (induction xs arbitrary: k a found)
  case Nil
  have n: "\<not> pending a t" for t using elems_holder [OF Nil.prems(1), of PendingReadyList "EventItem t"] Nil.prems(3) by (simp add: pending_def)
  have w: "woken (pending a) k (holder a) = holder a" by (rule woken_none) (rule n)
  have "list_empty PendingReadyList k" using list_empty_elems [OF Nil.prems(1), of PendingReadyList] Nil.prems(3) by simp
  then have "pending_loop found k = Some (found, k\<lparr>lists := lists k, uxTopReadyPriority := uxTopReadyPriority k, xYieldPending := xYieldPending k\<rparr>)"
    by (subst pending_loop.simps) simp
  then show ?case unfolding w using Nil.prems(1,2) n
    by - (rule exI [of _ "lists k"], rule exI [of _ "uxTopReadyPriority k"], rule exI [of _ "xYieldPending k"], rule exI [of _ a], simp)
next
  case (Cons i xs)
  note base = Cons.prems(1)
  note hd = head_owner_task [OF base kernel_lists_simps(4) Cons.prems(3)]
  define t where "t = task_of i"
  have i: "i = EventItem t" using base_home(3) [OF base hd(2)] by (cases i) (simp_all add: t_def)
  have pt: "pending a t" using hd(2) i by (simp add: pending_def)
  have ne: "\<not> list_empty PendingReadyList k" using list_empty_elems [OF base, of PendingReadyList] Cons.prems(3) by simp
  obtain k1 k2 s w a' where st: "on_lists (listREMOVE_ITEM (EventItem t)) k = Some k1"
      "on_lists (listREMOVE_ITEM (StateItem t)) k1 = Some k2"
      "prvAddTaskToReadyList t k2 = Some (k\<lparr>lists := s, uxTopReadyPriority := w\<rparr>)"
      "kernel_base E T (k\<lparr>lists := s, uxTopReadyPriority := w\<rparr>) a'"
      "holder a' = (holder a)(StateItem t := Some (Ready (uxPriority (tcb k t))), EventItem t := None)"
      "itemval a' = itemval a" "elems a' PendingReadyList = filter (\<lambda>i. i \<noteq> EventItem t) (elems a PendingReadyList)"
    using pending_step [OF base Cons.prems(2) pt] by blast
  define b where "b \<longleftrightarrow> uxPriority (tcb k t) \<ge> uxPriority (tcb k (pxCurrentTCB k))"
  define k3 where "k3 = k\<lparr>lists := s, uxTopReadyPriority := w\<rparr>"
  define k4 where "k4 = (if b then k3\<lparr>xYieldPending := True\<rparr> else k3)"
  have k4: "tcb k4 = tcb k" "pxCurrentTCB k4 = pxCurrentTCB k" "xYieldPending k4 \<longleftrightarrow> xYieldPending k \<or> b"
    by (simp_all add: k4_def k3_def)
  have b4: "kernel_base E T k4 a'" using st(4) by (simp add: k4_def k3_def)
  have w4: "waits_ok a'" using Cons.prems(2) by (auto simp: waits_ok_def st(5))
  have "distinct (i # xs)" using repD(2) [OF kernel_baseD(1) [OF base], of PendingReadyList] Cons.prems(3) by simp
  then have rest: "elems a' PendingReadyList = xs" using st(7) Cons.prems(3) i by (auto simp: filter_id_conv)
  have tok: "tasks_ok T k3" using kernel_baseD(2) [OF st(4)] by (simp add: k3_def)
  have "TCB t k3 = Some (tcb k t)" using TCB_task [OF tok] hd(3) by (simp add: k3_def t_def)
  moreover have "TCB (pxCurrentTCB k3) k3 = Some (tcb k (pxCurrentTCB k))"
    using TCB_task [OF tok tasks_okD(1) [OF tok]] by (simp add: k3_def)
  ultimately have code: "pending_loop found k = pending_loop True k4"
    using ne hd(1) st(1-3) by (subst pending_loop.simps) (simp add: t_def [symmetric] k3_def [symmetric] k4_def b_def)
  obtain s' w' y a'' where r: "pending_loop True k4 = Some (True \<or> xs \<noteq> [], k4\<lparr>lists := s', uxTopReadyPriority := w', xYieldPending := y\<rparr>)"
      "kernel_base E T (k4\<lparr>lists := s', uxTopReadyPriority := w'\<rparr>) a''"
      "holder a'' = woken (pending a') k4 (holder a')" "itemval a'' = itemval a'" "waits_ok a''"
      "y \<longleftrightarrow> xYieldPending k4 \<or> (\<exists>t. pending a' t \<and> uxPriority (tcb k (pxCurrentTCB k)) \<le> uxPriority (tcb k t))"
    using Cons.IH [OF b4 w4 rest, of True] unfolding k4(1,2) by blast
  have p: "pending a u \<longleftrightarrow> u = t \<or> pending a' u" for u using pt by (auto simp: pending_def st(5))
  have "holder a'' = woken (pending a) k (holder a)" unfolding r(3) st(5) by (rule woken_step [OF p k4(1)])
  moreover have "y \<longleftrightarrow> xYieldPending k \<or> (\<exists>t. pending a t \<and> uxPriority (tcb k (pxCurrentTCB k)) \<le> uxPriority (tcb k t))"
    unfolding r(6) k4(3) b_def using p by auto
  moreover have "k4\<lparr>lists := s', uxTopReadyPriority := w', xYieldPending := y\<rparr> = k\<lparr>lists := s', uxTopReadyPriority := w', xYieldPending := y\<rparr>"
    by (simp add: k4_def k3_def)
  moreover have "kernel_base E T (k\<lparr>lists := s', uxTopReadyPriority := w'\<rparr>) a''"
  proof (cases b)
    case True
    then have "k4\<lparr>lists := s', uxTopReadyPriority := w'\<rparr> = k\<lparr>lists := s', uxTopReadyPriority := w'\<rparr>\<lparr>xYieldPending := True\<rparr>"
      by (simp add: k4_def k3_def)
    then show ?thesis using r(2) by simp
  next
    case False
    then have "k4\<lparr>lists := s', uxTopReadyPriority := w'\<rparr> = k\<lparr>lists := s', uxTopReadyPriority := w'\<rparr>"
      by (simp add: k4_def k3_def)
    then show ?thesis using r(2) by simp
  qed
  ultimately show ?case using code r(1,4,5) st(6)
    by - (rule exI [of _ s'], rule exI [of _ w'], rule exI [of _ y], rule exI [of _ a''], simp)
qed

section \<open>Resuming the scheduler\<close>

text \<open>The tasks that are ready once the scheduler runs again: the pending ones, and those the missed ticks wake.\<close>

definition resumed :: "kernel \<Rightarrow> (item_id, list_id) alists \<Rightarrow> task \<Rightarrow> bool" where
  "resumed k a t \<longleftrightarrow> pending a t \<or> asleep a t \<and> remaining k a t \<le> unat (xPendedTicks k)"

definition resume_yields :: "kernel \<Rightarrow> (item_id, list_id) alists \<Rightarrow> bool" where
  "resume_yields k a \<longleftrightarrow> xYieldPending k
     \<or> (\<exists>t. pending a t \<and> uxPriority (tcb k (pxCurrentTCB k)) \<le> uxPriority (tcb k t))
     \<or> (\<exists>t. \<not> pending a t \<and> resumed k a t \<and> uxPriority (tcb k (pxCurrentTCB k)) < uxPriority (tcb k t))"

lemma times_woken:
  assumes "times_ok k a" and "kernel_base E T k a" and "holder a' = woken D k (holder a)" and "itemval a' = itemval a"
  shows "times_ok k a'"
proof -
  have "holder a i = Some l" if "holder a' i = Some l" "l \<in> sleeping" for i l
    using that unfolding assms(3) by (cases i) (auto simp: sleeping_def split: if_splits)
  then show ?thesis using assms(1,4) delayed_sleeping(1,2) [OF assms(2)] unfolding times_ok_def by auto
qed

lemma resume_pending:
  assumes "kernel_inv E T k a" and "waits_ok a"
  shows "\<exists>found k1 a1. pending_loop False k = Some (found, k1) \<and> (\<exists>k2. (if found then prvResetNextTaskUnblockTime k1 else Some k1) = Some k2
    \<and> kernel_inv E T k2 a1 \<and> holder a1 = woken (pending a) k (holder a) \<and> itemval a1 = itemval a \<and> waits_ok a1
    \<and> (xYieldPending k2 \<longleftrightarrow> xYieldPending k \<or> (\<exists>t. pending a t \<and> uxPriority (tcb k (pxCurrentTCB k)) \<le> uxPriority (tcb k t)))
    \<and> tcb k2 = tcb k \<and> pxCurrentTCB k2 = pxCurrentTCB k \<and> xTickCount k2 = xTickCount k \<and> xPendedTicks k2 = xPendedTicks k
    \<and> uxSchedulerSuspended k2 = uxSchedulerSuspended k \<and> still k2 = still k)"
proof -
  have base: "kernel_base E T k a" and times: "times_ok k a" using assms(1) by (simp_all add: kernel_inv_def)
  obtain found s w y a1 where l: "pending_loop False k = Some (found, k\<lparr>lists := s, uxTopReadyPriority := w, xYieldPending := y\<rparr>)"
      "kernel_base E T (k\<lparr>lists := s, uxTopReadyPriority := w\<rparr>) a1"
      "holder a1 = woken (pending a) k (holder a)" "itemval a1 = itemval a" "waits_ok a1"
      "y \<longleftrightarrow> xYieldPending k \<or> (\<exists>t. pending a t \<and> uxPriority (tcb k (pxCurrentTCB k)) \<le> uxPriority (tcb k t))"
    using pending_loop_wakes [OF base assms(2) refl, of False] by blast
  define k1 where "k1 = k\<lparr>lists := s, uxTopReadyPriority := w, xYieldPending := y\<rparr>"
  have b1: "kernel_base E T k1 a1" using l(2) by (simp add: k1_def)
  have t1: "times_ok k1 a1" using times_woken [OF times base l(3,4)] by (simp add: times_ok_def k1_def)
  have f1: "tcb k1 = tcb k" "pxCurrentTCB k1 = pxCurrentTCB k" "xTickCount k1 = xTickCount k" "xPendedTicks k1 = xPendedTicks k"
    "uxSchedulerSuspended k1 = uxSchedulerSuspended k" "still k1 = still k" "xYieldPending k1 = y"
    by (simp_all add: k1_def)
  obtain v where v: "prvResetNextTaskUnblockTime k1 = Some (k1\<lparr>xNextTaskUnblockTime := v\<rparr>)"
      "\<forall>i. holder a1 i = Some (pxDelayedTaskList k1) \<longrightarrow> v \<le> itemval a1 i"
    using reset_unblock_time [OF b1] by blast
  have "kernel_inv E T k1 a1" "kernel_inv E T (k1\<lparr>xNextTaskUnblockTime := v\<rparr>) a1"
    using b1 t1 v(2) by (simp_all add: kernel_inv_def times_ok_def)
  then have "\<exists>k2. (if found then prvResetNextTaskUnblockTime k1 else Some k1) = Some k2 \<and> kernel_inv E T k2 a1
    \<and> tcb k2 = tcb k \<and> pxCurrentTCB k2 = pxCurrentTCB k \<and> xTickCount k2 = xTickCount k \<and> xPendedTicks k2 = xPendedTicks k
    \<and> uxSchedulerSuspended k2 = uxSchedulerSuspended k \<and> still k2 = still k \<and> xYieldPending k2 = y"
    using v(1) f1 by (cases found) simp_all
  then obtain k2 where k2: "(if found then prvResetNextTaskUnblockTime k1 else Some k1) = Some k2" "kernel_inv E T k2 a1"
    "tcb k2 = tcb k" "pxCurrentTCB k2 = pxCurrentTCB k" "xTickCount k2 = xTickCount k" "xPendedTicks k2 = xPendedTicks k"
    "uxSchedulerSuspended k2 = uxSchedulerSuspended k" "still k2 = still k" "xYieldPending k2 = y" by blast
  show ?thesis
    by (rule exI [of _ found], rule exI [of _ k1], rule exI [of _ a1], intro conjI exI [of _ k2])
      (use l k2 in \<open>simp_all add: k1_def\<close>)
qed

lemma resume_all:
  assumes "kernel_inv E T k a" and "waits_ok a" and "uxSchedulerSuspended k = 1" and "uxCurrentNumberOfTasks k > 0"
  shows "\<exists>k' a'. xTaskResumeAll k = Some (resume_yields k a, k') \<and> kernel_inv E T k' a' \<and> waits_ok a'
    \<and> holder a' = woken (resumed k a) k (holder a) \<and> itemval a' = itemval a
    \<and> uxSchedulerSuspended k' = 0 \<and> xPendedTicks k' = 0 \<and> xTickCount k' = xTickCount k + xPendedTicks k
    \<and> (\<forall>t. asleep a' t \<longrightarrow> remaining k' a' t = remaining k a t - unat (xPendedTicks k))
    \<and> tcb k' = tcb k \<and> pxCurrentTCB k' = pxCurrentTCB k \<and> swi k' = (swi k \<or> resume_yields k a)
    \<and> still (k'\<lparr>swi := False\<rparr>) = still (k\<lparr>swi := False\<rparr>)"
proof -
  define k0 where "k0 = k\<lparr>uxSchedulerSuspended := 0\<rparr>"
  have inv0: "kernel_inv E T k0 a" using assms(1) by (simp add: k0_def kernel_inv_def times_ok_def)
  have f0: "tcb k0 = tcb k" "pxCurrentTCB k0 = pxCurrentTCB k" "xTickCount k0 = xTickCount k" "xPendedTicks k0 = xPendedTicks k"
    "uxSchedulerSuspended k0 = 0" "still k0 = still k" "xYieldPending k0 = xYieldPending k" by (simp_all add: k0_def)
  have w0: "woken D k0 f = woken D k f" for D f
  proof
    fix i show "woken D k0 f i = woken D k f i" using f0(1) by (cases i) auto
  qed
  obtain found k1 a1 k2 where r1: "pending_loop False k0 = Some (found, k1)"
      "(if found then prvResetNextTaskUnblockTime k1 else Some k1) = Some k2" "kernel_inv E T k2 a1"
      "holder a1 = woken (pending a) k (holder a)" "itemval a1 = itemval a" "waits_ok a1"
      "xYieldPending k2 \<longleftrightarrow> xYieldPending k \<or> (\<exists>t. pending a t \<and> uxPriority (tcb k (pxCurrentTCB k)) \<le> uxPriority (tcb k t))"
      and f2: "tcb k2 = tcb k" "pxCurrentTCB k2 = pxCurrentTCB k" "xTickCount k2 = xTickCount k" "xPendedTicks k2 = xPendedTicks k"
      "uxSchedulerSuspended k2 = 0" "still k2 = still k"
    using resume_pending [OF inv0 assms(2)] unfolding w0 f0 by blast
  define n where "n = unat (xPendedTicks k)"
  obtain k3 a3 where r3: "pended_ticks n k2 = Some k3" "kernel_inv E T k3 a3" "xTickCount k3 = xTickCount k2 + of_nat n"
      "holder a3 = woken (\<lambda>t. asleep a1 t \<and> remaining k2 a1 t \<le> n) k2 (holder a1)" "itemval a3 = itemval a1"
      "\<forall>t. asleep a3 t \<longrightarrow> remaining k3 a3 t = remaining k2 a1 t - n"
      "tcb k3 = tcb k2" "pxCurrentTCB k3 = pxCurrentTCB k2" "uxSchedulerSuspended k3 = 0" "still k3 = still k2"
      "xYieldPending k3 \<longleftrightarrow> xYieldPending k2 \<or> (\<exists>t. asleep a1 t \<and> remaining k2 a1 t \<le> n
          \<and> uxPriority (tcb k2 (pxCurrentTCB k2)) < uxPriority (tcb k2 t))"
    using ticks_wake [OF r1(3) f2(5), of n] by blast
  have sl: "asleep a1 t \<longleftrightarrow> asleep a t \<and> \<not> pending a t" for t by (rule asleep_woken [OF r1(4)])
  have rem: "remaining k2 a1 t = remaining k a t" for t by (simp add: remaining_def r1(5) f2(3))
  have D: "pending a t \<or> asleep a1 t \<and> remaining k2 a1 t \<le> n \<longleftrightarrow> resumed k a t" for t
    unfolding resumed_def n_def rem sl by blast
  have h3: "holder a3 = woken (resumed k a) k (holder a)"
    unfolding r3(4) r1(4) woken_woken [OF f2(1)] D ..
  have y3: "xYieldPending k3 \<longleftrightarrow> resume_yields k a"
    unfolding r3(11) r1(7) resume_yields_def resumed_def rem sl f2 n_def by blast
  have rem3: "remaining k3 a3 t = remaining k a t - n" if "asleep a3 t" for t
    using r3(6) that unfolding rem by blast
  define k4 where "k4 = (if n = 0 then k3 else k3\<lparr>xPendedTicks := 0\<rparr>)"
  have z: "xPendedTicks k > 0 \<longleftrightarrow> n \<noteq> 0" by (simp add: n_def unat_gt_0 word_gt_0)
  have k23: "k3 = k2" "xPendedTicks k = 0" if "n = 0" using r3(1) that z by (simp_all add: word_gt_0)
  have r4: "(if xPendedTicks k2 > 0 then do { k \<leftarrow> pended_ticks (unat (xPendedTicks k2)) k2; Some (k\<lparr>xPendedTicks := 0\<rparr>) } else Some k2) = Some k4"
    using z r3(1) k23 by (simp add: f2(4) n_def [symmetric] k4_def)
  have f4: "kernel_inv E T k4 a3" "uxSchedulerSuspended k4 = 0" "xPendedTicks k4 = 0" "xTickCount k4 = xTickCount k + xPendedTicks k"
      "tcb k4 = tcb k" "pxCurrentTCB k4 = pxCurrentTCB k" "still k4 = still k" "xYieldPending k4 \<longleftrightarrow> resume_yields k a"
    using r3(2,3,7-10) f2 y3 k23 by (auto simp: k4_def kernel_inv_def times_ok_def n_def)
  define k5 where "k5 = (if resume_yields k a then yield k4 else k4)"
  have "uxCurrentNumberOfTasks k0 > 0" using assms(4) by (simp add: k0_def)
  then have code: "xTaskResumeAll k = Some (resume_yields k a, k5)"
    using assms(3) r1(1,2) r4 f0(5) f4(8) unfolding xTaskResumeAll_def
    by (simp add: Let_def k0_def [symmetric] k5_def)
  have "kernel_inv E T k5 a3" using f4(1) by (simp add: k5_def yield_def kernel_inv_def times_ok_def)
  moreover have "remaining k5 a3 t = remaining k3 a3 t" for t
    by (simp add: remaining_def k5_def k4_def yield_def)
  moreover have "waits_ok a3" by (rule waits_ok_woken [OF r1(6) r3(4)])
  ultimately show ?thesis using code h3 r3(5) r1(5) f4(2-7) rem3
    by (intro exI [of _ k5] exI [of _ a3]) (simp add: k5_def yield_def still_def n_def)
qed

text \<open>While the scheduler is not suspended nothing is left pending.\<close>

definition settled :: "kernel \<Rightarrow> (item_id, list_id) alists \<Rightarrow> bool" where
  "settled k a \<longleftrightarrow> waits_ok a \<and> uxCurrentNumberOfTasks k > 0
     \<and> (uxSchedulerSuspended k = 0 \<longrightarrow> xPendedTicks k = 0 \<and> (\<forall>t. \<not> pending a t))"

end
