(* ===== verification/KernelOps.thy ===== *)
theory KernelOps
  imports KernelSched
begin

text \<open>
  The operations of the scheduler as its users see them: each keeps the invariant, and what it does to
  the tasks. A reachable state is one that any interleaving of the operations and interrupts reaches.
\<close>

section \<open>The port's interrupts\<close>

text \<open>\<open>port.c\<close>: the tick interrupt pends a context switch; the software interrupt takes it.\<close>

definition vPortIncrementTick :: "kernel \<Rightarrow> kernel option" where
  "vPortIncrementTick k = do {
     (b, k) \<leftarrow> xTaskIncrementTick k;
     Some (if b then yield k else k)
   }"

definition vPortYieldISR :: "kernel \<Rightarrow> kernel option" where
  "vPortYieldISR k = vTaskSwitchContext (k\<lparr>swi := False\<rparr>)"

section \<open>The state between operations\<close>

definition is_ready :: "(item_id, list_id) alists \<Rightarrow> task \<Rightarrow> bool" where
  "is_ready a t \<longleftrightarrow> (\<exists>p. holder a (StateItem t) = Some (Ready p))"

text \<open>
  The idle task is always ready; the running task is ready unless it gave up the processor and the
  software interrupt is about to switch.
\<close>

definition kernel_ok :: "u32 set \<Rightarrow> task set \<Rightarrow> task \<Rightarrow> kernel \<Rightarrow> (item_id, list_id) alists \<Rightarrow> bool" where
  "kernel_ok E T idle k a \<longleftrightarrow> kernel_inv E T k a \<and> settled k a \<and> is_ready a idle \<and> xSchedulerRunning k
     \<and> (is_ready a (pxCurrentTCB k) \<or> swi k \<and> uxSchedulerSuspended k = 0)"

lemma kernel_okD:
  assumes "kernel_ok E T idle k a"
  shows "kernel_inv E T k a" "kernel_base E T k a" "times_ok k a" "settled k a" "waits_ok a" "is_ready a idle"
    "xSchedulerRunning k" "is_ready a (pxCurrentTCB k) \<or> swi k \<and> uxSchedulerSuspended k = 0" "uxCurrentNumberOfTasks k > 0"
    "uxSchedulerSuspended k = 0 \<Longrightarrow> xPendedTicks k = 0" "uxSchedulerSuspended k = 0 \<Longrightarrow> \<not> pending a t"
  using assms by (auto simp: kernel_ok_def kernel_inv_def settled_def)

lemma ready_holder: "kernel_base E T k a \<Longrightarrow> is_ready a t \<Longrightarrow> holder a (StateItem t) = Some (Ready (uxPriority (tcb k t)))"
  using base_home(3) unfolding is_ready_def by fastforce

lemma ready_task: "kernel_base E T k a \<Longrightarrow> is_ready a t \<Longrightarrow> t \<in> T"
  using base_home(2) unfolding is_ready_def by fastforce

lemma woken_ready: "holder a' = woken D k (holder a) \<Longrightarrow> is_ready a t \<Longrightarrow> is_ready a' t"
  by (auto simp: is_ready_def)

lemma woken_pending: "holder a' = woken D k (holder a) \<Longrightarrow> pending a' t \<Longrightarrow> pending a t"
  by (auto simp: pending_def split: if_splits)

text \<open>A task on a ready list waits on nothing.\<close>

lemma ready_no_event: "waits_ok a \<Longrightarrow> is_ready a t \<Longrightarrow> holder a (EventItem t) = None"
  unfolding waits_ok_def is_ready_def sleeping_def by (cases "holder a (EventItem t)") auto

lemma frame_inv [simp]:
  "kernel_inv E T (k\<lparr>swi := b\<rparr>) a = kernel_inv E T k a"
  "kernel_inv E T (k\<lparr>xYieldPending := b\<rparr>) a = kernel_inv E T k a"
  "kernel_inv E T (k\<lparr>uxSchedulerSuspended := x\<rparr>) a = kernel_inv E T k a"
  "kernel_inv E T (k\<lparr>xPendedTicks := x\<rparr>) a = kernel_inv E T k a"
  "kernel_inv E T (k\<lparr>uxCurrentNumberOfTasks := x\<rparr>) a = kernel_inv E T k a"
  "kernel_inv E T (k\<lparr>uxTaskNumber := x\<rparr>) a = kernel_inv E T k a"
  by (simp_all add: kernel_inv_def times_ok_def)

section \<open>Interrupts\<close>

lemma tick_ok:
  assumes "kernel_ok E T idle k a" and "uxSchedulerSuspended k = 0"
  shows "\<exists>k' a'. vPortIncrementTick k = Some k' \<and> kernel_ok E T idle k' a' \<and> xTickCount k' = xTickCount k + 1
    \<and> holder a' = woken (wakes_now k a) k (holder a) \<and> itemval a' = itemval a \<and> tcb k' = tcb k \<and> pxCurrentTCB k' = pxCurrentTCB k
    \<and> uxSchedulerSuspended k' = 0
    \<and> swi k' = (swi k \<or> xYieldPending k \<or> (\<exists>t. wakes_now k a t \<and> uxPriority (tcb k (pxCurrentTCB k)) < uxPriority (tcb k t)))"
proof -
  note ok = kernel_okD [OF assms(1)]
  define b where "b \<longleftrightarrow> xYieldPending k \<or> (\<exists>t. wakes_now k a t \<and> uxPriority (tcb k (pxCurrentTCB k)) < uxPriority (tcb k t))"
  obtain k1 a1 where t: "xTaskIncrementTick k = Some (b, k1)" "kernel_inv E T k1 a1" "xTickCount k1 = xTickCount k + 1"
      "holder a1 = woken (wakes_now k a) k (holder a)" "itemval a1 = itemval a" "tcb k1 = tcb k" "pxCurrentTCB k1 = pxCurrentTCB k"
      "uxSchedulerSuspended k1 = 0" "xPendedTicks k1 = xPendedTicks k" "still k1 = still k"
    using tick_step [OF ok(1) assms(2)] unfolding b_def by blast
  define k' where "k' = (if b then yield k1 else k1)"
  have f: "xPendedTicks k' = 0" "uxCurrentNumberOfTasks k' > 0" "xSchedulerRunning k'" "swi k' = (swi k \<or> b)" "uxSchedulerSuspended k' = 0"
      "pxCurrentTCB k' = pxCurrentTCB k" "tcb k' = tcb k" "xTickCount k' = xTickCount k + 1" "kernel_inv E T k' a1"
    using t ok(7,9) ok(10) [OF assms(2)] by (simp_all add: k'_def yield_def still_def)
  have p: "\<not> pending a1 u" for u using woken_pending [OF t(4)] ok(11) [OF assms(2)] by blast
  have "waits_ok a1" by (rule waits_ok_woken [OF ok(5) t(4)])
  then have "settled k' a1" using f p by (simp add: settled_def)
  then have "kernel_ok E T idle k' a1"
    using f ok(8) woken_ready [OF t(4) ok(6)] woken_ready [OF t(4), of "pxCurrentTCB k"] by (auto simp: kernel_ok_def)
  moreover have "vPortIncrementTick k = Some k'" using t(1) by (simp add: vPortIncrementTick_def k'_def)
  ultimately show ?thesis using f t(4,5) unfolding b_def by blast
qed

text \<open>While the scheduler is suspended a tick is only counted.\<close>

lemma tick_pended:
  assumes "kernel_ok E T idle k a" and "uxSchedulerSuspended k \<noteq> 0"
  shows "vPortIncrementTick k = Some (k\<lparr>xPendedTicks := xPendedTicks k + 1\<rparr>)"
    "kernel_ok E T idle (k\<lparr>xPendedTicks := xPendedTicks k + 1\<rparr>) a"
  using assms by (simp_all add: vPortIncrementTick_def xTaskIncrementTick_def kernel_ok_def settled_def)

lemma yield_isr_ok:
  assumes "kernel_ok E T idle k a"
  shows "\<exists>k' a'. vPortYieldISR k = Some k' \<and> kernel_ok E T idle k' a' \<and> holder a' = holder a \<and> itemval a' = itemval a
    \<and> xTickCount k' = xTickCount k \<and> tcb k' = tcb k \<and> uxSchedulerSuspended k' = uxSchedulerSuspended k \<and> \<not> swi k'
    \<and> (uxSchedulerSuspended k = 0 \<longrightarrow> is_ready a (pxCurrentTCB k')
         \<and> (\<forall>t. is_ready a t \<longrightarrow> uxPriority (tcb k t) \<le> uxPriority (tcb k (pxCurrentTCB k'))))
    \<and> (uxSchedulerSuspended k \<noteq> 0 \<longrightarrow> pxCurrentTCB k' = pxCurrentTCB k \<and> xYieldPending k')"
proof (cases "uxSchedulerSuspended k = 0")
  case False
  then have "vPortYieldISR k = Some (k\<lparr>swi := False, xYieldPending := True\<rparr>)" by (simp add: vPortYieldISR_def vTaskSwitchContext_def)
  moreover have "kernel_ok E T idle (k\<lparr>swi := False, xYieldPending := True\<rparr>) a"
    using assms False by (simp add: kernel_ok_def settled_def)
  ultimately show ?thesis using False by (intro exI [of _ "k\<lparr>swi := False, xYieldPending := True\<rparr>"] exI [of _ a]) simp
next
  case True
  note ok = kernel_okD [OF assms]
  define k0 where "k0 = k\<lparr>swi := False\<rparr>"
  have inv0: "kernel_inv E T k0 a" and sus0: "uxSchedulerSuspended k0 = 0" using ok(1) True by (simp_all add: k0_def)
  define p where "p = portGET_HIGHEST_PRIORITY (uxTopReadyPriority k0)"
  define i where "i = hd (upcoming a (Ready p))"
  obtain q where q: "holder a (StateItem idle) = Some (Ready q)" using ok(6) by (auto simp: is_ready_def)
  obtain s where s: "vTaskSwitchContext k0 = Some (k0\<lparr>lists := s, pxCurrentTCB := task_of i, xYieldPending := False\<rparr>)"
      "kernel_inv E T (k0\<lparr>lists := s, pxCurrentTCB := task_of i, xYieldPending := False\<rparr>) (a_next (Ready p) a)"
      "holder a i = Some (Ready p)"
    using switch_step [OF inv0 sus0 q] unfolding p_def [symmetric] i_def [symmetric] by blast
  define k' where "k' = k0\<lparr>lists := s, pxCurrentTCB := task_of i, xYieldPending := False\<rparr>"
  have i: "i = StateItem (task_of i)" by (rule ready_state_item [OF ok(2) s(3)])
  have base0: "kernel_base E T k0 a" using inv0 by (simp add: kernel_inv_def)
  have rd: "is_ready a (task_of i)" using s(3) i unfolding is_ready_def by metis
  have pr: "uxPriority (tcb k (task_of i)) = p" using base_home(3) [OF ok(2) s(3)] i by (metis home.simps(1))
  have max: "uxPriority (tcb k t) \<le> p" if "is_ready a t" for t
    using highest_priority(3) [OF base0 ready_holder [OF base0 that]] by (simp add: p_def k0_def)
  have h: "holder (a_next (Ready p) a) = holder a" "itemval (a_next (Ready p) a) = itemval a" by (simp_all add: a_next_def)
  have "kernel_ok E T idle k' (a_next (Ready p) a)"
    using s(2) ok rd True unfolding k'_def [symmetric]
    by (simp add: kernel_ok_def settled_def k'_def k0_def is_ready_def waits_ok_def pending_def h)
  then show ?thesis using s(1) True rd max pr h
    by (intro exI [of _ k'] exI [of _ "a_next (Ready p) a"]) (simp add: vPortYieldISR_def k0_def [symmetric] k'_def, simp add: k0_def)
qed

section \<open>Blocking and the scheduler lock\<close>

lemma suspend_all_ok:
  assumes "kernel_ok E T idle k a" and "is_ready a (pxCurrentTCB k)" and "uxSchedulerSuspended k + 1 \<noteq> 0"
  shows "kernel_ok E T idle (vTaskSuspendAll k) a"
  using assms by (simp add: kernel_ok_def vTaskSuspendAll_def settled_def)

lemma resume_all_ok:
  assumes "kernel_ok E T idle k a" and "uxSchedulerSuspended k = 1"
  shows "\<exists>k' a'. xTaskResumeAll k = Some (resume_yields k a, k') \<and> kernel_ok E T idle k' a'
    \<and> holder a' = woken (resumed k a) k (holder a) \<and> itemval a' = itemval a
    \<and> uxSchedulerSuspended k' = 0 \<and> xTickCount k' = xTickCount k + xPendedTicks k
    \<and> (\<forall>t. asleep a' t \<longrightarrow> remaining k' a' t = remaining k a t - unat (xPendedTicks k))
    \<and> tcb k' = tcb k \<and> pxCurrentTCB k' = pxCurrentTCB k \<and> swi k' = (swi k \<or> resume_yields k a)"
proof -
  note ok = kernel_okD [OF assms(1)]
  obtain k' a' where r: "xTaskResumeAll k = Some (resume_yields k a, k')" "kernel_inv E T k' a'" "waits_ok a'"
      "holder a' = woken (resumed k a) k (holder a)" "itemval a' = itemval a"
      "uxSchedulerSuspended k' = 0" "xPendedTicks k' = 0" "xTickCount k' = xTickCount k + xPendedTicks k"
      "\<forall>t. asleep a' t \<longrightarrow> remaining k' a' t = remaining k a t - unat (xPendedTicks k)"
      "tcb k' = tcb k" "pxCurrentTCB k' = pxCurrentTCB k" "swi k' = (swi k \<or> resume_yields k a)"
      "still (k'\<lparr>swi := False\<rparr>) = still (k\<lparr>swi := False\<rparr>)"
    using resume_all [OF ok(1,5) assms(2) ok(9)] by blast
  have p: "\<not> pending a' t" for t using r(4) by (auto simp: pending_def resumed_def)
  have "is_ready a' (pxCurrentTCB k')"
    using woken_ready [OF r(4), of "pxCurrentTCB k"] ok(8) assms(2) r(11) by simp
  then have "kernel_ok E T idle k' a'"
    using r(2,3,6,7,13) p ok(7,9) woken_ready [OF r(4) ok(6)] by (simp add: kernel_ok_def settled_def still_def)
  then show ?thesis using r by blast
qed

lemma resume_nested_ok:
  assumes "kernel_ok E T idle k a" and "uxSchedulerSuspended k \<noteq> 0" and "uxSchedulerSuspended k \<noteq> 1"
  shows "xTaskResumeAll k = Some (False, k\<lparr>uxSchedulerSuspended := uxSchedulerSuspended k - 1\<rparr>)"
    "kernel_ok E T idle (k\<lparr>uxSchedulerSuspended := uxSchedulerSuspended k - 1\<rparr>) a"
  using assms by (auto simp: xTaskResumeAll_def Let_def kernel_ok_def settled_def)

text \<open>
  The common part of every blocking call: the running task goes to sleep while the scheduler is locked,
  and the lock is released. Nothing was pending, so nothing else wakes.
\<close>

lemma block_and_resume:
  assumes "kernel_ok E T idle k a" and "uxSchedulerSuspended k = 0" and "is_ready a (pxCurrentTCB k)" and "pxCurrentTCB k \<noteq> idle"
    and "0 < d"
  shows "\<exists>k1 y k' a'. prvAddCurrentTaskToDelayedList d False (vTaskSuspendAll k) = Some k1 \<and> xTaskResumeAll k1 = Some (y, k')
    \<and> kernel_ok E T idle (yield k') a' \<and> swi k' = (swi k \<or> y)
    \<and> (\<exists>l \<in> sleeping. holder a' = (holder a)(StateItem (pxCurrentTCB k) := Some l))
    \<and> itemval a' = (itemval a)(StateItem (pxCurrentTCB k) := xTickCount k + d)
    \<and> xTickCount k' = xTickCount k \<and> tcb k' = tcb k \<and> pxCurrentTCB k' = pxCurrentTCB k \<and> uxSchedulerSuspended k' = 0"
proof -
  note ok = kernel_okD [OF assms(1)]
  define t where "t = pxCurrentTCB k"
  define k0 where "k0 = vTaskSuspendAll k"
  have f0: "tcb k0 = tcb k" "pxCurrentTCB k0 = t" "xTickCount k0 = xTickCount k" "xPendedTicks k0 = 0" "uxSchedulerSuspended k0 = 1"
    "swi k0 = swi k" "pxDelayedTaskList k0 = pxDelayedTaskList k" "pxOverflowDelayedTaskList k0 = pxOverflowDelayedTaskList k"
    using ok(10) [OF assms(2)] assms(2) by (simp_all add: k0_def vTaskSuspendAll_def t_def)
  have ok0: "kernel_ok E T idle k0 a" unfolding k0_def by (rule suspend_all_ok [OF assms(1,3)]) (simp add: assms(2))
  note okD0 = kernel_okD [OF ok0]
  define l where "l = (if xTickCount k + d < xTickCount k then pxOverflowDelayedTaskList k else pxDelayedTaskList k)"
  have l: "l \<in> sleeping" using delayed_sleeping(1,2) [OF ok(2)] by (simp add: l_def)
  obtain s w v a1 where sl: "prvAddCurrentTaskToDelayedList d False k0 = Some (k0\<lparr>lists := s, uxTopReadyPriority := w, xNextTaskUnblockTime := v\<rparr>)"
      "kernel_inv E T (k0\<lparr>lists := s, uxTopReadyPriority := w, xNextTaskUnblockTime := v\<rparr>) a1"
      "holder a1 = (holder a)(StateItem t := Some l)" "itemval a1 = (itemval a)(StateItem t := xTickCount k + d)"
    using sleep_step [OF okD0(1) ready_holder [OF okD0(2)] refl assms(5), of False] assms(3)
    unfolding f0 by (auto simp: t_def l_def)
  define k1 where "k1 = k0\<lparr>lists := s, uxTopReadyPriority := w, xNextTaskUnblockTime := v\<rparr>"
  have f1: "tcb k1 = tcb k" "pxCurrentTCB k1 = t" "xTickCount k1 = xTickCount k" "xPendedTicks k1 = 0" "uxSchedulerSuspended k1 = 1"
    "swi k1 = swi k" "uxCurrentNumberOfTasks k1 > 0" "xSchedulerRunning k1"
    using f0 okD0(7,9) by (simp_all add: k1_def)
  have noev: "holder a (EventItem t) = None" using ready_no_event [OF ok(5) assms(3)] by (simp add: t_def)
  have w1: "waits_ok a1" using ok(5) noev l sl(3) by (auto simp: waits_ok_def)
  have p1: "\<not> pending a1 u" for u using ok(11) [OF assms(2), of u] by (simp add: pending_def sl(3))
  have none: "\<not> resumed k1 a1 u" for u
    using p1 remaining_pos [OF sl(2) [folded k1_def], of u] f1(4) by (auto simp: resumed_def)
  obtain k' a' where r: "xTaskResumeAll k1 = Some (resume_yields k1 a1, k')" "kernel_inv E T k' a'" "waits_ok a'"
      "holder a' = woken (resumed k1 a1) k1 (holder a1)" "itemval a' = itemval a1"
      "uxSchedulerSuspended k' = 0" "xPendedTicks k' = 0" "xTickCount k' = xTickCount k1 + xPendedTicks k1"
      "tcb k' = tcb k1" "pxCurrentTCB k' = pxCurrentTCB k1" "swi k' = (swi k1 \<or> resume_yields k1 a1)"
      "still (k'\<lparr>swi := False\<rparr>) = still (k1\<lparr>swi := False\<rparr>)"
    using resume_all [OF sl(2) [folded k1_def] w1 f1(5,7)] by blast
  have h': "holder a' = (holder a)(StateItem t := Some l)" unfolding r(4) woken_none [OF none] by (rule sl(3))
  have "is_ready a' idle" using ok(6) assms(4) by (simp add: is_ready_def h' t_def)
  moreover have "\<not> pending a' u" for u using p1 [of u] by (simp add: pending_def h' sl(3))
  ultimately have "kernel_ok E T idle (yield k') a'"
    using r(2,3,6,7,12) f1 by (simp add: kernel_ok_def settled_def yield_def still_def)
  then show ?thesis using sl(1,4) r(1,5,6,8-11) h' l f1 unfolding k0_def [symmetric] k1_def [symmetric] t_def [symmetric]
    by (intro exI [of _ k1] exI [of _ "resume_yields k1 a1"] exI [of _ k'] exI [of _ a']) auto
qed

lemma delay_ok:
  assumes "kernel_ok E T idle k a" and "uxSchedulerSuspended k = 0" and "is_ready a (pxCurrentTCB k)" and "pxCurrentTCB k \<noteq> idle"
    and "0 < d"
  shows "\<exists>k' a'. vTaskDelay d k = Some k' \<and> kernel_ok E T idle k' a' \<and> swi k'
    \<and> (\<exists>l \<in> sleeping. holder a' = (holder a)(StateItem (pxCurrentTCB k) := Some l))
    \<and> itemval a' = (itemval a)(StateItem (pxCurrentTCB k) := xTickCount k + d)
    \<and> xTickCount k' = xTickCount k \<and> tcb k' = tcb k \<and> pxCurrentTCB k' = pxCurrentTCB k \<and> uxSchedulerSuspended k' = 0"
proof -
  obtain k1 y k2 a' where r: "prvAddCurrentTaskToDelayedList d False (vTaskSuspendAll k) = Some k1" "xTaskResumeAll k1 = Some (y, k2)"
      "kernel_ok E T idle (yield k2) a'" "swi k2 = (swi k \<or> y)"
      "\<exists>l \<in> sleeping. holder a' = (holder a)(StateItem (pxCurrentTCB k) := Some l)"
      "itemval a' = (itemval a)(StateItem (pxCurrentTCB k) := xTickCount k + d)"
      "xTickCount k2 = xTickCount k" "tcb k2 = tcb k" "pxCurrentTCB k2 = pxCurrentTCB k" "uxSchedulerSuspended k2 = 0"
    using block_and_resume [OF assms] by blast
  have y: "(if \<not> y then yield k2 else k2) = yield k2" using r(4) by (simp add: yield_def)
  have "vTaskDelay d k = Some (yield k2)"
    using assms(2,5) r(1,2) y by (simp add: vTaskDelay_def Let_def word_gt_0)
  then show ?thesis using r(3,5-10)
    by (intro exI [of _ "yield k2"] exI [of _ a']) (simp add: yield_def)
qed

text \<open>A zero delay only yields.\<close>

lemma yield_ok: "kernel_ok E T idle k a \<Longrightarrow> uxSchedulerSuspended k = 0 \<Longrightarrow> kernel_ok E T idle (yield k) a"
  by (simp add: kernel_ok_def settled_def yield_def)

lemma delay_zero: "vTaskDelay 0 k = Some (yield k)"
  by (simp add: vTaskDelay_def)

section \<open>Suspending and resuming a task\<close>

lemma list_reset_none:
  assumes "kernel_base E T k a" and "p < configMAX_PRIORITIES"
  shows "taskRESET_READY_PRIORITY p k = k"
proof (cases "list_length (Ready p) k = 0")
  case True
  have l: "Ready p \<in> kernel_lists E" using assms(2) by simp
  have "elems a (Ready p) = []" using list_empty_elems [OF assms(1) l] True by (simp add: list_empty_def listLIST_IS_EMPTY_def list_length_def)
  then have "\<not> bit (uxTopReadyPriority k) (unat p)"
    using base_bits(1) [OF assms] elems_empty_holder [OF kernel_baseD(1) [OF assms(1)] l] by simp
  then have "portRESET_READY_PRIORITY p (uxTopReadyPriority k) = uxTopReadyPriority k"
    by (intro bit_word_eqI) (auto simp: bit_reset)
  then show ?thesis by (simp add: taskRESET_READY_PRIORITY_def reset_ready_def)
qed (simp add: taskRESET_READY_PRIORITY_def)

lemma remove_state_base:
  assumes "kernel_base E T k a" and "holder a (StateItem t) = Some l"
  shows "\<exists>s w. remove_state t (uxPriority (tcb k t)) k = Some (k\<lparr>lists := s, uxTopReadyPriority := w\<rparr>)
    \<and> kernel_base E T (k\<lparr>lists := s, uxTopReadyPriority := w\<rparr>) (a_remove (StateItem t) a)"
proof (cases "\<exists>p. l = Ready p")
  case True
  then obtain p where p: "l = Ready p" by blast
  then have pr: "uxPriority (tcb k t) = p" using base_home(3) [OF assms] by simp
  obtain n s w where r: "list_remove (StateItem t) k = Some (n, k\<lparr>lists := s\<rparr>)"
      "(if n = 0 then reset_ready p (k\<lparr>lists := s\<rparr>) else k\<lparr>lists := s\<rparr>) = k\<lparr>lists := s, uxTopReadyPriority := w\<rparr>"
      "kernel_base E T (k\<lparr>lists := s, uxTopReadyPriority := w\<rparr>) (a_remove (StateItem t) a)"
      "n = of_nat (length (elems (a_remove (StateItem t) a) (Ready p)))"
    using remove_ready_base [OF assms(1) assms(2) [unfolded p]] by blast
  have "Ready p \<in> kernel_lists E" using base_home(1) [OF assms] p by simp
  then have "list_length (Ready p) (k\<lparr>lists := s\<rparr>) = n"
    using repD(7) [OF kernel_baseD(1) [OF r(3)], of "Ready p"] r(4) by (simp add: list_length_def)
  then have "remove_state t p k = Some (k\<lparr>lists := s, uxTopReadyPriority := w\<rparr>)"
    using r(1,2) by (simp add: remove_state_def taskRESET_READY_PRIORITY_def cong: if_cong)
  then show ?thesis using r(3) pr by blast
next
  case False
  then have l: "\<forall>p. l \<noteq> Ready p" by blast
  obtain s n where s: "list_remove (StateItem t) k = Some (n, k\<lparr>lists := s\<rparr>)" "kernel_base E T (k\<lparr>lists := s\<rparr>) (a_remove (StateItem t) a)"
    using remove_base [OF assms l] by blast
  have "uxPriority (tcb k t) < configMAX_PRIORITIES"
    using tasks_okD(3) [OF kernel_baseD(2) [OF assms(1)]] base_home(2) [OF assms] by simp
  then have "remove_state t (uxPriority (tcb k t)) k = Some (k\<lparr>lists := s, uxTopReadyPriority := uxTopReadyPriority k\<rparr>)"
    using s(1) list_reset_none [OF s(2)] by (simp add: remove_state_def)
  moreover have "kernel_base E T (k\<lparr>lists := s, uxTopReadyPriority := uxTopReadyPriority k\<rparr>) (a_remove (StateItem t) a)" using s(2) by simp
  ultimately show ?thesis by blast
qed

lemma remove_event_base:
  assumes "kernel_base E T k a"
  shows "\<exists>s. remove_event t k = Some (k\<lparr>lists := s\<rparr>) \<and> kernel_base E T (k\<lparr>lists := s\<rparr>) (a_remove (EventItem t) a)"
proof (cases "holder a (EventItem t)")
  case None
  then have "a_remove (EventItem t) a = a" by (simp add: a_remove_def)
  then show ?thesis using assms container_holder [OF assms, of "EventItem t"] None
    by (intro exI [of _ "lists k"]) (simp add: remove_event_def)
next
  case (Some l)
  have "\<forall>p. l \<noteq> Ready p" using base_home(3) [OF assms Some] by auto
  from remove_base [OF assms Some this] show ?thesis
    using container_holder [OF assms, of "EventItem t"] Some by (auto simp: remove_event_def)
qed

lemma upd_notify_base [simp]:
  "kernel_base E T (upd_tcb t (\<lambda>b. b\<lparr>ucNotifyState := v\<rparr>) k) a = kernel_base E T k a"
proof -
  have hm: "home (upd_tcb t (\<lambda>b. b\<lparr>ucNotifyState := v\<rparr>) k) i l = home k i l" for i l
    by (cases i; cases l; simp add: upd_tcb_def)
  show ?thesis by (simp add: kernel_base_def tasks_ok_def bits_ok_def delayed_ok_def homes_ok_def hm) (auto simp: upd_tcb_def)
qed

text \<open>The part of \<open>vTaskSuspend\<close> before the decision to switch.\<close>

lemma suspend_lists:
  assumes "kernel_inv E T k a" and "holder a (StateItem t) = Some l"
  shows "\<exists>k1 k2 s w a'. remove_state t (uxPriority (tcb k t)) k = Some k1 \<and> remove_event t k1 = Some k2
    \<and> on_lists (vListInsertEnd SuspendedTaskList (StateItem t)) k2 = Some (k\<lparr>lists := s, uxTopReadyPriority := w\<rparr>)
    \<and> kernel_inv E T (k\<lparr>lists := s, uxTopReadyPriority := w\<rparr>) a'
    \<and> holder a' = (holder a)(StateItem t := Some SuspendedTaskList, EventItem t := None) \<and> itemval a' = itemval a"
proof -
  have base: "kernel_base E T k a" and times: "times_ok k a" using assms(1) by (simp_all add: kernel_inv_def)
  have t: "t \<in> T" using base_home(2) [OF base assms(2)] by simp
  define a1 where "a1 = a_remove (StateItem t) a"
  define a2 where "a2 = a_remove (EventItem t) a1"
  obtain s1 w where s1: "remove_state t (uxPriority (tcb k t)) k = Some (k\<lparr>lists := s1, uxTopReadyPriority := w\<rparr>)"
      "kernel_base E T (k\<lparr>lists := s1, uxTopReadyPriority := w\<rparr>) a1"
    using remove_state_base [OF base assms(2)] unfolding a1_def by blast
  define k1 where "k1 = k\<lparr>lists := s1, uxTopReadyPriority := w\<rparr>"
  obtain s2 where s2: "remove_event t k1 = Some (k1\<lparr>lists := s2\<rparr>)" "kernel_base E T (k1\<lparr>lists := s2\<rparr>) a2"
    using remove_event_base [OF s1(2)] unfolding a2_def k1_def by blast
  have h2: "holder a2 = (holder a)(StateItem t := None, EventItem t := None)" "itemval a2 = itemval a"
    by (simp_all add: a2_def a1_def)
  have ns: "SuspendedTaskList \<notin> sleeping" by (simp add: sleeping_def)
  define a3 where "a3 = a_insert_end SuspendedTaskList (StateItem t) a2"
  obtain s3 where s3: "on_lists (vListInsertEnd SuspendedTaskList (StateItem t)) (k1\<lparr>lists := s2\<rparr>) = Some (k1\<lparr>lists := s3\<rparr>)"
      "kernel_base E T (k1\<lparr>lists := s3\<rparr>) a3"
    using insert_end_base [OF s2(2), of "StateItem t" SuspendedTaskList] h2(1) ns t unfolding a3_def by auto
  have k3: "k1\<lparr>lists := s3\<rparr> = k\<lparr>lists := s3, uxTopReadyPriority := w\<rparr>" by (simp add: k1_def)
  have h3: "holder a3 = (holder a)(StateItem t := Some SuspendedTaskList, EventItem t := None)" "itemval a3 = itemval a"
    by (simp_all add: a3_def h2 fun_upd_twist)
  have "times_ok (k\<lparr>lists := s3, uxTopReadyPriority := w\<rparr>) a3"
    using times delayed_sleeping(1,2) [OF base] ns unfolding times_ok_def h3 by (auto split: if_splits)
  then have "kernel_inv E T (k\<lparr>lists := s3, uxTopReadyPriority := w\<rparr>) a3" using s3(2) by (simp add: kernel_inv_def k3)
  then show ?thesis using s1(1) s2(1) s3(1) h3 unfolding k3 k1_def [symmetric] by blast
qed

lemma suspend_ok:
  assumes "kernel_ok E T idle k a" and "t \<in> T" and "t \<noteq> idle" and "holder a (StateItem t) = Some l"
    and "t = pxCurrentTCB k \<Longrightarrow> uxSchedulerSuspended k = 0"
  shows "\<exists>k' a'. vTaskSuspend t k = Some k' \<and> kernel_ok E T idle k' a'
    \<and> holder a' = (holder a)(StateItem t := Some SuspendedTaskList, EventItem t := None) \<and> itemval a' = itemval a
    \<and> xTickCount k' = xTickCount k \<and> pxCurrentTCB k' = pxCurrentTCB k \<and> uxSchedulerSuspended k' = uxSchedulerSuspended k
    \<and> (\<forall>u. uxPriority (tcb k' u) = uxPriority (tcb k u)) \<and> swi k' = (swi k \<or> t = pxCurrentTCB k) \<and> xYieldPending k' = xYieldPending k"
proof -
  note ok = kernel_okD [OF assms(1)]
  obtain k1 k2 s w a' where r: "remove_state t (uxPriority (tcb k t)) k = Some k1" "remove_event t k1 = Some k2"
    "on_lists (vListInsertEnd SuspendedTaskList (StateItem t)) k2 = Some (k\<lparr>lists := s, uxTopReadyPriority := w\<rparr>)"
    "kernel_inv E T (k\<lparr>lists := s, uxTopReadyPriority := w\<rparr>) a'"
    "holder a' = (holder a)(StateItem t := Some SuspendedTaskList, EventItem t := None)" "itemval a' = itemval a"
    using suspend_lists [OF ok(1) assms(4)] by blast
  define k3 where "k3 = k\<lparr>lists := s, uxTopReadyPriority := w\<rparr>"
  define k4 where "k4 = (if ucNotifyState (tcb k3 t) = taskWAITING_NOTIFICATION
              then upd_tcb t (\<lambda>b. b\<lparr>ucNotifyState := taskNOT_WAITING_NOTIFICATION\<rparr>) k3 else k3)"
  have f4: "xTickCount k4 = xTickCount k" "pxCurrentTCB k4 = pxCurrentTCB k" "uxSchedulerSuspended k4 = uxSchedulerSuspended k"
    "\<forall>u. uxPriority (tcb k4 u) = uxPriority (tcb k u)" "xYieldPending k4 = xYieldPending k" "swi k4 = swi k" "xSchedulerRunning k4" "xPendedTicks k4 = xPendedTicks k"
    "uxCurrentNumberOfTasks k4 > 0" "pxDelayedTaskList k4 = pxDelayedTaskList k3" "pxOverflowDelayedTaskList k4 = pxOverflowDelayedTaskList k3"
    "xNextTaskUnblockTime k4 = xNextTaskUnblockTime k3" "xTickCount k3 = xTickCount k"
    using ok(7,9) by (simp_all add: k4_def k3_def upd_tcb_def)
  have inv4: "kernel_inv E T k4 a'" using r(4) f4 by (simp add: k3_def [symmetric] kernel_inv_def times_ok_def k4_def)
  then have base4: "kernel_base E T k4 a'" by (simp add: kernel_inv_def)
  obtain v where v: "prvResetNextTaskUnblockTime k4 = Some (k4\<lparr>xNextTaskUnblockTime := v\<rparr>)"
      "\<forall>i. holder a' i = Some (pxDelayedTaskList k4) \<longrightarrow> v \<le> itemval a' i"
    using reset_unblock_time [OF base4] by blast
  define k5 where "k5 = k4\<lparr>xNextTaskUnblockTime := v\<rparr>"
  have inv5: "kernel_inv E T k5 a'" using inv4 v(2) by (simp add: k5_def kernel_inv_def times_ok_def)
  define k' where "k' = (if t = pxCurrentTCB k then yield k5 else k5)"
  have t0: "t \<noteq> 0" using tasks_okD(2) [OF kernel_baseD(2) [OF ok(2)]] assms(2) by blast
  then have "TCB (prvGetTCBFromHandle t k) k = Some (tcb k t)" "prvGetTCBFromHandle t k = t" by (simp_all add: TCB_def prvGetTCBFromHandle_def)
  then have code: "vTaskSuspend t k = Some k'"
    using r(1-3) v(1) f4 assms(5) unfolding vTaskSuspend_def
    by (simp add: Let_def k3_def [symmetric] k4_def [symmetric] k5_def k'_def cong: if_cong)
  have h: "is_ready a' u \<longleftrightarrow> is_ready a u \<and> u \<noteq> t" "pending a' u \<longleftrightarrow> pending a u \<and> u \<noteq> t" for u
    by (auto simp: is_ready_def pending_def r(5))
  have "waits_ok a'" using ok(5) by (auto simp: waits_ok_def r(5))
  moreover have "kernel_inv E T k' a'" using inv5 by (simp add: k'_def yield_def)
  moreover have f': "xTickCount k' = xTickCount k" "pxCurrentTCB k' = pxCurrentTCB k" "uxSchedulerSuspended k' = uxSchedulerSuspended k"
    "\<forall>u. uxPriority (tcb k' u) = uxPriority (tcb k u)" "xSchedulerRunning k'" "xPendedTicks k' = xPendedTicks k"
    "uxCurrentNumberOfTasks k' > 0" "swi k' = (swi k \<or> t = pxCurrentTCB k)" "xYieldPending k' = xYieldPending k"
    using f4 by (simp_all add: k'_def k5_def yield_def)
  ultimately have "kernel_ok E T idle k' a'"
    using ok(4,6,8) h assms(3,5) by (auto simp: kernel_ok_def settled_def)
  then show ?thesis using code r(5,6) f'(1-4,8,9) by blast
qed

lemma resume_ok:
  assumes "kernel_ok E T idle k a" and "t \<in> T"
  defines "susp \<equiv> t \<noteq> pxCurrentTCB k \<and> holder a (StateItem t) = Some SuspendedTaskList \<and> holder a (EventItem t) = None"
  shows "\<exists>k' a'. vTaskResume t k = Some k' \<and> kernel_ok E T idle k' a' \<and> itemval a' = itemval a
    \<and> holder a' = (if susp then (holder a)(StateItem t := Some (Ready (uxPriority (tcb k t)))) else holder a)
    \<and> swi k' = (swi k \<or> susp \<and> uxPriority (tcb k (pxCurrentTCB k)) \<le> uxPriority (tcb k t))
    \<and> xTickCount k' = xTickCount k \<and> pxCurrentTCB k' = pxCurrentTCB k \<and> uxSchedulerSuspended k' = uxSchedulerSuspended k
    \<and> tcb k' = tcb k \<and> xYieldPending k' = xYieldPending k"
proof -
  note ok = kernel_okD [OF assms(1)]
  have t0: "t \<noteq> 0" using tasks_okD(2) [OF kernel_baseD(2) [OF ok(2)]] assms(2) by blast
  have q: "prvTaskIsTaskSuspended t k = Some (holder a (StateItem t) = Some SuspendedTaskList \<and> holder a (EventItem t) = None)"
    using t0 container_holder [OF ok(2)] by (auto simp: prvTaskIsTaskSuspended_def)
  show ?thesis
  proof (cases susp)
    case False
    then have "vTaskResume t k = Some k" using t0 q by (auto simp: vTaskResume_def susp_def)
    then show ?thesis using False assms(1) by (intro exI [of _ k] exI [of _ a]) simp
  next
    case True
    then have h: "t \<noteq> pxCurrentTCB k" "holder a (StateItem t) = Some SuspendedTaskList" "holder a (EventItem t) = None"
      by (simp_all add: susp_def)
    define a1 where "a1 = a_remove (StateItem t) a"
    obtain s1 n where s1: "list_remove (StateItem t) k = Some (n, k\<lparr>lists := s1\<rparr>)" "kernel_base E T (k\<lparr>lists := s1\<rparr>) a1"
      using remove_base [OF ok(2) h(2)] unfolding a1_def by blast
    have "holder a1 (StateItem t) = None" by (simp add: a1_def)
    from add_ready_base [OF s1(2) assms(2) this] obtain s2 w where s2: "prvAddTaskToReadyList t (k\<lparr>lists := s1\<rparr>) = Some (k\<lparr>lists := s2, uxTopReadyPriority := w\<rparr>)"
      "kernel_base E T (k\<lparr>lists := s2, uxTopReadyPriority := w\<rparr>) (a_insert_end (Ready (uxPriority (tcb k t))) (StateItem t) a1)"
      by auto
    define a2 where "a2 = a_insert_end (Ready (uxPriority (tcb k t))) (StateItem t) a1"
    define k2 where "k2 = k\<lparr>lists := s2, uxTopReadyPriority := w\<rparr>"
    define b where "b \<longleftrightarrow> uxPriority (tcb k t) \<ge> uxPriority (tcb k (pxCurrentTCB k))"
    define k' where "k' = (if b then yield k2 else k2)"
    have h2: "holder a2 = (holder a)(StateItem t := Some (Ready (uxPriority (tcb k t))))" "itemval a2 = itemval a"
      by (simp_all add: a2_def a1_def)
    have "times_ok k2 a2"
      using ok(3) sleepingD(2) [OF delayed_sleeping(1) [OF ok(2)]] sleepingD(2) [OF delayed_sleeping(2) [OF ok(2)]]
      unfolding times_ok_def h2 by (simp add: k2_def) metis
    then have inv2: "kernel_inv E T k2 a2" using s2(2) by (simp add: kernel_inv_def k2_def a2_def)
    have "TCB (pxCurrentTCB k2) k2 = Some (tcb k (pxCurrentTCB k))"
      using TCB_task [OF kernel_baseD(2) [OF s2(2)] tasks_okD(1) [OF kernel_baseD(2) [OF s2(2)]]] by (simp add: k2_def)
    moreover have "tcb k2 = tcb k" by (simp add: k2_def)
    ultimately have code: "vTaskResume t k = Some k'"
      using t0 q h s1(1) s2(1) by (simp add: vTaskResume_def k2_def [symmetric] k'_def b_def)
    have r: "is_ready a u \<Longrightarrow> is_ready a2 u" "pending a2 u \<longleftrightarrow> pending a u" for u
      by (auto simp: is_ready_def pending_def h2(1))
    have "waits_ok a2" using ok(5) h(3) unfolding waits_ok_def h2(1) by auto
    moreover have "kernel_inv E T k' a2" using inv2 by (simp add: k'_def yield_def)
    moreover have f': "xTickCount k' = xTickCount k" "pxCurrentTCB k' = pxCurrentTCB k" "uxSchedulerSuspended k' = uxSchedulerSuspended k"
      "tcb k' = tcb k" "xSchedulerRunning k'" "xPendedTicks k' = xPendedTicks k" "uxCurrentNumberOfTasks k' > 0" "swi k' = (swi k \<or> b)" "xYieldPending k' = xYieldPending k"
      using ok(7,9) by (simp_all add: k'_def k2_def yield_def)
    ultimately have "kernel_ok E T idle k' a2"
      using ok(4,6,8) r by (auto simp: kernel_ok_def settled_def)
    then show ?thesis using code h2 f' True by (intro exI [of _ k'] exI [of _ a2]) (simp add: b_def)
  qed
qed

end
