(* ===== verification/KernelPrio.thy ===== *)
theory KernelPrio
  imports KernelOps
begin

text \<open>
  Priorities: setting one, lending one to the holder of a mutex and taking it back, and the creation of
  tasks.
\<close>

section \<open>Changing a priority\<close>

text \<open>The priority of a task that is on no ready list may change.\<close>

lemma base_tcb:
  assumes "kernel_base E T k a" and "\<not> is_ready a t" and "uxPriority (f (tcb k t)) < configMAX_PRIORITIES"
  shows "kernel_base E T (upd_tcb t f k) a"
proof -
  have hm: "home (upd_tcb t f k) i l" if "holder a i = Some l" "home k i l" for i l
    using that assms(2) by (cases i; cases l) (auto simp: upd_tcb_def is_ready_def)
  show ?thesis using assms hm by (auto simp: kernel_base_def tasks_ok_def bits_ok_def delayed_ok_def homes_ok_def upd_tcb_def)
qed

lemma base_tcb_same:
  assumes "kernel_base E T k a" and "\<And>b. uxPriority (f b) = uxPriority b"
  shows "kernel_base E T (upd_tcb t f k) a"
proof -
  have hm: "home (upd_tcb t f k) i l = home k i l" for i l
    by (cases i; cases l) (auto simp: upd_tcb_def assms(2))
  show ?thesis using assms hm by (auto simp: kernel_base_def tasks_ok_def bits_ok_def delayed_ok_def homes_ok_def upd_tcb_def)
qed

text \<open>List operations do not read the control blocks.\<close>

lemma list_remove_tcb: "list_remove i (upd_tcb t f k) = map_option (\<lambda>(n, k). (n, upd_tcb t f k)) (list_remove i k)"
  by (cases "uxListRemove i (lists k)") (auto simp: list_remove_def upd_tcb_def)

lemma set_value_tcb: "set_value i v (upd_tcb t f k) = upd_tcb t f (set_value i v k)"
  by (simp add: set_value_def upd_tcb_def)

lemma upd_tcb_upd_tcb: "upd_tcb t g (upd_tcb t f k) = upd_tcb t (\<lambda>b. g (f b)) k"
  by (simp add: upd_tcb_def)

lemma upd_tcb_fields [simp]:
  "tcb (upd_tcb t f k) = (tcb k)(t := f (tcb k t))" "lists (upd_tcb t f k) = lists k" "pxCurrentTCB (upd_tcb t f k) = pxCurrentTCB k"
  "uxSchedulerSuspended (upd_tcb t f k) = uxSchedulerSuspended k" "swi (upd_tcb t f k) = swi k" "xTickCount (upd_tcb t f k) = xTickCount k"
  "xNextTaskUnblockTime (upd_tcb t f k) = xNextTaskUnblockTime k" "pxDelayedTaskList (upd_tcb t f k) = pxDelayedTaskList k"
  "pxOverflowDelayedTaskList (upd_tcb t f k) = pxOverflowDelayedTaskList k" "uxTopReadyPriority (upd_tcb t f k) = uxTopReadyPriority k"
  "xPendedTicks (upd_tcb t f k) = xPendedTicks k" "xSchedulerRunning (upd_tcb t f k) = xSchedulerRunning k"
  "uxCurrentNumberOfTasks (upd_tcb t f k) = uxCurrentNumberOfTasks k" "xYieldPending (upd_tcb t f k) = xYieldPending k"
  by (simp_all add: upd_tcb_def)

text \<open>
  Every change of priority ends the same way: if the task is on the ready list of its old priority, it
  moves to the list of the new one, and the bit of the old one is reset when it was alone there.
\<close>

definition requeue :: "task \<Rightarrow> u32 \<Rightarrow> kernel \<Rightarrow> kernel option" where
  "requeue t old k = (if container (StateItem t) k = Some (Ready old)
     then do {
       (n, k) \<leftarrow> list_remove (StateItem t) k;
       prvAddTaskToReadyList t (if n = 0 then reset_ready old k else k)
     }
     else Some k)"

lemma requeue_base:
  assumes "kernel_base E T k a" and "t \<in> T" and "uxPriority (f (tcb k t)) < configMAX_PRIORITIES" and "old = uxPriority (tcb k t)"
  shows "\<exists>s w a'. requeue t old (upd_tcb t f k) = Some (upd_tcb t f (k\<lparr>lists := s, uxTopReadyPriority := w\<rparr>))
    \<and> kernel_base E T (upd_tcb t f (k\<lparr>lists := s, uxTopReadyPriority := w\<rparr>)) a' \<and> itemval a' = itemval a
    \<and> holder a' = (if is_ready a t then (holder a)(StateItem t := Some (Ready (uxPriority (f (tcb k t))))) else holder a)"
proof (cases "is_ready a t")
  case True
  have h: "holder a (StateItem t) = Some (Ready old)" using ready_holder [OF assms(1) True] assms(4) by simp
  have c: "container (StateItem t) (upd_tcb t f k) = Some (Ready old)"
    using container_holder [OF assms(1)] h by (simp add: container_def)
  define a1 where "a1 = a_remove (StateItem t) a"
  obtain n s w where r: "list_remove (StateItem t) k = Some (n, k\<lparr>lists := s\<rparr>)"
      "(if n = 0 then reset_ready old (k\<lparr>lists := s\<rparr>) else k\<lparr>lists := s\<rparr>) = k\<lparr>lists := s, uxTopReadyPriority := w\<rparr>"
      "kernel_base E T (k\<lparr>lists := s, uxTopReadyPriority := w\<rparr>) a1"
    using remove_ready_base [OF assms(1) h] unfolding a1_def by blast
  define k1 where "k1 = k\<lparr>lists := s, uxTopReadyPriority := w\<rparr>"
  have "reset_ready old (upd_tcb t f (k\<lparr>lists := s\<rparr>)) = upd_tcb t f (reset_ready old (k\<lparr>lists := s\<rparr>))"
    by (simp add: reset_ready_def upd_tcb_def)
  then have e: "(if n = 0 then reset_ready old (upd_tcb t f (k\<lparr>lists := s\<rparr>)) else upd_tcb t f (k\<lparr>lists := s\<rparr>)) = upd_tcb t f k1"
    using r(2) unfolding k1_def by (metis (full_types))
  have nr: "\<not> is_ready a1 t" by (simp add: is_ready_def a1_def)
  have b1: "kernel_base E T (upd_tcb t f k1) a1"
    by (rule base_tcb [OF r(3) [folded k1_def] nr]) (use assms(3) in \<open>simp add: k1_def\<close>)
  have p1: "uxPriority (tcb (upd_tcb t f k1) t) = uxPriority (f (tcb k t))" by (simp add: k1_def)
  have "holder a1 (StateItem t) = None" by (simp add: a1_def)
  from add_ready_base [OF b1 assms(2) this] obtain s2 w2 where s2: "prvAddTaskToReadyList t (upd_tcb t f k1)
        = Some ((upd_tcb t f k1)\<lparr>lists := s2, uxTopReadyPriority := w2\<rparr>)"
      "kernel_base E T ((upd_tcb t f k1)\<lparr>lists := s2, uxTopReadyPriority := w2\<rparr>)
        (a_insert_end (Ready (uxPriority (f (tcb k t)))) (StateItem t) a1)"
    unfolding p1 by blast
  have e2: "(upd_tcb t f k1)\<lparr>lists := s2, uxTopReadyPriority := w2\<rparr> = upd_tcb t f (k\<lparr>lists := s2, uxTopReadyPriority := w2\<rparr>)"
    by (simp add: k1_def upd_tcb_def)
  have "requeue t old (upd_tcb t f k) = Some (upd_tcb t f (k\<lparr>lists := s2, uxTopReadyPriority := w2\<rparr>))"
    using c r(1) e s2(1) unfolding requeue_def e2 by (simp add: list_remove_tcb)
  moreover have "holder (a_insert_end (Ready (uxPriority (f (tcb k t)))) (StateItem t) a1)
      = (holder a)(StateItem t := Some (Ready (uxPriority (f (tcb k t)))))" by (simp add: a1_def)
  moreover have "itemval (a_insert_end (Ready (uxPriority (f (tcb k t)))) (StateItem t) a1) = itemval a" by (simp add: a1_def)
  ultimately show ?thesis using True s2(2) unfolding e2
    by (intro exI [of _ s2] exI [of _ w2] exI [of _ "a_insert_end (Ready (uxPriority (f (tcb k t)))) (StateItem t) a1"]) simp
next
  case False
  then have "container (StateItem t) (upd_tcb t f k) \<noteq> Some (Ready old)"
    using container_holder [OF assms(1)] by (simp add: container_def is_ready_def)
  then have "requeue t old (upd_tcb t f k) = Some (upd_tcb t f (k\<lparr>lists := lists k, uxTopReadyPriority := uxTopReadyPriority k\<rparr>))"
    by (simp add: requeue_def)
  moreover have "kernel_base E T (upd_tcb t f (k\<lparr>lists := lists k, uxTopReadyPriority := uxTopReadyPriority k\<rparr>)) a"
    using base_tcb [where f = f, OF assms(1) False assms(3)] by simp
  ultimately show ?thesis using False
    by - (rule exI [of _ "lists k"], rule exI [of _ "uxTopReadyPriority k"], rule exI [of _ a], simp)
qed

text \<open>The event list item is on no delayed list, so its value may change at any time.\<close>

lemma set_event_base:
  assumes "kernel_base E T k a"
  shows "kernel_base E T (set_event_priority t p k)
    (if and (itemval a (EventItem t)) taskEVENT_LIST_ITEM_VALUE_IN_USE = 0 then a_set_value (EventItem t) (configMAX_PRIORITIES - p) a else a)"
proof -
  have "holder a (EventItem t) \<notin> Some ` sleeping" using sleeping_state_item [OF assms, of _ "EventItem t"] by auto
  then show ?thesis using set_value_base [OF assms] assms value_itemval [OF assms] by (simp add: set_event_priority_def)
qed

lemma set_event_fields [simp]:
  "tcb (set_event_priority t p k) = tcb k" "pxCurrentTCB (set_event_priority t p k) = pxCurrentTCB k"
  "xTickCount (set_event_priority t p k) = xTickCount k" "xNextTaskUnblockTime (set_event_priority t p k) = xNextTaskUnblockTime k"
  "pxDelayedTaskList (set_event_priority t p k) = pxDelayedTaskList k" "pxOverflowDelayedTaskList (set_event_priority t p k) = pxOverflowDelayedTaskList k"
  "uxSchedulerSuspended (set_event_priority t p k) = uxSchedulerSuspended k" "swi (set_event_priority t p k) = swi k"
  "xSchedulerRunning (set_event_priority t p k) = xSchedulerRunning k" "xPendedTicks (set_event_priority t p k) = xPendedTicks k"
  "uxCurrentNumberOfTasks (set_event_priority t p k) = uxCurrentNumberOfTasks k" "xYieldPending (set_event_priority t p k) = xYieldPending k"
  by (simp_all add: set_event_priority_def set_value_def)

lemma set_event_upd_tcb: "set_event_priority t p (upd_tcb u f k) = upd_tcb u f (set_event_priority t p k)"
  by (simp add: set_event_priority_def set_value_tcb value_of_def)

text \<open>Setting the event value and the priority, then requeueing, as one step on a good state.\<close>

lemma reprioritise:
  assumes "kernel_inv E T k a" and "t \<in> T" and "uxPriority (f (tcb k t)) < configMAX_PRIORITIES" and "old = uxPriority (tcb k t)"
  shows "\<exists>k' a'. requeue t old (set_event_priority t p (upd_tcb t f k)) = Some k' \<and> kernel_inv E T k' a'
    \<and> holder a' = (if is_ready a t then (holder a)(StateItem t := Some (Ready (uxPriority (f (tcb k t))))) else holder a)
    \<and> (\<forall>u. itemval a' (StateItem u) = itemval a (StateItem u))
    \<and> tcb k' = (tcb k)(t := f (tcb k t)) \<and> pxCurrentTCB k' = pxCurrentTCB k \<and> xTickCount k' = xTickCount k
    \<and> uxSchedulerSuspended k' = uxSchedulerSuspended k \<and> xPendedTicks k' = xPendedTicks k \<and> xYieldPending k' = xYieldPending k \<and> swi k' = swi k
    \<and> xSchedulerRunning k' = xSchedulerRunning k \<and> uxCurrentNumberOfTasks k' = uxCurrentNumberOfTasks k"
proof -
  have base: "kernel_base E T k a" and times: "times_ok k a" using assms(1) by (simp_all add: kernel_inv_def)
  define k1 where "k1 = set_event_priority t p k"
  define a1 where "a1 = (if and (itemval a (EventItem t)) taskEVENT_LIST_ITEM_VALUE_IN_USE = 0 then a_set_value (EventItem t) (configMAX_PRIORITIES - p) a else a)"
  have b1: "kernel_base E T k1 a1" unfolding k1_def a1_def by (rule set_event_base [OF base])
  have h1: "holder a1 = holder a" "itemval a1 (StateItem u) = itemval a (StateItem u)" for u by (simp_all add: a1_def)
  have r1: "is_ready a1 t \<longleftrightarrow> is_ready a t" by (simp add: is_ready_def h1)
  have p1: "uxPriority (f (tcb k1 t)) < configMAX_PRIORITIES" "old = uxPriority (tcb k1 t)" using assms(3,4) by (simp_all add: k1_def)
  obtain s w a' where r: "requeue t old (upd_tcb t f k1) = Some (upd_tcb t f (k1\<lparr>lists := s, uxTopReadyPriority := w\<rparr>))"
      "kernel_base E T (upd_tcb t f (k1\<lparr>lists := s, uxTopReadyPriority := w\<rparr>)) a'" "itemval a' = itemval a1"
      "holder a' = (if is_ready a t then (holder a)(StateItem t := Some (Ready (uxPriority (f (tcb k t))))) else holder a)"
    using requeue_base [where f = f, OF b1 assms(2) p1] unfolding r1 h1(1) by (auto simp: k1_def)
  define k' where "k' = upd_tcb t f (k1\<lparr>lists := s, uxTopReadyPriority := w\<rparr>)"
  have "i = StateItem (task_of i) \<and> holder a i = Some l" if "holder a' i = Some l" "l \<in> sleeping" for i l
  proof -
    have "holder a i = Some l" using that unfolding r(4) by (auto simp: sleeping_def split: if_splits)
    then show ?thesis using sleeping_state_item [OF base that(2)] by blast
  qed
  then have "times_ok k' a'"
    using times delayed_sleeping(1,2) [OF base] r(3) h1(2) unfolding times_ok_def
    by (simp add: k'_def k1_def) metis
  then have "kernel_inv E T k' a'" using r(2) by (simp add: kernel_inv_def k'_def)
  moreover have "requeue t old (set_event_priority t p (upd_tcb t f k)) = Some k'"
    unfolding set_event_upd_tcb k'_def k1_def [symmetric] by (rule r(1))
  moreover have "tcb k' = (tcb k)(t := f (tcb k t)) \<and> pxCurrentTCB k' = pxCurrentTCB k \<and> xTickCount k' = xTickCount k
    \<and> uxSchedulerSuspended k' = uxSchedulerSuspended k \<and> xPendedTicks k' = xPendedTicks k \<and> xYieldPending k' = xYieldPending k \<and> swi k' = swi k
    \<and> xSchedulerRunning k' = xSchedulerRunning k \<and> uxCurrentNumberOfTasks k' = uxCurrentNumberOfTasks k"
    by (simp add: k'_def k1_def)
  ultimately show ?thesis using r(3,4) h1(2) by (intro exI [of _ k'] exI [of _ a']) simp
qed

lemma reprioritise_ok:
  assumes "kernel_ok E T idle k a" and "t \<in> T" and "uxPriority (f (tcb k t)) < configMAX_PRIORITIES" and "old = uxPriority (tcb k t)"
  shows "\<exists>k' a'. requeue t old (set_event_priority t p (upd_tcb t f k)) = Some k' \<and> kernel_ok E T idle k' a'
    \<and> (is_ready a (pxCurrentTCB k) \<longrightarrow> kernel_ok E T idle (yield k') a')
    \<and> holder a' = (if is_ready a t then (holder a)(StateItem t := Some (Ready (uxPriority (f (tcb k t))))) else holder a)
    \<and> (\<forall>u. itemval a' (StateItem u) = itemval a (StateItem u))
    \<and> tcb k' = (tcb k)(t := f (tcb k t)) \<and> pxCurrentTCB k' = pxCurrentTCB k \<and> xTickCount k' = xTickCount k
    \<and> uxSchedulerSuspended k' = uxSchedulerSuspended k \<and> swi k' = swi k \<and> xYieldPending k' = xYieldPending k"
proof -
  note ok = kernel_okD [OF assms(1)]
  obtain k' a' where r: "requeue t old (set_event_priority t p (upd_tcb t f k)) = Some k'" "kernel_inv E T k' a'"
    "holder a' = (if is_ready a t then (holder a)(StateItem t := Some (Ready (uxPriority (f (tcb k t))))) else holder a)"
    "\<forall>u. itemval a' (StateItem u) = itemval a (StateItem u)"
    "tcb k' = (tcb k)(t := f (tcb k t))" "pxCurrentTCB k' = pxCurrentTCB k" "xTickCount k' = xTickCount k"
    "uxSchedulerSuspended k' = uxSchedulerSuspended k" "xPendedTicks k' = xPendedTicks k" "xYieldPending k' = xYieldPending k" "swi k' = swi k"
    "xSchedulerRunning k' = xSchedulerRunning k" "uxCurrentNumberOfTasks k' = uxCurrentNumberOfTasks k"
    using reprioritise [where f = f, OF ok(1) assms(2-4), of p] by blast
  have rd: "is_ready a' u \<longleftrightarrow> is_ready a u" for u by (auto simp: is_ready_def r(3))
  have pd: "pending a' u \<longleftrightarrow> pending a u" for u by (auto simp: pending_def r(3))
  have ev: "holder a' (EventItem u) = holder a (EventItem u)" for u by (simp add: r(3))
  have st: "holder a' (StateItem u) = Some m" if "holder a (StateItem u) = Some m" "m \<in> insert SuspendedTaskList sleeping" for u m
    using that by (auto simp: r(3) is_ready_def sleeping_def)
  have "waits_ok a'" using ok(5) ev st unfolding waits_ok_def by metis
  then have "kernel_ok E T idle k' a'" "is_ready a (pxCurrentTCB k) \<longrightarrow> kernel_ok E T idle (yield k') a'"
    using ok(4,6-9) r(2,6,8-13) rd pd by (auto simp: kernel_ok_def settled_def yield_def)
  then show ?thesis using r by blast
qed

lemma TCB_current: "kernel_base E T k a \<Longrightarrow> TCB (pxCurrentTCB k) k = Some (tcb k (pxCurrentTCB k))"
  using TCB_task [OF kernel_baseD(2) tasks_okD(1) [OF kernel_baseD(2)]] .

text \<open>What \<open>vTaskPrioritySet\<close> makes of the two priorities: an inherited one is kept.\<close>

definition set_priority :: "u32 \<Rightarrow> TCB_t \<Rightarrow> TCB_t" where
  "set_priority p b = (if uxBasePriority b = uxPriority b then b\<lparr>uxPriority := p, uxBasePriority := p\<rparr> else b\<lparr>uxBasePriority := p\<rparr>)"

lemma priority_set_ok:
  assumes "kernel_ok E T idle k a" and "t \<in> T" and "p < configMAX_PRIORITIES" and "is_ready a (pxCurrentTCB k)"
  defines "b \<equiv> set_priority p (tcb k t)"
  shows "\<exists>k' a'. vTaskPrioritySet t p k = Some k' \<and> kernel_ok E T idle k' a'
    \<and> tcb k' = (tcb k)(t := b)
    \<and> holder a' = (if is_ready a t then (holder a)(StateItem t := Some (Ready (uxPriority b))) else holder a)
    \<and> (\<forall>u. itemval a' (StateItem u) = itemval a (StateItem u))
    \<and> pxCurrentTCB k' = pxCurrentTCB k \<and> xTickCount k' = xTickCount k \<and> uxSchedulerSuspended k' = uxSchedulerSuspended k
    \<and> xYieldPending k' = xYieldPending k
    \<and> swi k' = (swi k \<or> (if uxBasePriority (tcb k t) < p then t \<noteq> pxCurrentTCB k \<and> uxPriority (tcb k (pxCurrentTCB k)) \<le> p
          else p < uxBasePriority (tcb k t) \<and> t = pxCurrentTCB k))"
proof -
  note ok = kernel_okD [OF assms(1)]
  have t0: "t \<noteq> 0" using tasks_okD(2) [OF kernel_baseD(2) [OF ok(2)]] assms(2) by blast
  have tc: "TCB t k = Some (tcb k t)" by (rule TCB_task [OF kernel_baseD(2) [OF ok(2)] assms(2)])
  have pm: "(if p \<ge> configMAX_PRIORITIES then configMAX_PRIORITIES - 1 else p) = p" using assms(3) by (auto dest: leD)
  show ?thesis
  proof (cases "uxBasePriority (tcb k t) = p")
    case True
    have code: "vTaskPrioritySet t p k = Some k"
      using assms(3) tc t0 True by (simp add: vTaskPrioritySet_def Let_def pm prvGetTCBFromHandle_def)
    have "b = tcb k t" using True by (simp add: b_def set_priority_def)
    then have "(tcb k)(t := b) = tcb k" by simp
    moreover have "(if is_ready a t then (holder a)(StateItem t := Some (Ready (uxPriority b))) else holder a) = holder a"
      using ready_holder [OF ok(2), of t] \<open>b = tcb k t\<close> by auto
    ultimately show ?thesis using code assms(1,4) True by (intro exI [of _ k] exI [of _ a]) simp
  next
    case False
    let ?f = "\<lambda>b. (if uxBasePriority b = uxPriority b then b\<lparr>uxPriority := p\<rparr> else b)\<lparr>uxBasePriority := p\<rparr>"
    have f: "?f (tcb k t) = b" by (simp add: b_def set_priority_def)
    have fp: "uxPriority (?f (tcb k t)) < configMAX_PRIORITIES"
      using assms(3) tasks_okD(3) [OF kernel_baseD(2) [OF ok(2)] assms(2)] by simp
    define old where "old = uxPriority (tcb k t)"
    obtain k1 a' where r: "requeue t old (set_event_priority t p (upd_tcb t ?f k)) = Some k1" "kernel_ok E T idle k1 a'"
      "kernel_ok E T idle (yield k1) a'"
      "holder a' = (if is_ready a t then (holder a)(StateItem t := Some (Ready (uxPriority b))) else holder a)"
      "\<forall>u. itemval a' (StateItem u) = itemval a (StateItem u)"
      "tcb k1 = (tcb k)(t := b)" "pxCurrentTCB k1 = pxCurrentTCB k" "xTickCount k1 = xTickCount k" "uxSchedulerSuspended k1 = uxSchedulerSuspended k"
      "swi k1 = swi k" "xYieldPending k1 = xYieldPending k"
      using reprioritise_ok [where f = ?f, OF assms(1,2) fp old_def, of p] unfolding f using assms(4) by blast
    define y where "y \<longleftrightarrow> (if p > uxBasePriority (tcb k t)
             then (if t \<noteq> pxCurrentTCB k then p \<ge> uxPriority (tcb k (pxCurrentTCB k)) else False)
             else if t = pxCurrentTCB k then True else False)"
    have u: "upd_tcb t (\<lambda>b. b\<lparr>uxBasePriority := p\<rparr>)
        (if uxBasePriority (tcb k t) = uxPriority (tcb k t) then upd_tcb t (\<lambda>b. b\<lparr>uxPriority := p\<rparr>) k else k) = upd_tcb t ?f k"
      by (simp add: upd_tcb_def)
    have rq: "requeue t old K = (if container (StateItem t) K = Some (Ready old)
             then do {
               (n, k) \<leftarrow> list_remove (StateItem t) K;
               let k = (if n = 0 then reset_ready old k else k);
               prvAddTaskToReadyList t k
             }
             else Some K)" for K by (simp add: requeue_def Let_def)
    have "vTaskPrioritySet t p k = Some (if y then yield k1 else k1)"
    proof -
      have "prvGetTCBFromHandle t k = t" using t0 by (simp add: prvGetTCBFromHandle_def)
      then have "vTaskPrioritySet t p k = (requeue t old (set_event_priority t p (upd_tcb t ?f k)) \<bind> (\<lambda>k. Some (if y then yield k else k)))"
        using assms(3) False unfolding vTaskPrioritySet_def Let_def pm
        by (simp only: tc TCB_current [OF ok(2)] Option.bind.bind_lunit if_True not_False_eq_True simp_thms configASSERT_simps
            old_def [symmetric] u [unfolded old_def [symmetric]] y_def [symmetric] rq [unfolded Let_def])
      then show ?thesis using r(1) by simp
    qed
    moreover have "kernel_ok E T idle (if y then yield k1 else k1) a'" using r(2,3) by simp
    moreover have "y \<longleftrightarrow> (if uxBasePriority (tcb k t) < p then t \<noteq> pxCurrentTCB k \<and> uxPriority (tcb k (pxCurrentTCB k)) \<le> p
          else p < uxBasePriority (tcb k t) \<and> t = pxCurrentTCB k)"
      using False by (auto simp: y_def)
    ultimately show ?thesis using r(4-11)
      by (intro exI [of _ "if y then yield k1 else k1"] exI [of _ a']) (auto simp: yield_def)
  qed
qed

section \<open>Lending a priority\<close>

text \<open>
  \<open>xTaskPriorityInherit\<close> raises the holder of a mutex to the priority of the task that waits for it, on
  its ready list if it is there; it never lowers it.
\<close>

lemma inherit_ok:
  assumes "kernel_ok E T idle k a" and "t \<in> T"
  defines "p \<equiv> max (uxPriority (tcb k t)) (uxPriority (tcb k (pxCurrentTCB k)))"
  shows "\<exists>k' a' r. xTaskPriorityInherit t k = Some (r, k') \<and> kernel_ok E T idle k' a'
    \<and> tcb k' = (tcb k)(t := (tcb k t)\<lparr>uxPriority := p\<rparr>)
    \<and> (r \<longleftrightarrow> uxBasePriority (tcb k t) < uxPriority (tcb k (pxCurrentTCB k)) \<or> uxPriority (tcb k t) < uxPriority (tcb k (pxCurrentTCB k)))
    \<and> holder a' = (if is_ready a t then (holder a)(StateItem t := Some (Ready p)) else holder a)
    \<and> (\<forall>u. itemval a' (StateItem u) = itemval a (StateItem u))
    \<and> pxCurrentTCB k' = pxCurrentTCB k \<and> xTickCount k' = xTickCount k \<and> uxSchedulerSuspended k' = uxSchedulerSuspended k \<and> swi k' = swi k"
proof -
  note ok = kernel_okD [OF assms(1)]
  have t0: "t \<noteq> 0" using tasks_okD(2) [OF kernel_baseD(2) [OF ok(2)]] assms(2) by blast
  have tc: "TCB t k = Some (tcb k t)" by (rule TCB_task [OF kernel_baseD(2) [OF ok(2)] assms(2)])
  note cc = TCB_current [OF ok(2)]
  define c where "c = uxPriority (tcb k (pxCurrentTCB k))"
  show ?thesis
  proof (cases "uxPriority (tcb k t) < c")
    case False
    then have p: "p = uxPriority (tcb k t)" by (simp add: p_def c_def [symmetric] max_def)
    have "xTaskPriorityInherit t k = Some (uxBasePriority (tcb k t) < c, k)"
      using False t0 tc cc by (simp add: xTaskPriorityInherit_def c_def)
    moreover have "(if is_ready a t then (holder a)(StateItem t := Some (Ready p)) else holder a) = holder a"
      using ready_holder [OF ok(2), of t] p by auto
    moreover have "(tcb k)(t := (tcb k t)\<lparr>uxPriority := p\<rparr>) = tcb k" by (simp add: p)
    ultimately show ?thesis using False assms(1)
      by (intro exI [of _ k] exI [of _ a] exI [of _ "uxBasePriority (tcb k t) < c"]) (simp add: c_def)
  next
    case True
    then have p: "p = c" by (auto simp: p_def c_def [symmetric] max_def dest: less_imp_le)
    let ?f = "\<lambda>b. b\<lparr>uxPriority := c\<rparr>"
    have fp: "uxPriority (?f (tcb k t)) < configMAX_PRIORITIES"
      using tasks_okD(3) [OF kernel_baseD(2) [OF ok(2)] tasks_okD(1) [OF kernel_baseD(2) [OF ok(2)]]] by (simp add: c_def)
    define old where "old = uxPriority (tcb k t)"
    obtain k1 a' where r: "requeue t old (set_event_priority t c (upd_tcb t ?f k)) = Some k1" "kernel_ok E T idle k1 a'"
      "holder a' = (if is_ready a t then (holder a)(StateItem t := Some (Ready (uxPriority (?f (tcb k t))))) else holder a)"
      "\<forall>u. itemval a' (StateItem u) = itemval a (StateItem u)"
      "tcb k1 = (tcb k)(t := ?f (tcb k t))" "pxCurrentTCB k1 = pxCurrentTCB k" "xTickCount k1 = xTickCount k"
      "uxSchedulerSuspended k1 = uxSchedulerSuspended k" "swi k1 = swi k"
      using reprioritise_ok [where f = ?f, OF assms(1,2) fp old_def, of c] by blast
    define k2 where "k2 = set_event_priority t c k"
    have upd: "set_event_priority t c (upd_tcb t ?f k) = upd_tcb t ?f k2" by (simp add: k2_def set_event_upd_tcb)
    have rs: "reset_ready q (upd_tcb t ?f K) = upd_tcb t ?f (reset_ready q K)" for q K by (simp add: reset_ready_def upd_tcb_def)
    have ct: "container (StateItem t) (upd_tcb t ?f k2) = container (StateItem t) k2" by (simp add: container_def)
    have rq: "(if container (StateItem t) k2 = Some (Ready old)
                then do {
                  (n, k) \<leftarrow> list_remove (StateItem t) k2;
                  let k = (if n = 0 then reset_ready old k else k);
                  let k = upd_tcb t ?f k;
                  prvAddTaskToReadyList t k
                }
                else Some (upd_tcb t ?f k2)) = requeue t old (upd_tcb t ?f k2)"
      unfolding requeue_def ct list_remove_tcb Let_def
      by (cases "list_remove (StateItem t) k2") (auto simp: rs)
    have "xTaskPriorityInherit t k = Some (True, k1)"
      using r(1) True t0 tc cc rq unfolding upd xTaskPriorityInherit_def
      by (simp add: c_def [symmetric] old_def [symmetric] k2_def [symmetric] cong: if_cong)
    then show ?thesis using r(2-9) p True
      by (intro exI [of _ k1] exI [of _ a'] exI [of _ True]) (simp add: c_def [symmetric])
  qed
qed

text \<open>
  \<open>xTaskPriorityDisinherit\<close>: the running task gives a mutex back; with its last one it returns to its base
  priority.
\<close>

definition give_back :: "TCB_t \<Rightarrow> TCB_t" where
  "give_back b = (let b = b\<lparr>uxMutexesHeld := uxMutexesHeld b - 1\<rparr>
     in if uxMutexesHeld b = 0 then b\<lparr>uxPriority := uxBasePriority b\<rparr> else b)"

lemma disinherit_ok:
  assumes "kernel_ok E T idle k a" and "t = pxCurrentTCB k" and "is_ready a t" and "uxMutexesHeld (tcb k t) \<noteq> 0"
    and "uxBasePriority (tcb k t) < configMAX_PRIORITIES"
  defines "b \<equiv> give_back (tcb k t)"
  shows "\<exists>k' a' r. xTaskPriorityDisinherit t k = Some (r, k') \<and> kernel_ok E T idle k' a' \<and> tcb k' = (tcb k)(t := b)
    \<and> (r \<longleftrightarrow> uxPriority b \<noteq> uxPriority (tcb k t))
    \<and> holder a' = (holder a)(StateItem t := Some (Ready (uxPriority b)))
    \<and> (\<forall>u. itemval a' (StateItem u) = itemval a (StateItem u))
    \<and> pxCurrentTCB k' = pxCurrentTCB k \<and> xTickCount k' = xTickCount k \<and> uxSchedulerSuspended k' = uxSchedulerSuspended k \<and> swi k' = swi k"
proof -
  note ok = kernel_okD [OF assms(1)]
  have t: "t \<in> T" by (rule ready_task [OF ok(2) assms(3)])
  have t0: "t \<noteq> 0" using tasks_okD(2) [OF kernel_baseD(2) [OF ok(2)]] t by blast
  define f :: "TCB_t \<Rightarrow> TCB_t" where "f = (\<lambda>b. b\<lparr>uxMutexesHeld := uxMutexesHeld b - 1\<rparr>)"
  define k1 where "k1 = upd_tcb t f k"
  have b1: "kernel_base E T k1 a" unfolding k1_def by (rule base_tcb_same [OF ok(2)]) (simp add: f_def)
  have f1: "uxPriority (tcb k1 t) = uxPriority (tcb k t)" "uxBasePriority (tcb k1 t) = uxBasePriority (tcb k t)"
    "uxMutexesHeld (tcb k1 t) = uxMutexesHeld (tcb k t) - 1" "tcb k1 t = f (tcb k t)" by (simp_all add: k1_def f_def)
  define old where "old = uxPriority (tcb k t)"
  have h: "holder a (StateItem t) = Some (Ready old)" using ready_holder [OF ok(2) assms(3)] by (simp add: old_def)
  have okk: "kernel_ok E T idle k' a'" if "kernel_inv E T k' a'" "holder a' = (holder a)(StateItem t := Some (Ready p))"
    "pxCurrentTCB k' = t" "uxSchedulerSuspended k' = uxSchedulerSuspended k" "xPendedTicks k' = xPendedTicks k" "xSchedulerRunning k' = xSchedulerRunning k"
    "uxCurrentNumberOfTasks k' = uxCurrentNumberOfTasks k" for k' a' p
  proof -
    have "is_ready a' u \<longleftrightarrow> is_ready a u" for u using h by (auto simp: is_ready_def that(2))
    moreover have "pending a' u \<longleftrightarrow> pending a u" for u by (simp add: pending_def that(2))
    moreover have "waits_ok a'" using ok(5) h by (auto simp: waits_ok_def that(2) sleeping_def)
    ultimately show ?thesis using that assms(2,3) ok(4,6,7) by (simp add: kernel_ok_def settled_def)
  qed
  show ?thesis
  proof (cases "uxPriority (tcb k t) \<noteq> uxBasePriority (tcb k t) \<and> uxMutexesHeld (tcb k t) - 1 = 0")
    case False
    then have b: "b = tcb k1 t" by (auto simp: b_def give_back_def Let_def f1(4) f_def)
    have e: "(tcb k)(t := b) = tcb k1" unfolding b by (simp add: k1_def)
    have "uxPriority b = old" using b f1(1) by (simp add: old_def)
    then have h': "(holder a)(StateItem t := Some (Ready (uxPriority b))) = holder a" using h by auto
    have "xTaskPriorityDisinherit t k = Some (False, k1)"
      using False t0 assms(2,4) f1 unfolding xTaskPriorityDisinherit_def Let_def f_def [symmetric] k1_def [symmetric] by auto
    moreover have "kernel_inv E T k1 a" using b1 ok(3) by (simp add: kernel_inv_def k1_def times_ok_def)
    then have "kernel_ok E T idle k1 a" by (rule okk [where p = old]) (use h assms(2) in \<open>auto simp: k1_def\<close>)
    ultimately show ?thesis using b f1(1) unfolding e h' by (intro exI [of _ k1] exI [of _ a] exI [of _ False]) (simp add: k1_def)
  next
    case True
    define g :: "TCB_t \<Rightarrow> TCB_t" where "g = (\<lambda>b. b\<lparr>uxPriority := uxBasePriority b\<rparr>)"
    have b: "b = g (f (tcb k t))" using True by (simp add: b_def give_back_def Let_def f_def g_def)
    have pb: "uxPriority b = uxBasePriority (tcb k t)" by (simp add: b g_def f_def)
    define a1 where "a1 = a_remove (StateItem t) a"
    have h1: "holder a (StateItem t) = Some (Ready old)" by (rule h)
    obtain n s w where r: "list_remove (StateItem t) k1 = Some (n, k1\<lparr>lists := s\<rparr>)"
        "(if n = 0 then reset_ready old (k1\<lparr>lists := s\<rparr>) else k1\<lparr>lists := s\<rparr>) = k1\<lparr>lists := s, uxTopReadyPriority := w\<rparr>"
        "kernel_base E T (k1\<lparr>lists := s, uxTopReadyPriority := w\<rparr>) a1"
      using remove_ready_base [OF b1 h1] unfolding a1_def by blast
    define k2 where "k2 = k1\<lparr>lists := s, uxTopReadyPriority := w\<rparr>"
    define k3 where "k3 = upd_tcb t g k2"
    have b3: "kernel_base E T k3 a1" unfolding k3_def
      by (rule base_tcb [OF r(3) [folded k2_def]]) (use assms(5) in \<open>simp_all add: is_ready_def a1_def k2_def g_def f1 f_def\<close>)
    define k4 where "k4 = set_value (EventItem t) (configMAX_PRIORITIES - uxPriority (tcb k3 t)) k3"
    define a4 where "a4 = a_set_value (EventItem t) (configMAX_PRIORITIES - uxPriority (tcb k3 t)) a1"
    have "holder a1 (EventItem t) \<notin> Some ` sleeping" using sleeping_state_item [OF b3, of _ "EventItem t"] by auto
    then have b4: "kernel_base E T k4 a4" unfolding k4_def a4_def by (rule set_value_base [OF b3])
    have n4: "holder a4 (StateItem t) = None" by (simp add: a4_def a1_def)
    have p4: "uxPriority (tcb k4 t) = uxPriority b" by (simp add: k4_def set_value_def k3_def k2_def g_def f1 pb f_def)
    obtain s5 w5 where r5: "prvAddTaskToReadyList t k4 = Some (k4\<lparr>lists := s5, uxTopReadyPriority := w5\<rparr>)"
        "kernel_base E T (k4\<lparr>lists := s5, uxTopReadyPriority := w5\<rparr>) (a_insert_end (Ready (uxPriority b)) (StateItem t) a4)"
      using add_ready_base [OF b4 t n4] unfolding p4 by blast
    define k5 where "k5 = k4\<lparr>lists := s5, uxTopReadyPriority := w5\<rparr>"
    define a5 where "a5 = a_insert_end (Ready (uxPriority b)) (StateItem t) a4"
    have h5: "holder a5 = (holder a)(StateItem t := Some (Ready (uxPriority b)))" "itemval a5 (StateItem u) = itemval a (StateItem u)" for u
      by (simp_all add: a5_def a4_def a1_def)
    have f5: "pxCurrentTCB k5 = t" "uxSchedulerSuspended k5 = uxSchedulerSuspended k" "xPendedTicks k5 = xPendedTicks k" "xSchedulerRunning k5 = xSchedulerRunning k"
      "uxCurrentNumberOfTasks k5 = uxCurrentNumberOfTasks k" "xTickCount k5 = xTickCount k" "swi k5 = swi k" "tcb k5 = (tcb k)(t := b)"
      "xNextTaskUnblockTime k5 = xNextTaskUnblockTime k" "pxDelayedTaskList k5 = pxDelayedTaskList k" "pxOverflowDelayedTaskList k5 = pxOverflowDelayedTaskList k"
      using assms(2) by (simp_all add: k5_def k4_def set_value_def k3_def k2_def k1_def b)
    have code: "xTaskPriorityDisinherit t k = Some (True, k5)"
    proof -
      have e: "(if n = 0 then reset_ready (uxPriority (tcb (k1\<lparr>lists := s\<rparr>) t)) (k1\<lparr>lists := s\<rparr>) else k1\<lparr>lists := s\<rparr>) = k2"
      proof -
        have "uxPriority (tcb (k1\<lparr>lists := s\<rparr>) t) = old" using f1(1) by (simp add: old_def)
        then show ?thesis using r(2) unfolding k2_def by (simp only:)
      qed
      have c: "uxPriority (tcb k1 t) \<noteq> uxBasePriority (tcb k1 t) \<and> uxMutexesHeld (tcb k1 t) = 0" using True f1 by simp
      show ?thesis
        using t0 assms(4) c
        unfolding xTaskPriorityDisinherit_def Let_def f_def [symmetric] k1_def [symmetric] g_def [symmetric]
        by (simp add: r(1) e k3_def [symmetric] k4_def [symmetric] r5(1) k5_def del: upd_tcb_fields) (rule assms(2))
    qed
    have "i = StateItem (task_of i) \<and> holder a i = Some l" if "holder a5 i = Some l" "l \<in> sleeping" for i l
    proof -
      have "holder a i = Some l" using that unfolding h5(1) by (auto simp: sleeping_def split: if_splits)
      then show ?thesis using sleeping_state_item [OF ok(2) that(2)] by blast
    qed
    then have "times_ok k5 a5" using ok(3) delayed_sleeping(1,2) [OF ok(2)] h5(2) unfolding times_ok_def f5 by metis
    then have "kernel_inv E T k5 a5" using r5(2) by (simp add: kernel_inv_def k5_def a5_def)
    then have "kernel_ok E T idle k5 a5" by (rule okk [OF _ h5(1)]) (simp_all add: f5)
    then show ?thesis using code h5 f5 True pb assms(2) by (intro exI [of _ k5] exI [of _ a5] exI [of _ True]) auto
  qed
qed

text \<open>Fields of a control block the scheduler's invariant does not read.\<close>

lemma kernel_ok_tcb:
  assumes "kernel_ok E T idle k a" and "\<And>b. uxPriority (f b) = uxPriority b"
  shows "kernel_ok E T idle (upd_tcb t f k) a"
proof -
  have "kernel_inv E T (upd_tcb t f k) a"
    using base_tcb_same [where f = f, OF kernel_okD(2) [OF assms(1)] assms(2)] kernel_okD(3) [OF assms(1)]
    by (simp add: kernel_inv_def times_ok_def)
  then show ?thesis using assms(1) by (simp add: kernel_ok_def settled_def)
qed

text \<open>
  \<open>vTaskPriorityDisinheritAfterTimeout\<close> resets the bit of the priority the task is given, not of the one it
  leaves: when it was alone on its ready list, the bit of the old priority stays set.
\<close>

lemma disinherit_timeout_stale:
  assumes "kernel_ok E T idle k a" and "t \<in> T" and "t \<noteq> pxCurrentTCB k" and "uxMutexesHeld (tcb k t) = 1"
    and "p = (if uxBasePriority (tcb k t) < w then w else uxBasePriority (tcb k t))" and "p < configMAX_PRIORITIES"
    and "old = uxPriority (tcb k t)" and "p \<noteq> old" and "\<And>i. holder a i = Some (Ready old) \<longleftrightarrow> i = StateItem t"
  shows "\<exists>k'. vTaskPriorityDisinheritAfterTimeout t w k = Some k' \<and> uxPriority (tcb k' t) = p
    \<and> bit (uxTopReadyPriority k') (unat old) \<and> list_empty (Ready old) k'"
proof -
  note ok = kernel_okD [OF assms(1)]
  have t0: "t \<noteq> 0" using tasks_okD(2) [OF kernel_baseD(2) [OF ok(2)]] assms(2) by blast
  define f :: "TCB_t \<Rightarrow> TCB_t" where "f = (\<lambda>b. b\<lparr>uxPriority := p\<rparr>)"
  define k1 where "k1 = set_event_priority t p k"
  obtain a1 where a1: "kernel_base E T k1 a1" "holder a1 = holder a"
    using set_event_base [OF ok(2), of t p] unfolding k1_def by (cases "and (itemval a (EventItem t)) taskEVENT_LIST_ITEM_VALUE_IN_USE = 0") auto
  define a2 where "a2 = a_remove (StateItem t) a1"
  have h: "holder a1 (StateItem t) = Some (Ready old)" using assms(9) a1(2) by simp
  have l: "Ready old \<in> kernel_lists E" by (rule base_home(1) [OF a1(1) h])
  have old: "old < configMAX_PRIORITIES" using l by simp
  obtain s where s: "rep (kernel_lists E) s a2" "list_remove (StateItem t) k1 = Some (of_nat (length (elems a2 (Ready old))), k1\<lparr>lists := s\<rparr>)"
    using on_lists_remove [OF kernel_baseD(1) [OF a1(1)] l h] unfolding a2_def by blast
  have e2: "elems a2 (Ready old) = []"
  proof -
    have "\<not> (\<exists>i. holder a2 i = Some (Ready old))" using assms(9) by (simp add: a2_def a1(2))
    then show ?thesis using elems_empty_holder [OF s(1) l] by blast
  qed
  define k2 where "k2 = upd_tcb t f (k1\<lparr>lists := s\<rparr>)"
  define k3 where "k3 = reset_ready p k2"
  have tc: "TCB t k3 = Some (f (tcb k t))" using t0 by (simp add: TCB_def k3_def reset_ready_def k2_def k1_def)
  define k4 where "k4 = k3\<lparr>uxTopReadyPriority := portRECORD_READY_PRIORITY p (uxTopReadyPriority k3)\<rparr>"
  have r4: "rep (kernel_lists E) (lists k4) a2" using s(1) by (simp add: k4_def k3_def reset_ready_def k2_def)
  have lp: "Ready p \<in> kernel_lists E" using assms(6) by simp
  have len: "length (elems a2 (Ready p)) + 1 < 2 ^ 32"
  proof -
    have "length (elems a2 (Ready p)) \<le> length (elems a1 (Ready p))" by (simp add: a2_def elems_remove)
    then show ?thesis using base_length [OF a1(1) lp] by simp
  qed
  have n2: "holder a2 (StateItem t) = None" by (simp add: a2_def)
  obtain s5 where s5: "on_lists (listINSERT_END (Ready p) (StateItem t)) k4 = Some (k4\<lparr>lists := s5\<rparr>)"
      "rep (kernel_lists E) s5 (a_insert_end (Ready p) (StateItem t) a2)"
    using on_lists_insert_end [OF r4 lp n2 len] by blast
  define k5 where "k5 = k4\<lparr>lists := s5\<rparr>"
  have add: "prvAddTaskToReadyList t k3 = Some k5"
    using s5(1) by (simp add: prvAddTaskToReadyList_def tc f_def k4_def [symmetric] k5_def)
  have code: "vTaskPriorityDisinheritAfterTimeout t w k = Some k5"
  proof -
    have c: "container (StateItem t) (set_event_priority t p (upd_tcb t f k)) = Some (Ready old)"
      using container_holder [OF a1(1)] h by (simp add: set_event_upd_tcb k1_def [symmetric] container_def)
    have lr: "list_remove (StateItem t) (set_event_priority t p (upd_tcb t f k)) = Some (0, k2)"
      using s(2) e2 by (simp add: set_event_upd_tcb k1_def [symmetric] list_remove_tcb k2_def)
    have p2: "uxPriority (tcb k2 t) = p" by (simp add: k2_def f_def)
    show ?thesis
      using t0 assms(3,4,7,8) unfolding vTaskPriorityDisinheritAfterTimeout_def Let_def assms(5) [symmetric] f_def [symmetric]
      by (simp add: c [unfolded assms(7)] lr p2 k3_def [symmetric] add del: upd_tcb_fields)
  qed
  have "bit (uxTopReadyPriority k) (unat old)" using base_bits(1) [OF ok(2) old] assms(9) by blast
  then have "bit (uxTopReadyPriority k5) (unat old)"
    using assms(6,8) by (simp add: k5_def k4_def k3_def reset_ready_def k2_def k1_def set_event_priority_def set_value_def bit_record bit_reset word_unat_eq_iff)
  moreover have "elems (a_insert_end (Ready p) (StateItem t) a2) (Ready old) = []" using e2 assms(8) by (simp add: elems_insert_other)
  then have "list_empty (Ready old) k5" using listLIST_IS_EMPTY_sim [OF s5(2) l] by (simp add: list_empty_def k5_def)
  moreover have "uxPriority (tcb k5 t) = p" by (simp add: k5_def k4_def k3_def reset_ready_def k2_def f_def)
  ultimately show ?thesis using code by blast
qed

text \<open>A selected priority with an empty ready list fails the assertion of the selection.\<close>

lemma switch_empty_fails:
  assumes "uxSchedulerSuspended k = 0" and "list_empty (Ready (portGET_HIGHEST_PRIORITY (uxTopReadyPriority k))) k"
  shows "vTaskSwitchContext k = None"
  using assms by (simp add: vTaskSwitchContext_def taskSELECT_HIGHEST_PRIORITY_TASK_def Let_def list_length_def list_empty_def listLIST_IS_EMPTY_def)

end
