(* ===== verification/KernelBoot.thy ===== *)
theory KernelBoot
  imports KernelPrio
begin

text \<open>
  Creating tasks and starting the scheduler: the first creation initialises the kernel's lists, and what
  has been created when the scheduler starts satisfies the invariant.
\<close>

section \<open>A new task\<close>

text \<open>What \<open>xTaskCreate\<close> does once the memory is there.\<close>

definition create_task :: "task \<Rightarrow> u32 \<Rightarrow> kernel \<Rightarrow> kernel option" where
  "create_task t p k = do {
     k \<leftarrow> prvInitialiseNewTask t p k;
     prvAddNewTaskToReadyList t k
   }"

text \<open>The part of \<open>vTaskStartScheduler\<close> after the idle task and the timer task have been created.\<close>

definition start_scheduler :: "kernel \<Rightarrow> kernel" where
  "start_scheduler k = k\<lparr>xNextTaskUnblockTime := portMAX_DELAY, xSchedulerRunning := True, xTickCount := 0\<rparr>"

text \<open>The items of a new task get their owner and the priority value; no list changes.\<close>

lemma rep_init_item: "rep L s a \<Longrightarrow> holder a i = None \<Longrightarrow> rep L (vListInitialiseItem i s) a"
  unfolding rep_def vListInitialiseItem_def by (auto simp: list_rep_def store_simps)

lemma rep_set_owner: "rep L s a \<Longrightarrow> rep L (listSET_LIST_ITEM_OWNER i o' s) a"
  unfolding rep_def listSET_LIST_ITEM_OWNER_def by (auto simp: list_rep_def store_simps)

lemma owner_updates:
  "pvOwner (item (vListInitialiseItem i s) j) = pvOwner (item s j)"
  "pvOwner (item (listSET_LIST_ITEM_OWNER i t s) j) = (if j = i then Some t else pvOwner (item s j))"
  "pvOwner (item (listSET_LIST_ITEM_VALUE i v s) j) = pvOwner (item s j)"
  by (simp_all add: vListInitialiseItem_def listSET_LIST_ITEM_OWNER_def listSET_LIST_ITEM_VALUE_def store_simps)

definition fresh_tcb :: "u32 \<Rightarrow> TCB_t" where
  "fresh_tcb p = \<lparr>uxPriority = p, uxBasePriority = p, uxMutexesHeld = 0, ulNotifiedValue = 0, ucNotifyState = 0\<rparr>"

lemma initialise_task:
  assumes "rep L (lists k) a" and "holder a (StateItem t) = None" and "holder a (EventItem t) = None" and "p < configMAX_PRIORITIES"
  shows "\<exists>s. prvInitialiseNewTask t p k = Some (k\<lparr>lists := s, tcb := (tcb k)(t := fresh_tcb p)\<rparr>)
    \<and> rep L s (a_set_value (EventItem t) (configMAX_PRIORITIES - p) a)
    \<and> (\<forall>j. pvOwner (item s j) = (if task_of j = t then Some t else pvOwner (item (lists k) j)))"
proof -
  define s where "s = listSET_LIST_ITEM_OWNER (EventItem t) t (listSET_LIST_ITEM_VALUE (EventItem t) (configMAX_PRIORITIES - p)
    (listSET_LIST_ITEM_OWNER (StateItem t) t (vListInitialiseItem (EventItem t) (vListInitialiseItem (StateItem t) (lists k)))))"
  have pm: "(if p \<ge> configMAX_PRIORITIES then configMAX_PRIORITIES - 1 else p) = p" using assms(4) by (auto dest: leD)
  have "prvInitialiseNewTask t p k = Some (k\<lparr>lists := s, tcb := (tcb k)(t := fresh_tcb p)\<rparr>)"
    using assms(4) by (simp add: prvInitialiseNewTask_def pm Let_def s_def upd_tcb_def fresh_tcb_def)
  moreover have "rep L s (a_set_value (EventItem t) (configMAX_PRIORITIES - p) a)"
    unfolding s_def by (intro rep_set_owner listSET_LIST_ITEM_VALUE_sim rep_init_item assms)
  moreover have "pvOwner (item s j) = (if task_of j = t then Some t else pvOwner (item (lists k) j))" for j
    by (cases j) (auto simp: s_def owner_updates)
  ultimately show ?thesis by blast
qed

section \<open>The first task\<close>

text \<open>The kernel's variables as the linker zeroes them, and no list item in use.\<close>

definition unused :: "kernel \<Rightarrow> bool" where
  "unused k \<longleftrightarrow> pxCurrentTCB k = 0 \<and> uxCurrentNumberOfTasks k = 0 \<and> uxTopReadyPriority k = 0 \<and> \<not> xSchedulerRunning k
     \<and> uxSchedulerSuspended k = 0 \<and> xPendedTicks k = 0 \<and> xTickCount k = 0 \<and> \<not> swi k \<and> (\<forall>i. pxContainer (item (lists k) i) = None)"

lemma rep_nothing: "\<forall>i. pxContainer (item s i) = None
    \<Longrightarrow> rep {} s \<lparr>elems = (\<lambda>_. []), cursor = (\<lambda>_. None), itemval = (\<lambda>i. xItemValue (item s i)), holder = (\<lambda>_. None)\<rparr>"
  by (simp add: rep_def alists_ok_def)

lemma init_fields:
  "holder (a_init l a) = holder a" "itemval (a_init l a) = itemval a"
  by (simp_all add: a_init_def)

lemma init_owner: "pvOwner (item (vListInitialise l s) j) = pvOwner (item s j)"
  by (simp add: vListInitialise_def upd_lst_def)

lemma rep_init_ready:
  assumes "rep L s a" and "\<forall>i. holder a i = None"
  shows "\<exists>a'. rep (L \<union> Ready ` of_nat ` set ps) (fold (\<lambda>p. vListInitialise (Ready (of_nat p))) ps s) a'
    \<and> holder a' = holder a \<and> itemval a' = itemval a
    \<and> (\<forall>j. pvOwner (item (fold (\<lambda>p. vListInitialise (Ready (of_nat p))) ps s) j) = pvOwner (item s j))"
  using assms
proof (induction ps arbitrary: L s a)
  case Nil
  then show ?case by auto
next
  case (Cons p ps)
  have 1: "rep (insert (Ready (of_nat p)) L) (vListInitialise (Ready (of_nat p)) s) (a_init (Ready (of_nat p)) a)"
    by (rule vListInitialise_sim [OF Cons.prems(1)]) (simp add: Cons.prems(2))
  have 2: "\<forall>i. holder (a_init (Ready (of_nat p)) a) i = None" using Cons.prems(2) by (simp add: init_fields)
  obtain a' where "rep (insert (Ready (of_nat p)) L \<union> Ready ` of_nat ` set ps)
      (fold (\<lambda>p. vListInitialise (Ready (of_nat p))) ps (vListInitialise (Ready (of_nat p)) s)) a'"
      "holder a' = holder a" "itemval a' = itemval a"
      "\<forall>j. pvOwner (item (fold (\<lambda>p. vListInitialise (Ready (of_nat p))) ps (vListInitialise (Ready (of_nat p)) s)) j) = pvOwner (item s j)"
    using Cons.IH [OF 1 2, unfolded init_fields init_owner] by blast
  then show ?case by (intro exI [of _ a']) (simp add: insert_commute Un_insert_left)
qed

lemma ready_lists: "Ready ` of_nat ` set [0..<unat configMAX_PRIORITIES] = Ready ` {..<configMAX_PRIORITIES}"
proof -
  have "of_nat ` set [0..<unat configMAX_PRIORITIES] = {..<configMAX_PRIORITIES}"
  proof
    show "of_nat ` set [0..<unat configMAX_PRIORITIES] \<subseteq> {..<configMAX_PRIORITIES}"
      by (auto simp: configMAX_PRIORITIES_def word_less_nat_alt unat_of_nat)
    show "{..<configMAX_PRIORITIES} \<subseteq> of_nat ` set [0..<unat configMAX_PRIORITIES]"
    proof
      fix p :: u32 assume "p \<in> {..<configMAX_PRIORITIES}"
      then have "unat p < unat configMAX_PRIORITIES" by (simp add: word_less_nat_alt)
      then show "p \<in> of_nat ` set [0..<unat configMAX_PRIORITIES]" by (intro image_eqI [of _ _ "unat p"]) simp_all
    qed
  qed
  then show ?thesis by simp
qed

lemma initialise_lists:
  assumes "rep {} (lists k) a" and "\<forall>i. holder a i = None"
  shows "\<exists>s a'. prvInitialiseTaskLists k = k\<lparr>lists := s, pxDelayedTaskList := DelayedTaskList1, pxOverflowDelayedTaskList := DelayedTaskList2\<rparr>
    \<and> rep (kernel_lists {}) s a' \<and> (\<forall>i. holder a' i = None) \<and> (\<forall>j. pvOwner (item s j) = pvOwner (item (lists k) j))"
proof -
  define s0 where "s0 = fold (\<lambda>p. vListInitialise (Ready (of_nat p))) [0..<unat configMAX_PRIORITIES] (lists k)"
  obtain a0 where a0: "rep (Ready ` {..<configMAX_PRIORITIES}) s0 a0" "\<forall>i. holder a0 i = None"
      "\<forall>j. pvOwner (item s0 j) = pvOwner (item (lists k) j)"
    using rep_init_ready [OF assms, of "[0..<unat configMAX_PRIORITIES]"] assms(2) unfolding ready_lists s0_def by auto
  define s where "s = vListInitialise SuspendedTaskList (vListInitialise TasksWaitingTermination
    (vListInitialise PendingReadyList (vListInitialise DelayedTaskList2 (vListInitialise DelayedTaskList1 s0))))"
  define a' where "a' = a_init SuspendedTaskList (a_init TasksWaitingTermination (a_init PendingReadyList (a_init DelayedTaskList2 (a_init DelayedTaskList1 a0))))"
  have "rep (insert SuspendedTaskList (insert TasksWaitingTermination (insert PendingReadyList (insert DelayedTaskList2
      (insert DelayedTaskList1 (Ready ` {..<configMAX_PRIORITIES})))))) s a'"
    unfolding s_def a'_def by (intro vListInitialise_sim a0(1)) (simp_all add: init_fields a0(2))
  moreover have "insert SuspendedTaskList (insert TasksWaitingTermination (insert PendingReadyList (insert DelayedTaskList2
      (insert DelayedTaskList1 (Ready ` {..<configMAX_PRIORITIES}))))) = kernel_lists {}"
    by (auto simp: kernel_lists_def)
  ultimately have "rep (kernel_lists {}) s a'" by simp
  moreover have "\<forall>i. holder a' i = None" by (simp add: a'_def init_fields a0(2))
  moreover have "\<forall>j. pvOwner (item s j) = pvOwner (item (lists k) j)" by (simp add: s_def init_owner a0(3))
  ultimately show ?thesis unfolding prvInitialiseTaskLists_def Let_def s0_def [symmetric] s_def [symmetric] by blast
qed

section \<open>Before the scheduler starts\<close>

text \<open>Every task is ready, and the one of highest priority is the one that will run.\<close>

definition booting :: "task set \<Rightarrow> kernel \<Rightarrow> (item_id, list_id) alists \<Rightarrow> bool" where
  "booting T k a \<longleftrightarrow> kernel_base {} T k a \<and> (\<forall>t \<in> T. is_ready a t) \<and> (\<forall>t. holder a (EventItem t) = None) \<and> \<not> xSchedulerRunning k
     \<and> \<not> swi k \<and> uxSchedulerSuspended k = 0 \<and> xPendedTicks k = 0 \<and> uxCurrentNumberOfTasks k = of_nat (card T) \<and> xTickCount k = 0
     \<and> (\<forall>t \<in> T. uxPriority (tcb k t) \<le> uxPriority (tcb k (pxCurrentTCB k)))"

lemma create_first:
  assumes "unused k" and "t \<noteq> 0" and "p < configMAX_PRIORITIES"
  shows "\<exists>k' a'. create_task t p k = Some k' \<and> booting {t} k' a' \<and> tcb k' = (tcb k)(t := fresh_tcb p)"
proof -
  define a :: "(item_id, list_id) alists" where
    "a = \<lparr>elems = (\<lambda>_. []), cursor = (\<lambda>_. None), itemval = (\<lambda>i. xItemValue (item (lists k) i)), holder = (\<lambda>_. None)\<rparr>"
  have u: "pxCurrentTCB k = 0" "uxCurrentNumberOfTasks k = 0" "uxTopReadyPriority k = 0" "\<not> xSchedulerRunning k"
    "uxSchedulerSuspended k = 0" "xPendedTicks k = 0" "xTickCount k = 0" "\<not> swi k" using assms(1) by (simp_all add: unused_def)
  have "rep {} (lists k) a" unfolding a_def by (rule rep_nothing) (use assms(1) in \<open>simp add: unused_def\<close>)
  then obtain s where s: "prvInitialiseNewTask t p k = Some (k\<lparr>lists := s, tcb := (tcb k)(t := fresh_tcb p)\<rparr>)"
      "rep {} s (a_set_value (EventItem t) (configMAX_PRIORITIES - p) a)"
      "\<forall>j. pvOwner (item s j) = (if task_of j = t then Some t else pvOwner (item (lists k) j))"
    using initialise_task [of "{}" k a t p] assms(3) by (auto simp: a_def)
  define k1 where "k1 = k\<lparr>lists := s, tcb := (tcb k)(t := fresh_tcb p), uxCurrentNumberOfTasks := 1, pxCurrentTCB := t\<rparr>"
  have "rep {} (lists k1) (a_set_value (EventItem t) (configMAX_PRIORITIES - p) a)"
    "\<forall>i. holder (a_set_value (EventItem t) (configMAX_PRIORITIES - p) a) i = None"
    using s(2) by (simp_all add: k1_def a_def)
  then obtain s2 a2 where s2: "prvInitialiseTaskLists k1 = k1\<lparr>lists := s2, pxDelayedTaskList := DelayedTaskList1, pxOverflowDelayedTaskList := DelayedTaskList2\<rparr>"
      "rep (kernel_lists {}) s2 a2" "\<forall>i. holder a2 i = None" "\<forall>j. pvOwner (item s2 j) = pvOwner (item (lists k1) j)"
    using initialise_lists by blast
  define k2 where "k2 = k1\<lparr>lists := s2, pxDelayedTaskList := DelayedTaskList1, pxOverflowDelayedTaskList := DelayedTaskList2, uxTaskNumber := uxTaskNumber k + 1\<rparr>"
  have e2: "elems a2 l = []" if "l \<in> kernel_lists {}" for l
    using elems_empty_holder [OF s2(2) that] s2(3) by simp
  have "kernel_base {} {t} k2 a2"
    unfolding kernel_base_def
  proof (intro conjI)
    show "tasks_ok {t} k2" using assms(2,3) s(3) s2(4) by (auto simp: tasks_ok_def k2_def k1_def fresh_tcb_def)
    show "homes_ok {} {t} k2 a2" using s2(3) by (simp add: homes_ok_def)
    show "bits_ok k2 a2" using s2(3) u(3) by (simp add: bits_ok_def k2_def k1_def)
    show "delayed_ok k2 a2" using e2 by (simp add: delayed_ok_def k2_def)
  qed (use s2(2) in \<open>simp add: k2_def\<close>)
  moreover have "t \<in> {t}" "holder a2 (StateItem t) = None" using s2(3) by simp_all
  moreover have "uxPriority (tcb k2 t) = p" by (simp add: k2_def k1_def fresh_tcb_def)
  ultimately obtain s3 w where s3: "prvAddTaskToReadyList t k2 = Some (k2\<lparr>lists := s3, uxTopReadyPriority := w\<rparr>)"
      "kernel_base {} {t} (k2\<lparr>lists := s3, uxTopReadyPriority := w\<rparr>) (a_insert_end (Ready p) (StateItem t) a2)"
    using add_ready_base [of "{}" "{t}" k2 a2 t] by auto
  have k1: "k\<lparr>lists := s, tcb := (tcb k)(t := fresh_tcb p), uxCurrentNumberOfTasks := uxCurrentNumberOfTasks k + 1, pxCurrentTCB := t\<rparr> = k1"
    by (simp add: k1_def u(2))
  have "create_task t p k = Some (k2\<lparr>lists := s3, uxTopReadyPriority := w\<rparr>)"
  proof -
    have "uxCurrentNumberOfTasks k1 = 1" by (simp add: k1_def)
    have "prvAddNewTaskToReadyList t (k\<lparr>lists := s, tcb := (tcb k)(t := fresh_tcb p)\<rparr>)
        = do {
            k \<leftarrow> Some (prvInitialiseTaskLists k1);
            k \<leftarrow> prvAddTaskToReadyList t (k\<lparr>uxTaskNumber := uxTaskNumber k + 1\<rparr>);
            (if xSchedulerRunning k
             then do {
               c \<leftarrow> TCB (pxCurrentTCB k) k;
               b \<leftarrow> TCB t k;
               Some (if uxPriority c < uxPriority b then yield k else k)
             }
             else Some k)
          }"
      unfolding prvAddNewTaskToReadyList_def Let_def using k1 u(1,2) \<open>uxCurrentNumberOfTasks k1 = 1\<close> by simp
    also have "prvInitialiseTaskLists k1\<lparr>uxTaskNumber := uxTaskNumber (prvInitialiseTaskLists k1) + 1\<rparr> = k2"
      unfolding s2(1) k2_def by (simp add: k1_def)
    ultimately show ?thesis using s(1) s3(1) u(4) by (simp add: create_task_def k2_def k1_def)
  qed
  moreover have "booting {t} (k2\<lparr>lists := s3, uxTopReadyPriority := w\<rparr>) (a_insert_end (Ready p) (StateItem t) a2)"
    using s3(2) s2(3) u by (simp add: booting_def is_ready_def k2_def k1_def)
  moreover have "tcb (k2\<lparr>lists := s3, uxTopReadyPriority := w\<rparr>) = (tcb k)(t := fresh_tcb p)" by (simp add: k2_def k1_def)
  ultimately show ?thesis by blast
qed

text \<open>Another task, before the scheduler starts.\<close>

lemma create_base:
  assumes "kernel_base E T k a" and "t \<notin> T" and "t \<noteq> 0" and "p < configMAX_PRIORITIES" and "card T + 1 < 2 ^ 30"
  shows "\<exists>s. prvInitialiseNewTask t p k = Some (k\<lparr>lists := s, tcb := (tcb k)(t := fresh_tcb p)\<rparr>)
    \<and> kernel_base E (insert t T) (k\<lparr>lists := s, tcb := (tcb k)(t := fresh_tcb p)\<rparr>) (a_set_value (EventItem t) (configMAX_PRIORITIES - p) a)"
proof -
  have n: "holder a (StateItem t) = None" "holder a (EventItem t) = None"
    using base_home(2) [OF assms(1)] assms(2) by (metis task_of.simps not_None_eq)+
  obtain s where s: "prvInitialiseNewTask t p k = Some (k\<lparr>lists := s, tcb := (tcb k)(t := fresh_tcb p)\<rparr>)"
      "rep (kernel_lists E) s (a_set_value (EventItem t) (configMAX_PRIORITIES - p) a)"
      "\<forall>j. pvOwner (item s j) = (if task_of j = t then Some t else pvOwner (item (lists k) j))"
    using initialise_task [OF kernel_baseD(1) [OF assms(1)] n assms(4)] by blast
  define k1 where "k1 = k\<lparr>lists := s, tcb := (tcb k)(t := fresh_tcb p)\<rparr>"
  define a1 where "a1 = a_set_value (EventItem t) (configMAX_PRIORITIES - p) a"
  have hm: "home k1 i l" if "holder a i = Some l" "home k i l" for i l
    using that n by (cases i; cases l) (auto simp: k1_def)
  have sm: "map (itemval a1) (elems a m) = map (itemval a) (elems a m)" if "m \<in> sleeping" for m
    using n(2) elems_holder [OF assms(1) sleepingD(1) [OF that], of "EventItem t"] by (auto simp: a1_def)
  have sm12: "map (itemval a1) (elems a DelayedTaskList1) = map (itemval a) (elems a DelayedTaskList1)"
    "map (itemval a1) (elems a DelayedTaskList2) = map (itemval a) (elems a DelayedTaskList2)"
    by (rule sm, simp add: sleeping_def)+
  have "kernel_base E (insert t T) k1 a1"
    unfolding kernel_base_def
  proof (intro conjI)
    show "rep (kernel_lists E) (lists k1) a1" using s(2) by (simp add: k1_def a1_def)
    show "tasks_ok (insert t T) k1"
      using kernel_baseD(2) [OF assms(1)] assms(2-5) s(3) by (auto simp: tasks_ok_def k1_def fresh_tcb_def)
    show "homes_ok E (insert t T) k1 a1" using kernel_baseD(3) [OF assms(1)] hm by (auto simp: homes_ok_def a1_def)
    show "bits_ok k1 a1" using kernel_baseD(4) [OF assms(1)] by (simp add: bits_ok_def k1_def a1_def)
    have "elems a1 = elems a" by (simp add: a1_def)
    then show "delayed_ok k1 a1"
      using kernel_baseD(5) [OF assms(1)] unfolding delayed_ok_def by (simp only: sm12) (simp add: k1_def)
  qed
  then show ?thesis using s(1) unfolding k1_def a1_def by blast
qed

lemma create_next:
  assumes "booting T k a" and "t \<notin> T" and "t \<noteq> 0" and "p < configMAX_PRIORITIES" and "card T + 1 < 2 ^ 30"
  shows "\<exists>k' a'. create_task t p k = Some k' \<and> booting (insert t T) k' a' \<and> tcb k' = (tcb k)(t := fresh_tcb p)"
proof -
  have base: "kernel_base {} T k a" and rd: "\<forall>t \<in> T. is_ready a t" and ev: "\<forall>t. holder a (EventItem t) = None"
    and u: "\<not> xSchedulerRunning k" "\<not> swi k" "uxSchedulerSuspended k = 0" "xPendedTicks k = 0" "uxCurrentNumberOfTasks k = of_nat (card T)" "xTickCount k = 0"
    and mx: "\<forall>t \<in> T. uxPriority (tcb k t) \<le> uxPriority (tcb k (pxCurrentTCB k))"
    using assms(1) by (simp_all add: booting_def)
  obtain s where s: "prvInitialiseNewTask t p k = Some (k\<lparr>lists := s, tcb := (tcb k)(t := fresh_tcb p)\<rparr>)"
      "kernel_base {} (insert t T) (k\<lparr>lists := s, tcb := (tcb k)(t := fresh_tcb p)\<rparr>) (a_set_value (EventItem t) (configMAX_PRIORITIES - p) a)"
    using create_base [OF base assms(2-5)] by blast
  define a1 where "a1 = a_set_value (EventItem t) (configMAX_PRIORITIES - p) a"
  define c where "c = pxCurrentTCB k"
  have c: "c \<in> T" "c \<noteq> t" "c \<noteq> 0"
    using tasks_okD(1,2) [OF kernel_baseD(2) [OF base]] assms(2) unfolding c_def by blast+
  define k1 where "k1 = k\<lparr>lists := s, tcb := (tcb k)(t := fresh_tcb p), uxCurrentNumberOfTasks := uxCurrentNumberOfTasks k + 1,
      uxTaskNumber := uxTaskNumber k + 1\<rparr>"
  define k2 where "k2 = (if uxPriority (tcb k c) \<le> p then k1\<lparr>pxCurrentTCB := t\<rparr> else k1)"
  have b1: "kernel_base {} (insert t T) k1 a1"
    using s(2) base_frame(8,9) unfolding a1_def k1_def by simp
  then have b2: "kernel_base {} (insert t T) k2 a1" using base_current [OF b1, of t] by (simp add: k2_def)
  have n: "holder a1 (StateItem t) = None"
    using base_home(2) [OF base, of "StateItem t"] assms(2) by (cases "holder a (StateItem t)") (auto simp: a1_def)
  have pt: "uxPriority (tcb k2 t) = p" by (simp add: k2_def k1_def fresh_tcb_def)
  obtain s3 w where s3: "prvAddTaskToReadyList t k2 = Some (k2\<lparr>lists := s3, uxTopReadyPriority := w\<rparr>)"
      "kernel_base {} (insert t T) (k2\<lparr>lists := s3, uxTopReadyPriority := w\<rparr>) (a_insert_end (Ready p) (StateItem t) a1)"
    using add_ready_base [OF b2 insertI1 n] unfolding pt by blast
  define k3 where "k3 = k2\<lparr>lists := s3, uxTopReadyPriority := w\<rparr>"
  have "prvAddNewTaskToReadyList t (k\<lparr>lists := s, tcb := (tcb k)(t := fresh_tcb p)\<rparr>) = Some k3"
  proof -
    have tc: "TCB c K = Some (tcb K c)" "TCB t K = Some (tcb K t)" for K using c(3) assms(3) by (simp_all add: TCB_def)
    have "prvAddNewTaskToReadyList t (k\<lparr>lists := s, tcb := (tcb k)(t := fresh_tcb p)\<rparr>)
        = do {
            k \<leftarrow> prvAddTaskToReadyList t k2;
            (if xSchedulerRunning k
             then do {
               c \<leftarrow> TCB (pxCurrentTCB k) k;
               b \<leftarrow> TCB t k;
               Some (if uxPriority c < uxPriority b then yield k else k)
             }
             else Some k)
          }"
    proof (cases "uxPriority (tcb k c) \<le> p")
      case True
      then have "k\<lparr>lists := s, tcb := (tcb k)(t := fresh_tcb p), uxCurrentNumberOfTasks := uxCurrentNumberOfTasks k + 1,
          pxCurrentTCB := t, uxTaskNumber := uxTaskNumber k + 1\<rparr> = k2" by (simp add: k2_def k1_def)
      then show ?thesis using True u(1) c tc unfolding prvAddNewTaskToReadyList_def Let_def
        by (simp add: c_def [symmetric] fresh_tcb_def)
    next
      case False
      then have "k\<lparr>lists := s, tcb := (tcb k)(t := fresh_tcb p), uxCurrentNumberOfTasks := uxCurrentNumberOfTasks k + 1,
          uxTaskNumber := uxTaskNumber k + 1\<rparr> = k2" by (simp add: k2_def k1_def)
      then show ?thesis using False u(1) c tc unfolding prvAddNewTaskToReadyList_def Let_def
        by (simp add: c_def [symmetric] fresh_tcb_def)
    qed
    moreover have "\<not> xSchedulerRunning k3" using u(1) by (simp add: k3_def k2_def k1_def)
    ultimately show ?thesis using s3(1) by (simp add: k3_def [symmetric])
  qed
  then have code: "create_task t p k = Some k3" using s(1) by (simp add: create_task_def)
  have tc: "tcb k3 = (tcb k)(t := fresh_tcb p)" by (simp add: k3_def k2_def k1_def)
  have cur: "pxCurrentTCB k3 = (if uxPriority (tcb k c) \<le> p then t else c)" by (simp add: k3_def k2_def k1_def c_def)
  have "uxPriority (tcb k3 x) \<le> uxPriority (tcb k3 (pxCurrentTCB k3))" if "x \<in> insert t T" for x
  proof -
    have "uxPriority (tcb k x) \<le> uxPriority (tcb k c)" if "x \<in> T" using mx that by (simp add: c_def)
    then show ?thesis using that c(2) assms(2) unfolding tc cur by (auto simp: fresh_tcb_def)
  qed
  moreover have "card (insert t T) = Suc (card T)"
    using assms(2) kernel_baseD(2) [OF base] by (simp add: tasks_ok_def)
  ultimately have "booting (insert t T) k3 (a_insert_end (Ready p) (StateItem t) a1)"
    using s3(2) rd ev u by (auto simp: booting_def k3_def k2_def k1_def is_ready_def a1_def)
  then show ?thesis using code tc by blast
qed

end
