(* ===== verification/KernelRun.thy ===== *)
theory KernelRun
  imports KernelBoot
begin

text \<open>
  The scheduler as a system: the operations as a step relation, the states any interleaving of tasks and
  interrupts reaches, and what holds in all of them.
\<close>

section \<open>Waking at a fixed period\<close>

lemma unat_plus_u32: "unat (a + b :: u32) = (if unat a + unat b < 2 ^ 32 then unat a + unat b else unat a + unat b - 2 ^ 32)"
  using unat_plus_if' [of a b] by simp

text \<open>With \<open>e\<close> ticks since the previous wake time, the next one is ahead exactly when \<open>e\<close> is below the period.\<close>

lemma delay_until_decides: "delay_until (p + e) p d = (p + d, e < d)"
proof -
  have "unat p < 2 ^ 32" "unat e < 2 ^ 32" "unat d < 2 ^ 32" by (rule unat_lt_u32)+
  then have "(if p + e < p then p + d < p \<and> p + d > p + e else p + d < p \<or> p + d > p + e) \<longleftrightarrow> e < d"
    unfolding word_less_nat_alt unat_plus_u32 by (auto split: if_splits)
  then show ?thesis by (simp add: delay_until_def)
qed

lemma delay_until_ok:
  assumes "kernel_ok E T idle k a" and "uxSchedulerSuspended k = 0" and "is_ready a (pxCurrentTCB k)" and "pxCurrentTCB k \<noteq> idle"
    and "0 < d" and "xTickCount k = p + e"
  shows "\<exists>k' a'. xTaskDelayUntil p d k = Some (e < d, p + d, k') \<and> kernel_ok E T idle k' a' \<and> swi k'
    \<and> (if e < d then (\<exists>l \<in> sleeping. holder a' = (holder a)(StateItem (pxCurrentTCB k) := Some l))
         \<and> itemval a' = (itemval a)(StateItem (pxCurrentTCB k) := p + d)
       else holder a' = holder a \<and> itemval a' = itemval a)
    \<and> xTickCount k' = xTickCount k \<and> tcb k' = tcb k \<and> pxCurrentTCB k' = pxCurrentTCB k \<and> uxSchedulerSuspended k' = 0"
proof -
  note ok = kernel_okD [OF assms(1)]
  have dec: "delay_until (xTickCount (vTaskSuspendAll k)) p d = (p + d, e < d)"
    using delay_until_decides [of p e d] assms(6) by (simp add: vTaskSuspendAll_def)
  have tick: "xTickCount (vTaskSuspendAll k) = p + e" using assms(6) by (simp add: vTaskSuspendAll_def)
  have diff: "p + d - (p + e) = d - e" by simp
  show ?thesis
  proof (cases "e < d")
    case True
    then have pos: "0 < d - e" by (metis right_minus_eq word_gt_0 less_irrefl)
    obtain k1 y k2 a' where r: "prvAddCurrentTaskToDelayedList (d - e) False (vTaskSuspendAll k) = Some k1" "xTaskResumeAll k1 = Some (y, k2)"
        "kernel_ok E T idle (yield k2) a'" "swi k2 = (swi k \<or> y)"
        "\<exists>l \<in> sleeping. holder a' = (holder a)(StateItem (pxCurrentTCB k) := Some l)"
        "itemval a' = (itemval a)(StateItem (pxCurrentTCB k) := xTickCount k + (d - e))"
        "xTickCount k2 = xTickCount k" "tcb k2 = tcb k" "pxCurrentTCB k2 = pxCurrentTCB k" "uxSchedulerSuspended k2 = 0"
      using block_and_resume [OF assms(1-4) pos] by blast
    have "(if \<not> y then yield k2 else k2) = yield k2" using r(4) by (simp add: yield_def)
    then have "xTaskDelayUntil p d k = Some (True, p + d, yield k2)"
      using r(2) True diff unfolding xTaskDelayUntil_def Let_def dec prod.case tick
      by (simp only: dec [unfolded tick] diff r(1) assms(2,5) configASSERT_simps simp_thms Option.bind.bind_lunit if_True prod.case)
    moreover have "xTickCount k + (d - e) = p + d" using assms(6) by simp
    then have "itemval a' = (itemval a)(StateItem (pxCurrentTCB k) := p + d)" using r(6) by (simp only:)
    ultimately show ?thesis using r(3,5,7-10) True
      by (intro exI [of _ "yield k2"] exI [of _ a']) (simp add: yield_def)
  next
    case False
    define k0 where "k0 = vTaskSuspendAll k"
    have ok0: "kernel_ok E T idle k0 a" unfolding k0_def by (rule suspend_all_ok [OF assms(1,3)]) (simp add: assms(2))
    have f0: "uxSchedulerSuspended k0 = 1" "xPendedTicks k0 = 0" "tcb k0 = tcb k" "pxCurrentTCB k0 = pxCurrentTCB k" "xTickCount k0 = xTickCount k"
        "swi k0 = swi k"
      using assms(2) ok(10) by (simp_all add: k0_def vTaskSuspendAll_def)
    have none: "\<not> resumed k0 a t" for t
      using ok(11) [OF assms(2)] remaining_pos [OF kernel_okD(1) [OF ok0], of t] f0(2) by (auto simp: resumed_def)
    obtain k2 a' where r: "xTaskResumeAll k0 = Some (resume_yields k0 a, k2)" "kernel_ok E T idle k2 a'"
        "holder a' = woken (resumed k0 a) k0 (holder a)" "itemval a' = itemval a" "uxSchedulerSuspended k2 = 0"
        "xTickCount k2 = xTickCount k0 + xPendedTicks k0" "tcb k2 = tcb k0" "pxCurrentTCB k2 = pxCurrentTCB k0"
        "swi k2 = (swi k0 \<or> resume_yields k0 a)"
      using resume_all_ok [OF ok0 f0(1)] by blast
    define y where "y = resume_yields k0 a"
    have "(if \<not> y then yield k2 else k2) = yield k2" using r(9) unfolding y_def [symmetric] by (simp add: yield_def)
    then have "xTaskDelayUntil p d k = Some (False, p + d, yield k2)"
      using assms(2,5) r(1) False dec unfolding k0_def [symmetric] y_def [symmetric]
      by (simp add: xTaskDelayUntil_def Let_def k0_def [symmetric])
    moreover have "kernel_ok E T idle (yield k2) a'" by (rule yield_ok [OF r(2,5)])
    moreover have "holder a' = holder a" unfolding r(3) by (rule woken_none) (rule none)
    ultimately show ?thesis using r(4-8) False f0
      by (intro exI [of _ "yield k2"] exI [of _ a']) (simp add: yield_def)
  qed
qed

section \<open>The operations as steps\<close>

datatype op = Tick | YieldISR | Delay u32 | DelayUntil u32 u32 | SuspendAll | ResumeAll
  | Suspend task | Resume task | PrioritySet task u32

fun exec :: "op \<Rightarrow> kernel \<Rightarrow> kernel option" where
  "exec Tick k = vPortIncrementTick k"
| "exec YieldISR k = vPortYieldISR k"
| "exec (Delay d) k = vTaskDelay d k"
| "exec (DelayUntil p d) k = map_option (\<lambda>(b, w, k). k) (xTaskDelayUntil p d k)"
| "exec SuspendAll k = Some (vTaskSuspendAll k)"
| "exec ResumeAll k = map_option snd (xTaskResumeAll k)"
| "exec (Suspend t) k = vTaskSuspend t k"
| "exec (Resume t) k = vTaskResume t k"
| "exec (PrioritySet t p) k = vTaskPrioritySet t p k"

text \<open>
  What may happen when: the tick at any time, the software interrupt when it is pending, and a call when
  the running task really runs. The idle task never blocks and is never suspended; blocking calls are
  made with the scheduler running, as their documentation asks.
\<close>

fun allowed :: "task set \<Rightarrow> task \<Rightarrow> op \<Rightarrow> kernel \<Rightarrow> bool" where
  "allowed T idle Tick k \<longleftrightarrow> True"
| "allowed T idle YieldISR k \<longleftrightarrow> swi k"
| "allowed T idle (Delay d) k \<longleftrightarrow> \<not> swi k \<and> uxSchedulerSuspended k = 0 \<and> pxCurrentTCB k \<noteq> idle"
| "allowed T idle (DelayUntil p d) k \<longleftrightarrow> \<not> swi k \<and> uxSchedulerSuspended k = 0 \<and> pxCurrentTCB k \<noteq> idle \<and> d > 0"
| "allowed T idle SuspendAll k \<longleftrightarrow> \<not> swi k \<and> uxSchedulerSuspended k + 1 \<noteq> 0"
| "allowed T idle ResumeAll k \<longleftrightarrow> \<not> swi k \<and> uxSchedulerSuspended k \<noteq> 0"
| "allowed T idle (Suspend t) k \<longleftrightarrow> \<not> swi k \<and> t \<in> T \<and> t \<noteq> idle \<and> (t = pxCurrentTCB k \<longrightarrow> uxSchedulerSuspended k = 0)"
| "allowed T idle (Resume t) k \<longleftrightarrow> \<not> swi k \<and> t \<in> T"
| "allowed T idle (PrioritySet t p) k \<longleftrightarrow> \<not> swi k \<and> t \<in> T \<and> p < configMAX_PRIORITIES"

inductive reach :: "task set \<Rightarrow> task \<Rightarrow> kernel \<Rightarrow> kernel \<Rightarrow> bool" for T idle k0 where
  start: "reach T idle k0 k0"
| step: "reach T idle k0 k \<Longrightarrow> allowed T idle x k \<Longrightarrow> exec x k = Some k' \<Longrightarrow> reach T idle k0 k'"

text \<open>
  Preemption: unless a switch is on its way, or noted while the scheduler is locked, no ready task has a
  higher priority than the running one.
\<close>

definition preemptive :: "kernel \<Rightarrow> (item_id, list_id) alists \<Rightarrow> bool" where
  "preemptive k a \<longleftrightarrow> swi k \<or> uxSchedulerSuspended k \<noteq> 0 \<and> xYieldPending k
     \<or> (\<forall>t. is_ready a t \<longrightarrow> uxPriority (tcb k t) \<le> uxPriority (tcb k (pxCurrentTCB k)))"

definition sys_ok :: "u32 set \<Rightarrow> task set \<Rightarrow> task \<Rightarrow> kernel \<Rightarrow> (item_id, list_id) alists \<Rightarrow> bool" where
  "sys_ok E T idle k a \<longleftrightarrow> kernel_ok E T idle k a \<and> (\<forall>t \<in> T. holder a (StateItem t) \<noteq> None) \<and> preemptive k a"

lemma placed_woken: "holder a' = woken D k (holder a) \<Longrightarrow> holder a (StateItem t) \<noteq> None \<Longrightarrow> holder a' (StateItem t) \<noteq> None"
  by simp

lemma ready_woken: "holder a' = woken D k (holder a) \<Longrightarrow> is_ready a' t \<longleftrightarrow> D t \<or> is_ready a t"
  by (auto simp: is_ready_def)

section \<open>Every step keeps the system in order\<close>

text \<open>What a step does to the sleeping tasks while the scheduler runs: only a tick shortens or ends a sleep.\<close>

definition sleeps_on :: "op \<Rightarrow> kernel \<Rightarrow> (item_id, list_id) alists \<Rightarrow> kernel \<Rightarrow> (item_id, list_id) alists \<Rightarrow> bool" where
  "sleeps_on x k a k' a' \<longleftrightarrow> (uxSchedulerSuspended k = 0 \<longrightarrow> (x \<noteq> SuspendAll \<longrightarrow> uxSchedulerSuspended k' = 0) \<and> (\<forall>t. asleep a t \<and> x \<noteq> Suspend t \<longrightarrow>
     (if x = Tick \<and> remaining k a t = 1 then is_ready a' t
      else asleep a' t \<and> remaining k' a' t = remaining k a t - (if x = Tick then 1 else 0))))"

lemma sys_okD:
  assumes "sys_ok E T idle k a"
  shows "kernel_ok E T idle k a" "t \<in> T \<Longrightarrow> holder a (StateItem t) \<noteq> None" "preemptive k a"
  using assms by (auto simp: sys_ok_def)

lemma running_ready: "sys_ok E T idle k a \<Longrightarrow> \<not> swi k \<Longrightarrow> is_ready a (pxCurrentTCB k)"
  by (auto simp: sys_ok_def kernel_ok_def)

lemma ready_not_asleep: "is_ready a t \<Longrightarrow> \<not> asleep a t"
  by (auto simp: is_ready_def asleep_def sleeping_def)

text \<open>A step that leaves the sleeping tasks' items alone.\<close>

lemma sleeps_onI:
  assumes "x \<noteq> Tick" and "xTickCount k' = xTickCount k"
    and "uxSchedulerSuspended k = 0 \<Longrightarrow> x \<noteq> SuspendAll \<Longrightarrow> uxSchedulerSuspended k' = 0"
    and "\<And>t. asleep a t \<Longrightarrow> x \<noteq> Suspend t \<Longrightarrow> holder a' (StateItem t) = holder a (StateItem t) \<and> itemval a' (StateItem t) = itemval a (StateItem t)"
  shows "sleeps_on x k a k' a'"
  using assms by (simp add: sleeps_on_def asleep_def remaining_def)

lemma step_tick:
  assumes "sys_ok E T idle k a"
  shows "\<exists>k' a'. exec Tick k = Some k' \<and> sys_ok E T idle k' a' \<and> sleeps_on Tick k a k' a'"
proof (cases "uxSchedulerSuspended k = 0")
  case True
  note ok = sys_okD [OF assms]
  obtain k' a' where r: "vPortIncrementTick k = Some k'" "kernel_ok E T idle k' a'" "xTickCount k' = xTickCount k + 1"
    "holder a' = woken (wakes_now k a) k (holder a)" "itemval a' = itemval a" "tcb k' = tcb k" "pxCurrentTCB k' = pxCurrentTCB k"
    "uxSchedulerSuspended k' = 0"
    "swi k' = (swi k \<or> xYieldPending k \<or> (\<exists>t. wakes_now k a t \<and> uxPriority (tcb k (pxCurrentTCB k)) < uxPriority (tcb k t)))"
    using tick_ok [OF ok(1) True] by blast
  have "preemptive k' a'"
    using ok(3) True unfolding preemptive_def r(6,7,9) ready_woken [OF r(4)] by (meson not_less)
  then have sys: "sys_ok E T idle k' a'" using r(2) ok(2) placed_woken [OF r(4)] by (simp add: sys_ok_def)
  note W = wakes_now_remaining [OF kernel_okD(1) [OF ok(1)]]
  have "remaining k' a' t = remaining k a t - 1" if "asleep a t" for t
    using remaining_tick remaining_pos [OF kernel_okD(1) [OF ok(1)] that] by (simp add: remaining_def r(3,5))
  then have "sleeps_on Tick k a k' a'"
    using W asleep_woken [OF r(4)] ready_woken [OF r(4)] r(8) by (simp add: sleeps_on_def)
  then show ?thesis using r(1) sys by auto
next
  case False
  note ok = sys_okD [OF assms]
  define k' where "k' = k\<lparr>xPendedTicks := xPendedTicks k + 1\<rparr>"
  have "preemptive k' a" using ok(3) by (simp add: preemptive_def k'_def)
  then have "sys_ok E T idle k' a" using tick_pended(2) [OF ok(1) False] ok(2) by (simp add: sys_ok_def k'_def)
  then show ?thesis using tick_pended(1) [OF ok(1) False] False by (auto simp: sleeps_on_def k'_def)
qed

lemma step_yield:
  assumes "sys_ok E T idle k a"
  shows "\<exists>k' a'. exec YieldISR k = Some k' \<and> sys_ok E T idle k' a' \<and> sleeps_on YieldISR k a k' a'"
proof -
  note ok = sys_okD [OF assms]
  obtain k' a' where r: "vPortYieldISR k = Some k'" "kernel_ok E T idle k' a'" "holder a' = holder a" "itemval a' = itemval a"
    "xTickCount k' = xTickCount k" "tcb k' = tcb k" "uxSchedulerSuspended k' = uxSchedulerSuspended k"
    "uxSchedulerSuspended k = 0 \<longrightarrow> is_ready a (pxCurrentTCB k')
         \<and> (\<forall>t. is_ready a t \<longrightarrow> uxPriority (tcb k t) \<le> uxPriority (tcb k (pxCurrentTCB k')))"
    "uxSchedulerSuspended k \<noteq> 0 \<longrightarrow> pxCurrentTCB k' = pxCurrentTCB k \<and> xYieldPending k'"
    using yield_isr_ok [OF ok(1)] by blast
  have "is_ready a' t \<longleftrightarrow> is_ready a t" for t by (simp add: is_ready_def r(3))
  then have "preemptive k' a'" using r(6-9) by (auto simp: preemptive_def)
  then have "sys_ok E T idle k' a'" using r(2,3) ok(2) by (simp add: sys_ok_def)
  moreover have "sleeps_on YieldISR k a k' a'" by (rule sleeps_onI) (simp_all add: r)
  ultimately show ?thesis using r(1) by auto
qed

lemma blocked_sys:
  assumes "sys_ok E T idle k a" and "kernel_ok E T idle k' a'" and "swi k'"
    and "\<And>t. t \<in> T \<Longrightarrow> holder a (StateItem t) \<noteq> None \<Longrightarrow> holder a' (StateItem t) \<noteq> None"
  shows "sys_ok E T idle k' a'"
  using assms by (simp add: sys_ok_def preemptive_def)

lemma step_delay:
  assumes "sys_ok E T idle k a" and "allowed T idle (Delay d) k"
  shows "\<exists>k' a'. exec (Delay d) k = Some k' \<and> sys_ok E T idle k' a' \<and> sleeps_on (Delay d) k a k' a'"
proof -
  note ok = sys_okD [OF assms(1)]
  have al: "\<not> swi k" "uxSchedulerSuspended k = 0" "pxCurrentTCB k \<noteq> idle" using assms(2) by simp_all
  note rd = running_ready [OF assms(1) al(1)]
  show ?thesis
  proof (cases "d = 0")
    case True
    have "sys_ok E T idle (yield k) a"
      using blocked_sys [OF assms(1) yield_ok [OF ok(1) al(2)]] by (simp add: yield_def)
    moreover have "sleeps_on (Delay d) k a (yield k) a" by (rule sleeps_onI) (simp_all add: yield_def)
    ultimately show ?thesis using True delay_zero by auto
  next
    case False
    then have "0 < d" by (simp add: word_gt_0)
    then obtain k' a' l where r: "vTaskDelay d k = Some k'" "kernel_ok E T idle k' a'" "swi k'"
      "holder a' = (holder a)(StateItem (pxCurrentTCB k) := Some l)"
      "itemval a' = (itemval a)(StateItem (pxCurrentTCB k) := xTickCount k + d)" "xTickCount k' = xTickCount k" "uxSchedulerSuspended k' = 0"
      using delay_ok [OF ok(1) al(2) rd al(3)] by blast
    have "sys_ok E T idle k' a'" by (rule blocked_sys [OF assms(1) r(2,3)]) (simp add: r(4))
    moreover have "sleeps_on (Delay d) k a k' a'"
      using ready_not_asleep [OF rd] by (intro sleeps_onI r(6,7)) (auto simp: r(4,5))
    ultimately show ?thesis using r(1) by auto
  qed
qed

lemma step_delay_until:
  assumes "sys_ok E T idle k a" and "allowed T idle (DelayUntil p d) k"
  shows "\<exists>k' a'. exec (DelayUntil p d) k = Some k' \<and> sys_ok E T idle k' a' \<and> sleeps_on (DelayUntil p d) k a k' a'"
proof -
  note ok = sys_okD [OF assms(1)]
  have al: "\<not> swi k" "uxSchedulerSuspended k = 0" "pxCurrentTCB k \<noteq> idle" "0 < d" using assms(2) by simp_all
  note rd = running_ready [OF assms(1) al(1)]
  define e where "e = xTickCount k - p"
  have e: "xTickCount k = p + e" by (simp add: e_def)
  obtain k' a' where r: "xTaskDelayUntil p d k = Some (e < d, p + d, k')" "kernel_ok E T idle k' a'" "swi k'"
      "if e < d then (\<exists>l \<in> sleeping. holder a' = (holder a)(StateItem (pxCurrentTCB k) := Some l))
         \<and> itemval a' = (itemval a)(StateItem (pxCurrentTCB k) := p + d)
       else holder a' = holder a \<and> itemval a' = itemval a" "xTickCount k' = xTickCount k" "uxSchedulerSuspended k' = 0"
    using delay_until_ok [OF ok(1) al(2) rd al(3,4) e] by blast
  have h: "holder a' i = holder a i \<and> itemval a' i = itemval a i" if "i \<noteq> StateItem (pxCurrentTCB k)" for i
    using r(4) that by (auto split: if_splits)
  have "holder a' (StateItem (pxCurrentTCB k)) \<noteq> None" using r(4) rd by (auto simp: is_ready_def split: if_splits)
  then have "sys_ok E T idle k' a'" by (intro blocked_sys [OF assms(1) r(2,3)]) (metis h)
  moreover have "sleeps_on (DelayUntil p d) k a k' a'"
  proof (rule sleeps_onI [OF _ r(5,6)])
    fix t assume "asleep a t"
    then have "t \<noteq> pxCurrentTCB k" using ready_not_asleep [OF rd] by blast
    then show "holder a' (StateItem t) = holder a (StateItem t) \<and> itemval a' (StateItem t) = itemval a (StateItem t)"
      by (intro h) simp
  qed simp
  ultimately show ?thesis using r(1) by auto
qed

lemma step_suspend_all:
  assumes "sys_ok E T idle k a" and "allowed T idle SuspendAll k"
  shows "\<exists>k' a'. exec SuspendAll k = Some k' \<and> sys_ok E T idle k' a' \<and> sleeps_on SuspendAll k a k' a'"
proof -
  note ok = sys_okD [OF assms(1)]
  have al: "\<not> swi k" "uxSchedulerSuspended k + 1 \<noteq> 0" using assms(2) by simp_all
  have "kernel_ok E T idle (vTaskSuspendAll k) a" by (rule suspend_all_ok [OF ok(1) running_ready [OF assms(1) al(1)] al(2)])
  moreover have "preemptive (vTaskSuspendAll k) a" using ok(3) al by (auto simp: preemptive_def vTaskSuspendAll_def)
  ultimately have "sys_ok E T idle (vTaskSuspendAll k) a" using ok(2) by (simp add: sys_ok_def)
  moreover have "sleeps_on SuspendAll k a (vTaskSuspendAll k) a" by (rule sleeps_onI) (simp_all add: vTaskSuspendAll_def)
  ultimately show ?thesis by auto
qed

lemma step_resume_all:
  assumes "sys_ok E T idle k a" and "allowed T idle ResumeAll k"
  shows "\<exists>k' a'. exec ResumeAll k = Some k' \<and> sys_ok E T idle k' a' \<and> sleeps_on ResumeAll k a k' a'"
proof -
  note ok = sys_okD [OF assms(1)]
  have al: "\<not> swi k" "uxSchedulerSuspended k \<noteq> 0" using assms(2) by simp_all
  show ?thesis
  proof (cases "uxSchedulerSuspended k = 1")
    case True
    obtain k' a' where r: "xTaskResumeAll k = Some (resume_yields k a, k')" "kernel_ok E T idle k' a'"
        "holder a' = woken (resumed k a) k (holder a)" "tcb k' = tcb k" "pxCurrentTCB k' = pxCurrentTCB k"
        "swi k' = (swi k \<or> resume_yields k a)" "uxSchedulerSuspended k' = 0"
      using resume_all_ok [OF ok(1) True] by blast
    have "preemptive k' a'"
    proof (cases "resume_yields k a")
      case False
      then have "xYieldPending k = False" "\<And>t. resumed k a t \<Longrightarrow> uxPriority (tcb k t) \<le> uxPriority (tcb k (pxCurrentTCB k))"
        unfolding resume_yields_def by (auto simp: not_less not_le intro: less_imp_le)
      then show ?thesis using ok(3) al unfolding preemptive_def r(4,5) ready_woken [OF r(3)] by blast
    qed (simp add: preemptive_def r(6))
    then have "sys_ok E T idle k' a'" using r(2) ok(2) placed_woken [OF r(3)] by (simp add: sys_ok_def)
    then show ?thesis using r(1) al by (auto simp: sleeps_on_def)
  next
    case False
    define k' where "k' = k\<lparr>uxSchedulerSuspended := uxSchedulerSuspended k - 1\<rparr>"
    have "uxSchedulerSuspended k' \<noteq> 0" using False by (simp add: k'_def)
    then have "preemptive k' a" using ok(3) al(2) by (auto simp: preemptive_def k'_def)
    then have "sys_ok E T idle k' a" using resume_nested_ok(2) [OF ok(1) al(2) False] ok(2) by (simp add: sys_ok_def k'_def)
    then show ?thesis using resume_nested_ok(1) [OF ok(1) al(2) False] al by (auto simp: sleeps_on_def k'_def)
  qed
qed

lemma step_suspend:
  assumes "sys_ok E T idle k a" and "allowed T idle (Suspend t) k"
  shows "\<exists>k' a'. exec (Suspend t) k = Some k' \<and> sys_ok E T idle k' a' \<and> sleeps_on (Suspend t) k a k' a'"
proof -
  note ok = sys_okD [OF assms(1)]
  have al: "\<not> swi k" "t \<in> T" "t \<noteq> idle" "t = pxCurrentTCB k \<Longrightarrow> uxSchedulerSuspended k = 0" using assms(2) by simp_all
  obtain l where "holder a (StateItem t) = Some l" using ok(2) [OF al(2)] by blast
  from suspend_ok [OF ok(1) al(2,3) this al(4)]
  obtain k' a' where r: "vTaskSuspend t k = Some k'" "kernel_ok E T idle k' a'"
    "holder a' = (holder a)(StateItem t := Some SuspendedTaskList, EventItem t := None)" "itemval a' = itemval a"
    "xTickCount k' = xTickCount k" "pxCurrentTCB k' = pxCurrentTCB k" "uxSchedulerSuspended k' = uxSchedulerSuspended k"
    "\<forall>u. uxPriority (tcb k' u) = uxPriority (tcb k u)" "swi k' = (swi k \<or> t = pxCurrentTCB k)" "xYieldPending k' = xYieldPending k"
    by blast
  have "is_ready a u" if "is_ready a' u" for u using that by (auto simp: is_ready_def r(3) split: if_splits)
  then have "preemptive k' a'" using ok(3) al(1) r(6-10) by (auto simp: preemptive_def)
  then have "sys_ok E T idle k' a'" using r(2,3) ok(2) by (simp add: sys_ok_def)
  moreover have "sleeps_on (Suspend t) k a k' a'" by (rule sleeps_onI) (auto simp: r(3-7))
  ultimately show ?thesis using r(1) by auto
qed

lemma step_resume:
  assumes "sys_ok E T idle k a" and "allowed T idle (Resume t) k"
  shows "\<exists>k' a'. exec (Resume t) k = Some k' \<and> sys_ok E T idle k' a' \<and> sleeps_on (Resume t) k a k' a'"
proof -
  note ok = sys_okD [OF assms(1)]
  have al: "\<not> swi k" "t \<in> T" using assms(2) by simp_all
  define susp where "susp \<longleftrightarrow> t \<noteq> pxCurrentTCB k \<and> holder a (StateItem t) = Some SuspendedTaskList \<and> holder a (EventItem t) = None"
  obtain k' a' where r: "vTaskResume t k = Some k'" "kernel_ok E T idle k' a'" "itemval a' = itemval a"
    "holder a' = (if susp then (holder a)(StateItem t := Some (Ready (uxPriority (tcb k t)))) else holder a)"
    "swi k' = (swi k \<or> susp \<and> uxPriority (tcb k (pxCurrentTCB k)) \<le> uxPriority (tcb k t))"
    "xTickCount k' = xTickCount k" "pxCurrentTCB k' = pxCurrentTCB k" "uxSchedulerSuspended k' = uxSchedulerSuspended k"
    "tcb k' = tcb k" "xYieldPending k' = xYieldPending k"
    using resume_ok [OF ok(1) al(2)] unfolding susp_def [symmetric] by blast
  have rd: "is_ready a' u \<longleftrightarrow> is_ready a u \<or> susp \<and> u = t" for u by (auto simp: is_ready_def r(4))
  have "preemptive k' a'"
    using ok(3) al(1) unfolding preemptive_def rd r(5,7-10) by (metis linear)
  moreover have "holder a' (StateItem u) \<noteq> None" if "u \<in> T" for u using ok(2) [OF that] by (simp add: r(4))
  ultimately have "sys_ok E T idle k' a'" using r(2) by (simp add: sys_ok_def)
  moreover have "sleeps_on (Resume t) k a k' a'"
  proof (rule sleeps_onI)
    fix u assume "asleep a u"
    then have "\<not> (susp \<and> u = t)" by (auto simp: susp_def asleep_def sleeping_def)
    then show "holder a' (StateItem u) = holder a (StateItem u) \<and> itemval a' (StateItem u) = itemval a (StateItem u)"
      by (auto simp: r(3,4))
  qed (simp_all add: r)
  ultimately show ?thesis using r(1) by auto
qed

lemma step_priority:
  assumes "sys_ok E T idle k a" and "allowed T idle (PrioritySet t p) k"
  shows "\<exists>k' a'. exec (PrioritySet t p) k = Some k' \<and> sys_ok E T idle k' a' \<and> sleeps_on (PrioritySet t p) k a k' a'"
proof -
  note ok = sys_okD [OF assms(1)]
  have al: "\<not> swi k" "t \<in> T" "p < configMAX_PRIORITIES" using assms(2) by simp_all
  define b where "b = set_priority p (tcb k t)"
  define c where "c = pxCurrentTCB k"
  obtain k' a' where r: "vTaskPrioritySet t p k = Some k'" "kernel_ok E T idle k' a'" "tcb k' = (tcb k)(t := b)"
    "holder a' = (if is_ready a t then (holder a)(StateItem t := Some (Ready (uxPriority b))) else holder a)"
    "\<forall>u. itemval a' (StateItem u) = itemval a (StateItem u)" "pxCurrentTCB k' = c" "xTickCount k' = xTickCount k"
    "uxSchedulerSuspended k' = uxSchedulerSuspended k" "xYieldPending k' = xYieldPending k"
    "swi k' = (swi k \<or> (if uxBasePriority (tcb k t) < p then t \<noteq> c \<and> uxPriority (tcb k c) \<le> p
          else p < uxBasePriority (tcb k t) \<and> t = c))"
    using priority_set_ok [OF ok(1) al(2,3) running_ready [OF assms(1) al(1)]] unfolding b_def [symmetric] c_def [symmetric] by blast
  have rd: "is_ready a' u \<longleftrightarrow> is_ready a u" for u by (auto simp: is_ready_def r(4))
  have pb: "uxPriority b = (if uxBasePriority (tcb k t) = uxPriority (tcb k t) then p else uxPriority (tcb k t))"
    by (simp add: b_def set_priority_def)
  have "preemptive k' a'"
  proof (cases "swi k' \<or> uxSchedulerSuspended k \<noteq> 0 \<and> xYieldPending k")
    case True
    then show ?thesis by (auto simp: preemptive_def r(8,9))
  next
    case False
    then have mx: "uxPriority (tcb k u) \<le> uxPriority (tcb k c)" if "is_ready a u" for u
      using ok(3) al(1) that by (auto simp: preemptive_def c_def)
    have "uxPriority (((tcb k)(t := b)) u) \<le> uxPriority (((tcb k)(t := b)) c)" if "is_ready a u" for u
      using False mx [OF that] unfolding r(10) by (auto simp: pb split: if_splits)
    then show ?thesis by (simp add: preemptive_def rd r(3,6))
  qed
  moreover have "holder a' (StateItem u) \<noteq> None" if "u \<in> T" for u using ok(2) [OF that] by (simp add: r(4))
  ultimately have "sys_ok E T idle k' a'" using r(2) by (simp add: sys_ok_def)
  moreover have "sleeps_on (PrioritySet t p) k a k' a'"
  proof (rule sleeps_onI)
    fix u assume "asleep a u"
    then have "\<not> (is_ready a t \<and> u = t)" using ready_not_asleep by blast
    then show "holder a' (StateItem u) = holder a (StateItem u) \<and> itemval a' (StateItem u) = itemval a (StateItem u)"
      using r(5) by (auto simp: r(4))
  qed (simp_all add: r)
  ultimately show ?thesis using r(1) by auto
qed

lemma step_ok:
  assumes "sys_ok E T idle k a" and "allowed T idle x k"
  shows "\<exists>k' a'. exec x k = Some k' \<and> sys_ok E T idle k' a' \<and> sleeps_on x k a k' a'"
proof (cases x)
  case Tick
  show ?thesis unfolding Tick by (rule step_tick [OF assms(1)])
next
  case YieldISR
  show ?thesis unfolding YieldISR by (rule step_yield [OF assms(1)])
next
  case (Delay d)
  show ?thesis unfolding Delay by (rule step_delay [OF assms(1) assms(2) [unfolded Delay]])
next
  case (DelayUntil p d)
  show ?thesis unfolding DelayUntil by (rule step_delay_until [OF assms(1) assms(2) [unfolded DelayUntil]])
next
  case SuspendAll
  show ?thesis unfolding SuspendAll by (rule step_suspend_all [OF assms(1) assms(2) [unfolded SuspendAll]])
next
  case ResumeAll
  show ?thesis unfolding ResumeAll by (rule step_resume_all [OF assms(1) assms(2) [unfolded ResumeAll]])
next
  case (Suspend t)
  show ?thesis unfolding Suspend by (rule step_suspend [OF assms(1) assms(2) [unfolded Suspend]])
next
  case (Resume t)
  show ?thesis unfolding Resume by (rule step_resume [OF assms(1) assms(2) [unfolded Resume]])
next
  case (PrioritySet t p)
  show ?thesis unfolding PrioritySet by (rule step_priority [OF assms(1) assms(2) [unfolded PrioritySet]])
qed

lemma reach_ok: "reach T idle k0 k \<Longrightarrow> sys_ok E T idle k0 a0 \<Longrightarrow> \<exists>a. sys_ok E T idle k a"
proof (induction rule: reach.induct)
  case (step k x k')
  then obtain a where "sys_ok E T idle k a" by blast
  from step_ok [OF this step.hyps(2)] step.hyps(3) show ?case by auto
qed blast

end
