(* ===== verification/KernelFrames.thy ===== *)
theory KernelFrames
  imports KernelRun
begin

text \<open>
  What every operation of the scheduler leaves alone, read off its code: a predicate that the scheduler's
  few primitives keep is kept by all its operations. One instance is the number of tasks, another the
  list and the value of the event items.
\<close>

section \<open>Predicates on results\<close>

definition has :: "('k \<Rightarrow> bool) \<Rightarrow> 'k option \<Rightarrow> bool" where
  "has P r \<longleftrightarrow> (\<forall>k. r = Some k \<longrightarrow> P k)"

definition gives :: "('k \<Rightarrow> bool) \<Rightarrow> ('a \<times> 'k) option \<Rightarrow> bool" where
  "gives P r \<longleftrightarrow> (\<forall>x k. r = Some (x, k) \<longrightarrow> P k)"

lemma has_Some [simp]: "has P (Some k) \<longleftrightarrow> P k" and has_None [simp]: "has P None"
  by (simp_all add: has_def)

lemma gives_Some [simp]: "gives P (Some (x, k)) \<longleftrightarrow> P k" and gives_None [simp]: "gives P None"
  by (simp_all add: gives_def)

lemma has_bind: "has P m \<Longrightarrow> (\<And>k. P k \<Longrightarrow> has R (f k)) \<Longrightarrow> has R (m \<bind> f)"
  and gives_bind: "has P m \<Longrightarrow> (\<And>k. P k \<Longrightarrow> gives R (g k)) \<Longrightarrow> gives R (m \<bind> g)"
  by (auto simp: has_def gives_def bind_eq_Some_conv)

lemma has_bind_pair: "gives P m \<Longrightarrow> (\<And>x k. P k \<Longrightarrow> has R (f x k)) \<Longrightarrow> has R (m \<bind> (\<lambda>(x, k). f x k))"
  and gives_bind_pair: "gives P m \<Longrightarrow> (\<And>x k. P k \<Longrightarrow> gives R (g x k)) \<Longrightarrow> gives R (m \<bind> (\<lambda>(x, k). g x k))"
  by (auto simp: has_def gives_def bind_eq_Some_conv)

lemma has_bind_any: "(\<And>x. has P (f x)) \<Longrightarrow> has P (m \<bind> f)" and gives_bind_any: "(\<And>x. gives P (g x)) \<Longrightarrow> gives P (m \<bind> g)"
  by (auto simp: has_def gives_def bind_eq_Some_conv)

lemma has_let: "P e \<Longrightarrow> (\<And>k. P k \<Longrightarrow> has R (f k)) \<Longrightarrow> has R (let k = e in f k)"
  and gives_let: "P e \<Longrightarrow> (\<And>k. P k \<Longrightarrow> gives R (g k)) \<Longrightarrow> gives R (let k = e in g k)"
  and has_let_any: "(\<And>x. has R (f' x)) \<Longrightarrow> has R (let x = e' in f' x)"
  and gives_let_any: "(\<And>x. gives R (g' x)) \<Longrightarrow> gives R (let x = e' in g' x)"
  by (simp_all add: Let_def)

lemma has_if: "(c \<Longrightarrow> has P a) \<Longrightarrow> (\<not> c \<Longrightarrow> has P b) \<Longrightarrow> has P (if c then a else b)"
  and gives_if: "(c' \<Longrightarrow> gives P a') \<Longrightarrow> (\<not> c' \<Longrightarrow> gives P b') \<Longrightarrow> gives P (if c' then a' else b')"
  by simp_all

lemma has_map_snd: "gives P m \<Longrightarrow> has P (map_option snd m)"
  by (auto simp: has_def gives_def)

section \<open>What the list operations do to the items\<close>

text \<open>Values and containers; the links are someone else's.\<close>

definition items_kept :: "('i, 'l, 'o) store \<Rightarrow> ('i, 'l, 'o) store \<Rightarrow> bool" where
  "items_kept s s' \<longleftrightarrow> (\<forall>j. xItemValue (item s' j) = xItemValue (item s j) \<and> pxContainer (item s' j) = pxContainer (item s j))"

definition item_moved :: "'i \<Rightarrow> 'l option \<Rightarrow> ('i, 'l, 'o) store \<Rightarrow> ('i, 'l, 'o) store \<Rightarrow> bool" where
  "item_moved i c s s' \<longleftrightarrow> (\<forall>j. xItemValue (item s' j) = xItemValue (item s j)
     \<and> pxContainer (item s' j) = (if j = i then c else pxContainer (item s j)))"

lemma kept_refl: "items_kept s s"
  by (simp add: items_kept_def)

lemma kept_trans: "items_kept s s1 \<Longrightarrow> items_kept s1 s2 \<Longrightarrow> items_kept s s2" and kept_moved: "items_kept s s1 \<Longrightarrow> item_moved i c s1 s2 \<Longrightarrow> item_moved i c s s2"
  and moved_kept: "item_moved i c s s1 \<Longrightarrow> items_kept s1 s2 \<Longrightarrow> item_moved i c s s2"
  by (auto simp: items_kept_def item_moved_def)

lemma kept_set_next: "set_next p q s = Some s' \<Longrightarrow> items_kept s s'" and kept_set_prev: "set_prev p q s = Some s' \<Longrightarrow> items_kept s s'"
  by (cases p; force simp: items_kept_def set_next.simps set_prev.simps upd_item_def upd_lst_def)+

lemma kept_upd_lst: "items_kept s (upd_lst l f s)" and moved_upd_item: "item_moved i c s (upd_item i (\<lambda>x. x\<lparr>pxContainer := c\<rparr>) s)"
  by (simp_all add: items_kept_def item_moved_def upd_item_def upd_lst_def)

lemma listREMOVE_ITEM_items: "listREMOVE_ITEM i s = Some s' \<Longrightarrow> item_moved i None s s'"
  unfolding listREMOVE_ITEM_def
  by (auto simp: bind_eq_Some_conv Let_def dest!: kept_set_next kept_set_prev
      intro!: moved_kept [OF _ kept_upd_lst] kept_moved [OF _ moved_upd_item] kept_upd_lst kept_refl elim!: kept_trans)

lemma uxListRemove_items: "uxListRemove i s = Some (n, s') \<Longrightarrow> item_moved i None s s'"
  unfolding uxListRemove_def
  by (auto simp: bind_eq_Some_conv Let_def dest!: kept_set_next kept_set_prev
      intro!: moved_kept [OF _ kept_upd_lst] kept_moved [OF _ moved_upd_item] kept_upd_lst kept_refl elim!: kept_trans)

lemma listINSERT_END_items: "listINSERT_END l i s = Some s' \<Longrightarrow> item_moved i (Some l) s s'"
  unfolding listINSERT_END_def
  by (auto simp: bind_eq_Some_conv Let_def dest!: kept_set_next kept_set_prev
      intro!: moved_kept [OF _ kept_upd_lst] kept_moved [OF _ moved_upd_item] kept_upd_lst kept_refl elim!: kept_trans)

lemma vListInsertEnd_items: "vListInsertEnd l i s = Some s' \<Longrightarrow> item_moved i (Some l) s s'"
  using listINSERT_END_items [of l i s s'] by (simp add: listINSERT_END_def vListInsertEnd_def)

lemma vListInsert_items: "vListInsert l i s = Some s' \<Longrightarrow> item_moved i (Some l) s s'"
  unfolding vListInsert_def
  by (auto simp: bind_eq_Some_conv Let_def dest!: kept_set_next kept_set_prev
      intro!: moved_kept [OF _ kept_upd_lst] kept_moved [OF _ moved_upd_item] kept_upd_lst kept_refl elim!: kept_trans)

lemma listGET_OWNER_OF_NEXT_ENTRY_items: "listGET_OWNER_OF_NEXT_ENTRY l s = Some (t, s') \<Longrightarrow> items_kept s s'"
proof -
  assume "listGET_OWNER_OF_NEXT_ENTRY l s = Some (t, s')"
  then show ?thesis unfolding listGET_OWNER_OF_NEXT_ENTRY_def
    by (auto simp: bind_eq_Some_conv Let_def split: if_splits intro: kept_upd_lst kept_trans [OF kept_upd_lst kept_upd_lst])
qed

section \<open>Predicates that every operation keeps\<close>

text \<open>
  A predicate on the lists and the number of tasks, kept by the list operations on state items, by leaving
  a list, by becoming pending, by a new value of an event item that no event group uses, and by going to
  wait on a list of \<open>A\<close>.
\<close>

locale kernel_frame =
  fixes P :: "kernel \<Rightarrow> bool" and A :: "list_id set"
  assumes same: "P k \<Longrightarrow> lists k' = lists k \<Longrightarrow> uxCurrentNumberOfTasks k' = uxCurrentNumberOfTasks k \<Longrightarrow> P k'"
    and kept: "P k \<Longrightarrow> items_kept (lists k) s \<Longrightarrow> P (k\<lparr>lists := s\<rparr>)"
    and removed: "P k \<Longrightarrow> item_moved i None (lists k) s \<Longrightarrow> P (k\<lparr>lists := s\<rparr>)"
    and moved_state: "P k \<Longrightarrow> item_moved (StateItem t) (Some l) (lists k) s \<Longrightarrow> P (k\<lparr>lists := s\<rparr>)"
    and made_pending: "P k \<Longrightarrow> item_moved i (Some PendingReadyList) (lists k) s \<Longrightarrow> P (k\<lparr>lists := s\<rparr>)"
    and waits: "P k \<Longrightarrow> l \<in> A \<Longrightarrow> item_moved (EventItem t) (Some l) (lists k) s \<Longrightarrow> P (k\<lparr>lists := s\<rparr>)"
    and state_value: "P k \<Longrightarrow> P (set_value (StateItem t) v k)"
    and event_value: "P k \<Longrightarrow> and (value_of (EventItem t) k) taskEVENT_LIST_ITEM_VALUE_IN_USE = 0 \<Longrightarrow> P (set_value (EventItem t) v k)"
begin

lemma fields:
  "P (k\<lparr>tcb := x1\<rparr>) = P k" "P (k\<lparr>pxCurrentTCB := x2\<rparr>) = P k" "P (k\<lparr>pxDelayedTaskList := x3\<rparr>) = P k"
  "P (k\<lparr>pxOverflowDelayedTaskList := x4\<rparr>) = P k" "P (k\<lparr>xTickCount := x5\<rparr>) = P k" "P (k\<lparr>uxTopReadyPriority := x6\<rparr>) = P k"
  "P (k\<lparr>xPendedTicks := x7\<rparr>) = P k" "P (k\<lparr>xYieldPending := x8\<rparr>) = P k" "P (k\<lparr>xNumOfOverflows := x9\<rparr>) = P k"
  "P (k\<lparr>xNextTaskUnblockTime := x10\<rparr>) = P k" "P (k\<lparr>uxSchedulerSuspended := x11\<rparr>) = P k" "P (k\<lparr>swi := x12\<rparr>) = P k"
  by (rule iffI; erule same; simp)+

lemma helpers:
  "P (yield k) = P k" "P (reset_ready p k) = P k" "P (taskRESET_READY_PRIORITY p k) = P k" "P (vTaskSuspendAll k) = P k" "P (upd_tcb t f k) = P k"
  by (simp_all add: yield_def reset_ready_def taskRESET_READY_PRIORITY_def vTaskSuspendAll_def upd_tcb_def fields)

lemma cases_P: "P (if c then a else b) = (if c then P a else P b)"
  by simp

lemmas plain = fields helpers cases_P state_value

lemma list_ops:
  assumes "P k"
  shows "has P (on_lists (listREMOVE_ITEM i) k)" "gives P (list_remove i k)" "has P (on_lists (listINSERT_END l (StateItem t)) k)"
    "has P (on_lists (listINSERT_END PendingReadyList i) k)" "has P (on_lists (vListInsertEnd l (StateItem t)) k)"
    "has P (on_lists (vListInsert l (StateItem t)) k)"
  using assms removed moved_state made_pending
  by (fastforce simp: has_def gives_def on_lists_def list_remove_def
      dest: listREMOVE_ITEM_items uxListRemove_items listINSERT_END_items vListInsertEnd_items vListInsert_items)+

lemma waits_on: "P k \<Longrightarrow> l \<in> A \<Longrightarrow> has P (on_lists (vListInsert l (EventItem t)) k)"
  using waits by (fastforce simp: has_def on_lists_def dest: vListInsert_items)

lemmas results = has_if gives_if list_ops has_let [where P = P] gives_let [where P = P] has_bind_pair [where P = P] gives_bind_pair [where P = P] has_bind [where P = P] gives_bind [where P = P]
  has_let_any gives_let_any has_bind_any gives_bind_any

lemma add_ready: "P k \<Longrightarrow> has P (prvAddTaskToReadyList t k)"
  unfolding prvAddTaskToReadyList_def by (rule results | simp add: plain)+

lemma reset_unblock: "P k \<Longrightarrow> has P (prvResetNextTaskUnblockTime k)"
  unfolding prvResetNextTaskUnblockTime_def by (rule results | simp add: plain)+

lemma switch_delayed: "P k \<Longrightarrow> has P (taskSWITCH_DELAYED_LISTS k)"
  unfolding taskSWITCH_DELAYED_LISTS_def by (rule reset_unblock results | simp add: plain)+

lemma select: "P k \<Longrightarrow> has P (taskSELECT_HIGHEST_PRIORITY_TASK k)"
  unfolding taskSELECT_HIGHEST_PRIORITY_TASK_def
  by (auto simp: has_def Let_def bind_eq_Some_conv fields(2) intro: kept dest!: listGET_OWNER_OF_NEXT_ENTRY_items
      kept [of k] same [of "k\<lparr>lists := s\<rparr>" "k\<lparr>lists := s, pxCurrentTCB := t\<rparr>" for s t])

lemma switch: "P k \<Longrightarrow> has P (vTaskSwitchContext k)"
  unfolding vTaskSwitchContext_def by (rule select results | simp add: plain)+

text \<open>The loops, by induction on the run.\<close>

lemma unblock_loop_keeps: "P k \<Longrightarrow> gives P (unblock_loop now b k)"
proof -
  have "P k \<longrightarrow> P (snd r)" if "unblock_loop now b k = Some r" for r
  proof (rule unblock_loop.raw_induct [OF _ that, where P = "\<lambda>now b k r. P k \<longrightarrow> P (snd r)"], goal_cases)
    case (1 f now b k r)
    have "gives P (f now b k)" if "P k" for now b k
      using 1(1) that by (fastforce simp: gives_def)
    note rules = this add_ready results
    have "gives P (Some r)" if "P k"
      unfolding 1(2) [symmetric] using that by - (rule rules | simp add: plain)+
    then show ?case by (cases r) simp
  qed
  then show "P k \<Longrightarrow> gives P (unblock_loop now b k)" by (fastforce simp: gives_def)
qed

lemma pending_loop_keeps: "P k \<Longrightarrow> gives P (pending_loop b k)"
proof -
  have "P k \<longrightarrow> P (snd r)" if "pending_loop b k = Some r" for r
  proof (rule pending_loop.raw_induct [OF _ that, where P = "\<lambda>b k r. P k \<longrightarrow> P (snd r)"], goal_cases)
    case (1 f b k r)
    have "gives P (f b k)" if "P k" for b k
      using 1(1) that by (fastforce simp: gives_def)
    note rules = this add_ready results
    have "gives P (Some r)" if "P k"
      unfolding 1(2) [symmetric] using that by - (rule rules | simp add: plain)+
    then show ?case by (cases r) simp
  qed
  then show "P k \<Longrightarrow> gives P (pending_loop b k)" by (fastforce simp: gives_def)
qed

lemma tick: "P k \<Longrightarrow> gives P (xTaskIncrementTick k)"
  unfolding xTaskIncrementTick_def by (rule unblock_loop_keeps switch_delayed results | simp add: plain)+

lemma pended_ticks_keep: "P k \<Longrightarrow> has P (pended_ticks i k)"
proof (induction i arbitrary: k)
  case (Suc i)
  show ?case unfolding pended_ticks.simps by (rule has_bind_pair [OF tick [OF Suc.prems]], rule Suc.IH) (simp add: plain)
qed simp

lemma resume_all_keeps: "P k \<Longrightarrow> gives P (xTaskResumeAll k)"
  unfolding xTaskResumeAll_def by (rule pending_loop_keeps reset_unblock pended_ticks_keep results | simp add: plain)+

lemma add_delayed: "P k \<Longrightarrow> has P (prvAddCurrentTaskToDelayedList d i k)"
  unfolding prvAddCurrentTaskToDelayedList_def by (rule results | simp add: plain)+

lemma event_priority: "P k \<Longrightarrow> P (set_event_priority t p k)"
  by (simp add: set_event_priority_def event_value)

lemma place_event: "P k \<Longrightarrow> l \<in> A \<Longrightarrow> has P (vTaskPlaceOnEventList l d k)"
  unfolding vTaskPlaceOnEventList_def by (rule waits_on add_delayed results | assumption)+

lemma remove_event_list: "P k \<Longrightarrow> gives P (xTaskRemoveFromEventList l k)"
  unfolding xTaskRemoveFromEventList_def ready_or_pend_def by (rule add_ready results | simp add: plain)+

lemma exec_keeps: "P k \<Longrightarrow> has P (exec x k)"
proof (cases x)
  assume k: "P k"
  {
    case Tick
    show ?thesis unfolding Tick exec.simps vPortIncrementTick_def using k by - (rule tick results | simp add: plain)+
  next
    case YieldISR
    show ?thesis unfolding YieldISR exec.simps vPortYieldISR_def using k by - (rule switch | simp add: plain)+
  next
    case (Delay d)
    show ?thesis unfolding Delay exec.simps vTaskDelay_def using k by - (rule resume_all_keeps add_delayed results | simp add: plain)+
  next
    case (DelayUntil p d)
    have "has P (do { (b, w, k) \<leftarrow> xTaskDelayUntil p d k; Some k })"
      unfolding xTaskDelayUntil_def using k
      by (auto simp: has_def bind_eq_Some_conv Let_def plain dest!: resume_all_keeps [unfolded gives_def, rule_format, rotated]
           add_delayed [unfolded has_def, rule_format, rotated] split: if_splits prod.splits)
    then show ?thesis unfolding DelayUntil by (cases "xTaskDelayUntil p d k") auto
  next
    case (Suspend t)
    show ?thesis unfolding Suspend exec.simps vTaskSuspend_def remove_state_def remove_event_def using k
      by - (rule reset_unblock switch results | simp add: plain)+
  next
    case (Resume t)
    show ?thesis unfolding Resume exec.simps vTaskResume_def using k by - (rule add_ready results | simp add: plain)+
  next
    case (PrioritySet t p)
    show ?thesis unfolding PrioritySet exec.simps vTaskPrioritySet_def using k
      by - (rule add_ready results | simp add: plain event_priority)+
  next
    case SuspendAll
    then show ?thesis using k by (simp add: plain)
  next
    case ResumeAll
    then show ?thesis using has_map_snd [OF resume_all_keeps [OF k]] by simp
  }
qed

end

section \<open>The number of tasks\<close>

text \<open>Only creation and deletion change it.\<close>

interpretation counts: kernel_frame "\<lambda>k. uxCurrentNumberOfTasks k = n" A for n A
  by unfold_locales (simp_all add: set_value_def)

section \<open>Event items\<close>

text \<open>
  Whoever waits on a list outside \<open>A\<close> in \<open>k\<close> waited there in \<open>k0\<close> already, and values that an event
  group uses are the same.
\<close>

definition used :: "task \<Rightarrow> kernel \<Rightarrow> bool" where
  "used t k \<longleftrightarrow> and (value_of (EventItem t) k) taskEVENT_LIST_ITEM_VALUE_IN_USE \<noteq> 0"

definition events_kept :: "list_id set \<Rightarrow> kernel \<Rightarrow> kernel \<Rightarrow> bool" where
  "events_kept A k0 k \<longleftrightarrow> (\<forall>t. used t k0 \<longrightarrow> value_of (EventItem t) k = value_of (EventItem t) k0)
     \<and> (\<forall>t e. container (EventItem t) k = Some (EventList e) \<longrightarrow> EventList e \<in> A \<or> container (EventItem t) k0 = Some (EventList e))"

lemma events_kept_refl: "events_kept A k k"
  by (simp add: events_kept_def)

lemma events_kept_trans: "events_kept A k k1 \<Longrightarrow> events_kept A k1 k2 \<Longrightarrow> events_kept A k k2"
  unfolding events_kept_def used_def by metis

lemma store_read [simp]: "value_of i (k\<lparr>lists := s\<rparr>) = xItemValue (item s i)" "container i (k\<lparr>lists := s\<rparr>) = pxContainer (item s i)"
  by (simp_all add: value_of_def container_def)

interpretation events: kernel_frame "events_kept A k0" A for A k0
proof unfold_locales
  show "events_kept A k0 k'" if "events_kept A k0 k" "lists k' = lists k" for k k'
    using that by (simp add: events_kept_def value_of_def container_def)
  show "events_kept A k0 (k\<lparr>lists := s\<rparr>)" if "events_kept A k0 k" "items_kept (lists k) s" for k s
    using that by (simp add: events_kept_def items_kept_def) (simp add: value_of_def container_def)
  show "events_kept A k0 (k\<lparr>lists := s\<rparr>)" if "events_kept A k0 k" "item_moved i None (lists k) s" for i k s
    using that by (simp add: events_kept_def item_moved_def) (simp add: value_of_def container_def)
  show "events_kept A k0 (k\<lparr>lists := s\<rparr>)" if "events_kept A k0 k" "item_moved (StateItem t) (Some l) (lists k) s" for t l k s
    using that by (simp add: events_kept_def item_moved_def) (simp add: value_of_def container_def)
  show "events_kept A k0 (k\<lparr>lists := s\<rparr>)" if "events_kept A k0 k" "item_moved i (Some PendingReadyList) (lists k) s" for i k s
    using that by (simp add: events_kept_def item_moved_def) (simp add: value_of_def container_def)
  show "events_kept A k0 (k\<lparr>lists := s\<rparr>)" if "events_kept A k0 k" "l \<in> A" "item_moved (EventItem t) (Some l) (lists k) s" for k l t s
    using that by (simp add: events_kept_def item_moved_def) (auto simp: value_of_def container_def)
  show "events_kept A k0 (set_value (StateItem t) v k)" if "events_kept A k0 k" for t v k
    using that by (simp add: events_kept_def set_value_def listSET_LIST_ITEM_VALUE_def upd_item_def) (simp add: value_of_def container_def)
  show "events_kept A k0 (set_value (EventItem t) v k)" if "events_kept A k0 k" "and (value_of (EventItem t) k) taskEVENT_LIST_ITEM_VALUE_IN_USE = 0" for k t v
    using that by (simp add: events_kept_def set_value_def listSET_LIST_ITEM_VALUE_def upd_item_def) (auto simp: value_of_def container_def used_def)
qed

end
