(* ===== verification/KernelEvents.thy ===== *)
theory KernelEvents
  imports KernelFrames
begin

text \<open>
  What queues and event groups need of the scheduler: waking the first task of an event list, going to
  wait on one, and releasing the scheduler lock after that.
\<close>

section \<open>The invariant while a task is on its way to sleep\<close>

text \<open>What holds also between the moment a task left its ready list and the release of the scheduler lock.\<close>

definition kernel_core :: "u32 set \<Rightarrow> task set \<Rightarrow> task \<Rightarrow> kernel \<Rightarrow> (item_id, list_id) alists \<Rightarrow> bool" where
  "kernel_core E T idle k a \<longleftrightarrow> kernel_inv E T k a \<and> settled k a \<and> is_ready a idle \<and> xSchedulerRunning k"

lemma kernel_ok_core:
  "kernel_ok E T idle k a \<longleftrightarrow> kernel_core E T idle k a \<and> (is_ready a (pxCurrentTCB k) \<or> swi k \<and> uxSchedulerSuspended k = 0)"
  by (auto simp: kernel_ok_def kernel_core_def)

lemma kernel_coreD:
  assumes "kernel_core E T idle k a"
  shows "kernel_inv E T k a" "kernel_base E T k a" "times_ok k a" "settled k a" "waits_ok a" "is_ready a idle"
    "xSchedulerRunning k" "uxCurrentNumberOfTasks k > 0"
    "uxSchedulerSuspended k = 0 \<Longrightarrow> xPendedTicks k = 0" "uxSchedulerSuspended k = 0 \<Longrightarrow> \<not> pending a t"
  using assms by (auto simp: kernel_core_def kernel_inv_def settled_def)

lemma core_frame [simp]:
  "kernel_core E T idle (k\<lparr>xYieldPending := b\<rparr>) a = kernel_core E T idle k a"
  "kernel_core E T idle (k\<lparr>swi := b\<rparr>) a = kernel_core E T idle k a"
  by (simp_all add: kernel_core_def settled_def)

text \<open>An event list holds event items.\<close>

lemma event_item: "kernel_base E T k a \<Longrightarrow> holder a i = Some (EventList e) \<Longrightarrow> i = EventItem (task_of i)"
  using base_home(3) [of E T k a i "EventList e"] by (cases i) auto

section \<open>Waking the first task of an event list\<close>

text \<open>Ready at once, or pending while the scheduler is suspended.\<close>

definition woken_on :: "kernel \<Rightarrow> task \<Rightarrow> (item_id \<rightharpoonup> list_id) \<Rightarrow> item_id \<rightharpoonup> list_id" where
  "woken_on k t f = (if uxSchedulerSuspended k = 0
     then f(StateItem t := Some (Ready (uxPriority (tcb k t))), EventItem t := None)
     else f(EventItem t := Some PendingReadyList))"

lemma ready_or_pend_ok:
  assumes "kernel_base E T k a" and "holder a (EventItem t) = None" and "t \<in> T"
    and "m \<in> insert SuspendedTaskList sleeping" and "holder a (StateItem t) = Some m"
  shows "\<exists>s w a'. ready_or_pend t k = Some (k\<lparr>lists := s, uxTopReadyPriority := w\<rparr>)
    \<and> kernel_base E T (k\<lparr>lists := s, uxTopReadyPriority := w\<rparr>) a' \<and> holder a' = woken_on k t (holder a) \<and> itemval a' = itemval a
    \<and> (\<forall>e. elems a' (EventList e) = elems a (EventList e))"
proof (cases "uxSchedulerSuspended k = 0")
  case True
  have m: "\<forall>p. m \<noteq> Ready p" "\<forall>e. m \<noteq> EventList e" using assms(4) by (auto simp: sleeping_def)
  define a1 where "a1 = a_remove (StateItem t) a"
  obtain s1 where s1: "on_lists (listREMOVE_ITEM (StateItem t)) k = Some (k\<lparr>lists := s1\<rparr>)" "kernel_base E T (k\<lparr>lists := s1\<rparr>) a1"
    using remove_base [OF assms(1,5) m(1)] unfolding a1_def by blast
  have n1: "holder a1 (StateItem t) = None" by (simp add: a1_def)
  define w where "w = portRECORD_READY_PRIORITY (uxPriority (tcb k t)) (uxTopReadyPriority k)"
  define a2 where "a2 = a_insert_end (Ready (uxPriority (tcb k t))) (StateItem t) a1"
  obtain s2 where s2: "prvAddTaskToReadyList t (k\<lparr>lists := s1\<rparr>) = Some (k\<lparr>lists := s2, uxTopReadyPriority := w\<rparr>)"
      "kernel_base E T (k\<lparr>lists := s2, uxTopReadyPriority := w\<rparr>) a2"
    using add_ready_base [OF s1(2) assms(3) n1] unfolding w_def a2_def by auto
  have "holder a2 = woken_on k t (holder a)" using assms(2) True by (auto simp: a2_def a1_def woken_on_def)
  moreover have "elems a2 (EventList e) = elems a (EventList e)" for e
    using m(2) assms(5) by (simp add: a2_def a1_def elems_insert_other elems_remove)
  ultimately show ?thesis using True s1(1) s2
    by (intro exI [of _ s2] exI [of _ w] exI [of _ a2]) (simp add: ready_or_pend_def a2_def a1_def)
next
  case False
  define a2 where "a2 = a_insert_end PendingReadyList (EventItem t) a"
  obtain s where s: "on_lists (listINSERT_END PendingReadyList (EventItem t)) k = Some (k\<lparr>lists := s\<rparr>)" "kernel_base E T (k\<lparr>lists := s\<rparr>) a2"
    using insert_end_base [OF assms(1,2), of PendingReadyList] assms(3) unfolding a2_def by (auto simp: sleeping_def)
  then show ?thesis using False
    by (intro exI [of _ s] exI [of _ "uxTopReadyPriority k"] exI [of _ a2])
       (simp add: ready_or_pend_def woken_on_def a2_def elems_insert_other)
qed

lemma remove_event_wakes:
  assumes "kernel_core E T idle k a" and "e \<in> E" and "elems a (EventList e) = i # xs"
  shows "\<exists>k' a'. xTaskRemoveFromEventList (EventList e) k = Some (uxPriority (tcb k (pxCurrentTCB k)) < uxPriority (tcb k (task_of i)), k')
    \<and> kernel_core E T idle k' a' \<and> i = EventItem (task_of i) \<and> task_of i \<in> T
    \<and> holder a' = woken_on k (task_of i) (holder a) \<and> itemval a' = itemval a
    \<and> (\<forall>f. elems a' (EventList f) = (if f = e then xs else elems a (EventList f)))
    \<and> tcb k' = tcb k \<and> pxCurrentTCB k' = pxCurrentTCB k \<and> xTickCount k' = xTickCount k \<and> swi k' = swi k \<and> xPendedTicks k' = xPendedTicks k
    \<and> uxSchedulerSuspended k' = uxSchedulerSuspended k \<and> uxCurrentNumberOfTasks k' = uxCurrentNumberOfTasks k
    \<and> xNumOfOverflows k' = xNumOfOverflows k
    \<and> (xYieldPending k' \<longleftrightarrow> xYieldPending k \<or> uxPriority (tcb k (pxCurrentTCB k)) < uxPriority (tcb k (task_of i)))"
proof -
  note core = kernel_coreD [OF assms(1)]
  define t where "t = task_of i"
  have l: "EventList e \<in> kernel_lists E" using assms(2) by simp
  note hd = head_owner_task [OF core(2) l assms(3), folded t_def]
  have i: "i = EventItem t" unfolding t_def by (rule event_item [OF core(2) hd(2)])
  have t0: "t \<noteq> 0" using tasks_okD(2) [OF kernel_baseD(2) [OF core(2)] hd(3)] .
  obtain m where m: "m \<in> insert SuspendedTaskList sleeping" "holder a (StateItem t) = Some m"
    using core(5) hd(2) unfolding waits_ok_def i by blast
  have mn: "m \<noteq> EventList f" "m \<noteq> PendingReadyList" for f using m(1) by (auto simp: sleeping_def)
  define a1 where "a1 = a_remove (EventItem t) a"
  obtain s1 where s1: "on_lists (listREMOVE_ITEM (EventItem t)) k = Some (k\<lparr>lists := s1\<rparr>)" "kernel_base E T (k\<lparr>lists := s1\<rparr>) a1"
    using remove_base [OF core(2) hd(2)] unfolding a1_def i by blast
  have h1: "holder a1 (EventItem t) = None" "holder a1 (StateItem t) = Some m" by (simp_all add: a1_def m(2))
  obtain s2 w a2 where s2: "ready_or_pend t (k\<lparr>lists := s1\<rparr>) = Some (k\<lparr>lists := s2, uxTopReadyPriority := w\<rparr>)"
      "kernel_base E T (k\<lparr>lists := s2, uxTopReadyPriority := w\<rparr>) a2" "holder a2 = woken_on (k\<lparr>lists := s1\<rparr>) t (holder a1)" "itemval a2 = itemval a1"
      "\<forall>f. elems a2 (EventList f) = elems a1 (EventList f)"
    using ready_or_pend_ok [OF s1(2) h1(1) hd(3) m(1) h1(2)] by auto
  define b where "b \<longleftrightarrow> uxPriority (tcb k (pxCurrentTCB k)) < uxPriority (tcb k t)"
  define k2 where "k2 = k\<lparr>lists := s2, uxTopReadyPriority := w\<rparr>"
  define k' where "k' = (if b then k2\<lparr>xYieldPending := True\<rparr> else k2)"
  have h2: "holder a2 = woken_on k t (holder a)" "itemval a2 = itemval a"
    by (auto simp: s2(3,4) woken_on_def a1_def)
  have e2: "elems a2 (EventList f) = (if f = e then xs else elems a (EventList f))" for f
  proof -
    have "distinct (i # xs)" using repD(2) [OF kernel_baseD(1) [OF core(2)] l] assms(3) by simp
    then have "filter (\<lambda>j. j \<noteq> i) (i # xs) = xs" by (auto simp: filter_id_conv)
    then show ?thesis using s2(5) hd(2) assms(3) i by (auto simp: a1_def elems_remove)
  qed
  have sl: "holder a2 j = Some l \<longleftrightarrow> (j \<noteq> StateItem t \<or> uxSchedulerSuspended k \<noteq> 0) \<and> holder a j = Some l" if "l \<in> sleeping" for j l
    using that hd(2) i unfolding h2 woken_on_def by (auto simp: sleeping_def)
  have tm: "times_ok k2 a2"
    using core(3) delayed_sleeping(1,2) [OF core(2)] sl unfolding times_ok_def h2(2) by (simp add: k2_def)
  have wt: "waits_ok a2" using core(5) m by (auto simp: waits_ok_def h2 woken_on_def)
  have pd: "\<not> pending a2 u" if "uxSchedulerSuspended k = 0" for u
    using core(10) [OF that, of u] that by (auto simp: pending_def h2 woken_on_def)
  have rd: "is_ready a2 u" if "is_ready a u" for u using that by (auto simp: is_ready_def h2 woken_on_def)
  have "kernel_core E T idle k2 a2"
    using s2(2) tm wt pd rd [OF core(6)] core(7-9) by (simp add: kernel_core_def kernel_inv_def settled_def k2_def)
  then have "kernel_core E T idle k' a2" by (simp add: k'_def)
  moreover have "xTaskRemoveFromEventList (EventList e) k = Some (b, k')"
  proof -
    have tok: "tasks_ok T k2" using kernel_baseD(2) [OF s2(2)] by (simp add: k2_def)
    have "TCB t k2 = Some (tcb k t)" using TCB_task [OF tok hd(3)] by (simp add: k2_def)
    moreover have "TCB (pxCurrentTCB k) k2 = Some (tcb k (pxCurrentTCB k))"
      using TCB_task [OF tok tasks_okD(1) [OF tok]] by (simp add: k2_def)
    ultimately show ?thesis
      using hd(1) t0 s1(1) s2(1) by (simp add: xTaskRemoveFromEventList_def k2_def [symmetric] k'_def b_def) (simp add: k2_def)
  qed
  ultimately show ?thesis using h2 e2 i hd(3) unfolding t_def [symmetric] b_def [symmetric]
    by (intro exI [of _ k'] exI [of _ a2]) (simp add: k'_def k2_def)
qed

section \<open>Going to wait on an event list\<close>

text \<open>The second half of both calls: the event item of the running task is on its event list.\<close>

lemma sleep_on_event_for:
  assumes "kernel_ok E T idle k a" and "uxSchedulerSuspended k \<noteq> 0" and "pxCurrentTCB k \<noteq> idle" and "0 < d"
    and "kernel_base E T (k\<lparr>lists := s\<rparr>) a1" and "holder a1 = (holder a)(EventItem (pxCurrentTCB k) := Some (EventList e))"
    and "\<And>u. itemval a1 (StateItem u) = itemval a (StateItem u)"
  defines "t \<equiv> pxCurrentTCB k"
  shows "\<exists>k' a'. prvAddCurrentTaskToDelayedList d indef (k\<lparr>lists := s\<rparr>) = Some k' \<and> kernel_core E T idle k' a'
    \<and> (if d = portMAX_DELAY \<and> indef
       then holder a' = (holder a)(EventItem t := Some (EventList e), StateItem t := Some SuspendedTaskList) \<and> itemval a' = itemval a1
       else (\<exists>m \<in> sleeping. holder a' = (holder a)(EventItem t := Some (EventList e), StateItem t := Some m))
          \<and> itemval a' = (itemval a1)(StateItem t := xTickCount k + d))
    \<and> (\<forall>f. elems a' (EventList f) = elems a1 (EventList f))
    \<and> tcb k' = tcb k \<and> pxCurrentTCB k' = t \<and> xTickCount k' = xTickCount k \<and> swi k' = swi k \<and> xPendedTicks k' = xPendedTicks k
    \<and> uxSchedulerSuspended k' = uxSchedulerSuspended k \<and> uxCurrentNumberOfTasks k' = uxCurrentNumberOfTasks k
    \<and> xYieldPending k' = xYieldPending k"
proof -
  note ok = kernel_okD [OF assms(1)]
  note h1 = assms(6) [folded t_def]
  have rd: "is_ready a t" using ok(8) assms(2) by (simp add: t_def)
  define k1 where "k1 = k\<lparr>lists := s\<rparr>"
  have "times_ok k1 a1"
    unfolding times_ok_def
  proof (intro conjI allI impI)
    have st: "\<exists>u. i = StateItem u" if "holder a1 i = Some l" "l \<in> sleeping" for i l
      using base_home(3) [OF assms(5) that(1)] that(2) by (cases i) (auto simp: sleeping_def)
    have old: "holder a i = Some l" if "holder a1 i = Some l" "l \<in> sleeping" for i l
      using that h1 by (auto simp: sleeping_def split: if_splits)
    have iv: "itemval a1 i = itemval a i" if "holder a1 i = Some l" "l \<in> sleeping" for i l using st [OF that] assms(7) by auto
    note ds = delayed_sleeping(1,2) [OF ok(2)]
    show "xTickCount k1 < itemval a1 i" "xNextTaskUnblockTime k1 \<le> itemval a1 i" if "holder a1 i = Some (pxDelayedTaskList k1)" for i
      using that old [OF _ ds(1)] iv [OF _ ds(1)] ok(3) by (simp_all add: times_ok_def k1_def)
    show "itemval a1 i < xTickCount k1" if "holder a1 i = Some (pxOverflowDelayedTaskList k1)" for i
      using that old [OF _ ds(2)] iv [OF _ ds(2)] ok(3) by (simp add: times_ok_def k1_def)
  qed
  then have inv1: "kernel_inv E T k1 a1" using assms(5) by (simp add: kernel_inv_def k1_def)
  have hs: "holder a1 (StateItem t) = Some (Ready (uxPriority (tcb k1 t)))"
    using ready_holder [OF ok(2) rd] by (simp add: h1 k1_def)
  have tk: "t = pxCurrentTCB k1" by (simp add: k1_def t_def)
  obtain s2 w v a2 where r: "prvAddCurrentTaskToDelayedList d indef k1 = Some (k1\<lparr>lists := s2, uxTopReadyPriority := w, xNextTaskUnblockTime := v\<rparr>)"
      "kernel_inv E T (k1\<lparr>lists := s2, uxTopReadyPriority := w, xNextTaskUnblockTime := v\<rparr>) a2"
      "if d = portMAX_DELAY \<and> indef
       then holder a2 = (holder a1)(StateItem t := Some SuspendedTaskList) \<and> itemval a2 = itemval a1
       else holder a2 = (holder a1)(StateItem t := Some (if xTickCount k1 + d < xTickCount k1 then pxOverflowDelayedTaskList k1 else pxDelayedTaskList k1))
          \<and> itemval a2 = (itemval a1)(StateItem t := xTickCount k1 + d)"
      "\<forall>f. elems a2 (EventList f) = elems a1 (EventList f)"
    using sleep_step [OF inv1 hs tk assms(4), of indef] by blast
  define k2 where "k2 = k1\<lparr>lists := s2, uxTopReadyPriority := w, xNextTaskUnblockTime := v\<rparr>"
  have f2: "tcb k2 = tcb k" "pxCurrentTCB k2 = t" "xTickCount k2 = xTickCount k" "swi k2 = swi k" "xPendedTicks k2 = xPendedTicks k"
    "uxSchedulerSuspended k2 = uxSchedulerSuspended k" "uxCurrentNumberOfTasks k2 = uxCurrentNumberOfTasks k" "xSchedulerRunning k2 = xSchedulerRunning k"
    "xYieldPending k2 = xYieldPending k"
    by (simp_all add: k2_def k1_def t_def)
  define m where "m = (if d = portMAX_DELAY \<and> indef then SuspendedTaskList
     else if xTickCount k + d < xTickCount k then pxOverflowDelayedTaskList k else pxDelayedTaskList k)"
  have h2: "holder a2 = (holder a)(EventItem t := Some (EventList e), StateItem t := Some m)"
    using r(3) by (simp add: m_def h1 k1_def split: if_splits)
  have m: "m \<in> insert SuspendedTaskList sleeping" "\<not> (d = portMAX_DELAY \<and> indef) \<Longrightarrow> m \<in> sleeping"
    using delayed_sleeping(1,2) [OF ok(2)] by (auto simp: m_def)
  have "waits_ok a2" using ok(5) m(1) by (auto simp: waits_ok_def h2)
  moreover have "is_ready a2 idle" using ok(6) assms(3) by (simp add: is_ready_def h2 t_def)
  ultimately have "kernel_core E T idle k2 a2"
    using r(2) ok(7,9) assms(2) f2 by (simp add: kernel_core_def settled_def k2_def)
  moreover have "itemval a2 = (if d = portMAX_DELAY \<and> indef then itemval a1 else (itemval a1)(StateItem t := xTickCount k + d))"
    using r(3) by (simp add: k1_def split: if_splits)
  ultimately show ?thesis using h2 m r(1,4) f2 unfolding t_def [symmetric]
    by (intro exI [of _ k2] exI [of _ a2]) (auto simp: m_def k1_def k2_def)
qed

lemmas sleep_on_event = sleep_on_event_for [where indef = True, simplified simp_thms]

lemma place_event_waits:
  assumes "kernel_ok E T idle k a" and "uxSchedulerSuspended k \<noteq> 0" and "pxCurrentTCB k \<noteq> idle" and "e \<in> E" and "0 < d"
  defines "t \<equiv> pxCurrentTCB k"
  shows "\<exists>k' a'. vTaskPlaceOnEventList (EventList e) d k = Some k' \<and> kernel_core E T idle k' a'
    \<and> (if d = portMAX_DELAY
       then holder a' = (holder a)(EventItem t := Some (EventList e), StateItem t := Some SuspendedTaskList) \<and> itemval a' = itemval a
       else (\<exists>m \<in> sleeping. holder a' = (holder a)(EventItem t := Some (EventList e), StateItem t := Some m))
          \<and> itemval a' = (itemval a)(StateItem t := xTickCount k + d))
    \<and> (\<forall>f. elems a' (EventList f) = elems (a_insert (EventList e) (EventItem t) a) (EventList f))
    \<and> tcb k' = tcb k \<and> pxCurrentTCB k' = t \<and> xTickCount k' = xTickCount k \<and> swi k' = swi k \<and> xPendedTicks k' = xPendedTicks k
    \<and> uxSchedulerSuspended k' = uxSchedulerSuspended k \<and> uxCurrentNumberOfTasks k' = uxCurrentNumberOfTasks k
    \<and> xYieldPending k' = xYieldPending k"
proof -
  note ok = kernel_okD [OF assms(1)]
  have rd: "is_ready a t" using ok(8) assms(2) by (simp add: t_def)
  define a1 where "a1 = a_insert (EventList e) (EventItem t) a"
  obtain s where s: "on_lists (vListInsert (EventList e) (EventItem t)) k = Some (k\<lparr>lists := s\<rparr>)" "kernel_base E T (k\<lparr>lists := s\<rparr>) a1"
    using insert_base [OF ok(2) ready_no_event [OF ok(5) rd], of "EventList e"] assms(4) ready_task [OF ok(2) rd] unfolding a1_def by auto
  have "vTaskPlaceOnEventList (EventList e) d k = prvAddCurrentTaskToDelayedList d True (k\<lparr>lists := s\<rparr>)"
    using s(1) by (simp add: vTaskPlaceOnEventList_def t_def [symmetric])
  moreover have "itemval a1 = itemval a" "holder a1 = (holder a)(EventItem t := Some (EventList e))" by (simp_all add: a1_def)
  ultimately show ?thesis using sleep_on_event [OF assms(1-3,5) s(2), of e] unfolding t_def [symmetric] a1_def [symmetric] by metis
qed

text \<open>With a value of the caller's in the event item, at the end of the list.\<close>

lemma place_unordered_waits:
  assumes "kernel_ok E T idle k a" and "uxSchedulerSuspended k \<noteq> 0" and "pxCurrentTCB k \<noteq> idle" and "e \<in> E" and "0 < d"
  defines "t \<equiv> pxCurrentTCB k"
  shows "\<exists>k' a'. vTaskPlaceOnUnorderedEventList (EventList e) v d k = Some k' \<and> kernel_core E T idle k' a'
    \<and> (if d = portMAX_DELAY
       then holder a' = (holder a)(EventItem t := Some (EventList e), StateItem t := Some SuspendedTaskList) \<and> itemval a' = (itemval a)(EventItem t := or v taskEVENT_LIST_ITEM_VALUE_IN_USE)
       else (\<exists>m \<in> sleeping. holder a' = (holder a)(EventItem t := Some (EventList e), StateItem t := Some m))
          \<and> itemval a' = (itemval a)(EventItem t := or v taskEVENT_LIST_ITEM_VALUE_IN_USE, StateItem t := xTickCount k + d))
    \<and> tcb k' = tcb k \<and> pxCurrentTCB k' = t \<and> xTickCount k' = xTickCount k \<and> swi k' = swi k \<and> xPendedTicks k' = xPendedTicks k
    \<and> uxSchedulerSuspended k' = uxSchedulerSuspended k \<and> uxCurrentNumberOfTasks k' = uxCurrentNumberOfTasks k
    \<and> xYieldPending k' = xYieldPending k"
proof -
  define w where "w = or v taskEVENT_LIST_ITEM_VALUE_IN_USE"
  note ok = kernel_okD [OF assms(1)]
  have rd: "is_ready a t" using ok(8) assms(2) by (simp add: t_def)
  have t: "t \<in> T" by (rule ready_task [OF ok(2) rd])
  have ne: "holder a (EventItem t) = None" by (rule ready_no_event [OF ok(5) rd])
  define k0 where "k0 = set_value (EventItem t) w k"
  define a0 where "a0 = a_set_value (EventItem t) w a"
  have b0: "kernel_base E T k0 a0" unfolding k0_def a0_def by (rule set_value_base [OF ok(2)]) (simp add: ne)
  have k0: "k0\<lparr>lists := s\<rparr> = k\<lparr>lists := s\<rparr>" for s by (simp add: k0_def set_value_def)
  define a1 where "a1 = a_insert_end (EventList e) (EventItem t) a0"
  have n0: "holder a0 (EventItem t) = None" by (simp add: a0_def ne)
  obtain s where s: "on_lists (listINSERT_END (EventList e) (EventItem t)) k0 = Some (k\<lparr>lists := s\<rparr>)" "kernel_base E T (k\<lparr>lists := s\<rparr>) a1"
    using insert_end_base [OF b0 n0, of "EventList e"] assms(4) t k0 unfolding a1_def by (auto simp: sleeping_def)
  have "vTaskPlaceOnUnorderedEventList (EventList e) v d k = prvAddCurrentTaskToDelayedList d True (k\<lparr>lists := s\<rparr>)"
    using s(1) assms(2) by (simp add: vTaskPlaceOnUnorderedEventList_def t_def [symmetric] w_def [symmetric] k0_def [symmetric])
       (simp add: k0_def set_value_def t_def)
  moreover have h: "holder a1 = (holder a)(EventItem t := Some (EventList e))" "itemval a1 = (itemval a)(EventItem t := w)" by (simp_all add: a1_def a0_def)
  moreover have "itemval a1 (StateItem u) = itemval a (StateItem u)" for u by (simp add: h)
  ultimately show ?thesis using sleep_on_event [OF assms(1-3,5) s(2), of e] unfolding t_def [symmetric] w_def [symmetric] h by metis
qed

text \<open>At the end of the list, for ever or not: the timer task.\<close>

lemma place_restricted_waits:
  assumes "kernel_ok E T idle k a" and "uxSchedulerSuspended k \<noteq> 0" and "pxCurrentTCB k \<noteq> idle" and "e \<in> E" and "0 < d \<or> indef"
  defines "t \<equiv> pxCurrentTCB k"
  shows "\<exists>k' a'. vTaskPlaceOnEventListRestricted (EventList e) d indef k = Some k' \<and> kernel_core E T idle k' a'
    \<and> (if indef
       then holder a' = (holder a)(EventItem t := Some (EventList e), StateItem t := Some SuspendedTaskList) \<and> itemval a' = itemval a
       else (\<exists>m \<in> sleeping. holder a' = (holder a)(EventItem t := Some (EventList e), StateItem t := Some m))
          \<and> itemval a' = (itemval a)(StateItem t := xTickCount k + d))
    \<and> (\<forall>f. elems a' (EventList f) = elems (a_insert_end (EventList e) (EventItem t) a) (EventList f))
    \<and> tcb k' = tcb k \<and> pxCurrentTCB k' = t \<and> xTickCount k' = xTickCount k \<and> swi k' = swi k \<and> xPendedTicks k' = xPendedTicks k
    \<and> uxSchedulerSuspended k' = uxSchedulerSuspended k \<and> uxCurrentNumberOfTasks k' = uxCurrentNumberOfTasks k
    \<and> xYieldPending k' = xYieldPending k"
proof -
  note ok = kernel_okD [OF assms(1)]
  have rd: "is_ready a t" using ok(8) assms(2) by (simp add: t_def)
  define a1 where "a1 = a_insert_end (EventList e) (EventItem t) a"
  define w where "w = (if indef then portMAX_DELAY else d)"
  obtain s where s: "on_lists (listINSERT_END (EventList e) (EventItem t)) k = Some (k\<lparr>lists := s\<rparr>)" "kernel_base E T (k\<lparr>lists := s\<rparr>) a1"
    using insert_end_base [OF ok(2) ready_no_event [OF ok(5) rd], of "EventList e"] assms(4) ready_task [OF ok(2) rd] unfolding a1_def by (auto simp: sleeping_def)
  have code: "vTaskPlaceOnEventListRestricted (EventList e) d indef k = prvAddCurrentTaskToDelayedList w indef (k\<lparr>lists := s\<rparr>)"
    using s(1) by (simp add: vTaskPlaceOnEventListRestricted_def t_def [symmetric] w_def)
  have "0 < w" using assms(5) by (auto simp: w_def portMAX_DELAY_def)
  moreover have "itemval a1 = itemval a" "holder a1 = (holder a)(EventItem t := Some (EventList e))" by (simp_all add: a1_def)
  ultimately obtain k' a' where r: "prvAddCurrentTaskToDelayedList w indef (k\<lparr>lists := s\<rparr>) = Some k'" "kernel_core E T idle k' a'"
      "if w = portMAX_DELAY \<and> indef
       then holder a' = (holder a)(EventItem t := Some (EventList e), StateItem t := Some SuspendedTaskList) \<and> itemval a' = itemval a1
       else (\<exists>m \<in> sleeping. holder a' = (holder a)(EventItem t := Some (EventList e), StateItem t := Some m))
          \<and> itemval a' = (itemval a1)(StateItem t := xTickCount k + w)"
      "\<forall>f. elems a' (EventList f) = elems a1 (EventList f)"
      "tcb k' = tcb k \<and> pxCurrentTCB k' = t \<and> xTickCount k' = xTickCount k \<and> swi k' = swi k \<and> xPendedTicks k' = xPendedTicks k
        \<and> uxSchedulerSuspended k' = uxSchedulerSuspended k \<and> uxCurrentNumberOfTasks k' = uxCurrentNumberOfTasks k \<and> xYieldPending k' = xYieldPending k"
    using sleep_on_event_for [OF assms(1-3) _ s(2), of w e indef] unfolding t_def [symmetric] by metis
  show ?thesis
    using r(2-5) unfolding code r(1) a1_def by (intro exI [of _ k'] exI [of _ a']) (simp add: w_def split: if_splits)
qed

lemma resume_core:
  assumes "kernel_core E T idle k a" and "uxSchedulerSuspended k = 1"
  shows "\<exists>k' a'. xTaskResumeAll k = Some (resume_yields k a, k') \<and> kernel_core E T idle k' a'
    \<and> holder a' = woken (resumed k a) k (holder a) \<and> itemval a' = itemval a
    \<and> uxSchedulerSuspended k' = 0 \<and> xTickCount k' = xTickCount k + xPendedTicks k
    \<and> tcb k' = tcb k \<and> pxCurrentTCB k' = pxCurrentTCB k \<and> swi k' = (swi k \<or> resume_yields k a)
    \<and> uxCurrentNumberOfTasks k' = uxCurrentNumberOfTasks k"
proof -
  note core = kernel_coreD [OF assms(1)]
  obtain k' a' where r: "xTaskResumeAll k = Some (resume_yields k a, k')" "kernel_inv E T k' a'" "waits_ok a'"
      "holder a' = woken (resumed k a) k (holder a)" "itemval a' = itemval a"
      "uxSchedulerSuspended k' = 0" "xPendedTicks k' = 0" "xTickCount k' = xTickCount k + xPendedTicks k"
      "tcb k' = tcb k" "pxCurrentTCB k' = pxCurrentTCB k" "swi k' = (swi k \<or> resume_yields k a)"
      "still (k'\<lparr>swi := False\<rparr>) = still (k\<lparr>swi := False\<rparr>)"
    using resume_all [OF core(1,5) assms(2) core(8)] by blast
  have p: "\<not> pending a' t" for t using r(4) by (auto simp: pending_def resumed_def)
  have "kernel_core E T idle k' a'"
    using r(2,3,6,7,12) p core(7,8) woken_ready [OF r(4) core(6)] by (simp add: kernel_core_def settled_def still_def)
  moreover have "uxCurrentNumberOfTasks k' = uxCurrentNumberOfTasks k" using r(12) by (simp add: still_def)
  ultimately show ?thesis using r by blast
qed

end
