(* ===== verification/QueueOps.thy ===== *)
theory QueueOps
  imports QueueRing KernelEvents
begin

text \<open>
  The operations of queue.c on a system of tasks and queues: every attempt to send or receive, every
  interrupt, and the locked section in which a task goes to wait keep the system in order, and what each
  does to the items and to the waiting tasks.
\<close>

section \<open>Unlocking\<close>

lemma unlock_loop_wakes:
  assumes "kernel_core E T idle k a" and "e \<in> E" and "elems a (EventList e) = xs" and "uxSchedulerSuspended k \<noteq> 0"
  shows "\<exists>k' a'. unlock_loop n (EventList e) k = Some k' \<and> kernel_core E T idle k' a'
    \<and> (\<forall>i \<in> set xs. i = EventItem (task_of i))
    \<and> holder a' = (\<lambda>i. if i \<in> set (take n xs) then Some PendingReadyList else holder a i) \<and> itemval a' = itemval a
    \<and> (\<forall>f. elems a' (EventList f) = (if f = e then drop n xs else elems a (EventList f)))
    \<and> tcb k' = tcb k \<and> pxCurrentTCB k' = pxCurrentTCB k \<and> xTickCount k' = xTickCount k \<and> swi k' = swi k \<and> xPendedTicks k' = xPendedTicks k
    \<and> uxSchedulerSuspended k' = uxSchedulerSuspended k \<and> uxCurrentNumberOfTasks k' = uxCurrentNumberOfTasks k
    \<and> xNumOfOverflows k' = xNumOfOverflows k
    \<and> (xYieldPending k' \<longleftrightarrow> xYieldPending k \<or> (\<exists>i \<in> set (take n xs). uxPriority (tcb k (pxCurrentTCB k)) < uxPriority (tcb k (task_of i))))"
  using assms
proof (induction n arbitrary: k a xs)
  case 0
  have "i = EventItem (task_of i)" if "i \<in> set xs" for i
    using event_item [OF kernel_coreD(2) [OF 0(1)], of i e] elems_holder [OF kernel_coreD(2) [OF 0(1)], of "EventList e" i] that 0(2,3) by simp
  then show ?case using 0 by (intro exI [of _ k] exI [of _ a]) simp
next
  case (Suc n)
  note core = kernel_coreD [OF Suc.prems(1)]
  have l: "EventList e \<in> kernel_lists E" using Suc.prems(2) by simp
  show ?case
  proof (cases xs)
    case Nil
    then have "list_empty (EventList e) k" using list_empty_elems [OF core(2) l] Suc.prems(3) by simp
    then show ?thesis using Suc.prems Nil by (intro exI [of _ k] exI [of _ a]) simp
  next
    case (Cons i ys)
    have ne: "\<not> list_empty (EventList e) k" using list_empty_elems [OF core(2) l] Suc.prems(3) Cons by simp
    define t where "t = task_of i"
    define b where "b \<longleftrightarrow> uxPriority (tcb k (pxCurrentTCB k)) < uxPriority (tcb k t)"
    obtain k1 a1 where r: "xTaskRemoveFromEventList (EventList e) k = Some (b, k1)"
      "kernel_core E T idle k1 a1" "i = EventItem t" "t \<in> T" "holder a1 = woken_on k t (holder a)" "itemval a1 = itemval a"
      "\<forall>f. elems a1 (EventList f) = (if f = e then ys else elems a (EventList f))"
      "tcb k1 = tcb k" "pxCurrentTCB k1 = pxCurrentTCB k" "xTickCount k1 = xTickCount k" "swi k1 = swi k" "xPendedTicks k1 = xPendedTicks k"
      "uxSchedulerSuspended k1 = uxSchedulerSuspended k" "uxCurrentNumberOfTasks k1 = uxCurrentNumberOfTasks k"
      "xNumOfOverflows k1 = xNumOfOverflows k" "xYieldPending k1 \<longleftrightarrow> xYieldPending k \<or> b"
      using remove_event_wakes [OF Suc.prems(1,2) Suc.prems(3) [unfolded Cons], folded t_def, folded b_def] by blast
    define k2 where "k2 = (if b then vTaskMissedYield k1 else k1)"
    have f2: "tcb k2 = tcb k" "pxCurrentTCB k2 = pxCurrentTCB k" "xTickCount k2 = xTickCount k" "swi k2 = swi k" "xPendedTicks k2 = xPendedTicks k"
      "uxSchedulerSuspended k2 = uxSchedulerSuspended k" "uxCurrentNumberOfTasks k2 = uxCurrentNumberOfTasks k" "xNumOfOverflows k2 = xNumOfOverflows k"
      "xYieldPending k2 \<longleftrightarrow> xYieldPending k \<or> b"
      using r(8-16) by (simp_all add: k2_def vTaskMissedYield_def)
    have c2: "kernel_core E T idle k2 a1" using r(2) by (simp add: k2_def vTaskMissedYield_def)
    have e2: "elems a1 (EventList e) = ys" using r(7) by simp
    have s2: "uxSchedulerSuspended k2 \<noteq> 0" using f2(6) Suc.prems(4) by simp
    obtain k' a' where q: "unlock_loop n (EventList e) k2 = Some k'" "kernel_core E T idle k' a'" "\<forall>i \<in> set ys. i = EventItem (task_of i)"
      "holder a' = (\<lambda>i. if i \<in> set (take n ys) then Some PendingReadyList else holder a1 i)" "itemval a' = itemval a1"
      "\<forall>f. elems a' (EventList f) = (if f = e then drop n ys else elems a1 (EventList f))"
      "tcb k' = tcb k2" "pxCurrentTCB k' = pxCurrentTCB k2" "xTickCount k' = xTickCount k2" "swi k' = swi k2" "xPendedTicks k' = xPendedTicks k2"
      "uxSchedulerSuspended k' = uxSchedulerSuspended k2" "uxCurrentNumberOfTasks k' = uxCurrentNumberOfTasks k2" "xNumOfOverflows k' = xNumOfOverflows k2"
      "xYieldPending k' \<longleftrightarrow> xYieldPending k2 \<or> (\<exists>i \<in> set (take n ys). uxPriority (tcb k2 (pxCurrentTCB k2)) < uxPriority (tcb k2 (task_of i)))"
      using Suc.IH [OF c2 Suc.prems(2) e2 s2] by blast
    have h: "holder a' = (\<lambda>j. if j \<in> set (take (Suc n) xs) then Some PendingReadyList else holder a j)"
      unfolding q(4) r(5) woken_on_def using Suc.prems(4) Cons r(3) by auto
    have "\<forall>i \<in> set xs. i = EventItem (task_of i)" using q(3) r(3) Cons by (simp add: t_def)
    moreover have "unlock_loop (Suc n) (EventList e) k = Some k'" using ne r(1) q(1) by (simp add: k2_def)
    moreover have "xYieldPending k' \<longleftrightarrow> xYieldPending k
        \<or> (\<exists>i \<in> set (take (Suc n) xs). uxPriority (tcb k (pxCurrentTCB k)) < uxPriority (tcb k (task_of i)))"
      unfolding q(15) f2 using Cons by (auto simp: b_def t_def)
    moreover have "\<forall>f. elems a' (EventList f) = (if f = e then drop (Suc n) xs else elems a (EventList f))"
      using q(6) r(7) Cons by simp
    ultimately show ?thesis using h q(2,5,7-14) r(6) f2
      by (intro exI [of _ k'] exI [of _ a']) simp
  qed
qed

section \<open>Copying, for every kind of queue\<close>

definition put :: "u32 \<Rightarrow> 'a \<Rightarrow> 'a list \<Rightarrow> 'a list" where
  "put p d c = (if p = queueSEND_TO_BACK then c @ [d] else d # take (kept p (length c)) c)"

text \<open>
  Whether an item of this many bytes may be sent there: it is big enough, and overwriting is for queues of
  length one that hold data.
\<close>

definition sendable :: "xQUEUE \<Rightarrow> nat \<Rightarrow> u32 \<Rightarrow> bool" where
  "sendable x n p \<longleftrightarrow> size_of x \<le> n \<and> (p = queueOVERWRITE \<longrightarrow> length_of x = 1 \<and> 0 < size_of x)"

definition has_room :: "xQUEUE \<Rightarrow> u32 \<Rightarrow> bool" where
  "has_room x p \<longleftrightarrow> count_of x < length_of x \<or> p = queueOVERWRITE"

text \<open>The fields of a header that copying leaves alone.\<close>

definition fixed_part :: "xQUEUE \<Rightarrow> nat \<times> nat \<times> u32 \<times> u8 \<times> u8" where
  "fixed_part x = (length_of x, size_of x, pcHead x, cRxLock x, cTxLock x)"

lemma replicate_ring: "size_of x = 0 \<Longrightarrow> 0 < length_of x \<Longrightarrow> contents q (s\<lparr>queue := (queue s)(q := x)\<rparr>) = replicate (count_of x) []"
  by (rule nth_equalityI) (simp_all add: contents_def Let_def ring_nth slots_def)

lemma contents_empty_items: "size_of (queue s q) = 0 \<Longrightarrow> 0 < length_of (queue s q) \<Longrightarrow> contents q s = replicate (count_of (queue s q)) []"
  using replicate_ring [of "queue s q" q s] by simp

lemma copy_to:
  assumes "queue_ok (queue s q)" and "pcHead (queue s q) \<noteq> 0" and "sendable (queue s q) (length d) p" and "has_room (queue s q) p"
  shows "\<exists>x h. prvCopyDataToQueue q (Some d) p s = Some (False, s\<lparr>queue := (queue s)(q := x), heap := heap s\<lparr>bytes := h\<rparr>\<rparr>)
    \<and> queue_ok x \<and> fixed_part x = fixed_part (queue s q)
    \<and> contents q (s\<lparr>queue := (queue s)(q := x), heap := heap s\<lparr>bytes := h\<rparr>\<rparr>) = put p (take (size_of (queue s q)) d) (contents q s)
    \<and> unchanged_outside (queue s q) s (s\<lparr>queue := (queue s)(q := x), heap := heap s\<lparr>bytes := h\<rparr>\<rparr>)"
proof (cases "size_of (queue s q) = 0")
  case True
  define x where "x = queue s q"
  note a = assms [folded x_def] True [folded x_def]
  have z: "uxItemSize x = 0" using a(5) by (simp add: size_of_def unat_eq_0)
  have p: "p \<noteq> queueOVERWRITE" using a(3,5) by (auto simp: sendable_def)
  then have room: "count_of x < length_of x" using a(4) by (simp add: has_room_def)
  define x' where "x' = x\<lparr>uxMessagesWaiting := uxMessagesWaiting x + 1\<rparr>"
  have c: "count_of x' = Suc (count_of x)" using count_succ [OF room] by (simp add: x'_def)
  have "prvCopyDataToQueue q (Some d) p s = Some (False, s\<lparr>queue := (queue s)(q := x')\<rparr>)"
    using z a(2) by (simp add: prvCopyDataToQueue_def Let_def x_def [symmetric] is_mutex_def upd_queue_def x'_def)
  moreover have ok': "queue_ok x'" using a(1,5) room c by (simp add: queue_ok_def) (simp add: x'_def)
  moreover have "contents q (s\<lparr>queue := (queue s)(q := x')\<rparr>) = put p (take (size_of x) d) (contents q s)"
  proof -
    have l: "0 < length_of x" using room by simp
    have "contents q s = replicate (count_of x) []" using contents_empty_items [of s q] a(5) l by (simp add: x_def)
    moreover have "contents q (s\<lparr>queue := (queue s)(q := x')\<rparr>) = replicate (Suc (count_of x)) []"
      using replicate_ring [of x' q s] a(5) l c by (simp add: x'_def)
    ultimately show ?thesis using a(5) p by (simp add: put_def kept_def replicate_append_same)
  qed
  ultimately show ?thesis unfolding x_def [symmetric]
    by (intro exI [of _ x'] exI [of _ "bytes (heap s)"]) (simp add: fixed_part_def x'_def unchanged_outside_def)
next
  case False
  then have z: "0 < size_of (queue s q)" by simp
  have sz: "size_of (queue s q) \<le> length d" and ov: "p = queueOVERWRITE \<longrightarrow> length_of (queue s q) = 1"
    using assms(3) by (simp_all add: sendable_def)
  show ?thesis
  proof (cases "p = queueSEND_TO_BACK")
    case True
    then have "count_of (queue s q) < length_of (queue s q)" using assms(4) by (simp add: has_room_def queueOVERWRITE_def queueSEND_TO_BACK_def)
    from send_back [OF assms(1) z this sz] show ?thesis
      unfolding True unchanged_outside_def fixed_part_def put_def
      by (elim exE conjE) (rule exI, rule exI, intro conjI, assumption, simp_all)
  next
    case False
    have "kept p (count_of (queue s q)) < length_of (queue s q)"
      using assms(1,4) ov by (auto simp: kept_def has_room_def queue_ok_def)
    from send_front [OF assms(1) z this sz False ov] show ?thesis
      unfolding unchanged_outside_def fixed_part_def put_def if_not_P [OF False] contents_length
      by (elim exE conjE) (rule exI, rule exI, intro conjI, assumption, simp_all)
  qed
qed

lemma copy_from:
  assumes "queue_ok (queue s q)" and "0 < count_of (queue s q)" and "size_of (queue s q) \<le> length d"
  shows "\<exists>r. prvCopyDataFromQueue q (Some d) s = Some (Some (into (hd (contents q s)) d), upd_queue q (\<lambda>x. x\<lparr>u1 := r\<rparr>) s)
    \<and> queue_ok ((queue s q)\<lparr>u1 := r, uxMessagesWaiting := uxMessagesWaiting (queue s q) - 1\<rparr>)
    \<and> (\<forall>s'. queue s' q = (queue s q)\<lparr>u1 := r, uxMessagesWaiting := uxMessagesWaiting (queue s q) - 1\<rparr> \<and> bytes (heap s') = bytes (heap s)
         \<longrightarrow> contents q s' = tl (contents q s))"
proof (cases "size_of (queue s q) = 0")
  case False
  then show ?thesis using read_first [OF assms(1) _ assms(2,3)] by (auto simp: Let_def)
next
  case True
  define x where "x = queue s q"
  note a = assms [folded x_def] True [folded x_def]
  have z: "uxItemSize x = 0" using a(4) by (simp add: size_of_def unat_eq_0)
  define x' where "x' = x\<lparr>u1 := u1 x, uxMessagesWaiting := uxMessagesWaiting x - 1\<rparr>"
  have l: "0 < length_of x" using a(1) by (simp add: queue_ok_def)
  have c: "count_of x' = count_of x - 1" using count_pred [OF a(2)] by (simp add: x'_def)
  have e: "contents q s = replicate (count_of x) []" using contents_empty_items [of s q] a(4) l by (simp add: x_def)
  have "contents q s' = tl (contents q s)" if "queue s' q = x'" for s'
  proof -
    have "contents q s' = replicate (count_of x') []"
      using contents_empty_items [of s' q] a(4) l by (simp add: that) (simp add: x'_def)
    then show ?thesis by (simp add: e c tl_replicate)
  qed
  moreover have "queue_ok x'" using a(1,4) c by (simp add: queue_ok_def) (simp add: x'_def le_diff_conv)
  moreover have "hd (contents q s) = []" using a(2) by (simp add: e)
  moreover have "upd_queue q (\<lambda>x. x\<lparr>u1 := u1 x\<rparr>) s = s" by (simp add: upd_queue_def)
  ultimately show ?thesis using z unfolding x_def [symmetric] x'_def
    by (intro exI [of _ "u1 x"]) (simp add: prvCopyDataFromQueue_def x_def [symmetric] into_def, simp add: upd_queue_def x_def)
qed

section \<open>The system of tasks and queues\<close>

text \<open>A lock is open, or counts the calls of interrupts; the count never overflows the 8-bit field.\<close>

definition lock_ok :: "u8 \<Rightarrow> bool" where
  "lock_ok lock \<longleftrightarrow> lock = queueUNLOCKED \<or> unat lock \<le> 127"

text \<open>A queue or semaphore in order, its event lists among those of the scheduler.\<close>

definition queue_in :: "u32 set \<Rightarrow> u32 \<Rightarrow> xQUEUE \<Rightarrow> bool" where
  "queue_in E q x \<longleftrightarrow> q \<noteq> 0 \<and> q + 16 \<in> E \<and> q + 36 \<in> E \<and> queue_ok x \<and> pcHead x \<noteq> 0 \<and> lock_ok (cRxLock x) \<and> lock_ok (cTxLock x)"

definition os_core :: "u32 set \<Rightarrow> u32 set \<Rightarrow> task set \<Rightarrow> task \<Rightarrow> os \<Rightarrow> (item_id, list_id) alists \<Rightarrow> bool" where
  "os_core Q E T idle s a \<longleftrightarrow> kernel_core E T idle (kern s) a \<and> (\<forall>t \<in> T. holder a (StateItem t) \<noteq> None)
     \<and> (\<forall>q \<in> Q. queue_in E q (queue s q)) \<and> uxCurrentNumberOfTasks (kern s) \<le> 127"

lemma os_coreD:
  assumes "os_core Q E T idle s a"
  shows "kernel_core E T idle (kern s) a" "t \<in> T \<Longrightarrow> holder a (StateItem t) \<noteq> None" "q \<in> Q \<Longrightarrow> queue_in E q (queue s q)"
    "uxCurrentNumberOfTasks (kern s) \<le> 127"
  using assms by (auto simp: os_core_def)

text \<open>
  How the tasks may change when others are woken: no ready task stops being ready, and if one becomes
  ready that has a higher priority than the running one, a switch is on its way.
\<close>

definition switching :: "kernel \<Rightarrow> bool" where
  "switching k \<longleftrightarrow> swi k \<or> uxSchedulerSuspended k \<noteq> 0 \<and> xYieldPending k"

definition woke :: "kernel \<Rightarrow> (item_id, list_id) alists \<Rightarrow> kernel \<Rightarrow> (item_id, list_id) alists \<Rightarrow> bool" where
  "woke k a k' a' \<longleftrightarrow> tcb k' = tcb k \<and> pxCurrentTCB k' = pxCurrentTCB k \<and> uxSchedulerSuspended k' = uxSchedulerSuspended k
     \<and> xTickCount k' = xTickCount k \<and> (switching k \<longrightarrow> switching k') \<and> (\<forall>t. is_ready a t \<longrightarrow> is_ready a' t)
     \<and> (\<forall>t. is_ready a' t \<longrightarrow> is_ready a t \<or> switching k' \<or> uxPriority (tcb k t) \<le> uxPriority (tcb k (pxCurrentTCB k)))"

lemma woke_refl: "woke k a k a"
  by (simp add: woke_def)

lemma woke_trans: "woke k a k1 a1 \<Longrightarrow> woke k1 a1 k2 a2 \<Longrightarrow> woke k a k2 a2"
  unfolding woke_def by metis

lemma woke_preemptive: "preemptive k a \<Longrightarrow> woke k a k' a' \<Longrightarrow> preemptive k' a'"
  unfolding woke_def preemptive_def switching_def by metis

lemma os_core_queue:
  assumes "os_core Q E T idle s a" and "\<And>q. q \<in> Q \<Longrightarrow> queue_in E q (queue s' q)" and "kern s' = kern s"
  shows "os_core Q E T idle s' a"
  using assms by (simp add: os_core_def)

text \<open>
  The first task that waits on a list is served, nobody else: it leaves the list, becomes ready (or pending
  while the scheduler is suspended), and a switch is requested exactly when it has a higher priority than the
  running task.
\<close>

definition served :: "u32 \<Rightarrow> kernel \<Rightarrow> (item_id, list_id) alists \<Rightarrow> kernel \<Rightarrow> (item_id, list_id) alists \<Rightarrow> bool" where
  "served e k a k' a' \<longleftrightarrow> (case elems a (EventList e) of [] \<Rightarrow> a' = a \<and> k' = k
     | i # xs \<Rightarrow> i = EventItem (task_of i) \<and> holder a' = woken_on k (task_of i) (holder a) \<and> itemval a' = itemval a
         \<and> (\<forall>f. elems a' (EventList f) = (if f = e then xs else elems a (EventList f)))
         \<and> (swi k' \<longleftrightarrow> swi k \<or> uxPriority (tcb k (pxCurrentTCB k)) < uxPriority (tcb k (task_of i))))"

lemma served_others: "served e k a k' a' \<Longrightarrow> f \<noteq> e \<Longrightarrow> elems a' (EventList f) = elems a (EventList f)"
  by (auto simp: served_def split: list.splits)

text \<open>Waking the first waiting task, with the switch it may need.\<close>

lemma wake_and_yield_ok:
  assumes "os_core Q E T idle s a" and "e \<in> E"
  shows "\<exists>b k' k2 a'. wake_one (EventList e) s = Some (b, s\<lparr>kern := k'\<rparr>) \<and> k2 = (if b then yield k' else k')
    \<and> wake_and_yield (EventList e) s = Some (s\<lparr>kern := k2\<rparr>) \<and> os_core Q E T idle (s\<lparr>kern := k2\<rparr>) a' \<and> woke (kern s) a k2 a'
    \<and> served e (kern s) a k2 a'"
proof -
  note os = os_coreD [OF assms(1)]
  note core = kernel_coreD [OF os(1)]
  have l: "EventList e \<in> kernel_lists E" using assms(2) by simp
  show ?thesis
  proof (cases "elems a (EventList e)")
    case Nil
    then have "list_empty (EventList e) (kern s)" using list_empty_elems [OF core(2) l] by simp
    then have "wake_one (EventList e) s = Some (False, s)" by (simp add: wake_one_def)
    then show ?thesis using assms(1) woke_refl
      by (intro exI [of _ False] exI [of _ "kern s"] exI [of _ a]) (simp add: wake_and_yield_def served_def Nil)
  next
    case (Cons i xs)
    then have ne: "\<not> list_empty (EventList e) (kern s)" using list_empty_elems [OF core(2) l] by simp
    define t b where "t = task_of i" and "b \<longleftrightarrow> uxPriority (tcb (kern s) (pxCurrentTCB (kern s))) < uxPriority (tcb (kern s) t)"
    obtain k1 a1 where r: "xTaskRemoveFromEventList (EventList e) (kern s) = Some (b, k1)"
      "kernel_core E T idle k1 a1" "i = EventItem t" "t \<in> T" "holder a1 = woken_on (kern s) t (holder a)" "itemval a1 = itemval a"
      "\<forall>f. elems a1 (EventList f) = (if f = e then xs else elems a (EventList f))"
      "tcb k1 = tcb (kern s)" "pxCurrentTCB k1 = pxCurrentTCB (kern s)" "xTickCount k1 = xTickCount (kern s)" "swi k1 = swi (kern s)"
      "uxSchedulerSuspended k1 = uxSchedulerSuspended (kern s)" "uxCurrentNumberOfTasks k1 = uxCurrentNumberOfTasks (kern s)"
      "xYieldPending k1 \<longleftrightarrow> xYieldPending (kern s) \<or> b"
      using remove_event_wakes [OF os(1) assms(2) Cons, folded t_def, folded b_def] by blast
    define k2 where "k2 = (if b then yield k1 else k1)"
    have f2: "tcb k2 = tcb (kern s)" "pxCurrentTCB k2 = pxCurrentTCB (kern s)" "xTickCount k2 = xTickCount (kern s)"
      "swi k2 = (swi (kern s) \<or> b)" "uxSchedulerSuspended k2 = uxSchedulerSuspended (kern s)" "uxCurrentNumberOfTasks k2 = uxCurrentNumberOfTasks (kern s)"
      "xYieldPending k2 \<longleftrightarrow> xYieldPending (kern s) \<or> b"
      using r(8-14) by (simp_all add: k2_def yield_def)
    have sw: "switching (kern s) \<Longrightarrow> switching k2" by (auto simp: switching_def f2)
    have rd: "is_ready a1 u \<longleftrightarrow> is_ready a u \<or> uxSchedulerSuspended (kern s) = 0 \<and> u = t" for u
      by (auto simp: is_ready_def r(5) woken_on_def)
    have "\<not> b \<Longrightarrow> uxPriority (tcb (kern s) t) \<le> uxPriority (tcb (kern s) (pxCurrentTCB (kern s)))" by (simp add: b_def not_less)
    moreover have "b \<Longrightarrow> switching k2" by (simp add: switching_def f2)
    ultimately have w: "woke (kern s) a k2 a1" using sw unfolding woke_def f2 rd by blast
    have "kernel_core E T idle k2 a1" using r(2) by (simp add: k2_def yield_def)
    moreover have "holder a1 (StateItem u) \<noteq> None" if "u \<in> T" for u
      using os(2) [OF that] by (auto simp: r(5) woken_on_def)
    ultimately have "os_core Q E T idle (s\<lparr>kern := k2\<rparr>) a1" using os(3,4) f2(6) by (simp add: os_core_def)
    moreover have "wake_one (EventList e) s = Some (b, s\<lparr>kern := k1\<rparr>)" using ne r(1) by (simp add: wake_one_def)
    moreover have "served e (kern s) a k2 a1" using r(3,5-7) f2(4) by (simp add: served_def Cons t_def [symmetric] b_def)
    ultimately show ?thesis using w
      by (intro exI [of _ b] exI [of _ k1] exI [of _ k2] exI [of _ a1]) (simp add: wake_and_yield_def queueYIELD_IF_USING_PREEMPTION_def k2_def)
  qed
qed

section \<open>Attempts\<close>

text \<open>The heap's blocks are as before; bytes in them may have changed.\<close>

definition only_bytes :: "heap \<Rightarrow> heap \<Rightarrow> bool" where
  "only_bytes h h' \<longleftrightarrow> h' = h\<lparr>bytes := bytes h'\<rparr>"

lemma only_bytes_simps [simp]: "only_bytes h h" "only_bytes h (h\<lparr>bytes := b\<rparr>)"
  by (simp_all add: only_bytes_def)

lemma only_bytes_trans: "only_bytes h1 h2 \<Longrightarrow> only_bytes h2 h3 \<Longrightarrow> only_bytes h1 h3"
  unfolding only_bytes_def by (cases h1, cases h2, cases h3) simp

text \<open>What an operation on queue \<open>q\<close> leaves alone.\<close>

definition only_queue :: "u32 \<Rightarrow> os \<Rightarrow> os \<Rightarrow> bool" where
  "only_queue q s s' \<longleftrightarrow> (\<forall>r. r \<noteq> q \<longrightarrow> queue s' r = queue s r) \<and> unchanged_outside (queue s q) s s'
     \<and> length_of (queue s' q) = length_of (queue s q) \<and> size_of (queue s' q) = size_of (queue s q) \<and> pcHead (queue s' q) = pcHead (queue s q)
     \<and> only_bytes (heap s) (heap s')"

lemma fixed_in:
  "queue_in E q x \<Longrightarrow> queue_ok x' \<Longrightarrow> fixed_part x' = fixed_part x \<Longrightarrow> queue_in E q x'"
  by (simp add: queue_in_def fixed_part_def)

lemma has_room_code: "has_room x p \<longleftrightarrow> uxMessagesWaiting x < uxLength x \<or> p = queueOVERWRITE"
  by (simp add: has_room_def count_of_def length_of_def word_less_nat_alt)

lemma send_attempt_ok:
  assumes "os_core Q E T idle s a" and "q \<in> Q" and "sendable (queue s q) (length d) p" and "has_room (queue s q) p"
  shows "\<exists>s' a'. send_attempt q (Some d) ticks p s = Some (Some True, s') \<and> os_core Q E T idle s' a' \<and> woke (kern s) a (kern s') a'
    \<and> contents q s' = put p (take (size_of (queue s q)) d) (contents q s) \<and> only_queue q s s' \<and> served (q + 36) (kern s) a (kern s') a'"
proof -
  note os = os_coreD [OF assms(1)]
  have qi: "queue_in E q (queue s q)" by (rule os(3) [OF assms(2)])
  then have x: "queue_ok (queue s q)" "pcHead (queue s q) \<noteq> 0" and e: "q + 36 \<in> E" by (simp_all add: queue_in_def)
  obtain x' h where c: "prvCopyDataToQueue q (Some d) p s = Some (False, s\<lparr>queue := (queue s)(q := x'), heap := heap s\<lparr>bytes := h\<rparr>\<rparr>)"
      "queue_ok x'" "fixed_part x' = fixed_part (queue s q)"
      "contents q (s\<lparr>queue := (queue s)(q := x'), heap := heap s\<lparr>bytes := h\<rparr>\<rparr>) = put p (take (size_of (queue s q)) d) (contents q s)"
      "unchanged_outside (queue s q) s (s\<lparr>queue := (queue s)(q := x'), heap := heap s\<lparr>bytes := h\<rparr>\<rparr>)"
    using copy_to [OF x assms(3,4)] by blast
  define s1 where "s1 = s\<lparr>queue := (queue s)(q := x'), heap := heap s\<lparr>bytes := h\<rparr>\<rparr>"
  have os1: "os_core Q E T idle s1 a"
    by (rule os_core_queue [OF assms(1)]) (use os(3) fixed_in [OF qi c(2,3)] in \<open>auto simp: s1_def\<close>)
  obtain b k' k2 a' where w: "wake_one (EventList (q + 36)) s1 = Some (b, s1\<lparr>kern := k'\<rparr>)"
      "wake_and_yield (EventList (q + 36)) s1 = Some (s1\<lparr>kern := k2\<rparr>)" "os_core Q E T idle (s1\<lparr>kern := k2\<rparr>) a'" "woke (kern s1) a k2 a'"
      "served (q + 36) (kern s1) a k2 a'"
    using wake_and_yield_ok [OF os1 e] by blast
  have "(if \<not> list_empty (xTasksWaitingToReceive q) (kern s1) then wake_and_yield (xTasksWaitingToReceive q) s1
        else Some (if False then queueYIELD_IF_USING_PREEMPTION s1 else s1)) = Some (s1\<lparr>kern := k2\<rparr>)"
  proof (cases "list_empty (EventList (q + 36)) (kern s1)")
    case True
    then have "wake_and_yield (EventList (q + 36)) s1 = Some s1" by (simp add: wake_and_yield_def wake_one_def)
    then show ?thesis using True w(2) by (simp add: xTasksWaitingToReceive_def)
  next
    case False
    then show ?thesis using w(2) by (simp add: xTasksWaitingToReceive_def)
  qed
  then have "send_attempt q (Some d) ticks p s = Some (Some True, s1\<lparr>kern := k2\<rparr>)"
    using assms(4) c(1) unfolding has_room_code s1_def [symmetric] by (simp add: send_attempt_def)
  moreover have "contents q (s1\<lparr>kern := k2\<rparr>) = contents q s1" by (rule contents_frame) simp_all
  moreover have "only_queue q s (s1\<lparr>kern := k2\<rparr>)"
    using c(3,5) by (simp add: only_queue_def s1_def unchanged_outside_def fixed_part_def)
  ultimately show ?thesis using w(3-5) c(4) unfolding s1_def [symmetric]
    by (intro exI [of _ "s1\<lparr>kern := k2\<rparr>"] exI [of _ a']) (simp add: s1_def)
qed

lemma send_attempt_full:
  "\<not> has_room (queue s q) p \<Longrightarrow> send_attempt q i ticks p s = Some (if ticks = 0 then Some False else None, s)"
  by (simp add: send_attempt_def has_room_code)

lemma empty_code: "0 < uxMessagesWaiting x \<longleftrightarrow> count_of x \<noteq> 0"
  by (simp add: count_of_def unat_eq_0 word_gt_0)

text \<open>Taking the first item out, the part every receiving call shares.\<close>

lemma take_out:
  assumes "os_core Q E T idle s a" and "q \<in> Q" and "count_of (queue s q) \<noteq> 0" and "size_of (queue s q) \<le> length d"
  shows "\<exists>r. prvCopyDataFromQueue q (Some d) s = Some (Some (into (hd (contents q s)) d), upd_queue q (\<lambda>x. x\<lparr>u1 := r\<rparr>) s)
    \<and> (\<forall>s1. s1 = upd_queue q (\<lambda>x. x\<lparr>uxMessagesWaiting := uxMessagesWaiting (queue s q) - 1\<rparr>) (upd_queue q (\<lambda>x. x\<lparr>u1 := r\<rparr>) s)
        \<longrightarrow> os_core Q E T idle s1 a \<and> only_queue q s s1 \<and> kern s1 = kern s
          \<and> (\<forall>k. contents q (s1\<lparr>kern := k\<rparr>) = tl (contents q s)))"
proof -
  note os = os_coreD [OF assms(1)]
  have qi: "queue_in E q (queue s q)" by (rule os(3) [OF assms(2)])
  then have x: "queue_ok (queue s q)" by (simp add: queue_in_def)
  have c0: "0 < count_of (queue s q)" using assms(3) by simp
  obtain r where r: "prvCopyDataFromQueue q (Some d) s = Some (Some (into (hd (contents q s)) d), upd_queue q (\<lambda>x. x\<lparr>u1 := r\<rparr>) s)"
    "queue_ok ((queue s q)\<lparr>u1 := r, uxMessagesWaiting := uxMessagesWaiting (queue s q) - 1\<rparr>)"
    "\<forall>s'. queue s' q = (queue s q)\<lparr>u1 := r, uxMessagesWaiting := uxMessagesWaiting (queue s q) - 1\<rparr> \<and> bytes (heap s') = bytes (heap s)
         \<longrightarrow> contents q s' = tl (contents q s)"
    using copy_from [OF x c0 assms(4)] by blast
  define s1 where "s1 = upd_queue q (\<lambda>x. x\<lparr>uxMessagesWaiting := uxMessagesWaiting (queue s q) - 1\<rparr>) (upd_queue q (\<lambda>x. x\<lparr>u1 := r\<rparr>) s)"
  have q1: "queue s1 = (queue s)(q := (queue s q)\<lparr>u1 := r, uxMessagesWaiting := uxMessagesWaiting (queue s q) - 1\<rparr>)"
      "heap s1 = heap s" "kern s1 = kern s"
    by (simp_all add: s1_def upd_queue_def)
  have "queue_in E q (queue s1 q)" by (rule fixed_in [OF qi]) (use r(2) in \<open>simp_all add: q1 fixed_part_def\<close>)
  then have "os_core Q E T idle s1 a" using os(3) by (intro os_core_queue [OF assms(1)]) (auto simp: q1)
  moreover have "only_queue q s s1" by (simp add: only_queue_def q1 unchanged_outside_def)
  moreover have "contents q (s1\<lparr>kern := k\<rparr>) = tl (contents q s)" for k using r(3) q1 by simp
  ultimately show ?thesis using r(1) q1(3) unfolding s1_def by blast
qed

lemma receive_attempt_ok:
  assumes "os_core Q E T idle s a" and "q \<in> Q" and "count_of (queue s q) \<noteq> 0" and "size_of (queue s q) \<le> length d"
  shows "\<exists>s' a'. receive_attempt q (Some d) ticks s = Some (Some True, Some (into (hd (contents q s)) d), s') \<and> os_core Q E T idle s' a'
    \<and> woke (kern s) a (kern s') a' \<and> contents q s' = tl (contents q s) \<and> only_queue q s s' \<and> served (q + 16) (kern s) a (kern s') a'"
proof -
  obtain r where r: "prvCopyDataFromQueue q (Some d) s = Some (Some (into (hd (contents q s)) d), upd_queue q (\<lambda>x. x\<lparr>u1 := r\<rparr>) s)"
    "\<forall>s1. s1 = upd_queue q (\<lambda>x. x\<lparr>uxMessagesWaiting := uxMessagesWaiting (queue s q) - 1\<rparr>) (upd_queue q (\<lambda>x. x\<lparr>u1 := r\<rparr>) s)
        \<longrightarrow> os_core Q E T idle s1 a \<and> only_queue q s s1 \<and> kern s1 = kern s
          \<and> (\<forall>k. contents q (s1\<lparr>kern := k\<rparr>) = tl (contents q s))"
    using take_out [OF assms] by blast
  define s1 where "s1 = upd_queue q (\<lambda>x. x\<lparr>uxMessagesWaiting := uxMessagesWaiting (queue s q) - 1\<rparr>) (upd_queue q (\<lambda>x. x\<lparr>u1 := r\<rparr>) s)"
  have s1: "os_core Q E T idle s1 a" "only_queue q s s1" "kern s1 = kern s" "contents q (s1\<lparr>kern := k\<rparr>) = tl (contents q s)" for k
    using r(2) unfolding s1_def by blast+
  have e: "q + 16 \<in> E" using os_coreD(3) [OF assms(1,2)] by (simp add: queue_in_def)
  obtain b k' k2 a' where w: "wake_and_yield (EventList (q + 16)) s1 = Some (s1\<lparr>kern := k2\<rparr>)" "os_core Q E T idle (s1\<lparr>kern := k2\<rparr>) a'" "woke (kern s1) a k2 a'"
      "served (q + 16) (kern s1) a k2 a'"
    using wake_and_yield_ok [OF s1(1) e] by blast
  have "receive_attempt q (Some d) ticks s = Some (Some True, Some (into (hd (contents q s)) d), s1\<lparr>kern := k2\<rparr>)"
    using assms(3) r(1) w(1) unfolding xTasksWaitingToSend_def [symmetric]
    by (simp add: receive_attempt_def Let_def empty_code s1_def [symmetric])
  moreover have "only_queue q s (s1\<lparr>kern := k2\<rparr>)" using s1(2) by (simp add: only_queue_def unchanged_outside_def)
  ultimately show ?thesis using w(2-4) s1(3,4)
    by (intro exI [of _ "s1\<lparr>kern := k2\<rparr>"] exI [of _ a']) simp
qed

lemma only_queue_trans:
  assumes "only_queue q s s1" and "only_queue q s1 s2"
  shows "only_queue q s s2"
  using assms only_bytes_trans [of "heap s" "heap s1" "heap s2"] by (simp add: only_queue_def unchanged_outside_def)

lemma only_queue_kern: "only_queue q s s1 \<Longrightarrow> only_queue q s (s1\<lparr>kern := k\<rparr>)"
  by (simp add: only_queue_def unchanged_outside_def)

lemma peek_attempt_ok:
  assumes "os_core Q E T idle s a" and "q \<in> Q" and "count_of (queue s q) \<noteq> 0" and "size_of (queue s q) \<le> length d"
  shows "\<exists>s' a'. peek_attempt q (Some d) ticks s = Some (Some True, Some (into (hd (contents q s)) d), s') \<and> os_core Q E T idle s' a'
    \<and> woke (kern s) a (kern s') a' \<and> contents q s' = contents q s \<and> only_queue q s s' \<and> queue s' = queue s
    \<and> served (q + 36) (kern s) a (kern s') a'"
proof -
  obtain r where r: "prvCopyDataFromQueue q (Some d) s = Some (Some (into (hd (contents q s)) d), upd_queue q (\<lambda>x. x\<lparr>u1 := r\<rparr>) s)"
    using take_out [OF assms] by blast
  have same: "upd_queue q (\<lambda>x. x\<lparr>u1 := u1 (queue s q)\<rparr>) (upd_queue q (\<lambda>x. x\<lparr>u1 := r\<rparr>) s) = s"
    by (simp add: upd_queue_def)
  have e: "q + 36 \<in> E" using os_coreD(3) [OF assms(1,2)] by (simp add: queue_in_def)
  obtain b k' k2 a' where w: "wake_and_yield (EventList (q + 36)) s = Some (s\<lparr>kern := k2\<rparr>)" "os_core Q E T idle (s\<lparr>kern := k2\<rparr>) a'" "woke (kern s) a k2 a'"
      "served (q + 36) (kern s) a k2 a'"
    using wake_and_yield_ok [OF assms(1) e] by blast
  have "peek_attempt q (Some d) ticks s = Some (Some True, Some (into (hd (contents q s)) d), s\<lparr>kern := k2\<rparr>)"
    using assms(3) r w(1) same unfolding xTasksWaitingToReceive_def [symmetric]
    by (simp add: peek_attempt_def Let_def empty_code)
  moreover have "contents q (s\<lparr>kern := k2\<rparr>) = contents q s" by (rule contents_frame) simp_all
  moreover have "only_queue q s (s\<lparr>kern := k2\<rparr>)" by (simp add: only_queue_def unchanged_outside_def)
  ultimately show ?thesis using w(2-4)
    by (intro exI [of _ "s\<lparr>kern := k2\<rparr>"] exI [of _ a']) simp
qed

text \<open>A semaphore only counts.\<close>

lemma count_change:
  assumes "os_core Q E T idle s a" and "q \<in> Q" and "size_of (queue s q) = 0" and "unat n \<le> length_of (queue s q)"
  defines "s1 \<equiv> upd_queue q (\<lambda>x. x\<lparr>uxMessagesWaiting := n\<rparr>) s"
  shows "os_core Q E T idle s1 a" "only_queue q s s1" "kern s1 = kern s" "count_of (queue s1 q) = unat n"
proof -
  note os = os_coreD [OF assms(1)]
  have qi: "queue_in E q (queue s q)" by (rule os(3) [OF assms(2)])
  have q1: "queue s1 = (queue s)(q := (queue s q)\<lparr>uxMessagesWaiting := n\<rparr>)" "heap s1 = heap s"
    by (simp_all add: s1_def upd_queue_def)
  show k1: "kern s1 = kern s" by (simp add: s1_def upd_queue_def)
  have "queue_in E q (queue s1 q)"
    by (rule fixed_in [OF qi]) (use qi assms(3,4) in \<open>simp_all add: q1 fixed_part_def queue_in_def queue_ok_def\<close>)
  then show "os_core Q E T idle s1 a" using os(3) by (intro os_core_queue [OF assms(1)]) (auto simp: q1 k1)
  show "only_queue q s s1" by (simp add: only_queue_def q1 unchanged_outside_def)
  show "count_of (queue s1 q) = unat n" by (simp add: q1)
qed

lemma take_attempt_ok:
  assumes "os_core Q E T idle s a" and "q \<in> Q" and "count_of (queue s q) \<noteq> 0" and "size_of (queue s q) = 0"
  shows "\<exists>s' a'. take_attempt q ticks s = Some (Some True, s') \<and> os_core Q E T idle s' a'
    \<and> woke (kern s) a (kern s') a' \<and> count_of (queue s' q) = count_of (queue s q) - 1 \<and> only_queue q s s' \<and> served (q + 16) (kern s) a (kern s') a'"
proof -
  note os = os_coreD [OF assms(1)]
  have qi: "queue_in E q (queue s q)" by (rule os(3) [OF assms(2)])
  have e: "q + 16 \<in> E" using qi by (simp add: queue_in_def)
  have c: "unat (uxMessagesWaiting (queue s q) - 1) = count_of (queue s q) - 1" using count_pred assms(3) by simp
  have le: "unat (uxMessagesWaiting (queue s q) - 1) \<le> length_of (queue s q)"
  proof -
    have "count_of (queue s q) \<le> length_of (queue s q)" using qi by (simp add: queue_in_def queue_ok_def)
    then show ?thesis using c by linarith
  qed
  define s1 where "s1 = upd_queue q (\<lambda>x. x\<lparr>uxMessagesWaiting := uxMessagesWaiting (queue s q) - 1\<rparr>) s"
  note s1 = count_change [OF assms(1,2,4) le, folded s1_def]
  have nm: "\<not> is_mutex (queue s1 q)" using qi by (simp add: s1_def upd_queue_def is_mutex_def queue_in_def)
  obtain b k' k2 a' where w: "wake_and_yield (EventList (q + 16)) s1 = Some (s1\<lparr>kern := k2\<rparr>)" "os_core Q E T idle (s1\<lparr>kern := k2\<rparr>) a'" "woke (kern s1) a k2 a'"
      "served (q + 16) (kern s1) a k2 a'"
    using wake_and_yield_ok [OF s1(1) e] by blast
  have "take_attempt q ticks s = Some (Some True, s1\<lparr>kern := k2\<rparr>)"
    using assms(3) w(1) nm unfolding xTasksWaitingToSend_def [symmetric]
    by (simp add: take_attempt_def Let_def empty_code s1_def [symmetric])
  then show ?thesis using w(2-4) s1 c only_queue_kern [OF s1(2)]
    by (intro exI [of _ "s1\<lparr>kern := k2\<rparr>"] exI [of _ a']) simp
qed

lemma empty_attempts:
  assumes "count_of (queue s q) = 0"
  shows "receive_attempt q d ticks s = Some (if ticks = 0 then Some False else None, d, s)"
    "peek_attempt q d ticks s = Some (if ticks = 0 then Some False else None, d, s)"
    "take_attempt q ticks s = Some (if ticks = 0 then Some False else None, s)"
  using assms by (simp_all add: receive_attempt_def peek_attempt_def take_attempt_def Let_def empty_code)

end
