(* ===== verification/QueueIrq.thy ===== *)
theory QueueIrq
  imports QueueOps
begin

text \<open>
  Queues as bounded first-in first-out buffers, the interrupts that use them, and the locked section in
  which a task goes to wait while interrupts go on.
\<close>

section \<open>The abstract queues\<close>

text \<open>
  What a queue is to its users: a capacity, the size of an item and the items held, oldest first. Sending
  appends, puts in front or replaces; receiving drops the first item.
\<close>

record fifo =
  cap :: nat
  width :: nat
  held :: "u8 list list"

definition fifo_of :: "u32 \<Rightarrow> os \<Rightarrow> fifo" where
  "fifo_of q s = \<lparr>cap = length_of (queue s q), width = size_of (queue s q), held = contents q s\<rparr>"

definition fifo_put :: "u8 list \<Rightarrow> u32 \<Rightarrow> fifo \<Rightarrow> fifo" where
  "fifo_put d p f = (if length (held f) < cap f \<or> p = queueOVERWRITE then f\<lparr>held := put p (take (width f) d) (held f)\<rparr> else f)"

definition fifo_drop :: "fifo \<Rightarrow> fifo" where
  "fifo_drop f = f\<lparr>held := tl (held f)\<rparr>"

definition fifo_fits :: "nat \<Rightarrow> u32 \<Rightarrow> fifo \<Rightarrow> bool" where
  "fifo_fits n p f \<longleftrightarrow> width f \<le> n \<and> (p = queueOVERWRITE \<longrightarrow> cap f = 1 \<and> 0 < width f)"

lemma fifo_of_simps [simp]:
  "cap (fifo_of q s) = length_of (queue s q)" "width (fifo_of q s) = size_of (queue s q)" "held (fifo_of q s) = contents q s"
  "fifo_fits n p (fifo_of q s) = sendable (queue s q) n p"
  by (simp_all add: fifo_of_def fifo_fits_def sendable_def)

lemma fifo_of_put:
  "only_queue q s s' \<Longrightarrow> has_room (queue s q) p \<Longrightarrow> contents q s' = put p (take (size_of (queue s q)) d) (contents q s)
     \<Longrightarrow> fifo_of q s' = fifo_put d p (fifo_of q s)"
  by (auto simp: fifo_of_def fifo_put_def has_room_def contents_length only_queue_def)

lemma fifo_of_full: "\<not> has_room (queue s q) p \<Longrightarrow> fifo_put d p (fifo_of q s) = fifo_of q s"
  by (auto simp: fifo_put_def has_room_def contents_length)

lemma fifo_of_drop: "only_queue q s s' \<Longrightarrow> contents q s' = tl (contents q s) \<Longrightarrow> fifo_of q s' = fifo_drop (fifo_of q s)"
  by (simp add: fifo_of_def fifo_drop_def only_queue_def)

lemma fifo_of_empty: "count_of (queue s q) = 0 \<Longrightarrow> fifo_drop (fifo_of q s) = fifo_of q s"
  using contents_length [of q s] by (simp add: fifo_drop_def fifo_of_def)

lemma fifo_of_same: "only_queue q s s' \<Longrightarrow> contents q s' = contents q s \<Longrightarrow> fifo_of q s' = fifo_of q s"
  by (simp add: fifo_of_def only_queue_def)

text \<open>All queues of the system, and the storages apart from each other.\<close>

definition view :: "u32 set \<Rightarrow> os \<Rightarrow> u32 \<rightharpoonup> fifo" where
  "view Q s = (\<lambda>q. if q \<in> Q then Some (fifo_of q s) else None)"

definition on_fifo :: "u32 \<Rightarrow> (fifo \<Rightarrow> fifo) \<Rightarrow> (u32 \<rightharpoonup> fifo) \<Rightarrow> u32 \<rightharpoonup> fifo" where
  "on_fifo q f m = m(q := map_option f (m q))"

definition apart :: "u32 set \<Rightarrow> os \<Rightarrow> bool" where
  "apart Q s \<longleftrightarrow> (\<forall>q \<in> Q. \<forall>r \<in> Q. q \<noteq> r \<longrightarrow>
     unat (pcHead (queue s q)) + length_of (queue s q) * size_of (queue s q) \<le> unat (pcHead (queue s r))
     \<or> unat (pcHead (queue s r)) + length_of (queue s r) * size_of (queue s r) \<le> unat (pcHead (queue s q)))"

lemma slots_outside:
  assumes "queue_ok x" and "\<And>a :: u32. unat (pcHead x) \<le> unat a \<Longrightarrow> unat a < unat (pcHead x) + length_of x * size_of x \<Longrightarrow> bytes (heap s') a = bytes (heap s) a"
  shows "slots x s' = slots x s"
proof (cases "size_of x = 0")
  case True
  then show ?thesis by (simp add: slots_def load_bytes_def)
next
  case False
  then have b: "unat (pcHead x) + length_of x * size_of x < 2 ^ 32" using assms(1) by (simp add: queue_ok_def)
  have "bytes (heap s') (cell (pcHead x) (size_of x) j + of_nat i) = bytes (heap s) (cell (pcHead x) (size_of x) j + of_nat i)"
    if ij: "j < length_of x" "i < size_of x" for i j
  proof (rule assms(2))
    have "j * size_of x + size_of x \<le> length_of x * size_of x" using mult_le_mono1 [of "Suc j" "length_of x" "size_of x"] ij(1) by simp
    then have lt: "j * size_of x + i < length_of x * size_of x" using ij(2) by linarith
    have u: "unat (cell (pcHead x) (size_of x) j) = unat (pcHead x) + j * size_of x" by (rule cell_unat [OF b]) (use ij in simp)
    have "unat (cell (pcHead x) (size_of x) j + of_nat i) = unat (pcHead x) + j * size_of x + i"
      using lt b u by (subst unat_add_u32) (simp_all add: unat_of_nat_u32)
    then show "unat (pcHead x) \<le> unat (cell (pcHead x) (size_of x) j + of_nat i)"
      "unat (cell (pcHead x) (size_of x) j + of_nat i) < unat (pcHead x) + length_of x * size_of x" using lt by simp_all
  qed
  then show ?thesis by (simp add: slots_def load_bytes_def)
qed

text \<open>What is done to one queue changes no other.\<close>

lemma only_queue_view:
  assumes "only_queue q s s'" and "apart Q s" and "q \<in> Q" and "\<forall>r \<in> Q. queue_ok (queue s r)" and "fifo_of q s' = f (fifo_of q s)"
  shows "view Q s' = on_fifo q f (view Q s)"
proof -
  have "fifo_of r s' = fifo_of r s" if r: "r \<in> Q" "r \<noteq> q" for r
  proof -
    have x: "queue s' r = queue s r" using assms(1) r(2) by (simp add: only_queue_def)
    have "slots (queue s r) s' = slots (queue s r) s"
    proof (rule slots_outside)
      fix a :: u32 assume a: "unat (pcHead (queue s r)) \<le> unat a" "unat a < unat (pcHead (queue s r)) + length_of (queue s r) * size_of (queue s r)"
      have "unat (pcHead (queue s q)) + length_of (queue s q) * size_of (queue s q) \<le> unat (pcHead (queue s r))
          \<or> unat (pcHead (queue s r)) + length_of (queue s r) * size_of (queue s r) \<le> unat (pcHead (queue s q))"
        using assms(2,3) r unfolding apart_def by blast
      then have "unat a < unat (pcHead (queue s q)) \<or> unat (pcHead (queue s q)) + length_of (queue s q) * size_of (queue s q) \<le> unat a"
        using a by linarith
      then show "bytes (heap s') a = bytes (heap s) a" using assms(1) unfolding only_queue_def unchanged_outside_def by blast
    qed (use assms(4) r in simp)
    then show ?thesis by (simp add: fifo_of_def x contents_def Let_def)
  qed
  then show ?thesis using assms(3,5) by (auto simp: view_def on_fifo_def)
qed

lemma on_fifo_id: "on_fifo q (\<lambda>f. f) m = m"
  by (auto simp: on_fifo_def option.map_ident)

section \<open>Interrupts\<close>

lemma small_lock:
  assumes "lock_ok lock" and "lock \<noteq> queueUNLOCKED"
  shows "unat lock \<le> 127" "sint lock = int (unat lock)" "unat (scast lock :: u32) = unat lock"
proof -
  show l: "unat lock \<le> 127" using assms by (simp add: lock_ok_def)
  define n where "n = unat lock"
  have "- (2 ^ 7) \<le> int n" "int n < 2 ^ 7" using l unfolding n_def [symmetric] by simp_all
  from signed_take_bit_int_eq_self [OF this] show s: "sint lock = int (unat lock)"
    unfolding sint_uint uint_nat n_def by simp
  have "(scast lock :: u32) = of_int (sint lock)" by (rule of_int_sint [symmetric])
  also have "\<dots> = of_nat (unat lock)" by (simp only: s of_int_of_nat_eq)
  finally have e: "(scast lock :: u32) = of_nat (unat lock)" .
  show "unat (scast lock :: u32) = unat lock" unfolding e by (rule unat_of_nat_u32) (use l in simp)
qed

lemma lock_increment:
  assumes "lock_ok lock" and "lock \<noteq> queueUNLOCKED" and "n \<le> 127" and "(scast lock :: u32) < n"
  shows "lock \<noteq> queueINT8_MAX" "lock_ok (lock + 1)"
proof -
  note s = small_lock [OF assms(1,2)]
  have "unat lock < unat n" using assms(4) s(3) by (simp add: word_less_nat_alt)
  moreover have "unat n \<le> 127" using assms(3) by (simp add: word_le_nat_alt)
  ultimately have l: "unat lock < 127" by simp
  then show "lock \<noteq> queueINT8_MAX" by (auto simp: queueINT8_MAX_def)
  have "unat (lock + 1) = Suc (unat lock)" using l by (subst unat_word_ariths) simp
  then show "lock_ok (lock + 1)" using l by (simp add: lock_ok_def)
qed

lemma unlocked_count: "lock_ok lock \<Longrightarrow> nat (sint lock) = (if lock = queueUNLOCKED then 0 else unat lock)"
  using small_lock(2) by (cases "lock = queueUNLOCKED") (simp_all add: queueUNLOCKED_def)

text \<open>The interrupts, each with the switch it requests at its end as the port does.\<close>

definition portEND_SWITCHING_ISR :: "bool \<Rightarrow> os \<Rightarrow> os" where
  "portEND_SWITCHING_ISR xSwitchRequired s = (if xSwitchRequired then s\<lparr>kern := yield (kern s)\<rparr> else s)"

datatype intr = TickInt | YieldInt | SendInt u32 "u8 list" u32 | GiveInt u32 | ReceiveInt u32 "u8 list"

fun intr_exec :: "intr \<Rightarrow> os \<Rightarrow> os option" where
  "intr_exec TickInt s = on_kernel vPortIncrementTick s"
| "intr_exec YieldInt s = on_kernel vPortYieldISR s"
| "intr_exec (SendInt q d p) s = map_option (\<lambda>(r, woken, s). portEND_SWITCHING_ISR woken s) (xQueueGenericSendFromISR q (Some d) p s)"
| "intr_exec (GiveInt q) s = map_option (\<lambda>(r, woken, s). portEND_SWITCHING_ISR woken s) (xQueueGiveFromISR q s)"
| "intr_exec (ReceiveInt q d) s = map_option (\<lambda>(r, woken, b, s). portEND_SWITCHING_ISR woken s) (xQueueReceiveFromISR q (Some d) s)"

text \<open>
  The software interrupt runs when it is pending; a queue is used with objects of the right size, a
  semaphore is given, not sent to.
\<close>

fun intr_allowed :: "u32 set \<Rightarrow> intr \<Rightarrow> os \<Rightarrow> bool" where
  "intr_allowed Q TickInt s \<longleftrightarrow> True"
| "intr_allowed Q YieldInt s \<longleftrightarrow> swi (kern s)"
| "intr_allowed Q (SendInt q d p) s \<longleftrightarrow> q \<in> Q \<and> sendable (queue s q) (length d) p"
| "intr_allowed Q (GiveInt q) s \<longleftrightarrow> q \<in> Q \<and> size_of (queue s q) = 0"
| "intr_allowed Q (ReceiveInt q d) s \<longleftrightarrow> q \<in> Q \<and> size_of (queue s q) \<le> length d"

text \<open>A lock that counted an interrupt is above zero, and still locked.\<close>

lemma lock_counts:
  assumes "lock_ok lock" and "lock \<noteq> queueUNLOCKED" and "n \<le> 127" and "0 < n"
  shows "(if (scast lock :: u32) < n then lock + 1 else lock) \<noteq> queueUNLOCKED \<and> 0 < (if (scast lock :: u32) < n then lock + 1 else lock)"
proof (cases "(scast lock :: u32) < n")
  case True
  have "unat lock \<le> 127" by (rule small_lock(1) [OF assms(1,2)])
  then have "unat (lock + 1) = unat lock + 1" by (simp add: unat_word_ariths)
  moreover have "lock \<noteq> 127" using lock_increment(1) [OF assms(1-3) True] by (simp add: queueINT8_MAX_def)
  then have "unat lock \<noteq> 127" by (simp add: word_unat_eq_iff)
  ultimately show ?thesis using True \<open>unat lock \<le> 127\<close> by (auto simp: queueUNLOCKED_def word_unat_eq_iff word_less_nat_alt)
next
  case False
  then have "lock \<noteq> 0" using assms(4) by auto
  then show ?thesis using False assms(2) by (simp add: word_gt_0)
qed

lemma same_header: "\<exists>v. f = f(q := (f q)\<lparr>cTxLock := v\<rparr>)" "\<exists>v. f = f(q := (f q)\<lparr>cRxLock := v\<rparr>)" for f :: "u32 \<Rightarrow> xQUEUE"
  by (rule exI [of _ "cTxLock (f q)"], simp) (rule exI [of _ "cRxLock (f q)"], simp)

text \<open>At the end of an interrupt that sent or received: wake, or count while the queue is locked.\<close>

lemma isr_end_tx:
  assumes "os_core Q E T idle s a" and "q \<in> Q" and "lock = cTxLock (queue s q)"
  shows "\<exists>woken s1 a'. (if lock = queueUNLOCKED then wake_one (xTasksWaitingToReceive q) s
      else do { s \<leftarrow> prvIncrementQueueTxLock q lock s; Some (False, s) }) = Some (woken, s1)
    \<and> os_core Q E T idle (portEND_SWITCHING_ISR woken s1) a' \<and> woke (kern s) a (kern (portEND_SWITCHING_ISR woken s1)) a'
    \<and> (\<exists>v. queue s1 = (queue s)(q := (queue s q)\<lparr>cTxLock := v\<rparr>) \<and> (lock \<noteq> queueUNLOCKED \<longrightarrow> v \<noteq> queueUNLOCKED \<and> 0 < v)) \<and> heap s1 = heap s
    \<and> (if lock = queueUNLOCKED then served (q + 36) (kern s) a (kern (portEND_SWITCHING_ISR woken s1)) a' else a' = a \<and> kern s1 = kern s)"
proof (cases "lock = queueUNLOCKED")
  case True
  have e: "q + 36 \<in> E" using os_coreD(3) [OF assms(1,2)] by (simp add: queue_in_def)
  obtain b k' k2 a' where w: "wake_one (EventList (q + 36)) s = Some (b, s\<lparr>kern := k'\<rparr>)" "k2 = (if b then yield k' else k')"
    "os_core Q E T idle (s\<lparr>kern := k2\<rparr>) a'" "woke (kern s) a k2 a'" "served (q + 36) (kern s) a k2 a'"
    using wake_and_yield_ok [OF assms(1) e] by blast
  have "portEND_SWITCHING_ISR b (s\<lparr>kern := k'\<rparr>) = s\<lparr>kern := k2\<rparr>" by (simp add: portEND_SWITCHING_ISR_def w(2))
  then show ?thesis using True w(1,3-5)
    by (intro exI [of _ b] exI [of _ "s\<lparr>kern := k'\<rparr>"] exI [of _ a']) (simp add: xTasksWaitingToReceive_def same_header)
next
  case False
  note os = os_coreD [OF assms(1)]
  have qi: "queue_in E q (queue s q)" by (rule os(3) [OF assms(2)])
  define v where "v = (if (scast lock :: u32) < uxCurrentNumberOfTasks (kern s) then lock + 1 else lock)"
  define x1 where "x1 = (queue s q)\<lparr>cTxLock := v\<rparr>"
  define s1 where "s1 = s\<lparr>queue := (queue s)(q := x1)\<rparr>"
  have lk: "lock_ok lock" using qi assms(3) by (simp add: queue_in_def)
  note inc = lock_increment [OF lk False os(4)]
  have "0 < uxCurrentNumberOfTasks (kern s)" using kernel_coreD(8) [OF os(1)] by simp
  from lock_counts [OF lk False os(4) this] have cnt: "v \<noteq> queueUNLOCKED" "0 < v" unfolding v_def by blast+
  have "prvIncrementQueueTxLock q lock s = Some s1"
    using inc(1) assms(3) by (auto simp: prvIncrementQueueTxLock_def uxTaskGetNumberOfTasks_def upd_queue_def s1_def x1_def v_def)
  moreover have "queue_in E q x1"
    using qi inc(2) lk by (auto simp: x1_def v_def queue_in_def queue_ok_def length_of_def size_of_def count_of_def read_cell_def)
  then have "os_core Q E T idle s1 a" using os(3) by (intro os_core_queue [OF assms(1)]) (auto simp: s1_def)
  ultimately show ?thesis using False woke_refl
    by (intro exI [of _ False] exI [of _ s1] exI [of _ a])
       (use cnt in \<open>auto simp: portEND_SWITCHING_ISR_def s1_def x1_def\<close>)
qed

lemma isr_end_rx:
  assumes "os_core Q E T idle s a" and "q \<in> Q" and "lock = cRxLock (queue s q)"
  shows "\<exists>woken s1 a'. (if lock = queueUNLOCKED then wake_one (xTasksWaitingToSend q) s
      else do { s \<leftarrow> prvIncrementQueueRxLock q lock s; Some (False, s) }) = Some (woken, s1)
    \<and> os_core Q E T idle (portEND_SWITCHING_ISR woken s1) a' \<and> woke (kern s) a (kern (portEND_SWITCHING_ISR woken s1)) a'
    \<and> (\<exists>v. queue s1 = (queue s)(q := (queue s q)\<lparr>cRxLock := v\<rparr>) \<and> (lock \<noteq> queueUNLOCKED \<longrightarrow> v \<noteq> queueUNLOCKED \<and> 0 < v)) \<and> heap s1 = heap s
    \<and> (if lock = queueUNLOCKED then served (q + 16) (kern s) a (kern (portEND_SWITCHING_ISR woken s1)) a' else a' = a \<and> kern s1 = kern s)"
proof (cases "lock = queueUNLOCKED")
  case True
  have e: "q + 16 \<in> E" using os_coreD(3) [OF assms(1,2)] by (simp add: queue_in_def)
  obtain b k' k2 a' where w: "wake_one (EventList (q + 16)) s = Some (b, s\<lparr>kern := k'\<rparr>)" "k2 = (if b then yield k' else k')"
    "os_core Q E T idle (s\<lparr>kern := k2\<rparr>) a'" "woke (kern s) a k2 a'" "served (q + 16) (kern s) a k2 a'"
    using wake_and_yield_ok [OF assms(1) e] by blast
  have "portEND_SWITCHING_ISR b (s\<lparr>kern := k'\<rparr>) = s\<lparr>kern := k2\<rparr>" by (simp add: portEND_SWITCHING_ISR_def w(2))
  then show ?thesis using True w(1,3-5)
    by (intro exI [of _ b] exI [of _ "s\<lparr>kern := k'\<rparr>"] exI [of _ a']) (simp add: xTasksWaitingToSend_def same_header)
next
  case False
  note os = os_coreD [OF assms(1)]
  have qi: "queue_in E q (queue s q)" by (rule os(3) [OF assms(2)])
  define v where "v = (if (scast lock :: u32) < uxCurrentNumberOfTasks (kern s) then lock + 1 else lock)"
  define x1 where "x1 = (queue s q)\<lparr>cRxLock := v\<rparr>"
  define s1 where "s1 = s\<lparr>queue := (queue s)(q := x1)\<rparr>"
  have lk: "lock_ok lock" using qi assms(3) by (simp add: queue_in_def)
  note inc = lock_increment [OF lk False os(4)]
  have "0 < uxCurrentNumberOfTasks (kern s)" using kernel_coreD(8) [OF os(1)] by simp
  from lock_counts [OF lk False os(4) this] have cnt: "v \<noteq> queueUNLOCKED" "0 < v" unfolding v_def by blast+
  have "prvIncrementQueueRxLock q lock s = Some s1"
    using inc(1) assms(3) by (auto simp: prvIncrementQueueRxLock_def uxTaskGetNumberOfTasks_def upd_queue_def s1_def x1_def v_def)
  moreover have "queue_in E q x1"
    using qi inc(2) lk by (auto simp: x1_def v_def queue_in_def queue_ok_def length_of_def size_of_def count_of_def read_cell_def)
  then have "os_core Q E T idle s1 a" using os(3) by (intro os_core_queue [OF assms(1)]) (auto simp: s1_def)
  ultimately show ?thesis using False woke_refl
    by (intro exI [of _ False] exI [of _ s1] exI [of _ a])
       (use cnt in \<open>auto simp: portEND_SWITCHING_ISR_def s1_def x1_def\<close>)
qed

text \<open>The sizes and the places of the queues never change, nor do the blocks of the heap.\<close>

definition same_sizes :: "os \<Rightarrow> os \<Rightarrow> bool" where
  "same_sizes s s' \<longleftrightarrow> (\<forall>q. length_of (queue s' q) = length_of (queue s q) \<and> size_of (queue s' q) = size_of (queue s q)
       \<and> pcHead (queue s' q) = pcHead (queue s q)) \<and> only_bytes (heap s) (heap s')"

lemma same_sizes_refl [simp]: "same_sizes s s"
  by (simp add: same_sizes_def)

lemma same_sizes_trans: "same_sizes s s1 \<Longrightarrow> same_sizes s1 s2 \<Longrightarrow> same_sizes s s2"
  using only_bytes_trans [of "heap s" "heap s1" "heap s2"] by (simp add: same_sizes_def)

lemma only_queue_sizes: "only_queue q s s' \<Longrightarrow> same_sizes s s'"
  unfolding only_queue_def same_sizes_def by metis

text \<open>The end of an interrupt changes the lock only, and wakes.\<close>

lemma lock_keeps:
  assumes "queue s1 = (queue s)(q := (queue s q)\<lparr>cTxLock := v\<rparr>) \<or> queue s1 = (queue s)(q := (queue s q)\<lparr>cRxLock := v\<rparr>)" and "heap s1 = heap s"
  shows "only_queue q s s1" "contents q s1 = contents q s"
  using assms by (auto simp: only_queue_def unchanged_outside_def contents_def slots_def Let_def length_of_def size_of_def count_of_def read_cell_def)

lemma code_sizes:
  "size_of x = 0 \<longleftrightarrow> uxItemSize x = 0" "length_of x = 1 \<longleftrightarrow> uxLength x = 1" "count_of x < length_of x \<longleftrightarrow> uxMessagesWaiting x < uxLength x"
proof -
  show "size_of x = 0 \<longleftrightarrow> uxItemSize x = 0" by (simp add: size_of_def unat_eq_0)
  show "length_of x = 1 \<longleftrightarrow> uxLength x = 1" unfolding length_of_def word_unat_eq_iff by simp
  show "count_of x < length_of x \<longleftrightarrow> uxMessagesWaiting x < uxLength x"
    by (simp add: length_of_def count_of_def word_less_nat_alt)
qed

lemma isr_keeps:
  "only_queue q s s' \<Longrightarrow> only_queue q s (portEND_SWITCHING_ISR b s')" "fifo_of q (portEND_SWITCHING_ISR b s') = fifo_of q s'"
  by (simp_all add: portEND_SWITCHING_ISR_def only_queue_kern fifo_of_def contents_def slots_def Let_def)

text \<open>
  An interrupt that sends to a locked queue is counted and touches no list of waiting tasks; one that
  receives leaves the count of sends and the waiting receivers alone.
\<close>

definition counted :: "u32 \<Rightarrow> os \<Rightarrow> (item_id, list_id) alists \<Rightarrow> os \<Rightarrow> (item_id, list_id) alists \<Rightarrow> bool" where
  "counted q s a s' a' \<longleftrightarrow> (\<forall>f. f \<noteq> q + 36 \<or> cTxLock (queue s q) \<noteq> queueUNLOCKED \<longrightarrow> elems a' (EventList f) = elems a (EventList f))
     \<and> (cTxLock (queue s q) \<noteq> queueUNLOCKED \<longrightarrow> cTxLock (queue s' q) \<noteq> queueUNLOCKED \<and> (0 < cTxLock (queue s' q) \<or> queue s' = queue s))"

lemma counted_refl: "counted q s a s a"
  by (simp add: counted_def)

lemma counted_end:
  assumes "cTxLock (queue s1 q) = cTxLock (queue s q)" and "kern s1 = kern s"
    and "if cTxLock (queue s q) = queueUNLOCKED then served (q + 36) (kern s1) a k' a' else a' = a \<and> k = kern s1"
    and "queue s2 = (queue s1)(q := (queue s1 q)\<lparr>cTxLock := v\<rparr>)" and "cTxLock (queue s q) \<noteq> queueUNLOCKED \<longrightarrow> v \<noteq> queueUNLOCKED \<and> 0 < v"
  shows "counted q s a s2 a'"
  using assms served_others [of "q + 36" "kern s1" a k' a'] by (auto simp: counted_def split: if_splits)

lemma send_isr_ok:
  assumes "os_core Q E T idle s a" and "q \<in> Q" and "sendable (queue s q) (length d) p"
  shows "\<exists>b s' a'. xQueueGenericSendFromISR q (Some d) p s = Some (has_room (queue s q) p, b, s')
    \<and> os_core Q E T idle (portEND_SWITCHING_ISR b s') a' \<and> woke (kern s) a (kern (portEND_SWITCHING_ISR b s')) a'
    \<and> only_queue q s s' \<and> fifo_of q s' = fifo_put d p (fifo_of q s) \<and> counted q s a s' a'"
proof -
  note os = os_coreD [OF assms(1)]
  have qi: "queue_in E q (queue s q)" by (rule os(3) [OF assms(2)])
  then have x: "queue_ok (queue s q)" "pcHead (queue s q) \<noteq> 0" "q \<noteq> 0" by (simp_all add: queue_in_def)
  have ov: "p = queueOVERWRITE \<longrightarrow> uxLength (queue s q) = 1" using assms(3) code_sizes(2) [of "queue s q"] by (simp add: sendable_def)
  show ?thesis
  proof (cases "has_room (queue s q) p")
    case False
    then have "xQueueGenericSendFromISR q (Some d) p s = Some (False, False, s)"
      using x(3) ov by (auto simp: xQueueGenericSendFromISR_def has_room_code)
    then show ?thesis using assms(1) woke_refl False
      by (intro exI [of _ False] exI [of _ s] exI [of _ a]) (simp add: portEND_SWITCHING_ISR_def fifo_of_full only_queue_def unchanged_outside_def counted_refl)
  next
    case True
    obtain x' h where c: "prvCopyDataToQueue q (Some d) p s = Some (False, s\<lparr>queue := (queue s)(q := x'), heap := heap s\<lparr>bytes := h\<rparr>\<rparr>)"
        "queue_ok x'" "fixed_part x' = fixed_part (queue s q)"
        "contents q (s\<lparr>queue := (queue s)(q := x'), heap := heap s\<lparr>bytes := h\<rparr>\<rparr>) = put p (take (size_of (queue s q)) d) (contents q s)"
        "unchanged_outside (queue s q) s (s\<lparr>queue := (queue s)(q := x'), heap := heap s\<lparr>bytes := h\<rparr>\<rparr>)"
      using copy_to [OF x(1,2) assms(3) True] by blast
    define s1 where "s1 = s\<lparr>queue := (queue s)(q := x'), heap := heap s\<lparr>bytes := h\<rparr>\<rparr>"
    have os1: "os_core Q E T idle s1 a"
      by (rule os_core_queue [OF assms(1)]) (use os(3) fixed_in [OF qi c(2,3)] in \<open>auto simp: s1_def\<close>)
    have o1: "only_queue q s s1" using c(3,5) by (simp add: only_queue_def s1_def fixed_part_def)
    have f1: "fifo_of q s1 = fifo_put d p (fifo_of q s)" by (rule fifo_of_put [OF o1 True]) (use c(4) in \<open>simp add: s1_def\<close>)
    have lk: "cTxLock (queue s q) = cTxLock (queue s1 q)" using c(3) by (simp add: s1_def fixed_part_def)
    obtain b s2 a' v where w: "(if cTxLock (queue s q) = queueUNLOCKED then wake_one (xTasksWaitingToReceive q) s1
      else do { s \<leftarrow> prvIncrementQueueTxLock q (cTxLock (queue s q)) s1; Some (False, s) }) = Some (b, s2)"
      "os_core Q E T idle (portEND_SWITCHING_ISR b s2) a'" "woke (kern s1) a (kern (portEND_SWITCHING_ISR b s2)) a'"
      "queue s2 = (queue s1)(q := (queue s1 q)\<lparr>cTxLock := v\<rparr>)" "heap s2 = heap s1"
      "if cTxLock (queue s q) = queueUNLOCKED then served (q + 36) (kern s1) a (kern (portEND_SWITCHING_ISR b s2)) a' else a' = a \<and> kern s2 = kern s1"
      "cTxLock (queue s q) \<noteq> queueUNLOCKED \<longrightarrow> v \<noteq> queueUNLOCKED \<and> 0 < v"
      using isr_end_tx [OF os1 assms(2) lk] by blast
    have k2: "only_queue q s1 s2" "contents q s2 = contents q s1" using lock_keeps [of s2 s1 q v] w(4,5) by blast+
    have "xQueueGenericSendFromISR q (Some d) p s = Some (True, b, s2)"
      using x(3) ov True c(1) w(1) unfolding has_room_code s1_def [symmetric]
      by (simp add: xQueueGenericSendFromISR_def Let_def split del: if_split)
    moreover have "fifo_of q s2 = fifo_put d p (fifo_of q s)" using fifo_of_same [OF k2] f1 by simp
    moreover have k1: "kern s1 = kern s" by (simp add: s1_def)
    moreover have "counted q s a s2 a'" using counted_end [OF lk [symmetric] k1 _ w(4,7)] w(6) by simp
    ultimately show ?thesis using w(2,3) True only_queue_trans [OF o1 k2(1)]
      by (intro exI [of _ b] exI [of _ s2] exI [of _ a']) simp
  qed
qed

lemma give_isr_ok:
  assumes "os_core Q E T idle s a" and "q \<in> Q" and "size_of (queue s q) = 0"
  shows "\<exists>b s' a'. xQueueGiveFromISR q s = Some (count_of (queue s q) < length_of (queue s q), b, s')
    \<and> os_core Q E T idle (portEND_SWITCHING_ISR b s') a' \<and> woke (kern s) a (kern (portEND_SWITCHING_ISR b s')) a'
    \<and> only_queue q s s' \<and> fifo_of q s' = fifo_put [] queueSEND_TO_BACK (fifo_of q s) \<and> counted q s a s' a'"
proof -
  note os = os_coreD [OF assms(1)]
  have qi: "queue_in E q (queue s q)" by (rule os(3) [OF assms(2)])
  then have x: "q \<noteq> 0" "\<not> is_mutex (queue s q)" "queue_ok (queue s q)" by (simp_all add: queue_in_def is_mutex_def)
  then have l: "0 < length_of (queue s q)" by (simp add: queue_ok_def)
  have z: "uxItemSize (queue s q) = 0" using assms(3) code_sizes(1) by blast
  have room: "has_room (queue s q) queueSEND_TO_BACK \<longleftrightarrow> count_of (queue s q) < length_of (queue s q)"
    by (simp add: has_room_def queueSEND_TO_BACK_def queueOVERWRITE_def)
  show ?thesis
  proof (cases "count_of (queue s q) < length_of (queue s q)")
    case False
    then have "xQueueGiveFromISR q s = Some (False, False, s)" using x z by (simp add: xQueueGiveFromISR_def code_sizes(3))
    then show ?thesis using assms(1) woke_refl False room
      by (intro exI [of _ False] exI [of _ s] exI [of _ a]) (simp add: portEND_SWITCHING_ISR_def fifo_of_full only_queue_def unchanged_outside_def counted_refl)
  next
    case True
    define s1 where "s1 = upd_queue q (\<lambda>x. x\<lparr>uxMessagesWaiting := uxMessagesWaiting (queue s q) + 1\<rparr>) s"
    have le: "unat (uxMessagesWaiting (queue s q) + 1) \<le> length_of (queue s q)" using count_succ [OF True] True by simp
    note s1 = count_change [OF assms le, folded s1_def]
    have lk: "cTxLock (queue s q) = cTxLock (queue s1 q)" by (simp add: s1_def upd_queue_def)
    obtain b s2 a' v where w: "(if cTxLock (queue s q) = queueUNLOCKED then wake_one (xTasksWaitingToReceive q) s1
      else do { s \<leftarrow> prvIncrementQueueTxLock q (cTxLock (queue s q)) s1; Some (False, s) }) = Some (b, s2)"
      "os_core Q E T idle (portEND_SWITCHING_ISR b s2) a'" "woke (kern s1) a (kern (portEND_SWITCHING_ISR b s2)) a'"
      "queue s2 = (queue s1)(q := (queue s1 q)\<lparr>cTxLock := v\<rparr>)" "heap s2 = heap s1"
      "if cTxLock (queue s q) = queueUNLOCKED then served (q + 36) (kern s1) a (kern (portEND_SWITCHING_ISR b s2)) a' else a' = a \<and> kern s2 = kern s1"
      "cTxLock (queue s q) \<noteq> queueUNLOCKED \<longrightarrow> v \<noteq> queueUNLOCKED \<and> 0 < v"
      using isr_end_tx [OF s1(1) assms(2) lk] by blast
    have k2: "only_queue q s1 s2" "contents q s2 = contents q s1" using lock_keeps [of s2 s1 q v] w(4,5) by blast+
    have "contents q s1 = replicate (Suc (count_of (queue s q))) []"
      using contents_empty_items [of s1 q] assms(3) l s1(2,4) count_succ [OF True] by (simp add: only_queue_def)
    moreover have "contents q s = replicate (count_of (queue s q)) []" using contents_empty_items [OF assms(3) l] .
    ultimately have "contents q s1 = put queueSEND_TO_BACK (take (size_of (queue s q)) []) (contents q s)"
      by (simp add: put_def replicate_append_same)
    from fifo_of_put [OF s1(2) _ this] have "fifo_of q s1 = fifo_put [] queueSEND_TO_BACK (fifo_of q s)" using True room by simp
    then have "fifo_of q s2 = fifo_put [] queueSEND_TO_BACK (fifo_of q s)" using fifo_of_same [OF k2] by simp
    moreover have "xQueueGiveFromISR q s = Some (True, b, s2)"
      using x z True w(1) unfolding code_sizes(3)
      by (simp add: xQueueGiveFromISR_def Let_def s1_def [symmetric] split del: if_split)
    moreover have "counted q s a s2 a'" using counted_end [OF lk [symmetric] s1(3) _ w(4,7)] w(6) by simp
    ultimately show ?thesis using w(2,3) s1(3) True only_queue_trans [OF s1(2) k2(1)]
      by (intro exI [of _ b] exI [of _ s2] exI [of _ a']) simp
  qed
qed

lemma receive_isr_ok:
  assumes "os_core Q E T idle s a" and "q \<in> Q" and "size_of (queue s q) \<le> length d"
  shows "\<exists>b s' a'. xQueueReceiveFromISR q (Some d) s = Some (contents q s \<noteq> [], b, Some (if contents q s = [] then d else into (hd (contents q s)) d), s')
    \<and> os_core Q E T idle (portEND_SWITCHING_ISR b s') a' \<and> woke (kern s) a (kern (portEND_SWITCHING_ISR b s')) a'
    \<and> only_queue q s s' \<and> fifo_of q s' = fifo_drop (fifo_of q s)
    \<and> (\<forall>f. f \<noteq> q + 16 \<longrightarrow> elems a' (EventList f) = elems a (EventList f)) \<and> cTxLock (queue s' q) = cTxLock (queue s q)"
proof -
  note os = os_coreD [OF assms(1)]
  have q0: "q \<noteq> 0" using os(3) [OF assms(2)] by (simp add: queue_in_def)
  have ne: "contents q s = [] \<longleftrightarrow> count_of (queue s q) = 0" using contents_length [of q s] by (metis length_0_conv)
  show ?thesis
  proof (cases "count_of (queue s q) = 0")
    case True
    then have "xQueueReceiveFromISR q (Some d) s = Some (False, False, Some d, s)" using q0 by (simp add: xQueueReceiveFromISR_def empty_code Let_def)
    then show ?thesis using assms(1) woke_refl True ne
      by (intro exI [of _ False] exI [of _ s] exI [of _ a]) (simp add: portEND_SWITCHING_ISR_def fifo_of_empty only_queue_def unchanged_outside_def)
  next
    case False
    obtain r where r: "prvCopyDataFromQueue q (Some d) s = Some (Some (into (hd (contents q s)) d), upd_queue q (\<lambda>x. x\<lparr>u1 := r\<rparr>) s)"
      "\<forall>s1. s1 = upd_queue q (\<lambda>x. x\<lparr>uxMessagesWaiting := uxMessagesWaiting (queue s q) - 1\<rparr>) (upd_queue q (\<lambda>x. x\<lparr>u1 := r\<rparr>) s)
          \<longrightarrow> os_core Q E T idle s1 a \<and> only_queue q s s1 \<and> kern s1 = kern s
            \<and> (\<forall>k. contents q (s1\<lparr>kern := k\<rparr>) = tl (contents q s))"
      using take_out [OF assms(1,2) False assms(3)] by blast
    define s1 where "s1 = upd_queue q (\<lambda>x. x\<lparr>uxMessagesWaiting := uxMessagesWaiting (queue s q) - 1\<rparr>) (upd_queue q (\<lambda>x. x\<lparr>u1 := r\<rparr>) s)"
    have s1: "os_core Q E T idle s1 a" "only_queue q s s1" "kern s1 = kern s" "contents q (s1\<lparr>kern := kern s1\<rparr>) = tl (contents q s)"
      using r(2) unfolding s1_def by blast+
    have f1: "fifo_of q s1 = fifo_drop (fifo_of q s)" by (rule fifo_of_drop [OF s1(2)]) (use s1(4) in simp)
    have lk: "cRxLock (queue s q) = cRxLock (queue s1 q)" by (simp add: s1_def upd_queue_def)
    obtain b s2 a' v where w: "(if cRxLock (queue s q) = queueUNLOCKED then wake_one (xTasksWaitingToSend q) s1
      else do { s \<leftarrow> prvIncrementQueueRxLock q (cRxLock (queue s q)) s1; Some (False, s) }) = Some (b, s2)"
      "os_core Q E T idle (portEND_SWITCHING_ISR b s2) a'" "woke (kern s1) a (kern (portEND_SWITCHING_ISR b s2)) a'"
      "queue s2 = (queue s1)(q := (queue s1 q)\<lparr>cRxLock := v\<rparr>)" "heap s2 = heap s1"
      "if cRxLock (queue s q) = queueUNLOCKED then served (q + 16) (kern s1) a (kern (portEND_SWITCHING_ISR b s2)) a' else a' = a \<and> kern s2 = kern s1"
      using isr_end_rx [OF s1(1) assms(2) lk] by blast
    have k2: "only_queue q s1 s2" "contents q s2 = contents q s1" using lock_keeps [of s2 s1 q v] w(4,5) by blast+
    have "xQueueReceiveFromISR q (Some d) s = Some (True, b, Some (into (hd (contents q s)) d), s2)"
      using q0 False r(1) w(1) unfolding s1_def by (simp add: xQueueReceiveFromISR_def Let_def empty_code split del: if_split)
    moreover have "fifo_of q s2 = fifo_drop (fifo_of q s)" using fifo_of_same [OF k2] f1 by simp
    moreover have "\<forall>f. f \<noteq> q + 16 \<longrightarrow> elems a' (EventList f) = elems a (EventList f)"
      using w(6) served_others by (simp split: if_splits)
    moreover have "cTxLock (queue s2 q) = cTxLock (queue s q)" by (simp add: w(4)) (simp add: s1_def upd_queue_def)
    ultimately show ?thesis using w(2,3) s1(3) False ne only_queue_trans [OF s1(2) k2(1)]
      by (intro exI [of _ b] exI [of _ s2] exI [of _ a']) simp
  qed
qed

text \<open>What an interrupt does to the queues.\<close>

fun spec_intr :: "intr \<Rightarrow> (u32 \<rightharpoonup> fifo) \<Rightarrow> u32 \<rightharpoonup> fifo" where
  "spec_intr TickInt m = m"
| "spec_intr YieldInt m = m"
| "spec_intr (SendInt q d p) m = on_fifo q (\<lambda>f. if fifo_fits (length d) p f then fifo_put d p f else f) m"
| "spec_intr (GiveInt q) m = on_fifo q (\<lambda>f. if width f = 0 then fifo_put [] queueSEND_TO_BACK f else f) m"
| "spec_intr (ReceiveInt q d) m = on_fifo q (\<lambda>f. if width f \<le> length d then fifo_drop f else f) m"

definition stays :: "u32 set \<Rightarrow> os \<Rightarrow> os \<Rightarrow> ((u32 \<rightharpoonup> fifo) \<Rightarrow> (u32 \<rightharpoonup> fifo)) \<Rightarrow> bool" where
  "stays Q s s' f \<longleftrightarrow> same_sizes s s' \<and> (apart Q s \<longrightarrow> view Q s' = f (view Q s))"

lemma apart_sizes: "same_sizes s s' \<Longrightarrow> apart Q s' \<longleftrightarrow> apart Q s"
  by (simp add: same_sizes_def apart_def)

lemma stays_trans: "stays Q s s1 f \<Longrightarrow> stays Q s1 s2 g \<Longrightarrow> stays Q s s2 (\<lambda>m. g (f m))"
  unfolding stays_def using same_sizes_trans apart_sizes by auto

lemma stays_same: "queue s' = queue s \<Longrightarrow> heap s' = heap s \<Longrightarrow> stays Q s s' (\<lambda>m. m)"
  by (auto simp: stays_def same_sizes_def view_def fifo_of_def contents_def slots_def Let_def)

lemma stays_queue:
  assumes "os_core Q E T idle s a" and "q \<in> Q" and "only_queue q s s'" and "fifo_of q s' = f (fifo_of q s)" and "g (view Q s) = on_fifo q f (view Q s)"
  shows "stays Q s s' g"
proof -
  have "\<forall>r \<in> Q. queue_ok (queue s r)" using os_coreD(3) [OF assms(1)] by (simp add: queue_in_def)
  then have "view Q s' = on_fifo q f (view Q s)" if "apart Q s"
    using only_queue_view [where f = f, OF assms(3) that assms(2)] assms(4) by blast
  then show ?thesis using only_queue_sizes [OF assms(3)] assms(5) by (simp add: stays_def)
qed

text \<open>Only the locks of a queue changed.\<close>

lemma stays_locks:
  assumes "queue s' = (queue s)(q := (queue s q)\<lparr>cRxLock := u, cTxLock := v\<rparr>)" and "heap s' = heap s"
  shows "stays Q s s' (\<lambda>m. m)"
  using assms by (auto simp: stays_def same_sizes_def view_def fifo_of_def contents_def slots_def Let_def length_of_def size_of_def count_of_def read_cell_def)

lemma view_kern: "view Q (s\<lparr>kern := k\<rparr>) = view Q s"
  by (rule ext) (simp add: view_def fifo_of_def contents_def slots_def Let_def)

lemma stays_kern: "stays Q s s' f \<Longrightarrow> stays Q s (s'\<lparr>kern := k\<rparr>) f" "stays Q (s\<lparr>kern := k\<rparr>) s' f \<longleftrightarrow> stays Q s s' f"
  by (simp_all add: stays_def same_sizes_def view_kern apart_def)

text \<open>
  While a queue is locked, nobody leaves the list of its waiting receivers, it stays locked, and it does
  not come to hold an item without an interrupt having been counted.
\<close>

definition holds_on :: "u32 \<Rightarrow> os \<Rightarrow> (item_id, list_id) alists \<Rightarrow> os \<Rightarrow> (item_id, list_id) alists \<Rightarrow> bool" where
  "holds_on q s a s' a' \<longleftrightarrow> (cTxLock (queue s q) \<noteq> queueUNLOCKED \<longrightarrow> cTxLock (queue s' q) \<noteq> queueUNLOCKED
     \<and> elems a' (EventList (q + 36)) = elems a (EventList (q + 36))
     \<and> (count_of (queue s q) = 0 \<or> 0 < cTxLock (queue s q) \<longrightarrow> count_of (queue s' q) = 0 \<or> 0 < cTxLock (queue s' q)))"

definition separate :: "u32 set \<Rightarrow> u32 \<Rightarrow> bool" where
  "separate Q q \<longleftrightarrow> (\<forall>r \<in> Q. r + 16 \<noteq> q + 36)"

lemma holds_on_same: "queue s' = queue s \<Longrightarrow> holds_on q s a s' a"
  by (simp add: holds_on_def)

lemma holds_on_trans: "holds_on q s a s1 a1 \<Longrightarrow> holds_on q s1 a1 s2 a2 \<Longrightarrow> holds_on q s a s2 a2"
  unfolding holds_on_def by metis

lemma counted_holds: "counted r s a s' a' \<Longrightarrow> only_queue r s s' \<Longrightarrow> holds_on q s a s' a'"
  by (cases "q = r") (auto simp: holds_on_def counted_def only_queue_def)

lemma queue_int_ok:
  assumes "os_core Q E T idle s a" and "intr_allowed Q i s" and "i \<noteq> TickInt" and "i \<noteq> YieldInt"
  shows "\<exists>s' a'. intr_exec i s = Some s' \<and> os_core Q E T idle s' a' \<and> woke (kern s) a (kern s') a' \<and> stays Q s s' (spec_intr i)
    \<and> (\<forall>r. separate Q r \<longrightarrow> holds_on r s a s' a')"
proof (cases i)
  case (SendInt q d p)
  then have al: "q \<in> Q" "sendable (queue s q) (length d) p" using assms(2) by simp_all
  obtain b s' a' where r: "xQueueGenericSendFromISR q (Some d) p s = Some (has_room (queue s q) p, b, s')"
    "os_core Q E T idle (portEND_SWITCHING_ISR b s') a'" "woke (kern s) a (kern (portEND_SWITCHING_ISR b s')) a'"
    "only_queue q s s'" "fifo_of q s' = fifo_put d p (fifo_of q s)" "counted q s a s' a'"
    using send_isr_ok [OF assms(1) al] by blast
  have "spec_intr i (view Q s) = on_fifo q (fifo_put d p) (view Q s)" using al by (simp add: SendInt on_fifo_def view_def)
  note stays_queue [where f = "fifo_put d p" and g = "spec_intr i", OF assms(1) al(1) isr_keeps(1) [OF r(4)] _ this]
  then have "stays Q s (portEND_SWITCHING_ISR b s') (spec_intr i)" unfolding isr_keeps(2) using r(5) .
  moreover have "holds_on r s a (portEND_SWITCHING_ISR b s') a'" for r
    using counted_holds [OF r(6,4)] by (simp add: holds_on_def portEND_SWITCHING_ISR_def)
  ultimately show ?thesis using r(1-3) SendInt by (intro exI [of _ "portEND_SWITCHING_ISR b s'"] exI [of _ a']) simp
next
  case (GiveInt q)
  then have al: "q \<in> Q" "size_of (queue s q) = 0" using assms(2) by simp_all
  obtain b s' a' where r: "xQueueGiveFromISR q s = Some (count_of (queue s q) < length_of (queue s q), b, s')"
    "os_core Q E T idle (portEND_SWITCHING_ISR b s') a'" "woke (kern s) a (kern (portEND_SWITCHING_ISR b s')) a'"
    "only_queue q s s'" "fifo_of q s' = fifo_put [] queueSEND_TO_BACK (fifo_of q s)" "counted q s a s' a'"
    using give_isr_ok [OF assms(1) al] by blast
  have "spec_intr i (view Q s) = on_fifo q (fifo_put [] queueSEND_TO_BACK) (view Q s)" using al by (simp add: GiveInt on_fifo_def view_def)
  note stays_queue [where f = "fifo_put [] queueSEND_TO_BACK" and g = "spec_intr i", OF assms(1) al(1) isr_keeps(1) [OF r(4)] _ this]
  then have "stays Q s (portEND_SWITCHING_ISR b s') (spec_intr i)" unfolding isr_keeps(2) using r(5) .
  moreover have "holds_on r s a (portEND_SWITCHING_ISR b s') a'" for r
    using counted_holds [OF r(6,4)] by (simp add: holds_on_def portEND_SWITCHING_ISR_def)
  ultimately show ?thesis using r(1-3) GiveInt by (intro exI [of _ "portEND_SWITCHING_ISR b s'"] exI [of _ a']) simp
next
  case (ReceiveInt q d)
  then have al: "q \<in> Q" "size_of (queue s q) \<le> length d" using assms(2) by simp_all
  obtain b s' a' buf where r: "xQueueReceiveFromISR q (Some d) s = Some (contents q s \<noteq> [], b, buf, s')"
    "os_core Q E T idle (portEND_SWITCHING_ISR b s') a'" "woke (kern s) a (kern (portEND_SWITCHING_ISR b s')) a'"
    "only_queue q s s'" "fifo_of q s' = fifo_drop (fifo_of q s)" "\<forall>f. f \<noteq> q + 16 \<longrightarrow> elems a' (EventList f) = elems a (EventList f)"
    "cTxLock (queue s' q) = cTxLock (queue s q)"
    using receive_isr_ok [OF assms(1) al] by blast
  have "spec_intr i (view Q s) = on_fifo q (fifo_drop) (view Q s)" using al by (simp add: ReceiveInt on_fifo_def view_def)
  note stays_queue [where f = "fifo_drop" and g = "spec_intr i", OF assms(1) al(1) isr_keeps(1) [OF r(4)] _ this]
  then have "stays Q s (portEND_SWITCHING_ISR b s') (spec_intr i)" unfolding isr_keeps(2) using r(5) .
  moreover have "holds_on r s a (portEND_SWITCHING_ISR b s') a'" if "separate Q r" for r
  proof -
    have "r + 36 \<noteq> q + 16" using that al(1) by (auto simp: separate_def)
    then have "elems a' (EventList (r + 36)) = elems a (EventList (r + 36))" using r(6) by blast
    moreover have "count_of (queue s' r) = 0 \<or> 0 < cTxLock (queue s' r)" if "count_of (queue s r) = 0 \<or> 0 < cTxLock (queue s r)"
    proof (cases "r = q")
      case True
      have "count_of (queue s' q) = count_of (queue s q) - 1"
        using arg_cong [OF r(5), of "\<lambda>f. length (held f)"] by (simp add: fifo_drop_def contents_length)
      then show ?thesis using that r(7) True by auto
    next
      case False
      then show ?thesis using that r(4) by (simp add: only_queue_def)
    qed
    moreover have "cTxLock (queue s' r) = cTxLock (queue s r)" using r(4,7) by (cases "r = q") (simp_all add: only_queue_def)
    ultimately show ?thesis by (simp add: holds_on_def portEND_SWITCHING_ISR_def)
  qed
  ultimately show ?thesis using r(1-3) ReceiveInt by (intro exI [of _ "portEND_SWITCHING_ISR b s'"] exI [of _ a']) simp
qed (use assms in simp_all)

lemma spec_intr_refused: "\<not> intr_allowed Q i s \<Longrightarrow> spec_intr i (view Q s) = view Q s"
  by (cases i) (auto simp: on_fifo_def view_def)

lemma spec_intr_none: "spec_intr TickInt = (\<lambda>m. m)" "spec_intr YieldInt = (\<lambda>m. m)"
  by (rule ext, simp)+

text \<open>Any interrupt while the scheduler is suspended: the tick is counted, the switch is noted.\<close>

lemma intr_suspended_ok:
  assumes "os_core Q E T idle s a" and "intr_allowed Q i s" and "uxSchedulerSuspended (kern s) \<noteq> 0"
  shows "\<exists>s' a'. intr_exec i s = Some s' \<and> os_core Q E T idle s' a' \<and> woke (kern s) a (kern s') a' \<and> stays Q s s' (spec_intr i)
    \<and> (\<forall>r. separate Q r \<longrightarrow> holds_on r s a s' a')"
proof (cases "i = TickInt \<or> i = YieldInt")
  case False
  then show ?thesis using queue_int_ok [OF assms(1,2)] by blast
next
  case True
  then show ?thesis
  proof (elim disjE)
    assume TickInt: "i = TickInt"
  define k' where "k' = (kern s)\<lparr>xPendedTicks := xPendedTicks (kern s) + 1\<rparr>"
  have "vPortIncrementTick (kern s) = Some k'"
    using assms(3) by (simp add: vPortIncrementTick_def xTaskIncrementTick_def k'_def)
  moreover have "os_core Q E T idle (s\<lparr>kern := k'\<rparr>) a"
    using assms(1,3) by (simp add: os_core_def k'_def kernel_core_def settled_def)
  moreover have "woke (kern s) a k' a" by (simp add: woke_def k'_def switching_def)
  ultimately show ?thesis unfolding TickInt
    by (intro exI [of _ "s\<lparr>kern := k'\<rparr>"] exI [of _ a]) (simp add: on_kernel_def stays_same spec_intr_none holds_on_same)
next
    assume YieldInt: "i = YieldInt"
  define k' where "k' = (kern s)\<lparr>swi := False, xYieldPending := True\<rparr>"
  have "vPortYieldISR (kern s) = Some k'"
    using assms(3) by (simp add: vPortYieldISR_def vTaskSwitchContext_def k'_def)
  moreover have "os_core Q E T idle (s\<lparr>kern := k'\<rparr>) a"
    using assms(1) by (simp add: os_core_def k'_def)
  moreover have "woke (kern s) a k' a" using assms(3) by (simp add: woke_def k'_def switching_def)
  ultimately show ?thesis unfolding YieldInt
    by (intro exI [of _ "s\<lparr>kern := k'\<rparr>"] exI [of _ a]) (simp add: on_kernel_def stays_same spec_intr_none holds_on_same)
  qed
qed

section \<open>Waiting\<close>

text \<open>Interrupts one after the other, those that may not come skipped.\<close>

fun run_intrs :: "u32 set \<Rightarrow> intr list \<Rightarrow> os \<Rightarrow> os option" where
  "run_intrs Q [] s = Some s"
| "run_intrs Q (i # is) s = (if intr_allowed Q i s then intr_exec i s \<bind> run_intrs Q is else run_intrs Q is s)"

definition during :: "u32 set \<Rightarrow> intr list \<Rightarrow> os \<Rightarrow> os" where
  "during Q is s = (case run_intrs Q is s of Some s' \<Rightarrow> s' | None \<Rightarrow> s)"

lemma run_intrs_ok:
  assumes "os_core Q E T idle s a" and "uxSchedulerSuspended (kern s) \<noteq> 0"
  shows "\<exists>s' a'. run_intrs Q is s = Some s' \<and> os_core Q E T idle s' a' \<and> woke (kern s) a (kern s') a' \<and> stays Q s s' (fold spec_intr is)
    \<and> (\<forall>r. separate Q r \<longrightarrow> holds_on r s a s' a')"
  using assms
proof (induction "is" arbitrary: s a)
  case Nil
  then show ?case using woke_refl stays_same [of s s Q] holds_on_same [of s s] by (auto simp: id_def)
next
  case (Cons i "is")
  show ?case
  proof (cases "intr_allowed Q i s")
    case True
    obtain s1 a1 where s1: "intr_exec i s = Some s1" "os_core Q E T idle s1 a1" "woke (kern s) a (kern s1) a1" "stays Q s s1 (spec_intr i)"
        "\<forall>r. separate Q r \<longrightarrow> holds_on r s a s1 a1"
      using intr_suspended_ok [OF Cons.prems(1) True Cons.prems(2)] by blast
    have su: "uxSchedulerSuspended (kern s1) \<noteq> 0" using s1(3) Cons.prems(2) by (simp add: woke_def)
    obtain s2 a2 where s2: "run_intrs Q is s1 = Some s2" "os_core Q E T idle s2 a2" "woke (kern s1) a1 (kern s2) a2" "stays Q s1 s2 (fold spec_intr is)"
        "\<forall>r. separate Q r \<longrightarrow> holds_on r s1 a1 s2 a2"
      using Cons.IH [OF s1(2) su] by blast
    have "\<forall>r. separate Q r \<longrightarrow> holds_on r s a s2 a2" using s1(5) s2(5) holds_on_trans by blast
    then show ?thesis using True s1(1) s2(1,2) woke_trans [OF s1(3) s2(3)] stays_trans [OF s1(4) s2(4)]
      by (intro exI [of _ s2] exI [of _ a2]) (simp add: comp_def)
  next
    case False
    have "stays Q s s' (fold spec_intr (i # is))" if "stays Q s s' (fold spec_intr is)" for s'
      using that spec_intr_refused [OF False] by (simp add: stays_def)
    moreover obtain s' a' where "run_intrs Q is s = Some s'" "os_core Q E T idle s' a'" "woke (kern s) a (kern s') a'" "stays Q s s' (fold spec_intr is)"
      "\<forall>r. separate Q r \<longrightarrow> holds_on r s a s' a'"
      using Cons.IH [OF Cons.prems] by blast
    ultimately show ?thesis using False by (intro exI [of _ s'] exI [of _ a']) (simp add: comp_def)
  qed
qed

lemma during_ok:
  assumes "os_core Q E T idle s a" and "uxSchedulerSuspended (kern s) \<noteq> 0"
  shows "\<exists>a'. os_core Q E T idle (during Q is s) a' \<and> woke (kern s) a (kern (during Q is s)) a' \<and> stays Q s (during Q is s) (fold spec_intr is)
    \<and> (\<forall>r. separate Q r \<longrightarrow> holds_on r s a (during Q is s) a')"
  using run_intrs_ok [OF assms, of "is"] by (auto simp: during_def)

lemma lock_queue_ok:
  assumes "os_core Q E T idle s a"
  shows "os_core Q E T idle (prvLockQueue q s) a" "kern (prvLockQueue q s) = kern s" "stays Q s (prvLockQueue q s) (\<lambda>m. m)"
    "heap (prvLockQueue q s) = heap s" "cTxLock (queue (prvLockQueue q s) q) \<noteq> queueUNLOCKED"
proof -
  define x where "x = (queue s q)\<lparr>cRxLock := if cRxLock (queue s q) = queueUNLOCKED then 0 else cRxLock (queue s q),
     cTxLock := if cTxLock (queue s q) = queueUNLOCKED then 0 else cTxLock (queue s q)\<rparr>"
  have e: "prvLockQueue q s = s\<lparr>queue := (queue s)(q := x)\<rparr>"
    by (simp add: prvLockQueue_def Let_def upd_queue_def x_def queueLOCKED_UNMODIFIED_def fun_upd_idem)
  show k: "kern (prvLockQueue q s) = kern s" "heap (prvLockQueue q s) = heap s" by (simp_all add: e)
  show "cTxLock (queue (prvLockQueue q s) q) \<noteq> queueUNLOCKED" by (simp add: e x_def queueUNLOCKED_def)
  have "lock_ok 0" by (simp add: lock_ok_def)
  then have "queue_in E q' x" if "queue_in E q' (queue s q)" for q'
    using that by (simp add: queue_in_def x_def queue_ok_def length_of_def size_of_def count_of_def read_cell_def)
  then have "queue_in E r (queue (prvLockQueue q s) r)" if "r \<in> Q" for r
    using os_coreD(3) [OF assms that] by (cases "r = q") (simp_all add: e)
  then show "os_core Q E T idle (prvLockQueue q s) a" by (rule os_core_queue [OF assms _ k(1)])
  show "stays Q s (prvLockQueue q s) (\<lambda>m. m)" unfolding e x_def by (rule stays_locks) simp_all
qed

text \<open>
  Unlocking wakes the first waiting tasks, as many as interrupts sent or received meanwhile, and leaves
  the queue unlocked.
\<close>

lemma unlock_queue_ok:
  assumes "os_core Q E T idle s a" and "q \<in> Q" and "uxSchedulerSuspended (kern s) \<noteq> 0"
  shows "\<exists>s' a'. prvUnlockQueue q s = Some s' \<and> os_core Q E T idle s' a' \<and> woke (kern s) a (kern s') a'
    \<and> queue s' = (queue s)(q := (queue s q)\<lparr>cRxLock := queueUNLOCKED, cTxLock := queueUNLOCKED\<rparr>) \<and> heap s' = heap s
    \<and> holder a' = (\<lambda>i. if i \<in> set (take (nat (sint (cTxLock (queue s q)))) (elems a (EventList (q + 36))))
           \<union> set (take (nat (sint (cRxLock (queue s q)))) (elems a (EventList (q + 16)))) then Some PendingReadyList else holder a i)
    \<and> elems a' (EventList (q + 36)) = drop (nat (sint (cTxLock (queue s q)))) (elems a (EventList (q + 36)))
    \<and> elems a' (EventList (q + 16)) = drop (nat (sint (cRxLock (queue s q)))) (elems a (EventList (q + 16)))"
proof -
  note os = os_coreD [OF assms(1)]
  define n m where "n = nat (sint (cTxLock (queue s q)))" and "m = nat (sint (cRxLock (queue s q)))"
  have qi: "queue_in E q (queue s q)" by (rule os(3) [OF assms(2)])
  then have e: "q + 36 \<in> E" "q + 16 \<in> E" by (simp_all add: queue_in_def)
  have ne: "q + 16 \<noteq> q + 36" by simp
  obtain k1 a1 where r1: "unlock_loop n (EventList (q + 36)) (kern s) = Some k1" "kernel_core E T idle k1 a1"
    "\<forall>i \<in> set (elems a (EventList (q + 36))). i = EventItem (task_of i)"
    "holder a1 = (\<lambda>i. if i \<in> set (take n (elems a (EventList (q + 36)))) then Some PendingReadyList else holder a i)"
    "\<forall>f. elems a1 (EventList f) = (if f = q + 36 then drop n (elems a (EventList (q + 36))) else elems a (EventList f))"
    "tcb k1 = tcb (kern s)" "pxCurrentTCB k1 = pxCurrentTCB (kern s)" "xTickCount k1 = xTickCount (kern s)" "swi k1 = swi (kern s)"
    "uxSchedulerSuspended k1 = uxSchedulerSuspended (kern s)" "uxCurrentNumberOfTasks k1 = uxCurrentNumberOfTasks (kern s)"
    "xYieldPending k1 \<longleftrightarrow> xYieldPending (kern s) \<or> (\<exists>i \<in> set (take n (elems a (EventList (q + 36)))).
        uxPriority (tcb (kern s) (pxCurrentTCB (kern s))) < uxPriority (tcb (kern s) (task_of i)))"
    using unlock_loop_wakes [OF os(1) e(1) refl assms(3), of n] by blast
  have s1: "uxSchedulerSuspended k1 \<noteq> 0" using assms(3) r1(10) by simp
  have e1: "elems a1 (EventList (q + 16)) = elems a (EventList (q + 16))" using r1(5) ne by simp
  obtain k2 a2 where r2: "unlock_loop m (EventList (q + 16)) k1 = Some k2" "kernel_core E T idle k2 a2"
    "\<forall>i \<in> set (elems a (EventList (q + 16))). i = EventItem (task_of i)"
    "holder a2 = (\<lambda>i. if i \<in> set (take m (elems a (EventList (q + 16)))) then Some PendingReadyList else holder a1 i)"
    "\<forall>f. elems a2 (EventList f) = (if f = q + 16 then drop m (elems a (EventList (q + 16))) else elems a1 (EventList f))"
    "tcb k2 = tcb k1" "pxCurrentTCB k2 = pxCurrentTCB k1" "xTickCount k2 = xTickCount k1" "swi k2 = swi k1"
    "uxSchedulerSuspended k2 = uxSchedulerSuspended k1" "uxCurrentNumberOfTasks k2 = uxCurrentNumberOfTasks k1"
    "xYieldPending k2 \<longleftrightarrow> xYieldPending k1 \<or> (\<exists>i \<in> set (take m (elems a (EventList (q + 16)))).
        uxPriority (tcb k1 (pxCurrentTCB k1)) < uxPriority (tcb k1 (task_of i)))"
    using unlock_loop_wakes [OF r1(2) e(2) e1 s1, of m] by blast
  define x where "x = (queue s q)\<lparr>cRxLock := queueUNLOCKED, cTxLock := queueUNLOCKED\<rparr>"
  define s' where "s' = s\<lparr>kern := k2, queue := (queue s)(q := x)\<rparr>"
  have "(queue s q)\<lparr>cTxLock := queueUNLOCKED, cRxLock := queueUNLOCKED\<rparr> = x" by (cases "queue s q") (simp add: x_def)
  then have code: "prvUnlockQueue q s = Some s'"
    using r1(1) r2(1) unfolding n_def m_def
    by (simp add: prvUnlockQueue_def on_kernel_def upd_queue_def s'_def xTasksWaitingToReceive_def xTasksWaitingToSend_def)
  have st: "holder a2 (StateItem t) = holder a (StateItem t)" for t
  proof -
    have "StateItem t \<notin> set (elems a (EventList (q + 36)))" "StateItem t \<notin> set (elems a (EventList (q + 16)))"
      using r1(3) r2(3) by (metis item_id.distinct(1))+
    then show ?thesis unfolding r2(4) r1(4) by (meson in_set_takeD)
  qed
  have rd: "is_ready a2 t \<longleftrightarrow> is_ready a t" for t by (simp add: is_ready_def st)
  have w: "woke (kern s) a k2 a2"
    using r1(6-12) r2(6-12) unfolding woke_def rd by (auto simp: switching_def)
  have lk: "lock_ok queueUNLOCKED" by (simp add: lock_ok_def)
  have "queue_in E q x" using qi lk by (simp add: queue_in_def x_def queue_ok_def length_of_def size_of_def count_of_def read_cell_def)
  then have "os_core Q E T idle s' a2"
    using os(2,3,4) r2(2,11) r1(11) by (simp add: os_core_def s'_def st)
  then show ?thesis using code w r1(4,5) r2(4,5) ne unfolding n_def [symmetric] m_def [symmetric]
    by (intro exI [of _ s'] exI [of _ a2]) (auto simp: s'_def x_def)
qed

lemma timeout_positive:
  assumes "xTaskCheckForTimeOut t ticks k = (False, t', d)"
  shows "0 < d"
proof -
  have "0 < b - c" if "c < b" for b c :: u32 using that by (simp add: word_gt_0)
  moreover have "(0 :: u32) < portMAX_DELAY" by (simp add: portMAX_DELAY_def)
  ultimately show ?thesis using assms by (auto simp: xTaskCheckForTimeOut_def Let_def split: if_splits)
qed

lemma resume_preemptive:
  assumes "preemptive k a" and "uxSchedulerSuspended k \<noteq> 0" and "holder a' = woken (resumed k a) k (holder a)"
    and "tcb k' = tcb k" and "pxCurrentTCB k' = pxCurrentTCB k" and "swi k' = (swi k \<or> resume_yields k a)"
  shows "preemptive k' a'"
proof (cases "swi k'")
  case False
  then have n: "\<not> swi k" "\<not> resume_yields k a" using assms(6) by simp_all
  then have "\<not> xYieldPending k" "\<And>t. resumed k a t \<Longrightarrow> uxPriority (tcb k t) \<le> uxPriority (tcb k (pxCurrentTCB k))"
    unfolding resume_yields_def by (auto simp: not_less not_le intro: less_imp_le)
  then show ?thesis using assms(1) n(1) unfolding preemptive_def assms(4,5) ready_woken [OF assms(3)] by blast
qed (simp add: preemptive_def)

lemma resume_os:
  assumes "os_core Q E T idle s a" and "uxSchedulerSuspended (kern s) = 1"
  shows "\<exists>y k' a'. resume_all s = Some (y, s\<lparr>kern := k'\<rparr>) \<and> os_core Q E T idle (s\<lparr>kern := k'\<rparr>) a' \<and> uxSchedulerSuspended k' = 0
    \<and> pxCurrentTCB k' = pxCurrentTCB (kern s) \<and> (y \<longrightarrow> swi k') \<and> tcb k' = tcb (kern s)
    \<and> xTickCount k' = xTickCount (kern s) + xPendedTicks (kern s)
    \<and> holder a' = woken (resumed (kern s) a) (kern s) (holder a) \<and> itemval a' = itemval a
    \<and> (is_ready a (pxCurrentTCB (kern s)) \<longrightarrow> is_ready a' (pxCurrentTCB k')) \<and> (preemptive (kern s) a \<longrightarrow> preemptive k' a')"
proof -
  note os = os_coreD [OF assms(1)]
  obtain k' a' where r: "xTaskResumeAll (kern s) = Some (resume_yields (kern s) a, k')" "kernel_core E T idle k' a'"
    "holder a' = woken (resumed (kern s) a) (kern s) (holder a)" "itemval a' = itemval a" "uxSchedulerSuspended k' = 0"
    "xTickCount k' = xTickCount (kern s) + xPendedTicks (kern s)"
    "tcb k' = tcb (kern s)" "pxCurrentTCB k' = pxCurrentTCB (kern s)" "swi k' = (swi (kern s) \<or> resume_yields (kern s) a)"
    "uxCurrentNumberOfTasks k' = uxCurrentNumberOfTasks (kern s)"
    using resume_core [OF os(1) assms(2)] by blast
  have "uxSchedulerSuspended (kern s) \<noteq> 0" using assms(2) by simp
  note pre = resume_preemptive [OF _ this r(3,7,8,9)]
  have "os_core Q E T idle (s\<lparr>kern := k'\<rparr>) a'"
    using os(2-4) r(2,10) placed_woken [OF r(3)] by (simp add: os_core_def)
  then show ?thesis using r(1,3-9) pre woken_ready [OF r(3)]
    by (intro exI [of _ "resume_yields (kern s) a"] exI [of _ k'] exI [of _ a']) (simp add: resume_all_def)
qed

lemma suspend_os:
  assumes "os_core Q E T idle s a" and "uxSchedulerSuspended (kern s) = 0" and "preemptive (kern s) a"
  shows "os_core Q E T idle (s\<lparr>kern := vTaskSuspendAll (kern s)\<rparr>) a" "preemptive (vTaskSuspendAll (kern s)) a"
    "uxSchedulerSuspended (vTaskSuspendAll (kern s)) = 1"
  using assms by (simp_all add: os_core_def kernel_core_def settled_def vTaskSuspendAll_def preemptive_def) blast

text \<open>
  The whole section with any interrupts in it: it returns, and leaves the system in order with the
  scheduler running, the caller asleep on the queue or still ready.
\<close>

lemma wait_section_ok:
  assumes "os_core Q E T idle s a" and "uxSchedulerSuspended (kern s) = 0" and "preemptive (kern s) a"
    and "is_ready a (pxCurrentTCB (kern s))" and "pxCurrentTCB (kern s) \<noteq> idle" and "q \<in> Q" and "e = q + 16 \<or> e = q + 36"
    and env: "env n = during Q is1" "env (n + 1) = during Q is2"
  shows "\<exists>expired t' d' s' a'. wait_section env n q blocked (\<lambda>i s. Some (i, s)) (EventList e) i t d s = Some (expired, i, t', d', s')
      \<and> os_core Q E T idle s' a' \<and> uxSchedulerSuspended (kern s') = 0 \<and> preemptive (kern s') a'
      \<and> (swi (kern s') \<or> is_ready a' (pxCurrentTCB (kern s'))) \<and> (\<exists>js \<in> {is1, is1 @ is2}. stays Q s s' (fold spec_intr js))
      \<and> pxCurrentTCB (kern s') = pxCurrentTCB (kern s)
      \<and> (separate Q q \<and> blocked = prvIsQueueEmpty q \<and> e = q + 36 \<and> elems a (EventList e) = [] \<and> contents q s' \<noteq> []
           \<longrightarrow> is_ready a' (pxCurrentTCB (kern s)))"
proof -
  define s0 where "s0 = prvLockQueue q (s\<lparr>kern := vTaskSuspendAll (kern s)\<rparr>)"
  note su = suspend_os [OF assms(1-3)]
  note lk = lock_queue_ok [OF su(1), of q, folded s0_def]
  have k0: "kern s0 = vTaskSuspendAll (kern s)" using lk(2) by simp
  have sz0: "stays Q s s0 (\<lambda>m. m)" using lk(3) by (simp add: stays_kern(2))
  have "uxSchedulerSuspended (kern s0) \<noteq> 0" using su(3) k0 by simp
  from during_ok [OF lk(1) this, of is1]
  obtain a1 where i1: "os_core Q E T idle (during Q is1 s0) a1" "woke (kern s0) a (kern (during Q is1 s0)) a1" "stays Q s0 (during Q is1 s0) (fold spec_intr is1)"
    "\<forall>r. separate Q r \<longrightarrow> holds_on r s0 a (during Q is1 s0) a1" by blast
  define s1 where "s1 = during Q is1 s0"
  note i1 = i1 [folded s1_def]
  have su1: "uxSchedulerSuspended (kern s1) = 1" and cur1: "pxCurrentTCB (kern s1) = pxCurrentTCB (kern s)"
    using i1(2) su(3) k0 by (simp_all add: woke_def vTaskSuspendAll_def)
  have pre1: "preemptive (kern s1) a1" by (rule woke_preemptive [OF _ i1(2)]) (simp add: k0 su(2))
  have rd1: "is_ready a1 (pxCurrentTCB (kern s1))" using i1(2) assms(4) cur1 unfolding woke_def by simp
  have ne1: "uxSchedulerSuspended (kern s1) \<noteq> 0" using su1 by simp
  have sz1: "stays Q s s1 (fold spec_intr is1)" by (rule stays_trans [OF sz0 i1(3)])
  have qi: "queue_in E q (queue s1 q)" by (rule os_coreD(3) [OF i1(1) assms(6)])
  then have e: "e \<in> E" using assms(7) by (auto simp: queue_in_def)
  obtain expired t' d' where to: "xTaskCheckForTimeOut t d (kern s1) = (expired, t', d')" by (metis prod_cases3)
  have stay: "\<exists>s' a'. (do { s \<leftarrow> prvUnlockQueue q s1; (yielded, s) \<leftarrow> resume_all s; Some (x, i, t', d', s) }) = Some (x, i, t', d', s')
      \<and> os_core Q E T idle s' a' \<and> uxSchedulerSuspended (kern s') = 0 \<and> preemptive (kern s') a'
      \<and> (swi (kern s') \<or> is_ready a' (pxCurrentTCB (kern s'))) \<and> stays Q s s' (fold spec_intr is1)
      \<and> pxCurrentTCB (kern s') = pxCurrentTCB (kern s) \<and> is_ready a' (pxCurrentTCB (kern s))" for x
  proof -
    obtain s2 a2 where u: "prvUnlockQueue q s1 = Some s2" "os_core Q E T idle s2 a2" "woke (kern s1) a1 (kern s2) a2"
        "queue s2 = (queue s1)(q := (queue s1 q)\<lparr>cRxLock := queueUNLOCKED, cTxLock := queueUNLOCKED\<rparr>)" "heap s2 = heap s1"
      using unlock_queue_ok [OF i1(1) assms(6) ne1] by blast
    have su2: "uxSchedulerSuspended (kern s2) = 1" "pxCurrentTCB (kern s2) = pxCurrentTCB (kern s1)" using u(3) su1 by (simp_all add: woke_def)
    obtain y k' a' where r: "resume_all s2 = Some (y, s2\<lparr>kern := k'\<rparr>)" "os_core Q E T idle (s2\<lparr>kern := k'\<rparr>) a'" "uxSchedulerSuspended k' = 0"
        "is_ready a2 (pxCurrentTCB (kern s2)) \<longrightarrow> is_ready a' (pxCurrentTCB k')" "preemptive (kern s2) a2 \<longrightarrow> preemptive k' a'"
        "pxCurrentTCB k' = pxCurrentTCB (kern s2)"
      using resume_os [OF u(2) su2(1)] by blast
    have "is_ready a' (pxCurrentTCB k')" using r(4) u(3) rd1 su2(2) unfolding woke_def by simp
    moreover have "preemptive k' a'" using r(5) woke_preemptive [OF pre1 u(3)] by blast
    moreover have "stays Q s (s2\<lparr>kern := k'\<rparr>) (fold spec_intr is1)"
      using stays_kern(1) [OF stays_trans [OF sz1 stays_locks [OF u(4,5)]]] .
    moreover have "pxCurrentTCB k' = pxCurrentTCB (kern s)" using r(6) su2(2) cur1 by simp
    ultimately show ?thesis using u(1) r(1-3) by (intro exI [of _ "s2\<lparr>kern := k'\<rparr>"] exI [of _ a']) simp
  qed
  have code: "wait_section env n q blocked (\<lambda>i s. Some (i, s)) (EventList e) i t d s =
     (if \<not> expired then if blocked s1
        then do {
          s \<leftarrow> on_kernel (vTaskPlaceOnEventList (EventList e) d') s1;
          s \<leftarrow> prvUnlockQueue q (during Q is2 s);
          (yielded, s) \<leftarrow> resume_all s;
          Some (False, i, t', d', if \<not> yielded then s\<lparr>kern := yield (kern s)\<rparr> else s)
        }
        else do { s \<leftarrow> prvUnlockQueue q s1; (yielded, s) \<leftarrow> resume_all s; Some (False, i, t', d', s) }
      else do { s \<leftarrow> prvUnlockQueue q s1; (yielded, s) \<leftarrow> resume_all s; Some (True, i, t', d', s) })"
    unfolding wait_section_def Let_def env s0_def [symmetric] s1_def [symmetric] to prod.case by simp
  consider "expired" | "\<not> expired" "\<not> blocked s1" | "\<not> expired" "blocked s1" by blast
  then show ?thesis
  proof cases
    case 1
    then show ?thesis using stay [of True] unfolding code by (simp only: simp_thms if_True if_False) fastforce
  next
    case 2
    then show ?thesis using stay [of False] unfolding code by (simp only: simp_thms if_True if_False) fastforce
  next
    case 3
    have d: "0 < d'" using timeout_positive to 3(1) by simp
    have ok1: "kernel_ok E T idle (kern s1) a1" using os_coreD(1) [OF i1(1)] rd1 by (simp add: kernel_ok_core)
    have idl: "pxCurrentTCB (kern s1) \<noteq> idle" using assms(5) cur1 by simp
    obtain k2 a2 where p: "vTaskPlaceOnEventList (EventList e) d' (kern s1) = Some k2" "kernel_core E T idle k2 a2"
      "if d' = portMAX_DELAY
       then holder a2 = (holder a1)(EventItem (pxCurrentTCB (kern s1)) := Some (EventList e), StateItem (pxCurrentTCB (kern s1)) := Some SuspendedTaskList) \<and> itemval a2 = itemval a1
       else (\<exists>m \<in> sleeping. holder a2 = (holder a1)(EventItem (pxCurrentTCB (kern s1)) := Some (EventList e), StateItem (pxCurrentTCB (kern s1)) := Some m))
          \<and> itemval a2 = (itemval a1)(StateItem (pxCurrentTCB (kern s1)) := xTickCount (kern s1) + d')"
      "uxSchedulerSuspended k2 = uxSchedulerSuspended (kern s1)" "uxCurrentNumberOfTasks k2 = uxCurrentNumberOfTasks (kern s1)"
      "pxCurrentTCB k2 = pxCurrentTCB (kern s1)"
      "\<forall>f. elems a2 (EventList f) = elems (a_insert (EventList e) (EventItem (pxCurrentTCB (kern s1))) a1) (EventList f)"
      using place_event_waits [OF ok1 ne1 idl e d] by blast
    define s2 where "s2 = s1\<lparr>kern := k2\<rparr>"
    have st2: "holder a2 (StateItem u) \<noteq> None" if "u \<in> T" for u
      using os_coreD(2) [OF i1(1) that] p(3) by (auto split: if_splits)
    have c2: "os_core Q E T idle s2 a2"
      using os_coreD(3,4) [OF i1(1)] p(2,5) st2 by (simp add: os_core_def s2_def)
    have su2: "uxSchedulerSuspended (kern s2) = 1" "uxSchedulerSuspended (kern s2) \<noteq> 0" using p(4) su1 by (simp_all add: s2_def)
    from during_ok [OF c2 su2(2), of is2]
    obtain a3 where i3: "os_core Q E T idle (during Q is2 s2) a3" "woke (kern s2) a2 (kern (during Q is2 s2)) a3" "stays Q s2 (during Q is2 s2) (fold spec_intr is2)"
      "\<forall>r. separate Q r \<longrightarrow> holds_on r s2 a2 (during Q is2 s2) a3" by blast
    define s3 where "s3 = during Q is2 s2"
    note i3 = i3 [folded s3_def]
    have su3: "uxSchedulerSuspended (kern s3) \<noteq> 0" "uxSchedulerSuspended (kern s3) = 1" using i3(2) su2 by (simp_all add: woke_def)
    obtain s4 a4 where u: "prvUnlockQueue q s3 = Some s4" "os_core Q E T idle s4 a4" "woke (kern s3) a3 (kern s4) a4"
        "queue s4 = (queue s3)(q := (queue s3 q)\<lparr>cRxLock := queueUNLOCKED, cTxLock := queueUNLOCKED\<rparr>)" "heap s4 = heap s3"
        "holder a4 = (\<lambda>i. if i \<in> set (take (nat (sint (cTxLock (queue s3 q)))) (elems a3 (EventList (q + 36))))
           \<union> set (take (nat (sint (cRxLock (queue s3 q)))) (elems a3 (EventList (q + 16)))) then Some PendingReadyList else holder a3 i)"
      using unlock_queue_ok [OF i3(1) assms(6) su3(1)] by blast
    have su4: "uxSchedulerSuspended (kern s4) = 1" using u(3) su3(2) by (simp add: woke_def)
    obtain y k' a' where r: "resume_all s4 = Some (y, s4\<lparr>kern := k'\<rparr>)" "os_core Q E T idle (s4\<lparr>kern := k'\<rparr>) a'" "uxSchedulerSuspended k' = 0" "y \<longrightarrow> swi k'"
        "pxCurrentTCB k' = pxCurrentTCB (kern s4)" "holder a' = woken (resumed (kern s4) a4) (kern s4) (holder a4)"
      using resume_os [OF u(2) su4] by blast
    define k5 where "k5 = (if \<not> y then yield k' else k')"
    have f5: "swi k5" "uxSchedulerSuspended k5 = 0" using r(3,4) by (simp_all add: k5_def yield_def)
    have cur5: "pxCurrentTCB k5 = pxCurrentTCB (kern s)"
      using r(5) u(3) i3(2) p(6) cur1 by (simp add: k5_def yield_def woke_def s2_def)
    have wakes: "is_ready a' (pxCurrentTCB (kern s))"
      if h: "separate Q q" "blocked = prvIsQueueEmpty q" "e = q + 36" "elems a (EventList e) = []" "contents q (s4\<lparr>kern := k5\<rparr>) \<noteq> []"
    proof -
      let ?t = "EventItem (pxCurrentTCB (kern s1))"
      have lk1: "cTxLock (queue s1 q) \<noteq> queueUNLOCKED" "elems a1 (EventList (q + 36)) = []"
        using i1(4) lk(5) h(1,3,4) unfolding holds_on_def s0_def by auto
      have "count_of (queue s1 q) = 0" using 3(2) h(2) by (simp add: prvIsQueueEmpty_def count_of_def)
      moreover have "elems a2 (EventList (q + 36)) = [?t]" using p(7) lk1(2) h(3) by (simp add: a_insert_def)
      ultimately have lk3: "cTxLock (queue s3 q) \<noteq> queueUNLOCKED" "elems a3 (EventList (q + 36)) = [?t]"
          "count_of (queue s3 q) = 0 \<or> 0 < cTxLock (queue s3 q)"
        using i3(4) lk1(1) h(1) unfolding holds_on_def s2_def by auto
      have "contents q s4 \<noteq> []" using h(5) contents_frame [of "s4\<lparr>kern := k5\<rparr>" q s4] by simp
      then have "count_of (queue s4 q) \<noteq> 0" using contents_length [of q s4] by (metis length_0_conv)
      then have pos: "0 < cTxLock (queue s3 q)" using lk3(3) u(4) by (simp add: count_of_def)
      have "lock_ok (cTxLock (queue s3 q))" using os_coreD(3) [OF i3(1) assms(6)] by (simp add: queue_in_def)
      from unlocked_count [OF this] lk3(1) pos have "0 < nat (sint (cTxLock (queue s3 q)))" by (simp add: unat_gt_0 word_gt_0)
      then have "holder a4 ?t = Some PendingReadyList" unfolding u(6) lk3(2) by (cases "nat (sint (cTxLock (queue s3 q)))") simp_all
      then have "resumed (kern s4) a4 (pxCurrentTCB (kern s1))" by (simp add: resumed_def pending_def)
      then show ?thesis using ready_woken [OF r(6)] cur1 by simp
    qed
    have "os_core Q E T idle (s4\<lparr>kern := k5\<rparr>) a'" using r(2) by (simp add: os_core_def k5_def yield_def)
    moreover have "stays Q s (s4\<lparr>kern := k5\<rparr>) (fold spec_intr (is1 @ is2))"
    proof -
      have "stays Q s1 s3 (fold spec_intr is2)" using i3(3) unfolding s2_def stays_kern(2) .
      from stays_trans [OF stays_trans [OF sz1 this] stays_locks [OF u(4,5)]]
      have "stays Q s s4 (fold spec_intr (is1 @ is2))" by (simp add: comp_def)
      then show ?thesis by (rule stays_kern(1))
    qed
    moreover have "wait_section env n q blocked (\<lambda>i s. Some (i, s)) (EventList e) i t d s = Some (False, i, t', d', s4\<lparr>kern := k5\<rparr>)"
      unfolding code using 3 p(1) u(1) r(1)
      by (simp add: on_kernel_def s2_def [symmetric] s3_def [symmetric] k5_def)
    moreover have "separate Q q \<and> blocked = prvIsQueueEmpty q \<and> e = q + 36 \<and> elems a (EventList e) = [] \<and> contents q (s4\<lparr>kern := k5\<rparr>) \<noteq> []
        \<longrightarrow> is_ready a' (pxCurrentTCB (kern s))" using wakes by blast
    ultimately show ?thesis using f5 cur5
      by (intro exI [of _ False] exI [of _ t'] exI [of _ d'] exI [of _ "s4\<lparr>kern := k5\<rparr>"] exI [of _ a']) (simp add: preemptive_def)
  qed
qed

end
