(* ===== verification/QueueCreate.thy ===== *)
theory QueueCreate
  imports QueueIrq Heap4Clients
begin

text \<open>
  Queues and the allocator together: each queue owns a block of heap_4, so no two queues share storage or
  event lists, and creating a queue keeps the system in order or fails without a trace.
\<close>

section \<open>The heap that holds the queues\<close>

text \<open>Data memory of the PIC32MZ lies in the upper half of the address space.\<close>

definition placed_high :: "heap \<Rightarrow> block list \<Rightarrow> bool" where
  "placed_high h bs \<longleftrightarrow> (if pxEnd h = 0 then heap_placed h \<and> 2 ^ 31 \<le> unat (ucHeap h) \<and> bs = []
     else \<exists>base \<ge> 2 ^ 31. heap_inv base h bs)"

lemma placed_high_ok: "placed_high h bs \<Longrightarrow> heap_ok h bs"
  by (auto simp: placed_high_def heap_ok_def split: if_splits)

lemma bytes_irrelevant: "chain (h\<lparr>bytes := b\<rparr>) p fs e \<longleftrightarrow> chain h p fs e"
  by (rule chain_cong) simp_all

lemma placed_high_bytes:
  assumes "only_bytes h h'"
  shows "placed_high h' bs \<longleftrightarrow> placed_high h bs"
proof -
  have h': "h' = h\<lparr>bytes := bytes h'\<rparr>" using assms by (simp add: only_bytes_def)
  have "placed_high (h\<lparr>bytes := b\<rparr>) bs \<longleftrightarrow> placed_high h bs" for b
    by (simp add: placed_high_def heap_inv_def geometry_def headers_def heap_placed_def bytes_irrelevant)
  then show ?thesis using h' by metis
qed

lemma payload_room:
  assumes "placed_high h bs" and "(a, n) \<in> payloads bs"
  shows "2 ^ 31 \<le> a" "a + n < 2 ^ 32" "n < 2 ^ 31"
proof -
  have "pxEnd h \<noteq> 0" using assms by (auto simp: placed_high_def payloads_def split: if_splits)
  then obtain base where b: "2 ^ 31 \<le> base" "heap_inv base h bs" using assms(1) by (auto simp: placed_high_def)
  then have g: "geometry base h bs" by (simp add: heap_inv_def)
  obtain c k where ck: "(c, k) \<in> live_of bs" "a = c + 8" "n = k - 8" using assms(2) by (auto simp: payloads_def)
  have m: "(c, k, False) \<in> set bs" by (rule live_ofD [OF ck(1)])
  note d = geometry_block [OF g m] and e = block_payload(1) [OF g m]
  have "unat (pxEnd h) < 2 ^ 32" by (rule unat_lt_u32)
  then show "2 ^ 31 \<le> a" "a + n < 2 ^ 32" "n < 2 ^ 31" using ck b(1) d(1,2,8) e by simp_all
qed

lemma placed_high_alloc:
  assumes "placed_high h bs"
  shows "\<exists>p h' bs'. pvPortMalloc w h = Some (p, h') \<and> placed_high h' bs' \<and> bytes h' = bytes h
      \<and> (if p = 0 then payloads bs' = payloads bs
         else \<exists>s \<ge> unat w. (\<forall>t. (unat p, t) \<notin> payloads bs) \<and> payloads bs' = insert (unat p, s) (payloads bs))"
proof -
  have "\<exists>h0 b0 base. pvPortMalloc w h = pvPortMalloc w h0 \<and> bytes h0 = bytes h \<and> 2 ^ 31 \<le> base \<and> heap_inv base h0 b0 \<and> payloads b0 = payloads bs"
  proof (cases "pxEnd h = 0")
    case True
    then have pl: "heap_placed h" "bs = []" "2 ^ 31 \<le> unat (ucHeap h)" using assms by (auto simp: placed_high_def)
    note i = prvHeapInit_establishes [OF pl(1)]
    have "unat (ucHeap h) \<le> heap_base (ucHeap h)" unfolding heap_base_def by presburger
    then show ?thesis using i(1,3) pl pvPortMalloc_first_call [OF True i(2)]
      by (intro exI [of _ "prvHeapInit h"] exI [of _ "[(heap_base (ucHeap h), heap_end (ucHeap h) - heap_base (ucHeap h), True)]"] exI [of _ "heap_base (ucHeap h)"])
         (simp add: payloads_def)
  next
    case False
    then show ?thesis using assms by (auto simp: placed_high_def)
  qed
  then obtain h0 b0 base where h0: "pvPortMalloc w h = pvPortMalloc w h0" "bytes h0 = bytes h" "2 ^ 31 \<le> base" "heap_inv base h0 b0" "payloads b0 = payloads bs"
    by blast
  obtain p h' bs' where r: "pvPortMalloc w h0 = Some (p, h')" "heap_inv base h' bs'" "bytes h' = bytes h0"
      "if p = 0 then payloads bs' = payloads b0
         else \<exists>s \<ge> unat w. (\<forall>t. (unat p, t) \<notin> payloads b0) \<and> payloads bs' = insert (unat p, s) (payloads b0)"
    using heap_inv_alloc [OF h0(4), of w] by blast
  have "pxEnd h' \<noteq> 0" using geometry_end(1) [of base h' bs'] r(2) by (simp add: heap_inv_def)
  then have "placed_high h' bs'" using r(2) h0(3) by (auto simp: placed_high_def)
  then show ?thesis using r(1,3,4) h0(1,2,5) by auto
qed

text \<open>
  Every queue of \<open>Q\<close> owns a block that holds its header and its storage, every event group of \<open>G\<close> one
  that holds its structure.
\<close>

definition stored :: "u32 set \<Rightarrow> u32 set \<Rightarrow> os \<Rightarrow> block list \<Rightarrow> bool" where
  "stored Q G s bs \<longleftrightarrow> placed_high (heap s) bs \<and> (\<forall>q \<in> Q. \<exists>n. (unat q, n) \<in> payloads bs
     \<and> 72 + length_of (queue s q) * size_of (queue s q) \<le> n
     \<and> pcHead (queue s q) = (if size_of (queue s q) = 0 then q else q + 72))
     \<and> (\<forall>g \<in> G. \<exists>n. (unat g, n) \<in> payloads bs \<and> 24 \<le> n) \<and> Q \<inter> G = {}"

lemma stored_sizes: "stored Q G s bs \<Longrightarrow> same_sizes s s' \<Longrightarrow> stored Q G s' bs"
  using placed_high_bytes [of "heap s" "heap s'"] by (simp add: stored_def same_sizes_def)

lemma stored_head:
  assumes "stored Q G s bs" and "q \<in> Q"
  shows "\<exists>n. (unat q, n) \<in> payloads bs \<and> unat q \<le> unat (pcHead (queue s q))
    \<and> unat (pcHead (queue s q)) + length_of (queue s q) * size_of (queue s q) \<le> unat q + n"
proof -
  obtain n where n: "(unat q, n) \<in> payloads bs" "72 + length_of (queue s q) * size_of (queue s q) \<le> n"
     "pcHead (queue s q) = (if size_of (queue s q) = 0 then q else q + 72)" using assms unfolding stored_def by blast
  have "placed_high (heap s) bs" using assms(1) by (simp add: stored_def)
  note room = payload_room [OF this n(1)]
  have "unat (q + 72) = unat q + 72" using room n(2) by (subst unat_add_u32) simp_all
  then show ?thesis using n by (intro exI [of _ n]) auto
qed

lemma stored_block: "stored Q G s bs \<Longrightarrow> q \<in> Q \<Longrightarrow> \<exists>n. (unat q, n) \<in> payloads bs \<and> 72 \<le> n"
  unfolding stored_def by (meson add_leD1)

lemma stored_apart: "stored Q G s bs \<Longrightarrow> apart Q s"
  unfolding apart_def
proof (intro ballI impI)
  fix q r assume a: "stored Q G s bs" "q \<in> Q" "r \<in> Q" "q \<noteq> r"
  obtain n where n: "(unat q, n) \<in> payloads bs" "unat q \<le> unat (pcHead (queue s q))"
    "unat (pcHead (queue s q)) + length_of (queue s q) * size_of (queue s q) \<le> unat q + n" using stored_head [OF a(1,2)] by blast
  obtain m where m: "(unat r, m) \<in> payloads bs" "unat r \<le> unat (pcHead (queue s r))"
    "unat (pcHead (queue s r)) + length_of (queue s r) * size_of (queue s r) \<le> unat r + m" using stored_head [OF a(1,3)] by blast
  have "heap_ok (heap s) bs" using a(1) placed_high_ok by (simp add: stored_def)
  from heap4.apart_law [OF this n(1) m(1)] a(4) have "unat q + n \<le> unat r \<or> unat r + m \<le> unat q" by (simp add: word_unat_eq_iff)
  then show "unat (pcHead (queue s q)) + length_of (queue s q) * size_of (queue s q) \<le> unat (pcHead (queue s r))
     \<or> unat (pcHead (queue s r)) + length_of (queue s r) * size_of (queue s r) \<le> unat (pcHead (queue s q))"
    using n(2,3) m(2,3) by linarith
qed

section \<open>Creating a queue\<close>

text \<open>The addresses of the event lists inside the queues and event groups.\<close>

definition lists_of :: "u32 set \<Rightarrow> u32 set \<Rightarrow> u32 set" where
  "lists_of Q G = (\<lambda>q. q + 16) ` Q \<union> (\<lambda>q. q + 36) ` Q \<union> (\<lambda>g. g + 4) ` G"

text \<open>Each of them lies inside the block of its owner, so a new block holds none of them.\<close>

lemma list_inside:
  assumes "stored Q G s bs" and "e \<in> lists_of Q G"
  shows "\<exists>r t. (r, t) \<in> payloads bs \<and> r < unat e \<and> unat e < r + t"
proof -
  have pl: "placed_high (heap s) bs" using assms(1) by (simp add: stored_def)
  obtain r d t where r: "e = r + d" "(unat r, t) \<in> payloads bs" "0 < unat d" "unat d < t"
  proof -
    from assms(2) consider q where "q \<in> Q" "e = q + 16 \<or> e = q + 36" | g where "g \<in> G" "e = g + 4" by (auto simp: lists_of_def)
    then show ?thesis
    proof cases
      case 1
      obtain t where "(unat q, t) \<in> payloads bs" "72 \<le> t" using stored_block [OF assms(1) 1(1)] by blast
      then show ?thesis using that [of q 16 t] that [of q 36 t] 1(2) by auto
    next
      case 2
      then obtain t where "(unat g, t) \<in> payloads bs" "24 \<le> t" using assms(1) unfolding stored_def by blast
      then show ?thesis using that [of g 4 t] 2(2) by auto
    qed
  qed
  have "unat e = unat r + unat d" unfolding r(1) using payload_room(2) [OF pl r(2)] r(4) by (intro unat_add_u32) simp
  then show ?thesis using r(2-4) by (intro exI [of _ "unat r"] exI [of _ t]) simp
qed

lemma list_fresh:
  assumes "stored Q G s bs" and "placed_high h bs'" and "payloads bs' = insert (unat q, k) (payloads bs)"
    and "\<forall>t. (unat q, t) \<notin> payloads bs" and "0 < unat c" and "unat c < k"
  shows "q + c \<notin> lists_of Q G"
proof
  assume "q + c \<in> lists_of Q G"
  then obtain r t where r: "(r, t) \<in> payloads bs" "r < unat (q + c)" "unat (q + c) < r + t" using list_inside [OF assms(1)] by blast
  have m: "(unat q, k) \<in> payloads bs'" "(r, t) \<in> payloads bs'" using assms(3) r(1) by simp_all
  have "unat (q + c) = unat q + unat c" using payload_room(2) [OF assms(2) m(1)] assms(6) by (intro unat_add_u32) simp
  moreover have "unat q \<noteq> r" using assms(4) r(1) by metis
  from heap4.apart_law [OF placed_high_ok [OF assms(2)] m this] have "unat q + k \<le> r \<or> r + t \<le> unat q" by simp
  ultimately show False using r(2,3) assms(5,6) by linarith
qed

lemma lists_of_insert: "lists_of (insert q Q) G = insert (q + 36) (insert (q + 16) (lists_of Q G))"
  by (auto simp: lists_of_def)

lemma core_init:
  assumes "kernel_core E T idle k a" and "e \<notin> E"
  shows "kernel_core (insert e E) T idle (k\<lparr>lists := vListInitialise (EventList e) (lists k)\<rparr>) (a_init (EventList e) a)"
proof -
  note core = kernel_coreD [OF assms(1)]
  note base = kernel_baseD [OF core(2)]
  have "holder a i \<noteq> Some (EventList e)" for i using base(3) assms(2) unfolding homes_ok_def by fastforce
  from vListInitialise_sim [OF base(1) this] have rep: "rep (kernel_lists (insert e E)) (vListInitialise (EventList e) (lists k)) (a_init (EventList e) a)"
    by (simp add: kernel_lists_def)
  define k' where "k' = k\<lparr>lists := vListInitialise (EventList e) (lists k)\<rparr>"
  have hm: "home k' i l \<longleftrightarrow> home k i l" for i l by (cases i; cases l) (simp_all add: k'_def)
  have l: "kernel_lists E \<subseteq> kernel_lists (insert e E)" by (auto simp: kernel_lists_def)
  have el: "elems (a_init (EventList e) a) m = elems a m" if "m \<noteq> EventList e" for m using that by (simp add: a_init_def)
  have "tasks_ok T k'" using base(2) by (simp add: tasks_ok_def k'_def init_owner)
  moreover have "homes_ok (insert e E) T k' (a_init (EventList e) a)" using base(3) l unfolding homes_ok_def hm init_fields by blast
  moreover have "bits_ok k' (a_init (EventList e) a)" using base(4) by (simp add: bits_ok_def init_fields k'_def)
  moreover have "delayed_ok k' (a_init (EventList e) a)" using base(5) by (simp add: delayed_ok_def init_fields k'_def el)
  ultimately have "kernel_base (insert e E) T k' (a_init (EventList e) a)" using rep by (simp add: kernel_base_def k'_def)
  moreover have "times_ok k' (a_init (EventList e) a)" using core(3) by (simp add: times_ok_def init_fields k'_def)
  ultimately show ?thesis using assms(1) unfolding k'_def [symmetric] kernel_core_def kernel_inv_def settled_def waits_ok_def pending_def is_ready_def init_fields
    by (simp add: k'_def)
qed

text \<open>The arguments a queue can be created with.\<close>

definition creatable_queue :: "u32 \<Rightarrow> u32 \<Rightarrow> bool" where
  "creatable_queue n z \<longleftrightarrow> n > 0 \<and> SIZE_MAX div n \<ge> z \<and> SIZE_MAX - sizeof_Queue_t \<ge> n * z"

lemma no_overflow: "creatable_queue n z \<Longrightarrow> unat (n * z) = unat n * unat z \<and> unat (sizeof_Queue_t + n * z) = 72 + unat n * unat z"
proof -
  assume c: "creatable_queue n z"
  then have "unat z \<le> unat SIZE_MAX div unat n" by (simp add: creatable_queue_def word_le_nat_alt unat_div)
  then have "unat n * unat z \<le> unat n * (unat SIZE_MAX div unat n)" by (rule mult_le_mono2)
  also have "\<dots> \<le> unat SIZE_MAX" by (rule times_div_less_eq_dividend)
  also have "\<dots> < 2 ^ 32" by (rule unat_lt_u32)
  finally have p: "unat (n * z) = unat n * unat z" using unat_mult_lem [of n z] by simp
  have "unat (n * z) \<le> unat (SIZE_MAX - sizeof_Queue_t)" using c by (simp add: creatable_queue_def word_le_nat_alt)
  then have "72 + unat (n * z) < 2 ^ 32" by (simp add: SIZE_MAX_def sizeof_Queue_t_def)
  then have "unat (sizeof_Queue_t + n * z) = 72 + unat (n * z)" by (subst unat_add_u32) (simp_all add: sizeof_Queue_t_def)
  then show ?thesis using p by simp
qed

definition new_queue :: "u32 \<Rightarrow> u32 \<Rightarrow> u32 \<Rightarrow> xQUEUE" where
  "new_queue q n z = (let h = (if z = 0 then q else q + 72) in
     \<lparr>pcHead = h, pcWriteTo = h, u0 = h + n * z, u1 = h + (n - 1) * z, uxMessagesWaiting = 0, uxLength = n, uxItemSize = z,
      cRxLock = queueUNLOCKED, cTxLock = queueUNLOCKED\<rparr>)"

lemma create_code:
  assumes "creatable_queue n z" and "pvPortMalloc (sizeof_Queue_t + n * z) (heap s) = Some (q, h)"
  shows "xQueueGenericCreate n z s = Some (q, if q = 0 then s\<lparr>heap := h\<rparr>
     else \<lparr>kern = (kern s)\<lparr>lists := vListInitialise (EventList (q + 36)) (vListInitialise (EventList (q + 16)) (lists (kern s)))\<rparr>,
           queue = (queue s)(q := new_queue q n z), heap = h, group = group s\<rparr>)"
proof (cases "q = 0")
  case True
  then show ?thesis using assms by (simp add: xQueueGenericCreate_def creatable_queue_def)
next
  case False
  have n: "1 \<le> n" using assms(1) by (simp add: creatable_queue_def word_le_nat_alt word_less_nat_alt)
  define s0 where "s0 = s\<lparr>heap := h\<rparr>"
  have "prvInitialiseNewQueue n z (q + sizeof_Queue_t) q s0 = Some (s0\<lparr>kern := (kern s)\<lparr>lists := vListInitialise (EventList (q + 36)) (vListInitialise (EventList (q + 16)) (lists (kern s)))\<rparr>,
       queue := (queue s)(q := new_queue q n z)\<rparr>)"
    using n assms(1) False
    by (cases "z = 0"; cases "queue s q"; cases s) (simp_all add: creatable_queue_def prvInitialiseNewQueue_def xQueueGenericReset_def Let_def upd_queue_def new_queue_def
        xTasksWaitingToSend_def xTasksWaitingToReceive_def sizeof_Queue_t_def s0_def)
  then show ?thesis using assms False unfolding s0_def
    by (simp add: xQueueGenericCreate_def creatable_queue_def)
qed

lemma new_queue_ok:
  assumes "creatable_queue n z" and "2 ^ 31 \<le> unat q" and "unat q + m < 2 ^ 32" and "72 + unat n * unat z \<le> m"
  shows "queue_ok (new_queue q n z)" "length_of (new_queue q n z) = unat n" "size_of (new_queue q n z) = unat z" "count_of (new_queue q n z) = 0"
    "pcHead (new_queue q n z) = (if z = 0 then q else q + 72)" "pcHead (new_queue q n z) \<noteq> 0" "lock_ok (cRxLock (new_queue q n z))" "lock_ok (cTxLock (new_queue q n z))"
proof -
  have n: "0 < unat n" using assms(1) by (simp add: creatable_queue_def word_less_nat_alt)
  have h: "unat (q + 72) = unat q + 72" using assms(3,4) by (subst unat_add_u32) simp_all
  show f: "length_of (new_queue q n z) = unat n" "size_of (new_queue q n z) = unat z" "count_of (new_queue q n z) = 0"
    "pcHead (new_queue q n z) = (if z = 0 then q else q + 72)" "lock_ok (cRxLock (new_queue q n z))" "lock_ok (cTxLock (new_queue q n z))"
    by (simp_all add: new_queue_def Let_def length_of_def size_of_def count_of_def lock_ok_def)
  show ne: "pcHead (new_queue q n z) \<noteq> 0" using h assms(2) unfolding f(4) word_unat_eq_iff by auto
  show "queue_ok (new_queue q n z)"
  proof (cases "z = 0")
    case True
    then show ?thesis using n f by (simp add: queue_ok_def)
  next
    case False
    then have z: "0 < unat z" by (simp add: unat_gt_0)
    define hd where "hd = q + 72"
    have b: "unat hd + unat n * unat z < 2 ^ 32" using h assms(3,4) by (simp add: hd_def)
    have "unat z \<le> unat n * unat z" using mult_le_mono1 [of 1 "unat n" "unat z"] n by simp
    then have "unat z \<le> m" using assms(4) by linarith
    moreover have "m \<le> unat q" using assms(2,3) by simp
    ultimately have zl: "unat z \<le> unat hd" using h unfolding hd_def by linarith
    have u1: "u1 (new_queue q n z) = cell hd (unat z) (unat n - 1)"
    proof -
      have "(of_nat (unat n - 1) :: u32) = n - 1" using n by simp
      then have "of_nat ((unat n - 1) * unat z) = (n - 1) * z" unfolding of_nat_mult by simp
      then show ?thesis using False by (simp add: new_queue_def Let_def cell_def hd_def)
    qed
    have rc: "read_cell (new_queue q n z) = unat n - 1"
      using cell_index [OF b _ z, of "unat n - 1"] n u1 f(2,4) False unfolding read_cell_def by (simp add: hd_def)
    have "pcTail (new_queue q n z) = cell hd (unat z) (unat n)" "pcWriteTo (new_queue q n z) = cell hd (unat z) 0"
      using False by (simp_all add: new_queue_def Let_def cell_def hd_def)
    moreover have "Suc (unat n - 1) mod unat n = 0" using n by simp
    ultimately show ?thesis using n f(1-4) False b zl u1 rc ne by (simp add: queue_ok_def hd_def)
  qed
qed

lemma contents_new: "count_of (queue s q) = 0 \<Longrightarrow> contents q s = []"
  using contents_length [of q s] by simp

lemma queue_in_more: "queue_in E q x \<Longrightarrow> E \<subseteq> E' \<Longrightarrow> queue_in E' q x"
  by (auto simp: queue_in_def)

text \<open>
  Creation either finds no room, and nothing changes but the bookkeeping of the heap, or adds an empty
  queue at a fresh handle and leaves all others as they are.
\<close>

lemma create_ok:
  assumes "os_core Q (lists_of Q G) T idle s a" and "stored Q G s bs" and "creatable_queue n z"
  shows "\<exists>q s' a' bs'. xQueueGenericCreate n z s = Some (q, s')
    \<and> (if q = 0 then kern s' = kern s \<and> queue s' = queue s \<and> os_core Q (lists_of Q G) T idle s' a \<and> stored Q G s' bs' \<and> view Q s' = view Q s
       else q \<notin> Q \<and> os_core (insert q Q) (lists_of (insert q Q) G) T idle s' a' \<and> stored (insert q Q) G s' bs'
         \<and> view (insert q Q) s' = (view Q s)(q \<mapsto> \<lparr>cap = unat n, width = unat z, held = []\<rparr>)
         \<and> (\<exists>l. kern s' = (kern s)\<lparr>lists := l\<rparr>) \<and> holder a' = holder a \<and> queue s' q = new_queue q n z)"
proof -
  note os = os_coreD [OF assms(1)]
  note ov = no_overflow [OF assms(3)]
  have pl: "placed_high (heap s) bs" using assms(2) by (simp add: stored_def)
  obtain q h bs' where m: "pvPortMalloc (sizeof_Queue_t + n * z) (heap s) = Some (q, h)" "placed_high h bs'" "bytes h = bytes (heap s)"
      "if q = 0 then payloads bs' = payloads bs
         else \<exists>k \<ge> unat (sizeof_Queue_t + n * z). (\<forall>t. (unat q, t) \<notin> payloads bs) \<and> payloads bs' = insert (unat q, k) (payloads bs)"
    using placed_high_alloc [OF pl] by blast
  note code = create_code [OF assms(3) m(1)]
  show ?thesis
  proof (cases "q = 0")
    case True
    define s' where "s' = s\<lparr>heap := h\<rparr>"
    have "view Q s' = view Q s" using m(3) by (auto simp: view_def fifo_of_def contents_def slots_def Let_def s'_def)
    moreover have "stored Q G s' bs'" using assms(2) m(2,4) True by (simp add: stored_def s'_def)
    moreover have "os_core Q (lists_of Q G) T idle s' a" using assms(1) by (simp add: os_core_def s'_def)
    ultimately show ?thesis using code True
      by (intro exI [of _ q] exI [of _ s'] exI [of _ a] exI [of _ bs']) (simp add: s'_def)
  next
    case False
    then obtain k where k: "72 + unat n * unat z \<le> k" "\<forall>t. (unat q, t) \<notin> payloads bs" "payloads bs' = insert (unat q, k) (payloads bs)"
      using m(4) ov by auto
    have "(unat q, k) \<in> payloads bs'" using k(3) by simp
    note room = payload_room [OF m(2) this]
    note new = new_queue_ok [OF assms(3) room(1,2) k(1)]
    define s' where "s' = \<lparr>kern = (kern s)\<lparr>lists := vListInitialise (EventList (q + 36)) (vListInitialise (EventList (q + 16)) (lists (kern s)))\<rparr>,
           queue = (queue s)(q := new_queue q n z), heap = h, group = group s\<rparr>"
    define a' where "a' = a_init (EventList (q + 36)) (a_init (EventList (q + 16)) a)"
    have qQ: "q \<notin> Q" "q \<notin> G" using assms(2) k(2) unfolding stored_def by blast+
    have nl: "q + c \<notin> lists_of Q G" if "c = 16 \<or> c = 36" for c
      using list_fresh [OF assms(2) m(2) k(3,2), of c] k(1) that by auto
    have new_lists: "q + 16 \<notin> lists_of Q G" "q + 36 \<notin> insert (q + 16) (lists_of Q G)" using nl by auto
    have core: "kernel_core (lists_of (insert q Q) G) T idle (kern s') a'"
      using core_init [OF core_init [OF os(1) new_lists(1)] new_lists(2)] by (simp add: lists_of_insert s'_def a'_def)
    have qi: "queue_in (lists_of (insert q Q) G) r (queue s' r)" if "r \<in> insert q Q" for r
    proof (cases "r = q")
      case True
      then show ?thesis using new False by (simp add: queue_in_def s'_def lists_of_def)
    next
      case False
      then have "r \<in> Q" using that by simp
      from queue_in_more [OF os(3) [OF this]] False show ?thesis by (simp add: s'_def lists_of_insert subset_insertI2)
    qed
    have os': "os_core (insert q Q) (lists_of (insert q Q) G) T idle s' a'"
      using core os(2,4) qi unfolding os_core_def a'_def init_fields by (simp add: s'_def)
    have st': "stored (insert q Q) G s' bs'"
      unfolding stored_def
    proof (intro conjI ballI)
      show "placed_high (heap s') bs'" using m(2) by (simp add: s'_def)
      fix r assume r: "r \<in> insert q Q"
      show "\<exists>t. (unat r, t) \<in> payloads bs' \<and> 72 + length_of (queue s' r) * size_of (queue s' r) \<le> t
         \<and> pcHead (queue s' r) = (if size_of (queue s' r) = 0 then r else r + 72)"
      proof (cases "r = q")
        case True
        then show ?thesis using k(1,3) new(2,3,5) by (intro exI [of _ k]) (simp add: s'_def unat_eq_0)
      next
        case False
        then have rQ: "r \<in> Q" and x: "queue s' r = queue s r" using r by (simp_all add: s'_def)
        show ?thesis using assms(2) rQ k(3) unfolding stored_def x by blast
      qed
    next
      show "\<exists>t. (unat g, t) \<in> payloads bs' \<and> 24 \<le> t" if "g \<in> G" for g using assms(2) that k(3) unfolding stored_def by blast
      show "insert q Q \<inter> G = {}" using assms(2) qQ(2) by (simp add: stored_def)
    qed
    have "contents q s' = []" by (rule contents_new) (simp add: s'_def new(4))
    then have "fifo_of q s' = \<lparr>cap = unat n, width = unat z, held = []\<rparr>" using new(2,3) by (simp add: fifo_of_def) (simp add: s'_def)
    moreover have "fifo_of r s' = fifo_of r s" if "r \<noteq> q" for r
      using that m(3) by (simp add: fifo_of_def contents_def slots_def Let_def s'_def)
    ultimately have "view (insert q Q) s' = (view Q s)(q \<mapsto> \<lparr>cap = unat n, width = unat z, held = []\<rparr>)"
      by (auto simp: view_def)
    then show ?thesis using code False qQ os' st'
      by (intro exI [of _ q] exI [of _ s'] exI [of _ a'] exI [of _ bs']) (simp add: s'_def a'_def init_fields, blast)
  qed
qed

end
