(* ===== verification/KernelDelay.thy ===== *)
theory KernelDelay
  imports KernelFrames
begin

text \<open>
  Sleepers while the scheduler is suspended: ticks are only counted then, and the last \<open>xTaskResumeAll\<close> makes up for them.
\<close>

section \<open>Steps with the scheduler suspended\<close>

text \<open>Suspending and resuming a task or changing its priority leaves the count of pended ticks alone.\<close>

abbreviation pended :: "u32 \<Rightarrow> kernel \<Rightarrow> bool" where "pended n \<equiv> \<lambda>k. xPendedTicks k = n"

lemma pended_fields:
  "xPendedTicks (yield k) = xPendedTicks k" "xPendedTicks (upd_tcb t f k) = xPendedTicks k" "xPendedTicks (set_event_priority t p k) = xPendedTicks k"
  "xPendedTicks (reset_ready p k) = xPendedTicks k" "xPendedTicks (taskRESET_READY_PRIORITY p k) = xPendedTicks k"
  by (simp_all add: yield_def upd_tcb_def set_event_priority_def set_value_def reset_ready_def taskRESET_READY_PRIORITY_def)

lemma pended_lists:
  "pended n k \<Longrightarrow> has (pended n) (on_lists f k)" "pended n k \<Longrightarrow> gives (pended n) (list_remove i k)"
  by (auto simp: on_lists_def list_remove_def has_def gives_def)

lemmas pended_rules = has_if gives_if pended_lists has_let [where P = "pended n" for n] has_bind_pair [where P = "pended n" for n] has_bind [where P = "pended n" for n]
  has_let_any has_bind_any

lemma pended_add: "pended n k \<Longrightarrow> has (pended n) (prvAddTaskToReadyList t k)"
  unfolding prvAddTaskToReadyList_def by (rule pended_rules | simp)+

lemma pended_reset: "pended n k \<Longrightarrow> has (pended n) (prvResetNextTaskUnblockTime k)"
  unfolding prvResetNextTaskUnblockTime_def by (rule pended_rules | simp)+

lemma pended_switch: "pended n k \<Longrightarrow> has (pended n) (vTaskSwitchContext k)"
  by (auto simp: has_def vTaskSwitchContext_def taskSELECT_HIGHEST_PRIORITY_TASK_def bind_eq_Some_conv Let_def split: if_splits)

lemma api_pended:
  "pended n k \<Longrightarrow> has (pended n) (vTaskSuspend t k)" "pended n k \<Longrightarrow> has (pended n) (vTaskResume t k)" "pended n k \<Longrightarrow> has (pended n) (vTaskPrioritySet t p k)"
  unfolding vTaskSuspend_def vTaskResume_def vTaskPrioritySet_def remove_state_def remove_event_def
  by (rule pended_add pended_reset pended_switch pended_rules | simp add: pended_fields)+

definition held_back :: "op \<Rightarrow> kernel \<Rightarrow> (item_id, list_id) alists \<Rightarrow> kernel \<Rightarrow> (item_id, list_id) alists \<Rightarrow> bool" where
  "held_back x k a k' a' \<longleftrightarrow> (if x = ResumeAll \<and> uxSchedulerSuspended k = 1
     then uxSchedulerSuspended k' = 0 \<and> (\<forall>t. asleep a t \<and> \<not> pending a t \<longrightarrow>
       (if remaining k a t \<le> unat (xPendedTicks k) then is_ready a' t
        else asleep a' t \<and> remaining k' a' t = remaining k a t - unat (xPendedTicks k)))
     else uxSchedulerSuspended k' \<noteq> 0 \<and> xPendedTicks k' = xPendedTicks k + (if x = Tick then 1 else 0)
       \<and> (\<forall>t. asleep a t \<and> \<not> pending a t \<and> x \<noteq> Suspend t \<longrightarrow> asleep a' t \<and> \<not> pending a' t \<and> remaining k' a' t = remaining k a t))"

lemma held_backI:
  assumes "x \<noteq> ResumeAll \<or> uxSchedulerSuspended k \<noteq> 1" and "uxSchedulerSuspended k' \<noteq> 0" and "xPendedTicks k' = xPendedTicks k + (if x = Tick then 1 else 0)"
    and "xTickCount k' = xTickCount k"
    and "\<And>t. asleep a t \<Longrightarrow> x \<noteq> Suspend t \<Longrightarrow> holder a' (StateItem t) = holder a (StateItem t) \<and> holder a' (EventItem t) = holder a (EventItem t)
      \<and> itemval a' (StateItem t) = itemval a (StateItem t)"
  shows "held_back x k a k' a'"
  using assms by (auto simp: held_back_def asleep_def pending_def remaining_def)

lemma suspended_step:
  assumes "sys_ok E T idle k a" and "allowed T idle x k" and "uxSchedulerSuspended k \<noteq> 0" and "exec x k = Some k'"
  shows "\<exists>a'. sys_ok E T idle k' a' \<and> held_back x k a k' a'"
proof -
  note ok = sys_okD [OF assms(1)]
  obtain a0 where a0: "sys_ok E T idle k' a0" using step_ok [OF assms(1,2)] assms(4) by auto
  have same: "held_back x k a k' a0" if "held_back x k a k' a'" "kernel_ok E T idle k' a'" for a'
  proof -
    note r = kernel_baseD(1) [OF kernel_okD(2) [OF that(2)]] kernel_baseD(1) [OF kernel_okD(2) [OF sys_okD(1) [OF a0]]]
    have "holder a' i = holder a0 i" "itemval a' i = itemval a0 i" for i using rep_item [OF r(1)] rep_item [OF r(2)] by metis+
    then have "asleep a' t = asleep a0 t" "pending a' t = pending a0 t" "is_ready a' t = is_ready a0 t" "remaining k' a' t = remaining k' a0 t" for t
      by (simp_all add: asleep_def pending_def is_ready_def remaining_def)
    then have "held_back x k a k' a' = held_back x k a k' a0" unfolding held_back_def by (simp only:)
    then show ?thesis using that(1) by simp
  qed
  have "held_back x k a k' a0"
  proof (cases x)
    case Tick
    have "k' = k\<lparr>xPendedTicks := xPendedTicks k + 1\<rparr>" using tick_pended(1) [OF ok(1) assms(3)] assms(4) by (simp add: Tick)
    then show ?thesis using tick_pended(2) [OF ok(1) assms(3)] assms(3) by (intro same [of a] held_backI) (simp_all add: Tick)
  next
    case YieldISR
    then have k': "k' = k\<lparr>swi := False, xYieldPending := True\<rparr>" using assms(3,4) by (simp add: vPortYieldISR_def vTaskSwitchContext_def)
    moreover obtain a' where "kernel_ok E T idle k' a'" "holder a' = holder a" "itemval a' = itemval a"
      using yield_isr_ok [OF ok(1)] assms(4) by (auto simp: YieldISR)
    ultimately show ?thesis using assms(3) by (intro same [of a'] held_backI) (simp_all add: YieldISR)
  next
    case SuspendAll
    have "kernel_ok E T idle (vTaskSuspendAll k) a"
      using suspend_all_ok [OF ok(1) running_ready [OF assms(1)]] assms(2) by (simp add: SuspendAll)
    then show ?thesis using assms(2,4) by (intro same [of a] held_backI) (auto simp: SuspendAll vTaskSuspendAll_def)
  next
    case ResumeAll
    show ?thesis
    proof (cases "uxSchedulerSuspended k = 1")
      case True
      obtain k1 a' where r: "xTaskResumeAll k = Some (resume_yields k a, k1)" "kernel_ok E T idle k1 a'"
          "holder a' = woken (resumed k a) k (holder a)" "uxSchedulerSuspended k1 = 0"
          "\<forall>t. asleep a' t \<longrightarrow> remaining k1 a' t = remaining k a t - unat (xPendedTicks k)"
        using resume_all_ok [OF ok(1) True] by blast
      have k1: "k1 = k'" using r(1) assms(4) by (simp add: ResumeAll)
      have "held_back x k a k' a'"
        using r(4,5) True by (auto simp: held_back_def ResumeAll k1 resumed_def ready_woken [OF r(3)] asleep_woken [OF r(3)])
      then show ?thesis by (rule same) (use r(2) k1 in simp)
    next
      case False
      have "k' = k\<lparr>uxSchedulerSuspended := uxSchedulerSuspended k - 1\<rparr>" using resume_nested_ok(1) [OF ok(1) assms(3) False] assms(4) by (simp add: ResumeAll)
      then show ?thesis using resume_nested_ok(2) [OF ok(1) assms(3) False] False by (intro same [of a] held_backI) (simp_all add: ResumeAll)
    qed
  next
    case (Suspend t)
    then have al: "t \<in> T" "t \<noteq> idle" "t = pxCurrentTCB k \<Longrightarrow> uxSchedulerSuspended k = 0" using assms(2) by simp_all
    obtain l where "holder a (StateItem t) = Some l" using ok(2) [OF al(1)] by blast
    from suspend_ok [OF ok(1) al(1,2) this al(3)] obtain a' where r: "kernel_ok E T idle k' a'"
        "holder a' = (holder a)(StateItem t := Some SuspendedTaskList, EventItem t := None)" "itemval a' = itemval a"
        "xTickCount k' = xTickCount k" "uxSchedulerSuspended k' = uxSchedulerSuspended k"
      using assms(4) by (auto simp: Suspend)
    show ?thesis using r(2-5) api_pended(1) [OF refl, of k] assms(3,4) by (intro same [OF held_backI r(1)]) (auto simp: Suspend has_def)
  next
    case (Resume t)
    then have "t \<in> T" using assms(2) by simp
    from resume_ok [OF ok(1) this] obtain a' where r: "kernel_ok E T idle k' a'" "itemval a' = itemval a"
        "holder a' = (if t \<noteq> pxCurrentTCB k \<and> holder a (StateItem t) = Some SuspendedTaskList \<and> holder a (EventItem t) = None
          then (holder a)(StateItem t := Some (Ready (uxPriority (tcb k t)))) else holder a)"
        "xTickCount k' = xTickCount k" "uxSchedulerSuspended k' = uxSchedulerSuspended k"
      using assms(4) by (auto simp: Resume)
    show ?thesis using r(2-5) api_pended(2) [OF refl, of k] assms(3,4) by (intro same [OF held_backI r(1)]) (auto simp: Resume has_def asleep_def sleeping_def)
  next
    case (PrioritySet t p)
    then have al: "\<not> swi k" "t \<in> T" "p < configMAX_PRIORITIES" using assms(2) by simp_all
    from priority_set_ok [OF ok(1) al(2,3) running_ready [OF assms(1) al(1)]] obtain a' where r: "kernel_ok E T idle k' a'"
        "holder a' = (if is_ready a t then (holder a)(StateItem t := Some (Ready (uxPriority (set_priority p (tcb k t))))) else holder a)"
        "\<forall>u. itemval a' (StateItem u) = itemval a (StateItem u)" "xTickCount k' = xTickCount k" "uxSchedulerSuspended k' = uxSchedulerSuspended k"
      using assms(4) by (auto simp: PrioritySet)
    have "asleep a u \<Longrightarrow> \<not> (is_ready a t \<and> u = t)" for u using ready_not_asleep by blast
    then show ?thesis using r(2-5) api_pended(3) [OF refl, of k] assms(3,4) by (intro same [OF held_backI r(1)]) (auto simp: PrioritySet has_def)
  qed (use assms(2,3) in simp_all)
  then show ?thesis using a0 by blast
qed

end
