(* ===== verification/KernelClaims.thy ===== *)
theory KernelClaims
  imports KernelDelay
begin

text \<open>
  What the scheduler promises, from power on and in every state that interleaved tasks and interrupts
  can reach.
\<close>

section \<open>From power on\<close>

fun create_all :: "(task \<times> u32) list \<Rightarrow> kernel \<Rightarrow> kernel option" where
  "create_all [] k = Some k"
| "create_all ((t, p) # ts) k = do { k \<leftarrow> create_task t p k; create_all ts k }"

text \<open>Distinct tasks, none of them \<open>NULL\<close>, of valid priorities.\<close>

definition creatable :: "(task \<times> u32) list \<Rightarrow> bool" where
  "creatable ts \<longleftrightarrow> ts \<noteq> [] \<and> distinct (map fst ts) \<and> (\<forall>(t, p) \<in> set ts. t \<noteq> 0 \<and> p < configMAX_PRIORITIES) \<and> length ts < 2 ^ 30"

lemma create_all_booting:
  assumes "booting T k a" and "distinct (map fst ts)" and "\<forall>(t, p) \<in> set ts. t \<noteq> 0 \<and> t \<notin> T \<and> p < configMAX_PRIORITIES"
    and "card T + length ts < 2 ^ 30"
  shows "\<exists>k' a'. create_all ts k = Some k' \<and> booting (T \<union> fst ` set ts) k' a'
    \<and> (\<forall>t. uxPriority (tcb k' t) = (case map_of ts t of None \<Rightarrow> uxPriority (tcb k t) | Some p \<Rightarrow> p))"
  using assms
proof (induction ts arbitrary: T k a)
  case Nil
  then show ?case by auto
next
  case (Cons x ts)
  obtain t p where x: "x = (t, p)" by (cases x)
  have t: "t \<noteq> 0" "t \<notin> T" "p < configMAX_PRIORITIES" using Cons.prems(3) x by auto
  have c: "card T + 1 < 2 ^ 30" using Cons.prems(4) by simp
  obtain k1 a1 where 1: "create_task t p k = Some k1" "booting (insert t T) k1 a1" "tcb k1 = (tcb k)(t := fresh_tcb p)"
    using create_next [OF Cons.prems(1) t(2,1,3) c] by blast
  have fin: "finite T" using Cons.prems(1) by (simp add: booting_def kernel_base_def tasks_ok_def)
  have fresh: "\<forall>(u, q) \<in> set ts. u \<noteq> 0 \<and> u \<notin> insert t T \<and> q < configMAX_PRIORITIES"
    using Cons.prems(2,3) x by (force simp: image_iff)
  have len: "card (insert t T) + length ts < 2 ^ 30" using Cons.prems(4) t(2) fin by simp
  have dist: "distinct (map fst ts)" using Cons.prems(2) by simp
  obtain k' a' where r: "create_all ts k1 = Some k'" "booting (insert t T \<union> fst ` set ts) k' a'"
      "\<forall>u. uxPriority (tcb k' u) = (case map_of ts u of None \<Rightarrow> uxPriority (tcb k1 u) | Some p \<Rightarrow> p)"
    using Cons.IH [OF 1(2) dist fresh len] by blast
  have "map_of ts t = None" using Cons.prems(2) x by (simp add: map_of_eq_None_iff)
  then have "uxPriority (tcb k' u) = (case map_of (x # ts) u of None \<Rightarrow> uxPriority (tcb k u) | Some p \<Rightarrow> p)" for u
    using r(3) 1(3) x by (cases "u = t") (auto simp: fresh_tcb_def split: option.splits)
  moreover have "create_all (x # ts) k = Some k'" using x 1(1) r(1) by simp
  moreover have "insert t T \<union> fst ` set ts = T \<union> fst ` set (x # ts)" using x by auto
  ultimately show ?case using r(2) by metis
qed

lemma boot_ok:
  assumes "unused k" and "creatable ts" and "idle \<in> fst ` set ts"
  shows "\<exists>k1 a. create_all ts k = Some k1 \<and> sys_ok {} (fst ` set ts) idle (start_scheduler k1) a
    \<and> (\<forall>(t, p) \<in> set ts. holder a (StateItem t) = Some (Ready p)) \<and> pxCurrentTCB k1 \<in> fst ` set ts \<and> (\<forall>t. holder a (EventItem t) = None)
    \<and> \<not> swi k1 \<and> uxSchedulerSuspended k1 = 0 \<and> (\<forall>(t, p) \<in> set ts. uxPriority (tcb k1 t) = p \<and> p \<le> uxPriority (tcb k1 (pxCurrentTCB k1)))
    \<and> uxCurrentNumberOfTasks k1 = of_nat (length ts)"
proof -
  obtain t p us where ts: "ts = (t, p) # us" using assms(2) by (cases ts) (auto simp: creatable_def)
  have tp: "t \<noteq> 0" "p < configMAX_PRIORITIES" "distinct (map fst us)" "t \<notin> fst ` set us" using assms(2) ts by (auto simp: creatable_def)
  obtain k1 a1 where 1: "create_task t p k = Some k1" "booting {t} k1 a1" "tcb k1 = (tcb k)(t := fresh_tcb p)"
    using create_first [OF assms(1) tp(1,2)] by blast
  have fresh: "\<forall>(u, q) \<in> set us. u \<noteq> 0 \<and> u \<notin> {t} \<and> q < configMAX_PRIORITIES" and len: "card {t} + length us < 2 ^ 30"
    using assms(2) tp(4) ts by (force simp: creatable_def)+
  obtain k2 a where r: "create_all us k1 = Some k2" "booting ({t} \<union> fst ` set us) k2 a"
      "\<forall>u. uxPriority (tcb k2 u) = (case map_of us u of None \<Rightarrow> uxPriority (tcb k1 u) | Some p \<Rightarrow> p)"
    using create_all_booting [OF 1(2) tp(3) fresh len] by blast
  define T where "T = fst ` set ts"
  have T: "{t} \<union> fst ` set us = T" by (auto simp: T_def ts)
  have b: "kernel_base {} T k2 a" "\<forall>t \<in> T. is_ready a t" "\<forall>t. holder a (EventItem t) = None" "\<not> xSchedulerRunning k2" "\<not> swi k2"
    "uxSchedulerSuspended k2 = 0" "xPendedTicks k2 = 0" "uxCurrentNumberOfTasks k2 = of_nat (card T)" "xTickCount k2 = 0"
    "\<forall>t \<in> T. uxPriority (tcb k2 t) \<le> uxPriority (tcb k2 (pxCurrentTCB k2))"
    using r(2) unfolding T booting_def by blast+
  have cur: "pxCurrentTCB k2 \<in> T" by (rule tasks_okD(1) [OF kernel_baseD(2) [OF b(1)]])
  have prio: "uxPriority (tcb k2 u) = q" if "(u, q) \<in> set ts" for u q
  proof -
    have "map_of ts u = Some q" using that assms(2) by (simp add: creatable_def)
    moreover have "map_of us t = None" using tp(4) by (simp add: map_of_eq_None_iff)
    ultimately show ?thesis using r(3) 1(3) ts by (auto simp: fresh_tcb_def split: option.splits if_splits)
  qed
  define k' where "k' = start_scheduler k2"
  have hm: "home k' i l = home k2 i l" for i l by (cases i; cases l; simp add: k'_def start_scheduler_def)
  have base: "kernel_base {} T k' a" using b(1) unfolding kernel_base_def
    by (auto simp: k'_def start_scheduler_def tasks_ok_def bits_ok_def delayed_ok_def homes_ok_def hm [unfolded k'_def start_scheduler_def])
  have nosleep: "holder a i \<noteq> Some l" if "l \<in> sleeping" for i l
  proof
    assume h: "holder a i = Some l"
    then have i: "i = StateItem (task_of i)" by (rule sleeping_state_item [OF b(1) that])
    have "task_of i \<in> T" by (rule base_home(2) [OF b(1) h])
    then show False using b(2) h i sleepingD(2) [OF that] unfolding is_ready_def by (metis option.inject)
  qed
  have "times_ok k' a" unfolding times_ok_def using nosleep delayed_sleeping(1,2) [OF base] by blast
  then have inv: "kernel_inv {} T k' a" using base by (simp add: kernel_inv_def)
  have f: "uxSchedulerSuspended k' = 0" "xPendedTicks k' = 0" "xSchedulerRunning k'" "pxCurrentTCB k' = pxCurrentTCB k2" "tcb k' = tcb k2"
    "uxCurrentNumberOfTasks k' = of_nat (card T)" using b by (simp_all add: k'_def start_scheduler_def)
  have "finite T" "T \<noteq> {}" "card T < 2 ^ 30"
    using kernel_baseD(2) [OF b(1)] by (auto simp: tasks_ok_def)
  then have "0 < card T" "card T < 2 ^ 32" by (simp_all add: card_gt_0_iff)
  then have "uxCurrentNumberOfTasks k' > 0" unfolding f(6) word_gt_0 by (auto simp: of_nat_u32_eq_0_iff)
  then have "settled k' a" using b(3) f by (simp add: settled_def waits_ok_def pending_def)
  moreover have "is_ready a idle" using b(2) assms(3) unfolding T_def by blast
  moreover have "is_ready a (pxCurrentTCB k')" using b(2) cur f(4) by simp
  ultimately have ok: "kernel_ok {} T idle k' a" using inv f(3) by (simp add: kernel_ok_def)
  have "uxPriority (tcb k' u) \<le> uxPriority (tcb k' (pxCurrentTCB k'))" if "is_ready a u" for u
    using b(10) ready_task [OF base that] f(4,5) by simp
  then have "preemptive k' a" by (simp add: preemptive_def)
  moreover have "holder a (StateItem u) \<noteq> None" if "u \<in> T" for u using b(2) that by (auto simp: is_ready_def)
  ultimately have "sys_ok {} T idle k' a" using ok by (simp add: sys_ok_def)
  moreover have "\<forall>(u, q) \<in> set ts. holder a (StateItem u) = Some (Ready q)"
    using ready_holder [OF b(1)] b(2) prio unfolding T_def by fastforce
  moreover have "create_all ts k = Some k2" using ts 1(1) r(1) by simp
  moreover have "\<forall>(u, q) \<in> set ts. uxPriority (tcb k2 u) = q \<and> q \<le> uxPriority (tcb k2 (pxCurrentTCB k2))"
    using prio b(10) unfolding T_def by fastforce
  moreover have "card T = length ts" using assms(2) distinct_card [of "map fst ts"] by (simp add: T_def creatable_def)
  then have "uxCurrentNumberOfTasks k2 = of_nat (length ts)" using b(8) by simp
  ultimately show ?thesis using cur b(3,5,6) unfolding T_def k'_def by blast
qed

text \<open>Zeroed memory, for examples: an idle task and a worker of priority three.\<close>

definition blank :: kernel where
  "blank = \<lparr>lists = \<lparr>item = (\<lambda>_. \<lparr>xItemValue = 0, pxNext = NULL, pxPrevious = NULL, pvOwner = None, pxContainer = None\<rparr>),
       lst = (\<lambda>_. \<lparr>uxNumberOfItems = 0, pxIndex = NULL, xListEnd = \<lparr>xItemValue = 0, pxNext = NULL, pxPrevious = NULL\<rparr>\<rparr>)\<rparr>,
     tcb = (\<lambda>_. \<lparr>uxPriority = 0, uxBasePriority = 0, uxMutexesHeld = 0, ulNotifiedValue = 0, ucNotifyState = 0\<rparr>),
     pxCurrentTCB = 0, pxDelayedTaskList = DelayedTaskList1, pxOverflowDelayedTaskList = DelayedTaskList2,
     uxDeletedTasksWaitingCleanUp = 0, uxCurrentNumberOfTasks = 0, xTickCount = 0, uxTopReadyPriority = 0, xSchedulerRunning = False,
     xPendedTicks = 0, xYieldPending = False, xNumOfOverflows = 0, uxTaskNumber = 0, xNextTaskUnblockTime = 0,
     uxSchedulerSuspended = 0, swi = False, freed = []\<rparr>"

lemma unused_blank: "unused blank"
  by (simp add: unused_def blank_def)

definition two_tasks :: "(task \<times> u32) list" where
  "two_tasks = [(1, 0), (2, 3)]"

lemma creatable_two: "creatable two_tasks" "1 \<in> fst ` set two_tasks" "2 \<in> fst ` set two_tasks" "(1, 0) \<in> set two_tasks" "(2, 3) \<in> set two_tasks"
  by (simp_all add: creatable_def two_tasks_def configMAX_PRIORITIES_def)

lemma two_ok: "\<exists>k1 a. create_all two_tasks blank = Some k1 \<and> sys_ok {} {1, 2} 1 (start_scheduler k1) a
    \<and> holder a (StateItem 1) = Some (Ready 0) \<and> holder a (StateItem 2) = Some (Ready 3) \<and> pxCurrentTCB k1 = 2
    \<and> (\<forall>t. holder a (EventItem t) = None) \<and> \<not> swi k1 \<and> uxSchedulerSuspended k1 = 0 \<and> uxPriority (tcb k1 1) = 0 \<and> uxPriority (tcb k1 2) = 3"
proof -
  have s: "fst ` set two_tasks = {1, 2}" by (simp add: two_tasks_def)
  obtain k1 a where r: "create_all two_tasks blank = Some k1" "sys_ok {} {1, 2} 1 (start_scheduler k1) a"
      "\<forall>(t, p) \<in> set two_tasks. holder a (StateItem t) = Some (Ready p)" "pxCurrentTCB k1 \<in> {1, 2}" "\<forall>t. holder a (EventItem t) = None"
      "\<not> swi k1" "uxSchedulerSuspended k1 = 0"
      "\<forall>(t, p) \<in> set two_tasks. uxPriority (tcb k1 t) = p \<and> p \<le> uxPriority (tcb k1 (pxCurrentTCB k1))"
    using boot_ok [OF unused_blank creatable_two(1,2)] unfolding s by blast
  have p: "uxPriority (tcb k1 1) = 0" "uxPriority (tcb k1 2) = 3" "3 \<le> uxPriority (tcb k1 (pxCurrentTCB k1))"
    using bspec [OF r(8) creatable_two(4)] bspec [OF r(8) creatable_two(5)] by simp_all
  then have "pxCurrentTCB k1 = 2" using r(4) by auto
  moreover have "holder a (StateItem 1) = Some (Ready 0)" "holder a (StateItem 2) = Some (Ready 3)"
    using r(3) creatable_two(4,5) by blast+
  ultimately show ?thesis using r p by blast
qed

section \<open>Reachable states\<close>

text \<open>
  C1: No assertion of the scheduler ever fails and no null handle is ever followed: whatever tasks are
  created and whatever interleaving of tick interrupts, context switches, delays, suspensions, resumptions,
  priority changes and scheduler locks follows, the next permitted operation returns.
\<close>

theorem scheduler_never_asserts:
  assumes "unused k0" and "creatable ts" and "idle \<in> fst ` set ts"
  shows "\<exists>k1. create_all ts k0 = Some k1 \<and> (\<forall>k x. reach (fst ` set ts) idle (start_scheduler k1) k
      \<and> allowed (fst ` set ts) idle x k \<longrightarrow> exec x k \<noteq> None)"
proof -
  obtain k1 a where r: "create_all ts k0 = Some k1" "sys_ok {} (fst ` set ts) idle (start_scheduler k1) a"
    using boot_ok [OF assms] by blast
  show ?thesis using reach_ok [OF _ r(2)] step_ok r(1) by (metis option.distinct(1))
qed

lemma scheduler_never_asserts_witness:
  "\<exists>k1. create_all two_tasks blank = Some k1 \<and> exec Tick (start_scheduler k1) \<noteq> None"
  using scheduler_never_asserts [OF unused_blank creatable_two(1,2)] reach.start allowed.simps(1) by meson

text \<open>
  C4: Fixed-priority preemption: in every reachable state in which no switch is on its way and the
  scheduler is not locked, the running task is on the ready list of its priority and no task on any ready
  list has a higher one.
\<close>

theorem running_task_is_highest:
  assumes "unused k0" and "creatable ts" and "idle \<in> fst ` set ts"
  shows "\<exists>k1. create_all ts k0 = Some k1 \<and> (\<forall>k. reach (fst ` set ts) idle (start_scheduler k1) k \<and> \<not> swi k \<and> uxSchedulerSuspended k = 0
      \<longrightarrow> container (StateItem (pxCurrentTCB k)) k = Some (Ready (uxPriority (tcb k (pxCurrentTCB k))))
        \<and> (\<forall>t p. container (StateItem t) k = Some (Ready p) \<longrightarrow> p \<le> uxPriority (tcb k (pxCurrentTCB k))))"
proof -
  obtain k1 a0 where r: "create_all ts k0 = Some k1" "sys_ok {} (fst ` set ts) idle (start_scheduler k1) a0"
    using boot_ok [OF assms] by blast
  have "container (StateItem (pxCurrentTCB k)) k = Some (Ready (uxPriority (tcb k (pxCurrentTCB k))))
      \<and> (\<forall>t p. container (StateItem t) k = Some (Ready p) \<longrightarrow> p \<le> uxPriority (tcb k (pxCurrentTCB k)))"
    if k: "reach (fst ` set ts) idle (start_scheduler k1) k" "\<not> swi k" "uxSchedulerSuspended k = 0" for k
  proof -
    obtain a where s: "sys_ok {} (fst ` set ts) idle k a" using reach_ok [OF k(1) r(2)] by blast
    note base = kernel_okD(2) [OF sys_okD(1) [OF s]]
    have "p \<le> uxPriority (tcb k (pxCurrentTCB k))" if h: "holder a (StateItem t) = Some (Ready p)" for t p
    proof -
      have "uxPriority (tcb k t) \<le> uxPriority (tcb k (pxCurrentTCB k))"
        using sys_okD(3) [OF s] k(2,3) h by (auto simp: preemptive_def is_ready_def)
      then show ?thesis using base_home(3) [OF base h] by simp
    qed
    then show ?thesis using ready_holder [OF base running_ready [OF s k(2)]] container_holder [OF base] by simp
  qed
  then show ?thesis using r(1) by blast
qed

lemma running_task_is_highest_witness:
  "\<exists>k1. create_all two_tasks blank = Some k1 \<and> container (StateItem 2) (start_scheduler k1) = Some (Ready 3)"
proof -
  obtain k1 where k1: "create_all two_tasks blank = Some k1" "\<forall>k. reach (fst ` set two_tasks) 1 (start_scheduler k1) k \<and> \<not> swi k \<and> uxSchedulerSuspended k = 0
      \<longrightarrow> container (StateItem (pxCurrentTCB k)) k = Some (Ready (uxPriority (tcb k (pxCurrentTCB k))))
        \<and> (\<forall>t p. container (StateItem t) k = Some (Ready p) \<longrightarrow> p \<le> uxPriority (tcb k (pxCurrentTCB k)))"
    using running_task_is_highest [OF unused_blank creatable_two(1,2)] by blast
  have f: "pxCurrentTCB (start_scheduler k1) = 2" "\<not> swi (start_scheduler k1)" "uxSchedulerSuspended (start_scheduler k1) = 0"
    "uxPriority (tcb (start_scheduler k1) 2) = 3"
    using two_ok k1(1) by (auto simp: start_scheduler_def)
  then have "container (StateItem 2) (start_scheduler k1) = Some (Ready 3)"
    using k1(2) [rule_format, of "start_scheduler k1"] reach.start by fastforce
  then show ?thesis using k1(1) by blast
qed

section \<open>Sleeping and waking\<close>

text \<open>A sequence of permitted steps.\<close>

fun run :: "task set \<Rightarrow> task \<Rightarrow> op list \<Rightarrow> kernel \<Rightarrow> kernel option" where
  "run T idle [] k = Some k"
| "run T idle (x # xs) k = (if allowed T idle x k then do { k \<leftarrow> exec x k; run T idle xs k } else None)"

lemma run_append: "run T idle (xs @ ys) k = run T idle xs k \<bind> run T idle ys"
  by (induction xs arbitrary: k) (auto split: Option.bind_splits)

text \<open>
  A sleeper with \<open>d\<close> ticks to go, \<open>n\<close> ticks later: while the scheduler runs it has the rest to go, and while the scheduler is
  suspended the ticks since then are still to be counted.
\<close>

definition sleeper :: "nat \<Rightarrow> nat \<Rightarrow> task \<Rightarrow> kernel \<Rightarrow> (item_id, list_id) alists \<Rightarrow> bool" where
  "sleeper d n t k a \<longleftrightarrow> asleep a t \<and> \<not> pending a t \<and> unat (xPendedTicks k) \<le> n
     \<and> remaining k a t + (n - unat (xPendedTicks k)) = d \<and> (uxSchedulerSuspended k = 0 \<longrightarrow> xPendedTicks k = 0)"

text \<open>It sleeps on until those ticks have passed with the scheduler running.\<close>

lemma sleeper_step:
  assumes "sys_ok E T idle k a" and "sleeper d n t k a" and "n < d \<or> uxSchedulerSuspended k \<noteq> 0" and "allowed T idle x k" and "exec x k = Some k'"
    and "x \<noteq> Suspend t" and "n + (if x = Tick then 1 else 0) < 2 ^ 32"
  shows "\<exists>a'. sys_ok E T idle k' a' \<and> (if n + (if x = Tick then 1 else 0) < d \<or> uxSchedulerSuspended k' \<noteq> 0
    then sleeper d (n + (if x = Tick then 1 else 0)) t k' a' else is_ready a' t)"
proof -
  define n' where "n' = n + (if x = Tick then 1 else 0)"
  note sl = assms(2) [unfolded sleeper_def]
  show ?thesis
  proof (cases "uxSchedulerSuspended k = 0")
    case True
    obtain a' where s: "sys_ok E T idle k' a'" "sleeps_on x k a k' a'" using step_ok [OF assms(1,4)] assms(5) by auto
    note u0 = True
    have p: "xPendedTicks k = 0" "remaining k a t + n = d" "n < d" using sl True assms(3) by auto
    have np: "\<not> pending a' t" if "uxSchedulerSuspended k' = 0" using kernel_okD(11) [OF sys_okD(1) [OF s(1)] that] .
    have p': "xPendedTicks k' = 0" if "uxSchedulerSuspended k' = 0" using kernel_okD(10) [OF sys_okD(1) [OF s(1)] that] .
    show ?thesis
    proof (cases "x = SuspendAll")
      case True
      then have k': "k' = vTaskSuspendAll k" using assms(5) by simp
      have "kernel_ok E T idle k' a" unfolding k'
        using suspend_all_ok [OF sys_okD(1) [OF assms(1)] running_ready [OF assms(1)]] assms(4) by (simp add: True)
      then have "sys_ok E T idle k' a" using sys_okD(2,3) [OF assms(1)] u0 by (auto simp: sys_ok_def preemptive_def k' vTaskSuspendAll_def)
      moreover have "sleeper d n t k' a" using sl p by (simp add: sleeper_def k' vTaskSuspendAll_def remaining_def)
      ultimately show ?thesis using p(3) by (auto simp: True)
    next
      case False
      then have "uxSchedulerSuspended k' = 0" and f: "if x = Tick \<and> remaining k a t = 1 then is_ready a' t
          else asleep a' t \<and> remaining k' a' t = remaining k a t - (if x = Tick then 1 else 0)"
        using s(2) u0 False sl assms(6) by (auto simp: sleeps_on_def)
      then show ?thesis using s(1) p np p' by (intro exI [of _ a']) (auto simp: sleeper_def split: if_splits)
    qed
  next
    case False
    obtain a' where s: "sys_ok E T idle k' a'" "held_back x k a k' a'" using suspended_step [OF assms(1,4) False assms(5)] by blast
    show ?thesis
    proof (cases "x = ResumeAll \<and> uxSchedulerSuspended k = 1")
      case True
      then have u: "uxSchedulerSuspended k' = 0" and f: "if remaining k a t \<le> unat (xPendedTicks k) then is_ready a' t
          else asleep a' t \<and> remaining k' a' t = remaining k a t - unat (xPendedTicks k)"
        using s(2) sl by (auto simp: held_back_def)
      have "xPendedTicks k' = 0" "\<not> pending a' t" using kernel_okD(10,11) [OF sys_okD(1) [OF s(1)] u] by auto
      moreover have "n < d \<longleftrightarrow> \<not> remaining k a t \<le> unat (xPendedTicks k)" using sl by linarith
      ultimately show ?thesis using s(1) f u sl True by (intro exI [of _ a']) (auto simp: sleeper_def)
    next
      case no: False
      then have f: "uxSchedulerSuspended k' \<noteq> 0" "xPendedTicks k' = xPendedTicks k + (if x = Tick then 1 else 0)"
          "asleep a' t" "\<not> pending a' t" "remaining k' a' t = remaining k a t"
        using s(2) sl assms(6) unfolding held_back_def by (auto split: if_splits)
      have "unat (xPendedTicks k') = unat (xPendedTicks k) + (if x = Tick then 1 else 0)"
        using sl assms(7) unfolding f(2) by (auto simp: unat_word_ariths split: if_splits)
      then show ?thesis using s(1) f sl by (intro exI [of _ a']) (auto simp: sleeper_def)
    qed
  qed
qed

text \<open>The first moment at which \<open>d\<close> ticks have passed and the scheduler runs is not before the end of \<open>xs\<close>.\<close>

definition not_due_before :: "task set \<Rightarrow> task \<Rightarrow> nat \<Rightarrow> op list \<Rightarrow> kernel \<Rightarrow> bool" where
  "not_due_before T idle d xs k \<longleftrightarrow> (\<forall>ys zs k'. xs = ys @ zs \<and> zs \<noteq> [] \<and> run T idle ys k = Some k'
     \<longrightarrow> count_list ys Tick < d \<or> uxSchedulerSuspended k' \<noteq> 0)"

lemma run_sleeper:
  assumes "sys_ok E T idle k a" and "sleeper d 0 t k a" and "0 < d"
  shows "run T idle xs k = Some k' \<Longrightarrow> Suspend t \<notin> set xs \<Longrightarrow> count_list xs Tick < 2 ^ 32 \<Longrightarrow> not_due_before T idle d xs k
    \<Longrightarrow> \<exists>a'. sys_ok E T idle k' a' \<and> (if count_list xs Tick < d \<or> uxSchedulerSuspended k' \<noteq> 0 then sleeper d (count_list xs Tick) t k' a' else is_ready a' t)"
proof (induction xs arbitrary: k' rule: rev_induct)
  case Nil
  then show ?case using assms by auto
next
  case (snoc x xs)
  obtain k1 where k1: "run T idle xs k = Some k1" "allowed T idle x k1" "exec x k1 = Some k'"
    using snoc.prems(1) by (auto simp: run_append bind_eq_Some_conv split: if_splits)
  have due: "count_list xs Tick < d \<or> uxSchedulerSuspended k1 \<noteq> 0" using snoc.prems(4) k1(1) unfolding not_due_before_def by blast
  have "not_due_before T idle d xs k" unfolding not_due_before_def
  proof (intro allI impI)
    fix ys zs k2
    assume "xs = ys @ zs \<and> zs \<noteq> [] \<and> run T idle ys k = Some k2"
    then have "xs @ [x] = ys @ (zs @ [x]) \<and> zs @ [x] \<noteq> [] \<and> run T idle ys k = Some k2" by simp
    then show "count_list ys Tick < d \<or> uxSchedulerSuspended k2 \<noteq> 0" using snoc.prems(4) unfolding not_due_before_def by blast
  qed
  then obtain a1 where a1: "sys_ok E T idle k1 a1" "sleeper d (count_list xs Tick) t k1 a1"
    using snoc.IH [OF k1(1)] snoc.prems(2,3) due by (auto split: if_splits)
  have n: "count_list (xs @ [x]) Tick = count_list xs Tick + (if x = Tick then 1 else 0)" by simp
  show ?case unfolding n by (rule sleeper_step [OF a1 due k1(2,3)]) (use snoc.prems(2,3) in auto)
qed

lemma asleep_blocked:
  "kernel_base E T k a \<Longrightarrow> asleep a t
    \<Longrightarrow> container (StateItem t) k = Some (pxDelayedTaskList k) \<or> container (StateItem t) k = Some (pxOverflowDelayedTaskList k)"
  using asleep_delayed container_holder by metis

text \<open>
  C5: A delay is exact: a task that calls \<open>vTaskDelay(d)\<close> stays on a delayed list as long as fewer than \<open>d\<close> ticks have
  come, or the scheduler is suspended, and is on the ready list of its priority at the first moment when \<open>d\<close> ticks
  have come and the scheduler runs: the \<open>d\<close>-th tick itself or the \<open>xTaskResumeAll\<close> that ends the suspension. In between the other tasks and interrupts
  do whatever is permitted, across the wrap of the tick counter, except that nobody calls \<open>vTaskSuspend\<close> on the sleeper; at most
  \<open>2^32 - 1\<close> ticks are counted.
\<close>

theorem delay_wakes_on_time:
  assumes "sys_ok E T idle k a" and "allowed T idle (Delay d) k" and "0 < d" and "exec (Delay d) k = Some k1"
    and "run T idle xs k1 = Some k2" and "Suspend (pxCurrentTCB k) \<notin> set xs" and "count_list xs Tick < 2 ^ 32"
    and "not_due_before T idle (unat d) xs k1"
  shows "if count_list xs Tick < unat d \<or> uxSchedulerSuspended k2 \<noteq> 0
    then container (StateItem (pxCurrentTCB k)) k2 = Some (pxDelayedTaskList k2)
      \<or> container (StateItem (pxCurrentTCB k)) k2 = Some (pxOverflowDelayedTaskList k2)
    else container (StateItem (pxCurrentTCB k)) k2 = Some (Ready (uxPriority (tcb k2 (pxCurrentTCB k))))"
proof -
  define t where "t = pxCurrentTCB k"
  note ok = sys_okD [OF assms(1)]
  have al: "\<not> swi k" "uxSchedulerSuspended k = 0" "pxCurrentTCB k \<noteq> idle" using assms(2) by simp_all
  note rd = running_ready [OF assms(1) al(1)]
  obtain k1' a1 l where r: "vTaskDelay d k = Some k1'" "kernel_ok E T idle k1' a1" "swi k1'" "l \<in> sleeping"
      "holder a1 = (holder a)(StateItem t := Some l)" "itemval a1 = (itemval a)(StateItem t := xTickCount k + d)"
      "xTickCount k1' = xTickCount k" "uxSchedulerSuspended k1' = 0"
    using delay_ok [OF ok(1) al(2) rd al(3) assms(3)] unfolding t_def by blast
  have k1: "k1' = k1" using r(1) assms(4) by simp
  have sys: "sys_ok E T idle k1 a1" using blocked_sys [OF assms(1) r(2,3)] by (simp add: r(5) k1)
  have "asleep a1 t" "remaining k1 a1 t = unat d" using r(4-7) by (auto simp: asleep_def remaining_def k1)
  then have "sleeper (unat d) 0 t k1 a1" using kernel_okD(10,11) [OF sys_okD(1) [OF sys]] r(8) by (simp add: sleeper_def k1)
  moreover have "0 < unat d" using assms(3) by (simp add: word_gt_0 unat_gt_0)
  ultimately obtain a2 where a2: "sys_ok E T idle k2 a2"
      "if count_list xs Tick < unat d \<or> uxSchedulerSuspended k2 \<noteq> 0 then sleeper (unat d) (count_list xs Tick) t k2 a2 else is_ready a2 t"
    using run_sleeper [OF sys _ _ assms(5) _ assms(7,8)] assms(6) unfolding t_def by blast
  note base = kernel_okD(2) [OF sys_okD(1) [OF a2(1)]]
  show ?thesis using a2(2) asleep_blocked [OF base] ready_holder [OF base] container_holder [OF base]
    unfolding t_def [symmetric] sleeper_def by (simp split: if_splits)
qed

lemma delay_wakes_on_time_witness:
  "\<exists>k1 k2 k3. create_all two_tasks blank = Some k1 \<and> exec (Delay 1) (start_scheduler k1) = Some k2 \<and> exec Tick k2 = Some k3
    \<and> container (StateItem 2) k3 = Some (Ready (uxPriority (tcb k3 2)))"
proof -
  obtain k1 a where k: "create_all two_tasks blank = Some k1" "sys_ok {} {1, 2} 1 (start_scheduler k1) a" "pxCurrentTCB k1 = 2" "\<not> swi k1"
      "uxSchedulerSuspended k1 = 0"
    using two_ok by blast
  have al: "allowed {1, 2} 1 (Delay 1) (start_scheduler k1)" using k(3-5) by (simp add: start_scheduler_def)
  obtain k2 a2 where s: "exec (Delay 1) (start_scheduler k1) = Some k2" "sys_ok {} {1, 2} 1 k2 a2" "sleeps_on (Delay 1) (start_scheduler k1) a k2 a2"
    using step_ok [OF k(2) al] by blast
  obtain k3 a3 where t: "exec Tick k2 = Some k3" "sleeps_on Tick k2 a2 k3 a3" using step_tick [OF s(2)] by blast
  have u: "uxSchedulerSuspended k3 = 0" using s(3) t(2) k(5) by (simp add: sleeps_on_def start_scheduler_def)
  have "run {1, 2} 1 [Tick] k2 = Some k3" using t by simp
  moreover have "not_due_before {1, 2} 1 (unat (1 :: u32)) [Tick] k2" by (auto simp: not_due_before_def Cons_eq_append_conv)
  ultimately have "container (StateItem 2) k3 = Some (Ready (uxPriority (tcb k3 2)))"
    using delay_wakes_on_time [OF k(2) al _ s(1), of "[Tick]" k3] k(3) u by (simp add: start_scheduler_def)
  then show ?thesis using k(1) s(1) t(1) by blast
qed

section \<open>Taking turns\<close>

text \<open>
  C22: Equal priorities share the processor: as many context switches as there are ready tasks of the
  highest ready priority run each of them exactly once, and no task of a lower priority; the assertion of
  the selection never fails.
\<close>

theorem vTaskSwitchContext_takes_turns:
  assumes "sys_ok E T idle k a" and "uxSchedulerSuspended k = 0"
  shows "\<exists>p ts k'. switches (card {t. container (StateItem t) k = Some (Ready p)}) k = Some (ts, k') \<and> ts \<noteq> [] \<and> distinct ts
    \<and> set ts = {t. container (StateItem t) k = Some (Ready p)} \<and> (\<forall>t q. container (StateItem t) k = Some (Ready q) \<longrightarrow> q \<le> p)"
proof -
  note ok = kernel_okD [OF sys_okD(1) [OF assms(1)]]
  obtain q where q: "holder a (StateItem idle) = Some (Ready q)" using ok(6) by (auto simp: is_ready_def)
  define p where "p = portGET_HIGHEST_PRIORITY (uxTopReadyPriority k)"
  note hp = highest_priority [OF ok(2), folded p_def]
  note rt = ready_tasks [OF ok(2) hp(1) [OF q]]
  define n where "n = length (elems a (Ready p))"
  obtain k' where sw: "switches n k = Some (map task_of (take n (upcoming a (Ready p))), k')"
    using switches_rotate [OF ok(1) assms(2) q p_def, of n] by (auto simp: n_def)
  have "take n (upcoming a (Ready p)) = upcoming a (Ready p)" by (simp add: n_def length_upcoming)
  moreover have "upcoming a (Ready p) \<noteq> []" by (rule upcoming_ne [OF hp(2) [OF q]])
  ultimately show ?thesis using sw rt hp(3) unfolding n_def container_holder [OF ok(2)]
    by (intro exI [of _ p] exI [of _ "map task_of (upcoming a (Ready p))"] exI [of _ k']) auto
qed

lemma vTaskSwitchContext_takes_turns_witness:
  "\<exists>k1 p ts k'. create_all two_tasks blank = Some k1
    \<and> switches (card {t. container (StateItem t) (start_scheduler k1) = Some (Ready p)}) (start_scheduler k1) = Some (ts, k') \<and> ts \<noteq> []"
proof -
  obtain k1 a where k: "create_all two_tasks blank = Some k1" "sys_ok {} {1, 2} 1 (start_scheduler k1) a" "uxSchedulerSuspended k1 = 0"
    using two_ok by blast
  have "uxSchedulerSuspended (start_scheduler k1) = 0" using k(3) by (simp add: start_scheduler_def)
  from vTaskSwitchContext_takes_turns [OF k(2) this] show ?thesis using k(1) by blast
qed

section \<open>Ticks\<close>

text \<open>
  C20: \<open>xTaskIncrementTick\<close> returns, also when the counter wraps, and moves exactly those delayed tasks to
  their ready lists whose wake time is the new tick count; it asks for a switch exactly when one of them
  has a higher priority than the running task or a yield was pending.
\<close>

theorem tick_wakes_exactly:
  assumes "sys_ok E T idle k a" and "uxSchedulerSuspended k = 0"
  defines "due_now \<equiv> \<lambda>t. (container (StateItem t) k = Some (pxDelayedTaskList k) \<or> container (StateItem t) k = Some (pxOverflowDelayedTaskList k))
      \<and> value_of (StateItem t) k = xTickCount k + 1"
  shows "\<exists>k'. xTaskIncrementTick k
      = Some (xYieldPending k \<or> (\<exists>t. due_now t \<and> uxPriority (tcb k (pxCurrentTCB k)) < uxPriority (tcb k t)), k')
    \<and> xTickCount k' = xTickCount k + 1
    \<and> (\<forall>t. container (StateItem t) k' = (if due_now t then Some (Ready (uxPriority (tcb k t))) else container (StateItem t) k))
    \<and> (\<forall>t. container (EventItem t) k' = (if due_now t then None else container (EventItem t) k))"
proof -
  note ok = kernel_okD [OF sys_okD(1) [OF assms(1)]]
  obtain k' a' where r: "xTaskIncrementTick k
      = Some (xYieldPending k \<or> (\<exists>t. wakes_now k a t \<and> uxPriority (tcb k (pxCurrentTCB k)) < uxPriority (tcb k t)), k')"
      "kernel_inv E T k' a'" "xTickCount k' = xTickCount k + 1" "holder a' = woken (wakes_now k a) k (holder a)"
    using tick_step [OF ok(1) assms(2)] by blast
  have base': "kernel_base E T k' a'" using r(2) by (simp add: kernel_inv_def)
  have D: "wakes_now k a = due_now"
  proof
    fix t
    have "remaining k a t = 1 \<longleftrightarrow> itemval a (StateItem t) - xTickCount k = 1" by (simp add: remaining_def word_unat_eq_iff)
    also have "\<dots> \<longleftrightarrow> value_of (StateItem t) k = xTickCount k + 1" unfolding value_itemval [OF ok(2)] by (auto simp: algebra_simps)
    finally show "wakes_now k a t = due_now t"
      unfolding due_now_def wakes_now_remaining [OF ok(1)] asleep_delayed [OF ok(2)] container_holder [OF ok(2)] by simp
  qed
  show ?thesis
    using r(1,3,4) unfolding D by (intro exI [of _ k']) (simp add: container_holder [OF ok(2)] container_holder [OF base'])
qed

lemma tick_wakes_exactly_witness:
  "\<exists>k1 b k'. create_all two_tasks blank = Some k1 \<and> xTaskIncrementTick (start_scheduler k1) = Some (b, k') \<and> xTickCount k' = 1"
proof -
  obtain k1 a where k: "create_all two_tasks blank = Some k1" "sys_ok {} {1, 2} 1 (start_scheduler k1) a" "uxSchedulerSuspended k1 = 0"
    using two_ok by blast
  have "uxSchedulerSuspended (start_scheduler k1) = 0" "xTickCount (start_scheduler k1) = 0" using k(3) by (simp_all add: start_scheduler_def)
  then show ?thesis using tick_wakes_exactly [OF k(2)] k(1) by fastforce
qed

text \<open>
  C21: No tick and no wake-up is lost while the scheduler is locked: releasing the last lock moves every
  pending task to its ready list, advances the counter by the ticks that were counted meanwhile and wakes
  exactly the tasks whose time came in them.
\<close>

theorem xTaskResumeAll_catches_up:
  assumes "sys_ok E T idle k a" and "uxSchedulerSuspended k = 1"
  shows "\<exists>b k'. xTaskResumeAll k = Some (b, k') \<and> uxSchedulerSuspended k' = 0 \<and> xPendedTicks k' = 0
    \<and> xTickCount k' = xTickCount k + xPendedTicks k
    \<and> (\<forall>t. container (StateItem t) k' =
        (if container (EventItem t) k = Some PendingReadyList
           \<or> (container (StateItem t) k = Some (pxDelayedTaskList k) \<or> container (StateItem t) k = Some (pxOverflowDelayedTaskList k))
             \<and> value_of (StateItem t) k - xTickCount k \<le> xPendedTicks k
         then Some (Ready (uxPriority (tcb k t))) else container (StateItem t) k))"
proof -
  note ok = kernel_okD [OF sys_okD(1) [OF assms(1)]]
  obtain k' a' where r: "xTaskResumeAll k = Some (resume_yields k a, k')" "kernel_inv E T k' a'"
      "holder a' = woken (resumed k a) k (holder a)" "uxSchedulerSuspended k' = 0" "xPendedTicks k' = 0" "xTickCount k' = xTickCount k + xPendedTicks k"
    using resume_all [OF ok(1,5) assms(2) ok(9)] by blast
  have base': "kernel_base E T k' a'" using r(2) by (simp add: kernel_inv_def)
  have D: "resumed k a t \<longleftrightarrow> container (EventItem t) k = Some PendingReadyList
           \<or> (container (StateItem t) k = Some (pxDelayedTaskList k) \<or> container (StateItem t) k = Some (pxOverflowDelayedTaskList k))
             \<and> value_of (StateItem t) k - xTickCount k \<le> xPendedTicks k" for t
    unfolding resumed_def pending_def asleep_delayed [OF ok(2)] container_holder [OF ok(2)] value_itemval [OF ok(2)] remaining_def word_le_nat_alt ..
  show ?thesis
    using r(1,3-6) unfolding D [symmetric]
    by (intro exI [of _ "resume_yields k a"] exI [of _ k']) (simp add: container_holder [OF base'] container_holder [OF ok(2)])
qed

lemma xTaskResumeAll_catches_up_witness:
  "\<exists>k1 k2 b k3. create_all two_tasks blank = Some k1 \<and> exec Tick (vTaskSuspendAll (start_scheduler k1)) = Some k2
    \<and> xTaskResumeAll k2 = Some (b, k3) \<and> xTickCount k3 = 1"
proof -
  obtain k1 a where k: "create_all two_tasks blank = Some k1" "sys_ok {} {1, 2} 1 (start_scheduler k1) a" "uxSchedulerSuspended k1 = 0" "\<not> swi k1"
    using two_ok by blast
  define k0 where "k0 = vTaskSuspendAll (start_scheduler k1)"
  have "allowed {1, 2} 1 SuspendAll (start_scheduler k1)" using k(3,4) by (simp add: start_scheduler_def)
  from step_suspend_all [OF k(2) this] obtain a0 where a0: "sys_ok {} {1, 2} 1 k0 a0" by (auto simp: k0_def)
  have f: "uxSchedulerSuspended k0 = 1" "xTickCount k0 = 0" using k(3) by (simp_all add: k0_def vTaskSuspendAll_def start_scheduler_def)
  note ok0 = sys_okD(1) [OF a0]
  have p0: "xPendedTicks k0 = 0"
    using kernel_okD(10) [OF sys_okD(1) [OF k(2)]] k(3) by (simp add: k0_def vTaskSuspendAll_def start_scheduler_def)
  define k2 where "k2 = k0\<lparr>xPendedTicks := xPendedTicks k0 + 1\<rparr>"
  have t: "exec Tick k0 = Some k2" using tick_pended(1) [OF ok0] f(1) by (simp add: k2_def)
  obtain a2 where a2: "sys_ok {} {1, 2} 1 k2 a2" using step_tick [OF a0] t by auto
  have "uxSchedulerSuspended k2 = 1" "xTickCount k2 + xPendedTicks k2 = 1" using f p0 by (simp_all add: k2_def)
  then show ?thesis using xTaskResumeAll_catches_up [OF a2] t k(1) unfolding k0_def by fastforce
qed

section \<open>Times across the wrap of the counter\<close>

text \<open>
  C31: \<open>xTaskDelayUntil\<close> does not drift and decides correctly across the wrap of the 32-bit counter: if the
  previous wake time was the true time \<open>P\<close> and it is now \<open>N\<close>, less than \<open>2 ^ 32\<close> ticks later, the next wake time is
  \<open>P\<close> plus the period, and the task waits for it exactly when it is still ahead.
\<close>

theorem delay_until_true_time:
  assumes "P \<le> N" and "N < P + 2 ^ 32"
  shows "delay_until (of_nat N) (of_nat P) d = (of_nat (P + unat d), N < P + unat d)"
proof -
  define e where "e = N - P"
  have N: "N = P + e" "e < 2 ^ 32" using assms by (simp_all add: e_def)
  have "(of_nat e :: u32) < d \<longleftrightarrow> e < unat d" using N(2) by (simp add: word_less_nat_alt unat_of_nat_u32)
  then show ?thesis using delay_until_decides [of "of_nat P" "of_nat e" d] by (simp add: N(1))
qed

lemma delay_until_true_time_witness: "delay_until (of_nat 4294967300) (of_nat 4294967290) 20 = (of_nat 4294967310, True)"
  using delay_until_true_time [of 4294967290 4294967300 20] by simp

text \<open>
  C29: Time-outs are exact across the wrap: if the wait began at the true time \<open>M\<close> and it is now \<open>N\<close>, at most
  one counter period later, \<open>xTaskCheckForTimeOut\<close> reports a time-out exactly when all the ticks have
  passed; otherwise it restarts the interval so that the deadline stays the same.
\<close>

theorem check_for_timeout_exact:
  assumes "xTickCount k = of_nat N" and "xNumOfOverflows k = of_nat (N div 2 ^ 32)" and "M \<le> N" and "N \<le> M + 2 ^ 32"
    and "ticks \<noteq> portMAX_DELAY" and "timeout = \<lparr>xOverflowCount = of_nat (M div 2 ^ 32), xTimeOnEntering = of_nat M\<rparr>"
  shows "\<exists>timeout' ticks'. xTaskCheckForTimeOut timeout ticks k = (M + unat ticks \<le> N, timeout', ticks')
    \<and> (N < M + unat ticks \<longrightarrow> N + unat ticks' = M + unat ticks \<and> timeout' = vTaskInternalSetTimeOutState k)
    \<and> (M + unat ticks \<le> N \<longrightarrow> ticks' = 0)"
proof -
  define q where "q = M div 2 ^ 32"
  define m where "m = M mod 2 ^ 32"
  define e where "e = N - M"
  have M: "M = q * 2 ^ 32 + m" "m < 2 ^ 32" by (simp_all add: q_def m_def)
  have e: "N = M + e" "e \<le> 2 ^ 32" using assms(3,4) by (simp_all add: e_def)
  have wM: "(of_nat M :: u32) = of_nat m" by (simp add: word_unat_eq_iff unat_of_nat m_def)
  have tk: "unat ticks < 2 ^ 32 - 1"
  proof -
    have "ticks < portMAX_DELAY" by (rule le_neq_trans [OF le_portMAX_DELAY assms(5)])
    then show ?thesis by (simp add: word_less_nat_alt portMAX_DELAY_def)
  qed
  have el: "xTickCount k - xTimeOnEntering timeout = of_nat e" by (simp add: assms(1,6) e(1))
  consider (same) "m + e < 2 ^ 32" | (wrapped) "2 ^ 32 \<le> m + e" "e < 2 ^ 32" | (full) "e = 2 ^ 32" using e(2) by linarith
  then show ?thesis
  proof cases
    case same
    then have e32: "e < 2 ^ 32" by simp
    have "N div 2 ^ 32 = q" unfolding e(1) M(1) using same by (simp add: add.assoc)
    then have ov: "xNumOfOverflows k = xOverflowCount timeout" by (simp add: assms(2,6) q_def)
    have lt: "(of_nat e :: u32) < ticks \<longleftrightarrow> N < M + unat ticks" using e32 by (simp add: word_less_nat_alt unat_of_nat_u32 e(1))
    have sub: "unat (ticks - of_nat e) = unat ticks - e" if "N < M + unat ticks"
      using unat_sub_u32 [of "of_nat e" ticks] that lt e32 by (simp add: unat_of_nat_u32)
    show ?thesis using lt sub e(1) assms(5) ov unfolding xTaskCheckForTimeOut_def Let_def el
      by (cases "N < M + unat ticks") simp_all
  next
    case wrapped
    have lt: "(of_nat e :: u32) < ticks \<longleftrightarrow> N < M + unat ticks" using wrapped(2) by (simp add: word_less_nat_alt unat_of_nat_u32 e(1))
    have sub: "unat (ticks - of_nat e) = unat ticks - e" if "N < M + unat ticks"
      using unat_sub_u32 [of "of_nat e" ticks] that lt wrapped(2) by (simp add: unat_of_nat_u32)
    have "(of_nat N :: u32) = of_nat (m + e - 2 ^ 32)"
    proof -
      have "N = (m + e - 2 ^ 32) + (q + 1) * 2 ^ 32" unfolding e(1) M(1) using wrapped(1) by simp
      moreover have "m + e - 2 ^ 32 < 2 ^ 32" using wrapped(2) M(2) by simp
      ultimately have "N mod 2 ^ 32 = m + e - 2 ^ 32" by (metis mod_less mod_mult_self1)
      then show ?thesis by (simp add: word_unat_eq_iff unat_of_nat)
    qed
    moreover have "m + e - 2 ^ 32 < m" using wrapped by linarith
    ultimately have "(of_nat N :: u32) < of_nat m" using M(2) by (simp add: word_less_nat_alt unat_of_nat_u32)
    then have "\<not> xTickCount k \<ge> xTimeOnEntering timeout" by (simp add: assms(1,6) wM not_le)
    then show ?thesis using lt sub e(1) assms(5) unfolding xTaskCheckForTimeOut_def Let_def el
      by (cases "N < M + unat ticks") simp_all
  next
    case full
    have "(of_nat N :: u32) = of_nat M" by (simp add: e(1) full)
    then have ge: "xTickCount k \<ge> xTimeOnEntering timeout" by (simp add: assms(1,6))
    have "N div 2 ^ 32 = q + 1" unfolding e(1) full q_def by simp
    moreover have "(of_nat (q + 1) :: u32) \<noteq> of_nat q" by simp
    ultimately have "xNumOfOverflows k \<noteq> xOverflowCount timeout" by (simp add: assms(2,6) q_def)
    then show ?thesis using ge tk assms(5) unfolding xTaskCheckForTimeOut_def Let_def by (simp add: e(1) full)
  qed
qed

lemma check_for_timeout_exact_witness:
  "\<exists>t' n. xTaskCheckForTimeOut \<lparr>xOverflowCount = 0, xTimeOnEntering = 4294967290\<rparr> 20 (blank\<lparr>xTickCount := 4, xNumOfOverflows := 1\<rparr>) = (False, t', n)
    \<and> unat n = 10"
proof -
  have "xTickCount (blank\<lparr>xTickCount := 4, xNumOfOverflows := 1\<rparr>) = of_nat 4294967300"
    "xNumOfOverflows (blank\<lparr>xTickCount := 4, xNumOfOverflows := 1\<rparr>) = of_nat (4294967300 div 2 ^ 32)" by simp_all
  from check_for_timeout_exact [OF this, of 4294967290 20 "\<lparr>xOverflowCount = 0, xTimeOnEntering = 4294967290\<rparr>"]
  show ?thesis by (auto simp: portMAX_DELAY_def)
qed

section \<open>Priority inheritance\<close>

text \<open>
  C23: Priority inheritance: when the running task has to wait for a mutex, its holder runs at the higher of
  the two priorities from then on, on the matching ready list if it is ready, its base priority kept; no
  other task is touched and the invariants are kept. The result tells whether the holder inherited.
\<close>

theorem xTaskPriorityInherit_raises:
  assumes "sys_ok E T idle k a" and "t \<in> T"
  shows "\<exists>r k'. xTaskPriorityInherit t k = Some (r, k')
    \<and> uxPriority (tcb k' t) = max (uxPriority (tcb k t)) (uxPriority (tcb k (pxCurrentTCB k)))
    \<and> uxBasePriority (tcb k' t) = uxBasePriority (tcb k t) \<and> (\<forall>u. u \<noteq> t \<longrightarrow> tcb k' u = tcb k u)
    \<and> (r \<longleftrightarrow> uxBasePriority (tcb k t) < uxPriority (tcb k (pxCurrentTCB k)) \<or> uxPriority (tcb k t) < uxPriority (tcb k (pxCurrentTCB k)))
    \<and> (\<forall>u. container (StateItem u) k' = (if u = t \<and> container (StateItem t) k = Some (Ready (uxPriority (tcb k t)))
         then Some (Ready (uxPriority (tcb k' t))) else container (StateItem u) k))
    \<and> (\<exists>a'. kernel_ok E T idle k' a')"
proof -
  note ok = sys_okD(1) [OF assms(1)]
  obtain k' a' r where r: "xTaskPriorityInherit t k = Some (r, k')" "kernel_ok E T idle k' a'"
    "tcb k' = (tcb k)(t := (tcb k t)\<lparr>uxPriority := max (uxPriority (tcb k t)) (uxPriority (tcb k (pxCurrentTCB k)))\<rparr>)"
    "r \<longleftrightarrow> uxBasePriority (tcb k t) < uxPriority (tcb k (pxCurrentTCB k)) \<or> uxPriority (tcb k t) < uxPriority (tcb k (pxCurrentTCB k))"
    "holder a' = (if is_ready a t then (holder a)(StateItem t := Some (Ready (max (uxPriority (tcb k t)) (uxPriority (tcb k (pxCurrentTCB k)))))) else holder a)"
    using inherit_ok [OF ok assms(2)] by blast
  have rd: "is_ready a t \<longleftrightarrow> holder a (StateItem t) = Some (Ready (uxPriority (tcb k t)))"
    using ready_holder [OF kernel_okD(2) [OF ok]] by (auto simp: is_ready_def)
  have "container (StateItem u) k' = (if u = t \<and> container (StateItem t) k = Some (Ready (uxPriority (tcb k t)))
         then Some (Ready (uxPriority (tcb k' t))) else container (StateItem u) k)" for u
    unfolding container_holder [OF kernel_okD(2) [OF ok]] container_holder [OF kernel_okD(2) [OF r(2)]] r(5) rd r(3) by auto
  then show ?thesis using r(1-4) by (intro exI [of _ r] exI [of _ k']) auto
qed

lemma xTaskPriorityInherit_raises_witness:
  "\<exists>k1 k2. create_all two_tasks blank = Some k1 \<and> xTaskPriorityInherit 1 (start_scheduler k1) = Some (True, k2)
    \<and> uxPriority (tcb k2 1) = 3 \<and> container (StateItem 1) k2 = Some (Ready 3)"
proof -
  obtain k1 a where k: "create_all two_tasks blank = Some k1" "sys_ok {} {1, 2} 1 (start_scheduler k1) a" "holder a (StateItem 1) = Some (Ready 0)"
      "pxCurrentTCB k1 = 2" "uxPriority (tcb k1 1) = 0" "uxPriority (tcb k1 2) = 3"
    using two_ok by blast
  define k0 where "k0 = start_scheduler k1"
  have f: "pxCurrentTCB k0 = 2" "uxPriority (tcb k0 1) = 0" "uxPriority (tcb k0 2) = 3" using k by (simp_all add: k0_def start_scheduler_def)
  have c: "container (StateItem 1) k0 = Some (Ready 0)"
    using container_holder [OF kernel_okD(2) [OF sys_okD(1) [OF k(2)]]] k(3) by (simp add: k0_def)
  obtain r k2 where r: "xTaskPriorityInherit 1 k0 = Some (r, k2)"
    "uxPriority (tcb k2 1) = max (uxPriority (tcb k0 1)) (uxPriority (tcb k0 (pxCurrentTCB k0)))"
    "r \<longleftrightarrow> uxBasePriority (tcb k0 1) < uxPriority (tcb k0 (pxCurrentTCB k0)) \<or> uxPriority (tcb k0 1) < uxPriority (tcb k0 (pxCurrentTCB k0))"
    "\<forall>u. container (StateItem u) k2 = (if u = 1 \<and> container (StateItem 1) k0 = Some (Ready (uxPriority (tcb k0 1)))
         then Some (Ready (uxPriority (tcb k2 1))) else container (StateItem u) k0)"
    using xTaskPriorityInherit_raises [OF k(2), of 1] unfolding k0_def [symmetric] by auto
  have "r" "uxPriority (tcb k2 1) = 3" using r(2,3) f by simp_all
  then show ?thesis using k(1) r(1,4) c f unfolding k0_def by fastforce
qed

text \<open>
  C28: Giving the last mutex back restores the priority: a holder that inherited returns to its base
  priority with its last mutex and to the ready list of that priority; while it still holds another
  mutex it keeps what it inherited.
\<close>

theorem xTaskPriorityDisinherit_restores:
  assumes "kernel_ok E T idle k a" and "container (StateItem (pxCurrentTCB k)) k = Some (Ready (uxPriority (tcb k (pxCurrentTCB k))))"
    and "uxMutexesHeld (tcb k (pxCurrentTCB k)) \<noteq> 0" and "uxBasePriority (tcb k (pxCurrentTCB k)) < configMAX_PRIORITIES"
  shows "\<exists>r k' a'. xTaskPriorityDisinherit (pxCurrentTCB k) k = Some (r, k') \<and> kernel_ok E T idle k' a'
    \<and> uxPriority (tcb k' (pxCurrentTCB k)) = (if uxMutexesHeld (tcb k (pxCurrentTCB k)) = 1
         then uxBasePriority (tcb k (pxCurrentTCB k)) else uxPriority (tcb k (pxCurrentTCB k)))
    \<and> uxMutexesHeld (tcb k' (pxCurrentTCB k)) = uxMutexesHeld (tcb k (pxCurrentTCB k)) - 1
    \<and> container (StateItem (pxCurrentTCB k)) k' = Some (Ready (uxPriority (tcb k' (pxCurrentTCB k))))
    \<and> (r \<longleftrightarrow> uxPriority (tcb k' (pxCurrentTCB k)) \<noteq> uxPriority (tcb k (pxCurrentTCB k)))"
proof -
  note ok = kernel_okD [OF assms(1)]
  have rd: "is_ready a (pxCurrentTCB k)" using assms(2) by (simp add: is_ready_def container_holder [OF ok(2)])
  obtain k' a' r where r: "xTaskPriorityDisinherit (pxCurrentTCB k) k = Some (r, k')" "kernel_ok E T idle k' a'"
    "tcb k' = (tcb k)(pxCurrentTCB k := give_back (tcb k (pxCurrentTCB k)))"
    "r \<longleftrightarrow> uxPriority (give_back (tcb k (pxCurrentTCB k))) \<noteq> uxPriority (tcb k (pxCurrentTCB k))"
    "holder a' = (holder a)(StateItem (pxCurrentTCB k) := Some (Ready (uxPriority (give_back (tcb k (pxCurrentTCB k))))))"
    using disinherit_ok [OF assms(1) refl rd assms(3,4)] by blast
  have one: "uxMutexesHeld (tcb k (pxCurrentTCB k)) - 1 = 0 \<longleftrightarrow> uxMutexesHeld (tcb k (pxCurrentTCB k)) = 1" by simp
  show ?thesis using r
    by (intro exI [of _ r] exI [of _ k'] exI [of _ a'])
      (auto simp: container_holder [OF kernel_okD(2) [OF r(2)]] give_back_def Let_def one)
qed

lemma xTaskPriorityDisinherit_restores_witness:
  "\<exists>k0 k'. uxPriority (tcb k0 2) = 3 \<and> xTaskPriorityDisinherit 2 k0 = Some (True, k') \<and> uxPriority (tcb k' 2) = 1"
proof -
  obtain k1 a where k: "sys_ok {} {1, 2} 1 (start_scheduler k1) a" "holder a (StateItem 2) = Some (Ready 3)"
      "pxCurrentTCB k1 = 2" "uxPriority (tcb k1 2) = 3"
    using two_ok by blast
  define k0 where "k0 = upd_tcb 2 (\<lambda>b. b\<lparr>uxBasePriority := 1, uxMutexesHeld := 1\<rparr>) (start_scheduler k1)"
  have ok: "kernel_ok {} {1, 2} 1 k0 a" unfolding k0_def by (rule kernel_ok_tcb [OF sys_okD(1) [OF k(1)]]) simp
  have f: "pxCurrentTCB k0 = 2" "uxPriority (tcb k0 2) = 3" "uxMutexesHeld (tcb k0 2) = 1" "uxBasePriority (tcb k0 2) = 1"
    using k(3,4) by (simp_all add: k0_def start_scheduler_def)
  have c: "container (StateItem (pxCurrentTCB k0)) k0 = Some (Ready (uxPriority (tcb k0 (pxCurrentTCB k0))))"
    using container_holder [OF kernel_okD(2) [OF ok]] k(2) f by simp
  have "uxMutexesHeld (tcb k0 (pxCurrentTCB k0)) \<noteq> 0" "uxBasePriority (tcb k0 (pxCurrentTCB k0)) < configMAX_PRIORITIES"
    by (simp_all add: f configMAX_PRIORITIES_def)
  from xTaskPriorityDisinherit_restores [OF ok c this] show ?thesis using f by auto
qed

text \<open>
  C32: A mutex wait that times out can leave the scheduler broken: when the holder is alone on the ready
  list of the priority it inherited, \<open>vTaskPriorityDisinheritAfterTimeout\<close> resets the bit of the new priority
  instead of the old one. The old bit stays set over an empty list, and once that priority is the highest
  one recorded, the assertion of the next context switch fails.
\<close>

theorem disinherit_after_timeout_stale_bit:
  assumes "kernel_ok E T idle k a" and "t \<in> T" and "t \<noteq> pxCurrentTCB k" and "uxMutexesHeld (tcb k t) = 1"
    and "uxBasePriority (tcb k t) < uxPriority (tcb k t)" and "w < uxPriority (tcb k t)"
    and "\<forall>u. container (StateItem u) k = Some (Ready (uxPriority (tcb k t))) \<longleftrightarrow> u = t"
  shows "\<exists>k'. vTaskPriorityDisinheritAfterTimeout t w k = Some k'
    \<and> bit (uxTopReadyPriority k') (unat (uxPriority (tcb k t))) \<and> list_empty (Ready (uxPriority (tcb k t))) k'
    \<and> (\<forall>k2. uxSchedulerSuspended k2 = 0 \<and> lists k2 = lists k' \<and> portGET_HIGHEST_PRIORITY (uxTopReadyPriority k2) = uxPriority (tcb k t)
         \<longrightarrow> vTaskSwitchContext k2 = None)"
proof -
  note ok = kernel_okD [OF assms(1)]
  define old where "old = uxPriority (tcb k t)"
  define p where "p = (if uxBasePriority (tcb k t) < w then w else uxBasePriority (tcb k t))"
  have old: "old < configMAX_PRIORITIES" using tasks_okD(3) [OF kernel_baseD(2) [OF ok(2)] assms(2)] by (simp add: old_def)
  have "p < old" using assms(5,6) by (simp add: p_def old_def)
  then have p: "p < configMAX_PRIORITIES" "p \<noteq> old" using old by auto
  have only: "holder a i = Some (Ready old) \<longleftrightarrow> i = StateItem t" for i
    using assms(7) ready_state_item [OF ok(2), of i old] unfolding container_holder [OF ok(2)] old_def by (metis item_id.inject(1))
  obtain k' where r: "vTaskPriorityDisinheritAfterTimeout t w k = Some k'" "bit (uxTopReadyPriority k') (unat old)" "list_empty (Ready old) k'"
    using disinherit_timeout_stale [OF assms(1-4) p_def p(1) old_def p(2) only] by blast
  have "vTaskSwitchContext k2 = None" if "uxSchedulerSuspended k2 = 0" "lists k2 = lists k'" "portGET_HIGHEST_PRIORITY (uxTopReadyPriority k2) = old" for k2
    by (rule switch_empty_fails) (use that r(3) in \<open>simp_all add: list_empty_def\<close>)
  then show ?thesis using r unfolding old_def by blast
qed

definition three_tasks :: "(task \<times> u32) list" where
  "three_tasks = [(1, 0), (2, 3), (3, 4)]"

lemma disinherit_after_timeout_stale_bit_witness:
  "\<exists>k k'. uxPriority (tcb k 2) = 3 \<and> vTaskPriorityDisinheritAfterTimeout 2 1 k = Some k' \<and> bit (uxTopReadyPriority k') 3 \<and> list_empty (Ready 3) k'"
proof -
  have s: "fst ` set three_tasks = {1, 2, 3}" "creatable three_tasks" "(2, 3) \<in> set three_tasks" "(3, 4) \<in> set three_tasks" "(1, 0) \<in> set three_tasks"
    by (simp_all add: three_tasks_def creatable_def configMAX_PRIORITIES_def)
  then have "1 \<in> fst ` set three_tasks" by simp
  from boot_ok [OF unused_blank s(2) this] obtain k1 a where k: "sys_ok {} {1, 2, 3} 1 (start_scheduler k1) a"
      "\<forall>(t, p) \<in> set three_tasks. holder a (StateItem t) = Some (Ready p)" "pxCurrentTCB k1 \<in> {1, 2, 3}"
      "\<forall>(t, p) \<in> set three_tasks. uxPriority (tcb k1 t) = p \<and> p \<le> uxPriority (tcb k1 (pxCurrentTCB k1))"
    unfolding s(1) by blast
  have p: "uxPriority (tcb k1 1) = 0" "uxPriority (tcb k1 2) = 3" "uxPriority (tcb k1 3) = 4" "4 \<le> uxPriority (tcb k1 (pxCurrentTCB k1))"
    using bspec [OF k(4) s(3)] bspec [OF k(4) s(4)] bspec [OF k(4) s(5)] by simp_all
  have cur: "pxCurrentTCB k1 = 3" using k(3) p by auto
  have h: "holder a (StateItem 1) = Some (Ready 0)" "holder a (StateItem 2) = Some (Ready 3)" "holder a (StateItem 3) = Some (Ready 4)"
    using bspec [OF k(2) s(3)] bspec [OF k(2) s(4)] bspec [OF k(2) s(5)] by simp_all
  define k0 where "k0 = upd_tcb 2 (\<lambda>b. b\<lparr>uxBasePriority := 1, uxMutexesHeld := 1\<rparr>) (start_scheduler k1)"
  have ok: "kernel_ok {} {1, 2, 3} 1 k0 a" unfolding k0_def by (rule kernel_ok_tcb [OF sys_okD(1) [OF k(1)]]) simp
  have f: "pxCurrentTCB k0 = 3" "uxPriority (tcb k0 2) = 3" "uxMutexesHeld (tcb k0 2) = 1" "uxBasePriority (tcb k0 2) = 1"
    using cur p by (simp_all add: k0_def start_scheduler_def)
  have only: "\<forall>u. container (StateItem u) k0 = Some (Ready (uxPriority (tcb k0 2))) \<longleftrightarrow> u = 2"
  proof
    fix u
    have "u \<in> {1, 2, 3}" if "holder a (StateItem u) = Some (Ready 3)" using base_home(2) [OF kernel_okD(2) [OF ok] that] by simp
    then show "container (StateItem u) k0 = Some (Ready (uxPriority (tcb k0 2))) \<longleftrightarrow> u = 2"
      unfolding container_holder [OF kernel_okD(2) [OF ok]] f(2) using h by auto
  qed
  have "(2 :: u32) \<in> {1, 2, 3}" "2 \<noteq> pxCurrentTCB k0" "uxBasePriority (tcb k0 2) < uxPriority (tcb k0 2)" "1 < uxPriority (tcb k0 2)"
    by (simp_all add: f)
  from disinherit_after_timeout_stale_bit [OF ok this(1,2) f(3) this(3,4) only] show ?thesis using f(2) by auto
qed

end
