(* ===== verification/QueueRun.thy ===== *)
theory QueueRun
  imports QueueCreate KernelClaims
begin

text \<open>
  Tasks, interrupts and queues as one system: its steps, the same steps on abstract queues, and the proof
  that each permitted step returns, keeps the invariant and does what the abstract step says.
\<close>

section \<open>The operations as steps\<close>

text \<open>
  Each call is made of attempts and waits, between which other tasks and interrupts go on: the steps of
  the system. An attempt begins with what the call asserts on entry, also when it is not the first of its call. A give
  is a send without an item; a wait is the section with the queue locked, with the interrupts that come before and
  after the task leaves its ready list.
\<close>

datatype qop = Kernel op | Interrupt intr | Send u32 "u8 list" u32 u32 | Give u32 | Receive u32 "u8 list" u32 | Peek u32 "u8 list" u32
  | Take u32 u32 | WaitSend u32 TimeOut_t u32 "intr list" "intr list" | WaitReceive u32 TimeOut_t u32 "intr list" "intr list"
  | Create u32 u32 | CreateCounting u32 u32

type_synonym system = "u32 set \<times> os"

definition interrupted :: "u32 set \<Rightarrow> intr list \<Rightarrow> intr list \<Rightarrow> nat \<Rightarrow> os \<Rightarrow> os" where
  "interrupted Q is1 is2 n = during Q (if n = 0 then is1 else is2)"

definition with_new :: "u32 set \<Rightarrow> u32 \<times> os \<Rightarrow> system" where
  "with_new Q = (\<lambda>(q, s). (if q = 0 then Q else insert q Q, s))"

fun qexec :: "qop \<Rightarrow> system \<Rightarrow> system option" where
  "qexec (Kernel x) (Q, s) = map_option (Pair Q) (on_kernel (exec x) s)"
| "qexec (Interrupt i) (Q, s) = map_option (Pair Q) (intr_exec i s)"
| "qexec (Send q d ticks p) (Q, s) = do { send_entry q (Some d) ticks p s; (r, s) \<leftarrow> send_attempt q (Some d) ticks p s; Some (Q, s) }"
| "qexec (Give q) (Q, s) = do { send_entry q None 0 queueSEND_TO_BACK s; (r, s) \<leftarrow> send_attempt q None 0 queueSEND_TO_BACK s; Some (Q, s) }"
| "qexec (Receive q d ticks) (Q, s) = do { receive_entry q (Some d) ticks s; (r, d, s) \<leftarrow> receive_attempt q (Some d) ticks s; Some (Q, s) }"
| "qexec (Peek q d ticks) (Q, s) = do { receive_entry q (Some d) ticks s; (r, d, s) \<leftarrow> peek_attempt q (Some d) ticks s; Some (Q, s) }"
| "qexec (Take q ticks) (Q, s) = do { take_entry q ticks s; (r, s) \<leftarrow> take_attempt q ticks s; Some (Q, s) }"
| "qexec (WaitSend q t ticks is1 is2) (Q, s) = map_option (\<lambda>(x, i, t, d, s). (Q, s))
     (wait_section (interrupted Q is1 is2) 0 q (prvIsQueueFull q) (\<lambda>i s. Some (i, s)) (xTasksWaitingToSend q) False t ticks s)"
| "qexec (WaitReceive q t ticks is1 is2) (Q, s) = map_option (\<lambda>(x, i, t, d, s). (Q, s))
     (wait_section (interrupted Q is1 is2) 0 q (prvIsQueueEmpty q) (\<lambda>i s. Some (i, s)) (xTasksWaitingToReceive q) False t ticks s)"
| "qexec (Create n z) (Q, s) = map_option (with_new Q) (xQueueGenericCreate n z s)"
| "qexec (CreateCounting n c) (Q, s) = map_option (with_new Q) (xQueueCreateCountingSemaphore n c s)"

text \<open>
  What may happen when. A task uses a queue only while it really runs, with objects of the right size;
  it gives a time to wait only with the scheduler running, and the idle task never waits.
\<close>

fun qallowed :: "task set \<Rightarrow> task \<Rightarrow> qop \<Rightarrow> system \<Rightarrow> bool" where
  "qallowed T idle (Kernel x) (Q, s) \<longleftrightarrow> allowed T idle x (kern s)"
| "qallowed T idle (Interrupt i) (Q, s) \<longleftrightarrow> intr_allowed Q i s"
| "qallowed T idle (Send q d ticks p) (Q, s) \<longleftrightarrow> \<not> swi (kern s) \<and> (ticks = 0 \<or> uxSchedulerSuspended (kern s) = 0) \<and> q \<in> Q \<and> sendable (queue s q) (length d) p"
| "qallowed T idle (Give q) (Q, s) \<longleftrightarrow> \<not> swi (kern s) \<and> q \<in> Q \<and> size_of (queue s q) = 0"
| "qallowed T idle (Receive q d ticks) (Q, s) \<longleftrightarrow> \<not> swi (kern s) \<and> (ticks = 0 \<or> uxSchedulerSuspended (kern s) = 0) \<and> q \<in> Q \<and> size_of (queue s q) \<le> length d"
| "qallowed T idle (Peek q d ticks) (Q, s) \<longleftrightarrow> \<not> swi (kern s) \<and> (ticks = 0 \<or> uxSchedulerSuspended (kern s) = 0) \<and> q \<in> Q \<and> size_of (queue s q) \<le> length d"
| "qallowed T idle (Take q ticks) (Q, s) \<longleftrightarrow> \<not> swi (kern s) \<and> (ticks = 0 \<or> uxSchedulerSuspended (kern s) = 0) \<and> q \<in> Q \<and> size_of (queue s q) = 0"
| "qallowed T idle (WaitSend q t ticks is1 is2) (Q, s) \<longleftrightarrow> \<not> swi (kern s) \<and> uxSchedulerSuspended (kern s) = 0 \<and> pxCurrentTCB (kern s) \<noteq> idle \<and> q \<in> Q"
| "qallowed T idle (WaitReceive q t ticks is1 is2) (Q, s) \<longleftrightarrow> \<not> swi (kern s) \<and> uxSchedulerSuspended (kern s) = 0 \<and> pxCurrentTCB (kern s) \<noteq> idle \<and> q \<in> Q"
| "qallowed T idle (Create n z) (Q, s) \<longleftrightarrow> \<not> swi (kern s) \<and> creatable_queue n z"
| "qallowed T idle (CreateCounting n c) (Q, s) \<longleftrightarrow> \<not> swi (kern s) \<and> n \<noteq> 0 \<and> c \<le> n \<and> creatable_queue n 0"

inductive qreach :: "task set \<Rightarrow> task \<Rightarrow> system \<Rightarrow> system \<Rightarrow> bool" for T idle x0 where
  qstart: "qreach T idle x0 x0"
| qstep: "qreach T idle x0 x \<Longrightarrow> qallowed T idle y x \<Longrightarrow> qexec y x = Some x' \<Longrightarrow> qreach T idle x0 x'"

text \<open>The same steps on the abstract queues.\<close>

fun spec_step :: "qop \<Rightarrow> (u32 \<rightharpoonup> fifo) \<Rightarrow> (u32 \<rightharpoonup> fifo) \<Rightarrow> bool" where
  "spec_step (Kernel x) m m' \<longleftrightarrow> m' = m"
| "spec_step (Interrupt i) m m' \<longleftrightarrow> m' = spec_intr i m"
| "spec_step (Send q d ticks p) m m' \<longleftrightarrow> m' = on_fifo q (fifo_put d p) m"
| "spec_step (Give q) m m' \<longleftrightarrow> m' = on_fifo q (fifo_put [] queueSEND_TO_BACK) m"
| "spec_step (Receive q d ticks) m m' \<longleftrightarrow> m' = on_fifo q fifo_drop m"
| "spec_step (Peek q d ticks) m m' \<longleftrightarrow> m' = m"
| "spec_step (Take q ticks) m m' \<longleftrightarrow> m' = on_fifo q fifo_drop m"
| "spec_step (WaitSend q t ticks is1 is2) m m' \<longleftrightarrow> m' = fold spec_intr is1 m \<or> m' = fold spec_intr (is1 @ is2) m"
| "spec_step (WaitReceive q t ticks is1 is2) m m' \<longleftrightarrow> m' = fold spec_intr is1 m \<or> m' = fold spec_intr (is1 @ is2) m"
| "spec_step (Create n z) m m' \<longleftrightarrow> m' = m \<or> (\<exists>q. m q = None \<and> m' = m(q \<mapsto> \<lparr>cap = unat n, width = unat z, held = []\<rparr>))"
| "spec_step (CreateCounting n c) m m' \<longleftrightarrow> m' = m \<or> (\<exists>q. m q = None \<and> m' = m(q \<mapsto> \<lparr>cap = unat n, width = 0, held = replicate (unat c) []\<rparr>))"

section \<open>The invariant of the system\<close>

definition os_sys :: "task set \<Rightarrow> task \<Rightarrow> u32 set \<Rightarrow> system \<Rightarrow> (item_id, list_id) alists \<Rightarrow> block list \<Rightarrow> bool" where
  "os_sys T idle G x a bs \<longleftrightarrow> os_core (fst x) (lists_of (fst x) G) T idle (snd x) a \<and> preemptive (kern (snd x)) a
     \<and> (is_ready a (pxCurrentTCB (kern (snd x))) \<or> swi (kern (snd x)) \<and> uxSchedulerSuspended (kern (snd x)) = 0)
     \<and> stored (fst x) G (snd x) bs"

lemma os_sysD:
  assumes "os_sys T idle G (Q, s) a bs"
  shows "os_core Q (lists_of Q G) T idle s a" "preemptive (kern s) a"
    "is_ready a (pxCurrentTCB (kern s)) \<or> swi (kern s) \<and> uxSchedulerSuspended (kern s) = 0" "stored Q G s bs" "apart Q s"
  using assms stored_apart by (auto simp: os_sys_def)

lemma os_sys_kernel: "os_sys T idle G (Q, s) a bs \<Longrightarrow> sys_ok (lists_of Q G) T idle (kern s) a"
  by (auto simp: os_sys_def os_core_def sys_ok_def kernel_ok_core)

lemma os_sysI:
  assumes "sys_ok (lists_of Q G) T idle (kern s) a" and "\<forall>q \<in> Q. queue_in (lists_of Q G) q (queue s q)"
    and "uxCurrentNumberOfTasks (kern s) \<le> 127" and "stored Q G s bs"
  shows "os_sys T idle G (Q, s) a bs"
  using assms by (auto simp: os_sys_def os_core_def sys_ok_def kernel_ok_core)

text \<open>A step that wakes tasks at most.\<close>

lemma woke_sys:
  assumes "os_sys T idle G (Q, s) a bs" and "os_core Q (lists_of Q G) T idle s' a'" and "woke (kern s) a (kern s') a'" and "same_sizes s s'"
  shows "os_sys T idle G (Q, s') a' bs"
proof -
  note sys = os_sysD [OF assms(1)]
  have "is_ready a' (pxCurrentTCB (kern s')) \<or> swi (kern s') \<and> uxSchedulerSuspended (kern s') = 0"
    using sys(3) assms(3) unfolding woke_def switching_def by auto
  then show ?thesis using assms(2) woke_preemptive [OF sys(2) assms(3)] stored_sizes [OF sys(4) assms(4)] by (simp add: os_sys_def)
qed

definition qstep_ok :: "task set \<Rightarrow> task \<Rightarrow> u32 set \<Rightarrow> qop \<Rightarrow> system \<Rightarrow> bool" where
  "qstep_ok T idle G y x \<longleftrightarrow> (\<exists>x' a bs. qexec y x = Some x' \<and> os_sys T idle G x' a bs \<and> spec_step y (view (fst x) (snd x)) (view (fst x') (snd x')))"

lemma qstep_queue:
  assumes "os_sys T idle G (Q, s) a bs" and "q \<in> Q" and "qexec y (Q, s) = Some (Q, s')" and "os_core Q (lists_of Q G) T idle s' a'"
    and "woke (kern s) a (kern s') a'" and "only_queue q s s'" and "fifo_of q s' = f (fifo_of q s)"
    and "\<And>m. spec_step y m (on_fifo q f m)"
  shows "qstep_ok T idle G y (Q, s)"
proof -
  note sys = os_sysD [OF assms(1)]
  have "\<forall>r \<in> Q. queue_ok (queue s r)" using os_coreD(3) [OF sys(1)] by (simp add: queue_in_def)
  note v = only_queue_view [where f = f, OF assms(6) sys(5) assms(2) this assms(7)]
  have "os_sys T idle G (Q, s') a' bs" by (rule woke_sys [OF assms(1,4,5) only_queue_sizes [OF assms(6)]])
  then show ?thesis unfolding qstep_ok_def using assms(3) assms(8) [of "view Q s"] v by auto
qed

lemma qstep_id:
  assumes "os_sys T idle G (Q, s) a bs" and "qexec y (Q, s) = Some (Q, s)" and "spec_step y (view Q s) (view Q s)"
  shows "qstep_ok T idle G y (Q, s)"
  using assms unfolding qstep_ok_def by auto

section \<open>Every step keeps the system in order and does what its specification says\<close>

lemma only_queue_refl: "only_queue q s s"
  by (simp add: only_queue_def unchanged_outside_def)

lemma kernel_step:
  assumes "os_sys T idle G (Q, s) a bs" and "allowed T idle x (kern s)"
  shows "\<exists>k' a'. exec x (kern s) = Some k' \<and> os_sys T idle G (Q, s\<lparr>kern := k'\<rparr>) a' bs"
proof -
  note sys = os_sysD [OF assms(1)]
  obtain k' a' where r: "exec x (kern s) = Some k'" "sys_ok (lists_of Q G) T idle k' a'"
    using step_ok [OF os_sys_kernel [OF assms(1)] assms(2)] by blast
  have "uxCurrentNumberOfTasks k' = uxCurrentNumberOfTasks (kern s)" using counts.exec_keeps [OF refl, of "kern s" x] r(1) by simp
  then have "os_sys T idle G (Q, s\<lparr>kern := k'\<rparr>) a' bs"
    using r(2) os_coreD(3,4) [OF sys(1)] sys(4) by (intro os_sysI) (simp_all add: stored_def)
  then show ?thesis using r(1) by blast
qed

lemma qstep_kernel:
  assumes "os_sys T idle G (Q, s) a bs" and "allowed T idle x (kern s)" and "map_option (Pair Q) (on_kernel (exec x) s) = qexec y (Q, s)"
    and "\<And>m. spec_step y m m"
  shows "qstep_ok T idle G y (Q, s)"
proof -
  obtain k' a' where r: "exec x (kern s) = Some k'" "os_sys T idle G (Q, s\<lparr>kern := k'\<rparr>) a' bs" using kernel_step [OF assms(1,2)] by blast
  have "qexec y (Q, s) = Some (Q, s\<lparr>kern := k'\<rparr>)" using r(1) assms(3) [symmetric] by (simp add: on_kernel_def)
  then show ?thesis unfolding qstep_ok_def using r(2) assms(4) by (auto simp: view_kern)
qed

lemma qstep_interrupt:
  assumes "os_sys T idle G (Q, s) a bs" and "intr_allowed Q i s"
  shows "qstep_ok T idle G (Interrupt i) (Q, s)"
proof -
  consider "i = TickInt" | "i = YieldInt" | "i \<noteq> TickInt" "i \<noteq> YieldInt" by blast
  then show ?thesis
  proof cases
    case 1
    then show ?thesis by (intro qstep_kernel [OF assms(1), of Tick]) (simp_all add: on_kernel_def)
  next
    case 2
    then show ?thesis using assms(2) by (intro qstep_kernel [OF assms(1), of YieldISR]) (simp_all add: on_kernel_def)
  next
    case 3
    note sys = os_sysD [OF assms(1)]
    obtain s' a' where r: "intr_exec i s = Some s'" "os_core Q (lists_of Q G) T idle s' a'" "woke (kern s) a (kern s') a'" "stays Q s s' (spec_intr i)"
      using queue_int_ok [OF sys(1) assms(2) 3] by blast
    have v: "same_sizes s s'" "view Q s' = spec_intr i (view Q s)" using r(4) sys(5) by (simp_all add: stays_def)
    have "os_sys T idle G (Q, s') a' bs" by (rule woke_sys [OF assms(1) r(2,3) v(1)])
    then show ?thesis unfolding qstep_ok_def using r(1) v(2) by auto
  qed
qed

text \<open>The calls pass their entry assertions.\<close>

lemma entries_pass:
  assumes "os_sys T idle G (Q, s) a bs" and "q \<in> Q" and "ticks = 0 \<or> uxSchedulerSuspended (kern s) = 0"
  shows "sendable (queue s q) n p \<Longrightarrow> send_entry q (Some d) ticks p s = Some ()"
    and "size_of (queue s q) = 0 \<Longrightarrow> send_entry q None ticks queueSEND_TO_BACK s = Some ()"
    and "receive_entry q (Some d) ticks s = Some ()" and "size_of (queue s q) = 0 \<Longrightarrow> take_entry q ticks s = Some ()"
proof -
  have "q \<noteq> 0" using os_coreD(3) [OF os_sysD(1) [OF assms(1)] assms(2)] by (simp add: queue_in_def)
  moreover have "may_block ticks s" using assms(3) by (auto simp: may_block_def xTaskGetSchedulerState_def)
  ultimately show "sendable (queue s q) n p \<Longrightarrow> send_entry q (Some d) ticks p s = Some ()"
    and "size_of (queue s q) = 0 \<Longrightarrow> send_entry q None ticks queueSEND_TO_BACK s = Some ()"
    and "receive_entry q (Some d) ticks s = Some ()" and "size_of (queue s q) = 0 \<Longrightarrow> take_entry q ticks s = Some ()"
    using code_sizes(1,2) [of "queue s q"] by (auto simp: send_entry_def receive_entry_def take_entry_def sendable_def queueSEND_TO_BACK_def queueOVERWRITE_def)
qed

lemma put_step:
  assumes "os_sys T idle G (Q, s) a bs" and "q \<in> Q" and "sendable (queue s q) (length d) p"
    and "qexec y (Q, s) = do { (r, s) \<leftarrow> send_attempt q (Some d) ticks p s; Some (Q, s) }" and "\<And>m. spec_step y m (on_fifo q (fifo_put d p) m)"
  shows "qstep_ok T idle G y (Q, s)"
proof (cases "has_room (queue s q) p")
  case True
  obtain s' a' where r: "send_attempt q (Some d) ticks p s = Some (Some True, s')" "os_core Q (lists_of Q G) T idle s' a'" "woke (kern s) a (kern s') a'"
    "contents q s' = put p (take (size_of (queue s q)) d) (contents q s)" "only_queue q s s'"
    using send_attempt_ok [OF os_sysD(1) [OF assms(1)] assms(2,3) True] by blast
  have "qexec y (Q, s) = Some (Q, s')" using r(1) assms(4) by simp
  from qstep_queue [OF assms(1,2) this r(2,3,5) fifo_of_put [OF r(5) True r(4)] assms(5)] show ?thesis .
next
  case False
  have "qexec y (Q, s) = Some (Q, s)" using send_attempt_full [OF False] assms(4) by simp
  from qstep_queue [OF assms(1,2) this os_sysD(1) [OF assms(1)] woke_refl only_queue_refl fifo_of_full [OF False, symmetric] assms(5)]
  show ?thesis .
qed

lemma give_code: "size_of (queue s q) = 0 \<Longrightarrow> send_attempt q None ticks p s = send_attempt q (Some []) ticks p s"
  using code_sizes(1) [of "queue s q"] by (simp add: send_attempt_def prvCopyDataToQueue_def Let_def)

lemma qstep_receive:
  assumes "os_sys T idle G (Q, s) a bs" and "q \<in> Q" and "size_of (queue s q) \<le> length d" and "ticks = 0 \<or> uxSchedulerSuspended (kern s) = 0"
  shows "qstep_ok T idle G (Receive q d ticks) (Q, s)"
proof (cases "count_of (queue s q) = 0")
  case False
  obtain s' a' where r: "receive_attempt q (Some d) ticks s = Some (Some True, Some (into (hd (contents q s)) d), s')" "os_core Q (lists_of Q G) T idle s' a'"
    "woke (kern s) a (kern s') a'" "contents q s' = tl (contents q s)" "only_queue q s s'"
    using receive_attempt_ok [OF os_sysD(1) [OF assms(1)] assms(2) False assms(3)] by blast
  from qstep_queue [where f = fifo_drop, OF assms(1,2) _ r(2,3,5) fifo_of_drop [OF r(5,4)]] show ?thesis by (simp add: r(1) entries_pass(3) [OF assms(1,2,4)])
next
  case True
  from qstep_queue [where f = fifo_drop, OF assms(1,2) _ os_sysD(1) [OF assms(1)] woke_refl only_queue_refl fifo_of_empty [OF True, symmetric]]
  show ?thesis by (simp add: empty_attempts [OF True] entries_pass(3) [OF assms(1,2,4)])
qed

lemma qstep_peek:
  assumes "os_sys T idle G (Q, s) a bs" and "q \<in> Q" and "size_of (queue s q) \<le> length d" and "ticks = 0 \<or> uxSchedulerSuspended (kern s) = 0"
  shows "qstep_ok T idle G (Peek q d ticks) (Q, s)"
proof (cases "count_of (queue s q) = 0")
  case False
  obtain s' a' where r: "peek_attempt q (Some d) ticks s = Some (Some True, Some (into (hd (contents q s)) d), s')" "os_core Q (lists_of Q G) T idle s' a'"
    "woke (kern s) a (kern s') a'" "contents q s' = contents q s" "only_queue q s s'"
    using peek_attempt_ok [OF os_sysD(1) [OF assms(1)] assms(2) False assms(3)] by blast
  have "on_fifo q (\<lambda>f. f) m = m" for m by (rule on_fifo_id)
  with qstep_queue [where f = "\<lambda>f. f", OF assms(1,2) _ r(2,3,5) fifo_of_same [OF r(5,4)]] show ?thesis by (simp add: r(1) entries_pass(3) [OF assms(1,2,4)])
next
  case True
  then show ?thesis by (intro qstep_id [OF assms(1)]) (simp_all add: empty_attempts [OF True] entries_pass(3) [OF assms(1,2,4)])
qed

lemma qstep_take:
  assumes "os_sys T idle G (Q, s) a bs" and "q \<in> Q" and "size_of (queue s q) = 0" and "ticks = 0 \<or> uxSchedulerSuspended (kern s) = 0"
  shows "qstep_ok T idle G (Take q ticks) (Q, s)"
proof (cases "count_of (queue s q) = 0")
  case False
  obtain s' a' where r: "take_attempt q ticks s = Some (Some True, s')" "os_core Q (lists_of Q G) T idle s' a'"
    "woke (kern s) a (kern s') a'" "count_of (queue s' q) = count_of (queue s q) - 1" "only_queue q s s'"
    using take_attempt_ok [OF os_sysD(1) [OF assms(1)] assms(2) False assms(3)] by blast
  have l: "0 < length_of (queue s q)" using os_coreD(3) [OF os_sysD(1) [OF assms(1)] assms(2)] by (simp add: queue_in_def queue_ok_def)
  have "contents q s' = tl (contents q s)"
    using contents_empty_items [OF assms(3) l] contents_empty_items [of s' q] assms(3) l r(4,5) by (simp add: only_queue_def tl_replicate)
  from qstep_queue [where f = fifo_drop, OF assms(1,2) _ r(2,3,5) fifo_of_drop [OF r(5) this]] show ?thesis by (simp add: r(1) entries_pass(4) [OF assms(1,2,4,3)])
next
  case True
  from qstep_queue [where f = fifo_drop, OF assms(1,2) _ os_sysD(1) [OF assms(1)] woke_refl only_queue_refl fifo_of_empty [OF True, symmetric]]
  show ?thesis by (simp add: empty_attempts [OF True] entries_pass(4) [OF assms(1,2,4,3)])
qed

lemma wait_step:
  assumes "os_sys T idle G (Q, s) a bs" and "\<not> swi (kern s)" and "uxSchedulerSuspended (kern s) = 0" and "pxCurrentTCB (kern s) \<noteq> idle" and "q \<in> Q"
    and "e = q + 16 \<or> e = q + 36"
    and "qexec y (Q, s) = map_option (\<lambda>(x, i, t, d, s). (Q, s)) (wait_section (interrupted Q is1 is2) 0 q blocked (\<lambda>i s. Some (i, s)) (EventList e) False t ticks s)"
    and "\<And>m js. js \<in> {is1, is1 @ is2} \<Longrightarrow> spec_step y m (fold spec_intr js m)"
  shows "qstep_ok T idle G y (Q, s)"
proof -
  note sys = os_sysD [OF assms(1)]
  have rd: "is_ready a (pxCurrentTCB (kern s))" using sys(3) assms(2) by blast
  have env: "interrupted Q is1 is2 0 = during Q is1" "interrupted Q is1 is2 (0 + 1) = during Q is2" by (simp_all add: interrupted_def fun_eq_iff)
  obtain expired t' d' s' a' js where r: "wait_section (interrupted Q is1 is2) 0 q blocked (\<lambda>i s. Some (i, s)) (EventList e) False t ticks s = Some (expired, False, t', d', s')"
      "os_core Q (lists_of Q G) T idle s' a'" "uxSchedulerSuspended (kern s') = 0" "preemptive (kern s') a'"
      "swi (kern s') \<or> is_ready a' (pxCurrentTCB (kern s'))" "js \<in> {is1, is1 @ is2}" "stays Q s s' (fold spec_intr js)"
    using wait_section_ok [OF sys(1) assms(3) sys(2) rd assms(4,5,6) env] by blast
  have v: "same_sizes s s'" "view Q s' = fold spec_intr js (view Q s)" using r(7) sys(5) by (simp_all add: stays_def)
  have "os_sys T idle G (Q, s') a' bs" using r(2-5) stored_sizes [OF sys(4) v(1)] by (auto simp: os_sys_def)
  then show ?thesis unfolding qstep_ok_def using r(1) v(2) assms(7) assms(8) [OF r(6)] by auto
qed

lemma new_sys:
  assumes "os_sys T idle G (Q, s) a bs" and "os_core Q' (lists_of Q' G') T idle s' a'" and "stored Q' G' s' bs'" and "kern s' = (kern s)\<lparr>lists := l\<rparr>" and "holder a' = holder a"
  shows "os_sys T idle G' (Q', s') a' bs'"
  using assms by (auto simp: os_sys_def preemptive_def is_ready_def)

lemma qstep_create:
  assumes "os_sys T idle G (Q, s) a bs" and "creatable_queue n z"
  shows "qstep_ok T idle G (Create n z) (Q, s)"
proof -
  note sys = os_sysD [OF assms(1)]
  from create_ok [OF sys(1,4) assms(2)] obtain q s' a' bs' where c: "xQueueGenericCreate n z s = Some (q, s')"
    "if q = 0 then kern s' = kern s \<and> queue s' = queue s \<and> os_core Q (lists_of Q G) T idle s' a \<and> stored Q G s' bs' \<and> view Q s' = view Q s
       else q \<notin> Q \<and> os_core (insert q Q) (lists_of (insert q Q) G) T idle s' a' \<and> stored (insert q Q) G s' bs'
         \<and> view (insert q Q) s' = (view Q s)(q \<mapsto> \<lparr>cap = unat n, width = unat z, held = []\<rparr>)
         \<and> (\<exists>l. kern s' = (kern s)\<lparr>lists := l\<rparr>) \<and> holder a' = holder a \<and> queue s' q = new_queue q n z"
    by blast
  show ?thesis
  proof (cases "q = 0")
    case True
    then have e: "kern s' = (kern s)\<lparr>lists := lists (kern s)\<rparr>" "os_core Q (lists_of Q G) T idle s' a" "stored Q G s' bs'" "view Q s' = view Q s" using c(2) by simp_all
    from new_sys [OF assms(1) e(2,3,1) refl] e(4) c(1) True show ?thesis unfolding qstep_ok_def by (auto simp: with_new_def)
  next
    case False
    then obtain l where e: "kern s' = (kern s)\<lparr>lists := l\<rparr>" "os_core (insert q Q) (lists_of (insert q Q) G) T idle s' a'" "stored (insert q Q) G s' bs'"
      "holder a' = holder a" "q \<notin> Q" "view (insert q Q) s' = (view Q s)(q \<mapsto> \<lparr>cap = unat n, width = unat z, held = []\<rparr>)" using c(2) by auto
    have "view Q s q = None" using e(5) by (simp add: view_def)
    then have "spec_step (Create n z) (view Q s) (view (insert q Q) s')" using e(6) by auto
    then show ?thesis using new_sys [OF assms(1) e(2,3,1,4)] c(1) False unfolding qstep_ok_def by (auto simp: with_new_def)
  qed
qed

lemma qstep_create_counting:
  assumes "os_sys T idle G (Q, s) a bs" and "creatable_queue n 0" and "n \<noteq> 0" and "c \<le> n"
  shows "qstep_ok T idle G (CreateCounting n c) (Q, s)"
proof -
  note sys = os_sysD [OF assms(1)]
  from create_ok [OF sys(1,4) assms(2)] obtain q s' a' bs' where c: "xQueueGenericCreate n 0 s = Some (q, s')"
    "if q = 0 then kern s' = kern s \<and> queue s' = queue s \<and> os_core Q (lists_of Q G) T idle s' a \<and> stored Q G s' bs' \<and> view Q s' = view Q s
       else q \<notin> Q \<and> os_core (insert q Q) (lists_of (insert q Q) G) T idle s' a' \<and> stored (insert q Q) G s' bs'
         \<and> view (insert q Q) s' = (view Q s)(q \<mapsto> \<lparr>cap = unat n, width = unat (0 :: u32), held = []\<rparr>)
         \<and> (\<exists>l. kern s' = (kern s)\<lparr>lists := l\<rparr>) \<and> holder a' = holder a \<and> queue s' q = new_queue q n 0"
    by blast
  show ?thesis
  proof (cases "q = 0")
    case True
    then have e: "kern s' = (kern s)\<lparr>lists := lists (kern s)\<rparr>" "os_core Q (lists_of Q G) T idle s' a" "stored Q G s' bs'" "view Q s' = view Q s" using c(2) by simp_all
    from new_sys [OF assms(1) e(2,3,1) refl] e(4) c(1) True assms(3,4) show ?thesis
      unfolding qstep_ok_def by (auto simp: with_new_def xQueueCreateCountingSemaphore_def)
  next
    case False
    then obtain l where e: "kern s' = (kern s)\<lparr>lists := l\<rparr>" "os_core (insert q Q) (lists_of (insert q Q) G) T idle s' a'" "stored (insert q Q) G s' bs'"
      "holder a' = holder a" "q \<notin> Q" "view (insert q Q) s' = (view Q s)(q \<mapsto> \<lparr>cap = unat n, width = 0, held = []\<rparr>)" "queue s' q = new_queue q n 0" using c(2) by auto
    define s2 where "s2 = upd_queue q (\<lambda>x. x\<lparr>uxMessagesWaiting := c\<rparr>) s'"
    have x: "size_of (queue s' q) = 0" "length_of (queue s' q) = unat n"
      by (simp_all add: e(7) new_queue_def Let_def size_of_def length_of_def)
    have le: "unat c \<le> length_of (queue s' q)" using assms(4) x by (simp add: word_le_nat_alt)
    have ins: "q \<in> insert q Q" by simp
    note ch = count_change [OF e(2) ins x(1) le, folded s2_def]
    have n0: "0 < unat n" using assms(3) by (simp add: unat_gt_0)
    have "contents q s2 = replicate (unat c) []"
      using contents_empty_items [of s2 q] x ch(2,4) n0 by (simp add: only_queue_def)
    then have f: "fifo_of q s2 = (fifo_of q s')\<lparr>held := replicate (unat c) []\<rparr>" using ch(2) by (simp add: fifo_of_def only_queue_def)
    have "\<forall>r \<in> insert q Q. queue_ok (queue s' r)" using os_coreD(3) [OF e(2)] by (simp add: queue_in_def)
    from only_queue_view [where f = "\<lambda>f. f\<lparr>held := replicate (unat c) []\<rparr>", OF ch(2) stored_apart [OF e(3)] ins this f]
    have "view (insert q Q) s2 = (view Q s)(q \<mapsto> \<lparr>cap = unat n, width = 0, held = replicate (unat c) []\<rparr>)" by (simp add: on_fifo_def e(6))
    moreover have "view Q s q = None" using e(5) by (simp add: view_def)
    ultimately have "spec_step (CreateCounting n c) (view Q s) (view (insert q Q) s2)" by auto
    moreover have "stored (insert q Q) G s2 bs'" by (rule stored_sizes [OF e(3) only_queue_sizes [OF ch(2)]])
    moreover have "kern s2 = (kern s)\<lparr>lists := l\<rparr>" using ch(3) e(1) by simp
    moreover have "qexec (CreateCounting n c) (Q, s) = Some (insert q Q, s2)"
      using c(1) False assms(3,4) by (simp add: xQueueCreateCountingSemaphore_def with_new_def s2_def)
    ultimately have "os_sys T idle G (insert q Q, s2) a' bs'" "qexec (CreateCounting n c) (Q, s) = Some (insert q Q, s2)"
        "spec_step (CreateCounting n c) (view Q s) (view (insert q Q) s2)"
      using new_sys [OF assms(1) ch(1) _ _ e(4)] by blast+
    then show ?thesis unfolding qstep_ok_def fst_conv snd_conv by (metis fst_conv snd_conv)
  qed
qed

lemma qstep_keeps:
  assumes "os_sys T idle G x a bs" and "qallowed T idle y x"
  shows "qstep_ok T idle G y x"
proof -
  obtain Q s where x: "x = (Q, s)" by (cases x)
  note sys = assms(1) [unfolded x] and al = assms(2) [unfolded x]
  show ?thesis unfolding x
  proof (cases y)
    case (Kernel z)
    show "qstep_ok T idle G y (Q, s)" using al unfolding Kernel by (intro qstep_kernel [OF sys, of z]) simp_all
  next
    case (Interrupt i)
    show "qstep_ok T idle G y (Q, s)" using al qstep_interrupt [OF sys] unfolding Interrupt by simp
  next
    case (Send q d ticks p)
    have "send_entry q (Some d) ticks p s = Some ()" using al entries_pass(1) [OF sys, of q ticks "length d" p d] unfolding Send by simp
    then show "qstep_ok T idle G y (Q, s)" using al unfolding Send by (intro put_step [where ticks = ticks, OF sys]) simp_all
  next
    case (Give q)
    have z: "q \<in> Q" "size_of (queue s q) = 0" using al unfolding Give by simp_all
    moreover note entries_pass(2) [OF sys z(1) disjI1 [OF refl] z(2)]
    ultimately show "qstep_ok T idle G y (Q, s)" unfolding Give
      by (intro put_step [where d = "[]" and p = queueSEND_TO_BACK and ticks = 0, OF sys])
         (simp_all add: give_code sendable_def queueSEND_TO_BACK_def queueOVERWRITE_def)
  next
    case (Receive q d ticks)
    show "qstep_ok T idle G y (Q, s)" using al qstep_receive [OF sys] unfolding Receive by simp
  next
    case (Peek q d ticks)
    show "qstep_ok T idle G y (Q, s)" using al qstep_peek [OF sys] unfolding Peek by simp
  next
    case (Take q ticks)
    show "qstep_ok T idle G y (Q, s)" using al qstep_take [OF sys] unfolding Take by simp
  next
    case (WaitSend q t ticks is1 is2)
    show "qstep_ok T idle G y (Q, s)" using al unfolding WaitSend
      by (intro wait_step [where e = "q + 16" and q = q, OF sys]) (auto simp: xTasksWaitingToSend_def)
  next
    case (WaitReceive q t ticks is1 is2)
    show "qstep_ok T idle G y (Q, s)" using al unfolding WaitReceive
      by (intro wait_step [where e = "q + 36" and q = q, OF sys]) (auto simp: xTasksWaitingToReceive_def)
  next
    case (Create n z)
    show "qstep_ok T idle G y (Q, s)" using al qstep_create [OF sys] unfolding Create by simp
  next
    case (CreateCounting n c)
    show "qstep_ok T idle G y (Q, s)" using al qstep_create_counting [OF sys] unfolding CreateCounting by simp
  qed
qed

lemma qreach_ok: "qreach T idle x0 x \<Longrightarrow> os_sys T idle G x0 a0 bs0 \<Longrightarrow> \<exists>a bs. os_sys T idle G x a bs"
proof (induction rule: qreach.induct)
  case (qstep x y x')
  then obtain a bs where "os_sys T idle G x a bs" by blast
  from qstep_keeps [OF this qstep.hyps(2)] qstep.hyps(3) show ?case by (auto simp: qstep_ok_def)
qed blast

end
