(* ===== verification/EventGroupOps.thy ===== *)
theory EventGroupOps
  imports EventGroups QueueRun
begin

text \<open>
  Event groups over the scheduler's invariant: what releasing the tasks that wait for bits does, the loop
  over the waiting tasks, going to wait, and each call as a whole.
\<close>

section \<open>Releasing tasks\<close>

text \<open>
  The tasks of \<open>D\<close> left their event list and are on the ready lists, each with the value \<open>v\<close> in its event
  item; nothing else changed.
\<close>

definition released :: "u32 set \<Rightarrow> (task \<Rightarrow> bool) \<Rightarrow> u32 \<Rightarrow> kernel \<Rightarrow> (item_id, list_id) alists \<Rightarrow> kernel \<Rightarrow> (item_id, list_id) alists \<Rightarrow> bool" where
  "released E D v k a k' a' \<longleftrightarrow> holder a' = woken D k (holder a)
     \<and> itemval a' = (\<lambda>i. if i = EventItem (task_of i) \<and> D (task_of i) then or v taskEVENT_LIST_ITEM_VALUE_IN_USE else itemval a i)
     \<and> (\<forall>f \<in> E. elems a' (EventList f) = filter (\<lambda>i. \<not> D (task_of i)) (elems a (EventList f)))
     \<and> tcb k' = tcb k \<and> pxCurrentTCB k' = pxCurrentTCB k \<and> xTickCount k' = xTickCount k \<and> swi k' = swi k
     \<and> xPendedTicks k' = xPendedTicks k \<and> uxSchedulerSuspended k' = uxSchedulerSuspended k
     \<and> uxCurrentNumberOfTasks k' = uxCurrentNumberOfTasks k
     \<and> (xYieldPending k' \<longleftrightarrow> xYieldPending k \<or> (\<exists>t. D t \<and> uxPriority (tcb k (pxCurrentTCB k)) < uxPriority (tcb k t)))"

lemma released_none: "released E (\<lambda>t. False) v k a k a"
  by (simp add: released_def woken_none)

lemma released_trans:
  assumes "released E D v k a k1 a1" and "released E D' v k1 a1 k2 a2"
  shows "released E (\<lambda>t. D t \<or> D' t) v k a k2 a2"
proof -
  note r1 = assms(1) [unfolded released_def] and r2 = assms(2) [unfolded released_def]
  have t: "tcb k1 = tcb k" using r1 by blast
  have "holder a2 = woken (\<lambda>t. D t \<or> D' t) k (holder a)" using r1 r2 woken_woken [OF t] by simp
  moreover have "itemval a2 = (\<lambda>i. if i = EventItem (task_of i) \<and> (D (task_of i) \<or> D' (task_of i)) then or v taskEVENT_LIST_ITEM_VALUE_IN_USE else itemval a i)"
  proof -
    have "itemval a1 = (\<lambda>i. if i = EventItem (task_of i) \<and> D (task_of i) then or v taskEVENT_LIST_ITEM_VALUE_IN_USE else itemval a i)"
      "itemval a2 = (\<lambda>i. if i = EventItem (task_of i) \<and> D' (task_of i) then or v taskEVENT_LIST_ITEM_VALUE_IN_USE else itemval a1 i)"
      using r1 r2 by blast+
    then show ?thesis by auto
  qed
  moreover have "\<forall>f \<in> E. elems a2 (EventList f) = filter (\<lambda>i. \<not> (D (task_of i) \<or> D' (task_of i))) (elems a (EventList f))"
    using r1 r2 by (simp add: conj_commute)
  moreover have "xYieldPending k2 \<longleftrightarrow> xYieldPending k \<or> (\<exists>t. (D t \<or> D' t) \<and> uxPriority (tcb k (pxCurrentTCB k)) < uxPriority (tcb k t))"
    using r1 r2 t by metis
  ultimately show ?thesis using r1 r2 by (simp add: released_def)
qed

lemma unordered_wakes:
  assumes "kernel_core E T idle k a" and "uxSchedulerSuspended k \<noteq> 0" and "holder a (EventItem t) = Some (EventList e)"
  shows "\<exists>k' a'. vTaskRemoveFromUnorderedEventList (EventItem t) v k = Some k' \<and> kernel_core E T idle k' a' \<and> released E (\<lambda>u. u = t) v k a k' a'"
proof -
  note core = kernel_coreD [OF assms(1)]
  have t: "t \<in> T" using base_home(2) [OF core(2) assms(3)] by simp
  obtain m where m: "m \<in> insert SuspendedTaskList sleeping" "holder a (StateItem t) = Some m"
    using core(5) assms(3) unfolding waits_ok_def by blast
  have mn: "m \<noteq> EventList f" "m \<noteq> PendingReadyList" "m \<noteq> Ready p" for f p using m(1) by (auto simp: sleeping_def)
  define k0 where "k0 = set_value (EventItem t) (or v taskEVENT_LIST_ITEM_VALUE_IN_USE) k"
  define a0 where "a0 = a_set_value (EventItem t) (or v taskEVENT_LIST_ITEM_VALUE_IN_USE) a"
  have b0: "kernel_base E T k0 a0" unfolding k0_def a0_def
    by (rule set_value_base [OF core(2)]) (use assms(3) in \<open>auto simp: sleeping_def\<close>)
  have h0: "holder a0 (EventItem t) = Some (EventList e)" by (simp add: a0_def assms(3))
  define a1 where "a1 = a_remove (EventItem t) a0"
  obtain s1 where s1: "on_lists (listREMOVE_ITEM (EventItem t)) k0 = Some (k0\<lparr>lists := s1\<rparr>)" "kernel_base E T (k0\<lparr>lists := s1\<rparr>) a1"
    using remove_base [OF b0 h0] unfolding a1_def by blast
  have h1: "holder a1 (StateItem t) = Some m" by (simp add: a1_def a0_def m(2))
  define a2 where "a2 = a_remove (StateItem t) a1"
  obtain s2 where s2: "on_lists (listREMOVE_ITEM (StateItem t)) (k0\<lparr>lists := s1\<rparr>) = Some (k0\<lparr>lists := s2\<rparr>)" "kernel_base E T (k0\<lparr>lists := s2\<rparr>) a2"
    using remove_base [OF s1(2) h1] mn unfolding a2_def by auto
  have h2: "holder a2 (StateItem t) = None" by (simp add: a2_def)
  define p where "p = uxPriority (tcb k t)"
  define w where "w = portRECORD_READY_PRIORITY p (uxTopReadyPriority k)"
  define a3 where "a3 = a_insert_end (Ready p) (StateItem t) a2"
  have f0: "tcb k0 = tcb k" "uxTopReadyPriority k0 = uxTopReadyPriority k" by (simp_all add: k0_def set_value_def)
  obtain s3 where s3: "prvAddTaskToReadyList t (k0\<lparr>lists := s2\<rparr>) = Some (k0\<lparr>lists := s3, uxTopReadyPriority := w\<rparr>)"
      "kernel_base E T (k0\<lparr>lists := s3, uxTopReadyPriority := w\<rparr>) a3"
    using add_ready_base [OF s2(2) t h2] f0 unfolding w_def a3_def p_def by auto
  define k3 where "k3 = k0\<lparr>lists := s3, uxTopReadyPriority := w\<rparr>"
  define y where "y \<longleftrightarrow> uxPriority (tcb k (pxCurrentTCB k)) < uxPriority (tcb k t)"
  define k' where "k' = (if y then k3\<lparr>xYieldPending := True\<rparr> else k3)"
  have k3e: "k3 = k\<lparr>lists := s3, uxTopReadyPriority := w\<rparr>" by (simp add: k3_def k0_def set_value_def)
  have h3: "holder a3 = (holder a)(EventItem t := None, StateItem t := Some (Ready p))"
      "itemval a3 = (itemval a)(EventItem t := or v taskEVENT_LIST_ITEM_VALUE_IN_USE)"
    by (auto simp: a3_def a2_def a1_def a0_def)
  have e3: "elems a3 (EventList f) = filter (\<lambda>i. task_of i \<noteq> t) (elems a (EventList f))" if f: "f \<in> E" for f
  proof -
    have m3: "set (elems a (EventList f)) = {i. holder a i = Some (EventList f)}" using elems_holder [OF core(2), of "EventList f"] f by auto
    have ev: "task_of i \<noteq> t \<longleftrightarrow> i \<noteq> EventItem t" if "i \<in> set (elems a (EventList f))" for i
      using that m3 event_item [OF core(2), of i f] by (metis mem_Collect_eq task_of.simps(2))
    have "filter (\<lambda>i. task_of i \<noteq> t) (elems a (EventList f)) = filter (\<lambda>i. i \<noteq> EventItem t) (elems a (EventList f))"
      by (rule filter_cong [OF refl ev])
    moreover have "filter (\<lambda>i. i \<noteq> EventItem t) (elems a (EventList f)) = elems a (EventList f)" if "f \<noteq> e"
      using that m3 assms(3) by (metis (mono_tags, lifting) filter_True list_id.inject(2) mem_Collect_eq option.inject)
    moreover have "elems a3 (EventList f) = (if f = e then filter (\<lambda>i. i \<noteq> EventItem t) (elems a (EventList f)) else elems a (EventList f))"
      using assms(3) mn(1) m(2) by (simp add: a3_def a2_def a1_def a0_def elems_insert_other elems_remove)
    ultimately show ?thesis by simp
  qed
  have w3: "holder a3 = woken (\<lambda>u. u = t) k (holder a)"
  proof
    fix i show "holder a3 i = woken (\<lambda>u. u = t) k (holder a) i" by (cases i) (auto simp: h3 p_def)
  qed
  have sl: "holder a3 j = Some l \<longleftrightarrow> j \<noteq> StateItem t \<and> holder a j = Some l" if "l \<in> sleeping" for j l
    using that assms(3) unfolding h3 by (auto simp: sleeping_def)
  have "itemval a3 j = itemval a j" if "holder a j = Some l" "l \<in> sleeping" for j l
    using that assms(3) by (auto simp: h3 sleeping_def)
  then have tm: "times_ok k3 a3" using core(3) delayed_sleeping(1,2) [OF core(2)] sl unfolding times_ok_def by (simp add: k3e)
  have wt: "waits_ok a3" using core(5) by (auto simp: waits_ok_def h3)
  have rd: "is_ready a3 u" if "is_ready a u" for u using that by (auto simp: is_ready_def h3)
  have "kernel_core E T idle k3 a3"
    using s3(2) tm wt rd [OF core(6)] core(7,8) assms(2) by (simp add: kernel_core_def kernel_inv_def settled_def k3e k0_def set_value_def)
  then have kc: "kernel_core E T idle k' a3" by (simp add: k'_def)
  have code: "vTaskRemoveFromUnorderedEventList (EventItem t) v k = Some k'"
  proof -
    have tok: "tasks_ok T k0" "tasks_ok T k3" using kernel_baseD(2) [OF b0] kernel_baseD(2) [OF s3(2)] by (simp_all add: k3_def)
    have o: "pvOwner (item (lists k0) (EventItem t)) = Some t" using tasks_okD(4) [OF tok(1), of "EventItem t"] t by simp
    have "TCB t k3 = Some (tcb k t)" "TCB (pxCurrentTCB k3) k3 = Some (tcb k (pxCurrentTCB k))"
      using TCB_task [OF tok(2) t] TCB_task [OF tok(2) tasks_okD(1) [OF tok(2)]] by (simp_all add: k3e)
    then show ?thesis using assms(2) o tasks_okD(2) [OF tok(1) t] s1(1) s2(1) s3(1)
      by (simp add: vTaskRemoveFromUnorderedEventList_def Let_def k0_def [symmetric] k3_def [symmetric] k'_def y_def)
  qed
  have "itemval a3 = (\<lambda>i. if i = EventItem (task_of i) \<and> task_of i = t then or v taskEVENT_LIST_ITEM_VALUE_IN_USE else itemval a i)"
    by (auto simp: h3 fun_eq_iff)
  then have "released E (\<lambda>u. u = t) v k a k' a3"
    using w3 e3 unfolding released_def by (simp add: k'_def k3e y_def)
  then show ?thesis using code kc by blast
qed

section \<open>Bits as sets\<close>

text \<open>
  The abstract view of an event group is the set of its bits; of a waiting task, the set of bits it waits
  for, whether it needs all of them, and whether they are cleared when it leaves.
\<close>

definition bitset :: "u32 \<Rightarrow> nat set" where
  "bitset w = {n. n < 24 \<and> bit w n}"

definition needs_all :: "u32 \<Rightarrow> bool" where "needs_all w \<longleftrightarrow> bit w 26"
definition clears :: "u32 \<Rightarrow> bool" where "clears w \<longleftrightarrow> bit w 24"

definition satisfied :: "nat set \<Rightarrow> u32 \<Rightarrow> bool" where
  "satisfied B w \<longleftrightarrow> (if needs_all w then bitset w \<subseteq> B else bitset w \<inter> B \<noteq> {})"

lemma bit_control: "bit eventEVENT_BITS_CONTROL_BYTES n \<longleftrightarrow> 24 \<le> n \<and> n < 32"
proof -
  have "eventEVENT_BITS_CONTROL_BYTES = push_bit 24 (mask 8)" by (simp add: eventEVENT_BITS_CONTROL_BYTES_def mask_eq_exp_minus_1)
  moreover have "bit (push_bit 24 (mask 8) :: u32) n \<longleftrightarrow> n < 32 \<and> 24 \<le> n \<and> n - 24 < 8"
    unfolding bit_push_bit_iff bit_mask_iff by auto
  ultimately show ?thesis by auto
qed

lemma single_bits:
  "eventCLEAR_EVENTS_ON_EXIT_BIT = push_bit 24 1" "eventUNBLOCKED_DUE_TO_BIT_SET = push_bit 25 1"
  "eventWAIT_FOR_ALL_BITS = push_bit 26 1" "taskEVENT_LIST_ITEM_VALUE_IN_USE = push_bit 31 1"
  by (simp_all add: eventCLEAR_EVENTS_ON_EXIT_BIT_def eventUNBLOCKED_DUE_TO_BIT_SET_def eventWAIT_FOR_ALL_BITS_def taskEVENT_LIST_ITEM_VALUE_IN_USE_def)

lemma bit_flag: "bit eventCLEAR_EVENTS_ON_EXIT_BIT n \<longleftrightarrow> n = 24" "bit eventUNBLOCKED_DUE_TO_BIT_SET n \<longleftrightarrow> n = 25"
  "bit eventWAIT_FOR_ALL_BITS n \<longleftrightarrow> n = 26" "bit taskEVENT_LIST_ITEM_VALUE_IN_USE n \<longleftrightarrow> n = 31"
  unfolding single_bits bit_mask by auto

lemma bit_u32: "bit (w :: u32) n \<Longrightarrow> n < 32"
  using bit_imp_le_length by fastforce

lemma zero_bits: "(w :: u32) = 0 \<longleftrightarrow> (\<forall>n. \<not> bit w n)"
  using bit_eqI [of w 0] by auto

lemma bit_not_u32: "bit (not (w :: u32)) n \<longleftrightarrow> n < 32 \<and> \<not> bit w n"
  by (auto simp: bit_not_iff)

lemmas word_bits = bit_and_iff bit_or_iff bit_not_u32 bit_control bit_flag

text \<open>The test of the loop, on sets.\<close>

lemma match_code:
  "(if and (and w eventEVENT_BITS_CONTROL_BYTES) eventWAIT_FOR_ALL_BITS = 0
    then and (and w (not eventEVENT_BITS_CONTROL_BYTES)) bits \<noteq> 0
    else and (and w (not eventEVENT_BITS_CONTROL_BYTES)) bits = and w (not eventEVENT_BITS_CONTROL_BYTES))
   \<longleftrightarrow> satisfied {n. bit bits n} w"
proof -
  have "and (and w eventEVENT_BITS_CONTROL_BYTES) eventWAIT_FOR_ALL_BITS = 0 \<longleftrightarrow> \<not> needs_all w"
    by (auto simp: zero_bits word_bits needs_all_def dest: spec [of _ 26])
  moreover have "and (and w (not eventEVENT_BITS_CONTROL_BYTES)) bits \<noteq> 0 \<longleftrightarrow> bitset w \<inter> {n. bit bits n} \<noteq> {}"
    by (auto simp: zero_bits word_bits bitset_def disjoint_iff not_le dest: bit_u32)
  moreover have "and (and w (not eventEVENT_BITS_CONTROL_BYTES)) bits = and w (not eventEVENT_BITS_CONTROL_BYTES) \<longleftrightarrow> bitset w \<subseteq> {n. bit bits n}"
    by (auto simp: bit_eq_iff word_bits bitset_def subset_iff not_le dest: bit_u32)
  ultimately show ?thesis by (simp add: satisfied_def)
qed

lemma clear_code: "and (and w eventEVENT_BITS_CONTROL_BYTES) eventCLEAR_EVENTS_ON_EXIT_BIT \<noteq> 0 \<longleftrightarrow> clears w"
  by (auto simp: zero_bits word_bits clears_def)

lemma bit_waited: "bit (and w (not eventEVENT_BITS_CONTROL_BYTES)) n \<longleftrightarrow> n \<in> bitset w"
  by (auto simp: word_bits bitset_def dest: bit_u32)

section \<open>The loop over the waiting tasks\<close>

definition to_clear :: "u32 \<Rightarrow> (item_id \<Rightarrow> u32) \<Rightarrow> item_id \<Rightarrow> u32 \<Rightarrow> u32" where
  "to_clear bits val i c = (if satisfied {n. bit bits n} (val i) \<and> clears (val i)
     then or c (and (val i) (not eventEVENT_BITS_CONTROL_BYTES)) else c)"

lemma bit_to_clear: "bit (fold (to_clear bits val) zs c) n \<longleftrightarrow>
    bit c n \<or> (\<exists>i \<in> set zs. satisfied {n. bit bits n} (val i) \<and> clears (val i) \<and> n \<in> bitset (val i))"
  by (induction zs arbitrary: c) (auto simp: to_clear_def bit_or_iff bit_waited)

lemma set_bits_loop_ok:
  assumes "kernel_core E T idle k a" and "uxSchedulerSuspended k \<noteq> 0" and "e \<in> E" and "elems a (EventList e) = ys @ zs"
  shows "\<exists>k' a'. set_bits_loop bits (EventList e) (first_node zs (End (EventList e))) c k = Some (fold (to_clear bits (itemval a)) zs c, k')
    \<and> kernel_core E T idle k' a'
    \<and> released E (\<lambda>t. EventItem t \<in> set zs \<and> satisfied {n. bit bits n} (itemval a (EventItem t))) (or bits eventUNBLOCKED_DUE_TO_BIT_SET) k a k' a'"
  using assms
proof (induction zs arbitrary: ys c k a)
  case Nil
  have "set_bits_loop bits (EventList e) (End (EventList e)) c k = Some (c, k)" by (subst set_bits_loop.simps) simp
  then show ?case using Nil.prems(1) released_none [of E "or bits eventUNBLOCKED_DUE_TO_BIT_SET" k a] by auto
next
  case (Cons z zs)
  note core = kernel_coreD [OF Cons.prems(1)]
  have l: "EventList e \<in> kernel_lists E" using Cons.prems(3) by simp
  note rep = repD [OF kernel_baseD(1) [OF core(2)] l]
  have hz: "holder a z = Some (EventList e)" using rep(4) [of z] Cons.prems(4) by simp
  then have z: "z = EventItem (task_of z)" by (rule event_item [OF core(2)])
  have ds: "distinct (ys @ z # zs)" using rep(2) Cons.prems(4) by simp
  have "links (nx (lists k)) (pv (lists k)) (Item z) zs (End (EventList e))"
    using rep(1) Cons.prems(4) by (simp add: links_middle)
  then have "pxNext (item (lists k) z) = first_node zs (End (EventList e))"
    using links_split [of "nx (lists k)" "pv (lists k)" "Item z" "[]" zs "End (EventList e)"] by simp
  then have nxt: "get_next (lists k) (Item z) = Some (first_node zs (End (EventList e)))" using get_next.simps(2) [of "lists k" z] by metis
  note val = rep_item(1) [OF kernel_baseD(1) [OF core(2)]]
  define m where "m \<longleftrightarrow> satisfied {n. bit bits n} (itemval a z)"
  have code: "set_bits_loop bits (EventList e) (Item z) c k = (
     if m then vTaskRemoveFromUnorderedEventList z (or bits eventUNBLOCKED_DUE_TO_BIT_SET) k
         \<bind> set_bits_loop bits (EventList e) (first_node zs (End (EventList e))) (to_clear bits (itemval a) z c)
     else set_bits_loop bits (EventList e) (first_node zs (End (EventList e))) (to_clear bits (itemval a) z c) k)"
    by (subst set_bits_loop.simps) (simp add: nxt val Let_def match_code clear_code m_def [symmetric] to_clear_def)
  show ?case
  proof (cases m)
    case True
    have hz': "holder a (EventItem (task_of z)) = Some (EventList e)" using hz z by metis
    obtain k1 a1 where r1: "vTaskRemoveFromUnorderedEventList (EventItem (task_of z)) (or bits eventUNBLOCKED_DUE_TO_BIT_SET) k = Some k1"
        "kernel_core E T idle k1 a1" "released E (\<lambda>u. u = task_of z) (or bits eventUNBLOCKED_DUE_TO_BIT_SET) k a k1 a1"
      using unordered_wakes [OF Cons.prems(1,2) hz'] by blast
    have nz: "task_of i \<noteq> task_of z" if "i \<in> set (ys @ zs)" for i
    proof -
      have "holder a i = Some (EventList e)" using rep(4) [of i] Cons.prems(4) that by auto
      then have "i = EventItem (task_of i)" by (rule event_item [OF core(2)])
      then show ?thesis using z ds that by (metis Un_iff disjoint_insert(2) distinct.simps(2) distinct_append list.simps(15) set_append)
    qed
    have "filter (\<lambda>i. task_of i \<noteq> task_of z) (ys @ zs) = ys @ zs" using nz by (metis (mono_tags, lifting) filter_True)
    then have e1: "elems a1 (EventList e) = ys @ zs" using r1(3) Cons.prems(3,4) by (simp add: released_def)
    have v1: "itemval a1 i = itemval a i" if "i \<in> set zs" for i using r1(3) nz [of i] that by (simp add: released_def)
    have s1: "uxSchedulerSuspended k1 \<noteq> 0" using r1(3) Cons.prems(2) by (simp add: released_def)
    obtain k2 a2 where r2: "set_bits_loop bits (EventList e) (first_node zs (End (EventList e))) (to_clear bits (itemval a) z c) k1
          = Some (fold (to_clear bits (itemval a1)) zs (to_clear bits (itemval a) z c), k2)" "kernel_core E T idle k2 a2"
        "released E (\<lambda>t. EventItem t \<in> set zs \<and> satisfied {n. bit bits n} (itemval a1 (EventItem t))) (or bits eventUNBLOCKED_DUE_TO_BIT_SET) k1 a1 k2 a2"
      using Cons.IH [OF r1(2) s1 Cons.prems(3) e1] by blast
    have f: "fold (to_clear bits (itemval a1)) zs x = fold (to_clear bits (itemval a)) zs x" for x
      by (rule fold_cong) (auto simp: to_clear_def v1 fun_eq_iff)
    have "released E (\<lambda>t. EventItem t \<in> set (z # zs) \<and> satisfied {n. bit bits n} (itemval a (EventItem t))) (or bits eventUNBLOCKED_DUE_TO_BIT_SET) k a k2 a2"
    proof -
      have "(t = task_of z \<or> EventItem t \<in> set zs \<and> satisfied {n. bit bits n} (itemval a1 (EventItem t)))
          \<longleftrightarrow> EventItem t \<in> set (z # zs) \<and> satisfied {n. bit bits n} (itemval a (EventItem t))" for t
        using True z v1 unfolding m_def by (metis list.set_intros(1) list.set_intros(2) set_ConsD task_of.simps(2))
      then show ?thesis using released_trans [OF r1(3) r2(3)] by simp
    qed
    then show ?thesis using code True r1(1) r2(1,2) z f by (intro exI [of _ k2] exI [of _ a2]) simp
  next
    case False
    have "elems a (EventList e) = (ys @ [z]) @ zs" using Cons.prems(4) by simp
    from Cons.IH [OF Cons.prems(1-3) this] obtain k2 a2 where r2:
      "set_bits_loop bits (EventList e) (first_node zs (End (EventList e))) (to_clear bits (itemval a) z c) k
          = Some (fold (to_clear bits (itemval a)) zs (to_clear bits (itemval a) z c), k2)" "kernel_core E T idle k2 a2"
        "released E (\<lambda>t. EventItem t \<in> set zs \<and> satisfied {n. bit bits n} (itemval a (EventItem t))) (or bits eventUNBLOCKED_DUE_TO_BIT_SET) k a k2 a2"
      by blast
    have "EventItem t \<in> set zs \<and> satisfied {n. bit bits n} (itemval a (EventItem t))
        \<longleftrightarrow> EventItem t \<in> set (z # zs) \<and> satisfied {n. bit bits n} (itemval a (EventItem t))" for t
      using False unfolding m_def by auto
    then show ?thesis using code False r2 by (intro exI [of _ k2] exI [of _ a2]) simp
  qed
qed

section \<open>Setting bits\<close>

text \<open>The tasks that wait at the group \<open>g\<close> for what the set \<open>B\<close> gives.\<close>

definition set_free :: "nat set \<Rightarrow> u32 \<Rightarrow> (item_id, list_id) alists \<Rightarrow> task \<Rightarrow> bool" where
  "set_free B g a t \<longleftrightarrow> holder a (EventItem t) = Some (EventList (g + 4)) \<and> satisfied B (itemval a (EventItem t))"

definition taken :: "nat set \<Rightarrow> u32 \<Rightarrow> (item_id, list_id) alists \<Rightarrow> nat set" where
  "taken B g a = {n. \<exists>t. set_free B g a t \<and> clears (itemval a (EventItem t)) \<and> n \<in> bitset (itemval a (EventItem t))}"

lemma satisfied_low: "satisfied {n. bit w n} v \<longleftrightarrow> satisfied (bitset w) v"
  by (auto simp: satisfied_def bitset_def)

lemma bitset_or: "bitset (or v w) = bitset v \<union> bitset w" and bitset_diff: "bitset (and v (not w)) = bitset v - bitset w"
  by (auto simp: bitset_def word_bits)

lemma bitset_control [simp]:
  "bitset eventUNBLOCKED_DUE_TO_BIT_SET = {}" "bitset taskEVENT_LIST_ITEM_VALUE_IN_USE = {}"
  "bitset eventCLEAR_EVENTS_ON_EXIT_BIT = {}" "bitset eventWAIT_FOR_ALL_BITS = {}" "bitset 0 = {}"
  by (auto simp: bitset_def word_bits)

lemma bits_of_upd [simp]:
  "bits_of h (upd_bits g f s) = (if h = g then f (bits_of g s) else bits_of h s)" "kern (upd_bits g f s) = kern s"
  "queue (upd_bits g f s) = queue s" "heap (upd_bits g f s) = heap s"
  by (simp_all add: bits_of_def upd_bits_def)

lemma bits_of_kern [simp]: "bits_of h (s\<lparr>kern := k\<rparr>) = bits_of h s" "bits_of h (suspend_all s) = bits_of h s"
  by (simp_all add: bits_of_def suspend_all_def)

lemma suspend_all_simps [simp]: "kern (suspend_all s) = vTaskSuspendAll (kern s)" "queue (suspend_all s) = queue s" "heap (suspend_all s) = heap s"
  by (simp_all add: suspend_all_def)

lemma os_core_bits [simp]: "os_core Q E T idle (upd_bits g f s) a = os_core Q E T idle s a"
  by (simp add: os_core_def)

text \<open>What the call does between suspending the scheduler and releasing it.\<close>

definition set_and_release :: "u32 \<Rightarrow> u32 \<Rightarrow> os \<Rightarrow> os option" where
  "set_and_release g b s = do {
     let s' = upd_bits g (\<lambda>x. or x b) s;
     (c, k) \<leftarrow> set_bits_loop (bits_of g s') (xTasksWaitingForBits g) (pxNext (xListEnd (lst (lists (kern s)) (xTasksWaitingForBits g)))) 0 (kern s');
     Some (upd_bits g (\<lambda>x. and x (not c)) (s'\<lparr>kern := k\<rparr>))
   }"

lemma set_bits_split:
  "xEventGroupSetBits env n g b s = (if g \<noteq> 0 \<and> and b eventEVENT_BITS_CONTROL_BYTES = 0
     then do { s \<leftarrow> set_and_release g b (env n (suspend_all s)); (y, s) \<leftarrow> resume_all s; Some (bits_of g (env (n + 1) s), env (n + 1) s) }
     else None)"
  by (simp add: xEventGroupSetBits_def set_and_release_def Let_def configASSERT_def split_def)

lemma released_core:
  assumes "os_core Q E T idle s a" and "kernel_core E T idle k' a'" and "released E D v (kern s) a k' a'"
  shows "os_core Q E T idle (s\<lparr>kern := k'\<rparr>) a'"
proof -
  have "holder a' (StateItem t) \<noteq> None" if "t \<in> T" for t using os_coreD(2) [OF assms(1) that] assms(3) by (simp add: released_def)
  then show ?thesis using assms by (simp add: os_core_def released_def)
qed

lemma set_and_release_ok:
  assumes "os_core Q E T idle s a" and "uxSchedulerSuspended (kern s) \<noteq> 0" and "g + 4 \<in> E" and B_def: "B = bitset (bits_of g s) \<union> bitset b"
  shows "\<exists>s' a'. set_and_release g b s = Some s' \<and> os_core Q E T idle s' a'
    \<and> released E (set_free B g a) (or (or (bits_of g s) b) eventUNBLOCKED_DUE_TO_BIT_SET) (kern s) a (kern s') a'
    \<and> bitset (bits_of g s') = B - taken B g a
    \<and> queue s' = queue s \<and> heap s' = heap s \<and> (\<forall>h. h \<noteq> g \<longrightarrow> bits_of h s' = bits_of h s)"
proof -
  note core = kernel_coreD [OF os_coreD(1) [OF assms(1)]]
  define w where "w = or (bits_of g s) b"
  have B: "B = bitset w" by (simp add: B_def w_def bitset_or)
  have l: "EventList (g + 4) \<in> kernel_lists E" using assms(3) by simp
  note rep = repD [OF kernel_baseD(1) [OF core(2)] l]
  define zs where "zs = elems a (EventList (g + 4))"
  have hd: "pxNext (xListEnd (lst (lists (kern s)) (EventList (g + 4)))) = first_node zs (End (EventList (g + 4)))"
    using links_split [of "nx (lists (kern s))" "pv (lists (kern s))" "End (EventList (g + 4))" "[]" zs "End (EventList (g + 4))"] rep(1)
    by (simp add: zs_def)
  define D where "D = (\<lambda>t. EventItem t \<in> set zs \<and> satisfied {n. bit w n} (itemval a (EventItem t)))"
  have D: "D t \<longleftrightarrow> set_free B g a t" for t by (simp add: D_def set_free_def zs_def rep(4) satisfied_low B)
  define c where "c = fold (to_clear w (itemval a)) zs 0"
  obtain k' a' where r: "set_bits_loop w (EventList (g + 4)) (first_node zs (End (EventList (g + 4)))) 0 (kern s) = Some (c, k')"
      "kernel_core E T idle k' a'" "released E D (or w eventUNBLOCKED_DUE_TO_BIT_SET) (kern s) a k' a'"
    using set_bits_loop_ok [where ys = "[]", OF os_coreD(1) [OF assms(1)] assms(2,3), of zs w 0] unfolding c_def D_def by (auto simp: zs_def)
  define s' where "s' = upd_bits g (\<lambda>x. and x (not c)) ((upd_bits g (\<lambda>x. or x b) s)\<lparr>kern := k'\<rparr>)"
  have code: "set_and_release g b s = Some s'"
    using r(1) by (simp add: set_and_release_def Let_def xTasksWaitingForBits_def hd w_def [symmetric] s'_def)
  have "bitset c = taken B g a"
  proof -
    have ev: "i = EventItem (task_of i)" if "i \<in> set zs" for i using that rep(4) [of i] event_item [OF core(2)] by (simp add: zs_def)
    have "n \<in> bitset c \<longleftrightarrow> n \<in> taken B g a" for n
    proof -
      have "bit c n \<longleftrightarrow> (\<exists>i \<in> set zs. satisfied {n. bit w n} (itemval a i) \<and> clears (itemval a i) \<and> n \<in> bitset (itemval a i))"
        unfolding c_def bit_to_clear by (simp only: bit_0_eq bot_apply bot_bool_def simp_thms)
      also have "\<dots> \<longleftrightarrow> n \<in> taken B g a" unfolding taken_def D [symmetric] D_def using ev by (simp only: mem_Collect_eq) (metis task_of.simps(2))
      finally show ?thesis unfolding bitset_def taken_def by auto
    qed
    then show ?thesis by blast
  qed
  then have "bitset (bits_of g s') = B - taken B g a" by (simp add: s'_def bitset_diff B w_def)
  moreover have "os_core Q E T idle s' a'"
    using released_core [of Q E T idle "upd_bits g (\<lambda>x. or x b) s" a k' a' D] assms(1) r(2,3) by (simp add: s'_def)
  moreover have "released E (set_free B g a) (or w eventUNBLOCKED_DUE_TO_BIT_SET) (kern s) a (kern s') a'" using r(3) ext [of D "set_free B g a", OF D] by (simp add: s'_def)
  ultimately show ?thesis using code unfolding w_def by (intro exI [of _ s'] exI [of _ a']) (simp add: s'_def)
qed

text \<open>Releasing the scheduler afterwards; tasks whose time ran out meanwhile wake as well.\<close>

lemma released_resumed:
  assumes "released E D v k a k' a'"
  shows "D t \<or> resumed k' a' t \<longleftrightarrow> D t \<or> resumed k a t"
proof (cases "D t")
  case False
  then show ?thesis using assms by (auto simp: released_def resumed_def pending_def asleep_def remaining_def)
qed simp

lemma release_resume:
  assumes "os_core Q E T idle s' a'" and "uxSchedulerSuspended k = 1" and "preemptive k a" and "is_ready a (pxCurrentTCB k)"
    and "released E D v k a (kern s') a'"
  shows "\<exists>y k2 a2. resume_all s' = Some (y, s'\<lparr>kern := k2\<rparr>) \<and> os_core Q E T idle (s'\<lparr>kern := k2\<rparr>) a2 \<and> uxSchedulerSuspended k2 = 0
    \<and> preemptive k2 a2 \<and> is_ready a2 (pxCurrentTCB k2) \<and> pxCurrentTCB k2 = pxCurrentTCB k \<and> tcb k2 = tcb k \<and> (y \<longrightarrow> swi k2)
    \<and> holder a2 = woken (\<lambda>t. D t \<or> resumed k a t) k (holder a) \<and> itemval a2 = itemval a'"
proof -
  note rel = assms(5) [unfolded released_def]
  have su: "uxSchedulerSuspended (kern s') = 1" using rel assms(2) by simp
  obtain y k2 a2 where r: "resume_all s' = Some (y, s'\<lparr>kern := k2\<rparr>)" "os_core Q E T idle (s'\<lparr>kern := k2\<rparr>) a2" "uxSchedulerSuspended k2 = 0"
    "pxCurrentTCB k2 = pxCurrentTCB (kern s')" "y \<longrightarrow> swi k2" "tcb k2 = tcb (kern s')"
    "holder a2 = woken (resumed (kern s') a') (kern s') (holder a')" "itemval a2 = itemval a'"
    "is_ready a' (pxCurrentTCB (kern s')) \<longrightarrow> is_ready a2 (pxCurrentTCB k2)" "preemptive (kern s') a' \<longrightarrow> preemptive k2 a2"
    using resume_os [OF assms(1) su] by blast
  have t: "tcb (kern s') = tcb k" using rel by blast
  have h: "holder a' = woken D k (holder a)" using rel by blast
  have "holder a2 = woken (\<lambda>t. D t \<or> resumed (kern s') a' t) k (holder a)" using r(7) woken_woken [OF t] h by simp
  also have "(\<lambda>t. D t \<or> resumed (kern s') a' t) = (\<lambda>t. D t \<or> resumed k a t)" using released_resumed [OF assms(5)] by blast
  finally have h2: "holder a2 = woken (\<lambda>t. D t \<or> resumed k a t) k (holder a)" .
  have rd: "is_ready a' u \<longleftrightarrow> D u \<or> is_ready a u" for u by (rule ready_woken [OF h])
  have f: "swi (kern s') = swi k" "pxCurrentTCB (kern s') = pxCurrentTCB k" "uxSchedulerSuspended (kern s') = uxSchedulerSuspended k"
    "xYieldPending (kern s') \<longleftrightarrow> xYieldPending k \<or> (\<exists>t. D t \<and> uxPriority (tcb k (pxCurrentTCB k)) < uxPriority (tcb k t))" using rel by simp_all
  have "preemptive (kern s') a'" using assms(2,3) unfolding preemptive_def rd t f by (metis not_less zero_neq_one)
  then show ?thesis using r h2 rd [of "pxCurrentTCB k"] assms(4) t f(2) by (intro exI [of _ y] exI [of _ k2] exI [of _ a2]) simp
qed

end
