(* ===== verification/QueueFrames.thy ===== *)
theory QueueFrames
  imports QueueRun
begin

text \<open>
  What the queue operations leave alone: whatever the scheduler's primitives keep, and the event groups.
  Read off the code of \<open>queue.c\<close>, for queues that are not mutexes.
\<close>

definition over :: "(kernel \<Rightarrow> bool) \<Rightarrow> (u32 \<Rightarrow> EventGroup_t) \<Rightarrow> u32 set \<Rightarrow> os \<Rightarrow> bool" where
  "over P g Q s \<longleftrightarrow> P (kern s) \<and> group s = g \<and> (\<forall>q \<in> Q. pcHead (queue s q) \<noteq> 0)"

lemma over_upd_queue: "(\<And>x. pcHead (f x) = pcHead x) \<Longrightarrow> over P g Q (upd_queue q f s) = over P g Q s"
  by (auto simp: over_def upd_queue_def)

lemma over_frame [simp]: "over P g Q (s\<lparr>heap := h\<rparr>) = over P g Q s"
  "over P g Q (upd_queue q (\<lambda>x. x\<lparr>uxMessagesWaiting := n1\<rparr>) s) = over P g Q s"
  "over P g Q (upd_queue q (\<lambda>x. x\<lparr>pcWriteTo := n2\<rparr>) s) = over P g Q s"
  "over P g Q (upd_queue q (\<lambda>x. x\<lparr>u0 := n3\<rparr>) s) = over P g Q s"
  "over P g Q (upd_queue q (\<lambda>x. x\<lparr>u1 := n4\<rparr>) s) = over P g Q s"
  "over P g Q (upd_queue q (\<lambda>x. x\<lparr>cRxLock := l1\<rparr>) s) = over P g Q s"
  "over P g Q (upd_queue q (\<lambda>x. x\<lparr>cTxLock := l2\<rparr>) s) = over P g Q s"
  by (simp_all add: over_upd_queue) (simp add: over_def)

lemma over_memcpy: "memcpy_in p src n s = Some s' \<Longrightarrow> over P g Q s' = over P g Q s"
  by (auto simp: memcpy_in_def split: option.splits if_splits)

lemma over_lock: "over P g Q (prvLockQueue q s) = over P g Q s"
  by (simp add: prvLockQueue_def Let_def)

context kernel_frame
begin

lemma over_yield: "over P g Q (s\<lparr>kern := yield (kern s)\<rparr>) = over P g Q s" "over P g Q (s\<lparr>kern := vTaskSuspendAll (kern s)\<rparr>) = over P g Q s"
  "over P g Q (queueYIELD_IF_USING_PREEMPTION s) = over P g Q s" "over P g Q (portEND_SWITCHING_ISR b s) = over P g Q s"
  by (simp_all add: over_def helpers queueYIELD_IF_USING_PREEMPTION_def portEND_SWITCHING_ISR_def)

lemma over_kernel: "on_kernel f s = Some s' \<Longrightarrow> (P (kern s) \<Longrightarrow> has P (f (kern s))) \<Longrightarrow> over P g Q s \<longrightarrow> over P g Q s'"
  by (auto simp: on_kernel_def has_def over_def)

lemma over_wake_one: "wake_one l s = Some (b, s') \<Longrightarrow> over P g Q s \<longrightarrow> over P g Q s'"
  using remove_event_list [of "kern s" l] by (auto simp: wake_one_def gives_def over_def bind_eq_Some_conv split: if_splits)

lemma over_wake: "wake_and_yield l s = Some s' \<Longrightarrow> over P g Q s \<longrightarrow> over P g Q s'"
  by (auto simp: wake_and_yield_def bind_eq_Some_conv over_yield dest!: over_wake_one split: if_splits)

lemma over_resume: "resume_all s = Some (b, s') \<Longrightarrow> over P g Q s \<longrightarrow> over P g Q s'"
  using resume_all_keeps [of "kern s"] by (auto simp: resume_all_def gives_def over_def)

lemma unlock_loop_keeps: "P k \<Longrightarrow> has P (unlock_loop n l k)"
proof (induction n arbitrary: k)
  case (Suc n)
  show ?case unfolding unlock_loop.simps using Suc.prems
    by - (rule remove_event_list Suc.IH results | simp add: plain vTaskMissedYield_def)+
qed simp

lemma over_unlock: "prvUnlockQueue q s = Some s' \<Longrightarrow> over P g Q s \<longrightarrow> over P g Q s'"
  unfolding prvUnlockQueue_def by (auto simp: bind_eq_Some_conv Let_def dest!: over_kernel [OF _ unlock_loop_keeps])

lemma over_tx: "prvIncrementQueueTxLock q l s = Some s' \<Longrightarrow> over P g Q s' = over P g Q s"
  and over_rx: "prvIncrementQueueRxLock q l s = Some s' \<Longrightarrow> over P g Q s' = over P g Q s"
  by (auto simp: prvIncrementQueueTxLock_def prvIncrementQueueRxLock_def bind_eq_Some_conv split: if_splits)

lemma over_copy_to: "prvCopyDataToQueue q src p s = Some (r, s') \<Longrightarrow> q \<in> Q \<Longrightarrow> over P g Q s \<longrightarrow> over P g Q s'"
  unfolding prvCopyDataToQueue_def
  by (auto simp: bind_eq_Some_conv Let_def is_mutex_def over_memcpy split: if_splits) (simp_all add: over_def)

lemma over_copy_from: "prvCopyDataFromQueue q buf s = Some (b, s') \<Longrightarrow> over P g Q s' = over P g Q s"
  unfolding prvCopyDataFromQueue_def by (auto simp: bind_eq_Some_conv Let_def split: if_splits)

lemmas over_dest = over_wake over_resume over_unlock over_copy_to

text \<open>The attempts and the interrupts.\<close>

lemma over_send: "send_attempt q d t p s = Some (r, s') \<Longrightarrow> q \<in> Q \<Longrightarrow> over P g Q s \<longrightarrow> over P g Q s'"
  unfolding send_attempt_def by (auto simp: bind_eq_Some_conv over_yield split: if_splits dest!: over_copy_to [of _ _ _ _ _ _ Q g] over_wake [of _ _ _ g Q])

lemma over_receive: "receive_attempt q d t s = Some (r, b, s') \<Longrightarrow> over P g Q s \<longrightarrow> over P g Q s'"
  unfolding receive_attempt_def by (auto simp: bind_eq_Some_conv Let_def over_copy_from split: if_splits dest!: over_wake [of _ _ _ g Q])

lemma over_peek: "peek_attempt q d t s = Some (r, b, s') \<Longrightarrow> over P g Q s \<longrightarrow> over P g Q s'"
  unfolding peek_attempt_def by (auto simp: bind_eq_Some_conv Let_def over_copy_from split: if_splits dest!: over_wake [of _ _ _ g Q])

lemma over_take: "take_attempt q t s = Some (r, s') \<Longrightarrow> q \<in> Q \<Longrightarrow> over P g Q s \<longrightarrow> over P g Q s'"
proof -
  assume a: "take_attempt q t s = Some (r, s')" "q \<in> Q"
  have "over P g Q s \<Longrightarrow> \<not> is_mutex (queue s q)" using a(2) by (simp add: over_def is_mutex_def)
  then show ?thesis using a(1) unfolding take_attempt_def
    by (auto simp: bind_eq_Some_conv Let_def upd_queue_def is_mutex_def split: if_splits dest!: over_wake [of _ _ _ g Q])
       (simp_all add: over_def split: if_splits)
qed

lemma over_intr: "intr_exec i s = Some s' \<Longrightarrow> intr_allowed Q i s \<Longrightarrow> over P g Q s \<longrightarrow> over P g Q s'"
proof (cases i)
  case TickInt
  have "P k \<Longrightarrow> has P (vPortIncrementTick k)" for k using exec_keeps [of k Tick] by simp
  then show "intr_exec i s = Some s' \<Longrightarrow> ?thesis" unfolding TickInt intr_exec.simps using over_kernel by blast
next
  case YieldInt
  have "P k \<Longrightarrow> has P (vPortYieldISR k)" for k using exec_keeps [of k YieldISR] by simp
  then show "intr_exec i s = Some s' \<Longrightarrow> ?thesis" unfolding YieldInt intr_exec.simps using over_kernel by blast
next
  case (SendInt q d p)
  show "intr_exec i s = Some s' \<Longrightarrow> intr_allowed Q i s \<Longrightarrow> ?thesis" unfolding SendInt
    by (auto simp: xQueueGenericSendFromISR_def bind_eq_Some_conv Let_def over_yield over_tx split: if_splits
        dest!: over_copy_to [of _ _ _ _ _ _ Q g] over_wake_one [of _ _ _ _ g Q])
next
  case (GiveInt q)
  show "intr_exec i s = Some s' \<Longrightarrow> intr_allowed Q i s \<Longrightarrow> ?thesis" unfolding GiveInt
    by (auto simp: xQueueGiveFromISR_def bind_eq_Some_conv Let_def over_yield over_tx split: if_splits dest!: over_wake_one [of _ _ _ _ g Q])
next
  case (ReceiveInt q d)
  show "intr_exec i s = Some s' \<Longrightarrow> intr_allowed Q i s \<Longrightarrow> ?thesis" unfolding ReceiveInt
    by (auto simp: xQueueReceiveFromISR_def bind_eq_Some_conv Let_def over_yield over_copy_from over_rx split: if_splits dest!: over_wake_one [of _ _ _ _ g Q])
qed

lemma over_during: "over P g Q s \<Longrightarrow> over P g Q (during Q is s)"
proof -
  have "run_intrs Q is s = Some s' \<Longrightarrow> over P g Q s \<Longrightarrow> over P g Q s'" for s s'
  proof (induction "is" arbitrary: s)
    case (Cons i "is")
    then show ?case by (auto simp: bind_eq_Some_conv split: if_splits dest: over_intr)
  qed simp
  then show "over P g Q s \<Longrightarrow> over P g Q (during Q is s)" by (auto simp: during_def split: option.splits)
qed

lemma over_wait:
  assumes "wait_section (interrupted Q is1 is2) 0 q blocked (\<lambda>i s. Some (i, s)) l i t d s = Some (x, i', t', d', s')" and "l \<in> A"
  shows "over P g Q s \<longrightarrow> over P g Q s'"
proof -
  have dur: "over P g Q s \<Longrightarrow> over P g Q (interrupted Q is1 is2 n s)" for n s by (simp add: interrupted_def over_during)
  show ?thesis using assms(1) unfolding wait_section_def
    by (auto simp: bind_eq_Some_conv Let_def over_lock over_yield dur split: if_splits prod.splits
        dest!: over_unlock [where g = g and Q = Q] over_resume [where g = g and Q = Q] over_kernel [where g = g and Q = Q, OF _ place_event [OF _ assms(2)]])
qed

lemma init_keeps: "P k \<Longrightarrow> P (k\<lparr>lists := vListInitialise l (lists k)\<rparr>)"
  by (rule kept) (simp_all add: items_kept_def vListInitialise_def upd_lst_def)

lemma init_twice: "P k \<Longrightarrow> P (k\<lparr>lists := vListInitialise l (vListInitialise m (lists k))\<rparr>)"
  using init_keeps [of "k\<lparr>lists := vListInitialise m (lists k)\<rparr>" l] init_keeps [of k m] by simp

text \<open>Every step of the system of queues.\<close>

lemma over_create:
  assumes "xQueueGenericCreate n z s = Some (q, s')" and "creatable_queue n z"
  shows "P (kern s) \<and> group s = g \<longrightarrow> P (kern s') \<and> group s' = g"
proof -
  obtain q' h where m: "pvPortMalloc (sizeof_Queue_t + n * z) (heap s) = Some (q', h)"
    using assms unfolding xQueueGenericCreate_def creatable_queue_def by (auto simp: bind_eq_Some_conv)
  show ?thesis using assms(1) create_code [OF assms(2) m] init_twice [of "kern s"] by auto
qed

lemma qexec_keeps:
  assumes "qexec y (Q, s) = Some (Q', s')" and "qallowed T idle y (Q, s)" and "over P g Q s" and "EventList ` lists_of Q {} \<subseteq> A"
  shows "P (kern s') \<and> group s' = g"
proof -
  have w: "xTasksWaitingToSend q \<in> A" "xTasksWaitingToReceive q \<in> A" if "q \<in> Q" for q
    using that assms(4) by (auto simp: lists_of_def xTasksWaitingToSend_def xTasksWaitingToReceive_def)
  have o: "over P g Q s' \<Longrightarrow> ?thesis" by (simp add: over_def)
  show ?thesis
  proof (cases y)
    case (Kernel x)
    then show ?thesis using assms(1,3) exec_keeps [of "kern s" x] over_kernel [of "exec x" s s' g Q] o by auto
  next
    case (Interrupt i)
    then show ?thesis using assms(1-3) over_intr [of i s s' Q g] o by auto
  next
    case (Send q d t p)
    then show ?thesis using assms(1-3) over_send [of q "Some d" t p s _ s' Q g] o by (auto simp: bind_eq_Some_conv)
  next
    case (Give q)
    then show ?thesis using assms(1-3) over_send [of q None 0 queueSEND_TO_BACK s _ s' Q g] o by (auto simp: bind_eq_Some_conv)
  next
    case (Receive q d t)
    then show ?thesis using assms(1,3) over_receive [of q "Some d" t s _ _ s' g Q] o by (auto simp: bind_eq_Some_conv)
  next
    case (Peek q d t)
    then show ?thesis using assms(1,3) over_peek [of q "Some d" t s _ _ s' g Q] o by (auto simp: bind_eq_Some_conv)
  next
    case (Take q t)
    then show ?thesis using assms(1-3) over_take [of q t s _ s' Q g] o by (auto simp: bind_eq_Some_conv)
  next
    case (WaitSend q t d is1 is2)
    then have "q \<in> Q" using assms(2) by simp
    from over_wait [where g = g and Q = Q and s = s and s' = s', OF _ w(1) [OF this]] show ?thesis
      using assms(1,3) o unfolding WaitSend by auto
  next
    case (WaitReceive q t d is1 is2)
    then have "q \<in> Q" using assms(2) by simp
    from over_wait [where g = g and Q = Q and s = s and s' = s', OF _ w(2) [OF this]] show ?thesis
      using assms(1,3) o unfolding WaitReceive by auto
  next
    case (Create n z)
    then have c: "creatable_queue n z" using assms(2) by simp
    obtain q where "xQueueGenericCreate n z s = Some (q, s')" using assms(1) by (auto simp: Create with_new_def)
    from over_create [OF this c] show ?thesis using assms(3) by (simp add: over_def)
  next
    case (CreateCounting n c)
    then have c: "creatable_queue n 0" and n: "n \<noteq> 0" "c \<le> n" using assms(2) by simp_all
    obtain q s1 where r: "xQueueGenericCreate n 0 s = Some (q, s1)"
        "s' = (if q \<noteq> 0 then upd_queue q (\<lambda>x. x\<lparr>uxMessagesWaiting := c\<rparr>) s1 else s1)"
      using assms(1) n by (auto simp: CreateCounting with_new_def xQueueCreateCountingSemaphore_def bind_eq_Some_conv)
    from over_create [OF r(1) c] show ?thesis using assms(3) r(2) by (simp add: over_def upd_queue_def)
  qed
qed

end

end
