(* ===== verification/EventGroupCalls.thy ===== *)
theory EventGroupCalls
  imports EventGroupOps QueueFrames
begin

text \<open>
  Every call of \<open>event_groups.c\<close> from a state in order: it returns, leaves the system in order, has its
  effect, and leaves no task asleep on a condition that holds. Interrupts come wherever the code lets them.
\<close>

section \<open>No missed wake-up\<close>

text \<open>
  The bits of a group leave the control byte free, and whoever waits on the group waits, by the value in its
  event item, for a condition that does not hold.
\<close>

definition only_bits :: "u32 \<Rightarrow> bool" where
  "only_bits b \<longleftrightarrow> and b eventEVENT_BITS_CONTROL_BYTES = 0"

definition waits_for :: "u32 \<Rightarrow> task \<Rightarrow> kernel \<Rightarrow> bool" where
  "waits_for g t k \<longleftrightarrow> container (EventItem t) k = Some (xTasksWaitingForBits g)"

definition no_missed :: "u32 set \<Rightarrow> os \<Rightarrow> bool" where
  "no_missed G s \<longleftrightarrow> (\<forall>g \<in> G. only_bits (bits_of g s) \<and> (\<forall>t. waits_for g t (kern s) \<longrightarrow>
     used t (kern s) \<and> \<not> satisfied (bitset (bits_of g s)) (value_of (EventItem t) (kern s))))"

lemma satisfied_mono: "satisfied B w \<Longrightarrow> B \<subseteq> C \<Longrightarrow> satisfied C w"
  by (auto simp: satisfied_def split: if_splits)

lemma no_missed_mono:
  assumes "no_missed G s" and "\<And>g. g \<in> G \<Longrightarrow> only_bits (bits_of g s') \<and> bitset (bits_of g s') \<subseteq> bitset (bits_of g s)"
    and "\<And>g t. g \<in> G \<Longrightarrow> waits_for g t (kern s') \<Longrightarrow> waits_for g t (kern s) \<and> (used t (kern s) \<longrightarrow> value_of (EventItem t) (kern s') = value_of (EventItem t) (kern s))"
  shows "no_missed G s'"
  unfolding no_missed_def
proof (intro ballI conjI allI impI)
  fix g t assume g: "g \<in> G" and w: "waits_for g t (kern s')"
  have u: "waits_for g t (kern s)" using assms(3) [OF g w] by blast
  have n: "used t (kern s)" "\<not> satisfied (bitset (bits_of g s)) (value_of (EventItem t) (kern s))"
    using assms(1) g u by (simp_all add: no_missed_def)
  have v: "value_of (EventItem t) (kern s') = value_of (EventItem t) (kern s)" using assms(3) [OF g w] n(1) by blast
  show "used t (kern s')" using n(1) v by (simp add: used_def)
  show "\<not> satisfied (bitset (bits_of g s')) (value_of (EventItem t) (kern s'))"
    using satisfied_mono n(2) assms(2) [OF g] unfolding v by blast
qed (use assms(2) in blast)

text \<open>The lists of the groups are not those of the queues.\<close>

lemma group_list_apart:
  assumes "stored Q G s bs" and "g \<in> G"
  shows "g + 4 \<notin> lists_of Q {}"
proof
  assume "g + 4 \<in> lists_of Q {}"
  then obtain q d where q: "q \<in> Q" "g + 4 = q + d" "d = 16 \<or> d = 36" by (auto simp: lists_of_def)
  have pl: "placed_high (heap s) bs" "Q \<inter> G = {}" using assms(1) by (simp_all add: stored_def)
  obtain n where n: "(unat q, n) \<in> payloads bs" "72 \<le> n" using stored_block [OF assms(1) q(1)] by blast
  obtain m where m: "(unat g, m) \<in> payloads bs" "24 \<le> m" using assms unfolding stored_def by blast
  have "q \<noteq> g" using pl(2) q(1) assms(2) by blast
  then have "unat q \<noteq> unat g" by (simp add: word_unat_eq_iff)
  from heap4.apart_law [OF placed_high_ok [OF pl(1)] n(1) m(1) this] have ap: "unat q + n \<le> unat g \<or> unat g + m \<le> unat q" .
  have "unat (g + 4) = unat g + 4" using payload_room(2) [OF pl(1) m(1)] m(2) by (subst unat_add_u32) simp_all
  moreover have "unat (q + d) = unat q + unat d" "unat d \<in> {16, 36}" using payload_room(2) [OF pl(1) n(1)] n(2) q(3) by (auto simp: unat_add_u32)
  ultimately show False using ap q(2) n(2) m(2) by auto
qed

definition queue_lists :: "u32 set \<Rightarrow> list_id set" where
  "queue_lists Q = EventList ` lists_of Q {}"

lemma events_no_missed:
  assumes "no_missed G s" and "events_kept (queue_lists Q) (kern s) (kern s')" and "group s' = group s" and "stored Q G s bs"
  shows "no_missed G s'"
proof (rule no_missed_mono [OF assms(1)])
  fix g assume g: "g \<in> G"
  have b: "bits_of g s' = bits_of g s" by (simp add: bits_of_def assms(3))
  show "only_bits (bits_of g s') \<and> bitset (bits_of g s') \<subseteq> bitset (bits_of g s)" using assms(1) g by (simp add: b no_missed_def)
  fix t assume w: "waits_for g t (kern s')"
  have "xTasksWaitingForBits g \<notin> queue_lists Q" using group_list_apart [OF assms(4) g] by (auto simp: queue_lists_def xTasksWaitingForBits_def)
  then show "waits_for g t (kern s) \<and> (used t (kern s) \<longrightarrow> value_of (EventItem t) (kern s') = value_of (EventItem t) (kern s))"
    using assms(2) w unfolding waits_for_def events_kept_def xTasksWaitingForBits_def by metis
qed

text \<open>
  What may happen to the event item of a task by what others do: it keeps its value and at most leaves its
  group, or it leaves with bits that meet its condition and the mark that they were set.
\<close>

definition moved :: "u32 set \<Rightarrow> task \<Rightarrow> kernel \<Rightarrow> kernel \<Rightarrow> bool" where
  "moved G t k k' \<longleftrightarrow> (used t k \<longrightarrow>
     value_of (EventItem t) k' = value_of (EventItem t) k \<and> (\<forall>g \<in> G. waits_for g t k' \<longrightarrow> waits_for g t k)
     \<or> (\<exists>g \<in> G. waits_for g t k) \<and> (\<forall>g \<in> G. \<not> waits_for g t k') \<and> bit (value_of (EventItem t) k') 25 \<and> bit (value_of (EventItem t) k') 31
       \<and> satisfied (bitset (value_of (EventItem t) k')) (value_of (EventItem t) k))"

lemma used_bit: "used t k \<longleftrightarrow> bit (value_of (EventItem t) k) 31"
  by (auto simp: used_def zero_bits word_bits)

lemma moved_trans: "moved G t k k1 \<Longrightarrow> moved G t k1 k2 \<Longrightarrow> moved G t k k2"
  unfolding moved_def used_bit by metis

lemma moved_lists: "lists k' = lists k \<Longrightarrow> moved G t k k'"
  by (simp add: moved_def waits_for_def container_def value_of_def)

lemma moved_events:
  assumes "events_kept A k k'" and "\<And>g. g \<in> G \<Longrightarrow> xTasksWaitingForBits g \<notin> A"
  shows "moved G t k k'"
  using assms unfolding moved_def events_kept_def waits_for_def xTasksWaitingForBits_def by metis

lemma moved_queues: "events_kept (queue_lists Q) k k' \<Longrightarrow> stored Q G s bs \<Longrightarrow> moved G t k k'"
  by (rule moved_events, assumption) (auto simp: queue_lists_def xTasksWaitingForBits_def dest: group_list_apart)

lemma moved_alists:
  assumes "os_core Q E T idle s a" and "os_core Q' E' T' idle' s' a'" and "itemval a' (EventItem t) = itemval a (EventItem t)"
    and "\<And>e. holder a' (EventItem t) = Some (EventList e) \<Longrightarrow> holder a (EventItem t) = Some (EventList e)"
  shows "moved G t (kern s) (kern s')"
proof -
  note b = kernel_coreD(2) [OF os_coreD(1) [OF assms(1)]] kernel_coreD(2) [OF os_coreD(1) [OF assms(2)]]
  show ?thesis using assms(3,4)
    by (auto simp: moved_def waits_for_def xTasksWaitingForBits_def container_holder [OF b(1)] container_holder [OF b(2)] value_itemval [OF b(1)] value_itemval [OF b(2)])
qed

lemma moved_resumed:
  assumes "os_core Q E T idle s a" and "os_core Q' E' T' idle' s' a'" and "holder a' = woken D k (holder a)" and "itemval a' = itemval a"
  shows "moved G t (kern s) (kern s')"
  by (rule moved_alists [OF assms(1,2)]) (simp_all add: assms(3,4) split: if_splits)

section \<open>The parts of a call\<close>

text \<open>The scheduler is suspended and interrupts come; nested, the count is two.\<close>

definition section_ok :: "task set \<Rightarrow> task \<Rightarrow> u32 set \<Rightarrow> u32 set \<Rightarrow> os \<Rightarrow> (item_id, list_id) alists \<Rightarrow> block list \<Rightarrow> bool" where
  "section_ok T idle G Q s a bs \<longleftrightarrow> os_core Q (lists_of Q G) T idle s a \<and> preemptive (kern s) a \<and> is_ready a (pxCurrentTCB (kern s))
     \<and> stored Q G s bs \<and> no_missed G s \<and> uxSchedulerSuspended (kern s) \<in> {1, 2}"

lemma section_suspended: "section_ok T idle G Q s a bs \<Longrightarrow> uxSchedulerSuspended (kern s) \<noteq> 0"
  by (auto simp: section_ok_def)

lemma section_begin:
  assumes "os_sys T idle G (Q, s) a bs" and "no_missed G s" and "\<not> swi (kern s)" and "uxSchedulerSuspended (kern s) = 0"
  shows "section_ok T idle G Q (suspend_all s) a bs" "uxSchedulerSuspended (kern (suspend_all s)) = 1"
proof -
  note os = os_sysD [OF assms(1)]
  note su = suspend_os [OF os(1) assms(4) os(2)]
  have "no_missed G (suspend_all s)" using assms(2) by (simp add: no_missed_def waits_for_def used_def container_def value_of_def vTaskSuspendAll_def)
  moreover have "stored Q G (suspend_all s) bs" using os(4) by (simp add: stored_def)
  ultimately show "section_ok T idle G Q (suspend_all s) a bs" "uxSchedulerSuspended (kern (suspend_all s)) = 1"
    using su os(3) assms(3) by (simp_all add: section_ok_def) (simp_all add: suspend_all_def vTaskSuspendAll_def)
qed

lemma section_nested:
  assumes "section_ok T idle G Q s a bs" and "uxSchedulerSuspended (kern s) = 1"
  shows "section_ok T idle G Q (suspend_all s) a bs" "uxSchedulerSuspended (kern (suspend_all s)) = 2"
proof -
  have "no_missed G (suspend_all s)" "preemptive (vTaskSuspendAll (kern s)) a" "stored Q G (suspend_all s) bs"
    using assms by (simp_all add: section_ok_def no_missed_def waits_for_def used_def container_def value_of_def vTaskSuspendAll_def preemptive_def stored_def)
  moreover have "os_core Q (lists_of Q G) T idle (suspend_all s) a"
    using assms by (simp add: section_ok_def os_core_def kernel_core_def settled_def vTaskSuspendAll_def)
  ultimately show "section_ok T idle G Q (suspend_all s) a bs" "uxSchedulerSuspended (kern (suspend_all s)) = 2"
    using assms by (simp_all add: section_ok_def) (simp_all add: vTaskSuspendAll_def)
qed

lemma section_during:
  assumes "section_ok T idle G Q s a bs"
  shows "\<exists>a'. section_ok T idle G Q (during Q is s) a' bs \<and> uxSchedulerSuspended (kern (during Q is s)) = uxSchedulerSuspended (kern s)
    \<and> pxCurrentTCB (kern (during Q is s)) = pxCurrentTCB (kern s) \<and> tcb (kern (during Q is s)) = tcb (kern s) \<and> group (during Q is s) = group s
    \<and> (\<forall>t. moved G t (kern s) (kern (during Q is s)))"
proof -
  have s: "os_core Q (lists_of Q G) T idle s a" "preemptive (kern s) a" "is_ready a (pxCurrentTCB (kern s))" "stored Q G s bs" "no_missed G s"
    using assms by (simp_all add: section_ok_def)
  obtain a' where r: "os_core Q (lists_of Q G) T idle (during Q is s) a'" "woke (kern s) a (kern (during Q is s)) a'" "stays Q s (during Q is s) (fold spec_intr is)"
    using during_ok [OF s(1) section_suspended [OF assms]] by blast
  have "\<forall>q \<in> Q. pcHead (queue s q) \<noteq> 0" using os_coreD(3) [OF s(1)] by (simp add: queue_in_def queue_ok_def)
  then have "over (events_kept {} (kern s)) (group s) Q s" by (simp add: over_def events_kept_refl)
  from events.over_during [OF this] have k: "events_kept {} (kern s) (kern (during Q is s))" "group (during Q is s) = group s" by (simp_all add: over_def)
  have "events_kept (queue_lists Q) (kern s) (kern (during Q is s))" using k(1) by (auto simp: events_kept_def)
  from events_no_missed [OF s(5) this k(2) s(4)] have "no_missed G (during Q is s)" .
  moreover have "stored Q G (during Q is s) bs" using stored_sizes [OF s(4)] r(3) by (simp add: stays_def)
  moreover have "moved G t (kern s) (kern (during Q is s))" for t by (rule moved_events [OF k(1)]) simp
  ultimately show ?thesis using r(1,2) woke_preemptive [OF s(2) r(2)] s(3) assms k by (intro exI [of _ a']) (auto simp: section_ok_def woke_def)
qed

lemma wakes_no_missed:
  assumes "os_core Q E T idle s a" and "os_core Q' E' T' idle' s' a'" and "no_missed G s" and "\<And>g. g \<in> G \<Longrightarrow> bits_of g s' = bits_of g s"
    and "\<And>t e. holder a' (EventItem t) = Some (EventList e) \<Longrightarrow> holder a (EventItem t) = Some (EventList e) \<and> itemval a' (EventItem t) = itemval a (EventItem t)"
  shows "no_missed G s'"
proof (rule no_missed_mono [OF assms(3)])
  note b = kernel_coreD(2) [OF os_coreD(1) [OF assms(1)]] kernel_coreD(2) [OF os_coreD(1) [OF assms(2)]]
  fix g assume g: "g \<in> G"
  show "only_bits (bits_of g s') \<and> bitset (bits_of g s') \<subseteq> bitset (bits_of g s)" using assms(3) g by (simp add: assms(4) no_missed_def)
  fix t assume w: "waits_for g t (kern s')"
  then show "waits_for g t (kern s) \<and> (used t (kern s) \<longrightarrow> value_of (EventItem t) (kern s') = value_of (EventItem t) (kern s))"
    using assms(5) by (auto simp: waits_for_def container_holder [OF b(1)] container_holder [OF b(2)] value_itemval [OF b(1)] value_itemval [OF b(2)] xTasksWaitingForBits_def)
qed

text \<open>Resuming the scheduler ends the section, or leaves the inner one.\<close>

lemma section_end:
  assumes "section_ok T idle G Q s a bs" and "uxSchedulerSuspended (kern s) = 1"
  shows "\<exists>y k' a'. resume_all s = Some (y, s\<lparr>kern := k'\<rparr>) \<and> os_sys T idle G (Q, s\<lparr>kern := k'\<rparr>) a' bs \<and> no_missed G (s\<lparr>kern := k'\<rparr>)
    \<and> pxCurrentTCB k' = pxCurrentTCB (kern s) \<and> (y \<longrightarrow> swi k') \<and> uxSchedulerSuspended k' = 0 \<and> (\<forall>t. moved G t (kern s) k')"
proof -
  have s: "os_core Q (lists_of Q G) T idle s a" "preemptive (kern s) a" "is_ready a (pxCurrentTCB (kern s))" "stored Q G s bs" "no_missed G s"
    using assms by (simp_all add: section_ok_def)
  obtain y k' a' where r: "resume_all s = Some (y, s\<lparr>kern := k'\<rparr>)" "os_core Q (lists_of Q G) T idle (s\<lparr>kern := k'\<rparr>) a'" "uxSchedulerSuspended k' = 0"
    "pxCurrentTCB k' = pxCurrentTCB (kern s)" "y \<longrightarrow> swi k'" "holder a' = woken (resumed (kern s) a) (kern s) (holder a)" "itemval a' = itemval a"
    "is_ready a (pxCurrentTCB (kern s)) \<longrightarrow> is_ready a' (pxCurrentTCB k')" "preemptive (kern s) a \<longrightarrow> preemptive k' a'"
    using resume_os [OF s(1) assms(2)] by blast
  have "no_missed G (s\<lparr>kern := k'\<rparr>)"
    by (rule wakes_no_missed [OF s(1) r(2) s(5)]) (use r(6,7) in \<open>auto split: if_splits\<close>)
  moreover have "os_sys T idle G (Q, s\<lparr>kern := k'\<rparr>) a' bs" using r(2,8,9) s(2-4) by (simp add: os_sys_def stored_def)
  moreover have "moved G t (kern s) k'" for t
    using moved_resumed [OF s(1) r(2,6,7)] by simp
  ultimately show ?thesis using r(1,3-5) by blast
qed

lemma section_inner_end:
  assumes "section_ok T idle G Q s a bs" and "uxSchedulerSuspended (kern s) = 2"
  shows "\<exists>s'. resume_all s = Some (False, s') \<and> section_ok T idle G Q s' a bs \<and> uxSchedulerSuspended (kern s') = 1
    \<and> pxCurrentTCB (kern s') = pxCurrentTCB (kern s) \<and> group s' = group s \<and> lists (kern s') = lists (kern s) \<and> tcb (kern s') = tcb (kern s)"
proof -
  define s' where "s' = s\<lparr>kern := (kern s)\<lparr>uxSchedulerSuspended := 1\<rparr>\<rparr>"
  have "resume_all s = Some (False, s')" using assms(2) by (simp add: resume_all_def xTaskResumeAll_def s'_def)
  moreover have "section_ok T idle G Q s' a bs"
    using assms by (simp add: section_ok_def os_core_def kernel_core_def settled_def s'_def preemptive_def stored_def
        no_missed_def waits_for_def used_def container_def value_of_def bits_of_def)
  ultimately show ?thesis by (intro exI [of _ s']) (simp add: s'_def)
qed

text \<open>Setting bits inside a section.\<close>

lemma only_bits_code: "only_bits w \<longleftrightarrow> (\<forall>n. bit w n \<longrightarrow> n < 24)"
  by (auto simp: only_bits_def zero_bits word_bits not_le dest: bit_u32)

lemma bitset_only: "only_bits w \<Longrightarrow> bitset w = {n. bit w n}"
  by (auto simp: bitset_def only_bits_code)

lemma set_and_release_bits: "set_and_release g b s = Some s' \<Longrightarrow> \<exists>c. bits_of g s' = and (or (bits_of g s) b) (not c)"
  by (auto simp: set_and_release_def Let_def bind_eq_Some_conv)

lemma release_preemptive:
  assumes "preemptive k a" and "uxSchedulerSuspended k \<noteq> 0" and "released E D v k a k' a'"
  shows "preemptive k' a'"
proof -
  note rel = assms(3) [unfolded released_def]
  have h: "holder a' = woken D k (holder a)" using rel by blast
  have t: "tcb k' = tcb k" using rel by blast
  have f: "swi k' = swi k" "pxCurrentTCB k' = pxCurrentTCB k" "uxSchedulerSuspended k' = uxSchedulerSuspended k"
    "xYieldPending k' \<longleftrightarrow> xYieldPending k \<or> (\<exists>t. D t \<and> uxPriority (tcb k (pxCurrentTCB k)) < uxPriority (tcb k t))" using rel by simp_all
  show ?thesis using assms(1,2) unfolding preemptive_def ready_woken [OF h] t f by (metis not_less)
qed

lemma section_set:
  assumes "section_ok T idle G Q s a bs" and "g \<in> G" and "only_bits b" and B_def: "B = bitset (bits_of g s) \<union> bitset b"
  shows "\<exists>s' a'. set_and_release g b s = Some s' \<and> section_ok T idle G Q s' a' bs
    \<and> released (lists_of Q G) (set_free B g a) (or (or (bits_of g s) b) eventUNBLOCKED_DUE_TO_BIT_SET) (kern s) a (kern s') a'
    \<and> bitset (bits_of g s') = B - taken B g a \<and> (\<forall>h. h \<noteq> g \<longrightarrow> bits_of h s' = bits_of h s) \<and> (\<forall>t. moved G t (kern s) (kern s'))"
proof -
  have s: "os_core Q (lists_of Q G) T idle s a" "preemptive (kern s) a" "is_ready a (pxCurrentTCB (kern s))" "stored Q G s bs" "no_missed G s"
    using assms(1) by (simp_all add: section_ok_def)
  note su = section_suspended [OF assms(1)]
  have e: "h + 4 \<in> lists_of Q G" if "h \<in> G" for h using that by (auto simp: lists_of_def)
  obtain s' a' where r: "set_and_release g b s = Some s'" "os_core Q (lists_of Q G) T idle s' a'"
     "released (lists_of Q G) (set_free B g a) (or (or (bits_of g s) b) eventUNBLOCKED_DUE_TO_BIT_SET) (kern s) a (kern s') a'"
     "bitset (bits_of g s') = B - taken B g a" "queue s' = queue s" "heap s' = heap s" "\<forall>h. h \<noteq> g \<longrightarrow> bits_of h s' = bits_of h s"
    using set_and_release_ok [OF s(1) su e [OF assms(2)] B_def] by blast
  note rel = r(3) [unfolded released_def]
  have h: "holder a' = woken (set_free B g a) (kern s) (holder a)" using rel by blast
  have v: "itemval a' i = (if i = EventItem (task_of i) \<and> set_free B g a (task_of i)
      then or (or (or (bits_of g s) b) eventUNBLOCKED_DUE_TO_BIT_SET) taskEVENT_LIST_ITEM_VALUE_IN_USE else itemval a i)" for i
    using rel by presburger
  note b1 = kernel_coreD(2) [OF os_coreD(1) [OF s(1)]] and b2 = kernel_coreD(2) [OF os_coreD(1) [OF r(2)]]
  have low: "only_bits (bits_of x s')" if "x \<in> G" for x
  proof (cases "x = g")
    case True
    obtain c where "bits_of g s' = and (or (bits_of g s) b) (not c)" using set_and_release_bits [OF r(1)] by blast
    moreover have "only_bits (bits_of g s)" using s(5) assms(2) by (simp add: no_missed_def)
    ultimately show ?thesis using assms(3) True by (auto simp: only_bits_code word_bits)
  next
    case False
    then show ?thesis using r(7) s(5) that by (simp add: no_missed_def)
  qed
  have "no_missed G s'" unfolding no_missed_def
  proof (intro ballI conjI allI impI)
    fix x t assume x: "x \<in> G" and w: "waits_for x t (kern s')"
    then have w': "holder a (EventItem t) = Some (EventList (x + 4))" "\<not> set_free B g a t"
      by (auto simp: waits_for_def container_holder [OF b2] h xTasksWaitingForBits_def split: if_splits)
    then have o: "waits_for x t (kern s)" by (simp add: waits_for_def container_holder [OF b1] xTasksWaitingForBits_def)
    then have n: "used t (kern s)" "\<not> satisfied (bitset (bits_of x s)) (value_of (EventItem t) (kern s))" using s(5) x by (simp_all add: no_missed_def)
    have val: "value_of (EventItem t) (kern s') = value_of (EventItem t) (kern s)"
      using w'(2) by (simp add: value_itemval [OF b1] value_itemval [OF b2] v)
    show "used t (kern s')" using n(1) val by (simp add: used_def)
    show "\<not> satisfied (bitset (bits_of x s')) (value_of (EventItem t) (kern s'))"
    proof (cases "x = g")
      case True
      then have "\<not> satisfied B (itemval a (EventItem t))" using w' by (simp add: set_free_def)
      then show ?thesis using satisfied_mono [of "bitset (bits_of g s')" _ B] r(4) True val by (auto simp: value_itemval [OF b1])
    next
      case False
      then show ?thesis using n(2) r(7) val by simp
    qed
  qed (use low in blast)
  moreover have "is_ready a' (pxCurrentTCB (kern s'))" using ready_woken [OF h] s(3) rel by simp
  moreover have "preemptive (kern s') a'" by (rule release_preemptive [OF s(2) su r(3)])
  moreover have "uxSchedulerSuspended (kern s') = uxSchedulerSuspended (kern s)" using rel by blast
  moreover have "stored Q G s' bs" using s(4) r(5,6) by (simp add: stored_def)
  moreover have "moved G t (kern s) (kern s')" for t
  proof (cases "set_free B g a t")
    case True
    then have x: "value_of (EventItem t) (kern s') = or (or (or (bits_of g s) b) eventUNBLOCKED_DUE_TO_BIT_SET) taskEVENT_LIST_ITEM_VALUE_IN_USE"
      by (simp add: value_itemval [OF b2] v)
    have "waits_for g t (kern s)" "satisfied B (value_of (EventItem t) (kern s))" "\<not> waits_for y t (kern s')" for y
      using True by (simp_all add: waits_for_def container_holder [OF b1] container_holder [OF b2] value_itemval [OF b1] xTasksWaitingForBits_def set_free_def h)
    moreover have "bitset (value_of (EventItem t) (kern s')) = B" "bit (value_of (EventItem t) (kern s')) 25" "bit (value_of (EventItem t) (kern s')) 31"
      unfolding x B_def by (simp_all add: bitset_or) (simp_all add: word_bits)
    ultimately show ?thesis using assms(2) unfolding moved_def by blast
  next
    case False
    then show ?thesis using moved_alists [where t = t and G = G, OF s(1) r(2)] by (simp add: v h)
  qed
  ultimately show ?thesis using r(1-4,7) assms(1) by (intro exI [of _ s'] exI [of _ a']) (simp add: section_ok_def)
qed

text \<open>Going to sleep on a condition that does not hold.\<close>

lemma section_sleep:
  assumes "section_ok T idle G Q s a bs" and "g \<in> G" and "pxCurrentTCB (kern s) \<noteq> idle" and "0 < d" and "\<not> satisfied (bitset (bits_of g s)) v"
  shows "\<exists>k' a'. vTaskPlaceOnUnorderedEventList (xTasksWaitingForBits g) v d (kern s) = Some k'
    \<and> os_core Q (lists_of Q G) T idle (s\<lparr>kern := k'\<rparr>) a' \<and> no_missed G (s\<lparr>kern := k'\<rparr>)
    \<and> uxSchedulerSuspended k' = uxSchedulerSuspended (kern s) \<and> pxCurrentTCB k' = pxCurrentTCB (kern s)
    \<and> waits_for g (pxCurrentTCB (kern s)) k' \<and> value_of (EventItem (pxCurrentTCB (kern s))) k' = or v taskEVENT_LIST_ITEM_VALUE_IN_USE
    \<and> (\<forall>t. t \<noteq> pxCurrentTCB (kern s) \<longrightarrow> moved G t (kern s) k') \<and> xPendedTicks k' = xPendedTicks (kern s) \<and> tcb k' = tcb (kern s)"
proof -
  define t where "t = pxCurrentTCB (kern s)"
  have s: "os_core Q (lists_of Q G) T idle s a" "is_ready a t" "stored Q G s bs" "no_missed G s"
    using assms(1) by (simp_all add: section_ok_def t_def)
  have e: "g + 4 \<in> lists_of Q G" using assms(2) by (auto simp: lists_of_def)
  have ok: "kernel_ok (lists_of Q G) T idle (kern s) a" using os_coreD(1) [OF s(1)] s(2) by (simp add: kernel_ok_core t_def)
  obtain k' a' where r: "vTaskPlaceOnUnorderedEventList (EventList (g + 4)) v d (kern s) = Some k'" "kernel_core (lists_of Q G) T idle k' a'"
    "if d = portMAX_DELAY
       then holder a' = (holder a)(EventItem t := Some (EventList (g + 4)), StateItem t := Some SuspendedTaskList) \<and> itemval a' = (itemval a)(EventItem t := or v taskEVENT_LIST_ITEM_VALUE_IN_USE)
       else (\<exists>m \<in> sleeping. holder a' = (holder a)(EventItem t := Some (EventList (g + 4)), StateItem t := Some m))
          \<and> itemval a' = (itemval a)(EventItem t := or v taskEVENT_LIST_ITEM_VALUE_IN_USE, StateItem t := xTickCount (kern s) + d)"
    "pxCurrentTCB k' = t" "uxSchedulerSuspended k' = uxSchedulerSuspended (kern s)" "uxCurrentNumberOfTasks k' = uxCurrentNumberOfTasks (kern s)"
    "xPendedTicks k' = xPendedTicks (kern s)" "tcb k' = tcb (kern s)"
    using place_unordered_waits [OF ok section_suspended [OF assms(1)] assms(3) e assms(4), of v] unfolding t_def by blast
  have h: "holder a' (EventItem u) = (if u = t then Some (EventList (g + 4)) else holder a (EventItem u))"
      "itemval a' (EventItem u) = (if u = t then or v taskEVENT_LIST_ITEM_VALUE_IN_USE else itemval a (EventItem u))"
      "holder a' (StateItem u) \<noteq> None \<longleftrightarrow> u = t \<or> holder a (StateItem u) \<noteq> None" for u
    using r(3) by (auto split: if_splits)
  have c: "os_core Q (lists_of Q G) T idle (s\<lparr>kern := k'\<rparr>) a'"
    using r(2,6) h(3) s(1) by (simp add: os_core_def)
  have mv: "moved G u (kern s) k'" if "u \<noteq> t" for u using that moved_alists [where t = u and G = G, OF s(1) c] by (simp add: h)
  note b1 = kernel_coreD(2) [OF os_coreD(1) [OF s(1)]] and b2 = kernel_coreD(2) [OF r(2)]
  have me: "waits_for g t k'" "value_of (EventItem t) k' = or v taskEVENT_LIST_ITEM_VALUE_IN_USE"
    by (simp_all add: waits_for_def container_holder [OF b2] value_itemval [OF b2] h xTasksWaitingForBits_def)
  have "no_missed G (s\<lparr>kern := k'\<rparr>)" unfolding no_missed_def
  proof (intro ballI conjI allI impI)
    fix x u assume x: "x \<in> G" and w: "waits_for x u (kern (s\<lparr>kern := k'\<rparr>))"
    have old: "waits_for x u (kern s)" "value_of (EventItem u) k' = value_of (EventItem u) (kern s)" if "u \<noteq> t"
      using w that by (simp_all add: waits_for_def container_holder [OF b2] container_holder [OF b1] value_itemval [OF b1] value_itemval [OF b2] h)
    have new: "x = g" if "u = t" using w that by (simp add: waits_for_def container_holder [OF b2] h xTasksWaitingForBits_def)
    have in_use: "used t k'" unfolding used_def me(2) by (auto simp: zero_bits word_bits)
    have un: "\<not> satisfied (bitset (bits_of g s)) (or v taskEVENT_LIST_ITEM_VALUE_IN_USE)"
      using assms(5) by (auto simp: satisfied_def needs_all_def bitset_or word_bits)
    show "used u (kern (s\<lparr>kern := k'\<rparr>))" using old s(4) x in_use by (cases "u = t") (auto simp: no_missed_def used_def)
    show "\<not> satisfied (bitset (bits_of x (s\<lparr>kern := k'\<rparr>))) (value_of (EventItem u) (kern (s\<lparr>kern := k'\<rparr>)))"
      using old s(4) x new un me(2) by (cases "u = t") (auto simp: no_missed_def)
  qed (use s(4) in \<open>simp add: no_missed_def\<close>)
  then show ?thesis using r(1,4,5,7,8) me c mv
    unfolding t_def xTasksWaitingForBits_def by blast
qed

section \<open>The calls\<close>

text \<open>What a task that waits writes into its event item, and the condition as a test on sets.\<close>

definition wait_value :: "u32 \<Rightarrow> bool \<Rightarrow> bool \<Rightarrow> u32" where
  "wait_value want clear all = or want
     (let c = 0; c = (if clear then or c eventCLEAR_EVENTS_ON_EXIT_BIT else c) in if all then or c eventWAIT_FOR_ALL_BITS else c)"

lemma wait_value_parts:
  assumes "only_bits want"
  shows "bitset (wait_value want clear all) = bitset want" "needs_all (wait_value want clear all) = all" "clears (wait_value want clear all) = clear"
  using assms by (auto simp: wait_value_def bitset_or needs_all_def clears_def word_bits only_bits_code)

lemma prvTestWaitCondition_sets:
  assumes "only_bits want"
  shows "prvTestWaitCondition bits want all \<longleftrightarrow> satisfied (bitset bits) (wait_value want clear all)"
proof -
  have "and bits want \<noteq> 0 \<longleftrightarrow> bitset want \<inter> bitset bits \<noteq> {}"
    using assms by (auto simp: zero_bits word_bits bitset_def only_bits_code)
  moreover have "and bits want = want \<longleftrightarrow> bitset want \<subseteq> bitset bits"
    using assms by (auto simp: bit_eq_iff word_bits bitset_def only_bits_code dest: bit_u32)
  ultimately show ?thesis by (simp add: prvTestWaitCondition_def satisfied_def wait_value_parts [OF assms])
qed

text \<open>Clearing bits disturbs nothing.\<close>

lemma clear_bits_keeps:
  assumes "no_missed G s"
  shows "no_missed G (upd_bits g (\<lambda>b. and b (not c)) s)"
  by (rule no_missed_mono [OF assms]) (use assms in \<open>auto simp: no_missed_def bitset_diff only_bits_code word_bits\<close>)

lemma os_sys_bits [simp]: "os_sys T idle G (Q, upd_bits g f s) a bs = os_sys T idle G (Q, s) a bs"
  by (simp add: os_sys_def stored_def)

lemma section_bits:
  assumes "section_ok T idle G Q s a bs"
  shows "section_ok T idle G Q (upd_bits g (\<lambda>b. and b (not c)) s) a bs"
  using assms clear_bits_keeps [of G s g c] by (simp add: section_ok_def stored_def)

lemma xEventGroupClearBits_step:
  assumes "os_sys T idle G (Q, s) a bs" and "no_missed G s" and "g \<in> G" and "g \<noteq> 0" and "only_bits c"
  shows "\<exists>s'. xEventGroupClearBits g c s = Some (bits_of g s, s') \<and> os_sys T idle G (Q, s') a bs \<and> no_missed G s'"
  using assms clear_bits_keeps [OF assms(2)] by (simp add: xEventGroupClearBits_def only_bits_def)

text \<open>Addresses of groups are not null: they are in blocks of the heap.\<close>

lemma group_nonnull:
  assumes "stored Q G s bs" and "g \<in> G"
  shows "g \<noteq> 0"
proof -
  obtain n where n: "(unat g, n) \<in> payloads bs" using assms unfolding stored_def by blast
  have "placed_high (heap s) bs" using assms(1) by (simp add: stored_def)
  from payload_room(1) [OF this n] have "2 ^ 31 \<le> unat g" .
  then show ?thesis by auto
qed

lemma set_bits_step:
  assumes "os_sys T idle G (Q, s) a bs" and "no_missed G s" and "\<not> swi (kern s)" and "uxSchedulerSuspended (kern s) = 0" and "g \<in> G" and "only_bits b"
  shows "\<exists>s' a'. xEventGroupSetBits (interrupted Q is []) 0 g b s = Some (bits_of g s', s') \<and> os_sys T idle G (Q, s') a' bs \<and> no_missed G s'
    \<and> (\<forall>t. moved G t (kern s) (kern s'))"
proof -
  note b = section_begin [OF assms(1-4)]
  have m0: "moved G t (kern s) (kern (suspend_all s))" for t by (rule moved_lists) (simp add: vTaskSuspendAll_def)
  obtain a1 where d: "section_ok T idle G Q (during Q is (suspend_all s)) a1 bs" "uxSchedulerSuspended (kern (during Q is (suspend_all s))) = 1"
      "\<forall>t. moved G t (kern (suspend_all s)) (kern (during Q is (suspend_all s)))"
    using section_during [OF b(1), of "is"] b(2) by auto
  obtain s2 a2 where r: "set_and_release g b (during Q is (suspend_all s)) = Some s2" "section_ok T idle G Q s2 a2 bs"
      "released (lists_of Q G) (set_free (bitset (bits_of g (during Q is (suspend_all s))) \<union> bitset b) g a1)
         (or (or (bits_of g (during Q is (suspend_all s))) b) eventUNBLOCKED_DUE_TO_BIT_SET) (kern (during Q is (suspend_all s))) a1 (kern s2) a2"
      "\<forall>t. moved G t (kern (during Q is (suspend_all s))) (kern s2)"
    using section_set [OF d(1) assms(5,6) refl] by blast
  have "uxSchedulerSuspended (kern s2) = 1" using r(3) d(2) by (simp add: released_def)
  from section_end [OF r(2) this] obtain y k' a' where e: "resume_all s2 = Some (y, s2\<lparr>kern := k'\<rparr>)" "os_sys T idle G (Q, s2\<lparr>kern := k'\<rparr>) a' bs"
      "no_missed G (s2\<lparr>kern := k'\<rparr>)" "\<forall>t. moved G t (kern s2) k'" by blast
  have m: "moved G t (kern s) k'" for t
    by (rule moved_trans [OF m0 moved_trans [OF spec [OF d(3)] moved_trans [OF spec [OF r(4)] spec [OF e(4)]]]])
  have env: "interrupted Q is [] 0 = during Q is" "interrupted Q is [] (Suc 0) x = x" for x by (simp_all add: interrupted_def during_def fun_eq_iff)
  have "xEventGroupSetBits (interrupted Q is []) 0 g b s = Some (bits_of g (s2\<lparr>kern := k'\<rparr>), s2\<lparr>kern := k'\<rparr>)"
    using r(1) e(1) assms(6) group_nonnull [OF os_sysD(4) [OF assms(1)] assms(5)] by (simp add: set_bits_split only_bits_def env)
  moreover have "moved G t (kern s) (kern (s2\<lparr>kern := k'\<rparr>))" for t using m by simp
  ultimately show ?thesis using e(2,3) by blast
qed

definition awaiting_switch :: "kernel \<Rightarrow> kernel \<Rightarrow> bool" where
  "awaiting_switch k k' \<longleftrightarrow> swi k' \<and> uxSchedulerSuspended k' = 0 \<and> tcb k' = tcb k"

text \<open>
  After the decision to wait the processor is given up; the state is in order with a switch on its way.
\<close>

lemma give_up:
  assumes "os_core Q (lists_of Q G) T idle s a" and "no_missed G s" and "uxSchedulerSuspended (kern s) = 1" and "stored Q G s bs"
  shows "\<exists>y k' a'. resume_all s = Some (y, s\<lparr>kern := k'\<rparr>)
    \<and> os_sys T idle G (Q, if \<not> y then (s\<lparr>kern := k'\<rparr>)\<lparr>kern := yield k'\<rparr> else s\<lparr>kern := k'\<rparr>) a' bs
    \<and> no_missed G (if \<not> y then (s\<lparr>kern := k'\<rparr>)\<lparr>kern := yield k'\<rparr> else s\<lparr>kern := k'\<rparr>)
    \<and> (\<forall>t. value_of (EventItem t) (if \<not> y then yield k' else k') = value_of (EventItem t) (kern s))
    \<and> (\<forall>t. moved G t (kern s) (if \<not> y then yield k' else k'))
    \<and> (\<forall>g t. xPendedTicks (kern s) = 0 \<and> waits_for g t (kern s) \<longrightarrow> waits_for g t (if \<not> y then yield k' else k'))
    \<and> awaiting_switch (kern s) (if \<not> y then yield k' else k')"
proof -
  obtain y k' a' where r: "resume_all s = Some (y, s\<lparr>kern := k'\<rparr>)" "os_core Q (lists_of Q G) T idle (s\<lparr>kern := k'\<rparr>) a'" "uxSchedulerSuspended k' = 0"
    "y \<longrightarrow> swi k'" "holder a' = woken (resumed (kern s) a) (kern s) (holder a)" "itemval a' = itemval a"
    "tcb k' = tcb (kern s)"
    using resume_os [OF assms(1,3)] by blast
  define k'' where "k'' = (if \<not> y then yield k' else k')"
  have k'': "(if \<not> y then (s\<lparr>kern := k'\<rparr>)\<lparr>kern := yield k'\<rparr> else s\<lparr>kern := k'\<rparr>) = s\<lparr>kern := k''\<rparr>" by (simp add: k''_def)
  have f: "swi k''" "uxSchedulerSuspended k'' = 0" using r(3,4) by (simp_all add: k''_def yield_def)
  have aw: "awaiting_switch (kern s) (if \<not> y then yield k' else k')" using f r(7) by (simp add: awaiting_switch_def k''_def yield_def)
  have c: "os_core Q (lists_of Q G) T idle (s\<lparr>kern := k''\<rparr>) a'" using r(2) by (simp add: os_core_def k''_def yield_def)
  have "no_missed G (s\<lparr>kern := k''\<rparr>)"
    by (rule wakes_no_missed [OF assms(1) c assms(2)]) (use r(5,6) in \<open>auto split: if_splits\<close>)
  moreover have "os_sys T idle G (Q, s\<lparr>kern := k''\<rparr>) a' bs" using c f assms(4) by (simp add: os_sys_def stored_def preemptive_def)
  moreover have "\<forall>t. value_of (EventItem t) (if \<not> y then yield k' else k') = value_of (EventItem t) (kern s)"
    unfolding k''_def [symmetric] using r(6) value_itemval [OF kernel_coreD(2) [OF os_coreD(1) [OF c]]] value_itemval [OF kernel_coreD(2) [OF os_coreD(1) [OF assms(1)]]] by simp
  moreover have "\<forall>t. moved G t (kern s) (if \<not> y then yield k' else k')"
    unfolding k''_def [symmetric] using moved_resumed [OF assms(1) c r(5,6)] by simp
  moreover have "waits_for g t k''" if "xPendedTicks (kern s) = 0" "waits_for g t (kern s)" for g t
  proof -
    note b = kernel_coreD(2) [OF os_coreD(1) [OF assms(1)]] kernel_coreD(2) [OF os_coreD(1) [OF c]]
    have h: "holder a (EventItem t) = Some (xTasksWaitingForBits g)" using that(2) by (simp add: waits_for_def container_holder [OF b(1)])
    have "0 < remaining (kern s) a t" if "asleep a t" by (rule remaining_pos [OF kernel_coreD(1) [OF os_coreD(1) [OF assms(1)]] that])
    then have "\<not> resumed (kern s) a t" using that(1) h by (auto simp: resumed_def pending_def xTasksWaitingForBits_def)
    then show ?thesis using h container_holder [OF b(2)] by (simp add: waits_for_def r(5))
  qed
  then have "\<forall>g t. xPendedTicks (kern s) = 0 \<and> waits_for g t (kern s) \<longrightarrow> waits_for g t (if \<not> y then yield k' else k')" by (simp add: k''_def)
  ultimately show ?thesis using r(1) aw unfolding k''[symmetric] by blast
qed

text \<open>Both together.\<close>

lemma sleep_and_give_up:
  assumes "section_ok T idle G Q s a bs" and "uxSchedulerSuspended (kern s) = 1" and "g \<in> G" and "pxCurrentTCB (kern s) \<noteq> idle"
    and "d \<noteq> 0" and "\<not> satisfied (bitset (bits_of g s)) v"
  shows "\<exists>s' a'. (do { s \<leftarrow> on_kernel (vTaskPlaceOnUnorderedEventList (xTasksWaitingForBits g) v d) s; (y, s) \<leftarrow> resume_all s;
        Some (0, True, if \<not> y then s\<lparr>kern := yield (kern s)\<rparr> else s) }) = Some (0 :: u32, True, s')
    \<and> os_sys T idle G (Q, s') a' bs \<and> no_missed G s' \<and> group s' = group s
    \<and> value_of (EventItem (pxCurrentTCB (kern s))) (kern s') = or v taskEVENT_LIST_ITEM_VALUE_IN_USE
    \<and> (\<forall>t. t \<noteq> pxCurrentTCB (kern s) \<longrightarrow> moved G t (kern s) (kern s'))
    \<and> (xPendedTicks (kern s) = 0 \<longrightarrow> waits_for g (pxCurrentTCB (kern s)) (kern s')) \<and> awaiting_switch (kern s) (kern s')"
proof -
  have d0: "0 < d" using assms(5) by (simp add: word_gt_0)
  obtain k2 a2 where p: "vTaskPlaceOnUnorderedEventList (xTasksWaitingForBits g) v d (kern s) = Some k2"
    "os_core Q (lists_of Q G) T idle (s\<lparr>kern := k2\<rparr>) a2" "no_missed G (s\<lparr>kern := k2\<rparr>)"
    "uxSchedulerSuspended k2 = uxSchedulerSuspended (kern s)" "value_of (EventItem (pxCurrentTCB (kern s))) k2 = or v taskEVENT_LIST_ITEM_VALUE_IN_USE"
    "\<forall>t. t \<noteq> pxCurrentTCB (kern s) \<longrightarrow> moved G t (kern s) k2"
    "waits_for g (pxCurrentTCB (kern s)) k2" "xPendedTicks k2 = xPendedTicks (kern s)" "tcb k2 = tcb (kern s)"
    using section_sleep [OF assms(1,3,4) d0 assms(6)] by blast
  define s2 where "s2 = s\<lparr>kern := k2\<rparr>"
  have st: "stored Q G s2 bs" using assms(1) by (simp add: section_ok_def stored_def s2_def)
  have su: "uxSchedulerSuspended (kern s2) = 1" using p(4) assms(2) by (simp add: s2_def)
  obtain y k' a' where e: "resume_all s2 = Some (y, s2\<lparr>kern := k'\<rparr>)"
     "os_sys T idle G (Q, if \<not> y then (s2\<lparr>kern := k'\<rparr>)\<lparr>kern := yield k'\<rparr> else s2\<lparr>kern := k'\<rparr>) a' bs"
     "no_missed G (if \<not> y then (s2\<lparr>kern := k'\<rparr>)\<lparr>kern := yield k'\<rparr> else s2\<lparr>kern := k'\<rparr>)"
     "\<forall>t. value_of (EventItem t) (if \<not> y then yield k' else k') = value_of (EventItem t) (kern s2)" "\<forall>t. moved G t (kern s2) (if \<not> y then yield k' else k')"
     "\<forall>g t. xPendedTicks (kern s2) = 0 \<and> waits_for g t (kern s2) \<longrightarrow> waits_for g t (if \<not> y then yield k' else k')"
     "awaiting_switch (kern s2) (if \<not> y then yield k' else k')"
    using give_up [OF p(2,3) [folded s2_def] su st] by blast
  define s3 where "s3 = (if \<not> y then (s2\<lparr>kern := k'\<rparr>)\<lparr>kern := yield k'\<rparr> else s2\<lparr>kern := k'\<rparr>)"
  have k3: "kern s3 = (if \<not> y then yield k' else k')" "group s3 = group s" by (simp_all add: s3_def s2_def)
  have "moved G t (kern s) (kern s3)" if "t \<noteq> pxCurrentTCB (kern s)" for t
    using moved_trans [of G t "kern s" k2 "kern s3"] p(6) that e(5) by (simp add: k3(1) s2_def)
  moreover have "waits_for g (pxCurrentTCB (kern s)) (kern s3)" if "xPendedTicks (kern s) = 0"
    unfolding k3(1) using e(6) p(7,8) that by (simp add: s2_def)
  moreover have "awaiting_switch (kern s) (kern s3)" unfolding k3(1) using e(7) p(9) by (simp add: awaiting_switch_def s2_def)
  ultimately show ?thesis using p(1,5) e(1-4) [folded s3_def] k3
    by (intro exI [of _ s3] exI [of _ a']) (simp add: on_kernel_def s2_def [symmetric], simp add: s2_def s3_def)
qed

text \<open>
  Up to the point where the task gives up the processor: it returns at once if the condition holds or no
  time is given, else it sleeps, with what it waits for in its event item.
\<close>

definition wait_begun :: "u32 \<Rightarrow> u32 \<Rightarrow> bool \<Rightarrow> bool \<Rightarrow> u32 \<Rightarrow> os \<Rightarrow> u32 \<times> bool \<times> os \<Rightarrow> bool" where
  "wait_begun g want clear all d s x \<longleftrightarrow> (case x of (r, w, s') \<Rightarrow>
     (if prvTestWaitCondition (bits_of g s) want all
      then r = bits_of g s \<and> \<not> w \<and> bits_of g s' = (if clear then and (bits_of g s) (not want) else bits_of g s)
      else if d = 0 then r = bits_of g s \<and> \<not> w \<and> bits_of g s' = bits_of g s
      else w \<and> bits_of g s' = bits_of g s
        \<and> value_of (EventItem (pxCurrentTCB (kern s))) (kern s') = or (wait_value want clear all) taskEVENT_LIST_ITEM_VALUE_IN_USE))"

lemma wait_bits_step:
  assumes "os_sys T idle G (Q, s) a bs" and "no_missed G s" and "\<not> swi (kern s)" and "uxSchedulerSuspended (kern s) = 0" and "g \<in> G"
    and "pxCurrentTCB (kern s) \<noteq> idle" and "only_bits want" and "want \<noteq> 0"
  shows "\<exists>r w s' a'. wait_bits_begin (interrupted Q is []) 0 g want clear all d s = Some (r, w, s') \<and> os_sys T idle G (Q, s') a' bs \<and> no_missed G s'
    \<and> wait_begun g want clear all d s (r, w, s') \<and> (\<forall>t. t \<noteq> pxCurrentTCB (kern s) \<longrightarrow> moved G t (kern s) (kern s'))
    \<and> (w \<and> is = [] \<longrightarrow> waits_for g (pxCurrentTCB (kern s)) (kern s')) \<and> (w \<longrightarrow> awaiting_switch (kern s) (kern s'))"
proof -
  note b = section_begin [OF assms(1-4)]
  have m0: "moved G t (kern s) (kern (suspend_all s))" for t by (rule moved_lists) (simp add: vTaskSuspendAll_def)
  define s1 where "s1 = during Q is (suspend_all s)"
  obtain a1 where d: "section_ok T idle G Q s1 a1 bs" "uxSchedulerSuspended (kern s1) = 1" "group s1 = group s" "pxCurrentTCB (kern s1) = pxCurrentTCB (kern s)"
    "\<forall>t. moved G t (kern (suspend_all s)) (kern s1)" "tcb (kern s1) = tcb (kern s)"
    using section_during [OF b(1), of "is"] b(2) by (auto simp: s1_def) (simp add: vTaskSuspendAll_def suspend_all_def)
  have b1: "bits_of h s1 = bits_of h s" for h by (simp add: bits_of_def d(3))
  have m1: "moved G t (kern s) (kern s1)" for t by (rule moved_trans [OF m0 spec [OF d(5)]])
  have env: "interrupted Q is [] 0 (suspend_all s) = s1" by (simp add: interrupted_def s1_def)
  have g0: "g \<noteq> 0" by (rule group_nonnull [OF os_sysD(4) [OF assms(1)] assms(5)])
  have run: "xTaskGetSchedulerState (kern s) \<noteq> taskSCHEDULER_SUSPENDED"
    using assms(4) by (simp add: xTaskGetSchedulerState_def)
  define C where "C \<longleftrightarrow> prvTestWaitCondition (bits_of g s) want all"
  define v where "v = wait_value want clear all"
  have code: "wait_bits_begin (interrupted Q is []) 0 g want clear all d s =
      (if C then do { (y, x) \<leftarrow> resume_all (if clear then upd_bits g (\<lambda>b. and b (not want)) s1 else s1); Some (bits_of g s, False, x) }
       else if d = 0 then do { (y, x) \<leftarrow> resume_all s1; Some (bits_of g s1, False, x) }
       else do { s \<leftarrow> on_kernel (vTaskPlaceOnUnorderedEventList (xTasksWaitingForBits g) v d) s1; (y, s) \<leftarrow> resume_all s;
         Some (0, True, if \<not> y then s\<lparr>kern := yield (kern s)\<rparr> else s) })"
    using g0 assms(7,8) run by (simp add: wait_bits_begin_def Let_def env b1 C_def v_def wait_value_def only_bits_def)
  consider "C" | "\<not> C" "d = 0" | "\<not> C" "d \<noteq> 0" by blast
  then show ?thesis
  proof cases
    case 1
    define s2 where "s2 = (if clear then upd_bits g (\<lambda>b. and b (not want)) s1 else s1)"
    have "section_ok T idle G Q s2 a1 bs" "uxSchedulerSuspended (kern s2) = 1" using section_bits [OF d(1)] d(1,2) by (simp_all add: s2_def)
    from section_end [OF this] obtain y k' a' where e: "resume_all s2 = Some (y, s2\<lparr>kern := k'\<rparr>)" "os_sys T idle G (Q, s2\<lparr>kern := k'\<rparr>) a' bs"
      "no_missed G (s2\<lparr>kern := k'\<rparr>)" "\<forall>t. moved G t (kern s2) k'" by blast
    have "kern s2 = kern s1" by (simp add: s2_def)
    then have "moved G t (kern s) k'" for t using moved_trans [OF m1] e(4) by metis
    moreover have "wait_begun g want clear all d s (bits_of g s, False, s2\<lparr>kern := k'\<rparr>)" using 1 by (simp add: wait_begun_def C_def s2_def b1)
    ultimately show ?thesis using e 1 unfolding code s2_def [symmetric] by auto
  next
    case 2
    obtain y k' a' where e: "resume_all s1 = Some (y, s1\<lparr>kern := k'\<rparr>)" "os_sys T idle G (Q, s1\<lparr>kern := k'\<rparr>) a' bs"
      "no_missed G (s1\<lparr>kern := k'\<rparr>)" "\<forall>t. moved G t (kern s1) k'" using section_end [OF d(1,2)] by blast
    then have "moved G t (kern s) k'" for t using moved_trans [OF m1] by blast
    moreover have "wait_begun g want clear all d s (bits_of g s1, False, s1\<lparr>kern := k'\<rparr>)" using 2 by (simp add: wait_begun_def C_def b1)
    ultimately show ?thesis using e 2 unfolding code by auto
  next
    case 3
    have un: "\<not> satisfied (bitset (bits_of g s1)) v" using 3(1) prvTestWaitCondition_sets [OF assms(7)] by (simp add: C_def v_def b1)
    have idl: "pxCurrentTCB (kern s1) \<noteq> idle" using assms(6) d(4) by simp
    obtain s3 a3 where e: "(do { s \<leftarrow> on_kernel (vTaskPlaceOnUnorderedEventList (xTasksWaitingForBits g) v d) s1; (y, s) \<leftarrow> resume_all s;
        Some (0, True, if \<not> y then s\<lparr>kern := yield (kern s)\<rparr> else s) }) = Some (0 :: u32, True, s3)"
      "os_sys T idle G (Q, s3) a3 bs" "no_missed G s3" "group s3 = group s1"
      "value_of (EventItem (pxCurrentTCB (kern s1))) (kern s3) = or v taskEVENT_LIST_ITEM_VALUE_IN_USE"
      "\<forall>t. t \<noteq> pxCurrentTCB (kern s1) \<longrightarrow> moved G t (kern s1) (kern s3)"
      "xPendedTicks (kern s1) = 0 \<longrightarrow> waits_for g (pxCurrentTCB (kern s1)) (kern s3)" "awaiting_switch (kern s1) (kern s3)"
      using sleep_and_give_up [OF d(1,2) assms(5) idl 3(2) un] by blast
    have "moved G t (kern s) (kern s3)" if "t \<noteq> pxCurrentTCB (kern s)" for t using that moved_trans [OF m1] e(6) d(4) by simp
    moreover have "awaiting_switch (kern s) (kern s3)" using e(8) d(6) by (simp add: awaiting_switch_def)
    moreover have "waits_for g (pxCurrentTCB (kern s)) (kern s3)" if "is = []"
      using e(7) d(4) that kernel_coreD(9) [OF os_coreD(1) [OF os_sysD(1) [OF assms(1)]] assms(4)] by (simp add: s1_def during_def vTaskSuspendAll_def)
    moreover have "wait_begun g want clear all d s (0, True, s3)" using 3 e(4,5) d(3,4) by (simp add: wait_begun_def C_def v_def bits_of_def)
    ultimately show ?thesis using e(1-3) 3 unfolding code if_not_P [OF 3(1)] if_not_P [OF 3(2)] by blast
  qed
qed

text \<open>
  When the task runs again: the value left by whoever set the bits, or the bits of the group now if the time
  ran out. The event item gets its ordinary value back.
\<close>

lemma reset_event_item:
  assumes "os_sys T idle G (Q, s) a bs" and "no_missed G s" and "\<not> swi (kern s)"
  shows "\<exists>k' a'. uxTaskResetEventItemValue (kern s) = Some (value_of (EventItem (pxCurrentTCB (kern s))) (kern s), k')
    \<and> os_sys T idle G (Q, s\<lparr>kern := k'\<rparr>) a' bs \<and> no_missed G (s\<lparr>kern := k'\<rparr>)
    \<and> (\<forall>t. t \<noteq> pxCurrentTCB (kern s) \<longrightarrow> moved G t (kern s) k')"
proof -
  define t where "t = pxCurrentTCB (kern s)"
  note os = os_sysD [OF assms(1)] and core = kernel_coreD [OF os_coreD(1) [OF os_sysD(1) [OF assms(1)]]]
  have rd: "is_ready a t" using os(3) assms(3) by (simp add: t_def)
  have none: "holder a (EventItem t) = None"
  proof (rule ccontr)
    assume "holder a (EventItem t) \<noteq> None"
    then obtain m where "m \<in> insert SuspendedTaskList sleeping" "holder a (StateItem t) = Some m" using core(5) unfolding waits_ok_def by blast
    then show False using rd by (auto simp: is_ready_def sleeping_def)
  qed
  define p where "p = configMAX_PRIORITIES - uxPriority (tcb (kern s) t)"
  define k' where "k' = set_value (EventItem t) p (kern s)"
  define a' where "a' = a_set_value (EventItem t) p a"
  have b': "kernel_base (lists_of Q G) T k' a'" unfolding k'_def a'_def by (rule set_value_base [OF core(2)]) (simp add: none)
  have h: "holder a' = holder a" "itemval a' j = (if j = EventItem t then p else itemval a j)" for j by (auto simp: a'_def)
  have k: "tcb k' = tcb (kern s)" "pxCurrentTCB k' = t" "xTickCount k' = xTickCount (kern s)" "swi k' = swi (kern s)" "uxSchedulerSuspended k' = uxSchedulerSuspended (kern s)"
    "xPendedTicks k' = xPendedTicks (kern s)" "uxCurrentNumberOfTasks k' = uxCurrentNumberOfTasks (kern s)" "xSchedulerRunning k' = xSchedulerRunning (kern s)"
    "xYieldPending k' = xYieldPending (kern s)" "pxDelayedTaskList k' = pxDelayedTaskList (kern s)" "pxOverflowDelayedTaskList k' = pxOverflowDelayedTaskList (kern s)"
    "xNextTaskUnblockTime k' = xNextTaskUnblockTime (kern s)" by (simp_all add: k'_def set_value_def t_def)
  have "itemval a' i = itemval a i" if "holder a i = Some l" for i l using that none by (auto simp: h)
  then have "times_ok k' a'" using core(3) unfolding times_ok_def k h(1) by metis
  then have "kernel_core (lists_of Q G) T idle k' a'"
    using os_coreD(1) [OF os(1)] b' by (simp add: kernel_core_def kernel_inv_def settled_def waits_ok_def pending_def is_ready_def h(1) k)
  then have c: "os_core Q (lists_of Q G) T idle (s\<lparr>kern := k'\<rparr>) a'" using os_coreD(2-4) [OF os(1)] by (simp add: os_core_def h(1) k)
  have "no_missed G (s\<lparr>kern := k'\<rparr>)"
    by (rule wakes_no_missed [OF os(1) c assms(2)]) (use none in \<open>auto simp: h\<close>)
  moreover have "os_sys T idle G (Q, s\<lparr>kern := k'\<rparr>) a' bs"
    using c os(2-4) unfolding os_sys_def preemptive_def is_ready_def by (simp add: h(1) k stored_def t_def)
  moreover have "moved G u (kern s) k'" if "u \<noteq> t" for u using that moved_alists [where t = u and G = G, OF os(1) c] by (simp add: h)
  moreover have "TCB t (kern s) = Some (tcb (kern s) t)"
    using TCB_task [OF kernel_baseD(2) [OF core(2)] tasks_okD(1) [OF kernel_baseD(2) [OF core(2)]]] by (simp add: t_def)
  then have "uxTaskResetEventItemValue (kern s) = Some (value_of (EventItem t) (kern s), k')"
    by (simp add: uxTaskResetEventItemValue_def t_def [symmetric] k'_def p_def)
  ultimately show ?thesis unfolding t_def by blast
qed

definition wait_ended :: "u32 \<Rightarrow> u32 \<Rightarrow> bool \<Rightarrow> bool \<Rightarrow> os \<Rightarrow> u32 \<Rightarrow> os \<Rightarrow> bool" where
  "wait_ended g want clear all s r s' \<longleftrightarrow> (let v = value_of (EventItem (pxCurrentTCB (kern s))) (kern s) in
     if bit v 25 then r = and v (not eventEVENT_BITS_CONTROL_BYTES) \<and> bits_of g s' = bits_of g s
     else r = bits_of g s \<and> bits_of g s' = (if prvTestWaitCondition r want all \<and> clear then and r (not want) else r))"

lemma unblocked_code: "and v eventUNBLOCKED_DUE_TO_BIT_SET = 0 \<longleftrightarrow> \<not> bit v 25"
  by (auto simp: zero_bits word_bits)

lemma only_bits_mask: "only_bits w \<Longrightarrow> and w (not eventEVENT_BITS_CONTROL_BYTES) = w"
  by (auto simp: only_bits_code bit_eq_iff word_bits dest: bit_u32)

lemma wait_end_step:
  assumes "os_sys T idle G (Q, s) a bs" and "no_missed G s" and "\<not> swi (kern s)" and "g \<in> G"
  shows "\<exists>r s' a'. wait_bits_end g want clear all s = Some (r, s') \<and> os_sys T idle G (Q, s') a' bs \<and> no_missed G s' \<and> wait_ended g want clear all s r s'
    \<and> (\<forall>t. t \<noteq> pxCurrentTCB (kern s) \<longrightarrow> moved G t (kern s) (kern s'))"
proof -
  obtain k' a' where r: "uxTaskResetEventItemValue (kern s) = Some (value_of (EventItem (pxCurrentTCB (kern s))) (kern s), k')"
    "os_sys T idle G (Q, s\<lparr>kern := k'\<rparr>) a' bs" "no_missed G (s\<lparr>kern := k'\<rparr>)"
    "\<forall>t. t \<noteq> pxCurrentTCB (kern s) \<longrightarrow> moved G t (kern s) k'" using reset_event_item [OF assms(1-3)] by blast
  define v where "v = value_of (EventItem (pxCurrentTCB (kern s))) (kern s)"
  define s1 where "s1 = s\<lparr>kern := k'\<rparr>"
  define s' where "s' = (if \<not> bit v 25 \<and> prvTestWaitCondition (bits_of g s) want all \<and> clear then upd_bits g (\<lambda>b. and b (not want)) s1 else s1)"
  define x where "x = (if bit v 25 then v else bits_of g s)"
  have "wait_bits_end g want clear all s = Some (and x (not eventEVENT_BITS_CONTROL_BYTES), s')"
    using r(1) by (simp add: wait_bits_end_def Let_def unblocked_code v_def [symmetric] s1_def [symmetric] s'_def x_def) (simp add: s1_def)
  moreover have "only_bits (bits_of g s)" using assms(2,4) by (simp add: no_missed_def)
  then have "wait_ended g want clear all s (and x (not eventEVENT_BITS_CONTROL_BYTES)) s'"
    by (simp add: wait_ended_def Let_def v_def [symmetric] x_def s'_def s1_def only_bits_mask)
  moreover have "os_sys T idle G (Q, s') a' bs" "no_missed G s'" using r(2,3) clear_bits_keeps by (simp_all add: s'_def s1_def)
  moreover have "kern s' = k'" by (simp add: s'_def s1_def)
  then have "\<forall>t. t \<noteq> pxCurrentTCB (kern s) \<longrightarrow> moved G t (kern s) (kern s')" using r(4) by simp
  ultimately show ?thesis by blast
qed

lemma test_all: "prvTestWaitCondition u want True = (and u want = want)"
  by (simp add: prvTestWaitCondition_def)

lemma sync_end_code: "sync_end g want s = wait_bits_end g want True True s"
  unfolding sync_end_def wait_bits_end_def Let_def test_all if_True by (rule refl)

text \<open>
  The rendezvous sets its bits while the scheduler stays suspended, then meets the others or waits for all
  of its bits.
\<close>

definition sync_begun :: "u32 \<Rightarrow> u32 \<Rightarrow> u32 \<Rightarrow> u32 \<Rightarrow> os \<Rightarrow> u32 \<times> bool \<times> os \<Rightarrow> bool" where
  "sync_begun g b want d s x \<longleftrightarrow> (case x of (r, w, s') \<Rightarrow>
     (if prvTestWaitCondition (or (bits_of g s) b) want True
      then r = or (bits_of g s) b \<and> \<not> w \<and> bitset (bits_of g s') \<inter> bitset want = {}
      else if d = 0 then r = bits_of g s' \<and> \<not> w
      else w \<and> value_of (EventItem (pxCurrentTCB (kern s))) (kern s') = or (wait_value want True True) taskEVENT_LIST_ITEM_VALUE_IN_USE))"

lemma sync_step:
  assumes "os_sys T idle G (Q, s) a bs" and "no_missed G s" and "\<not> swi (kern s)" and "uxSchedulerSuspended (kern s) = 0" and "g \<in> G"
    and "pxCurrentTCB (kern s) \<noteq> idle" and "only_bits b" and "only_bits want" and "want \<noteq> 0"
  shows "\<exists>r w s' a'. sync_begin (interrupted Q is1 is2) 0 g b want d s = Some (r, w, s') \<and> os_sys T idle G (Q, s') a' bs \<and> no_missed G s'
    \<and> sync_begun g b want d s (r, w, s') \<and> (\<forall>t. t \<noteq> pxCurrentTCB (kern s) \<longrightarrow> moved G t (kern s) (kern s'))"
proof -
  define t where "t = pxCurrentTCB (kern s)"
  note b = section_begin [OF assms(1-4)]
  note b2 = section_nested [OF b]
  define s1 where "s1 = during Q is1 (suspend_all (suspend_all s))"
  have t0: "pxCurrentTCB (kern (suspend_all (suspend_all s))) = t" by (simp add: t_def vTaskSuspendAll_def)
  have m0: "moved G u (kern s) (kern (suspend_all (suspend_all s)))" for u by (rule moved_lists) (simp add: vTaskSuspendAll_def)
  obtain a1 where d1: "section_ok T idle G Q s1 a1 bs" "uxSchedulerSuspended (kern s1) = 2" "group s1 = group s" "pxCurrentTCB (kern s1) = t"
    "\<forall>t. moved G t (kern (suspend_all (suspend_all s))) (kern s1)"
    using section_during [OF b2(1), of is1] b2(2) t0 by (auto simp: s1_def) (simp add: suspend_all_def)
  have bi1: "bits_of h s1 = bits_of h s" for h by (simp add: bits_of_def d1(3))
  obtain s2 a2 where r2: "set_and_release g b s1 = Some s2" "section_ok T idle G Q s2 a2 bs"
    "released (lists_of Q G) (set_free (bitset (bits_of g s) \<union> bitset b) g a1) (or (or (bits_of g s) b) eventUNBLOCKED_DUE_TO_BIT_SET) (kern s1) a1 (kern s2) a2"
    "bitset (bits_of g s2) = (bitset (bits_of g s) \<union> bitset b) - taken (bitset (bits_of g s) \<union> bitset b) g a1"
    "\<forall>t. moved G t (kern s1) (kern s2)"
    using section_set [OF d1(1) assms(5,7) refl] unfolding bi1 by blast
  have f2: "uxSchedulerSuspended (kern s2) = 2" "pxCurrentTCB (kern s2) = t" using r2(3) d1(2,4) by (simp_all add: released_def)
  obtain s3 where r3: "resume_all s2 = Some (False, s3)" "section_ok T idle G Q s3 a2 bs" "uxSchedulerSuspended (kern s3) = 1" "pxCurrentTCB (kern s3) = t" "group s3 = group s2"
      "lists (kern s3) = lists (kern s2)"
    using section_inner_end [OF r2(2) f2(1)] f2(2) by auto
  define s4 where "s4 = during Q is2 s3"
  obtain a4 where d4: "section_ok T idle G Q s4 a4 bs" "uxSchedulerSuspended (kern s4) = 1" "group s4 = group s3" "pxCurrentTCB (kern s4) = t"
      "\<forall>t. moved G t (kern s3) (kern s4)"
    using section_during [OF r3(2), of is2] r3(3,4) by (auto simp: s4_def)
  have m4: "moved G u (kern s) (kern s4)" for u
    by (rule moved_trans [OF m0 moved_trans [OF spec [OF d1(5)] moved_trans [OF spec [OF r2(5)] moved_trans [OF moved_lists [OF r3(6)] spec [OF d4(5)]]]]])
  have bi4: "bits_of h s4 = bits_of h s2" for h by (simp add: bits_of_def d4(3) r3(5))
  have g0: "g \<noteq> 0" by (rule group_nonnull [OF os_sysD(4) [OF assms(1)] assms(5)])
  have run: "xTaskGetSchedulerState (kern s) \<noteq> taskSCHEDULER_SUSPENDED" using assms(4) by (simp add: xTaskGetSchedulerState_def)
  have env: "interrupted Q is1 is2 0 (suspend_all (suspend_all s)) = s1" "interrupted Q is1 is2 (Suc 0) s3 = s4" by (simp_all add: interrupted_def s1_def s4_def)
  have set: "xEventGroupSetBits (interrupted Q is1 is2) 0 g b (suspend_all s) = Some (bits_of g s4, s4)"
    using g0 assms(7) r2(1) r3(1) by (simp add: set_bits_split only_bits_def env)
  define B where "B = or (bits_of g s) b"
  define v where "v = wait_value want True True"
  have code: "sync_begin (interrupted Q is1 is2) 0 g b want d s =
      (if prvTestWaitCondition B want True then do { (y, x) \<leftarrow> resume_all (upd_bits g (\<lambda>b. and b (not want)) s4); Some (B, False, x) }
       else if d = 0 then do { (y, x) \<leftarrow> resume_all s4; Some (bits_of g s4, False, x) }
       else do { s \<leftarrow> on_kernel (vTaskPlaceOnUnorderedEventList (xTasksWaitingForBits g) v d) s4; (y, s) \<leftarrow> resume_all s;
         Some (0, True, if \<not> y then s\<lparr>kern := yield (kern s)\<rparr> else s) })"
    using assms(8,9) run set by (simp add: sync_begin_def Let_def test_all B_def v_def wait_value_def only_bits_def or.assoc)
  consider "prvTestWaitCondition B want True" | "\<not> prvTestWaitCondition B want True" "d = 0" | "\<not> prvTestWaitCondition B want True" "d \<noteq> 0" by blast
  then show ?thesis
  proof cases
    case 1
    define s5 where "s5 = upd_bits g (\<lambda>b. and b (not want)) s4"
    have "section_ok T idle G Q s5 a4 bs" "uxSchedulerSuspended (kern s5) = 1" using section_bits [OF d4(1)] d4(2) by (simp_all add: s5_def)
    from section_end [OF this] obtain y k' a' where e: "resume_all s5 = Some (y, s5\<lparr>kern := k'\<rparr>)" "os_sys T idle G (Q, s5\<lparr>kern := k'\<rparr>) a' bs"
      "no_missed G (s5\<lparr>kern := k'\<rparr>)" "\<forall>t. moved G t (kern s5) k'" by blast
    have "kern s5 = kern s4" by (simp add: s5_def)
    then have "moved G u (kern s) k'" for u using moved_trans [OF m4] e(4) by metis
    moreover have "sync_begun g b want d s (B, False, s5\<lparr>kern := k'\<rparr>)" using 1 by (simp add: sync_begun_def B_def [symmetric] s5_def bitset_diff) blast
    ultimately show ?thesis using e 1 unfolding code s5_def [symmetric] by auto
  next
    case 2
    obtain y k' a' where e: "resume_all s4 = Some (y, s4\<lparr>kern := k'\<rparr>)" "os_sys T idle G (Q, s4\<lparr>kern := k'\<rparr>) a' bs"
      "no_missed G (s4\<lparr>kern := k'\<rparr>)" "\<forall>t. moved G t (kern s4) k'" using section_end [OF d4(1,2)] by blast
    then have "moved G u (kern s) k'" for u using moved_trans [OF m4] by blast
    moreover have "sync_begun g b want d s (bits_of g s4, False, s4\<lparr>kern := k'\<rparr>)" using 2 by (simp add: sync_begun_def B_def [symmetric])
    ultimately show ?thesis using e 2 unfolding code by auto
  next
    case 3
    have "\<not> satisfied (bitset (bits_of g s) \<union> bitset b) v"
      using 3(1) unfolding B_def v_def prvTestWaitCondition_sets [OF assms(8), where clear = True] bitset_or .
    then have un: "\<not> satisfied (bitset (bits_of g s4)) v" using satisfied_mono [of _ v] r2(4) bi4 by (metis Diff_subset)
    have idl: "pxCurrentTCB (kern s4) \<noteq> idle" using assms(6) d4(4) t_def by simp
    obtain s5 a5 where e: "(do { s \<leftarrow> on_kernel (vTaskPlaceOnUnorderedEventList (xTasksWaitingForBits g) v d) s4; (y, s) \<leftarrow> resume_all s;
        Some (0, True, if \<not> y then s\<lparr>kern := yield (kern s)\<rparr> else s) }) = Some (0 :: u32, True, s5)"
      "os_sys T idle G (Q, s5) a5 bs" "no_missed G s5"
      "value_of (EventItem (pxCurrentTCB (kern s4))) (kern s5) = or v taskEVENT_LIST_ITEM_VALUE_IN_USE"
      "\<forall>t. t \<noteq> pxCurrentTCB (kern s4) \<longrightarrow> moved G t (kern s4) (kern s5)"
      using sleep_and_give_up [OF d4(1,2) assms(5) idl 3(2) un] by blast
    have "moved G u (kern s) (kern s5)" if "u \<noteq> pxCurrentTCB (kern s)" for u using that moved_trans [OF m4] e(5) d4(4) by (simp add: t_def)
    moreover have "sync_begun g b want d s (0, True, s5)" using 3 e(4) d4(4) by (simp add: sync_begun_def B_def [symmetric] v_def t_def)
    ultimately show ?thesis using e(1-3) unfolding code if_not_P [OF 3(1)] if_not_P [OF 3(2)] by blast
  qed
qed

text \<open>
  Without interrupts the effect of setting bits is exact: who waits for a condition that now holds becomes
  ready with the bits and the mark in its event item, everybody else is untouched, and the bits that those
  tasks asked to clear are cleared.
\<close>

definition is_freed :: "u32 \<Rightarrow> u32 \<Rightarrow> os \<Rightarrow> task \<Rightarrow> bool" where
  "is_freed g b s t \<longleftrightarrow> waits_for g t (kern s) \<and> satisfied (bitset (or (bits_of g s) b)) (value_of (EventItem t) (kern s))"

definition set_exact :: "u32 \<Rightarrow> u32 \<Rightarrow> os \<Rightarrow> os \<Rightarrow> bool" where
  "set_exact g b s s' \<longleftrightarrow>
     (\<forall>t. if is_freed g b s t
        then container (StateItem t) (kern s') = Some (Ready (uxPriority (tcb (kern s) t))) \<and> container (EventItem t) (kern s') = None
          \<and> value_of (EventItem t) (kern s') = or (or (or (bits_of g s) b) eventUNBLOCKED_DUE_TO_BIT_SET) taskEVENT_LIST_ITEM_VALUE_IN_USE
        else container (StateItem t) (kern s') = container (StateItem t) (kern s) \<and> container (EventItem t) (kern s') = container (EventItem t) (kern s)
          \<and> value_of (EventItem t) (kern s') = value_of (EventItem t) (kern s))
     \<and> bitset (bits_of g s') = bitset (or (bits_of g s) b)
         - (\<Union>t \<in> {t. is_freed g b s t \<and> clears (value_of (EventItem t) (kern s))}. bitset (value_of (EventItem t) (kern s)))
     \<and> (\<forall>h. h \<noteq> g \<longrightarrow> bits_of h s' = bits_of h s)"

lemma set_bits_exact:
  assumes "os_sys T idle G (Q, s) a bs" and "no_missed G s" and "\<not> swi (kern s)" and "uxSchedulerSuspended (kern s) = 0" and "g \<in> G" and "only_bits b"
  shows "\<exists>s' a'. xEventGroupSetBits (interrupted Q [] []) 0 g b s = Some (bits_of g s', s') \<and> os_sys T idle G (Q, s') a' bs \<and> set_exact g b s s'
    \<and> pxCurrentTCB (kern s') = pxCurrentTCB (kern s) \<and> tcb (kern s') = tcb (kern s) \<and> uxSchedulerSuspended (kern s') = 0"
proof -
  note os = os_sysD [OF assms(1)] and core = kernel_coreD [OF os_coreD(1) [OF os_sysD(1) [OF assms(1)]]]
  note sb = section_begin [OF assms(1-4)]
  define k where "k = kern (suspend_all s)"
  define B where "B = bitset (bits_of g s) \<union> bitset b"
  obtain s2 a2 where r: "set_and_release g b (suspend_all s) = Some s2" "section_ok T idle G Q s2 a2 bs"
      "released (lists_of Q G) (set_free B g a) (or (or (bits_of g s) b) eventUNBLOCKED_DUE_TO_BIT_SET) k a (kern s2) a2"
      "bitset (bits_of g s2) = B - taken B g a" "\<forall>h. h \<noteq> g \<longrightarrow> bits_of h s2 = bits_of h s"
    using section_set [OF sb(1) assms(5,6) refl] by (auto simp: B_def k_def)
  have c2: "os_core Q (lists_of Q G) T idle s2 a2" using r(2) by (simp add: section_ok_def)
  have k: "preemptive k a" "is_ready a (pxCurrentTCB k)" "uxSchedulerSuspended k = 1" using sb by (simp_all add: section_ok_def k_def)
  obtain y k3 a3 where e: "resume_all s2 = Some (y, s2\<lparr>kern := k3\<rparr>)" "os_core Q (lists_of Q G) T idle (s2\<lparr>kern := k3\<rparr>) a3" "uxSchedulerSuspended k3 = 0"
    "preemptive k3 a3" "is_ready a3 (pxCurrentTCB k3)" "holder a3 = woken (\<lambda>t. set_free B g a t \<or> resumed k a t) k (holder a)" "itemval a3 = itemval a2"
    "pxCurrentTCB k3 = pxCurrentTCB k" "tcb k3 = tcb k"
    using release_resume [OF c2 k(3,1,2) r(3)] by blast
  define s' where "s' = s2\<lparr>kern := k3\<rparr>"
  have "\<not> resumed k a t" for t
  proof -
    have "0 < remaining (kern s) a t" if "asleep a t" by (rule remaining_pos [OF core(1) that])
    then show ?thesis using core(9) [OF assms(4)] core(10) [OF assms(4), of t]
      by (auto simp: resumed_def k_def vTaskSuspendAll_def remaining_def)
  qed
  then have "holder a3 = woken (set_free B g a) k (holder a)" using e(6) by simp
  moreover have "woken D k f i = woken D (kern s) f i" for D f i by (cases i) (simp_all add: k_def vTaskSuspendAll_def)
  ultimately have h: "holder a3 = woken (set_free B g a) (kern s) (holder a)" by presburger
  have v: "itemval a3 i = (if i = EventItem (task_of i) \<and> set_free B g a (task_of i)
      then or (or (or (bits_of g s) b) eventUNBLOCKED_DUE_TO_BIT_SET) taskEVENT_LIST_ITEM_VALUE_IN_USE else itemval a i)" for i
    using r(3) e(7) unfolding released_def by presburger
  have b2: "kernel_base (lists_of Q G) T k3 a3" using kernel_coreD(2) [OF os_coreD(1) [OF e(2)]] by simp
  note b1 = core(2)
  have fr: "is_freed g b s t \<longleftrightarrow> set_free B g a t" for t
    by (simp add: is_freed_def set_free_def waits_for_def container_holder [OF b1] value_itemval [OF b1] xTasksWaitingForBits_def B_def bitset_or)
  have "taken B g a = (\<Union>t \<in> {t. is_freed g b s t \<and> clears (value_of (EventItem t) (kern s))}. bitset (value_of (EventItem t) (kern s)))"
    by (auto simp: taken_def fr value_itemval [OF b1])
  then have "set_exact g b s s'" using b2 r(4,5)
    by (simp add: set_exact_def s'_def fr container_holder [OF b1] container_holder [OF b2] value_itemval [OF b1] value_itemval [OF b2] h v B_def bitset_or)
  moreover have "os_sys T idle G (Q, s') a3 bs" using e(2-5) r(2) by (simp add: os_sys_def s'_def section_ok_def stored_def)
  moreover have "pxCurrentTCB (kern s') = pxCurrentTCB (kern s)" "tcb (kern s') = tcb (kern s)" "uxSchedulerSuspended (kern s') = 0"
    using e(3,8,9) by (simp_all add: s'_def k_def vTaskSuspendAll_def)
  moreover have env: "interrupted Q [] [] n x = x" for n x by (simp add: interrupted_def during_def)
  have "xEventGroupSetBits (interrupted Q [] []) 0 g b s = Some (bits_of g s', s')"
    using r(1) e(1) assms(6) group_nonnull [OF os(4) assms(5)] by (simp add: set_bits_split only_bits_def env s'_def)
  ultimately show ?thesis by blast
qed

section \<open>Creation\<close>

lemma group_create_step:
  assumes "os_sys T idle G (Q, s) a bs" and "no_missed G s"
  shows "\<exists>g s' a' bs'. xEventGroupCreate s = Some (g, s')
    \<and> (if g = 0 then os_sys T idle G (Q, s') a' bs' \<and> no_missed G s' \<and> kern s' = kern s \<and> group s' = group s
       else g \<notin> G \<and> os_sys T idle (insert g G) (Q, s') a' bs' \<and> no_missed (insert g G) s' \<and> bits_of g s' = 0
         \<and> (\<exists>l. kern s' = (kern s)\<lparr>lists := l\<rparr>) \<and> (\<forall>t. value_of (EventItem t) (kern s') = value_of (EventItem t) (kern s))
         \<and> (\<forall>h. h \<noteq> g \<longrightarrow> bits_of h s' = bits_of h s)
         \<and> (\<forall>h t. waits_for h t (kern s') \<longrightarrow> h \<noteq> g \<and> waits_for h t (kern s)))"
proof -
  note os = os_sysD [OF assms(1)]
  have pl: "placed_high (heap s) bs" using os(4) by (simp add: stored_def)
  obtain g h bs' where m: "pvPortMalloc sizeof_EventGroup_t (heap s) = Some (g, h)" "placed_high h bs'" "bytes h = bytes (heap s)"
      "if g = 0 then payloads bs' = payloads bs
         else \<exists>k \<ge> unat sizeof_EventGroup_t. (\<forall>t. (unat g, t) \<notin> payloads bs) \<and> payloads bs' = insert (unat g, k) (payloads bs)"
    using placed_high_alloc [OF pl] by blast
  show ?thesis
  proof (cases "g = 0")
    case True
    define s' where "s' = s\<lparr>heap := h\<rparr>"
    have "stored Q G s' bs'" using os(4) m(2,4) True by (simp add: stored_def s'_def)
    moreover have "os_core Q (lists_of Q G) T idle s' a" using os(1) by (simp add: os_core_def s'_def)
    ultimately have "os_sys T idle G (Q, s') a bs'" using os(2,3) by (simp add: os_sys_def s'_def)
    moreover have "no_missed G s'" using assms(2) by (simp add: no_missed_def bits_of_def s'_def)
    ultimately show ?thesis using m(1) True
      by (intro exI [of _ g] exI [of _ s'] exI [of _ a] exI [of _ bs']) (simp add: xEventGroupCreate_def s'_def)
  next
    case False
    then obtain k where k: "24 \<le> k" "\<forall>t. (unat g, t) \<notin> payloads bs" "payloads bs' = insert (unat g, k) (payloads bs)"
      using m(4) by (auto simp: sizeof_EventGroup_t_def)
    define s' where "s' = upd_bits g (\<lambda>_. 0) s\<lparr>heap := h, kern := (kern s)\<lparr>lists := vListInitialise (EventList (g + 4)) (lists (kern s))\<rparr>\<rparr>"
    define a' where "a' = a_init (EventList (g + 4)) a"
    have new: "g \<notin> Q" "g \<notin> G" using os(4) k(2) unfolding stored_def by blast+
    have nl: "g + 4 \<notin> lists_of Q G" using list_fresh [OF os(4) m(2) k(3,2), of 4] k(1) by auto
    have ls: "lists_of Q (insert g G) = insert (g + 4) (lists_of Q G)" by (auto simp: lists_of_def)
    note core = os_coreD [OF os(1)]
    have "kernel_core (lists_of Q (insert g G)) T idle (kern s') a'" using core_init [OF core(1) nl] by (simp add: ls s'_def a'_def)
    moreover have "queue_in (lists_of Q (insert g G)) q (queue s' q)" if "q \<in> Q" for q
      using queue_in_more [OF core(3) [OF that], of "lists_of Q (insert g G)"] by (auto simp: ls s'_def)
    ultimately have c: "os_core Q (lists_of Q (insert g G)) T idle s' a'" using core(2,4) by (simp add: os_core_def a'_def init_fields s'_def)
    have sq: "queue s' = queue s" "heap s' = h" by (simp_all add: s'_def)
    have st: "stored Q (insert g G) s' bs'"
      unfolding stored_def sq
    proof (intro conjI ballI)
      show "\<exists>n. (unat q, n) \<in> payloads bs' \<and> 72 + length_of (queue s q) * size_of (queue s q) \<le> n
         \<and> pcHead (queue s q) = (if size_of (queue s q) = 0 then q else q + 72)" if "q \<in> Q" for q
        using os(4) that k(3) unfolding stored_def by blast
      show "\<exists>n. (unat x, n) \<in> payloads bs' \<and> 24 \<le> n" if "x \<in> insert g G" for x
        using os(4) that k(1,3) unfolding stored_def by blast
      show "Q \<inter> insert g G = {}" using os(4) new(1) by (simp add: stored_def)
    qed (rule m(2))
    have f: "kern s' = (kern s)\<lparr>lists := vListInitialise (EventList (g + 4)) (lists (kern s))\<rparr>" "holder a' = holder a" "itemval a' = itemval a"
      by (simp_all add: s'_def a'_def init_fields)
    have sys: "os_sys T idle (insert g G) (Q, s') a' bs'" by (rule new_sys [OF assms(1) c st f(1,2)])
    have b: "bits_of x s' = (if x = g then 0 else bits_of x s)" for x by (simp add: bits_of_def s'_def upd_bits_def)
    note b1 = kernel_coreD(2) [OF core(1)] and b2 = kernel_coreD(2) [OF os_coreD(1) [OF c]]
    have w: "waits_for x t (kern s') \<longleftrightarrow> waits_for x t (kern s)" "value_of (EventItem t) (kern s') = value_of (EventItem t) (kern s)" for x t
      by (simp_all add: waits_for_def container_holder [OF b1] container_holder [OF b2] value_itemval [OF b1] value_itemval [OF b2] f(2,3))
    have none: "\<not> waits_for g t (kern s)" for t
    proof -
      have "holder a (EventItem t) \<noteq> Some (EventList (g + 4))" using kernel_baseD(3) [OF b1] nl unfolding homes_ok_def by fastforce
      then show ?thesis by (simp add: waits_for_def container_holder [OF b1] xTasksWaitingForBits_def)
    qed
    have "no_missed (insert g G) s'"
      using assms(2) none new(2) by (auto simp: no_missed_def b w used_def) (simp_all add: only_bits_def)
    moreover have "xEventGroupCreate s = Some (g, s')" using m(1) False
      by (simp add: xEventGroupCreate_def Let_def s'_def upd_bits_def xTasksWaitingForBits_def bits_of_def)
    ultimately show ?thesis using False new(2) sys b f(1) w none
      by (intro exI [of _ g] exI [of _ s'] exI [of _ a'] exI [of _ bs']) auto
  qed
qed

end
