(* ===== verification/EventGroupRun.thy ===== *)
theory EventGroupRun
  imports EventGroupCalls
begin

text \<open>
  The system of tasks, interrupts, queues and event groups: every interleaving of the calls, with the
  interrupts that may come inside them.
\<close>

section \<open>Steps\<close>

text \<open>
  A call that waits is two steps, up to the switch and from when the task runs again. The interrupts inside
  a call are those while the scheduler is suspended.
\<close>

datatype gop = Queues qop | NewGroup
  | SetBits u32 u32 "intr list"
  | ClearBits u32 u32
  | WaitBits u32 u32 bool bool u32 "intr list"
  | WaitEnd u32 u32 bool bool
  | Sync u32 u32 u32 u32 "intr list" "intr list"
  | SyncEnd u32 u32

type_synonym gsystem = "u32 set \<times> system"

fun gexec :: "gop \<Rightarrow> gsystem \<Rightarrow> gsystem option" where
  "gexec (Queues y) (G, x) = map_option (Pair G) (qexec y x)"
| "gexec NewGroup (G, Q, s) = map_option (\<lambda>(g, s). (if g \<noteq> 0 then insert g G else G, Q, s)) (xEventGroupCreate s)"
| "gexec (SetBits g b is) (G, Q, s) = map_option (\<lambda>(r, s). (G, Q, s)) (xEventGroupSetBits (interrupted Q is []) 0 g b s)"
| "gexec (ClearBits g b) (G, Q, s) = map_option (\<lambda>(r, s). (G, Q, s)) (xEventGroupClearBits g b s)"
| "gexec (WaitBits g want clear all d is) (G, Q, s) = map_option (\<lambda>(r, w, s). (G, Q, s)) (wait_bits_begin (interrupted Q is []) 0 g want clear all d s)"
| "gexec (WaitEnd g want clear all) (G, Q, s) = map_option (\<lambda>(r, s). (G, Q, s)) (wait_bits_end g want clear all s)"
| "gexec (Sync g b want d is1 is2) (G, Q, s) = map_option (\<lambda>(r, w, s). (G, Q, s)) (sync_begin (interrupted Q is1 is2) 0 g b want d s)"
| "gexec (SyncEnd g want) (G, Q, s) = map_option (\<lambda>(r, s). (G, Q, s)) (sync_end g want s)"

text \<open>The rules of the API: a task calls while it runs, on a group that exists, with bits of the right byte; the idle task never waits.\<close>

fun gallowed :: "task set \<Rightarrow> task \<Rightarrow> gop \<Rightarrow> gsystem \<Rightarrow> bool" where
  "gallowed T idle (Queues y) (G, x) \<longleftrightarrow> qallowed T idle y x"
| "gallowed T idle NewGroup (G, Q, s) \<longleftrightarrow> \<not> swi (kern s)"
| "gallowed T idle (SetBits g b is) (G, Q, s) \<longleftrightarrow> \<not> swi (kern s) \<and> uxSchedulerSuspended (kern s) = 0 \<and> g \<in> G \<and> only_bits b"
| "gallowed T idle (ClearBits g b) (G, Q, s) \<longleftrightarrow> \<not> swi (kern s) \<and> g \<in> G \<and> only_bits b"
| "gallowed T idle (WaitBits g want clear all d is) (G, Q, s) \<longleftrightarrow> \<not> swi (kern s) \<and> uxSchedulerSuspended (kern s) = 0
     \<and> pxCurrentTCB (kern s) \<noteq> idle \<and> g \<in> G \<and> only_bits want \<and> want \<noteq> 0"
| "gallowed T idle (WaitEnd g want clear all) (G, Q, s) \<longleftrightarrow> \<not> swi (kern s) \<and> g \<in> G"
| "gallowed T idle (Sync g b want d is1 is2) (G, Q, s) \<longleftrightarrow> \<not> swi (kern s) \<and> uxSchedulerSuspended (kern s) = 0
     \<and> pxCurrentTCB (kern s) \<noteq> idle \<and> g \<in> G \<and> only_bits b \<and> only_bits want \<and> want \<noteq> 0"
| "gallowed T idle (SyncEnd g want) (G, Q, s) \<longleftrightarrow> \<not> swi (kern s) \<and> g \<in> G"

inductive greach :: "task set \<Rightarrow> task \<Rightarrow> gsystem \<Rightarrow> gsystem \<Rightarrow> bool" for T idle x0 where
  gstart: "greach T idle x0 x0"
| gstep: "greach T idle x0 x \<Longrightarrow> gallowed T idle y x \<Longrightarrow> gexec y x = Some x' \<Longrightarrow> greach T idle x0 x'"

section \<open>Every step keeps the system in order\<close>

definition gsys :: "task set \<Rightarrow> task \<Rightarrow> gsystem \<Rightarrow> bool" where
  "gsys T idle x \<longleftrightarrow> (case x of (G, Q, s) \<Rightarrow> (\<exists>a bs. os_sys T idle G (Q, s) a bs) \<and> no_missed G s)"

lemma gsysI: "os_sys T idle G (Q, s) a bs \<Longrightarrow> no_missed G s \<Longrightarrow> gsys T idle (G, Q, s)"
  by (auto simp: gsys_def)

text \<open>The queues and the scheduler leave the groups alone.\<close>

lemma queue_step_events:
  assumes "os_sys T idle G (Q, s) a bs" and "qallowed T idle y (Q, s)" and "qexec y (Q, s) = Some (Q', s')"
  shows "events_kept (queue_lists Q) (kern s) (kern s')" "group s' = group s"
proof -
  have "\<forall>q \<in> Q. pcHead (queue s q) \<noteq> 0" using os_coreD(3) [OF os_sysD(1) [OF assms(1)]] by (simp add: queue_in_def queue_ok_def)
  then have "over (events_kept (queue_lists Q) (kern s)) (group s) Q s" by (simp add: over_def events_kept_refl)
  from events.qexec_keeps [OF assms(3,2) this] show "events_kept (queue_lists Q) (kern s) (kern s')" "group s' = group s"
    by (simp_all add: queue_lists_def)
qed

lemma gstep_keeps:
  assumes "gsys T idle x" and "gallowed T idle y x"
  shows "\<exists>x'. gexec y x = Some x' \<and> gsys T idle x'"
proof -
  obtain G Q s where x: "x = (G, Q, s)" by (cases x)
  obtain a bs where sys: "os_sys T idle G (Q, s) a bs" and nm: "no_missed G s" using assms(1) by (auto simp: gsys_def x)
  note al = assms(2) [unfolded x]
  show ?thesis unfolding x
  proof (cases y)
    case (Queues z)
    have q: "qallowed T idle z (Q, s)" using al unfolding Queues by simp
    obtain Q' s' a' bs' where r: "qexec z (Q, s) = Some (Q', s')" "os_sys T idle G (Q', s') a' bs'"
      using qstep_keeps [OF sys q] by (auto simp: qstep_ok_def)
    note k = queue_step_events [OF sys q r(1)]
    have "no_missed G s'" by (rule events_no_missed [OF nm k os_sysD(4) [OF sys]])
    then show "\<exists>x'. gexec y (G, Q, s) = Some x' \<and> gsys T idle x'" using r gsysI unfolding Queues by auto
  next
    case NewGroup
    obtain g s' a' bs' where "xEventGroupCreate s = Some (g, s')" "if g = 0 then os_sys T idle G (Q, s') a' bs' \<and> no_missed G s'
        else os_sys T idle (insert g G) (Q, s') a' bs' \<and> no_missed (insert g G) s'"
      using group_create_step [OF sys nm] by metis
    then show "\<exists>x'. gexec y (G, Q, s) = Some x' \<and> gsys T idle x'" using gsysI unfolding NewGroup by (auto split: if_splits)
  next
    case (SetBits g b "is")
    then show "\<exists>x'. gexec y (G, Q, s) = Some x' \<and> gsys T idle x'"
      using set_bits_step [OF sys nm, of g b "is"] al gsysI by auto
  next
    case (ClearBits g c)
    then show "\<exists>x'. gexec y (G, Q, s) = Some x' \<and> gsys T idle x'"
      using xEventGroupClearBits_step [OF sys nm, of g c] group_nonnull [OF os_sysD(4) [OF sys], of g] al gsysI by auto
  next
    case (WaitBits g want clear all d "is")
    then show "\<exists>x'. gexec y (G, Q, s) = Some x' \<and> gsys T idle x'"
      using wait_bits_step [OF sys nm, of g want "is" clear all d] al gsysI by auto
  next
    case (WaitEnd g want clear all)
    then show "\<exists>x'. gexec y (G, Q, s) = Some x' \<and> gsys T idle x'"
      using wait_end_step [OF sys nm, of g want clear all] al gsysI by auto
  next
    case (Sync g b want d is1 is2)
    then show "\<exists>x'. gexec y (G, Q, s) = Some x' \<and> gsys T idle x'"
      using sync_step [OF sys nm, of g b want is1 is2 d] al gsysI by auto
  next
    case (SyncEnd g want)
    then show "\<exists>x'. gexec y (G, Q, s) = Some x' \<and> gsys T idle x'"
      using wait_end_step [OF sys nm, of g want True True] al gsysI by (auto simp: sync_end_code)
  qed
qed

lemma greach_ok: "greach T idle x0 x \<Longrightarrow> gsys T idle x0 \<Longrightarrow> gsys T idle x"
proof (induction rule: greach.induct)
  case (gstep x y x')
  then show ?case using gstep_keeps [of T idle x y] by fastforce
qed

section \<open>While a task waits\<close>

text \<open>The calls that change the event item of the task that makes them.\<close>

fun own_call :: "task \<Rightarrow> gop \<Rightarrow> gsystem \<Rightarrow> bool" where
  "own_call t (WaitBits g want clear all d is) (G, Q, s) \<longleftrightarrow> pxCurrentTCB (kern s) = t"
| "own_call t (WaitEnd g want clear all) (G, Q, s) \<longleftrightarrow> pxCurrentTCB (kern s) = t"
| "own_call t (Sync g b want d is1 is2) (G, Q, s) \<longleftrightarrow> pxCurrentTCB (kern s) = t"
| "own_call t (SyncEnd g want) (G, Q, s) \<longleftrightarrow> pxCurrentTCB (kern s) = t"
| "own_call t _ _ \<longleftrightarrow> False"

inductive meanwhile :: "task set \<Rightarrow> task \<Rightarrow> task \<Rightarrow> gsystem \<Rightarrow> gsystem \<Rightarrow> bool" for T idle t x0 where
  mstart: "meanwhile T idle t x0 x0"
| mstep: "meanwhile T idle t x0 x \<Longrightarrow> gallowed T idle y x \<Longrightarrow> \<not> own_call t y x \<Longrightarrow> gexec y x = Some x' \<Longrightarrow> meanwhile T idle t x0 x'"

text \<open>
  The event item of a task that went to wait with the value \<open>w\<close>: as it was left, or with the mark, the
  bits that were set, and the task off every group.
\<close>

definition parked :: "u32 set \<Rightarrow> task \<Rightarrow> u32 \<Rightarrow> kernel \<Rightarrow> bool" where
  "parked G t w k \<longleftrightarrow> bit w 31 \<and> (value_of (EventItem t) k = w
     \<or> bit (value_of (EventItem t) k) 25 \<and> bit (value_of (EventItem t) k) 31 \<and> satisfied (bitset (value_of (EventItem t) k)) w
       \<and> (\<forall>g \<in> G. \<not> waits_for g t k))"

lemma parked_moved: "parked G t w k \<Longrightarrow> moved G t k k' \<Longrightarrow> parked G t w k'"
  unfolding parked_def moved_def used_bit by metis

lemma step_parked:
  assumes "gsys T idle (G, Q, s)" and "gallowed T idle y (G, Q, s)" and "gexec y (G, Q, s) = Some (G', Q', s')"
    and "\<not> own_call t y (G, Q, s)" and "parked G t w (kern s)"
  shows "parked G' t w (kern s') \<and> G \<subseteq> G'"
proof -
  obtain a bs where sys: "os_sys T idle G (Q, s) a bs" and nm: "no_missed G s" using assms(1) by (auto simp: gsys_def)
  note al = assms(2) and ex = assms(3)
  have same: "parked G' t w (kern s') \<and> G \<subseteq> G'" if "G' = G" "moved G t (kern s) (kern s')"
    using that parked_moved [OF assms(5)] by simp
  show ?thesis
  proof (cases y)
    case (Queues z)
    then have z: "qallowed T idle z (Q, s)" "qexec z (Q, s) = Some (Q', s')" "G' = G" using al ex by auto
    show "parked G' t w (kern s') \<and> G \<subseteq> G'"
      by (rule same [OF z(3) moved_queues [OF queue_step_events(1) [OF sys z(1,2)] os_sysD(4) [OF sys]]])
  next
    case NewGroup
    then obtain g where g: "xEventGroupCreate s = Some (g, s')" "G' = (if g \<noteq> 0 then insert g G else G)" using ex by auto
    have c: "if g = 0 then kern s' = kern s else (\<forall>t. value_of (EventItem t) (kern s') = value_of (EventItem t) (kern s))
        \<and> (\<forall>h t. waits_for h t (kern s') \<longrightarrow> h \<noteq> g \<and> waits_for h t (kern s))"
      using group_create_step [OF sys nm] g(1) by (metis option.inject prod.inject)
    show "parked G' t w (kern s') \<and> G \<subseteq> G'"
    proof (cases "g = 0")
      case True
      then show ?thesis using assms(5) c g(2) by simp
    next
      case False
      then have v: "value_of (EventItem t) (kern s') = value_of (EventItem t) (kern s)" "\<And>h. h \<in> G' \<Longrightarrow> waits_for h t (kern s') \<Longrightarrow> h \<in> G \<and> waits_for h t (kern s)"
        using c g(2) by auto
      then have "parked G' t w (kern s')" using assms(5) unfolding parked_def by metis
      then show ?thesis using g(2) by auto
    qed
  next
    case (SetBits g b "is")
    then show "parked G' t w (kern s') \<and> G \<subseteq> G'" using set_bits_step [OF sys nm, of g b "is"] al ex same by auto
  next
    case (ClearBits g c)
    then show "parked G' t w (kern s') \<and> G \<subseteq> G'" using al ex same moved_lists [of "kern s'" "kern s" G t]
      by (auto simp: xEventGroupClearBits_def bind_eq_Some_conv)
  next
    case (WaitBits g want clear all d "is")
    then show "parked G' t w (kern s') \<and> G \<subseteq> G'" using wait_bits_step [OF sys nm, of g want "is" clear all d] al ex same assms(4) by auto
  next
    case (WaitEnd g want clear all)
    then show "parked G' t w (kern s') \<and> G \<subseteq> G'" using wait_end_step [OF sys nm, of g want clear all] al ex same assms(4) by auto
  next
    case (Sync g b want d is1 is2)
    then show "parked G' t w (kern s') \<and> G \<subseteq> G'" using sync_step [OF sys nm, of g b want is1 is2 d] al ex same assms(4) by auto
  next
    case (SyncEnd g want)
    then show "parked G' t w (kern s') \<and> G \<subseteq> G'" using wait_end_step [OF sys nm, of g want True True] al ex same assms(4) by (auto simp: sync_end_code)
  qed
qed

lemma meanwhile_parked:
  "meanwhile T idle t x0 x \<Longrightarrow> gsys T idle x0 \<Longrightarrow> parked (fst x0) t w (kern (snd (snd x0)))
    \<Longrightarrow> gsys T idle x \<and> parked (fst x) t w (kern (snd (snd x))) \<and> fst x0 \<subseteq> fst x"
proof (induction rule: meanwhile.induct)
  case (mstep x y x')
  obtain G Q s G' Q' s' where x: "x = (G, Q, s)" "x' = (G', Q', s')" by (cases x; cases x')
  show ?case using mstep step_parked [of T idle G Q s y G' Q' s' t w] gstep_keeps [of T idle x y] by (auto simp: x)
qed simp

end
