(* ===== verification/QueueClaims.thy ===== *)
theory QueueClaims
  imports QueueRun
begin

text \<open>
  What queues and semaphores promise in every state that tasks and interrupts reach from power on.
\<close>

section \<open>From power on\<close>

text \<open>
  The memory as the linker leaves it: no task, no list in use, the heap not yet laid out, in the upper half
  of the address space. At most 127 tasks, so that the lock counts of the queues cannot overflow.
\<close>

definition power_on :: "(task \<times> u32) list \<Rightarrow> os \<Rightarrow> bool" where
  "power_on ts s \<longleftrightarrow> unused (kern s) \<and> creatable ts \<and> length ts \<le> 127
     \<and> pxEnd (heap s) = 0 \<and> heap_placed (heap s) \<and> 2 ^ 31 \<le> unat (ucHeap (heap s))"

definition booted :: "(task \<times> u32) list \<Rightarrow> os \<Rightarrow> os option" where
  "booted ts s = map_option (\<lambda>k. s\<lparr>kern := start_scheduler k\<rparr>) (create_all ts (kern s))"

lemma booted_ok:
  assumes "power_on ts s0" and "idle \<in> fst ` set ts"
  shows "\<exists>s1 a. booted ts s0 = Some s1 \<and> os_sys (fst ` set ts) idle {} ({}, s1) a []"
proof -
  have p: "unused (kern s0)" "creatable ts" "length ts \<le> 127" "pxEnd (heap s0) = 0" "heap_placed (heap s0)" "2 ^ 31 \<le> unat (ucHeap (heap s0))"
    using assms(1) by (simp_all add: power_on_def)
  obtain k1 a where r: "create_all ts (kern s0) = Some k1" "sys_ok {} (fst ` set ts) idle (start_scheduler k1) a"
      "uxCurrentNumberOfTasks k1 = of_nat (length ts)"
    using boot_ok [OF p(1,2) assms(2)] by blast
  have "unat (of_nat (length ts) :: u32) \<le> 127" using p(3) by (simp add: unat_of_nat_u32)
  then have "uxCurrentNumberOfTasks (start_scheduler k1) \<le> 127" by (simp add: start_scheduler_def r(3) word_le_nat_alt)
  moreover have "stored {} {} (s0\<lparr>kern := start_scheduler k1\<rparr>) []" using p(4-6) by (simp add: stored_def placed_high_def)
  moreover have "lists_of {} {} = {}" by (simp add: lists_of_def)
  ultimately have "os_sys (fst ` set ts) idle {} ({}, s0\<lparr>kern := start_scheduler k1\<rparr>) a []"
    using r(2) by (intro os_sysI) simp_all
  then show ?thesis using r(1) by (simp add: booted_def) blast
qed

lemma reachable_sys:
  assumes "power_on ts s0" and "idle \<in> fst ` set ts" and "booted ts s0 = Some s1" and "qreach (fst ` set ts) idle ({}, s1) x"
  shows "\<exists>a bs. os_sys (fst ` set ts) idle {} x a bs"
  using booted_ok [OF assms(1,2)] qreach_ok [OF assms(4)] assms(3) by auto

text \<open>What is shared by the properties of reachable states.\<close>

lemma queues_never_assert_holds:
  assumes "power_on ts s0" and "idle \<in> fst ` set ts" and "booted ts s0 = Some s1" and "qreach (fst ` set ts) idle ({}, s1) x"
    and "qallowed (fst ` set ts) idle y x"
  shows "\<exists>Q' s'. qexec y x = Some (Q', s')"
  using reachable_sys [OF assms(1-4)] qstep_keeps [OF _ assms(5)] by (fastforce simp: qstep_ok_def)

text \<open>For the examples: zeroed memory with the heap in data memory, and the two tasks of the scheduler's examples.\<close>

definition blank_queue :: xQUEUE where
  "blank_queue = \<lparr>pcHead = 0, pcWriteTo = 0, u0 = 0, u1 = 0, uxMessagesWaiting = 0, uxLength = 0, uxItemSize = 0, cRxLock = 0, cTxLock = 0\<rparr>"

definition blank_os :: os where
  "blank_os = \<lparr>kern = blank, queue = (\<lambda>_. blank_queue), heap = heap0\<lparr>ucHeap := 0x80001004\<rparr>, group = (\<lambda>_. \<lparr>uxEventBits = 0\<rparr>)\<rparr>"

lemma blank_os_power_on: "power_on two_tasks blank_os"
  using unused_blank creatable_two(1)
  by (simp add: power_on_def blank_os_def two_tasks_def heap0_def heap_placed_def)

lemma two_members: "fst ` set two_tasks = {1, 2}"
  by (simp add: two_tasks_def)

text \<open>A queue of four items of two bytes, created by the first task that runs.\<close>

lemma two_booted:
  "\<exists>s1 a. booted two_tasks blank_os = Some s1 \<and> os_sys {1, 2} 1 {} ({}, s1) a [] \<and> pxCurrentTCB (kern s1) = 2 \<and> \<not> swi (kern s1)
     \<and> uxSchedulerSuspended (kern s1) = 0 \<and> heap s1 = heap0\<lparr>ucHeap := 0x80001004\<rparr>"
proof -
  obtain s1 a where s1: "booted two_tasks blank_os = Some s1" "os_sys {1, 2} 1 {} ({}, s1) a []"
    using booted_ok [OF blank_os_power_on, of 1] unfolding two_members by auto
  obtain k1 where k1: "create_all two_tasks blank = Some k1" "pxCurrentTCB k1 = 2" "\<not> swi k1" "uxSchedulerSuspended k1 = 0"
    using two_ok by blast
  have "s1 = blank_os\<lparr>kern := start_scheduler k1\<rparr>" using s1(1) k1(1) by (simp add: booted_def) (simp add: blank_os_def)
  then show ?thesis using s1 k1 by (intro exI [of _ s1] exI [of _ a]) (simp add: start_scheduler_def blank_os_def)
qed

text \<open>The example heap has room for it.\<close>

lemma heap_has_room:
  assumes "w \<noteq> 0" and "request (unat w) \<le> 65520"
  shows "\<exists>q h. pvPortMalloc w (heap0\<lparr>ucHeap := 0x80001004\<rparr>) = Some (q, h) \<and> q \<noteq> 0"
proof -
  define h where "h = heap0\<lparr>ucHeap := 0x80001004\<rparr>"
  have pl: "heap_placed h" "pxEnd h = 0" by (simp_all add: h_def heap0_def heap_placed_def)
  note i = prvHeapInit_establishes [OF pl(1)]
  define bs where "bs = [(heap_base (ucHeap h), heap_end (ucHeap h) - heap_base (ucHeap h), True)]"
  have b: "heap_base (ucHeap h) = 2147487752" "heap_end (ucHeap h) = 2147553272"
    by (simp_all add: h_def heap_base_def heap_end_def)
  have ff: "first_fit (request (unat w)) bs = Some (2147487752, carve (request (unat w)) 2147487752 65520)"
    using assms(2) by (simp add: bs_def b first_fit_def fits_def)
  obtain h' where "pvPortMalloc w (prvHeapInit h) = Some (of_nat 2147487752 + 8, h')"
    using pvPortMalloc_succeeds [OF i(1) [folded bs_def] assms(1) ff] by blast
  then show ?thesis using pvPortMalloc_first_call [OF pl(2) i(2)] unfolding h_def by (auto simp: of_nat_u32_eq_0_iff)
qed

lemma created_queue:
  assumes c: "creatable_queue n z" and fit: "sizeof_Queue_t + n * z \<noteq> 0" "request (unat (sizeof_Queue_t + n * z)) \<le> 65520"
  shows "\<exists>s1 q s2. booted two_tasks blank_os = Some s1 \<and> qreach {1, 2} 1 ({}, s1) ({q}, s2) \<and> view {q} s2 q = Some \<lparr>cap = unat n, width = unat z, held = []\<rparr>
     \<and> pxCurrentTCB (kern s2) = 2 \<and> \<not> swi (kern s2) \<and> uxSchedulerSuspended (kern s2) = 0
     \<and> list_empty (xTasksWaitingToReceive q) (kern s2) \<and> queue s2 q = new_queue q n z"
proof -
  obtain s1 a where s1: "booted two_tasks blank_os = Some s1" "os_sys {1, 2} 1 {} ({}, s1) a []" "pxCurrentTCB (kern s1) = 2" "\<not> swi (kern s1)"
     "uxSchedulerSuspended (kern s1) = 0" "heap s1 = heap0\<lparr>ucHeap := 0x80001004\<rparr>" using two_booted by blast
  obtain q h where m: "pvPortMalloc (sizeof_Queue_t + n * z) (heap s1) = Some (q, h)" "q \<noteq> 0"
    using heap_has_room [OF fit] s1(6) by auto
  note os = os_sysD [OF s1(2)]
  from create_ok [OF os(1,4) c] create_code [OF c m(1)] m(2) obtain s2 l where s2: "xQueueGenericCreate n z s1 = Some (q, s2)"
     "view {q} s2 = (view {} s1)(q \<mapsto> \<lparr>cap = unat n, width = unat z, held = []\<rparr>)" "kern s2 = (kern s1)\<lparr>lists := l\<rparr>"
     "queue s2 q = new_queue q n z"
    by auto
  have "qexec (Create n z) ({}, s1) = Some ({q}, s2)" using s2(1) m(2) by (simp add: with_new_def)
  moreover have "qallowed {1, 2} 1 (Create n z) ({}, s1)" using s1(4) c by simp
  ultimately have "qreach {1, 2} 1 ({}, s1) ({q}, s2)" using qstep [OF qstart] by blast
  moreover have "list_empty (xTasksWaitingToReceive q) (kern s2)"
    using s2(1) create_code [OF c m(1)] m(2)
    by (auto simp: xTasksWaitingToReceive_def list_empty_def listLIST_IS_EMPTY_def vListInitialise_def upd_lst_def)
  ultimately show ?thesis using s1 s2(2-4) by (intro exI [of _ s1] exI [of _ q] exI [of _ s2]) simp
qed

lemma first_queue:
  "\<exists>s1 q s2. booted two_tasks blank_os = Some s1 \<and> qreach {1, 2} 1 ({}, s1) ({q}, s2) \<and> view {q} s2 q = Some \<lparr>cap = 4, width = 2, held = []\<rparr>
     \<and> pxCurrentTCB (kern s2) = 2 \<and> \<not> swi (kern s2) \<and> uxSchedulerSuspended (kern s2) = 0
     \<and> list_empty (xTasksWaitingToReceive q) (kern s2) \<and> queue s2 q = new_queue q 4 2"
  using created_queue [of 4 2] by (simp add: creatable_queue_def SIZE_MAX_def sizeof_Queue_t_def request_def)

section \<open>Calls that do not wait\<close>

lemma sys_queue:
  assumes "os_sys T idle G (Q, s) a bs" and "view Q s q = Some f"
  shows "q \<in> Q" "f = fifo_of q s" "q \<noteq> 0" "queue_ok (queue s q)" "held f = [] \<longleftrightarrow> count_of (queue s q) = 0"
    and "only_queue q s s' \<Longrightarrow> fifo_of q s' = g f \<Longrightarrow> view Q s' = (view Q s)(q \<mapsto> g f)"
proof -
  note os = os_sysD [OF assms(1)]
  show q: "q \<in> Q" "f = fifo_of q s" using assms(2) by (auto simp: view_def split: if_splits)
  have "queue_in (lists_of Q G) q (queue s q)" by (rule os_coreD(3) [OF os(1) q(1)])
  then show "q \<noteq> 0" "queue_ok (queue s q)" by (simp_all add: queue_in_def)
  show "held f = [] \<longleftrightarrow> count_of (queue s q) = 0" using contents_length [of q s] by (metis fifo_of_simps(3) length_0_conv q(2))
  have qok: "\<forall>r \<in> Q. queue_ok (queue s r)" using os_coreD(3) [OF os(1)] by (simp add: queue_in_def)
  show "view Q s' = (view Q s)(q \<mapsto> g f)" if "only_queue q s s'" "fifo_of q s' = g f"
    using only_queue_view [where f = g, OF that(1) os(5) q(1) qok] that(2) assms(2) by (simp add: q(2) [symmetric] on_fifo_def)
qed

lemma may_block_0 [simp]: "may_block 0 s"
  by (simp add: may_block_def)

lemma send_call:
  assumes "os_sys T idle G (Q, s) a bs" and "view Q s q = Some f" and "width f \<le> length d" and "p \<noteq> queueOVERWRITE"
  shows "\<exists>s'. xQueueGenericSend env q (Some d) 0 p s = Some (length (held f) < cap f, s') \<and> view Q s' = (view Q s)(q \<mapsto> fifo_put d p f)"
    and "\<exists>b s'. xQueueGenericSendFromISR q (Some d) p s = Some (length (held f) < cap f, b, s') \<and> view Q s' = (view Q s)(q \<mapsto> fifo_put d p f)"
proof -
  note os = os_sysD [OF assms(1)] and q = sys_queue [OF assms(1,2)]
  note v = q(6) [where g = "fifo_put d p"]
  have snd: "sendable (queue s q) (length d) p" using assms(3,4) by (simp add: sendable_def q(2))
  have room: "has_room (queue s q) p \<longleftrightarrow> length (held f) < cap f" using assms(4) by (simp add: has_room_def q(2) contents_length)
  show "\<exists>s'. xQueueGenericSend env q (Some d) 0 p s = Some (length (held f) < cap f, s') \<and> view Q s' = (view Q s)(q \<mapsto> fifo_put d p f)"
  proof (cases "has_room (queue s q) p")
    case True
    obtain s' a' where r: "send_attempt q (Some d) 0 p s = Some (Some True, s')"
      "contents q s' = put p (take (size_of (queue s q)) d) (contents q s)" "only_queue q s s'"
      using send_attempt_ok [OF os(1) q(1) snd True] by blast
    have "xQueueGenericSend env q (Some d) 0 p s = Some (True, s')"
      using q(3) assms(4) r(1) by (simp add: xQueueGenericSend_def send_entry_def send_loop.simps [of env 0])
    then show ?thesis using v [OF r(3)] fifo_of_put [OF r(3) True r(2)] True room q(2) by auto
  next
    case False
    have "xQueueGenericSend env q (Some d) 0 p s = Some (False, s)"
      using q(3) assms(4) send_attempt_full [OF False] by (simp add: xQueueGenericSend_def send_entry_def send_loop.simps [of env 0])
    then show ?thesis using v [OF only_queue_refl] fifo_of_full [OF False] False room q(2) by auto
  qed
  obtain b s' where r: "xQueueGenericSendFromISR q (Some d) p s = Some (has_room (queue s q) p, b, s')" "only_queue q s s'"
    "fifo_of q s' = fifo_put d p (fifo_of q s)"
    using send_isr_ok [OF os(1) q(1) snd] by blast
  show "\<exists>b s'. xQueueGenericSendFromISR q (Some d) p s = Some (length (held f) < cap f, b, s') \<and> view Q s' = (view Q s)(q \<mapsto> fifo_put d p f)"
    using v [OF r(2)] r(1,3) room q(2) by simp
qed

lemma receive_call:
  assumes "os_sys T idle G (Q, s) a bs" and "view Q s q = Some f" and "width f \<le> length d"
  defines "d' \<equiv> if held f = [] then d else into (hd (held f)) d"
  shows "\<exists>s'. xQueueReceive env q (Some d) 0 s = Some (held f \<noteq> [], Some d', s') \<and> view Q s' = (view Q s)(q \<mapsto> fifo_drop f)"
    and "\<exists>b s'. xQueueReceiveFromISR q (Some d) s = Some (held f \<noteq> [], b, Some d', s') \<and> view Q s' = (view Q s)(q \<mapsto> fifo_drop f)"
    and "\<exists>s'. xQueuePeek env q (Some d) 0 s = Some (held f \<noteq> [], Some d', s') \<and> view Q s' = view Q s"
proof -
  note os = os_sysD [OF assms(1)] and q = sys_queue [OF assms(1,2)]
  note v = q(6) [where g = fifo_drop]
  have sz: "size_of (queue s q) \<le> length d" using assms(3) q(2) by simp
  have "(\<exists>s'. xQueueReceive env q (Some d) 0 s = Some (held f \<noteq> [], Some d', s') \<and> view Q s' = (view Q s)(q \<mapsto> fifo_drop f))
    \<and> (\<exists>s'. xQueuePeek env q (Some d) 0 s = Some (held f \<noteq> [], Some d', s') \<and> view Q s' = view Q s)"
  proof (cases "count_of (queue s q) = 0")
    case False
    obtain s' a' where r: "receive_attempt q (Some d) 0 s = Some (Some True, Some (into (hd (contents q s)) d), s')"
      "contents q s' = tl (contents q s)" "only_queue q s s'"
      using receive_attempt_ok [OF os(1) q(1) False sz] by blast
    obtain t' b' where p: "peek_attempt q (Some d) 0 s = Some (Some True, Some (into (hd (contents q s)) d), t')"
      "contents q t' = contents q s" "only_queue q s t'"
      using peek_attempt_ok [OF os(1) q(1) False sz] by blast
    have "xQueueReceive env q (Some d) 0 s = Some (True, Some (into (hd (contents q s)) d), s')"
      "xQueuePeek env q (Some d) 0 s = Some (True, Some (into (hd (contents q s)) d), t')"
      using q(3) r(1) p(1) by (simp_all add: xQueueReceive_def xQueuePeek_def receive_entry_def receive_loop.simps [of _ env 0])
    moreover have "view Q t' = view Q s"
      using q(6) [where g = "\<lambda>f. f", OF p(3)] fifo_of_same [OF p(3,2)] assms(2) q(2) by (simp add: fun_upd_idem)
    ultimately show ?thesis using v [OF r(3)] fifo_of_drop [OF r(3,2)] False q(5) q(2) by (auto simp: d'_def)
  next
    case True
    have "xQueueReceive env q (Some d) 0 s = Some (False, Some d, s)" "xQueuePeek env q (Some d) 0 s = Some (False, Some d, s)"
      using q(3) empty_attempts(1,2) [OF True] by (simp_all add: xQueueReceive_def xQueuePeek_def receive_entry_def receive_loop.simps [of _ env 0])
    then show ?thesis using v [OF only_queue_refl] fifo_of_empty [OF True] True q(5) q(2) by (auto simp: d'_def)
  qed
  then show "\<exists>s'. xQueueReceive env q (Some d) 0 s = Some (held f \<noteq> [], Some d', s') \<and> view Q s' = (view Q s)(q \<mapsto> fifo_drop f)"
    "\<exists>s'. xQueuePeek env q (Some d) 0 s = Some (held f \<noteq> [], Some d', s') \<and> view Q s' = view Q s" by blast+
  obtain b s' where r: "xQueueReceiveFromISR q (Some d) s = Some (contents q s \<noteq> [], b, Some (if contents q s = [] then d else into (hd (contents q s)) d), s')"
    "only_queue q s s'" "fifo_of q s' = fifo_drop (fifo_of q s)"
    using receive_isr_ok [OF os(1) q(1) sz] by blast
  show "\<exists>b s'. xQueueReceiveFromISR q (Some d) s = Some (held f \<noteq> [], b, Some d', s') \<and> view Q s' = (view Q s)(q \<mapsto> fifo_drop f)"
    using v [OF r(2)] r(1,3) q(2) by (auto simp: d'_def)
qed

lemma count_calls:
  assumes "os_sys T idle G (Q, s) a bs" and "view Q s q = Some f"
  shows "uxQueueMessagesWaiting q s = Some (of_nat (length (held f)))" "uxQueueSpacesAvailable q s = Some (of_nat (cap f - length (held f)))"
proof -
  note q = sys_queue [OF assms]
  show "uxQueueMessagesWaiting q s = Some (of_nat (length (held f)))"
    using q(3) by (simp add: uxQueueMessagesWaiting_def q(2) contents_length count_of_def)
  have "uxMessagesWaiting (queue s q) \<le> uxLength (queue s q)" using q(4) by (simp add: queue_ok_def count_of_def length_of_def word_le_nat_alt)
  then show "uxQueueSpacesAvailable q s = Some (of_nat (cap f - length (held f)))"
    using q(3) by (simp add: uxQueueSpacesAvailable_def q(2) contents_length count_of_def length_of_def word_le_nat_alt of_nat_diff)
qed

section \<open>Shapes\<close>

lemma items_shape:
  assumes "queue_ok (queue s q)" and "d \<in> set (contents q s)"
  shows "length d = size_of (queue s q)"
proof -
  have n: "0 < length_of (queue s q)" using assms(1) by (simp add: queue_ok_def)
  obtain i where "d = slots (queue s q) s ! (i mod length_of (queue s q))"
    using assms(2) by (auto simp: contents_def Let_def ring_def slots_def)
  then show ?thesis using n by (simp add: slots_def load_bytes_def)
qed

lemma fifo_shape [simp]: "cap (fifo_put d p f) = cap f" "width (fifo_put d p f) = width f" "cap (fifo_drop f) = cap f" "width (fifo_drop f) = width f"
  by (simp_all add: fifo_put_def fifo_drop_def)

lemma on_fifo_shape:
  "m q = Some f \<Longrightarrow> (\<And>f. cap (g f) = cap f \<and> width (g f) = width f) \<Longrightarrow> \<exists>f'. on_fifo r g m q = Some f' \<and> cap f' = cap f \<and> width f' = width f"
  by (cases "q = r") (auto simp: on_fifo_def)

lemma spec_intr_shape: "m q = Some f \<Longrightarrow> \<exists>f'. spec_intr i m q = Some f' \<and> cap f' = cap f \<and> width f' = width f"
  by (cases i) (simp_all add: on_fifo_shape)

lemma spec_intrs_shape: "m q = Some f \<Longrightarrow> \<exists>f'. fold spec_intr is m q = Some f' \<and> cap f' = cap f \<and> width f' = width f"
proof (induction "is" arbitrary: m f)
  case (Cons i "is")
  obtain f1 where "spec_intr i m q = Some f1" "cap f1 = cap f" "width f1 = width f" using spec_intr_shape [where m = m, OF Cons.prems] by blast
  then show ?case using Cons.IH [of "spec_intr i m" f1] by simp
qed simp

lemma spec_keeps_shape: "spec_step y m m' \<Longrightarrow> m q = Some f \<Longrightarrow> \<exists>f'. m' q = Some f' \<and> cap f' = cap f \<and> width f' = width f"
  using spec_intrs_shape [of m q f] spec_intr_shape [of m q f]
  by (cases y) (auto simp: on_fifo_shape simp del: fold_append)

section \<open>Properties\<close>

text \<open>
  No assertion fails and no call gets stuck in any state that tasks and interrupts reach from power
  on by interleaving scheduler operations, ticks and context switches with the creation of queues and
  semaphores, attempts to send, receive, peek, give and take, interrupts that send, give and receive, and
  waits with any interrupts in the section that locks the queue: the next permitted step returns.
\<close>

theorem queues_never_assert:
  assumes "power_on ts s0" and "idle \<in> fst ` set ts"
  shows "\<exists>s1. booted ts s0 = Some s1 \<and> (\<forall>x y. qreach (fst ` set ts) idle ({}, s1) x \<and> qallowed (fst ` set ts) idle y x \<longrightarrow> qexec y x \<noteq> None)"
proof -
  obtain s1 where s1: "booted ts s0 = Some s1" using booted_ok [OF assms] by blast
  then show ?thesis using queues_never_assert_holds [OF assms s1] by fastforce
qed

lemma queues_never_assert_witness:
  "\<exists>s1. booted two_tasks blank_os = Some s1 \<and> (\<exists>x. fst x \<noteq> {} \<and> qreach {1, 2} 1 ({}, s1) x \<and> qexec (Interrupt TickInt) x \<noteq> None)"
proof -
  obtain s1 q s2 where r: "booted two_tasks blank_os = Some s1" "qreach {1, 2} 1 ({}, s1) ({q}, s2)" using first_queue by blast
  have "1 \<in> fst ` set two_tasks" by (simp add: two_members)
  from queues_never_assert [OF blank_os_power_on this] r
  have "\<forall>y. qallowed {1, 2} 1 y ({q}, s2) \<longrightarrow> qexec y ({q}, s2) \<noteq> None" by (auto simp: two_members)
  then have "qexec (Interrupt TickInt) ({q}, s2) \<noteq> None" by (metis qallowed.simps(2) intr_allowed.simps(1))
  then show ?thesis using r by (intro exI [of _ s1] conjI exI [of _ "({q}, s2)"]) simp_all
qed

text \<open>
  C3: In every reachable state each step does to the queues what the same step does to bounded first-in
  first-out buffers, one per handle: sending appends, puts in front or replaces when there is room, receiving
  and taking drop the oldest item, peeking and scheduling change nothing, creation adds an empty buffer at a
  fresh handle or nothing at all, and what is done to one queue leaves every other as it is.
\<close>

theorem queues_refine_fifos:
  assumes "power_on ts s0" and "idle \<in> fst ` set ts" and "booted ts s0 = Some s1" and "qreach (fst ` set ts) idle ({}, s1) (Q, s)"
    and "qallowed (fst ` set ts) idle y (Q, s)" and "qexec y (Q, s) = Some (Q', s')"
  shows "spec_step y (view Q s) (view Q' s')"
  using reachable_sys [OF assms(1-4)] qstep_keeps [OF _ assms(5)] assms(6) by (auto simp: qstep_ok_def)

lemma queues_refine_fifos_witness:
  "\<exists>s1 q s2 Q' s'. booted two_tasks blank_os = Some s1 \<and> qreach {1, 2} 1 ({}, s1) ({q}, s2)
     \<and> qexec (Send q [5, 6, 7] 0 queueSEND_TO_BACK) ({q}, s2) = Some (Q', s') \<and> view Q' s' q = Some \<lparr>cap = 4, width = 2, held = [[5, 6]]\<rparr>"
proof -
  obtain s1 q s2 where r: "booted two_tasks blank_os = Some s1" "qreach {1, 2} 1 ({}, s1) ({q}, s2)"
      "view {q} s2 q = Some \<lparr>cap = 4, width = 2, held = []\<rparr>" "\<not> swi (kern s2)" using first_queue by blast
  have m: "1 \<in> fst ` set two_tasks" by (simp add: two_members)
  have "fifo_of q s2 = \<lparr>cap = 4, width = 2, held = []\<rparr>" using r(3) by (simp add: view_def)
  then have "size_of (queue s2 q) = 2" by (metis fifo.select_convs(2) fifo_of_simps(2))
  then have al: "qallowed (fst ` set two_tasks) 1 (Send q [5, 6, 7] 0 queueSEND_TO_BACK) ({q}, s2)"
    using r(4) by (simp add: sendable_def queueSEND_TO_BACK_def queueOVERWRITE_def)
  have "qreach (fst ` set two_tasks) 1 ({}, s1) ({q}, s2)" using r(2) by (simp add: two_members)
  moreover obtain Q' s' where x: "qexec (Send q [5, 6, 7] 0 queueSEND_TO_BACK) ({q}, s2) = Some (Q', s')"
    using queues_never_assert_holds [OF blank_os_power_on m r(1) calculation al] by blast
  ultimately have "spec_step (Send q [5, 6, 7] 0 queueSEND_TO_BACK) (view {q} s2) (view Q' s')"
    using queues_refine_fifos [OF blank_os_power_on m r(1) _ al] by blast
  then have "view Q' s' q = Some \<lparr>cap = 4, width = 2, held = [[5, 6]]\<rparr>" using r(3) by (simp add: on_fifo_def fifo_put_def put_def)
  then show ?thesis using r(1,2) x by blast
qed

text \<open>
  C13: What a zero-wait call and an interrupt see, in every reachable state: sending succeeds exactly when
  the queue has room and appends or puts in front the first bytes of the object, receiving succeeds exactly
  when it is not empty and copies the oldest item to the start of the caller's object, peeking the same without
  removing it, the versions for interrupts agree with them, and the counts reported are those of the items
  held and the places left.
\<close>

theorem queue_calls_exact:
  assumes "power_on ts s0" and "idle \<in> fst ` set ts" and "booted ts s0 = Some s1" and "qreach (fst ` set ts) idle ({}, s1) (Q, s)"
    and "view Q s q = Some f" and "width f \<le> length d" and "p \<noteq> queueOVERWRITE"
    and "d' = (if held f = [] then d else into (hd (held f)) d)"
  shows "(\<exists>s'. xQueueGenericSend env q (Some d) 0 p s = Some (length (held f) < cap f, s') \<and> view Q s' = (view Q s)(q \<mapsto> fifo_put d p f))
    \<and> (\<exists>b s'. xQueueGenericSendFromISR q (Some d) p s = Some (length (held f) < cap f, b, s') \<and> view Q s' = (view Q s)(q \<mapsto> fifo_put d p f))
    \<and> (\<exists>s'. xQueueReceive env q (Some d) 0 s = Some (held f \<noteq> [], Some d', s') \<and> view Q s' = (view Q s)(q \<mapsto> fifo_drop f))
    \<and> (\<exists>b s'. xQueueReceiveFromISR q (Some d) s = Some (held f \<noteq> [], b, Some d', s') \<and> view Q s' = (view Q s)(q \<mapsto> fifo_drop f))
    \<and> (\<exists>s'. xQueuePeek env q (Some d) 0 s = Some (held f \<noteq> [], Some d', s') \<and> view Q s' = view Q s)
    \<and> uxQueueMessagesWaiting q s = Some (of_nat (length (held f))) \<and> uxQueueSpacesAvailable q s = Some (of_nat (cap f - length (held f)))"
proof -
  obtain a bs where sys: "os_sys (fst ` set ts) idle {} (Q, s) a bs" using reachable_sys [OF assms(1-4)] by blast
  show ?thesis unfolding assms(8)
    using send_call [OF sys assms(5-7)] receive_call [OF sys assms(5,6)] count_calls [OF sys assms(5)] by blast
qed

lemma queue_calls_exact_witness:
  "\<exists>s1 q s2 s3. booted two_tasks blank_os = Some s1 \<and> qreach {1, 2} 1 ({}, s1) ({q}, s2)
     \<and> xQueueGenericSend (\<lambda>n s. s) q (Some [5, 6, 7]) 0 queueSEND_TO_BACK s2 = Some (True, s3) \<and> uxQueueMessagesWaiting q s2 = Some 0"
proof -
  obtain s1 q s2 where r: "booted two_tasks blank_os = Some s1" "qreach {1, 2} 1 ({}, s1) ({q}, s2)"
      "view {q} s2 q = Some \<lparr>cap = 4, width = 2, held = []\<rparr>" using first_queue by blast
  have m: "1 \<in> fst ` set two_tasks" by (simp add: two_members)
  have re: "qreach (fst ` set two_tasks) 1 ({}, s1) ({q}, s2)" using r(2) by (simp add: two_members)
  have w: "width \<lparr>cap = 4, width = 2, held = []\<rparr> \<le> length [5 :: u8, 6, 7]" "queueSEND_TO_BACK \<noteq> queueOVERWRITE"
    by (simp_all add: queueSEND_TO_BACK_def queueOVERWRITE_def)
  from queue_calls_exact [OF blank_os_power_on m r(1) re r(3) w refl, of "\<lambda>n s. s"]
  show ?thesis using r(1,2) by auto
qed

text \<open>
  Queues are well typed for ever: in every reachable state a queue holds no more items than its
  capacity, each of exactly the size it was created for, and no permitted step changes its capacity or
  the size of its items.
\<close>

theorem queue_items_well_typed:
  assumes "power_on ts s0" and "idle \<in> fst ` set ts" and "booted ts s0 = Some s1" and "qreach (fst ` set ts) idle ({}, s1) (Q, s)"
    and "view Q s q = Some f"
  shows "length (held f) \<le> cap f \<and> (\<forall>d \<in> set (held f). length d = width f)
    \<and> (\<forall>y Q' s'. qallowed (fst ` set ts) idle y (Q, s) \<and> qexec y (Q, s) = Some (Q', s') \<longrightarrow>
         (\<exists>f'. view Q' s' q = Some f' \<and> cap f' = cap f \<and> width f' = width f))"
proof -
  obtain a bs where sys: "os_sys (fst ` set ts) idle {} (Q, s) a bs" using reachable_sys [OF assms(1-4)] by blast
  note q = sys_queue [OF sys assms(5)]
  have "\<exists>f'. view Q' s' q = Some f' \<and> cap f' = cap f \<and> width f' = width f"
    if "qallowed (fst ` set ts) idle y (Q, s)" "qexec y (Q, s) = Some (Q', s')" for y Q' s'
    using qstep_keeps [OF sys that(1)] that(2) spec_keeps_shape assms(5) by (fastforce simp: qstep_ok_def)
  moreover have "length (held f) \<le> cap f" using q(2,4) by (simp add: contents_length queue_ok_def)
  moreover have "\<forall>d \<in> set (held f). length d = width f" using items_shape [OF q(4)] q(2) by simp
  ultimately show ?thesis by blast
qed

lemma queue_items_well_typed_witness:
  "\<exists>s1 q s2. booted two_tasks blank_os = Some s1 \<and> qreach {1, 2} 1 ({}, s1) ({q}, s2) \<and> view {q} s2 q = Some \<lparr>cap = 4, width = 2, held = []\<rparr>
     \<and> (\<forall>y Q' s'. qallowed {1, 2} 1 y ({q}, s2) \<and> qexec y ({q}, s2) = Some (Q', s') \<longrightarrow> (\<exists>f. view Q' s' q = Some f \<and> cap f = 4 \<and> width f = 2))"
proof -
  obtain s1 q s2 where r: "booted two_tasks blank_os = Some s1" "qreach {1, 2} 1 ({}, s1) ({q}, s2)"
      "view {q} s2 q = Some \<lparr>cap = 4, width = 2, held = []\<rparr>" using first_queue by blast
  have m: "1 \<in> fst ` set two_tasks" by (simp add: two_members)
  have re: "qreach (fst ` set two_tasks) 1 ({}, s1) ({q}, s2)" using r(2) by (simp add: two_members)
  from queue_items_well_typed [OF blank_os_power_on m r(1) re r(3)] show ?thesis using r unfolding two_members by fastforce
qed

text \<open>
  C30: Giving a semaphore from an interrupt is sending an item of size zero from an interrupt: the
  shortened routine and the general one do the same, for every semaphore and for every mutex nobody holds.
\<close>

theorem xQueueGiveFromISR_is_send:
  assumes "uxItemSize (queue s q) = 0" and "is_mutex (queue s q) \<longrightarrow> xMutexHolder (queue s q) = 0"
  shows "xQueueGiveFromISR q s = xQueueGenericSendFromISR q None queueSEND_TO_BACK s"
proof -
  have e: "upd_queue q (\<lambda>x. x\<lparr>u0 := 0\<rparr>) s = s" if "u0 (queue s q) = 0"
    using that by (cases "queue s q") (simp add: upd_queue_def fun_upd_idem)
  have "queueSEND_TO_BACK \<noteq> queueOVERWRITE" by (simp add: queueSEND_TO_BACK_def queueOVERWRITE_def)
  moreover have "prvCopyDataToQueue q None queueSEND_TO_BACK s = Some (False, upd_queue q (\<lambda>x. x\<lparr>uxMessagesWaiting := uxMessagesWaiting (queue s q) + 1\<rparr>) s)"
    using assms e by (auto simp: prvCopyDataToQueue_def Let_def xTaskPriorityDisinherit_def)
  ultimately show ?thesis using assms by (auto simp: xQueueGiveFromISR_def xQueueGenericSendFromISR_def Let_def)
qed

lemma xQueueGiveFromISR_is_send_witness:
  "\<exists>s q. uxItemSize (queue s q) = 0 \<and> \<not> is_mutex (queue s q) \<and> xQueueGiveFromISR q s = xQueueGenericSendFromISR q None queueSEND_TO_BACK s
     \<and> xQueueGiveFromISR q s \<noteq> None"
proof -
  define s where "s = blank_os\<lparr>queue := (\<lambda>_. (new_queue 100 3 0)\<lparr>cTxLock := 3\<rparr>)\<rparr>"
  have x: "uxItemSize (queue s 100) = 0" "\<not> is_mutex (queue s 100)" by (simp_all add: s_def new_queue_def is_mutex_def)
  have "xQueueGiveFromISR 100 s \<noteq> None"
    using x by (simp add: xQueueGiveFromISR_def Let_def prvIncrementQueueTxLock_def)
      (auto simp: s_def new_queue_def queueUNLOCKED_def queueINT8_MAX_def)
  then show ?thesis using x xQueueGiveFromISR_is_send [of s 100] by blast
qed

lemma stored_separate:
  assumes "stored Q G s bs" and "q \<in> Q"
  shows "separate Q q"
  unfolding separate_def
proof (intro ballI notI)
  fix r assume r: "r \<in> Q" "r + 16 = q + 36"
  have pl: "placed_high (heap s) bs" using assms(1) by (simp add: stored_def)
  obtain n m where nm: "(unat q, n) \<in> payloads bs" "72 \<le> n" "(unat r, m) \<in> payloads bs" "72 \<le> m"
    using stored_block [OF assms] stored_block [OF assms(1) r(1)] by blast
  have u: "unat (q + 36) = unat q + 36" "unat (r + 16) = unat r + 16"
    using payload_room(2) [OF pl nm(1)] payload_room(2) [OF pl nm(3)] nm(2,4) by (subst unat_add_u32, simp_all)+
  then have e: "unat q + 36 = unat r + 16" using r(2) by metis
  then have "unat q \<noteq> unat r" by simp
  from heap4.apart_law [OF placed_high_ok [OF pl] nm(1,3) this] e nm(2,4) show False by linarith
qed

lemma waiters_list: "os_sys T idle G (Q, s) a bs \<Longrightarrow> q \<in> Q \<Longrightarrow> list_empty (xTasksWaitingToReceive q) (kern s) \<longleftrightarrow> elems a (EventList (q + 36)) = []"
  using list_empty_elems [OF kernel_coreD(2) [OF os_coreD(1) [OF os_sysD(1)]], of T idle G Q s a bs "EventList (q + 36)"]
  by (simp add: xTasksWaitingToReceive_def lists_of_def)

text \<open>
  C14: No wake-up is lost: a task that finds a queue empty and goes to wait for an item, with nobody else
  waiting, comes out of the locked section asleep only if the queue is still empty: whatever interrupts send,
  give or receive before and after it leaves the ready list, if an item is there at the end it is ready again.
\<close>

theorem receive_never_sleeps_past_item:
  assumes "power_on ts s0" and "idle \<in> fst ` set ts" and "booted ts s0 = Some s1" and "qreach (fst ` set ts) idle ({}, s1) (Q, s)"
    and "qallowed (fst ` set ts) idle (WaitReceive q t ticks is1 is2) (Q, s)" and "list_empty (xTasksWaitingToReceive q) (kern s)"
  shows "\<exists>s'. qexec (WaitReceive q t ticks is1 is2) (Q, s) = Some (Q, s') \<and> pxCurrentTCB (kern s') = pxCurrentTCB (kern s)
    \<and> (\<forall>f. view Q s' q = Some f \<and> held f \<noteq> [] \<longrightarrow> (\<exists>p. container (StateItem (pxCurrentTCB (kern s))) (kern s') = Some (Ready p)))"
proof -
  obtain a bs where sys: "os_sys (fst ` set ts) idle {} (Q, s) a bs" using reachable_sys [OF assms(1-4)] by blast
  note os = os_sysD [OF sys]
  have al: "\<not> swi (kern s)" "uxSchedulerSuspended (kern s) = 0" "pxCurrentTCB (kern s) \<noteq> idle" "q \<in> Q" using assms(5) by simp_all
  have rd: "is_ready a (pxCurrentTCB (kern s))" using os(3) al(1) by blast
  have el: "elems a (EventList (q + 36)) = []" using waiters_list [OF sys al(4)] assms(6) by simp
  have env: "interrupted Q is1 is2 0 = during Q is1" "interrupted Q is1 is2 (0 + 1) = during Q is2" by (simp_all add: interrupted_def fun_eq_iff)
  obtain expired t' d' s' a' where r: "wait_section (interrupted Q is1 is2) 0 q (prvIsQueueEmpty q) (\<lambda>i s. Some (i, s)) (EventList (q + 36)) False t ticks s
        = Some (expired, False, t', d', s')" "os_core Q (lists_of Q {}) (fst ` set ts) idle s' a'" "pxCurrentTCB (kern s') = pxCurrentTCB (kern s)"
      "separate Q q \<and> contents q s' \<noteq> [] \<longrightarrow> is_ready a' (pxCurrentTCB (kern s))"
    using wait_section_ok [OF os(1) al(2) os(2) rd al(3,4) _ env, of "q + 36" "prvIsQueueEmpty q" False t ticks] el by blast
  have "\<exists>p. container (StateItem (pxCurrentTCB (kern s))) (kern s') = Some (Ready p)" if "view Q s' q = Some f" "held f \<noteq> []" for f
  proof -
    have "contents q s' \<noteq> []" using that by (auto simp: view_def split: if_splits)
    then show ?thesis using r(4) stored_separate [OF os(4) al(4)] container_holder [OF kernel_coreD(2) [OF os_coreD(1) [OF r(2)]]]
      by (simp add: is_ready_def)
  qed
  then show ?thesis using r(1,3) by (auto simp: xTasksWaitingToReceive_def)
qed

lemma receive_never_sleeps_past_item_witness:
  "\<exists>s1 q s2 s'. booted two_tasks blank_os = Some s1 \<and> qreach {1, 2} 1 ({}, s1) ({q}, s2)
     \<and> qexec (WaitReceive q \<lparr>xOverflowCount = 0, xTimeOnEntering = 0\<rparr> 5 [] [SendInt q [7, 8] queueSEND_TO_BACK]) ({q}, s2) = Some ({q}, s')
     \<and> pxCurrentTCB (kern s') = 2"
proof -
  obtain s1 q s2 where r: "booted two_tasks blank_os = Some s1" "qreach {1, 2} 1 ({}, s1) ({q}, s2)" "pxCurrentTCB (kern s2) = 2"
     "\<not> swi (kern s2)" "uxSchedulerSuspended (kern s2) = 0" "list_empty (xTasksWaitingToReceive q) (kern s2)" using first_queue by blast
  have m: "1 \<in> fst ` set two_tasks" by (simp add: two_members)
  have re: "qreach (fst ` set two_tasks) 1 ({}, s1) ({q}, s2)" using r(2) by (simp add: two_members)
  have al: "qallowed (fst ` set two_tasks) 1 (WaitReceive q \<lparr>xOverflowCount = 0, xTimeOnEntering = 0\<rparr> 5 [] [SendInt q [7, 8] queueSEND_TO_BACK]) ({q}, s2)"
    using r(3-5) by simp
  obtain s' where "qexec (WaitReceive q \<lparr>xOverflowCount = 0, xTimeOnEntering = 0\<rparr> 5 [] [SendInt q [7, 8] queueSEND_TO_BACK]) ({q}, s2) = Some ({q}, s')"
     "pxCurrentTCB (kern s') = pxCurrentTCB (kern s2)"
    using receive_never_sleeps_past_item [OF blank_os_power_on m r(1) re al r(6)] by blast
  then show ?thesis using r(1-3) by metis
qed

text \<open>Without interrupts, a task that finds the queue empty goes to sleep on it.\<close>

lemma wait_sleeps:
  assumes "os_sys T idle G (Q, s) a bs" and "\<not> swi (kern s)" and "uxSchedulerSuspended (kern s) = 0" and "pxCurrentTCB (kern s) \<noteq> idle" and "q \<in> Q"
    and "count_of (queue s q) = 0" and "cTxLock (queue s q) = queueUNLOCKED" and "cRxLock (queue s q) = queueUNLOCKED"
  shows "\<exists>s' a'. qexec (WaitReceive q t portMAX_DELAY [] []) (Q, s) = Some (Q, s') \<and> os_core Q (lists_of Q G) T idle s' a'
    \<and> holder a' (EventItem (pxCurrentTCB (kern s))) = Some (EventList (q + 36)) \<and> uxSchedulerSuspended (kern s') = 0"
proof -
  note sys = os_sysD [OF assms(1)]
  note su = suspend_os [OF sys(1) assms(3) sys(2)]
  define c where "c = pxCurrentTCB (kern s)"
  define s0 where "s0 = prvLockQueue q (s\<lparr>kern := vTaskSuspendAll (kern s)\<rparr>)"
  note lk = lock_queue_ok [OF su(1), of q, folded s0_def]
  have k0: "kern s0 = vTaskSuspendAll (kern s)" using lk(2) by simp
  have q0: "queue s0 q = (queue s q)\<lparr>cRxLock := 0, cTxLock := 0\<rparr>"
    by (simp add: s0_def prvLockQueue_def Let_def upd_queue_def assms(7,8) queueLOCKED_UNMODIFIED_def)
  have ne: "uxSchedulerSuspended (kern s0) = 1" "uxSchedulerSuspended (kern s0) \<noteq> 0" "xPendedTicks (kern s0) = 0" "pxCurrentTCB (kern s0) = c"
    using su(3) k0 kernel_coreD(9) [OF os_coreD(1) [OF sys(1)] assms(3)] by (simp_all add: vTaskSuspendAll_def c_def)
  have np: "\<not> pending a u" for u using kernel_coreD(10) [OF os_coreD(1) [OF sys(1)] assms(3)] .
  have e: "q + 36 \<in> lists_of Q G" using assms(5) by (simp add: lists_of_def)
  have "is_ready a c" using sys(3) assms(2) by (simp add: c_def)
  then have ok: "kernel_ok (lists_of Q G) T idle (kern s0) a" using os_coreD(1) [OF lk(1)] ne(4) by (simp add: kernel_ok_core)
  have idl: "pxCurrentTCB (kern s0) \<noteq> idle" using assms(4) ne(4) c_def by simp
  have d: "0 < (portMAX_DELAY :: u32)" by (simp add: portMAX_DELAY_def)
  obtain k1 a1 where p: "vTaskPlaceOnEventList (EventList (q + 36)) portMAX_DELAY (kern s0) = Some k1" "kernel_core (lists_of Q G) T idle k1 a1"
      "holder a1 = (holder a)(EventItem c := Some (EventList (q + 36)), StateItem c := Some SuspendedTaskList)"
      "pxCurrentTCB k1 = c" "xPendedTicks k1 = xPendedTicks (kern s0)" "uxSchedulerSuspended k1 = uxSchedulerSuspended (kern s0)"
      "uxCurrentNumberOfTasks k1 = uxCurrentNumberOfTasks (kern s0)"
    using place_event_waits [OF ok ne(2) idl e d] ne(4) by auto
  define s1 where "s1 = s0\<lparr>kern := k1\<rparr>"
  have c1: "os_core Q (lists_of Q G) T idle s1 a1"
    using os_coreD(2-4) [OF lk(1)] p(2,3,7) by (simp add: os_core_def s1_def)
  have su1: "uxSchedulerSuspended (kern s1) \<noteq> 0" using p(6) ne(2) by (simp add: s1_def)
  have l1: "nat (sint (cTxLock (queue s1 q))) = 0" "nat (sint (cRxLock (queue s1 q))) = 0" by (simp_all add: s1_def q0)
  have code2: "prvUnlockQueue q s1 = Some (s1\<lparr>queue := (queue s1)(q := (queue s1 q)\<lparr>cTxLock := queueUNLOCKED, cRxLock := queueUNLOCKED\<rparr>)\<rparr>)"
    using l1 by (simp add: prvUnlockQueue_def on_kernel_def upd_queue_def)
  obtain s2 a2 where u: "prvUnlockQueue q s1 = Some s2" "os_core Q (lists_of Q G) T idle s2 a2" "holder a2 = holder a1"
    using unlock_queue_ok [OF c1 assms(5) su1] unfolding l1 by auto
  have k2: "kern s2 = k1" using u(1) code2 by (auto simp: s1_def)
  have "uxSchedulerSuspended (kern s2) = 1" using k2 p(6) ne(1) by simp
  from resume_os [OF u(2) this] obtain y k' a' where r: "resume_all s2 = Some (y, s2\<lparr>kern := k'\<rparr>)" "os_core Q (lists_of Q G) T idle (s2\<lparr>kern := k'\<rparr>) a'"
      "uxSchedulerSuspended k' = 0" "holder a' = woken (resumed (kern s2) a2) (kern s2) (holder a2)"
    by blast
  have "\<not> resumed (kern s2) a2 u" for u
  proof -
    have "\<not> pending a2 u" using np [of u] by (simp add: pending_def u(3) p(3))
    moreover have "0 < remaining (kern s2) a2 u" if "asleep a2 u" by (rule remaining_pos [OF kernel_coreD(1) [OF os_coreD(1) [OF u(2)]] that])
    ultimately show ?thesis using ne(3) p(5) by (auto simp: resumed_def k2)
  qed
  then have h: "holder a' = holder a1" unfolding r(4) by (subst woken_none) (simp_all add: u(3))
  define k'' where "k'' = (if y then k' else yield k')"
  have env: "interrupted Q [] [] n x = x" for n x by (simp add: interrupted_def during_def)
  have "prvIsQueueEmpty q s0" using assms(6) by (simp add: prvIsQueueEmpty_def q0 count_of_def unat_eq_zero)
  then have "qexec (WaitReceive q t portMAX_DELAY [] []) (Q, s) = Some (Q, s2\<lparr>kern := k''\<rparr>)"
    using p(1) u(1) r(1)
    by (simp add: wait_section_def Let_def s0_def [symmetric] env xTaskCheckForTimeOut_def on_kernel_def s1_def [symmetric] xTasksWaitingToReceive_def k''_def)
  moreover have "os_core Q (lists_of Q G) T idle (s2\<lparr>kern := k''\<rparr>) a'" using r(2) by (simp add: os_core_def k''_def yield_def)
  moreover have "uxSchedulerSuspended k'' = 0" using r(3) by (simp add: k''_def yield_def)
  ultimately show ?thesis using h p(3) c_def by (intro exI [of _ "s2\<lparr>kern := k''\<rparr>"] exI [of _ a']) simp
qed

text \<open>
  C15: A successful send serves the task that waits first, and nobody else: with the scheduler running,
  that task leaves the list of waiting receivers and is on the ready list of its priority, a switch is
  requested exactly when its priority is higher than that of the running task, and every other task stays
  where it is.
\<close>

theorem send_wakes_first_receiver:
  assumes "power_on ts s0" and "idle \<in> fst ` set ts" and "booted ts s0 = Some s1" and "qreach (fst ` set ts) idle ({}, s1) (Q, s)"
    and "view Q s q = Some f" and "width f \<le> length d" and "length (held f) < cap f" and "uxSchedulerSuspended (kern s) = 0"
    and "\<not> list_empty (xTasksWaitingToReceive q) (kern s)"
  shows "\<exists>w s'. head_owner (xTasksWaitingToReceive q) (kern s) = Some w
    \<and> send_attempt q (Some d) ticks queueSEND_TO_BACK s = Some (Some True, s')
    \<and> container (StateItem w) (kern s') = Some (Ready (uxPriority (tcb (kern s) w))) \<and> container (EventItem w) (kern s') = None
    \<and> (swi (kern s') \<longleftrightarrow> swi (kern s) \<or> uxPriority (tcb (kern s) (pxCurrentTCB (kern s))) < uxPriority (tcb (kern s) w))
    \<and> (\<forall>t. t \<noteq> w \<longrightarrow> container (StateItem t) (kern s') = container (StateItem t) (kern s) \<and> container (EventItem t) (kern s') = container (EventItem t) (kern s))"
proof -
  obtain a bs where sys: "os_sys (fst ` set ts) idle {} (Q, s) a bs" using reachable_sys [OF assms(1-4)] by blast
  note os = os_sysD [OF sys] and q = sys_queue [OF sys assms(5)]
  note base = kernel_coreD(2) [OF os_coreD(1) [OF os(1)]]
  have snd: "sendable (queue s q) (length d) queueSEND_TO_BACK" using assms(6) q(2) by (simp add: sendable_def queueSEND_TO_BACK_def queueOVERWRITE_def)
  have room: "has_room (queue s q) queueSEND_TO_BACK" using assms(7) q(2) by (simp add: has_room_def contents_length)
  have e: "EventList (q + 36) \<in> kernel_lists (lists_of Q {})" using q(1) by (simp add: lists_of_def)
  obtain i xs where el: "elems a (EventList (q + 36)) = i # xs" using waiters_list [OF sys q(1)] assms(9) by (cases "elems a (EventList (q + 36))") auto
  define w where "w = task_of i"
  note hd = head_owner_task [OF base e el, folded w_def]
  obtain s' a' where r: "send_attempt q (Some d) ticks queueSEND_TO_BACK s = Some (Some True, s')" "os_core Q (lists_of Q {}) (fst ` set ts) idle s' a'"
     "served (q + 36) (kern s) a (kern s') a'" using send_attempt_ok [OF os(1) q(1) snd room] by blast
  have sv: "i = EventItem w" "holder a' = woken_on (kern s) w (holder a)"
      "swi (kern s') \<longleftrightarrow> swi (kern s) \<or> uxPriority (tcb (kern s) (pxCurrentTCB (kern s))) < uxPriority (tcb (kern s) w)"
    using r(3) by (simp_all add: served_def el w_def)
  note c = container_holder [OF base] container_holder [OF kernel_coreD(2) [OF os_coreD(1) [OF r(2)]]]
  show ?thesis using hd(1) r(1) sv(3) assms(8)
    by (intro exI [of _ w] exI [of _ s']) (simp add: c sv(2) woken_on_def xTasksWaitingToReceive_def)
qed

text \<open>A first queue and a task asleep on it.\<close>

lemma first_waiter:
  "\<exists>s1 q s2. booted two_tasks blank_os = Some s1 \<and> qreach {1, 2} 1 ({}, s1) ({q}, s2) \<and> view {q} s2 q = Some \<lparr>cap = 4, width = 2, held = []\<rparr>
     \<and> uxSchedulerSuspended (kern s2) = 0 \<and> \<not> list_empty (xTasksWaitingToReceive q) (kern s2)"
proof -
  obtain s1 q s2 where r: "booted two_tasks blank_os = Some s1" "qreach {1, 2} 1 ({}, s1) ({q}, s2)"
     "view {q} s2 q = Some \<lparr>cap = 4, width = 2, held = []\<rparr>" "pxCurrentTCB (kern s2) = 2"
     "\<not> swi (kern s2)" "uxSchedulerSuspended (kern s2) = 0" "queue s2 q = new_queue q 4 2" using first_queue by blast
  obtain a1 where "os_sys {1, 2} 1 {} ({}, s1) a1 []" using two_booted r(1) by auto
  then obtain a bs where sys: "os_sys {1, 2} 1 {} ({q}, s2) a bs" using qreach_ok [OF r(2)] by blast
  have x: "count_of (queue s2 q) = 0" "cTxLock (queue s2 q) = queueUNLOCKED" "cRxLock (queue s2 q) = queueUNLOCKED" "pxCurrentTCB (kern s2) \<noteq> 1" "q \<in> {q}"
    by (simp_all add: r(4,7) new_queue_def Let_def count_of_def)
  define t where "t = \<lparr>xOverflowCount = (0 :: u32), xTimeOnEntering = (0 :: u32)\<rparr>"
  obtain s3 a3 where w: "qexec (WaitReceive q t portMAX_DELAY [] []) ({q}, s2) = Some ({q}, s3)" "os_core {q} (lists_of {q} {}) {1, 2} 1 s3 a3"
     "holder a3 (EventItem (pxCurrentTCB (kern s2))) = Some (EventList (q + 36))" "uxSchedulerSuspended (kern s3) = 0"
    using wait_sleeps [OF sys r(5,6) x(4,5) x(1-3)] by blast
  have al: "qallowed {1, 2} 1 (WaitReceive q t portMAX_DELAY [] []) ({q}, s2)" using r(4-6) by simp
  have "view {q} s3 = view {q} s2" using qstep_keeps [OF sys al] w(1) by (auto simp: qstep_ok_def)
  moreover have "\<not> list_empty (xTasksWaitingToReceive q) (kern s3)"
  proof -
    have "elems a3 (EventList (q + 36)) \<noteq> []"
      using repD(4) [OF kernel_baseD(1) [OF kernel_coreD(2) [OF os_coreD(1) [OF w(2)]]], of "EventList (q + 36)"] w(3)
      by (fastforce simp: lists_of_def)
    then show ?thesis using list_empty_elems [OF kernel_coreD(2) [OF os_coreD(1) [OF w(2)]], of "EventList (q + 36)"]
      by (simp add: xTasksWaitingToReceive_def lists_of_def)
  qed
  ultimately show ?thesis using r(1,3) w(4) qstep [OF r(2) al w(1)] by (intro exI [of _ s1] exI [of _ q] exI [of _ s3]) simp
qed

lemma send_wakes_first_receiver_witness:
  "\<exists>s1 q s2 s'. booted two_tasks blank_os = Some s1 \<and> qreach {1, 2} 1 ({}, s1) ({q}, s2) \<and> \<not> list_empty (xTasksWaitingToReceive q) (kern s2)
     \<and> send_attempt q (Some [5, 6]) 0 queueSEND_TO_BACK s2 = Some (Some True, s')"
proof -
  obtain s1 q s2 where r: "booted two_tasks blank_os = Some s1" "qreach {1, 2} 1 ({}, s1) ({q}, s2)"
     "view {q} s2 q = Some \<lparr>cap = 4, width = 2, held = []\<rparr>"
     "uxSchedulerSuspended (kern s2) = 0" "\<not> list_empty (xTasksWaitingToReceive q) (kern s2)" using first_waiter by blast
  have m: "1 \<in> fst ` set two_tasks" by (simp add: two_members)
  have re: "qreach (fst ` set two_tasks) 1 ({}, s1) ({q}, s2)" using r(2) by (simp add: two_members)
  have "width \<lparr>cap = 4, width = 2, held = []\<rparr> \<le> length [5, 6 :: u8]" "length (held \<lparr>cap = 4, width = 2, held = []\<rparr>) < cap \<lparr>cap = 4, width = 2, held = []\<rparr>" by simp_all
  from send_wakes_first_receiver [OF blank_os_power_on m r(1) re r(3) this r(4,5), of 0] r(1,2,5) show ?thesis by blast
qed

end
