(* ===== verification/EventGroupClaims.thy ===== *)
theory EventGroupClaims
  imports EventGroupRun QueueClaims
begin

text \<open>
  What event groups promise in every state that tasks and interrupts reach from power on, beside any use of
  queues and of the scheduler.
\<close>

section \<open>From power on\<close>

lemma group_reach:
  assumes "power_on ts s0" and "idle \<in> fst ` set ts" and "booted ts s0 = Some s1" and "greach (fst ` set ts) idle ({}, {}, s1) x"
  shows "gsys (fst ` set ts) idle x"
proof -
  obtain a where "os_sys (fst ` set ts) idle {} ({}, s1) a []" using booted_ok [OF assms(1,2)] assms(3) by auto
  then have "gsys (fst ` set ts) idle ({}, {}, s1)" by (rule gsysI) (simp add: no_missed_def)
  with assms(4) show ?thesis by (rule greach_ok)
qed

section \<open>What a waiting call returns\<close>

lemma wait_result:
  assumes "gsys T idle (G, Q, s)" and "value_of (EventItem t) (kern s) = or (wait_value want clear all) taskEVENT_LIST_ITEM_VALUE_IN_USE"
    and "only_bits want" and "g \<in> G" and "meanwhile T idle t (G, Q, s) (G2, Q2, s2)" and "pxCurrentTCB (kern s2) = t" and "\<not> swi (kern s2)"
  shows "\<exists>r s3. wait_bits_end g want clear all s2 = Some (r, s3) \<and> (prvTestWaitCondition r want all \<or> r = bits_of g s2 \<and> bits_of g s3 = r)"
proof -
  define w where "w = or (wait_value want clear all) taskEVENT_LIST_ITEM_VALUE_IN_USE"
  have w: "bit w 31" "\<not> bit w 25" "\<And>B. satisfied B w \<longleftrightarrow> satisfied B (wait_value want clear all)"
    using assms(3) by (auto simp: w_def wait_value_def word_bits only_bits_code satisfied_def needs_all_def bitset_or)
  have "parked G t w (kern s)" using assms(2) w(1) by (simp add: parked_def w_def)
  from meanwhile_parked [OF assms(5,1), of w] this have m: "gsys T idle (G2, Q2, s2)" "parked G2 t w (kern s2)" "G \<subseteq> G2" by simp_all
  obtain a bs where sys: "os_sys T idle G2 (Q2, s2) a bs" "no_missed G2 s2" using m(1) by (auto simp: gsys_def)
  have g: "g \<in> G2" using assms(4) m(3) by blast
  obtain r s3 where r: "wait_bits_end g want clear all s2 = Some (r, s3)" "wait_ended g want clear all s2 r s3"
    using wait_end_step [OF sys assms(7) g] by blast
  define v where "v = value_of (EventItem t) (kern s2)"
  have e: "if bit v 25 then r = and v (not eventEVENT_BITS_CONTROL_BYTES) \<and> bits_of g s3 = bits_of g s2
     else r = bits_of g s2 \<and> bits_of g s3 = (if prvTestWaitCondition r want all \<and> clear then and r (not want) else r)"
    using r(2) assms(6) by (simp add: wait_ended_def Let_def v_def)
  have "prvTestWaitCondition r want all \<or> r = bits_of g s2 \<and> bits_of g s3 = r"
  proof (cases "bit v 25")
    case True
    then have "v \<noteq> w" using w(2) by auto
    then have "satisfied (bitset v) w" using m(2) by (auto simp: parked_def v_def)
    moreover have "bitset r = bitset v" using e True by (auto simp: bitset_def word_bits)
    ultimately show ?thesis using prvTestWaitCondition_sets [OF assms(3)] w(3) by metis
  next
    case False
    then show ?thesis using e by (auto split: if_splits)
  qed
  then show ?thesis using r(1) by blast
qed

section \<open>An example: a group, and a task that waits on it\<close>

lemma first_group:
  "\<exists>s1 g s2. booted two_tasks blank_os = Some s1 \<and> greach {1, 2} 1 ({}, {}, s1) ({g}, {}, s2) \<and> bits_of g s2 = 0
     \<and> pxCurrentTCB (kern s2) = 2 \<and> \<not> swi (kern s2) \<and> uxSchedulerSuspended (kern s2) = 0
     \<and> uxPriority (tcb (kern s2) 1) = 0 \<and> uxPriority (tcb (kern s2) 2) = 3"
proof -
  obtain s1 a where s1: "booted two_tasks blank_os = Some s1" "os_sys {1, 2} 1 {} ({}, s1) a []" "pxCurrentTCB (kern s1) = 2" "\<not> swi (kern s1)"
     "uxSchedulerSuspended (kern s1) = 0" "heap s1 = heap0\<lparr>ucHeap := 0x80001004\<rparr>" using two_booted by blast
  obtain k1 where k1: "create_all two_tasks blank = Some k1" "uxPriority (tcb k1 1) = 0" "uxPriority (tcb k1 2) = 3" using two_ok by blast
  have "kern s1 = start_scheduler k1" using s1(1) k1(1) by (auto simp: booted_def) (simp add: blank_os_def)
  then have pr: "uxPriority (tcb (kern s1) 1) = 0" "uxPriority (tcb (kern s1) 2) = 3" using k1(2,3) by (simp_all add: start_scheduler_def)
  obtain g h where m: "pvPortMalloc sizeof_EventGroup_t (heap s1) = Some (g, h)" "g \<noteq> 0"
    using heap_has_room [of sizeof_EventGroup_t] s1(6) by (auto simp: sizeof_EventGroup_t_def request_def)
  have nm: "no_missed {} s1" by (simp add: no_missed_def)
  obtain g' s2 where s2: "xEventGroupCreate s1 = Some (g', s2)"
     "if g' = 0 then kern s2 = kern s1 else bits_of g' s2 = 0 \<and> (\<exists>l. kern s2 = (kern s1)\<lparr>lists := l\<rparr>)"
    using group_create_step [OF s1(2) nm] by metis
  have "g' = g" using s2(1) m by (simp add: xEventGroupCreate_def Let_def)
  then obtain l where k: "kern s2 = (kern s1)\<lparr>lists := l\<rparr>" "bits_of g s2 = 0" using s2(2) m(2) by auto
  have "gexec NewGroup ({}, {}, s1) = Some ({g}, {}, s2)" using s2(1) \<open>g' = g\<close> m(2) by simp
  moreover have "gallowed {1, 2} 1 NewGroup ({}, {}, s1)" using s1(4) by simp
  ultimately have "greach {1, 2} 1 ({}, {}, s1) ({g}, {}, s2)" using gstep [OF gstart] by blast
  then show ?thesis using s1(1,3-5) k pr by (intro exI [of _ s1] exI [of _ g] exI [of _ s2]) simp
qed

text \<open>A switch when one is due: the highest priority ready task runs, and no task moves.\<close>

lemma switch_turn:
  assumes "gsys T idle (G, Q, s)" and "swi (kern s)" and "uxSchedulerSuspended (kern s) = 0"
  shows "\<exists>s'. gallowed T idle (Queues (Interrupt YieldInt)) (G, Q, s) \<and> gexec (Queues (Interrupt YieldInt)) (G, Q, s) = Some (G, Q, s')
    \<and> \<not> swi (kern s') \<and> uxSchedulerSuspended (kern s') = 0 \<and> tcb (kern s') = tcb (kern s) \<and> group s' = group s
    \<and> (\<forall>i. container i (kern s') = container i (kern s) \<and> value_of i (kern s') = value_of i (kern s))
    \<and> pxCurrentTCB (kern s') \<in> T \<and> (\<exists>p. container (StateItem (pxCurrentTCB (kern s'))) (kern s') = Some (Ready p))
    \<and> (\<forall>t p. container (StateItem t) (kern s') = Some (Ready p) \<longrightarrow> uxPriority (tcb (kern s) t) \<le> uxPriority (tcb (kern s) (pxCurrentTCB (kern s'))))"
proof -
  obtain a bs where sys: "os_sys T idle G (Q, s) a bs" using assms(1) by (auto simp: gsys_def)
  have ok: "kernel_ok (lists_of Q G) T idle (kern s) a" using os_sys_kernel [OF sys] by (simp add: sys_ok_def)
  obtain k' a' where r: "vPortYieldISR (kern s) = Some k'" "kernel_ok (lists_of Q G) T idle k' a'" "holder a' = holder a" "itemval a' = itemval a"
    "tcb k' = tcb (kern s)" "uxSchedulerSuspended k' = uxSchedulerSuspended (kern s)" "\<not> swi k'"
    "is_ready a (pxCurrentTCB k')" "\<forall>t. is_ready a t \<longrightarrow> uxPriority (tcb (kern s) t) \<le> uxPriority (tcb (kern s) (pxCurrentTCB k'))"
    using yield_isr_ok [OF ok] assms(3) by blast
  note b1 = kernel_okD(2) [OF ok] and b2 = kernel_okD(2) [OF r(2)]
  have "container i k' = container i (kern s)" "value_of i k' = value_of i (kern s)" for i
    by (simp_all add: container_holder [OF b1] container_holder [OF b2] value_itemval [OF b1] value_itemval [OF b2] r(3,4))
  moreover have "\<exists>p. container (StateItem (pxCurrentTCB k')) k' = Some (Ready p)" using r(8) by (auto simp: container_holder [OF b2] r(3) is_ready_def)
  moreover have "uxPriority (tcb (kern s) t) \<le> uxPriority (tcb (kern s) (pxCurrentTCB k'))" if "container (StateItem t) k' = Some (Ready p)" for t p
  proof -
    have h: "holder a (StateItem t) = Some (Ready p)" using that by (simp add: container_holder [OF b2] r(3))
    then have "p = uxPriority (tcb (kern s) t)" using base_home(3) [OF b1 h] by simp
    then show ?thesis using h r(9) by (simp add: is_ready_def)
  qed
  moreover have "pxCurrentTCB k' \<in> T" by (rule tasks_okD(1) [OF kernel_baseD(2) [OF b2]])
  ultimately show ?thesis using r(1,5-7) assms(2,3)
    by (intro exI [of _ "s\<lparr>kern := k'\<rparr>"]) (simp add: on_kernel_def)
qed

text \<open>Bits 0 and 1.\<close>

lemma bits_0_1: "only_bits 3" "(3 :: u32) \<noteq> 0" "\<not> prvTestWaitCondition 0 3 True" "bitset 3 = {0, 1}"
proof -
  have m: "(3 :: u32) = mask 2" by (simp add: mask_eq_exp_minus_1)
  have b: "bit (3 :: u32) n \<longleftrightarrow> n < 2" for n unfolding m bit_mask_iff by auto
  show "only_bits 3" "bitset 3 = {0, 1}" unfolding only_bits_code bitset_def b by auto
  show "(3 :: u32) \<noteq> 0" "\<not> prvTestWaitCondition 0 3 True" by (simp_all add: prvTestWaitCondition_def)
qed

text \<open>Task 2 waits for both bits; the idle task runs and sets them; task 2 runs again.\<close>

lemma first_waits:
  "\<exists>s1 g s2 r s3 s4. booted two_tasks blank_os = Some s1 \<and> greach {1, 2} 1 ({}, {}, s1) ({g}, {}, s2)
     \<and> pxCurrentTCB (kern s2) = 2 \<and> \<not> swi (kern s2) \<and> uxSchedulerSuspended (kern s2) = 0 \<and> bits_of g s2 = 0
     \<and> wait_bits_begin (interrupted {} []  []) 0 g 3 True True 100 s2 = Some (r, True, s3)
     \<and> greach {1, 2} 1 ({}, {}, s1) ({g}, {}, s4) \<and> meanwhile {1, 2} 1 2 ({g}, {}, s3) ({g}, {}, s4)
     \<and> pxCurrentTCB (kern s4) = 1 \<and> \<not> swi (kern s4) \<and> uxSchedulerSuspended (kern s4) = 0 \<and> waits_for g 2 (kern s4)
     \<and> value_of (EventItem 2) (kern s4) = or (wait_value 3 True True) taskEVENT_LIST_ITEM_VALUE_IN_USE \<and> bits_of g s4 = 0
     \<and> uxPriority (tcb (kern s4) 1) = 0 \<and> uxPriority (tcb (kern s4) 2) = 3"
proof -
  obtain s1 g s2 where r: "booted two_tasks blank_os = Some s1" "greach {1, 2} 1 ({}, {}, s1) ({g}, {}, s2)" "bits_of g s2 = 0"
     "pxCurrentTCB (kern s2) = 2" "\<not> swi (kern s2)" "uxSchedulerSuspended (kern s2) = 0"
     "uxPriority (tcb (kern s2) 1) = 0" "uxPriority (tcb (kern s2) 2) = 3" using first_group by blast
  have "1 \<in> fst ` set two_tasks" by (simp add: two_members)
  from group_reach [OF blank_os_power_on this r(1), of "({g}, {}, s2)"] r(2) have "gsys {1, 2} 1 ({g}, {}, s2)" by (simp add: two_members)
  then obtain a bs where sys: "os_sys {1, 2} 1 {g} ({}, s2) a bs" "no_missed {g} s2" by (auto simp: gsys_def)
  have nt: "pxCurrentTCB (kern s2) \<noteq> 1" "g \<in> {g}" using r(4) by simp_all
  obtain x w s3 a3 where b: "wait_bits_begin (interrupted {} [] []) 0 g 3 True True 100 s2 = Some (x, w, s3)" "os_sys {1, 2} 1 {g} ({}, s3) a3 bs" "no_missed {g} s3"
      "wait_begun g 3 True True 100 s2 (x, w, s3)" "w \<and> [] = ([] :: intr list) \<longrightarrow> waits_for g (pxCurrentTCB (kern s2)) (kern s3)" "w \<longrightarrow> awaiting_switch (kern s2) (kern s3)"
    using wait_bits_step [OF sys r(5,6) nt(2,1) bits_0_1(1,2), of "[]" True True 100] by blast
  have w: "w" "value_of (EventItem 2) (kern s3) = or (wait_value 3 True True) taskEVENT_LIST_ITEM_VALUE_IN_USE" "bits_of g s3 = 0"
    using b(4) bits_0_1(3) by (simp_all add: wait_begun_def r(3,4))
  have s3: "waits_for g 2 (kern s3)" "swi (kern s3)" "uxSchedulerSuspended (kern s3) = 0" "tcb (kern s3) = tcb (kern s2)"
    using b(5,6) w(1) r(4) by (simp_all add: awaiting_switch_def)
  have "gallowed {1, 2} 1 (WaitBits g 3 True True 100 []) ({g}, {}, s2)" using r(4-6) bits_0_1(1,2) by simp
  moreover have "gexec (WaitBits g 3 True True 100 []) ({g}, {}, s2) = Some ({g}, {}, s3)" using b(1) by simp
  ultimately have re: "greach {1, 2} 1 ({}, {}, s1) ({g}, {}, s3)" by (rule gstep [OF r(2)])
  have gs: "gsys {1, 2} 1 ({g}, {}, s3)" using b(2,3) by (rule gsysI)
  obtain s4 p where s4: "gallowed {1, 2} 1 (Queues (Interrupt YieldInt)) ({g}, {}, s3)" "gexec (Queues (Interrupt YieldInt)) ({g}, {}, s3) = Some ({g}, {}, s4)"
     "\<not> swi (kern s4)" "uxSchedulerSuspended (kern s4) = 0" "tcb (kern s4) = tcb (kern s3)" "group s4 = group s3"
     "\<And>i. container i (kern s4) = container i (kern s3) \<and> value_of i (kern s4) = value_of i (kern s3)"
     "pxCurrentTCB (kern s4) \<in> {1, 2}" "container (StateItem (pxCurrentTCB (kern s4))) (kern s4) = Some (Ready p)"
    using switch_turn [OF gs s3(2,3)] by blast
  have w4: "waits_for g 2 (kern s4)" "value_of (EventItem 2) (kern s4) = value_of (EventItem 2) (kern s3)" using s4(7) s3(1) by (simp_all add: waits_for_def)
  have "gsys {1, 2} 1 ({g}, {}, s4)" using gstep_keeps [OF gs s4(1)] s4(2) by simp
  then obtain a4 bs4 where sys4: "os_sys {1, 2} 1 {g} ({}, s4) a4 bs4" by (auto simp: gsys_def)
  have "pxCurrentTCB (kern s4) \<noteq> 2"
  proof
    note base = kernel_coreD [OF os_coreD(1) [OF os_sysD(1) [OF sys4]]]
    assume "pxCurrentTCB (kern s4) = 2"
    then have "holder a4 (StateItem 2) = Some (Ready p)" "holder a4 (EventItem 2) = Some (xTasksWaitingForBits g)"
      using s4(9) w4(1) by (simp_all add: waits_for_def container_holder [OF base(2)])
    then show False using base(5) by (fastforce simp: waits_ok_def sleeping_def)
  qed
  then have c4: "pxCurrentTCB (kern s4) = 1" using s4(8) by simp
  have mw: "meanwhile {1, 2} 1 2 ({g}, {}, s3) ({g}, {}, s4)" by (rule mstep [OF mstart s4(1) _ s4(2)]) simp
  have "bits_of g s4 = 0" using w(3) by (simp add: bits_of_def s4(6))
  then show ?thesis using r b(1) w(1,2) gstep [OF re s4(1,2)] mw c4 s4(3-5) s3(4) w4
    by (intro exI [of _ s1] exI [of _ g] exI [of _ s2] exI [of _ x] exI [of _ s3] exI [of _ s4]) simp
qed

lemma first_wakes:
  "\<exists>s1 g s2 r s3 s6. booted two_tasks blank_os = Some s1 \<and> greach {1, 2} 1 ({}, {}, s1) ({g}, {}, s2)
     \<and> pxCurrentTCB (kern s2) = 2 \<and> \<not> swi (kern s2) \<and> uxSchedulerSuspended (kern s2) = 0
     \<and> wait_bits_begin (interrupted {} [] []) 0 g 3 True True 100 s2 = Some (r, True, s3)
     \<and> meanwhile {1, 2} 1 2 ({g}, {}, s3) ({g}, {}, s6) \<and> pxCurrentTCB (kern s6) = 2 \<and> \<not> swi (kern s6)"
proof -
  obtain s1 g s2 r s3 s4 where f: "booted two_tasks blank_os = Some s1" "greach {1, 2} 1 ({}, {}, s1) ({g}, {}, s2)"
     "pxCurrentTCB (kern s2) = 2" "\<not> swi (kern s2)" "uxSchedulerSuspended (kern s2) = 0"
     "wait_bits_begin (interrupted {} [] []) 0 g 3 True True 100 s2 = Some (r, True, s3)"
     "greach {1, 2} 1 ({}, {}, s1) ({g}, {}, s4)" "meanwhile {1, 2} 1 2 ({g}, {}, s3) ({g}, {}, s4)"
     "pxCurrentTCB (kern s4) = 1" "\<not> swi (kern s4)" "uxSchedulerSuspended (kern s4) = 0" "waits_for g 2 (kern s4)"
     "value_of (EventItem 2) (kern s4) = or (wait_value 3 True True) taskEVENT_LIST_ITEM_VALUE_IN_USE" "bits_of g s4 = 0"
     "uxPriority (tcb (kern s4) 1) = 0" "uxPriority (tcb (kern s4) 2) = 3" using first_waits by blast
  have "1 \<in> fst ` set two_tasks" by (simp add: two_members)
  from group_reach [OF blank_os_power_on this f(1), of "({g}, {}, s4)"] f(7) have gs4: "gsys {1, 2} 1 ({g}, {}, s4)" by (simp add: two_members)
  then obtain a bs where sys4: "os_sys {1, 2} 1 {g} ({}, s4) a bs" "no_missed {g} s4" by (auto simp: gsys_def)
  have gg: "g \<in> {g}" by simp
  obtain s5 a5 where s5: "xEventGroupSetBits (interrupted {} [] []) 0 g 3 s4 = Some (bits_of g s5, s5)" "os_sys {1, 2} 1 {g} ({}, s5) a5 bs" "set_exact g 3 s4 s5"
      "pxCurrentTCB (kern s5) = 1" "tcb (kern s5) = tcb (kern s4)" "uxSchedulerSuspended (kern s5) = 0"
    using set_bits_exact [OF sys4 f(10,11) gg bits_0_1(1)] f(9) by auto
  have al4: "gallowed {1, 2} 1 (SetBits g 3 []) ({g}, {}, s4)" using f(10,11) bits_0_1(1) by simp
  have ex4: "gexec (SetBits g 3 []) ({g}, {}, s4) = Some ({g}, {}, s5)" using s5(1) by simp
  have v: "bitset (value_of (EventItem 2) (kern s4)) = {0, 1}"
    using wait_value_parts [OF bits_0_1(1), of True True] by (simp add: f(13) bitset_or bits_0_1(4))
  have fr: "is_freed g 3 s4 2" using f(12,14) bits_0_1(4) v by (simp add: is_freed_def satisfied_def)
  have rd5: "container (StateItem 2) (kern s5) = Some (Ready 3)" using s5(3) fr f(16) by (simp add: set_exact_def)
  note b5 = kernel_coreD(2) [OF os_coreD(1) [OF os_sysD(1) [OF s5(2)]]]
  have "swi (kern s5)"
  proof (rule ccontr)
    assume "\<not> swi (kern s5)"
    moreover have "is_ready a5 2" using rd5 by (auto simp: is_ready_def container_holder [OF b5])
    ultimately have "uxPriority (tcb (kern s5) 2) \<le> uxPriority (tcb (kern s5) (pxCurrentTCB (kern s5)))"
      using os_sysD(2) [OF s5(2)] s5(6) by (auto simp: preemptive_def)
    then show False by (simp add: s5(4,5) f(15,16))
  qed
  moreover have gs5: "gsys {1, 2} 1 ({g}, {}, s5)" using gstep_keeps [OF gs4 al4] ex4 by (metis option.inject)
  ultimately obtain s6 where s6: "gallowed {1, 2} 1 (Queues (Interrupt YieldInt)) ({g}, {}, s5)" "gexec (Queues (Interrupt YieldInt)) ({g}, {}, s5) = Some ({g}, {}, s6)"
     "\<not> swi (kern s6)" "pxCurrentTCB (kern s6) \<in> {1, 2}" "\<And>i. container i (kern s6) = container i (kern s5)"
     "\<And>t p. container (StateItem t) (kern s6) = Some (Ready p) \<longrightarrow> uxPriority (tcb (kern s5) t) \<le> uxPriority (tcb (kern s5) (pxCurrentTCB (kern s6)))"
    using switch_turn [OF gs5 _ s5(6)] by blast
  have "uxPriority (tcb (kern s5) 2) \<le> uxPriority (tcb (kern s5) (pxCurrentTCB (kern s6)))" using s6(6) [of 2 3] s6(5) rd5 by simp
  then have c6: "pxCurrentTCB (kern s6) = 2" using s6(4) by (auto simp: s5(5) f(15,16))
  have "\<not> own_call 2 (SetBits g 3 []) ({g}, {}, s4)" "\<not> own_call 2 (Queues (Interrupt YieldInt)) ({g}, {}, s5)" by simp_all
  then have "meanwhile {1, 2} 1 2 ({g}, {}, s3) ({g}, {}, s6)"
    using mstep [OF mstep [OF f(8) al4 _ ex4] s6(1) _ s6(2)] by blast
  then show ?thesis using f(1-6) c6 s6(3) by blast
qed

section \<open>Properties\<close>

text \<open>
  C2: From power on, in every state that any interleaving of tasks and interrupts reaches with the scheduler,
  queues, semaphores and event groups, the next step that the API allows returns: no assertion of the code modelled from \<open>tasks.c\<close>,
  \<open>queue.c\<close>, \<open>event_groups.c\<close> or \<open>heap_4.c\<close> fails, those on entry to a call included, no null pointer is followed, no loop runs for ever.
  The steps are whole calls of the scheduler and of event groups, and the attempts (each with the call's entry assertions)
  and the waits of which the queue calls are made. A time to wait is only given while the scheduler runs, as the API asks.
\<close>

theorem event_groups_never_assert:
  assumes "power_on ts s0" and "idle \<in> fst ` set ts" and "booted ts s0 = Some s1" and "greach (fst ` set ts) idle ({}, {}, s1) x"
    and "gallowed (fst ` set ts) idle y x"
  shows "\<exists>G Q s. gexec y x = Some (G, Q, s)"
  using gstep_keeps [OF group_reach [OF assms(1-4)] assms(5)] by fastforce

lemma event_groups_never_assert_witness:
  "\<exists>s1 g s2 G Q s. booted two_tasks blank_os = Some s1 \<and> greach {1, 2} 1 ({}, {}, s1) ({g}, {}, s2)
     \<and> gexec (WaitBits g 3 True True 100 [TickInt]) ({g}, {}, s2) = Some (G, Q, s)"
proof -
  obtain s1 g s2 where r: "booted two_tasks blank_os = Some s1" "greach {1, 2} 1 ({}, {}, s1) ({g}, {}, s2)" "pxCurrentTCB (kern s2) = 2"
     "\<not> swi (kern s2)" "uxSchedulerSuspended (kern s2) = 0" using first_group by blast
  have m: "1 \<in> fst ` set two_tasks" by (simp add: two_members)
  have re: "greach (fst ` set two_tasks) 1 ({}, {}, s1) ({g}, {}, s2)" using r(2) by (simp add: two_members)
  have "gallowed (fst ` set two_tasks) 1 (WaitBits g 3 True True 100 [TickInt]) ({g}, {}, s2)" using r(3-5) bits_0_1 by simp
  from event_groups_never_assert [OF blank_os_power_on m r(1) re this] r(1,2) show ?thesis by blast
qed

text \<open>
  C6: No wake-up is missed: in no reachable state does a task wait on an event group whose bits meet its
  condition, any bit or all bits, as the value of its event item has it.
\<close>

theorem no_sleep_on_met_condition:
  assumes "power_on ts s0" and "idle \<in> fst ` set ts" and "booted ts s0 = Some s1" and "greach (fst ` set ts) idle ({}, {}, s1) (G, Q, s)"
    and "g \<in> G" and "container (EventItem t) (kern s) = Some (xTasksWaitingForBits g)"
  shows "\<not> prvTestWaitCondition (bits_of g s) (and (value_of (EventItem t) (kern s)) (not eventEVENT_BITS_CONTROL_BYTES))
     (and (value_of (EventItem t) (kern s)) eventWAIT_FOR_ALL_BITS \<noteq> 0)"
proof -
  define v where "v = value_of (EventItem t) (kern s)"
  define want where "want = and v (not eventEVENT_BITS_CONTROL_BYTES)"
  have "gsys (fst ` set ts) idle (G, Q, s)" by (rule group_reach [OF assms(1-4)])
  then have "\<not> satisfied (bitset (bits_of g s)) v" using assms(5,6) by (auto simp: gsys_def no_missed_def waits_for_def v_def)
  moreover have o: "only_bits want" by (auto simp: only_bits_code want_def word_bits dest: bit_u32)
  have "bitset want = bitset v" by (auto simp: bitset_def want_def word_bits)
  moreover have "and v eventWAIT_FOR_ALL_BITS \<noteq> 0 \<longleftrightarrow> needs_all v" by (auto simp: zero_bits word_bits needs_all_def)
  ultimately show ?thesis unfolding prvTestWaitCondition_sets [OF o, where clear = True] v_def [symmetric] want_def [symmetric]
    unfolding satisfied_def wait_value_parts [OF o] by (simp only: simp_thms if_cancel)
qed

lemma no_sleep_on_met_condition_witness:
  "\<exists>s1 g s. booted two_tasks blank_os = Some s1 \<and> greach {1, 2} 1 ({}, {}, s1) ({g}, {}, s) \<and> waits_for g 2 (kern s)
     \<and> \<not> prvTestWaitCondition (bits_of g s) (and (value_of (EventItem 2) (kern s)) (not eventEVENT_BITS_CONTROL_BYTES))
          (and (value_of (EventItem 2) (kern s)) eventWAIT_FOR_ALL_BITS \<noteq> 0)"
proof -
  obtain s1 g s where r: "booted two_tasks blank_os = Some s1" "greach {1, 2} 1 ({}, {}, s1) ({g}, {}, s)" "waits_for g 2 (kern s)"
    using first_waits by blast
  have m: "1 \<in> fst ` set two_tasks" by (simp add: two_members)
  have re: "greach (fst ` set two_tasks) 1 ({}, {}, s1) ({g}, {}, s)" using r(2) by (simp add: two_members)
  have "g \<in> {g}" by simp
  from no_sleep_on_met_condition [OF blank_os_power_on m r(1) re this r(3) [unfolded waits_for_def]] r show ?thesis by blast
qed

text \<open>
  C17: Setting bits frees exactly the right tasks. In every reachable state, without interrupts in the call:
  each task that waits for a condition the new bits meet leaves the group for the ready list of its priority
  with those bits and the mark in its event item; every other task keeps its place and its value; the bits
  afterwards are the old and the new ones without those that freed tasks asked to clear.
\<close>

theorem xEventGroupSetBits_frees_exactly:
  assumes "power_on ts s0" and "idle \<in> fst ` set ts" and "booted ts s0 = Some s1" and "greach (fst ` set ts) idle ({}, {}, s1) (G, Q, s)"
    and "gallowed (fst ` set ts) idle (SetBits g b []) (G, Q, s)"
  shows "\<exists>s'. xEventGroupSetBits (interrupted Q [] []) 0 g b s = Some (bits_of g s', s') \<and> set_exact g b s s'"
proof -
  obtain a bs where "os_sys (fst ` set ts) idle G (Q, s) a bs" "no_missed G s" using group_reach [OF assms(1-4)] by (auto simp: gsys_def)
  from set_bits_exact [OF this, of g b] assms(5) show ?thesis by auto
qed

lemma xEventGroupSetBits_frees_exactly_witness:
  "\<exists>s1 g s s'. booted two_tasks blank_os = Some s1 \<and> greach {1, 2} 1 ({}, {}, s1) ({g}, {}, s) \<and> waits_for g 2 (kern s)
     \<and> xEventGroupSetBits (interrupted {} [] []) 0 g 3 s = Some (bits_of g s', s')
     \<and> container (StateItem 2) (kern s') = Some (Ready 3) \<and> bitset (bits_of g s') = {}"
proof -
  obtain s1 g s where r: "booted two_tasks blank_os = Some s1" "greach {1, 2} 1 ({}, {}, s1) ({g}, {}, s)" "waits_for g 2 (kern s)"
     "\<not> swi (kern s)" "uxSchedulerSuspended (kern s) = 0" "value_of (EventItem 2) (kern s) = or (wait_value 3 True True) taskEVENT_LIST_ITEM_VALUE_IN_USE"
     "bits_of g s = 0" "uxPriority (tcb (kern s) 2) = 3"
    using first_waits by blast
  have m: "1 \<in> fst ` set two_tasks" by (simp add: two_members)
  have re: "greach (fst ` set two_tasks) 1 ({}, {}, s1) ({g}, {}, s)" using r(2) by (simp add: two_members)
  have "gallowed (fst ` set two_tasks) 1 (SetBits g 3 []) ({g}, {}, s)" using r(4,5) bits_0_1(1) by simp
  from xEventGroupSetBits_frees_exactly [OF blank_os_power_on m r(1) re this] obtain s' where
    s': "xEventGroupSetBits (interrupted {} [] []) 0 g 3 s = Some (bits_of g s', s')" "set_exact g 3 s s'" by blast
  have v: "bitset (value_of (EventItem 2) (kern s)) = {0, 1}" "clears (value_of (EventItem 2) (kern s))"
    using wait_value_parts [OF bits_0_1(1), of True True] by (simp_all add: r(6) bitset_or bits_0_1(4)) (simp add: clears_def word_bits)
  then have f: "is_freed g 3 s 2" using r(3,7) bits_0_1(4) by (simp add: is_freed_def satisfied_def)
  have "bitset (bits_of g s') = {0, 1} - (\<Union>t \<in> {t. is_freed g 3 s t \<and> clears (value_of (EventItem t) (kern s))}. bitset (value_of (EventItem t) (kern s)))"
    using s'(2) r(7) bits_0_1(4) by (simp add: set_exact_def)
  moreover have "2 \<in> {t. is_freed g 3 s t \<and> clears (value_of (EventItem t) (kern s))}" using f v(2) by simp
  ultimately have "bitset (bits_of g s') = {}" using v(1) by blast
  moreover have "container (StateItem 2) (kern s') = Some (Ready 3)" using s'(2) f r(8) by (simp add: set_exact_def)
  ultimately show ?thesis using r(1-3) s'(1) by blast
qed

text \<open>
  C18: What \<open>xEventGroupWaitBits\<close> returns. Exactly if the condition holds or no time is given it returns at once, with
  the bits, cleared in the group as asked when the condition holds. Otherwise the task sleeps, and whatever tasks and interrupts do
  until it runs again, it then returns bits that meet the condition, or the bits of the group as they are,
  left alone.
\<close>

theorem xEventGroupWaitBits_result:
  assumes "power_on ts s0" and "idle \<in> fst ` set ts" and "booted ts s0 = Some s1" and "greach (fst ` set ts) idle ({}, {}, s1) (G, Q, s)"
    and "gallowed (fst ` set ts) idle (WaitBits g want clear all d is) (G, Q, s)"
  shows "\<exists>r waits s'. wait_bits_begin (interrupted Q is []) 0 g want clear all d s = Some (r, waits, s')
    \<and> (waits \<longleftrightarrow> d \<noteq> 0 \<and> \<not> prvTestWaitCondition (bits_of g s) want all)
    \<and> (if waits
       then \<forall>G2 Q2 s2. meanwhile (fst ` set ts) idle (pxCurrentTCB (kern s)) (G, Q, s') (G2, Q2, s2)
           \<and> pxCurrentTCB (kern s2) = pxCurrentTCB (kern s) \<and> \<not> swi (kern s2)
         \<longrightarrow> (\<exists>r2 s3. wait_bits_end g want clear all s2 = Some (r2, s3)
              \<and> (prvTestWaitCondition r2 want all \<or> r2 = bits_of g s2 \<and> bits_of g s3 = r2))
       else r = bits_of g s
         \<and> bits_of g s' = (if prvTestWaitCondition r want all \<and> clear then and r (not want) else r))"
proof -
  obtain a bs where sys: "os_sys (fst ` set ts) idle G (Q, s) a bs" "no_missed G s" using group_reach [OF assms(1-4)] by (auto simp: gsys_def)
  have al: "\<not> swi (kern s)" "uxSchedulerSuspended (kern s) = 0" "g \<in> G" "pxCurrentTCB (kern s) \<noteq> idle" "only_bits want" "want \<noteq> 0" using assms(5) by simp_all
  obtain r w s' a' where b: "wait_bits_begin (interrupted Q is []) 0 g want clear all d s = Some (r, w, s')" "os_sys (fst ` set ts) idle G (Q, s') a' bs"
     "no_missed G s'" "wait_begun g want clear all d s (r, w, s')" using wait_bits_step [OF sys al, of "is" clear all d] by blast
  have gs: "gsys (fst ` set ts) idle (G, Q, s')" by (rule gsysI [OF b(2,3)])
  show ?thesis
  proof (cases w)
    case True
    then have v: "value_of (EventItem (pxCurrentTCB (kern s))) (kern s') = or (wait_value want clear all) taskEVENT_LIST_ITEM_VALUE_IN_USE"
      using b(4) by (auto simp: wait_begun_def split: if_splits)
    have "\<forall>G2 Q2 s2. meanwhile (fst ` set ts) idle (pxCurrentTCB (kern s)) (G, Q, s') (G2, Q2, s2)
           \<and> pxCurrentTCB (kern s2) = pxCurrentTCB (kern s) \<and> \<not> swi (kern s2)
         \<longrightarrow> (\<exists>r2 s3. wait_bits_end g want clear all s2 = Some (r2, s3) \<and> (prvTestWaitCondition r2 want all \<or> r2 = bits_of g s2 \<and> bits_of g s3 = r2))"
      using wait_result [OF gs v al(5,3)] by blast
    moreover have "d \<noteq> 0 \<and> \<not> prvTestWaitCondition (bits_of g s) want all" using b(4) True by (auto simp: wait_begun_def split: if_splits)
    ultimately show ?thesis using b(1) True by (intro exI [of _ r] exI [of _ w] exI [of _ s']) (simp only: if_True simp_thms not_False_eq_True)
  next
    case False
    then show ?thesis using b(1,4) by (intro exI [of _ r] exI [of _ w] exI [of _ s']) (auto simp: wait_begun_def split: if_splits)
  qed
qed

lemma xEventGroupWaitBits_result_witness:
  "\<exists>s1 g s2 r s3 s6 r2 s7. booted two_tasks blank_os = Some s1 \<and> greach {1, 2} 1 ({}, {}, s1) ({g}, {}, s2)
     \<and> wait_bits_begin (interrupted {} [] []) 0 g 3 True True 100 s2 = Some (r, True, s3)
     \<and> meanwhile {1, 2} 1 2 ({g}, {}, s3) ({g}, {}, s6) \<and> wait_bits_end g 3 True True s6 = Some (r2, s7)
     \<and> (prvTestWaitCondition r2 3 True \<or> r2 = bits_of g s6 \<and> bits_of g s7 = r2)"
proof -
  obtain s1 g s2 r s3 s6 where f: "booted two_tasks blank_os = Some s1" "greach {1, 2} 1 ({}, {}, s1) ({g}, {}, s2)"
     "pxCurrentTCB (kern s2) = 2" "\<not> swi (kern s2)" "uxSchedulerSuspended (kern s2) = 0"
     "wait_bits_begin (interrupted {} [] []) 0 g 3 True True 100 s2 = Some (r, True, s3)"
     "meanwhile {1, 2} 1 2 ({g}, {}, s3) ({g}, {}, s6)" "pxCurrentTCB (kern s6) = 2" "\<not> swi (kern s6)" using first_wakes by blast
  have m: "1 \<in> fst ` set two_tasks" by (simp add: two_members)
  have re: "greach (fst ` set two_tasks) 1 ({}, {}, s1) ({g}, {}, s2)" using f(2) by (simp add: two_members)
  have "gallowed (fst ` set two_tasks) 1 (WaitBits g 3 True True 100 []) ({g}, {}, s2)" using f(3-5) bits_0_1 by simp
  from xEventGroupWaitBits_result [OF blank_os_power_on m f(1) re this] f(6) have
    "\<forall>G2 Q2 s2'. meanwhile (fst ` set two_tasks) 1 (pxCurrentTCB (kern s2)) ({g}, {}, s3) (G2, Q2, s2')
        \<and> pxCurrentTCB (kern s2') = pxCurrentTCB (kern s2) \<and> \<not> swi (kern s2')
      \<longrightarrow> (\<exists>r2 s7. wait_bits_end g 3 True True s2' = Some (r2, s7) \<and> (prvTestWaitCondition r2 3 True \<or> r2 = bits_of g s2' \<and> bits_of g s7 = r2))"
    by auto
  then have "\<exists>r2 s7. wait_bits_end g 3 True True s6 = Some (r2, s7) \<and> (prvTestWaitCondition r2 3 True \<or> r2 = bits_of g s6 \<and> bits_of g s7 = r2)"
    using f(3,7-9) two_members by metis
  then show ?thesis using f(1,2,6,7) by blast
qed




end
