(* ===== verification/TaskCreate.thy ===== *)
theory TaskCreate
  imports Queue KernelBoot
begin

text \<open>
  \<open>xTaskCreate\<close> of \<open>tasks.c\<close> with its memory: stack and control block come from heap_4, the stack first
  since stacks grow down. How large a control block is depends on the compiler: an argument.
\<close>

definition pdFAIL :: u32 where "pdFAIL = 0"
definition pdPASS :: u32 where "pdPASS = 1"
definition errCOULD_NOT_ALLOCATE_REQUIRED_MEMORY :: u32 where "errCOULD_NOT_ALLOCATE_REQUIRED_MEMORY = -1"
definition sizeof_StackType_t :: u32 where "sizeof_StackType_t = 4"

definition task_memory :: "u32 \<Rightarrow> u32 \<Rightarrow> os \<Rightarrow> (task \<times> os) option" where
  "task_memory sizeof_TCB_t usStackDepth s = do {
     (pxStack, h) \<leftarrow> pvPortMalloc (usStackDepth * sizeof_StackType_t) (heap s);
     let s = s\<lparr>heap := h\<rparr>;
     (if pxStack \<noteq> 0
      then do {
        (pxNewTCB, h) \<leftarrow> pvPortMalloc sizeof_TCB_t (heap s);
        let s = s\<lparr>heap := h\<rparr>;
        (if pxNewTCB \<noteq> 0
         then Some (pxNewTCB, s)
         else do { h \<leftarrow> vPortFree pxStack (heap s); Some (0, s\<lparr>heap := h\<rparr>) })
      }
      else Some (0, s))
   }"

definition xTaskCreate :: "u32 \<Rightarrow> u32 \<Rightarrow> u32 \<Rightarrow> os \<Rightarrow> (u32 \<times> task \<times> os) option" where
  "xTaskCreate sizeof_TCB_t usStackDepth prio s = do {
     (pxNewTCB, s) \<leftarrow> task_memory sizeof_TCB_t usStackDepth s;
     (if pxNewTCB \<noteq> 0
      then do { s \<leftarrow> on_kernel (create_task pxNewTCB prio) s; Some (pdPASS, pxNewTCB, s) }
      else Some (errCOULD_NOT_ALLOCATE_REQUIRED_MEMORY, 0, s))
   }"

end
