(* ===== verification/Timers.thy ===== *)
theory Timers
  imports TaskCreate
begin

text \<open>
  The kernel's software timers, \<open>src/libraries/freertos/timers.c\<close>: a daemon task keeps the active timers in
  two lists sorted by the tick they expire at, one for ticks before the next wrap of the tick counter and
  one for ticks after it, and takes commands from a queue. A timer handle is the address of its structure;
  the list item in it is known by that address. The configuration is the port's: dynamic allocation, no
  pended function calls, no trace facility.

  \<open>cb f t\<close> is what the application's callback \<open>f\<close> does for the timer \<open>t\<close>; the calls are recorded in
  \<open>expired\<close>. A callback may send commands. \<open>env n\<close> is what interrupts and other tasks do at the \<open>n\<close>-th point of a call that lets them.
\<close>

section \<open>State\<close>

datatype timer_list = xActiveTimerList1 | xActiveTimerList2

record Timer_t =
  pcTimerName :: u32
  xTimerPeriodInTicks :: u32
  pvTimerID :: u32
  pxCallbackFunction :: u32
  ucStatus :: u8

text \<open>The file's static variables, the timers at their addresses, and the kernel and heap below (\<open>rtos\<close>).\<close>

record tmr =
  rtos :: os
  active :: "(u32, timer_list, u32) store"
  timer :: "u32 \<Rightarrow> Timer_t"
  pxCurrentTimerList :: timer_list
  pxOverflowTimerList :: timer_list
  xTimerQueue :: u32
  xTimerTaskHandle :: task
  xLastTime :: u32
  expired :: "u32 list"

definition tmrSTATUS_IS_ACTIVE :: u8 where "tmrSTATUS_IS_ACTIVE = 1"
definition tmrSTATUS_IS_STATICALLY_ALLOCATED :: u8 where "tmrSTATUS_IS_STATICALLY_ALLOCATED = 2"
definition tmrSTATUS_IS_AUTORELOAD :: u8 where "tmrSTATUS_IS_AUTORELOAD = 4"
definition tmrMAX_TIME_BEFORE_OVERFLOW :: u32 where "tmrMAX_TIME_BEFORE_OVERFLOW = 0xffffffff"
definition sizeof_Timer_t :: u32 where "sizeof_Timer_t = 40"

definition upd_timer :: "u32 \<Rightarrow> (Timer_t \<Rightarrow> Timer_t) \<Rightarrow> tmr \<Rightarrow> tmr" where
  "upd_timer t f m = m\<lparr>timer := (timer m)(t := f (timer m t))\<rparr>"

definition set_status :: "u8 \<Rightarrow> u32 \<Rightarrow> tmr \<Rightarrow> tmr" where
  "set_status b t m = upd_timer t (\<lambda>x. x\<lparr>ucStatus := or (ucStatus x) b\<rparr>) m"

definition clear_status :: "u8 \<Rightarrow> u32 \<Rightarrow> tmr \<Rightarrow> tmr" where
  "clear_status b t m = upd_timer t (\<lambda>x. x\<lparr>ucStatus := and (ucStatus x) (not b)\<rparr>) m"

definition on_active :: "((u32, timer_list, u32) store \<Rightarrow> (u32, timer_list, u32) store option) \<Rightarrow> tmr \<Rightarrow> tmr option" where
  "on_active f m = map_option (\<lambda>s. m\<lparr>active := s\<rparr>) (f (active m))"

definition on_rtos :: "(os \<Rightarrow> os option) \<Rightarrow> tmr \<Rightarrow> tmr option" where
  "on_rtos f m = map_option (\<lambda>s. m\<lparr>rtos := s\<rparr>) (f (rtos m))"

definition run_callback :: "(u32 \<Rightarrow> u32 \<Rightarrow> tmr \<Rightarrow> tmr) \<Rightarrow> u32 \<Rightarrow> tmr \<Rightarrow> tmr" where
  "run_callback cb t m = (let m = cb (pxCallbackFunction (timer m t)) t m in m\<lparr>expired := expired m @ [t]\<rparr>)"

section \<open>The lists of active timers\<close>

text \<open>The result tells that the timer has expired already.\<close>

definition prvInsertTimerInActiveList :: "u32 \<Rightarrow> u32 \<Rightarrow> u32 \<Rightarrow> u32 \<Rightarrow> tmr \<Rightarrow> (bool \<times> tmr) option" where
  "prvInsertTimerInActiveList pxTimer xNextExpiryTime xTimeNow xCommandTime m = do {
     let m = m\<lparr>active := listSET_LIST_ITEM_OWNER pxTimer pxTimer (listSET_LIST_ITEM_VALUE pxTimer xNextExpiryTime (active m))\<rparr>;
     (if xNextExpiryTime \<le> xTimeNow
      then if xTimeNow - xCommandTime \<ge> xTimerPeriodInTicks (timer m pxTimer)
        then Some (True, m)
        else map_option (Pair False) (on_active (vListInsert (pxOverflowTimerList m) pxTimer) m)
      else if xTimeNow < xCommandTime \<and> xNextExpiryTime \<ge> xCommandTime
        then Some (True, m)
        else map_option (Pair False) (on_active (vListInsert (pxCurrentTimerList m) pxTimer) m))
   }"

text \<open>Put back a timer that reloads; each period that has passed as well is one more call.\<close>

partial_function (option) prvReloadTimer :: "(u32 \<Rightarrow> u32 \<Rightarrow> tmr \<Rightarrow> tmr) \<Rightarrow> u32 \<Rightarrow> u32 \<Rightarrow> u32 \<Rightarrow> tmr \<Rightarrow> tmr option" where
  "prvReloadTimer cb pxTimer xExpiredTime xTimeNow m = do {
     (b, m) \<leftarrow> prvInsertTimerInActiveList pxTimer (xExpiredTime + xTimerPeriodInTicks (timer m pxTimer)) xTimeNow xExpiredTime m;
     (if b
      then prvReloadTimer cb pxTimer (xExpiredTime + xTimerPeriodInTicks (timer m pxTimer)) xTimeNow (run_callback cb pxTimer m)
      else Some m)
   }"

definition prvProcessExpiredTimer :: "(u32 \<Rightarrow> u32 \<Rightarrow> tmr \<Rightarrow> tmr) \<Rightarrow> u32 \<Rightarrow> u32 \<Rightarrow> tmr \<Rightarrow> tmr option" where
  "prvProcessExpiredTimer cb xNextExpireTime xTimeNow m = do {
     owner \<leftarrow> listGET_OWNER_OF_HEAD_ENTRY (pxCurrentTimerList m) (active m);
     pxTimer \<leftarrow> owner;
     (n, l) \<leftarrow> uxListRemove pxTimer (active m);
     let m = m\<lparr>active := l\<rparr>;
     m \<leftarrow> (if and (ucStatus (timer m pxTimer)) tmrSTATUS_IS_AUTORELOAD \<noteq> 0
          then prvReloadTimer cb pxTimer xNextExpireTime xTimeNow m
          else Some (clear_status tmrSTATUS_IS_ACTIVE pxTimer m));
     Some (run_callback cb pxTimer m)
   }"

text \<open>At a wrap of the tick counter what is left in the current list has expired.\<close>

partial_function (option) switch_loop :: "(u32 \<Rightarrow> u32 \<Rightarrow> tmr \<Rightarrow> tmr) \<Rightarrow> tmr \<Rightarrow> tmr option" where
  "switch_loop cb m =
     (if \<not> listLIST_IS_EMPTY (pxCurrentTimerList m) (active m)
      then do {
        xNextExpireTime \<leftarrow> listGET_ITEM_VALUE_OF_HEAD_ENTRY (pxCurrentTimerList m) (active m);
        m \<leftarrow> prvProcessExpiredTimer cb xNextExpireTime tmrMAX_TIME_BEFORE_OVERFLOW m;
        switch_loop cb m
      }
      else Some m)"

definition prvSwitchTimerLists :: "(u32 \<Rightarrow> u32 \<Rightarrow> tmr \<Rightarrow> tmr) \<Rightarrow> tmr \<Rightarrow> tmr option" where
  "prvSwitchTimerLists cb m = do {
     m \<leftarrow> switch_loop cb m;
     Some (m\<lparr>pxCurrentTimerList := pxOverflowTimerList m, pxOverflowTimerList := pxCurrentTimerList m\<rparr>)
   }"

text \<open>\<open>now\<close> is what \<open>xTaskGetTickCount\<close> gives. The result tells that the lists were switched.\<close>

definition prvSampleTimeNow :: "(u32 \<Rightarrow> u32 \<Rightarrow> tmr \<Rightarrow> tmr) \<Rightarrow> u32 \<Rightarrow> tmr \<Rightarrow> (bool \<times> tmr) option" where
  "prvSampleTimeNow cb now m = do {
     (switched, m) \<leftarrow> (if now < xLastTime m then map_option (Pair True) (prvSwitchTimerLists cb m) else Some (False, m));
     Some (switched, m\<lparr>xLastTime := now\<rparr>)
   }"

definition prvGetNextExpireTime :: "tmr \<Rightarrow> (u32 \<times> bool) option" where
  "prvGetNextExpireTime m = do {
     let empty = listLIST_IS_EMPTY (pxCurrentTimerList m) (active m);
     xNextExpireTime \<leftarrow> (if \<not> empty then listGET_ITEM_VALUE_OF_HEAD_ENTRY (pxCurrentTimerList m) (active m) else Some 0);
     Some (xNextExpireTime, empty)
   }"

section \<open>Creation\<close>

definition configTIMER_QUEUE_LENGTH :: u32 where "configTIMER_QUEUE_LENGTH = 10"
definition sizeof_DaemonTaskMessage_t :: u32 where "sizeof_DaemonTaskMessage_t = 12"

definition prvCheckForValidListAndQueue :: "tmr \<Rightarrow> tmr option" where
  "prvCheckForValidListAndQueue m =
     (if xTimerQueue m = 0
      then do {
        let m = m\<lparr>active := vListInitialise xActiveTimerList2 (vListInitialise xActiveTimerList1 (active m)),
                  pxCurrentTimerList := xActiveTimerList1, pxOverflowTimerList := xActiveTimerList2\<rparr>;
        (q, s) \<leftarrow> xQueueGenericCreate configTIMER_QUEUE_LENGTH sizeof_DaemonTaskMessage_t (rtos m);
        Some (m\<lparr>rtos := s, xTimerQueue := q\<rparr>)
      }
      else Some m)"

definition prvInitialiseNewTimer :: "u32 \<Rightarrow> u32 \<Rightarrow> bool \<Rightarrow> u32 \<Rightarrow> u32 \<Rightarrow> u32 \<Rightarrow> tmr \<Rightarrow> tmr option" where
  "prvInitialiseNewTimer name period xAutoReload tid f pxNewTimer m = do {
     configASSERT (period > 0);
     m \<leftarrow> prvCheckForValidListAndQueue m;
     let m = upd_timer pxNewTimer (\<lambda>x. x\<lparr>pcTimerName := name, xTimerPeriodInTicks := period, pvTimerID := tid, pxCallbackFunction := f\<rparr>) m;
     let m = m\<lparr>active := vListInitialiseItem pxNewTimer (active m)\<rparr>;
     Some (if xAutoReload then set_status tmrSTATUS_IS_AUTORELOAD pxNewTimer m else m)
   }"

text \<open>The null handle when the heap is exhausted.\<close>

definition xTimerCreate :: "u32 \<Rightarrow> u32 \<Rightarrow> bool \<Rightarrow> u32 \<Rightarrow> u32 \<Rightarrow> tmr \<Rightarrow> (u32 \<times> tmr) option" where
  "xTimerCreate name period xAutoReload tid f m = do {
     (t, h) \<leftarrow> pvPortMalloc sizeof_Timer_t (heap (rtos m));
     let m = m\<lparr>rtos := (rtos m)\<lparr>heap := h\<rparr>\<rparr>;
     (if t \<noteq> 0
      then do {
        let m = upd_timer t (\<lambda>x. x\<lparr>ucStatus := 0\<rparr>) m;
        m \<leftarrow> prvInitialiseNewTimer name period xAutoReload tid f t m;
        Some (t, m)
      }
      else Some (t, m))
   }"

section \<open>Commands\<close>

definition tmrCOMMAND_START :: u32 where "tmrCOMMAND_START = 1"
definition tmrCOMMAND_RESET :: u32 where "tmrCOMMAND_RESET = 2"
definition tmrCOMMAND_STOP :: u32 where "tmrCOMMAND_STOP = 3"
definition tmrCOMMAND_CHANGE_PERIOD :: u32 where "tmrCOMMAND_CHANGE_PERIOD = 4"
definition tmrCOMMAND_DELETE :: u32 where "tmrCOMMAND_DELETE = 5"
definition tmrFIRST_FROM_ISR_COMMAND :: u32 where "tmrFIRST_FROM_ISR_COMMAND = 6"
definition tmrCOMMAND_START_FROM_ISR :: u32 where "tmrCOMMAND_START_FROM_ISR = 6"
definition tmrCOMMAND_RESET_FROM_ISR :: u32 where "tmrCOMMAND_RESET_FROM_ISR = 7"
definition tmrCOMMAND_STOP_FROM_ISR :: u32 where "tmrCOMMAND_STOP_FROM_ISR = 8"
definition tmrCOMMAND_CHANGE_PERIOD_FROM_ISR :: u32 where "tmrCOMMAND_CHANGE_PERIOD_FROM_ISR = 9"

text \<open>A message travels through the queue as its bytes, least significant first.\<close>

record DaemonTaskMessage_t =
  xMessageID :: u32
  xMessageValue :: u32
  pxTimer :: u32

definition word_bytes :: "u32 \<Rightarrow> u8 list" where
  "word_bytes w = [ucast w, ucast (drop_bit 8 w), ucast (drop_bit 16 w), ucast (drop_bit 24 w)]"

fun bytes_word :: "u8 list \<Rightarrow> u32" where
  "bytes_word [] = 0"
| "bytes_word (b # bs) = or (ucast b) (push_bit 8 (bytes_word bs))"

definition message_bytes :: "DaemonTaskMessage_t \<Rightarrow> u8 list" where
  "message_bytes x = word_bytes (xMessageID x) @ word_bytes (xMessageValue x) @ word_bytes (pxTimer x)"

definition bytes_message :: "u8 list \<Rightarrow> DaemonTaskMessage_t" where
  "bytes_message bs = \<lparr>xMessageID = bytes_word (take 4 bs), xMessageValue = bytes_word (take 4 (drop 4 bs)), pxTimer = bytes_word (take 4 (drop 8 bs))\<rparr>"

text \<open>The result, and whether a task of higher priority was woken from the interrupt.\<close>

definition xTimerGenericCommand :: "(nat \<Rightarrow> os \<Rightarrow> os) \<Rightarrow> u32 \<Rightarrow> u32 \<Rightarrow> u32 \<Rightarrow> u32 \<Rightarrow> tmr \<Rightarrow> (bool \<times> bool \<times> tmr) option" where
  "xTimerGenericCommand env xTimer xCommandID xOptionalValue xTicksToWait m = do {
     configASSERT (xTimer \<noteq> 0);
     (if xTimerQueue m \<noteq> 0
      then do {
        let xMessage = Some (message_bytes \<lparr>xMessageID = xCommandID, xMessageValue = xOptionalValue, pxTimer = xTimer\<rparr>);
        (if sint xCommandID < sint tmrFIRST_FROM_ISR_COMMAND
         then do {
           (r, s) \<leftarrow> (if xTaskGetSchedulerState (kern (rtos m)) = taskSCHEDULER_RUNNING
                      then xQueueGenericSend env (xTimerQueue m) xMessage xTicksToWait queueSEND_TO_BACK (rtos m)
                      else xQueueGenericSend env (xTimerQueue m) xMessage 0 queueSEND_TO_BACK (rtos m));
           Some (r, False, m\<lparr>rtos := s\<rparr>)
         }
         else do {
           (r, woken, s) \<leftarrow> xQueueGenericSendFromISR (xTimerQueue m) xMessage queueSEND_TO_BACK (rtos m);
           Some (r, woken, m\<lparr>rtos := s\<rparr>)
         })
      }
      else Some (False, False, m))
   }"

text \<open>What the daemon does for one message.\<close>

definition start_timer :: "(u32 \<Rightarrow> u32 \<Rightarrow> tmr \<Rightarrow> tmr) \<Rightarrow> u32 \<Rightarrow> u32 \<Rightarrow> u32 \<Rightarrow> tmr \<Rightarrow> tmr option" where
  "start_timer cb t v xTimeNow m = do {
     let m = set_status tmrSTATUS_IS_ACTIVE t m;
     (b, m) \<leftarrow> prvInsertTimerInActiveList t (v + xTimerPeriodInTicks (timer m t)) xTimeNow v m;
     (if b
      then do {
        m \<leftarrow> (if and (ucStatus (timer m t)) tmrSTATUS_IS_AUTORELOAD \<noteq> 0
             then prvReloadTimer cb t (v + xTimerPeriodInTicks (timer m t)) xTimeNow m
             else Some (clear_status tmrSTATUS_IS_ACTIVE t m));
        Some (run_callback cb t m)
      }
      else Some m)
   }"

definition change_period :: "u32 \<Rightarrow> u32 \<Rightarrow> u32 \<Rightarrow> tmr \<Rightarrow> tmr option" where
  "change_period t v xTimeNow m = do {
     let m = set_status tmrSTATUS_IS_ACTIVE t m;
     let m = upd_timer t (\<lambda>x. x\<lparr>xTimerPeriodInTicks := v\<rparr>) m;
     configASSERT (xTimerPeriodInTicks (timer m t) > 0);
     map_option snd (prvInsertTimerInActiveList t (xTimeNow + xTimerPeriodInTicks (timer m t)) xTimeNow xTimeNow m)
   }"

definition delete_timer :: "u32 \<Rightarrow> tmr \<Rightarrow> tmr option" where
  "delete_timer t m =
     (if and (ucStatus (timer m t)) tmrSTATUS_IS_STATICALLY_ALLOCATED = 0
      then on_rtos (\<lambda>s. map_option (\<lambda>h. s\<lparr>heap := h\<rparr>) (vPortFree t (heap s))) m
      else Some (clear_status tmrSTATUS_IS_ACTIVE t m))"

definition dispatch :: "(u32 \<Rightarrow> u32 \<Rightarrow> tmr \<Rightarrow> tmr) \<Rightarrow> DaemonTaskMessage_t \<Rightarrow> u32 \<Rightarrow> tmr \<Rightarrow> tmr option" where
  "dispatch cb x xTimeNow m =
     (if xMessageID x \<in> {tmrCOMMAND_START, tmrCOMMAND_START_FROM_ISR, tmrCOMMAND_RESET, tmrCOMMAND_RESET_FROM_ISR}
      then start_timer cb (pxTimer x) (xMessageValue x) xTimeNow m
      else if xMessageID x \<in> {tmrCOMMAND_STOP, tmrCOMMAND_STOP_FROM_ISR}
      then Some (clear_status tmrSTATUS_IS_ACTIVE (pxTimer x) m)
      else if xMessageID x \<in> {tmrCOMMAND_CHANGE_PERIOD, tmrCOMMAND_CHANGE_PERIOD_FROM_ISR}
      then change_period (pxTimer x) (xMessageValue x) xTimeNow m
      else if xMessageID x = tmrCOMMAND_DELETE
      then delete_timer (pxTimer x) m
      else Some m)"

definition take_out :: "u32 \<Rightarrow> tmr \<Rightarrow> tmr option" where
  "take_out t m =
     (if \<not> listIS_CONTAINED_WITHIN None t (active m)
      then on_active (\<lambda>l. map_option snd (uxListRemove t l)) m
      else Some m)"

definition process_command :: "(u32 \<Rightarrow> u32 \<Rightarrow> tmr \<Rightarrow> tmr) \<Rightarrow> DaemonTaskMessage_t \<Rightarrow> tmr \<Rightarrow> tmr option" where
  "process_command cb x m =
     (if 0 \<le> sint (xMessageID x)
      then do {
        m \<leftarrow> take_out (pxTimer x) m;
        let xTimeNow = xTickCount (kern (rtos m));
        (switched, m) \<leftarrow> prvSampleTimeNow cb xTimeNow m;
        dispatch cb x xTimeNow m
      }
      else Some m)"

text \<open>
  Messages are taken until the queue is empty; the local \<open>xMessage\<close> is overwritten each time. Interrupts and other tasks come before
  a message is taken and before the tick counter is read.
\<close>

partial_function (option) prvProcessReceivedCommands :: "(u32 \<Rightarrow> u32 \<Rightarrow> tmr \<Rightarrow> tmr) \<Rightarrow> (nat \<Rightarrow> os \<Rightarrow> os) \<Rightarrow> nat \<Rightarrow> tmr \<Rightarrow> tmr option" where
  "prvProcessReceivedCommands cb env n m = do {
     (r, xMessage, s) \<leftarrow> xQueueReceive (\<lambda>n s. s) (xTimerQueue m) (Some (replicate 12 0)) 0 (env n (rtos m));
     (if r
      then do {
        bs \<leftarrow> xMessage;
        m \<leftarrow> process_command cb (bytes_message bs) (m\<lparr>rtos := env (n + 1) s\<rparr>);
        prvProcessReceivedCommands cb env (n + 2) m
      }
      else Some (m\<lparr>rtos := s\<rparr>))
   }"

section \<open>The daemon\<close>

text \<open>The result tells whether the task gave up the processor to wait for a message or the next expiry.\<close>

definition prvProcessTimerOrBlockTask :: "(u32 \<Rightarrow> u32 \<Rightarrow> tmr \<Rightarrow> tmr) \<Rightarrow> (nat \<Rightarrow> os \<Rightarrow> os) \<Rightarrow> nat \<Rightarrow> u32 \<Rightarrow> bool \<Rightarrow> tmr \<Rightarrow> (bool \<times> tmr) option" where
  "prvProcessTimerOrBlockTask cb env n xNextExpireTime xListWasEmpty m = do {
     let s = (rtos m)\<lparr>kern := vTaskSuspendAll (kern (rtos m))\<rparr>;
     let m = m\<lparr>rtos := env n s\<rparr>;
     let xTimeNow = xTickCount (kern (rtos m));
     (switched, m) \<leftarrow> prvSampleTimeNow cb xTimeNow m;
     (if \<not> switched
      then if \<not> xListWasEmpty \<and> xNextExpireTime \<le> xTimeNow
        then do {
          (yielded, s) \<leftarrow> resume_all (rtos m);
          m \<leftarrow> prvProcessExpiredTimer cb xNextExpireTime xTimeNow (m\<lparr>rtos := s\<rparr>);
          Some (False, m)
        }
        else do {
          let xListWasEmpty = (if xListWasEmpty then listLIST_IS_EMPTY (pxOverflowTimerList m) (active m) else xListWasEmpty);
          s \<leftarrow> vQueueWaitForMessageRestricted env (n + 1) (xTimerQueue m) (xNextExpireTime - xTimeNow) xListWasEmpty (rtos m);
          (yielded, s) \<leftarrow> resume_all s;
          Some (True, m\<lparr>rtos := if \<not> yielded then s\<lparr>kern := yield (kern s)\<rparr> else s\<rparr>)
        }
      else do {
        (yielded, s) \<leftarrow> resume_all (rtos m);
        Some (False, m\<lparr>rtos := s\<rparr>)
      })
   }"

text \<open>One round of the loop of \<open>prvTimerTask\<close>.\<close>

definition prvTimerTask_round :: "(u32 \<Rightarrow> u32 \<Rightarrow> tmr \<Rightarrow> tmr) \<Rightarrow> (nat \<Rightarrow> os \<Rightarrow> os) \<Rightarrow> tmr \<Rightarrow> tmr option" where
  "prvTimerTask_round cb env m = do {
     (xNextExpireTime, xListWasEmpty) \<leftarrow> prvGetNextExpireTime m;
     let m = m\<lparr>rtos := env 0 (rtos m)\<rparr>;
     (blocked, m) \<leftarrow> prvProcessTimerOrBlockTask cb env 1 xNextExpireTime xListWasEmpty m;
     prvProcessReceivedCommands cb env 4 m
   }"

definition configTIMER_TASK_PRIORITY :: u32 where "configTIMER_TASK_PRIORITY = 5"
definition configTIMER_TASK_STACK_DEPTH :: u32 where "configTIMER_TASK_STACK_DEPTH = 800"

definition xTimerCreateTimerTask :: "u32 \<Rightarrow> tmr \<Rightarrow> (u32 \<times> tmr) option" where
  "xTimerCreateTimerTask sizeof_TCB_t m = do {
     m \<leftarrow> prvCheckForValidListAndQueue m;
     (xReturn, m) \<leftarrow>
       (if xTimerQueue m \<noteq> 0
        then do {
          (r, t, s) \<leftarrow> xTaskCreate sizeof_TCB_t configTIMER_TASK_STACK_DEPTH configTIMER_TASK_PRIORITY (rtos m);
          Some (r, m\<lparr>rtos := s, xTimerTaskHandle := if r = pdPASS then t else xTimerTaskHandle m\<rparr>)
        }
        else Some (pdFAIL, m));
     configASSERT (xReturn \<noteq> 0);
     Some (xReturn, m)
   }"

section \<open>Reading and writing timers\<close>

definition xTimerGetTimerDaemonTaskHandle :: "tmr \<Rightarrow> task option" where
  "xTimerGetTimerDaemonTaskHandle m = do { configASSERT (xTimerTaskHandle m \<noteq> 0); Some (xTimerTaskHandle m) }"

definition xTimerGetPeriod :: "u32 \<Rightarrow> tmr \<Rightarrow> u32 option" where
  "xTimerGetPeriod t m = do { configASSERT (t \<noteq> 0); Some (xTimerPeriodInTicks (timer m t)) }"

definition vTimerSetReloadMode :: "u32 \<Rightarrow> bool \<Rightarrow> tmr \<Rightarrow> tmr option" where
  "vTimerSetReloadMode t xAutoReload m = do {
     configASSERT (t \<noteq> 0);
     Some (if xAutoReload then set_status tmrSTATUS_IS_AUTORELOAD t m else clear_status tmrSTATUS_IS_AUTORELOAD t m)
   }"

definition xTimerGetReloadMode :: "u32 \<Rightarrow> tmr \<Rightarrow> bool option" where
  "xTimerGetReloadMode t m = do { configASSERT (t \<noteq> 0); Some (and (ucStatus (timer m t)) tmrSTATUS_IS_AUTORELOAD \<noteq> 0) }"

definition uxTimerGetReloadMode :: "u32 \<Rightarrow> tmr \<Rightarrow> bool option" where
  "uxTimerGetReloadMode t m = xTimerGetReloadMode t m"

definition xTimerGetExpiryTime :: "u32 \<Rightarrow> tmr \<Rightarrow> u32 option" where
  "xTimerGetExpiryTime t m = do { configASSERT (t \<noteq> 0); Some (xItemValue (item (active m) t)) }"

definition pcTimerGetName :: "u32 \<Rightarrow> tmr \<Rightarrow> u32 option" where
  "pcTimerGetName t m = do { configASSERT (t \<noteq> 0); Some (pcTimerName (timer m t)) }"

definition xTimerIsTimerActive :: "u32 \<Rightarrow> tmr \<Rightarrow> bool option" where
  "xTimerIsTimerActive t m = do { configASSERT (t \<noteq> 0); Some (and (ucStatus (timer m t)) tmrSTATUS_IS_ACTIVE \<noteq> 0) }"

definition pvTimerGetTimerID :: "u32 \<Rightarrow> tmr \<Rightarrow> u32 option" where
  "pvTimerGetTimerID t m = do { configASSERT (t \<noteq> 0); Some (pvTimerID (timer m t)) }"

definition vTimerSetTimerID :: "u32 \<Rightarrow> u32 \<Rightarrow> tmr \<Rightarrow> tmr option" where
  "vTimerSetTimerID t pvNewID m = do { configASSERT (t \<noteq> 0); Some (upd_timer t (\<lambda>x. x\<lparr>pvTimerID := pvNewID\<rparr>) m) }"

end
