(* ===== verification/TimersOps.thy ===== *)
theory TimersOps
  imports Timers
begin

text \<open>
  What the timer code does to the deadlines of the timers in true time, a count of ticks that does not
  wrap: each expiry is reported once, late ones included, across every wrap of the tick counter.
\<close>

section \<open>Deadlines\<close>

abbreviation wrap :: nat where "wrap \<equiv> 4294967296"

text \<open>
  The list a timer is in tells on which side of the next wrap its expiry lies. \<open>T\<close> is the true time of the
  last sample.
\<close>

definition expires_at :: "nat \<Rightarrow> tmr \<Rightarrow> u32 \<Rightarrow> nat option" where
  "expires_at T m t = map_option (\<lambda>l. (if l = pxCurrentTimerList m then T div wrap else T div wrap + 1) * wrap + unat (xItemValue (item (active m) t)))
     (pxContainer (item (active m) t))"

definition period :: "tmr \<Rightarrow> u32 \<Rightarrow> nat" where "period m t = unat (xTimerPeriodInTicks (timer m t))"

definition reloads :: "tmr \<Rightarrow> u32 \<Rightarrow> bool" where
  "reloads m t \<longleftrightarrow> and (ucStatus (timer m t)) tmrSTATUS_IS_AUTORELOAD \<noteq> 0"

definition timers_ok :: "nat \<Rightarrow> tmr \<Rightarrow> (u32, timer_list) alists \<Rightarrow> bool" where
  "timers_ok T m a \<longleftrightarrow> rep UNIV (active m) a \<and> pxOverflowTimerList m \<noteq> pxCurrentTimerList m \<and> holder a 0 = None
     \<and> (\<forall>t. holder a t \<noteq> None \<longrightarrow> pvOwner (item (active m) t) = Some t \<and> 0 < period m t)
     \<and> (\<forall>l. sorted (map (itemval a) (elems a l))) \<and> xLastTime m = of_nat T"

lemma timers_okD:
  assumes "timers_ok T m a"
  shows "rep UNIV (active m) a" "pxOverflowTimerList m \<noteq> pxCurrentTimerList m" "holder a 0 = None"
    "holder a t \<noteq> None \<Longrightarrow> pvOwner (item (active m) t) = Some t" "holder a t \<noteq> None \<Longrightarrow> 0 < period m t"
    "sorted (map (itemval a) (elems a l))" "xLastTime m = of_nat T"
  using assms by (auto simp: timers_ok_def)

lemma expires_at_code:
  "timers_ok T m a \<Longrightarrow> expires_at T m t = map_option (\<lambda>l. (if l = pxCurrentTimerList m then T div wrap else T div wrap + 1) * wrap + unat (itemval a t)) (holder a t)"
  by (simp add: expires_at_def rep_item [OF timers_okD(1)])

text \<open>How often a timer with the deadline \<open>d\<close> expires up to \<open>N\<close>, and the deadline it has then.\<close>

definition fires :: "bool \<Rightarrow> nat \<Rightarrow> nat \<Rightarrow> nat \<Rightarrow> nat" where
  "fires r p N d = (if d \<le> N then if r then (N - d) div p + 1 else 1 else 0)"

definition after :: "bool \<Rightarrow> nat \<Rightarrow> nat \<Rightarrow> nat \<Rightarrow> nat option" where
  "after r p N d = (if d \<le> N \<and> \<not> r then None else Some (d + fires r p N d * p))"

section \<open>What callbacks leave alone\<close>

text \<open>The part of the state that the lists of timers depend on: a callback sends commands, which go through the queue.\<close>

definition settings :: "tmr \<Rightarrow> timer_list \<times> timer_list \<times> u32 \<times> u32 \<times> (u32 \<Rightarrow> u32)" where
  "settings m = (pxCurrentTimerList m, pxOverflowTimerList m, xTimerQueue m, xLastTime m, \<lambda>t. xTimerPeriodInTicks (timer m t))"

definition timers_view :: "tmr \<Rightarrow> (u32, timer_list, u32) store \<times> u32 list \<times> (timer_list \<times> timer_list \<times> u32 \<times> u32 \<times> (u32 \<Rightarrow> u32)) \<times> (u32 \<Rightarrow> u8)" where
  "timers_view m = (active m, expired m, settings m, \<lambda>t. ucStatus (timer m t))"

definition tame :: "(u32 \<Rightarrow> u32 \<Rightarrow> tmr \<Rightarrow> tmr) \<Rightarrow> bool" where
  "tame cb \<longleftrightarrow> (\<forall>f t m. timers_view (cb f t m) = timers_view m)"

lemma timers_viewD:
  assumes "timers_view m = timers_view m'"
  shows "active m = active m'" "expired m = expired m'" "settings m = settings m'" "ucStatus (timer m t) = ucStatus (timer m' t)"
  using assms by (auto simp: timers_view_def fun_eq_iff)

lemma settingsD:
  assumes "settings m = settings m'"
  shows "pxCurrentTimerList m = pxCurrentTimerList m'" "pxOverflowTimerList m = pxOverflowTimerList m'" "xTimerQueue m = xTimerQueue m'"
    "xLastTime m = xLastTime m'" "xTimerPeriodInTicks (timer m t) = xTimerPeriodInTicks (timer m' t)" "period m = period m'"
  using assms by (auto simp: settings_def period_def fun_eq_iff)

lemma settings_view: "active m = active m' \<Longrightarrow> settings m = settings m' \<Longrightarrow> timers_ok T m a = timers_ok T m' a"
  "active m = active m' \<Longrightarrow> settings m = settings m' \<Longrightarrow> expires_at T m = expires_at T m'"
  using settingsD [of m m'] by (simp_all add: timers_ok_def expires_at_def fun_eq_iff)

lemma run_callback_keeps:
  assumes "tame cb"
  shows "active (run_callback cb t m) = active m" "settings (run_callback cb t m) = settings m" "expired (run_callback cb t m) = expired m @ [t]"
    "ucStatus (timer (run_callback cb t m) u) = ucStatus (timer m u)"
  using timers_viewD [of "cb (pxCallbackFunction (timer m t)) t m" m] assms
  by (simp_all add: run_callback_def tame_def Let_def settings_def)

lemma status_keeps [simp]:
  "active (set_status b t m) = active m" "settings (set_status b t m) = settings m" "expired (set_status b t m) = expired m"
  "active (clear_status b t m) = active m" "settings (clear_status b t m) = settings m" "expired (clear_status b t m) = expired m"
  by (simp_all add: set_status_def clear_status_def upd_timer_def settings_def fun_eq_iff)

section \<open>Which list, or already expired\<close>

lemma div_mod_sum:
  fixes C p w :: nat
  assumes "p < w"
  shows "C mod w + p < w \<and> (C + p) mod w = C mod w + p \<and> (C + p) div w = C div w
    \<or> w \<le> C mod w + p \<and> (C + p) mod w + w = C mod w + p \<and> (C + p) div w = C div w + 1"
proof -
  have e: "C + p = (C mod w + p) + C div w * w" by simp
  have d: "(C + p) div w = C div w + (C mod w + p) div w"
    by (subst e, rule div_mult_self1) (use assms in simp)
  have m: "(C + p) mod w = (C mod w + p) mod w" by (rule mod_add_left_eq [symmetric])
  have "0 < w" using assms by simp
  then have "C mod w < w" by (rule mod_less_divisor)
  then have "C mod w + p - w < w" using assms by linarith
  then have "w \<le> C mod w + p \<Longrightarrow> (C mod w + p) div w = 1 \<and> (C mod w + p) mod w + w = C mod w + p"
    using assms by (simp add: le_div_geq le_mod_geq)
  then show ?thesis using d m by (cases "C mod w + p < w") auto
qed

lemmas wrap_sum = div_mod_sum [of _ wrap]

lemma wrap_side:
  fixes C N p :: nat
  assumes "C \<le> N" "N < C + wrap" "0 < p" "p < wrap"
  shows "(C + p) mod wrap \<le> N mod wrap \<Longrightarrow> N < C + p \<Longrightarrow> (C + p) div wrap = N div wrap + 1"
    and "N mod wrap < (C + p) mod wrap \<Longrightarrow> N mod wrap < C mod wrap \<and> C mod wrap \<le> (C + p) mod wrap \<longleftrightarrow> C + p \<le> N"
    and "N mod wrap < (C + p) mod wrap \<Longrightarrow> N < C + p \<Longrightarrow> (C + p) div wrap = N div wrap"
proof -
  define c k n j e l where v: "c = C mod wrap" "k = C div wrap" "n = N mod wrap" "j = N div wrap" "e = (C + p) mod wrap" "l = (C + p) div wrap"
  have q: "C = k * wrap + c" "N = j * wrap + n" "C + p = l * wrap + e" by (simp_all add: v)
  have m: "c < wrap" "n < wrap" "e < wrap" by (simp_all add: v)
  have "k \<le> j" using assms(1) by (simp add: v div_le_mono)
  moreover have "j \<le> k + 1"
  proof (rule ccontr)
    assume "\<not> j \<le> k + 1"
    then have "(k + 2) * wrap \<le> j * wrap" by (intro mult_right_mono) auto
    then show False using assms(2) q m by (simp add: algebra_simps)
  qed
  ultimately have j: "j = k \<or> j = k + 1" by linarith
  have l: "c + p < wrap \<and> e = c + p \<and> l = k \<or> wrap \<le> c + p \<and> e + wrap = c + p \<and> l = k + 1"
    using wrap_sum [OF assms(4), of C] unfolding v [symmetric] .
  have goals: "(e \<le> n \<longrightarrow> N < C + p \<longrightarrow> l = j + 1) \<and> (n < e \<longrightarrow> (n < c \<and> c \<le> e \<longleftrightarrow> C + p \<le> N)) \<and> (n < e \<longrightarrow> N < C + p \<longrightarrow> l = j)"
    using j l
  proof (elim disjE conjE)
    assume "j = k" "e = c + p" "l = k"
    then show ?thesis using assms q m by auto
  next
    assume "j = k" "e + wrap = c + p" "l = k + 1"
    then show ?thesis using assms q m by auto
  next
    assume "j = k + 1" "e = c + p" "l = k"
    then show ?thesis using assms q m by auto
  next
    assume "j = k + 1" "e + wrap = c + p" "l = k + 1"
    then show ?thesis using assms q m by auto
  qed
  show "(C + p) mod wrap \<le> N mod wrap \<Longrightarrow> N < C + p \<Longrightarrow> (C + p) div wrap = N div wrap + 1"
    and "N mod wrap < (C + p) mod wrap \<Longrightarrow> N mod wrap < C mod wrap \<and> C mod wrap \<le> (C + p) mod wrap \<longleftrightarrow> C + p \<le> N"
    and "N mod wrap < (C + p) mod wrap \<Longrightarrow> N < C + p \<Longrightarrow> (C + p) div wrap = N div wrap"
    using goals unfolding v by blast+
qed


section \<open>Putting a timer into a list\<close>

text \<open>Handles are addresses and null is none of them, so a list never holds too many.\<close>

lemma room_for_one:
  assumes "timers_ok T m a" and "holder a t = None" and "t \<noteq> 0"
  shows "length (elems a l) + 1 < 2 ^ 32"
proof -
  have s: "distinct (elems a l)" "\<And>i. i \<in> set (elems a l) \<longleftrightarrow> holder a i = Some l"
    using repD(2,4) [OF timers_okD(1) [OF assms(1)]] by auto
  then have "set (elems a l) \<subseteq> UNIV - {0, t}" using assms(2) timers_okD(3) [OF assms(1)] by auto
  then have "card (set (elems a l)) \<le> card (UNIV - {0, t} :: u32 set)" by (rule card_mono [rotated]) simp
  also have "\<dots> = 2 ^ 32 - 2" using assms(3) by (simp add: card_Diff_subset card_word)
  finally show ?thesis using distinct_card [OF s(1)] by simp
qed

definition aimed :: "u32 \<Rightarrow> nat \<Rightarrow> tmr \<Rightarrow> tmr" where
  "aimed t E m = m\<lparr>active := listSET_LIST_ITEM_OWNER t t (listSET_LIST_ITEM_VALUE t (of_nat E) (active m))\<rparr>"

lemma aimed_keeps [simp]:
  "settings (aimed t E m) = settings m" "expired (aimed t E m) = expired m" "timer (aimed t E m) = timer m" "period (aimed t E m) = period m"
  "rtos (aimed t E m) = rtos m" "xTimerQueue (aimed t E m) = xTimerQueue m" "xLastTime (aimed t E m) = xLastTime m" "pxCurrentTimerList (aimed t E m) = pxCurrentTimerList m" "pxOverflowTimerList (aimed t E m) = pxOverflowTimerList m"
  by (simp_all add: aimed_def settings_def period_def fun_eq_iff)

text \<open>Aiming a timer that is in no list changes no deadline.\<close>

lemma aimed_ok:
  assumes "timers_ok T m a" and "holder a t = None"
  shows "timers_ok T (aimed t E m) (a_set_value t (of_nat E) a)" "expires_at T (aimed t E m) = expires_at T m"
proof -
  note d = timers_okD [OF assms(1)]
  have r: "rep UNIV (active (aimed t E m)) (a_set_value t (of_nat E) a)"
    using rep_set_owner [OF listSET_LIST_ITEM_VALUE_sim [OF d(1)]] by (simp add: aimed_def)
  have maps: "map ((itemval a)(t := of_nat E)) (elems a l) = map (itemval a) (elems a l)" for l
    using repD(4) [OF d(1), of l t] assms(2) by auto
  have "elems (a_set_value t (of_nat E) a) = elems a" "holder (a_set_value t (of_nat E) a) = holder a" by (simp_all add: a_set_value_def)
  then show ok: "timers_ok T (aimed t E m) (a_set_value t (of_nat E) a)"
    unfolding timers_ok_def using r d assms(2) by (simp add: maps a_set_value_def) (auto simp: aimed_def owner_updates period_def)
  show "expires_at T (aimed t E m) = expires_at T m"
    using assms(2) by (auto simp: expires_at_code [OF ok] expires_at_code [OF assms(1)] fun_eq_iff a_set_value_def option.map_comp split: option.split)
qed

lemma place_item:
  assumes ok: "timers_ok T m a" and out: "holder a t = None" and t: "t \<noteq> 0" and p: "0 < period m t"
    and side: "E div wrap = (if l = pxCurrentTimerList m then T div wrap else T div wrap + 1)"
  shows "\<exists>m' a'. on_active (vListInsert l t) (aimed t E m) = Some m' \<and> timers_ok T m' a' \<and> expires_at T m' = (expires_at T m)(t := Some E)
    \<and> settings m' = settings m \<and> expired m' = expired m \<and> timer m' = timer m \<and> rtos m' = rtos m"
proof -
  define b where "b = a_set_value t (of_nat E) a"
  note ok1 = aimed_ok(1) [OF ok out, of E, folded b_def] and dl1 = aimed_ok(2) [OF ok out, of E]
  note d = timers_okD [OF ok1]
  have out1: "holder b t = None" and val: "itemval b t = of_nat E" using out by (simp_all add: b_def a_set_value_def)
  obtain s' where s': "vListInsert l t (active (aimed t E m)) = Some s'" "rep UNIV s' (a_insert l t b)"
      "\<And>j. pvOwner (item s' j) = pvOwner (item (active (aimed t E m)) j)"
    using vListInsert_sim [OF d(1) UNIV_I out1 room_for_one [OF ok1 out1 t]] by blast
  define m' where "m' = aimed t E m\<lparr>active := s'\<rparr>"
  have k: "settings m' = settings m" "expired m' = expired m" "timer m' = timer m" "period m' = period m" "rtos m' = rtos m"
    by (simp_all add: m'_def settings_def fun_eq_iff period_def)
  have h: "holder (a_insert l t b) = (holder b)(t := Some l)" "itemval (a_insert l t b) = itemval b"
    by (simp_all add: a_insert_def Let_def)
  have so: "sorted (map (itemval (a_insert l t b)) (elems (a_insert l t b) j))" for j
    using a_insert_elems(1) [OF d(6), of l t] d(6) [of j] by (cases "j = l") (simp_all add: h a_insert_def Let_def)
  have o: "pvOwner (item (active (aimed t E m)) t) = Some t" by (simp add: aimed_def owner_updates)
  have ok': "timers_ok T m' (a_insert l t b)"
    using s' d settingsD [OF k(1)] so o p k(4) t by (auto simp: timers_ok_def h m'_def)
  have "expires_at T m' = (expires_at T m)(t := Some E)"
  proof
    fix u
    have "E = E div wrap * wrap + E mod wrap" by simp
    then show "expires_at T m' u = ((expires_at T m)(t := Some E)) u"
      using settingsD [OF k(1)] side by (simp add: expires_at_code [OF ok'] dl1 [symmetric] expires_at_code [OF ok1] h val unat_of_nat take_bit_eq_mod)
  qed
  then show ?thesis using s'(1) ok' k unfolding on_active_def m'_def by auto
qed


section \<open>Starting and reloading\<close>

text \<open>\<open>ran T m t d n m'\<close>: the callback of the timer \<open>t\<close> ran \<open>n\<close> times, and \<open>d\<close> is its deadline now.\<close>

definition ran :: "nat \<Rightarrow> tmr \<Rightarrow> u32 \<Rightarrow> nat option \<Rightarrow> nat \<Rightarrow> tmr \<Rightarrow> bool" where
  "ran T m t d n m' \<longleftrightarrow> (\<exists>a. timers_ok T m' a) \<and> expires_at T m' = (expires_at T m)(t := d) \<and> settings m' = settings m
     \<and> expired m' = expired m @ replicate n t"

lemma nat_word_le: "(of_nat a :: u32) \<le> of_nat b \<longleftrightarrow> a mod wrap \<le> b mod wrap" "(of_nat a :: u32) < of_nat b \<longleftrightarrow> a mod wrap < b mod wrap"
  by (simp_all add: word_le_nat_alt word_less_nat_alt unat_of_nat)

lemma nat_word_diff: "C \<le> N \<Longrightarrow> N < C + wrap \<Longrightarrow> unat (of_nat N - of_nat C :: u32) = N - C"
  by (simp add: of_nat_diff [symmetric] unat_of_nat_u32 del: of_nat_diff)

lemma insert_step:
  assumes ok: "timers_ok T m a" and out: "holder a t = None" and t: "t \<noteq> 0" and p: "0 < period m t"
    and C: "C \<le> N" "N < C + wrap" and N: "N div wrap = T div wrap" and E: "E = C + period m t"
  shows "E \<le> N \<Longrightarrow> prvInsertTimerInActiveList t (of_nat E) (of_nat N) (of_nat C) m = Some (True, aimed t E m)"
    and "N < E \<Longrightarrow> \<exists>m'. prvInsertTimerInActiveList t (of_nat E) (of_nat N) (of_nat C) m = Some (False, m')
      \<and> ran T m t (Some E) 0 m' \<and> timer m' = timer m \<and> rtos m' = rtos m"
proof -
  have pw: "period m t < wrap" using unat_lt_u32 [of "xTimerPeriodInTicks (timer m t)"] by (simp add: period_def)
  note w = wrap_side [OF C p pw, folded E]
  have late: "xTimerPeriodInTicks (timer m t) \<le> of_nat N - of_nat C \<longleftrightarrow> E \<le> N"
    unfolding word_le_nat_alt nat_word_diff [OF C] using C(1) by (auto simp: E period_def)
  have code: "prvInsertTimerInActiveList t (of_nat E) (of_nat N) (of_nat C) m =
      (if E mod wrap \<le> N mod wrap
       then if E \<le> N then Some (True, aimed t E m) else map_option (Pair False) (on_active (vListInsert (pxOverflowTimerList m) t) (aimed t E m))
       else if N mod wrap < C mod wrap \<and> C mod wrap \<le> E mod wrap then Some (True, aimed t E m)
       else map_option (Pair False) (on_active (vListInsert (pxCurrentTimerList m) t) (aimed t E m)))"
    unfolding prvInsertTimerInActiveList_def Let_def aimed_def [symmetric] by (simp add: nat_word_le late)
  show "E \<le> N \<Longrightarrow> prvInsertTimerInActiveList t (of_nat E) (of_nat N) (of_nat C) m = Some (True, aimed t E m)"
    unfolding code using w(2) by simp
  assume later: "N < E"
  define l where "l = (if E mod wrap \<le> N mod wrap then pxOverflowTimerList m else pxCurrentTimerList m)"
  have code': "prvInsertTimerInActiveList t (of_nat E) (of_nat N) (of_nat C) m = map_option (Pair False) (on_active (vListInsert l t) (aimed t E m))"
    unfolding code l_def using w(2) later by (cases "E mod wrap \<le> N mod wrap") auto
  have "E div wrap = (if l = pxCurrentTimerList m then T div wrap else T div wrap + 1)"
    unfolding l_def using w(1,3) later N timers_okD(2) [OF ok] by simp
  from place_item [OF ok out t p this] show "\<exists>m'. prvInsertTimerInActiveList t (of_nat E) (of_nat N) (of_nat C) m = Some (False, m')
      \<and> ran T m t (Some E) 0 m' \<and> timer m' = timer m \<and> rtos m' = rtos m"
    unfolding code' ran_def by auto
qed

lemma ran_view:
  assumes "timers_ok T m a" and "active m' = active m" and "settings m' = settings m" and "expired m' = expired m @ replicate n t" and "expires_at T m t = d"
  shows "ran T m t d n m'"
proof -
  have "timers_ok T m' a" "expires_at T m' = expires_at T m" using settings_view [OF assms(2,3)] assms(1) by auto
  then show ?thesis using assms unfolding ran_def by auto
qed

lemma ran_trans: "ran T m t d n m1 \<Longrightarrow> ran T m1 t d' n' m2 \<Longrightarrow> ran T m t d' (n + n') m2"
  unfolding ran_def by (auto simp: replicate_add)

lemma no_deadline: "timers_ok T m a \<Longrightarrow> expires_at T m t = None \<longleftrightarrow> holder a t = None"
  by (simp add: expires_at_code)

lemma reload_step:
  assumes "tame cb"
  shows "timers_ok T m a \<Longrightarrow> holder a t = None \<Longrightarrow> t \<noteq> 0 \<Longrightarrow> 0 < period m t \<Longrightarrow> X \<le> N \<Longrightarrow> N < X + wrap \<Longrightarrow> N div wrap = T div wrap
    \<Longrightarrow> \<exists>m'. prvReloadTimer cb t (of_nat X) (of_nat N) m = Some m' \<and> (\<forall>u. ucStatus (timer m' u) = ucStatus (timer m u))
      \<and> ran T m t (Some (X + ((N - X) div period m t + 1) * period m t)) ((N - X) div period m t) m'"
proof (induction "N - X" arbitrary: X m a rule: less_induct)
  case less
  note prems = less.prems
  define E where "E = X + period m t"
  have e: "of_nat X + xTimerPeriodInTicks (timer m t) = of_nat E" by (simp add: E_def period_def)
  note step = insert_step [OF prems E_def]
  show ?case
  proof (cases "E \<le> N")
    case False
    then have "(N - X) div period m t = 0" using prems(5) by (simp add: E_def)
    moreover obtain m' where "prvInsertTimerInActiveList t (of_nat E) (of_nat N) (of_nat X) m = Some (False, m')"
        "ran T m t (Some E) 0 m'" "timer m' = timer m"
      using step(2) False by auto
    ultimately show ?thesis by (subst prvReloadTimer.simps) (simp add: e E_def)
  next
    case True
    define m1 where "m1 = run_callback cb t (aimed t E m)"
    note rc = run_callback_keeps [OF assms, of t "aimed t E m", folded m1_def]
    note am = aimed_ok [OF prems(1,2), of E]
    have ok1: "timers_ok T m1 (a_set_value t (of_nat E) a)" and dl1: "expires_at T m1 = expires_at T m"
      using settings_view [OF rc(1,2)] am by auto
    have per: "period m1 = period m" using settingsD(6) [OF rc(2)] by simp
    have out1: "holder (a_set_value t (of_nat E) a) t = None" using prems(2) by (simp add: a_set_value_def)
    have n: "(N - X) div period m t = (N - E) div period m t + 1"
      using True prems(4) le_div_geq [of "period m t" "N - X"] by (simp add: E_def)
    have ran1: "ran T m t None 1 m1"
      unfolding ran_def using ok1 dl1 rc prems(2) no_deadline [OF prems(1), of t] by (auto simp: fun_upd_idem)
    have "N - E < N - X" "N < E + wrap" using True prems by (auto simp: E_def)
    from less.hyps [OF this(1) ok1 out1 prems(3) _ True this(2) prems(7)] per prems(4)
    obtain m' where m': "prvReloadTimer cb t (of_nat E) (of_nat N) m1 = Some m'" "\<And>u. ucStatus (timer m' u) = ucStatus (timer m1 u)"
        "ran T m1 t (Some (E + ((N - E) div period m t + 1) * period m t)) ((N - E) div period m t) m'"
      by auto
    have "prvReloadTimer cb t (of_nat X) (of_nat N) m = Some m'"
      by (subst prvReloadTimer.simps) (simp add: e step(1) [OF True] m1_def [symmetric] m'(1))
    moreover have "ran T m t (Some (X + ((N - X) div period m t + 1) * period m t)) ((N - X) div period m t) m'"
      using ran_trans [OF ran1 m'(3)] unfolding n by (simp add: E_def algebra_simps)
    ultimately show ?thesis using m'(2) rc(4) by auto
  qed
qed


section \<open>Serving the head of the list\<close>

lemma take_off:
  assumes ok: "timers_ok T m a" and h: "holder a t = Some l"
  shows "\<exists>n s'. uxListRemove t (active m) = Some (n, s') \<and> timers_ok T (m\<lparr>active := s'\<rparr>) (a_remove t a) \<and> ran T m t None 0 (m\<lparr>active := s'\<rparr>)"
proof -
  note d = timers_okD [OF ok]
  obtain s' where s': "uxListRemove t (active m) = Some (of_nat (length (elems (a_remove t a) l)), s')" "rep UNIV s' (a_remove t a)"
      "\<And>j. pvOwner (item s' j) = pvOwner (item (active m) j)"
    using uxListRemove_sim [OF d(1) UNIV_I h] by blast
  have r: "holder (a_remove t a) = (holder a)(t := None)" "itemval (a_remove t a) = itemval a"
    "elems (a_remove t a) j = (if j = l then filter (\<lambda>x. x \<noteq> t) (elems a l) else elems a j)" for j
    using h by (simp_all add: a_remove_def)
  have so: "sorted (map (itemval a) (elems (a_remove t a) j))" for j
    using d(6) [of j] sorted_filter [of "itemval a" "elems a l" "\<lambda>x. x \<noteq> t"] by (cases "j = l") (simp_all add: r)
  have ok': "timers_ok T (m\<lparr>active := s'\<rparr>) (a_remove t a)"
    unfolding timers_ok_def using s' d so by (simp add: r period_def)
  moreover have "expires_at T (m\<lparr>active := s'\<rparr>) = (expires_at T m)(t := None)"
    by (rule ext) (simp add: expires_at_code [OF ok'] expires_at_code [OF ok] r)
  ultimately show ?thesis using s'(1) unfolding ran_def by (auto simp: settings_def)
qed

text \<open>What becomes of the timers' status bytes: only the active flag of a one-shot timer is cleared.\<close>

definition stopped :: "u32 \<Rightarrow> bool \<Rightarrow> tmr \<Rightarrow> tmr \<Rightarrow> bool" where
  "stopped t b m m' \<longleftrightarrow> (\<forall>u. ucStatus (timer m' u) = (if u = t \<and> b then and (ucStatus (timer m u)) (not tmrSTATUS_IS_ACTIVE) else ucStatus (timer m u)))"

lemma stopped_reloads: "stopped t b m m' \<Longrightarrow> reloads m' = reloads m"
proof
  fix u
  assume s: "stopped t b m m'"
  have e: "and (and x (not tmrSTATUS_IS_ACTIVE)) tmrSTATUS_IS_AUTORELOAD = and x tmrSTATUS_IS_AUTORELOAD" for x :: u8
    by (simp add: tmrSTATUS_IS_ACTIVE_def tmrSTATUS_IS_AUTORELOAD_def and.assoc)
  show "reloads m' u = reloads m u" using s by (simp add: stopped_def reloads_def e)
qed

lemma clear_status_code: "ucStatus (timer (clear_status b t m) u) = (if u = t then and (ucStatus (timer m u)) (not b) else ucStatus (timer m u))"
  "timer (clear_status b t m) u = (if u = t then (timer m u)\<lparr>ucStatus := and (ucStatus (timer m u)) (not b)\<rparr> else timer m u)"
  by (simp_all add: clear_status_def upd_timer_def)

text \<open>The timer is in no list: reload it or not, then call back.\<close>

definition finish :: "(u32 \<Rightarrow> u32 \<Rightarrow> tmr \<Rightarrow> tmr) \<Rightarrow> u32 \<Rightarrow> u32 \<Rightarrow> u32 \<Rightarrow> tmr \<Rightarrow> tmr option" where
  "finish cb t x now m = map_option (run_callback cb t)
     (if and (ucStatus (timer m t)) tmrSTATUS_IS_AUTORELOAD \<noteq> 0 then prvReloadTimer cb t x now m else Some (clear_status tmrSTATUS_IS_ACTIVE t m))"

lemma finish_step:
  assumes cb: "tame cb" and ok: "timers_ok T m a" and out: "holder a t = None" and t: "t \<noteq> 0" and p: "0 < period m t"
    and d: "d \<le> N" "N < d + wrap" and N: "N div wrap = T div wrap"
  shows "\<exists>m'. finish cb t (of_nat d) (of_nat N) m = Some m' \<and> stopped t (\<not> reloads m t) m m'
    \<and> ran T m t (after (reloads m t) (period m t) N d) (fires (reloads m t) (period m t) N d) m'"
proof (cases "reloads m t")
  case True
  obtain m1 where m1: "prvReloadTimer cb t (of_nat d) (of_nat N) m = Some m1" "\<And>u. ucStatus (timer m1 u) = ucStatus (timer m u)"
      "ran T m t (Some (d + ((N - d) div period m t + 1) * period m t)) ((N - d) div period m t) m1"
    using reload_step [OF cb ok out t p d N] by auto
  define m' where "m' = run_callback cb t m1"
  note rc = run_callback_keeps [OF cb, of t m1, folded m'_def]
  obtain a1 where ok1: "timers_ok T m1 a1" using m1(3) unfolding ran_def by auto
  have "expires_at T m1 t = Some (d + ((N - d) div period m t + 1) * period m t)" using m1(3) by (simp add: ran_def)
  then have "ran T m1 t (Some (d + ((N - d) div period m t + 1) * period m t)) 1 m'" using ran_view [OF ok1 rc(1,2)] rc(3) by simp
  from ran_trans [OF m1(3) this] have "ran T m t (after True (period m t) N d) (fires True (period m t) N d) m'"
    using d by (simp add: after_def fires_def)
  moreover have "stopped t False m m'" using m1(2) rc(4) by (simp add: stopped_def)
  moreover have "finish cb t (of_nat d) (of_nat N) m = Some m'" using True m1(1) by (simp add: finish_def reloads_def m'_def)
  ultimately show ?thesis using True by auto
next
  case False
  define m1 where "m1 = clear_status tmrSTATUS_IS_ACTIVE t m"
  define m' where "m' = run_callback cb t m1"
  note rc = run_callback_keeps [OF cb, of t m1, folded m'_def]
  have "ran T m t None 1 m'"
    by (rule ran_view [OF ok]) (use no_deadline [OF ok, of t] out in \<open>simp_all add: rc m1_def\<close>)
  moreover have "stopped t True m m'" using rc(4) by (simp add: stopped_def m1_def clear_status_code)
  moreover have "finish cb t (of_nat d) (of_nat N) m = Some m'" using False by (simp add: finish_def reloads_def m'_def m1_def)
  ultimately show ?thesis using False d by (auto simp: after_def fires_def)
qed

lemma deadline_side:
  assumes "timers_ok T m a" and "expires_at T m t = Some d"
  shows "d div wrap = (if holder a t = Some (pxCurrentTimerList m) then T div wrap else T div wrap + 1)" "itemval a t = of_nat d" "holder a t \<noteq> None"
proof -
  obtain l where l: "holder a t = Some l" and d: "d = (if l = pxCurrentTimerList m then T div wrap else T div wrap + 1) * wrap + unat (itemval a t)"
    using assms(2) unfolding expires_at_code [OF assms(1)] by auto
  have u: "unat (itemval a t) < wrap" using unat_lt_u32 [of "itemval a t"] by simp
  show "d div wrap = (if holder a t = Some (pxCurrentTimerList m) then T div wrap else T div wrap + 1)"
    using l u unfolding d by (auto simp: div_mult_self3)
  have "d mod wrap = unat (itemval a t)" using u unfolding d by simp
  then show "itemval a t = of_nat d" by (simp add: word_unat_eq_iff unat_of_nat)
  show "holder a t \<noteq> None" using l by simp
qed

lemma same_epoch: "a div wrap = b div wrap \<Longrightarrow> a < b + wrap"
  using div_mult_mod_eq [of a wrap] div_mult_mod_eq [of b wrap] mod_less_divisor [of wrap a] by linarith

lemma expired_step:
  assumes cb: "tame cb" and ok: "timers_ok T m a" and head: "elems a (pxCurrentTimerList m) = t # ts" and dl: "expires_at T m t = Some d"
    and d: "d \<le> N" and N: "N div wrap = T div wrap"
  shows "\<exists>m'. prvProcessExpiredTimer cb (of_nat d) (of_nat N) m = Some m' \<and> stopped t (\<not> reloads m t) m m'
    \<and> ran T m t (after (reloads m t) (period m t) N d) (fires (reloads m t) (period m t) N d) m'"
proof -
  note ds = timers_okD [OF ok]
  have h: "holder a t = Some (pxCurrentTimerList m)" using repD(4) [OF ds(1) UNIV_I, of t "pxCurrentTimerList m"] head by simp
  have own: "listGET_OWNER_OF_HEAD_ENTRY (pxCurrentTimerList m) (active m) = Some (Some t)"
    using listGET_OWNER_OF_HEAD_ENTRY_sim(1) [OF ds(1) UNIV_I, of "pxCurrentTimerList m"] head ds(4) [of t] h by simp
  obtain n s' where s': "uxListRemove t (active m) = Some (n, s')" "timers_ok T (m\<lparr>active := s'\<rparr>) (a_remove t a)" "ran T m t None 0 (m\<lparr>active := s'\<rparr>)"
    using take_off [OF ok h] by blast
  define m1 where "m1 = m\<lparr>active := s'\<rparr>"
  have same: "timer m1 = timer m" "period m1 = period m" "reloads m1 = reloads m"
    by (simp_all add: m1_def period_def fun_eq_iff reloads_def)
  have out: "holder (a_remove t a) t = None" using h by (simp add: a_remove_def)
  have "t \<noteq> 0" using h ds(3) by auto
  moreover have "0 < period m1 t" using ds(5) [of t] h same by simp
  moreover have "N < d + wrap" using deadline_side(1) [OF ok dl] h N by (intro same_epoch) simp
  ultimately obtain m' where m': "finish cb t (of_nat d) (of_nat N) m1 = Some m'" "stopped t (\<not> reloads m t) m1 m'"
      "ran T m1 t (after (reloads m t) (period m t) N d) (fires (reloads m t) (period m t) N d) m'"
    using finish_step [OF cb s'(2) [folded m1_def] out _ _ d _ N] unfolding same by blast
  have "prvProcessExpiredTimer cb (of_nat d) (of_nat N) m = finish cb t (of_nat d) (of_nat N) m1"
    unfolding prvProcessExpiredTimer_def finish_def m1_def
    by (cases "prvReloadTimer cb t (of_nat d) (of_nat N) (m\<lparr>active := s'\<rparr>)") (simp_all add: own s'(1))
  moreover have "stopped t (\<not> reloads m t) m m'" using m'(2) by (simp add: stopped_def same)
  moreover have "ran T m t (after (reloads m t) (period m t) N d) (fires (reloads m t) (period m t) N d) m'"
    using ran_trans [OF s'(3) [folded m1_def] m'(3)] by simp
  ultimately show ?thesis using m'(1) by auto
qed


section \<open>Every timer served\<close>

text \<open>\<open>swept T m B T' m'\<close>: every timer with a deadline up to \<open>B\<close> was served, as often as its period says.\<close>

definition swept :: "nat \<Rightarrow> tmr \<Rightarrow> nat \<Rightarrow> nat \<Rightarrow> tmr \<Rightarrow> bool" where
  "swept T m B T' m' \<longleftrightarrow> (\<exists>a. timers_ok T' m' a) \<and> period m' = period m \<and> xTimerQueue m' = xTimerQueue m \<and> reloads m' = reloads m
     \<and> (\<forall>u. expires_at T' m' u = Option.bind (expires_at T m u) (after (reloads m u) (period m u) B))
     \<and> (\<forall>u. count_list (expired m') u = count_list (expired m) u + (case expires_at T m u of None \<Rightarrow> 0 | Some d \<Rightarrow> fires (reloads m u) (period m u) B d))"

lemma count_replicate [simp]: "count_list (replicate n x) y = (if y = x then n else 0)"
  by (induction n) auto

lemma after_later: "N < d \<Longrightarrow> after r p N d = Some d" "N < d \<Longrightarrow> fires r p N d = 0"
  by (simp_all add: after_def fires_def)

text \<open>Serving up to \<open>N\<close> leaves nothing to serve up to \<open>N\<close>.\<close>

lemma next_deadline:
  assumes "0 < p" and "after r p N d = Some d'"
  shows "N < d'"
proof (cases "d \<le> N")
  case True
  then have "d' = d + ((N - d) div p + 1) * p" using assms(2) by (auto simp: after_def fires_def split: if_splits)
  moreover have "N - d < ((N - d) div p + 1) * p" using assms(1) dividend_less_div_times [of p "N - d"] by (simp add: algebra_simps)
  ultimately show ?thesis using True by linarith
qed (use assms(2) in \<open>simp add: after_later\<close>)

lemma swept_none:
  assumes "timers_ok T m a" and "\<And>u d. expires_at T m u = Some d \<Longrightarrow> B < d"
  shows "swept T m B T m"
  using assms unfolding swept_def by (auto simp: after_later split: option.split bind_split)

lemma swept_one:
  assumes r: "ran T m t (after (reloads m t) (period m t) B d) (fires (reloads m t) (period m t) B d) m1" and dl: "expires_at T m t = Some d"
    and p: "0 < period m t" and rl: "reloads m1 = reloads m" and s: "swept T m1 B T' m'"
  shows "swept T m B T' m'"
proof -
  have r': "expires_at T m1 = (expires_at T m)(t := after (reloads m t) (period m t) B d)" "settings m1 = settings m"
      "expired m1 = expired m @ replicate (fires (reloads m t) (period m t) B d) t"
    using r by (auto simp: ran_def)
  note k = settingsD [OF r'(2)]
  note sw = s [unfolded swept_def k(6) k(3) rl]
  have again: "Option.bind (after (reloads m t) (period m t) B d) (after (reloads m t) (period m t) B) = after (reloads m t) (period m t) B d"
    "(case after (reloads m t) (period m t) B d of None \<Rightarrow> 0 | Some d \<Rightarrow> fires (reloads m t) (period m t) B d) = 0"
    using next_deadline [OF p, of "reloads m t" B d] by (auto simp: after_later split: option.split bind_split)
  have "expires_at T' m' u = Option.bind (expires_at T m u) (after (reloads m u) (period m u) B)" for u
    using sw by (cases "u = t") (simp_all add: r'(1) again dl)
  moreover have "count_list (expired m') u = count_list (expired m) u + (case expires_at T m u of None \<Rightarrow> 0 | Some d \<Rightarrow> fires (reloads m u) (period m u) B d)" for u
    using sw by (cases "u = t") (simp_all add: r' again dl)
  ultimately show ?thesis using sw unfolding swept_def by blast
qed

text \<open>The head of the current list has the smallest deadline of all.\<close>

lemma head_deadline:
  assumes ok: "timers_ok T m a" and head: "elems a (pxCurrentTimerList m) = t # ts"
  shows "\<exists>d. expires_at T m t = Some d \<and> d div wrap = T div wrap
    \<and> listGET_ITEM_VALUE_OF_HEAD_ENTRY (pxCurrentTimerList m) (active m) = Some (of_nat d)
    \<and> (\<forall>u e. expires_at T m u = Some e \<longrightarrow> d \<le> e)"
proof -
  note ds = timers_okD [OF ok]
  have h: "holder a t = Some (pxCurrentTimerList m)" using repD(4) [OF ds(1) UNIV_I, of t "pxCurrentTimerList m"] head by simp
  then obtain d where d: "expires_at T m t = Some d" by (simp add: expires_at_code [OF ok])
  note side = deadline_side [OF ok d]
  have le: "d \<le> e" if e: "expires_at T m u = Some e" for u e
  proof -
    note side' = deadline_side [OF ok e]
    show ?thesis
    proof (cases "holder a u = Some (pxCurrentTimerList m)")
      case True
      then have "u \<in> set (t # ts)" using repD(4) [OF ds(1) UNIV_I, of u "pxCurrentTimerList m"] head by simp
      then have "itemval a t \<le> itemval a u" using ds(6) [of "pxCurrentTimerList m"] head by auto
      then have "d mod wrap \<le> e mod wrap" unfolding side(2) side'(2) nat_word_le .
      then show ?thesis using side(1) side'(1) h True div_mult_mod_eq [of d wrap] div_mult_mod_eq [of e wrap] by auto
    next
      case False
      then have "d div wrap < e div wrap" using side(1) side'(1) h by simp
      then show ?thesis using div_le_mono [of e d wrap] by (cases "d \<le> e") auto
    qed
  qed
  show ?thesis using d side(1) h le listGET_OWNER_OF_HEAD_ENTRY_sim(2) [OF ds(1) UNIV_I, of "pxCurrentTimerList m"] head side(2) by auto
qed

lemma current_empty:
  assumes ok: "timers_ok T m a"
  shows "listLIST_IS_EMPTY l (active m) \<longleftrightarrow> elems a l = []"
    and "elems a (pxCurrentTimerList m) = [] \<Longrightarrow> expires_at T m u = Some d \<Longrightarrow> d div wrap = T div wrap + 1"
proof -
  show "listLIST_IS_EMPTY l (active m) \<longleftrightarrow> elems a l = []" by (rule listLIST_IS_EMPTY_sim [OF timers_okD(1) [OF ok] UNIV_I])
  assume "elems a (pxCurrentTimerList m) = []" and dl: "expires_at T m u = Some d"
  then have "holder a u \<noteq> Some (pxCurrentTimerList m)" using repD(4) [OF timers_okD(1) [OF ok] UNIV_I, of u "pxCurrentTimerList m"] by simp
  then show "d div wrap = T div wrap + 1" using deadline_side(1) [OF ok dl] by simp
qed

definition before_wrap :: "nat \<Rightarrow> tmr \<Rightarrow> u32 set" where
  "before_wrap T m = {u. \<exists>d. expires_at T m u = Some d \<and> d div wrap = T div wrap}"

definition epoch_end :: "nat \<Rightarrow> nat" where "epoch_end T = T div wrap * wrap + (wrap - 1)"

lemma epoch_end:
  "epoch_end T div wrap = T div wrap" "(of_nat (epoch_end T) :: u32) = tmrMAX_TIME_BEFORE_OVERFLOW" "d div wrap = T div wrap \<Longrightarrow> d \<le> epoch_end T"
    "d div wrap = T div wrap + 1 \<Longrightarrow> epoch_end T < d"
proof -
  show "epoch_end T div wrap = T div wrap" by (simp add: epoch_end_def)
  have "unat (of_nat (epoch_end T) :: u32) = epoch_end T mod wrap" by (simp add: unat_of_nat)
  also have "\<dots> = wrap - 1" unfolding epoch_end_def by (simp only: mod_mult_self3) simp
  finally show "(of_nat (epoch_end T) :: u32) = tmrMAX_TIME_BEFORE_OVERFLOW" by (simp add: word_unat_eq_iff tmrMAX_TIME_BEFORE_OVERFLOW_def)
  show "d div wrap = T div wrap \<Longrightarrow> d \<le> epoch_end T" using div_mult_mod_eq [of d wrap] mod_less_divisor [of wrap d] unfolding epoch_end_def by simp
  show "d div wrap = T div wrap + 1 \<Longrightarrow> epoch_end T < d" using div_mult_mod_eq [of d wrap] unfolding epoch_end_def by simp
qed

lemma switch_loop_serves:
  assumes cb: "tame cb"
  shows "timers_ok T m a \<Longrightarrow> \<exists>m'. switch_loop cb m = Some m' \<and> swept T m (epoch_end T) T m' \<and> settings m' = settings m \<and> (\<exists>a'. timers_ok T m' a' \<and> elems a' (pxCurrentTimerList m') = [])"
proof (induction "card (before_wrap T m)" arbitrary: m a rule: less_induct)
  case less
  note ok = less.prems
  show ?case
  proof (cases "elems a (pxCurrentTimerList m)")
    case Nil
    then have "switch_loop cb m = Some m" using current_empty(1) [OF ok] by (subst switch_loop.simps) simp
    moreover have "swept T m (epoch_end T) T m"
      by (rule swept_none [OF ok]) (rule epoch_end(4) [OF current_empty(2) [OF ok Nil]])
    ultimately show ?thesis using ok Nil by blast
  next
    case (Cons t ts)
    obtain d where d: "expires_at T m t = Some d" "d div wrap = T div wrap"
        "listGET_ITEM_VALUE_OF_HEAD_ENTRY (pxCurrentTimerList m) (active m) = Some (of_nat d)"
      using head_deadline [OF ok Cons] by blast
    obtain m1 where m1: "prvProcessExpiredTimer cb (of_nat d) (of_nat (epoch_end T)) m = Some m1" "stopped t (\<not> reloads m t) m m1"
        "ran T m t (after (reloads m t) (period m t) (epoch_end T) d) (fires (reloads m t) (period m t) (epoch_end T) d) m1"
      using expired_step [OF cb ok Cons d(1) epoch_end(3) [OF d(2)] epoch_end(1)] by blast
    obtain a1 where ok1: "timers_ok T m1 a1" using m1(3) by (auto simp: ran_def)
    have p: "0 < period m t" using timers_okD(5) [OF ok] deadline_side(3) [OF ok d(1)] by blast
    have dl1: "expires_at T m1 = (expires_at T m)(t := after (reloads m t) (period m t) (epoch_end T) d)" "settings m1 = settings m" using m1(3) by (auto simp: ran_def)
    have "t \<in> before_wrap T m" using d by (simp add: before_wrap_def)
    moreover have "before_wrap T m1 \<subseteq> before_wrap T m - {t}"
      using next_deadline [OF p, of "reloads m t" "epoch_end T" d] epoch_end(3) unfolding before_wrap_def dl1 by (auto simp: not_le [symmetric])
    ultimately have "card (before_wrap T m1) < card (before_wrap T m)" by (intro psubset_card_mono) auto
    from less.hyps [OF this ok1] obtain m' where m': "switch_loop cb m1 = Some m'" "swept T m1 (epoch_end T) T m'" "settings m' = settings m1"
        "\<exists>a'. timers_ok T m' a' \<and> elems a' (pxCurrentTimerList m') = []"
      by blast
    have "switch_loop cb m = Some m'"
      using current_empty(1) [OF ok, of "pxCurrentTimerList m"] Cons d(3) m1(1) m'(1) by (subst switch_loop.simps) (simp add: epoch_end(2))
    moreover have "swept T m (epoch_end T) T m'"
      by (rule swept_one [OF m1(3) d(1) p stopped_reloads [OF m1(2)] m'(2)])
    ultimately show ?thesis using m'(3,4) dl1(2) by auto
  qed
qed

section \<open>Sampling the time\<close>

lemma sample_step:
  assumes cb: "tame cb" and ok: "timers_ok T m a" and N: "T \<le> N" "N < T + wrap"
  shows "\<exists>m'. prvSampleTimeNow cb (of_nat N) m = Some (T div wrap < N div wrap, m')
    \<and> (if T div wrap < N div wrap then swept T m (epoch_end T) N m'
       else m' = m\<lparr>xLastTime := of_nat N\<rparr> \<and> timers_ok N m' a \<and> expires_at N m' = expires_at T m)"
proof -
  have s: "T mod wrap + (N - T) < wrap \<and> N mod wrap = T mod wrap + (N - T) \<and> N div wrap = T div wrap
      \<or> wrap \<le> T mod wrap + (N - T) \<and> N mod wrap + wrap = T mod wrap + (N - T) \<and> N div wrap = T div wrap + 1"
    using wrap_sum [of "N - T" T] N by simp
  have w: "(of_nat N :: u32) < xLastTime m \<longleftrightarrow> T div wrap < N div wrap"
    unfolding timers_okD(7) [OF ok] nat_word_le using s N by auto
  show ?thesis
  proof (cases "T div wrap < N div wrap")
    case False
    then have same: "N div wrap = T div wrap" using s by auto
    have "timers_ok N (m\<lparr>xLastTime := of_nat N\<rparr>) a" using ok unfolding timers_ok_def by (auto simp: period_def)
    moreover have "expires_at N (m\<lparr>xLastTime := of_nat N\<rparr>) = expires_at T m" unfolding expires_at_def fun_eq_iff same by simp
    ultimately show ?thesis using False w by (simp add: prvSampleTimeNow_def)
  next
    case True
    then have next1: "N div wrap = T div wrap + 1" using s by auto
    obtain m1 a1 where m1: "switch_loop cb m = Some m1" "swept T m (epoch_end T) T m1" "timers_ok T m1 a1" "elems a1 (pxCurrentTimerList m1) = []"
      using switch_loop_serves [OF cb ok] by blast
    define m' where "m' = m1\<lparr>pxCurrentTimerList := pxOverflowTimerList m1, pxOverflowTimerList := pxCurrentTimerList m1, xLastTime := of_nat N\<rparr>"
    have ok': "timers_ok N m' a1" using m1(3) unfolding timers_ok_def m'_def by (auto simp: period_def)
    have none: "holder a1 u \<noteq> Some (pxCurrentTimerList m1)" for u
      using repD(4) [OF timers_okD(1) [OF m1(3)] UNIV_I, of u "pxCurrentTimerList m1"] m1(4) by simp
    have two: "l = pxCurrentTimerList m1 \<or> l = pxOverflowTimerList m1" for l
      using timers_okD(2) [OF m1(3)] by (cases l; cases "pxCurrentTimerList m1"; cases "pxOverflowTimerList m1") auto
    have "expires_at N m' u = expires_at T m1 u" for u
      unfolding expires_at_code [OF ok'] expires_at_code [OF m1(3)] using none [of u] two timers_okD(2) [OF m1(3)]
      by (cases "holder a1 u") (auto simp: m'_def next1)
    then have "swept T m (epoch_end T) N m'"
      using m1(2) ok' unfolding swept_def by (auto simp: m'_def period_def reloads_def fun_eq_iff)
    moreover have "prvSampleTimeNow cb (of_nat N) m = Some (True, m')"
      using True w m1(1) by (simp add: prvSampleTimeNow_def prvSwitchTimerLists_def m'_def)
    ultimately show ?thesis using True by simp
  qed
qed

end
