(* ===== verification/TimersRun.thy ===== *)
theory TimersRun
  imports TimersOps
begin

text \<open>
  The commands of the timer task, and its whole run: however samples, expiries, commands and the rest of the
  system follow each other, a timer is called back as often as its period says.
\<close>

section \<open>What a sample means for one timer\<close>

definition sampled :: "nat \<Rightarrow> tmr \<Rightarrow> nat \<Rightarrow> tmr \<Rightarrow> u32 \<Rightarrow> bool" where
  "sampled T m N m' u \<longleftrightarrow> period m' u = period m u \<and> reloads m' u = reloads m u
     \<and> (if T div wrap < N div wrap
        then expires_at N m' u = Option.bind (expires_at T m u) (after (reloads m u) (period m u) (epoch_end T))
          \<and> count_list (expired m') u = count_list (expired m) u + (case expires_at T m u of None \<Rightarrow> 0 | Some d \<Rightarrow> fires (reloads m u) (period m u) (epoch_end T) d)
        else expires_at N m' u = expires_at T m u \<and> count_list (expired m') u = count_list (expired m) u)"

lemma sample_all:
  assumes "tame cb" and "timers_ok T m a" and "T \<le> N" "N < T + wrap"
  shows "\<exists>m' a'. prvSampleTimeNow cb (of_nat N) m = Some (T div wrap < N div wrap, m') \<and> timers_ok N m' a' \<and> (\<forall>u. sampled T m N m' u)
    \<and> period m' = period m \<and> xTimerQueue m' = xTimerQueue m \<and> (T div wrap = N div wrap \<longrightarrow> m' = m\<lparr>xLastTime := of_nat N\<rparr>)"
proof -
  obtain m' where m': "prvSampleTimeNow cb (of_nat N) m = Some (T div wrap < N div wrap, m')"
    "if T div wrap < N div wrap then swept T m (epoch_end T) N m' else m' = m\<lparr>xLastTime := of_nat N\<rparr> \<and> timers_ok N m' a \<and> expires_at N m' = expires_at T m"
    using sample_step [OF assms] by blast
  have le: "T div wrap \<le> N div wrap" using assms(3) by (rule div_le_mono)
  show ?thesis
  proof (cases "T div wrap < N div wrap")
    case True
    then show ?thesis using m' by (auto simp: swept_def sampled_def)
  next
    case False
    then have e: "m' = m\<lparr>xLastTime := of_nat N\<rparr>" "timers_ok N m' a" "expires_at N m' = expires_at T m" using m'(2) by auto
    have "period m' = period m" "reloads m' = reloads m" "xTimerQueue m' = xTimerQueue m" "expired m' = expired m"
      by (simp_all add: e(1) period_def reloads_def fun_eq_iff)
    then show ?thesis using False e m'(1) le by (auto simp: sampled_def)
  qed
qed

section \<open>Messages\<close>

lemma word_bytes_length [simp]: "length (word_bytes w) = 4"
  by (simp add: word_bytes_def)

lemma bytes_word_bytes: "bytes_word (word_bytes w) = w"
proof (rule bit_word_eqI)
  fix n
  assume n: "n < LENGTH(32)"
  then consider "n < 8" | "8 \<le> n" "n < 16" | "16 \<le> n" "n < 24" | "24 \<le> n" "n < 32" by fastforce
  then show "bit (bytes_word (word_bytes w)) n \<longleftrightarrow> bit w n"
    by cases (auto simp: word_bytes_def bit_or_iff bit_push_bit_iff bit_ucast_iff bit_drop_bit_eq dest: bit_imp_le_length)
qed

lemma message_code: "length (message_bytes x) = 12" "bytes_message (message_bytes x) = x"
  by (simp_all add: message_bytes_def bytes_message_def bytes_word_bytes)


section \<open>Commands\<close>

text \<open>Taking the timer out of its list comes first, whatever the command.\<close>

lemma take_out_step:
  assumes ok: "timers_ok T m a"
  shows "\<exists>m' a'. take_out t m = Some m' \<and> timers_ok T m' a' \<and> holder a' t = None \<and> ran T m t None 0 m' \<and> timer m' = timer m \<and> rtos m' = rtos m"
proof (cases "holder a t")
  case None
  then have "take_out t m = Some m" using timers_okD(1) [OF ok] by (simp add: take_out_def listIS_CONTAINED_WITHIN_def rep_item)
  moreover have "ran T m t None 0 m" by (rule ran_view [OF ok]) (use None no_deadline [OF ok] in auto)
  ultimately show ?thesis using ok None by blast
next
  case (Some l)
  obtain n s' where "uxListRemove t (active m) = Some (n, s')" "timers_ok T (m\<lparr>active := s'\<rparr>) (a_remove t a)" "ran T m t None 0 (m\<lparr>active := s'\<rparr>)"
    using take_off [OF ok Some] by blast
  moreover have "holder (a_remove t a) t = None" using Some by (simp add: a_remove_def)
  ultimately show ?thesis using Some timers_okD(1) [OF ok]
    by (intro exI [of _ "m\<lparr>active := s'\<rparr>"] exI [of _ "a_remove t a"]) (simp add: take_out_def listIS_CONTAINED_WITHIN_def rep_item on_active_def)
qed

text \<open>The active flag of a timer says that it has a deadline.\<close>

definition flagged :: "nat \<Rightarrow> tmr \<Rightarrow> u32 \<Rightarrow> bool" where
  "flagged T m t \<longleftrightarrow> (and (ucStatus (timer m t)) tmrSTATUS_IS_ACTIVE \<noteq> 0 \<longleftrightarrow> expires_at T m t \<noteq> None)"

lemma set_status_code:
  "timer (set_status b t m) u = (if u = t then (timer m u)\<lparr>ucStatus := or (ucStatus (timer m u)) b\<rparr> else timer m u)" "rtos (set_status b t m) = rtos m"
  by (simp_all add: set_status_def upd_timer_def)

lemma active_flag [simp]: "tmrSTATUS_IS_ACTIVE \<noteq> 0"
  by (simp add: tmrSTATUS_IS_ACTIVE_def)

lemma status_bits:
  "and (or (x :: u8) tmrSTATUS_IS_ACTIVE) tmrSTATUS_IS_ACTIVE \<noteq> 0" "and (or x tmrSTATUS_IS_ACTIVE) tmrSTATUS_IS_AUTORELOAD = and x tmrSTATUS_IS_AUTORELOAD"
  "and (and x (not tmrSTATUS_IS_ACTIVE)) tmrSTATUS_IS_ACTIVE = 0" "and (and x (not tmrSTATUS_IS_ACTIVE)) tmrSTATUS_IS_AUTORELOAD = and x tmrSTATUS_IS_AUTORELOAD"
  by (simp_all add: tmrSTATUS_IS_ACTIVE_def tmrSTATUS_IS_AUTORELOAD_def bit.conj_disj_distrib2 and.assoc)

lemma set_active_reloads [simp]: "reloads (set_status tmrSTATUS_IS_ACTIVE t m) = reloads m" "reloads (clear_status tmrSTATUS_IS_ACTIVE t m) = reloads m"
  by (auto simp: reloads_def fun_eq_iff set_status_code clear_status_code status_bits)

text \<open>A timer started at \<open>C\<close> and handled at \<open>N\<close>, already expired or not.\<close>

lemma start_step:
  assumes cb: "tame cb" and ok: "timers_ok N m a" and out: "holder a t = None" and t: "t \<noteq> 0" and p: "0 < period m t"
    and C: "C \<le> N" "N < C + wrap"
  shows "\<exists>m'. start_timer cb t (of_nat C) (of_nat N) m = Some m' \<and> reloads m' = reloads m \<and> flagged N m' t
    \<and> ran N m t (after (reloads m t) (period m t) N (C + period m t)) (fires (reloads m t) (period m t) N (C + period m t)) m'"
proof -
  define E where "E = C + period m t"
  define m0 where "m0 = set_status tmrSTATUS_IS_ACTIVE t m"
  have same: "active m0 = active m" "settings m0 = settings m" "expired m0 = expired m" "reloads m0 = reloads m"
    by (simp_all add: m0_def)
  have ok0: "timers_ok N m0 a" and dl0: "expires_at N m0 = expires_at N m" and per: "period m0 = period m"
    using settings_view [OF same(1,2)] settingsD(6) [OF same(2)] ok by auto
  have e: "of_nat C + xTimerPeriodInTicks (timer m0 t) = of_nat E" by (simp add: E_def period_def m0_def set_status_code)
  have p0: "0 < period m0 t" "E = C + period m0 t" using p by (simp_all add: per E_def)
  have from0: "ran N m t x n m'" if "ran N m0 t x n m'" for x n m' using that same dl0 by (simp add: ran_def)
  note ins = insert_step [OF ok0 out t p0(1) C refl p0(2)]
  show ?thesis
  proof (cases "E \<le> N")
    case False
    then obtain m' where m': "prvInsertTimerInActiveList t (of_nat E) (of_nat N) (of_nat C) m0 = Some (False, m')" "ran N m0 t (Some E) 0 m'" "timer m' = timer m0"
      using ins(2) by auto
    have "start_timer cb t (of_nat C) (of_nat N) m = Some m'" by (simp add: start_timer_def m0_def [symmetric] e m'(1))
    moreover have "reloads m' = reloads m" using m'(3) same(4) by (simp add: reloads_def fun_eq_iff)
    moreover have "flagged N m' t" using m'(2) status_bits(1) by (simp add: flagged_def ran_def m'(3)) (simp add: m0_def set_status_code)
    ultimately show ?thesis using from0 [OF m'(2)] False by (auto simp: after_later E_def)
  next
    case True
    have out1: "holder (a_set_value t (of_nat E) a) t = None" using out by (simp add: a_set_value_def)
    have per1: "reloads (aimed t E m0) = reloads m" using same(4) by (simp add: reloads_def fun_eq_iff)
    obtain m' where m': "finish cb t (of_nat E) (of_nat N) (aimed t E m0) = Some m'" "stopped t (\<not> reloads m t) (aimed t E m0) m'"
        "ran N (aimed t E m0) t (after (reloads m t) (period m t) N E) (fires (reloads m t) (period m t) N E) m'"
      using finish_step [OF cb aimed_ok(1) [OF ok0 out, of E] out1 t _ True _ refl] p0(1) C unfolding per1 by (auto simp: per E_def)
    have "start_timer cb t (of_nat C) (of_nat N) m = finish cb t (of_nat E) (of_nat N) (aimed t E m0)"
      unfolding start_timer_def finish_def m0_def [symmetric]
      by (cases "prvReloadTimer cb t (of_nat E) (of_nat N) (aimed t E m0)") (simp_all add: e ins(1) [OF True])
    moreover have "reloads m' = reloads m" using stopped_reloads [OF m'(2)] per1 by simp
    moreover have "ran N m t (after (reloads m t) (period m t) N E) (fires (reloads m t) (period m t) N E) m'"
      using m'(3) aimed_ok(2) [OF ok0 out, of E] by (intro from0) (simp add: ran_def)
    moreover have "flagged N m' t"
      using m'(2,3) True by (auto simp: flagged_def ran_def stopped_def after_def m0_def set_status_code status_bits)
    ultimately show ?thesis using m'(1) by (auto simp: E_def)
  qed
qed

text \<open>A new period counts from the time the command is handled.\<close>

lemma change_step:
  assumes ok: "timers_ok N m a" and out: "holder a t = None" and t: "t \<noteq> 0" and v: "v \<noteq> 0"
  shows "\<exists>m' a'. change_period t v (of_nat N) m = Some m' \<and> timers_ok N m' a' \<and> expires_at N m' = (expires_at N m)(t := Some (N + unat v))
    \<and> period m' = (period m)(t := unat v) \<and> expired m' = expired m \<and> reloads m' = reloads m \<and> flagged N m' t \<and> xTimerQueue m' = xTimerQueue m"
proof -
  define m0 where "m0 = upd_timer t (\<lambda>x. x\<lparr>xTimerPeriodInTicks := v\<rparr>) (set_status tmrSTATUS_IS_ACTIVE t m)"
  have tm: "timer m0 u = (if u = t then (timer m t)\<lparr>ucStatus := or (ucStatus (timer m t)) tmrSTATUS_IS_ACTIVE, xTimerPeriodInTicks := v\<rparr> else timer m u)" for u
    by (simp add: m0_def upd_timer_def set_status_code)
  have same: "active m0 = active m" "pxCurrentTimerList m0 = pxCurrentTimerList m" "pxOverflowTimerList m0 = pxOverflowTimerList m"
    "xLastTime m0 = xLastTime m" "expired m0 = expired m" "xTimerQueue m0 = xTimerQueue m"
    by (simp_all add: m0_def upd_timer_def set_status_def)
  have per: "period m0 = (period m)(t := unat v)" by (auto simp: period_def tm)
  have p: "0 < period m0 t" using v by (simp add: per unat_eq_0 [symmetric] del: unat_eq_0)
  have ok0: "timers_ok N m0 a" using ok out unfolding timers_ok_def by (auto simp: same per)
  have dl0: "expires_at N m0 = expires_at N m" by (simp add: expires_at_def fun_eq_iff same)
  have e: "of_nat N + xTimerPeriodInTicks (timer m0 t) = of_nat (N + period m0 t)" by (simp add: period_def)
  obtain m' where m': "prvInsertTimerInActiveList t (of_nat (N + period m0 t)) (of_nat N) (of_nat N) m0 = Some (False, m')"
      "ran N m0 t (Some (N + period m0 t)) 0 m'" "timer m' = timer m0"
    using insert_step(2) [OF ok0 out t p order_refl _ refl refl] p by auto
  have "change_period t v (of_nat N) m = Some m'"
    using v unfolding change_period_def Let_def m0_def [symmetric] by (simp add: e m'(1) [unfolded of_nat_add] tm word_greater_zero_iff) (use m'(1) in \<open>auto simp: period_def tm\<close>)
  moreover have "reloads m' = reloads m" by (rule ext) (simp add: reloads_def m'(3) tm status_bits)
  moreover have "period m' = (period m)(t := unat v)" using per m'(3) by (simp add: period_def fun_eq_iff)
  moreover have "flagged N m' t" using m'(2) by (simp add: flagged_def ran_def m'(3) tm status_bits)
  moreover have "xTimerQueue m' = xTimerQueue m" using m'(2) settingsD(3) [of m' m0] same by (simp add: ran_def)
  ultimately show ?thesis using m'(2) dl0 per same unfolding ran_def by auto
qed


definition start_commands :: "u32 set" where
  "start_commands = {tmrCOMMAND_START, tmrCOMMAND_START_FROM_ISR, tmrCOMMAND_RESET, tmrCOMMAND_RESET_FROM_ISR}"

definition change_commands :: "u32 set" where
  "change_commands = {tmrCOMMAND_CHANGE_PERIOD, tmrCOMMAND_CHANGE_PERIOD_FROM_ISR}"

text \<open>
  What the API puts into a message that is handled at the true time \<open>N\<close>: a start carries the time of the
  call, less than a wrap ago, a change of the period one that is not zero.
\<close>

definition valid_command :: "nat \<Rightarrow> DaemonTaskMessage_t \<Rightarrow> tmr \<Rightarrow> bool" where
  "valid_command N x m \<longleftrightarrow> pxTimer x \<noteq> 0 \<and> 0 \<le> sint (xMessageID x)
     \<and> (xMessageID x \<in> start_commands \<longrightarrow> 0 < period m (pxTimer x) \<and> N - unat (of_nat N - xMessageValue x) + unat (of_nat N - xMessageValue x) = N)
     \<and> (xMessageID x \<in> change_commands \<longrightarrow> xMessageValue x \<noteq> 0)"

text \<open>The true time of a start.\<close>

definition start_time :: "nat \<Rightarrow> DaemonTaskMessage_t \<Rightarrow> nat" where
  "start_time N x = N - unat (of_nat N - xMessageValue x)"

lemma start_time:
  assumes "valid_command N x m" and "xMessageID x \<in> start_commands"
  shows "start_time N x \<le> N" "N < start_time N x + wrap" "of_nat (start_time N x) = xMessageValue x" "0 < period m (pxTimer x)"
proof -
  have v: "start_time N x + unat (of_nat N - xMessageValue x) = N" "0 < period m (pxTimer x)" using assms by (auto simp: valid_command_def start_time_def)
  show "start_time N x \<le> N" "0 < period m (pxTimer x)" using v by simp_all
  show "N < start_time N x + wrap" using v unat_lt_u32 [of "of_nat N - xMessageValue x"] by simp
  have "of_nat N = of_nat (start_time N x) + (of_nat N - xMessageValue x)" using arg_cong [OF v(1), of "of_nat :: nat \<Rightarrow> u32"] by simp
  then show "of_nat (start_time N x) = xMessageValue x" by simp
qed

definition others :: "u32 \<Rightarrow> nat \<Rightarrow> tmr \<Rightarrow> tmr \<Rightarrow> bool" where
  "others t N m m' \<longleftrightarrow> (\<exists>a. timers_ok N m' a) \<and> (\<forall>u. u \<noteq> t \<longrightarrow> period m' u = period m u \<and> reloads m' u = reloads m u
     \<and> expires_at N m' u = expires_at N m u \<and> count_list (expired m') u = count_list (expired m) u)"

lemma ran_others: "ran N m t d n m' \<Longrightarrow> reloads m' = reloads m \<Longrightarrow> others t N m m'"
  unfolding ran_def others_def using settingsD(6) [of m' m] by auto

lemma dispatch_step:
  assumes cb: "tame cb" and ok: "timers_ok N m a" and out: "holder a (pxTimer x) = None" and v: "valid_command N x m"
    and m': "dispatch cb x (of_nat N) m = Some m'"
  shows "others (pxTimer x) N m m'"
proof -
  define t where "t = pxTimer x"
  have t0: "t \<noteq> 0" using v by (simp add: valid_command_def t_def)
  note out = out [folded t_def] and m' = m' [unfolded dispatch_def start_commands_def [symmetric] change_commands_def [symmetric] t_def [symmetric]]
  have still: "others t N m m'" if "active m' = active m" "settings m' = settings m" "expired m' = expired m" "reloads m' = reloads m"
    by (rule ran_others [OF ran_view [where n = 0, OF ok that(1,2) _ refl] that(4)]) (simp add: that)
  have "others t N m m'"
  proof (cases "xMessageID x \<in> start_commands")
    case True
    note st = start_time [OF v True, folded t_def]
    obtain m'' where "start_timer cb t (of_nat (start_time N x)) (of_nat N) m = Some m''" "reloads m'' = reloads m"
        "ran N m t (after (reloads m t) (period m t) N (start_time N x + period m t)) (fires (reloads m t) (period m t) N (start_time N x + period m t)) m''"
      using start_step [OF cb ok out t0 st(4,1,2)] by blast
    moreover have "start_timer cb t (of_nat (start_time N x)) (of_nat N) m = Some m'" using m' True by (simp only: st(3) if_True)
    ultimately show ?thesis using ran_others by simp
  next
    case start: False
    show ?thesis
    proof (cases "xMessageID x \<in> {tmrCOMMAND_STOP, tmrCOMMAND_STOP_FROM_ISR}")
      case True
      have "m' = clear_status tmrSTATUS_IS_ACTIVE t m" using m' start True by (simp only: if_True if_False option.inject)
      then show ?thesis by (intro still) simp_all
    next
      case stop: False
      show ?thesis
      proof (cases "xMessageID x \<in> change_commands")
        case True
        then have "xMessageValue x \<noteq> 0" using v by (simp add: valid_command_def)
        moreover have "change_period t (xMessageValue x) (of_nat N) m = Some m'" using m' start stop True by (simp only: if_True if_False)
        ultimately show ?thesis using change_step [OF ok out t0] by (fastforce simp: others_def)
      next
        case change: False
        have "delete_timer t m = Some m' \<or> m' = m" using m' start stop change by (cases "xMessageID x = tmrCOMMAND_DELETE") (simp_all only: if_True if_False option.inject simp_thms)
        then have "m' = clear_status tmrSTATUS_IS_ACTIVE t m \<or> (\<exists>s. m' = m\<lparr>rtos := s\<rparr>)"
          by (cases "and (ucStatus (timer m t)) tmrSTATUS_IS_STATICALLY_ALLOCATED = 0")
             (auto simp: delete_timer_def on_rtos_def intro: exI [of _ "rtos m"])
        moreover have "settings (m\<lparr>rtos := s\<rparr>) = settings m" "reloads (m\<lparr>rtos := s\<rparr>) = reloads m" for s by (simp_all add: settings_def fun_eq_iff reloads_def)
        ultimately show ?thesis by (intro still) auto
      qed
    qed
  qed
  then show ?thesis by (simp add: t_def)
qed

lemma sampled_others:
  assumes "sampled T m N m1 u" and "others t N m1 m'" and "u \<noteq> t"
  shows "sampled T m N m' u"
  using assms unfolding sampled_def others_def by simp

text \<open>Taking the timer out and sampling, as every command begins.\<close>

lemma command_begins:
  assumes cb: "tame cb" and ok: "timers_ok T m a" and N: "T \<le> N" "N < T + wrap"
  shows "\<exists>m1 m2 a2 b. take_out t m = Some m1 \<and> rtos m1 = rtos m \<and> prvSampleTimeNow cb (of_nat N) m1 = Some (b, m2) \<and> timers_ok N m2 a2 \<and> holder a2 t = None
    \<and> expires_at N m2 t = None \<and> period m2 = period m \<and> reloads m2 t = reloads m t \<and> count_list (expired m2) t = count_list (expired m) t
    \<and> (\<forall>u. u \<noteq> t \<longrightarrow> sampled T m N m2 u)"
proof -
  obtain m1 a1 where m1: "take_out t m = Some m1" "timers_ok T m1 a1" "holder a1 t = None" "ran T m t None 0 m1" "timer m1 = timer m" "rtos m1 = rtos m"
    using take_out_step [OF ok] by blast
  obtain m2 a2 where m2: "prvSampleTimeNow cb (of_nat N) m1 = Some (T div wrap < N div wrap, m2)" "timers_ok N m2 a2" "\<And>u. sampled T m1 N m2 u" "period m2 = period m1"
    using sample_all [OF cb m1(2) N] by blast
  have same: "period m1 = period m" "reloads m1 = reloads m" using m1(5) by (simp_all add: period_def reloads_def fun_eq_iff)
  have "expires_at T m1 = (expires_at T m)(t := None)" "expired m1 = expired m" using m1(4) by (simp_all add: ran_def)
  then have "expires_at N m2 t = None \<and> count_list (expired m2) t = count_list (expired m) t \<and> reloads m2 t = reloads m t" "\<And>u. u \<noteq> t \<Longrightarrow> sampled T m N m2 u"
    using m2(3) [of t] m2(3) unfolding sampled_def same by (simp_all split: if_splits)
  then show ?thesis using m1(1,6) m2(1,2,4) same no_deadline [OF m2(2), of t] by auto
qed

lemma command_step:
  assumes cb: "tame cb" and ok: "timers_ok T m a" and N: "T \<le> N" "N < T + wrap" and tick: "xTickCount (kern (rtos m)) = of_nat N"
    and v: "valid_command N x m" and m': "process_command cb x m = Some m'"
  shows "(\<exists>a'. timers_ok N m' a') \<and> (\<forall>u. u \<noteq> pxTimer x \<longrightarrow> sampled T m N m' u)"
proof -
  obtain m1 m2 a2 b where b: "take_out (pxTimer x) m = Some m1" "rtos m1 = rtos m" "prvSampleTimeNow cb (of_nat N) m1 = Some (b, m2)" "timers_ok N m2 a2"
      "holder a2 (pxTimer x) = None" "period m2 = period m" "\<forall>u. u \<noteq> pxTimer x \<longrightarrow> sampled T m N m2 u"
    using command_begins [OF cb ok N, of "pxTimer x"] by metis
  have "0 \<le> sint (xMessageID x)" using v by (simp add: valid_command_def)
  then have d: "dispatch cb x (of_nat N) m2 = Some m'" using m' b by (simp add: process_command_def tick)
  have "valid_command N x m2" using v b(6) by (simp add: valid_command_def)
  from dispatch_step [OF cb b(4,5) this d] have "others (pxTimer x) N m2 m'" .
  then show ?thesis using b(7) sampled_others unfolding others_def by blast
qed


lemma epoch_end_le: "T div wrap < N div wrap \<Longrightarrow> epoch_end T \<le> N"
proof -
  assume "T div wrap < N div wrap"
  then have "(T div wrap + 1) * wrap \<le> N div wrap * wrap" by (intro mult_right_mono) auto
  also have "\<dots> \<le> N" by simp
  finally show ?thesis by (simp add: epoch_end_def)
qed

section \<open>No deadline is a wrap away\<close>

definition soon :: "nat \<Rightarrow> tmr \<Rightarrow> bool" where
  "soon T m \<longleftrightarrow> (\<forall>t d. expires_at T m t = Some d \<longrightarrow> d < T + wrap)"

lemma period_wrap: "period m t < wrap"
  using unat_lt_u32 [of "xTimerPeriodInTicks (timer m t)"] by (simp add: period_def)

lemma after_soon: "after r p B d = Some d' \<Longrightarrow> B \<le> N \<Longrightarrow> d < N + wrap \<Longrightarrow> p < wrap \<Longrightarrow> d' < N + wrap"
proof (cases "d \<le> B")
  case True
  assume a: "after r p B d = Some d'" "B \<le> N" "p < wrap"
  have "(B - d) div p * p \<le> B - d" by simp
  moreover have "d' = d + (B - d) div p * p + p" using a(1) True by (auto simp: after_def fires_def split: if_splits)
  ultimately show ?thesis using a(2,3) True by linarith
qed (simp add: after_later)

lemma ran_soon: "soon N m \<Longrightarrow> ran N m t d n m' \<Longrightarrow> (\<And>x. d = Some x \<Longrightarrow> x < N + wrap) \<Longrightarrow> soon N m'"
  unfolding soon_def ran_def by auto

lemma sampled_soon: "soon T m \<Longrightarrow> T \<le> N \<Longrightarrow> (\<And>u. sampled T m N m' u) \<Longrightarrow> soon N m'"
  unfolding soon_def
proof (intro allI impI)
  fix u d'
  assume a: "\<forall>t d. expires_at T m t = Some d \<longrightarrow> d < T + wrap" "T \<le> N" "\<And>u. sampled T m N m' u" "expires_at N m' u = Some d'"
  show "d' < N + wrap"
  proof (cases "T div wrap < N div wrap")
    case True
    then obtain d where d: "expires_at T m u = Some d" "after (reloads m u) (period m u) (epoch_end T) d = Some d'"
      using a(3) [of u, unfolded sampled_def] a(4) by (cases "expires_at T m u") simp_all
    have "d < N + wrap" using a(1,2) d(1) by fastforce
    then show ?thesis by (rule after_soon [OF d(2) epoch_end_le [OF True] _ period_wrap])
  next
    case False
    then have "expires_at T m u = Some d'" using a(3) [of u, unfolded sampled_def] a(4) by simp
    then have "d' < T + wrap" using a(1) by blast
    then show ?thesis using a(2) by linarith
  qed
qed

section \<open>The run of the timer task\<close>

text \<open>
  Everything that can happen around the timer \<open>u\<close> at the true time in the state's first component: a sample of
  the tick counter less than a wrap after the last, an expiry, a command for another timer, and what the rest
  of the system does, which includes changing the reload mode of other timers.
\<close>

inductive attended :: "(u32 \<Rightarrow> u32 \<Rightarrow> tmr \<Rightarrow> tmr) \<Rightarrow> u32 \<Rightarrow> nat \<times> tmr \<Rightarrow> nat \<times> tmr \<Rightarrow> bool" for cb u x0 where
  astart: "attended cb u x0 x0"
| asample: "attended cb u x0 (T, m) \<Longrightarrow> T \<le> N \<Longrightarrow> N < T + wrap \<Longrightarrow> prvSampleTimeNow cb (of_nat N) m = Some (b, m') \<Longrightarrow> attended cb u x0 (N, m')"
| aexpire: "attended cb u x0 (T, m) \<Longrightarrow> prvGetNextExpireTime m = Some (x, False) \<Longrightarrow> x \<le> of_nat T
    \<Longrightarrow> prvProcessExpiredTimer cb x (of_nat T) m = Some m' \<Longrightarrow> attended cb u x0 (T, m')"
| acommand: "attended cb u x0 (T, m) \<Longrightarrow> T \<le> N \<Longrightarrow> N < T + wrap \<Longrightarrow> xTickCount (kern (rtos m)) = of_nat N \<Longrightarrow> valid_command N c m \<Longrightarrow> pxTimer c \<noteq> u
    \<Longrightarrow> process_command cb c m = Some m' \<Longrightarrow> attended cb u x0 (N, m')"
| aother: "attended cb u x0 (T, m) \<Longrightarrow> active m' = active m \<Longrightarrow> expired m' = expired m \<Longrightarrow> settings m' = settings m \<Longrightarrow> reloads m' u = reloads m u
    \<Longrightarrow> attended cb u x0 (T, m')"

lemma attended_trans: "attended cb u y z \<Longrightarrow> attended cb u x y \<Longrightarrow> attended cb u x z"
  by (induction rule: attended.induct) (auto intro: attended.intros)

text \<open>\<open>n\<close> expiries of a timer that had the deadline \<open>d0\<close>, and the deadline it has now.\<close>

definition on_time :: "bool \<Rightarrow> nat \<Rightarrow> nat \<Rightarrow> nat \<Rightarrow> nat \<Rightarrow> nat option \<Rightarrow> bool" where
  "on_time r p N d0 n d' \<longleftrightarrow> (case d' of None \<Rightarrow> \<not> r \<and> n = 1 \<and> d0 \<le> N | Some d \<Rightarrow> d = d0 + n * p \<and> (0 < n \<longrightarrow> r \<and> d \<le> N + p))"

lemma on_time_mono: "on_time r p N d0 n d' \<Longrightarrow> N \<le> N' \<Longrightarrow> on_time r p N' d0 n d'"
  by (auto simp: on_time_def split: option.splits)

lemma on_time_serve:
  assumes "on_time r p N d0 n (Some d)" and "B \<le> N"
  shows "on_time r p N d0 (n + fires r p B d) (after r p B d)"
proof (cases "d \<le> B")
  case True
  have "(B - d) div p * p \<le> B - d" by simp
  then have "d + (B - d) div p * p \<le> N" using assms(2) True by linarith
  then have "d + ((B - d) div p + 1) * p \<le> N + p" by simp
  then show ?thesis using assms True by (auto simp: on_time_def after_def fires_def algebra_simps)
qed (use assms in \<open>simp add: after_later\<close>)

lemma on_time_bound:
  assumes "on_time r p N d0 n d'" and "0 < p"
  shows "n \<le> fires r p N d0"
proof (cases d')
  case (Some d)
  show ?thesis
  proof (cases n)
    case (Suc k)
    then have "d0 + k * p \<le> N" "r" using assms(1) Some by (auto simp: on_time_def)
    then have "k * p \<le> N - d0" "d0 \<le> N" by linarith+
    then have "k \<le> (N - d0) div p" using assms(2) by (simp add: less_eq_div_iff_mult_less_eq)
    then show ?thesis using Suc \<open>r\<close> \<open>d0 \<le> N\<close> by (simp add: fires_def)
  qed simp
qed (use assms(1) in \<open>simp add: on_time_def fires_def\<close>)

lemma on_time_exact:
  assumes "on_time r p N d0 n d'" and "0 < p" and "\<And>d. d' = Some d \<Longrightarrow> N < d"
  shows "n = fires r p N d0 \<and> d' = after r p N d0"
proof (cases d')
  case None
  then show ?thesis using assms(1) by (simp add: on_time_def fires_def after_def)
next
  case (Some d)
  have d: "d = d0 + n * p" "0 < n \<longrightarrow> r \<and> d \<le> N + p" using assms(1) Some by (auto simp: on_time_def)
  have "n \<le> fires r p N d0" by (rule on_time_bound [OF assms(1,2)])
  moreover have "fires r p N d0 \<le> n"
  proof (cases "d0 \<le> N")
    case True
    then have "N - d0 < n * p" using assms(3) [OF Some] d(1) by linarith
    then have lt: "(N - d0) div p < n" by (simp add: div_less_iff_less_mult [OF assms(2)])
    then show ?thesis by (auto simp: fires_def)
  qed (simp add: fires_def)
  ultimately have n: "n = fires r p N d0" by simp
  moreover have "\<not> (d0 \<le> N \<and> \<not> r)" using n d by (auto simp: fires_def split: if_splits)
  ultimately show ?thesis using Some d(1) by (auto simp: after_def)
qed

lemma sampled_on_time:
  assumes s: "sampled T m N m' u" and on: "on_time (reloads m u) (period m u) T d0 n (expires_at T m u)" and le: "T \<le> N"
    and c: "count_list (expired m) u = c0 + n"
  shows "\<exists>n'. on_time (reloads m u) (period m u) N d0 n' (expires_at N m' u) \<and> count_list (expired m') u = c0 + n'"
proof (cases "T div wrap < N div wrap")
  case True
  then have e: "expires_at N m' u = Option.bind (expires_at T m u) (after (reloads m u) (period m u) (epoch_end T))"
    "count_list (expired m') u = c0 + n + (case expires_at T m u of None \<Rightarrow> 0 | Some d \<Rightarrow> fires (reloads m u) (period m u) (epoch_end T) d)"
    using s c by (simp_all add: sampled_def)
  show ?thesis
  proof (cases "expires_at T m u")
    case None
    then show ?thesis using e on_time_mono [OF on le] by auto
  next
    case (Some d)
    then show ?thesis using e on_time_serve [OF on_time_mono [OF on le, unfolded Some] epoch_end_le [OF True]] by auto
  qed
next
  case False
  then show ?thesis using s c on_time_mono [OF on le] by (auto simp: sampled_def)
qed

lemma next_expiry:
  assumes ok: "timers_ok T m a" and x: "prvGetNextExpireTime m = Some (x, False)"
  shows "\<exists>t ts d. elems a (pxCurrentTimerList m) = t # ts \<and> expires_at T m t = Some d \<and> d div wrap = T div wrap \<and> x = of_nat d
    \<and> (x \<le> of_nat N \<longrightarrow> T \<le> N \<longrightarrow> N div wrap = T div wrap \<longrightarrow> d \<le> N)"
proof -
  have "elems a (pxCurrentTimerList m) \<noteq> []"
    using x current_empty(1) [OF ok, of "pxCurrentTimerList m"] by (auto simp: prvGetNextExpireTime_def Let_def bind_eq_Some_conv)
  then obtain t ts where h: "elems a (pxCurrentTimerList m) = t # ts" by (cases "elems a (pxCurrentTimerList m)") auto
  obtain d where d: "expires_at T m t = Some d" "d div wrap = T div wrap" "listGET_ITEM_VALUE_OF_HEAD_ENTRY (pxCurrentTimerList m) (active m) = Some (of_nat d)"
    using head_deadline [OF ok h] by blast
  have xd: "x = of_nat d" using x d(3) current_empty(1) [OF ok, of "pxCurrentTimerList m"] h by (simp add: prvGetNextExpireTime_def Let_def)
  have "d \<le> N" if "x \<le> of_nat N" "N div wrap = T div wrap"
    using that d(2) div_mult_mod_eq [of d wrap] div_mult_mod_eq [of N wrap] unfolding xd nat_word_le by linarith
  then show ?thesis using h d xd by blast
qed

text \<open>The run keeps the lists in order and every timer on time.\<close>

lemma attended_keeps:
  assumes cb: "tame cb" and ok0: "timers_ok (fst x0) (snd x0) a0" and d0: "expires_at (fst x0) (snd x0) u = Some d0"
  shows "attended cb u x0 x \<Longrightarrow> (\<exists>a. timers_ok (fst x) (snd x) a) \<and> fst x0 \<le> fst x
    \<and> period (snd x) u = period (snd x0) u \<and> reloads (snd x) u = reloads (snd x0) u
    \<and> (\<exists>n. on_time (reloads (snd x0) u) (period (snd x0) u) (fst x) d0 n (expires_at (fst x) (snd x) u)
         \<and> count_list (expired (snd x)) u = count_list (expired (snd x0)) u + n)"
proof (induction rule: attended.induct)
  case astart
  then show ?case using ok0 d0 by (auto simp: on_time_def intro!: exI [of _ 0])
next
  case (asample T m N b m')
  then obtain a where ok: "timers_ok T m a" by auto
  have "\<exists>a. timers_ok N m' a" "sampled T m N m' u" using sample_all [OF cb ok asample(2,3)] asample(4) by auto
  moreover from this(2) have "period m' u = period m u" "reloads m' u = reloads m u" by (simp_all add: sampled_def)
  ultimately show ?case using asample(2,5) sampled_on_time [of T m N m' u d0] by fastforce
next
  case (acommand T m N c m')
  then obtain a where ok: "timers_ok T m a" by auto
  have "\<exists>a. timers_ok N m' a" "sampled T m N m' u" using command_step [OF cb ok acommand(2-5,7)] acommand(6) by auto
  moreover from this(2) have "period m' u = period m u" "reloads m' u = reloads m u" by (simp_all add: sampled_def)
  ultimately show ?case using acommand(2,8) sampled_on_time [of T m N m' u d0] by fastforce
next
  case (aexpire T m x m')
  then obtain a where ok: "timers_ok T m a" by auto
  obtain t ts d where h: "elems a (pxCurrentTimerList m) = t # ts" "expires_at T m t = Some d" "x = of_nat d" "d \<le> T"
    using next_expiry [OF ok aexpire(2), of T] aexpire(3) by auto
  from expired_step [OF cb ok h(1,2,4) refl] aexpire(4)
  have r: "stopped t (\<not> reloads m t) m m'" "ran T m t (after (reloads m t) (period m t) T d) (fires (reloads m t) (period m t) T d) m'"
    by (auto simp: h(3))
  have k: "period m' = period m" "reloads m' = reloads m" using r(2) settingsD(6) [of m' m] stopped_reloads [OF r(1)] by (auto simp: ran_def)
  obtain n where n: "on_time (reloads m u) (period m u) T d0 n (expires_at T m u)" "count_list (expired m) u = count_list (expired (snd x0)) u + n"
    using aexpire(5) by auto
  have "\<exists>n. on_time (reloads m u) (period m u) T d0 n (expires_at T m' u) \<and> count_list (expired m') u = count_list (expired (snd x0)) u + n"
  proof (cases "u = t")
    case True
    then show ?thesis using on_time_serve [OF n(1) [unfolded True h(2)] order_refl] n(2) r(2) by (auto simp: ran_def)
  next
    case False
    then show ?thesis using n r(2) by (auto simp: ran_def)
  qed
  then show ?case using aexpire(5) k r(2) by (auto simp: ran_def)
next
  case (aother T m m')
  then show ?case using settings_view [of m' m T] settingsD(6) [of m' m] by auto
qed

end
