(* ===== verification/TimersTask.thy ===== *)
theory TimersTask
  imports TimersRun EventGroupRun
begin

text \<open>
  The timer task as a task of the system: it returns from every call, keeps the scheduler and the queues in
  order, and when it gives up the processor nothing is left to do.
\<close>

section \<open>A sleeper while the scheduler is suspended\<close>

text \<open>Interrupts only make tasks pending then: where a task sleeps, and until when, stays.\<close>

definition rests :: "task \<Rightarrow> list_id option \<Rightarrow> u32 \<Rightarrow> kernel \<Rightarrow> bool" where
  "rests t c v k \<longleftrightarrow> uxSchedulerSuspended k \<noteq> 0 \<and> container (StateItem t) k = c \<and> value_of (StateItem t) k = v"

lemma rests_fields:
  "rests t c v (k\<lparr>xPendedTicks := x7\<rparr>) = rests t c v k" "rests t c v (k\<lparr>xYieldPending := x8\<rparr>) = rests t c v k" "rests t c v (k\<lparr>swi := x12\<rparr>) = rests t c v k"
  by (simp_all add: rests_def container_def value_of_def)

lemma rests_moved: "rests t c v k \<Longrightarrow> item_moved (EventItem u) l (lists k) s \<Longrightarrow> rests t c v (k\<lparr>lists := s\<rparr>)"
  by (simp add: rests_def item_moved_def) (simp add: container_def value_of_def)

lemma rests_lists:
  "rests t c v k \<Longrightarrow> has (rests t c v) (on_lists (listREMOVE_ITEM (EventItem u)) k)"
  "rests t c v k \<Longrightarrow> has (rests t c v) (on_lists (listINSERT_END l (EventItem u)) k)"
  by (fastforce simp: has_def on_lists_def intro: rests_moved dest: listREMOVE_ITEM_items listINSERT_END_items)+

lemma rests_wake: "rests t c v k \<Longrightarrow> gives (rests t c v) (xTaskRemoveFromEventList l k)"
proof -
  have pend: "has (rests t c v) (ready_or_pend u k)" if "rests t c v k" for u k
    using that rests_lists(2) [OF that] by (simp add: ready_or_pend_def rests_def)
  show "rests t c v k \<Longrightarrow> ?thesis" unfolding xTaskRemoveFromEventList_def
    by (rule gives_bind_any gives_bind [where P = "rests t c v"] rests_lists(1) pend gives_let_any gives_if has_bind_any | simp add: rests_fields split: if_split)+
qed

lemma rests_unlock_loop: "unlock_loop n l k = Some k' \<Longrightarrow> rests t c v k \<Longrightarrow> rests t c v k'"
proof (induction n arbitrary: k)
  case (Suc n)
  have w: "rests t c v k1" if "xTaskRemoveFromEventList l k = Some (b, k1)" for b k1 using rests_wake [OF Suc.prems(2), of l] that by (simp add: gives_def)
  have y: "rests t c v (vTaskMissedYield k1) = rests t c v k1" for k1 by (simp add: vTaskMissedYield_def rests_fields)
  show ?case
  proof (cases "list_empty l k")
    case False
    then obtain b k1 where k1: "xTaskRemoveFromEventList l k = Some (b, k1)" "unlock_loop n l (if b then vTaskMissedYield k1 else k1) = Some k'"
      using Suc.prems(1) by (auto simp: bind_eq_Some_conv)
    then show ?thesis using Suc.IH [OF k1(2)] w y by simp
  qed (use Suc.prems in simp)
qed simp

lemma rests_wake_one: "wake_one l s = Some (b, s') \<Longrightarrow> rests t c v (kern s) \<Longrightarrow> rests t c v (kern s')"
  using rests_wake [of t c v "kern s" l] by (auto simp: wake_one_def gives_def bind_eq_Some_conv split: if_splits)

lemma copy_keeps_kernel:
  "prvCopyDataToQueue q src p s = Some (r, s') \<Longrightarrow> pcHead (queue s q) \<noteq> 0 \<Longrightarrow> kern s' = kern s"
  "prvCopyDataFromQueue q buf s = Some (d, s') \<Longrightarrow> kern s' = kern s"
  "prvIncrementQueueTxLock q l s = Some s' \<Longrightarrow> kern s' = kern s" "prvIncrementQueueRxLock q l s = Some s' \<Longrightarrow> kern s' = kern s"
  by (auto simp: prvCopyDataToQueue_def prvCopyDataFromQueue_def prvIncrementQueueTxLock_def prvIncrementQueueRxLock_def bind_eq_Some_conv Let_def is_mutex_def
      upd_queue_def memcpy_in_def split: if_splits option.splits)

lemma rests_isr_end:
  assumes "(if b then wake_one l s else do { s \<leftarrow> m; Some (False, s) }) = Some (wk, s')" and "\<And>s'. m = Some s' \<Longrightarrow> kern s' = kern s"
    and "rests t c v (kern s)"
  shows "rests t c v (kern s')"
proof (cases b)
  case True
  then show ?thesis using assms(1,3) rests_wake_one by simp
next
  case False
  then have "m = Some s'" using assms(1) by (auto simp: bind_eq_Some_conv)
  then show ?thesis using assms(2,3) by simp
qed

lemma rests_send_isr:
  assumes "xQueueGenericSendFromISR q d p s = Some (r, wk, s')" and "pcHead (queue s q) \<noteq> 0" and "rests t c v (kern s)"
  shows "rests t c v (kern s')"
proof (cases "uxMessagesWaiting (queue s q) < uxLength (queue s q) \<or> p = queueOVERWRITE")
  case True
  then obtain y s1 where s1: "prvCopyDataToQueue q d p s = Some (y, s1)"
      "(if cTxLock (queue s q) = queueUNLOCKED then wake_one (xTasksWaitingToReceive q) s1
        else do { s \<leftarrow> prvIncrementQueueTxLock q (cTxLock (queue s q)) s1; Some (False, s) }) = Some (wk, s')"
    using assms(1) unfolding xQueueGenericSendFromISR_def by (simp add: bind_eq_Some_conv Let_def split del: if_split) blast
  show ?thesis by (rule rests_isr_end [OF s1(2) copy_keeps_kernel(3)]) (use copy_keeps_kernel(1) [OF s1(1) assms(2)] assms(3) in simp_all)
next
  case False
  then show ?thesis using assms(1,3) by (simp add: xQueueGenericSendFromISR_def)
qed

lemma rests_give_isr:
  assumes "xQueueGiveFromISR q s = Some (r, wk, s')" and "rests t c v (kern s)"
  shows "rests t c v (kern s')"
proof (cases "uxMessagesWaiting (queue s q) < uxLength (queue s q)")
  case True
  define s1 where "s1 = upd_queue q (\<lambda>x. x\<lparr>uxMessagesWaiting := uxMessagesWaiting (queue s q) + 1\<rparr>) s"
  have s2: "(if cTxLock (queue s q) = queueUNLOCKED then wake_one (xTasksWaitingToReceive q) s1
        else do { s \<leftarrow> prvIncrementQueueTxLock q (cTxLock (queue s q)) s1; Some (False, s) }) = Some (wk, s')"
    using assms(1) True unfolding xQueueGiveFromISR_def by (simp add: bind_eq_Some_conv Let_def s1_def [symmetric] split del: if_split)
  show ?thesis by (rule rests_isr_end [OF s2 copy_keeps_kernel(3)]) (use assms(2) in \<open>simp_all add: s1_def upd_queue_def\<close>)
next
  case False
  then show ?thesis using assms by (simp add: xQueueGiveFromISR_def)
qed

lemma rests_receive_isr:
  assumes "xQueueReceiveFromISR q d s = Some (r, wk, b, s')" and "rests t c v (kern s)"
  shows "rests t c v (kern s')"
proof (cases "uxMessagesWaiting (queue s q) > 0")
  case True
  then obtain buf s1 where s1: "prvCopyDataFromQueue q d s = Some (buf, s1)"
      "(if cRxLock (queue s q) = queueUNLOCKED then wake_one (xTasksWaitingToSend q) (upd_queue q (\<lambda>x. x\<lparr>uxMessagesWaiting := uxMessagesWaiting (queue s q) - 1\<rparr>) s1)
        else do { s \<leftarrow> prvIncrementQueueRxLock q (cRxLock (queue s q)) (upd_queue q (\<lambda>x. x\<lparr>uxMessagesWaiting := uxMessagesWaiting (queue s q) - 1\<rparr>) s1); Some (False, s) })
       = Some (wk, s')"
    using assms(1) unfolding xQueueReceiveFromISR_def by (simp add: bind_eq_Some_conv Let_def split del: if_split) blast
  show ?thesis by (rule rests_isr_end [OF s1(2) copy_keeps_kernel(4)]) (use copy_keeps_kernel(2) [OF s1(1)] assms(2) in \<open>simp_all add: upd_queue_def\<close>)
next
  case False
  then show ?thesis using assms by (simp add: xQueueReceiveFromISR_def Let_def)
qed

lemma rests_intr:
  assumes "intr_exec i s = Some s'" and "intr_allowed Q i s" and "\<forall>q \<in> Q. pcHead (queue s q) \<noteq> 0" and "rests t c v (kern s)"
  shows "rests t c v (kern s')"
proof -
  have e: "rests t c v (kern (portEND_SWITCHING_ISR b s)) = rests t c v (kern s)" for b s
    by (simp add: portEND_SWITCHING_ISR_def rests_fields yield_def)
  show ?thesis
  proof (cases i)
    case TickInt
    then show ?thesis using assms by (auto simp: on_kernel_def vPortIncrementTick_def xTaskIncrementTick_def rests_fields) (auto simp: rests_def container_def value_of_def)
  next
    case YieldInt
    then show ?thesis using assms by (auto simp: on_kernel_def vPortYieldISR_def vTaskSwitchContext_def rests_fields) (auto simp: rests_def container_def value_of_def)
  next
    case (SendInt q d p)
    then show ?thesis using assms rests_send_isr by (fastforce simp: e)
  next
    case (GiveInt q)
    then show ?thesis using assms rests_give_isr by (fastforce simp: e)
  next
    case (ReceiveInt q d)
    then show ?thesis using assms rests_receive_isr by (fastforce simp: e)
  qed
qed

lemma rests_during:
  assumes "os_core Q E T idle s a" and "rests t c v (kern s)"
  shows "rests t c v (kern (during Q is s))"
proof -
  have "rests t c v (kern s')" if "run_intrs Q is s = Some s'" "over (\<lambda>k. uxCurrentNumberOfTasks k = n) g Q s" "rests t c v (kern s)" for s s' n g
    using that
  proof (induction "is" arbitrary: s)
    case (Cons i "is")
    show ?case
    proof (cases "intr_allowed Q i s")
      case True
      then obtain s1 where s1: "intr_exec i s = Some s1" "run_intrs Q is s1 = Some s'" using Cons.prems(1) by (auto simp: bind_eq_Some_conv)
      have "over (\<lambda>k. uxCurrentNumberOfTasks k = n) g Q s1" using counts.over_intr [OF s1(1) True] Cons.prems(2) by blast
      moreover have "rests t c v (kern s1)" by (rule rests_intr [OF s1(1) True _ Cons.prems(3)]) (use Cons.prems(2) in \<open>simp add: over_def\<close>)
      ultimately show ?thesis using Cons.IH [OF s1(2)] by blast
    next
      case False
      then show ?thesis using Cons by simp
    qed
  qed simp
  moreover have "over (\<lambda>k. uxCurrentNumberOfTasks k = uxCurrentNumberOfTasks (kern s)) (group s) Q s"
    using os_coreD(3) [OF assms(1)] by (simp add: over_def queue_in_def)
  ultimately show ?thesis using assms(2) by (auto simp: during_def split: option.split)
qed

lemma rests_unlock: "prvUnlockQueue q s = Some s' \<Longrightarrow> rests t c v (kern s) \<Longrightarrow> rests t c v (kern s')"
  by (auto simp: prvUnlockQueue_def bind_eq_Some_conv on_kernel_def upd_queue_def dest!: rests_unlock_loop)


section \<open>Waiting for a message\<close>

lemma rests_base: "kernel_base E T k a \<Longrightarrow> rests t c v k \<longleftrightarrow> uxSchedulerSuspended k \<noteq> 0 \<and> holder a (StateItem t) = c \<and> itemval a (StateItem t) = v"
  by (simp add: rests_def container_holder value_itemval)

lemma os_core_base: "os_core Q E T idle s a \<Longrightarrow> kernel_base E T (kern s) a"
  using kernel_coreD(2) [OF os_coreD(1)] by blast

text \<open>
  The timer task is the only receiver. It sleeps when there is no message, and a message that an interrupt
  sends before the queue is unlocked wakes it.
\<close>

definition asleep_until :: "task \<Rightarrow> bool \<Rightarrow> u32 \<Rightarrow> (item_id, list_id) alists \<Rightarrow> bool" where
  "asleep_until t indef v a \<longleftrightarrow> (if indef then holder a (StateItem t) = Some SuspendedTaskList
     else (\<exists>m \<in> sleeping. holder a (StateItem t) = Some m) \<and> itemval a (StateItem t) = v)"

lemma restricted_wait_ok:
  assumes "os_core Q E T idle s a" and "uxSchedulerSuspended (kern s) = 1"
    and "is_ready a (pxCurrentTCB (kern s))" and "pxCurrentTCB (kern s) \<noteq> idle" and "q \<in> Q" and "elems a (EventList (q + 36)) = []"
    and env: "env n = during Q is1" "env (n + 1) = during Q is2" and d: "0 < d \<or> indef" and sep: "separate Q q"
  shows "\<exists>s' a'. vQueueWaitForMessageRestricted env n q d indef s = Some s' \<and> os_core Q E T idle s' a' \<and> uxSchedulerSuspended (kern s') = 1
      \<and> pxCurrentTCB (kern s') = pxCurrentTCB (kern s) \<and> xTickCount (kern s') = xTickCount (kern s) \<and> stays Q s s' (fold spec_intr (is1 @ is2))
      \<and> (is_ready a' (pxCurrentTCB (kern s)) \<or> pending a' (pxCurrentTCB (kern s))
         \<or> contents q s' = [] \<and> asleep_until (pxCurrentTCB (kern s)) indef (xTickCount (kern s) + d) a')"
proof -
  define t where "t = pxCurrentTCB (kern s)"
  define s0 where "s0 = prvLockQueue q s"
  note lk = lock_queue_ok [OF assms(1), of q, folded s0_def]
  have ne0: "uxSchedulerSuspended (kern s0) \<noteq> 0" using lk(2) assms(2) by simp
  from during_ok [OF lk(1) this, of is1]
  obtain a1 where i1: "os_core Q E T idle (during Q is1 s0) a1" "woke (kern s0) a (kern (during Q is1 s0)) a1" "stays Q s0 (during Q is1 s0) (fold spec_intr is1)"
    "\<forall>r. separate Q r \<longrightarrow> holds_on r s0 a (during Q is1 s0) a1" by blast
  define s1 where "s1 = during Q is1 s0"
  note i1 = i1 [folded s1_def]
  have f1: "uxSchedulerSuspended (kern s1) = 1" "pxCurrentTCB (kern s1) = t" "xTickCount (kern s1) = xTickCount (kern s)"
    using i1(2) lk(2) assms(2) by (simp_all add: woke_def t_def)
  have rd1: "is_ready a1 t" using i1(2) assms(3) unfolding woke_def t_def by simp
  have lk1: "cTxLock (queue s1 q) \<noteq> queueUNLOCKED" "elems a1 (EventList (q + 36)) = []"
    using i1(4) lk(5) sep assms(6) unfolding holds_on_def s0_def by auto
  have sz1: "stays Q s s1 (fold spec_intr is1)" by (rule stays_trans [OF lk(3) i1(3)])
  have code: "vQueueWaitForMessageRestricted env n q d indef s = Option.bind
      (if uxMessagesWaiting (queue s1 q) = 0 then on_kernel (vTaskPlaceOnEventListRestricted (EventList (q + 36)) d indef) s1 else Some s1)
      (\<lambda>s. prvUnlockQueue q (during Q is2 s))"
    unfolding vQueueWaitForMessageRestricted_def Let_def env s0_def [symmetric] s1_def [symmetric] xTasksWaitingToReceive_def ..
  have tail: "\<exists>s' a'. prvUnlockQueue q (during Q is2 s2) = Some s' \<and> os_core Q E T idle s' a' \<and> uxSchedulerSuspended (kern s') = 1
      \<and> pxCurrentTCB (kern s') = t \<and> xTickCount (kern s') = xTickCount (kern s) \<and> stays Q s s' (fold spec_intr (is1 @ is2))
      \<and> (is_ready a2 t \<longrightarrow> is_ready a' t)
      \<and> (elems a2 (EventList (q + 36)) = [EventItem t] \<and> count_of (queue s2 q) = 0 \<longrightarrow> pending a' t \<or> contents q s' = []
           \<and> holder a' (StateItem t) = holder a2 (StateItem t) \<and> itemval a' (StateItem t) = itemval a2 (StateItem t))"
    if c2: "os_core Q E T idle s2 a2" and q2: "queue s2 = queue s1" "heap s2 = heap s1"
      and k2: "uxSchedulerSuspended (kern s2) = 1" "pxCurrentTCB (kern s2) = t" "xTickCount (kern s2) = xTickCount (kern s)" for s2 a2
  proof -
    have "uxSchedulerSuspended (kern s2) \<noteq> 0" using k2(1) by simp
    from during_ok [OF c2 this, of is2]
    obtain a3 where i3: "os_core Q E T idle (during Q is2 s2) a3" "woke (kern s2) a2 (kern (during Q is2 s2)) a3" "stays Q s2 (during Q is2 s2) (fold spec_intr is2)"
      "\<forall>r. separate Q r \<longrightarrow> holds_on r s2 a2 (during Q is2 s2) a3" by blast
    define s3 where "s3 = during Q is2 s2"
    note i3 = i3 [folded s3_def]
    have su3: "uxSchedulerSuspended (kern s3) \<noteq> 0" using i3(2) k2 by (simp add: woke_def)
    obtain s4 a4 where u: "prvUnlockQueue q s3 = Some s4" "os_core Q E T idle s4 a4" "woke (kern s3) a3 (kern s4) a4"
        "queue s4 = (queue s3)(q := (queue s3 q)\<lparr>cRxLock := queueUNLOCKED, cTxLock := queueUNLOCKED\<rparr>)" "heap s4 = heap s3"
        "holder a4 = (\<lambda>i. if i \<in> set (take (nat (sint (cTxLock (queue s3 q)))) (elems a3 (EventList (q + 36))))
           \<union> set (take (nat (sint (cRxLock (queue s3 q)))) (elems a3 (EventList (q + 16)))) then Some PendingReadyList else holder a3 i)"
      using unlock_queue_ok [OF i3(1) assms(5) su3] by blast
    have "stays Q s s2 (fold spec_intr is1)" by (rule stays_trans [OF sz1 stays_same [OF q2]])
    from stays_trans [OF stays_trans [OF this i3(3)] stays_locks [OF u(4,5)]]
    have st: "stays Q s s4 (fold spec_intr (is1 @ is2))" by (simp add: comp_def)
    have f4: "uxSchedulerSuspended (kern s4) = 1" "pxCurrentTCB (kern s4) = t" "xTickCount (kern s4) = xTickCount (kern s)"
      using u(3) i3(2) k2 by (simp_all add: woke_def)
    have rd: "is_ready a2 t \<longrightarrow> is_ready a4 t" using u(3) i3(2) by (simp add: woke_def)
    have "pending a4 t \<or> contents q s4 = [] \<and> holder a4 (StateItem t) = holder a2 (StateItem t) \<and> itemval a4 (StateItem t) = itemval a2 (StateItem t)"
      if w: "elems a2 (EventList (q + 36)) = [EventItem t]" "count_of (queue s2 q) = 0"
    proof (cases "contents q s4 = []")
      case True
      define c v where "c = holder a2 (StateItem t)" and "v = itemval a2 (StateItem t)"
      have "rests t c v (kern s2)" using rests_base [OF os_core_base [OF c2]] k2(1) by (simp add: c_def v_def)
      from rests_unlock [OF u(1) rests_during [OF c2 this, of is2, folded s3_def]] have "rests t c v (kern s4)" .
      then show ?thesis using True rests_base [OF os_core_base [OF u(2)]] by (simp add: c_def v_def)
    next
      case False
      have lk3: "cTxLock (queue s3 q) \<noteq> queueUNLOCKED" "elems a3 (EventList (q + 36)) = [EventItem t]" "count_of (queue s3 q) = 0 \<or> 0 < cTxLock (queue s3 q)"
        using i3(4) lk1(1) sep w q2(1) unfolding holds_on_def by auto
      have "count_of (queue s4 q) \<noteq> 0" using False contents_length [of q s4] by (metis length_0_conv)
      then have pos: "0 < cTxLock (queue s3 q)" using lk3(3) u(4) by (simp add: count_of_def)
      have "lock_ok (cTxLock (queue s3 q))" using os_coreD(3) [OF i3(1) assms(5)] by (simp add: queue_in_def)
      from unlocked_count [OF this] lk3(1) pos have "0 < nat (sint (cTxLock (queue s3 q)))" by (simp add: unat_gt_0 word_gt_0)
      then have "holder a4 (EventItem t) = Some PendingReadyList" unfolding u(6) lk3(2) by (cases "nat (sint (cTxLock (queue s3 q)))") simp_all
      then show ?thesis by (simp add: pending_def)
    qed
    then show ?thesis using u(1,2) st f4 rd unfolding s3_def by (intro exI [of _ s4] exI [of _ a4]) blast
  qed
  show ?thesis
  proof (cases "uxMessagesWaiting (queue s1 q) = 0")
    case False
    from tail [OF i1(1) refl refl f1] show ?thesis using False rd1 unfolding code t_def [symmetric] by auto
  next
    case True
    have ok1: "kernel_ok E T idle (kern s1) a1" using os_coreD(1) [OF i1(1)] rd1 f1(2) by (simp add: kernel_ok_core)
    have idl: "pxCurrentTCB (kern s1) \<noteq> idle" "uxSchedulerSuspended (kern s1) \<noteq> 0" using assms(4) f1 by (simp_all add: t_def)
    have e: "q + 36 \<in> E" using os_coreD(3) [OF i1(1) assms(5)] by (simp add: queue_in_def)
    obtain k2 a2 where p: "vTaskPlaceOnEventListRestricted (EventList (q + 36)) d indef (kern s1) = Some k2" "kernel_core E T idle k2 a2"
      "if indef then holder a2 = (holder a1)(EventItem t := Some (EventList (q + 36)), StateItem t := Some SuspendedTaskList) \<and> itemval a2 = itemval a1
       else (\<exists>m \<in> sleeping. holder a2 = (holder a1)(EventItem t := Some (EventList (q + 36)), StateItem t := Some m))
          \<and> itemval a2 = (itemval a1)(StateItem t := xTickCount (kern s1) + d)"
      "\<forall>f. elems a2 (EventList f) = elems (a_insert_end (EventList (q + 36)) (EventItem t) a1) (EventList f)"
      "pxCurrentTCB k2 = t" "xTickCount k2 = xTickCount (kern s1)"
      "uxSchedulerSuspended k2 = uxSchedulerSuspended (kern s1)" "uxCurrentNumberOfTasks k2 = uxCurrentNumberOfTasks (kern s1)"
      using place_restricted_waits [OF ok1 idl(2,1) e d] unfolding f1(2) by blast
    have st2: "holder a2 (StateItem u) \<noteq> None" if "u \<in> T" for u
      using os_coreD(2) [OF i1(1) that] p(3) by (auto split: if_splits)
    have c2: "os_core Q E T idle (s1\<lparr>kern := k2\<rparr>) a2" using os_coreD(3,4) [OF i1(1)] p(2,8) st2 by (simp add: os_core_def)
    have "cursor a1 (EventList (q + 36)) = None"
      using repD(5) [OF kernel_baseD(1) [OF os_core_base [OF i1(1)]], of "EventList (q + 36)"] e lk1(2)
      by (cases "cursor a1 (EventList (q + 36))") auto
    then have el: "elems a2 (EventList (q + 36)) = [EventItem t]"
      using p(4) lk1(2) by (simp add: a_insert_end_def before_cursor_def from_cursor_def)
    have sl: "asleep_until t indef (xTickCount (kern s) + d) a2" using p(3) f1(3) by (auto simp: asleep_until_def split: if_splits)
    have pl: "on_kernel (vTaskPlaceOnEventListRestricted (EventList (q + 36)) d indef) s1 = Some (s1\<lparr>kern := k2\<rparr>)" using p(1) by (simp add: on_kernel_def)
    obtain s' a' where r: "prvUnlockQueue q (during Q is2 (s1\<lparr>kern := k2\<rparr>)) = Some s'" "os_core Q E T idle s' a'" "uxSchedulerSuspended (kern s') = 1"
        "pxCurrentTCB (kern s') = t" "xTickCount (kern s') = xTickCount (kern s)" "stays Q s s' (fold spec_intr (is1 @ is2))"
        "pending a' t \<or> contents q s' = [] \<and> holder a' (StateItem t) = holder a2 (StateItem t) \<and> itemval a' (StateItem t) = itemval a2 (StateItem t)"
      using tail [OF c2, simplified] el True p(5,6,7) f1 by (auto simp: count_of_def)
    then show ?thesis using sl True unfolding code t_def [symmetric] pl asleep_until_def by auto
  qed
qed


section \<open>What callbacks may do to the system\<close>

lemma keeps_reload:
  assumes "\<And>f t m. P (rtos m) \<Longrightarrow> P (rtos (cb f t m))"
  shows "prvReloadTimer cb t x now m = Some m' \<Longrightarrow> P (rtos m) \<Longrightarrow> P (rtos m')"
proof -
  have c: "P (rtos m) \<Longrightarrow> P (rtos (run_callback cb t m))" for t m using assms by (simp add: run_callback_def Let_def)
  have i: "rtos m' = rtos m" if "prvInsertTimerInActiveList t e now x m = Some (b, m')" for t e now x m b m'
    using that by (auto simp: prvInsertTimerInActiveList_def Let_def on_active_def split: if_splits)
  have "cb = cb \<longrightarrow> P (rtos m) \<longrightarrow> P (rtos m')" if "prvReloadTimer cb t x now m = Some m'"
  proof (rule prvReloadTimer.raw_induct [OF _ that, where P = "\<lambda>cb' t x now m m'. cb' = cb \<longrightarrow> P (rtos m) \<longrightarrow> P (rtos m')"], goal_cases)
    case (1 f cb' t x now m r)
    then obtain b m1 where m1: "prvInsertTimerInActiveList t (x + xTimerPeriodInTicks (timer m t)) now x m = Some (b, m1)"
        "(if b then f cb' t (x + xTimerPeriodInTicks (timer m1 t)) now (run_callback cb' t m1) else Some m1) = Some r"
      by (auto simp: bind_eq_Some_conv)
    then show ?case using 1(1) i [OF m1(1)] c [of m1 t] by (auto split: if_splits)
  qed
  then show "prvReloadTimer cb t x now m = Some m' \<Longrightarrow> P (rtos m) \<Longrightarrow> P (rtos m')" by blast
qed

lemma keeps_expired:
  assumes "\<And>f t m. P (rtos m) \<Longrightarrow> P (rtos (cb f t m))"
  shows "prvProcessExpiredTimer cb x now m = Some m' \<Longrightarrow> P (rtos m) \<Longrightarrow> P (rtos m')"
proof -
  have c: "P (rtos m) \<Longrightarrow> P (rtos (run_callback cb t m))" for t m using assms by (simp add: run_callback_def Let_def)
  have s: "rtos (clear_status b t m) = rtos m" for b t m by (simp add: clear_status_def upd_timer_def)
  show "prvProcessExpiredTimer cb x now m = Some m' \<Longrightarrow> P (rtos m) \<Longrightarrow> P (rtos m')"
    using keeps_reload [of P cb, OF assms]
    by (auto simp: prvProcessExpiredTimer_def bind_eq_Some_conv Let_def s intro!: c split: if_splits)
qed

lemma keeps_sample:
  assumes "\<And>f t m. P (rtos m) \<Longrightarrow> P (rtos (cb f t m))"
  shows "prvSampleTimeNow cb now m = Some (b, m') \<Longrightarrow> P (rtos m) \<Longrightarrow> P (rtos m')"
proof -
  have "cb = cb \<longrightarrow> P (rtos m) \<longrightarrow> P (rtos m')" if "switch_loop cb m = Some m'" for m m'
  proof (rule switch_loop.raw_induct [OF _ that, where P = "\<lambda>cb' m m'. cb' = cb \<longrightarrow> P (rtos m) \<longrightarrow> P (rtos m')"], goal_cases)
    case (1 f cb' m r)
    show ?case
    proof (cases "listLIST_IS_EMPTY (pxCurrentTimerList m) (active m)")
      case False
      then obtain x m1 where "prvProcessExpiredTimer cb' x tmrMAX_TIME_BEFORE_OVERFLOW m = Some m1" "f cb' m1 = Some r"
        using 1(2) by (auto simp: bind_eq_Some_conv)
      then show ?thesis using 1(1) keeps_expired [of P cb, OF assms] by blast
    qed (use 1 in simp)
  qed
  then show "prvSampleTimeNow cb now m = Some (b, m') \<Longrightarrow> P (rtos m) \<Longrightarrow> P (rtos m')"
    by (auto simp: prvSampleTimeNow_def prvSwitchTimerLists_def bind_eq_Some_conv split: if_splits)
qed

text \<open>
  The timer task \<open>t\<close> runs, everything is in order, and nobody waits for messages of the timer queue \<open>q\<close>. A
  callback keeps it so: it may send commands, give semaphores, and wake tasks, but never blocks.
\<close>

definition at_work :: "task set \<Rightarrow> task \<Rightarrow> u32 set \<Rightarrow> u32 set \<Rightarrow> u32 \<Rightarrow> task \<Rightarrow> os \<Rightarrow> bool" where
  "at_work T idle G Q q t s \<longleftrightarrow> (\<exists>a bs. os_sys T idle G (Q, s) a bs \<and> is_ready a t) \<and> pxCurrentTCB (kern s) = t
     \<and> (\<forall>u. container (EventItem u) (kern s) \<noteq> Some (EventList (q + 36)))"

definition polite :: "task set \<Rightarrow> task \<Rightarrow> u32 set \<Rightarrow> u32 set \<Rightarrow> u32 \<Rightarrow> task \<Rightarrow> (u32 \<Rightarrow> u32 \<Rightarrow> tmr \<Rightarrow> tmr) \<Rightarrow> bool" where
  "polite T idle G Q q t cb \<longleftrightarrow> (\<forall>f u m. at_work T idle G Q q t (rtos m)
     \<longrightarrow> at_work T idle G Q q t (rtos (cb f u m)) \<and> uxSchedulerSuspended (kern (rtos (cb f u m))) = uxSchedulerSuspended (kern (rtos m))
       \<and> (uxSchedulerSuspended (kern (rtos m)) \<noteq> 0 \<longrightarrow> xTickCount (kern (rtos (cb f u m))) = xTickCount (kern (rtos m))))"

lemma no_waiter:
  assumes "os_core Q E T idle s a" and "\<forall>u. container (EventItem u) (kern s) \<noteq> Some (EventList e)" and "e \<in> E"
  shows "elems a (EventList e) = []"
proof (rule ccontr)
  assume "elems a (EventList e) \<noteq> []"
  then obtain i where "i \<in> set (elems a (EventList e))" by (cases "elems a (EventList e)") auto
  then have h: "holder a i = Some (EventList e)" using repD(4) [OF kernel_baseD(1) [OF os_core_base [OF assms(1)]], of "EventList e"] assms(3) by simp
  then have "i = EventItem (task_of i)" using event_item [OF os_core_base [OF assms(1)]] by blast
  then show False using assms(2) h container_holder [OF os_core_base [OF assms(1)]] by metis
qed

lemma queues_over: "os_core Q E T idle s a \<Longrightarrow> over (events_kept {} (kern s)) (group s) Q s"
  using os_coreD(3) by (auto simp: over_def events_kept_refl queue_in_def)

lemma still_no_waiter:
  assumes "over (events_kept {} k) g Q s" and "\<forall>u. container (EventItem u) k \<noteq> Some (EventList e)"
  shows "\<forall>u. container (EventItem u) (kern s) \<noteq> Some (EventList e)"
  using assms by (auto simp: over_def events_kept_def)


lemma stored_kern: "stored Q G s bs \<Longrightarrow> stored Q G (s\<lparr>kern := k\<rparr>) bs"
  by (rule stored_sizes [where s = s]) (simp_all add: same_sizes_def)

lemma suspend_at_work:
  assumes "at_work T idle G Q q t s" and "uxSchedulerSuspended (kern s) = 0"
    and s1_def: "s1 = during Q is (s\<lparr>kern := vTaskSuspendAll (kern s)\<rparr>)"
  shows "at_work T idle G Q q t s1 \<and> uxSchedulerSuspended (kern s1) = 1 \<and> xTickCount (kern s1) = xTickCount (kern s)"
proof -
  define s0 where "s0 = s\<lparr>kern := vTaskSuspendAll (kern s)\<rparr>"
  obtain a bs where sys: "os_sys T idle G (Q, s) a bs" and rd: "is_ready a t" and cur: "pxCurrentTCB (kern s) = t"
    and no: "\<forall>u. container (EventItem u) (kern s) \<noteq> Some (EventList (q + 36))" using assms(1) by (auto simp: at_work_def)
  note os = os_sysD [OF sys]
  note su = suspend_os [OF os(1) assms(2) os(2), folded s0_def]
  have k0: "kern s0 = vTaskSuspendAll (kern s)" by (simp add: s0_def)
  have "uxSchedulerSuspended (kern s0) \<noteq> 0" using su(3) k0 by simp
  from during_ok [OF su(1) this, of "is"]
  obtain a1 where i1: "os_core Q (lists_of Q G) T idle s1 a1" "woke (kern s0) a (kern s1) a1" "stays Q s0 s1 (fold spec_intr is)"
    unfolding s1_def s0_def by blast
  have f1: "uxSchedulerSuspended (kern s1) = 1" "pxCurrentTCB (kern s1) = t" "xTickCount (kern s1) = xTickCount (kern s)" "is_ready a1 t"
    using i1(2) su(3) k0 cur rd by (simp_all add: woke_def vTaskSuspendAll_def)
  have pre: "preemptive (kern s1) a1" using woke_preemptive [OF _ i1(2)] su(2) k0 by simp
  have "stored Q G s0 bs" unfolding s0_def by (rule stored_kern [OF os(4)])
  then have st: "stored Q G s1 bs" using stored_sizes i1(3) by (auto simp: stays_def)
  have "container (EventItem u) (kern s0) = container (EventItem u) (kern s)" for u by (simp add: k0 container_def vTaskSuspendAll_def)
  then have "\<forall>u. container (EventItem u) (kern s1) \<noteq> Some (EventList (q + 36))"
    using still_no_waiter [OF events.over_during [OF queues_over [OF su(1)], of "is"]] no unfolding s1_def s0_def by simp
  moreover have "os_sys T idle G (Q, s1) a1 bs" using i1(1) pre f1(2,4) st by (simp add: os_sys_def)
  ultimately show ?thesis using f1 unfolding at_work_def by blast
qed

lemma resume_at_work:
  assumes "at_work T idle G Q q t s" and "uxSchedulerSuspended (kern s) = 1"
  shows "\<exists>y s'. resume_all s = Some (y, s') \<and> at_work T idle G Q q t s' \<and> uxSchedulerSuspended (kern s') = 0"
proof -
  obtain a bs where sys: "os_sys T idle G (Q, s) a bs" and rd: "is_ready a t" and cur: "pxCurrentTCB (kern s) = t"
    and no: "\<forall>u. container (EventItem u) (kern s) \<noteq> Some (EventList (q + 36))" using assms(1) by (auto simp: at_work_def)
  note os = os_sysD [OF sys]
  obtain y k' a' where r: "resume_all s = Some (y, s\<lparr>kern := k'\<rparr>)" "os_core Q (lists_of Q G) T idle (s\<lparr>kern := k'\<rparr>) a'" "uxSchedulerSuspended k' = 0"
      "is_ready a (pxCurrentTCB (kern s)) \<longrightarrow> is_ready a' (pxCurrentTCB k')" "preemptive (kern s) a \<longrightarrow> preemptive k' a'" "pxCurrentTCB k' = pxCurrentTCB (kern s)"
    using resume_os [OF os(1) assms(2)] by blast
  have "\<forall>u. container (EventItem u) k' \<noteq> Some (EventList (q + 36))"
    using still_no_waiter [of "kern s" "group s" Q "s\<lparr>kern := k'\<rparr>"] events.over_resume [OF r(1)] queues_over [OF os(1)] no by auto
  moreover have "os_sys T idle G (Q, s\<lparr>kern := k'\<rparr>) a' bs"
    using r os(2) rd cur stored_kern [OF os(4)] by (simp add: os_sys_def)
  ultimately show ?thesis using r rd cur unfolding at_work_def by auto
qed

text \<open>Going to wait: afterwards the task is ready, or there is no message and it sleeps as it was told.\<close>

lemma wait_at_work:
  assumes "at_work T idle G Q q t s" and "uxSchedulerSuspended (kern s) = 1" and "t \<noteq> idle" and "q \<in> Q" and "separate Q q"
    and "env n = during Q is1" "env (n + 1) = during Q is2" and "0 < d \<or> indef"
  shows "\<exists>s1 y s2 a' bs. vQueueWaitForMessageRestricted env n q d indef s = Some s1 \<and> resume_all s1 = Some (y, s2)
    \<and> os_sys T idle G (Q, if \<not> y then s2\<lparr>kern := yield (kern s2)\<rparr> else s2) a' bs \<and> uxSchedulerSuspended (kern s2) = 0
    \<and> (is_ready a' t \<or> contents q s2 = [] \<and> asleep_until t indef (xTickCount (kern s) + d) a')"
proof -
  obtain a bs where sys: "os_sys T idle G (Q, s) a bs" and rd: "is_ready a t" and cur: "pxCurrentTCB (kern s) = t"
    and no: "\<forall>u. container (EventItem u) (kern s) \<noteq> Some (EventList (q + 36))" using assms(1) by (auto simp: at_work_def)
  note os = os_sysD [OF sys]
  have "q + 36 \<in> lists_of Q G" using os_coreD(3) [OF os(1) assms(4)] by (simp add: queue_in_def)
  note none = no_waiter [OF os(1) no this]
  obtain s1 a1 where w: "vQueueWaitForMessageRestricted env n q d indef s = Some s1" "os_core Q (lists_of Q G) T idle s1 a1" "uxSchedulerSuspended (kern s1) = 1"
      "pxCurrentTCB (kern s1) = t" "stays Q s s1 (fold spec_intr (is1 @ is2))"
      "is_ready a1 t \<or> pending a1 t \<or> contents q s1 = [] \<and> asleep_until t indef (xTickCount (kern s) + d) a1"
    using restricted_wait_ok [where indef = indef, OF os(1) assms(2) _ _ assms(4) none assms(6,7,8,5)] rd assms(3) unfolding cur by blast
  obtain y k' a' where r: "resume_all s1 = Some (y, s1\<lparr>kern := k'\<rparr>)" "os_core Q (lists_of Q G) T idle (s1\<lparr>kern := k'\<rparr>) a'" "uxSchedulerSuspended k' = 0" "y \<longrightarrow> swi k'"
      "holder a' = woken (resumed (kern s1) a1) (kern s1) (holder a1)" "itemval a' = itemval a1"
    using resume_os [OF w(2,3)] by blast
  define s2 where "s2 = s1\<lparr>kern := k'\<rparr>"
  define s3 where "s3 = (if \<not> y then s2\<lparr>kern := yield (kern s2)\<rparr> else s2)"
  have f3: "swi (kern s3)" "uxSchedulerSuspended (kern s3) = 0" using r(3,4) by (simp_all add: s3_def s2_def yield_def)
  have "os_core Q (lists_of Q G) T idle s3 a'" using r(2) by (simp add: s3_def s2_def os_core_def yield_def)
  moreover have "stored Q G s3 bs"
    using stored_kern [OF stored_sizes [OF os(4)], of s1] w(5) by (simp add: stays_def s3_def s2_def)
  ultimately have "os_sys T idle G (Q, s3) a' bs" using f3 by (simp add: os_sys_def preemptive_def)
  moreover have "is_ready a' t \<or> contents q s2 = [] \<and> asleep_until t indef (xTickCount (kern s) + d) a'"
  proof (cases "is_ready a1 t \<or> resumed (kern s1) a1 t")
    case True
    then show ?thesis using ready_woken [OF r(5)] woken_ready [OF r(5)] by blast
  next
    case False
    then have "contents q s1 = []" "asleep_until t indef (xTickCount (kern s) + d) a1" using w(6) by (auto simp: resumed_def)
    moreover have "holder a' (StateItem t) = holder a1 (StateItem t)" using False by (simp add: r(5))
    moreover have "contents q s2 = contents q s1" by (rule contents_frame) (simp_all add: s2_def)
    ultimately show ?thesis using r(6) by (simp add: asleep_until_def)
  qed
  ultimately show ?thesis using w(1) r(1,3) unfolding s3_def s2_def by (intro exI [of _ s1] exI [of _ y] exI [of _ "s1\<lparr>kern := k'\<rparr>"] exI [of _ a'] exI [of _ bs]) simp
qed


section \<open>One round\<close>

lemma rtos_only [simp]:
  "active (m\<lparr>rtos := s\<rparr>) = active m" "expired (m\<lparr>rtos := s\<rparr>) = expired m" "settings (m\<lparr>rtos := s\<rparr>) = settings m" "reloads (m\<lparr>rtos := s\<rparr>) = reloads m"
  "expires_at T (m\<lparr>rtos := s\<rparr>) = expires_at T m" "timers_ok T (m\<lparr>rtos := s\<rparr>) a = timers_ok T m a" "prvGetNextExpireTime (m\<lparr>rtos := s\<rparr>) = prvGetNextExpireTime m"
  by (simp_all add: settings_def fun_eq_iff reloads_def expires_at_def timers_ok_def period_def prvGetNextExpireTime_def Let_def)

text \<open>What the timer task knows about the next expiry before it blocks.\<close>

lemma next_expiry_empty:
  assumes ok: "timers_ok T m a" and x: "prvGetNextExpireTime m = Some (x, e)"
  shows "e \<longleftrightarrow> elems a (pxCurrentTimerList m) = []" "e \<Longrightarrow> x = 0"
  using x current_empty(1) [OF ok, of "pxCurrentTimerList m"] by (auto simp: prvGetNextExpireTime_def Let_def bind_eq_Some_conv split: if_splits)

lemma both_empty:
  assumes ok: "timers_ok T m a"
  shows "elems a (pxCurrentTimerList m) = [] \<and> elems a (pxOverflowTimerList m) = [] \<longleftrightarrow> (\<forall>u. expires_at T m u = None)"
proof -
  have two: "l = pxCurrentTimerList m \<or> l = pxOverflowTimerList m" for l
    using timers_okD(2) [OF ok] by (cases l; cases "pxCurrentTimerList m"; cases "pxOverflowTimerList m") auto
  have h: "u \<in> set (elems a l) \<longleftrightarrow> holder a u = Some l" for u l using repD(4) [OF timers_okD(1) [OF ok] UNIV_I] by simp
  have "elems a l = [] \<longleftrightarrow> (\<forall>u. holder a u \<noteq> Some l)" for l using h by (metis empty_iff list.set(1) list.set_sel(1))
  moreover have "holder a u = None \<longleftrightarrow> holder a u \<noteq> Some (pxCurrentTimerList m) \<and> holder a u \<noteq> Some (pxOverflowTimerList m)" for u
    using two by (cases "holder a u") auto
  ultimately show ?thesis using no_deadline [OF ok] by auto
qed

text \<open>How long to sleep: up to a time that no deadline precedes, for ever when there is none.\<close>

lemma sleep_time:
  assumes ok: "timers_ok N m a" and so: "soon N m" and x: "prvGetNextExpireTime m = Some (x, e)" and later: "\<And>u d. expires_at N m u = Some d \<Longrightarrow> N < d"
    and indef: "indef = (if e then listLIST_IS_EMPTY (pxOverflowTimerList m) (active m) else e)"
  shows "if indef then \<forall>u. expires_at N m u = None
    else x - of_nat N \<noteq> (0 :: u32) \<and> (\<exists>D. x = of_nat D \<and> N < D \<and> D < N + wrap + 1 \<and> (\<forall>u d. expires_at N m u = Some d \<longrightarrow> D \<le> d))"
proof (cases e)
  case False
  then obtain t ts d where h: "elems a (pxCurrentTimerList m) = t # ts" "expires_at N m t = Some d" "d div wrap = N div wrap" "x = of_nat d"
    using next_expiry [OF ok, of x N] x by auto
  have lt: "N < d" using later [OF h(2)] .
  have least: "\<forall>u e. expires_at N m u = Some e \<longrightarrow> d \<le> e" using head_deadline [OF ok h(1)] h(2) by auto
  have "d < N + wrap" using same_epoch [OF h(3)] .
  moreover have "x - of_nat N \<noteq> (0 :: u32)"
  proof
    assume "x - of_nat N = (0 :: u32)"
    then have "unat (of_nat d - of_nat N :: u32) = 0" by (simp add: h(4))
    then show False using nat_word_diff [of N d] lt \<open>d < N + wrap\<close> by simp
  qed
  ultimately show ?thesis using False indef h(4) lt least by auto
next
  case True
  then have e0: "elems a (pxCurrentTimerList m) = []" "x = 0" using next_expiry_empty [OF ok x] by auto
  have i: "indef \<longleftrightarrow> elems a (pxOverflowTimerList m) = []" using indef True current_empty(1) [OF ok, of "pxOverflowTimerList m"] by simp
  show ?thesis
  proof (cases indef)
    case True
    then show ?thesis using both_empty [OF ok] e0 i by simp
  next
    case False
    then obtain u d where d: "expires_at N m u = Some d" using both_empty [OF ok] i by auto
    define D where "D = (N div wrap + 1) * wrap"
    have ge: "D \<le> d" if "expires_at N m u = Some d" for u d
      unfolding D_def current_empty(2) [OF ok e0(1) that, symmetric] by (rule div_times_less_eq_dividend)
    have D: "D = N div wrap * wrap + wrap" unfolding D_def by simp
    have nm: "N = N div wrap * wrap + N mod wrap" "N mod wrap < wrap" by simp_all
    have "N < D" using nm unfolding D by linarith
    moreover have "D \<le> N + wrap" using nm unfolding D by linarith
    moreover have "D mod wrap = 0" unfolding D_def by (rule mod_mult_self2_is_0)
    then have "(of_nat D :: u32) = 0" by (simp add: word_unat_eq_iff unat_of_nat)
    moreover have "(of_nat N :: u32) \<noteq> 0"
    proof
      assume "(of_nat N :: u32) = 0"
      then have "N mod wrap = 0" by (simp add: word_unat_eq_iff unat_of_nat)
      then have "D = N + wrap" using nm unfolding D by linarith
      then show False using ge [OF d] so d unfolding soon_def by fastforce
    qed
    ultimately show ?thesis using False e0(2) ge by (auto intro!: exI [of _ D])
  qed
qed


text \<open>
  Before it blocks the task looks at the head of the list, then stops the scheduler and samples the time: it
  switches the lists, or serves the head, or goes to wait.
\<close>

text \<open>How the daemon waits: ready again, or with its queue empty asleep until the deadline it set, which is no later
  than any timer's, and asleep without a limit when no timer runs.\<close>

definition daemon_waits :: "task set \<Rightarrow> task \<Rightarrow> u32 set \<Rightarrow> u32 set \<Rightarrow> u32 \<Rightarrow> task \<Rightarrow> nat \<Rightarrow> tmr \<Rightarrow> bool" where
  "daemon_waits T idle G Q q t N m \<longleftrightarrow> (\<forall>v d. expires_at N m v = Some d \<longrightarrow> N < d)
     \<and> (\<exists>a bs. os_sys T idle G (Q, rtos m) a bs \<and> (is_ready a t \<or> contents q (rtos m) = []
       \<and> (if \<forall>v. expires_at N m v = None then holder a (StateItem t) = Some SuspendedTaskList
          else \<exists>D. asleep_until t False (of_nat D) a \<and> N < D \<and> (\<forall>v d. expires_at N m v = Some d \<longrightarrow> D \<le> d))))"

lemma block_step:
  assumes cb: "tame cb" and po: "polite T idle G Q q t cb" and ok: "timers_ok T0 m a" and so: "soon T0 m" and aw: "at_work T idle G Q q t (rtos m)"
    and su: "uxSchedulerSuspended (kern (rtos m)) = 0" and t: "t \<noteq> idle" and q: "q \<in> Q" "separate Q q" "xTimerQueue m = q"
    and x: "prvGetNextExpireTime m = Some (x, e)" and N: "T0 \<le> N" "N < T0 + wrap" "xTickCount (kern (rtos m)) = of_nat N"
    and env: "env n = during Q is0" "env (n + 1) = during Q is1" "env (n + 1 + 1) = during Q is2"
  shows "\<exists>b m'. prvProcessTimerOrBlockTask cb env n x e m = Some (b, m') \<and> attended cb u (T0, m) (N, m') \<and> (\<exists>a. timers_ok N m' a) \<and> soon N m'
    \<and> xTimerQueue m' = q \<and> uxSchedulerSuspended (kern (rtos m')) = 0 \<and> (b \<longleftrightarrow> T0 div wrap = N div wrap \<and> (e \<or> of_nat N < x))
    \<and> (if b then daemon_waits T idle G Q q t N m'
       else at_work T idle G Q q t (rtos m'))"
proof -
  define s1 where "s1 = during Q is0 ((rtos m)\<lparr>kern := vTaskSuspendAll (kern (rtos m))\<rparr>)"
  note a1 = suspend_at_work [OF aw su s1_def]
  define m1 where "m1 = m\<lparr>rtos := s1\<rparr>"
  have tick: "xTickCount (kern s1) = of_nat N" using a1 N(3) by simp
  have ok1: "timers_ok T0 m1 a" "expires_at T0 m1 = expires_at T0 m" "prvGetNextExpireTime m1 = Some (x, e)" "xTimerQueue m1 = q" using ok x q(3) by (simp_all add: m1_def)
  have so1: "soon T0 m1" using so by (simp add: soon_def ok1(2))
  have at1: "attended cb u (T0, m) (T0, m1)" by (rule aother [OF astart]) (simp_all add: m1_def)
  define P where "P c s \<longleftrightarrow> at_work T idle G Q q t s \<and> uxSchedulerSuspended (kern s) = c \<and> (c \<noteq> 0 \<longrightarrow> xTickCount (kern s) = of_nat N)" for c s
  have keep: "P c (rtos m) \<Longrightarrow> P c (rtos (cb f v m))" for c f v m
    using po [unfolded polite_def, rule_format, of m f v] unfolding P_def by auto
  obtain m2 a2 where m2: "prvSampleTimeNow cb (of_nat N) m1 = Some (T0 div wrap < N div wrap, m2)" "timers_ok N m2 a2" "\<And>v. sampled T0 m1 N m2 v"
      "xTimerQueue m2 = xTimerQueue m1" "T0 div wrap = N div wrap \<longrightarrow> m2 = m1\<lparr>xLastTime := of_nat N\<rparr>"
    using sample_all [OF cb ok1(1) N(1,2)] by blast
  have at2: "attended cb u (T0, m) (N, m2)" by (rule asample [OF at1 N(1,2) m2(1)])
  have so2: "soon N m2" by (rule sampled_soon [OF so1 N(1) m2(3)])
  have "P 1 (rtos m1)" using a1 tick by (simp add: P_def m1_def)
  from keeps_sample [of "P 1" cb, OF keep m2(1) this] have p2: "P 1 (rtos m2)" .
  obtain y2 s2 where r2: "resume_all (rtos m2) = Some (y2, s2)" "at_work T idle G Q q t s2" "uxSchedulerSuspended (kern s2) = 0"
    using resume_at_work p2 unfolding P_def by blast
  define m3 where "m3 = m2\<lparr>rtos := s2\<rparr>"
  have ok3: "timers_ok N m3 a2" "expires_at N m3 = expires_at N m2" "xTimerQueue m3 = q" using m2(2,4) ok1(4) by (simp_all add: m3_def)
  have so3: "soon N m3" using so2 by (simp add: soon_def ok3(2))
  have at3: "attended cb u (T0, m) (N, m3)" by (rule aother [OF at2]) (simp_all add: m3_def)
  define indef where "indef = (if e then listLIST_IS_EMPTY (pxOverflowTimerList m2) (active m2) else e)"
  have code: "prvProcessTimerOrBlockTask cb env n x e m = (if \<not> T0 div wrap < N div wrap
      then if \<not> e \<and> x \<le> of_nat N
        then do { m \<leftarrow> prvProcessExpiredTimer cb x (of_nat N) m3; Some (False, m) }
        else do {
          s \<leftarrow> vQueueWaitForMessageRestricted env (n + 1) q (x - of_nat N) indef (rtos m2);
          (yielded, s) \<leftarrow> resume_all s;
          Some (True, m2\<lparr>rtos := if \<not> yielded then s\<lparr>kern := yield (kern s)\<rparr> else s\<rparr>)
        }
      else Some (False, m3))"
    unfolding prvProcessTimerOrBlockTask_def Let_def env(1) s1_def [symmetric] m1_def [symmetric]
    using tick m2(1,4) ok1(4) r2(1) by (simp add: m1_def [symmetric] indef_def m3_def) (simp add: m1_def)
  show ?thesis
  proof (cases "T0 div wrap < N div wrap")
    case True
    then show ?thesis using ok3 so3 at3 r2(2,3) unfolding code by (auto simp: m3_def)
  next
    case False
    then have same: "T0 div wrap = N div wrap" using div_le_mono [OF N(1), of wrap] by simp
    then have m2e: "m2 = m1\<lparr>xLastTime := of_nat N\<rparr>" using m2(5) by simp
    have "prvGetNextExpireTime m2 = prvGetNextExpireTime m1" by (simp add: m2e prvGetNextExpireTime_def Let_def)
    then have x2: "prvGetNextExpireTime m2 = Some (x, e)" using ok1(3) by simp
    show ?thesis
    proof (cases "\<not> e \<and> x \<le> of_nat N")
      case True
      then have x3: "prvGetNextExpireTime m3 = Some (x, False)" using x2 by (simp add: m3_def)
      obtain v vs d where h: "elems a2 (pxCurrentTimerList m3) = v # vs" "expires_at N m3 v = Some d" "x = of_nat d" "d \<le> N"
        using next_expiry [OF ok3(1) x3, of N] True by auto
      obtain m' where m': "prvProcessExpiredTimer cb x (of_nat N) m3 = Some m'"
          "ran N m3 v (after (reloads m3 v) (period m3 v) N d) (fires (reloads m3 v) (period m3 v) N d) m'"
        using expired_step [OF cb ok3(1) h(1,2,4) refl] unfolding h(3) by blast
      have at': "attended cb u (T0, m) (N, m')" by (rule aexpire [OF at3 x3 _ m'(1)]) (use True in simp)
      have "soon N m'" by (rule ran_soon [OF so3 m'(2)]) (use after_soon [OF _ order_refl _ period_wrap] h(2) so3 in \<open>auto simp: soon_def\<close>)
      moreover have "P 0 (rtos m')" by (rule keeps_expired [of "P 0" cb, OF keep m'(1)]) (use r2(2,3) in \<open>simp_all add: P_def m3_def\<close>)
      moreover have "\<exists>a. timers_ok N m' a" "xTimerQueue m' = q" using m'(2) settingsD(3) [of m' m3] ok3(3) by (auto simp: ran_def)
      ultimately show ?thesis using True False at' m'(1) unfolding code by (auto simp: P_def)
    next
      case sleeps: False
      have later: "N < d" if "expires_at N m2 v = Some d" for v d
      proof (cases e)
        case True
        have "d div wrap = N div wrap + 1" using current_empty(2) [OF m2(2) _ that] next_expiry_empty(1) [OF m2(2) x2] True by blast
        then show ?thesis using div_le_mono [of d N wrap] by (cases "N < d") auto
      next
        case False
        then obtain w ws b where h: "elems a2 (pxCurrentTimerList m2) = w # ws" "expires_at N m2 w = Some b" "x = of_nat b" "b div wrap = N div wrap"
          using next_expiry [OF m2(2), of x N] x2 by auto
        have "b \<le> d" using head_deadline [OF m2(2) h(1)] h(2) that by auto
        moreover have "N mod wrap < b mod wrap" using sleeps False h(3) by (simp add: nat_word_le not_le)
        then have "N < b" using h(4) div_mult_mod_eq [of b wrap] div_mult_mod_eq [of N wrap] by linarith
        ultimately show ?thesis by simp
      qed
      have sl: "if indef then \<forall>u. expires_at N m2 u = None
          else x - of_nat N \<noteq> (0 :: u32) \<and> (\<exists>D. x = of_nat D \<and> N < D \<and> D < N + wrap + 1 \<and> (\<forall>u d. expires_at N m2 u = Some d \<longrightarrow> D \<le> d))"
        by (rule sleep_time [OF m2(2) so2 x2 _ indef_def]) (rule later)
      have d: "0 < x - of_nat N \<or> indef" using sl by (auto simp: word_gt_0 split: if_splits)
      obtain s3 y s4 a4 bs where w: "vQueueWaitForMessageRestricted env (n + 1) q (x - of_nat N) indef (rtos m2) = Some s3" "resume_all s3 = Some (y, s4)"
          "os_sys T idle G (Q, if \<not> y then s4\<lparr>kern := yield (kern s4)\<rparr> else s4) a4 bs" "uxSchedulerSuspended (kern s4) = 0"
          "is_ready a4 t \<or> contents q s4 = [] \<and> asleep_until t indef (xTickCount (kern (rtos m2)) + (x - of_nat N)) a4"
        using wait_at_work [where s = "rtos m2" and env = env and n = "n + 1" and d = "x - of_nat N" and indef = indef, OF _ _ t q(1,2) env(2,3) d] p2
        unfolding P_def by blast
      define m' where "m' = m2\<lparr>rtos := if \<not> y then s4\<lparr>kern := yield (kern s4)\<rparr> else s4\<rparr>"
      have ct: "contents q (rtos m') = contents q s4" by (rule contents_frame) (simp_all add: m'_def)
      have tk: "xTickCount (kern (rtos m2)) + (x - of_nat N) = x" using p2 by (simp add: P_def)
      have at': "attended cb u (T0, m) (N, m')" by (rule aother [OF at2]) (simp_all add: m'_def)
      have ok': "\<exists>a. timers_ok N m' a" "soon N m'" "xTimerQueue m' = q" using m2(2,4) so2 ok1(4) by (auto simp: m'_def soon_def)
      have su': "uxSchedulerSuspended (kern (rtos m')) = 0" using w(4) by (simp add: m'_def yield_def)
      have ex: "expires_at N m' = expires_at N m2" by (simp add: m'_def)
      have "os_sys T idle G (Q, rtos m') a4 bs" using w(3) by (simp add: m'_def)
      moreover have "is_ready a4 t \<or> contents q (rtos m') = [] \<and> (if \<forall>v. expires_at N m' v = None then holder a4 (StateItem t) = Some SuspendedTaskList
          else \<exists>D. asleep_until t False (of_nat D) a4 \<and> N < D \<and> (\<forall>v d. expires_at N m' v = Some d \<longrightarrow> D \<le> d))"
      proof (cases indef)
        case True
        then show ?thesis using sl w(5) unfolding ct ex by (auto simp: asleep_until_def)
      next
        case False
        then obtain D where D: "x = of_nat D" "N < D" "\<forall>v d. expires_at N m2 v = Some d \<longrightarrow> D \<le> d" using sl by auto
        have "\<not> (\<forall>v. expires_at N m2 v = None)" using both_empty [OF m2(2)] False indef_def current_empty(1) [OF m2(2), of "pxOverflowTimerList m2"]
            next_expiry_empty(1) [OF m2(2) x2] by (auto split: if_splits)
        then show ?thesis using w(5) D False unfolding ct tk ex by auto
      qed
      ultimately have dw: "daemon_waits T idle G Q q t N m'" using later unfolding daemon_waits_def ex by blast
      have "prvProcessTimerOrBlockTask cb env n x e m = Some (True, m')"
        unfolding code m'_def using False sleeps w(1,2) by (cases e) simp_all
      then show ?thesis using at' ok' su' dw same sleeps by (intro exI [of _ True] exI [of _ m']) (simp add: not_le)
    qed
  qed
qed

end
