(* ===== verification/TimersClaims.thy ===== *)
theory TimersClaims
  imports TimersTask QueueClaims
begin

text \<open>
  The properties of the software timers: every callback on time, what a command does, and the daemon that
  sleeps no longer than until the next deadline.
\<close>

section \<open>Before the first timer\<close>

text \<open>The lists as the first creation leaves them.\<close>

definition lists_fresh :: "tmr \<Rightarrow> tmr" where
  "lists_fresh m = m\<lparr>active := vListInitialise xActiveTimerList2 (vListInitialise xActiveTimerList1 (active m)),
     pxCurrentTimerList := xActiveTimerList1, pxOverflowTimerList := xActiveTimerList2\<rparr>"

lemma fresh_created: "xTimerQueue m = 0 \<Longrightarrow> prvCheckForValidListAndQueue m = do {
    (q, s) \<leftarrow> xQueueGenericCreate configTIMER_QUEUE_LENGTH sizeof_DaemonTaskMessage_t (rtos m);
    Some ((lists_fresh m)\<lparr>rtos := s, xTimerQueue := q\<rparr>) }"
  by (simp add: prvCheckForValidListAndQueue_def lists_fresh_def)

lemma all_lists: "UNIV = {xActiveTimerList2, xActiveTimerList1}"
  using timer_list.exhaust by blast

lemma fresh_timers:
  assumes "\<forall>t. pxContainer (item (active m) t) = None" and "xLastTime m = 0"
  shows "\<exists>a. timers_ok 0 (lists_fresh m) a" "expires_at 0 (lists_fresh m) t = None" "soon 0 (lists_fresh m)"
proof -
  define a :: "(u32, timer_list) alists" where
    "a = \<lparr>elems = (\<lambda>_. []), cursor = (\<lambda>_. None), itemval = (\<lambda>t. xItemValue (item (active m) t)), holder = (\<lambda>_. None)\<rparr>"
  have "rep {} (active m) a" unfolding a_def by (rule rep_nothing) (use assms(1) in simp)
  then have "rep {xActiveTimerList2, xActiveTimerList1} (active (lists_fresh m)) (a_init xActiveTimerList2 (a_init xActiveTimerList1 a))"
    unfolding lists_fresh_def by simp (intro vListInitialise_sim; simp add: a_def a_init_def)
  then have r: "rep UNIV (active (lists_fresh m)) (a_init xActiveTimerList2 (a_init xActiveTimerList1 a))" by (simp add: all_lists)
  then have "timers_ok 0 (lists_fresh m) (a_init xActiveTimerList2 (a_init xActiveTimerList1 a))"
    using assms(2) by (simp add: timers_ok_def a_init_def a_def) (simp add: lists_fresh_def)
  then show "\<exists>a. timers_ok 0 (lists_fresh m) a" ..
  show n: "expires_at 0 (lists_fresh m) t = None" for t
    using rep_item(2) [OF r, of t] by (simp add: expires_at_def a_init_def a_def)
  show "soon 0 (lists_fresh m)" by (simp add: soon_def n)
qed

text \<open>For the examples: every timer has a period of five ticks and reloads.\<close>

definition five_ticks :: "os \<Rightarrow> u32 \<Rightarrow> tmr" where
  "five_ticks s q = lists_fresh \<lparr>rtos = s,
     active = \<lparr>item = (\<lambda>t. \<lparr>xItemValue = 0, pxNext = NULL, pxPrevious = NULL, pvOwner = None, pxContainer = None\<rparr>),
       lst = (\<lambda>_. \<lparr>uxNumberOfItems = 0, pxIndex = NULL, xListEnd = \<lparr>xItemValue = 0, pxNext = NULL, pxPrevious = NULL\<rparr>\<rparr>)\<rparr>,
     timer = (\<lambda>_. \<lparr>pcTimerName = 0, xTimerPeriodInTicks = 5, pvTimerID = 0, pxCallbackFunction = 0, ucStatus = tmrSTATUS_IS_AUTORELOAD\<rparr>),
     pxCurrentTimerList = xActiveTimerList1, pxOverflowTimerList = xActiveTimerList1, xTimerQueue = q, xTimerTaskHandle = 0,
     xLastTime = 0, expired = []\<rparr>"

lemma five_ticks:
  "\<exists>a. timers_ok 0 (five_ticks s q) a" "expires_at 0 (five_ticks s q) t = None" "soon 0 (five_ticks s q)" "period (five_ticks s q) t = 5"
  "reloads (five_ticks s q) t" "expired (five_ticks s q) = []" "rtos (five_ticks s q) = s" "xTimerQueue (five_ticks s q) = q"
proof -
  show "\<exists>a. timers_ok 0 (five_ticks s q) a" "expires_at 0 (five_ticks s q) t = None" "soon 0 (five_ticks s q)"
    unfolding five_ticks_def by (rule fresh_timers; simp)+
qed (simp_all add: five_ticks_def lists_fresh_def period_def reloads_def tmrSTATUS_IS_AUTORELOAD_def)

text \<open>A callback that does nothing.\<close>

lemma idle_callback: "tame (\<lambda>f t m. m)" "polite T idle G Q q t (\<lambda>f t m. m)"
  by (simp_all add: tame_def polite_def)

section \<open>Callbacks\<close>

text \<open>
  C7: A timer's callbacks are on time. From a moment when the timer \<open>u\<close> is due at the true time \<open>d\<close>, let any
  samples of the tick counter (each less than a wrap after the one before), expiries, commands for other timers
  and changes of the rest of the system follow. Up to the true time \<open>N\<close> its callback has run at most as often as
  it came due, once for a one-shot timer and once per period for one that reloads, late periods and wraps of the
  tick counter included; a timer that is still active has the deadline that many periods later; and if
  nothing of it is overdue, the callback has run exactly as often as it came due. The callbacks themselves leave the lists alone.
\<close>

theorem timer_callbacks_on_time:
  assumes "tame cb" and "timers_ok T m a" and "expires_at T m u = Some d" and "attended cb u (T, m) (N, m')"
  shows "\<exists>n \<le> fires (reloads m u) (period m u) N d. count_list (expired m') u = count_list (expired m) u + n
    \<and> (\<forall>e. expires_at N m' u = Some e \<longrightarrow> e = d + n * period m u)
    \<and> ((\<forall>e. expires_at N m' u = Some e \<longrightarrow> N < e) \<longrightarrow> n = fires (reloads m u) (period m u) N d \<and> expires_at N m' u = after (reloads m u) (period m u) N d)"
proof -
  obtain n where n: "on_time (reloads m u) (period m u) N d n (expires_at N m' u)" "count_list (expired m') u = count_list (expired m) u + n"
    using attended_keeps [of cb "(T, m)" a u d, OF assms(1) _ _ assms(4)] assms(2,3) by auto
  have "holder a u \<noteq> None" using assms(3) by (auto simp: expires_at_code [OF assms(2)])
  then have p: "0 < period m u" by (rule timers_okD(5) [OF assms(2)])
  have "\<forall>e. expires_at N m' u = Some e \<longrightarrow> e = d + n * period m u" using n(1) by (auto simp: on_time_def)
  then show ?thesis using on_time_bound [OF n(1) p] on_time_exact [OF n(1) p] n(2) by blast
qed

lemma timer_callbacks_on_time_witness:
  "\<exists>m m1 m2 x m3. start_timer (\<lambda>f t m. m) 8 (of_nat 0) (of_nat 0) (five_ticks blank_os 0) = Some m \<and> prvSampleTimeNow (\<lambda>f t m. m) (of_nat 17) m = Some (False, m1)
     \<and> prvGetNextExpireTime m1 = Some (x, False) \<and> prvProcessExpiredTimer (\<lambda>f t m. m) x (of_nat 17) m1 = Some m3
     \<and> count_list (expired m3) 8 = 3 \<and> expires_at 17 m3 8 = Some 20"
proof -
  let ?cb = "\<lambda>(f :: u32) (t :: u32) (m :: tmr). m"
  define f where "f = five_ticks blank_os 0"
  note five = five_ticks [of blank_os 0, folded f_def]
  note cb = idle_callback(1)
  obtain a0 where a0: "timers_ok 0 f a0" using five(1) by blast
  have h: "holder a0 8 = None" using five(2) [of 8] by (simp add: expires_at_code [OF a0])
  have p8: "(8 :: u32) \<noteq> 0" "0 < period f 8" "(0 :: nat) \<le> 0" "(0 :: nat) < 0 + wrap" by (simp_all add: five(4))
  obtain m where m: "start_timer ?cb 8 (of_nat 0) (of_nat 0) f = Some m" "reloads m = reloads f"
      "ran 0 f 8 (after (reloads f 8) (period f 8) 0 (0 + period f 8)) (fires (reloads f 8) (period f 8) 0 (0 + period f 8)) m"
    using start_step [OF cb a0 h p8] by blast
  have "after (reloads f 8) (period f 8) 0 (0 + period f 8) = Some 5" "fires (reloads f 8) (period f 8) 0 (0 + period f 8) = 0"
    by (simp_all add: five(4) after_def fires_def)
  then have m3: "ran 0 f 8 (Some 5) 0 m" using m(3) by simp
  have e: "expires_at 0 m = (expires_at 0 f)(8 := Some 5)" "expired m = []" "\<exists>a. timers_ok 0 m a" "period m = period f"
    using m3 settingsD(6) [of m f] by (simp_all add: ran_def five(6))
  obtain a where a: "timers_ok 0 m a" using e(3) by blast
  obtain m1 a1 where m1: "prvSampleTimeNow ?cb (of_nat 17) m = Some (False, m1)" "timers_ok 17 m1 a1" "\<And>u. sampled 0 m 17 m1 u"
    using sample_all [OF cb a, of 17] by auto
  have e1: "expires_at 17 m1 u = (if u = 8 then Some 5 else None)" for u using m1(3) [of u] e(1) five(2) by (simp add: sampled_def)
  have at1: "attended ?cb 8 (0, m) (17, m1)" by (rule asample [OF astart _ _ m1(1)]) simp_all
  have "holder a1 8 = Some (pxCurrentTimerList m1)"
  proof (cases "holder a1 8")
    case (Some l)
    then show ?thesis using e1(1) [of 8] by (auto simp: expires_at_code [OF m1(2)] split: if_splits)
  qed (use e1(1) [of 8] in \<open>simp add: expires_at_code [OF m1(2)]\<close>)
  then have "elems a1 (pxCurrentTimerList m1) \<noteq> []" using repD(4) [OF timers_okD(1) [OF m1(2)], of "pxCurrentTimerList m1"] by auto
  then obtain x where x: "prvGetNextExpireTime m1 = Some (x, False)"
    using current_empty(1) [OF m1(2), of "pxCurrentTimerList m1"] head_deadline [OF m1(2)]
    by (cases "elems a1 (pxCurrentTimerList m1)") (auto simp: prvGetNextExpireTime_def Let_def)
  obtain t ts d where n: "elems a1 (pxCurrentTimerList m1) = t # ts" "expires_at 17 m1 t = Some d" "x = of_nat d" using next_expiry [OF m1(2) x, of 17] by blast
  then have d: "t = 8" "d = 5" using e1(1) [of t] by (simp_all split: if_splits)
  obtain m3 where m3: "prvProcessExpiredTimer ?cb x (of_nat 17) m1 = Some m3" "ran 17 m1 8 (after (reloads m1 8) (period m1 8) 17 5) (fires (reloads m1 8) (period m1 8) 17 5) m3"
    using expired_step [OF cb m1(2) n(1,2) _ refl] unfolding n(3) d by auto
  have at3: "attended ?cb 8 (0, m) (17, m3)" by (rule aexpire [OF at1 x _ m3(1)]) (simp add: n(3) d(2))
  have pr: "period m 8 = 5" "reloads m 8" "period m1 8 = 5" "reloads m1 8" using e(4) m(2) five(4,5) m1(3) [of 8] by (simp_all add: sampled_def)
  have e3: "expires_at 17 m3 8 = Some 20" using m3(2) by (simp add: ran_def pr after_def fires_def)
  from timer_callbacks_on_time [OF cb a _ at3, of 5] obtain n where "count_list (expired m3) 8 = count_list (expired m) 8 + n"
      "(\<forall>e. expires_at 17 m3 8 = Some e \<longrightarrow> 17 < e) \<longrightarrow> n = fires (reloads m 8) (period m 8) 17 5" using e(1) by auto
  then have "count_list (expired m3) 8 = 3" using e(2) by (simp add: e3 pr fires_def)
  then show ?thesis using m(1) m1(1) x m3(1) e3 unfolding f_def by blast
qed

section \<open>Commands\<close>

text \<open>What the command \<open>x\<close>, handled at the true time \<open>N\<close>, does to its timer.\<close>

definition command_done :: "nat \<Rightarrow> DaemonTaskMessage_t \<Rightarrow> tmr \<Rightarrow> tmr \<Rightarrow> bool" where
  "command_done N x m m' \<longleftrightarrow> (let t = pxTimer x; c = count_list (expired m) t; c' = count_list (expired m') t; r = reloads m t; p = period m t in
     if xMessageID x \<in> start_commands
     then expires_at N m' t = after r p N (start_time N x + p) \<and> c' = c + fires r p N (start_time N x + p) \<and> period m' t = p \<and> flagged N m' t
     else if xMessageID x \<in> change_commands
     then expires_at N m' t = Some (N + unat (xMessageValue x)) \<and> c' = c \<and> period m' t = unat (xMessageValue x) \<and> flagged N m' t
     else expires_at N m' t = None \<and> c' = c \<and> (xMessageID x \<in> {tmrCOMMAND_STOP, tmrCOMMAND_STOP_FROM_ISR} \<longrightarrow> period m' t = p \<and> flagged N m' t))"

lemma command_done_begun:
  assumes "command_done N x m m'" and "reloads m (pxTimer x) = reloads m0 (pxTimer x)" and "period m = period m0"
    and "count_list (expired m) (pxTimer x) = count_list (expired m0) (pxTimer x)"
  shows "command_done N x m0 m'"
  using assms by (simp add: command_done_def)

lemma dispatch_exact:
  assumes cb: "tame cb" and ok: "timers_ok N m a" and out: "holder a (pxTimer x) = None" and v: "valid_command N x m"
  shows "(xMessageID x \<noteq> tmrCOMMAND_DELETE \<longrightarrow> dispatch cb x (of_nat N) m \<noteq> None)
    \<and> (\<forall>m'. dispatch cb x (of_nat N) m = Some m' \<longrightarrow> command_done N x m m')"
proof -
  define t where "t = pxTimer x"
  have t0: "t \<noteq> 0" using v by (simp add: valid_command_def t_def)
  note out = out [folded t_def] and code = dispatch_def [of cb x, unfolded start_commands_def [symmetric] change_commands_def [symmetric] t_def [symmetric]]
  have no: "expires_at N m t = None" using no_deadline [OF ok] out by blast
  consider "xMessageID x \<in> start_commands" | "xMessageID x \<notin> start_commands" "xMessageID x \<in> {tmrCOMMAND_STOP, tmrCOMMAND_STOP_FROM_ISR}"
    | "xMessageID x \<in> change_commands" | "xMessageID x \<notin> start_commands" "xMessageID x \<notin> {tmrCOMMAND_STOP, tmrCOMMAND_STOP_FROM_ISR}" "xMessageID x \<notin> change_commands"
    by blast
  then show ?thesis
  proof cases
    case 1
    note st = start_time [OF v 1, folded t_def]
    obtain m' where m': "start_timer cb t (of_nat (start_time N x)) (of_nat N) m = Some m'" "flagged N m' t"
        "ran N m t (after (reloads m t) (period m t) N (start_time N x + period m t)) (fires (reloads m t) (period m t) N (start_time N x + period m t)) m'"
      using start_step [OF cb ok out t0 st(4,1,2)] by blast
    have "period m' = period m" using m'(3) settingsD(6) [of m' m] by (simp add: ran_def)
    then have "command_done N x m m'" using 1 m'(2,3) by (simp add: command_done_def t_def [symmetric] ran_def Let_def)
    then show ?thesis using m'(1) 1 unfolding code st(3) by simp
  next
    case 2
    then have c: "xMessageID x \<notin> change_commands"
      by (auto simp: change_commands_def tmrCOMMAND_STOP_def tmrCOMMAND_STOP_FROM_ISR_def tmrCOMMAND_CHANGE_PERIOD_def tmrCOMMAND_CHANGE_PERIOD_FROM_ISR_def)
    define m' where "m' = clear_status tmrSTATUS_IS_ACTIVE t m"
    have k: "expires_at N m' = expires_at N m" "period m' = period m" using settings_view(2) [of m' m N] settingsD(6) [of m' m] by (simp_all add: m'_def)
    have "flagged N m' t" using status_bits(3) by (simp add: flagged_def k(1) no) (simp add: m'_def clear_status_code)
    then have "command_done N x m m'" using 2 c k no by (simp add: command_done_def t_def [symmetric] Let_def) (simp add: m'_def)
    then show ?thesis using 2 unfolding code m'_def by simp
  next
    case 3
    then have n: "xMessageID x \<notin> start_commands" "xMessageID x \<notin> {tmrCOMMAND_STOP, tmrCOMMAND_STOP_FROM_ISR}"
      by (auto simp: change_commands_def start_commands_def tmrCOMMAND_STOP_def tmrCOMMAND_STOP_FROM_ISR_def tmrCOMMAND_CHANGE_PERIOD_def
          tmrCOMMAND_CHANGE_PERIOD_FROM_ISR_def tmrCOMMAND_START_def tmrCOMMAND_START_FROM_ISR_def tmrCOMMAND_RESET_def tmrCOMMAND_RESET_FROM_ISR_def)
    have "xMessageValue x \<noteq> 0" using v 3 by (simp add: valid_command_def)
    from change_step [OF ok out t0 this] obtain m' where m': "change_period t (xMessageValue x) (of_nat N) m = Some m'"
        "expires_at N m' = (expires_at N m)(t := Some (N + unat (xMessageValue x)))" "period m' = (period m)(t := unat (xMessageValue x))"
        "expired m' = expired m" "flagged N m' t" by blast
    have "command_done N x m m'" using 3 n m'(2-5) by (simp add: command_done_def t_def [symmetric] Let_def)
    then show ?thesis using m'(1) 3 n unfolding code by simp
  next
    case 4
    have "command_done N x m m'" if "dispatch cb x (of_nat N) m = Some m'" for m'
    proof -
      have "delete_timer t m = Some m' \<or> m' = m"
        using that 4 unfolding code by (cases "xMessageID x = tmrCOMMAND_DELETE") (simp_all only: if_True if_False option.inject simp_thms)
      moreover have "settings (m\<lparr>rtos := s\<rparr>) = settings m" for s by (simp add: settings_def)
      ultimately have "active m' = active m \<and> settings m' = settings m \<and> expired m' = expired m"
        by (cases "and (ucStatus (timer m t)) tmrSTATUS_IS_STATICALLY_ALLOCATED = 0") (auto simp: delete_timer_def on_rtos_def)
      then have "expires_at N m' = expires_at N m" "expired m' = expired m" using settings_view(2) [of m' m N] by simp_all
      then show ?thesis using 4 no by (simp add: command_done_def t_def [symmetric] Let_def)
    qed
    then show ?thesis using 4 unfolding code by simp
  qed
qed

text \<open>
  C16: A command is carried out exactly. Handled at the true time \<open>N\<close>, less than a wrap after the last sample, a
  start or reset puts the timer's deadline one period after the tick of the call, and when that has
  passed already, however late and across a wrap, the callback runs once for every period since and the deadline is the next one
  (none for a one-shot timer); a change of the period sets the deadline one new period
  from now; stop and delete take the deadline away; the active flag says afterwards whether there is one. Every other timer
  sees no more than the sample of the tick counter, the lists stay in order and no assertion fails (deletion
  may fail only in freeing the timer's memory). The commands are those the interface sends.
\<close>

theorem timer_commands_exact:
  assumes "tame cb" and "timers_ok T m a" and "T \<le> N" and "N < T + wrap" and "xTickCount (kern (rtos m)) = of_nat N" and "valid_command N x m"
  shows "(xMessageID x \<noteq> tmrCOMMAND_DELETE \<longrightarrow> process_command cb x m \<noteq> None)
    \<and> (\<forall>m'. process_command cb x m = Some m' \<longrightarrow> command_done N x m m' \<and> (\<exists>a'. timers_ok N m' a') \<and> (\<forall>u. u \<noteq> pxTimer x \<longrightarrow> sampled T m N m' u))"
proof -
  obtain m1 m2 a2 b where b: "take_out (pxTimer x) m = Some m1" "rtos m1 = rtos m" "prvSampleTimeNow cb (of_nat N) m1 = Some (b, m2)" "timers_ok N m2 a2"
      "holder a2 (pxTimer x) = None" "period m2 = period m" "reloads m2 (pxTimer x) = reloads m (pxTimer x)"
      "count_list (expired m2) (pxTimer x) = count_list (expired m) (pxTimer x)"
    using command_begins [OF assms(1-4), of "pxTimer x"] by metis
  have "0 \<le> sint (xMessageID x)" using assms(6) by (simp add: valid_command_def)
  then have d: "process_command cb x m = dispatch cb x (of_nat N) m2" using b(1-3) by (simp add: process_command_def assms(5))
  have "valid_command N x m2" using assms(6) b(6) by (simp add: valid_command_def)
  from dispatch_exact [OF assms(1) b(4,5) this] show ?thesis
    using command_step [OF assms] command_done_begun [OF _ b(7,6,8)] unfolding d by blast
qed

lemma timer_commands_exact_witness:
  "\<exists>m. process_command (\<lambda>f t m. m) \<lparr>xMessageID = tmrCOMMAND_START, xMessageValue = 0, pxTimer = 8\<rparr> (five_ticks blank_os 0) = Some m
     \<and> expires_at 0 m 8 = Some 5 \<and> xTimerIsTimerActive 8 m = Some True"
proof -
  define f where "f = five_ticks blank_os 0"
  note five = five_ticks [of blank_os 0, folded f_def]
  define x where "x = \<lparr>xMessageID = tmrCOMMAND_START, xMessageValue = 0, pxTimer = 8\<rparr>"
  obtain a where a: "timers_ok 0 f a" using five(1) by blast
  have v: "valid_command 0 x f" by (simp add: valid_command_def x_def five(4) tmrCOMMAND_START_def start_commands_def change_commands_def
        tmrCOMMAND_CHANGE_PERIOD_def tmrCOMMAND_CHANGE_PERIOD_FROM_ISR_def)
  have tick: "xTickCount (kern (rtos f)) = of_nat 0" by (simp add: five(7) blank_os_def blank_def)
  have nd: "xMessageID x \<noteq> tmrCOMMAND_DELETE" by (simp add: x_def tmrCOMMAND_START_def tmrCOMMAND_DELETE_def)
  obtain m where m: "process_command (\<lambda>f t m. m) x f = Some m" "command_done 0 x f m"
    using timer_commands_exact [OF idle_callback(1) a order_refl _ tick v] nd by auto
  have "start_time 0 x = 0" by (simp add: start_time_def)
  then have "expires_at 0 m 8 = Some 5 \<and> flagged 0 m 8"
    using m(2) by (simp add: command_done_def x_def start_commands_def five(4,5) after_def fires_def Let_def)
  then show ?thesis using m(1) unfolding x_def f_def by (simp add: flagged_def xTimerIsTimerActive_def)
qed

section \<open>The daemon\<close>

lemma waits_concretely:
  assumes "daemon_waits T idle G Q q t N m"
  shows "(\<forall>v d. expires_at N m v = Some d \<longrightarrow> N < d)
    \<and> ((\<exists>p. container (StateItem t) (kern (rtos m)) = Some (Ready p)) \<or> contents q (rtos m) = []
      \<and> (if \<forall>v. expires_at N m v = None then container (StateItem t) (kern (rtos m)) = Some SuspendedTaskList
         else \<exists>D. N < D \<and> (\<forall>v d. expires_at N m v = Some d \<longrightarrow> D \<le> d) \<and> value_of (StateItem t) (kern (rtos m)) = of_nat D
           \<and> container (StateItem t) (kern (rtos m)) = Some (if xTickCount (kern (rtos m)) < of_nat D
               then pxDelayedTaskList (kern (rtos m)) else pxOverflowDelayedTaskList (kern (rtos m)))))"
proof -
  obtain a bs where w: "\<forall>v d. expires_at N m v = Some d \<longrightarrow> N < d" "os_sys T idle G (Q, rtos m) a bs"
      "is_ready a t \<or> contents q (rtos m) = [] \<and> (if \<forall>v. expires_at N m v = None then holder a (StateItem t) = Some SuspendedTaskList
          else \<exists>D. asleep_until t False (of_nat D) a \<and> N < D \<and> (\<forall>v d. expires_at N m v = Some d \<longrightarrow> D \<le> d))"
    using assms unfolding daemon_waits_def by blast
  note core = kernel_coreD [OF os_coreD(1) [OF os_sysD(1) [OF w(2)]]]
  have c: "container i (kern (rtos m)) = holder a i" "value_of i (kern (rtos m)) = itemval a i" for i
    using rep_item [OF kernel_baseD(1) [OF core(2)]] by (simp_all add: container_def value_of_def)
  have side: "holder a (StateItem t) = Some (if xTickCount (kern (rtos m)) < v then pxDelayedTaskList (kern (rtos m)) else pxOverflowDelayedTaskList (kern (rtos m)))
      \<and> itemval a (StateItem t) = v" if "asleep_until t False v a" for v
    using that core(3) unfolding asleep_until_def times_ok_def delayed_sleeping(4) [OF core(2)] by (auto simp: not_less_iff_gr_or_eq)
  show ?thesis
  proof (cases "is_ready a t")
    case True
    then show ?thesis using w(1) by (auto simp: c is_ready_def)
  next
    case False
    then show ?thesis using w(1,3) side by (auto simp: c split: if_splits)
  qed
qed

text \<open>
  C8: The timer task never sleeps past a deadline. In any state reached by the tasks and interrupts from
  power on, when the task runs \<open>prvProcessTimerOrBlockTask\<close> with what \<open>prvGetNextExpireTime\<close> gave it at an earlier
  tick, less than a wrap ago, whatever interrupts come inside the call, it returns; the timers
  are served as far as a run of the daemon may (so every callback stays on time). If it has given up the processor, no timer is
  overdue, and the task is ready again or its command queue is empty and it sleeps: without limit when no timer is
  active, else in the delayed list of the right side of the tick counter's wrap until a tick that is later than now
  and no later than the deadline of any timer. Callbacks may use the kernel, but wake the task up to nothing else
  and do not suspend it.
\<close>

theorem timer_task_sleeps_until_next_deadline:
  assumes "power_on ts s0" and "idle \<in> fst ` set ts" and "booted ts s0 = Some s1" and "qreach (fst ` set ts) idle ({}, s1) (Q, rtos m)"
    and "\<not> swi (kern (rtos m))" and "uxSchedulerSuspended (kern (rtos m)) = 0" and "pxCurrentTCB (kern (rtos m)) \<noteq> idle"
    and "xTimerQueue m \<in> Q" and "list_empty (xTasksWaitingToReceive (xTimerQueue m)) (kern (rtos m))"
    and "tame cb" and "polite (fst ` set ts) idle {} Q (xTimerQueue m) (pxCurrentTCB (kern (rtos m))) cb"
    and "timers_ok T m a" and "soon T m" and "prvGetNextExpireTime m = Some (x, e)"
    and "T \<le> N" and "N < T + wrap" and "xTickCount (kern (rtos m)) = of_nat N"
    and "env n = during Q is0" and "env (n + 1) = during Q is1" and "env (n + 2) = during Q is2"
  shows "\<exists>b m'. prvProcessTimerOrBlockTask cb env n x e m = Some (b, m') \<and> (\<forall>u. attended cb u (T, m) (N, m')) \<and> (\<exists>a'. timers_ok N m' a') \<and> soon N m'
    \<and> uxSchedulerSuspended (kern (rtos m')) = 0 \<and> (b \<longleftrightarrow> T div wrap = N div wrap \<and> (e \<or> of_nat N < x))
    \<and> (b \<longrightarrow> (\<forall>u d. expires_at N m' u = Some d \<longrightarrow> N < d)
       \<and> (let t = pxCurrentTCB (kern (rtos m)); k = kern (rtos m') in
           (\<exists>p. container (StateItem t) k = Some (Ready p)) \<or> contents (xTimerQueue m) (rtos m') = []
           \<and> (if \<forall>u. expires_at N m' u = None then container (StateItem t) k = Some SuspendedTaskList
              else \<exists>D. N < D \<and> (\<forall>u d. expires_at N m' u = Some d \<longrightarrow> D \<le> d) \<and> value_of (StateItem t) k = of_nat D
                \<and> container (StateItem t) k = Some (if xTickCount k < of_nat D then pxDelayedTaskList k else pxOverflowDelayedTaskList k))))"
proof -
  define t q where "t = pxCurrentTCB (kern (rtos m))" and "q = xTimerQueue m"
  obtain a' bs where sys: "os_sys (fst ` set ts) idle {} (Q, rtos m) a' bs" using reachable_sys [OF assms(1-4)] by blast
  note os = os_sysD [OF sys]
  have "elems a' (EventList (q + 36)) = []" using waiters_list [OF sys assms(8)] assms(9) by (simp add: q_def)
  then have "container (EventItem u) (kern (rtos m)) \<noteq> Some (EventList (q + 36))" for u
    using container_holder [OF kernel_coreD(2) [OF os_coreD(1) [OF os(1)]]] repD(4) [OF kernel_baseD(1) [OF kernel_coreD(2) [OF os_coreD(1) [OF os(1)]]], of "EventList (q + 36)"]
      assms(8) by (auto simp: lists_of_def q_def)
  then have aw: "at_work (fst ` set ts) idle {} Q q t (rtos m)" using sys os(3) assms(5) unfolding at_work_def t_def by blast
  have sep: "separate Q q" using stored_separate [OF os(4) assms(8)] by (simp add: q_def)
  have e2: "env (n + 1 + 1) = during Q is2" using assms(20) by simp
  note st = block_step [OF assms(10,11) [folded t_def q_def] assms(12,13) aw assms(6,7) [folded t_def] assms(8) [folded q_def] sep q_def [symmetric] assms(14-19) e2]
  obtain b m' where r: "prvProcessTimerOrBlockTask cb env n x e m = Some (b, m')" "\<exists>a'. timers_ok N m' a'" "soon N m'"
      "uxSchedulerSuspended (kern (rtos m')) = 0" "b \<longleftrightarrow> T div wrap = N div wrap \<and> (e \<or> of_nat N < x)" 
      "if b then daemon_waits (fst ` set ts) idle {} Q q t N m' else at_work (fst ` set ts) idle {} Q q t (rtos m')"
    using st [of 0] by blast
  have "attended cb u (T, m) (N, m')" for u using st [of u] r(1) by auto
  moreover have "daemon_waits (fst ` set ts) idle {} Q q t N m'" if b using r(6) that by simp
  note this [THEN waits_concretely, unfolded t_def q_def]
  ultimately show ?thesis using r(1-5) unfolding Let_def by blast
qed

lemma timer_task_sleeps_until_next_deadline_witness:
  "\<exists>s1 q s2 m. booted two_tasks blank_os = Some s1 \<and> qreach {1, 2} 1 ({}, s1) ({q}, s2)
     \<and> view {q} s2 q = Some \<lparr>cap = unat configTIMER_QUEUE_LENGTH, width = unat sizeof_DaemonTaskMessage_t, held = []\<rparr>
     \<and> prvProcessTimerOrBlockTask (\<lambda>f t m. m) (\<lambda>n. during {q} [TickInt]) 0 0 True (five_ticks s2 q) = Some (True, m)
     \<and> ((\<exists>p. container (StateItem 2) (kern (rtos m)) = Some (Ready p)) \<or> contents q (rtos m) = [])"
proof -
  have "\<exists>s1 q s2. booted two_tasks blank_os = Some s1 \<and> qreach {1, 2} 1 ({}, s1) ({q}, s2)
     \<and> view {q} s2 q = Some \<lparr>cap = unat configTIMER_QUEUE_LENGTH, width = unat sizeof_DaemonTaskMessage_t, held = []\<rparr>
     \<and> pxCurrentTCB (kern s2) = 2 \<and> \<not> swi (kern s2) \<and> uxSchedulerSuspended (kern s2) = 0
     \<and> list_empty (xTasksWaitingToReceive q) (kern s2) \<and> queue s2 q = new_queue q configTIMER_QUEUE_LENGTH sizeof_DaemonTaskMessage_t"
    by (rule created_queue) (simp_all add: configTIMER_QUEUE_LENGTH_def sizeof_DaemonTaskMessage_t_def creatable_queue_def SIZE_MAX_def sizeof_Queue_t_def request_def)
  then obtain s1 q s2 where r: "booted two_tasks blank_os = Some s1" "qreach {1, 2} 1 ({}, s1) ({q}, s2)" "pxCurrentTCB (kern s2) = 2" "\<not> swi (kern s2)"
      "uxSchedulerSuspended (kern s2) = 0" "list_empty (xTasksWaitingToReceive q) (kern s2)"
      "view {q} s2 q = Some \<lparr>cap = unat configTIMER_QUEUE_LENGTH, width = unat sizeof_DaemonTaskMessage_t, held = []\<rparr>" by blast
  define m where "m = five_ticks s2 q"
  note five = five_ticks [of s2 q, folded m_def]
  obtain a where a: "timers_ok 0 m a" using five(1) by blast
  define N where "N = unat (xTickCount (kern s2))"
  have N: "0 \<le> N" "N < 0 + wrap" "xTickCount (kern (rtos m)) = of_nat N" using unat_lt_u32 [of "xTickCount (kern s2)"] by (simp_all add: N_def five(7))
  have re: "qreach (fst ` set two_tasks) 1 ({}, s1) ({q}, rtos m)" "1 \<in> fst ` set two_tasks" using r(2) by (simp_all add: two_members five(7))
  have st: "\<not> swi (kern (rtos m))" "uxSchedulerSuspended (kern (rtos m)) = 0" "pxCurrentTCB (kern (rtos m)) \<noteq> 1" "xTimerQueue m \<in> {q}"
      "list_empty (xTasksWaitingToReceive (xTimerQueue m)) (kern (rtos m))"
    using r(3-6) by (simp_all add: five(7,8))
  have x: "prvGetNextExpireTime m = Some (0, True)"
    by (simp add: prvGetNextExpireTime_def m_def five_ticks_def lists_fresh_def listLIST_IS_EMPTY_def vListInitialise_def upd_lst_def)
  obtain b m' where res: "prvProcessTimerOrBlockTask (\<lambda>f t m. m) (\<lambda>n. during {q} [TickInt]) 0 0 True m = Some (b, m')"
      "b \<longleftrightarrow> 0 div wrap = N div wrap \<and> (True \<or> of_nat N < (0 :: u32))"
      "b \<longrightarrow> (\<exists>p. container (StateItem (pxCurrentTCB (kern (rtos m)))) (kern (rtos m')) = Some (Ready p)) \<or> contents (xTimerQueue m) (rtos m') = []"
    using timer_task_sleeps_until_next_deadline [where n = 0 and env = "\<lambda>n. during {q} [TickInt]", OF blank_os_power_on re(2) r(1) re(1) st idle_callback a five(3) x N refl refl refl]
    unfolding Let_def by - (elim exE conjE, rule that, assumption, assumption, fast)
  have b: "b" using res(2) N(2) by simp
  have "(\<exists>p. container (StateItem 2) (kern (rtos m')) = Some (Ready p)) \<or> contents q (rtos m') = []" using res(3) b r(3) by (simp add: five(7,8))
  then show ?thesis using r(1,2,7) res(1) b unfolding m_def by (intro exI [of _ s1] exI [of _ q] exI [of _ s2] exI [of _ m']) simp
qed

end
