(* ===== verification/SwTimers.thy ===== *)
theory SwTimers
  imports Prelude
begin

text \<open>
  The software timers of \<open>src/src/SYS_Timers/swTimers.c\<close>: a singly linked list of timers ordered by
  expiry, each holding the time left after its predecessor expires. The code on pointers is followed
  by the list of (timer, delta) pairs it represents, and by the deadline of each timer, on which the
  operations have a simple meaning.
\<close>

section \<open>The code\<close>

datatype swTimerMode_t = ONESHOT | PERIODIC

text \<open>The fields \<open>next\<close> (here \<open>next_timer\<close>) and \<open>timeout\<close> are private to the module; \<open>cb\<close> is a code address, 0 for none.\<close>

record swTimer_t =
  next_timer :: u32
  timeout :: u32
  interval :: u32
  mode :: swTimerMode_t
  cb :: u32

text \<open>
  The statics \<open>sTimers\<close> and \<open>oldTime\<close>, and the timers by address. Address 0 is the null pointer.
\<close>

record sw =
  tmr :: "u32 \<Rightarrow> swTimer_t"
  sTimers :: u32
  oldTime :: u32

definition upd_tmr :: "u32 \<Rightarrow> (swTimer_t \<Rightarrow> swTimer_t) \<Rightarrow> sw \<Rightarrow> sw" where
  "upd_tmr p f s = s\<lparr>tmr := (tmr s)(p := f (tmr s p))\<rparr>"

abbreviation set_next :: "u32 \<Rightarrow> u32 \<Rightarrow> sw \<Rightarrow> sw" where
  "set_next p q \<equiv> upd_tmr p (\<lambda>t. t\<lparr>next_timer := q\<rparr>)"

abbreviation set_timeout :: "u32 \<Rightarrow> u32 \<Rightarrow> sw \<Rightarrow> sw" where
  "set_timeout p d \<equiv> upd_tmr p (\<lambda>t. t\<lparr>timeout := d\<rparr>)"

text \<open>The search of \<open>placeTimer\<close>: the predecessor, the time left after it, the store.\<close>

partial_function (option) place_loop :: "u32 \<Rightarrow> u32 \<Rightarrow> u32 \<Rightarrow> sw \<Rightarrow> (u32 \<times> u32 \<times> sw) option" where
  "place_loop prev d t s =
     (if t \<noteq> 0
      then if d < timeout (tmr s t)
           then Some (prev, d, set_timeout t (timeout (tmr s t) - d) s)
           else place_loop t (d - timeout (tmr s t)) (next_timer (tmr s t)) s
      else Some (prev, d, s))"

definition placeTimer :: "u32 \<Rightarrow> sw \<Rightarrow> sw option" where
  "placeTimer timer s =
     (if sTimers s \<noteq> 0
      then do {
        (prev, d, s) \<leftarrow> place_loop 0 (interval (tmr s timer)) (sTimers s) s;
        let s = set_timeout timer d s;
        Some (if prev \<noteq> 0
              then (let s = set_next timer (next_timer (tmr s prev)) s in set_next prev timer s)
              else (let s = set_next timer (sTimers s) s in s\<lparr>sTimers := timer\<rparr>))
      }
      else (let s = set_next timer 0 s;
                s = set_timeout timer (interval (tmr s timer)) s
            in Some (s\<lparr>sTimers := timer\<rparr>)))"

partial_function (option) started_loop :: "u32 \<Rightarrow> u32 \<Rightarrow> sw \<Rightarrow> bool option" where
  "started_loop timer t s =
     (if t \<noteq> 0 then if t = timer then Some True else started_loop timer (next_timer (tmr s t)) s
      else Some False)"

definition swTimerStarted :: "u32 \<Rightarrow> sw \<Rightarrow> bool option" where
  "swTimerStarted timer s = started_loop timer (sTimers s) s"

definition swTimerStart :: "u32 \<Rightarrow> sw \<Rightarrow> sw option" where
  "swTimerStart timer s = do {
     b \<leftarrow> swTimerStarted timer s;
     (if \<not> b then placeTimer timer s else Some s)
   }"

partial_function (option) stop_loop :: "u32 \<Rightarrow> u32 \<Rightarrow> u32 \<Rightarrow> sw \<Rightarrow> sw option" where
  "stop_loop timer prev t s =
     (if t \<noteq> 0
      then if t = timer
           then (let s = (if prev \<noteq> 0 then set_next prev (next_timer (tmr s t)) s
                          else s\<lparr>sTimers := next_timer (tmr s t)\<rparr>);
                     n = next_timer (tmr s t)
                 in Some (if n \<noteq> 0 then set_timeout n (timeout (tmr s n) + timeout (tmr s timer)) s else s))
           else stop_loop timer t (next_timer (tmr s t)) s
      else Some s)"

definition swTimerStop :: "u32 \<Rightarrow> sw \<Rightarrow> sw option" where
  "swTimerStop timer s = stop_loop timer 0 (sTimers s) s"

text \<open>
  The expiry loop of \<open>swTimerTaskHandler\<close>. The callbacks are the application's: \<open>run_cb c t\<close> is what
  calling the code at address \<open>c\<close> with timer \<open>t\<close> does to the timers and to the rest \<open>'w\<close> of the world.
\<close>

partial_function (option) expire_loop ::
  "(u32 \<Rightarrow> u32 \<Rightarrow> sw \<times> 'w \<Rightarrow> (sw \<times> 'w) option) \<Rightarrow> u32 \<Rightarrow> sw \<times> 'w \<Rightarrow> (u32 \<times> sw \<times> 'w) option" where
  "expire_loop run_cb elapsed sw =
     (let s = fst sw in
      if sTimers s \<noteq> 0 \<and> timeout (tmr s (sTimers s)) \<le> elapsed
      then do {
        let timer = sTimers s;
        let elapsed = elapsed - timeout (tmr s (sTimers s));
        let s = s\<lparr>sTimers := next_timer (tmr s (sTimers s))\<rparr>;
        s \<leftarrow> (if mode (tmr s timer) = PERIODIC then placeTimer timer s else Some s);
        sw \<leftarrow> (if cb (tmr s timer) \<noteq> 0 then run_cb (cb (tmr s timer)) timer (s, snd sw)
               else Some (s, snd sw));
        expire_loop run_cb elapsed sw
      }
      else Some (elapsed, sw))"

text \<open>\<open>now1\<close> and \<open>now2\<close> are what the two calls of \<open>millis\<close> return.\<close>

definition swTimerTaskHandler ::
  "(u32 \<Rightarrow> u32 \<Rightarrow> sw \<times> 'w \<Rightarrow> (sw \<times> 'w) option) \<Rightarrow> u32 \<Rightarrow> u32 \<Rightarrow> sw \<times> 'w \<Rightarrow> (sw \<times> 'w) option" where
  "swTimerTaskHandler run_cb now1 now2 sw =
     (let (s, w) = sw in
      if sTimers s \<noteq> 0
      then (let elapsed = now1 - oldTime s in
            if elapsed \<noteq> 0
            then do {
              let s = s\<lparr>oldTime := now2\<rparr>;
              (elapsed, s, w) \<leftarrow> expire_loop run_cb elapsed (s, w);
              Some (if sTimers s \<noteq> 0
                    then (set_timeout (sTimers s) (timeout (tmr s (sTimers s)) - elapsed) s, w)
                    else (s, w))
            }
            else Some (s, w))
      else Some (s, w))"

text \<open>\<open>swTimer\<close> creates and starts a timer in the block \<open>p\<close> that \<open>malloc\<close> returned, 0 when it failed.\<close>

definition swTimer :: "u32 \<Rightarrow> u32 \<Rightarrow> swTimerMode_t \<Rightarrow> u32 \<Rightarrow> sw \<Rightarrow> (u32 \<times> sw) option" where
  "swTimer p i m c s =
     (if p \<noteq> 0
      then do {
        let s = upd_tmr p (\<lambda>_. \<lparr>next_timer = 0, timeout = 0, interval = i, mode = m, cb = c\<rparr>) s;
        s \<leftarrow> swTimerStart p s;
        Some (p, s)
      }
      else Some (p, s))"

section \<open>The list of deltas\<close>

text \<open>\<open>linked s p xs\<close>: from \<open>p\<close> on, the store links the timers \<open>xs\<close> with these timeouts.\<close>

fun linked :: "sw \<Rightarrow> u32 \<Rightarrow> (u32 \<times> u32) list \<Rightarrow> bool" where
  "linked s p [] \<longleftrightarrow> p = 0"
| "linked s p ((q, d) # xs) \<longleftrightarrow> p = q \<and> q \<noteq> 0 \<and> timeout (tmr s q) = d \<and> linked s (next_timer (tmr s q)) xs"

text \<open>The represented list: distinct timers, and a total that does not wrap.\<close>

definition timers :: "sw \<Rightarrow> (u32 \<times> u32) list \<Rightarrow> bool" where
  "timers s xs \<longleftrightarrow> linked s (sTimers s) xs \<and> distinct (map fst xs)
     \<and> sum_list (map (unat \<circ> snd) xs) < 2 ^ 32"

fun place :: "u32 \<Rightarrow> u32 \<Rightarrow> (u32 \<times> u32) list \<Rightarrow> (u32 \<times> u32) list" where
  "place p d [] = [(p, d)]"
| "place p d ((q, e) # xs) = (if d < e then (p, d) # (q, e - d) # xs else (q, e) # place p (d - e) xs)"

fun unplace :: "u32 \<Rightarrow> (u32 \<times> u32) list \<Rightarrow> (u32 \<times> u32) list" where
  "unplace p [] = []"
| "unplace p ((q, e) # xs) =
     (if q = p then (case xs of [] \<Rightarrow> [] | (r, f) # ys \<Rightarrow> (r, f + e) # ys) else (q, e) # unplace p xs)"

text \<open>The time until a timer expires.\<close>

fun deadline :: "(u32 \<times> u32) list \<Rightarrow> u32 \<Rightarrow> nat option" where
  "deadline [] p = None"
| "deadline ((q, e) # xs) p = (if q = p then Some (unat e) else map_option (\<lambda>n. unat e + n) (deadline xs p))"

abbreviation total :: "(u32 \<times> u32) list \<Rightarrow> nat" where
  "total xs \<equiv> sum_list (map (unat \<circ> snd) xs)"

lemma upd_tmr_simps [simp]:
  "tmr (upd_tmr p f s) = (tmr s)(p := f (tmr s p))" "sTimers (upd_tmr p f s) = sTimers s"
  "oldTime (upd_tmr p f s) = oldTime s"
  by (simp_all add: upd_tmr_def)

lemma linked_cong:
  assumes "\<And>q. q \<in> fst ` set xs \<Longrightarrow> next_timer (tmr s' q) = next_timer (tmr s q) \<and> timeout (tmr s' q) = timeout (tmr s q)"
  shows "linked s' p xs = linked s p xs"
  using assms by (induction xs arbitrary: p) auto

lemma linked_unique: "linked s p xs \<Longrightarrow> linked s p ys \<Longrightarrow> xs = ys"
proof (induction xs arbitrary: p ys)
  case Nil
  then show ?case by (cases ys) auto
next
  case (Cons x xs)
  then show ?case by (cases x; cases ys) auto
qed

lemma fst_place: "fst ` set (place p d xs) = insert p (fst ` set xs)"
  by (induction p d xs rule: place.induct) auto

lemma distinct_place: "distinct (map fst xs) \<Longrightarrow> p \<notin> fst ` set xs \<Longrightarrow> distinct (map fst (place p d xs))"
proof (induction p d xs rule: place.induct)
  case (2 p d q e xs)
  then show ?case using fst_place [of p "d - e" xs] by (auto simp: image_iff)
qed simp

lemma total_place: "total (place p d xs) = max (total xs) (unat d)"
proof (induction p d xs rule: place.induct)
  case (2 p d q e xs)
  show ?case
  proof (cases "d < e")
    case True
    note u = u32_less_split [OF True]
    show ?thesis using True u by simp
  next
    case False
    note u = u32_ge_split [OF False]
    show ?thesis using False u 2 by simp
  qed
qed simp

lemma deadline_None: "deadline xs p = None \<longleftrightarrow> p \<notin> fst ` set xs"
  by (induction xs p rule: deadline.induct) auto

lemma deadline_place:
  "p \<notin> fst ` set xs \<Longrightarrow> deadline (place p d xs) q = (if q = p then Some (unat d) else deadline xs q)"
proof (induction p d xs rule: place.induct)
  case (2 p d r e xs)
  show ?case
  proof (cases "d < e")
    case True
    note u = u32_less_split [OF True]
    show ?thesis using True u 2(2) by (auto simp: option.map_comp o_def)
  next
    case False
    note u = u32_ge_split [OF False]
    show ?thesis using False u 2 by auto
  qed
qed simp

lemma map_fst_unplace: "distinct (map fst xs) \<Longrightarrow> map fst (unplace p xs) = filter (\<lambda>q. q \<noteq> p) (map fst xs)"
proof (induction p xs rule: unplace.induct)
  case (2 p q e xs)
  show ?case
  proof (cases "q = p")
    case True
    have "map fst (unplace p ((q, e) # xs)) = map fst xs" using True by (cases xs) auto
    then show ?thesis using 2(2) True filter_neq_id [of p "map fst xs"] by simp
  qed (use 2 in auto)
qed simp

lemma fst_unplace: "distinct (map fst xs) \<Longrightarrow> fst ` set (unplace p xs) = fst ` set xs - {p}"
  using arg_cong [OF map_fst_unplace, of xs set p] by auto

lemma distinct_unplace: "distinct (map fst xs) \<Longrightarrow> distinct (map fst (unplace p xs))"
  by (simp only: map_fst_unplace distinct_filter)

lemma deadline_unplace:
  assumes "distinct (map fst xs)" and "total xs < 2 ^ 32"
  shows "deadline (unplace p xs) q = (if q = p then None else deadline xs q)"
  using assms
proof (induction p xs rule: unplace.induct)
  case (2 p r e xs)
  show ?case
  proof (cases "r = p")
    case True
    show ?thesis
    proof (cases xs)
      case (Cons x ys)
      obtain c f where x: "x = (c, f)" by (cases x)
      have f: "unat (f + e) = unat f + unat e" using 2(3) Cons x by (intro unat_add_u32) simp
      have "q = p \<Longrightarrow> deadline ys q = None" "c \<noteq> p" using 2(2) Cons x True by (auto simp: deadline_None)
      then show ?thesis using True Cons x f by (cases "deadline ys q") auto
    qed (use True in simp)
  next
    case False
    then show ?thesis using 2 by auto
  qed
qed simp

lemma total_unplace: "total xs < 2 ^ 32 \<Longrightarrow> total (unplace p xs) \<le> total xs"
proof (induction p xs rule: unplace.induct)
  case (2 p q e xs)
  show ?case
  proof (cases xs)
    case (Cons x ys)
    obtain c f where x: "x = (c, f)" by (cases x)
    have f: "unat (f + e) = unat f + unat e" using 2(2) Cons x by (intro unat_add_u32) simp
    show ?thesis using 2 Cons x f by auto
  qed simp
qed simp

section \<open>The code on the list\<close>

fun path :: "(u32 \<Rightarrow> u32) \<Rightarrow> u32 \<Rightarrow> u32 list \<Rightarrow> bool" where
  "path f p [] \<longleftrightarrow> p = 0"
| "path f p (q # qs) \<longleftrightarrow> p = q \<and> q \<noteq> 0 \<and> path f (f q) qs"

abbreviation nexts :: "sw \<Rightarrow> u32 \<Rightarrow> u32" where
  "nexts s \<equiv> \<lambda>q. next_timer (tmr s q)"

lemma linked_path:
  "linked s p xs \<longleftrightarrow> path (nexts s) p (map fst xs) \<and> (\<forall>(q, e) \<in> set xs. timeout (tmr s q) = e)"
  by (induction xs arbitrary: p) auto

lemma path_cong: "(\<And>q. q \<in> set qs \<Longrightarrow> f q = g q) \<Longrightarrow> path f p qs = path g p qs"
  by (induction qs arbitrary: p) auto

lemma path_nonzero: "path f p qs \<Longrightarrow> 0 \<notin> set qs"
  by (induction qs arbitrary: p) auto

lemma path_append_first: "path f h (ys @ q # zs) \<Longrightarrow> path f q (q # zs)"
  by (induction ys arbitrary: h) auto

text \<open>Linking \<open>p\<close> in after the last of \<open>ys\<close>, and unlinking it.\<close>

lemma path_insert:
  assumes "path f h (ys @ zs)" and "distinct (ys @ zs)" and "p \<noteq> 0" and "ys \<noteq> []"
    and "g (last ys) = p" and "g p = f (last ys)"
    and "\<And>q. q \<in> set (ys @ zs) \<Longrightarrow> q \<noteq> last ys \<Longrightarrow> g q = f q"
  shows "path g h (ys @ p # zs)"
  using assms
proof (induction ys arbitrary: h)
  case (Cons y ys)
  show ?case
  proof (cases "ys = []")
    case True
    have "path g (f y) zs = path f (f y) zs"
      by (rule path_cong) (use Cons.prems True in auto)
    then show ?thesis using Cons.prems True by simp
  next
    case False
    have "path g (f y) (ys @ p # zs)"
      by (rule Cons.IH) (use Cons.prems False in auto)
    moreover have "y \<noteq> last ys" using Cons.prems(2) last_in_set [OF False] by auto
    ultimately show ?thesis using Cons.prems False by auto
  qed
qed simp

lemma path_remove:
  assumes "path f h (ys @ p # zs)" and "distinct (ys @ p # zs)" and "ys \<noteq> []"
    and "g (last ys) = f p" and "\<And>q. q \<in> set (ys @ zs) \<Longrightarrow> q \<noteq> last ys \<Longrightarrow> g q = f q"
  shows "path g h (ys @ zs)"
  using assms
proof (induction ys arbitrary: h)
  case (Cons y ys)
  show ?case
  proof (cases "ys = []")
    case True
    have "path g (f p) zs = path f (f p) zs"
      by (rule path_cong) (use Cons.prems True in auto)
    then show ?thesis using Cons.prems True by simp
  next
    case False
    have "path g (f y) (ys @ zs)"
      by (rule Cons.IH) (use Cons.prems False in auto)
    moreover have "y \<noteq> last ys" using Cons.prems(2) last_in_set [OF False] by auto
    ultimately show ?thesis using Cons.prems False by auto
  qed
qed simp

lemma place_loop_finds:
  assumes "linked s t xs"
  shows "\<exists>ys zs d'. xs = ys @ zs
    \<and> place p d xs = ys @ (p, d') # (case zs of [] \<Rightarrow> [] | (q, e) # r \<Rightarrow> (q, e - d') # r)
    \<and> place_loop prev d t s = Some (if ys = [] then prev else fst (last ys), d',
        case zs of [] \<Rightarrow> s | (q, e) # r \<Rightarrow> set_timeout q (e - d') s)"
  using assms
proof (induction p d xs arbitrary: t prev rule: place.induct)
  case (1 p d)
  then show ?case by (subst place_loop.simps) simp
next
  case (2 p d q e xs)
  then have t: "t = q" "q \<noteq> 0" "timeout (tmr s q) = e" "linked s (next_timer (tmr s q)) xs" by auto
  show ?case
  proof (cases "d < e")
    case True
    then show ?thesis using t
      by (subst place_loop.simps) (intro exI [of _ "[]"] exI [of _ "(q, e) # xs"] exI [of _ d], simp)
  next
    case False
    obtain ys zs d' where "xs = ys @ zs"
      "place p (d - e) xs = ys @ (p, d') # (case zs of [] \<Rightarrow> [] | (q, e) # r \<Rightarrow> (q, e - d') # r)"
      "place_loop q (d - e) (next_timer (tmr s q)) s = Some (if ys = [] then q else fst (last ys), d',
        case zs of [] \<Rightarrow> s | (q, e) # r \<Rightarrow> set_timeout q (e - d') s)"
      using "2.IH" [OF False t(4), of q] by blast
    then show ?thesis using False t
      by (subst place_loop.simps) (intro exI [of _ "(q, e) # ys"] exI [of _ zs] exI [of _ d'], simp)
  qed
qed

text \<open>\<open>placeTimer\<close> inserts the timer; only the private fields of timers change.\<close>

definition same_public :: "sw \<Rightarrow> sw \<Rightarrow> bool" where
  "same_public s s' \<longleftrightarrow> oldTime s' = oldTime s
     \<and> (\<forall>q. interval (tmr s' q) = interval (tmr s q) \<and> mode (tmr s' q) = mode (tmr s q) \<and> cb (tmr s' q) = cb (tmr s q))"

lemma placeTimer_places:
  assumes tm: "timers s xs" and p: "p \<noteq> 0" "p \<notin> fst ` set xs"
  shows "\<exists>s'. placeTimer p s = Some s' \<and> timers s' (place p (interval (tmr s p)) xs) \<and> same_public s s'"
proof -
  let ?d = "interval (tmr s p)"
  have lk: "linked s (sTimers s) xs" and dist: "distinct (map fst xs)" and tot: "total xs < 2 ^ 32"
    using tm by (auto simp: timers_def)
  have ok: "distinct (map fst (place p ?d xs))" "total (place p ?d xs) < 2 ^ 32"
    using distinct_place [OF dist p(2)] total_place [of p ?d xs] tot unat_lt_u32 [of ?d] by auto
  obtain ys zs d' where sp: "xs = ys @ zs"
    "place p ?d xs = ys @ (p, d') # (case zs of [] \<Rightarrow> [] | (q, e) # r \<Rightarrow> (q, e - d') # r)"
    "place_loop 0 ?d (sTimers s) s = Some (if ys = [] then 0 else fst (last ys), d',
        case zs of [] \<Rightarrow> s | (q, e) # r \<Rightarrow> set_timeout q (e - d') s)"
    using place_loop_finds [OF lk] by blast
  define s1 where "s1 = (case zs of [] \<Rightarrow> s | (q, e) # r \<Rightarrow> set_timeout q (e - d') s)"
  define s2 where "s2 = set_timeout p d' s1"
  have "\<exists>s'. placeTimer p s = Some s' \<and> linked s' (sTimers s') (place p ?d xs) \<and> same_public s s'"
  proof (cases "sTimers s = 0")
    case True
    then have "xs = []" using lk by (cases xs) auto
    then show ?thesis using True p by (simp add: placeTimer_def Let_def same_public_def)
  next
    case False
    define zs' where "zs' = (case zs of [] \<Rightarrow> [] | (q, e) # r \<Rightarrow> (q, e - d') # r)"
    have fz: "map fst zs' = map fst zs" by (cases zs) (auto simp: zs'_def)
    have path: "path (nexts s) (sTimers s) (map fst ys @ map fst zs)"
      and to: "\<forall>(q, e) \<in> set (ys @ zs). timeout (tmr s q) = e"
      using lk sp(1) by (auto simp: linked_path)
    have pn: "p \<notin> fst ` set ys" "p \<notin> fst ` set zs" using p(2) sp(1) by auto
    have dz: "distinct (map fst ys @ map fst zs)" using dist sp(1) by simp
    have s2: "nexts s2 = nexts s" "sTimers s2 = sTimers s" "same_public s s2" "sTimers s1 = sTimers s"
        "next_timer (tmr s1 q) = nexts s q" for q
      by (auto simp: s2_def s1_def same_public_def fun_eq_iff split: list.split)
    have to2: "\<forall>(q, e) \<in> set (place p ?d xs). timeout (tmr s2 q) = e"
    proof (cases zs)
      case Nil
      have "x \<noteq> p \<and> timeout (tmr s x) = e" if "(x, e) \<in> set ys" for x e
        using that pn(1) to by force
      then show ?thesis using sp(2) Nil by (auto simp: s2_def s1_def)
    next
      case (Cons z r)
      obtain q e where z: "z = (q, e)" by (cases z)
      have q: "q \<noteq> p" "q \<notin> fst ` set ys" "q \<notin> fst ` set r" using dz pn Cons z by auto
      have "\<forall>x \<in> set ys \<union> set r. fst x \<noteq> p \<and> fst x \<noteq> q \<and> timeout (tmr s (fst x)) = snd x"
      proof
        fix x assume x: "x \<in> set ys \<union> set r"
        then have "fst x \<in> fst ` set ys \<union> fst ` set r" by blast
        then have "fst x \<noteq> p" "fst x \<noteq> q" using pn q Cons by auto
        moreover have "timeout (tmr s (fst x)) = snd x" using bspec [OF to, of x] x Cons by (auto simp: case_prod_beta)
        ultimately show "fst x \<noteq> p \<and> fst x \<noteq> q \<and> timeout (tmr s (fst x)) = snd x" by simp
      qed
      moreover have "place p ?d xs = ys @ (p, d') # (q, e - d') # r" using sp(2) Cons z by simp
      ultimately show ?thesis using q(1) Cons z by (simp add: s2_def s1_def case_prod_beta)
    qed
    show ?thesis
    proof (cases "ys = []")
      case True
      define s' where "s' = (set_next p (sTimers s2) s2)\<lparr>sTimers := p\<rparr>"
      have "placeTimer p s = Some s'"
        using False sp(3) True by (simp add: placeTimer_def s1_def [symmetric] s2_def [symmetric] s'_def Let_def s2(2,4,5) fun_cong [OF s2(1)])
      moreover have "path (nexts s') (sTimers s) (map fst zs) = path (nexts s) (sTimers s) (map fst zs)"
        by (rule path_cong) (use pn(2) s2(1) in \<open>auto simp: s'_def fun_eq_iff\<close>)
      moreover have "same_public s s'" using s2(3) by (simp add: s'_def same_public_def)
      moreover have "\<forall>(q, e) \<in> set (place p ?d xs). timeout (tmr s' q) = e" using to2 by (auto simp: s'_def)
      ultimately show ?thesis
        using path p(1) s2(2) fz True sp(2) [folded zs'_def] by (auto simp: linked_path s'_def)
    next
      case ys: False
      let ?q = "fst (last ys)"
      define s' where "s' = set_next ?q p (set_next p (nexts s2 ?q) s2)"
      have "?q \<in> fst ` set ys" using ys by simp
      moreover have "0 \<notin> fst ` set ys" using path_nonzero [OF path] by simp
      ultimately have q: "?q \<noteq> 0" "?q \<noteq> p" using pn(1) by metis+
      have "placeTimer p s = Some s'"
        using False sp(3) ys q by (simp add: placeTimer_def s1_def [symmetric] s2_def [symmetric] s'_def Let_def s2(2,4,5) fun_cong [OF s2(1)])
      moreover have "path (nexts s') (sTimers s) (map fst ys @ p # map fst zs)"
      proof (rule path_insert [OF path dz p(1)])
        show "nexts s' x = nexts s x" if "x \<in> set (map fst ys @ map fst zs)" "x \<noteq> last (map fst ys)" for x
          using that pn s2(1) ys by (auto simp: s'_def last_map fun_eq_iff)
      qed (use ys q s2(1) in \<open>auto simp: s'_def last_map fun_eq_iff\<close>)
      moreover have "same_public s s'" using s2(3) by (simp add: s'_def same_public_def)
      moreover have "\<forall>(q, e) \<in> set (place p ?d xs). timeout (tmr s' q) = e" using to2 by (auto simp: s'_def)
      ultimately show ?thesis
        using fz s2(2) sp(2) [folded zs'_def] by (auto simp: linked_path s'_def)
    qed
  qed
  then show ?thesis using ok by (auto simp: timers_def)
qed

lemma started_loop_finds: "linked s t xs \<Longrightarrow> started_loop p t s = Some (p \<in> fst ` set xs)"
proof (induction xs arbitrary: t)
  case Nil
  then show ?case by (subst started_loop.simps) simp
next
  case (Cons x xs)
  then show ?case by (cases x) (subst started_loop.simps, auto)
qed

lemma swTimerStarted_finds: "timers s xs \<Longrightarrow> swTimerStarted p s = Some (p \<in> fst ` set xs)"
  by (simp add: swTimerStarted_def timers_def started_loop_finds)

lemma swTimerStart_starts:
  assumes "timers s xs" and "p \<noteq> 0"
  shows "\<exists>s'. swTimerStart p s = Some s' \<and> same_public s s'
    \<and> timers s' (if p \<in> fst ` set xs then xs else place p (interval (tmr s p)) xs)"
proof (cases "p \<in> fst ` set xs")
  case True
  then show ?thesis using swTimerStarted_finds [OF assms(1), of p] assms(1)
    by (simp add: swTimerStart_def same_public_def)
next
  case False
  then show ?thesis using swTimerStarted_finds [OF assms(1), of p] placeTimer_places [OF assms False]
    by (auto simp: swTimerStart_def)
qed

definition cut :: "u32 \<Rightarrow> u32 \<Rightarrow> sw \<Rightarrow> sw" where
  "cut p prev s =
     (let s = (if prev \<noteq> 0 then set_next prev (next_timer (tmr s p)) s
               else s\<lparr>sTimers := next_timer (tmr s p)\<rparr>);
          n = next_timer (tmr s p)
      in if n \<noteq> 0 then set_timeout n (timeout (tmr s n) + timeout (tmr s p)) s else s)"

lemma stop_loop_absent: "linked s t xs \<Longrightarrow> p \<notin> fst ` set xs \<Longrightarrow> stop_loop p prev t s = Some s"
proof (induction xs arbitrary: t prev)
  case Nil
  then show ?case by (subst stop_loop.simps) simp
next
  case (Cons x xs)
  then show ?case by (cases x) (subst stop_loop.simps, auto)
qed

lemma stop_loop_finds:
  "linked s t (ys @ (p, e) # zs) \<Longrightarrow> p \<notin> fst ` set ys \<Longrightarrow>
    stop_loop p prev t s = Some (cut p (if ys = [] then prev else fst (last ys)) s)"
proof (induction ys arbitrary: t prev)
  case Nil
  then show ?case by (subst stop_loop.simps) (simp add: cut_def Let_def)
next
  case (Cons y ys)
  then show ?case by (cases y) (subst stop_loop.simps, auto)
qed

lemma unplace_absent: "p \<notin> fst ` set xs \<Longrightarrow> unplace p xs = xs"
  by (induction p xs rule: unplace.induct) auto

lemma unplace_split:
  "p \<notin> fst ` set ys \<Longrightarrow> unplace p (ys @ (p, e) # zs) = ys @ (case zs of [] \<Rightarrow> [] | (r, f) # bs \<Rightarrow> (r, f + e) # bs)"
  by (induction ys) auto

lemma swTimerStop_stops:
  assumes "timers s xs"
  shows "\<exists>s'. swTimerStop p s = Some s' \<and> timers s' (unplace p xs) \<and> same_public s s'"
proof (cases "p \<in> fst ` set xs")
  case False
  then show ?thesis using assms stop_loop_absent [of s "sTimers s" xs p 0]
    by (simp add: swTimerStop_def timers_def unplace_absent same_public_def)
next
  case True
  have lk: "linked s (sTimers s) xs" and dist: "distinct (map fst xs)" and tot: "total xs < 2 ^ 32"
    using assms by (auto simp: timers_def)
  obtain ys e zs where xs: "xs = ys @ (p, e) # zs" "p \<notin> fst ` set ys"
  proof -
    have "\<exists>x \<in> set xs. fst x = p" using True by auto
    then obtain ys x zs where "xs = ys @ x # zs" "fst x = p" "\<forall>y \<in> set ys. fst y \<noteq> p"
      using split_list_first_prop [of xs "\<lambda>x. fst x = p"] by blast
    then show thesis using that [of ys "snd x" zs] by (cases x) auto
  qed
  define s' where "s' = cut p (if ys = [] then 0 else fst (last ys)) s"
  have run: "swTimerStop p s = Some s'"
    unfolding swTimerStop_def s'_def by (rule stop_loop_finds [OF lk [unfolded xs(1)] xs(2)])
  have ok: "distinct (map fst (unplace p xs))" "total (unplace p xs) < 2 ^ 32"
    using distinct_unplace [OF dist] total_unplace [OF tot, of p] tot by auto
  define zs' where "zs' = (case zs of [] \<Rightarrow> [] | (r, f) # bs \<Rightarrow> (r, f + e) # bs)"
  have un: "unplace p xs = ys @ zs'" "map fst zs' = map fst zs"
    using xs by (auto simp: unplace_split zs'_def split: list.split)
  have path: "path (nexts s) (sTimers s) (map fst ys @ p # map fst zs)"
    and to: "\<forall>(q, e) \<in> set xs. timeout (tmr s q) = e"
    using lk xs(1) by (auto simp: linked_path)
  have dd: "distinct (map fst ys @ p # map fst zs)" using dist xs(1) by simp
  have pz: "path (nexts s) (nexts s p) (map fst zs)" using path_append_first [OF path] by simp
  have te: "timeout (tmr s p) = e" using to xs(1) by auto
  have sp: "same_public s s'" by (auto simp: s'_def cut_def Let_def same_public_def)
  have nx: "nexts s' = (if ys = [] then nexts s else (nexts s)(fst (last ys) := nexts s p))"
    "sTimers s' = (if ys = [] then nexts s p else sTimers s)"
  proof -
    have "fst (last ys) \<noteq> 0 \<and> fst (last ys) \<noteq> p" if "ys \<noteq> []"
    proof -
      have "fst (last ys) \<in> fst ` set ys" using that by simp
      then show ?thesis using path_nonzero [OF path] xs(2) by (auto simp: image_iff)
    qed
    then show "nexts s' = (if ys = [] then nexts s else (nexts s)(fst (last ys) := nexts s p))"
      "sTimers s' = (if ys = [] then nexts s p else sTimers s)"
      by (auto simp: s'_def cut_def Let_def fun_eq_iff)
  qed
  have "path (nexts s') (sTimers s') (map fst (unplace p xs))"
  proof (cases "ys = []")
    case True
    then show ?thesis using nx pz un by simp
  next
    case False
    have nx': "nexts s' x = (if x = fst (last ys) then nexts s p else nexts s x)" for x
      using fun_cong [OF nx(1), of x] False by simp
    have "path (nexts s') (sTimers s) (map fst ys @ map fst zs)"
      by (rule path_remove [OF path dd]) (use False in \<open>auto simp: last_map nx'\<close>)
    then show ?thesis using nx un False by simp
  qed
  moreover have "\<forall>(q, d) \<in> set (unplace p xs). timeout (tmr s' q) = d"
  proof (cases zs)
    case Nil
    then have "nexts s p = 0" using pz by simp
    then have "timeout (tmr s' q) = timeout (tmr s q)" for q by (simp add: s'_def cut_def Let_def)
    then show ?thesis using to un(1) xs(1) Nil by (simp add: zs'_def)
  next
    case (Cons z bs)
    obtain r f where z: "z = (r, f)" by (cases z)
    have n: "nexts s p = r" "r \<noteq> 0" using pz Cons z by auto
    have t': "timeout (tmr s' q) = (if q = r then f + e else timeout (tmr s q))" for q
      using n te to xs(1) Cons z by (auto simp: s'_def cut_def Let_def)
    have un': "unplace p xs = ys @ (r, f + e) # bs" using un(1) Cons z by (simp add: zs'_def)
    have "\<forall>x \<in> set ys \<union> set bs. timeout (tmr s' (fst x)) = snd x"
    proof
      fix x assume x: "x \<in> set ys \<union> set bs"
      then have "fst x \<in> fst ` set ys \<union> fst ` set bs" by blast
      then have "fst x \<noteq> r" using dd Cons z by auto
      then show "timeout (tmr s' (fst x)) = snd x"
        using bspec [OF to, of x] x xs(1) Cons by (auto simp: case_prod_beta t')
    qed
    then show ?thesis unfolding un' by (simp add: t' case_prod_beta)
  qed
  ultimately show ?thesis using run ok sp by (auto simp: timers_def linked_path)
qed


section \<open>Expiry\<close>

text \<open>
  Callbacks that leave the timers alone: \<open>log c t\<close> is what the callback \<open>c\<close> of timer \<open>t\<close> does to the
  rest of the world.
\<close>

definition quiet :: "(u32 \<Rightarrow> u32 \<Rightarrow> sw \<times> 'w \<Rightarrow> (sw \<times> 'w) option) \<Rightarrow> (u32 \<Rightarrow> u32 \<Rightarrow> 'w \<Rightarrow> 'w) \<Rightarrow> bool" where
  "quiet run_cb log \<longleftrightarrow> (\<forall>c t s w. run_cb c t (s, w) = Some (s, log c t w))"

definition logged :: "(u32 \<Rightarrow> u32 \<Rightarrow> 'w \<Rightarrow> 'w) \<Rightarrow> sw \<Rightarrow> u32 list \<Rightarrow> 'w \<Rightarrow> 'w" where
  "logged log s ts = fold (\<lambda>t w. if cb (tmr s t) \<noteq> 0 then log (cb (tmr s t)) t w else w) ts"

text \<open>How often a timer with deadline \<open>d\<close> fires within \<open>E\<close> ticks, and when it fires next after that.\<close>

definition firings :: "sw \<Rightarrow> u32 \<Rightarrow> nat option \<Rightarrow> nat \<Rightarrow> nat" where
  "firings s p d E = (case d of None \<Rightarrow> 0
     | Some d \<Rightarrow> if E < d then 0
                 else if mode (tmr s p) = PERIODIC then (E - d) div unat (interval (tmr s p)) + 1 else 1)"

definition next_deadline :: "sw \<Rightarrow> u32 \<Rightarrow> nat option \<Rightarrow> nat \<Rightarrow> nat option" where
  "next_deadline s p d E = (case d of None \<Rightarrow> None
     | Some d \<Rightarrow> if E < d then Some (d - E)
                 else if mode (tmr s p) = PERIODIC
                      then Some (unat (interval (tmr s p)) - (E - d) mod unat (interval (tmr s p))) else None)"

definition periods_positive :: "sw \<Rightarrow> (u32 \<times> u32) list \<Rightarrow> bool" where
  "periods_positive s xs \<longleftrightarrow>
     (\<forall>p \<in> fst ` set xs. mode (tmr s p) = PERIODIC \<longrightarrow> 0 < interval (tmr s p))"

lemma same_public_trans: "same_public s t \<Longrightarrow> same_public t u \<Longrightarrow> same_public s u"
  by (simp add: same_public_def)

lemma public_simps:
  assumes "\<And>q. interval (tmr t q) = interval (tmr s q) \<and> mode (tmr t q) = mode (tmr s q) \<and> cb (tmr t q) = cb (tmr s q)"
  shows "firings t = firings s" "next_deadline t = next_deadline s" "logged log t = logged log s"
    "periods_positive t = periods_positive s"
proof -
  have e: "interval (tmr t q) = interval (tmr s q)" "mode (tmr t q) = mode (tmr s q)" "cb (tmr t q) = cb (tmr s q)" for q
    using assms by auto
  have l: "(\<lambda>p w. if cb (tmr t p) \<noteq> 0 then log (cb (tmr t p)) p w else w)
      = (\<lambda>p w. if cb (tmr s p) \<noteq> 0 then log (cb (tmr s p)) p w else w)"
    by (simp add: fun_eq_iff e)
  show "logged log t = logged log s" by (simp only: fun_eq_iff logged_def l) simp
  show "firings t = firings s" "next_deadline t = next_deadline s" "periods_positive t = periods_positive s"
    by (simp_all add: fun_eq_iff firings_def next_deadline_def periods_positive_def e split: option.split)
qed

lemma same_public_simps:
  assumes "same_public s t"
  shows "firings t = firings s" "next_deadline t = next_deadline s" "logged log t = logged log s"
    "periods_positive t = periods_positive s"
  by (rule public_simps; use assms in \<open>simp add: same_public_def\<close>)+

lemma zero_prefix_place:
  "0 < d \<Longrightarrow> length (takeWhile (\<lambda>x. snd x = 0) (place p d xs)) = length (takeWhile (\<lambda>x. snd x = 0) xs)"
  by (induction p d xs rule: place.induct) (auto simp: word_neq_0_conv)

lemma firings_place:
  assumes "0 < unat (interval (tmr s p))" and "mode (tmr s p) = PERIODIC"
  shows "firings s p (Some (unat (interval (tmr s p)))) E = E div unat (interval (tmr s p))"
    and "next_deadline s p (Some (unat (interval (tmr s p)))) E = next_deadline s p (Some 0) E"
  using assms by (auto simp: firings_def next_deadline_def le_div_geq le_mod_geq not_less)

lemma timers_pop:
  assumes "timers s ((q, e) # ys)"
  shows "timers (s\<lparr>sTimers := next_timer (tmr s (sTimers s))\<rparr>) ys" "sTimers s = q" "q \<noteq> 0"
    "timeout (tmr s q) = e" "q \<notin> fst ` set ys"
proof -
  have "linked (s\<lparr>sTimers := r\<rparr>) r' ys = linked s r' ys" for r r' by (rule linked_cong) simp
  then show "timers (s\<lparr>sTimers := next_timer (tmr s (sTimers s))\<rparr>) ys" using assms by (simp add: timers_def)
qed (use assms in \<open>auto simp: timers_def\<close>)

lemma expire_loop_fires:
  assumes "quiet run_cb log" and "timers s xs" and "periods_positive s xs"
  shows "\<exists>ts elapsed' s' xs'. expire_loop run_cb elapsed (s, w) = Some (elapsed', s', logged log s ts w)
    \<and> timers s' xs' \<and> same_public s s' \<and> elapsed' \<le> elapsed
    \<and> (xs' \<noteq> [] \<longrightarrow> elapsed' < snd (hd xs'))
    \<and> (\<forall>p. count_list ts p = firings s p (deadline xs p) (unat elapsed))
    \<and> (\<forall>p. deadline xs' p = map_option (\<lambda>n. n + unat elapsed') (next_deadline s p (deadline xs p) (unat elapsed)))"
  using assms(2,3)
proof (induction "(unat elapsed, length (takeWhile (\<lambda>x. snd x = 0) xs))" arbitrary: elapsed s w xs
    rule: wf_induct_rule [OF wf_lex_prod [OF wf_less_than wf_less_than]])
  case 1
  note tm = \<open>timers s xs\<close> and pp = \<open>periods_positive s xs\<close>
  show ?case
  proof (cases "xs \<noteq> [] \<and> snd (hd xs) \<le> elapsed")
    case False
    have far: "unat elapsed < d" if "deadline xs p = Some d" for p d
    proof (cases xs)
      case (Cons x ys)
      then have "elapsed < snd x" using False by (simp add: not_le)
      then show ?thesis using that Cons by (cases x) (auto simp: word_less_nat_alt split: if_splits)
    qed (use that in simp)
    have stop: "expire_loop run_cb elapsed (s, w) = Some (elapsed, s, w)"
      using tm False by (cases xs) (auto simp: timers_def expire_loop.simps [of _ _ "(s, w)"] Let_def)
    have c: "count_list [] p = firings s p (deadline xs p) (unat elapsed)" for p
      using far [of p] by (auto simp: firings_def split: option.split)
    have d: "deadline xs p = map_option (\<lambda>n. n + unat elapsed) (next_deadline s p (deadline xs p) (unat elapsed))" for p
      using far [of p] by (auto simp: next_deadline_def split: option.split)
    show ?thesis using stop tm False c d
      by (intro exI [of _ "[]"] exI [of _ elapsed] exI [of _ s] exI [of _ xs])
        (auto simp: logged_def same_public_def not_le)
  next
    case True
    then obtain q e ys where xs: "xs = (q, e) # ys" and le: "e \<le> elapsed" by (cases xs) auto
    note pop = timers_pop [OF tm [unfolded xs]]
    let ?I = "interval (tmr s q)"
    define s1 where "s1 = s\<lparr>sTimers := next_timer (tmr s (sTimers s))\<rparr>"
    define ys' where "ys' = (if mode (tmr s q) = PERIODIC then place q ?I ys else ys)"
    have s1: "timers s1 ys" "tmr s1 = tmr s" "same_public s s1" using pop(1) by (simp_all add: s1_def same_public_def)
    obtain s2 where s2: "(if mode (tmr s1 q) = PERIODIC then placeTimer q s1 else Some s1) = Some s2"
        "timers s2 ys'" "same_public s1 s2"
    proof (cases "mode (tmr s q) = PERIODIC")
      case True
      then show thesis using that placeTimer_places [OF s1(1) pop(3,5)] s1(2) by (auto simp: ys'_def)
    next
      case False
      then show thesis using that [of s1] s1 by (simp add: ys'_def same_public_def)
    qed
    have s02: "same_public s s2" by (rule same_public_trans [OF s1(3) s2(3)])
    define w2 where "w2 = (if cb (tmr s q) \<noteq> 0 then log (cb (tmr s q)) q w else w)"
    have unf: "expire_loop run_cb elapsed (s, w) = expire_loop run_cb (elapsed - e) (s2, w2)"
    proof -
      have "cb (tmr s2 q) = cb (tmr s q)" using s02 by (simp add: same_public_def)
      moreover have "s\<lparr>sTimers := nexts s q\<rparr> = s1" by (simp add: s1_def pop(2))
      moreover have "if mode (tmr s q) = PERIODIC then placeTimer q s1 = Some s2 else s1 = s2"
        using s2(1) s1(2) by (simp split: if_splits)
      ultimately show ?thesis
        using pop(2,3,4) le assms(1) s1(2)
        by (subst expire_loop.simps) (simp add: Let_def w2_def quiet_def split: if_splits)
    qed
    have ue: "unat (elapsed - e) = unat elapsed - unat e" "unat e \<le> unat elapsed"
      using le by (simp_all add: unat_sub_u32 word_le_nat_alt)
    have I: "mode (tmr s q) = PERIODIC \<Longrightarrow> 0 < ?I" using pp xs by (simp add: periods_positive_def)
    have dec: "((unat (elapsed - e), length (takeWhile (\<lambda>x. snd x = 0) ys')),
        (unat elapsed, length (takeWhile (\<lambda>x. snd x = 0) xs))) \<in> less_than <*lex*> less_than"
    proof (cases "e = 0")
      case True
      then show ?thesis using I zero_prefix_place [of ?I q ys] xs by (auto simp: ys'_def)
    next
      case False
      then have "0 < unat e" by (simp add: unat_gt_0)
      then show ?thesis using ue by simp
    qed
    have "fst ` set ys' \<subseteq> fst ` set xs" by (simp add: ys'_def fst_place xs subset_insertI)
    then have pp2: "periods_positive s2 ys'"
      unfolding same_public_simps(4) [OF s02] using pp unfolding periods_positive_def by blast
    obtain ts E' s' xs' where IH: "expire_loop run_cb (elapsed - e) (s2, w2) = Some (E', s', logged log s2 ts w2)"
      "timers s' xs'" "same_public s2 s'" "E' \<le> elapsed - e" "xs' \<noteq> [] \<longrightarrow> E' < snd (hd xs')"
      "\<forall>p. count_list ts p = firings s2 p (deadline ys' p) (unat (elapsed - e))"
      "\<forall>p. deadline xs' p = map_option (\<lambda>n. n + unat E') (next_deadline s2 p (deadline ys' p) (unat (elapsed - e)))"
      using "1.hyps" [OF dec s2(2) pp2] by blast
    have dl: "deadline ys' p = (if p = q then if mode (tmr s q) = PERIODIC then Some (unat ?I) else None
        else deadline ys p)" for p
      using deadline_place [OF pop(5), of ?I p] deadline_None [of ys q] pop(5) by (auto simp: ys'_def)
    have E: "unat (elapsed - e) = unat elapsed - unat e" by (rule ue)
    have cnt: "count_list (q # ts) p = firings s p (deadline xs p) (unat elapsed)" for p
    proof (cases "p = q")
      case True
      have "firings s q (deadline ys' q) (unat elapsed - unat e) =
          (if mode (tmr s q) = PERIODIC then (unat elapsed - unat e) div unat ?I else 0)"
        using firings_place(1) [of s q "unat elapsed - unat e"] I dl [of q]
        by (auto simp: unat_gt_0 word_neq_0_conv firings_def)
      then show ?thesis using True IH(6) xs ue same_public_simps(1) [OF s02] by (simp add: firings_def)
    next
      case False
      then show ?thesis using IH(6) xs ue same_public_simps(1) [OF s02] dl [of p]
        by (auto simp: firings_def split: option.split)
    qed
    have nd: "next_deadline s p (deadline ys' p) (unat elapsed - unat e) = next_deadline s p (deadline xs p) (unat elapsed)" for p
    proof (cases "p = q")
      case True
      then show ?thesis
        using firings_place(2) [of s q "unat elapsed - unat e"] I dl [of q] xs ue
        by (auto simp: unat_gt_0 word_neq_0_conv next_deadline_def)
    next
      case False
      then show ?thesis using xs ue dl [of p]
        by (auto simp: next_deadline_def split: option.split)
    qed
    have "logged log s (q # ts) w = logged log s2 ts w2"
      unfolding same_public_simps(3) [OF s02] by (simp add: logged_def w2_def)
    moreover have "E' \<le> elapsed" using IH(4) le by (simp add: word_le_nat_alt unat_sub_u32)
    moreover have "same_public s s'" by (rule same_public_trans [OF s02 IH(3)])
    ultimately show ?thesis
      using unf IH(1,2,5,7) cnt nd unfolding same_public_simps(2) [OF s02] E by metis
  qed
qed


lemma deadline_head_less: "deadline ((q, e) # xs) p = Some d \<Longrightarrow> unat e \<le> d"
  by (auto split: if_splits)

text \<open>
  The handler: every timer fires as often as its deadline and period say for the ticks elapsed, and is
  left with the deadline that follows; \<open>oldTime\<close> becomes the second reading of the clock.
\<close>

lemma swTimerTaskHandler_fires:
  fixes now1 now2 :: u32
  assumes q: "quiet run_cb log" and tm: "timers s xs" and pp: "periods_positive s xs"
    and ne: "xs \<noteq> []" and el: "now1 \<noteq> oldTime s"
  shows "\<exists>ts s' xs'. swTimerTaskHandler run_cb now1 now2 (s, w) = Some (s', logged log s ts w)
    \<and> timers s' xs' \<and> oldTime s' = now2
    \<and> (\<forall>p. count_list ts p = firings s p (deadline xs p) (unat (now1 - oldTime s)))
    \<and> (\<forall>p. deadline xs' p = next_deadline s p (deadline xs p) (unat (now1 - oldTime s)))"
proof -
  let ?E = "now1 - oldTime s"
  define s0 where "s0 = s\<lparr>oldTime := now2\<rparr>"
  have lk0: "linked s0 p ys = linked s p ys" for p ys by (rule linked_cong) (simp add: s0_def)
  have tm0: "timers s0 xs" using tm by (simp add: timers_def lk0) (simp add: s0_def)
  have sp0: "firings s0 = firings s" "next_deadline s0 = next_deadline s" "logged log s0 = logged log s"
    "periods_positive s0 xs"
    using pp public_simps [of s0 s] by (simp_all add: s0_def)
  obtain ts E' s1 ys where r: "expire_loop run_cb ?E (s0, w) = Some (E', s1, logged log s0 ts w)"
    "timers s1 ys" "same_public s0 s1" "ys \<noteq> [] \<longrightarrow> E' < snd (hd ys)"
    "\<forall>p. count_list ts p = firings s0 p (deadline xs p) (unat ?E)"
    "\<forall>p. deadline ys p = map_option (\<lambda>n. n + unat E') (next_deadline s0 p (deadline xs p) (unat ?E))"
    using expire_loop_fires [OF q tm0 sp0(4), of ?E w] by blast
  have st: "sTimers s \<noteq> 0" using tm ne by (cases xs) (auto simp: timers_def)
  have E0: "?E \<noteq> 0" using el by simp
  show ?thesis
  proof (cases ys)
    case Nil
    have "sTimers s1 = 0" using r(2) Nil by (simp add: timers_def)
    then have "swTimerTaskHandler run_cb now1 now2 (s, w) = Some (s1, logged log s ts w)"
      using r(1) st E0 sp0(3) by (simp add: swTimerTaskHandler_def s0_def [symmetric] Let_def)
    moreover have "deadline ys p = next_deadline s p (deadline xs p) (unat ?E)" for p
      using r(6) [rule_format, of p] Nil by (simp add: sp0)
    ultimately show ?thesis using r sp0 by (auto simp: same_public_def s0_def)
  next
    case (Cons y zs)
    obtain p e where y: "y = (p, e)" by (cases y)
    have le: "E' < e" using r(4) Cons y by simp
    have p: "sTimers s1 = p" "p \<noteq> 0" "timeout (tmr s1 p) = e" "p \<notin> fst ` set zs"
      using timers_pop [of s1 p e zs] r(2) Cons y by auto
    define s2 where "s2 = set_timeout p (e - E') s1"
    define zs' where "zs' = (p, e - E') # zs"
    note u = u32_less_split [OF le]
    have "linked s2 (next_timer (tmr s1 p)) zs = linked s1 (next_timer (tmr s1 p)) zs"
      by (rule linked_cong) (use p(4) in \<open>auto simp: s2_def\<close>)
    then have t2: "timers s2 zs'" using r(2) Cons y p u by (auto simp: timers_def zs'_def s2_def)
    have "swTimerTaskHandler run_cb now1 now2 (s, w) = Some (s2, logged log s ts w)"
      using r(1) st E0 p sp0(3) by (simp add: swTimerTaskHandler_def s0_def [symmetric] Let_def s2_def)
    moreover have "deadline zs' x = next_deadline s x (deadline xs x) (unat ?E)" for x
    proof -
      have "map_option (\<lambda>n. n + unat E') (deadline zs' x) = deadline ys x"
        using u Cons y by (cases "deadline zs x") (auto simp: zs'_def)
      then have "map_option (\<lambda>n. n + unat E') (deadline zs' x)
          = map_option (\<lambda>n. n + unat E') (next_deadline s x (deadline xs x) (unat ?E))"
        using r(6) by (simp add: sp0)
      then show ?thesis
        by (cases "deadline zs' x"; cases "next_deadline s x (deadline xs x) (unat ?E)") simp_all
    qed
    moreover have "oldTime s2 = now2" using r(3) by (simp add: s2_def same_public_def s0_def)
    ultimately show ?thesis using t2 r(5) sp0 by metis
  qed
qed

section \<open>Properties\<close>

text \<open>A periodic timer of 5 ms at address 32 that expires in 5 ms, for the witnesses.\<close>

definition sw5 :: sw where
  "sw5 = \<lparr>tmr = (\<lambda>_. \<lparr>next_timer = 0, timeout = 5, interval = 5, mode = PERIODIC, cb = 0x9d000000\<rparr>),
     sTimers = 32, oldTime = 100\<rparr>"

definition log_timer :: "u32 \<Rightarrow> u32 \<Rightarrow> sw \<times> u32 list \<Rightarrow> (sw \<times> u32 list) option" where
  "log_timer c t = (\<lambda>(s, w). Some (s, w @ [t]))"

lemma sw5_timers: "timers sw5 [(32, 5)]" and log_timer_quiet: "quiet log_timer (\<lambda>c t w. w @ [t])"
  by (simp_all add: timers_def sw5_def quiet_def log_timer_def)

text \<open>
  Starting a timer that is not running gives it the deadline \<open>interval\<close> and leaves the deadline of
  every other timer as it was; starting a running timer changes nothing, so it is not restarted.
\<close>

theorem swTimerStart_deadlines:
  assumes "timers s xs" and "p \<noteq> 0"
  shows "\<exists>s' xs'. swTimerStart p s = Some s' \<and> timers s' xs'
    \<and> (\<forall>q. deadline xs' q = (if q = p \<and> deadline xs p = None then Some (unat (interval (tmr s p))) else deadline xs q))"
proof -
  obtain s' where "swTimerStart p s = Some s'"
      "timers s' (if p \<in> fst ` set xs then xs else place p (interval (tmr s p)) xs)"
    using swTimerStart_starts [OF assms] by blast
  moreover have "deadline (if p \<in> fst ` set xs then xs else place p (interval (tmr s p)) xs) q
      = (if q = p \<and> deadline xs p = None then Some (unat (interval (tmr s p))) else deadline xs q)" for q
    using deadline_place [of p xs "interval (tmr s p)" q] by (auto simp: deadline_None)
  ultimately show ?thesis by blast
qed

lemma swTimerStart_deadlines_witness:
  "\<exists>s' xs'. swTimerStart 64 sw5 = Some s' \<and> timers s' xs' \<and> deadline xs' 64 = Some 5 \<and> deadline xs' 32 = Some 5"
proof -
  have "interval (tmr sw5 64) = 5" by (simp add: sw5_def)
  with swTimerStart_deadlines [OF sw5_timers, of 64] show ?thesis by force
qed

text \<open>
  Stopping a timer removes it and leaves the deadline of every other timer as it was: the time left
  of the stopped timer is passed on to its successor.
\<close>

theorem swTimerStop_deadlines:
  assumes "timers s xs"
  shows "\<exists>s' xs'. swTimerStop p s = Some s' \<and> timers s' xs' \<and> swTimerStarted p s' = Some False
    \<and> (\<forall>q. deadline xs' q = (if q = p then None else deadline xs q))"
proof -
  obtain s' where s': "swTimerStop p s = Some s'" "timers s' (unplace p xs)"
    using swTimerStop_stops [OF assms] by blast
  have d: "deadline (unplace p xs) q = (if q = p then None else deadline xs q)" for q
    using deadline_unplace [of xs p q] assms by (simp add: timers_def)
  then have "swTimerStarted p s' = Some False"
    using swTimerStarted_finds [OF s'(2), of p] d [of p] deadline_None [of "unplace p xs" p] by simp
  with s' d show ?thesis by blast
qed

lemma swTimerStop_deadlines_witness:
  "\<exists>s' xs'. swTimerStop 32 sw5 = Some s' \<and> timers s' xs' \<and> swTimerStarted 32 s' = Some False \<and> deadline xs' 32 = None"
  using swTimerStop_deadlines [OF sw5_timers, of 32] by fastforce

text \<open>
  C12: When the callbacks leave the timers alone and no running periodic timer has period 0, the handler
  returns, whatever time has passed. A timer whose deadline has come by the first reading of the clock fires once when it is one-shot,
  and once for its deadline and once more for every full period since when it is periodic; after that
  its deadline is the rest of the current period. No other timer fires, and their deadlines come
  closer by the time passed up to the first reading. As \<open>oldTime\<close> becomes the second reading, every timer that did not fire is due later
  than it was by exactly the time between the two readings.
\<close>

theorem swTimerTaskHandler_exact:
  assumes "quiet run_cb log" and "timers s xs" and "periods_positive s xs" and "xs \<noteq> []" and "now1 \<noteq> oldTime s"
  shows "\<exists>ts s' xs'. swTimerTaskHandler run_cb now1 now2 (s, w) = Some (s', logged log s ts w)
    \<and> timers s' xs' \<and> oldTime s' = now2
    \<and> (\<forall>p. count_list ts p = firings s p (deadline xs p) (unat (now1 - oldTime s)))
    \<and> (\<forall>p. deadline xs' p = next_deadline s p (deadline xs p) (unat (now1 - oldTime s)))
    \<and> (\<forall>p d. deadline xs p = Some d \<and> unat (now1 - oldTime s) < d \<longrightarrow>
        (\<exists>e. deadline xs' p = Some e \<and> oldTime s' + of_nat e = oldTime s + of_nat d + (now2 - now1)))"
proof -
  obtain ts s' xs' where r: "swTimerTaskHandler run_cb now1 now2 (s, w) = Some (s', logged log s ts w)" "timers s' xs'" "oldTime s' = now2"
      "\<forall>p. count_list ts p = firings s p (deadline xs p) (unat (now1 - oldTime s))"
      "\<forall>p. deadline xs' p = next_deadline s p (deadline xs p) (unat (now1 - oldTime s))"
    using swTimerTaskHandler_fires [OF assms] by blast
  have "\<exists>e. deadline xs' p = Some e \<and> oldTime s' + of_nat e = oldTime s + of_nat d + (now2 - now1)"
    if "deadline xs p = Some d" "unat (now1 - oldTime s) < d" for p d
  proof -
    have "deadline xs' p = Some (d - unat (now1 - oldTime s))" using r(5) that by (simp add: next_deadline_def)
    moreover have "(of_nat (d - unat (now1 - oldTime s)) :: u32) = of_nat d - (now1 - oldTime s)" using that(2) by (simp add: of_nat_diff)
    ultimately show ?thesis by (simp add: r(3))
  qed
  then show ?thesis using r by blast
qed

lemma swTimerTaskHandler_exact_witness:
  "\<exists>ts s' xs'. swTimerTaskHandler log_timer 112 113 (sw5, []) = Some (s', ts)
    \<and> count_list ts 32 = 2 \<and> timers s' xs' \<and> deadline xs' 32 = Some 3 \<and> oldTime s' = 113"
proof -
  have pp: "periods_positive sw5 [(32, 5)]" by (simp add: periods_positive_def sw5_def)
  have lg: "logged (\<lambda>c t w. w @ [t]) sw5 ts w = w @ ts" for ts w
    by (induction ts arbitrary: w) (simp_all add: logged_def sw5_def)
  have o: "oldTime sw5 = 100" "mode (tmr sw5 32) = PERIODIC" "interval (tmr sw5 32) = 5" by (simp_all add: sw5_def)
  have "(112 :: u32) \<noteq> oldTime sw5" by (simp add: o)
  from swTimerTaskHandler_exact [OF log_timer_quiet sw5_timers pp _ this, of 113 "[]"] obtain ts s' xs' where
    "swTimerTaskHandler log_timer 112 113 (sw5, []) = Some (s', ts)" "timers s' xs'" "oldTime s' = 113"
    "count_list ts 32 = firings sw5 32 (Some 5) 12" "deadline xs' 32 = next_deadline sw5 32 (Some 5) 12"
    by (auto simp: lg o)
  then show ?thesis by (auto simp: firings_def next_deadline_def o)
qed

text \<open>
  C36: While no timer runs the handler does not move \<open>oldTime\<close>. A timer started after an idle stretch is
  therefore measured from the last expiry run, not from its start: the next call of the handler fires
  it at once when the stretch was as long as its interval, however short the time since its start.
\<close>

theorem swTimer_after_idle_fires_early:
  assumes "quiet run_cb log" and "timers s []" and "p \<noteq> 0" and "mode (tmr s p) = ONESHOT"
    and "interval (tmr s p) \<le> now - oldTime s" and "now \<noteq> oldTime s"
  shows "(\<forall>t. swTimerTaskHandler run_cb t t (s, w) = Some (s, w))
    \<and> (\<exists>s1 s2 ts. swTimerStart p s = Some s1
        \<and> swTimerTaskHandler run_cb now now (s1, w) = Some (s2, logged log s1 ts w) \<and> count_list ts p = 1)"
proof -
  have z: "sTimers s = 0" using assms(2) by (simp add: timers_def)
  obtain s1 where s1: "swTimerStart p s = Some s1" "same_public s s1" "timers s1 [(p, interval (tmr s p))]"
    using swTimerStart_starts [OF assms(2,3)] by auto
  have e: "mode (tmr s1 p) = ONESHOT" "oldTime s1 = oldTime s" using s1(2) assms(4) by (simp_all add: same_public_def)
  have pp: "periods_positive s1 [(p, interval (tmr s p))]" by (simp add: periods_positive_def e)
  obtain s2 ts where h: "swTimerTaskHandler run_cb now now (s1, w) = Some (s2, logged log s1 ts w)"
      "count_list ts p = firings s1 p (deadline [(p, interval (tmr s p))] p) (unat (now - oldTime s1))"
    using swTimerTaskHandler_fires [OF assms(1) s1(3) pp, of now now w] assms(6) e(2) by auto
  have "count_list ts p = 1" using h(2) assms(5) e by (simp add: firings_def word_le_nat_alt not_less)
  then show ?thesis using z s1(1) h(1) by (auto simp: swTimerTaskHandler_def)
qed

lemma swTimer_after_idle_fires_early_witness:
  "let s = \<lparr>tmr = (\<lambda>_. \<lparr>next_timer = 0, timeout = 0, interval = 1000, mode = ONESHOT, cb = 1\<rparr>), sTimers = 0, oldTime = 0\<rparr>
   in swTimerTaskHandler log_timer 4999 4999 (s, []) = Some (s, [])
      \<and> (\<exists>s1 s2 ts. swTimerStart 32 s = Some s1
          \<and> swTimerTaskHandler log_timer 5000 5000 (s1, []) = Some (s2, logged (\<lambda>c t w. w @ [t]) s1 ts [])
          \<and> count_list ts 32 = 1)"
  unfolding Let_def
  using swTimer_after_idle_fires_early [OF log_timer_quiet, of
      "\<lparr>tmr = (\<lambda>_. \<lparr>next_timer = 0, timeout = 0, interval = 1000, mode = ONESHOT, cb = 1\<rparr>), sTimers = 0, oldTime = 0\<rparr>"
      32 5000 "[]"]
  by (simp add: timers_def)

end
