(* ===== verification/Wiring.thy ===== *)
theory Wiring
  imports Prelude
begin

text \<open>
  Time, delays and interrupt state of the Arduino core: \<open>src/arduino/cores/EFM/wiring.c\<close>, with the
  clock macros of \<open>interface.h\<close> and \<open>Elapsed\<close> of \<open>interface.c\<close>; the bit-banged shift registers of
  \<open>src/arduino/api/wiring_shift.c\<close> and the pulse measurement of \<open>wiring_pulse.c\<close>. \<open>F_CPU\<close> comes from
  the build and is the parameter \<open>f\<close>; readings of the hardware counter and of pins are parameters.
\<close>

section \<open>The clock\<close>

definition SYS_CT_FREQ :: "u32 \<Rightarrow> u32" where
  "SYS_CT_FREQ f = drop_bit 1 f"

definition CORE_TIMER_INTERRUPT_TICKS :: "u32 \<Rightarrow> u32" where
  "CORE_TIMER_INTERRUPT_TICKS f = SYS_CT_FREQ f div 1000"

definition CORE_TIMER_TICKS_PER_MICROSECOND :: "u32 \<Rightarrow> u32" where
  "CORE_TIMER_TICKS_PER_MICROSECOND f = SYS_CT_FREQ f div 1000000"

text \<open>
  The statics of \<open>wiring.c\<close>, the public count-down \<open>Timeout\<close> (an \<open>int\<close>), the CP0 compare register and
  the CP0 status register, whose bit 0 enables interrupts. \<open>msHandler\<close> is a code address, 0 for none.
\<close>

record clock =
  gMillis :: u32
  gOldCoreTime :: u32
  Timeout :: u32
  Compare :: u32
  msHandler :: u32
  Status :: u32

text \<open>The instructions \<open>ei\<close> and \<open>di\<close>.\<close>

definition ei :: "clock \<Rightarrow> clock" where
  "ei c = c\<lparr>Status := or (Status c) 1\<rparr>"

definition di :: "clock \<Rightarrow> clock" where
  "di c = c\<lparr>Status := and (Status c) (not 1)\<rparr>"

definition IE :: "clock \<Rightarrow> bool" where
  "IE c \<longleftrightarrow> and (Status c) 1 \<noteq> 0"

lemma ei_di_fields [simp]:
  "gMillis (ei c) = gMillis c" "gOldCoreTime (ei c) = gOldCoreTime c" "gMillis (di c) = gMillis c" "gOldCoreTime (di c) = gOldCoreTime c"
  by (simp_all add: ei_def di_def)

lemma ei_di [simp]: "IE (ei c)" "\<not> IE (di c)"
proof -
  have "and (or (Status c) 1) 1 = 1" "and (and (Status c) (not 1)) 1 = 0" by (rule bit_eqI; auto simp: bit_simps)+
  then show "IE (ei c)" "\<not> IE (di c)" by (simp_all add: IE_def ei_def di_def)
qed

text \<open>
  \<open>CoreTimerHandler\<close> with \<open>current\<close> the counter it reads; it returns the handler it calls, 0 for none.
\<close>

definition CoreTimerHandler :: "u32 \<Rightarrow> u32 \<Rightarrow> clock \<Rightarrow> u32 \<times> clock" where
  "CoreTimerHandler f current c =
     (let elapsed = current - gOldCoreTime c;
          increment = elapsed div CORE_TIMER_INTERRUPT_TICKS f;
          c = c\<lparr>gMillis := gMillis c + increment\<rparr>;
          c = c\<lparr>Timeout := Timeout c - increment\<rparr>;
          c = (if sint (Timeout c) < 0 then c\<lparr>Timeout := 0\<rparr> else c);
          c = c\<lparr>Compare := current + CORE_TIMER_INTERRUPT_TICKS f\<rparr>;
          c = c\<lparr>gOldCoreTime := current\<rparr>
      in (if msHandler c \<noteq> 0 then msHandler c else 0, c))"

text \<open>\<open>ENTER_CRITICAL\<close> keeps the whole status register, and \<open>EXIT_CRITICAL\<close> tests whether any bit of it is set.\<close>

definition msSetup :: "u32 \<Rightarrow> clock \<Rightarrow> clock" where
  "msSetup cb c = (let isrStatus = Status c; c = di c; c = c\<lparr>msHandler := cb\<rparr>
                   in if isrStatus \<noteq> 0 then ei c else c)"

definition millis :: "clock \<Rightarrow> u32" where
  "millis c = gMillis c"

text \<open>\<open>micros\<close> masks interrupts around the reading \<open>current\<close> and enables them in the end.\<close>

definition micros :: "u32 \<Rightarrow> u32 \<Rightarrow> clock \<Rightarrow> u32 \<times> clock" where
  "micros f current c =
     (let c = di c;
          result = millis c * 1000;
          current = current - gOldCoreTime c;
          current = current + CORE_TIMER_TICKS_PER_MICROSECOND f div 2;
          current = current div CORE_TIMER_TICKS_PER_MICROSECOND f;
          c = ei c
      in (result + current, c))"

definition Seconds :: "clock \<Rightarrow> u32" where
  "Seconds c = millis c div 1000"

definition interrupts :: "clock \<Rightarrow> clock" where
  "interrupts c = ei c"

definition noInterrupts :: "clock \<Rightarrow> clock" where
  "noInterrupts c = di c"

text \<open>\<open>di\<close> returns the status register as it was before.\<close>

definition disableInterrupts :: "clock \<Rightarrow> u32 \<times> clock" where
  "disableInterrupts c = (Status c, di c)"

definition restoreInterrupts :: "u32 \<Rightarrow> clock \<Rightarrow> clock" where
  "restoreInterrupts st c = (if and st 1 \<noteq> 0 then ei c else di c)"

text \<open>
  The waiting loops poll the clock: \<open>clk k\<close> is the \<open>k\<close>-th reading. They return the number of readings
  taken.
\<close>

partial_function (option) wait_loop :: "(nat \<Rightarrow> u32) \<Rightarrow> nat \<Rightarrow> u32 \<Rightarrow> u32 \<Rightarrow> nat option" where
  "wait_loop clk k start n = (if clk k - start < n then wait_loop clk (k + 1) start n else Some (k + 1))"

definition delayMicroseconds :: "(nat \<Rightarrow> u32) \<Rightarrow> u32 \<Rightarrow> nat option" where
  "delayMicroseconds clk us = (let start = clk 0 in wait_loop clk 1 start us)"

definition busy_delay :: "(nat \<Rightarrow> u32) \<Rightarrow> u32 \<Rightarrow> nat option" where
  "busy_delay clk ms = (let start = clk 0 in wait_loop clk 1 start ms)"

text \<open>
  \<open>delay\<close>: the busy loop without FreeRTOS or before its scheduler runs, \<open>vTaskDelay\<close> with this many ticks
  otherwise (\<open>Inr\<close>). \<open>portTICK_PERIOD_MS\<close> comes from the FreeRTOS configuration.
\<close>

definition delay :: "bool \<Rightarrow> bool \<Rightarrow> u32 \<Rightarrow> (nat \<Rightarrow> u32) \<Rightarrow> u32 \<Rightarrow> (nat + u32) option" where
  "delay freertos scheduler_started portTICK_PERIOD_MS clk ms =
     (if \<not> freertos then map_option Inl (busy_delay clk ms)
      else if \<not> scheduler_started then map_option Inl (busy_delay clk ms)
      else Some (Inr (ms div portTICK_PERIOD_MS)))"

definition Elapsed :: "u32 \<Rightarrow> u32 \<Rightarrow> u32" where
  "Elapsed startTime currentTime =
     (if currentTime \<ge> startTime then currentTime - startTime else (0xFFFFFFFF - currentTime) + startTime)"

section \<open>Shifting and pulses\<close>

text \<open>
  What \<open>shiftIn\<close> and \<open>shiftOut\<close> do to the pins: writes of a pin, in order. \<open>digitalRead\<close> answers
  from a parameter that sees the writes made so far.
\<close>

type_synonym pin_writes = "(u32 \<times> u32) list"

definition LSBFIRST :: u32 where "LSBFIRST = 0"
definition MSBFIRST :: u32 where "MSBFIRST = 1"

fun shiftIn_loop :: "(pin_writes \<Rightarrow> u32 \<Rightarrow> u32) \<Rightarrow> u32 \<Rightarrow> u32 \<Rightarrow> u32 \<Rightarrow> nat \<Rightarrow> u32 \<times> pin_writes \<Rightarrow> u32 \<times> pin_writes" where
  "shiftIn_loop rd dataPin clockPin bitOrder 0 s = s"
| "shiftIn_loop rd dataPin clockPin bitOrder (Suc n) (value, w) =
     (let i = 7 - n;
          w = w @ [(clockPin, 1)];
          value = (if bitOrder = LSBFIRST then or value (push_bit i (rd w dataPin))
                   else or value (push_bit (7 - i) (rd w dataPin)));
          w = w @ [(clockPin, 0)]
      in shiftIn_loop rd dataPin clockPin bitOrder n (value, w))"

definition shiftIn :: "(pin_writes \<Rightarrow> u32 \<Rightarrow> u32) \<Rightarrow> u32 \<Rightarrow> u32 \<Rightarrow> u32 \<Rightarrow> pin_writes \<Rightarrow> u32 \<times> pin_writes" where
  "shiftIn rd dataPin clockPin bitOrder w = shiftIn_loop rd dataPin clockPin bitOrder 8 (0, w)"

fun shiftOut_loop :: "u32 \<Rightarrow> u32 \<Rightarrow> u32 \<Rightarrow> u32 \<Rightarrow> nat \<Rightarrow> pin_writes \<Rightarrow> pin_writes" where
  "shiftOut_loop dataPin clockPin bitOrder val 0 w = w"
| "shiftOut_loop dataPin clockPin bitOrder val (Suc n) w =
     (let i = 7 - n;
          w = (if bitOrder = LSBFIRST then w @ [(dataPin, if and val (push_bit i 1) \<noteq> 0 then 1 else 0)]
               else w @ [(dataPin, if and val (push_bit (7 - i) 1) \<noteq> 0 then 1 else 0)]);
          w = w @ [(clockPin, 1)];
          w = w @ [(clockPin, 0)]
      in shiftOut_loop dataPin clockPin bitOrder val n w)"

definition shiftOut :: "u32 \<Rightarrow> u32 \<Rightarrow> u32 \<Rightarrow> u32 \<Rightarrow> pin_writes \<Rightarrow> pin_writes" where
  "shiftOut dataPin clockPin bitOrder val w = shiftOut_loop dataPin clockPin bitOrder val 8 w"

text \<open>
  \<open>pulseIn\<close>: every pass reads the clock, then the pin; \<open>us k\<close> and \<open>pin k\<close> are the \<open>k\<close>-th readings.
\<close>

partial_function (option) pulse_wait ::
  "(nat \<Rightarrow> u32) \<Rightarrow> (nat \<Rightarrow> u32) \<Rightarrow> (u32 \<Rightarrow> bool) \<Rightarrow> u32 \<Rightarrow> nat \<Rightarrow> u32 \<Rightarrow> u32 \<Rightarrow> (nat \<times> u32 \<times> u32) option" where
  "pulse_wait us pin going max_time k curr_time pin_state =
     (if going pin_state \<and> curr_time < max_time
      then pulse_wait us pin going max_time (k + 1) (us k) (pin k)
      else Some (k, curr_time, pin_state))"

definition pulseIn :: "(nat \<Rightarrow> u32) \<Rightarrow> (nat \<Rightarrow> u32) \<Rightarrow> u32 \<Rightarrow> u32 \<Rightarrow> u32 option" where
  "pulseIn us pin state timeout = do {
     let init_time = us 0;
     let max_time = init_time + timeout;
     (k, t, p) \<leftarrow> pulse_wait us pin (\<lambda>p. p = state) max_time 1 init_time (pin 0);
     (k', t', p') \<leftarrow> pulse_wait us pin (\<lambda>p. p \<noteq> state) max_time k t p;
     let init_time = (if k' = k then init_time else t');
     (k'', t'', p'') \<leftarrow> pulse_wait us pin (\<lambda>p. p = state) max_time k' t' p';
     Some (if t'' < max_time then t'' - init_time else 0)
   }"

section \<open>Lemmas\<close>

lemma wait_loop_returns:
  assumes "n \<le> clk (k + j) - start"
  shows "\<exists>i. k \<le> i \<and> wait_loop clk k start n = Some (i + 1) \<and> n \<le> clk i - start
    \<and> (\<forall>l. k \<le> l \<longrightarrow> l < i \<longrightarrow> clk l - start < n)"
  using assms
proof (induction j arbitrary: k)
  case 0
  then show ?case by (subst wait_loop.simps) (auto simp: not_less intro!: exI [of _ k])
next
  case (Suc j)
  show ?case
  proof (cases "clk k - start < n")
    case True
    obtain i where i: "k + 1 \<le> i" "wait_loop clk (k + 1) start n = Some (i + 1)" "n \<le> clk i - start"
        "\<forall>l. k + 1 \<le> l \<longrightarrow> l < i \<longrightarrow> clk l - start < n"
      using Suc.IH [of "k + 1"] Suc.prems by auto
    have "clk l - start < n" if "k \<le> l" "l < i" for l
      using that i(4) True by (cases "l = k") auto
    then show ?thesis using True i by (subst wait_loop.simps) (auto intro!: exI [of _ i])
  next
    case False
    then show ?thesis by (subst wait_loop.simps) (auto simp: not_less intro!: exI [of _ k])
  qed
qed

text \<open>A run of timer interrupts; each is taken \<open>g\<close> ticks after the one before.\<close>

fun tick_run :: "u32 \<Rightarrow> nat list \<Rightarrow> clock \<Rightarrow> clock" where
  "tick_run f [] c = c"
| "tick_run f (g # gs) c = tick_run f gs (snd (CoreTimerHandler f (gOldCoreTime c + of_nat g) c))"

lemma CoreTimerHandler_clock:
  fixes f :: u32 and c :: clock
  assumes "g < 2 ^ 32"
  defines "T \<equiv> unat (CORE_TIMER_INTERRUPT_TICKS f)" and "c' \<equiv> snd (CoreTimerHandler f (gOldCoreTime c + of_nat g) c)"
  shows "gMillis c' = gMillis c + of_nat (g div T)" "gOldCoreTime c' = gOldCoreTime c + of_nat g"
    "Compare c' = gOldCoreTime c + of_nat g + CORE_TIMER_INTERRUPT_TICKS f"
    "Timeout c' = (if sint (Timeout c - of_nat (g div T)) < 0 then 0 else Timeout c - of_nat (g div T))"
    "Status c' = Status c" "msHandler c' = msHandler c"
proof -
  have "(of_nat g :: u32) div CORE_TIMER_INTERRUPT_TICKS f = of_nat (g div T)"
    using assms(1) by (simp add: T_def word_arith_nat_div unat_of_nat_u32)
  then show "gMillis c' = gMillis c + of_nat (g div T)" "gOldCoreTime c' = gOldCoreTime c + of_nat g"
    "Compare c' = gOldCoreTime c + of_nat g + CORE_TIMER_INTERRUPT_TICKS f"
    "Timeout c' = (if sint (Timeout c - of_nat (g div T)) < 0 then 0 else Timeout c - of_nat (g div T))"
    "Status c' = Status c" "msHandler c' = msHandler c"
    by (simp_all add: c'_def CoreTimerHandler_def Let_def)
qed

text \<open>
  C38: Over any run of timer interrupts \<open>millis\<close> advances by the whole milliseconds of each gap. The part
  of a gap that is not a whole millisecond is dropped, not carried over: the ticks that passed are the
  milliseconds counted plus the sum of the remainders. Late interrupts make the clock lose time.
\<close>

theorem millis_counts_whole_gaps:
  assumes "\<forall>g \<in> set gs. g < 2 ^ 32"
  shows "let T = unat (CORE_TIMER_INTERRUPT_TICKS f); c' = tick_run f gs c; ms = (\<Sum>g\<leftarrow>gs. g div T) in
    millis c' = millis c + of_nat ms \<and> gOldCoreTime c' = gOldCoreTime c + of_nat (sum_list gs)
    \<and> sum_list gs = ms * T + (\<Sum>g\<leftarrow>gs. g mod T)"
  using assms
proof (induction gs arbitrary: c)
  case (Cons g gs)
  let ?T = "unat (CORE_TIMER_INTERRUPT_TICKS f)"
  have g: "g < 2 ^ 32" using Cons.prems by simp
  have "g = g div ?T * ?T + g mod ?T" by simp
  moreover note CoreTimerHandler_clock [OF g, of f c]
  moreover note Cons.IH [of "snd (CoreTimerHandler f (gOldCoreTime c + of_nat g) c)"] Cons.prems
  ultimately show ?case by (simp add: Let_def millis_def algebra_simps)
qed (simp add: Let_def)

lemma millis_counts_whole_gaps_witness:
  "let c' = tick_run 200000000 [150000, 150000] \<lparr>gMillis = 0, gOldCoreTime = 0, Timeout = 0, Compare = 100000, msHandler = 0, Status = 1\<rparr>
   in millis c' = 2 \<and> gOldCoreTime c' = 300000"
  using millis_counts_whole_gaps [of "[150000, 150000]" 200000000
      "\<lparr>gMillis = 0, gOldCoreTime = 0, Timeout = 0, Compare = 100000, msHandler = 0, Status = 1\<rparr>"]
  by (simp add: CORE_TIMER_INTERRUPT_TICKS_def SYS_CT_FREQ_def millis_def Let_def)

text \<open>
  Both waiting loops return when the clock gets that far, at the first reading that is at least the
  requested time after the first one, also when the 32-bit counter wraps in between.
\<close>

theorem delay_waits_long_enough:
  assumes "1 \<le> j" and "n \<le> clk j - clk 0"
  shows "\<exists>i \<ge> 1. busy_delay clk n = Some (i + 1) \<and> delayMicroseconds clk n = Some (i + 1)
    \<and> n \<le> clk i - clk 0 \<and> (\<forall>l. 1 \<le> l \<longrightarrow> l < i \<longrightarrow> clk l - clk 0 < n)"
  using wait_loop_returns [of n clk 1 "j - 1" "clk 0"] assms
  by (simp add: busy_delay_def delayMicroseconds_def Let_def)

lemma delay_waits_long_enough_witness:
  "\<exists>i \<ge> 1. busy_delay (\<lambda>k. 0xFFFFFFFE + of_nat k) 5 = Some (i + 1) \<and> 5 \<le> 0xFFFFFFFE + of_nat i - (0xFFFFFFFE :: u32)"
  using delay_waits_long_enough [of 6 5 "\<lambda>k. 0xFFFFFFFE + of_nat k"] by auto

text \<open>
  C39: \<open>micros\<close> runs backwards across a late timer interrupt. With whole microseconds in a timer period and
  the interrupt taken \<open>g\<close> ticks after the last one, at least one period and less than two, the reading
  right before the interrupt is larger than the reading right after it, at the same counter value, by the
  microseconds the interrupt was late (to the nearest).
\<close>

theorem micros_not_monotone:
  fixes f :: u32 and c :: clock
  assumes T: "unat (CORE_TIMER_INTERRUPT_TICKS f) = 1000 * P" and P: "unat (CORE_TIMER_TICKS_PER_MICROSECOND f) = P" "0 < P"
    and g: "1000 * P \<le> g" "g < 2000 * P" and small: "P < 2 ^ 20"
  defines "cur \<equiv> gOldCoreTime c + of_nat g" and "late \<equiv> (g - 1000 * P + P div 2) div P"
  shows "fst (micros f cur c) = fst (micros f cur (snd (CoreTimerHandler f cur c))) + of_nat late
    \<and> (P < g - 1000 * P \<longrightarrow> 0 < late)"
proof -
  have g32: "g < 2 ^ 32" using g small by simp
  note h = CoreTimerHandler_clock [OF g32, of f c]
  have P': "CORE_TIMER_TICKS_PER_MICROSECOND f = of_nat P" using P(1) by (metis unat_of_nat_u32 word_unat_eq_iff unat_lt_u32)
  have rd: "(of_nat d + CORE_TIMER_TICKS_PER_MICROSECOND f div 2) div CORE_TIMER_TICKS_PER_MICROSECOND f
      = of_nat ((d + P div 2) div P)" if "d < 2000 * P" for d
  proof -
    have b: "d + P div 2 < 2 ^ 32" "P < 2 ^ 32" using that small by auto
    have "CORE_TIMER_TICKS_PER_MICROSECOND f div 2 = of_nat (P div 2)"
      by (simp add: word_arith_nat_div P(1))
    then have "of_nat d + CORE_TIMER_TICKS_PER_MICROSECOND f div 2 = of_nat (d + P div 2)" by simp
    then show ?thesis using b by (simp only: word_arith_nat_div P(1) unat_of_nat_u32)
  qed
  have q: "g div (1000 * P) = 1" using g by (intro div_nat_eqI) auto
  have m: "(g + P div 2) div P = 1000 + late"
  proof -
    have "g + P div 2 = (g - 1000 * P + P div 2) + 1000 * P" using g by simp
    then have "(g + P div 2) div P = ((g - 1000 * P + P div 2) + 1000 * P) div P" by (rule arg_cong)
    also have "\<dots> = (g - 1000 * P + P div 2) div P + 1000" using P(2) by simp
    finally show ?thesis by (simp add: late_def)
  qed
  have before: "fst (micros f cur c) = gMillis c * 1000 + (of_nat (1000 + late) :: u32)"
    using rd [OF g(2)] by (simp add: micros_def cur_def millis_def Let_def m)
  have zero: "(P div 2) div P = 0" using P(2) by simp
  have after: "fst (micros f cur (snd (CoreTimerHandler f cur c))) = (gMillis c + 1) * 1000"
    using rd [of 0] P(2) h zero by (simp add: micros_def cur_def millis_def Let_def T q)
  have "0 < late" if "P < g - 1000 * P"
    using that P(2) unfolding late_def by (simp add: div_greater_zero_iff)
  then show ?thesis using before after by (simp add: algebra_simps)
qed

lemma micros_not_monotone_witness:
  "let c = \<lparr>gMillis = 7, gOldCoreTime = 0, Timeout = 0, Compare = 100000, msHandler = 0, Status = 1\<rparr>;
       c' = snd (CoreTimerHandler 200000000 105000 c)
   in fst (micros 200000000 105000 c) = fst (micros 200000000 105000 c') + 50"
  using micros_not_monotone [of 200000000 100 105000
      "\<lparr>gMillis = 7, gOldCoreTime = 0, Timeout = 0, Compare = 100000, msHandler = 0, Status = 1\<rparr>"]
  by (simp add: CORE_TIMER_INTERRUPT_TICKS_def CORE_TIMER_TICKS_PER_MICROSECOND_def SYS_CT_FREQ_def)

text \<open>
  A critical section made of \<open>disableInterrupts\<close> and \<open>restoreInterrupts\<close> puts the interrupt state
  back whatever it was, so that such sections nest; inside the section interrupts are off. But
  \<open>micros\<close> inside a section turns them on.
\<close>

theorem critical_section_nests:
  "let (st, c1) = disableInterrupts c in
    \<not> IE c1 \<and> (\<forall>c2. IE (restoreInterrupts st c2) = IE c)
    \<and> restoreInterrupts st c1 = c \<and> (\<forall>f cur. IE (snd (micros f cur c1)))"
proof -
  have b: "and (Status c) 1 \<noteq> 0 \<longleftrightarrow> bit (Status c) 0" by (simp add: and_one_eq odd_iff_mod_2_eq_one bit_0)
  have "or (and (Status c) (not 1)) 1 = Status c" if "and (Status c) 1 \<noteq> 0"
  proof (rule bit_word_eqI)
    show "bit (or (and (Status c) (not 1)) 1) n \<longleftrightarrow> bit (Status c) n" if "n < LENGTH(32)" for n
      using that b \<open>and (Status c) 1 \<noteq> 0\<close> by (cases "n = 0") (simp_all add: bit_simps)
  qed
  moreover have "and (Status c) (not 1) = Status c" if "and (Status c) 1 = 0"
  proof (rule bit_word_eqI)
    show "bit (and (Status c) (not 1)) n \<longleftrightarrow> bit (Status c) n" if "n < LENGTH(32)" for n
      using that b \<open>and (Status c) 1 = 0\<close> by (cases "n = 0") (simp_all add: bit_simps)
  qed
  ultimately have "restoreInterrupts (Status c) (di c) = c"
    by (cases "and (Status c) 1 = 0") (simp_all add: restoreInterrupts_def ei_def di_def)
  moreover have "IE (restoreInterrupts (Status c) c2) = IE c" for c2 by (simp add: restoreInterrupts_def IE_def [of c])
  ultimately show ?thesis by (simp add: disableInterrupts_def micros_def Let_def)
qed

text \<open>
  The macros \<open>ENTER_CRITICAL\<close> and \<open>EXIT_CRITICAL\<close> do not nest: the exit asks whether any bit of the saved status
  register is set, so with interrupts masked before, and some other bit set, \<open>msSetup\<close> turns interrupts on.
\<close>

theorem msSetup_enables_interrupts:
  "IE (msSetup cb c) = (Status c \<noteq> 0)" "msHandler (msSetup cb c) = cb"
proof -
  have "\<not> IE (c'\<lparr>msHandler := cb\<rparr>)" if "\<not> IE c'" for c' using that by (simp add: IE_def)
  then show "IE (msSetup cb c) = (Status c \<noteq> 0)" "msHandler (msSetup cb c) = cb" by (simp_all add: msSetup_def Let_def) (simp_all add: ei_def)
qed

text \<open>
  \<open>Elapsed\<close> is the time passed when the counter has not wrapped. When it has, \<open>Elapsed\<close> is what
  is missing to a full turn of the counter less one, the complement of the time passed, and never the
  time passed.
\<close>

theorem Elapsed_after_wrap:
  "(startTime \<le> currentTime \<longrightarrow> Elapsed startTime currentTime = currentTime - startTime)
    \<and> (currentTime < startTime \<longrightarrow> Elapsed startTime currentTime = not (currentTime - startTime)
        \<and> Elapsed startTime currentTime \<noteq> currentTime - startTime)"
proof -
  have ne: "not x \<noteq> x" for x :: u32
  proof
    assume "not x = x"
    then have "bit (not x) 0 = bit x 0" by (rule arg_cong)
    then show False by (simp add: bit_not_iff)
  qed
  have minus1: "(0xFFFFFFFF :: u32) = - 1" by simp
  then show ?thesis using ne [of "currentTime - startTime"]
    by (auto simp: Elapsed_def not_eq_complement not_le minus1)
qed


text \<open>The values of the data pin that a device latches on the rising edges of the clock pin.\<close>

fun latched :: "u32 \<Rightarrow> u32 \<Rightarrow> u32 \<Rightarrow> pin_writes \<Rightarrow> u32 list" where
  "latched d ck cur [] = []"
| "latched d ck cur ((p, v) # w) =
     (if p = d then latched d ck v w else if p = ck \<and> v = 1 then cur # latched d ck cur w else latched d ck cur w)"

lemma latched_clocked:
  "d \<noteq> ck \<Longrightarrow> latched d ck cur (concat (map (\<lambda>i. [(d, f i), (ck, 1), (ck, 0)]) js)) = map f js"
  by (induction js arbitrary: cur) auto

lemma shiftOut_loop_writes:
  "n \<le> 8 \<Longrightarrow> shiftOut_loop d ck ord val n w = w @ concat (map (\<lambda>i.
     [(d, if bit val (if ord = LSBFIRST then i else 7 - i) then 1 else 0), (ck, 1), (ck, 0)]) [8 - n..<8])"
proof (induction n arbitrary: w)
  case (Suc n)
  have b: "(and val (2 ^ i) \<noteq> 0) = bit val i" "(and val (2 ^ i) = 0) = (\<not> bit val i)" for i
    by (simp_all add: bit_iff_and_push_bit_not_eq_0)
  have u: "[8 - Suc n..<8] = (7 - n) # [8 - n..<8]"
  proof -
    have "Suc (7 - n) = 8 - n" using Suc.prems by simp
    then show ?thesis by (subst upt_conv_Cons) simp_all
  qed
  show ?case using Suc unfolding u by (simp add: Let_def b)
qed simp

lemma shiftIn_loop_reads:
  assumes "n \<le> 8" and "length (filter (\<lambda>x. x = (ck, 1)) w) = 8 - n"
    and "\<And>w. rd w d = bits ! (length (filter (\<lambda>x. x = (ck, 1)) w) - 1)"
    and "\<And>i. i < 8 \<Longrightarrow> bits ! i = (if bit val (if ord = LSBFIRST then i else 7 - i) then 1 else 0)"
  shows "bit (fst (shiftIn_loop rd d ck ord n (v, w))) k \<longleftrightarrow> bit v k
    \<or> (\<exists>i \<in> {8 - n..<8}. k = (if ord = LSBFIRST then i else 7 - i) \<and> bit val k)"
  using assms(1,2)
proof (induction n arbitrary: v w)
  case (Suc n)
  define i where "i = 7 - n"
  define j where "j = (if ord = LSBFIRST then i else 7 - i)"
  have i: "i < 8" "8 - Suc n = i" "8 - n = Suc i" "j < 32" using Suc.prems(1) by (auto simp: i_def j_def)
  have rd: "rd (w @ [(ck, 1)]) d = (if bit val j then 1 else 0)"
    using assms(3,4) Suc.prems(2) i by (simp add: j_def)
  have pb: "bit (push_bit j (if c then 1 else 0) :: u32) k \<longleftrightarrow> c \<and> k = j" for c k
    using i(4) by (auto simp: bit_simps)
  have step: "shiftIn_loop rd d ck ord (Suc n) (v, w)
      = shiftIn_loop rd d ck ord n (or v (push_bit j (if bit val j then 1 else 0)), w @ [(ck, 1), (ck, 0)])"
    using rd by (simp add: Let_def i_def [symmetric] j_def)
  have "{i..<8} = insert i {Suc i..<8}" using i(1) by auto
  then have ex: "(\<exists>l \<in> {i..<8}. P l) \<longleftrightarrow> P i \<or> (\<exists>l \<in> {Suc i..<8}. P l)" for P by simp
  have v': "bit (or v (push_bit j (if bit val j then 1 else 0))) k \<longleftrightarrow> bit v k \<or> (k = j \<and> bit val k)"
    by (simp only: bit_or_iff pb) auto
  have "bit (fst (shiftIn_loop rd d ck ord (Suc n) (v, w))) k \<longleftrightarrow>
      bit (or v (push_bit j (if bit val j then 1 else 0))) k
      \<or> (\<exists>i \<in> {8 - n..<8}. k = (if ord = LSBFIRST then i else 7 - i) \<and> bit val k)"
    unfolding step by (rule Suc.IH) (use Suc.prems i in simp_all)
  then show ?case unfolding v' i(2,3) ex unfolding j_def by blast
qed simp

text \<open>
  C40: A shift register driven by \<open>shiftOut\<close> latches the eight low bits of the value, lowest first or
  highest first as asked; \<open>shiftIn\<close> from a device that presents these bits, one after each rising clock
  edge, reads the low byte back, in either bit order.
\<close>

theorem shift_roundtrip:
  fixes val ord :: u32
  assumes "dataPin \<noteq> clockPin"
  defines "bits \<equiv> latched dataPin clockPin 0 (shiftOut dataPin clockPin ord val [])"
  shows "bits = map (\<lambda>i. if bit val (if ord = LSBFIRST then i else 7 - i) then 1 else 0) [0..<8]
    \<and> fst (shiftIn (\<lambda>w p. bits ! (length (filter (\<lambda>x. x = (clockPin, 1)) w) - 1)) dataPin clockPin ord [])
      = and val 0xFF"
proof -
  have bits: "bits = map (\<lambda>i. if bit val (if ord = LSBFIRST then i else 7 - i) then 1 else 0) [0..<8]"
    using latched_clocked [OF assms(1)] by (simp add: bits_def shiftOut_def shiftOut_loop_writes)
  have m: "bit (and val 0xFF) n \<longleftrightarrow> n < 8 \<and> bit val n" for n
  proof -
    have e: "(0xFF :: u32) = mask 8" by (simp add: mask_eq_exp_minus_1)
    show ?thesis by (simp only: e bit_and_iff bit_mask_iff possible_bit_word) auto
  qed
  have "fst (shiftIn (\<lambda>w p. bits ! (length (filter (\<lambda>x. x = (clockPin, 1)) w) - 1)) dataPin clockPin ord []) = and val 0xFF"
  proof (rule bit_word_eqI)
    fix n assume "n < LENGTH(32)"
    have "(\<exists>i \<in> {0..<8}. n = (if ord = LSBFIRST then i else 7 - i)) \<longleftrightarrow> n < 8"
      by (cases "ord = LSBFIRST") (auto intro: bexI [of _ "7 - n"])
    then show "bit (fst (shiftIn (\<lambda>w p. bits ! (length (filter (\<lambda>x. x = (clockPin, 1)) w) - 1)) dataPin clockPin ord [])) n
      = bit (and val 0xFF) n"
      unfolding m shiftIn_def by (subst shiftIn_loop_reads [of _ _ _ _ _ bits val]) (auto simp: bits)
  qed
  with bits show ?thesis by simp
qed

lemma shift_roundtrip_witness:
  "latched 3 4 0 (shiftOut 3 4 MSBFIRST 0xA5 []) = map (\<lambda>i. if bit (0xA5 :: u32) (7 - i) then 1 else 0) [0..<8]"
  using shift_roundtrip [of 3 4 MSBFIRST "0xA5"] by (simp add: MSBFIRST_def LSBFIRST_def)


lemma pulse_wait_stop: "\<not> (going p \<and> t < mx) \<Longrightarrow> pulse_wait us pin going mx k t p = Some (k, t, p)"
  by (subst pulse_wait.simps) auto

lemma pulse_wait_step:
  "going p \<Longrightarrow> t < mx \<Longrightarrow> pulse_wait us pin going mx k t p = pulse_wait us pin going mx (k + 1) (us k) (pin k)"
  by (subst pulse_wait.simps) simp

lemma pulse_wait_runs:
  assumes "k \<le> n" and "going p" and "t < mx" and "\<And>j. k \<le> j \<Longrightarrow> j < n \<Longrightarrow> going (pin j) \<and> us j < mx"
    and "\<not> (going (pin n) \<and> us n < mx)"
  shows "pulse_wait us pin going mx k t p = Some (n + 1, us n, pin n)"
  using assms
proof (induction "n - k" arbitrary: k t p)
  case 0
  then have "k = n" by simp
  then show ?case
    using pulse_wait_step [of going p t mx us pin k] pulse_wait_stop [of going "pin n" "us n" mx us pin "n + 1"] 0
    by simp
next
  case (Suc d)
  then have "k < n" by simp
  then have "pulse_wait us pin going mx (k + 1) (us k) (pin k) = Some (n + 1, us n, pin n)"
    using Suc by (intro Suc.hyps(1)) auto
  then show ?case using Suc.prems by (subst pulse_wait.simps) simp
qed

lemma pulse_wait_returns:
  assumes "k \<le> n" and "mx \<le> us n"
  shows "\<exists>k' t' p'. pulse_wait us pin going mx k t p = Some (k', t', p') \<and> (k' \<le> n \<or> mx \<le> t')"
  using assms
proof (induction "n - k" arbitrary: k t p)
  case 0
  then have k: "k = n" by simp
  show ?case
  proof (cases "going p \<and> t < mx")
    case True
    then show ?thesis
      using pulse_wait_step [of going p t mx us pin k] pulse_wait_stop [of going "pin n" "us n" mx us pin "n + 1"]
        0 k by (auto simp: not_less)
  next
    case False
    then show ?thesis using pulse_wait_stop [of going p t mx us pin k] k by simp
  qed
next
  case (Suc d)
  have "\<exists>k' t' p'. pulse_wait us pin going mx (k + 1) (us k) (pin k) = Some (k', t', p') \<and> (k' \<le> n \<or> mx \<le> t')"
    using Suc by (intro Suc.hyps(1)) auto
  then show ?case using Suc.prems by (subst pulse_wait.simps) auto
qed

lemma pulse_wait_late: "mx \<le> t \<Longrightarrow> pulse_wait us pin going mx k t p = Some (k, t, p)"
  by (rule pulse_wait_stop) (simp add: not_less)

text \<open>
  \<open>pulseIn\<close> returns as soon as the clock has reached the time limit, whatever the pin does. It
  measures a pulse that starts and ends within the limit from the reading that first sees it to the
  reading that first sees it gone. But when the start time plus the timeout wraps, it returns 0 without
  looking for a pulse.
\<close>

theorem pulseIn_measures:
  "((\<exists>j. us 0 + timeout \<le> us j) \<longrightarrow> (\<exists>v. pulseIn us pin state timeout = Some v))
    \<and> (0 < a \<and> a < b \<and> (\<forall>k < a. pin k \<noteq> state) \<and> (\<forall>k \<in> {a..<b}. pin k = state) \<and> pin b \<noteq> state
        \<and> (\<forall>k \<le> b. us k < us 0 + timeout) \<longrightarrow> pulseIn us pin state timeout = Some (us b - us a))
    \<and> (us 0 + timeout < us 0 \<longrightarrow> pulseIn us pin state timeout = Some 0)"
proof (intro conjI impI)
  let ?mx = "us 0 + timeout"
  assume "\<exists>j. ?mx \<le> us j"
  then obtain j where j: "?mx \<le> us j" by blast
  show "\<exists>v. pulseIn us pin state timeout = Some v"
  proof (cases "?mx \<le> us 0")
    case True
    then show ?thesis by (simp add: pulseIn_def Let_def pulse_wait_late)
  next
    case False
    then have n: "1 \<le> j" using j by (cases j) auto
    have step: "\<exists>k' t' p'. pulse_wait us pin going ?mx k t p = Some (k', t', p') \<and> (k' \<le> j \<or> ?mx \<le> t')"
      if "k \<le> j \<or> ?mx \<le> t" for going k t p
      using that pulse_wait_returns [of k j ?mx us pin going t p] j
        pulse_wait_late [of ?mx t us pin going k p] by auto
    obtain k1 t1 p1 where 1: "pulse_wait us pin (\<lambda>p. p = state) ?mx 1 (us 0) (pin 0) = Some (k1, t1, p1)"
        "k1 \<le> j \<or> ?mx \<le> t1" using step n by blast
    obtain k2 t2 p2 where 2: "pulse_wait us pin (\<lambda>p. p \<noteq> state) ?mx k1 t1 p1 = Some (k2, t2, p2)"
        "k2 \<le> j \<or> ?mx \<le> t2" using step [OF 1(2)] by blast
    obtain k3 t3 p3 where 3: "pulse_wait us pin (\<lambda>p. p = state) ?mx k2 t2 p2 = Some (k3, t3, p3)"
      using step [OF 2(2)] by blast
    show ?thesis by (simp add: pulseIn_def Let_def 1 [unfolded One_nat_def] 2 3)
  qed
next
  let ?mx = "us 0 + timeout"
  assume A: "0 < a \<and> a < b \<and> (\<forall>k < a. pin k \<noteq> state) \<and> (\<forall>k \<in> {a..<b}. pin k = state) \<and> pin b \<noteq> state
        \<and> (\<forall>k \<le> b. us k < ?mx)"
  then have a: "0 < a" "a < b" "us 0 < ?mx" "pin 0 \<noteq> state" by auto
  have 1: "pulse_wait us pin (\<lambda>p. p = state) ?mx 1 (us 0) (pin 0) = Some (1, us 0, pin 0)"
    using a by (subst pulse_wait.simps) simp
  have 2: "pulse_wait us pin (\<lambda>p. p \<noteq> state) ?mx 1 (us 0) (pin 0) = Some (a + 1, us a, pin a)"
    by (rule pulse_wait_runs) (use A a in auto)
  have 3: "pulse_wait us pin (\<lambda>p. p = state) ?mx (a + 1) (us a) (pin a) = Some (b + 1, us b, pin b)"
    by (rule pulse_wait_runs) (use A a in auto)
  show "pulseIn us pin state timeout = Some (us b - us a)"
    unfolding pulseIn_def Let_def 1 using 2 3 A a by simp
next
  assume "us 0 + timeout < us 0"
  then show "pulseIn us pin state timeout = Some 0"
    by (simp add: pulseIn_def Let_def pulse_wait_late)
qed

lemma pulseIn_measures_witness:
  "pulseIn (\<lambda>k. of_nat (10 * k)) (\<lambda>k. if 3 \<le> k \<and> k < 8 then 1 else 0) 1 1000 = Some 50
    \<and> pulseIn (\<lambda>k. 0xFFFFFF00 + of_nat k) (\<lambda>k. if 3 \<le> k \<and> k < 8 then 1 else 0) 1 1000 = Some 0"
proof -
  have "k = 0 \<or> k = 1 \<or> k = 2 \<or> k = 3 \<or> k = 4 \<or> k = 5 \<or> k = 6 \<or> k = 7 \<or> k = 8" if "k \<le> 8" for k :: nat
    using that by auto
  then have "\<forall>k \<le> 8. (of_nat (10 * k) :: u32) < of_nat (10 * 0) + 1000" by fastforce
  then show ?thesis
    using pulseIn_measures [of "\<lambda>k. of_nat (10 * k)" 1000 "\<lambda>k. if 3 \<le> k \<and> k < 8 then 1 else 0" 1 3 8]
      pulseIn_measures [of "\<lambda>k. 0xFFFFFF00 + of_nat k" 1000 "\<lambda>k. if 3 \<le> k \<and> k < 8 then 1 else 0" 1 3 8]
    by simp
qed

text \<open>
  \<open>Timeout\<close> counts down by the milliseconds of each timer interrupt and stops at 0.
\<close>

theorem Timeout_counts_down:
  assumes "g < 2 ^ 32" and "0 \<le> sint (Timeout c)" and "g div unat (CORE_TIMER_INTERRUPT_TICKS f) < 2 ^ 31"
  shows "sint (Timeout (snd (CoreTimerHandler f (gOldCoreTime c + of_nat g) c)))
    = max 0 (sint (Timeout c) - int (g div unat (CORE_TIMER_INTERRUPT_TICKS f)))"
proof -
  let ?d = "g div unat (CORE_TIMER_INTERRUPT_TICKS f)"
  have d: "sint (of_nat ?d :: u32) = int ?d"
    using assms(3) by (simp add: signed_of_nat signed_take_bit_int_eq_self)
  have t: "sint (Timeout c) < 2 ^ 31" using sint_less [of "Timeout c"] by simp
  have "sint (Timeout c - of_nat ?d) = sint (Timeout c) - int ?d"
    using assms(2,3) t d by (simp add: signed_take_bit_int_eq_self sint_word_ariths)
  then show ?thesis using CoreTimerHandler_clock(4) [OF assms(1), of f c] by (simp add: max_def)
qed

lemma Timeout_counts_down_witness:
  "sint (Timeout (snd (CoreTimerHandler 200000000 300000
     \<lparr>gMillis = 0, gOldCoreTime = 0, Timeout = 2, Compare = 0, msHandler = 0, Status = 1\<rparr>))) = 0"
  using Timeout_counts_down [of 300000 "\<lparr>gMillis = 0, gOldCoreTime = 0, Timeout = 2, Compare = 0, msHandler = 0, Status = 1\<rparr>" 200000000]
  by (simp add: CORE_TIMER_INTERRUPT_TICKS_def SYS_CT_FREQ_def)

end
