(* ===== verification/Gpio.thy ===== *)
theory Gpio
  imports Prelude
begin

text \<open>
  Pins and interrupt sources: \<open>src/arduino/cores/EFM/wiring_digital.c\<close>, the interrupt controller
  functions of \<open>src/include/hal_irq.h\<close> and the PWM prescaler of \<open>wiring_analog.c\<close>. Registers of the
  PIC32MZ come in groups of four words, the register and the addresses that clear, set and invert its
  bits; \<open>sfr_write\<close> is that documented behaviour. Vector numbers and the two bit masks of \<open>CNCONx\<close>
  come from the XC32 device headers and are parameters, as are the callbacks of the application.
\<close>

section \<open>Registers\<close>

definition sfr_write :: "nat \<Rightarrow> u32 \<Rightarrow> (nat \<Rightarrow> u32) \<Rightarrow> nat \<Rightarrow> u32" where
  "sfr_write a v r =
     (let b = a - a mod 4
      in r(b := (if a mod 4 = 0 then v else if a mod 4 = 1 then and (r b) (not v)
                 else if a mod 4 = 2 then or (r b) v else xor (r b) v)))"

text \<open>\<open>TREG_ENUM\<close>: word offsets in the register block of a port.\<close>

definition REG_CLR :: nat where "REG_CLR = 1"
definition REG_SET :: nat where "REG_SET = 2"
definition REG_INV :: nat where "REG_INV = 3"
definition ANSEL :: nat where "ANSEL = 0"
definition TRIS :: nat where "TRIS = 4"
definition PORT :: nat where "PORT = 8"
definition LAT :: nat where "LAT = 12"
definition CNPU :: nat where "CNPU = 20"
definition CNPD :: nat where "CNPD = 24"
definition CNCON :: nat where "CNCON = 28"
definition CNEN :: nat where "CNEN = 32"
definition CNSTAT :: nat where "CNSTAT = 36"
definition CNNE :: nat where "CNNE = 40"
definition CNF :: nat where "CNF = 44"
definition GPIO_W_SIZE :: nat where "GPIO_W_SIZE = 64"

text \<open>Pin modes of \<open>src/arduino/api/constants.h\<close>.\<close>

definition INPUT_PULLUP :: u32 where "INPUT_PULLUP = 2"
definition INPUT_PULLDOWN :: u32 where "INPUT_PULLDOWN = 4"
definition OUTPUT :: u32 where "OUTPUT = 8"
definition OUTPUT_LOW :: u32 where "OUTPUT_LOW = 16"
definition OUTPUT_HIGH :: u32 where "OUTPUT_HIGH = 32"
definition CHANGE :: u32 where "CHANGE = 64"
definition FALLING :: u32 where "FALLING = 128"
definition RISING :: u32 where "RISING = 256"
definition EXTERNAL :: u32 where "EXTERNAL = 0x80000000"

text \<open>
  The constant part of \<open>pin_t\<close> and \<open>periphery_eint_t\<close>: the port block as a word offset from \<open>ANSELA\<close>,
  the mask, and the external interrupt, if the pin has one.
\<close>

record eint_t =
  irq :: nat
  pri :: u32
  sub :: u32
  RPin :: nat
  RVal :: u32

record pin_t =
  gpio :: nat
  mask :: u16
  eint :: "eint_t option"

record board =
  pins :: "pin_t list"
  IRQ_EXTERNAL_0 :: nat
  IRQ_CHANGE_NOTICE_A :: nat
  EDGEDETECT_MASK :: u32
  ON_MASK :: u32
  cn_priority :: "nat \<Rightarrow> u32 \<times> u32"

text \<open>The registers, the mutable part of the pins, and the static counters.\<close>

record io =
  port :: "nat \<Rightarrow> u32"
  iec :: "nat \<Rightarrow> u32"
  ifs :: "nat \<Rightarrow> u32"
  ipc :: "nat \<Rightarrow> u32"
  INTCON :: u32
  rpin :: "nat \<Rightarrow> u32"
  cn_counter :: "nat \<Rightarrow> u8"
  callback :: "nat \<Rightarrow> u32"
  eint_mode :: "nat \<Rightarrow> u32"

definition port_write :: "nat \<Rightarrow> u32 \<Rightarrow> io \<Rightarrow> io" where
  "port_write a v s = s\<lparr>port := sfr_write a v (port s)\<rparr>"

abbreviation mask32 :: "pin_t \<Rightarrow> u32" where
  "mask32 p \<equiv> ucast (mask p)"

section \<open>The interrupt controller\<close>

text \<open>\<open>iec\<close> and \<open>ifs\<close> are addressed in groups of four words per 32 sources.\<close>

definition IRQ_Enable :: "nat \<Rightarrow> io \<Rightarrow> io" where
  "IRQ_Enable source s = s\<lparr>iec := sfr_write (0x10 * (source div 32) div 4 + 2) (push_bit (source mod 32) 1) (iec s)\<rparr>"

definition IRQ_Disable :: "nat \<Rightarrow> io \<Rightarrow> io" where
  "IRQ_Disable source s = s\<lparr>iec := sfr_write (0x10 * (source div 32) div 4 + 1) (push_bit (source mod 32) 1) (iec s)\<rparr>"

definition IRQ_IsEnabled :: "nat \<Rightarrow> io \<Rightarrow> bool" where
  "IRQ_IsEnabled source s \<longleftrightarrow> and (drop_bit (source mod 32) (iec s (0x10 * (source div 32) div 4))) 1 \<noteq> 0"

definition IRQ_Clear :: "nat \<Rightarrow> io \<Rightarrow> io" where
  "IRQ_Clear source s = s\<lparr>ifs := sfr_write (0x10 * (source div 32) div 4 + 1 + 0) (push_bit (source mod 32) 1) (ifs s)\<rparr>"

definition irq_set :: "nat \<Rightarrow> nat \<Rightarrow> u32 \<Rightarrow> u32 \<Rightarrow> u32" where
  "irq_set lsb msb value reg =
     (let m = push_bit (msb - lsb + 1) 1 - 1
      in or (and reg (not (push_bit lsb m))) (push_bit lsb (and value m)))"

text \<open>One \<open>IPC\<close> register holds the priorities of four sources.\<close>

definition IRQ_Priority :: "nat \<Rightarrow> u32 \<Rightarrow> u32 \<Rightarrow> io \<Rightarrow> io" where
  "IRQ_Priority source p q s =
     (let i = source div 4;
          r = ipc s i;
          r = irq_set (source * 8 mod 32 + 2) (source * 8 mod 32 + 4) (and p 7) r;
          r = irq_set (source * 8 mod 32 + 0) (source * 8 mod 32 + 1) (and q 7) r
      in s\<lparr>ipc := (ipc s)(i := r)\<rparr>)"

section \<open>Pins\<close>

definition pinMode :: "board \<Rightarrow> nat \<Rightarrow> u32 \<Rightarrow> io \<Rightarrow> io" where
  "pinMode bd pin mode s =
     (if pin < length (pins bd)
      then let p = pins bd ! pin in
        (if and mode (and INPUT_PULLUP INPUT_PULLDOWN) \<noteq> 0 then s
         else let s = port_write (gpio p + ANSEL + REG_CLR) (mask32 p) s;
                  s = port_write (gpio p + CNPU + REG_CLR) (mask32 p) s;
                  s = port_write (gpio p + CNPD + REG_CLR) (mask32 p) s
              in (if mode = OUTPUT then port_write (gpio p + TRIS + REG_CLR) (mask32 p) s
                  else if mode = OUTPUT_HIGH
                  then port_write (gpio p + TRIS + REG_CLR) (mask32 p) (port_write (gpio p + LAT + REG_SET) (mask32 p) s)
                  else if mode = OUTPUT_LOW
                  then port_write (gpio p + TRIS + REG_CLR) (mask32 p) (port_write (gpio p + LAT + REG_CLR) (mask32 p) s)
                  else if and mode INPUT_PULLUP \<noteq> 0 then port_write (gpio p + CNPU + REG_SET) (mask32 p) s
                  else if and mode INPUT_PULLDOWN \<noteq> 0 then port_write (gpio p + CNPD + REG_SET) (mask32 p) s
                  else port_write (gpio p + TRIS + REG_SET) (mask32 p) s))
      else s)"

definition digitalRead :: "board \<Rightarrow> nat \<Rightarrow> io \<Rightarrow> int" where
  "digitalRead bd pin s =
     (if pin < length (pins bd)
      then let p = pins bd ! pin in if and (port s (gpio p + PORT)) (mask32 p) \<noteq> 0 then 1 else 0
      else - 1)"

definition digitalWrite :: "board \<Rightarrow> nat \<Rightarrow> u32 \<Rightarrow> io \<Rightarrow> io" where
  "digitalWrite bd pin val s =
     (if pin < length (pins bd)
      then let p = pins bd ! pin in port_write (gpio p + (LAT + REG_CLR) + (if val \<noteq> 0 then 1 else 0)) (mask32 p) s
      else s)"

definition digitalToggle :: "board \<Rightarrow> nat \<Rightarrow> io \<Rightarrow> io" where
  "digitalToggle bd pin s =
     (if pin < length (pins bd)
      then let p = pins bd ! pin in port_write (gpio p + LAT + REG_INV) (mask32 p) s
      else s)"

definition detachInterrupt :: "board \<Rightarrow> nat \<Rightarrow> io \<Rightarrow> io" where
  "detachInterrupt bd pin s =
     (if pin < length (pins bd)
      then let p = pins bd ! pin;
               id = gpio p div GPIO_W_SIZE;
               i = IRQ_CHANGE_NOTICE_A bd + id;
               s = port_write (gpio p + CNEN + REG_CLR) (mask32 p) s;
               s = s\<lparr>cn_counter := (cn_counter s)(id := cn_counter s id - 1)\<rparr>;
               s = (if cn_counter s id = 0 then IRQ_Disable i s else s);
               s = (case eint p of None \<Rightarrow> s | Some e \<Rightarrow> IRQ_Disable (irq e) s)
           in s\<lparr>callback := (callback s)(pin := 0)\<rparr>
      else s)"

text \<open>\<open>func\<close> is a code address. \<open>RPin\<close> 0 is the null register pointer.\<close>

definition attachInterrupt :: "board \<Rightarrow> nat \<Rightarrow> u32 \<Rightarrow> u32 \<Rightarrow> io \<Rightarrow> io" where
  "attachInterrupt bd pin func mode s =
     (if pin < length (pins bd) \<and> func \<noteq> 0
      then let p = pins bd ! pin;
               s = detachInterrupt bd pin s;
               s = pinMode bd pin mode s;
               finish = (\<lambda>i s. IRQ_Enable i (IRQ_Clear i (s\<lparr>callback := (callback s)(pin := func)\<rparr>)))
           in (if and mode EXTERNAL \<noteq> 0
               then (case eint p of
                   Some e \<Rightarrow>
                     let s = (if RPin e \<noteq> 0 then s\<lparr>rpin := (rpin s)(RPin e := RVal e)\<rparr> else s);
                         id = (irq e - IRQ_EXTERNAL_0 bd) div 5;
                         s = IRQ_Priority (irq e) (pri e) (sub e) s;
                         s = s\<lparr>eint_mode := (eint_mode s)(pin := mode)\<rparr>;
                         s = s\<lparr>INTCON := or (INTCON s) (push_bit id (if and mode RISING \<noteq> 0 then 1 else 0))\<rparr>
                     in finish (irq e) s
                 | None \<Rightarrow> s)
               else let id = gpio p div GPIO_W_SIZE;
                        i = IRQ_CHANGE_NOTICE_A bd + id;
                        s = (if and mode CHANGE \<noteq> 0
                             then port_write (gpio p + CNCON + REG_CLR) (EDGEDETECT_MASK bd) s
                             else let s = port_write (gpio p + CNCON + REG_SET) (EDGEDETECT_MASK bd) s
                                  in if and mode FALLING \<noteq> 0
                                     then port_write (gpio p + CNNE + REG_SET) (mask32 p) s
                                     else port_write (gpio p + CNNE + REG_CLR) (mask32 p) s);
                        s = port_write (gpio p + CNCON + REG_SET) (ON_MASK bd) s;
                        s = port_write (gpio p + CNF + REG_CLR) (mask32 p) s;
                        s = port_write (gpio p + CNEN + REG_SET) (mask32 p) s;
                        s = s\<lparr>cn_counter := (cn_counter s)(id := cn_counter s id + 1)\<rparr>;
                        s = IRQ_Priority i (fst (cn_priority bd id)) (snd (cn_priority bd id)) s
                    in finish i s)
      else s)"

text \<open>
  The change notice interrupt: every pin of the port with a callback whose event bit is set has its
  callback called and its bits cleared, in pin order. \<open>run c\<close> is what the code at \<open>c\<close> does.
\<close>

definition c_pin :: "(u32 \<Rightarrow> io \<Rightarrow> io) \<Rightarrow> board \<Rightarrow> nat \<Rightarrow> u32 \<Rightarrow> nat \<Rightarrow> io \<Rightarrow> io" where
  "c_pin run bd g event pin s =
     (let p = pins bd ! pin
      in if callback s pin \<noteq> 0 \<and> gpio p = g \<and> and (mask32 p) event \<noteq> 0
         then let s = run (callback s pin) s;
                  s = port_write (g + CNF + REG_CLR) (mask32 p) s
              in port_write (g + CNSTAT + REG_CLR) (mask32 p) s
         else s)"

definition c_handler :: "(u32 \<Rightarrow> io \<Rightarrow> io) \<Rightarrow> board \<Rightarrow> nat \<Rightarrow> io \<Rightarrow> io" where
  "c_handler run bd i s =
     (let g = (i - IRQ_CHANGE_NOTICE_A bd) * GPIO_W_SIZE;
          event = or (port s (g + CNSTAT)) (port s (g + CNF))
      in IRQ_Clear i (fold (c_pin run bd g event) [0..<length (pins bd)] s))"

fun i_loop :: "(u32 \<Rightarrow> io \<Rightarrow> io) \<Rightarrow> board \<Rightarrow> nat \<Rightarrow> nat list \<Rightarrow> io \<Rightarrow> io" where
  "i_loop run bd i [] s = s"
| "i_loop run bd i (pin # js) s =
     (case eint (pins bd ! pin) of
        Some e \<Rightarrow>
          if callback s pin \<noteq> 0 \<and> irq e = i
          then let s = run (callback s pin) s
               in if and (eint_mode s pin) CHANGE \<noteq> 0
                  then s\<lparr>INTCON := xor (INTCON s) (push_bit ((irq e - IRQ_EXTERNAL_0 bd) div 5) 1)\<rparr> else s
          else i_loop run bd i js s
      | None \<Rightarrow> i_loop run bd i js s)"

definition i_handler :: "(u32 \<Rightarrow> io \<Rightarrow> io) \<Rightarrow> board \<Rightarrow> nat \<Rightarrow> io \<Rightarrow> io" where
  "i_handler run bd i s = IRQ_Clear i (i_loop run bd i [0..<length (pins bd)] s)"

text \<open>The first power of two that brings the period into 16 bits; \<open>pb\<close> is the peripheral clock.\<close>

fun prescaler_loop :: "nat \<Rightarrow> nat \<Rightarrow> u32 \<Rightarrow> u32" where
  "prescaler_loop 0 i frequency = 7"
| "prescaler_loop (Suc n) i frequency =
     (if frequency div push_bit i 1 < 0x10000 then of_nat i else prescaler_loop n (i + 1) frequency)"

definition PWM_prescaler :: "u32 \<Rightarrow> u32 \<Rightarrow> u32" where
  "PWM_prescaler pb frequency =
     (if frequency \<noteq> 0 then let frequency = pb div frequency in prescaler_loop 8 0 frequency else 7)"

section \<open>Lemmas\<close>

lemma sfr_clear: "4 dvd b \<Longrightarrow> sfr_write (b + REG_CLR) v r = r(b := and (r b) (not v))"
  and sfr_set: "4 dvd b \<Longrightarrow> sfr_write (b + REG_SET) v r = r(b := or (r b) v)"
  and sfr_invert: "4 dvd b \<Longrightarrow> sfr_write (b + REG_INV) v r = r(b := xor (r b) v)"
proof -
  assume "4 dvd b"
  then have "(b + 1) mod 4 = 1" "(b + 2) mod 4 = 2" "(b + 3) mod 4 = 3" by presburger+
  then show "sfr_write (b + REG_CLR) v r = r(b := and (r b) (not v))"
    "sfr_write (b + REG_SET) v r = r(b := or (r b) v)" "sfr_write (b + REG_INV) v r = r(b := xor (r b) v)"
    by (simp_all add: sfr_write_def REG_CLR_def REG_SET_def REG_INV_def)
qed

lemma port_clear: "4 dvd b \<Longrightarrow> port_write (b + REG_CLR) v s = s\<lparr>port := (port s)(b := and (port s b) (not v))\<rparr>"
  and port_set: "4 dvd b \<Longrightarrow> port_write (b + REG_SET) v s = s\<lparr>port := (port s)(b := or (port s b) v)\<rparr>"
  and port_invert: "4 dvd b \<Longrightarrow> port_write (b + REG_INV) v s = s\<lparr>port := (port s)(b := xor (port s b) v)\<rparr>"
  by (simp_all add: port_write_def sfr_clear sfr_set sfr_invert)

lemma offsets_aligned [simp]:
  "4 dvd ANSEL" "4 dvd TRIS" "4 dvd PORT" "4 dvd LAT" "4 dvd CNPU" "4 dvd CNPD" "4 dvd CNCON" "4 dvd CNEN"
  "4 dvd CNSTAT" "4 dvd CNNE" "4 dvd CNF"
  by (simp_all add: ANSEL_def TRIS_def PORT_def LAT_def CNPU_def CNPD_def CNCON_def CNEN_def CNSTAT_def CNNE_def CNF_def)

lemmas port_writes = port_clear port_set port_invert

text \<open>The pin table is well formed: every port block starts at a multiple of the block size.\<close>

definition board_ok :: "board \<Rightarrow> bool" where
  "board_ok bd \<longleftrightarrow> (\<forall>p \<in> set (pins bd). GPIO_W_SIZE dvd gpio p)"

lemma board_aligned:
  assumes "board_ok bd" and "pin < length (pins bd)"
  shows "4 dvd gpio (pins bd ! pin)"
proof -
  have "64 dvd gpio (pins bd ! pin)" using assms by (simp add: board_ok_def GPIO_W_SIZE_def)
  then show ?thesis by (rule dvd_trans [rotated]) simp
qed

text \<open>The enable bit of a source.\<close>

lemma group_index: "0x10 * (i div 32) div 4 = 4 * (i div 32)" for i :: nat
  by presburger

lemma IRQ_IsEnabled_bit: "IRQ_IsEnabled i s = bit (iec s (4 * (i div 32))) (i mod 32)"
proof -
  have "and (drop_bit n w) 1 \<noteq> 0 \<longleftrightarrow> bit w n" for n and w :: u32
    by (simp add: and_one_eq bit_iff_odd_drop_bit flip: odd_iff_mod_2_eq_one)
  then show ?thesis unfolding IRQ_IsEnabled_def group_index by simp
qed

lemma IRQ_Enable_iec: "iec (IRQ_Enable i s) = (iec s)(4 * (i div 32) := or (iec s (4 * (i div 32))) (push_bit (i mod 32) 1))"
  unfolding IRQ_Enable_def group_index using sfr_set [of "4 * (i div 32)"] by (simp add: REG_SET_def)

lemma IRQ_Disable_iec: "iec (IRQ_Disable i s) = (iec s)(4 * (i div 32) := and (iec s (4 * (i div 32))) (not (push_bit (i mod 32) 1)))"
  unfolding IRQ_Disable_def group_index using sfr_clear [of "4 * (i div 32)"] by (simp add: REG_CLR_def)

lemma one_bit: "i < 32 \<Longrightarrow> bit (2 ^ i :: u32) n \<longleftrightarrow> n = i"
  unfolding bit_exp_iff by auto

section \<open>Properties\<close>

text \<open>
  Enabling a source enables it and no other; disabling a source disables it and no other.
\<close>

theorem IRQ_Enable_only_source:
  "IRQ_IsEnabled j (IRQ_Enable i s) = (j = i \<or> IRQ_IsEnabled j s)
    \<and> IRQ_IsEnabled j (IRQ_Disable i s) = (j \<noteq> i \<and> IRQ_IsEnabled j s)"
proof -
  have same: "i div 32 = j div 32 \<and> i mod 32 = j mod 32 \<longleftrightarrow> i = j" by (metis mod_div_mult_eq)
  have m: "i mod 32 < 32" "j mod 32 < 32" by simp_all
  show ?thesis
  proof (cases "i div 32 = j div 32")
    case True
    then show ?thesis using same m
      by (auto simp: IRQ_IsEnabled_bit IRQ_Enable_iec IRQ_Disable_iec bit_or_iff bit_and_iff bit_not_iff one_bit)
  next
    case False
    then show ?thesis by (auto simp: IRQ_IsEnabled_bit IRQ_Enable_iec IRQ_Disable_iec)
  qed
qed

text \<open>
  \<open>digitalWrite\<close> changes the latch bits of its pin and nothing else, \<open>digitalToggle\<close> twice is no
  change, and a pin number out of range changes nothing and reads -1.
\<close>

theorem digitalWrite_only_its_pin:
  assumes "board_ok bd"
  shows "digitalWrite bd pin v s = (if pin < length (pins bd)
      then let a = gpio (pins bd ! pin) + LAT; m = mask32 (pins bd ! pin)
           in s\<lparr>port := (port s)(a := if v \<noteq> 0 then or (port s a) m else and (port s a) (not m))\<rparr>
      else s)
    \<and> digitalToggle bd pin (digitalToggle bd pin s) = s
    \<and> (length (pins bd) \<le> pin \<longrightarrow> digitalRead bd pin s = - 1)"
proof (cases "pin < length (pins bd)")
  case True
  have al: "4 dvd gpio (pins bd ! pin) + LAT" using board_aligned [OF assms True] by simp
  have c: "gpio (pins bd ! pin) + (LAT + REG_CLR) + (if v \<noteq> 0 then 1 else 0)
      = (gpio (pins bd ! pin) + LAT) + (if v \<noteq> 0 then REG_SET else REG_CLR)"
    by (simp add: REG_CLR_def REG_SET_def)
  have "xor (xor x m) m = x" for x m :: u32 by (simp add: xor.assoc)
  then have "digitalToggle bd pin (digitalToggle bd pin s) = s"
    using True by (simp add: digitalToggle_def Let_def port_invert [OF al])
  then show ?thesis using True
    by (simp add: digitalWrite_def Let_def c port_clear [OF al] port_set [OF al])
next
  case False
  then show ?thesis by (simp add: digitalWrite_def digitalToggle_def digitalRead_def)
qed

lemma digitalWrite_only_its_pin_witness:
  "let bd = \<lparr>pins = [\<lparr>gpio = 64, mask = 8, eint = None\<rparr>], IRQ_EXTERNAL_0 = 3, IRQ_CHANGE_NOTICE_A = 118,
       EDGEDETECT_MASK = 0x800, ON_MASK = 0x8000, cn_priority = (\<lambda>_. (1, 0))\<rparr>
   in \<forall>s. digitalToggle bd 0 (digitalToggle bd 0 s) = s \<and> digitalRead bd 1 s = - 1"
  using digitalWrite_only_its_pin [of "\<lparr>pins = [\<lparr>gpio = 64, mask = 8, eint = None\<rparr>], IRQ_EXTERNAL_0 = 3,
      IRQ_CHANGE_NOTICE_A = 118, EDGEDETECT_MASK = 0x800, ON_MASK = 0x8000, cn_priority = (\<lambda>_. (1, 0))\<rparr>" 1 0]
    digitalWrite_only_its_pin [of "\<lparr>pins = [\<lparr>gpio = 64, mask = 8, eint = None\<rparr>], IRQ_EXTERNAL_0 = 3,
      IRQ_CHANGE_NOTICE_A = 118, EDGEDETECT_MASK = 0x800, ON_MASK = 0x8000, cn_priority = (\<lambda>_. (1, 0))\<rparr>" 0 0]
  by (simp add: board_ok_def GPIO_W_SIZE_def)

text \<open>
  What \<open>pinMode\<close> does to the direction of the pin: the output modes clear its bit of \<open>TRIS\<close>, a mode
  without output or pull flags sets it, and the two pull-up and pull-down modes leave the direction as it
  was, so that a pin that was an output stays one.
\<close>

theorem pinMode_direction:
  assumes "board_ok bd" and "pin < length (pins bd)"
  defines "m \<equiv> mask32 (pins bd ! pin)" and "a \<equiv> gpio (pins bd ! pin) + TRIS"
  shows "port (pinMode bd pin mode s) a =
    (if mode = OUTPUT \<or> mode = OUTPUT_HIGH \<or> mode = OUTPUT_LOW then and (port s a) (not m)
     else if and mode INPUT_PULLUP \<noteq> 0 \<or> and mode INPUT_PULLDOWN \<noteq> 0 then port s a
     else or (port s a) m)"
proof -
  note al = board_aligned [OF assms(1,2)]
  have z: "and mode (and INPUT_PULLUP INPUT_PULLDOWN) = 0" by (simp add: INPUT_PULLUP_def INPUT_PULLDOWN_def)
  have d: "4 dvd gpio (pins bd ! pin) + x" if "4 dvd x" for x using al that by simp
  have w: "port_write (gpio (pins bd ! pin) + x + REG_CLR) v s
      = s\<lparr>port := (port s)(gpio (pins bd ! pin) + x := and (port s (gpio (pins bd ! pin) + x)) (not v))\<rparr>"
    "port_write (gpio (pins bd ! pin) + x + REG_SET) v s
      = s\<lparr>port := (port s)(gpio (pins bd ! pin) + x := or (port s (gpio (pins bd ! pin) + x)) v)\<rparr>"
    if "4 dvd x" for x v s using d [OF that] by (simp_all only: port_clear port_set)
  have ne: "TRIS \<noteq> ANSEL" "TRIS \<noteq> CNPU" "TRIS \<noteq> CNPD" "TRIS \<noteq> LAT"
    by (simp_all add: TRIS_def ANSEL_def CNPU_def CNPD_def LAT_def)
  show ?thesis
    using assms(2) ne by (simp add: pinMode_def Let_def z w m_def a_def)
qed

lemma pinMode_direction_witness:
  "let bd = \<lparr>pins = [\<lparr>gpio = 64, mask = 8, eint = None\<rparr>], IRQ_EXTERNAL_0 = 3, IRQ_CHANGE_NOTICE_A = 118,
       EDGEDETECT_MASK = 0x800, ON_MASK = 0x8000, cn_priority = (\<lambda>_. (1, 0))\<rparr>
   in \<forall>s. \<not> bit (port (pinMode bd 0 INPUT_PULLUP (pinMode bd 0 OUTPUT s)) 68) 3"
proof -
  let ?bd = "\<lparr>pins = [\<lparr>gpio = 64, mask = 8, eint = None\<rparr>], IRQ_EXTERNAL_0 = 3, IRQ_CHANGE_NOTICE_A = 118,
       EDGEDETECT_MASK = 0x800, ON_MASK = 0x8000, cn_priority = (\<lambda>_. (1, 0))\<rparr>"
  have ok: "board_ok ?bd" "0 < length (pins ?bd)" by (simp_all add: board_ok_def GPIO_W_SIZE_def)
  have "bit (8 :: u32) 3" by simp
  then have "\<not> bit (port (pinMode ?bd 0 INPUT_PULLUP (pinMode ?bd 0 OUTPUT s)) 68) 3" for s
    using pinMode_direction [OF ok, of INPUT_PULLUP "pinMode ?bd 0 OUTPUT s"] pinMode_direction [OF ok, of OUTPUT s]
    by (simp add: TRIS_def INPUT_PULLUP_def INPUT_PULLDOWN_def OUTPUT_def OUTPUT_HIGH_def OUTPUT_LOW_def
        bit_and_iff bit_not_iff)
  then show ?thesis by (simp add: Let_def)
qed

text \<open>
  C37: The use count of a port's change notice interrupt never counts: \<open>attachInterrupt\<close> detaches first,
  which takes the count down, and then takes it up again. From the initial count 0, attaching a pin and
  detaching it leaves the count at 255 and the interrupt source of the port enabled.
\<close>

theorem detachInterrupt_leaves_irq_enabled:
  assumes "board_ok bd" and "pin < length (pins bd)" and "func \<noteq> 0" and "and mode EXTERNAL = 0"
    and "eint (pins bd ! pin) = None"
  defines "n \<equiv> gpio (pins bd ! pin) div GPIO_W_SIZE"
  assumes "cn_counter s n = 0"
  shows "let s1 = attachInterrupt bd pin func mode s; s2 = detachInterrupt bd pin s1 in
    cn_counter s1 n = 0 \<and> callback s1 pin = func \<and> IRQ_IsEnabled (IRQ_CHANGE_NOTICE_A bd + n) s1
    \<and> cn_counter s2 n = 255 \<and> callback s2 pin = 0 \<and> IRQ_IsEnabled (IRQ_CHANGE_NOTICE_A bd + n) s2"
proof -
  let ?i = "IRQ_CHANGE_NOTICE_A bd + n"
  have pw: "cn_counter (port_write a v s) = cn_counter s" "callback (port_write a v s) = callback s"
    "iec (port_write a v s) = iec s" for a v s by (simp_all add: port_write_def)
  have pm: "cn_counter (pinMode bd pin mode s) = cn_counter s" for s
    by (simp add: pinMode_def Let_def pw)
  have irqs: "cn_counter (IRQ_Disable i s) = cn_counter s" "cn_counter (IRQ_Enable i s) = cn_counter s"
    "cn_counter (IRQ_Clear i s) = cn_counter s" "cn_counter (IRQ_Priority i p q s) = cn_counter s"
    "callback (IRQ_Enable i s) = callback s" "callback (IRQ_Clear i s) = callback s" for i p q s
    by (simp_all add: IRQ_Disable_def IRQ_Enable_def IRQ_Clear_def IRQ_Priority_def Let_def)
  define s1 where "s1 = attachInterrupt bd pin func mode s"
  have one: "(0 :: u8) - 1 = 255" by simp
  have c1: "cn_counter s1 n = 0"
    using assms by (simp add: s1_def attachInterrupt_def detachInterrupt_def Let_def pw pm irqs)
  have f1: "callback s1 pin = func"
    using assms by (simp add: s1_def attachInterrupt_def Let_def irqs)
  obtain t where t: "s1 = IRQ_Enable ?i t"
    using assms by (simp add: s1_def attachInterrupt_def Let_def)
  have e1: "IRQ_IsEnabled ?i s1"
    unfolding t IRQ_IsEnabled_bit IRQ_Enable_iec by (simp add: bit_or_iff one_bit)
  define s2 where "s2 = detachInterrupt bd pin s1"
  have "iec s2 = iec s1" "cn_counter s2 n = 255" "callback s2 pin = 0"
    using assms(2,5) c1 [unfolded n_def] one
    by (simp_all add: s2_def detachInterrupt_def Let_def pw n_def)
  then show ?thesis
    using c1 f1 e1 unfolding s1_def s2_def Let_def IRQ_IsEnabled_bit by simp
qed

lemma detachInterrupt_leaves_irq_enabled_witness:
  "let bd = \<lparr>pins = [\<lparr>gpio = 64, mask = 8, eint = None\<rparr>], IRQ_EXTERNAL_0 = 3, IRQ_CHANGE_NOTICE_A = 118,
       EDGEDETECT_MASK = 0x800, ON_MASK = 0x8000, cn_priority = (\<lambda>_. (1, 0))\<rparr>;
     s = \<lparr>port = (\<lambda>_. 0), iec = (\<lambda>_. 0), ifs = (\<lambda>_. 0), ipc = (\<lambda>_. 0), INTCON = 0, rpin = (\<lambda>_. 0),
       cn_counter = (\<lambda>_. 0), callback = (\<lambda>_. 0), eint_mode = (\<lambda>_. 0)\<rparr>
   in IRQ_IsEnabled 119 (detachInterrupt bd 0 (attachInterrupt bd 0 0x9d000000 FALLING s))"
  unfolding Let_def
  using detachInterrupt_leaves_irq_enabled [of "\<lparr>pins = [\<lparr>gpio = 64, mask = 8, eint = None\<rparr>], IRQ_EXTERNAL_0 = 3,
       IRQ_CHANGE_NOTICE_A = 118, EDGEDETECT_MASK = 0x800, ON_MASK = 0x8000, cn_priority = (\<lambda>_. (1, 0))\<rparr>" 0
     "0x9d000000" FALLING "\<lparr>port = (\<lambda>_. 0), iec = (\<lambda>_. 0), ifs = (\<lambda>_. 0), ipc = (\<lambda>_. 0), INTCON = 0, rpin = (\<lambda>_. 0),
       cn_counter = (\<lambda>_. 0), callback = (\<lambda>_. 0), eint_mode = (\<lambda>_. 0)\<rparr>"]
  by (simp add: board_ok_def GPIO_W_SIZE_def FALLING_def EXTERNAL_def Let_def)

lemma prescaler_loop_finds:
  "\<exists>k. prescaler_loop n i q = of_nat k \<and> (k = 7 \<or> (i \<le> k \<and> k < i + n \<and> q div push_bit k 1 < 0x10000))
    \<and> (\<forall>j. i \<le> j \<longrightarrow> j < i + n \<longrightarrow> q div push_bit j 1 < 0x10000 \<longrightarrow> q div push_bit k 1 < 0x10000 \<and> k \<le> j)"
proof (induction n arbitrary: i)
  case (Suc n)
  show ?case
  proof (cases "q div push_bit i 1 < 0x10000")
    case True
    then show ?thesis by (intro exI [of _ i]) auto
  next
    case False
    obtain k where k: "prescaler_loop n (i + 1) q = of_nat k"
      "k = 7 \<or> (i + 1 \<le> k \<and> k < i + 1 + n \<and> q div push_bit k 1 < 0x10000)"
      "\<forall>j. i + 1 \<le> j \<longrightarrow> j < i + 1 + n \<longrightarrow> q div push_bit j 1 < 0x10000 \<longrightarrow> q div push_bit k 1 < 0x10000 \<and> k \<le> j"
      using Suc [of "i + 1"] by blast
    have "q div push_bit k 1 < 0x10000 \<and> k \<le> j"
      if "i \<le> j" "j < i + Suc n" "q div push_bit j 1 < 0x10000" for j
    proof -
      have "j \<noteq> i" using False that(3) by blast
      then show ?thesis using k(3) [rule_format, of j] that by simp
    qed
    then have "\<forall>j. i \<le> j \<longrightarrow> j < i + Suc n \<longrightarrow> q div push_bit j 1 < 0x10000 \<longrightarrow> q div push_bit k 1 < 0x10000 \<and> k \<le> j"
      by blast
    then show ?thesis using False k(1,2) by (intro exI [of _ k]) auto
  qed
qed (auto intro: exI [of _ 7])


text \<open>
  \<open>PWM_prescaler\<close> returns the smallest of the eight powers of two that brings the timer period into
  16 bits, whenever one of them does.
\<close>

theorem PWM_prescaler_least:
  assumes "frequency \<noteq> 0" and "pb div frequency < 2 ^ 23"
  shows "\<exists>k. PWM_prescaler pb frequency = of_nat k \<and> k < 8 \<and> (pb div frequency) div push_bit k 1 < 2 ^ 16
    \<and> (\<forall>j < k. \<not> (pb div frequency) div push_bit j 1 < 2 ^ 16)"
proof -
  let ?q = "pb div frequency"
  have small: "?q div push_bit 7 1 < 0x10000"
  proof -
    have "unat ?q < 2 ^ 23" using assms(2) by (simp add: word_less_nat_alt)
    then have "unat ?q div 128 < 65536" by simp
    then show ?thesis by (simp add: word_less_nat_alt unat_div)
  qed
  obtain k where k: "prescaler_loop 8 0 ?q = of_nat k"
    "k = 7 \<or> (0 \<le> k \<and> k < 0 + 8 \<and> ?q div push_bit k 1 < 0x10000)"
    "\<forall>j. 0 \<le> j \<longrightarrow> j < 0 + 8 \<longrightarrow> ?q div push_bit j 1 < 0x10000 \<longrightarrow> ?q div push_bit k 1 < 0x10000 \<and> k \<le> j"
    using prescaler_loop_finds [of 8 0 ?q] by (elim exE conjE) (rule that)
  have "k < 8" using k(2) by auto
  moreover have "\<not> ?q div push_bit j 1 < 2 ^ 16" if "j < k" for j
    using k(3) [rule_format, of j] that \<open>k < 8\<close> by auto
  moreover have "?q div push_bit k 1 < 2 ^ 16" using k(3) [rule_format, of 7] small by simp
  ultimately show ?thesis using assms(1) k(1) by (intro exI [of _ k]) (simp add: PWM_prescaler_def Let_def)
qed

lemma PWM_prescaler_least_witness:
  "\<exists>k. PWM_prescaler 100000000 50 = of_nat k \<and> (2000000 :: u32) div push_bit k 1 < 65536
    \<and> (\<forall>j < k. \<not> (2000000 :: u32) div push_bit j 1 < 65536)"
  using PWM_prescaler_least [of 50 100000000] by auto

end
