(* ===== verification/Process.thy ===== *)
theory Process
  imports Prelude
begin

text \<open>
  The list of background processes of the Arduino loop, \<open>addProcess\<close>, \<open>delProcess\<close> and
  \<open>exeProcess\<close> of \<open>src/arduino/cores/EFM/interface.c\<close>: a linked list of callbacks in nodes obtained
  from \<open>malloc\<close>. Reading a node that is not allocated, or the null list, is undefined behaviour in C and
  \<open>None\<close> here.
\<close>

section \<open>The code\<close>

record Node =
  proc :: u32
  succ :: u32

text \<open>
  \<open>head\<close> is \<open>pListProcess->head\<close>, \<open>None\<close> while \<open>pListProcess\<close> is null; \<open>nodes\<close> are the allocated
  nodes by address. Address 0 is the null pointer.
\<close>

record procs =
  head :: "u32 option"
  nodes :: "u32 \<Rightarrow> Node option"

text \<open>\<open>p\<close> is what \<open>malloc(sizeof(Node))\<close> returned.\<close>

definition createProcess :: "u32 \<Rightarrow> u32 \<Rightarrow> procs \<Rightarrow> u32 \<times> procs" where
  "createProcess p c s =
     (if p \<noteq> 0 then (p, s\<lparr>nodes := (nodes s)(p \<mapsto> \<lparr>proc = c, succ = 0\<rparr>)\<rparr>) else (p, s))"

partial_function (option) last_loop :: "u32 \<Rightarrow> procs \<Rightarrow> u32 option" where
  "last_loop current s = do {
     n \<leftarrow> nodes s current;
     (if succ n \<noteq> 0 then last_loop (succ n) s else Some current)
   }"

text \<open>\<open>l\<close> says whether \<open>malloc(sizeof(List))\<close> succeeds, \<open>p\<close> is the node it would get.\<close>

definition addProcess :: "u32 \<Rightarrow> bool \<Rightarrow> u32 \<Rightarrow> procs \<Rightarrow> procs option" where
  "addProcess c l p s =
     (if c \<noteq> 0
      then let s = (if head s = None then if l then s\<lparr>head := Some 0\<rparr> else s else s)
           in (case head s of
                 None \<Rightarrow> Some s
               | Some h \<Rightarrow>
                   if h = 0
                   then let (p, s) = createProcess p c s in Some (s\<lparr>head := Some p\<rparr>)
                   else do {
                     current \<leftarrow> last_loop h s;
                     let (p, s) = createProcess p c s;
                     n \<leftarrow> nodes s current;
                     Some (s\<lparr>nodes := (nodes s)(current \<mapsto> n\<lparr>succ := p\<rparr>)\<rparr>)
                   })
      else Some s)"

partial_function (option) del_loop :: "u32 \<Rightarrow> u32 \<Rightarrow> u32 \<Rightarrow> u32 \<Rightarrow> procs \<Rightarrow> procs option" where
  "del_loop c h previous current s =
     (if current \<noteq> 0
      then do {
        n \<leftarrow> nodes s current;
        (if proc n = c
         then do {
           m \<leftarrow> nodes s previous;
           let s = s\<lparr>nodes := (nodes s)(previous \<mapsto> m\<lparr>succ := succ n\<rparr>)\<rparr>;
           n \<leftarrow> nodes s current;
           let s = (if current = h then s\<lparr>head := Some (succ n)\<rparr> else s);
           Some (s\<lparr>nodes := (nodes s)(current := None)\<rparr>)
         }
         else del_loop c h current (succ n) s)
      }
      else Some s)"

definition delProcess :: "u32 \<Rightarrow> procs \<Rightarrow> procs option" where
  "delProcess c s = do {
     h \<leftarrow> head s;
     del_loop c h h h s
   }"

text \<open>
  \<open>run c\<close> is what the callback at \<open>c\<close> does to the list and to the rest \<open>'w\<close> of the world, \<open>yield\<close> what
  happens during the \<open>yield()\<close> after it: with FreeRTOS that is a delay of one tick, in which other tasks may change the list.
\<close>

partial_function (option) exe_loop ::
  "(u32 \<Rightarrow> procs \<times> 'w \<Rightarrow> (procs \<times> 'w) option) \<Rightarrow> (procs \<times> 'w \<Rightarrow> (procs \<times> 'w) option) \<Rightarrow> u32 \<Rightarrow> procs \<times> 'w \<Rightarrow> (procs \<times> 'w) option" where
  "exe_loop run yield current sw =
     (if current \<noteq> 0
      then do {
        n \<leftarrow> nodes (fst sw) current;
        sw \<leftarrow> run (proc n) sw;
        sw \<leftarrow> yield sw;
        n \<leftarrow> nodes (fst sw) current;
        exe_loop run yield (succ n) sw
      }
      else Some sw)"

definition exeProcess ::
  "(u32 \<Rightarrow> procs \<times> 'w \<Rightarrow> (procs \<times> 'w) option) \<Rightarrow> (procs \<times> 'w \<Rightarrow> (procs \<times> 'w) option) \<Rightarrow> procs \<times> 'w \<Rightarrow> (procs \<times> 'w) option" where
  "exeProcess run yield sw = do {
     h \<leftarrow> head (fst sw);
     (if h \<noteq> 0 then exe_loop run yield h sw else Some sw)
   }"

section \<open>The list of callbacks\<close>

fun node_chain :: "procs \<Rightarrow> u32 \<Rightarrow> (u32 \<times> u32) list \<Rightarrow> bool" where
  "node_chain s p [] \<longleftrightarrow> p = 0"
| "node_chain s p ((q, c) # xs) \<longleftrightarrow> p = q \<and> q \<noteq> 0 \<and> (\<exists>r. nodes s q = Some \<lparr>proc = c, succ = r\<rparr> \<and> node_chain s r xs)"

text \<open>The nodes with their callbacks; \<open>pListProcess\<close> exists.\<close>

definition listed :: "procs \<Rightarrow> (u32 \<times> u32) list \<Rightarrow> bool" where
  "listed s xs \<longleftrightarrow> (\<exists>h. head s = Some h \<and> node_chain s h xs) \<and> distinct (map fst xs)"

lemma node_chain_cong: "(\<And>q. q \<in> fst ` set xs \<Longrightarrow> nodes s' q = nodes s q) \<Longrightarrow> node_chain s' p xs = node_chain s p xs"
proof (induction xs arbitrary: p)
  case (Cons x xs)
  then show ?case by (cases x) simp
qed simp

lemma node_chain_mem: "node_chain s p xs \<Longrightarrow> (q, c) \<in> set xs \<Longrightarrow> q \<noteq> 0 \<and> (\<exists>n. nodes s q = Some n \<and> proc n = c)"
  by (induction s p xs rule: node_chain.induct) auto

lemma last_loop_finds: "node_chain s p (xs @ [(q, c)]) \<Longrightarrow> last_loop p s = Some q"
proof (induction xs arbitrary: p)
  case Nil
  then show ?case by (subst last_loop.simps) auto
next
  case (Cons x xs)
  obtain a d where x: "x = (a, d)" by (cases x)
  obtain r where r: "nodes s a = Some \<lparr>proc = d, succ = r\<rparr>" "node_chain s r (xs @ [(q, c)])" "p = a"
    using Cons.prems x by auto
  have "r \<noteq> 0" using r(2) by (cases xs) auto
  then show ?case using r Cons.IH [OF r(2)] by (subst last_loop.simps) simp
qed

lemma node_chain_snoc:
  assumes "node_chain s p (xs @ [(q, c)])" and "distinct (map fst xs @ [q])" and "r \<notin> fst ` set xs \<union> {q}" and "r \<noteq> 0"
    and "nodes s' r = Some \<lparr>proc = d, succ = 0\<rparr>" and "nodes s' q = Some \<lparr>proc = c, succ = r\<rparr>"
    and "\<And>a. a \<in> fst ` set xs \<Longrightarrow> nodes s' a = nodes s a"
  shows "node_chain s' p (xs @ [(q, c), (r, d)])"
  using assms
proof (induction xs arbitrary: p)
  case (Cons x xs)
  obtain a e where x: "x = (a, e)" by (cases x)
  obtain t where t: "nodes s a = Some \<lparr>proc = e, succ = t\<rparr>" "node_chain s t (xs @ [(q, c)])" "p = a" "a \<noteq> 0"
    using Cons.prems(1) x by auto
  have "node_chain s' t (xs @ [(q, c), (r, d)])"
    by (rule Cons.IH) (use Cons.prems x t in auto)
  then show ?case using t x Cons.prems(7) [of a] by simp
qed auto

lemma addProcess_appends:
  assumes "listed s xs" and "c \<noteq> 0" and "p \<noteq> 0" and "p \<notin> fst ` set xs"
  shows "\<exists>s'. addProcess c l p s = Some s' \<and> listed s' (xs @ [(p, c)])"
proof -
  obtain h where h: "head s = Some h" "node_chain s h xs" and d: "distinct (map fst xs)"
    using assms(1) by (auto simp: listed_def)
  show ?thesis
  proof (cases xs rule: rev_cases)
    case Nil
    then show ?thesis using h assms by (auto simp: addProcess_def createProcess_def listed_def)
  next
    case (snoc ys y)
    obtain q e where y: "y = (q, e)" by (cases y)
    have ch: "node_chain s h (ys @ [(q, e)])" using h(2) snoc y by simp
    have "h \<noteq> 0" using ch by (cases ys) auto
    moreover have "q \<noteq> p" "q \<notin> fst ` set ys" "p \<notin> fst ` set ys" using assms(4) d snoc y by auto
    moreover obtain n where n: "nodes s q = Some n" "proc n = e" "q \<noteq> 0" using node_chain_mem [OF ch, of q e] by auto
    ultimately have q: "q \<noteq> 0" "q \<noteq> p" "q \<notin> fst ` set ys" "p \<notin> fst ` set ys" "h \<noteq> 0" by auto
    obtain t where t: "nodes s q = Some \<lparr>proc = e, succ = t\<rparr>" using n by (cases n) auto
    define s' where "s' = s\<lparr>nodes := (nodes s)(p \<mapsto> \<lparr>proc = c, succ = 0\<rparr>, q \<mapsto> \<lparr>proc = e, succ = p\<rparr>)\<rparr>"
    have "addProcess c l p s = Some s'"
      using h(1) assms(2,3) q last_loop_finds [OF ch] t
      by (simp add: addProcess_def createProcess_def Let_def s'_def)
    moreover have "node_chain s' h (ys @ [(q, e), (p, c)])"
      by (rule node_chain_snoc [OF ch]) (use d snoc y q assms(3) in \<open>auto simp: s'_def\<close>)
    moreover have "head s' = Some h" using h(1) by (simp add: s'_def)
    ultimately show ?thesis using d assms(4) snoc y by (auto simp: listed_def)
  qed
qed


fun delete_first :: "u32 \<Rightarrow> (u32 \<times> u32) list \<Rightarrow> (u32 \<times> u32) list" where
  "delete_first c [] = []"
| "delete_first c ((q, d) # xs) = (if d = c then xs else (q, d) # delete_first c xs)"

text \<open>Unlinking inside the list, behind the node \<open>previous\<close>.\<close>

lemma del_loop_inside:
  assumes "node_chain s q xs" and "nodes s p = Some \<lparr>proc = d, succ = q\<rparr>" and "distinct (p # map fst xs)"
    and "h \<notin> fst ` set xs"
  shows "\<exists>s' r. del_loop c h p q s = Some s' \<and> node_chain s' r (delete_first c xs) \<and> head s' = head s
    \<and> nodes s' p = Some \<lparr>proc = d, succ = r\<rparr> \<and> (\<forall>a. a \<noteq> p \<longrightarrow> a \<notin> fst ` set xs \<longrightarrow> nodes s' a = nodes s a)"
  using assms
proof (induction xs arbitrary: p d q)
  case Nil
  then show ?case by (subst del_loop.simps) auto
next
  case (Cons x xs)
  obtain a e where x: "x = (a, e)" by (cases x)
  obtain t where t: "nodes s a = Some \<lparr>proc = e, succ = t\<rparr>" "node_chain s t xs" "q = a" "a \<noteq> 0"
    using Cons.prems(1) x by auto
  have ne: "a \<noteq> p" "a \<noteq> h" using Cons.prems x by auto
  show ?case
  proof (cases "e = c")
    case True
    define s' where "s' = s\<lparr>nodes := (nodes s)(p \<mapsto> \<lparr>proc = d, succ = t\<rparr>, a := None)\<rparr>"
    have "del_loop c h p q s = Some s'"
      using t ne Cons.prems(2) True by (subst del_loop.simps) (simp add: s'_def)
    moreover have "node_chain s' t xs = node_chain s t xs"
      by (rule node_chain_cong) (use Cons.prems(3) x in \<open>auto simp: s'_def\<close>)
    ultimately show ?thesis using t True x ne by (intro exI [of _ s'] exI [of _ t]) (auto simp: s'_def)
  next
    case False
    obtain s' r where r: "del_loop c h a t s = Some s'" "node_chain s' r (delete_first c xs)" "head s' = head s"
      "nodes s' a = Some \<lparr>proc = e, succ = r\<rparr>" "\<forall>b. b \<noteq> a \<longrightarrow> b \<notin> fst ` set xs \<longrightarrow> nodes s' b = nodes s b"
      using Cons.IH [OF t(2,1)] Cons.prems(3,4) x by auto
    have "del_loop c h p q s = Some s'" using t r(1) False by (subst del_loop.simps) simp
    moreover have "nodes s' p = Some \<lparr>proc = d, succ = a\<rparr>"
      using r(5) Cons.prems(2,3) ne t(3) x by auto
    ultimately show ?thesis using r t False x by (intro exI [of _ s'] exI [of _ a]) auto
  qed
qed

lemma fst_delete_first: "set (map fst (delete_first c xs)) \<subseteq> set (map fst xs)"
  by (induction c xs rule: delete_first.induct) auto

lemma distinct_delete_first: "distinct (map fst xs) \<Longrightarrow> distinct (map fst (delete_first c xs))"
proof (induction c xs rule: delete_first.induct)
  case (2 c q d xs)
  then show ?case using fst_delete_first [of c xs] by auto
qed simp

lemma delProcess_deletes:
  assumes "listed s xs"
  shows "\<exists>s'. delProcess c s = Some s' \<and> listed s' (delete_first c xs)"
proof -
  obtain h where h: "head s = Some h" "node_chain s h xs" and d: "distinct (map fst xs)"
    using assms by (auto simp: listed_def)
  show ?thesis
  proof (cases xs)
    case Nil
    then show ?thesis using h assms by (simp add: delProcess_def listed_def) (subst del_loop.simps, simp)
  next
    case (Cons x ys)
    obtain a e where x: "x = (a, e)" by (cases x)
    obtain t where t: "nodes s a = Some \<lparr>proc = e, succ = t\<rparr>" "node_chain s t ys" "h = a" "a \<noteq> 0"
      using h(2) Cons x by auto
    show ?thesis
    proof (cases "e = c")
      case True
      define s' where "s' = s\<lparr>head := Some t, nodes := (nodes s)(a := None)\<rparr>"
      have "delProcess c s = Some s'"
        unfolding delProcess_def h(1) using t True by (simp add: del_loop.simps [of c a a a] s'_def)
      moreover have "node_chain s' t ys = node_chain s t ys"
        by (rule node_chain_cong) (use d Cons x in \<open>auto simp: s'_def\<close>)
      ultimately show ?thesis using t d Cons x True by (auto simp: listed_def s'_def)
    next
      case False
      have da: "distinct (a # map fst ys)" "a \<notin> fst ` set ys" using d Cons x by auto
      obtain s' r where r: "del_loop c a a t s = Some s'" "node_chain s' r (delete_first c ys)" "head s' = head s"
        "nodes s' a = Some \<lparr>proc = e, succ = r\<rparr>"
        using del_loop_inside [OF t(2,1) da] by blast
      have "delProcess c s = Some s'"
        unfolding delProcess_def h(1) using t r(1) False by (simp add: del_loop.simps [of c a a a])
      moreover have "listed s' (delete_first c xs)"
        using r h(1) t Cons x False distinct_delete_first [OF d, of c] by (auto simp: listed_def)
      ultimately show ?thesis by blast
    qed
  qed
qed

section \<open>Properties\<close>

text \<open>A list with one process, for the witnesses.\<close>

definition one_proc :: procs where
  "one_proc = \<lparr>head = Some 16, nodes = [16 \<mapsto> \<lparr>proc = 7, succ = 0\<rparr>]\<rparr>"

lemma one_proc_listed: "listed one_proc [(16, 7)]"
  by (simp add: listed_def one_proc_def)

text \<open>
  \<open>addProcess\<close> appends its callback and \<open>delProcess\<close> removes the first entry of its callback, with
  the node freed, wherever it is in the list; both return, and the list stays well linked. Adding and
  then deleting a callback that was not in the list leaves the list as it was.
\<close>

theorem addProcess_delProcess:
  assumes "listed s xs" and "c \<noteq> 0" and "p \<noteq> 0" and "p \<notin> fst ` set xs"
  shows "(\<exists>s1. addProcess c l p s = Some s1 \<and> listed s1 (xs @ [(p, c)])
      \<and> (c \<notin> snd ` set xs \<longrightarrow> (\<exists>s2. delProcess c s1 = Some s2 \<and> listed s2 xs)))
    \<and> (\<exists>s1. delProcess c s = Some s1 \<and> listed s1 (delete_first c xs))"
proof -
  obtain s1 where s1: "addProcess c l p s = Some s1" "listed s1 (xs @ [(p, c)])"
    using addProcess_appends [OF assms] by blast
  have "delete_first c (xs @ [(p, c)]) = xs" if "c \<notin> snd ` set xs"
    using that by (induction xs) auto
  then show ?thesis using s1 delProcess_deletes [OF s1(2), of c] delProcess_deletes [OF assms(1), of c] by auto
qed

lemma addProcess_delProcess_witness:
  "\<exists>s1 s2. addProcess 9 True 32 one_proc = Some s1 \<and> listed s1 [(16, 7), (32, 9)]
    \<and> delProcess 9 s1 = Some s2 \<and> listed s2 [(16, 7)]"
  using addProcess_delProcess [OF one_proc_listed, of 9 32 True] by auto

text \<open>
  Before the first \<open>addProcess\<close>, \<open>delProcess\<close> and \<open>exeProcess\<close> dereference the null list, and a callback that
  removes itself, or a process that another task removes during the \<open>yield()\<close>, has its freed node read by the loop.
\<close>

lemma exeProcess_reads_freed_node:
  assumes "listed s [(p, c)]"
  shows "exeProcess run yield (s\<lparr>head := None\<rparr>, w) = None" and "delProcess c (s\<lparr>head := None\<rparr>) = None"
    and "exeProcess (\<lambda>c (s, w). map_option (\<lambda>s. (s, w)) (delProcess c s)) Some (s, w) = None"
    and "exeProcess (\<lambda>c. Some) (\<lambda>(s, w). map_option (\<lambda>s. (s, w)) (delProcess c s)) (s, w) = None"
proof -
  obtain h where h: "head s = Some h" "node_chain s h [(p, c)]" using assms by (auto simp: listed_def)
  then have n: "h = p" "p \<noteq> 0" "nodes s p = Some \<lparr>proc = c, succ = 0\<rparr>" by auto
  have "delProcess c s = Some (s\<lparr>head := Some 0, nodes := (nodes s)(p := None)\<rparr>)"
    unfolding delProcess_def h(1) using n by (simp add: del_loop.simps [of c p p p])
  then show "exeProcess (\<lambda>c (s, w). map_option (\<lambda>s. (s, w)) (delProcess c s)) Some (s, w) = None"
    "exeProcess (\<lambda>c. Some) (\<lambda>(s, w). map_option (\<lambda>s. (s, w)) (delProcess c s)) (s, w) = None"
    unfolding exeProcess_def fst_conv h(1) using n by (simp_all add: exe_loop.simps [of _ _ p])
qed (simp_all add: exeProcess_def delProcess_def)

end
