(* ===== verification/Spec2Isabelle.thy ===== *)
theory Spec2Isabelle
  imports ListClients Heap4Clients StreamBufferFifo EventGroupClaims TimersClaims SwTimers Wiring Gpio Process
begin

text \<open>
  A model of the run-time core of framework-XC32: the FreeRTOS kernel it ships for the PIC32MZ
  (\<open>src/libraries/freertos\<close>) in the configuration of \<open>FreeRTOSConfig\<close>, and the framework's own C code of
  the Arduino core (\<open>src/arduino\<close>) and of the software timers (\<open>src/src/SYS_Timers\<close>).

  \<^bold>\<open>The parts and how they interact.\<close> Every list of the kernel is a list of \<open>list.c\<close>; the scheduler of
  \<open>tasks.c\<close> keeps its tasks in such lists; queues, semaphores and mutexes of \<open>queue.c\<close> and the event groups of
  \<open>event_groups.c\<close> block and wake tasks through the scheduler's event lists and take their memory from
  \<open>heap_4.c\<close>. The kernel's timers (\<open>timers.c\<close>) are a task that takes commands from a queue. Stream buffers (\<open>stream_buffer.c\<close>) wake tasks by notifications. The Arduino core counts
  milliseconds in the core timer interrupt (\<open>wiring.c\<close>), drives and reads pins (\<open>wiring_digital.c\<close>,
  \<open>wiring_shift.c\<close>, \<open>wiring_pulse.c\<close>), runs a list of background callbacks (\<open>interface.c\<close>) and software
  timers (\<open>swTimers.c\<close>).

  \<^bold>\<open>Theories and code.\<close>
  \<^item> Prelude: machine integers, \<open>configASSERT\<close>, generic lemmas. A result \<open>None\<close> means that the C call does
    not return: a failed assertion, a null pointer, or a loop that does not end.
  \<^item> Lists, ListClients: \<open>list.c\<close> and the macros of \<open>list.h\<close> on a store of nodes with next and previous
    pointers, its abstract view as sequences with a cursor (\<open>rep\<close>), a simulation lemma per operation; then
    sortedness, stability and fairness stated on the pointer structure.
  \<^item> Heap4, Heap4Free, Heap4Blocks, Heap4Clients: \<open>heap_4.c\<close> on memory words; the free list, the heap as
    blocks that tile it, first fit and coalescing as refinements, and the interface \<open>allocator\<close> whose laws the
    clients use.
  \<^item> Kernel, KernelApi: the operations of \<open>tasks.c\<close> on the record \<open>kernel\<close>, whose fields are the file's static
    variables; a task is the address of its control block. KernelInv states the invariant over the abstract
    lists; KernelTime, KernelSched, KernelOps and KernelPrio show that the operations return, keep it, and what
    they do; KernelBoot creates tasks and starts the scheduler; KernelRun is the step relation over all
    interleavings; KernelDelay is about sleepers while the scheduler is suspended; KernelClaims holds the properties. KernelFrames (what every operation leaves alone, as the
    interface \<open>kernel_frame\<close>) and KernelEvents (waiting on and waking from event lists) are what the clients
    of the scheduler build on.
  \<^item> Queue: \<open>queue.c\<close> on the record \<open>os\<close> (scheduler, queue headers by address, heap, event groups). QueueRing
    reads the storage as a ring of items, QueueOps and QueueIrq give each attempt, each interrupt and the locked
    section in which a task goes to wait; QueueCreate ties queues to heap blocks; QueueRun is the system of
    tasks, interrupts and queues with its refinement of bounded buffers; QueueClaims holds the properties.
  \<^item> EventGroups: \<open>event_groups.c\<close>. EventGroupOps: releasing tasks and the loop over the waiting ones, with
    groups as sets of bits; EventGroupCalls: every call from a state in order, and what it does to the event
    items of other tasks; EventGroupRun: the system of scheduler, queues and event groups; EventGroupClaims
    holds the properties. QueueFrames: what the queues leave alone, so that the systems compose.
  \<^item> TaskCreate: \<open>xTaskCreate\<close> with its memory. Timers: \<open>timers.c\<close> on the record \<open>tmr\<close> (its static variables, the timers by
    address, and \<open>os\<close> below). TimersOps gives each operation of the lists of active timers its meaning in true time, a count of ticks that does not
    wrap; TimersRun the commands and any run of the daemon; TimersTask the daemon as a task that sleeps until the next deadline;
    TimersClaims holds the properties.
  \<^item> StreamBuffer, Ring, StreamBufferFifo: \<open>stream_buffer.c\<close>, the interface \<open>byte_queue\<close>, streams and messages.
  \<^item> SwTimers, Wiring, Gpio, Process: the framework's own files, each with its properties.

  \<^bold>\<open>What the lemmas show.\<close> From power on, in every state that any interleaving of tasks and interrupts
  reaches: no assertion of the modelled code fails, the highest priority ready task runs, delays end on their
  tick or when the scheduler is resumed after it (also across the wrap of the counter), timers are called back as often as they came due, allocated regions never overlap, queues are bounded buffers that
  do not disturb each other, and no wake-up is lost. Each operation has its effect stated on every branch,
  errors included; where the code misbehaves, the theorem says how.

  \<^bold>\<open>Bounds and loops.\<close> Words keep their width, and wrap-around is part of the statements. Loops are
  \<open>partial_function (option)\<close> or structural recursions; that they end is proved from the invariant, never
  assumed. The send and receive loops of the queues, which may wait for ever, are split into attempts and
  waits; the properties are about those. Sends and receives of stream buffers with a time limit are modelled, but the
  properties are about those that do not wait. A system has fewer than 128 tasks where queue locks count them, and
  fewer than \<open>2 ^ 30\<close> where list lengths do.

  \<^bold>\<open>Critical sections\<close> are atomic. Where the queue, event group and timer code only suspends the scheduler, interrupts that come
  enter at explicit points (\<open>env\<close>, listed in Queue). The scheduler's own calls (\<open>vTaskDelay\<close>, \<open>xTaskDelayUntil\<close> and
  \<open>vTaskSuspend\<close> among them) are one step each, with the interrupts before and after them.

  \<^bold>\<open>Not modelled.\<close> Vendored libraries beside the kernel (lvgl, lwIP, FatFs, TinyUSB, the MRF24WN driver):
  they are third-party code that the framework only compiles. Device headers and binary libraries: generated.
  The C++ classes of the Arduino API: the development is about the C code. The other allocators, co-routines
  and the MPU wrappers; the port's assembly. Stack and name set-up of tasks, the check for stack overflow, tracing,
  run-time statistics and thread-local storage do not influence the modelled state. The properties of mutexes
  are about inheritance in the scheduler; the reachable systems use queues, semaphores and event groups, without
  deletion.
\<close>

end
